(* ===== verification/Prelude.thy ===== *)
theory Prelude
  imports Main "HOL-Library.Word" "HOL-Library.Monad_Syntax"
begin

unbundle bit_operations_syntax

text \<open>
  Shared vocabulary of the development.

  \<^item> Rust machine integers are words (\<open>u8\<close>, \<open>u16\<close>, \<open>u32\<close>, \<open>u64\<close>, \<open>u128\<close>); \<open>usize\<close>
    quantities (lengths, indices, offsets) are natural numbers.
  \<^item> A Rust expression that may panic has an \<open>option\<close> type and \<^const>\<open>None\<close> is the panic. Integer
    arithmetic and \<open>debug_assert!\<close> are modelled as the checked build has them: an overflow, a
    negative difference or a failed assertion is \<^const>\<open>None\<close>. Where the checked model returns
    \<^const>\<open>Some\<close> no overflow happened, so the release build computes the same value.
  \<^item> \<open>std::cmp::Ordering\<close> is the datatype \<open>ordering\<close>.
  \<^item> \<open>heapless::Vec\<close> and \<open>SmallVec\<close> are lists, the former with its capacity checked.
\<close>

section \<open>Collections of facts\<close>

named_theorems panic_simps \<open>unfolding of the checked primitives\<close>
named_theorems model_defs \<open>non-recursive definitions of the model\<close>

section \<open>Machine integers\<close>

type_synonym u8 = "8 word"
type_synonym u16 = "16 word"
type_synonym u32 = "32 word"
type_synonym u64 = "64 word"
type_synonym u128 = "128 word"
type_synonym usize = nat

definition checked_add :: "'a::len word \<Rightarrow> 'a word \<Rightarrow> 'a word option" where
  "checked_add a b = (if unat a + unat b < 2 ^ LENGTH('a) then Some (a + b) else None)"

definition checked_sub :: "nat \<Rightarrow> nat \<Rightarrow> nat option" where
  "checked_sub a b = (if b \<le> a then Some (a - b) else None)"

text \<open>\<open>assert!(b)\<close> and \<open>debug_assert!(b)\<close>: a panic unless the condition holds.\<close>

definition rust_assert :: "bool \<Rightarrow> unit option" where
  "rust_assert b = (if b then Some () else None)"

lemma checked_add_Some:
  "checked_add a b = Some c \<longleftrightarrow> c = a + b \<and> unat a + unat b < 2 ^ LENGTH('a)"
  for a b c :: "'a::len word"
  by (auto simp: checked_add_def)

lemma unat_checked_add:
  "checked_add a b = Some c \<Longrightarrow> unat c = unat a + unat b"
  for a b c :: "'a::len word"
  by (auto simp: checked_add_Some unat_word_ariths)

lemma unat_bound: "unat w < 2 ^ LENGTH('a)" for w :: "'a::len word"
  by (rule unsigned_less)

text \<open>Additions that do not overflow can be regrouped.\<close>

lemma checked_add_chain:
  "checked_add x y = Some xy \<Longrightarrow> checked_add xy z = Some s \<Longrightarrow> checked_add y z = Some yz \<Longrightarrow> checked_add x yz = Some s"
  for x y z :: "'a::len word"
  using unat_checked_add [of x y xy] unat_checked_add [of y z yz] by (auto simp: checked_add_Some add.assoc)

lemma checked_add_of_nat:
  "a + b < 2 ^ LENGTH('a) \<Longrightarrow> checked_add (of_nat a) (of_nat b :: 'a::len word) = Some (of_nat (a + b))"
  by (simp add: checked_add_def unat_of_nat)

lemma checked_add_one:
  "Suc a < 2 ^ LENGTH('a) \<Longrightarrow> checked_add (of_nat a) (1 :: 'a::len word) = Some (of_nat (Suc a))"
  using checked_add_of_nat [of a 1, where 'a = 'a] by simp

lemma of_nat_word_less:
  "a < 2 ^ LENGTH('a) \<Longrightarrow> b < 2 ^ LENGTH('a) \<Longrightarrow> (of_nat a < (of_nat b :: 'a::len word)) = (a < b)"
  by (simp add: word_less_nat_alt unat_of_nat)

lemma of_nat_word_eq_0: "a < 2 ^ LENGTH('a) \<Longrightarrow> (of_nat a = (0 :: 'a::len word)) = (a = 0)"
  by (simp add: word_unat_eq_iff unat_of_nat)

text \<open>A word packed above a shorter one.\<close>

lemma unat_pack:
  fixes v :: u32 and r :: "'a::len word"
  assumes r: "unat r < 2 ^ 32"
  shows "unat (push_bit 32 (ucast v) OR ucast r :: u64) = unat v * 2 ^ 32 + unat r"
proof -
  let ?v = "unat v" and ?r = "unat r"
  have v: "?v < 2 ^ 32" using unat_bound [of v] by simp
  have "unat (push_bit 32 (ucast v) OR ucast r :: u64) = take_bit 64 (push_bit 32 (take_bit 64 ?v)) OR take_bit 64 ?r"
    by (simp add: unsigned_or_eq unsigned_push_bit_eq unsigned_ucast_eq)
  also have "\<dots> = push_bit 32 ?v OR ?r"
    using v r by (simp add: take_bit_nat_eq_self push_bit_eq_mult)
  also have "\<dots> = push_bit 32 ?v + ?r"
  proof (rule disjunctive_add_eq_or [symmetric], rule bit_eqI)
    fix n
    have "\<not> bit ?r n" if "32 \<le> n"
      using that r bit_take_bit_iff [of 32 ?r n] by (simp add: take_bit_nat_eq_self)
    then show "bit (push_bit 32 ?v AND ?r) n \<longleftrightarrow> bit 0 n"
      by (auto simp: bit_simps)
  qed
  finally show ?thesis by (simp add: push_bit_eq_mult)
qed

lemma checked_sub_Some [simp]: "checked_sub a b = Some c \<longleftrightarrow> b \<le> a \<and> c = a - b"
  by (auto simp: checked_sub_def)

lemma checked_sub_le [simp]: "b \<le> a \<Longrightarrow> checked_sub a b = Some (a - b)"
  by (simp add: checked_sub_def)

lemma rust_assert_Some [simp]: "rust_assert b = Some u \<longleftrightarrow> b"
  by (simp add: rust_assert_def)

lemma rust_assert_True [simp]: "rust_assert True = Some ()"
  by (simp add: rust_assert_def)

section \<open>Orderings\<close>

datatype ordering = Less | Equal | Greater

definition ord_cmp :: "'a::linorder \<Rightarrow> 'a \<Rightarrow> ordering" where
  "ord_cmp a b = (if a < b then Less else if a = b then Equal else Greater)"

definition then_with :: "ordering \<Rightarrow> ordering \<Rightarrow> ordering" where
  "then_with a b = (case a of Equal \<Rightarrow> b | _ \<Rightarrow> a)"

definition is_ge :: "ordering \<Rightarrow> bool" where
  "is_ge r \<longleftrightarrow> r \<noteq> Less"

definition is_le :: "ordering \<Rightarrow> bool" where
  "is_le r \<longleftrightarrow> r \<noteq> Greater"

lemma ord_cmp_simps [simp]:
  "ord_cmp a b = Less \<longleftrightarrow> a < b"
  "ord_cmp a b = Equal \<longleftrightarrow> a = b"
  "ord_cmp a b = Greater \<longleftrightarrow> b < a"
  by (auto simp: ord_cmp_def)

lemma ord_cmp_refl [simp]: "ord_cmp a a = Equal"
  by (simp add: ord_cmp_def)

section \<open>Lists\<close>

text \<open>\<open>slice::get\<close>, \<open>last\<close> and \<open>first\<close>.\<close>

definition get_opt :: "'a list \<Rightarrow> nat \<Rightarrow> 'a option" where
  "get_opt xs i = (if i < length xs then Some (xs ! i) else None)"

definition last_opt :: "'a list \<Rightarrow> 'a option" where
  "last_opt xs = (if xs = [] then None else Some (last xs))"

definition first_opt :: "'a list \<Rightarrow> 'a option" where
  "first_opt xs = (case xs of [] \<Rightarrow> None | x # _ \<Rightarrow> Some x)"

text \<open>\<open>Vec::resize(n, v)\<close>.\<close>

definition resize :: "nat \<Rightarrow> 'a \<Rightarrow> 'a list \<Rightarrow> 'a list" where
  "resize n v xs = take n xs @ replicate (n - length xs) v"

lemma length_resize [simp]: "length (resize n v xs) = n"
  by (simp add: resize_def)

lemma nth_resize: "i < n \<Longrightarrow> resize n v xs ! i = (if i < length xs then xs ! i else v)"
  by (auto simp: resize_def nth_append)

lemma last_opt_simps [simp]:
  "last_opt [] = None"
  "last_opt (xs @ [x]) = Some x"
  by (simp_all add: last_opt_def)

lemma neq_Nil_conv_rev: "xs \<noteq> [] \<longleftrightarrow> (\<exists>ys y. xs = ys @ [y])"
  by (cases xs rule: rev_cases) auto

lemma first_opt_simps [simp]:
  "first_opt [] = None"
  "first_opt (x # xs) = Some x"
  by (simp_all add: first_opt_def)

lemma last_opt_eq_None [simp]: "last_opt xs = None \<longleftrightarrow> xs = []"
  by (simp add: last_opt_def)

lemma get_opt_Some [simp]: "get_opt xs i = Some x \<longleftrightarrow> i < length xs \<and> x = xs ! i"
  by (auto simp: get_opt_def)

lemma get_opt_None [simp]: "get_opt xs i = None \<longleftrightarrow> length xs \<le> i"
  by (auto simp: get_opt_def)

end
