(* ===== verification/Clock.thy ===== *)
theory Clock
  imports Prelude
begin

text \<open>
  \<open>crates/clock/src/clock.rs\<close>: replica identifiers, Lamport timestamps and version vectors
  (\<open>Global\<close>). The structs whose \<open>Ord\<close> the code uses are single-constructor datatypes so that
  they can be instances of \<open>linorder\<close>; \<open>Global\<close> is a record over the list of its \<open>SmallVec\<close>.
\<close>

unbundle bit_operations_syntax

section \<open>Replica identifiers\<close>

datatype replica_id = ReplicaId (as_u16: u16)

definition LOCAL :: replica_id where "LOCAL = ReplicaId 0"
definition REMOTE_SERVER :: replica_id where "REMOTE_SERVER = ReplicaId 1"
definition AGENT :: replica_id where "AGENT = ReplicaId 2"
definition LOCAL_BRANCH :: replica_id where "LOCAL_BRANCH = ReplicaId 3"
definition FIRST_COLLAB_ID :: replica_id where "FIRST_COLLAB_ID = ReplicaId 8"

instantiation replica_id :: linorder
begin

definition less_eq_replica_id :: "replica_id \<Rightarrow> replica_id \<Rightarrow> bool" where
  "a \<le> b \<longleftrightarrow> as_u16 a \<le> as_u16 b"

definition less_replica_id :: "replica_id \<Rightarrow> replica_id \<Rightarrow> bool" where
  "a < b \<longleftrightarrow> as_u16 a < as_u16 b"

instance
  by standard (auto simp: less_eq_replica_id_def less_replica_id_def replica_id.expand)

end

definition is_remote :: "replica_id \<Rightarrow> bool" where
  "is_remote r \<longleftrightarrow> r = REMOTE_SERVER \<or> r \<ge> FIRST_COLLAB_ID"

section \<open>Lamport timestamps\<close>

datatype lamport = Lamport (lam_value: u32) (lam_replica: replica_id)

text \<open>\<open>Ord for Lamport\<close>: the value, ties broken by the replica.\<close>

definition lamport_cmp :: "lamport \<Rightarrow> lamport \<Rightarrow> ordering" where
  "lamport_cmp a b =
     then_with (ord_cmp (lam_value a) (lam_value b)) (ord_cmp (lam_replica a) (lam_replica b))"

lemma lamport_cmp_Less:
  "lamport_cmp a b = Less \<longleftrightarrow>
     lam_value a < lam_value b \<or> lam_value a = lam_value b \<and> lam_replica a < lam_replica b"
  by (auto simp: lamport_cmp_def then_with_def ord_cmp_def)

instantiation lamport :: linorder
begin

definition less_lamport :: "lamport \<Rightarrow> lamport \<Rightarrow> bool" where
  "a < b \<longleftrightarrow> lamport_cmp a b = Less"

definition less_eq_lamport :: "lamport \<Rightarrow> lamport \<Rightarrow> bool" where
  "a \<le> b \<longleftrightarrow> a = b \<or> a < (b :: lamport)"

instance
proof
  fix x y :: lamport
  show "x \<le> y \<or> y \<le> x"
    by (auto simp: less_lamport_def less_eq_lamport_def lamport_cmp_Less)
      (metis lamport.expand linorder_neqE)
qed (auto simp: less_lamport_def less_eq_lamport_def lamport_cmp_Less lamport.expand)

end

lemma lamport_less_iff:
  "a < b \<longleftrightarrow> lam_value a < lam_value b \<or>
     lam_value a = lam_value b \<and> lam_replica a < lam_replica b"
  for a b :: lamport
  by (simp add: less_lamport_def lamport_cmp_Less)

lemma lamport_cmp_ord_cmp: "lamport_cmp a b = ord_cmp a b"
  by (cases a; cases b)
    (auto simp: lamport_cmp_def ord_cmp_def then_with_def lamport_less_iff)

definition lamport_MIN :: lamport where
  "lamport_MIN = Lamport 0 (ReplicaId 0)"

definition lamport_MAX :: lamport where
  "lamport_MAX = Lamport (- 1) (ReplicaId (- 1))"

definition lamport_new :: "replica_id \<Rightarrow> lamport" where
  "lamport_new r = Lamport 1 r"

definition as_u64 :: "lamport \<Rightarrow> u64" where
  "as_u64 t = push_bit 32 (ucast (lam_value t)) OR ucast (as_u16 (lam_replica t))"

text \<open>\<open>tick\<close> returns the current timestamp and advances; \<open>observe\<close> jumps past what it saw.\<close>

definition tick :: "lamport \<Rightarrow> (lamport \<times> lamport) option" where
  "tick c = do {
     v \<leftarrow> checked_add (lam_value c) 1;
     Some (c, Lamport v (lam_replica c))
   }"

definition lamport_observe :: "lamport \<Rightarrow> lamport \<Rightarrow> lamport option" where
  "lamport_observe c t = do {
     v \<leftarrow> checked_add (max (lam_value c) (lam_value t)) 1;
     Some (Lamport v (lam_replica c))
   }"

lemma lamport_MIN_le [simp]: "lamport_MIN \<le> t"
  by (cases t rule: lamport.exhaust, rename_tac v r, case_tac r)
    (auto simp: lamport_MIN_def less_eq_lamport_def lamport_less_iff less_replica_id_def
      word_gt_0)

lemma lamport_le_MAX [simp]: "t \<le> lamport_MAX"
  by (cases t rule: lamport.exhaust, rename_tac v r, case_tac r)
    (auto simp: lamport_MAX_def less_eq_lamport_def lamport_less_iff less_replica_id_def
      simp flip: word_order.not_eq_extremum)

lemma less_of_checked_succ:
  "checked_add a 1 = Some v \<Longrightarrow> a < v" for a v :: u32
  by (drule unat_checked_add) (simp add: word_less_nat_alt)

lemma tick_Some:
  "tick c = Some (t, c') \<Longrightarrow> t = c \<and> c < c' \<and> lam_replica c' = lam_replica c"
  by (auto simp: tick_def bind_eq_Some_conv lamport_less_iff dest: less_of_checked_succ)

lemma lamport_observe_Some:
  "lamport_observe c t = Some c' \<Longrightarrow> c < c' \<and> t < c' \<and> lam_replica c' = lam_replica c"
  by (auto simp: lamport_observe_def bind_eq_Some_conv lamport_less_iff
      dest!: less_of_checked_succ)


text \<open>
  One replica's clock over time: local operations tick it, received operations are observed.
  The run collects the timestamps the ticks hand out.
\<close>

datatype clock_event = Tick | Observe lamport

fun clock_run :: "lamport \<Rightarrow> clock_event list \<Rightarrow> (lamport list \<times> lamport) option" where
  "clock_run c [] = Some ([], c)"
| "clock_run c (Tick # es) = do {
     (t, c') \<leftarrow> tick c;
     (ts, c'') \<leftarrow> clock_run c' es;
     Some (t # ts, c'')
   }"
| "clock_run c (Observe t # es) = do {
     c' \<leftarrow> lamport_observe c t;
     clock_run c' es
   }"

lemma clock_run_bounds:
  "clock_run c es = Some (ts, c') \<Longrightarrow>
     c \<le> c' \<and> lam_replica c' = lam_replica c \<and> sorted_wrt (<) ts \<and>
     (\<forall>t \<in> set ts. c \<le> t \<and> t < c' \<and> lam_replica t = lam_replica c)"
proof (induction c es arbitrary: ts c' rule: clock_run.induct)
  case (1 c)
  then show ?case by simp
next
  case (2 c es)
  from "2.prems" obtain c1 ts1 where *: "tick c = Some (c, c1)"
    "clock_run c1 es = Some (ts1, c')" and ts: "ts = c # ts1"
    by (fastforce simp: bind_eq_Some_conv dest: tick_Some)
  from tick_Some [OF *(1)] "2.IH" [OF *(1) refl *(2)] show ?case
    by (auto simp: ts)
next
  case (3 c t es)
  then obtain c1 where *: "lamport_observe c t = Some c1" "clock_run c1 es = Some (ts, c')"
    by (auto simp: bind_eq_Some_conv)
  from lamport_observe_Some [OF *(1)] "3.IH" [OF *] show ?case
    by (auto intro: order.trans)
qed

section \<open>Version vectors\<close>

record global =
  gvalues :: "u32 list"

definition global_new :: global where
  "global_new = \<lparr>gvalues = []\<rparr>"

definition global_get :: "global \<Rightarrow> replica_id \<Rightarrow> u32" where
  "global_get g r = (case get_opt (gvalues g) (unat (as_u16 r)) of Some v \<Rightarrow> v | None \<Rightarrow> 0)"

definition global_observe :: "global \<Rightarrow> lamport \<Rightarrow> global option" where
  "global_observe g t = do {
     rust_assert (lam_replica t \<noteq> lam_replica lamport_MAX);
     Some (if lam_value t > 0 then
             let ix = unat (as_u16 (lam_replica t));
                 vs = (if ix + 1 > length (gvalues g) then resize (ix + 1) 0 (gvalues g)
                       else gvalues g)
             in \<lparr>gvalues = vs[ix := max (vs ! ix) (lam_value t)]\<rparr>
           else g)
   }"

text \<open>The loop of \<open>join\<close>: \<open>zip\<close> stops at the shorter side, the rest of \<open>self\<close> stays.\<close>

fun join_loop :: "u32 list \<Rightarrow> u32 list \<Rightarrow> u32 list" where
  "join_loop (l # ls) (r # rs) = max l r # join_loop ls rs"
| "join_loop ls _ = ls"

definition global_join :: "global \<Rightarrow> global \<Rightarrow> global" where
  "global_join g other =
     (let vs = (if length (gvalues other) > length (gvalues g)
                then resize (length (gvalues other)) 0 (gvalues g) else gvalues g)
      in \<lparr>gvalues = join_loop vs (gvalues other)\<rparr>)"

fun meet_loop :: "nat \<Rightarrow> nat \<Rightarrow> u32 list \<Rightarrow> u32 list \<Rightarrow> u32 list \<times> nat" where
  "meet_loop ix new_len (l # ls) (r # rs) =
     (let l' = (if l = 0 then r else if r = 0 then l else min l r);
          (ls', n) = meet_loop (ix + 1) (if l' \<noteq> 0 then ix + 1 else new_len) ls rs
      in (l' # ls', n))"
| "meet_loop ix new_len ls _ = (ls, new_len)"

definition global_meet :: "global \<Rightarrow> global \<Rightarrow> global" where
  "global_meet g other =
     (let vs = (if length (gvalues other) > length (gvalues g)
                then resize (length (gvalues other)) 0 (gvalues g) else gvalues g);
          (vs', new_len) = meet_loop 0 0 vs (gvalues other)
      in \<lparr>gvalues = if length (gvalues other) = length vs' then take new_len vs' else vs'\<rparr>)"

definition global_observed :: "global \<Rightarrow> lamport \<Rightarrow> bool" where
  "global_observed g t \<longleftrightarrow> global_get g (lam_replica t) \<ge> lam_value t"

definition global_iter :: "global \<Rightarrow> lamport list" where
  "global_iter g =
     map (\<lambda>(ix, v). Lamport v (ReplicaId (of_nat ix))) (enumerate 0 (gvalues g))"

definition observed_any :: "global \<Rightarrow> global \<Rightarrow> bool" where
  "observed_any g other \<longleftrightarrow>
     list_ex (\<lambda>(l, r). lam_value r > 0 \<and> lam_value l \<ge> lam_value r)
       (zip (global_iter g) (global_iter other))"

definition observed_all :: "global \<Rightarrow> global \<Rightarrow> bool" where
  "observed_all g other \<longleftrightarrow>
     (if length (gvalues g) < length (gvalues other) then False
      else list_all (\<lambda>(l, r). lam_value l \<ge> lam_value r)
             (zip (global_iter g) (global_iter other)))"

definition changed_since :: "global \<Rightarrow> global \<Rightarrow> bool" where
  "changed_since g other \<longleftrightarrow>
     length (gvalues g) > length (gvalues other) \<or>
     list_ex (\<lambda>(l, r). l > r) (zip (gvalues g) (gvalues other))"

text \<open>\<open>Iterator::max_by_key\<close> keeps the last of several maxima.\<close>

definition most_recent :: "global \<Rightarrow> lamport option" where
  "most_recent g =
     foldl (\<lambda>acc t. case acc of None \<Rightarrow> Some t
                     | Some m \<Rightarrow> if lam_value m \<le> lam_value t then Some t else Some m)
       None (global_iter g)"

fun global_from_iter :: "global \<Rightarrow> lamport list \<Rightarrow> global option" where
  "global_from_iter g [] = Some g"
| "global_from_iter g (t # ts) = do { g' \<leftarrow> global_observe g t; global_from_iter g' ts }"


subsection \<open>The vector read as a function of the replica\<close>

definition at_ix :: "u32 list \<Rightarrow> nat \<Rightarrow> u32" where
  "at_ix vs i = (if i < length vs then vs ! i else 0)"

lemma global_get_at_ix: "global_get g r = at_ix (gvalues g) (unat (as_u16 r))"
  by (auto simp: global_get_def at_ix_def get_opt_def)

lemma at_ix_resize [simp]: "length vs \<le> n \<Longrightarrow> at_ix (resize n 0 vs) i = at_ix vs i"
  by (auto simp: at_ix_def nth_resize)

lemma at_ix_update:
  "i < length vs \<Longrightarrow> at_ix (vs[i := v]) j = (if j = i then v else at_ix vs j)"
  by (auto simp: at_ix_def nth_list_update)

lemma length_join_loop [simp]: "length (join_loop ls rs) = length ls"
  by (induction ls rs rule: join_loop.induct) auto

lemma at_ix_Cons: "at_ix (v # vs) i = (case i of 0 \<Rightarrow> v | Suc j \<Rightarrow> at_ix vs j)"
  by (auto simp: at_ix_def split: nat.splits)

lemma at_ix_Nil [simp]: "at_ix [] i = 0"
  by (simp add: at_ix_def)

lemma at_ix_join_loop:
  "length rs \<le> length ls \<Longrightarrow> at_ix (join_loop ls rs) i = max (at_ix ls i) (at_ix rs i)"
  by (induction ls rs arbitrary: i rule: join_loop.induct)
    (auto simp: at_ix_Cons max_def split: nat.splits)

definition meet_value :: "u32 \<Rightarrow> u32 \<Rightarrow> u32" where
  "meet_value l r = (if l = 0 then r else if r = 0 then l else min l r)"

lemma meet_value_0 [simp]: "meet_value 0 r = r" "meet_value l 0 = l"
  by (auto simp: meet_value_def)

lemma meet_value_eq_0 [simp]: "meet_value l r = 0 \<longleftrightarrow> l = 0 \<and> r = 0"
  by (auto simp: meet_value_def min_def)

lemma meet_loop_spec:
  "meet_loop ix n ls rs = (ls', n') \<Longrightarrow> length rs \<le> length ls \<Longrightarrow>
     length ls' = length ls \<and> (\<forall>i. at_ix ls' i = meet_value (at_ix ls i) (at_ix rs i))"
  by (induction ix n ls rs arbitrary: ls' n' rule: meet_loop.induct)
    (force simp: at_ix_Cons meet_value_def Let_def split: prod.splits nat.splits)+

text \<open>\<open>new_len\<close> ends one past the last non-zero entry that the loop produced.\<close>

lemma meet_loop_new_len:
  "meet_loop ix n ls rs = (ls', n') \<Longrightarrow> length rs = length ls \<Longrightarrow> n \<le> ix \<Longrightarrow>
     (\<forall>i < length ls. ls' ! i \<noteq> 0 \<longrightarrow> ix + i < n') \<and> n' \<le> ix + length ls \<and>
     n \<le> n' \<and> (n' = n \<or> ix < n' \<and> ls' ! (n' - ix - 1) \<noteq> 0)"
proof (induction ix n ls rs arbitrary: ls' n' rule: meet_loop.induct)
  case (1 ix n l ls r rs)
  define l' where "l' = (if l = 0 then r else if r = 0 then l else min l r)"
  define m where "m = (if l' \<noteq> 0 then ix + 1 else n)"
  obtain ls1 n1 where rec: "meet_loop (ix + 1) m ls rs = (ls1, n1)"
    by fastforce
  with "1.prems"(1) have eq: "ls' = l' # ls1" "n' = n1"
    by (auto simp: l'_def [symmetric] m_def [symmetric] Let_def)
  have len: "length ls1 = length ls"
    using meet_loop_spec [OF rec] "1.prems"(2) by simp
  have IH: "(\<forall>i < length ls. ls1 ! i \<noteq> 0 \<longrightarrow> ix + 1 + i < n1) \<and> n1 \<le> ix + 1 + length ls \<and>
     m \<le> n1 \<and> (n1 = m \<or> ix + 1 < n1 \<and> ls1 ! (n1 - (ix + 1) - 1) \<noteq> 0)"
    using "1.IH" [OF l'_def, of ls1 n1] rec "1.prems" by (simp add: m_def)
  show ?case
  proof (intro conjI allI impI)
    fix i assume "i < length (l # ls)" "ls' ! i \<noteq> 0"
    with IH show "ix + i < n'"
      by (cases i) (auto simp: eq m_def)
  next
    show "n' = n \<or> ix < n' \<and> ls' ! (n' - ix - 1) \<noteq> 0"
    proof (cases "n1 = m")
      case True
      then show ?thesis by (simp add: eq m_def)
    next
      case False
      with IH have "ix + 1 < n1" "ls1 ! (n1 - (ix + 1) - 1) \<noteq> 0" by auto
      moreover from this have "n1 - ix - 1 = Suc (n1 - (ix + 1) - 1)" by simp
      ultimately show ?thesis by (simp add: eq)
    qed
  qed (use IH "1.prems"(3) in \<open>auto simp: eq m_def split: if_splits\<close>)
qed auto

lemma at_ix_take:
  "(\<And>i. i < length vs \<Longrightarrow> vs ! i \<noteq> 0 \<Longrightarrow> i < n) \<Longrightarrow> at_ix (take n vs) i = at_ix vs i"
  by (auto simp: at_ix_def)

lemma at_ix_meet:
  "at_ix (gvalues (global_meet g h)) i = meet_value (at_ix (gvalues g) i) (at_ix (gvalues h) i)"
proof -
  define vs where "vs = (if length (gvalues h) > length (gvalues g)
    then resize (length (gvalues h)) 0 (gvalues g) else gvalues g)"
  obtain vs' n where loop: "meet_loop 0 0 vs (gvalues h) = (vs', n)"
    by fastforce
  have len: "length (gvalues h) \<le> length vs"
    by (simp add: vs_def)
  note spec = meet_loop_spec [OF loop len]
  have res: "gvalues (global_meet g h) = (if length (gvalues h) = length vs' then take n vs' else vs')"
    using loop by (simp add: global_meet_def Let_def vs_def [symmetric])
  have "at_ix (take n vs') i = at_ix vs' i" if "length (gvalues h) = length vs"
    using meet_loop_new_len [OF loop that] spec by (intro at_ix_take) auto
  then have "at_ix (gvalues (global_meet g h)) i = at_ix vs' i"
    using spec by (simp add: res)
  also have "\<dots> = meet_value (at_ix vs i) (at_ix (gvalues h) i)"
    using spec by simp
  finally show ?thesis
    by (simp add: vs_def split: if_splits)
qed


subsection \<open>Normal form: no trailing zero\<close>

text \<open>
  Every vector the code builds ends in a non-zero entry. This is what makes the length
  comparisons of \<open>observed_all\<close> and \<open>changed_since\<close> agree with the order on the entries, and what
  the comment in \<open>meet\<close> relies on.
\<close>

definition normalized :: "global \<Rightarrow> bool" where
  "normalized g \<longleftrightarrow> (gvalues g \<noteq> [] \<longrightarrow> last (gvalues g) \<noteq> 0)"

lemma normalized_at_ix:
  "normalized g \<longleftrightarrow> (gvalues g \<noteq> [] \<longrightarrow> at_ix (gvalues g) (length (gvalues g) - 1) \<noteq> 0)"
  by (simp add: normalized_def at_ix_def last_conv_nth)

lemma normalized_new: "normalized global_new"
  by (simp add: normalized_def global_new_def)

lemma global_observe_values:
  assumes "global_observe g t = Some g'" "lam_value t > 0"
  shows "length (gvalues g') = max (length (gvalues g)) (unat (as_u16 (lam_replica t)) + 1)"
    and "at_ix (gvalues g') i =
      (if i = unat (as_u16 (lam_replica t)) then max (at_ix (gvalues g) i) (lam_value t)
       else at_ix (gvalues g) i)"
  using assms
  by (auto simp: global_observe_def bind_eq_Some_conv Let_def at_ix_update max_def)
    (auto simp: at_ix_def nth_resize split: if_splits)

lemma global_observe_zero:
  "global_observe g t = Some g' \<Longrightarrow> lam_value t = 0 \<Longrightarrow> g' = g"
  by (auto simp: global_observe_def bind_eq_Some_conv)

lemma normalized_observe:
  assumes "global_observe g t = Some g'" "normalized g"
  shows "normalized g'"
proof (cases "lam_value t = 0")
  case True
  with assms show ?thesis using global_observe_zero by blast
next
  case False
  then have "lam_value t > 0" by (simp add: word_gt_0)
  note * = global_observe_values [OF assms(1) this]
  show ?thesis
    using assms(2) \<open>lam_value t > 0\<close> unfolding normalized_at_ix *
    by (auto simp: max_def split: if_splits)
qed

lemma at_ix_join:
  "at_ix (gvalues (global_join g h)) i = max (at_ix (gvalues g) i) (at_ix (gvalues h) i)"
  by (simp add: global_join_def Let_def at_ix_join_loop)

lemma length_join:
  "length (gvalues (global_join g h)) = max (length (gvalues g)) (length (gvalues h))"
  by (simp add: global_join_def Let_def)

lemma join_eq_Nil [simp]:
  "gvalues (global_join g h) = [] \<longleftrightarrow> gvalues g = [] \<and> gvalues h = []"
  unfolding length_0_conv [symmetric] length_join by (auto simp: max_def)

lemma normalized_join:
  "normalized g \<Longrightarrow> normalized h \<Longrightarrow> normalized (global_join g h)"
  unfolding normalized_at_ix length_join at_ix_join
  by (auto simp: max_def split: if_splits)

lemma normalized_meet:
  assumes "normalized g" "normalized h"
  shows "normalized (global_meet g h)"
proof -
  define vs where "vs = (if length (gvalues h) > length (gvalues g)
    then resize (length (gvalues h)) 0 (gvalues g) else gvalues g)"
  obtain vs' n where loop: "meet_loop 0 0 vs (gvalues h) = (vs', n)"
    by fastforce
  have len: "length (gvalues h) \<le> length vs"
    by (simp add: vs_def)
  note spec = meet_loop_spec [OF loop len]
  have res: "gvalues (global_meet g h) = (if length (gvalues h) = length vs' then take n vs' else vs')"
    using loop by (simp add: global_meet_def Let_def vs_def [symmetric])
  show ?thesis
  proof (cases "length (gvalues h) = length vs")
    case True
    have "take n vs' = [] \<or> last (take n vs') \<noteq> 0"
      using meet_loop_new_len [OF loop True] spec
      by (auto simp: last_conv_nth min_def split: if_splits)
    with True spec show ?thesis by (auto simp: normalized_def res)
  next
    case False
    with len have *: "length (gvalues h) < length vs" "vs = gvalues g"
      by (auto simp: vs_def split: if_splits)
    then have "at_ix (gvalues h) (length (gvalues g) - 1) = 0"
      by (auto simp: at_ix_def)
    with * have "at_ix vs' (length vs' - 1) = at_ix (gvalues g) (length (gvalues g) - 1)"
      using spec by simp
    with * assms(1) spec show ?thesis
      by (auto simp: normalized_at_ix res)
  qed
qed

lemma length_le_of_normalized:
  assumes "normalized h" "\<And>i. at_ix (gvalues h) i \<le> at_ix (gvalues g) i"
  shows "length (gvalues h) \<le> length (gvalues g)"
proof (rule ccontr)
  assume "\<not> ?thesis"
  then have "at_ix (gvalues g) (length (gvalues h) - 1) = 0" "gvalues h \<noteq> []"
    by (auto simp: at_ix_def)
  with assms show False
    by (metis normalized_at_ix word_le_0_iff)
qed

lemma map_value_global_iter [simp]: "map lam_value (global_iter g) = gvalues g"
  by (simp add: global_iter_def comp_def case_prod_beta')

lemma length_global_iter [simp]: "length (global_iter g) = length (gvalues g)"
  by (simp add: global_iter_def)

lemma value_nth_global_iter [simp]:
  "i < length (gvalues g) \<Longrightarrow> lam_value (global_iter g ! i) = gvalues g ! i"
  by (simp add: global_iter_def nth_enumerate_eq)

lemma observed_all_values:
  "observed_all g h \<longleftrightarrow> length (gvalues h) \<le> length (gvalues g) \<and>
     (\<forall>i. at_ix (gvalues h) i \<le> at_ix (gvalues g) i)"
  unfolding observed_all_def
  by (auto simp: list_all_length at_ix_def)

lemma changed_since_observed_all: "changed_since g h \<longleftrightarrow> \<not> observed_all h g"
  by (auto simp: changed_since_def observed_all_def list_all_length list_ex_length not_le)


section \<open>Properties\<close>

lemma unat_as_u64:
  "unat (as_u64 t) = unat (lam_value t) * 2 ^ 32 + unat (as_u16 (lam_replica t))"
  unfolding as_u64_def by (rule unat_pack) (use unat_bound [of "as_u16 (lam_replica t)"] in simp)

text \<open>
  Packing a timestamp into a \<open>u64\<close> (\<open>as_u64\<close>) keeps the order of \<open>Ord for Lamport\<close>
  exactly: the value occupies the high half, so comparing the packed words is comparing values
  first and replicas second.
\<close>

theorem as_u64_order: "as_u64 a < as_u64 b \<longleftrightarrow> lamport_cmp a b = Less"
proof -
  have r: "unat (as_u16 (lam_replica t)) < 2 ^ 32" for t
    using unat_bound [of "as_u16 (lam_replica t)"] by simp
  show ?thesis
    using r [of a] r [of b] unat_as_u64 [of a] unat_as_u64 [of b]
    by (auto simp: lamport_cmp_Less word_less_nat_alt less_replica_id_def word_unat_eq_iff)
qed

lemma clock_run_append:
  "clock_run c (es1 @ es2) = do {
     (ts1, c1) \<leftarrow> clock_run c es1;
     (ts2, c2) \<leftarrow> clock_run c1 es2;
     Some (ts1 @ ts2, c2)
   }"
  by (induction c es1 rule: clock_run.induct)
    (auto simp: bind_eq_Some_conv split: option.splits Option.bind_split)

lemma clock_run_length:
  "clock_run c es = Some (ts, c') \<Longrightarrow> length ts = length (filter (\<lambda>e. e = Tick) es)"
  by (induction c es arbitrary: ts c' rule: clock_run.induct) (fastforce simp: bind_eq_Some_conv)+

text \<open>
  C1. The clock condition. However local ticks and observations interleave, the timestamps a
  replica hands out are strictly increasing and carry its replica id, and every timestamp handed
  out after observing \<open>t\<close> is greater than \<open>t\<close>.
\<close>

theorem clock_condition:
  assumes "clock_run c (es1 @ Observe t # es2) = Some (ts, c')"
  shows "sorted_wrt (<) ts \<and> (\<forall>u \<in> set ts. lam_replica u = lam_replica c) \<and>
    (\<forall>u \<in> set (drop (length (filter (\<lambda>e. e = Tick) es1)) ts). t < u)"
proof -
  from assms obtain ts1 c1 ts2 c2 where run: "clock_run c es1 = Some (ts1, c1)"
    "lamport_observe c1 t = Some c2" "clock_run c2 es2 = Some (ts2, c')" and ts: "ts = ts1 @ ts2"
    by (auto simp: clock_run_append bind_eq_Some_conv)
  from clock_run_bounds [OF run(3)] lamport_observe_Some [OF run(2)]
  have "\<forall>u \<in> set ts2. t < u" by (auto intro: less_le_trans)
  moreover note clock_run_bounds [OF assms]
  ultimately show ?thesis
    using clock_run_length [OF run(1)] by (simp add: ts)
qed

theorem clock_condition_witness:
  "sorted_wrt (<) [Lamport 1 AGENT, Lamport 9 AGENT] \<and> Lamport 7 LOCAL < Lamport 9 AGENT"
proof -
  have "clock_run (Lamport 1 AGENT) ([Tick] @ Observe (Lamport 7 LOCAL) # [Observe (Lamport 2 LOCAL), Tick])
    = Some ([Lamport 1 AGENT, Lamport 9 AGENT], Lamport 10 AGENT)"
    by (simp add: tick_def lamport_observe_def checked_add_def)
  from clock_condition [OF this] show ?thesis by simp
qed

text \<open>
  C2. The clock does not overflow before \<open>u32::MAX\<close>: as long as every value seen stays at least
  as far below \<open>2 ^ 32\<close> as there are events left, no \<open>tick\<close> or \<open>observe\<close> panics.
\<close>

theorem clock_run_no_overflow:
  assumes "\<forall>t. Observe t \<in> set es \<longrightarrow> unat (lam_value t) \<le> m" "unat (lam_value c) \<le> m"
    and "m + length es < 2 ^ 32"
  shows "\<exists>ts c'. clock_run c es = Some (ts, c')"
  using assms
proof (induction c es arbitrary: m rule: clock_run.induct)
  case (1 c)
  then show ?case by simp
next
  case (2 c es)
  from "2.prems" obtain c1 where c1: "tick c = Some (c, c1)" "unat (lam_value c1) \<le> Suc m"
    by (auto simp: tick_def checked_add_def unat_word_ariths)
  from "2.IH" [OF c1(1) refl, of "Suc m"] "2.prems" c1 show ?case
    by (force simp: bind_eq_Some_conv)
next
  case (3 c t es)
  from "3.prems" obtain c1 where c1: "lamport_observe c t = Some c1" "unat (lam_value c1) \<le> Suc m"
    by (cases "lam_value c \<le> lam_value t")
      (auto simp: lamport_observe_def checked_add_def unat_word_ariths max_def)
  from "3.IH" [OF c1(1), of "Suc m"] "3.prems" c1 show ?case
    by (force simp: bind_eq_Some_conv)
qed

theorem clock_run_no_overflow_witness:
  "\<exists>ts c'. clock_run (lamport_new LOCAL) [Tick, Observe (Lamport 41 AGENT), Tick] = Some (ts, c')"
  by (rule clock_run_no_overflow [where m = 41]) (auto simp: lamport_new_def)

text \<open>
  C3. What each operation of a version vector does to the sequence number of every replica:
  \<open>observe\<close> raises the one replica's entry to the timestamp, \<open>join\<close> is the pointwise maximum and
  \<open>meet\<close> the pointwise minimum over the replicas both sides have observed, the other entries being
  kept from the side that has them.
\<close>

theorem global_get_operations:
  assumes "global_observe g t = Some g'"
  shows "global_get g' r =
      (if r = lam_replica t then max (global_get g r) (lam_value t) else global_get g r) \<and>
    global_get (global_join g h) r = max (global_get g r) (global_get h r) \<and>
    global_get (global_meet g h) r =
      (if global_get g r = 0 then global_get h r
       else if global_get h r = 0 then global_get g r
       else min (global_get g r) (global_get h r))"
proof (intro conjI)
  show "global_get g' r =
      (if r = lam_replica t then max (global_get g r) (lam_value t) else global_get g r)"
  proof (cases "lam_value t = 0")
    case True
    with global_observe_zero [OF assms] show ?thesis by simp
  next
    case False
    then have "lam_value t > 0" by (simp add: word_gt_0)
    moreover have "unat (as_u16 r) = unat (as_u16 (lam_replica t)) \<longleftrightarrow> r = lam_replica t"
      by (metis replica_id.expand word_unat_eq_iff)
    ultimately show ?thesis
      using global_observe_values(2) [OF assms] by (simp add: global_get_at_ix)
  qed
qed (simp_all add: global_get_at_ix at_ix_join at_ix_meet meet_value_def)

theorem global_get_operations_witness:
  "global_get (\<lparr>gvalues = [5, 0, 7]\<rparr>) AGENT = 7 \<and>
   global_get (global_join (\<lparr>gvalues = [5]\<rparr>) (\<lparr>gvalues = [3, 0, 4]\<rparr>)) LOCAL = 5 \<and>
   global_get (global_meet (\<lparr>gvalues = [5]\<rparr>) (\<lparr>gvalues = [3, 0, 4]\<rparr>)) LOCAL = 3"
proof -
  have "global_observe (\<lparr>gvalues = [5]\<rparr>) (Lamport 7 AGENT) = Some (\<lparr>gvalues = [5, 0, 7]\<rparr>)"
    by code_simp
  from global_get_operations [OF this, of AGENT "\<lparr>gvalues = [3, 0, 4]\<rparr>"]
    global_get_operations [OF this, of LOCAL "\<lparr>gvalues = [3, 0, 4]\<rparr>"]
  show ?thesis
    by (simp add: global_get_def LOCAL_def AGENT_def get_opt_def)
qed

text \<open>The vectors the code can build from the empty one.\<close>

inductive built :: "global \<Rightarrow> bool" where
  built_new: "built global_new"
| built_observe: "built g \<Longrightarrow> global_observe g t = Some g' \<Longrightarrow> built g'"
| built_join: "built g \<Longrightarrow> built h \<Longrightarrow> built (global_join g h)"
| built_meet: "built g \<Longrightarrow> built h \<Longrightarrow> built (global_meet g h)"

lemma built_normalized: "built g \<Longrightarrow> normalized g"
  by (induction rule: built.induct)
    (blast intro: normalized_new normalized_observe normalized_join normalized_meet)+

lemma length_meet_le:
  "length (gvalues (global_meet g h)) \<le> max (length (gvalues g)) (length (gvalues h))"
proof -
  define vs where "vs = (if length (gvalues h) > length (gvalues g)
    then resize (length (gvalues h)) 0 (gvalues g) else gvalues g)"
  obtain vs' n where loop: "meet_loop 0 0 vs (gvalues h) = (vs', n)"
    by fastforce
  from meet_loop_spec [OF loop] have "length vs' = max (length (gvalues g)) (length (gvalues h))"
    by (simp add: vs_def)
  with loop show ?thesis
    by (auto simp: global_meet_def Let_def vs_def [symmetric])
qed

lemma built_length: "built g \<Longrightarrow> length (gvalues g) \<le> 2 ^ 16"
proof (induction rule: built.induct)
  case (built_observe g t g')
  show ?case
  proof (cases "lam_value t = 0")
    case False
    then have "lam_value t > 0" by (simp add: word_gt_0)
    from global_observe_values(1) [OF built_observe(2) this] show ?thesis
      using built_observe(3) unat_bound [of "as_u16 (lam_replica t)"] by simp
  qed (use built_observe global_observe_zero in blast)
next
  case (built_meet g h)
  with length_meet_le [of g h] show ?case by linarith
qed (simp_all add: global_new_def length_join)

lemma built_at_ix:
  "built g \<Longrightarrow> at_ix (gvalues g) i =
     (if i < 2 ^ 16 then global_get g (ReplicaId (of_nat i)) else 0)"
  using built_length [of g]
  by (auto simp: global_get_at_ix at_ix_def unat_of_nat)

lemma built_all_replicas:
  assumes "built g" "built h" "P 0 0"
  shows "(\<forall>i. P (at_ix (gvalues g) i) (at_ix (gvalues h) i)) \<longleftrightarrow>
    (\<forall>r. P (global_get g r) (global_get h r))"
proof
  assume "\<forall>i. P (at_ix (gvalues g) i) (at_ix (gvalues h) i)"
  then show "\<forall>r. P (global_get g r) (global_get h r)"
    by (simp add: global_get_at_ix)
next
  assume "\<forall>r. P (global_get g r) (global_get h r)"
  with assms show "\<forall>i. P (at_ix (gvalues g) i) (at_ix (gvalues h) i)"
    by (simp add: built_at_ix)
qed

lemma normalized_ext:
  assumes "normalized g" "normalized h" "\<And>i. at_ix (gvalues g) i = at_ix (gvalues h) i"
  shows "g = h"
proof -
  have "length (gvalues g) = length (gvalues h)"
    using assms by (intro le_antisym length_le_of_normalized) auto
  then have "gvalues g = gvalues h"
    using assms(3) by (auto simp: at_ix_def intro!: nth_equalityI split: if_splits) metis
  then show ?thesis by simp
qed

text \<open>
  C4. On the vectors the code can build, \<open>observed_all\<close> is the pointwise order on sequence
  numbers and \<open>changed_since\<close> its negation the other way round. Both compare lengths first; that
  is right only because \<open>observe\<close>, \<open>join\<close> and \<open>meet\<close> (with its truncation) never leave a
  trailing zero entry.
\<close>

theorem version_order:
  assumes "built g" "built h"
  shows "(observed_all g h \<longleftrightarrow> (\<forall>r. global_get h r \<le> global_get g r)) \<and>
    (changed_since g h \<longleftrightarrow> (\<exists>r. global_get h r < global_get g r))"
proof -
  have *: "observed_all a b \<longleftrightarrow> (\<forall>r. global_get b r \<le> global_get a r)"
    if "built a" "built b" for a b
    using that built_all_replicas [OF that(2,1), of "(\<le>)"] length_le_of_normalized [of b a]
      built_normalized by (auto simp: observed_all_values)
  from * [OF assms] * [OF assms(2,1)] show ?thesis
    by (auto simp: changed_since_observed_all not_le)
qed

theorem version_order_witness:
  "(observed_all global_new global_new \<longleftrightarrow>
      (\<forall>r. global_get global_new r \<le> global_get global_new r)) \<and>
   observed_all \<lparr>gvalues = [5]\<rparr> global_new \<and> \<not> observed_all global_new \<lparr>gvalues = [5]\<rparr>"
proof -
  have obs: "global_observe global_new (Lamport 5 LOCAL) = Some \<lparr>gvalues = [5]\<rparr>"
    by code_simp
  then have b: "built \<lparr>gvalues = [5]\<rparr>"
    by (rule built_observe [OF built_new])
  have "global_get \<lparr>gvalues = [5]\<rparr> LOCAL = 5" "global_get global_new r = 0" for r
    by (simp_all add: global_get_def global_new_def LOCAL_def get_opt_def)
  with version_order [OF built_new built_new] version_order [OF b built_new]
    version_order [OF built_new b] show ?thesis
    by (auto simp: not_le intro!: exI [of _ LOCAL])
qed

text \<open>
  \<open>join\<close> makes version vectors a join-semilattice: it is idempotent, commutative and
  associative as an operation on the stored vectors, and it is the least upper bound in the order
  of \<open>observed_all\<close>. Replicas that exchange versions in any order and any number of times agree.
\<close>

theorem join_semilattice:
  assumes "built a" "built b" "built c"
  shows "global_join a a = a \<and> global_join a b = global_join b a \<and>
    global_join (global_join a b) c = global_join a (global_join b c) \<and>
    (observed_all c (global_join a b) \<longleftrightarrow> observed_all c a \<and> observed_all c b)"
proof (intro conjI)
  note n = assms [THEN built_normalized]
  show "global_join a a = a" "global_join a b = global_join b a"
    "global_join (global_join a b) c = global_join a (global_join b c)"
    using n by (auto intro!: normalized_ext normalized_join simp: at_ix_join ac_simps)
  show "observed_all c (global_join a b) \<longleftrightarrow> observed_all c a \<and> observed_all c b"
    by (auto simp: observed_all_values at_ix_join length_join)
qed

theorem join_semilattice_witness:
  "global_join \<lparr>gvalues = [5]\<rparr> global_new = global_join global_new \<lparr>gvalues = [5]\<rparr>"
proof -
  have obs: "global_observe global_new (Lamport 5 LOCAL) = Some \<lparr>gvalues = [5]\<rparr>"
    by code_simp
  from join_semilattice [OF built_observe [OF built_new obs] built_new built_new]
  show ?thesis by simp
qed

end
