(* ===== verification/SumTree.thy ===== *)
theory SumTree
  imports Prelude
begin

text \<open>
  \<open>crates/sum_tree/src/sum_tree.rs\<close>: the B+ tree that carries the rope, the fragments of a buffer
  and the maps built on it. The traits \<open>Item\<close>/\<open>Summary\<close> and \<open>Dimension\<close> are passed as records of
  their operations (the context argument \<open>cx\<close> is part of the record), a seek target is its
  comparison with a position. \<open>Arc\<close> with \<open>make_mut\<close> is value semantics; \<open>ArrayVec\<close> is a list whose
  capacity is checked; every \<open>unwrap\<close>, \<open>panic!\<close> and index out of range is \<^const>\<open>None\<close>.
\<close>

section \<open>Traits\<close>

datatype bias = Left | Right

definition bias_invert :: "bias \<Rightarrow> bias" where
  "bias_invert b = (case b of Left \<Rightarrow> Right | Right \<Rightarrow> Left)"

definition TREE_BASE :: nat where
  "TREE_BASE = 6"

record ('i, 's) summary_ops =
  s_zero :: 's
  s_add :: "'s \<Rightarrow> 's \<Rightarrow> 's"
  s_item :: "'i \<Rightarrow> 's"

record ('s, 'd) dimension =
  d_zero :: 'd
  d_add :: "'d \<Rightarrow> 's \<Rightarrow> 'd"

definition d_from_summary :: "('s, 'd) dimension \<Rightarrow> 's \<Rightarrow> 'd" where
  "d_from_summary dim s = d_add dim (d_zero dim) s"

text \<open>\<open>Dimensions(D1, D2)\<close> measures both at once; a target for \<open>D1\<close> ignores the second.\<close>

definition dimensions :: "('s, 'd) dimension \<Rightarrow> ('s, 'e) dimension \<Rightarrow> ('s, 'd \<times> 'e) dimension" where
  "dimensions dim1 dim2 =
     \<lparr>d_zero = (d_zero dim1, d_zero dim2),
      d_add = (\<lambda>(p, q) s. (d_add dim1 p s, d_add dim2 q s))\<rparr>"

definition dimensions_target :: "('d \<Rightarrow> ordering) \<Rightarrow> 'd \<times> 'e \<Rightarrow> ordering" where
  "dimensions_target target p = target (fst p)"

definition sum_of :: "('i, 's) summary_ops \<Rightarrow> 's list \<Rightarrow> 's" where
  "sum_of ops ss = foldl (s_add ops) (s_zero ops) ss"

section \<open>Nodes\<close>

datatype ('i, 's) sum_tree =
  Leaf 's "'i list" "'s list"
| Internal nat 's "'s list" "('i, 's) sum_tree list"

lemma size_last_child [termination_simp]:
  "ts \<noteq> [] \<Longrightarrow> size (last ts) < Suc (n + size_list size ts)"
  by (induction ts) auto

fun is_leaf :: "('i, 's) sum_tree \<Rightarrow> bool" where
  "is_leaf (Leaf _ _ _) = True"
| "is_leaf (Internal _ _ _ _) = False"

fun height :: "('i, 's) sum_tree \<Rightarrow> nat" where
  "height (Internal h _ _ _) = h"
| "height (Leaf _ _ _) = 0"

fun summary :: "('i, 's) sum_tree \<Rightarrow> 's" where
  "summary (Internal _ s _ _) = s"
| "summary (Leaf s _ _) = s"

fun child_summaries :: "('i, 's) sum_tree \<Rightarrow> 's list" where
  "child_summaries (Internal _ _ ss _) = ss"
| "child_summaries (Leaf _ _ ss) = ss"

fun child_trees :: "('i, 's) sum_tree \<Rightarrow> ('i, 's) sum_tree list option" where
  "child_trees (Internal _ _ _ ts) = Some ts"
| "child_trees (Leaf _ _ _) = None"

fun leaf_items :: "('i, 's) sum_tree \<Rightarrow> 'i list option" where
  "leaf_items (Leaf _ xs _) = Some xs"
| "leaf_items (Internal _ _ _ _) = None"

fun is_underflowing :: "('i, 's) sum_tree \<Rightarrow> bool" where
  "is_underflowing (Internal _ _ _ ts) = (length ts < TREE_BASE)"
| "is_underflowing (Leaf _ xs _) = (length xs < TREE_BASE)"

fun tree_is_empty :: "('i, 's) sum_tree \<Rightarrow> bool" where
  "tree_is_empty (Internal _ _ _ _) = False"
| "tree_is_empty (Leaf _ xs _) = (xs = [])"

definition tree_new :: "('i, 's) summary_ops \<Rightarrow> ('i, 's) sum_tree" where
  "tree_new ops = Leaf (s_zero ops) [] []"

definition from_summary :: "'s \<Rightarrow> ('i, 's) sum_tree" where
  "from_summary s = Leaf s [] []"

definition extent :: "('s, 'd) dimension \<Rightarrow> ('i, 's) sum_tree \<Rightarrow> 'd" where
  "extent dim t = d_add dim (d_zero dim) (summary t)"

text \<open>\<open>ArrayVec\<close> of capacity \<open>2 * TREE_BASE\<close>: \<open>collect\<close>, \<open>extend\<close> and \<open>push().unwrap_oob()\<close>.\<close>

definition array_vec :: "'a list \<Rightarrow> 'a list option" where
  "array_vec xs = (if length xs \<le> 2 * TREE_BASE then Some xs else None)"

text \<open>\<open>leftmost_leaf\<close>, \<open>rightmost_leaf\<close>, \<open>first\<close>, \<open>last\<close>, \<open>last_summary\<close>.\<close>

fun leftmost_leaf :: "('i, 's) sum_tree \<Rightarrow> ('i, 's) sum_tree option" where
  "leftmost_leaf (Leaf s xs ss) = Some (Leaf s xs ss)"
| "leftmost_leaf (Internal h s ss (t # ts)) = leftmost_leaf t"
| "leftmost_leaf (Internal h s ss []) = None"

fun rightmost_leaf :: "('i, 's) sum_tree \<Rightarrow> ('i, 's) sum_tree option" where
  "rightmost_leaf (Leaf s xs ss) = Some (Leaf s xs ss)"
| "rightmost_leaf (Internal h s ss ts) = (if ts = [] then None else rightmost_leaf (last ts))"

definition tree_first :: "('i, 's) sum_tree \<Rightarrow> 'i option option" where
  "tree_first t = do { l \<leftarrow> leftmost_leaf t; xs \<leftarrow> leaf_items l; Some (first_opt xs) }"

definition tree_last :: "('i, 's) sum_tree \<Rightarrow> 'i option option" where
  "tree_last t = do { l \<leftarrow> rightmost_leaf t; xs \<leftarrow> leaf_items l; Some (last_opt xs) }"

definition last_summary :: "('i, 's) sum_tree \<Rightarrow> 's option option" where
  "last_summary t = do { l \<leftarrow> rightmost_leaf t; Some (last_opt (child_summaries l)) }"

section \<open>Building a tree from a sequence\<close>

text \<open>\<open>from_iter\<close>, first loop: leaves of up to \<open>2 * TREE_BASE\<close> items.\<close>

function from_iter_leaves :: "('i, 's) summary_ops \<Rightarrow> 'i list \<Rightarrow> ('i, 's) sum_tree list" where
  "from_iter_leaves ops xs =
     (if xs = [] then []
      else let items = take (2 * TREE_BASE) xs;
               item_summaries = map (s_item ops) items;
               s = foldl (s_add ops) (hd item_summaries) (tl item_summaries)
           in Leaf s items item_summaries # from_iter_leaves ops (drop (2 * TREE_BASE) xs))"
  by pat_completeness auto
termination
  by (relation "measure (\<lambda>(ops, xs). length xs)") (auto simp: TREE_BASE_def)

declare from_iter_leaves.simps [simp del]

text \<open>
  Second loop, one level up: \<open>current_parent_node\<close> collects children and is pushed to
  \<open>parent_nodes\<close> when it is full, and at the end of the level.
\<close>

fun from_iter_parents ::
  "('i, 's) summary_ops \<Rightarrow> nat \<Rightarrow> ('s \<times> 's list \<times> ('i, 's) sum_tree list) option \<Rightarrow>
   ('i, 's) sum_tree list \<Rightarrow> ('i, 's) sum_tree list option" where
  "from_iter_parents ops h None [] = Some []"
| "from_iter_parents ops h (Some (s, ss, ts)) [] = Some [Internal h s ss ts]"
| "from_iter_parents ops h cur (c # cs) = do {
     let (s, ss, ts) = (case cur of None \<Rightarrow> (s_zero ops, [], []) | Some p \<Rightarrow> p);
     let s' = s_add ops s (summary c);
     ss' \<leftarrow> array_vec (ss @ [summary c]);
     ts' \<leftarrow> array_vec (ts @ [c]);
     if length ts' = 2 * TREE_BASE
     then do {
       ps \<leftarrow> from_iter_parents ops h None cs;
       Some (Internal h s' ss' ts' # ps)
     }
     else from_iter_parents ops h (Some (s', ss', ts')) cs
   }"

lemma from_iter_parents_length:
  "(from_iter_parents ops h None cs = Some ps \<longrightarrow> 12 * length ps \<le> length cs + 11) \<and>
   (\<forall>s ss ts. ts \<noteq> [] \<longrightarrow> length ts < 12 \<longrightarrow>
      from_iter_parents ops h (Some (s, ss, ts)) cs = Some ps \<longrightarrow>
      12 * length ps \<le> length ts + length cs + 11)"
proof (induction cs arbitrary: ps)
  case Nil
  then show ?case by (auto simp: Suc_le_eq)
next
  case (Cons c cs)
  show ?case
  proof (intro conjI allI impI)
    assume "from_iter_parents ops h None (c # cs) = Some ps"
    then show "12 * length ps \<le> length (c # cs) + 11"
      using Cons.IH [THEN conjunct2, rule_format, of "[c]"]
      by (auto simp: array_vec_def TREE_BASE_def)
  next
    fix s ss ts
    assume "ts \<noteq> []" "length ts < 12"
      and "from_iter_parents ops h (Some (s, ss, ts)) (c # cs) = Some ps"
    then show "12 * length ps \<le> length ts + length (c # cs) + 11"
      using Cons.IH [THEN conjunct1, rule_format] Cons.IH [THEN conjunct2, rule_format, of "ts @ [c]"]
      by (cases "length ts = 11")
        (auto simp: array_vec_def TREE_BASE_def bind_eq_Some_conv split: if_splits)
  qed
qed

text \<open>The levels: \<open>while nodes.len() > 1\<close>, each level taller by one.\<close>

function from_iter_levels ::
  "('i, 's) summary_ops \<Rightarrow> nat \<Rightarrow> ('i, 's) sum_tree list \<Rightarrow> ('i, 's) sum_tree list option" where
  "from_iter_levels ops h nodes =
     (if length nodes > 1
      then case from_iter_parents ops (h + 1) None nodes of
             None \<Rightarrow> None
           | Some parents \<Rightarrow> from_iter_levels ops (h + 1) parents
      else Some nodes)"
  by pat_completeness auto
termination
proof (relation "measure (\<lambda>(ops, h, nodes). length nodes)", simp)
  fix ops :: "('i, 's) summary_ops" and h and nodes ps :: "('i, 's) sum_tree list"
  assume "1 < length nodes" "from_iter_parents ops (h + 1) None nodes = Some ps"
  with from_iter_parents_length [of ops "h + 1" nodes ps]
  show "((ops, h + 1, ps), ops, h, nodes) \<in> measure (\<lambda>(ops, h, nodes). length nodes)"
    by auto
qed

declare from_iter_levels.simps [simp del]

definition from_iter :: "('i, 's) summary_ops \<Rightarrow> 'i list \<Rightarrow> ('i, 's) sum_tree option" where
  "from_iter ops xs = do {
     nodes \<leftarrow> from_iter_levels ops 0 (from_iter_leaves ops xs);
     if nodes = [] then Some (tree_new ops)
     else do { rust_assert (length nodes = 1); Some (last nodes) }
   }"

text \<open>
  \<open>from_par_iter\<close>: the same tree from \<open>rayon\<close>'s indexed, order-preserving \<open>chunks\<close>; every node
  takes the first summary as the start of its sum.
\<close>

function chunks_of :: "nat \<Rightarrow> 'a list \<Rightarrow> 'a list list" where
  "chunks_of n xs = (if xs = [] \<or> n = 0 then [] else take n xs # chunks_of n (drop n xs))"
  by pat_completeness auto
termination
  by (relation "measure (\<lambda>(n, xs). length xs)") auto

declare chunks_of.simps [simp del]

lemma length_chunks_of: "0 < n \<Longrightarrow> length (chunks_of n xs) * n < length xs + n"
proof (induction n xs rule: chunks_of.induct)
  case (1 n xs)
  show ?case
  proof (cases "length xs \<le> n")
    case True
    with "1.prems" show ?thesis
      by (cases "xs = []") (simp_all add: chunks_of.simps [of n xs] chunks_of.simps [of n "[]"])
  next
    case False
    then have "xs \<noteq> []" by auto
    with 1 False have "length (chunks_of n (drop n xs)) * n < length xs" by auto
    with False "1.prems" show ?thesis by (auto simp: chunks_of.simps [of n xs])
  qed
qed

definition par_leaf :: "('i, 's) summary_ops \<Rightarrow> 'i list \<Rightarrow> ('i, 's) sum_tree" where
  "par_leaf ops items =
     (let item_summaries = map (s_item ops) items
      in Leaf (foldl (s_add ops) (hd item_summaries) (tl item_summaries)) items item_summaries)"

definition par_internal ::
  "('i, 's) summary_ops \<Rightarrow> nat \<Rightarrow> ('i, 's) sum_tree list \<Rightarrow> ('i, 's) sum_tree" where
  "par_internal ops h ts =
     (let ss = map summary ts
      in Internal h (foldl (s_add ops) (hd ss) (tl ss)) ss ts)"

function par_levels ::
  "('i, 's) summary_ops \<Rightarrow> nat \<Rightarrow> ('i, 's) sum_tree list \<Rightarrow> ('i, 's) sum_tree list" where
  "par_levels ops h nodes =
     (if length nodes > 1
      then par_levels ops (h + 1) (map (par_internal ops (h + 1)) (chunks_of (2 * TREE_BASE) nodes))
      else nodes)"
  by pat_completeness auto
termination
proof (relation "measure (\<lambda>(ops, h, nodes). length nodes)", simp)
  fix ops :: "('i, 's) summary_ops" and h and nodes :: "('i, 's) sum_tree list"
  assume "1 < length nodes"
  with length_chunks_of [of "2 * TREE_BASE" nodes]
  show "((ops, h + 1, map (par_internal ops (h + 1)) (chunks_of (2 * TREE_BASE) nodes)),
      ops, h, nodes) \<in> measure (\<lambda>(ops, h, nodes). length nodes)"
    by (simp add: TREE_BASE_def)
qed

declare par_levels.simps [simp del]

definition from_par_iter :: "('i, 's) summary_ops \<Rightarrow> 'i list \<Rightarrow> ('i, 's) sum_tree option" where
  "from_par_iter ops xs =
     (let nodes = par_levels ops 0 (map (par_leaf ops) (chunks_of (2 * TREE_BASE) xs))
      in if nodes = [] then Some (tree_new ops)
         else do { rust_assert (length nodes = 1); Some (last nodes) })"


section \<open>Appending\<close>

text \<open>
  The end of the internal case of \<open>push_tree_recursive\<close>: the children go into one node or, when
  there are more than \<open>2 * TREE_BASE\<close>, into two.
\<close>

definition distribute_children ::
  "('i, 's) summary_ops \<Rightarrow> nat \<Rightarrow> 's \<Rightarrow> 's list \<Rightarrow> ('i, 's) sum_tree list \<Rightarrow> 's list \<Rightarrow>
   ('i, 's) sum_tree list \<Rightarrow> (('i, 's) sum_tree \<times> ('i, 's) sum_tree option) option" where
  "distribute_children ops h s1 ss1 ts1 new_ss new_ts = do {
     let child_count = length ts1 + length new_ts;
     if child_count > 2 * TREE_BASE then do {
       let midpoint = (child_count + child_count mod 2) div 2;
       left_summaries \<leftarrow> array_vec (take midpoint (ss1 @ new_ss));
       right_summaries \<leftarrow> array_vec (drop midpoint (ss1 @ new_ss));
       left_trees \<leftarrow> array_vec (take midpoint (ts1 @ new_ts));
       right_trees \<leftarrow> array_vec (drop midpoint (ts1 @ new_ts));
       Some (Internal h (sum_of ops left_summaries) left_summaries left_trees,
             Some (Internal h (sum_of ops right_summaries) right_summaries right_trees))
     }
     else do {
       ss2 \<leftarrow> array_vec (ss1 @ new_ss);
       ts2 \<leftarrow> array_vec (ts1 @ new_ts);
       Some (Internal h s1 ss2 ts2, None)
     }
   }"

text \<open>
  \<open>push_tree_recursive\<close>: append a tree that is not taller. Returns the updated tree and, when
  the node overflowed, its right half.
\<close>

function push_tree_recursive ::
  "('i, 's) summary_ops \<Rightarrow> ('i, 's) sum_tree \<Rightarrow> ('i, 's) sum_tree \<Rightarrow>
   (('i, 's) sum_tree \<times> ('i, 's) sum_tree option) option" where
  "push_tree_recursive ops (Internal h s ss ts) other = do {
     let s1 = s_add ops s (summary other);
     height_delta \<leftarrow> checked_sub h (height other);
     (ss1, ts1, new_ss, new_ts) \<leftarrow>
       (if height_delta = 0 then do {
          other_trees \<leftarrow> child_trees other;
          new_ss \<leftarrow> array_vec (child_summaries other);
          new_ts \<leftarrow> array_vec other_trees;
          Some (ss, ts, new_ss, new_ts)
        }
        else if height_delta = 1 \<and> \<not> is_underflowing other then
          Some (ss, ts, [summary other], [other])
        else if ts = [] \<or> ss = [] then None
        else do {
          (last_tree, tree_to_append) \<leftarrow> push_tree_recursive ops (last ts) other;
          let ts1 = butlast ts @ [last_tree];
          let ss1 = butlast ss @ [summary last_tree];
          Some (case tree_to_append of
                  Some split_tree \<Rightarrow> (ss1, ts1, [summary split_tree], [split_tree])
                | None \<Rightarrow> (ss1, ts1, [], []))
        });
     distribute_children ops h s1 ss1 ts1 new_ss new_ts
   }"
| "push_tree_recursive ops (Leaf s xs ss) other = do {
     other_items \<leftarrow> leaf_items other;
     let child_count = length xs + length other_items;
     if child_count > 2 * TREE_BASE then do {
       let midpoint = (child_count + child_count mod 2) div 2;
       left_items \<leftarrow> array_vec (take midpoint (xs @ other_items));
       right_items \<leftarrow> array_vec (drop midpoint (xs @ other_items));
       left_summaries \<leftarrow> array_vec (take midpoint (ss @ child_summaries other));
       right_summaries \<leftarrow> array_vec (drop midpoint (ss @ child_summaries other));
       Some (Leaf (sum_of ops left_summaries) left_items left_summaries,
             Some (Leaf (sum_of ops right_summaries) right_items right_summaries))
     }
     else do {
       xs' \<leftarrow> array_vec (xs @ other_items);
       ss' \<leftarrow> array_vec (ss @ child_summaries other);
       Some (Leaf (s_add ops s (summary other)) xs' ss', None)
     }
   }"
  by pat_completeness auto
termination
  by (relation "measure (\<lambda>(ops, t, other). size t)") (auto intro: size_last_child)

declare push_tree_recursive.simps [simp del]

text \<open>\<open>merge_into_right\<close>: the contents of \<open>small\<close> go in front of those of \<open>large\<close>.\<close>

fun merge_into_right ::
  "('i, 's) summary_ops \<Rightarrow> ('i, 's) sum_tree \<Rightarrow> ('i, 's) sum_tree \<Rightarrow>
   (('i, 's) sum_tree \<times> ('i, 's) sum_tree option) option" where
  "merge_into_right ops (Internal small_h small_s small_ss small_ts) (Internal h s ss ts) = do {
     rust_assert (small_h = h);
     let total = length ts + length small_ts;
     if total \<le> 2 * TREE_BASE then do {
       ts' \<leftarrow> array_vec (small_ts @ ts);
       ss' \<leftarrow> array_vec (small_ss @ ss);
       Some (Internal h (s_add ops small_s s) ss' ts', None)
     }
     else do {
       let midpoint = (total + 1) div 2;
       left_trees \<leftarrow> array_vec (take midpoint (small_ts @ ts));
       right_trees \<leftarrow> array_vec (drop midpoint (small_ts @ ts));
       left_summaries \<leftarrow> array_vec (take midpoint (small_ss @ ss));
       right_summaries \<leftarrow> array_vec (drop midpoint (small_ss @ ss));
       Some (Internal h (sum_of ops right_summaries) right_summaries right_trees,
             Some (Internal h (sum_of ops left_summaries) left_summaries left_trees))
     }
   }"
| "merge_into_right ops (Leaf small_s small_xs small_ss) (Leaf s xs ss) = do {
     let total = length small_xs + length xs;
     if total \<le> 2 * TREE_BASE then do {
       xs' \<leftarrow> array_vec (small_xs @ xs);
       ss' \<leftarrow> array_vec (small_ss @ ss);
       Some (Leaf (s_add ops small_s s) xs' ss', None)
     }
     else do {
       let midpoint = (total + 1) div 2;
       left_items \<leftarrow> array_vec (take midpoint (small_xs @ xs));
       right_items \<leftarrow> array_vec (drop midpoint (small_xs @ xs));
       left_summaries \<leftarrow> array_vec (take midpoint (small_ss @ ss));
       right_summaries \<leftarrow> array_vec (drop midpoint (small_ss @ ss));
       Some (Leaf (sum_of ops right_summaries) right_items right_summaries,
             Some (Leaf (sum_of ops left_summaries) left_items left_summaries))
     }
   }"
| "merge_into_right ops (Leaf _ _ _) (Internal _ _ _ _) = None"
| "merge_into_right ops (Internal _ _ _ _) (Leaf _ _ _) = None"

text \<open>
  \<open>append_large\<close>: put a tree that is not taller in front. Returns the updated large tree and,
  when it overflowed (or \<open>small\<close> is a full sibling), the tree that goes before it.
\<close>

fun append_large ::
  "('i, 's) summary_ops \<Rightarrow> ('i, 's) sum_tree \<Rightarrow> ('i, 's) sum_tree \<Rightarrow>
   (('i, 's) sum_tree \<times> ('i, 's) sum_tree option) option" where
  "append_large ops small (Leaf s xs ss) =
     (if height small = 0
      then (if \<not> is_underflowing small then Some (Leaf s xs ss, Some small)
            else merge_into_right ops small (Leaf s xs ss))
      else None)"
| "append_large ops small (Internal h s ss []) =
     (if height small = h
      then (if \<not> is_underflowing small then Some (Internal h s ss [], Some small)
            else merge_into_right ops small (Internal h s ss []))
      else None)"
| "append_large ops small (Internal h s ss (t # ts)) =
     (if height small = h
      then (if \<not> is_underflowing small then Some (Internal h s ss (t # ts), Some small)
            else merge_into_right ops small (Internal h s ss (t # ts)))
      else do {
        rust_assert (height small < h);
        let full_summary = s_add ops (summary small) s;
        (first, res) \<leftarrow> append_large ops small t;
        if ss = [] then None
        else do {
          let ss1 = summary first # tl ss;
          let ts1 = first # ts;
          case res of
            Some tree \<Rightarrow>
              if length ts1 < 2 * TREE_BASE then do {
                ss2 \<leftarrow> array_vec (summary tree # ss1);
                ts2 \<leftarrow> array_vec (tree # ts1);
                Some (Internal h full_summary ss2 ts2, None)
              }
              else do {
                rust_assert (TREE_BASE \<le> length ss1);
                new_ss \<leftarrow> array_vec (summary tree # take TREE_BASE ss1);
                new_ts \<leftarrow> array_vec (tree # take TREE_BASE ts1);
                Some (Internal h (sum_of ops (drop TREE_BASE ss1)) (drop TREE_BASE ss1) (drop TREE_BASE ts1),
                      Some (Internal h (sum_of ops new_ss) new_ss new_ts))
              }
          | None \<Rightarrow> Some (Internal h full_summary ss1 ts1, None)
        }
      })"

definition from_child_trees ::
  "('i, 's) summary_ops \<Rightarrow> ('i, 's) sum_tree \<Rightarrow> ('i, 's) sum_tree \<Rightarrow> ('i, 's) sum_tree" where
  "from_child_trees ops l r =
     Internal (height l + 1) (sum_of ops [summary l, summary r]) [summary l, summary r] [l, r]"

definition tree_append ::
  "('i, 's) summary_ops \<Rightarrow> ('i, 's) sum_tree \<Rightarrow> ('i, 's) sum_tree \<Rightarrow> ('i, 's) sum_tree option" where
  "tree_append ops self other =
     (if tree_is_empty self then Some other
      else if \<not> is_leaf other \<or> \<not> tree_is_empty other then
        if height self < height other then do {
          (other', res) \<leftarrow> append_large ops self other;
          Some (case res of Some tree \<Rightarrow> from_child_trees ops tree other' | None \<Rightarrow> other')
        }
        else do {
          (self', split) \<leftarrow> push_tree_recursive ops self other;
          Some (case split of Some split_tree \<Rightarrow> from_child_trees ops self' split_tree | None \<Rightarrow> self')
        }
      else Some self)"

definition tree_push :: "('i, 's) summary_ops \<Rightarrow> ('i, 's) sum_tree \<Rightarrow> 'i \<Rightarrow> ('i, 's) sum_tree option" where
  "tree_push ops t x = tree_append ops t (Leaf (s_item ops x) [x] [s_item ops x])"

definition from_item :: "('i, 's) summary_ops \<Rightarrow> 'i \<Rightarrow> ('i, 's) sum_tree option" where
  "from_item ops x = tree_push ops (tree_new ops) x"

definition tree_extend :: "('i, 's) summary_ops \<Rightarrow> ('i, 's) sum_tree \<Rightarrow> 'i list \<Rightarrow> ('i, 's) sum_tree option" where
  "tree_extend ops t xs = do { u \<leftarrow> from_iter ops xs; tree_append ops t u }"

definition par_extend :: "('i, 's) summary_ops \<Rightarrow> ('i, 's) sum_tree \<Rightarrow> 'i list \<Rightarrow> ('i, 's) sum_tree option" where
  "par_extend ops t xs = do { u \<leftarrow> from_par_iter ops xs; tree_append ops t u }"


section \<open>Updating the last or first item in place\<close>

fun update_last_recursive ::
  "('i, 's) summary_ops \<Rightarrow> ('i \<Rightarrow> 'i) \<Rightarrow> ('i, 's) sum_tree \<Rightarrow> (('i, 's) sum_tree \<times> 's option) option" where
  "update_last_recursive ops f (Internal h s ss ts) =
     (if ss = [] \<or> ts = [] then None
      else do {
        (last_child, last_summary) \<leftarrow> update_last_recursive ops f (last ts);
        last_s \<leftarrow> last_summary;
        let ss' = butlast ss @ [last_s];
        let s' = sum_of ops ss';
        Some (Internal h s' ss' (butlast ts @ [last_child]), Some s')
      })"
| "update_last_recursive ops f (Leaf s xs ss) =
     (if xs = [] \<or> ss = [] then Some (Leaf s xs ss, None)
      else let x = f (last xs);
               ss' = butlast ss @ [s_item ops x];
               s' = sum_of ops ss'
           in Some (Leaf s' (butlast xs @ [x]) ss', Some s'))"

definition update_last :: "('i, 's) summary_ops \<Rightarrow> ('i \<Rightarrow> 'i) \<Rightarrow> ('i, 's) sum_tree \<Rightarrow> ('i, 's) sum_tree option" where
  "update_last ops f t = map_option fst (update_last_recursive ops f t)"

fun update_first_recursive ::
  "('i, 's) summary_ops \<Rightarrow> ('i \<Rightarrow> 'i) \<Rightarrow> ('i, 's) sum_tree \<Rightarrow> (('i, 's) sum_tree \<times> 's option) option" where
  "update_first_recursive ops f (Internal h s ss []) = None"
| "update_first_recursive ops f (Internal h s ss (t # ts)) =
     (if ss = [] then None
      else do {
        (first_child, first_summary) \<leftarrow> update_first_recursive ops f t;
        first_s \<leftarrow> first_summary;
        let ss' = first_s # tl ss;
        let s' = sum_of ops ss';
        Some (Internal h s' ss' (first_child # ts), Some s')
      })"
| "update_first_recursive ops f (Leaf s xs ss) =
     (if xs = [] \<or> ss = [] then Some (Leaf s xs ss, None)
      else let x = f (hd xs);
               ss' = s_item ops x # tl ss;
               s' = sum_of ops ss'
           in Some (Leaf s' (x # tl xs) ss', Some s'))"

definition update_first :: "('i, 's) summary_ops \<Rightarrow> ('i \<Rightarrow> 'i) \<Rightarrow> ('i, 's) sum_tree \<Rightarrow> ('i, 's) sum_tree option" where
  "update_first ops f t = map_option fst (update_first_recursive ops f t)"

section \<open>Searching without a cursor\<close>

text \<open>
  The comparison of \<open>find_iterate\<close> on a child or item: the target lies in what ends at \<open>d\<close>.
\<close>

definition in_child :: "('d \<Rightarrow> ordering) \<Rightarrow> bias \<Rightarrow> 'd \<Rightarrow> bool" where
  "in_child target bias d \<longleftrightarrow> target d = Less \<or> (target d = Equal \<and> bias = Left)"

definition entry_found :: "bool \<Rightarrow> ('d \<Rightarrow> ordering) \<Rightarrow> bias \<Rightarrow> 'd \<Rightarrow> bool" where
  "entry_found exact target bias d \<longleftrightarrow>
     (if exact then target d = Equal else in_child target bias d)"

fun find_items ::
  "('s, 'd) dimension \<Rightarrow> ('d \<Rightarrow> bool) \<Rightarrow> 'd \<Rightarrow> 'i option \<Rightarrow> 'i list \<Rightarrow> 's list \<Rightarrow>
   'd \<times> ('i option \<times> 'i \<times> 'd) option" where
  "find_items dim found pos prev (x # xs) (s # ss) =
     (let child_end = d_add dim pos s
      in if found child_end then (pos, Some (prev, x, child_end))
         else find_items dim found child_end (Some x) xs ss)"
| "find_items dim found pos prev _ _ = (pos, None)"

text \<open>
  \<open>find_with_prev_iterate\<close>; \<open>find_iterate\<close> is the same loop without the previous item. The inner
  \<open>for\<close> over the children and the \<open>continue 'iterate\<close> are the two mutually recursive functions.
\<close>

fun find_with_prev_iterate ::
  "('s, 'd) dimension \<Rightarrow> bool \<Rightarrow> ('d \<Rightarrow> ordering) \<Rightarrow> bias \<Rightarrow> 'd \<Rightarrow> 'i option \<Rightarrow> ('i, 's) sum_tree \<Rightarrow>
   ('d \<times> ('i option \<times> 'i \<times> 'd) option) option"
and find_with_prev_children ::
  "('s, 'd) dimension \<Rightarrow> bool \<Rightarrow> ('d \<Rightarrow> ordering) \<Rightarrow> bias \<Rightarrow> 'd \<Rightarrow> 'i option \<Rightarrow> ('i, 's) sum_tree list \<Rightarrow>
   's list \<Rightarrow> ('d \<times> ('i option \<times> 'i \<times> 'd) option) option" where
  "find_with_prev_iterate dim exact target bias pos prev (Internal h s ss ts) =
     find_with_prev_children dim exact target bias pos prev ts ss"
| "find_with_prev_iterate dim exact target bias pos prev (Leaf s xs ss) =
     Some (find_items dim (entry_found exact target bias) pos prev xs ss)"
| "find_with_prev_children dim exact target bias pos prev (t # ts) (s # ss) =
     (let child_end = d_add dim pos s
      in if in_child target bias child_end
         then find_with_prev_iterate dim exact target bias pos prev t
         else do {
           prev' \<leftarrow> tree_last t;
           find_with_prev_children dim exact target bias child_end prev' ts ss
         })"
| "find_with_prev_children dim exact target bias pos prev _ _ = Some (pos, None)"

fun find_iterate ::
  "('s, 'd) dimension \<Rightarrow> bool \<Rightarrow> ('d \<Rightarrow> ordering) \<Rightarrow> bias \<Rightarrow> 'd \<Rightarrow> ('i, 's) sum_tree \<Rightarrow>
   'd \<times> ('i \<times> 'd) option"
and find_children ::
  "('s, 'd) dimension \<Rightarrow> bool \<Rightarrow> ('d \<Rightarrow> ordering) \<Rightarrow> bias \<Rightarrow> 'd \<Rightarrow> ('i, 's) sum_tree list \<Rightarrow>
   's list \<Rightarrow> 'd \<times> ('i \<times> 'd) option" where
  "find_iterate dim exact target bias pos (Internal h s ss ts) =
     find_children dim exact target bias pos ts ss"
| "find_iterate dim exact target bias pos (Leaf s xs ss) =
     map_prod id (map_option snd) (find_items dim (entry_found exact target bias) pos None xs ss)"
| "find_children dim exact target bias pos (t # ts) (s # ss) =
     (let child_end = d_add dim pos s
      in if in_child target bias child_end then find_iterate dim exact target bias pos t
         else find_children dim exact target bias child_end ts ss)"
| "find_children dim exact target bias pos _ _ = (pos, None)"

text \<open>The test all three searches start with: the target is past the end of the tree.\<close>

definition past_end :: "('d \<Rightarrow> ordering) \<Rightarrow> bias \<Rightarrow> 'd \<Rightarrow> bool" where
  "past_end target bias d \<longleftrightarrow> target d = Greater \<or> (target d = Equal \<and> bias = Right)"

definition find_gen ::
  "('s, 'd) dimension \<Rightarrow> bool \<Rightarrow> ('d \<Rightarrow> ordering) \<Rightarrow> bias \<Rightarrow> ('i, 's) sum_tree \<Rightarrow> 'd \<times> 'd \<times> 'i option" where
  "find_gen dim exact target bias t =
     (let tree_end = d_add dim (d_zero dim) (summary t)
      in if past_end target bias tree_end then (tree_end, tree_end, None)
         else case find_iterate dim exact target bias (d_zero dim) t of
                (pos, Some (item, e)) \<Rightarrow> (pos, e, Some item)
              | (pos, None) \<Rightarrow> (pos, pos, None))"

definition tree_find ::
  "('s, 'd) dimension \<Rightarrow> ('d \<Rightarrow> ordering) \<Rightarrow> bias \<Rightarrow> ('i, 's) sum_tree \<Rightarrow> 'd \<times> 'd \<times> 'i option" where
  "tree_find dim target bias t = find_gen dim False target bias t"

definition find_exact ::
  "('s, 'd) dimension \<Rightarrow> ('d \<Rightarrow> ordering) \<Rightarrow> bias \<Rightarrow> ('i, 's) sum_tree \<Rightarrow> 'd \<times> 'd \<times> 'i option" where
  "find_exact dim target bias t = find_gen dim True target bias t"

definition find_with_prev ::
  "('s, 'd) dimension \<Rightarrow> ('d \<Rightarrow> ordering) \<Rightarrow> bias \<Rightarrow> ('i, 's) sum_tree \<Rightarrow>
   ('d \<times> 'd \<times> ('i option \<times> 'i) option) option" where
  "find_with_prev dim target bias t =
     (let tree_end = d_add dim (d_zero dim) (summary t)
      in if past_end target bias tree_end then Some (tree_end, tree_end, None)
         else do {
           r \<leftarrow> find_with_prev_iterate dim False target bias (d_zero dim) None t;
           Some (case r of
                   (pos, Some (prev, item, e)) \<Rightarrow> (pos, e, Some (prev, item))
                 | (pos, None) \<Rightarrow> (pos, pos, None))
         })"

end
