(* ===== verification/Cursor.thy ===== *)
theory Cursor
  imports SumTree
begin

text \<open>
  \<open>crates/sum_tree/src/cursor.rs\<close>: cursors over a tree. A cursor keeps the path to its item as a
  stack of nodes with child indices (the head of the list is the top of the stack; its capacity is
  16), and the position, in some dimension, at which its item starts. The loops of \<open>seek_internal\<close>,
  \<open>search_forward\<close>, \<open>search_backward\<close> and \<open>Iter::next\<close> are functions on the stack with their
  termination measures; an \<open>unwrap_oob\<close>, an index out of range or a failed assertion is \<^const>\<open>None\<close>.
  A filter closure is a predicate on summaries.
\<close>

section \<open>State\<close>

record ('i, 's, 'd) stack_entry =
  se_tree :: "('i, 's) sum_tree"
  se_index :: nat
  se_position :: 'd

record ('i, 's, 'd) cursor =
  c_tree :: "('i, 's) sum_tree"
  c_stack :: "('i, 's, 'd) stack_entry list"
  c_position :: 'd
  c_did_seek :: bool
  c_at_end :: bool

definition STACK_CAPACITY :: nat where
  "STACK_CAPACITY = 16"

definition push_entry ::
  "('i, 's, 'd) stack_entry \<Rightarrow> ('i, 's, 'd) stack_entry list \<Rightarrow> ('i, 's, 'd) stack_entry list option" where
  "push_entry e stack = (if length stack < STACK_CAPACITY then Some (e # stack) else None)"

definition cursor_new :: "('s, 'd) dimension \<Rightarrow> ('i, 's) sum_tree \<Rightarrow> ('i, 's, 'd) cursor" where
  "cursor_new dim t =
     \<lparr>c_tree = t, c_stack = [], c_position = d_zero dim, c_did_seek = False, c_at_end = tree_is_empty t\<rparr>"

definition cursor_reset :: "('s, 'd) dimension \<Rightarrow> ('i, 's, 'd) cursor \<Rightarrow> ('i, 's, 'd) cursor" where
  "cursor_reset dim c =
     c\<lparr>c_did_seek := False, c_at_end := tree_is_empty (c_tree c), c_stack := [], c_position := d_zero dim\<rparr>"

definition cursor_start :: "('i, 's, 'd) cursor \<Rightarrow> 'd" where
  "cursor_start c = c_position c"

section \<open>Reading the cursor\<close>

text \<open>
  The accessors return \<open>Option\<close> and panic before the first seek or on an internal node at the top
  of the stack: the outer \<open>option\<close> is the panic.
\<close>

definition cursor_item :: "('i, 's, 'd) cursor \<Rightarrow> 'i option option" where
  "cursor_item c = do {
     rust_assert (c_did_seek c);
     case c_stack c of
       [] \<Rightarrow> Some None
     | e # _ \<Rightarrow> do {
         xs \<leftarrow> leaf_items (se_tree e);
         if se_index e = length xs then Some None
         else do { x \<leftarrow> get_opt xs (se_index e); Some (Some x) }
       }
   }"

definition cursor_item_summary :: "('i, 's, 'd) cursor \<Rightarrow> 's option option" where
  "cursor_item_summary c = do {
     rust_assert (c_did_seek c);
     case c_stack c of
       [] \<Rightarrow> Some None
     | e # _ \<Rightarrow> do {
         rust_assert (is_leaf (se_tree e));
         let ss = child_summaries (se_tree e);
         if se_index e = length ss then Some None
         else do { s \<leftarrow> get_opt ss (se_index e); Some (Some s) }
       }
   }"

definition cursor_end :: "('s, 'd) dimension \<Rightarrow> ('i, 's, 'd) cursor \<Rightarrow> 'd option" where
  "cursor_end dim c = do {
     s \<leftarrow> cursor_item_summary c;
     Some (case s of Some s \<Rightarrow> d_add dim (c_position c) s | None \<Rightarrow> c_position c)
   }"

fun next_leaf_loop :: "('i, 's, 'd) stack_entry list \<Rightarrow> ('i, 's) sum_tree option option" where
  "next_leaf_loop [] = Some None"
| "next_leaf_loop (e # es) = do {
     ts \<leftarrow> child_trees (se_tree e);
     n \<leftarrow> checked_sub (length ts) 1;
     if se_index e < n then do {
       t \<leftarrow> get_opt ts (se_index e + 1);
       l \<leftarrow> leftmost_leaf t;
       Some (Some l)
     }
     else next_leaf_loop es
   }"

definition next_leaf :: "('i, 's, 'd) cursor \<Rightarrow> ('i, 's) sum_tree option option" where
  "next_leaf c = next_leaf_loop (tl (c_stack c))"

definition next_item :: "('i, 's, 'd) cursor \<Rightarrow> 'i option option" where
  "next_item c = do {
     rust_assert (c_did_seek c);
     case c_stack c of
       e # _ \<Rightarrow> do {
         xs \<leftarrow> leaf_items (se_tree e);
         n \<leftarrow> checked_sub (length xs) 1;
         if se_index e = n then do {
           l \<leftarrow> next_leaf c;
           case l of
             Some leaf \<Rightarrow> do { ys \<leftarrow> leaf_items leaf; y \<leftarrow> first_opt ys; Some (Some y) }
           | None \<Rightarrow> Some None
         }
         else do { x \<leftarrow> get_opt xs (se_index e + 1); Some (Some x) }
       }
     | [] \<Rightarrow> if c_at_end c then Some None else tree_first (c_tree c)
   }"

fun prev_leaf_loop :: "('i, 's, 'd) stack_entry list \<Rightarrow> ('i, 's) sum_tree option option" where
  "prev_leaf_loop [] = Some None"
| "prev_leaf_loop (e # es) =
     (if se_index e \<noteq> 0 then do {
        ts \<leftarrow> child_trees (se_tree e);
        t \<leftarrow> get_opt ts (se_index e - 1);
        l \<leftarrow> rightmost_leaf t;
        Some (Some l)
      }
      else prev_leaf_loop es)"

definition prev_leaf :: "('i, 's, 'd) cursor \<Rightarrow> ('i, 's) sum_tree option option" where
  "prev_leaf c = prev_leaf_loop (tl (c_stack c))"

definition prev_item :: "('i, 's, 'd) cursor \<Rightarrow> 'i option option" where
  "prev_item c = do {
     rust_assert (c_did_seek c);
     case c_stack c of
       e # _ \<Rightarrow>
         if se_index e = 0 then do {
           l \<leftarrow> prev_leaf c;
           case l of
             Some leaf \<Rightarrow> do { ys \<leftarrow> leaf_items leaf; y \<leftarrow> last_opt ys; Some (Some y) }
           | None \<Rightarrow> Some None
         }
         else do {
           xs \<leftarrow> leaf_items (se_tree e);
           x \<leftarrow> get_opt xs (se_index e - 1);
           Some (Some x)
         }
     | [] \<Rightarrow> if c_at_end c then tree_last (c_tree c) else Some None
   }"

section \<open>The work left on a stack\<close>

text \<open>Termination measure of the loops: a weight for every node and for a range of its children.\<close>

fun weight :: "('i, 's) sum_tree \<Rightarrow> nat" where
  "weight (Leaf s xs ss) = 2 + length xs + length ss"
| "weight (Internal h s ss ts) = 2 + length ss + sum_list (map weight ts)"

fun weight_from :: "nat \<Rightarrow> ('i, 's) sum_tree \<Rightarrow> nat" where
  "weight_from k (Leaf s xs ss) = 1 + (length xs - k) + (length ss - k)"
| "weight_from k (Internal h s ss ts) = 1 + (length ss - k) + sum_list (map weight (drop k ts))"

fun weight_upto :: "nat \<Rightarrow> ('i, 's) sum_tree \<Rightarrow> nat" where
  "weight_upto k (Leaf s xs ss) = 1 + k"
| "weight_upto k (Internal h s ss ts) = 1 + k + sum_list (map weight (take k ts))"

definition work_from :: "bool \<Rightarrow> ('i, 's, 'd) stack_entry list \<Rightarrow> nat" where
  "work_from ascending stack =
     (case stack of [] \<Rightarrow> 0
      | e # es \<Rightarrow> weight_from (se_index e + (if ascending then 1 else 0)) (se_tree e) +
          sum_list (map (\<lambda>e. weight_from (se_index e + 1) (se_tree e)) es))"

definition work_upto :: "bool \<Rightarrow> ('i, 's, 'd) stack_entry list \<Rightarrow> nat" where
  "work_upto descending stack =
     (case stack of [] \<Rightarrow> 0
      | e # es \<Rightarrow> weight_upto (se_index e + (if descending then 1 else 0)) (se_tree e) +
          sum_list (map (\<lambda>e. weight_upto (se_index e) (se_tree e)) es))"

lemma weight_from_pos: "0 < weight_from k t"
  by (cases t) auto

lemma weight_upto_pos: "0 < weight_upto k t"
  by (cases t) auto

lemma weight_from_less: "weight_from 0 t < weight t"
  by (cases t) auto

lemma weight_from_push:
  assumes "i < length ts" "k \<le> i"
  shows "weight_from 0 (ts ! i) + weight_from (Suc i) (Internal h s ss ts) < weight_from k (Internal h s ss ts)"
proof -
  have "drop k ts = take (i - k) (drop k ts) @ ts ! i # drop (Suc i) ts"
    using assms id_take_nth_drop [of "i - k" "drop k ts"] by simp
  then have "sum_list (map weight (drop k ts)) =
      sum_list (map weight (take (i - k) (drop k ts))) + (weight (ts ! i) + sum_list (map weight (drop (Suc i) ts)))"
    by (metis sum_list.append map_append list.simps(9) sum_list.Cons)
  with assms weight_from_less [of "ts ! i"] show ?thesis by simp
qed

lemma work_from_pop: "work_from True es < work_from asc (e # es)"
  using weight_from_pos by (cases es) (auto simp: work_from_def)

lemma work_upto_pop: "work_upto False es < work_upto desc (e # es)"
  using weight_upto_pos by (cases es) (auto simp: work_upto_def)

lemma work_from_push:
  assumes "se_tree e = Internal h s ss ts" "i < length ts"
    and "se_index e + (if asc then 1 else 0) \<le> i" "se_index e' = i" "se_tree e' = se_tree e"
    and "se_tree e'' = ts ! i" "se_index e'' = 0"
  shows "work_from False (e'' # e' # es) < work_from asc (e # es)"
  using weight_from_push [OF assms(2,3)] assms by (simp add: work_from_def split: if_splits)

section \<open>Aggregates\<close>

text \<open>\<open>SeekAggregate\<close>: what a seek collects on its way (\<open>begin_leaf\<close> is empty in every instance).\<close>

record ('i, 's, 'a) aggregate =
  ag_end_leaf :: "'a \<Rightarrow> 'a option"
  ag_push_item :: "'i \<Rightarrow> 's \<Rightarrow> 'a \<Rightarrow> 'a option"
  ag_push_tree :: "('i, 's) sum_tree \<Rightarrow> 's \<Rightarrow> 'a \<Rightarrow> 'a option"

record ('i, 's) slice_aggregate =
  sa_tree :: "('i, 's) sum_tree"
  sa_leaf_items :: "'i list"
  sa_leaf_item_summaries :: "'s list"
  sa_leaf_summary :: 's

definition unit_aggregate :: "('i, 's, unit) aggregate" where
  "unit_aggregate =
     \<lparr>ag_end_leaf = Some, ag_push_item = (\<lambda>_ _. Some), ag_push_tree = (\<lambda>_ _. Some)\<rparr>"

definition slice_end_leaf ::
  "('i, 's) summary_ops \<Rightarrow> ('i, 's) slice_aggregate \<Rightarrow> ('i, 's) slice_aggregate option" where
  "slice_end_leaf ops a = do {
     t \<leftarrow> tree_append ops (sa_tree a) (Leaf (sa_leaf_summary a) (sa_leaf_items a) (sa_leaf_item_summaries a));
     Some \<lparr>sa_tree = t, sa_leaf_items = [], sa_leaf_item_summaries = [], sa_leaf_summary = s_zero ops\<rparr>
   }"

definition slice_push_item ::
  "('i, 's) summary_ops \<Rightarrow> 'i \<Rightarrow> 's \<Rightarrow> ('i, 's) slice_aggregate \<Rightarrow> ('i, 's) slice_aggregate option" where
  "slice_push_item ops x s a = do {
     xs \<leftarrow> array_vec (sa_leaf_items a @ [x]);
     ss \<leftarrow> array_vec (sa_leaf_item_summaries a @ [s]);
     Some (a\<lparr>sa_leaf_items := xs, sa_leaf_item_summaries := ss,
       sa_leaf_summary := s_add ops (sa_leaf_summary a) s\<rparr>)
   }"

definition slice_push_tree ::
  "('i, 's) summary_ops \<Rightarrow> ('i, 's) sum_tree \<Rightarrow> 's \<Rightarrow> ('i, 's) slice_aggregate \<Rightarrow> ('i, 's) slice_aggregate option" where
  "slice_push_tree ops t s a = do { u \<leftarrow> tree_append ops (sa_tree a) t; Some (a\<lparr>sa_tree := u\<rparr>) }"

definition slice_seek_aggregate :: "('i, 's) summary_ops \<Rightarrow> ('i, 's, ('i, 's) slice_aggregate) aggregate" where
  "slice_seek_aggregate ops =
     \<lparr>ag_end_leaf = slice_end_leaf ops, ag_push_item = slice_push_item ops, ag_push_tree = slice_push_tree ops\<rparr>"

definition summary_seek_aggregate :: "('s, 'o) dimension \<Rightarrow> ('i, 's, 'o) aggregate" where
  "summary_seek_aggregate out =
     \<lparr>ag_end_leaf = Some, ag_push_item = (\<lambda>_ s a. Some (d_add out a s)),
      ag_push_tree = (\<lambda>_ s a. Some (d_add out a s))\<rparr>"

section \<open>Seeking\<close>

text \<open>
  The \<open>for\<close> loops of \<open>seek_internal\<close> over the remaining children of the top entry: the entry, the
  position and the aggregate after them, and whether the target was reached before the end.
\<close>

fun seek_children ::
  "('s, 'd) dimension \<Rightarrow> ('d \<Rightarrow> ordering) \<Rightarrow> bias \<Rightarrow> ('i, 's, 'a) aggregate \<Rightarrow>
   ('i, 's, 'd) stack_entry \<Rightarrow> 'd \<Rightarrow> 'a \<Rightarrow> ('i, 's) sum_tree list \<Rightarrow> 's list \<Rightarrow>
   (('i, 's, 'd) stack_entry \<times> 'd \<times> 'a \<times> ('i, 's) sum_tree option) option" where
  "seek_children dim target bias agg e position a (t # ts) (s # ss) =
     (let child_end = d_add dim position s
      in if past_end target bias child_end
         then do {
           a' \<leftarrow> ag_push_tree agg t s a;
           seek_children dim target bias agg (e\<lparr>se_index := se_index e + 1, se_position := child_end\<rparr>)
             child_end a' ts ss
         }
         else Some (e, position, a, Some t))"
| "seek_children dim target bias agg e position a _ _ = Some (e, position, a, None)"

fun seek_items ::
  "('s, 'd) dimension \<Rightarrow> ('d \<Rightarrow> ordering) \<Rightarrow> bias \<Rightarrow> ('i, 's, 'a) aggregate \<Rightarrow>
   ('i, 's, 'd) stack_entry \<Rightarrow> 'd \<Rightarrow> 'a \<Rightarrow> 'i list \<Rightarrow> 's list \<Rightarrow>
   (('i, 's, 'd) stack_entry \<times> 'd \<times> 'a \<times> bool) option" where
  "seek_items dim target bias agg e position a (x # xs) (s # ss) =
     (let child_end = d_add dim position s
      in if past_end target bias child_end
         then do {
           a' \<leftarrow> ag_push_item agg x s a;
           seek_items dim target bias agg (e\<lparr>se_index := se_index e + 1\<rparr>) child_end a' xs ss
         }
         else Some (e, position, a, True))"
| "seek_items dim target bias agg e position a _ _ = Some (e, position, a, False)"

lemma seek_children_child:
  "seek_children dim target bias agg e position a ts ss = Some (e', position', a', Some t) \<Longrightarrow>
   se_tree e' = se_tree e \<and> se_index e \<le> se_index e' \<and> se_index e' - se_index e < length ts \<and>
   t = ts ! (se_index e' - se_index e)"
proof (induction dim target bias agg e position a ts ss rule: seek_children.induct)
  case (1 dim target bias agg e position a t' ts s ss)
  show ?case
  proof (cases "past_end target bias (d_add dim position s)")
    case True
    with "1.prems" obtain a1 where "ag_push_tree agg t' s a = Some a1"
      and "seek_children dim target bias agg
        (e\<lparr>se_index := se_index e + 1, se_position := d_add dim position s\<rparr>)
        (d_add dim position s) a1 ts ss = Some (e', position', a', Some t)"
      by (auto simp: Let_def bind_eq_Some_conv)
    with "1.IH" [OF refl True] show ?thesis
      by (fastforce simp: nth_Cons' less_diff_conv)
  qed (use "1.prems" in \<open>auto simp: Let_def\<close>)
qed auto

text \<open>The loop \<open>'outer\<close>.\<close>

function seek_loop ::
  "('s, 'd) dimension \<Rightarrow> ('d \<Rightarrow> ordering) \<Rightarrow> bias \<Rightarrow> ('i, 's, 'a) aggregate \<Rightarrow>
   bool \<Rightarrow> 'd \<Rightarrow> 'a \<Rightarrow> ('i, 's, 'd) stack_entry list \<Rightarrow>
   ('d \<times> 'a \<times> ('i, 's, 'd) stack_entry list) option" where
  "seek_loop dim target bias agg ascending position a [] = Some (position, a, [])"
| "seek_loop dim target bias agg ascending position a (e # rest) =
     (case se_tree e of
        Internal h s ss ts \<Rightarrow>
          (let e1 = (if ascending then e\<lparr>se_index := se_index e + 1, se_position := position\<rparr> else e)
           in if se_index e1 \<le> length ts \<and> se_index e1 \<le> length ss
              then case seek_children dim target bias agg e1 position a
                          (drop (se_index e1) ts) (drop (se_index e1) ss) of
                     None \<Rightarrow> None
                   | Some (e2, position', a', Some child) \<Rightarrow>
                       if length (e2 # rest) < STACK_CAPACITY
                       then seek_loop dim target bias agg False position' a'
                              (\<lparr>se_tree = child, se_index = 0, se_position = position'\<rparr> # e2 # rest)
                       else None
                   | Some (e2, position', a', None) \<Rightarrow> seek_loop dim target bias agg True position' a' rest
              else None)
      | Leaf s xs ss \<Rightarrow>
          (if se_index e \<le> length xs \<and> se_index e \<le> length ss
           then case seek_items dim target bias agg e position a
                       (drop (se_index e) xs) (drop (se_index e) ss) of
                  None \<Rightarrow> None
                | Some (e2, position', a', found) \<Rightarrow>
                    (case ag_end_leaf agg a' of
                       None \<Rightarrow> None
                     | Some a'' \<Rightarrow>
                         if found then Some (position', a'', e2 # rest)
                         else seek_loop dim target bias agg True position' a'' rest)
           else None))"
  by pat_completeness auto
termination
proof (relation "measure (\<lambda>(dim, target, bias, agg, asc, position, a, stack). work_from asc stack)",
    goal_cases)
  case (4 dim target bias agg ascending position a e rest h s ss ts e1 x e2 y position' z a' c child)
  then have r: "seek_children dim target bias agg e1 position a (drop (se_index e1) ts) (drop (se_index e1) ss) =
      Some (e2, position', a', Some child)"
    by simp
  note ch = seek_children_child [OF r]
  have "work_from False (\<lparr>se_tree = child, se_index = 0, se_position = position'\<rparr> # e2 # rest) <
      work_from ascending (e # rest)"
    by (rule work_from_push [where i = "se_index e2"]) (use ch 4 in \<open>auto split: if_splits\<close>)
  then show ?case by simp
qed (auto simp: work_from_pop)

declare seek_loop.simps(2) [simp del]

text \<open>
  \<open>seek_internal\<close>: returns the moved cursor, the aggregate, and whether the position reached is
  exactly the target's.
\<close>

definition seek_internal ::
  "('s, 'd) dimension \<Rightarrow> ('d \<Rightarrow> ordering) \<Rightarrow> bias \<Rightarrow> ('i, 's, 'a) aggregate \<Rightarrow> 'a \<Rightarrow>
   ('i, 's, 'd) cursor \<Rightarrow> (('i, 's, 'd) cursor \<times> 'a \<times> bool) option" where
  "seek_internal dim target bias agg a c = do {
     rust_assert (is_ge (target (c_position c)));
     stack \<leftarrow> (if \<not> c_did_seek c
               then push_entry \<lparr>se_tree = c_tree c, se_index = 0, se_position = d_zero dim\<rparr> (c_stack c)
               else Some (c_stack c));
     (position, a', stack') \<leftarrow> seek_loop dim target bias agg False (c_position c) a stack;
     let c' = c\<lparr>c_did_seek := True, c_stack := stack', c_position := position, c_at_end := (stack' = [])\<rparr>;
     rust_assert (stack' = [] \<or> is_leaf (se_tree (hd stack')));
     end' \<leftarrow> (if bias = Left then cursor_end dim c' else Some position);
     Some (c', a', target end' = Equal)
   }"

definition cursor_seek ::
  "('s, 'd) dimension \<Rightarrow> ('d \<Rightarrow> ordering) \<Rightarrow> bias \<Rightarrow> ('i, 's, 'd) cursor \<Rightarrow>
   (('i, 's, 'd) cursor \<times> bool) option" where
  "cursor_seek dim target bias c = do {
     (c', _, found) \<leftarrow> seek_internal dim target bias unit_aggregate () (cursor_reset dim c);
     Some (c', found)
   }"

definition cursor_seek_forward ::
  "('s, 'd) dimension \<Rightarrow> ('d \<Rightarrow> ordering) \<Rightarrow> bias \<Rightarrow> ('i, 's, 'd) cursor \<Rightarrow>
   (('i, 's, 'd) cursor \<times> bool) option" where
  "cursor_seek_forward dim target bias c = do {
     (c', _, found) \<leftarrow> seek_internal dim target bias unit_aggregate () c;
     Some (c', found)
   }"

definition cursor_slice ::
  "('i, 's) summary_ops \<Rightarrow> ('s, 'd) dimension \<Rightarrow> ('d \<Rightarrow> ordering) \<Rightarrow> bias \<Rightarrow> ('i, 's, 'd) cursor \<Rightarrow>
   (('i, 's, 'd) cursor \<times> ('i, 's) sum_tree) option" where
  "cursor_slice ops dim target bias c = do {
     (c', a, _) \<leftarrow> seek_internal dim target bias (slice_seek_aggregate ops)
       \<lparr>sa_tree = tree_new ops, sa_leaf_items = [], sa_leaf_item_summaries = [], sa_leaf_summary = s_zero ops\<rparr> c;
     Some (c', sa_tree a)
   }"

text \<open>The target \<open>End\<close> lies after every position.\<close>

definition End_target :: "'d \<Rightarrow> ordering" where
  "End_target _ = Greater"

definition cursor_suffix ::
  "('i, 's) summary_ops \<Rightarrow> ('s, 'd) dimension \<Rightarrow> ('i, 's, 'd) cursor \<Rightarrow>
   (('i, 's, 'd) cursor \<times> ('i, 's) sum_tree) option" where
  "cursor_suffix ops dim c = cursor_slice ops dim End_target Right c"

definition cursor_summary ::
  "('s, 'o) dimension \<Rightarrow> ('s, 'd) dimension \<Rightarrow> ('d \<Rightarrow> ordering) \<Rightarrow> bias \<Rightarrow> ('i, 's, 'd) cursor \<Rightarrow>
   (('i, 's, 'd) cursor \<times> 'o) option" where
  "cursor_summary out dim target bias c = do {
     (c', a, _) \<leftarrow> seek_internal dim target bias (summary_seek_aggregate out) (d_zero out) c;
     Some (c', a)
   }"

section \<open>Walking forward\<close>

text \<open>
  The inner loops of \<open>search_forward\<close>: skip the children or items whose summary the filter rejects.
\<close>

fun skip_filtered ::
  "('s, 'd) dimension \<Rightarrow> ('s \<Rightarrow> bool) \<Rightarrow> ('i, 's, 'd) stack_entry \<Rightarrow> 'd \<Rightarrow> 's list \<Rightarrow>
   ('i, 's, 'd) stack_entry \<times> 'd" where
  "skip_filtered dim filter_node e position (s # ss) =
     (if filter_node s then (e, position)
      else skip_filtered dim filter_node
        (e\<lparr>se_index := se_index e + 1, se_position := d_add dim (se_position e) s\<rparr>) (d_add dim position s) ss)"
| "skip_filtered dim filter_node e position [] = (e, position)"

lemma skip_filtered_entry:
  "skip_filtered dim filter_node e position ss = (e', position') \<Longrightarrow>
   se_tree e' = se_tree e \<and> se_index e \<le> se_index e'"
  by (induction dim filter_node e position ss rule: skip_filtered.induct)
    (fastforce split: if_splits)+

text \<open>
  The loop of \<open>search_forward\<close>. The flag tells an early \<open>return\<close> (an item was reached) from the end
  of the loop.
\<close>

function forward_loop ::
  "('s, 'd) dimension \<Rightarrow> ('s \<Rightarrow> bool) \<Rightarrow> bool \<Rightarrow> 'd \<Rightarrow> ('i, 's, 'd) stack_entry list \<Rightarrow>
   ('d \<times> ('i, 's, 'd) stack_entry list \<times> bool) option" where
  "forward_loop dim filter_node descend position [] = Some (position, [], False)"
| "forward_loop dim filter_node descend position (e # rest) =
     (case se_tree e of
        Internal h s ss ts \<Rightarrow>
          (let e1 = (if \<not> descend then e\<lparr>se_index := se_index e + 1, se_position := position\<rparr> else e)
           in case skip_filtered dim filter_node e1 position (drop (se_index e1) ss) of
                (e2, position') \<Rightarrow>
                  (case get_opt ts (se_index e2) of
                     Some subtree \<Rightarrow>
                       if length (e2 # rest) < STACK_CAPACITY
                       then forward_loop dim filter_node True position'
                              (\<lparr>se_tree = subtree, se_index = 0, se_position = position'\<rparr> # e2 # rest)
                       else None
                   | None \<Rightarrow> forward_loop dim filter_node False position' rest))
      | Leaf s xs ss \<Rightarrow>
          if \<not> descend \<and> length ss \<le> se_index e then None
          else
            (let (e1, position1) =
                   (if \<not> descend
                    then (e\<lparr>se_index := se_index e + 1,
                            se_position := d_add dim (se_position e) (ss ! se_index e)\<rparr>,
                          d_add dim position (ss ! se_index e))
                    else (e, position))
             in case skip_filtered dim filter_node e1 position1 (drop (se_index e1) ss) of
                  (e2, position') \<Rightarrow>
                    if se_index e2 < length ss then Some (position', e2 # rest, True)
                    else forward_loop dim filter_node False position' rest))"
  by pat_completeness auto
termination
proof (relation "measure (\<lambda>(dim, f, descend, position, stack). work_from (\<not> descend) stack)", goal_cases)
  case (4 dim f descend position e rest h s ss ts e1 e2 position' subtree)
  then have r: "skip_filtered dim f e1 position (drop (se_index e1) ss) = (e2, position')" by simp
  have "work_from False (\<lparr>se_tree = subtree, se_index = 0, se_position = position'\<rparr> # e2 # rest) <
      work_from (\<not> descend) (e # rest)"
    by (rule work_from_push [where i = "se_index e2"])
      (use 4 skip_filtered_entry [OF r] in \<open>auto split: if_splits\<close>)
  then show ?case by simp
qed (auto simp: work_from_pop)

declare forward_loop.simps(2) [simp del]

definition search_forward ::
  "('s, 'd) dimension \<Rightarrow> ('s \<Rightarrow> bool) \<Rightarrow> ('i, 's, 'd) cursor \<Rightarrow> ('i, 's, 'd) cursor option" where
  "search_forward dim filter_node c = do {
     (stack, descend) \<leftarrow>
       (if c_stack c = [] \<and> \<not> c_at_end c
        then do {
          st \<leftarrow> push_entry \<lparr>se_tree = c_tree c, se_index = 0, se_position = d_zero dim\<rparr> (c_stack c);
          Some (st, True)
        }
        else Some (c_stack c, False));
     let c1 = (if c_stack c = [] then c\<lparr>c_did_seek := True\<rparr> else c);
     (position, stack', returned) \<leftarrow> forward_loop dim filter_node descend (c_position c) stack;
     let c2 = c1\<lparr>c_stack := stack', c_position := position\<rparr>;
     if returned then Some c2
     else do {
       rust_assert (stack' = [] \<or> is_leaf (se_tree (hd stack')));
       Some (c2\<lparr>c_at_end := (stack' = [])\<rparr>)
     }
   }"

definition cursor_next :: "('s, 'd) dimension \<Rightarrow> ('i, 's, 'd) cursor \<Rightarrow> ('i, 's, 'd) cursor option" where
  "cursor_next dim c = search_forward dim (\<lambda>_. True) c"

section \<open>Walking backward\<close>

lemma weight_upto_Suc: "weight_upto k t < weight_upto (Suc k) t"
proof (cases t)
  case (Internal h s ss ts)
  then show ?thesis by (cases "k < length ts") (simp_all add: take_Suc_conv_app_nth)
qed simp

lemma weight_upto_child:
  "i < length ts \<Longrightarrow> weight_upto (length (child_summaries (ts ! i))) (ts ! i) + weight_upto i (Internal h s ss ts) <
     weight_upto (Suc i) (Internal h s ss ts)"
proof -
  have "weight_upto (length (child_summaries t)) t < weight t" for t :: "('i, 's) sum_tree"
  proof (cases t)
    case (Internal h s ss ts)
    have "sum_list (map weight (take n ts)) \<le> sum_list (map weight ts)" for n
      by (subst (2) append_take_drop_id [symmetric, of ts n]) (simp only: map_append sum_list.append le_add1)
    with Internal show ?thesis by (simp add: le_imp_less_Suc)
  qed simp
  from this [of "ts ! i"] show "i < length ts \<Longrightarrow> ?thesis"
    by (simp add: take_Suc_conv_app_nth)
qed

function backward_loop ::
  "('s, 'd) dimension \<Rightarrow> ('s \<Rightarrow> bool) \<Rightarrow> bool \<Rightarrow> 'd \<Rightarrow> ('i, 's, 'd) stack_entry list \<Rightarrow>
   ('d \<times> ('i, 's, 'd) stack_entry list) option" where
  "backward_loop dim filter_node descending position [] = Some (position, [])"
| "backward_loop dim filter_node descending position (e # rest) =
     (let position1 = (case rest of p # _ \<Rightarrow> se_position p | [] \<Rightarrow> d_zero dim);
          ss = child_summaries (se_tree e)
      in if \<not> descending \<and> se_index e = 0 then backward_loop dim filter_node False position1 rest
         else
           (let i = (if descending then se_index e else se_index e - 1)
            in if i < length ss
               then
                 (let position2 = foldl (d_add dim) position1 (take i ss);
                      e1 = e\<lparr>se_index := i, se_position := position2\<rparr>
                  in if filter_node (ss ! i)
                     then (case se_tree e of
                             Leaf _ _ _ \<Rightarrow> Some (position2, e1 # rest)
                           | Internal _ _ _ ts \<Rightarrow>
                               if i < length ts \<and> child_summaries (ts ! i) \<noteq> [] \<and>
                                  length (e1 # rest) < STACK_CAPACITY
                               then backward_loop dim filter_node True position2
                                      (\<lparr>se_tree = ts ! i, se_index = length (child_summaries (ts ! i)) - 1,
                                        se_position = d_zero dim\<rparr> # e1 # rest)
                               else None)
                     else backward_loop dim filter_node False position2 (e1 # rest))
               else None))"
  by pat_completeness auto
termination
proof (relation "measure (\<lambda>(dim, f, descending, position, stack). work_upto descending stack)", goal_cases)
  case (3 dim f descending position e rest position1 ss i position2 e1 h s ss' ts)
  let ?c = "\<lparr>se_tree = ts ! i, se_index = length (child_summaries (ts ! i)) - 1, se_position = d_zero dim\<rparr>"
  have "weight_upto (se_index e + (if descending then 1 else 0)) (se_tree e) = weight_upto (Suc i) (se_tree e)"
    using 3 by (auto split: if_splits)
  with 3 weight_upto_child [of i ts h s ss'] have "work_upto True (?c # e1 # rest) < work_upto descending (e # rest)"
    by (simp add: work_upto_def)
  then show ?case by simp
next
  case (4 dim f descending position e rest position1 ss i position2 e1)
  have "weight_upto (se_index e + (if descending then 1 else 0)) (se_tree e) = weight_upto (Suc i) (se_tree e)"
    using 4 by (auto split: if_splits)
  with 4 weight_upto_Suc [of i "se_tree e"] have "work_upto False (e1 # rest) < work_upto descending (e # rest)"
    by (simp add: work_upto_def)
  then show ?case by simp
qed (auto simp: work_upto_pop)

declare backward_loop.simps(2) [simp del]

definition search_backward ::
  "('s, 'd) dimension \<Rightarrow> ('s \<Rightarrow> bool) \<Rightarrow> ('i, 's, 'd) cursor \<Rightarrow> ('i, 's, 'd) cursor option" where
  "search_backward dim filter_node c = do {
     let at_end = (c_at_end c \<or> \<not> c_did_seek c);
     let c1 = c\<lparr>c_did_seek := True, c_at_end := at_end\<rparr>;
     c2 \<leftarrow>
       (if at_end
        then do {
          stack \<leftarrow>
            (if \<not> tree_is_empty (c_tree c)
             then push_entry \<lparr>se_tree = c_tree c, se_index = length (child_summaries (c_tree c)),
                    se_position = d_from_summary dim (summary (c_tree c))\<rparr> (c_stack c)
             else Some (c_stack c));
          Some (c1\<lparr>c_position := d_zero dim, c_at_end := tree_is_empty (c_tree c), c_stack := stack\<rparr>)
        }
        else Some c1);
     (position, stack') \<leftarrow> backward_loop dim filter_node False (c_position c2) (c_stack c2);
     Some (c2\<lparr>c_position := position, c_stack := stack'\<rparr>)
   }"

definition cursor_prev :: "('s, 'd) dimension \<Rightarrow> ('i, 's, 'd) cursor \<Rightarrow> ('i, 's, 'd) cursor option" where
  "cursor_prev dim c = search_backward dim (\<lambda>_. True) c"

section \<open>Iterators\<close>

text \<open>\<open>impl Iterator for Cursor\<close> and \<open>FilterCursor\<close> (whose filter is applied by \<open>next\<close> and \<open>prev\<close>).\<close>

definition cursor_iter_next ::
  "('s, 'd) dimension \<Rightarrow> ('s \<Rightarrow> bool) \<Rightarrow> ('i, 's, 'd) cursor \<Rightarrow> ('i option \<times> ('i, 's, 'd) cursor) option" where
  "cursor_iter_next dim filter_node c = do {
     c1 \<leftarrow> (if \<not> c_did_seek c then search_forward dim filter_node c else Some c);
     item \<leftarrow> cursor_item c1;
     case item of
       Some x \<Rightarrow> do { c2 \<leftarrow> search_forward dim filter_node c1; Some (Some x, c2) }
     | None \<Rightarrow> Some (None, c1)
   }"

record ('i, 's, 'd) filter_cursor =
  fc_cursor :: "('i, 's, 'd) cursor"
  fc_filter_node :: "'s \<Rightarrow> bool"

definition filter_cursor_new ::
  "('s, 'd) dimension \<Rightarrow> ('i, 's) sum_tree \<Rightarrow> ('s \<Rightarrow> bool) \<Rightarrow> ('i, 's, 'd) filter_cursor" where
  "filter_cursor_new dim t filter_node = \<lparr>fc_cursor = cursor_new dim t, fc_filter_node = filter_node\<rparr>"

definition filter_cursor_next ::
  "('s, 'd) dimension \<Rightarrow> ('i, 's, 'd) filter_cursor \<Rightarrow> ('i, 's, 'd) filter_cursor option" where
  "filter_cursor_next dim fc = do {
     c \<leftarrow> search_forward dim (fc_filter_node fc) (fc_cursor fc);
     Some (fc\<lparr>fc_cursor := c\<rparr>)
   }"

definition filter_cursor_prev ::
  "('s, 'd) dimension \<Rightarrow> ('i, 's, 'd) filter_cursor \<Rightarrow> ('i, 's, 'd) filter_cursor option" where
  "filter_cursor_prev dim fc = do {
     c \<leftarrow> search_backward dim (fc_filter_node fc) (fc_cursor fc);
     Some (fc\<lparr>fc_cursor := c\<rparr>)
   }"

definition filter_cursor_iter_next ::
  "('s, 'd) dimension \<Rightarrow> ('i, 's, 'd) filter_cursor \<Rightarrow> ('i option \<times> ('i, 's, 'd) filter_cursor) option" where
  "filter_cursor_iter_next dim fc = do {
     (x, c) \<leftarrow> cursor_iter_next dim (fc_filter_node fc) (fc_cursor fc);
     Some (x, fc\<lparr>fc_cursor := c\<rparr>)
   }"

text \<open>\<open>Iter\<close>: the plain iterator, with the same stack but no positions.\<close>

record ('i, 's) tree_iter =
  it_tree :: "('i, 's) sum_tree"
  it_stack :: "('i, 's, unit) stack_entry list"

definition iter_new :: "('i, 's) sum_tree \<Rightarrow> ('i, 's) tree_iter" where
  "iter_new t = \<lparr>it_tree = t, it_stack = []\<rparr>"

function iter_loop ::
  "bool \<Rightarrow> ('i, 's, unit) stack_entry list \<Rightarrow> ('i option \<times> ('i, 's, unit) stack_entry list) option" where
  "iter_loop descend [] = Some (None, [])"
| "iter_loop descend (e # rest) =
     (let e1 = (if \<not> descend then e\<lparr>se_index := se_index e + 1\<rparr> else e)
      in case se_tree e of
           Internal h s ss ts \<Rightarrow>
             (case get_opt ts (se_index e1) of
                Some subtree \<Rightarrow>
                  if length (e1 # rest) < STACK_CAPACITY
                  then iter_loop True (\<lparr>se_tree = subtree, se_index = 0, se_position = ()\<rparr> # e1 # rest)
                  else None
              | None \<Rightarrow> iter_loop False rest)
         | Leaf s xs ss \<Rightarrow>
             (case get_opt xs (se_index e1) of
                Some item \<Rightarrow> Some (Some item, e1 # rest)
              | None \<Rightarrow> iter_loop False rest))"
  by pat_completeness auto
termination
proof (relation "measure (\<lambda>(descend, stack). work_from (\<not> descend) stack)", goal_cases)
  case (4 descend e rest e1 h s ss ts subtree)
  have "work_from False (\<lparr>se_tree = subtree, se_index = 0, se_position = ()\<rparr> # e1 # rest) <
      work_from (\<not> descend) (e # rest)"
    by (rule work_from_push [where i = "se_index e1"]) (use 4 in \<open>auto split: if_splits\<close>)
  then show ?case by simp
qed (auto simp: work_from_pop)

declare iter_loop.simps(2) [simp del]

definition iter_next :: "('i, 's) tree_iter \<Rightarrow> ('i option \<times> ('i, 's) tree_iter) option" where
  "iter_next it = do {
     (stack, descend) \<leftarrow>
       (if it_stack it = []
        then do { st \<leftarrow> push_entry \<lparr>se_tree = it_tree it, se_index = 0, se_position = ()\<rparr> []; Some (st, True) }
        else Some (it_stack it, False));
     (x, stack') \<leftarrow> iter_loop descend stack;
     Some (x, it\<lparr>it_stack := stack'\<rparr>)
   }"

definition iter_last :: "('i, 's) tree_iter \<Rightarrow> 'i option option" where
  "iter_last it = tree_last (it_tree it)"

definition iter_size_hint :: "('i, 's) tree_iter \<Rightarrow> nat option" where
  "iter_size_hint it =
     (case it_stack it of
        entry # _ \<Rightarrow> checked_sub (length (child_summaries (se_tree entry))) (se_index entry)
      | [] \<Rightarrow> Some (length (child_summaries (it_tree it))))"

end
