(* ===== verification/SumTree_Correct.thy ===== *)
theory SumTree_Correct
  imports SumTree
begin

text \<open>
  Correctness of the tree operations of \<open>SumTree\<close>: the sequence of items a tree holds, the
  well-formedness invariant (capacities, equal heights, no empty child, every stored summary is the
  sum of the items below it) and, for each operation, that it does not panic on well-formed trees,
  keeps the invariant and acts on the sequence as its list counterpart. The laws a summary type has
  to satisfy are the locale \<open>summary_monoid\<close>.
\<close>

section \<open>Abstraction and invariant\<close>

fun elems :: "('i, 's) sum_tree \<Rightarrow> 'i list" where
  "elems (Leaf s xs ss) = xs"
| "elems (Internal h s ss ts) = concat (map elems ts)"

definition item_sum :: "('i, 's) summary_ops \<Rightarrow> 'i list \<Rightarrow> 's" where
  "item_sum ops xs = sum_of ops (map (s_item ops) xs)"

fun wf_tree :: "('i, 's) summary_ops \<Rightarrow> ('i, 's) sum_tree \<Rightarrow> bool" where
  "wf_tree ops (Leaf s xs ss) \<longleftrightarrow>
     length xs \<le> 2 * TREE_BASE \<and> ss = map (s_item ops) xs \<and> s = item_sum ops xs"
| "wf_tree ops (Internal h s ss ts) \<longleftrightarrow>
     ts \<noteq> [] \<and> length ts \<le> 2 * TREE_BASE \<and> ss = map summary ts \<and>
     s = item_sum ops (concat (map elems ts)) \<and>
     (\<forall>t \<in> set ts. wf_tree ops t \<and> elems t \<noteq> [] \<and> Suc (height t) = h)"

definition forest :: "('i, 's) summary_ops \<Rightarrow> nat \<Rightarrow> ('i, 's) sum_tree list \<Rightarrow> bool" where
  "forest ops h ts \<longleftrightarrow> (\<forall>t \<in> set ts. wf_tree ops t \<and> elems t \<noteq> [] \<and> Suc (height t) = h)"

lemma forest_simps [simp]:
  "forest ops h []"
  "forest ops h (t # ts) \<longleftrightarrow> wf_tree ops t \<and> elems t \<noteq> [] \<and> Suc (height t) = h \<and> forest ops h ts"
  "forest ops h (ts @ us) \<longleftrightarrow> forest ops h ts \<and> forest ops h us"
  by (auto simp: forest_def)

lemma forest_take_drop:
  "forest ops h ts \<Longrightarrow> forest ops h (take n ts)"
  "forest ops h ts \<Longrightarrow> forest ops h (drop n ts)"
  by (auto simp: forest_def dest: in_set_takeD in_set_dropD)

lemma forest_butlast: "forest ops h ts \<Longrightarrow> forest ops h (butlast ts)"
  by (auto simp: forest_def dest: in_set_butlastD)

lemma forest_last: "forest ops h ts \<Longrightarrow> ts \<noteq> [] \<Longrightarrow>
    wf_tree ops (last ts) \<and> elems (last ts) \<noteq> [] \<and> Suc (height (last ts)) = h"
  by (simp add: forest_def)

lemma wf_Internal:
  "wf_tree ops (Internal h s ss ts) \<longleftrightarrow>
     ts \<noteq> [] \<and> length ts \<le> 2 * TREE_BASE \<and> ss = map summary ts \<and>
     s = item_sum ops (concat (map elems ts)) \<and> forest ops h ts"
  by (auto simp: forest_def)

declare wf_tree.simps(2) [simp del]

lemma wf_summary: "wf_tree ops t \<Longrightarrow> summary t = item_sum ops (elems t)"
  by (cases t) (auto simp: wf_Internal)

lemma elems_forest_nonempty:
  "forest ops h ts \<Longrightarrow> ts \<noteq> [] \<Longrightarrow> concat (map elems ts) \<noteq> []"
  by (cases ts) auto

lemma wf_height_0: "wf_tree ops t \<Longrightarrow> height t = 0 \<longleftrightarrow> is_leaf t"
  by (cases t) (auto simp: wf_Internal neq_Nil_conv)

lemma wf_is_empty: "wf_tree ops t \<Longrightarrow> tree_is_empty t \<longleftrightarrow> elems t = []"
  using elems_forest_nonempty by (cases t) (fastforce simp: wf_Internal)+

lemma wf_is_leaf_empty: "wf_tree ops t \<Longrightarrow> elems t = [] \<Longrightarrow> is_leaf t"
  using wf_is_empty by (cases t) fastforce+

lemma wf_tree_new [simp]: "wf_tree ops (tree_new ops)" "elems (tree_new ops) = []"
  by (simp_all add: tree_new_def item_sum_def sum_of_def)

lemma concat_map_take_drop:
  "concat (map f (take n xs)) @ concat (map f (drop n xs)) = concat (map f xs)"
  by (simp flip: concat_append map_append)

lemma concat_map_concat: "concat (map (\<lambda>c. concat (map f c)) cs) = concat (map f (concat cs))"
  by (induction cs) auto

text \<open>
  What \<open>push_tree_recursive\<close>, \<open>append_large\<close> and \<open>merge_into_right\<close> return: one node of the same
  height, or two that hold the sequence between them (\<open>l\<close> before \<open>r\<close>).
\<close>

definition one_node ::
  "('i, 's) summary_ops \<Rightarrow> nat \<Rightarrow> 'i list \<Rightarrow> ('i, 's) sum_tree \<Rightarrow> bool" where
  "one_node ops h xs t \<longleftrightarrow> wf_tree ops t \<and> height t = h \<and> elems t \<noteq> [] \<and> elems t = xs"

lemma one_nodeD: "one_node ops h xs t \<Longrightarrow> wf_tree ops t \<and> elems t \<noteq> [] \<and> height t = h"
  by (auto simp: one_node_def)

definition two_nodes ::
  "('i, 's) summary_ops \<Rightarrow> nat \<Rightarrow> 'i list \<Rightarrow> ('i, 's) sum_tree \<Rightarrow> ('i, 's) sum_tree \<Rightarrow> bool" where
  "two_nodes ops h xs l r \<longleftrightarrow> wf_tree ops l \<and> wf_tree ops r \<and> height l = h \<and> height r = h \<and>
     elems l \<noteq> [] \<and> elems r \<noteq> [] \<and> elems l @ elems r = xs"

section \<open>Chunks\<close>

lemma concat_chunks_of: "0 < n \<Longrightarrow> concat (chunks_of n xs) = xs"
  by (induction n xs rule: chunks_of.induct) (simp add: chunks_of.simps)

lemma in_chunks_of: "c \<in> set (chunks_of n xs) \<Longrightarrow> c \<noteq> [] \<and> length c \<le> n \<and> set c \<subseteq> set xs"
proof (induction n xs rule: chunks_of.induct)
  case (1 n xs)
  then show ?case
    by (subst (asm) chunks_of.simps) (fastforce split: if_splits dest: in_set_takeD in_set_dropD)
qed

lemma chunks_of_short: "ts \<noteq> [] \<Longrightarrow> length ts \<le> n \<Longrightarrow> chunks_of n ts = [ts]"
  by (cases ts) (simp_all add: chunks_of.simps)

lemma chunks_of_cons: "length ts = n \<Longrightarrow> 0 < n \<Longrightarrow> chunks_of n (ts @ us) = ts # chunks_of n us"
  by (subst chunks_of.simps) auto

lemma from_iter_leaves_chunks:
  "from_iter_leaves ops xs = map (par_leaf ops) (chunks_of (2 * TREE_BASE) xs)"
proof (induction ops xs rule: from_iter_leaves.induct)
  case (1 ops xs)
  then show ?case
    by (subst from_iter_leaves.simps, subst chunks_of.simps)
      (simp add: par_leaf_def Let_def TREE_BASE_def)
qed

section \<open>The laws of a summary\<close>

locale summary_monoid =
  fixes ops :: "('i, 's) summary_ops"
  assumes add_assoc: "s_add ops (s_add ops a b) c = s_add ops a (s_add ops b c)"
    and zero_left: "s_add ops (s_zero ops) a = a"
begin

lemma foldl_add: "foldl (s_add ops) (s_add ops a b) ss = s_add ops a (foldl (s_add ops) b ss)"
  by (induction ss arbitrary: b) (simp_all add: add_assoc)

lemma sum_of_Cons: "sum_of ops (s # ss) = foldl (s_add ops) s ss"
  by (simp add: sum_of_def zero_left)

lemma sum_of_append:
  "ss2 \<noteq> [] \<Longrightarrow> sum_of ops (ss1 @ ss2) = s_add ops (sum_of ops ss1) (sum_of ops ss2)"
proof (cases ss2)
  case (Cons s ss)
  then show ?thesis
    by (simp add: sum_of_def foldl_add zero_left)
qed simp

lemma item_sum_append:
  "ys \<noteq> [] \<Longrightarrow> item_sum ops (xs @ ys) = s_add ops (item_sum ops xs) (item_sum ops ys)"
  by (simp add: item_sum_def sum_of_append)

lemma sum_summaries:
  "forest ops h ts \<Longrightarrow> sum_of ops (map summary ts) = item_sum ops (concat (map elems ts))"
proof (induction ts rule: rev_induct)
  case Nil
  then show ?case by (simp add: item_sum_def)
next
  case (snoc t ts)
  then have "summary t = item_sum ops (elems t)"
    by (simp add: wf_summary)
  with snoc show ?case
    by (simp add: item_sum_append) (simp add: sum_of_def)
qed

lemma wf_node:
  "forest ops h ts \<Longrightarrow> ts \<noteq> [] \<Longrightarrow> length ts \<le> 2 * TREE_BASE \<Longrightarrow>
     wf_tree ops (Internal h (sum_of ops (map summary ts)) (map summary ts) ts)"
  by (simp add: wf_Internal sum_summaries)

lemma wf_leaf:
  "length xs \<le> 2 * TREE_BASE \<Longrightarrow>
     wf_tree ops (Leaf (sum_of ops (map (s_item ops) xs)) xs (map (s_item ops) xs))"
  by (simp add: item_sum_def)

lemma two_nodes_Internal:
  assumes "forest ops h ts" "0 < m" "m < length ts" "m \<le> 2 * TREE_BASE"
    and "length ts - m \<le> 2 * TREE_BASE"
  shows "two_nodes ops h (concat (map elems ts))
    (Internal h (sum_of ops (map summary (take m ts))) (map summary (take m ts)) (take m ts))
    (Internal h (sum_of ops (map summary (drop m ts))) (map summary (drop m ts)) (drop m ts))"
proof -
  have f: "forest ops h (take m ts)" "forest ops h (drop m ts)"
    using assms(1) by (simp_all add: forest_take_drop)
  have n: "take m ts \<noteq> []" "drop m ts \<noteq> []"
    using assms(2,3) by auto
  from f n assms wf_node [OF f(1)] wf_node [OF f(2)] elems_forest_nonempty [OF f(1)]
    elems_forest_nonempty [OF f(2)]
  show ?thesis
    unfolding two_nodes_def by (simp add: concat_map_take_drop)
qed

lemma two_nodes_Leaf:
  assumes "0 < m" "m < length xs" "m \<le> 2 * TREE_BASE" "length xs - m \<le> 2 * TREE_BASE"
  shows "two_nodes ops 0 xs
    (Leaf (sum_of ops (map (s_item ops) (take m xs))) (take m xs) (map (s_item ops) (take m xs)))
    (Leaf (sum_of ops (map (s_item ops) (drop m xs))) (drop m xs) (map (s_item ops) (drop m xs)))"
  using assms unfolding two_nodes_def by (auto simp: item_sum_def)

lemma from_child_trees_wf:
  "two_nodes ops h xs l r \<Longrightarrow> one_node ops (Suc h) xs (from_child_trees ops l r)"
  using wf_node [of "Suc h" "[l, r]"]
  by (auto simp: two_nodes_def one_node_def from_child_trees_def TREE_BASE_def)


subsection \<open>Appending\<close>

lemma merge_into_right_correct:
  assumes "wf_tree ops t" "wf_tree ops u" "height t = height u" "elems t \<noteq> []" "elems u \<noteq> []"
  shows "\<exists>u' res. merge_into_right ops t u = Some (u', res) \<and>
    (case res of None \<Rightarrow> one_node ops (height u) (elems t @ elems u) u'
     | Some l \<Rightarrow> two_nodes ops (height u) (elems t @ elems u) l u')"
proof (cases t; cases u)
  fix h s ss ts h' s' ss' us
  assume t: "t = Internal h s ss ts" and u: "u = Internal h' s' ss' us"
  let ?n = "length us + length ts"
  have f: "forest ops h' (ts @ us)" and ss: "ss @ ss' = map summary (ts @ us)"
    and len: "ts \<noteq> []" "us \<noteq> []" "length ts \<le> 2 * TREE_BASE" "length us \<le> 2 * TREE_BASE"
    using assms by (auto simp: t u wf_Internal)
  show ?thesis
  proof (cases "?n \<le> 2 * TREE_BASE")
    case True
    have "s_add ops s s' = item_sum ops (concat (map elems (ts @ us)))"
      using assms by (simp add: t u wf_Internal item_sum_append)
    with True f ss assms len show ?thesis
      by (auto simp: t u one_node_def wf_Internal array_vec_def add.commute)
  next
    case False
    let ?m = "(?n + 1) div 2"
    have "two_nodes ops h' (elems t @ elems u)
      (Internal h' (sum_of ops (map summary (take ?m (ts @ us)))) (map summary (take ?m (ts @ us))) (take ?m (ts @ us)))
      (Internal h' (sum_of ops (map summary (drop ?m (ts @ us)))) (map summary (drop ?m (ts @ us))) (drop ?m (ts @ us)))"
      using two_nodes_Internal [OF f, of ?m] len False by (simp add: t u TREE_BASE_def)
    moreover have "h = h'" using assms by (simp add: t u)
    ultimately show ?thesis
      using False len
      by (simp add: t u ss array_vec_def take_map drop_map TREE_BASE_def Let_def
          del: take_append drop_append map_append) arith
  qed
next
  fix s xs ss s' ys ss'
  assume t: "t = Leaf s xs ss" and u: "u = Leaf s' ys ss'"
  let ?n = "length xs + length ys"
  have ss: "ss @ ss' = map (s_item ops) (xs @ ys)"
    and len: "length xs \<le> 2 * TREE_BASE" "length ys \<le> 2 * TREE_BASE" "xs \<noteq> []" "ys \<noteq> []"
    using assms by (auto simp: t u)
  show ?thesis
  proof (cases "?n \<le> 2 * TREE_BASE")
    case True
    have "s_add ops s s' = item_sum ops (xs @ ys)"
      using assms by (simp add: t u item_sum_append)
    with True ss assms len show ?thesis
      by (auto simp: t u one_node_def array_vec_def)
  next
    case False
    let ?m = "(?n + 1) div 2"
    have "two_nodes ops 0 (xs @ ys)
      (Leaf (sum_of ops (map (s_item ops) (take ?m (xs @ ys)))) (take ?m (xs @ ys)) (map (s_item ops) (take ?m (xs @ ys))))
      (Leaf (sum_of ops (map (s_item ops) (drop ?m (xs @ ys)))) (drop ?m (xs @ ys)) (map (s_item ops) (drop ?m (xs @ ys))))"
      using len False by (intro two_nodes_Leaf) (auto simp: TREE_BASE_def)
    with False len show ?thesis
      by (simp add: t u ss array_vec_def take_map drop_map TREE_BASE_def Let_def
          del: take_append drop_append map_append) arith
  qed
qed (use assms in \<open>auto simp: wf_Internal neq_Nil_conv\<close>)


text \<open>\<open>append_large\<close>: \<open>t\<close> is not taller than \<open>u\<close> and goes in front of it.\<close>

lemma append_large_correct:
  assumes "wf_tree ops t" "wf_tree ops u" "height t \<le> height u" "elems t \<noteq> []" "elems u \<noteq> []"
  shows "\<exists>u' res. append_large ops t u = Some (u', res) \<and>
    (case res of None \<Rightarrow> one_node ops (height u) (elems t @ elems u) u'
     | Some l \<Rightarrow> two_nodes ops (height u) (elems t @ elems u) l u')"
  using assms(2,3,5)
proof (induction u)
  case (Leaf s xs ss)
  with assms(1,4) merge_into_right_correct [of t "Leaf s xs ss"] show ?case
    by (auto simp: two_nodes_def)
next
  case (Internal h s ss us)
  then obtain v vs where us: "us = v # vs"
    by (auto simp: wf_Internal neq_Nil_conv)
  have f: "forest ops h (v # vs)" and ss: "ss = map summary us" and len: "length us \<le> 2 * TREE_BASE"
    and s: "s = item_sum ops (concat (map elems us))"
    using Internal.prems(1) by (auto simp: wf_Internal us)
  show ?case
  proof (cases "height t = h")
    case True
    with Internal.prems assms(1,4) merge_into_right_correct [of t "Internal h s ss us"] show ?thesis
      by (auto simp: two_nodes_def us)
  next
    case False
    with Internal.prems f have "height t \<le> height v" "height t < h" by auto
    with f Internal.IH [of v] obtain v' res where rec: "append_large ops t v = Some (v', res)"
      "case res of None \<Rightarrow> one_node ops (height v) (elems t @ elems v) v'
       | Some l \<Rightarrow> two_nodes ops (height v) (elems t @ elems v) l v'"
      by (auto simp: us)
    have full: "s_add ops (summary t) s = item_sum ops (elems t @ elems v @ concat (map elems vs))"
      using f assms(1) by (simp add: s us wf_summary item_sum_append)
    show ?thesis
    proof (cases res)
      case None
      with rec have one: "one_node ops (height v) (elems t @ elems v) v'" by simp
      then have "forest ops h (v' # vs)" using f by (auto simp: one_node_def)
      with one full len rec None False \<open>height t < h\<close> show ?thesis
        by (auto simp: us ss one_node_def wf_Internal)
    next
      case (Some l)
      with rec have two: "two_nodes ops (height v) (elems t @ elems v) l v'" by simp
      then have f': "forest ops h (l # v' # vs)" using f by (auto simp: two_nodes_def)
      have el: "concat (map elems (l # v' # vs)) = elems t @ elems v @ concat (map elems vs)"
        using two by (simp add: two_nodes_def)
      show ?thesis
      proof (cases "length (v # vs) < 2 * TREE_BASE")
        case True
        have full': "s_add ops (summary t) s = item_sum ops (elems l @ elems v' @ concat (map elems vs))"
          using full unfolding el [symmetric] by simp
        from True f' el full' len rec Some False \<open>height t < h\<close> show ?thesis
          by (auto simp: us ss one_node_def wf_Internal array_vec_def Suc_le_eq)
      next
        case full_node: False
        with len have "length vs = 11" by (simp add: us TREE_BASE_def)
        with two_nodes_Internal [OF f', of "Suc TREE_BASE"] rec Some False \<open>height t < h\<close>
        show ?thesis
          unfolding el by (auto simp: us ss array_vec_def take_map drop_map TREE_BASE_def Let_def)
      qed
    qed
  qed
qed


text \<open>
  The children \<open>ts @ us\<close> are distributed over one or two well-formed nodes.
\<close>

lemma distribute_correct:
  assumes "forest ops h (ts @ us)" "ts \<noteq> []" "length ts \<le> 2 * TREE_BASE" "length us \<le> 2 * TREE_BASE"
    and "s = item_sum ops (concat (map elems (ts @ us)))"
    and "ss = map summary ts" "ss' = map summary us"
  shows "\<exists>t' res. distribute_children ops h s ss ts ss' us = Some (t', res) \<and>
    (case res of None \<Rightarrow> one_node ops h (concat (map elems (ts @ us))) t'
     | Some r \<Rightarrow> two_nodes ops h (concat (map elems (ts @ us))) t' r)"
proof (cases "length ts + length us > 2 * TREE_BASE")
  case False
  with assms elems_forest_nonempty [OF assms(1)] show ?thesis
    by (auto simp: distribute_children_def one_node_def wf_Internal array_vec_def)
next
  case True
  let ?n = "length ts + length us"
  let ?m = "(?n + ?n mod 2) div 2"
  have b: "0 < ?m" "?m < length (ts @ us)" "?m \<le> 2 * TREE_BASE" "length (ts @ us) - ?m \<le> 2 * TREE_BASE"
    using True assms(3,4) by (auto simp: TREE_BASE_def)
  have ss: "ss @ ss' = map summary (ts @ us)" by (simp add: assms)
  have lens: "length (take ?m (ts @ us)) \<le> 2 * TREE_BASE" "length (drop ?m (ts @ us)) \<le> 2 * TREE_BASE"
    using b unfolding length_take length_drop by simp_all
  from two_nodes_Internal [OF assms(1) b] lens True show ?thesis
    unfolding distribute_children_def Let_def ss array_vec_def take_map drop_map
    by (simp del: take_append drop_append map_append length_take length_drop)
qed

lemma push_leaf_correct:
  assumes "wf_tree ops (Leaf s xs ss)" "wf_tree ops u" "height u = 0" "xs \<noteq> []" "elems u \<noteq> []"
  shows "\<exists>t' res. push_tree_recursive ops (Leaf s xs ss) u = Some (t', res) \<and>
    (case res of None \<Rightarrow> one_node ops 0 (xs @ elems u) t'
     | Some r \<Rightarrow> two_nodes ops 0 (xs @ elems u) t' r)"
proof -
  from assms(2,3) obtain s' ys where u: "u = Leaf s' ys (map (s_item ops) ys)"
    and s': "s' = item_sum ops ys"
    by (cases u) (auto simp: wf_height_0 wf_Internal neq_Nil_conv)
  let ?n = "length xs + length ys"
  let ?m = "(?n + ?n mod 2) div 2"
  have len: "length xs \<le> 2 * TREE_BASE" "length ys \<le> 2 * TREE_BASE"
    and ss: "ss @ map (s_item ops) ys = map (s_item ops) (xs @ ys)" and s: "s = item_sum ops xs"
    using assms by (simp_all add: u)
  show ?thesis
  proof (cases "?n > 2 * TREE_BASE")
    case False
    with assms(4,5) ss s s' show ?thesis
      by (auto simp: push_tree_recursive.simps u one_node_def array_vec_def item_sum_append)
  next
    case True
    have b: "0 < ?m" "?m < length (xs @ ys)" "?m \<le> 2 * TREE_BASE" "length (xs @ ys) - ?m \<le> 2 * TREE_BASE"
      using True len by (auto simp: TREE_BASE_def)
    have lens: "length (take ?m (xs @ ys)) \<le> 2 * TREE_BASE" "length (drop ?m (xs @ ys)) \<le> 2 * TREE_BASE"
      using b unfolding length_take length_drop by simp_all
    from two_nodes_Leaf [OF b] lens True show ?thesis
      unfolding push_tree_recursive.simps u leaf_items.simps child_summaries.simps elems.simps
        bind.bind_lunit Let_def ss array_vec_def take_map drop_map
      by (simp del: take_append drop_append map_append length_take length_drop)
  qed
qed

lemma push_tree_recursive_correct:
  assumes "wf_tree ops u" "elems u \<noteq> []"
  shows "wf_tree ops t \<Longrightarrow> elems t \<noteq> [] \<Longrightarrow> height u \<le> height t \<Longrightarrow>
    \<exists>t' res. push_tree_recursive ops t u = Some (t', res) \<and>
    (case res of None \<Rightarrow> one_node ops (height t) (elems t @ elems u) t'
     | Some r \<Rightarrow> two_nodes ops (height t) (elems t @ elems u) t' r)"
proof (induction t)
  case (Leaf s xs ss)
  with push_leaf_correct [OF Leaf.prems(1) assms(1)] assms(2) show ?case
    unfolding elems.simps height.simps le_zero_eq by blast
next
  case (Internal h s ss ts)
  note wf = Internal.prems(1) [unfolded wf_Internal]
  let ?s = "s_add ops s (summary u)"
  have s: "?s = item_sum ops (concat (map elems ts) @ elems u)"
    using wf assms by (simp add: wf_summary item_sum_append)
  consider (same) "h = height u" | (child) "h = Suc (height u)" "\<not> is_underflowing u"
    | (rec) "h > height u" "h = Suc (height u) \<longrightarrow> is_underflowing u"
    using Internal.prems(3) by fastforce
  then show ?case
  proof cases
    case same
    then obtain s' us where u: "u = Internal h s' (map summary us) us"
      using assms wf by (cases u) (auto simp: wf_Internal neq_Nil_conv)
    have us: "forest ops h us" "length us \<le> 2 * TREE_BASE" and f: "forest ops h (ts @ us)"
      using assms(1) wf by (auto simp: u wf_Internal)
    from distribute_correct [OF f, of "item_sum ops (concat (map elems ts) @ concat (map elems us))"
        "map summary ts" "map summary us"] us wf s show ?thesis
      by (simp add: push_tree_recursive.simps u array_vec_def cong: option.case_cong)
  next
    case child
    with wf assms have f: "forest ops h (ts @ [u])" by simp
    from distribute_correct [OF f, of ?s ss "[summary u]"] wf child s show ?thesis
      by (simp add: push_tree_recursive.simps TREE_BASE_def cong: option.case_cong)
  next
    case rec
    let ?l = "last ts"
    have l: "?l \<in> set ts" "ts = butlast ts @ [?l]" using wf by auto
    then have fb: "forest ops h (butlast ts @ [?l])" using wf by simp
    then have "height u \<le> height ?l" "wf_tree ops ?l" "elems ?l \<noteq> []" "h = Suc (height ?l)"
      using rec by auto
    with Internal.IH [OF l(1)] obtain l' res where r: "push_tree_recursive ops ?l u = Some (l', res)"
      "case res of None \<Rightarrow> one_node ops (height ?l) (elems ?l @ elems u) l'
       | Some r \<Rightarrow> two_nodes ops (height ?l) (elems ?l @ elems u) l' r"
      by blast
    have ss: "butlast ss @ [summary l'] = map summary (butlast ts @ [l'])" "ss \<noteq> []"
      using wf by (auto simp: map_butlast)
    have el: "concat (map elems ts) = concat (map elems (butlast ts)) @ elems ?l"
      by (subst l(2)) simp
    have step: "height u \<noteq> h" "height u < h" "\<not> (h - height u = 1 \<and> \<not> is_underflowing u)"
      using rec by auto
    show ?thesis
    proof (cases res)
      case None
      with r have one: "one_node ops (height ?l) (elems ?l @ elems u) l'" by simp
      with fb have f: "forest ops h ((butlast ts @ [l']) @ [])" by (auto simp: one_node_def)
      from distribute_correct [OF f, of ?s "butlast ss @ [summary l']" "[]"] wf s one ss el None r step
      show ?thesis
        by (simp add: push_tree_recursive.simps one_node_def cong: option.case_cong) blast
    next
      case (Some r')
      with r have two: "two_nodes ops (height ?l) (elems ?l @ elems u) l' r'" by simp
      with fb have f: "forest ops h ((butlast ts @ [l']) @ [r'])" by (auto simp: two_nodes_def)
      from distribute_correct [OF f, of ?s "butlast ss @ [summary l']" "[summary r']"] wf s two ss el Some r step
      show ?thesis
        by (simp add: push_tree_recursive.simps two_nodes_def TREE_BASE_def cong: option.case_cong) blast
    qed
  qed
qed

text \<open>\<open>append\<close> never panics and concatenates.\<close>

lemma append_correct:
  assumes "wf_tree ops t" "wf_tree ops u"
  shows "\<exists>v. tree_append ops t u = Some v \<and> wf_tree ops v \<and> elems v = elems t @ elems u"
proof -
  consider "elems t = []" | "elems t \<noteq> []" "elems u = []"
    | (small) "elems t \<noteq> []" "elems u \<noteq> []" "height t < height u"
    | (large) "elems t \<noteq> []" "elems u \<noteq> []" "height u \<le> height t"
    by linarith
  then show ?thesis
  proof cases
    case small
    with append_large_correct [OF assms] obtain u' res where
      "append_large ops t u = Some (u', res)"
      "case res of None \<Rightarrow> one_node ops (height u) (elems t @ elems u) u'
       | Some l \<Rightarrow> two_nodes ops (height u) (elems t @ elems u) l u'"
      by auto
    with small assms show ?thesis
      using from_child_trees_wf
      by (fastforce simp: tree_append_def wf_is_empty one_node_def split: option.splits)
  next
    case large
    with push_tree_recursive_correct [OF assms(2) _ assms(1)] obtain t' res where
      "push_tree_recursive ops t u = Some (t', res)"
      "case res of None \<Rightarrow> one_node ops (height t) (elems t @ elems u) t'
       | Some r \<Rightarrow> two_nodes ops (height t) (elems t @ elems u) t' r"
      by auto
    with large assms show ?thesis
      using from_child_trees_wf
      by (fastforce simp: tree_append_def wf_is_empty one_node_def split: option.splits)
  qed (use assms wf_is_leaf_empty in \<open>auto simp: tree_append_def wf_is_empty\<close>)
qed


subsection \<open>Building\<close>

lemma foldl_hd_tl: "ss \<noteq> [] \<Longrightarrow> foldl (s_add ops) (hd ss) (tl ss) = sum_of ops ss"
  by (cases ss) (simp_all add: sum_of_Cons)

lemma par_leaf_wf:
  "c \<noteq> [] \<Longrightarrow> length c \<le> 2 * TREE_BASE \<Longrightarrow> one_node ops 0 c (par_leaf ops c)"
  by (simp add: par_leaf_def Let_def one_node_def foldl_hd_tl item_sum_def)

lemma par_internal_eq:
  "ts \<noteq> [] \<Longrightarrow> par_internal ops h ts = Internal h (sum_of ops (map summary ts)) (map summary ts) ts"
  by (simp add: par_internal_def Let_def foldl_hd_tl)

lemma par_internal_wf:
  "forest ops h c \<Longrightarrow> c \<noteq> [] \<Longrightarrow> length c \<le> 2 * TREE_BASE \<Longrightarrow>
     one_node ops h (concat (map elems c)) (par_internal ops h c)"
  using wf_node [of h c] elems_forest_nonempty by (fastforce simp: par_internal_eq one_node_def)

lemma from_iter_parents_chunks:
  "from_iter_parents ops h None cs = Some (map (par_internal ops h) (chunks_of (2 * TREE_BASE) cs)) \<and>
   (\<forall>ts. ts \<noteq> [] \<longrightarrow> length ts < 2 * TREE_BASE \<longrightarrow>
      from_iter_parents ops h (Some (sum_of ops (map summary ts), map summary ts, ts)) cs =
      Some (map (par_internal ops h) (chunks_of (2 * TREE_BASE) (ts @ cs))))"
proof (induction cs)
  case Nil
  then show ?case by (simp add: chunks_of_short par_internal_eq) (simp add: chunks_of.simps)
next
  case (Cons c cs)
  have s: "s_add ops (sum_of ops (map summary ts)) (summary c) = sum_of ops (map summary (ts @ [c]))" for ts
    by (simp add: sum_of_def)
  have s0: "s_add ops (s_zero ops) (summary c) = sum_of ops (map summary [c])"
    by (simp add: sum_of_def)
  have none: "from_iter_parents ops h None (c # cs) =
      Some (map (par_internal ops h) (chunks_of (2 * TREE_BASE) (c # cs)))"
    using Cons.IH [THEN conjunct2, rule_format, of "[c]"] s0
    by (simp add: array_vec_def TREE_BASE_def)
  have "from_iter_parents ops h (Some (sum_of ops (map summary ts), map summary ts, ts)) (c # cs) =
      Some (map (par_internal ops h) (chunks_of (2 * TREE_BASE) (ts @ c # cs)))"
    if "ts \<noteq> []" "length ts < 2 * TREE_BASE" for ts
  proof (cases "Suc (length ts) = 2 * TREE_BASE")
    case True
    with Cons.IH [THEN conjunct1] chunks_of_cons [of "ts @ [c]" "2 * TREE_BASE" cs] s [of ts] show ?thesis
      by (simp add: array_vec_def par_internal_eq)
  next
    case False
    with that Cons.IH [THEN conjunct2, rule_format, of "ts @ [c]"] s [of ts] show ?thesis
      by (simp add: array_vec_def)
  qed
  with none show ?case by blast
qed

lemma from_iter_levels_par: "from_iter_levels ops h nodes = Some (par_levels ops h nodes)"
proof (induction nodes arbitrary: h rule: length_induct)
  case (1 nodes)
  show ?case
  proof (cases "length nodes > 1")
    case True
    let ?ps = "map (par_internal ops (h + 1)) (chunks_of (2 * TREE_BASE) nodes)"
    have "length ?ps < length nodes"
      using length_chunks_of [of "2 * TREE_BASE" nodes] True by (simp add: TREE_BASE_def)
    with 1 True show ?thesis
      using from_iter_parents_chunks [of "h + 1" nodes, THEN conjunct1]
      by (subst from_iter_levels.simps, subst par_levels.simps) simp
  qed (simp add: from_iter_levels.simps par_levels.simps)
qed

lemma from_par_iter_eq: "from_par_iter ops xs = from_iter ops xs"
  by (simp add: from_par_iter_def from_iter_def from_iter_levels_par from_iter_leaves_chunks Let_def)

lemma par_levels_correct:
  "forest ops (Suc h) nodes \<Longrightarrow> \<exists>h'. forest ops h' (par_levels ops h nodes) \<and>
     length (par_levels ops h nodes) \<le> 1 \<and>
     concat (map elems (par_levels ops h nodes)) = concat (map elems nodes)"
proof (induction nodes arbitrary: h rule: length_induct)
  case (1 nodes)
  show ?case
  proof (cases "length nodes > 1")
    case True
    let ?cs = "chunks_of (2 * TREE_BASE) nodes"
    let ?ps = "map (par_internal ops (h + 1)) ?cs"
    have one: "one_node ops (Suc h) (concat (map elems c)) (par_internal ops (h + 1) c)"
      if "c \<in> set ?cs" for c
    proof -
      from in_chunks_of [OF that] "1.prems" have "forest ops (Suc h) c" by (auto simp: forest_def)
      with par_internal_wf in_chunks_of [OF that] show ?thesis by simp
    qed
    have "length ?ps < length nodes"
      using length_chunks_of [of "2 * TREE_BASE" nodes] True by (simp add: TREE_BASE_def)
    moreover have "forest ops (Suc (h + 1)) ?ps"
      using one one_nodeD by (fastforce simp: forest_def)
    ultimately obtain h' where r: "forest ops h' (par_levels ops (h + 1) ?ps)"
      "length (par_levels ops (h + 1) ?ps) \<le> 1"
      "concat (map elems (par_levels ops (h + 1) ?ps)) = concat (map elems ?ps)"
      using "1.IH" by blast
    have "map elems ?ps = map (\<lambda>c. concat (map elems c)) ?cs"
      using one by (auto simp: one_node_def)
    then have "concat (map elems ?ps) = concat (map elems (concat ?cs))"
      by (simp only: concat_map_concat)
    with r True show ?thesis
      by (subst (1 2 3) par_levels.simps) (auto simp: concat_chunks_of TREE_BASE_def)
  next
    case False
    with "1.prems" show ?thesis by (auto simp: par_levels.simps [of ops h nodes])
  qed
qed

lemma from_iter_correct: "\<exists>t. from_iter ops xs = Some t \<and> wf_tree ops t \<and> elems t = xs"
proof -
  let ?cs = "chunks_of (2 * TREE_BASE) xs"
  let ?ls = "map (par_leaf ops) ?cs"
  have one: "one_node ops 0 c (par_leaf ops c)" if "c \<in> set ?cs" for c
    using par_leaf_wf in_chunks_of [OF that] by blast
  then have "forest ops (Suc 0) ?ls" by (auto simp: forest_def one_node_def)
  then obtain h' where r: "forest ops h' (par_levels ops 0 ?ls)" "length (par_levels ops 0 ?ls) \<le> 1"
    "concat (map elems (par_levels ops 0 ?ls)) = concat (map elems ?ls)"
    using par_levels_correct by blast
  have "map elems ?ls = ?cs" using one by (simp add: one_node_def map_idI)
  then have "concat (map elems (par_levels ops 0 ?ls)) = xs"
    unfolding r(3) by (simp only:) (simp add: concat_chunks_of TREE_BASE_def)
  with r(1,2) have "par_levels ops 0 ?ls = [] \<and> xs = [] \<or>
      (\<exists>t. par_levels ops 0 ?ls = [t] \<and> wf_tree ops t \<and> elems t = xs)"
    by (cases "par_levels ops 0 ?ls") auto
  then show ?thesis
    unfolding from_par_iter_eq [symmetric] from_par_iter_def Let_def by auto
qed

lemma push_correct:
  "wf_tree ops t \<Longrightarrow> \<exists>v. tree_push ops t x = Some v \<and> wf_tree ops v \<and> elems v = elems t @ [x]"
  using append_correct [of t "Leaf (s_item ops x) [x] [s_item ops x]"]
  by (simp add: tree_push_def item_sum_def sum_of_Cons TREE_BASE_def)

lemma extend_correct:
  "wf_tree ops t \<Longrightarrow> \<exists>v. tree_extend ops t xs = Some v \<and> wf_tree ops v \<and> elems v = elems t @ xs"
  using append_correct [of t] from_iter_correct [of xs] by (fastforce simp: tree_extend_def)


subsection \<open>Updating the ends\<close>

lemma update_last_correct:
  "wf_tree ops t \<Longrightarrow> elems t \<noteq> [] \<Longrightarrow> \<exists>t'. update_last_recursive ops f t = Some (t', Some (summary t')) \<and>
     one_node ops (height t) (butlast (elems t) @ [f (last (elems t))]) t'"
proof (induction t)
  case (Leaf s xs ss)
  then show ?case
    by (auto simp: one_node_def Let_def map_butlast item_sum_def)
next
  case (Internal h s ss ts)
  note wf = Internal.prems(1) [unfolded wf_Internal]
  let ?l = "last ts"
  have l: "?l \<in> set ts" "ts = butlast ts @ [?l]" using wf by auto
  obtain l' where l': "update_last_recursive ops f ?l = Some (l', Some (summary l'))"
    "one_node ops (height ?l) (butlast (elems ?l) @ [f (last (elems ?l))]) l'"
    using Internal.IH [OF l(1)] forest_last [of ops h ts] wf by blast
  let ?ts = "butlast ts @ [l']"
  have el: "concat (map elems ts) = concat (map elems (butlast ts)) @ elems ?l"
    by (subst l(2)) simp
  have "forest ops h ?ts" "length ?ts = length ts"
    using wf forest_butlast [of ops h ts] forest_last [of ops h ts] l'(2) by (auto simp: one_node_def)
  moreover have "ss \<noteq> []" "butlast ss @ [summary l'] = map summary ?ts"
    using wf by (auto simp: map_butlast)
  ultimately show ?case
    using l' wf wf_node [of h ?ts] forest_last [of ops h ts] elems_forest_nonempty [of ops h ?ts]
    by (simp add: Let_def el one_node_def butlast_append del: map_append) simp
qed

lemma update_first_correct:
  "wf_tree ops t \<Longrightarrow> elems t \<noteq> [] \<Longrightarrow> \<exists>t'. update_first_recursive ops f t = Some (t', Some (summary t')) \<and>
     one_node ops (height t) (f (hd (elems t)) # tl (elems t)) t'"
proof (induction t)
  case (Leaf s xs ss)
  then show ?case
    by (auto simp: one_node_def Let_def item_sum_def map_tl neq_Nil_conv)
next
  case (Internal h s ss ts)
  then obtain t us where ts: "ts = t # us" by (auto simp: wf_Internal neq_Nil_conv)
  note wf = Internal.prems(1) [unfolded wf_Internal]
  obtain t' where t': "update_first_recursive ops f t = Some (t', Some (summary t'))"
    "one_node ops (height t) (f (hd (elems t)) # tl (elems t)) t'"
    using Internal.IH [of t] wf by (auto simp: ts)
  then have f: "forest ops h (t' # us)" using wf by (auto simp: ts one_node_def)
  from wf_node [OF f] wf t' show ?case
    by (auto simp: ts Let_def one_node_def)
qed

lemma update_last_empty:
  "wf_tree ops t \<Longrightarrow> elems t = [] \<Longrightarrow> update_last ops f t = Some t \<and> update_first ops f t = Some t"
  using wf_is_leaf_empty [of ops t]
  by (cases t) (auto simp: update_last_def update_first_def)

end

lemma leftmost_leaf_correct:
  "wf_tree ops t \<Longrightarrow> \<exists>s xs ss. leftmost_leaf t = Some (Leaf s xs ss) \<and>
     (elems t \<noteq> [] \<longrightarrow> xs \<noteq> []) \<and> (\<exists>ys. elems t = xs @ ys)"
proof (induction t)
  case (Internal h s ss ts)
  then obtain u us where ts: "ts = u # us" by (auto simp: wf_Internal neq_Nil_conv)
  with Internal.IH [of u] Internal.prems show ?case by (fastforce simp: wf_Internal)
qed simp

lemma rightmost_leaf_correct:
  "wf_tree ops t \<Longrightarrow> \<exists>s xs. rightmost_leaf t = Some (Leaf s xs (map (s_item ops) xs)) \<and>
     (elems t \<noteq> [] \<longrightarrow> xs \<noteq> []) \<and> (\<exists>ys. elems t = ys @ xs)"
proof (induction t)
  case (Internal h s ss ts)
  then obtain us u where ts: "ts = us @ [u]" by (auto simp: wf_Internal neq_Nil_conv_rev)
  with Internal.IH [of u] Internal.prems show ?case by (fastforce simp: wf_Internal)
qed auto

lemma tree_first_correct: "wf_tree ops t \<Longrightarrow> tree_first t = Some (first_opt (elems t))"
  using leftmost_leaf_correct [of ops t]
  by (auto simp: tree_first_def first_opt_def split: list.splits)

lemma tree_last_correct: "wf_tree ops t \<Longrightarrow> tree_last t = Some (last_opt (elems t))"
  using rightmost_leaf_correct [of ops t] by (auto simp: tree_last_def last_opt_def)

lemma last_summary_correct:
  "wf_tree ops t \<Longrightarrow> last_summary t = Some (map_option (s_item ops) (last_opt (elems t)))"
  using rightmost_leaf_correct [of ops t] by (auto simp: last_summary_def last_opt_def last_map)

end
