(* ===== verification/SumTree_Search.thy ===== *)
theory SumTree_Search
  imports SumTree_Correct
begin

text \<open>
  Correctness of the searches of \<open>SumTree\<close>: on a tree whose items are ordered along the dimension,
  the descent of \<open>find\<close>, \<open>find_exact\<close> and \<open>find_with_prev\<close> visits the item a linear scan of the
  sequence stops at. A dimension has to act additively on summaries (locale \<open>tree_dimension\<close>), and
  the target has to be monotone along the positions the items end at.
\<close>

section \<open>Positions along a sequence\<close>

fun ends :: "('s, 'd) dimension \<Rightarrow> 'd \<Rightarrow> 's list \<Rightarrow> 'd list" where
  "ends dim pos [] = []"
| "ends dim pos (s # ss) = d_add dim pos s # ends dim (d_add dim pos s) ss"

definition end_of :: "('s, 'd) dimension \<Rightarrow> 'd \<Rightarrow> 's list \<Rightarrow> 'd" where
  "end_of dim pos ss = foldl (d_add dim) pos ss"

lemma end_of_simps [simp]:
  "end_of dim pos [] = pos"
  "end_of dim pos (s # ss) = end_of dim (d_add dim pos s) ss"
  "end_of dim pos (ss @ ss') = end_of dim (end_of dim pos ss) ss'"
  by (simp_all add: end_of_def)

lemma ends_append [simp]: "ends dim pos (ss @ ss') = ends dim pos ss @ ends dim (end_of dim pos ss) ss'"
  by (induction ss arbitrary: pos) auto

lemma ends_eq_Nil [simp]: "ends dim pos ss = [] \<longleftrightarrow> ss = []"
  by (cases ss) auto

lemma length_ends [simp]: "length (ends dim pos ss) = length ss"
  by (induction ss arbitrary: pos) auto

lemma end_of_in_ends: "ss \<noteq> [] \<Longrightarrow> end_of dim pos ss \<in> set (ends dim pos ss)"
  by (cases ss rule: rev_cases) auto

text \<open>A target passes from \<open>Greater\<close> over \<open>Equal\<close> to \<open>Less\<close> as the position advances.\<close>

fun rank :: "ordering \<Rightarrow> nat" where
  "rank Less = 0"
| "rank Equal = 1"
| "rank Greater = 2"

definition mono_target :: "('d \<Rightarrow> ordering) \<Rightarrow> 'd list \<Rightarrow> bool" where
  "mono_target target ds \<longleftrightarrow> sorted_wrt (\<lambda>a b. rank (target b) \<le> rank (target a)) ds"

lemma mono_target_append:
  "mono_target target (xs @ ys) \<longleftrightarrow> mono_target target xs \<and> mono_target target ys \<and>
     (\<forall>x \<in> set xs. \<forall>y \<in> set ys. rank (target y) \<le> rank (target x))"
  by (simp add: mono_target_def sorted_wrt_append)

lemma in_child_rank:
  "in_child target bias d \<longleftrightarrow> rank (target d) < (if bias = Left then 2 else 1)"
  by (cases "target d"; cases bias) (auto simp: in_child_def)

lemma past_end_in_child: "past_end target bias d \<longleftrightarrow> \<not> in_child target bias d"
  by (cases "target d"; cases bias) (auto simp: past_end_def in_child_def)

lemma in_child_mono:
  "rank (target e) \<le> rank (target d) \<Longrightarrow> in_child target bias d \<Longrightarrow> in_child target bias e"
  by (auto simp: in_child_rank split: if_splits)

lemma mono_target_last:
  "mono_target target (ends dim pos ss) \<Longrightarrow> d \<in> set (ends dim pos ss) \<Longrightarrow>
     rank (target (end_of dim pos ss)) \<le> rank (target d)"
proof (cases ss rule: rev_cases)
  case (snoc ss' s)
  moreover assume "mono_target target (ends dim pos ss)" "d \<in> set (ends dim pos ss)"
  ultimately show ?thesis by (auto simp: mono_target_append)
qed simp

section \<open>The linear scan\<close>

lemma find_items_None:
  "length xs = length ss \<Longrightarrow>
   snd (find_items dim found pos prev xs ss) = None \<longleftrightarrow> (\<forall>d \<in> set (ends dim pos ss). \<not> found d)"
  by (induction dim found pos prev xs ss rule: find_items.induct) (auto simp: Let_def)

lemma find_items_append:
  "length xs = length ss \<Longrightarrow>
   find_items dim found pos prev (xs @ ys) (ss @ ss') =
   (if \<exists>d \<in> set (ends dim pos ss). found d then find_items dim found pos prev xs ss
    else find_items dim found (end_of dim pos ss) (if xs = [] then prev else Some (last xs)) ys ss')"
  by (induction dim found pos prev xs ss rule: find_items.induct) (auto simp: Let_def)

lemma find_items_absent:
  "length xs = length ss \<Longrightarrow> (\<forall>d \<in> set (ends dim pos ss). \<not> found d) \<Longrightarrow>
   find_items dim found pos prev xs ss = (end_of dim pos ss, None)"
  by (induction dim found pos prev xs ss rule: find_items.induct) (auto simp: Let_def)

lemma find_items_prev:
  "map_prod id (map_option snd) (find_items dim found pos prev xs ss) =
   map_prod id (map_option snd) (find_items dim found pos prev' xs ss)"
  by (cases xs; cases ss) (simp_all add: Let_def)

text \<open>The \<open>k\<close>th item is the one found, \<open>k\<close> the first index whose end satisfies \<open>found\<close>.\<close>

lemma find_items_Some:
  "length xs = length ss \<Longrightarrow>
   find_items dim found pos prev xs ss = (p, Some (prev', x, e)) \<longleftrightarrow>
   (\<exists>k < length xs. x = xs ! k \<and> e = ends dim pos ss ! k \<and> p = end_of dim pos (take k ss) \<and>
      prev' = (if k = 0 then prev else Some (xs ! (k - 1))) \<and>
      found e \<and> (\<forall>j < k. \<not> found (ends dim pos ss ! j)))"
proof (induction dim found pos prev xs ss rule: find_items.induct)
  case (1 dim found pos prev x' xs s ss)
  let ?e = "d_add dim pos s"
  show ?case
  proof (cases "found ?e")
    case True
    then show ?thesis by (auto simp: Let_def less_Suc_eq_0_disj)
  next
    case False
    with 1 have IH: "find_items dim found ?e (Some x') xs ss = (p, Some (prev', x, e)) \<longleftrightarrow>
      (\<exists>k < length xs. x = xs ! k \<and> e = ends dim ?e ss ! k \<and> p = end_of dim ?e (take k ss) \<and>
        prev' = (if k = 0 then Some x' else Some (xs ! (k - 1))) \<and>
        found e \<and> (\<forall>j < k. \<not> found (ends dim ?e ss ! j)))"
      by simp
    show ?thesis (is "?l \<longleftrightarrow> ?r")
    proof
      assume ?l
      with False IH obtain k where "k < length xs" "x = xs ! k" "e = ends dim ?e ss ! k"
        "p = end_of dim ?e (take k ss)" "prev' = (if k = 0 then Some x' else Some (xs ! (k - 1)))"
        "found e" "\<forall>j < k. \<not> found (ends dim ?e ss ! j)"
        by (auto simp: Let_def)
      with False show ?r
        by (intro exI [of _ "Suc k"]) (auto simp: less_Suc_eq_0_disj nth_Cons')
    next
      assume ?r
      then obtain k where k: "k < length (x' # xs)" "x = (x' # xs) ! k" "e = ends dim pos (s # ss) ! k"
        "p = end_of dim pos (take k (s # ss))" "prev' = (if k = 0 then prev else Some ((x' # xs) ! (k - 1)))"
        "found e" "\<forall>j < k. \<not> found (ends dim pos (s # ss) ! j)"
        by blast
      with False obtain k' where "k = Suc k'" by (cases k) auto
      with k False IH show ?l
        by (auto simp: Let_def nth_Cons' intro!: exI [of _ k'])
    qed
  qed
qed auto

section \<open>Descent\<close>

text \<open>
  With \<open>EXACT\<close> the descent stops at the leaf the target lies in: the item is the one a scan for
  \<open>Equal\<close> finds, the position is the scan's whenever there is such an item.
\<close>

definition exact_result ::
  "('a, 's) summary_ops \<Rightarrow> ('s, 'd) dimension \<Rightarrow> ('d \<Rightarrow> ordering) \<Rightarrow> 'd \<Rightarrow> 'a option \<Rightarrow> 'a list \<Rightarrow> ('d \<times> ('a option \<times> 'a \<times> 'd) option) option \<Rightarrow> bool" where
  "exact_result ops dim target pos prev xs res \<longleftrightarrow>
     (let scan = find_items dim (\<lambda>d. target d = Equal) pos prev xs (map (s_item ops) xs)
      in \<exists>p. res = Some (p, snd scan) \<and> (snd scan \<noteq> None \<longrightarrow> p = fst scan))"

locale tree_dimension = summary_monoid +
  fixes dim :: "('b, 'd) dimension"
  assumes d_add_add: "d_add dim d (s_add ops a b) = d_add dim (d_add dim d a) b"
begin

lemma d_add_sum: "ss \<noteq> [] \<Longrightarrow> d_add dim d (sum_of ops ss) = end_of dim d ss"
proof (induction ss rule: rev_induct)
  case (snoc s ss)
  then show ?case by (cases "ss = []") (simp_all add: sum_of_append d_add_add sum_of_Cons)
qed simp

lemma d_add_summary:
  "wf_tree ops t \<Longrightarrow> elems t \<noteq> [] \<Longrightarrow> d_add dim d (summary t) = end_of dim d (map (s_item ops) (elems t))"
  by (simp add: wf_summary item_sum_def d_add_sum)

text \<open>The position after a tree is in the list of item ends; descent decides on it.\<close>

lemma find_with_prev_children_correct:
  assumes "\<And>t pos prev. t \<in> set ts \<Longrightarrow>
      mono_target target (ends dim pos (map (s_item ops) (elems t))) \<Longrightarrow>
      in_child target bias (d_add dim pos (summary t)) \<Longrightarrow>
      find_with_prev_iterate dim False target bias pos prev t =
      Some (find_items dim (in_child target bias) pos prev (elems t) (map (s_item ops) (elems t)))"
    and "forest ops h ts"
    and "mono_target target (ends dim pos (map (s_item ops) (concat (map elems ts))))"
    and "ts = [] \<or> in_child target bias (end_of dim pos (map (s_item ops) (concat (map elems ts))))"
  shows "find_with_prev_children dim False target bias pos prev ts (map summary ts) =
    Some (find_items dim (in_child target bias) pos prev
      (concat (map elems ts)) (map (s_item ops) (concat (map elems ts))))"
  using assms
proof (induction ts arbitrary: pos prev)
  case (Cons t ts)
  let ?ss = "map (s_item ops) (elems t)"
  have wf: "wf_tree ops t" "elems t \<noteq> []" using Cons.prems(2) by auto
  have e: "d_add dim pos (summary t) = end_of dim pos ?ss" by (rule d_add_summary [OF wf])
  have m: "mono_target target (ends dim pos ?ss)" using Cons.prems(3) by (simp add: mono_target_append)
  show ?case
  proof (cases "in_child target bias (d_add dim pos (summary t))")
    case True
    then have "\<exists>d \<in> set (ends dim pos ?ss). in_child target bias d"
      using end_of_in_ends [of ?ss dim pos] wf e by auto
    with True Cons.prems(1) [of t pos prev] m show ?thesis
      by (simp add: Let_def find_items_append)
  next
    case False
    then have none: "\<forall>d \<in> set (ends dim pos ?ss). \<not> in_child target bias d"
      using mono_target_last [OF m] in_child_mono unfolding e by metis
    have "ts = [] \<or> in_child target bias
        (end_of dim (end_of dim pos ?ss) (map (s_item ops) (concat (map elems ts))))"
      using Cons.prems(4) by auto
    with Cons.IH [of "end_of dim pos ?ss" "Some (last (elems t))"] Cons.prems(1-3)
    have "find_with_prev_children dim False target bias (end_of dim pos ?ss) (Some (last (elems t))) ts
        (map summary ts) =
      Some (find_items dim (in_child target bias) (end_of dim pos ?ss) (Some (last (elems t)))
        (concat (map elems ts)) (map (s_item ops) (concat (map elems ts))))"
      by (simp add: mono_target_append)
    with False none wf show ?thesis
      by (simp add: Let_def e find_items_append tree_last_correct last_opt_def)
  qed
qed simp

lemma find_with_prev_iterate_correct:
  "wf_tree ops t \<Longrightarrow> mono_target target (ends dim pos (map (s_item ops) (elems t))) \<Longrightarrow>
   elems t = [] \<or> in_child target bias (d_add dim pos (summary t)) \<Longrightarrow>
   find_with_prev_iterate dim False target bias pos prev t =
   Some (find_items dim (in_child target bias) pos prev (elems t) (map (s_item ops) (elems t)))"
proof (induction t arbitrary: pos prev)
  case (Leaf s xs ss)
  have "entry_found False target bias = in_child target bias" by (auto simp: entry_found_def)
  with Leaf show ?case by simp
next
  case (Internal h s ss ts)
  note wf = Internal.prems(1) [unfolded wf_Internal]
  then have ne: "concat (map elems ts) \<noteq> []" using elems_forest_nonempty by blast
  have "find_with_prev_children dim False target bias pos prev ts (map summary ts) =
    Some (find_items dim (in_child target bias) pos prev
      (concat (map elems ts)) (map (s_item ops) (concat (map elems ts))))"
  proof (rule find_with_prev_children_correct)
    show "forest ops h ts" using wf by simp
    show "mono_target target (ends dim pos (map (s_item ops) (concat (map elems ts))))"
      using Internal.prems(2) by simp
    show "ts = [] \<or> in_child target bias (end_of dim pos (map (s_item ops) (concat (map elems ts))))"
      using Internal.prems(3) d_add_summary [OF Internal.prems(1), of pos] ne by (auto simp del: concat_eq_Nil_conv)
  qed (use Internal.IH wf in \<open>auto simp: forest_def\<close>)
  with wf show ?case by simp
qed


lemma exact_result_append:
  assumes "exact_result ops dim target pos prev xs res"
    and "\<forall>d \<in> set (ends dim (end_of dim pos (map (s_item ops) xs)) (map (s_item ops) ys)). target d \<noteq> Equal"
  shows "exact_result ops dim target pos prev (xs @ ys) res"
proof (cases "\<exists>d \<in> set (ends dim pos (map (s_item ops) xs)). target d = Equal")
  case True
  with assms(1) show ?thesis by (simp add: exact_result_def find_items_append)
next
  case False
  with assms have "snd (find_items dim (\<lambda>d. target d = Equal) pos prev xs (map (s_item ops) xs)) = None"
    by (simp add: find_items_None)
  with False assms show ?thesis
    by (auto simp: exact_result_def find_items_append find_items_absent)
qed

lemma find_exact_children_correct:
  assumes "\<And>t pos prev. t \<in> set ts \<Longrightarrow>
      mono_target target (ends dim pos (map (s_item ops) (elems t))) \<Longrightarrow>
      exact_result ops dim target pos prev (elems t) (find_with_prev_iterate dim True target Left pos prev t)"
    and "forest ops h ts"
    and "mono_target target (ends dim pos (map (s_item ops) (concat (map elems ts))))"
  shows "exact_result ops dim target pos prev (concat (map elems ts))
    (find_with_prev_children dim True target Left pos prev ts (map summary ts))"
  using assms
proof (induction ts arbitrary: pos prev)
  case (Cons t ts)
  let ?ss = "map (s_item ops) (elems t)"
  let ?rest = "ends dim (end_of dim pos ?ss) (map (s_item ops) (concat (map elems ts)))"
  have wf: "wf_tree ops t" "elems t \<noteq> []" using Cons.prems(2) by auto
  have e: "d_add dim pos (summary t) = end_of dim pos ?ss" by (rule d_add_summary [OF wf])
  have m: "mono_target target (ends dim pos ?ss)" "mono_target target ?rest"
    and cross: "\<forall>x \<in> set (ends dim pos ?ss). \<forall>y \<in> set ?rest. rank (target y) \<le> rank (target x)"
    using Cons.prems(3) by (simp_all add: mono_target_append)
  have last: "end_of dim pos ?ss \<in> set (ends dim pos ?ss)"
    using wf(2) by (simp add: end_of_in_ends)
  let ?res = "find_with_prev_iterate dim True target Left pos prev t"
  show ?case
  proof (cases "in_child target Left (d_add dim pos (summary t))")
    case True
    have res: "exact_result ops dim target pos prev (elems t) ?res"
      using Cons.prems(1) [of t] m(1) by simp
    have "exact_result ops dim target pos prev (elems t @ concat (map elems ts)) ?res"
    proof (cases "\<exists>d \<in> set (ends dim pos ?ss). target d = Equal")
      case True
      with res show ?thesis by (simp add: exact_result_def find_items_append)
    next
      case False
      with True last have "target (end_of dim pos ?ss) = Less"
        unfolding e in_child_def by blast
      with cross last have "\<forall>y \<in> set ?rest. rank (target y) = 0" by fastforce
      with res show ?thesis by (intro exact_result_append) auto
    qed
    with True show ?thesis by (simp add: Let_def)
  next
    case False
    then have none: "\<forall>d \<in> set (ends dim pos ?ss). target d \<noteq> Equal"
      using mono_target_last [OF m(1)] in_child_mono unfolding e by (metis in_child_def)
    have "exact_result ops dim target (end_of dim pos ?ss) (Some (last (elems t))) (concat (map elems ts))
      (find_with_prev_children dim True target Left (end_of dim pos ?ss) (Some (last (elems t))) ts (map summary ts))"
      using Cons.IH Cons.prems(1,2) m(2) by simp
    with False none wf show ?thesis
      by (simp add: Let_def e exact_result_def find_items_append tree_last_correct last_opt_def)
  qed
qed (simp add: exact_result_def)

lemma find_exact_iterate_correct:
  "wf_tree ops t \<Longrightarrow> mono_target target (ends dim pos (map (s_item ops) (elems t))) \<Longrightarrow>
   exact_result ops dim target pos prev (elems t) (find_with_prev_iterate dim True target Left pos prev t)"
proof (induction t arbitrary: pos prev)
  case (Leaf s xs ss)
  have "entry_found True target Left = (\<lambda>d. target d = Equal)" by (auto simp: entry_found_def)
  with Leaf show ?case by (simp add: exact_result_def Let_def prod_eq_iff)
next
  case (Internal h s ss ts)
  note wf = Internal.prems(1) [unfolded wf_Internal]
  have "exact_result ops dim target pos prev (concat (map elems ts))
    (find_with_prev_children dim True target Left pos prev ts (map summary ts))"
    by (rule find_exact_children_correct) (use Internal wf in \<open>auto simp: forest_def\<close>)
  with wf show ?case by simp
qed

text \<open>\<open>find_iterate\<close> is \<open>find_with_prev_iterate\<close> without the previous item.\<close>

lemma find_iterate_prev:
  "wf_tree ops t \<Longrightarrow> \<exists>r. find_with_prev_iterate dim exact target bias pos prev t = Some r \<and>
     find_iterate dim exact target bias pos t = map_prod id (map_option snd) r"
proof (induction t arbitrary: pos prev)
  case (Leaf s xs ss)
  show ?case
    by (rule exI, rule conjI, rule find_with_prev_iterate.simps(2), simp only: find_iterate.simps,
        rule find_items_prev)
next
  case (Internal h s ss ts)
  have "\<exists>r. find_with_prev_children dim exact target bias pos prev ts ss = Some r \<and>
     find_children dim exact target bias pos ts ss = map_prod id (map_option snd) r"
    if "forest ops h ts" "\<And>t pos prev. t \<in> set ts \<Longrightarrow>
      \<exists>r. find_with_prev_iterate dim exact target bias pos prev t = Some r \<and>
         find_iterate dim exact target bias pos t = map_prod id (map_option snd) r"
    for ts ss pos prev
    using that
  proof (induction ts arbitrary: ss pos prev)
    case (Cons t ts)
    then show ?case
      by (cases ss) (auto simp: Let_def tree_last_correct)
  qed simp
  with Internal show ?case by (simp add: wf_Internal forest_def)
qed

text \<open>The public searches.\<close>

lemma d_add_zero_tree:
  "wf_tree ops t \<Longrightarrow> elems t \<noteq> [] \<Longrightarrow> extent dim t = end_of dim (d_zero dim) (map (s_item ops) (elems t))"
  by (simp add: extent_def d_add_summary)

lemma find_with_prev_correct:
  assumes "wf_tree ops t" "mono_target target (ends dim (d_zero dim) (map (s_item ops) (elems t)))"
  shows "find_with_prev dim target bias t =
    (if past_end target bias (extent dim t) then Some (extent dim t, extent dim t, None)
     else Some (case find_items dim (in_child target bias) (d_zero dim) None (elems t) (map (s_item ops) (elems t)) of
        (pos, Some (prev, item, e)) \<Rightarrow> (pos, e, Some (prev, item)) | (pos, None) \<Rightarrow> (pos, pos, None)))"
  using find_with_prev_iterate_correct [OF assms, of bias None]
  by (simp add: find_with_prev_def Let_def extent_def past_end_in_child)

lemma find_correct:
  assumes "wf_tree ops t" "mono_target target (ends dim (d_zero dim) (map (s_item ops) (elems t)))"
  shows "tree_find dim target bias t =
    (if past_end target bias (extent dim t) then (extent dim t, extent dim t, None)
     else case find_items dim (in_child target bias) (d_zero dim) None (elems t) (map (s_item ops) (elems t)) of
        (pos, Some (prev, item, e)) \<Rightarrow> (pos, e, Some item) | (pos, None) \<Rightarrow> (pos, pos, None))"
  using find_with_prev_iterate_correct [OF assms, of bias None]
    find_iterate_prev [OF assms(1), of False target bias "d_zero dim" None]
  by (auto simp: tree_find_def find_gen_def Let_def extent_def past_end_in_child split: prod.splits option.splits)

lemma find_exact_correct:
  assumes "wf_tree ops t" "mono_target target (ends dim (d_zero dim) (map (s_item ops) (elems t)))"
    and "elems t \<noteq> []"
  shows "snd (snd (find_exact dim target Left t)) =
    map_option (\<lambda>(prev, item, e). item)
      (snd (find_items dim (\<lambda>d. target d = Equal) (d_zero dim) None (elems t) (map (s_item ops) (elems t))))"
    (is "?l = ?r")
proof (cases "past_end target Left (extent dim t)")
  case True
  have "\<forall>d \<in> set (ends dim (d_zero dim) (map (s_item ops) (elems t))). target d \<noteq> Equal"
    using True mono_target_last [OF assms(2)] in_child_mono
    unfolding past_end_in_child d_add_zero_tree [OF assms(1,3)] by (metis in_child_def)
  then have "?r = None" by (simp add: find_items_absent)
  with True show ?thesis by (simp add: find_exact_def find_gen_def Let_def extent_def)
next
  case False
  with find_exact_iterate_correct [OF assms(1,2), of None]
    find_iterate_prev [OF assms(1), of True target Left "d_zero dim" None] show ?thesis
    by (cases "snd (find_items dim (\<lambda>d. target d = Equal) (d_zero dim) None (elems t)
          (map (s_item ops) (elems t)))")
      (auto simp: find_exact_def find_gen_def Let_def extent_def exact_result_def)
qed

end

end
