(* ===== verification/Cursor_Correct.thy ===== *)
theory Cursor_Correct
  imports Cursor SumTree_Search
begin

text \<open>
  Correctness of seeking: a cursor on a well-formed tree stands at an index of the item sequence
  (\<open>cursor_at\<close>), its stack being the path to that item and its position the sum of the items
  before it. \<open>seek_internal\<close> moves it forward over exactly the items that end before the target and
  hands the skipped items to the aggregate; the three aggregates of the code are interpretations of
  the locale \<open>seek_aggregate\<close>.
\<close>

section \<open>Where a cursor stands\<close>

definition before :: "('i, 's) sum_tree list \<Rightarrow> nat \<Rightarrow> nat" where
  "before ts i = length (concat (map elems (take i ts)))"

text \<open>A path from the root (head) to the leaf that holds the \<open>n\<close>th item of \<open>t\<close>.\<close>

fun path_at ::
  "('s, 'd) dimension \<Rightarrow> ('i, 's) sum_tree \<Rightarrow> 'd \<Rightarrow> ('i, 's, 'd) stack_entry list \<Rightarrow> nat \<Rightarrow> bool" where
  "path_at dim t pos [] n = False"
| "path_at dim t pos (e # es) n \<longleftrightarrow>
     se_tree e = t \<and>
     (case t of
        Leaf s xs ss \<Rightarrow> es = [] \<and> se_index e = n \<and> n < length xs
      | Internal h s ss ts \<Rightarrow>
          se_index e < length ts \<and> se_position e = end_of dim pos (take (se_index e) ss) \<and>
          before ts (se_index e) \<le> n \<and>
          path_at dim (ts ! se_index e) (se_position e) es (n - before ts (se_index e)))"

definition pos_at :: "('i, 's) summary_ops \<Rightarrow> ('s, 'd) dimension \<Rightarrow> 'd \<Rightarrow> 'i list \<Rightarrow> 'd" where
  "pos_at ops dim pos xs = end_of dim pos (map (s_item ops) xs)"

definition cursor_at ::
  "('i, 's) summary_ops \<Rightarrow> ('s, 'd) dimension \<Rightarrow> ('i, 's, 'd) cursor \<Rightarrow> nat \<Rightarrow> bool" where
  "cursor_at ops dim c n \<longleftrightarrow>
     c_did_seek c \<and> n \<le> length (elems (c_tree c)) \<and>
     c_position c = pos_at ops dim (d_zero dim) (take n (elems (c_tree c))) \<and>
     c_at_end c = (n = length (elems (c_tree c))) \<and>
     (if n < length (elems (c_tree c))
      then path_at dim (c_tree c) (d_zero dim) (rev (c_stack c)) n
      else c_stack c = [])"

text \<open>The number of items a seek passes over.\<close>

definition stop_at ::
  "('i, 's) summary_ops \<Rightarrow> ('s, 'd) dimension \<Rightarrow> ('d \<Rightarrow> ordering) \<Rightarrow> bias \<Rightarrow> 'd \<Rightarrow> 'i list \<Rightarrow> nat" where
  "stop_at ops dim target bias pos xs =
     length (takeWhile (past_end target bias) (ends dim pos (map (s_item ops) xs)))"

definition item_ends :: "('i, 's) summary_ops \<Rightarrow> ('s, 'd) dimension \<Rightarrow> 'd \<Rightarrow> 'i list \<Rightarrow> 'd list" where
  "item_ends ops dim pos xs = ends dim pos (map (s_item ops) xs)"

lemma pos_at_simps [simp]:
  "pos_at ops dim pos [] = pos"
  "pos_at ops dim pos (x # xs) = pos_at ops dim (d_add dim pos (s_item ops x)) xs"
  "pos_at ops dim pos (xs @ ys) = pos_at ops dim (pos_at ops dim pos xs) ys"
  by (simp_all add: pos_at_def)

lemma item_ends_append [simp]:
  "item_ends ops dim pos [] = []"
  "item_ends ops dim pos (xs @ ys) = item_ends ops dim pos xs @ item_ends ops dim (pos_at ops dim pos xs) ys"
  by (simp_all add: item_ends_def pos_at_def)

lemma length_item_ends [simp]: "length (item_ends ops dim pos xs) = length xs"
  by (simp add: item_ends_def)

lemma stop_at_le: "stop_at ops dim target bias pos xs \<le> length xs"
  using length_takeWhile_le [of "past_end target bias" "item_ends ops dim pos xs"]
  by (simp add: stop_at_def item_ends_def)

lemma stop_at_Nil [simp]: "stop_at ops dim target bias pos [] = 0"
  by (simp add: stop_at_def)

lemma stop_at_Cons:
  "stop_at ops dim target bias pos (x # xs) =
     (if past_end target bias (d_add dim pos (s_item ops x))
      then Suc (stop_at ops dim target bias (d_add dim pos (s_item ops x)) xs) else 0)"
  by (simp add: stop_at_def)

lemma stop_at_append:
  "stop_at ops dim target bias pos (xs @ ys) =
     (if stop_at ops dim target bias pos xs = length xs
      then length xs + stop_at ops dim target bias (pos_at ops dim pos xs) ys
      else stop_at ops dim target bias pos xs)"
  using stop_at_le [of ops dim target bias pos xs]
  by (induction xs arbitrary: pos) (auto simp: stop_at_Cons stop_at_le)

lemma past_end_rank: "past_end target bias d \<longleftrightarrow> (if bias = Left then 2 else 1) \<le> rank (target d)"
  by (simp add: past_end_in_child in_child_rank not_less)

lemma stop_at_past:
  assumes "mono_target target (item_ends ops dim pos xs)" "xs \<noteq> []"
  shows "stop_at ops dim target bias pos xs = length xs \<longleftrightarrow> past_end target bias (pos_at ops dim pos xs)"
proof
  assume "past_end target bias (pos_at ops dim pos xs)"
  then have "\<forall>d \<in> set (item_ends ops dim pos xs). past_end target bias d"
    using mono_target_last [OF assms(1) [unfolded item_ends_def]]
    unfolding item_ends_def pos_at_def past_end_rank by (auto intro: order_trans)
  then show "stop_at ops dim target bias pos xs = length xs"
    by (simp add: stop_at_def item_ends_def takeWhile_eq_all_conv [THEN iffD2])
next
  assume "stop_at ops dim target bias pos xs = length xs"
  then have "takeWhile (past_end target bias) (item_ends ops dim pos xs) = item_ends ops dim pos xs"
    unfolding stop_at_def item_ends_def by (metis length_ends length_map takeWhile_eq_take take_all order_refl)
  moreover have "pos_at ops dim pos xs \<in> set (item_ends ops dim pos xs)"
    using assms(2) by (simp add: pos_at_def item_ends_def end_of_in_ends)
  ultimately show "past_end target bias (pos_at ops dim pos xs)"
    by (metis set_takeWhileD)
qed

lemma before_simps [simp]: "before ts 0 = 0"
  by (simp add: before_def)

lemma before_Suc: "i < length ts \<Longrightarrow> before ts (Suc i) = before ts i + length (elems (ts ! i))"
  by (simp add: before_def take_Suc_conv_app_nth)

lemma concat_drop_Suc:
  "i < length ts \<Longrightarrow> concat (map elems (drop i ts)) = elems (ts ! i) @ concat (map elems (drop (Suc i) ts))"
  by (simp add: Cons_nth_drop_Suc [symmetric])

lemma drop_before: "drop (before ts i) (concat (map elems ts)) = concat (map elems (drop i ts))"
proof -
  have "concat (map elems ts) = concat (map elems (take i ts)) @ concat (map elems (drop i ts))"
    by (metis concat_map_take_drop)
  then show ?thesis by (simp add: before_def)
qed

lemma path_at_less: "path_at dim t pos es n \<Longrightarrow> n < length (elems t)"
proof (induction dim t pos es n rule: path_at.induct)
  case (2 dim t pos e es n)
  show ?case
  proof (cases t)
    case (Internal h s ss ts)
    let ?i = "se_index e"
    have "n - before ts ?i < length (elems (ts ! ?i))" "before ts ?i \<le> n" "?i < length ts"
      using 2 Internal by auto
    then have "n < before ts (Suc ?i)" by (simp add: before_Suc)
    also have "\<dots> \<le> length (concat (map elems ts))"
      by (metis before_def concat_map_take_drop length_append le_add1)
    finally show ?thesis by (simp add: Internal)
  qed (use 2 in auto)
qed simp

section \<open>One iteration of the seek loop\<close>

lemma seek_step_past:
  assumes "se_tree e = Internal h s ss ts" "length ss = length ts" "se_index e < length ts"
    and "past_end target bias (d_add dim position (ss ! se_index e))"
    and "ag_push_tree agg (ts ! se_index e) (ss ! se_index e) a = Some a'"
  shows "seek_loop dim target bias agg False position a (e # rest) =
    seek_loop dim target bias agg False (d_add dim position (ss ! se_index e)) a'
      (e\<lparr>se_index := Suc (se_index e), se_position := d_add dim position (ss ! se_index e)\<rparr> # rest)"
proof -
  have "drop (se_index e) ts = ts ! se_index e # drop (Suc (se_index e)) ts"
    "drop (se_index e) ss = ss ! se_index e # drop (Suc (se_index e)) ss"
    using assms(2,3) by (simp_all add: Cons_nth_drop_Suc)
  with assms show ?thesis by (simp add: seek_loop.simps(2) Let_def)
qed

lemma seek_step_descend:
  assumes "se_tree e = Internal h s ss ts" "length ss = length ts" "se_index e < length ts"
    and "\<not> past_end target bias (d_add dim position (ss ! se_index e))"
    and "Suc (length rest) < STACK_CAPACITY"
  shows "seek_loop dim target bias agg False position a (e # rest) =
    seek_loop dim target bias agg False position a
      (\<lparr>se_tree = ts ! se_index e, se_index = 0, se_position = position\<rparr> # e # rest)"
proof -
  have "drop (se_index e) ts = ts ! se_index e # drop (Suc (se_index e)) ts"
    "drop (se_index e) ss = ss ! se_index e # drop (Suc (se_index e)) ss"
    using assms(2,3) by (simp_all add: Cons_nth_drop_Suc)
  with assms show ?thesis by (simp add: seek_loop.simps(2) [where e = e] Let_def)
qed

lemma seek_step_exhausted:
  assumes "se_tree e = Internal h s ss ts" "length ss = length ts" "se_index e = length ts"
  shows "seek_loop dim target bias agg False position a (e # rest) =
    seek_loop dim target bias agg True position a rest"
  using assms by (simp add: seek_loop.simps(2) Let_def)

lemma seek_step_ascend:
  assumes "se_tree e = Internal h s ss ts"
  shows "seek_loop dim target bias agg True position a (e # rest) =
    seek_loop dim target bias agg False position a
      (e\<lparr>se_index := Suc (se_index e), se_position := position\<rparr> # rest)"
  using assms by (simp add: seek_loop.simps(2) Let_def)

section \<open>The item under the cursor\<close>

lemma path_at_leaf:
  "path_at dim t pos es n \<Longrightarrow> wf_tree ops t \<Longrightarrow>
   \<exists>s xs. es \<noteq> [] \<and> se_tree (last es) = Leaf s xs (map (s_item ops) xs) \<and> se_index (last es) < length xs \<and>
     xs ! se_index (last es) = elems t ! n"
proof (induction dim t pos es n rule: path_at.induct)
  case (2 dim t pos e es n)
  show ?case
  proof (cases t)
    case (Internal h s ss ts)
    let ?i = "se_index e"
    have p: "path_at dim (ts ! ?i) (se_position e) es (n - before ts ?i)" "before ts ?i \<le> n" "?i < length ts"
      "wf_tree ops (ts ! ?i)"
      using "2.prems" Internal by (auto simp: wf_Internal forest_def)
    have "elems t ! n = concat (map elems (drop ?i ts)) ! (n - before ts ?i)"
      using p(2) path_at_less [OF "2.prems"(1)] by (simp add: Internal flip: drop_before)
    also have "\<dots> = elems (ts ! ?i) ! (n - before ts ?i)"
      using path_at_less [OF p(1)] by (simp add: concat_drop_Suc [OF p(3)] nth_append)
    finally show ?thesis using "2.IH" [OF Internal p(1) p(4)] by auto
  qed (use "2.prems" in auto)
qed simp

lemma cursor_at_leaf:
  assumes "cursor_at ops dim c n" "wf_tree ops (c_tree c)" "n < length (elems (c_tree c))"
  obtains e rest s xs where "c_stack c = e # rest" "se_tree e = Leaf s xs (map (s_item ops) xs)"
    "se_index e < length xs" "xs ! se_index e = elems (c_tree c) ! n"
proof -
  have "path_at dim (c_tree c) (d_zero dim) (rev (c_stack c)) n"
    using assms by (simp add: cursor_at_def)
  from path_at_leaf [OF this assms(2)] that show ?thesis
    by (cases "c_stack c") auto
qed

lemma cursor_item_at:
  assumes "cursor_at ops dim c n" "wf_tree ops (c_tree c)"
  shows "cursor_item c = Some (get_opt (elems (c_tree c)) n)"
    and "cursor_item_summary c = Some (map_option (s_item ops) (get_opt (elems (c_tree c)) n))"
proof -
  have "cursor_item c = Some (get_opt (elems (c_tree c)) n) \<and>
    cursor_item_summary c = Some (map_option (s_item ops) (get_opt (elems (c_tree c)) n))"
  proof (cases "n < length (elems (c_tree c))")
    case True
    with cursor_at_leaf [OF assms] obtain e rest s xs where "c_stack c = e # rest"
      "se_tree e = Leaf s xs (map (s_item ops) xs)" "se_index e < length xs"
      "xs ! se_index e = elems (c_tree c) ! n" by metis
    with True assms(1) show ?thesis
      by (simp add: cursor_item_def cursor_item_summary_def cursor_at_def get_opt_def)
  next
    case False
    with assms(1) show ?thesis
      by (simp add: cursor_item_def cursor_item_summary_def cursor_at_def get_opt_def)
  qed
  then show "cursor_item c = Some (get_opt (elems (c_tree c)) n)"
    "cursor_item_summary c = Some (map_option (s_item ops) (get_opt (elems (c_tree c)) n))" by auto
qed

text \<open>The end of the item at index \<open>n\<close>, or the end of the sequence.\<close>

lemma cursor_end_at:
  assumes "cursor_at ops dim c n" "wf_tree ops (c_tree c)"
  shows "cursor_end dim c = Some (pos_at ops dim (d_zero dim) (take (Suc n) (elems (c_tree c))))"
proof (cases "n < length (elems (c_tree c))")
  case True
  with assms cursor_item_at(2) [OF assms] show ?thesis
    by (simp add: cursor_end_def cursor_at_def get_opt_def take_Suc_conv_app_nth)
next
  case False
  with assms cursor_item_at(2) [OF assms] show ?thesis
    by (simp add: cursor_end_def cursor_at_def get_opt_def)
qed

definition cursor_fresh :: "('s, 'd) dimension \<Rightarrow> ('i, 's, 'd) cursor \<Rightarrow> bool" where
  "cursor_fresh dim c \<longleftrightarrow> \<not> c_did_seek c \<and> c_stack c = [] \<and> c_position c = d_zero dim \<and>
     c_at_end c = tree_is_empty (c_tree c)"

lemma cursor_fresh_new [simp]: "cursor_fresh dim (cursor_new dim t)" "c_tree (cursor_new dim t) = t"
  by (simp_all add: cursor_fresh_def cursor_new_def)

lemma cursor_fresh_reset [simp]:
  "cursor_fresh dim (cursor_reset dim c)" "c_tree (cursor_reset dim c) = c_tree c"
  by (simp_all add: cursor_fresh_def cursor_reset_def)

text \<open>A cursor from which a seek may start at index \<open>n\<close>: a new or reset one, or one that has sought.\<close>

definition cursor_ready ::
  "('i, 's) summary_ops \<Rightarrow> ('s, 'd) dimension \<Rightarrow> ('i, 's, 'd) cursor \<Rightarrow> nat \<Rightarrow> bool" where
  "cursor_ready ops dim c n \<longleftrightarrow> cursor_fresh dim c \<and> n = 0 \<or> cursor_at ops dim c n"

lemma cursor_ready_position:
  "cursor_ready ops dim c n \<Longrightarrow> c_position c = pos_at ops dim (d_zero dim) (take n (elems (c_tree c)))"
  by (auto simp: cursor_ready_def cursor_fresh_def cursor_at_def)

section \<open>Aggregates\<close>

text \<open>
  The contract between a seek and its aggregate: \<open>got a ys pend\<close> says that \<open>a\<close> has received the
  items \<open>ys\<close>, and \<open>pend\<close> of the leaf that is being read.
\<close>

locale seek_aggregate = tree_dimension +
  fixes agg :: "('a, 'b, 'e) aggregate"
    and got :: "'e \<Rightarrow> 'a list \<Rightarrow> 'a list \<Rightarrow> bool"
  assumes push_item: "got a ys pend \<Longrightarrow> length pend < 2 * TREE_BASE \<Longrightarrow>
      \<exists>a'. ag_push_item agg x (s_item ops x) a = Some a' \<and> got a' ys (pend @ [x])"
    and end_leaf: "got a ys pend \<Longrightarrow> \<exists>a'. ag_end_leaf agg a = Some a' \<and> got a' (ys @ pend) []"
    and push_tree: "got a ys [] \<Longrightarrow> wf_tree ops t \<Longrightarrow> elems t \<noteq> [] \<Longrightarrow>
      \<exists>a'. ag_push_tree agg t (summary t) a = Some a' \<and> got a' (ys @ elems t) []"
begin

text \<open>
  What the loop reaches from inside \<open>t\<close>: \<open>zs\<close> are the items of \<open>t\<close> from index \<open>n\<close> on, which start
  at position \<open>p\<close>.
\<close>

lemma seek_items_correct:
  "got a ys pend \<Longrightarrow> length pend + length zs \<le> 2 * TREE_BASE \<Longrightarrow>
   \<exists>a'. got a' ys (pend @ take (stop_at ops dim target bias p zs) zs) \<and>
     seek_items dim target bias agg e p a zs (map (s_item ops) zs) =
     Some (e\<lparr>se_index := se_index e + stop_at ops dim target bias p zs\<rparr>,
       pos_at ops dim p (take (stop_at ops dim target bias p zs) zs), a',
       stop_at ops dim target bias p zs < length zs)"
proof (induction zs arbitrary: a pend p e)
  case (Cons z zs)
  show ?case
  proof (cases "past_end target bias (d_add dim p (s_item ops z))")
    case True
    obtain a1 where a1: "ag_push_item agg z (s_item ops z) a = Some a1" "got a1 ys (pend @ [z])"
      using push_item [OF Cons.prems(1)] Cons.prems(2) by fastforce
    from Cons.IH [OF a1(2), of "d_add dim p (s_item ops z)" "e\<lparr>se_index := se_index e + 1\<rparr>"] Cons.prems(2)
      True a1(1) show ?thesis
      by (auto simp: Let_def stop_at_Cons)
  next
    case False
    with Cons.prems show ?thesis by (auto simp: Let_def stop_at_Cons)
  qed
qed auto

end

definition seek_outcome ::
  "('i, 's) summary_ops \<Rightarrow> ('s, 'd) dimension \<Rightarrow> ('i, 's, 'a) aggregate \<Rightarrow> ('a \<Rightarrow> 'i list \<Rightarrow> 'i list \<Rightarrow> bool) \<Rightarrow>
   ('d \<Rightarrow> ordering) \<Rightarrow> bias \<Rightarrow> ('i, 's) sum_tree \<Rightarrow> 'd \<Rightarrow> nat \<Rightarrow> 'd \<Rightarrow> 'i list \<Rightarrow> 'i list \<Rightarrow>
   ('i, 's, 'd) stack_entry list \<Rightarrow> ('d \<times> 'a \<times> ('i, 's, 'd) stack_entry list) option \<Rightarrow> bool" where
  "seek_outcome ops dim agg got target bias t pos n p zs ys rest res \<longleftrightarrow>
     (let k = stop_at ops dim target bias p zs
      in \<exists>a'. got a' (ys @ take k zs) [] \<and>
           (if k < length zs
            then \<exists>stk. res = Some (pos_at ops dim p (take k zs), a', stk @ rest) \<and> path_at dim t pos (rev stk) (n + k)
            else res = seek_loop dim target bias agg True (pos_at ops dim p zs) a' rest))"

lemma seek_outcome_append:
  assumes "seek_outcome ops dim agg got target bias t pos (n + length xs) (pos_at ops dim p xs) zs (ys @ xs) rest res"
    and "stop_at ops dim target bias p xs = length xs"
  shows "seek_outcome ops dim agg got target bias t pos n p (xs @ zs) ys rest res"
  using assms
  by (cases "stop_at ops dim target bias (pos_at ops dim p xs) zs < length zs")
    (auto simp: seek_outcome_def Let_def stop_at_append add.assoc)

context seek_aggregate
begin

lemma seek_leaf_correct:
  assumes "wf_tree ops (Leaf s xs ss)" "got a ys []" "n \<le> length xs"
    and "se_tree e = Leaf s xs ss" "se_index e = n"
  shows "seek_outcome ops dim agg got target bias (Leaf s xs ss) pos n p (drop n xs) ys rest
    (seek_loop dim target bias agg asc p a (e # rest))"
proof -
  let ?k = "stop_at ops dim target bias p (drop n xs)"
  have len: "length ([] :: 'a list) + length (drop n xs) \<le> 2 * TREE_BASE" using assms(1) by auto
  obtain a1 where a1: "got a1 ys (take ?k (drop n xs))"
    "seek_items dim target bias agg e p a (drop n xs) (map (s_item ops) (drop n xs)) =
     Some (e\<lparr>se_index := n + ?k\<rparr>, pos_at ops dim p (take ?k (drop n xs)), a1, ?k < length (drop n xs))"
    using seek_items_correct [OF assms(2) len, of target bias p e] assms(5) by auto
  obtain a2 where a2: "ag_end_leaf agg a1 = Some a2" "got a2 (ys @ take ?k (drop n xs)) []"
    using end_leaf [OF a1(1)] by blast
  have ss: "drop n ss = map (s_item ops) (drop n xs)" using assms(1) by (simp add: drop_map)
  show ?thesis
  proof (cases "?k < length (drop n xs)")
    case True
    let ?stk = "[e\<lparr>se_index := n + ?k\<rparr>]"
    have "seek_loop dim target bias agg asc p a (e # rest) =
        Some (pos_at ops dim p (take ?k (drop n xs)), a2, ?stk @ rest)"
      using assms a1 a2 True ss by (simp add: seek_loop.simps(2))
    moreover have "path_at dim (Leaf s xs ss) pos (rev ?stk) (n + ?k)" using True assms(4) by simp
    ultimately show ?thesis
      using a2 True unfolding seek_outcome_def Let_def by (metis (no_types, lifting))
  next
    case False
    then have "?k = length (drop n xs)" using stop_at_le [of ops dim target bias p "drop n xs"] by simp
    then have "seek_loop dim target bias agg asc p a (e # rest) =
        seek_loop dim target bias agg True (pos_at ops dim p (drop n xs)) a2 rest"
      using assms a1 a2 ss by (simp add: seek_loop.simps(2))
    with a2 False show ?thesis unfolding seek_outcome_def Let_def by auto
  qed
qed


text \<open>The remaining children of an internal node, from the one the entry points at.\<close>

lemma seek_children_correct:
  assumes "\<And>i a ys p rest. i < length ts \<Longrightarrow> got a ys [] \<Longrightarrow>
      mono_target target (item_ends ops dim p (elems (ts ! i))) \<Longrightarrow>
      length rest + height (ts ! i) < STACK_CAPACITY \<Longrightarrow>
      seek_outcome ops dim agg got target bias (ts ! i) p 0 p (elems (ts ! i)) ys rest
        (seek_loop dim target bias agg False p a (\<lparr>se_tree = ts ! i, se_index = 0, se_position = p\<rparr> # rest))"
    and wf: "wf_tree ops (Internal h s ss ts)"
    and cap: "length rest + h < STACK_CAPACITY"
  shows "se_tree e = Internal h s ss ts \<Longrightarrow> se_index e \<le> length ts \<Longrightarrow> got a ys [] \<Longrightarrow>
    p = end_of dim pos (take (se_index e) ss) \<Longrightarrow> se_position e = p \<Longrightarrow>
    mono_target target (item_ends ops dim p (concat (map elems (drop (se_index e) ts)))) \<Longrightarrow>
    seek_outcome ops dim agg got target bias (Internal h s ss ts) pos (before ts (se_index e)) p
      (concat (map elems (drop (se_index e) ts))) ys rest
      (seek_loop dim target bias agg False p a (e # rest))"
proof (induction "length ts - se_index e" arbitrary: e a ys p)
  case 0
  then have "se_index e = length ts" by simp
  with 0 wf seek_step_exhausted [of e h s ss ts dim target bias agg p a rest] show ?case
    by (auto simp: seek_outcome_def wf_Internal)
next
  case (Suc m)
  let ?i = "se_index e"
  let ?c = "ts ! ?i"
  let ?zs = "concat (map elems (drop (Suc ?i) ts))"
  have i: "?i < length ts" using Suc.hyps(2) by simp
  note zs = concat_drop_Suc [OF i]
  have c: "wf_tree ops ?c" "elems ?c \<noteq> []" "Suc (height ?c) = h" "ss ! ?i = summary ?c"
    "length ss = length ts" using wf i by (auto simp: wf_Internal forest_def)
  have step: "d_add dim p (ss ! ?i) = pos_at ops dim p (elems ?c)"
    using d_add_summary [OF c(1,2)] c(4) by (simp add: pos_at_def)
  have m: "mono_target target (item_ends ops dim p (elems ?c))"
    "mono_target target (item_ends ops dim (pos_at ops dim p (elems ?c)) ?zs)"
    using Suc.prems(6) by (simp_all add: zs mono_target_append)
  show ?case
  proof (cases "past_end target bias (d_add dim p (ss ! ?i))")
    case True
    then have stop: "stop_at ops dim target bias p (elems ?c) = length (elems ?c)"
      using stop_at_past [OF m(1) c(2)] step by simp
    obtain a' where a': "ag_push_tree agg ?c (ss ! ?i) a = Some a'" "got a' (ys @ elems ?c) []"
      using push_tree [OF Suc.prems(3) c(1,2)] c(4) by auto
    let ?e = "e\<lparr>se_index := Suc ?i, se_position := pos_at ops dim p (elems ?c)\<rparr>"
    have p': "pos_at ops dim p (elems ?c) = end_of dim pos (take (Suc ?i) ss)"
      unfolding step [symmetric] using i c(5) Suc.prems(4) by (simp add: take_Suc_conv_app_nth)
    have "seek_outcome ops dim agg got target bias (Internal h s ss ts) pos (before ts (Suc ?i))
      (pos_at ops dim p (elems ?c)) ?zs (ys @ elems ?c) rest
      (seek_loop dim target bias agg False (pos_at ops dim p (elems ?c)) a' (?e # rest))"
      using Suc.hyps(1) [of ?e a' "ys @ elems ?c" "pos_at ops dim p (elems ?c)"] Suc.hyps(2)
        Suc.prems a'(2) m(2) p' i by simp
    with True a'(1) Suc.prems(1) c(5) i stop show ?thesis
      unfolding zs by (intro seek_outcome_append) (simp_all add: seek_step_past step before_Suc)
  next
    case False
    then have stop: "stop_at ops dim target bias p (elems ?c) < length (elems ?c)"
      using stop_at_past [OF m(1) c(2)] step stop_at_le [of ops dim target bias p "elems ?c"]
      by (metis le_neq_implies_less)
    have cap': "length (e # rest) + height ?c < STACK_CAPACITY" "Suc (length rest) < STACK_CAPACITY"
      using cap c(3) by auto
    let ?k = "stop_at ops dim target bias p (elems ?c)"
    from assms(1) [OF i Suc.prems(3) m(1) cap'(1)] stop obtain a' stk where r:
      "got a' (ys @ take ?k (elems ?c)) []" "path_at dim ?c p (rev stk) ?k"
      "seek_loop dim target bias agg False p a (\<lparr>se_tree = ?c, se_index = 0, se_position = p\<rparr> # e # rest) =
       Some (pos_at ops dim p (take ?k (elems ?c)), a', stk @ e # rest)"
      by (auto simp: seek_outcome_def Let_def)
    have "path_at dim (Internal h s ss ts) pos (rev (stk @ [e])) (before ts ?i + ?k)"
      using r(2) i Suc.prems(1,4,5) by simp
    moreover have "seek_loop dim target bias agg False p a (e # rest) =
       Some (pos_at ops dim p (take ?k (elems ?c)), a', (stk @ [e]) @ rest)"
      using seek_step_descend [OF Suc.prems(1) c(5) i False cap'(2), of agg a] r(3) by simp
    ultimately show ?thesis
      using stop r(1) unfolding seek_outcome_def zs Let_def
      by (auto simp: stop_at_append intro!: exI [of _ a'] exI [of _ "stk @ [e]"])
  qed
qed

text \<open>A whole subtree that was just pushed.\<close>

lemma seek_fresh_correct:
  "wf_tree ops t \<Longrightarrow> got a ys [] \<Longrightarrow> mono_target target (item_ends ops dim p (elems t)) \<Longrightarrow>
   length rest + height t < STACK_CAPACITY \<Longrightarrow>
   seek_outcome ops dim agg got target bias t p 0 p (elems t) ys rest
     (seek_loop dim target bias agg False p a (\<lparr>se_tree = t, se_index = 0, se_position = p\<rparr> # rest))"
proof (induction t arbitrary: a ys p rest)
  case (Leaf s xs ss)
  then show ?case
    using seek_leaf_correct [OF Leaf.prems(1,2), of 0 "\<lparr>se_tree = Leaf s xs ss, se_index = 0, se_position = p\<rparr>"]
    by simp
next
  case (Internal h s ss ts)
  have *: "seek_outcome ops dim agg got target bias (ts ! i) p 0 p (elems (ts ! i)) ys rest
        (seek_loop dim target bias agg False p a (\<lparr>se_tree = ts ! i, se_index = 0, se_position = p\<rparr> # rest))"
    if "i < length ts" "got a ys []" "mono_target target (item_ends ops dim p (elems (ts ! i)))"
      "length rest + height (ts ! i) < STACK_CAPACITY" for i a ys p rest
    using Internal.IH [of "ts ! i"] that Internal.prems(1) by (simp add: wf_Internal forest_def)
  show ?case
    using seek_children_correct [OF * Internal.prems(1), of rest
        "\<lparr>se_tree = Internal h s ss ts, se_index = 0, se_position = p\<rparr>" a ys p p] Internal.prems
    by simp
qed

text \<open>From a cursor that already stands in \<open>t\<close>.\<close>

lemma seek_path_correct:
  "wf_tree ops t \<Longrightarrow> got a ys [] \<Longrightarrow> path_at dim t pos (rev stk) n \<Longrightarrow>
   mono_target target (item_ends ops dim (pos_at ops dim pos (take n (elems t))) (drop n (elems t))) \<Longrightarrow>
   length rest + height t < STACK_CAPACITY \<Longrightarrow>
   seek_outcome ops dim agg got target bias t pos n (pos_at ops dim pos (take n (elems t))) (drop n (elems t)) ys rest
     (seek_loop dim target bias agg False (pos_at ops dim pos (take n (elems t))) a (stk @ rest))"
proof (induction t arbitrary: a ys pos stk n rest)
  case (Leaf s xs ss)
  then obtain e where "stk = [e]" "se_tree e = Leaf s xs ss" "se_index e = n" "n < length xs"
    by (cases "rev stk") (auto simp: rev_eq_Cons_iff)
  with Leaf.prems show ?case
    using seek_leaf_correct [OF Leaf.prems(1,2), of n e] by simp
next
  case (Internal h s ss ts)
  let ?xs = "concat (map elems ts)"
  obtain stk' e where stk: "stk = stk' @ [e]" using Internal.prems(3) by (cases stk rule: rev_cases) auto
  let ?i = "se_index e"
  let ?c = "ts ! ?i"
  let ?m = "n - before ts ?i"
  let ?q = "se_position e"
  have e: "se_tree e = Internal h s ss ts" "?i < length ts" "?q = end_of dim pos (take ?i ss)"
    "before ts ?i \<le> n" "path_at dim ?c ?q (rev stk') ?m"
    using Internal.prems(3) by (auto simp: stk)
  have c: "wf_tree ops ?c" "elems ?c \<noteq> []" "Suc (height ?c) = h" "ss = map summary ts"
    using Internal.prems(1) e(2) by (auto simp: wf_Internal forest_def)
  have split: "?xs = concat (map elems (take ?i ts)) @ elems ?c @ concat (map elems (drop (Suc ?i) ts))"
    using concat_drop_Suc [OF e(2)] concat_map_take_drop by metis
  let ?zs = "concat (map elems (drop (Suc ?i) ts))"
  have m: "?m < length (elems ?c)" using path_at_less [OF e(5)] .
  have q: "?q = pos_at ops dim pos (concat (map elems (take ?i ts)))"
  proof -
    have "forest ops h us \<Longrightarrow> end_of dim pos (map summary us) = pos_at ops dim pos (concat (map elems us))" for us
      by (induction us arbitrary: pos) (auto simp: d_add_summary pos_at_def)
    then show ?thesis
      using forest_take_drop(1) [of ops h ts ?i] Internal.prems(1) e(3) c(4)
      by (simp add: wf_Internal take_map)
  qed
  have tk: "take n ?xs = concat (map elems (take ?i ts)) @ take ?m (elems ?c)"
    and dr: "drop n ?xs = drop ?m (elems ?c) @ ?zs"
    using e(4) m by (simp_all add: split before_def)
  let ?p = "pos_at ops dim ?q (take ?m (elems ?c))"
  have p: "pos_at ops dim pos (take n ?xs) = ?p" by (simp add: tk q)
  have end_c: "pos_at ops dim ?p (drop ?m (elems ?c)) = pos_at ops dim ?q (elems ?c)"
    by (metis append_take_drop_id pos_at_simps(3))
  have mono: "mono_target target (item_ends ops dim ?p (drop ?m (elems ?c)))"
    "mono_target target (item_ends ops dim (pos_at ops dim ?q (elems ?c)) ?zs)"
    using Internal.prems(4) by (simp_all add: dr p mono_target_append end_c)
  let ?k = "stop_at ops dim target bias ?p (drop ?m (elems ?c))"
  let ?loop = "seek_loop dim target bias agg"
  have "seek_outcome ops dim agg got target bias ?c ?q ?m ?p (drop ?m (elems ?c)) ys (e # rest)
      (?loop False ?p a (stk' @ e # rest))"
    using Internal.IH [of ?c a ys ?q stk' ?m "e # rest"] c e(2,5) Internal.prems(2,5) mono(1) by simp
  then obtain a' where a': "got a' (ys @ take ?k (drop ?m (elems ?c))) []"
    "if ?k < length (drop ?m (elems ?c))
     then \<exists>stk. ?loop False ?p a (stk' @ e # rest) =
         Some (pos_at ops dim ?p (take ?k (drop ?m (elems ?c))), a', stk @ e # rest) \<and> path_at dim ?c ?q (rev stk) (?m + ?k)
     else ?loop False ?p a (stk' @ e # rest) = ?loop True (pos_at ops dim ?p (drop ?m (elems ?c))) a' (e # rest)"
    by (auto simp: seek_outcome_def Let_def)
  show ?case
  proof (cases "?k < length (drop ?m (elems ?c))")
    case True
    with a'(2) obtain stk2 where r: "?loop False ?p a (stk' @ e # rest) =
         Some (pos_at ops dim ?p (take ?k (drop ?m (elems ?c))), a', stk2 @ e # rest)"
      "path_at dim ?c ?q (rev stk2) (?m + ?k)" by auto
    have "path_at dim (Internal h s ss ts) pos (rev (stk2 @ [e])) (n + ?k)"
      using r(2) e by simp
    with r(1) True a'(1) show ?thesis
      unfolding elems.simps p dr seek_outcome_def Let_def stk
      by (auto simp: stop_at_append intro!: exI [of _ a'] exI [of _ "stk2 @ [e]"])
  next
    case False
    then have k: "?k = length (drop ?m (elems ?c))"
      using stop_at_le [of ops dim target bias ?p "drop ?m (elems ?c)"] by simp
    let ?p' = "pos_at ops dim ?q (elems ?c)"
    let ?e = "e\<lparr>se_index := Suc ?i, se_position := ?p'\<rparr>"
    have r: "?loop False ?p a (stk' @ e # rest) = ?loop False ?p' a' (?e # rest)"
      using a'(2) False seek_step_ascend [OF e(1)] by (simp add: end_c)
    have p': "?p' = end_of dim pos (take (Suc ?i) ss)"
      using e(2,3) c d_add_summary [OF c(1,2)] by (simp add: take_Suc_conv_app_nth pos_at_def)
    have *: "seek_outcome ops dim agg got target bias (ts ! i) p 0 p (elems (ts ! i)) ys rest
        (?loop False p a (\<lparr>se_tree = ts ! i, se_index = 0, se_position = p\<rparr> # rest))"
      if "i < length ts" "got a ys []" "mono_target target (item_ends ops dim p (elems (ts ! i)))"
        "length rest + height (ts ! i) < STACK_CAPACITY" for i a ys p rest
      using seek_fresh_correct that Internal.prems(1) by (simp add: wf_Internal forest_def)
    have "seek_outcome ops dim agg got target bias (Internal h s ss ts) pos (before ts (Suc ?i)) ?p' ?zs
        (ys @ drop ?m (elems ?c)) rest (?loop False ?p' a' (?e # rest))"
      using seek_children_correct [OF * Internal.prems(1), of rest ?e a' "ys @ drop ?m (elems ?c)" ?p' pos]
        e Internal.prems(5) mono(2) p' a'(1) k by simp
    moreover have "before ts (Suc ?i) = n + length (drop ?m (elems ?c))"
      using e(2,4) m by (simp add: before_Suc)
    ultimately show ?thesis
      unfolding elems.simps p dr stk
      using k r by (intro seek_outcome_append) (simp_all add: end_c)
  qed
qed


text \<open>The whole of \<open>seek_internal\<close>.\<close>

lemma seek_loop_top:
  assumes "wf_tree ops (c_tree c)" "height (c_tree c) < STACK_CAPACITY" "cursor_ready ops dim c n"
    and "mono_target target (item_ends ops dim (c_position c) (drop n (elems (c_tree c))))" "got a [] []"
  shows "\<exists>stack. (if \<not> c_did_seek c
       then push_entry \<lparr>se_tree = c_tree c, se_index = 0, se_position = d_zero dim\<rparr> (c_stack c)
       else Some (c_stack c)) = Some stack \<and>
     seek_outcome ops dim agg got target bias (c_tree c) (d_zero dim) n (c_position c)
       (drop n (elems (c_tree c))) [] [] (seek_loop dim target bias agg False (c_position c) a stack)"
  using assms(3) unfolding cursor_ready_def
proof (elim disjE conjE)
  assume c: "cursor_fresh dim c" "n = 0"
  with seek_fresh_correct [OF assms(1,5), of target "d_zero dim" "[]" bias] assms(2,4) show ?thesis
    by (simp add: cursor_fresh_def push_entry_def)
next
  assume c: "cursor_at ops dim c n"
  show ?thesis
  proof (cases "n < length (elems (c_tree c))")
    case True
    with c seek_path_correct [OF assms(1,5), of "d_zero dim" "c_stack c" n target "[]" bias] assms(2,4)
    show ?thesis by (simp add: cursor_at_def)
  next
    case False
    with c assms(5) show ?thesis by (auto simp: cursor_at_def seek_outcome_def)
  qed
qed

lemma seek_internal_correct:
  assumes wf: "wf_tree ops (c_tree c)" and cap: "height (c_tree c) < STACK_CAPACITY"
    and ready: "cursor_ready ops dim c n" and ge: "is_ge (target (c_position c))"
    and mono: "mono_target target (item_ends ops dim (c_position c) (drop n (elems (c_tree c))))"
    and a: "got a [] []"
    and k: "k = stop_at ops dim target bias (c_position c) (drop n (elems (c_tree c)))"
  shows "\<exists>c' a'. c_tree c' = c_tree c \<and> cursor_at ops dim c' (n + k) \<and>
     got a' (take k (drop n (elems (c_tree c)))) [] \<and>
     seek_internal dim target bias agg a c = Some (c', a',
       target (pos_at ops dim (d_zero dim) (take (if bias = Left then Suc (n + k) else n + k) (elems (c_tree c)))) = Equal)"
proof -
  let ?xs = "elems (c_tree c)"
  let ?zs = "drop n ?xs"
  have n: "n \<le> length ?xs" using ready by (auto simp: cursor_ready_def cursor_at_def)
  obtain stack where st: "(if \<not> c_did_seek c
       then push_entry \<lparr>se_tree = c_tree c, se_index = 0, se_position = d_zero dim\<rparr> (c_stack c)
       else Some (c_stack c)) = Some stack"
    "seek_outcome ops dim agg got target bias (c_tree c) (d_zero dim) n (c_position c) ?zs [] []
       (seek_loop dim target bias agg False (c_position c) a stack)"
    using seek_loop_top [OF wf cap ready mono a] by blast
  from st(2) obtain a' stk where r: "got a' (take k ?zs) []"
    "seek_loop dim target bias agg False (c_position c) a stack =
       Some (pos_at ops dim (c_position c) (take k ?zs), a', stk)"
    "if k < length ?zs then path_at dim (c_tree c) (d_zero dim) (rev stk) (n + k) else stk = []"
    using stop_at_le [of ops dim target bias "c_position c" ?zs]
    by (auto simp: seek_outcome_def Let_def simp flip: k split: if_splits)
  have pos: "pos_at ops dim (c_position c) (take k ?zs) = pos_at ops dim (d_zero dim) (take (n + k) ?xs)"
    using cursor_ready_position [OF ready] by (simp add: take_add)
  let ?c = "c\<lparr>c_did_seek := True, c_stack := stk,
      c_position := pos_at ops dim (c_position c) (take k ?zs), c_at_end := (stk = [])\<rparr>"
  have kn: "n + k \<le> length ?xs" using n stop_at_le [of ops dim target bias "c_position c" ?zs] k by simp
  have at: "cursor_at ops dim ?c (n + k)"
    using r(3) kn pos by (auto simp: cursor_at_def split: if_splits)
  have leaf: "stk = [] \<or> is_leaf (se_tree (hd stk))"
  proof (cases "k < length ?zs")
    case True
    then have "n + k < length (elems (c_tree ?c))" by simp
    with cursor_at_leaf [OF at] wf show ?thesis by force
  qed (use r(3) in simp)
  have "seek_internal dim target bias agg a c = Some (?c, a',
       target (pos_at ops dim (d_zero dim) (take (if bias = Left then Suc (n + k) else n + k) ?xs)) = Equal)"
    using st(1) ge r(2) leaf cursor_end_at [OF at] wf pos
    by (simp add: seek_internal_def)
  with at r(1) show ?thesis by force
qed

end

section \<open>The three aggregates\<close>

definition slice_got :: "('i, 's) summary_ops \<Rightarrow> ('i, 's) slice_aggregate \<Rightarrow> 'i list \<Rightarrow> 'i list \<Rightarrow> bool" where
  "slice_got ops a ys pend \<longleftrightarrow>
     wf_tree ops (sa_tree a) \<and> elems (sa_tree a) = ys \<and>
     wf_tree ops (Leaf (sa_leaf_summary a) (sa_leaf_items a) (sa_leaf_item_summaries a)) \<and> sa_leaf_items a = pend"

sublocale tree_dimension < unit: seek_aggregate ops dim unit_aggregate "\<lambda>_ _ _. True"
  by unfold_locales (simp_all add: unit_aggregate_def)

sublocale tree_dimension < slice: seek_aggregate ops dim "slice_seek_aggregate ops" "slice_got ops"
proof (unfold_locales, goal_cases)
  case (1 a ys pend x)
  then show ?case
    by (auto simp: slice_seek_aggregate_def slice_push_item_def slice_got_def array_vec_def
        item_sum_append) (auto simp: item_sum_def sum_of_Cons)
next
  case (2 a ys pend)
  then show ?case
    using append_correct [of "sa_tree a" "Leaf (sa_leaf_summary a) (sa_leaf_items a) (sa_leaf_item_summaries a)"]
    by (auto simp: slice_seek_aggregate_def slice_end_leaf_def slice_got_def) (auto simp: item_sum_def sum_of_def)
next
  case (3 a ys t)
  then show ?case
    using append_correct [of "sa_tree a" t]
    by (auto simp: slice_seek_aggregate_def slice_push_tree_def slice_got_def)
qed

locale output_dimension = tree_dimension + out: tree_dimension ops out
  for out :: "('b, 'e) dimension"

sublocale output_dimension < summary: seek_aggregate ops dim "summary_seek_aggregate out"
    "\<lambda>a ys pend. a = pos_at ops out (d_zero out) (ys @ pend)"
  by unfold_locales (simp_all add: summary_seek_aggregate_def out.d_add_summary pos_at_def)

end
