(* ===== verification/Cursor_Walk.thy ===== *)
theory Cursor_Walk
  imports Cursor_Correct
begin

text \<open>
  Walking with a cursor: \<open>search_forward\<close> and \<open>search_backward\<close> with a filter move to the next and
  the previous item the filter accepts, \<open>next\<close> and \<open>prev\<close> by one item, and the iterators enumerate
  the sequence. A filter has to be conservative on subtrees: it may reject a summary only if it
  rejects every item below.
\<close>

section \<open>First and last match\<close>

fun first_sat :: "('a \<Rightarrow> bool) \<Rightarrow> 'a list \<Rightarrow> nat option" where
  "first_sat P [] = None"
| "first_sat P (x # xs) = (if P x then Some 0 else map_option Suc (first_sat P xs))"

fun last_sat :: "('a \<Rightarrow> bool) \<Rightarrow> 'a list \<Rightarrow> nat option" where
  "last_sat P [] = None"
| "last_sat P (x # xs) =
     (case last_sat P xs of Some j \<Rightarrow> Some (Suc j) | None \<Rightarrow> if P x then Some 0 else None)"

lemma first_sat_append:
  "first_sat P (xs @ ys) =
     (case first_sat P xs of Some j \<Rightarrow> Some j | None \<Rightarrow> map_option (\<lambda>j. length xs + j) (first_sat P ys))"
  by (induction xs; cases "first_sat P ys") (auto split: option.splits)

lemma last_sat_append:
  "last_sat P (xs @ ys) =
     (case last_sat P ys of Some j \<Rightarrow> Some (length xs + j) | None \<Rightarrow> last_sat P xs)"
  by (induction xs) (auto split: option.splits)

lemma first_sat_None: "first_sat P xs = None \<longleftrightarrow> (\<forall>x \<in> set xs. \<not> P x)"
  by (induction xs) auto

lemma last_sat_None: "last_sat P xs = None \<longleftrightarrow> (\<forall>x \<in> set xs. \<not> P x)"
  by (induction xs) (auto split: option.splits)

lemma first_sat_Some:
  "first_sat P xs = Some j \<longleftrightarrow> j < length xs \<and> P (xs ! j) \<and> (\<forall>i < j. \<not> P (xs ! i))"
proof (induction xs arbitrary: j)
  case (Cons x xs)
  then show ?case by (cases j) (auto simp: nth_Cons' less_Suc_eq_0_disj)
qed simp

lemma last_sat_Some:
  "last_sat P xs = Some j \<longleftrightarrow> j < length xs \<and> P (xs ! j) \<and> (\<forall>i. j < i \<and> i < length xs \<longrightarrow> \<not> P (xs ! i))"
proof (induction xs arbitrary: j)
  case (Cons x xs)
  show ?case
  proof (cases "last_sat P xs")
    case None
    then have "\<forall>i < length xs. \<not> P (xs ! i)" by (simp add: last_sat_None all_set_conv_all_nth)
    with None show ?thesis by (cases j) (auto simp: nth_Cons')
  next
    case (Some k)
    with Cons.IH [of k] have k: "k < length xs" "P (xs ! k)" "\<forall>i. k < i \<and> i < length xs \<longrightarrow> \<not> P (xs ! i)"
      by auto
    show ?thesis
    proof (cases j)
      case 0
      have "Suc k < length (x # xs) \<and> P ((x # xs) ! Suc k)" using k by simp
      with 0 Some show ?thesis by (auto dest: spec [of _ "Suc k"])
    next
      case (Suc j')
      have "Suc k = j \<longleftrightarrow> last_sat P xs = Some j'" using Some Suc by auto
      with Suc Some Cons.IH [of j'] show ?thesis
        by (auto simp: nth_Cons' gr0_conv_Suc) (metis Suc_less_eq Suc_pred diff_Suc_1 gr0I not_less_zero)
    qed
  qed
qed simp

lemma first_sat_less: "first_sat P xs = Some j \<Longrightarrow> j < length xs"
  by (simp add: first_sat_Some)

lemma last_sat_less: "last_sat P xs = Some j \<Longrightarrow> j < length xs"
  by (simp add: last_sat_Some)

lemma first_sat_True [simp]: "first_sat (\<lambda>_. True) xs = (if xs = [] then None else Some 0)"
  by (cases xs) auto

lemma last_sat_True [simp]: "last_sat (\<lambda>_. True) xs = (if xs = [] then None else Some (length xs - 1))"
  by (induction xs) (auto split: option.splits)

section \<open>One iteration of \<open>search_forward\<close>\<close>

lemma forward_step_reject:
  assumes "se_tree e = Internal h s ss ts" "se_index e < length ss" "\<not> f (ss ! se_index e)"
  shows "forward_loop dim f True p (e # rest) = forward_loop dim f True (d_add dim p (ss ! se_index e))
    (e\<lparr>se_index := Suc (se_index e), se_position := d_add dim (se_position e) (ss ! se_index e)\<rparr> # rest)"
proof -
  have "drop (se_index e) ss = ss ! se_index e # drop (Suc (se_index e)) ss"
    using assms(2) by (simp add: Cons_nth_drop_Suc)
  with assms show ?thesis by (simp add: forward_loop.simps(2) Let_def)
qed

lemma forward_step_accept:
  assumes "se_tree e = Internal h s ss ts" "se_index e < length ss" "length ss = length ts"
    and "f (ss ! se_index e)" "Suc (length rest) < STACK_CAPACITY"
  shows "forward_loop dim f True p (e # rest) = forward_loop dim f True p
    (\<lparr>se_tree = ts ! se_index e, se_index = 0, se_position = p\<rparr> # e # rest)"
proof -
  have "drop (se_index e) ss = ss ! se_index e # drop (Suc (se_index e)) ss"
    using assms(2) by (simp add: Cons_nth_drop_Suc)
  with assms show ?thesis by (simp add: forward_loop.simps(2) [where e = e] Let_def get_opt_def)
qed

lemma forward_step_exhausted:
  assumes "se_tree e = Internal h s ss ts" "se_index e = length ts" "length ss = length ts"
  shows "forward_loop dim f True p (e # rest) = forward_loop dim f False p rest"
  using assms by (simp add: forward_loop.simps(2) Let_def get_opt_def)

lemma forward_step_ascend:
  assumes "se_tree e = Internal h s ss ts"
  shows "forward_loop dim f False p (e # rest) =
    forward_loop dim f True p (e\<lparr>se_index := Suc (se_index e), se_position := p\<rparr> # rest)"
  using assms by (simp add: forward_loop.simps(2) Let_def)

lemma forward_step_leaf:
  assumes "se_tree e = Leaf s xs ss" "se_index e < length ss"
  shows "forward_loop dim f False p (e # rest) = forward_loop dim f True (d_add dim p (ss ! se_index e))
    (e\<lparr>se_index := Suc (se_index e), se_position := d_add dim (se_position e) (ss ! se_index e)\<rparr> # rest)"
  using assms by (simp add: forward_loop.simps(2) Let_def)

definition forward_outcome ::
  "('i, 's) summary_ops \<Rightarrow> ('s, 'd) dimension \<Rightarrow> ('s \<Rightarrow> bool) \<Rightarrow> ('i, 's) sum_tree \<Rightarrow> 'd \<Rightarrow> nat \<Rightarrow> 'd \<Rightarrow>
   'i list \<Rightarrow> ('i, 's, 'd) stack_entry list \<Rightarrow> ('d \<times> ('i, 's, 'd) stack_entry list \<times> bool) option \<Rightarrow> bool" where
  "forward_outcome ops dim f t pos n p zs rest res \<longleftrightarrow>
     (case first_sat (\<lambda>x. f (s_item ops x)) zs of
        Some k \<Rightarrow> \<exists>stk. res = Some (pos_at ops dim p (take k zs), stk @ rest, True) \<and>
                    path_at dim t pos (rev stk) (n + k)
      | None \<Rightarrow> res = forward_loop dim f False (pos_at ops dim p zs) rest)"

lemma forward_outcome_skip:
  assumes "forward_outcome ops dim f t pos (n + length xs) (pos_at ops dim p xs) zs rest res"
    and "\<forall>x \<in> set xs. \<not> f (s_item ops x)"
  shows "forward_outcome ops dim f t pos n p (xs @ zs) rest res"
proof -
  have "first_sat (\<lambda>x. f (s_item ops x)) xs = None"
    using assms(2) by (simp add: first_sat_None)
  with assms(1) show ?thesis
    by (auto simp: forward_outcome_def first_sat_append add.assoc split: option.splits)
qed

lemma forward_outcome_found:
  assumes "first_sat (\<lambda>x. f (s_item ops x)) xs = Some k"
    and "res = Some (pos_at ops dim p (take k xs), stk @ rest, True)" "path_at dim t pos (rev stk) (n + k)"
  shows "forward_outcome ops dim f t pos n p (xs @ zs) rest res"
  using assms first_sat_less [OF assms(1)] by (auto simp: forward_outcome_def first_sat_append)

lemma forward_leaf:
  assumes "wf_tree ops (Leaf s xs ss)" "se_tree e = Leaf s xs ss" "se_index e \<le> length xs"
  shows "forward_outcome ops dim f (Leaf s xs ss) pos (se_index e) p (drop (se_index e) xs) rest
    (forward_loop dim f True p (e # rest))"
  using assms(2,3)
proof (induction "length xs - se_index e" arbitrary: e p)
  case 0
  then show ?case using assms(1) by (simp add: forward_outcome_def forward_loop.simps(2))
next
  case (Suc m)
  let ?i = "se_index e"
  have i: "?i < length xs" and ss: "ss ! ?i = s_item ops (xs ! ?i)" "?i < length ss"
    using Suc assms(1) by auto
  have dr: "drop ?i xs = xs ! ?i # drop (Suc ?i) xs" "drop ?i ss = ss ! ?i # drop (Suc ?i) ss"
    using i Cons_nth_drop_Suc [OF ss(2)] by (simp_all add: Cons_nth_drop_Suc)
  show ?case
  proof (cases "f (ss ! ?i)")
    case True
    with dr ss i Suc.prems show ?thesis
      by (auto simp: forward_outcome_def forward_loop.simps(2) intro!: exI [of _ "[e]"])
  next
    case False
    let ?e = "e\<lparr>se_index := Suc ?i, se_position := d_add dim (se_position e) (ss ! ?i)\<rparr>"
    have "forward_loop dim f True p (e # rest) = forward_loop dim f True (d_add dim p (ss ! ?i)) (?e # rest)"
      using False Suc.prems dr by (simp add: forward_loop.simps(2))
    moreover have "forward_outcome ops dim f (Leaf s xs ss) pos (Suc ?i) (d_add dim p (ss ! ?i)) (drop (Suc ?i) xs) rest
        (forward_loop dim f True (d_add dim p (ss ! ?i)) (?e # rest))"
      using Suc.hyps(1) [of ?e] Suc.hyps(2) Suc.prems i by simp
    ultimately show ?thesis
      using forward_outcome_skip [of ops dim f "Leaf s xs ss" pos ?i "[xs ! ?i]"] False ss(1) dr(1) by simp
  qed
qed

text \<open>A cursor that has walked off the front.\<close>

definition cursor_before :: "('s, 'd) dimension \<Rightarrow> ('i, 's, 'd) cursor \<Rightarrow> bool" where
  "cursor_before dim c \<longleftrightarrow> c_did_seek c \<and> c_stack c = [] \<and> \<not> c_at_end c \<and> c_position c = d_zero dim"

text \<open>The filters under which a cursor may skip subtrees.\<close>

definition conservative :: "('i, 's) summary_ops \<Rightarrow> ('s \<Rightarrow> bool) \<Rightarrow> bool" where
  "conservative ops f \<longleftrightarrow> (\<forall>xs x. x \<in> set xs \<longrightarrow> f (s_item ops x) \<longrightarrow> f (item_sum ops xs))"

lemma conservative_True [simp]: "conservative ops (\<lambda>_. True)"
  by (simp add: conservative_def)

context tree_dimension
begin

lemma forest_position:
  "forest ops h us \<Longrightarrow> end_of dim pos (map summary us) = pos_at ops dim pos (concat (map elems us))"
  by (induction us arbitrary: pos) (auto simp: d_add_summary pos_at_def)

lemma forward_children:
  assumes "\<And>i p rest. i < length ts \<Longrightarrow> length rest + height (ts ! i) < STACK_CAPACITY \<Longrightarrow>
      forward_outcome ops dim f (ts ! i) p 0 p (elems (ts ! i)) rest
        (forward_loop dim f True p (\<lparr>se_tree = ts ! i, se_index = 0, se_position = p\<rparr> # rest))"
    and wf: "wf_tree ops (Internal h s ss ts)" and f: "conservative ops f"
    and cap: "length rest + h < STACK_CAPACITY"
  shows "se_tree e = Internal h s ss ts \<Longrightarrow> se_index e \<le> length ts \<Longrightarrow>
    p = end_of dim pos (take (se_index e) ss) \<Longrightarrow> se_position e = p \<Longrightarrow>
    forward_outcome ops dim f (Internal h s ss ts) pos (before ts (se_index e)) p
      (concat (map elems (drop (se_index e) ts))) rest (forward_loop dim f True p (e # rest))"
proof (induction "length ts - se_index e" arbitrary: e p)
  case 0
  then have "se_index e = length ts" by simp
  with 0 wf forward_step_exhausted [of e h s ss ts dim f p rest] show ?case
    by (auto simp: forward_outcome_def wf_Internal)
next
  case (Suc m)
  let ?i = "se_index e"
  let ?c = "ts ! ?i"
  let ?q = "pos_at ops dim p (elems ?c)"
  let ?e = "e\<lparr>se_index := Suc ?i, se_position := ?q\<rparr>"
  have i: "?i < length ts" using Suc.hyps(2) by simp
  note zs = concat_drop_Suc [OF i]
  have c: "wf_tree ops ?c" "elems ?c \<noteq> []" "Suc (height ?c) = h" "ss ! ?i = summary ?c"
    "length ss = length ts" using wf i by (auto simp: wf_Internal forest_def)
  have step: "d_add dim p (ss ! ?i) = ?q"
    using d_add_summary [OF c(1,2)] c(4) by (simp add: pos_at_def)
  have p': "?q = end_of dim pos (take (Suc ?i) ss)"
    unfolding step [symmetric] using i c(5) Suc.prems(3) by (simp add: take_Suc_conv_app_nth)
  have next_children: "forward_outcome ops dim f (Internal h s ss ts) pos (before ts ?i + length (elems ?c)) ?q
      (concat (map elems (drop (Suc ?i) ts))) rest (forward_loop dim f True ?q (?e # rest))"
    using Suc.hyps(1) [of ?e ?q] Suc.hyps(2) Suc.prems p' i by (simp add: before_Suc)
  show ?case
  proof (cases "f (ss ! ?i)")
    case False
    have "\<forall>x \<in> set (elems ?c). \<not> f (s_item ops x)"
      using f False wf_summary [OF c(1)] c(4) by (auto simp: conservative_def)
    with forward_outcome_skip [OF next_children] False i c(5) Suc.prems step show ?thesis
      by (simp add: forward_step_reject zs)
  next
    case True
    have cap': "length (e # rest) + height ?c < STACK_CAPACITY" "Suc (length rest) < STACK_CAPACITY"
      using cap c(3) by auto
    have loop: "forward_loop dim f True p (e # rest) =
        forward_loop dim f True p (\<lparr>se_tree = ?c, se_index = 0, se_position = p\<rparr> # e # rest)"
      using Suc.prems(1) c(5) i True cap'(2) by (intro forward_step_accept) auto
    note child = assms(1) [OF i cap'(1), of p, folded loop]
    show ?thesis
    proof (cases "first_sat (\<lambda>x. f (s_item ops x)) (elems ?c)")
      case (Some k)
      with child obtain stk where "forward_loop dim f True p (e # rest) =
          Some (pos_at ops dim p (take k (elems ?c)), stk @ e # rest, True)" "path_at dim ?c p (rev stk) k"
        by (auto simp: forward_outcome_def)
      with Some i Suc.prems show ?thesis
        unfolding zs by (intro forward_outcome_found [of f ops "elems ?c" k _ dim p "stk @ [e]"]) simp_all
    next
      case None
      with child have "forward_loop dim f True p (e # rest) = forward_loop dim f True ?q (?e # rest)"
        using forward_step_ascend [OF Suc.prems(1)] by (simp add: forward_outcome_def)
      with forward_outcome_skip [OF next_children] None show ?thesis by (simp add: zs first_sat_None)
    qed
  qed
qed

lemma forward_fresh:
  "wf_tree ops t \<Longrightarrow> conservative ops f \<Longrightarrow> length rest + height t < STACK_CAPACITY \<Longrightarrow>
   forward_outcome ops dim f t p 0 p (elems t) rest
     (forward_loop dim f True p (\<lparr>se_tree = t, se_index = 0, se_position = p\<rparr> # rest))"
proof (induction t arbitrary: p rest)
  case (Leaf s xs ss)
  then show ?case
    using forward_leaf [OF Leaf.prems(1), of "\<lparr>se_tree = Leaf s xs ss, se_index = 0, se_position = p\<rparr>"] by simp
next
  case (Internal h s ss ts)
  have *: "forward_outcome ops dim f (ts ! i) p 0 p (elems (ts ! i)) rest
        (forward_loop dim f True p (\<lparr>se_tree = ts ! i, se_index = 0, se_position = p\<rparr> # rest))"
    if "i < length ts" "length rest + height (ts ! i) < STACK_CAPACITY" for i p rest
    using Internal.IH [of "ts ! i"] that Internal.prems by (simp add: wf_Internal forest_def)
  show ?case
    using forward_children [OF * Internal.prems(1,2), of rest
        "\<lparr>se_tree = Internal h s ss ts, se_index = 0, se_position = p\<rparr>" p p] Internal.prems(3)
    by simp
qed


text \<open>From a cursor that stands at the \<open>n\<close>th item of \<open>t\<close>: the items after it.\<close>

lemma forward_path:
  "wf_tree ops t \<Longrightarrow> conservative ops f \<Longrightarrow> path_at dim t pos (rev stk) n \<Longrightarrow>
   length rest + height t < STACK_CAPACITY \<Longrightarrow>
   forward_outcome ops dim f t pos (Suc n) (pos_at ops dim pos (take (Suc n) (elems t))) (drop (Suc n) (elems t)) rest
     (forward_loop dim f False (pos_at ops dim pos (take n (elems t))) (stk @ rest))"
proof (induction t arbitrary: pos stk n rest)
  case (Leaf s xs ss)
  then obtain e where e: "stk = [e]" "se_tree e = Leaf s xs ss" "se_index e = n" "n < length xs"
    by (cases "rev stk") (auto simp: rev_eq_Cons_iff)
  let ?e = "e\<lparr>se_index := Suc n, se_position := d_add dim (se_position e) (ss ! n)\<rparr>"
  have "ss ! n = s_item ops (xs ! n)" "n < length ss" using e Leaf.prems(1) by auto
  with e forward_leaf [OF Leaf.prems(1), of ?e] forward_step_leaf [of e s xs ss] show ?case
    by (simp add: take_Suc_conv_app_nth)
next
  case (Internal h s ss ts)
  let ?xs = "concat (map elems ts)"
  obtain stk' e where stk: "stk = stk' @ [e]" using Internal.prems(3) by (cases stk rule: rev_cases) auto
  let ?i = "se_index e"
  let ?c = "ts ! ?i"
  let ?m = "n - before ts ?i"
  let ?q = "se_position e"
  have e: "se_tree e = Internal h s ss ts" "?i < length ts" "?q = end_of dim pos (take ?i ss)"
    "before ts ?i \<le> n" "path_at dim ?c ?q (rev stk') ?m"
    using Internal.prems(3) by (auto simp: stk)
  have c: "wf_tree ops ?c" "elems ?c \<noteq> []" "Suc (height ?c) = h" "ss = map summary ts"
    using Internal.prems(1) e(2) by (auto simp: wf_Internal forest_def)
  let ?zs = "concat (map elems (drop (Suc ?i) ts))"
  have split: "?xs = concat (map elems (take ?i ts)) @ elems ?c @ ?zs"
    using concat_drop_Suc [OF e(2)] concat_map_take_drop by metis
  have m: "?m < length (elems ?c)" using path_at_less [OF e(5)] .
  have q: "?q = pos_at ops dim pos (concat (map elems (take ?i ts)))"
    using forest_position forest_take_drop(1) [of ops h ts ?i] Internal.prems(1) e(3) c(4)
    by (simp add: wf_Internal take_map)
  have tk: "pos_at ops dim pos (take n ?xs) = pos_at ops dim ?q (take ?m (elems ?c))"
    "pos_at ops dim pos (take (Suc n) ?xs) = pos_at ops dim ?q (take (Suc ?m) (elems ?c))"
    and dr: "drop (Suc n) ?xs = drop (Suc ?m) (elems ?c) @ ?zs"
    using e(4) m by (simp_all add: split before_def q Suc_diff_le)
  let ?p = "pos_at ops dim ?q (take (Suc ?m) (elems ?c))"
  let ?p' = "pos_at ops dim ?q (elems ?c)"
  have end_c: "pos_at ops dim ?p (drop (Suc ?m) (elems ?c)) = ?p'"
    by (metis append_take_drop_id pos_at_simps(3))
  let ?loop = "forward_loop dim f False (pos_at ops dim ?q (take ?m (elems ?c))) (stk' @ e # rest)"
  have child: "forward_outcome ops dim f ?c ?q (Suc ?m) ?p (drop (Suc ?m) (elems ?c)) (e # rest) ?loop"
    using Internal.IH [of ?c ?q stk' ?m "e # rest"] c e(2,5) Internal.prems(2,4) by simp
  show ?case
  proof (cases "first_sat (\<lambda>x. f (s_item ops x)) (drop (Suc ?m) (elems ?c))")
    case (Some k)
    with child obtain stk2 where r: "?loop = Some (pos_at ops dim ?p (take k (drop (Suc ?m) (elems ?c))), stk2 @ e # rest, True)"
      "path_at dim ?c ?q (rev stk2) (Suc ?m + k)" by (auto simp: forward_outcome_def)
    have "path_at dim (Internal h s ss ts) pos (rev (stk2 @ [e])) (Suc n + k)"
      using r(2) e by (simp add: Suc_diff_le)
    with r(1) Some show ?thesis
      unfolding elems.simps tk dr stk
      by (intro forward_outcome_found [of f ops "drop (Suc ?m) (elems ?c)" k _ dim ?p "stk2 @ [e]"]) auto
  next
    case None
    let ?e = "e\<lparr>se_index := Suc ?i, se_position := ?p'\<rparr>"
    have r: "?loop = forward_loop dim f True ?p' (?e # rest)"
      using child None forward_step_ascend [OF e(1)] by (simp add: forward_outcome_def end_c)
    have p': "?p' = end_of dim pos (take (Suc ?i) ss)"
      using e(2,3) c d_add_summary [OF c(1,2)] by (simp add: take_Suc_conv_app_nth pos_at_def)
    have *: "forward_outcome ops dim f (ts ! i) p 0 p (elems (ts ! i)) rest
        (forward_loop dim f True p (\<lparr>se_tree = ts ! i, se_index = 0, se_position = p\<rparr> # rest))"
      if "i < length ts" "length rest + height (ts ! i) < STACK_CAPACITY" for i p rest
      using forward_fresh that Internal.prems(1,2) by (simp add: wf_Internal forest_def)
    have "forward_outcome ops dim f (Internal h s ss ts) pos (before ts (Suc ?i)) ?p' ?zs rest
        (forward_loop dim f True ?p' (?e # rest))"
      using forward_children [OF * Internal.prems(1,2), of rest ?e ?p' pos] e Internal.prems(4) p' by simp
    moreover have "before ts (Suc ?i) = Suc n + length (drop (Suc ?m) (elems ?c))"
      using e(2,4) m by (simp add: before_Suc)
    ultimately show ?thesis
      unfolding elems.simps tk dr stk
      using None r by (intro forward_outcome_skip) (simp_all add: end_c first_sat_None)
  qed
qed

lemma search_forward_correct:
  assumes wf: "wf_tree ops (c_tree c)" and cap: "height (c_tree c) < STACK_CAPACITY" and f: "conservative ops f"
  shows "cursor_fresh dim c \<or> cursor_before dim c \<Longrightarrow> \<exists>c'. search_forward dim f c = Some c' \<and> c_tree c' = c_tree c \<and>
      cursor_at ops dim c' (case first_sat (\<lambda>x. f (s_item ops x)) (elems (c_tree c)) of
        Some k \<Rightarrow> k | None \<Rightarrow> length (elems (c_tree c)))"
    and "cursor_at ops dim c n \<Longrightarrow> \<exists>c'. search_forward dim f c = Some c' \<and> c_tree c' = c_tree c \<and>
      cursor_at ops dim c' (case first_sat (\<lambda>x. f (s_item ops x)) (drop (Suc n) (elems (c_tree c))) of
        Some k \<Rightarrow> Suc n + k | None \<Rightarrow> length (elems (c_tree c)))"
proof -
  let ?xs = "elems (c_tree c)"
  let ?f = "\<lambda>x. f (s_item ops x)"
  show "\<exists>c'. search_forward dim f c = Some c' \<and> c_tree c' = c_tree c \<and>
      cursor_at ops dim c' (case first_sat ?f ?xs of Some k \<Rightarrow> k | None \<Rightarrow> length ?xs)"
    if "cursor_fresh dim c \<or> cursor_before dim c"
  proof (cases "c_at_end c")
    case True
    with that wf show ?thesis
      by (auto simp: cursor_fresh_def cursor_before_def search_forward_def wf_is_empty cursor_at_def)
  next
    case False
    let ?loop = "forward_loop dim f True (d_zero dim) [\<lparr>se_tree = c_tree c, se_index = 0, se_position = d_zero dim\<rparr>]"
    have c: "c_stack c = []" "c_position c = d_zero dim"
      using that by (auto simp: cursor_fresh_def cursor_before_def)
    have out: "forward_outcome ops dim f (c_tree c) (d_zero dim) 0 (d_zero dim) ?xs [] ?loop"
      using forward_fresh [OF wf f, of "[]" "d_zero dim"] cap by simp
    show ?thesis
    proof (cases "first_sat ?f ?xs")
      case None
      with out c False show ?thesis
        by (simp add: search_forward_def push_entry_def STACK_CAPACITY_def forward_outcome_def cursor_at_def)
    next
      case (Some k)
      with out obtain stk where "?loop = Some (pos_at ops dim (d_zero dim) (take k ?xs), stk, True)"
        "path_at dim (c_tree c) (d_zero dim) (rev stk) k" by (auto simp: forward_outcome_def)
      with Some first_sat_less [OF Some] c False show ?thesis
        by (simp add: search_forward_def push_entry_def STACK_CAPACITY_def cursor_at_def)
    qed
  qed
  show "\<exists>c'. search_forward dim f c = Some c' \<and> c_tree c' = c_tree c \<and>
      cursor_at ops dim c' (case first_sat ?f (drop (Suc n) ?xs) of
        Some k \<Rightarrow> Suc n + k | None \<Rightarrow> length ?xs)"
    if at: "cursor_at ops dim c n"
  proof (cases "n < length ?xs")
    case False
    with at show ?thesis by (auto simp: cursor_at_def search_forward_def)
  next
    case True
    with at have p: "path_at dim (c_tree c) (d_zero dim) (rev (c_stack c)) n" "c_stack c \<noteq> []"
      "\<not> c_at_end c" "c_did_seek c" "c_position c = pos_at ops dim (d_zero dim) (take n ?xs)"
      by (auto simp: cursor_at_def)
    have tk: "pos_at ops dim (pos_at ops dim d (take m ?xs)) (take k (drop m ?xs)) = pos_at ops dim d (take (m + k) ?xs)"
      "pos_at ops dim (pos_at ops dim d (take m ?xs)) (drop m ?xs) = pos_at ops dim d ?xs" for d m k
      by (simp_all add: take_add flip: pos_at_simps(3))
    let ?loop = "forward_loop dim f False (c_position c) (c_stack c)"
    have out: "forward_outcome ops dim f (c_tree c) (d_zero dim) (Suc n) (pos_at ops dim (d_zero dim) (take (Suc n) ?xs))
        (drop (Suc n) ?xs) [] ?loop"
      using forward_path [OF wf f p(1), of "[]"] cap p(5) by simp
    show ?thesis
    proof (cases "first_sat ?f (drop (Suc n) ?xs)")
      case None
      with out p show ?thesis
        by (simp add: search_forward_def forward_outcome_def cursor_at_def tk)
    next
      case (Some k)
      with out obtain stk where "?loop = Some (pos_at ops dim (d_zero dim) (take (Suc n + k) ?xs), stk, True)"
        "path_at dim (c_tree c) (d_zero dim) (rev stk) (Suc n + k)"
        unfolding forward_outcome_def by (auto simp: tk)
      with Some first_sat_less [OF Some] p show ?thesis
        by (auto simp: search_forward_def cursor_at_def)
    qed
  qed
qed

end


section \<open>One iteration of \<open>search_backward\<close>\<close>

definition start_of :: "('s, 'd) dimension \<Rightarrow> ('i, 's, 'd) stack_entry list \<Rightarrow> 'd" where
  "start_of dim rest = (case rest of p # _ \<Rightarrow> se_position p | [] \<Rightarrow> d_zero dim)"

lemma backward_step_pop:
  "se_index e = 0 \<Longrightarrow> backward_loop dim f False p (e # rest) = backward_loop dim f False (start_of dim rest) rest"
  by (simp add: backward_loop.simps(2) start_of_def)

lemma backward_step_descending:
  "backward_loop dim f True p (e # rest) = backward_loop dim f False p (e\<lparr>se_index := Suc (se_index e)\<rparr> # rest)"
  by (simp add: backward_loop.simps(2) Let_def)

lemma backward_position: "backward_loop dim f d p (e # rest) = backward_loop dim f d p' (e # rest)"
  by (simp add: backward_loop.simps(2))

lemma backward_step_reject:
  assumes "se_index e = Suc i" "i < length (child_summaries (se_tree e))" "\<not> f (child_summaries (se_tree e) ! i)"
    and "q = end_of dim (start_of dim rest) (take i (child_summaries (se_tree e)))"
  shows "backward_loop dim f False p (e # rest) =
    backward_loop dim f False q (e\<lparr>se_index := i, se_position := q\<rparr> # rest)"
  using assms by (simp add: backward_loop.simps(2) [where e = e] Let_def start_of_def end_of_def)

lemma backward_step_accept:
  assumes "se_tree e = Internal h s ss ts" "se_index e = Suc i" "i < length ss" "length ss = length ts" "f (ss ! i)"
    and "child_summaries (ts ! i) \<noteq> []" "Suc (length rest) < STACK_CAPACITY"
    and "q = end_of dim (start_of dim rest) (take i ss)"
  shows "backward_loop dim f False p (e # rest) = backward_loop dim f False q
    (\<lparr>se_tree = ts ! i, se_index = length (child_summaries (ts ! i)), se_position = d_zero dim\<rparr> #
     e\<lparr>se_index := i, se_position := q\<rparr> # rest)"
  using assms
  by (simp add: backward_loop.simps(2) [where e = e] Let_def start_of_def end_of_def backward_step_descending)

lemma backward_step_leaf:
  assumes "se_tree e = Leaf s xs ss" "se_index e = Suc i" "i < length ss" "f (ss ! i)"
    and "q = end_of dim (start_of dim rest) (take i ss)"
  shows "backward_loop dim f False p (e # rest) = Some (q, e\<lparr>se_index := i, se_position := q\<rparr> # rest)"
  using assms by (simp add: backward_loop.simps(2) Let_def start_of_def end_of_def)

text \<open>The outcome of a backward search among the first \<open>n\<close> items of \<open>t\<close>.\<close>

definition backward_outcome ::
  "('i, 's) summary_ops \<Rightarrow> ('s, 'd) dimension \<Rightarrow> ('s \<Rightarrow> bool) \<Rightarrow> ('i, 's) sum_tree \<Rightarrow> 'd \<Rightarrow> 'i list \<Rightarrow>
   ('i, 's, 'd) stack_entry list \<Rightarrow> ('d \<times> ('i, 's, 'd) stack_entry list) option \<Rightarrow> bool" where
  "backward_outcome ops dim f t pos ws rest res \<longleftrightarrow>
     (case last_sat (\<lambda>x. f (s_item ops x)) ws of
        Some k \<Rightarrow> \<exists>stk. res = Some (pos_at ops dim pos (take k ws), stk @ rest) \<and> path_at dim t pos (rev stk) k
      | None \<Rightarrow> res = backward_loop dim f False (start_of dim rest) rest)"

lemma backward_outcome_skip:
  assumes "backward_outcome ops dim f t pos ws rest res" "\<forall>x \<in> set xs. \<not> f (s_item ops x)"
  shows "backward_outcome ops dim f t pos (ws @ xs) rest res"
proof -
  have none: "last_sat (\<lambda>x. f (s_item ops x)) xs = None"
    using assms(2) by (simp add: last_sat_None)
  show ?thesis
  proof (cases "last_sat (\<lambda>x. f (s_item ops x)) ws")
    case (Some k)
    with assms(1) none last_sat_less [OF Some] show ?thesis
      by (auto simp: backward_outcome_def last_sat_append)
  qed (use assms(1) none in \<open>auto simp: backward_outcome_def last_sat_append\<close>)
qed

lemma backward_outcome_found:
  assumes "last_sat (\<lambda>x. f (s_item ops x)) xs = Some k"
    and "res = Some (pos_at ops dim (pos_at ops dim pos ws) (take k xs), stk @ rest)"
    and "path_at dim t pos (rev stk) (length ws + k)"
  shows "backward_outcome ops dim f t pos (ws @ xs) rest res"
  using assms by (auto simp: backward_outcome_def last_sat_append)

lemma backward_leaf:
  assumes "wf_tree ops (Leaf s xs ss)"
  shows "se_tree e = Leaf s xs ss \<Longrightarrow> se_index e = n \<Longrightarrow> n \<le> length xs \<Longrightarrow>
    backward_outcome ops dim f (Leaf s xs ss) (start_of dim rest) (take n xs) rest
      (backward_loop dim f False p (e # rest))"
proof (induction n arbitrary: e p)
  case 0
  then show ?case by (simp add: backward_outcome_def backward_step_pop)
next
  case (Suc n)
  have n: "n < length ss" "n < length xs" "ss ! n = s_item ops (xs ! n)"
    and tk: "take (Suc n) xs = take n xs @ [xs ! n]"
    using assms Suc.prems by (simp_all add: take_Suc_conv_app_nth)
  let ?q = "end_of dim (start_of dim rest) (take n ss)"
  have q: "?q = pos_at ops dim (start_of dim rest) (take n xs)"
    using assms by (simp add: pos_at_def take_map)
  show ?case
  proof (cases "f (ss ! n)")
    case True
    with n Suc.prems backward_step_leaf [of e s xs ss n f ?q] show ?thesis
      unfolding tk
      by (intro backward_outcome_found [of f ops "[xs ! n]" 0 _ dim _ _ "[e\<lparr>se_index := n, se_position := ?q\<rparr>]"])
        (simp_all add: q)
  next
    case False
    with n Suc.prems backward_step_reject [of e n f ?q dim rest p]
      Suc.IH [of "e\<lparr>se_index := n, se_position := ?q\<rparr>" ?q] show ?thesis
      unfolding tk by (intro backward_outcome_skip) simp_all
  qed
qed

context tree_dimension
begin

lemma backward_children:
  assumes "\<And>i rest p e. i < length ts \<Longrightarrow> length rest + height (ts ! i) < STACK_CAPACITY \<Longrightarrow>
      se_tree e = ts ! i \<Longrightarrow> se_index e = length (child_summaries (ts ! i)) \<Longrightarrow>
      backward_outcome ops dim f (ts ! i) (start_of dim rest) (elems (ts ! i)) rest
        (backward_loop dim f False p (e # rest))"
    and wf: "wf_tree ops (Internal h s ss ts)" and f: "conservative ops f"
    and cap: "length rest + h < STACK_CAPACITY"
  shows "se_tree e = Internal h s ss ts \<Longrightarrow> se_index e = n \<Longrightarrow> n \<le> length ts \<Longrightarrow>
    backward_outcome ops dim f (Internal h s ss ts) (start_of dim rest) (concat (map elems (take n ts))) rest
      (backward_loop dim f False p (e # rest))"
proof (induction n arbitrary: e p)
  case 0
  then show ?case by (simp add: backward_outcome_def backward_step_pop)
next
  case (Suc n)
  let ?c = "ts ! n"
  let ?ws = "concat (map elems (take n ts))"
  let ?q = "end_of dim (start_of dim rest) (take n ss)"
  let ?e = "e\<lparr>se_index := n, se_position := ?q\<rparr>"
  have n: "n < length ss" "n < length ts" "length ss = length ts" "ss ! n = summary ?c" "ss = map summary ts"
    and c: "wf_tree ops ?c" "elems ?c \<noteq> []" "Suc (height ?c) = h"
    and tk: "concat (map elems (take (Suc n) ts)) = ?ws @ elems ?c"
    using wf Suc.prems by (auto simp: wf_Internal forest_def take_Suc_conv_app_nth)
  have q: "?q = pos_at ops dim (start_of dim rest) ?ws"
    using forest_position [of h "take n ts"] forest_take_drop(1) [of ops h ts n] wf
    by (simp add: wf_Internal take_map)
  have before: "backward_outcome ops dim f (Internal h s ss ts) (start_of dim rest) ?ws rest
      (backward_loop dim f False ?q (?e # rest))"
    using Suc.IH [of ?e] Suc.prems by simp
  show ?case
  proof (cases "f (ss ! n)")
    case False
    have "\<forall>x \<in> set (elems ?c). \<not> f (s_item ops x)"
      using f False wf_summary [OF c(1)] n(4) by (auto simp: conservative_def)
    with False n Suc.prems before backward_step_reject [of e n f ?q dim rest p] show ?thesis
      unfolding tk by (intro backward_outcome_skip) simp_all
  next
    case True
    let ?top = "\<lparr>se_tree = ?c, se_index = length (child_summaries ?c), se_position = d_zero dim\<rparr>"
    have cs: "child_summaries ?c \<noteq> []"
      using c by (cases ?c) (auto simp: wf_Internal)
    have r: "backward_loop dim f False p (e # rest) = backward_loop dim f False ?q (?top # ?e # rest)"
      using Suc.prems(1,2) n(1,3) True cs cap c(3) by (intro backward_step_accept) auto
    have child: "backward_outcome ops dim f ?c ?q (elems ?c) (?e # rest) (backward_loop dim f False p (e # rest))"
      using assms(1) [of n "?e # rest" ?top ?q] n(2) cap c(3) by (simp add: r start_of_def)
    show ?thesis
    proof (cases "last_sat (\<lambda>x. f (s_item ops x)) (elems ?c)")
      case (Some k)
      with child obtain stk where k: "backward_loop dim f False p (e # rest) =
          Some (pos_at ops dim ?q (take k (elems ?c)), stk @ ?e # rest)" "path_at dim ?c ?q (rev stk) k"
        by (auto simp: backward_outcome_def)
      have "path_at dim (Internal h s ss ts) (start_of dim rest) (rev (stk @ [?e])) (length ?ws + k)"
        using k(2) n(2) Suc.prems(1) by (simp add: before_def)
      with Some k show ?thesis
        unfolding tk by (intro backward_outcome_found [of f ops "elems ?c" k _ dim _ ?ws "stk @ [?e]"]) (simp_all add: q)
    next
      case None
      with child before have "backward_outcome ops dim f (Internal h s ss ts) (start_of dim rest) ?ws rest
          (backward_loop dim f False p (e # rest))"
        by (simp add: backward_outcome_def start_of_def)
      with None show ?thesis unfolding tk by (intro backward_outcome_skip) (simp_all add: last_sat_None)
    qed
  qed
qed

lemma backward_fresh:
  "wf_tree ops t \<Longrightarrow> conservative ops f \<Longrightarrow> length rest + height t < STACK_CAPACITY \<Longrightarrow>
   se_tree e = t \<Longrightarrow> se_index e = length (child_summaries t) \<Longrightarrow>
   backward_outcome ops dim f t (start_of dim rest) (elems t) rest (backward_loop dim f False p (e # rest))"
proof (induction t arbitrary: p rest e)
  case (Leaf s xs ss)
  then show ?case using backward_leaf [OF Leaf.prems(1), of e "length xs"] by simp
next
  case (Internal h s ss ts)
  have *: "backward_outcome ops dim f (ts ! i) (start_of dim rest) (elems (ts ! i)) rest
        (backward_loop dim f False p (e # rest))"
    if "i < length ts" "length rest + height (ts ! i) < STACK_CAPACITY" "se_tree e = ts ! i"
      "se_index e = length (child_summaries (ts ! i))" for i rest p e
    using Internal.IH [of "ts ! i"] that Internal.prems by (simp add: wf_Internal forest_def)
  have "length ss = length ts" using Internal.prems(1) by (simp add: wf_Internal)
  then have n: "se_index e = length ts" "length rest + h < STACK_CAPACITY" using Internal.prems(3,5) by simp_all
  have "backward_outcome ops dim f (Internal h s ss ts) (start_of dim rest)
      (concat (map elems (take (length ts) ts))) rest (backward_loop dim f False p (e # rest))"
    by (rule backward_children [OF * Internal.prems(1,2) n(2) Internal.prems(4) n(1) order_refl])
  then show ?case by simp
qed

lemma backward_path:
  "wf_tree ops t \<Longrightarrow> conservative ops f \<Longrightarrow> path_at dim t (start_of dim rest) (rev stk) n \<Longrightarrow>
   length rest + height t < STACK_CAPACITY \<Longrightarrow>
   backward_outcome ops dim f t (start_of dim rest) (take n (elems t)) rest
     (backward_loop dim f False p (stk @ rest))"
proof (induction t arbitrary: stk n rest p)
  case (Leaf s xs ss)
  then obtain e where e: "stk = [e]" "se_tree e = Leaf s xs ss" "se_index e = n" "n < length xs"
    by (cases "rev stk") (auto simp: rev_eq_Cons_iff)
  with backward_leaf [OF Leaf.prems(1), of e n] show ?case by simp
next
  case (Internal h s ss ts)
  let ?xs = "concat (map elems ts)"
  obtain stk' e where stk: "stk = stk' @ [e]" using Internal.prems(3) by (cases stk rule: rev_cases) auto
  let ?i = "se_index e"
  let ?c = "ts ! ?i"
  let ?m = "n - before ts ?i"
  let ?q = "se_position e"
  let ?ws = "concat (map elems (take ?i ts))"
  have e: "se_tree e = Internal h s ss ts" "?i < length ts" "?q = end_of dim (start_of dim rest) (take ?i ss)"
    "before ts ?i \<le> n" "path_at dim ?c ?q (rev stk') ?m"
    using Internal.prems(3) by (auto simp: stk)
  have c: "wf_tree ops ?c" "Suc (height ?c) = h" "ss = map summary ts"
    using Internal.prems(1) e(2) by (auto simp: wf_Internal forest_def)
  have m: "?m < length (elems ?c)" using path_at_less [OF e(5)] .
  have "?xs = ?ws @ elems ?c @ concat (map elems (drop (Suc ?i) ts))"
    using concat_drop_Suc [OF e(2)] concat_map_take_drop by metis
  then have tk: "take n ?xs = ?ws @ take ?m (elems ?c)"
    using e(4) m by (simp add: before_def)
  have q: "?q = pos_at ops dim (start_of dim rest) ?ws"
    using forest_position forest_take_drop(1) [of ops h ts ?i] Internal.prems(1) e(3) c(3)
    by (simp add: wf_Internal take_map)
  let ?loop = "backward_loop dim f False p (stk' @ e # rest)"
  have child: "backward_outcome ops dim f ?c ?q (take ?m (elems ?c)) (e # rest) ?loop"
    using Internal.IH [of ?c "e # rest" stk' ?m p] c e(2,5) Internal.prems(2,4) by (simp add: start_of_def)
  show ?case
  proof (cases "last_sat (\<lambda>x. f (s_item ops x)) (take ?m (elems ?c))")
    case (Some k)
    with child obtain stk2 where k: "?loop = Some (pos_at ops dim ?q (take k (take ?m (elems ?c))), stk2 @ e # rest)"
      "path_at dim ?c ?q (rev stk2) k" by (auto simp: backward_outcome_def)
    have "path_at dim (Internal h s ss ts) (start_of dim rest) (rev (stk2 @ [e])) (length ?ws + k)"
      using k(2) e by (simp add: before_def)
    with Some k show ?thesis
      unfolding elems.simps tk stk q
      by (intro backward_outcome_found [of f ops "take ?m (elems ?c)" k _ dim _ ?ws "stk2 @ [e]"]) auto
  next
    case None
    have *: "backward_outcome ops dim f (ts ! i) (start_of dim rest) (elems (ts ! i)) rest
        (backward_loop dim f False p (e # rest))"
      if "i < length ts" "length rest + height (ts ! i) < STACK_CAPACITY" "se_tree e = ts ! i"
        "se_index e = length (child_summaries (ts ! i))" for i rest p e
      using backward_fresh that Internal.prems(1,2) by (simp add: wf_Internal forest_def)
    have cap: "length rest + h < STACK_CAPACITY" using Internal.prems(4) by simp
    have "?loop = backward_loop dim f False ?q (e # rest)"
      using child None by (simp add: backward_outcome_def start_of_def)
    then have "backward_outcome ops dim f (Internal h s ss ts) (start_of dim rest) ?ws rest ?loop"
      using backward_children [OF * Internal.prems(1,2) cap e(1) refl less_imp_le [OF e(2)], of ?q] by (simp only:)
    with None show ?thesis
      unfolding elems.simps tk stk by (intro backward_outcome_skip) (simp_all add: last_sat_None)
  qed
qed

lemma search_backward_correct:
  assumes wf: "wf_tree ops (c_tree c)" and cap: "height (c_tree c) < STACK_CAPACITY" and f: "conservative ops f"
    and at: "cursor_at ops dim c n \<or> cursor_fresh dim c \<and> n = length (elems (c_tree c))"
  shows "\<exists>c'. search_backward dim f c = Some c' \<and> c_tree c' = c_tree c \<and>
    (case last_sat (\<lambda>x. f (s_item ops x)) (take n (elems (c_tree c))) of
       Some k \<Rightarrow> cursor_at ops dim c' k
     | None \<Rightarrow> if elems (c_tree c) = [] then cursor_at ops dim c' 0 else cursor_before dim c')"
proof -
  let ?xs = "elems (c_tree c)"
  let ?f = "\<lambda>x. f (s_item ops x)"
  have search: ?thesis if st: "c_tree c2 = c_tree c" "c_did_seek c2" "\<not> c_at_end c2"
      "search_backward dim f c = do {
         (position, stack') \<leftarrow> backward_loop dim f False (c_position c2) (c_stack c2);
         Some (c2\<lparr>c_position := position, c_stack := stack'\<rparr>)
       }"
      "backward_outcome ops dim f (c_tree c) (d_zero dim) (take n ?xs) []
         (backward_loop dim f False (c_position c2) (c_stack c2))"
      "?xs \<noteq> []" for c2
  proof (cases "last_sat ?f (take n ?xs)")
    case None
    with st show ?thesis by (simp add: backward_outcome_def start_of_def cursor_before_def)
  next
    case (Some k)
    with st(5) obtain stk where "backward_loop dim f False (c_position c2) (c_stack c2) =
        Some (pos_at ops dim (d_zero dim) (take k (take n ?xs)), stk)" "path_at dim (c_tree c) (d_zero dim) (rev stk) k"
      by (auto simp: backward_outcome_def)
    moreover have "k < n" "k < length ?xs" using last_sat_less [OF Some] by simp_all
    ultimately show ?thesis using Some st(1-4) by (simp add: cursor_at_def min_absorb1)
  qed
  consider (empty) "?xs = []" | (inside) "n < length ?xs" | (finish) "?xs \<noteq> []" "n = length ?xs"
    using at by (cases "?xs = []") (auto simp: cursor_at_def)
  then show ?thesis
  proof cases
    case empty
    have "tree_is_empty (c_tree c)" using wf_is_empty [OF wf] empty by simp
    moreover have "c_stack c = []" "c_at_end c \<or> \<not> c_did_seek c"
      using at empty by (auto simp: cursor_at_def cursor_fresh_def)
    ultimately show ?thesis using empty by (simp add: search_backward_def cursor_at_def)
  next
    case inside
    with at have p: "path_at dim (c_tree c) (start_of dim []) (rev (c_stack c)) n" "c_did_seek c" "\<not> c_at_end c"
      by (auto simp: cursor_at_def start_of_def)
    from backward_path [OF wf f p(1), of "c_position c"] cap p inside
    show ?thesis
      by (intro search [of "c\<lparr>c_did_seek := True, c_at_end := False\<rparr>"]) (auto simp: search_backward_def start_of_def)
  next
    case finish
    let ?root = "\<lparr>se_tree = c_tree c, se_index = length (child_summaries (c_tree c)),
        se_position = d_from_summary dim (summary (c_tree c))\<rparr>"
    let ?c2 = "c\<lparr>c_did_seek := True, c_at_end := False, c_position := d_zero dim, c_stack := [?root]\<rparr>"
    have c: "c_stack c = []" "c_at_end c \<or> \<not> c_did_seek c" "\<not> tree_is_empty (c_tree c)"
      using at finish wf by (auto simp: cursor_at_def cursor_fresh_def wf_is_empty)
    from backward_fresh [OF wf f, of "[]" ?root "d_zero dim"] cap finish c show ?thesis
      by (intro search [of ?c2]) (auto simp: search_backward_def start_of_def push_entry_def STACK_CAPACITY_def)
  qed
qed

end

end
