(* ===== verification/KeyedTree.thy ===== *)
theory KeyedTree
  imports Cursor_Walk
begin

text \<open>
  The operations of \<open>sum_tree.rs\<close> on trees of keyed items (\<open>impl<T: KeyedItem> SumTree<T>\<close>):
  \<open>insert_or_replace\<close>, \<open>remove\<close>, \<open>edit\<close> and \<open>get\<close>, and that on trees sorted by key they implement a
  finite map. The key type is a dimension of the summary and its seek target is \<open>Ord::cmp\<close>;
  what the key of an item has to do with the summary is the locale \<open>keyed_tree\<close>.
\<close>

section \<open>Operations\<close>

datatype ('i, 'k) edit = Insert 'i | Remove 'k

fun edit_key :: "('i \<Rightarrow> 'k) \<Rightarrow> ('i, 'k) edit \<Rightarrow> 'k" where
  "edit_key key (Insert x) = key x"
| "edit_key key (Remove k) = k"

text \<open>Step over the item under the cursor when its key is \<open>k\<close>.\<close>

definition take_matching ::
  "('s, 'k) dimension \<Rightarrow> ('i \<Rightarrow> 'k) \<Rightarrow> 'k \<Rightarrow> 'i option \<Rightarrow> ('i, 's, 'k) cursor \<Rightarrow>
   ('i option \<times> ('i, 's, 'k) cursor) option" where
  "take_matching kdim key k item c =
     (case item of
        Some x \<Rightarrow> if key x = k then do { c' \<leftarrow> cursor_next kdim c; Some (Some x, c') } else Some (None, c)
      | None \<Rightarrow> Some (None, c))"

definition tree_insert_or_replace ::
  "('i, 's) summary_ops \<Rightarrow> ('s, 'k::linorder) dimension \<Rightarrow> ('i \<Rightarrow> 'k) \<Rightarrow> ('i, 's) sum_tree \<Rightarrow> 'i \<Rightarrow>
   (('i, 's) sum_tree \<times> 'i option) option" where
  "tree_insert_or_replace ops kdim key t x = do {
     (c1, t1) \<leftarrow> cursor_slice ops kdim (ord_cmp (key x)) Left (cursor_new kdim t);
     item \<leftarrow> cursor_item c1;
     (replaced, c2) \<leftarrow> take_matching kdim key (key x) item c1;
     t2 \<leftarrow> tree_push ops t1 x;
     (c3, suffix) \<leftarrow> cursor_suffix ops kdim c2;
     t3 \<leftarrow> tree_append ops t2 suffix;
     Some (t3, replaced)
   }"

definition tree_remove ::
  "('i, 's) summary_ops \<Rightarrow> ('s, 'k::linorder) dimension \<Rightarrow> ('i \<Rightarrow> 'k) \<Rightarrow> ('i, 's) sum_tree \<Rightarrow> 'k \<Rightarrow>
   (('i, 's) sum_tree \<times> 'i option) option" where
  "tree_remove ops kdim key t k = do {
     (c1, t1) \<leftarrow> cursor_slice ops kdim (ord_cmp k) Left (cursor_new kdim t);
     item \<leftarrow> cursor_item c1;
     (removed, c2) \<leftarrow> take_matching kdim key k item c1;
     (c3, suffix) \<leftarrow> cursor_suffix ops kdim c2;
     t2 \<leftarrow> tree_append ops t1 suffix;
     Some (t2, removed)
   }"

text \<open>The loop of \<open>edit\<close>: one pass of the cursor over the tree, the edits in key order.\<close>

fun edit_loop ::
  "('i, 's) summary_ops \<Rightarrow> ('s, 'k::linorder) dimension \<Rightarrow> ('i \<Rightarrow> 'k) \<Rightarrow> ('i, 'k) edit list \<Rightarrow>
   ('i, 's, 'k) cursor \<Rightarrow> ('i, 's) sum_tree \<Rightarrow> 'i list \<Rightarrow> 'i list \<Rightarrow>
   (('i, 's, 'k) cursor \<times> ('i, 's) sum_tree \<times> 'i list \<times> 'i list) option" where
  "edit_loop ops kdim key [] c new_tree buffered_items removed = Some (c, new_tree, buffered_items, removed)"
| "edit_loop ops kdim key (edit # edits) c new_tree buffered_items removed = do {
     let new_key = edit_key key edit;
     old_item \<leftarrow> cursor_item c;
     (old_item', c1, t1, buf) \<leftarrow>
       (if (case old_item of Some x \<Rightarrow> key x < new_key | None \<Rightarrow> False)
        then do {
          t \<leftarrow> tree_extend ops new_tree buffered_items;
          (c', slice) \<leftarrow> cursor_slice ops kdim (ord_cmp new_key) Left c;
          t' \<leftarrow> tree_append ops t slice;
          it \<leftarrow> cursor_item c';
          Some (it, c', t', [])
        }
        else Some (old_item, c, new_tree, buffered_items));
     (hit, c2) \<leftarrow> take_matching kdim key new_key old_item' c1;
     edit_loop ops kdim key edits c2 t1
       (case edit of Insert item \<Rightarrow> buf @ [item] | Remove _ \<Rightarrow> buf)
       (removed @ (case hit of Some x \<Rightarrow> [x] | None \<Rightarrow> []))
   }"

text \<open>
  \<open>edit\<close>. The code sorts with \<open>sort_unstable_by_key\<close>, which may leave edits with equal keys in any order; the stable sort here is
  one of these orders. The theorems about maps that rest on \<open>edit\<close> are stated for edits with distinct keys, where the result does not
  depend on it.
\<close>

definition tree_edit ::
  "('i, 's) summary_ops \<Rightarrow> ('s, 'k::linorder) dimension \<Rightarrow> ('i \<Rightarrow> 'k) \<Rightarrow> ('i, 's) sum_tree \<Rightarrow> ('i, 'k) edit list \<Rightarrow>
   (('i, 's) sum_tree \<times> 'i list) option" where
  "tree_edit ops kdim key t edits =
     (if edits = [] then Some (t, [])
      else do {
        (c, _) \<leftarrow> cursor_seek kdim (ord_cmp (d_zero kdim)) Left (cursor_new kdim t);
        (c', new_tree, buffered_items, removed) \<leftarrow>
          edit_loop ops kdim key (sort_key (edit_key key) edits) c (tree_new ops) [] [];
        t1 \<leftarrow> tree_extend ops new_tree buffered_items;
        (c'', suffix) \<leftarrow> cursor_suffix ops kdim c';
        t2 \<leftarrow> tree_append ops t1 suffix;
        Some (t2, removed)
      })"

definition tree_get :: "('s, 'k::linorder) dimension \<Rightarrow> ('i, 's) sum_tree \<Rightarrow> 'k \<Rightarrow> 'i option" where
  "tree_get kdim t k = snd (snd (find_exact kdim (ord_cmp k) Left t))"

section \<open>Sequences sorted by key\<close>

definition sorted_keys :: "('i \<Rightarrow> 'k::linorder) \<Rightarrow> 'i list \<Rightarrow> bool" where
  "sorted_keys key xs \<longleftrightarrow> sorted_wrt (\<lambda>x y. key x < key y) xs"

definition lookup :: "('i \<Rightarrow> 'k) \<Rightarrow> 'i list \<Rightarrow> 'k \<rightharpoonup> 'i" where
  "lookup key xs = map_of (map (\<lambda>x. (key x, x)) xs)"

definition below :: "('i \<Rightarrow> 'k::linorder) \<Rightarrow> 'k \<Rightarrow> 'i list \<Rightarrow> 'i list" where
  "below key k xs = takeWhile (\<lambda>x. key x < k) xs"

definition not_below :: "('i \<Rightarrow> 'k::linorder) \<Rightarrow> 'k \<Rightarrow> 'i list \<Rightarrow> 'i list" where
  "not_below key k xs = dropWhile (\<lambda>x. key x < k) xs"

definition beyond :: "('i \<Rightarrow> 'k::linorder) \<Rightarrow> 'k \<Rightarrow> 'i list \<Rightarrow> 'i list" where
  "beyond key k xs = dropWhile (\<lambda>x. key x \<le> k) xs"

lemma sorted_keys_simps [simp]:
  "sorted_keys key []"
  "sorted_keys key (x # xs) \<longleftrightarrow> (\<forall>y \<in> set xs. key x < key y) \<and> sorted_keys key xs"
  "sorted_keys key (xs @ ys) \<longleftrightarrow> sorted_keys key xs \<and> sorted_keys key ys \<and> (\<forall>x \<in> set xs. \<forall>y \<in> set ys. key x < key y)"
  by (auto simp: sorted_keys_def sorted_wrt_append)

lemma sorted_keys_take_drop:
  "sorted_keys key xs \<Longrightarrow> sorted_keys key (take n xs)"
  "sorted_keys key xs \<Longrightarrow> sorted_keys key (drop n xs)"
  by (simp_all add: sorted_keys_def sorted_wrt_take sorted_wrt_drop)

lemma lookup_simps [simp]:
  "lookup key [] = Map.empty"
  "lookup key (x # xs) = (lookup key xs)(key x \<mapsto> x)"
  "lookup key (xs @ ys) = lookup key ys ++ lookup key xs"
  by (simp_all add: lookup_def)

lemma lookup_None: "lookup key xs k = None \<longleftrightarrow> k \<notin> key ` set xs"
  by (auto simp: lookup_def map_of_eq_None_iff image_image)

lemma lookup_dom: "dom (lookup key xs) = key ` set xs"
  using lookup_None [of key xs] by (auto simp: dom_def)

lemma lookup_Some:
  "sorted_keys key xs \<Longrightarrow> lookup key xs k = Some x \<longleftrightarrow> x \<in> set xs \<and> key x = k"
  by (induction xs) auto

lemma below_not_below: "below key k xs @ not_below key k xs = xs"
  by (simp add: below_def not_below_def)

lemma take_below: "take (length (below key k xs)) xs = below key k xs"
  by (simp add: below_def flip: takeWhile_eq_take)

lemma drop_below: "drop (length (below key k xs)) xs = not_below key k xs"
  by (simp add: below_def not_below_def flip: dropWhile_eq_drop)

lemma set_below: "x \<in> set (below key k xs) \<Longrightarrow> x \<in> set xs \<and> key x < k"
  by (auto simp: below_def dest: set_takeWhileD)

lemma set_not_below: "sorted_keys key xs \<Longrightarrow> x \<in> set (not_below key k xs) \<Longrightarrow> x \<in> set xs \<and> k \<le> key x"
  by (induction xs) (fastforce simp: not_below_def split: if_splits)+

lemma set_beyond: "sorted_keys key xs \<Longrightarrow> x \<in> set (beyond key k xs) \<Longrightarrow> x \<in> set xs \<and> k < key x"
  by (induction xs) (fastforce simp: beyond_def split: if_splits)+

lemma beyond_eq:
  "sorted_keys key xs \<Longrightarrow> beyond key k xs =
    (case not_below key k xs of [] \<Rightarrow> [] | y # ys \<Rightarrow> if key y = k then ys else y # ys)"
proof (induction xs)
  case (Cons x xs)
  show ?case
  proof (cases "key x" k rule: linorder_cases)
    case equal
    with Cons.prems have "beyond key k xs = xs" by (cases xs) (auto simp: beyond_def)
    with equal show ?thesis by (simp add: beyond_def not_below_def)
  qed (use Cons in \<open>auto simp: beyond_def not_below_def\<close>)
qed (simp add: beyond_def not_below_def)

lemma sorted_keys_below_beyond:
  assumes "sorted_keys key xs"
  shows "sorted_keys key (below key k xs)" "sorted_keys key (beyond key k xs)" "sorted_keys key (not_below key k xs)"
proof -
  show "sorted_keys key (below key k xs)"
    using sorted_keys_take_drop(1) [OF assms] by (metis take_below)
  show "sorted_keys key (not_below key k xs)"
    using sorted_keys_take_drop(2) [OF assms] by (metis drop_below)
  then show "sorted_keys key (beyond key k xs)"
    by (auto simp: beyond_eq [OF assms] split: list.splits)
qed

lemma lookup_not_below:
  "sorted_keys key xs \<Longrightarrow> lookup key xs k = (case not_below key k xs of [] \<Rightarrow> None | y # ys \<Rightarrow> if key y = k then Some y else None)"
proof (induction xs)
  case (Cons x xs)
  show ?case
  proof (cases "key x" k rule: linorder_cases)
    case greater
    with Cons.prems have "k \<notin> key ` set xs" by auto
    with greater show ?thesis by (auto simp: not_below_def lookup_None)
  qed (use Cons in \<open>auto simp: not_below_def\<close>)
qed (simp add: not_below_def)

text \<open>Replacing the part of a sorted sequence at key \<open>k\<close> is an update of the map.\<close>

lemma lookup_eqI:
  assumes "sorted_keys key xs" "sorted_keys key ys" "\<And>x. key x = k \<Longrightarrow> x \<in> set xs \<longleftrightarrow> x \<in> set ys"
  shows "lookup key xs k = lookup key ys k"
proof (cases "lookup key ys k")
  case None
  with assms(3) have "k \<notin> key ` set xs" by (auto simp: lookup_None)
  then have "lookup key xs k = None" by (simp add: lookup_None)
  with None show ?thesis by simp
next
  case (Some y)
  with assms show ?thesis by (metis lookup_Some)
qed

lemma set_below_beyond:
  assumes "sorted_keys key xs" "key x \<noteq> k"
  shows "x \<in> set (below key k xs) \<or> x \<in> set (beyond key k xs) \<longleftrightarrow> x \<in> set xs"
proof -
  have "x \<in> set xs \<longleftrightarrow> x \<in> set (below key k xs) \<or> x \<in> set (not_below key k xs)"
    using below_not_below [of key k xs] by (metis Un_iff set_append)
  with assms(2) beyond_eq [OF assms(1), of k] show ?thesis
    by (auto split: list.splits if_splits)
qed

lemma sorted_below_beyond:
  "sorted_keys key xs \<Longrightarrow> sorted_keys key (below key k xs @ beyond key k xs)"
  using sorted_keys_below_beyond set_below set_beyond by fastforce

lemma lookup_split:
  assumes "sorted_keys key xs"
  shows "lookup key (below key k xs @ beyond key k xs) = (lookup key xs)(k := None)"
proof (rule ext)
  fix j
  show "lookup key (below key k xs @ beyond key k xs) j = ((lookup key xs)(k := None)) j"
  proof (cases "j = k")
    case True
    have "k \<notin> key ` set (below key k xs @ beyond key k xs)"
      using set_below set_beyond [OF assms] by fastforce
    with True show ?thesis by (simp add: lookup_None del: lookup_simps)
  next
    case False
    have "lookup key (below key k xs @ beyond key k xs) j = lookup key xs j"
      using False set_below_beyond [OF assms]
      by (intro lookup_eqI [OF sorted_below_beyond [OF assms] assms]) auto
    with False show ?thesis by simp
  qed
qed

lemma below_not_below_Nil [simp]: "below key k (not_below key k xs) = []"
  by (induction xs) (auto simp: below_def not_below_def)

lemma not_below_idem [simp]: "not_below key k (not_below key k xs) = not_below key k xs"
  by (induction xs) (auto simp: not_below_def)

lemma not_below_same:
  assumes "sorted_keys key xs"
  shows "lookup key (not_below key k xs) k = lookup key xs k"
    and "beyond key k (not_below key k xs) = beyond key k xs"
  using lookup_not_below [OF assms, of k] lookup_not_below [OF sorted_keys_below_beyond(3) [OF assms], of k k]
    beyond_eq [OF assms, of k] beyond_eq [OF sorted_keys_below_beyond(3) [OF assms], of k k]
  by simp_all

subsection \<open>Edits on a sorted sequence\<close>

text \<open>The sequence and the removed items that one pass of sorted edits produces.\<close>

definition edit_value :: "('i, 'k) edit \<Rightarrow> 'i option" where
  "edit_value e = (case e of Insert x \<Rightarrow> Some x | Remove _ \<Rightarrow> None)"

fun merge_edits :: "('i \<Rightarrow> 'k::linorder) \<Rightarrow> 'i list \<Rightarrow> ('i, 'k) edit list \<Rightarrow> 'i list" where
  "merge_edits key xs [] = xs"
| "merge_edits key xs (e # es) =
     below key (edit_key key e) xs @ (case edit_value e of Some x \<Rightarrow> [x] | None \<Rightarrow> []) @
     merge_edits key (beyond key (edit_key key e) xs) es"

fun merge_removed :: "('i \<Rightarrow> 'k::linorder) \<Rightarrow> 'i list \<Rightarrow> ('i, 'k) edit list \<Rightarrow> 'i list" where
  "merge_removed key xs [] = []"
| "merge_removed key xs (e # es) =
     (case lookup key xs (edit_key key e) of Some x \<Rightarrow> [x] | None \<Rightarrow> []) @
     merge_removed key (beyond key (edit_key key e) xs) es"

text \<open>The map after a batch of edits with distinct keys: what the edit of a key says, if there is one.\<close>

definition edited :: "('i \<Rightarrow> 'k) \<Rightarrow> ('i, 'k) edit list \<Rightarrow> ('k \<rightharpoonup> 'i) \<Rightarrow> 'k \<rightharpoonup> 'i" where
  "edited key es m k =
     (case map_of (map (\<lambda>e. (edit_key key e, edit_value e)) es) k of Some r \<Rightarrow> r | None \<Rightarrow> m k)"

lemma edit_value_key: "edit_value e = Some x \<Longrightarrow> edit_key key e = key x"
  by (cases e) (auto simp: edit_value_def)

lemma edit_value_key': "Some x = edit_value e \<Longrightarrow> key x = edit_key key e"
  by (cases e) (auto simp: edit_value_def)

lemma edited_simps:
  "edited key [] m = m"
  "edit_key key e \<notin> edit_key key ` set es \<Longrightarrow>
     edited key (e # es) m = edited key es (m(edit_key key e := edit_value e))"
proof -
  show "edited key [] m = m" by (rule ext) (simp add: edited_def)
  assume "edit_key key e \<notin> edit_key key ` set es"
  then have "map_of (map (\<lambda>e. (edit_key key e, edit_value e)) es) (edit_key key e) = None"
    by (auto simp: map_of_eq_None_iff image_image)
  then show "edited key (e # es) m = edited key es (m(edit_key key e := edit_value e))"
    by (intro ext) (auto simp: edited_def split: option.splits)
qed

lemma edited_perm:
  assumes "distinct (map (edit_key key) es)" "distinct (map (edit_key key) es')" "set es = set es'"
  shows "edited key es m = edited key es' m"
proof -
  have "map_of (map (\<lambda>e. (edit_key key e, edit_value e)) es) = map_of (map (\<lambda>e. (edit_key key e, edit_value e)) es')"
    using assms by (subst map_of_inject_set) (simp_all add: comp_def)
  then show ?thesis by (intro ext) (simp add: edited_def)
qed

lemma edited_map_add:
  "(\<forall>k \<in> dom m'. k \<notin> edit_key key ` set es) \<Longrightarrow> edited key es m ++ m' = edited key es (m ++ m')"
proof (rule ext)
  fix k
  assume a: "\<forall>k \<in> dom m'. k \<notin> edit_key key ` set es"
  show "(edited key es m ++ m') k = edited key es (m ++ m') k"
  proof (cases "m' k")
    case (Some x)
    with a have "map_of (map (\<lambda>e. (edit_key key e, edit_value e)) es) k = None"
      by (auto simp: map_of_eq_None_iff image_image)
    with Some show ?thesis by (simp add: edited_def map_add_Some_iff)
  qed (simp add: edited_def map_add_def split: option.splits)
qed

lemma merge_edits_keys:
  "x \<in> set (merge_edits key xs es) \<Longrightarrow> x \<in> set xs \<or> key x \<in> edit_key key ` set es"
  by (induction xs es rule: merge_edits.induct [of _ key])
    (auto simp: below_def beyond_def split: option.splits
      dest: set_takeWhileD set_dropWhileD intro: edit_value_key')

lemma merge_edits_correct:
  "sorted_keys key xs \<Longrightarrow> sorted_wrt (<) (map (edit_key key) es) \<Longrightarrow>
   sorted_keys key (merge_edits key xs es) \<and> lookup key (merge_edits key xs es) = edited key es (lookup key xs)"
proof (induction es arbitrary: xs)
  case Nil
  then show ?case by (simp add: edited_simps)
next
  case (Cons e es)
  let ?k = "edit_key key e"
  let ?v = "case edit_value e of Some x \<Rightarrow> [x] | None \<Rightarrow> []"
  let ?m = "merge_edits key (beyond key ?k xs) es"
  have fresh: "?k \<notin> edit_key key ` set es" using Cons.prems(2) by auto
  have IH: "sorted_keys key ?m" "lookup key ?m = edited key es (lookup key (beyond key ?k xs))"
    using Cons.IH [OF sorted_keys_below_beyond(2) [OF Cons.prems(1)]] Cons.prems(2) by auto
  have gt: "x \<in> set ?m \<Longrightarrow> ?k < key x" for x
    using merge_edits_keys [of x key "beyond key ?k xs" es] set_beyond [OF Cons.prems(1)] Cons.prems(2) by auto
  have v: "x \<in> set ?v \<Longrightarrow> key x = ?k" for x
    by (auto split: option.splits intro: edit_value_key')
  have "lookup key (merge_edits key xs (e # es)) =
      edited key es (lookup key (beyond key ?k xs)) ++ (lookup key ?v ++ lookup key (below key ?k xs))"
    by (simp add: IH map_add_assoc)
  also have "\<dots> = edited key es (lookup key (beyond key ?k xs) ++ (lookup key ?v ++ lookup key (below key ?k xs)))"
  proof (rule edited_map_add, intro ballI)
    fix j
    assume "j \<in> dom (lookup key ?v ++ lookup key (below key ?k xs))"
    then have "j \<in> key ` set ?v \<or> j \<in> key ` set (below key ?k xs)" by (simp add: lookup_dom disj_commute)
    then have "j \<le> ?k" using v set_below [of _ key ?k xs] by (auto simp: less_imp_le)
    then show "j \<notin> edit_key key ` set es" using Cons.prems(2) by auto
  qed
  also have "lookup key (beyond key ?k xs) ++ (lookup key ?v ++ lookup key (below key ?k xs)) =
      (lookup key xs)(?k := edit_value e)"
  proof -
    have k: "?k \<notin> dom (lookup key (below key ?k xs))"
      unfolding lookup_dom by (auto dest: set_below)
    have split: "lookup key (beyond key ?k xs) ++ lookup key (below key ?k xs) = (lookup key xs)(?k := None)"
      using lookup_split [OF Cons.prems(1), of ?k] by simp
    show ?thesis
    proof (cases "edit_value e")
      case (Some x)
      then have "lookup key ?v = [?k \<mapsto> x]" by (simp add: edit_value_key)
      with Some split k show ?thesis by (simp add: map_add_assoc map_add_upd_left)
    qed (use split in simp)
  qed
  finally have "lookup key (merge_edits key xs (e # es)) = edited key (e # es) (lookup key xs)"
    by (simp only: edited_simps(2) [OF fresh])
  moreover have "sorted_keys key (merge_edits key xs (e # es))"
    using IH(1) gt v sorted_keys_below_beyond(1) [OF Cons.prems(1)] set_below [of _ key ?k xs]
    by (fastforce split: option.splits)
  ultimately show ?case by blast
qed

section \<open>The cursor on a sorted tree\<close>

context tree_dimension
begin

lemma slice_correct:
  assumes "wf_tree ops (c_tree c)" "height (c_tree c) < STACK_CAPACITY" "cursor_ready ops dim c n"
    and "is_ge (target (c_position c))"
    and "mono_target target (item_ends ops dim (c_position c) (drop n (elems (c_tree c))))"
    and "k = stop_at ops dim target bias (c_position c) (drop n (elems (c_tree c)))"
  shows "\<exists>c' t. cursor_slice ops dim target bias c = Some (c', t) \<and> c_tree c' = c_tree c \<and>
    cursor_at ops dim c' (n + k) \<and> wf_tree ops t \<and> elems t = take k (drop n (elems (c_tree c)))"
proof -
  have "slice_got ops \<lparr>sa_tree = tree_new ops, sa_leaf_items = [], sa_leaf_item_summaries = [],
      sa_leaf_summary = s_zero ops\<rparr> [] []"
    by (simp add: slice_got_def item_sum_def sum_of_def)
  from slice.seek_internal_correct [OF assms(1-5) this assms(6)] show ?thesis
    by (auto simp: cursor_slice_def slice_got_def)
qed

lemma seek_correct:
  assumes "wf_tree ops (c_tree c)" "height (c_tree c) < STACK_CAPACITY" "is_ge (target (d_zero dim))"
    and "mono_target target (item_ends ops dim (d_zero dim) (elems (c_tree c)))"
    and "k = stop_at ops dim target bias (d_zero dim) (elems (c_tree c))"
  shows "\<exists>c'. cursor_seek dim target bias c = Some (c',
       target (pos_at ops dim (d_zero dim) (take (if bias = Left then Suc k else k) (elems (c_tree c)))) = Equal) \<and>
    c_tree c' = c_tree c \<and> cursor_at ops dim c' k"
proof -
  have r: "cursor_ready ops dim (cursor_reset dim c) 0" "c_position (cursor_reset dim c) = d_zero dim"
    by (simp add: cursor_ready_def) (simp add: cursor_reset_def)
  from unit.seek_internal_correct [where c = "cursor_reset dim c" and n = 0 and target = target and
      a = "()" and k = k and bias = bias] r assms show ?thesis
    by (auto simp: cursor_seek_def)
qed

lemma suffix_correct:
  assumes "wf_tree ops (c_tree c)" "height (c_tree c) < STACK_CAPACITY" "cursor_ready ops dim c n"
  shows "\<exists>c' t. cursor_suffix ops dim c = Some (c', t) \<and> wf_tree ops t \<and> elems t = drop n (elems (c_tree c))"
proof -
  have stop: "stop_at ops dim End_target Right p zs = length zs" for p zs
    by (induction zs arbitrary: p) (auto simp: stop_at_Cons past_end_def End_target_def)
  have "mono_target End_target ds" for ds :: "'d list"
    by (induction ds) (auto simp: mono_target_def End_target_def)
  with slice_correct [OF assms, of End_target _ Right] stop show ?thesis
    by (auto simp: cursor_suffix_def is_ge_def End_target_def)
qed

lemma next_correct:
  assumes "wf_tree ops (c_tree c)" "height (c_tree c) < STACK_CAPACITY" "cursor_at ops dim c n"
    and "n < length (elems (c_tree c))"
  shows "\<exists>c'. cursor_next dim c = Some c' \<and> c_tree c' = c_tree c \<and> cursor_at ops dim c' (Suc n)"
proof (cases "Suc n < length (elems (c_tree c))")
  case False
  with assms(4) have "Suc n = length (elems (c_tree c))" by simp
  with search_forward_correct(2) [OF assms(1,2) conservative_True assms(3)] show ?thesis
    by (simp add: cursor_next_def)
qed (use search_forward_correct(2) [OF assms(1,2) conservative_True assms(3)] in \<open>simp add: cursor_next_def\<close>)

end

context output_dimension
begin

lemma cursor_sum:
  assumes "wf_tree ops (c_tree c)" "height (c_tree c) < STACK_CAPACITY" "cursor_ready ops dim c n"
    and "is_ge (target (c_position c))"
    and "mono_target target (item_ends ops dim (c_position c) (drop n (elems (c_tree c))))"
    and "k = stop_at ops dim target bias (c_position c) (drop n (elems (c_tree c)))"
  shows "\<exists>c'. cursor_summary out dim target bias c =
      Some (c', pos_at ops out (d_zero out) (take k (drop n (elems (c_tree c))))) \<and> cursor_at ops dim c' (n + k)"
  using summary.seek_internal_correct [OF assms(1-5) _ assms(6), of "d_zero out"]
  by (auto simp: cursor_summary_def)

end

locale keyed_tree = tree_dimension ops kdim
  for ops :: "('i, 's) summary_ops" and kdim :: "('s, 'k::linorder) dimension" +
  fixes key :: "'i \<Rightarrow> 'k"
  assumes key_end: "d \<le> key x \<Longrightarrow> d_add kdim d (s_item ops x) = key x"
    and zero_least: "d_zero kdim \<le> key x"
begin

lemma keyed_ends:
  "sorted_keys key xs \<Longrightarrow> (\<forall>x \<in> set xs. d \<le> key x) \<Longrightarrow> item_ends ops kdim d xs = map key xs"
  by (induction xs arbitrary: d) (auto simp: item_ends_def key_end less_imp_le)

lemma keyed_position:
  "sorted_keys key xs \<Longrightarrow> (\<forall>x \<in> set xs. d \<le> key x) \<Longrightarrow>
   pos_at ops kdim d xs = (if xs = [] then d else key (last xs))"
  by (induction xs arbitrary: d) (auto simp: key_end less_imp_le)

lemma keyed_mono: "sorted_keys key xs \<Longrightarrow> mono_target (ord_cmp k) (map key xs)"
  by (induction xs) (auto simp: mono_target_def ord_cmp_def)

lemma position_below_rest:
  assumes "sorted_keys key xs" "x \<in> set (drop n xs)"
  shows "pos_at ops kdim (d_zero kdim) (take n xs) \<le> key x"
proof -
  have s: "sorted_keys key (take n xs @ drop n xs)" using assms(1) by simp
  then have "sorted_keys key (take n xs)" "\<forall>y \<in> set (take n xs). key y < key x"
    using assms(2) by (simp_all del: append_take_drop_id)
  then show ?thesis
    using keyed_position [of "take n xs" "d_zero kdim"] zero_least
    by (cases "take n xs = []") (auto simp: less_imp_le)
qed

text \<open>From index \<open>n\<close> on, seeking for \<open>k\<close> passes over the items with smaller keys.\<close>

lemma keyed_stop:
  assumes "sorted_keys key xs" "p = pos_at ops kdim (d_zero kdim) (take n xs)"
  shows "mono_target (ord_cmp k) (item_ends ops kdim p (drop n xs))"
    and "stop_at ops kdim (ord_cmp k) Left p (drop n xs) = length (below key k (drop n xs))"
    and "stop_at ops kdim (ord_cmp k) Right p (drop n xs) = length (takeWhile (\<lambda>x. key x \<le> k) (drop n xs))"
proof -
  have e: "item_ends ops kdim p (drop n xs) = map key (drop n xs)"
    using keyed_ends [OF sorted_keys_take_drop(2) [OF assms(1)]] position_below_rest [OF assms(1)] assms(2) by blast
  show "mono_target (ord_cmp k) (item_ends ops kdim p (drop n xs))"
    unfolding e by (rule keyed_mono [OF sorted_keys_take_drop(2) [OF assms(1)]])
  show "stop_at ops kdim (ord_cmp k) Left p (drop n xs) = length (below key k (drop n xs))"
    using e by (simp add: stop_at_def item_ends_def takeWhile_map below_def past_end_def comp_def)
  have "past_end (ord_cmp k) Right = (\<lambda>d. d \<le> k)"
    by (rule ext) (auto simp: past_end_def)
  with e show "stop_at ops kdim (ord_cmp k) Right p (drop n xs) = length (takeWhile (\<lambda>x. key x \<le> k) (drop n xs))"
    by (simp add: stop_at_def item_ends_def takeWhile_map comp_def)
qed

lemma keyed_slice:
  assumes "wf_tree ops (c_tree c)" "height (c_tree c) < STACK_CAPACITY" "cursor_ready ops kdim c n"
    and "sorted_keys key (elems (c_tree c))" "c_position c \<le> k"
  shows "\<exists>c' t. cursor_slice ops kdim (ord_cmp k) Left c = Some (c', t) \<and> c_tree c' = c_tree c \<and>
    cursor_at ops kdim c' (n + length (below key k (drop n (elems (c_tree c))))) \<and>
    wf_tree ops t \<and> elems t = below key k (drop n (elems (c_tree c)))"
proof -
  note p = cursor_ready_position [OF assms(3)]
  have "is_ge (ord_cmp k (c_position c))" using assms(5) by (simp add: is_ge_def not_less)
  from slice_correct [OF assms(1-3) this keyed_stop(1) [OF assms(4) p] refl, of Left]
    keyed_stop(2) [OF assms(4) p, of k] show ?thesis
    by (simp add: take_below)
qed

text \<open>\<open>take_matching\<close> at the first item that is not below \<open>k\<close>.\<close>

lemma take_matching_correct:
  assumes "wf_tree ops (c_tree c)" "height (c_tree c) < STACK_CAPACITY" "cursor_at ops kdim c n"
    and "sorted_keys key (elems (c_tree c))" "below key k (drop n (elems (c_tree c))) = []"
  shows "\<exists>c' m. take_matching kdim key k (get_opt (elems (c_tree c)) n) c =
      Some (lookup key (drop n (elems (c_tree c))) k, c') \<and>
    c_tree c' = c_tree c \<and> cursor_at ops kdim c' m \<and> drop m (elems (c_tree c)) = beyond key k (drop n (elems (c_tree c)))"
proof -
  let ?xs = "elems (c_tree c)"
  have s: "sorted_keys key (drop n ?xs)" using assms(4) by (rule sorted_keys_take_drop)
  have nb: "not_below key k (drop n ?xs) = drop n ?xs"
    using below_not_below [of key k "drop n ?xs"] assms(5) by simp
  show ?thesis
  proof (cases "n < length ?xs")
    case False
    with assms(3) show ?thesis by (auto simp: take_matching_def get_opt_def beyond_def)
  next
    case True
    then have d: "drop n ?xs = ?xs ! n # drop (Suc n) ?xs" by (simp add: Cons_nth_drop_Suc)
    have b: "beyond key k (drop n ?xs) = (if key (?xs ! n) = k then drop (Suc n) ?xs else drop n ?xs)"
      "lookup key (drop n ?xs) k = (if key (?xs ! n) = k then Some (?xs ! n) else None)"
      using beyond_eq [OF s, of k, unfolded nb] lookup_not_below [OF s, of k, unfolded nb] by (simp_all add: d)
    show ?thesis
      using next_correct [OF assms(1-3) True] assms(3) True unfolding b
      by (cases "key (?xs ! n) = k") (auto simp: take_matching_def get_opt_def)
  qed
qed


text \<open>After slicing a fresh cursor up to \<open>k\<close>, the cursor is at the first item not below \<open>k\<close>.\<close>

lemma slice_take_matching:
  assumes "wf_tree ops t" "height t < STACK_CAPACITY" "sorted_keys key (elems t)" "d_zero kdim \<le> k"
  shows "\<exists>c1 t1 c2 m. cursor_slice ops kdim (ord_cmp k) Left (cursor_new kdim t) = Some (c1, t1) \<and>
    wf_tree ops t1 \<and> elems t1 = below key k (elems t) \<and>
    cursor_item c1 = Some (get_opt (elems t) (length (below key k (elems t)))) \<and>
    take_matching kdim key k (get_opt (elems t) (length (below key k (elems t)))) c1 = Some (lookup key (elems t) k, c2) \<and>
    c_tree c2 = t \<and> cursor_at ops kdim c2 m \<and> drop m (elems t) = beyond key k (elems t)"
proof -
  let ?n = "length (below key k (elems t))"
  have "cursor_ready ops kdim (cursor_new kdim t) 0" by (simp add: cursor_ready_def)
  with keyed_slice [of "cursor_new kdim t" 0 k] assms obtain c1 t1 where
    1: "cursor_slice ops kdim (ord_cmp k) Left (cursor_new kdim t) = Some (c1, t1)" "c_tree c1 = t"
      "cursor_at ops kdim c1 ?n" "wf_tree ops t1" "elems t1 = below key k (elems t)"
    by (auto simp: cursor_new_def)
  moreover have "cursor_item c1 = Some (get_opt (elems t) ?n)"
    using cursor_item_at(1) [OF 1(3)] 1(2) assms(1) by simp
  ultimately show ?thesis
    using take_matching_correct [OF _ _ 1(3), of k] assms(1-3) not_below_same [OF assms(3), of k]
    by (auto simp: drop_below)
qed

lemma insert_or_replace_correct:
  assumes "wf_tree ops t" "height t < STACK_CAPACITY" "sorted_keys key (elems t)"
  shows "\<exists>t'. tree_insert_or_replace ops kdim key t x = Some (t', lookup key (elems t) (key x)) \<and>
    wf_tree ops t' \<and> elems t' = below key (key x) (elems t) @ [x] @ beyond key (key x) (elems t)"
proof -
  let ?k = "key x"
  obtain c1 t1 c2 m where 1: "cursor_slice ops kdim (ord_cmp ?k) Left (cursor_new kdim t) = Some (c1, t1)"
    "wf_tree ops t1" "elems t1 = below key ?k (elems t)"
    "cursor_item c1 = Some (get_opt (elems t) (length (below key ?k (elems t))))"
    "take_matching kdim key ?k (get_opt (elems t) (length (below key ?k (elems t)))) c1 = Some (lookup key (elems t) ?k, c2)"
    "c_tree c2 = t" "cursor_at ops kdim c2 m" "drop m (elems t) = beyond key ?k (elems t)"
    using slice_take_matching [OF assms zero_least] by metis
  obtain t2 where 2: "tree_push ops t1 x = Some t2" "wf_tree ops t2" "elems t2 = elems t1 @ [x]"
    using push_correct [OF 1(2)] by blast
  obtain c3 suf where 3: "cursor_suffix ops kdim c2 = Some (c3, suf)" "wf_tree ops suf" "elems suf = drop m (elems t)"
    using suffix_correct [of c2 m] 1(6,7) assms by (auto simp: cursor_ready_def)
  obtain t3 where 4: "tree_append ops t2 suf = Some t3" "wf_tree ops t3" "elems t3 = elems t2 @ elems suf"
    using append_correct [OF 2(2) 3(2)] by blast
  from 1 2 3 4 show ?thesis by (simp add: tree_insert_or_replace_def)
qed

lemma remove_correct:
  assumes "wf_tree ops t" "height t < STACK_CAPACITY" "sorted_keys key (elems t)" "d_zero kdim \<le> k"
  shows "\<exists>t'. tree_remove ops kdim key t k = Some (t', lookup key (elems t) k) \<and>
    wf_tree ops t' \<and> elems t' = below key k (elems t) @ beyond key k (elems t)"
proof -
  obtain c1 t1 c2 m where 1: "cursor_slice ops kdim (ord_cmp k) Left (cursor_new kdim t) = Some (c1, t1)"
    "wf_tree ops t1" "elems t1 = below key k (elems t)"
    "cursor_item c1 = Some (get_opt (elems t) (length (below key k (elems t))))"
    "take_matching kdim key k (get_opt (elems t) (length (below key k (elems t)))) c1 = Some (lookup key (elems t) k, c2)"
    "c_tree c2 = t" "cursor_at ops kdim c2 m" "drop m (elems t) = beyond key k (elems t)"
    using slice_take_matching [OF assms] by metis
  obtain c3 suf where 2: "cursor_suffix ops kdim c2 = Some (c3, suf)" "wf_tree ops suf" "elems suf = drop m (elems t)"
    using suffix_correct [of c2 m] 1(6,7) assms by (auto simp: cursor_ready_def)
  obtain t3 where 3: "tree_append ops t1 suf = Some t3" "wf_tree ops t3" "elems t3 = elems t1 @ elems suf"
    using append_correct [OF 1(2) 2(2)] by blast
  from 1 2 3 show ?thesis by (simp add: tree_remove_def)
qed

text \<open>One iteration of \<open>edit\<close> up to the edit's key, then the whole loop.\<close>

lemma edit_advance:
  assumes "wf_tree ops (c_tree c)" "height (c_tree c) < STACK_CAPACITY" "cursor_at ops kdim c n"
    and "sorted_keys key (elems (c_tree c))" "wf_tree ops t"
  shows "\<exists>c' m t' buf'. (if (case get_opt (elems (c_tree c)) n of Some x \<Rightarrow> key x < k | None \<Rightarrow> False)
        then do {
          t \<leftarrow> tree_extend ops t buf;
          (c', slice) \<leftarrow> cursor_slice ops kdim (ord_cmp k) Left c;
          t' \<leftarrow> tree_append ops t slice;
          it \<leftarrow> cursor_item c';
          Some (it, c', t', [])
        }
        else Some (get_opt (elems (c_tree c)) n, c, t, buf)) = Some (get_opt (elems (c_tree c)) m, c', t', buf') \<and>
    wf_tree ops t' \<and> elems t' @ buf' = elems t @ buf @ below key k (drop n (elems (c_tree c))) \<and>
    c_tree c' = c_tree c \<and> cursor_at ops kdim c' m \<and>
    drop m (elems (c_tree c)) = not_below key k (drop n (elems (c_tree c)))"
proof -
  let ?xs = "elems (c_tree c)"
  show ?thesis
  proof (cases "n < length ?xs \<and> key (?xs ! n) < k")
    case True
    then have d: "?xs ! n \<in> set (drop n ?xs)" by (simp add: Cons_nth_drop_Suc [symmetric])
    have "c_position c \<le> k"
      using position_below_rest [OF assms(4) d] True assms(3) by (auto simp: cursor_at_def)
    moreover have "cursor_ready ops kdim c n" using assms(3) by (simp add: cursor_ready_def)
    ultimately obtain c1 s where 1: "cursor_slice ops kdim (ord_cmp k) Left c = Some (c1, s)" "c_tree c1 = c_tree c"
      "cursor_at ops kdim c1 (n + length (below key k (drop n ?xs)))" "wf_tree ops s" "elems s = below key k (drop n ?xs)"
      using keyed_slice [OF assms(1,2) _ assms(4)] by blast
    obtain t1 where 2: "tree_extend ops t buf = Some t1" "wf_tree ops t1" "elems t1 = elems t @ buf"
      using extend_correct [OF assms(5)] by blast
    obtain t2 where 3: "tree_append ops t1 s = Some t2" "wf_tree ops t2" "elems t2 = elems t1 @ elems s"
      using append_correct [OF 2(2) 1(4)] by blast
    have "cursor_item c1 = Some (get_opt ?xs (n + length (below key k (drop n ?xs))))"
      using cursor_item_at(1) [OF 1(3)] 1(2) assms(1) by simp
    moreover have "drop (n + length (below key k (drop n ?xs))) ?xs = not_below key k (drop n ?xs)"
      using drop_below [of key k "drop n ?xs"] by (simp add: add.commute)
    moreover have "case get_opt ?xs n of Some x \<Rightarrow> key x < k | None \<Rightarrow> False"
      using True by (simp add: get_opt_def)
    ultimately show ?thesis
      using 1 2 3
      by (intro exI [of _ c1] exI [of _ "n + length (below key k (drop n ?xs))"] exI [of _ t2] exI [of _ "[]"]) simp
  next
    case False
    then have "\<not> (case get_opt ?xs n of Some x \<Rightarrow> key x < k | None \<Rightarrow> False)" by (auto simp: get_opt_def)
    moreover have "below key k (drop n ?xs) = []" "not_below key k (drop n ?xs) = drop n ?xs"
      using False by (cases "n < length ?xs"; simp add: below_def not_below_def Cons_nth_drop_Suc [symmetric])+
    ultimately show ?thesis using assms(3,5) by auto
  qed
qed

lemma edit_loop_correct:
  "wf_tree ops (c_tree c) \<Longrightarrow> height (c_tree c) < STACK_CAPACITY \<Longrightarrow> cursor_at ops kdim c n \<Longrightarrow>
   sorted_keys key (elems (c_tree c)) \<Longrightarrow> wf_tree ops t \<Longrightarrow>
   \<exists>c' m t' buf'. edit_loop ops kdim key es c t buf removed =
       Some (c', t', buf', removed @ merge_removed key (drop n (elems (c_tree c))) es) \<and>
     wf_tree ops t' \<and> c_tree c' = c_tree c \<and> cursor_at ops kdim c' m \<and>
     elems t' @ buf' @ drop m (elems (c_tree c)) = elems t @ buf @ merge_edits key (drop n (elems (c_tree c))) es"
proof (induction es arbitrary: c n t buf removed)
  case (Cons e es)
  let ?k = "edit_key key e"
  let ?xs = "elems (c_tree c)"
  have s: "sorted_keys key (drop n ?xs)" using Cons.prems(4) by (rule sorted_keys_take_drop)
  obtain c1 m1 t1 buf1 where 1:
    "(if (case get_opt ?xs n of Some x \<Rightarrow> key x < ?k | None \<Rightarrow> False)
        then do {
          t \<leftarrow> tree_extend ops t buf;
          (c', slice) \<leftarrow> cursor_slice ops kdim (ord_cmp ?k) Left c;
          t' \<leftarrow> tree_append ops t slice;
          it \<leftarrow> cursor_item c';
          Some (it, c', t', [])
        }
        else Some (get_opt ?xs n, c, t, buf)) = Some (get_opt ?xs m1, c1, t1, buf1)"
    "wf_tree ops t1" "elems t1 @ buf1 = elems t @ buf @ below key ?k (drop n ?xs)"
    "c_tree c1 = c_tree c" "cursor_at ops kdim c1 m1" "drop m1 ?xs = not_below key ?k (drop n ?xs)"
    using edit_advance [OF Cons.prems, of ?k buf] by blast
  obtain c2 m2 where 2: "take_matching kdim key ?k (get_opt ?xs m1) c1 = Some (lookup key (drop n ?xs) ?k, c2)"
    "c_tree c2 = c_tree c" "cursor_at ops kdim c2 m2" "drop m2 ?xs = beyond key ?k (drop n ?xs)"
    using take_matching_correct [OF _ _ 1(5), of ?k] Cons.prems 1(4,6) not_below_same [OF s, of ?k] by auto
  let ?buf = "case e of Insert item \<Rightarrow> buf1 @ [item] | Remove _ \<Rightarrow> buf1"
  let ?rem = "removed @ (case lookup key (drop n ?xs) ?k of Some x \<Rightarrow> [x] | None \<Rightarrow> [])"
  have step: "edit_loop ops kdim key (e # es) c t buf removed = edit_loop ops kdim key es c2 t1 ?buf ?rem"
    using cursor_item_at(1) [OF Cons.prems(3,1)] 1(1) 2(1) by (simp add: Let_def)
  have buf: "?buf = buf1 @ (case edit_value e of Some x \<Rightarrow> [x] | None \<Rightarrow> [])"
    by (cases e) (auto simp: edit_value_def)
  obtain c3 m3 t3 buf3 where 3: "edit_loop ops kdim key es c2 t1 ?buf ?rem =
      Some (c3, t3, buf3, ?rem @ merge_removed key (drop m2 ?xs) es)" "wf_tree ops t3" "c_tree c3 = c_tree c"
    "cursor_at ops kdim c3 m3" "elems t3 @ buf3 @ drop m3 ?xs = elems t1 @ ?buf @ merge_edits key (drop m2 ?xs) es"
    using Cons.IH [of c2 m2 t1 ?buf ?rem] 2(2,3) 1(2) Cons.prems by metis
  have "elems t3 @ buf3 @ drop m3 ?xs = elems t @ buf @ merge_edits key (drop n ?xs) (e # es)"
    using 3(5) 1(3) unfolding buf 2(4) by (metis append_assoc merge_edits.simps(2))
  with 3 step 2(4) show ?case by (intro exI [of _ c3] exI [of _ m3] exI [of _ t3] exI [of _ buf3]) simp
qed auto

lemma edit_correct:
  assumes "wf_tree ops t" "height t < STACK_CAPACITY" "sorted_keys key (elems t)"
  shows "\<exists>t'. tree_edit ops kdim key t es = Some (t', merge_removed key (elems t) (sort_key (edit_key key) es)) \<and>
    wf_tree ops t' \<and> elems t' = merge_edits key (elems t) (sort_key (edit_key key) es)"
proof (cases "es = []")
  case True
  with assms show ?thesis by (simp add: tree_edit_def)
next
  case False
  let ?es = "sort_key (edit_key key) es"
  have "below key (d_zero kdim) (elems t) = []"
    using zero_least by (cases "elems t") (auto simp: below_def not_less)
  with keyed_stop [OF assms(3), of "d_zero kdim" 0 "d_zero kdim"]
    seek_correct [of "cursor_new kdim t" "ord_cmp (d_zero kdim)" 0 Left] assms
  obtain c b where 1: "cursor_seek kdim (ord_cmp (d_zero kdim)) Left (cursor_new kdim t) = Some (c, b)"
    "c_tree c = t" "cursor_at ops kdim c 0"
    by (auto simp: is_ge_def)
  obtain c' m t' buf where 2: "edit_loop ops kdim key ?es c (tree_new ops) [] [] =
      Some (c', t', buf, merge_removed key (elems t) ?es)" "wf_tree ops t'" "c_tree c' = t" "cursor_at ops kdim c' m"
    "elems t' @ buf @ drop m (elems t) = merge_edits key (elems t) ?es"
    using edit_loop_correct [of c 0 "tree_new ops" ?es "[]" "[]"] 1 assms by auto
  obtain t1 where 3: "tree_extend ops t' buf = Some t1" "wf_tree ops t1" "elems t1 = elems t' @ buf"
    using extend_correct [OF 2(2)] by blast
  obtain c3 suf where 4: "cursor_suffix ops kdim c' = Some (c3, suf)" "wf_tree ops suf" "elems suf = drop m (elems t)"
    using suffix_correct [of c' m] 2(3,4) assms by (auto simp: cursor_ready_def)
  obtain t2 where 5: "tree_append ops t1 suf = Some t2" "wf_tree ops t2" "elems t2 = elems t1 @ elems suf"
    using append_correct [OF 3(2) 4(2)] by blast
  from False 1 2 3 4 5 show ?thesis by (simp add: tree_edit_def)
qed

lemma find_key:
  "sorted_keys key xs \<Longrightarrow> (\<forall>x \<in> set xs. d \<le> key x) \<Longrightarrow>
   map_option (\<lambda>(prev, item, e). item)
     (snd (find_items kdim (\<lambda>d. ord_cmp k d = Equal) d prev xs (map (s_item ops) xs))) = lookup key xs k"
  by (induction xs arbitrary: d prev) (auto simp: Let_def key_end less_imp_le)

lemma get_correct:
  assumes "wf_tree ops t" "sorted_keys key (elems t)"
  shows "tree_get kdim t k = lookup key (elems t) k"
proof (cases "elems t = []")
  case True
  then obtain s where "t = Leaf s [] []"
    using wf_is_leaf_empty [OF assms(1)] assms(1) by (cases t) auto
  then show ?thesis by (simp add: tree_get_def find_exact_def find_gen_def Let_def)
next
  case False
  have "mono_target (ord_cmp k) (ends kdim (d_zero kdim) (map (s_item ops) (elems t)))"
    using keyed_stop(1) [OF assms(2), of "d_zero kdim" 0] by (simp add: item_ends_def)
  from find_exact_correct [OF assms(1) this False] find_key [OF assms(2), of "d_zero kdim" k None] zero_least
  show ?thesis by (simp add: tree_get_def)
qed

text \<open>The operations as operations on the finite map.\<close>

lemma insert_refines:
  assumes "wf_tree ops t" "height t < STACK_CAPACITY" "sorted_keys key (elems t)"
  shows "\<exists>t'. tree_insert_or_replace ops kdim key t x = Some (t', lookup key (elems t) (key x)) \<and>
    wf_tree ops t' \<and> sorted_keys key (elems t') \<and> lookup key (elems t') = (lookup key (elems t))(key x \<mapsto> x)"
proof -
  let ?k = "key x"
  have "sorted_keys key (below key ?k (elems t) @ [x] @ beyond key ?k (elems t))"
    using sorted_below_beyond [OF assms(3), of ?k] set_below [of _ key ?k "elems t"]
      set_beyond [OF assms(3), of _ ?k] by auto
  moreover have "lookup key (below key ?k (elems t) @ [x] @ beyond key ?k (elems t)) = (lookup key (elems t))(?k \<mapsto> x)"
    using merge_edits_correct [OF assms(3), of "[Insert x]"]
    by (simp add: edit_value_def edited_simps)
  ultimately show ?thesis using insert_or_replace_correct [OF assms] by metis
qed

lemma remove_refines:
  assumes "wf_tree ops t" "height t < STACK_CAPACITY" "sorted_keys key (elems t)" "d_zero kdim \<le> k"
  shows "\<exists>t'. tree_remove ops kdim key t k = Some (t', lookup key (elems t) k) \<and>
    wf_tree ops t' \<and> sorted_keys key (elems t') \<and> lookup key (elems t') = (lookup key (elems t))(k := None)"
  using remove_correct [OF assms] sorted_below_beyond [OF assms(3), of k] lookup_split [OF assms(3), of k] by metis

lemma sort_key_strict:
  "distinct (map f es) \<Longrightarrow> sorted_wrt (<) (map f (sort_key f es))" for f :: "'e \<Rightarrow> 'k"
  by (simp add: strict_sorted_iff distinct_map)

lemma edit_refines:
  assumes "wf_tree ops t" "height t < STACK_CAPACITY" "sorted_keys key (elems t)"
    and "distinct (map (edit_key key) es)"
  shows "\<exists>t' removed. tree_edit ops kdim key t es = Some (t', removed) \<and>
    wf_tree ops t' \<and> sorted_keys key (elems t') \<and> lookup key (elems t') = edited key es (lookup key (elems t))"
proof -
  have d: "distinct (map (edit_key key) (sort_key (edit_key key) es))"
    using assms(4) by (simp add: distinct_map)
  from edit_correct [OF assms(1-3), of es]
    merge_edits_correct [OF assms(3) sort_key_strict [OF assms(4)]]
    edited_perm [OF d assms(4)] show ?thesis
    by auto
qed

end

end
