(* ===== verification/TreeMap.thy ===== *)
theory TreeMap
  imports KeyedTree "HOL-Library.Option_ord"
begin

text \<open>
  \<open>crates/sum_tree/src/tree_map.rs\<close>: ordered maps and sets on a sum tree. The summary of an entry
  is its key wrapped in \<open>MapKey\<close> (\<open>Option<K>\<close>, whose derived order puts \<open>None\<close> first), adding a
  summary replaces it, and a position is the last key passed. \<open>MapKey\<close> and \<open>MapKeyRef\<close> are
  the option type with its linear order.
\<close>

section \<open>Entries and keys\<close>

datatype ('k, 'v) map_entry = MapEntry (me_key: 'k) (me_value: 'v)

definition entry_key :: "('k, 'v) map_entry \<Rightarrow> 'k option" where
  "entry_key e = Some (me_key e)"

definition map_ops :: "(('k, 'v) map_entry, 'k option) summary_ops" where
  "map_ops = \<lparr>s_zero = None, s_add = (\<lambda>_ s. s), s_item = entry_key\<rparr>"

definition map_dim :: "('k option, 'k option) dimension" where
  "map_dim = \<lparr>d_zero = None, d_add = (\<lambda>_ s. s)\<rparr>"

type_synonym ('k, 'v) tree_map = "(('k, 'v) map_entry, 'k option) sum_tree"

text \<open>\<open>MapSeekTargetAdaptor\<close>: a comparison with keys as a seek target.\<close>

definition map_seek_target :: "('k \<Rightarrow> ordering) \<Rightarrow> 'k option \<Rightarrow> ordering" where
  "map_seek_target cmp_cursor loc = (case loc of Some key \<Rightarrow> cmp_cursor key | None \<Rightarrow> Greater)"

section \<open>TreeMap\<close>

definition from_ordered_entries :: "('k \<times> 'v) list \<Rightarrow> ('k, 'v) tree_map option" where
  "from_ordered_entries entries = from_iter map_ops (map (\<lambda>(k, v). MapEntry k v) entries)"

definition map_is_empty :: "('k, 'v) tree_map \<Rightarrow> bool" where
  "map_is_empty m = tree_is_empty m"

definition map_get :: "('k::linorder, 'v) tree_map \<Rightarrow> 'k \<Rightarrow> 'v option" where
  "map_get m k =
     (case tree_find map_dim (ord_cmp (Some k)) Left m of
        (_, _, Some item) \<Rightarrow> if Some k = entry_key item then Some (me_value item) else None
      | (_, _, None) \<Rightarrow> None)"

definition contains_key :: "('k::linorder, 'v) tree_map \<Rightarrow> 'k \<Rightarrow> bool" where
  "contains_key m k \<longleftrightarrow> map_get m k \<noteq> None"

definition map_insert_or_replace ::
  "('k::linorder, 'v) tree_map \<Rightarrow> 'k \<Rightarrow> 'v \<Rightarrow> (('k, 'v) tree_map \<times> 'v option) option" where
  "map_insert_or_replace m k v = do {
     (m', r) \<leftarrow> tree_insert_or_replace map_ops map_dim entry_key m (MapEntry k v);
     Some (m', map_option me_value r)
   }"

definition map_insert :: "('k::linorder, 'v) tree_map \<Rightarrow> 'k \<Rightarrow> 'v \<Rightarrow> ('k, 'v) tree_map option" where
  "map_insert m k v = map_option fst (tree_insert_or_replace map_ops map_dim entry_key m (MapEntry k v))"

definition map_extend :: "('k::linorder, 'v) tree_map \<Rightarrow> ('k \<times> 'v) list \<Rightarrow> ('k, 'v) tree_map option" where
  "map_extend m kvs =
     map_option fst (tree_edit map_ops map_dim entry_key m (map (\<lambda>(k, v). Insert (MapEntry k v)) kvs))"

definition map_clear :: "('k, 'v) tree_map" where
  "map_clear = tree_new map_ops"

text \<open>
  \<open>remove\<close> and \<open>update\<close> compare the key with the cursor's end and \<open>unwrap\<close> the item there. The
  closure of \<open>update\<close> is a function that returns the new value and its result.
\<close>

definition map_remove ::
  "('k::linorder, 'v) tree_map \<Rightarrow> 'k \<Rightarrow> (('k, 'v) tree_map \<times> 'v option) option" where
  "map_remove m k = do {
     (c1, t1) \<leftarrow> cursor_slice map_ops map_dim (ord_cmp (Some k)) Left (cursor_new map_dim m);
     e \<leftarrow> cursor_end map_dim c1;
     (removed, c2) \<leftarrow>
       (if ord_cmp (Some k) e = Equal
        then do {
          item \<leftarrow> cursor_item c1;
          x \<leftarrow> item;
          c' \<leftarrow> cursor_next map_dim c1;
          Some (Some (me_value x), c')
        }
        else Some (None, c1));
     (c3, suffix) \<leftarrow> cursor_suffix map_ops map_dim c2;
     t2 \<leftarrow> tree_append map_ops t1 suffix;
     Some (t2, removed)
   }"

definition map_update ::
  "('k::linorder, 'v) tree_map \<Rightarrow> 'k \<Rightarrow> ('v \<Rightarrow> 'v \<times> 'r) \<Rightarrow> (('k, 'v) tree_map \<times> 'r option) option" where
  "map_update m k f = do {
     (c1, t1) \<leftarrow> cursor_slice map_ops map_dim (ord_cmp (Some k)) Left (cursor_new map_dim m);
     e \<leftarrow> cursor_end map_dim c1;
     (t2, result, c2) \<leftarrow>
       (if ord_cmp (Some k) e = Equal
        then do {
          item \<leftarrow> cursor_item c1;
          x \<leftarrow> item;
          let (v, r) = f (me_value x);
          t' \<leftarrow> tree_push map_ops t1 (MapEntry (me_key x) v);
          c' \<leftarrow> cursor_next map_dim c1;
          Some (t', Some r, c')
        }
        else Some (t1, None, c1));
     (c3, suffix) \<leftarrow> cursor_suffix map_ops map_dim c2;
     t3 \<leftarrow> tree_append map_ops t2 suffix;
     Some (t3, result)
   }"

definition remove_range ::
  "('k::linorder, 'v) tree_map \<Rightarrow> ('k \<Rightarrow> ordering) \<Rightarrow> ('k \<Rightarrow> ordering) \<Rightarrow> ('k, 'v) tree_map option" where
  "remove_range m start finish = do {
     (c1, t1) \<leftarrow> cursor_slice map_ops map_dim (map_seek_target start) Left (cursor_new map_dim m);
     (c2, _) \<leftarrow> cursor_seek map_dim (map_seek_target finish) Left c1;
     (c3, suffix) \<leftarrow> cursor_suffix map_ops map_dim c2;
     tree_append map_ops t1 suffix
   }"

definition closest :: "('k::linorder, 'v) tree_map \<Rightarrow> 'k \<Rightarrow> ('k \<times> 'v) option option" where
  "closest m k = do {
     (c1, _) \<leftarrow> cursor_seek map_dim (ord_cmp (Some k)) Right (cursor_new map_dim m);
     c2 \<leftarrow> cursor_prev map_dim c1;
     item \<leftarrow> cursor_item c2;
     Some (map_option (\<lambda>x. (me_key x, me_value x)) item)
   }"

text \<open>\<open>iter_from\<close> positions a cursor; the iteration itself is \<open>Iterator for Cursor\<close>.\<close>

definition iter_from ::
  "('k::linorder, 'v) tree_map \<Rightarrow> 'k \<Rightarrow> (('k, 'v) map_entry, 'k option, 'k option) cursor option" where
  "iter_from m from = map_option fst (cursor_seek map_dim (ord_cmp (Some from)) Left (cursor_new map_dim m))"

text \<open>
  \<open>retain\<close>: \<open>while let Some(item) = cursor.item()\<close>. The fuel bounds the number of iterations; it is
  one more than the number of entries.
\<close>

fun retain_loop ::
  "nat \<Rightarrow> ('k \<Rightarrow> 'v \<Rightarrow> bool) \<Rightarrow> (('k, 'v) map_entry, 'k option, 'k option) cursor \<Rightarrow> ('k, 'v) tree_map \<Rightarrow>
   ('k, 'v) tree_map option" where
  "retain_loop 0 predicate c new_map = None"
| "retain_loop (Suc fuel) predicate c new_map = do {
     item \<leftarrow> cursor_item c;
     case item of
       None \<Rightarrow> Some new_map
     | Some x \<Rightarrow> do {
         new_map' \<leftarrow> (if predicate (me_key x) (me_value x) then tree_push map_ops new_map x else Some new_map);
         c' \<leftarrow> cursor_next map_dim c;
         retain_loop fuel predicate c' new_map'
       }
   }"

fun count_items :: "('i, 's) sum_tree \<Rightarrow> nat" where
  "count_items (Leaf s xs ss) = length xs"
| "count_items (Internal h s ss ts) = sum_list (map count_items ts)"

definition map_retain ::
  "('k, 'v) tree_map \<Rightarrow> ('k \<Rightarrow> 'v \<Rightarrow> bool) \<Rightarrow> ('k, 'v) tree_map option" where
  "map_retain m predicate = do {
     c \<leftarrow> cursor_next map_dim (cursor_new map_dim m);
     retain_loop (Suc (count_items m)) predicate c (tree_new map_ops)
   }"

definition map_first :: "('k, 'v) tree_map \<Rightarrow> ('k \<times> 'v) option option" where
  "map_first m = do { x \<leftarrow> tree_first m; Some (map_option (\<lambda>e. (me_key e, me_value e)) x) }"

definition map_last :: "('k, 'v) tree_map \<Rightarrow> ('k \<times> 'v) option option" where
  "map_last m = do { x \<leftarrow> tree_last m; Some (map_option (\<lambda>e. (me_key e, me_value e)) x) }"

section \<open>TreeSet\<close>

type_synonym 'k tree_set = "('k, unit) tree_map"

definition set_from_ordered_entries :: "'k list \<Rightarrow> 'k tree_set option" where
  "set_from_ordered_entries ks = from_ordered_entries (map (\<lambda>k. (k, ())) ks)"

definition set_is_empty :: "'k tree_set \<Rightarrow> bool" where
  "set_is_empty s = map_is_empty s"

definition set_insert :: "'k::linorder tree_set \<Rightarrow> 'k \<Rightarrow> 'k tree_set option" where
  "set_insert s k = map_insert s k ()"

definition set_remove :: "'k::linorder tree_set \<Rightarrow> 'k \<Rightarrow> ('k tree_set \<times> bool) option" where
  "set_remove s k = do { (s', r) \<leftarrow> map_remove s k; Some (s', r \<noteq> None) }"

definition set_extend :: "'k::linorder tree_set \<Rightarrow> 'k list \<Rightarrow> 'k tree_set option" where
  "set_extend s ks = map_extend s (map (\<lambda>k. (k, ())) ks)"

definition set_contains :: "'k::linorder tree_set \<Rightarrow> 'k \<Rightarrow> bool" where
  "set_contains s k \<longleftrightarrow> map_get s k \<noteq> None"

section \<open>Representation\<close>

definition entries :: "('k, 'v) tree_map \<Rightarrow> ('k \<times> 'v) list" where
  "entries m = map (\<lambda>e. (me_key e, me_value e)) (elems m)"

definition valid_map :: "('k::linorder, 'v) tree_map \<Rightarrow> bool" where
  "valid_map m \<longleftrightarrow> wf_tree map_ops m \<and> sorted_keys entry_key (elems m)"

text \<open>A cursor's stack has room for the path to a leaf.\<close>

definition has_room :: "('i, 's) sum_tree \<Rightarrow> bool" where
  "has_room t \<longleftrightarrow> height t < STACK_CAPACITY"

definition map_abs :: "('k, 'v) tree_map \<Rightarrow> 'k \<rightharpoonup> 'v" where
  "map_abs m = map_of (entries m)"

lemma map_abs_lookup: "map_abs m k = map_option me_value (lookup entry_key (elems m) (Some k))"
proof -
  have "map_of (map (\<lambda>e. (me_key e, me_value e)) xs) k = map_option me_value (lookup entry_key xs (Some k))" for xs
    by (induction xs) (auto simp: entry_key_def)
  then show ?thesis by (simp add: map_abs_def entries_def)
qed

lemma lookup_no_key: "lookup entry_key xs None = None"
  by (induction xs) (auto simp: entry_key_def)

lemma map_absI:
  assumes "\<And>k. lookup entry_key (elems m) (Some k) = f k"
  shows "map_abs m = (\<lambda>k. map_option me_value (f k))"
  using assms by (simp add: fun_eq_iff map_abs_lookup)

lemma valid_map_entries: "valid_map m \<Longrightarrow> sorted_wrt (<) (map fst (entries m))"
  for m :: "('k::linorder, 'v) tree_map"
proof -
  have "sorted_keys entry_key xs \<Longrightarrow> sorted_wrt (<) (map me_key xs)" for xs :: "('k, 'v) map_entry list"
    by (induction xs) (auto simp: entry_key_def)
  then show "valid_map m \<Longrightarrow> ?thesis" by (simp add: valid_map_def entries_def comp_def)
qed

interpretation map: keyed_tree map_ops map_dim entry_key
  by unfold_locales (auto simp: map_ops_def map_dim_def entry_key_def)

lemma s_item_map [simp]: "s_item map_ops = entry_key"
  by (simp add: map_ops_def)

lemma map_dim_zero [simp]: "d_zero map_dim = None"
  by (simp add: map_dim_def)

section \<open>Correctness of the map operations\<close>

lemma map_get_abs: "valid_map m \<Longrightarrow> map_get m k = map_abs m k"
proof -
  assume v: "valid_map m"
  let ?xs = "elems m"
  have wf: "wf_tree map_ops m" and s: "sorted_keys entry_key ?xs" using v by (simp_all add: valid_map_def)
  have mono: "mono_target (ord_cmp (Some k)) (ends map_dim (d_zero map_dim) (map (s_item map_ops) ?xs))"
    using map.keyed_stop(1) [OF s, of "d_zero map_dim" 0] by (simp add: item_ends_def)
  have scan: "(case find_items map_dim (in_child (ord_cmp (Some k)) Left) d prev xs (map (s_item map_ops) xs) of
        (pos, Some (prev, item, e)) \<Rightarrow> (pos, e, Some item) | (pos, None) \<Rightarrow> (pos, pos, None)) = (p, e, i) \<Longrightarrow>
      sorted_keys entry_key xs \<Longrightarrow> i = first_opt (not_below entry_key (Some k) xs)" for xs d prev p e i
  proof (induction xs arbitrary: d prev)
    case (Cons x xs)
    have "d_add map_dim d (entry_key x) = entry_key x" by (simp add: map_dim_def)
    with Cons show ?case
      by (auto simp: Let_def in_child_def not_below_def split: if_splits)
  qed (simp add: not_below_def)
  have past: "past_end (ord_cmp (Some k)) Left (extent map_dim m) \<Longrightarrow> not_below entry_key (Some k) ?xs = []"
  proof (cases "?xs = []")
    case False
    assume "past_end (ord_cmp (Some k)) Left (extent map_dim m)"
    then have "stop_at map_ops map_dim (ord_cmp (Some k)) Left None ?xs = length ?xs"
      using stop_at_past [of "ord_cmp (Some k)" map_ops map_dim None ?xs Left] mono False map.d_add_zero_tree [OF wf False]
      by (simp add: item_ends_def pos_at_def)
    then have "length (below entry_key (Some k) ?xs) = length ?xs"
      using map.keyed_stop(2) [OF s, of "d_zero map_dim" 0 "Some k"] by simp
    then show ?thesis using below_not_below [of entry_key "Some k" ?xs] by (metis append_eq_conv_conj drop_below drop_all order_refl)
  qed (simp add: not_below_def)
  obtain p e i where f: "tree_find map_dim (ord_cmp (Some k)) Left m = (p, e, i)" by (cases "tree_find map_dim (ord_cmp (Some k)) Left m")
  then have "i = first_opt (not_below entry_key (Some k) ?xs)"
    using map.find_correct [OF wf mono, of Left] past scan [OF _ s] by (auto split: if_splits)
  with f lookup_not_below [OF s, of "Some k"] show ?thesis
    by (auto simp: map_get_def map_abs_lookup first_opt_def split: list.splits)
qed

lemma map_insert_refines:
  assumes "valid_map m" "has_room m"
  shows "\<exists>m'. map_insert_or_replace m k v = Some (m', map_abs m k) \<and> map_insert m k v = Some m' \<and>
    valid_map m' \<and> map_abs m' = (map_abs m)(k \<mapsto> v)"
proof -
  let ?x = "MapEntry k v"
  have key: "entry_key ?x = Some k" by (simp add: entry_key_def)
  obtain m' where m': "tree_insert_or_replace map_ops map_dim entry_key m ?x = Some (m', lookup entry_key (elems m) (Some k))"
    "wf_tree map_ops m'" "sorted_keys entry_key (elems m')"
    "lookup entry_key (elems m') = (lookup entry_key (elems m))(Some k \<mapsto> ?x)"
    using map.insert_refines [of m ?x] assms by (auto simp: valid_map_def has_room_def key)
  then have "map_abs m' = (map_abs m)(k \<mapsto> v)" by (auto simp: fun_eq_iff map_abs_lookup)
  with m' show ?thesis
    by (simp add: map_insert_or_replace_def map_insert_def valid_map_def map_abs_lookup)
qed

text \<open>The end of the cursor's item is its key, so the comparison in \<open>remove\<close> and \<open>update\<close> is the one on keys.\<close>

lemma map_slice:
  assumes "valid_map m" "has_room m"
  shows "\<exists>c1 t1 n. cursor_slice map_ops map_dim (ord_cmp (Some k)) Left (cursor_new map_dim m) = Some (c1, t1) \<and>
    wf_tree map_ops t1 \<and> elems t1 = below entry_key (Some k) (elems m) \<and>
    c_tree c1 = m \<and> cursor_at map_ops map_dim c1 n \<and> drop n (elems m) = not_below entry_key (Some k) (elems m) \<and>
    cursor_item c1 = Some (first_opt (not_below entry_key (Some k) (elems m))) \<and>
    (\<exists>e. cursor_end map_dim c1 = Some e \<and> (e = Some k \<longleftrightarrow> lookup entry_key (elems m) (Some k) \<noteq> None))"
proof -
  let ?xs = "elems m"
  let ?n = "length (below entry_key (Some k) ?xs)"
  have wf: "wf_tree map_ops m" and s: "sorted_keys entry_key ?xs" and h: "height m < STACK_CAPACITY"
    using assms by (simp_all add: valid_map_def has_room_def)
  have "cursor_ready map_ops map_dim (cursor_new map_dim m) 0" by (simp add: cursor_ready_def)
  with map.keyed_slice [of "cursor_new map_dim m" 0 "Some k"] wf s h obtain c1 t1 where
    1: "cursor_slice map_ops map_dim (ord_cmp (Some k)) Left (cursor_new map_dim m) = Some (c1, t1)" "c_tree c1 = m"
      "cursor_at map_ops map_dim c1 ?n" "wf_tree map_ops t1" "elems t1 = below entry_key (Some k) ?xs"
    by (auto simp: cursor_new_def)
  have d: "drop ?n ?xs = not_below entry_key (Some k) ?xs" by (rule drop_below)
  have item: "cursor_item c1 = Some (first_opt (not_below entry_key (Some k) ?xs))"
    using cursor_item_at(1) [OF 1(3)] 1(2) wf d [symmetric]
    by (cases "?n < length ?xs") (auto simp: get_opt_def first_opt_def Cons_nth_drop_Suc [symmetric])
  have e: "cursor_end map_dim c1 = Some (pos_at map_ops map_dim None (take (Suc ?n) ?xs))"
    using cursor_end_at [OF 1(3)] 1(2) wf by simp
  have "pos_at map_ops map_dim None (take (Suc ?n) ?xs) = Some k \<longleftrightarrow> lookup entry_key ?xs (Some k) \<noteq> None"
  proof (cases "?n < length ?xs")
    case True
    then have nb: "not_below entry_key (Some k) ?xs = ?xs ! ?n # drop (Suc ?n) ?xs" by (simp add: d [symmetric] Cons_nth_drop_Suc)
    have "pos_at map_ops map_dim None (take (Suc ?n) ?xs) = entry_key (?xs ! ?n)"
      using True by (simp add: take_Suc_conv_app_nth) (simp add: map_dim_def)
    with lookup_not_below [OF s, of "Some k"] nb show ?thesis by simp
  next
    case False
    then have nb: "not_below entry_key (Some k) ?xs = []" "take (Suc ?n) ?xs = below entry_key (Some k) ?xs"
      by (simp_all add: d [symmetric]) (metis False append_Nil2 below_not_below d drop_all not_le)
    have "pos_at map_ops map_dim None (below entry_key (Some k) ?xs) =
        (if below entry_key (Some k) ?xs = [] then None else entry_key (last (below entry_key (Some k) ?xs)))"
      using map.keyed_position [of "below entry_key (Some k) ?xs" None] sorted_keys_below_beyond(1) [OF s] by simp
    moreover have "below entry_key (Some k) ?xs \<noteq> [] \<Longrightarrow> entry_key (last (below entry_key (Some k) ?xs)) < Some k"
      by (rule set_below [OF last_in_set, THEN conjunct2])
    ultimately show ?thesis
      using lookup_not_below [OF s, of "Some k"] nb by auto
  qed
  with 1 d item e show ?thesis by blast
qed

text \<open>The tree reassembled from a prefix, a middle and the suffix of a cursor.\<close>

lemma map_reassemble:
  assumes "wf_tree map_ops t" "c_tree c = m" "cursor_at map_ops map_dim c n" "valid_map m" "has_room m"
  shows "\<exists>c' suffix m'. cursor_suffix map_ops map_dim c = Some (c', suffix) \<and> tree_append map_ops t suffix = Some m' \<and>
    wf_tree map_ops m' \<and> elems m' = elems t @ drop n (elems m)"
proof -
  obtain c' suf where 1: "cursor_suffix map_ops map_dim c = Some (c', suf)" "wf_tree map_ops suf" "elems suf = drop n (elems m)"
    using map.suffix_correct [of c n] assms by (auto simp: cursor_ready_def valid_map_def has_room_def)
  with map.append_correct [OF assms(1) 1(2)] show ?thesis by auto
qed

lemma map_remove_refines:
  assumes "valid_map m" "has_room m"
  shows "\<exists>m'. map_remove m k = Some (m', map_abs m k) \<and> valid_map m' \<and> map_abs m' = (map_abs m)(k := None)"
proof -
  let ?xs = "elems m"
  have s: "sorted_keys entry_key ?xs" and wf: "wf_tree map_ops m" "height m < STACK_CAPACITY"
    using assms by (simp_all add: valid_map_def has_room_def)
  obtain c1 t1 n e where 1: "cursor_slice map_ops map_dim (ord_cmp (Some k)) Left (cursor_new map_dim m) = Some (c1, t1)"
    "wf_tree map_ops t1" "elems t1 = below entry_key (Some k) ?xs" "c_tree c1 = m" "cursor_at map_ops map_dim c1 n"
    "drop n ?xs = not_below entry_key (Some k) ?xs" "cursor_item c1 = Some (first_opt (not_below entry_key (Some k) ?xs))"
    "cursor_end map_dim c1 = Some e" "e = Some k \<longleftrightarrow> lookup entry_key ?xs (Some k) \<noteq> None"
    using map_slice [OF assms, of k] by metis
  obtain c2 j where 2: "(if ord_cmp (Some k) e = Equal
        then do { item \<leftarrow> cursor_item c1; x \<leftarrow> item; c' \<leftarrow> cursor_next map_dim c1; Some (Some (me_value x), c') }
        else Some (None, c1)) = Some (map_abs m k, c2)"
    "c_tree c2 = m" "cursor_at map_ops map_dim c2 j" "drop j ?xs = beyond entry_key (Some k) ?xs"
  proof (cases "lookup entry_key ?xs (Some k)")
    case None
    with 1 beyond_eq [OF s, of "Some k"] lookup_not_below [OF s, of "Some k"] that [of c1 n] show ?thesis
      by (auto simp: map_abs_lookup split: list.splits if_splits)
  next
    case (Some x)
    then obtain ys where nb: "not_below entry_key (Some k) ?xs = x # ys" "entry_key x = Some k"
      using lookup_not_below [OF s, of "Some k"] by (auto split: list.splits if_splits)
    have "n < length ?xs" using 1(6) nb(1) by (metis drop_all list.distinct(1) not_le)
    then obtain c2 where "cursor_next map_dim c1 = Some c2" "c_tree c2 = m" "cursor_at map_ops map_dim c2 (Suc n)"
      using map.next_correct [of c1 n] 1(4,5) wf by auto
    moreover have "drop (Suc n) ?xs = ys" using 1(6) nb(1) by (metis drop_Suc drop_tl list.sel(3))
    ultimately show ?thesis
      using 1 nb Some beyond_eq [OF s, of "Some k"] that [of c2 "Suc n"] by (simp add: map_abs_lookup)
  qed
  obtain c3 suf m' where 3: "cursor_suffix map_ops map_dim c2 = Some (c3, suf)" "tree_append map_ops t1 suf = Some m'"
    "wf_tree map_ops m'" "elems m' = below entry_key (Some k) ?xs @ beyond entry_key (Some k) ?xs"
    using map_reassemble [OF 1(2) 2(2,3) assms] 1(3) 2(4) by auto
  have "map_remove m k = Some (m', map_abs m k)"
    using 1(1,8) 2(1) 3(1,2) by (simp add: map_remove_def)
  moreover have "map_abs m' = (map_abs m)(k := None)"
    using lookup_split [OF s, of "Some k"] by (auto simp: fun_eq_iff map_abs_lookup 3(4))
  moreover have "valid_map m'"
    using 3 sorted_below_beyond [OF s, of "Some k"] by (simp add: valid_map_def)
  ultimately show ?thesis by blast
qed

lemma map_update_refines:
  assumes "valid_map m" "has_room m"
  shows "\<exists>m'. map_update m k f = Some (m', map_option (snd \<circ> f) (map_abs m k)) \<and> valid_map m' \<and>
    map_abs m' = (case map_abs m k of Some v \<Rightarrow> (map_abs m)(k \<mapsto> fst (f v)) | None \<Rightarrow> map_abs m)"
proof -
  let ?xs = "elems m"
  have s: "sorted_keys entry_key ?xs" and wf: "wf_tree map_ops m" "height m < STACK_CAPACITY"
    using assms by (simp_all add: valid_map_def has_room_def)
  obtain c1 t1 n e where 1: "cursor_slice map_ops map_dim (ord_cmp (Some k)) Left (cursor_new map_dim m) = Some (c1, t1)"
    "wf_tree map_ops t1" "elems t1 = below entry_key (Some k) ?xs" "c_tree c1 = m" "cursor_at map_ops map_dim c1 n"
    "drop n ?xs = not_below entry_key (Some k) ?xs" "cursor_item c1 = Some (first_opt (not_below entry_key (Some k) ?xs))"
    "cursor_end map_dim c1 = Some e" "e = Some k \<longleftrightarrow> lookup entry_key ?xs (Some k) \<noteq> None"
    using map_slice [OF assms, of k] by metis
  show ?thesis
  proof (cases "lookup entry_key ?xs (Some k)")
    case None
    obtain c3 suf m' where 3: "cursor_suffix map_ops map_dim c1 = Some (c3, suf)" "tree_append map_ops t1 suf = Some m'"
      "wf_tree map_ops m'" "elems m' = ?xs"
      using map_reassemble [OF 1(2,4,5) assms] 1(3,6) below_not_below by metis
    have "map_update m k f = Some (m', None)" using 1(1,8,9) None 3(1,2) by (simp add: map_update_def)
    moreover have "map_abs m' = map_abs m" "valid_map m'" using 3 assms by (simp_all add: map_abs_def entries_def valid_map_def)
    ultimately show ?thesis using None by (simp add: map_abs_lookup)
  next
    case (Some x)
    let ?x = "MapEntry k (fst (f (me_value x)))"
    obtain ys where nb: "not_below entry_key (Some k) ?xs = x # ys" and x: "me_key x = k"
      using lookup_not_below [OF s, of "Some k"] Some by (auto simp: entry_key_def split: list.splits if_splits)
    have "n < length ?xs" using 1(6) nb(1) by (metis drop_all list.distinct(1) not_le)
    then obtain c2 where c2: "cursor_next map_dim c1 = Some c2" "c_tree c2 = m" "cursor_at map_ops map_dim c2 (Suc n)"
      using map.next_correct [of c1 n] 1(4,5) wf by auto
    obtain t2 where t2: "tree_push map_ops t1 ?x = Some t2" "wf_tree map_ops t2" "elems t2 = elems t1 @ [?x]"
      using map.push_correct [OF 1(2)] by blast
    have "drop (Suc n) ?xs = ys" using 1(6) nb(1) by (metis drop_Suc drop_tl list.sel(3))
    then have d: "drop (Suc n) ?xs = beyond entry_key (Some k) ?xs"
      using beyond_eq [OF s, of "Some k"] nb x by (simp add: entry_key_def)
    obtain c3 suf m' where 3: "cursor_suffix map_ops map_dim c2 = Some (c3, suf)" "tree_append map_ops t2 suf = Some m'"
      "wf_tree map_ops m'" "elems m' = below entry_key (Some k) ?xs @ [?x] @ beyond entry_key (Some k) ?xs"
      using map_reassemble [OF t2(2) c2(2,3) assms] 1(3) t2(3) d by auto
    have "map_update m k f = Some (m', Some (snd (f (me_value x))))"
      using 1(1,7,8,9) Some nb x c2(1) t2(1) 3(1,2) by (simp add: map_update_def case_prod_unfold)
    moreover have "map_abs m' = (map_abs m)(k \<mapsto> fst (f (me_value x)))" "valid_map m'"
      using merge_edits_correct [OF s, of "[Insert ?x]"] 3
      by (auto simp: edit_value_def edited_simps entry_key_def valid_map_def fun_eq_iff map_abs_lookup)
    ultimately show ?thesis using Some by (simp add: map_abs_lookup comp_def)
  qed
qed

lemma map_extend_refines:
  assumes "valid_map m" "has_room m" "distinct (map fst kvs)"
  shows "\<exists>m'. map_extend m kvs = Some m' \<and> valid_map m' \<and> map_abs m' = map_abs m ++ map_of kvs"
proof -
  let ?es = "map (\<lambda>(k, v). Insert (MapEntry k v)) kvs"
  have keys: "map (edit_key entry_key) ?es = map Some (map fst kvs)"
    by (auto simp: entry_key_def)
  have "distinct (map (edit_key entry_key) ?es)"
    unfolding keys using assms(3) by (simp add: distinct_map inj_on_def)
  with map.edit_refines [of m ?es] assms obtain m' r where m': "tree_edit map_ops map_dim entry_key m ?es = Some (m', r)"
    "wf_tree map_ops m'" "sorted_keys entry_key (elems m')"
    "lookup entry_key (elems m') = edited entry_key ?es (lookup entry_key (elems m))"
    by (auto simp: valid_map_def has_room_def)
  have "edited entry_key ?es L (Some k) = (case map_of kvs k of Some v \<Rightarrow> Some (MapEntry k v) | None \<Rightarrow> L (Some k))" for k L
    by (induction kvs) (auto simp: edited_def edit_value_def entry_key_def split: option.splits)
  with m' have "map_abs m' = map_abs m ++ map_of kvs"
    by (auto simp: fun_eq_iff map_abs_lookup map_add_def split: option.splits)
  with m' show ?thesis by (simp add: map_extend_def valid_map_def)
qed

lemma from_ordered_entries_correct:
  assumes "sorted_wrt (<) (map fst kvs)"
  shows "\<exists>m. from_ordered_entries kvs = Some m \<and> valid_map m \<and> entries m = kvs"
proof -
  have "sorted_wrt (<) (map fst kvs) \<Longrightarrow> sorted_keys entry_key (map (\<lambda>(k, v). MapEntry k v) kvs)" for kvs :: "('a \<times> 'b) list"
    by (induction kvs) (auto simp: entry_key_def)
  moreover have "map (\<lambda>e. (me_key e, me_value e)) (map (\<lambda>(k, v). MapEntry k v) kvs) = kvs"
    by (simp add: comp_def case_prod_unfold)
  ultimately show ?thesis
    using map.from_iter_correct [of "map (\<lambda>(k, v). MapEntry k v) kvs"] assms
    by (auto simp: from_ordered_entries_def valid_map_def entries_def)
qed

text \<open>A seek target given by a comparison with keys, on the entries of a valid map.\<close>

definition monotone_cmp :: "('k::linorder \<Rightarrow> ordering) \<Rightarrow> bool" where
  "monotone_cmp cmp \<longleftrightarrow> (\<forall>a b. a \<le> b \<longrightarrow> rank (cmp b) \<le> rank (cmp a))"

lemma monotone_ord_cmp [simp]: "monotone_cmp (ord_cmp a)"
  by (auto simp: monotone_cmp_def ord_cmp_def)

lemma map_item_ends: "item_ends map_ops map_dim d xs = map entry_key xs"
  by (induction xs arbitrary: d) (auto simp: item_ends_def map_dim_def)

lemma map_target_stop:
  assumes "monotone_cmp cmp" "sorted_keys entry_key xs"
  shows "mono_target (map_seek_target cmp) (item_ends map_ops map_dim d xs)"
    and "stop_at map_ops map_dim (map_seek_target cmp) Left d xs = length (takeWhile (\<lambda>x. cmp (me_key x) = Greater) xs)"
proof -
  show "mono_target (map_seek_target cmp) (item_ends map_ops map_dim d xs)"
    unfolding map_item_ends using assms
    by (induction xs) (auto simp: mono_target_def map_seek_target_def entry_key_def monotone_cmp_def less_imp_le)
  have "past_end (map_seek_target cmp) Left (entry_key x) \<longleftrightarrow> cmp (me_key x) = Greater" for x :: "('a, 'b) map_entry"
    by (simp add: past_end_def map_seek_target_def entry_key_def)
  then show "stop_at map_ops map_dim (map_seek_target cmp) Left d xs = length (takeWhile (\<lambda>x. cmp (me_key x) = Greater) xs)"
    using map_item_ends [of d xs] by (simp add: stop_at_def item_ends_def takeWhile_map comp_def)
qed

lemma monotone_filter:
  assumes "monotone_cmp cmp" "sorted_keys entry_key xs"
  shows "takeWhile (\<lambda>x. cmp (me_key x) = Greater) xs = filter (\<lambda>x. cmp (me_key x) = Greater) xs"
    and "dropWhile (\<lambda>x. cmp (me_key x) = Greater) xs = filter (\<lambda>x. cmp (me_key x) \<noteq> Greater) xs"
proof -
  have down: "cmp b = Greater \<Longrightarrow> a \<le> b \<Longrightarrow> cmp a = Greater" for a b
    using assms(1) unfolding monotone_cmp_def by (cases "cmp a") fastforce+
  show "takeWhile (\<lambda>x. cmp (me_key x) = Greater) xs = filter (\<lambda>x. cmp (me_key x) = Greater) xs"
    using assms(2) down by (induction xs) (auto simp: entry_key_def less_imp_le intro!: filter_False [symmetric])
  show "dropWhile (\<lambda>x. cmp (me_key x) = Greater) xs = filter (\<lambda>x. cmp (me_key x) \<noteq> Greater) xs"
    using assms(2) down by (induction xs) (auto simp: entry_key_def less_imp_le intro!: filter_True [symmetric])
qed

lemma sorted_keys_filter: "sorted_keys key xs \<Longrightarrow> sorted_keys key (filter P xs)"
  by (simp add: sorted_keys_def sorted_wrt_filter)

lemma filter_outside:
  assumes "monotone_cmp start" "\<And>k. start k = Greater \<Longrightarrow> finish k = Greater" "sorted_keys entry_key xs"
  shows "filter (\<lambda>x. start (me_key x) = Greater) xs @ filter (\<lambda>x. finish (me_key x) \<noteq> Greater) xs =
    filter (\<lambda>x. start (me_key x) = Greater \<or> finish (me_key x) \<noteq> Greater) xs"
  using assms(3)
proof (induction xs)
  case (Cons x xs)
  show ?case
  proof (cases "start (me_key x) = Greater")
    case True
    with Cons assms(2) show ?thesis by auto
  next
    case False
    have "start b = Greater \<Longrightarrow> a \<le> b \<Longrightarrow> start a = Greater" for a b
      using assms(1) unfolding monotone_cmp_def by (cases "start a") fastforce+
    with False Cons.prems have "filter (\<lambda>x. start (me_key x) = Greater) xs = []"
      by (fastforce simp: filter_empty_conv entry_key_def less_imp_le)
    with False Cons show ?thesis by auto
  qed
qed simp

lemma remove_range_correct:
  assumes "valid_map m" "has_room m" "monotone_cmp start" "monotone_cmp finish"
    and "\<And>k. start k = Greater \<Longrightarrow> finish k = Greater"
  shows "\<exists>m'. remove_range m start finish = Some m' \<and> valid_map m' \<and>
    entries m' = filter (\<lambda>(k, v). start k = Greater \<or> finish k \<noteq> Greater) (entries m)"
proof -
  let ?xs = "elems m"
  let ?before = "filter (\<lambda>x. start (me_key x) = Greater) ?xs"
  let ?after = "filter (\<lambda>x. finish (me_key x) \<noteq> Greater) ?xs"
  have s: "sorted_keys entry_key ?xs" and wf: "wf_tree map_ops m" "height m < STACK_CAPACITY"
    using assms by (simp_all add: valid_map_def has_room_def)
  have zero: "is_ge (map_seek_target f None)" for f :: "'a \<Rightarrow> ordering" by (simp add: is_ge_def map_seek_target_def)
  have ready: "cursor_ready map_ops map_dim (cursor_new map_dim m) 0" "c_position (cursor_new map_dim m) = None"
    by (simp_all add: cursor_ready_def cursor_new_def) (simp add: cursor_fresh_def)
  let ?n = "length (takeWhile (\<lambda>x. start (me_key x) = Greater) ?xs)"
  have tk: "take ?n ?xs = ?before"
    using monotone_filter(1) [OF assms(3) s] takeWhile_eq_take by metis
  obtain c1 t1 where 1: "cursor_slice map_ops map_dim (map_seek_target start) Left (cursor_new map_dim m) = Some (c1, t1)"
    "c_tree c1 = m" "wf_tree map_ops t1" "elems t1 = ?before"
    using map.slice_correct [OF _ _ ready(1), of "map_seek_target start" ?n Left] wf zero map_target_stop [OF assms(3) s] ready(2)
      tk by auto
  let ?m = "length (takeWhile (\<lambda>x. finish (me_key x) = Greater) ?xs)"
  obtain c2 b where 2: "cursor_seek map_dim (map_seek_target finish) Left c1 = Some (c2, b)" "c_tree c2 = m"
    "cursor_at map_ops map_dim c2 ?m"
    using map.seek_correct [of c1 "map_seek_target finish" ?m Left] wf zero 1(2) map_target_stop [OF assms(4) s] by auto
  obtain c3 suf m' where 3: "cursor_suffix map_ops map_dim c2 = Some (c3, suf)" "tree_append map_ops t1 suf = Some m'"
    "wf_tree map_ops m'" "elems m' = ?before @ drop ?m ?xs"
    using map_reassemble [OF 1(3) 2(2,3) assms(1,2)] 1(4) by auto
  have "drop ?m ?xs = ?after"
    using monotone_filter(2) [OF assms(4) s] by (simp add: dropWhile_eq_drop)
  moreover have "?before @ ?after = filter (\<lambda>x. start (me_key x) = Greater \<or> finish (me_key x) \<noteq> Greater) ?xs"
    by (rule filter_outside) (use assms s in auto)
  ultimately have el: "elems m' = filter (\<lambda>x. start (me_key x) = Greater \<or> finish (me_key x) \<noteq> Greater) ?xs"
    using 3(4) by simp
  have "remove_range m start finish = Some m'"
    using 1(1) 2(1) 3(1,2) by (simp add: remove_range_def)
  moreover have "entries m' = filter (\<lambda>(k, v). start k = Greater \<or> finish k \<noteq> Greater) (entries m)"
    by (simp add: entries_def el filter_map comp_def)
  ultimately show ?thesis using 3(3) el sorted_keys_filter [OF s] by (simp add: valid_map_def)
qed

lemma closest_correct:
  assumes "valid_map m" "has_room m"
  shows "closest m k = Some (last_opt (filter (\<lambda>(k', v). k' \<le> k) (entries m)))"
proof -
  let ?xs = "elems m"
  let ?P = "\<lambda>x. entry_key x \<le> Some k"
  let ?n = "length (takeWhile ?P ?xs)"
  have s: "sorted_keys entry_key ?xs" and wf: "wf_tree map_ops m" "height m < STACK_CAPACITY"
    using assms by (simp_all add: valid_map_def has_room_def)
  obtain c1 b where 1: "cursor_seek map_dim (ord_cmp (Some k)) Right (cursor_new map_dim m) = Some (c1, b)" "c_tree c1 = m"
    "cursor_at map_ops map_dim c1 ?n"
    using map.seek_correct [of "cursor_new map_dim m" "ord_cmp (Some k)" ?n Right] wf
      map.keyed_stop(1,3) [OF s, of None 0 "Some k"] by (auto simp: is_ge_def)
  have tk: "take ?n ?xs = takeWhile ?P ?xs" by (simp add: takeWhile_eq_take [symmetric])
  have "sorted_keys entry_key ys \<Longrightarrow> takeWhile ?P ys = filter ?P ys" for ys :: "('a, 'b) map_entry list"
    by (induction ys) (auto simp: not_le intro!: filter_False [symmetric], meson leD less_trans)
  then have fl: "takeWhile ?P ?xs = filter ?P ?xs" using s by simp
  have r: "last_opt (filter (\<lambda>(k', v). k' \<le> k) (entries m)) =
      map_option (\<lambda>x. (me_key x, me_value x)) (last_opt (takeWhile ?P ?xs))"
    unfolding fl by (simp add: entries_def filter_map comp_def last_opt_def last_map entry_key_def)
  obtain c2 where 2: "search_backward map_dim (\<lambda>_. True) c1 = Some c2" "c_tree c2 = m"
    "case last_sat (\<lambda>_. True) (takeWhile ?P ?xs) of Some j \<Rightarrow> cursor_at map_ops map_dim c2 j
     | None \<Rightarrow> if ?xs = [] then cursor_at map_ops map_dim c2 0 else cursor_before map_dim c2"
    using map.search_backward_correct [OF _ _ conservative_True, of c1 ?n] 1 wf tk by auto
  have "cursor_item c2 = Some (last_opt (takeWhile ?P ?xs))"
  proof (cases "takeWhile ?P ?xs = []")
    case True
    with 2(2,3) cursor_item_at(1) [of map_ops map_dim c2 0] wf(1) show ?thesis
      by (auto simp: cursor_before_def cursor_item_def get_opt_def split: if_splits)
  next
    case False
    then have "cursor_at map_ops map_dim c2 (?n - 1)" using 2(3) by simp
    moreover have "?n - 1 < length ?xs" "?xs ! (?n - 1) = last (takeWhile ?P ?xs)"
      using False length_takeWhile_le [of ?P ?xs] takeWhile_nth [of "?n - 1" ?P ?xs]
      by (cases ?n; simp add: last_conv_nth)+
    ultimately show ?thesis
      using cursor_item_at(1) [of map_ops map_dim c2 "?n - 1"] 2(2) wf(1) False
      by (simp add: get_opt_def last_opt_def)
  qed
  with 1(1) 2(1) r show ?thesis by (simp add: closest_def cursor_prev_def)
qed

lemma count_items_elems: "count_items t = length (elems t)"
  by (induction t) (simp_all add: length_concat comp_def cong: map_cong)

lemma retain_loop_correct:
  "cursor_at map_ops map_dim c n \<Longrightarrow> c_tree c = m \<Longrightarrow> wf_tree map_ops m \<Longrightarrow> has_room m \<Longrightarrow> wf_tree map_ops t \<Longrightarrow>
   length (elems m) < n + fuel \<Longrightarrow>
   \<exists>m'. retain_loop fuel P c t = Some m' \<and> wf_tree map_ops m' \<and>
     elems m' = elems t @ filter (\<lambda>x. P (me_key x) (me_value x)) (drop n (elems m))"
  for m :: "('k::linorder, 'v) tree_map"
proof (induction fuel arbitrary: c n t)
  case 0
  then show ?case by (simp add: cursor_at_def)
next
  case (Suc fuel)
  show ?case
  proof (cases "n < length (elems m)")
    case False
    with Suc.prems cursor_item_at(1) [OF Suc.prems(1)] show ?thesis by (simp add: get_opt_def)
  next
    case True
    let ?x = "elems m ! n"
    have d: "drop n (elems m) = ?x # drop (Suc n) (elems m)" using True by (simp add: Cons_nth_drop_Suc)
    obtain c' where c': "cursor_next map_dim c = Some c'" "c_tree c' = m" "cursor_at map_ops map_dim c' (Suc n)"
      using map.next_correct [of c n] Suc.prems True by (auto simp: has_room_def)
    obtain t' where t': "(if P (me_key ?x) (me_value ?x) then tree_push map_ops t ?x else Some t) = Some t'"
      "wf_tree map_ops t'" "elems t' = elems t @ filter (\<lambda>x. P (me_key x) (me_value x)) [?x]"
      using map.push_correct [OF Suc.prems(5), of ?x] Suc.prems(5)
      by (cases "P (me_key ?x) (me_value ?x)") auto
    from Suc.IH [OF c'(3,2) Suc.prems(3,4) t'(2)] Suc.prems(6) obtain m' where
      "retain_loop fuel P c' t' = Some m'" "wf_tree map_ops m'"
      "elems m' = elems t' @ filter (\<lambda>x. P (me_key x) (me_value x)) (drop (Suc n) (elems m))"
      by auto
    with Suc.prems(1-3) cursor_item_at(1) [OF Suc.prems(1)] True c'(1) t' show ?thesis
      by (simp add: get_opt_def d)
  qed
qed

lemma map_retain_correct:
  assumes "valid_map m" "has_room m"
  shows "\<exists>m'. map_retain m P = Some m' \<and> valid_map m' \<and> entries m' = filter (\<lambda>(k, v). P k v) (entries m)"
proof -
  have wf: "wf_tree map_ops m" "height m < STACK_CAPACITY" using assms by (simp_all add: valid_map_def has_room_def)
  obtain c where c: "cursor_next map_dim (cursor_new map_dim m) = Some c" "c_tree c = m" "cursor_at map_ops map_dim c 0"
    using map.search_forward_correct(1) [OF _ _ conservative_True, of "cursor_new map_dim m"] wf
    by (auto simp: cursor_next_def split: if_splits)
  obtain m' where "map_retain m P = Some m'" "wf_tree map_ops m'"
      "elems m' = filter (\<lambda>x. P (me_key x) (me_value x)) (elems m)"
    using retain_loop_correct [OF c(3,2) wf(1) assms(2), of "tree_new map_ops" "Suc (count_items m)" P] c(1)
    by (auto simp: map_retain_def count_items_elems)
  then show ?thesis
    using assms sorted_keys_filter [of entry_key "elems m"] by (auto simp: valid_map_def entries_def filter_map comp_def)
qed

end
