(* ===== verification/Cursor_Iter.thy ===== *)
theory Cursor_Iter
  imports Cursor_Walk
begin

text \<open>
  The plain iterator \<open>Iter\<close>, \<open>SumTree::items\<close> and the neighbours \<open>next_item\<close> and \<open>prev_item\<close> of a
  cursor: they enumerate, respectively look up, the sequence of items.
\<close>

section \<open>\<open>Iter\<close>\<close>

text \<open>The loop of \<open>Iter::next\<close> is that of \<open>search_forward\<close> in a dimension without information.\<close>

definition unit_dim :: "('s, unit) dimension" where
  "unit_dim = \<lparr>d_zero = (), d_add = (\<lambda>_ _. ())\<rparr>"

definition top_item :: "('i, 's, 'd) stack_entry list \<Rightarrow> 'i option" where
  "top_item st = (case st of [] \<Rightarrow> None | e # _ \<Rightarrow>
     (case se_tree e of Leaf s xs ss \<Rightarrow> get_opt xs (se_index e) | Internal _ _ _ _ \<Rightarrow> None))"

definition iter_inv ::
  "('i, 's) summary_ops \<Rightarrow> bool \<Rightarrow> ('i, 's, 'd) stack_entry list \<Rightarrow> bool" where
  "iter_inv ops descend stack \<longleftrightarrow>
     (\<forall>e \<in> set stack. wf_tree ops (se_tree e)) \<and> (\<forall>e \<in> set (tl stack). \<not> is_leaf (se_tree e)) \<and>
     (stack \<noteq> [] \<longrightarrow> \<not> descend \<longrightarrow> is_leaf (se_tree (hd stack)) \<longrightarrow>
        se_index (hd stack) < length (elems (se_tree (hd stack))))"

lemma iter_inv_pop: "iter_inv ops d (e # rest) \<Longrightarrow> iter_inv ops False rest"
  by (cases rest) (auto simp: iter_inv_def)

lemma entry_unit: "e\<lparr>se_index := i, se_position := u\<rparr> = e\<lparr>se_index := i\<rparr>" for e :: "('i, 's, unit) stack_entry"
  by (cases e) simp

lemma skip_nothing: "skip_filtered dim (\<lambda>_. True) e p ss = (e, p)"
  by (cases ss) auto

lemma iter_forward:
  "iter_inv ops descend stack \<Longrightarrow>
   iter_loop descend stack =
   map_option (\<lambda>(p, st, found). (if found then top_item st else None, st))
     (forward_loop unit_dim (\<lambda>_. True) descend () stack)"
proof (induction descend stack rule: iter_loop.induct)
  case (2 descend e rest)
  let ?e1 = "if \<not> descend then e\<lparr>se_index := se_index e + 1\<rparr> else e"
  show ?case
  proof (cases "se_tree e")
    case (Internal h s ss ts)
    show ?thesis
    proof (cases "se_index ?e1 < length ts")
      case False
      then have g: "get_opt ts (se_index ?e1) = None" by simp
      with "2.IH"(2) [OF refl Internal g] False Internal iter_inv_pop [OF "2.prems"] show ?thesis
        by (cases descend) (simp_all add: iter_loop.simps(2) [where e = e] forward_loop.simps(2) [where e = e] Let_def skip_nothing entry_unit get_opt_def)
    next
      case True
      then have g: "get_opt ts (se_index ?e1) = Some (ts ! se_index ?e1)" by (simp add: get_opt_def)
      have wf: "wf_tree ops (ts ! se_index ?e1)"
        using "2.prems" Internal True by (auto simp: iter_inv_def wf_Internal forest_def)
      then have "iter_inv ops True (\<lparr>se_tree = ts ! se_index ?e1, se_index = 0, se_position = ()\<rparr> # ?e1 # rest)"
        using "2.prems" Internal by (auto simp: iter_inv_def)
      with "2.IH"(3) [OF refl Internal g] Internal True show ?thesis
        by (cases descend) (simp_all add: iter_loop.simps(2) [where e = e] forward_loop.simps(2) [where e = e] Let_def skip_nothing entry_unit get_opt_def)
    qed
  next
    case (Leaf s xs ss)
    then have ss: "length ss = length xs" using "2.prems" by (auto simp: iter_inv_def)
    have idx: "\<not> descend \<Longrightarrow> se_index e < length xs" using "2.prems" Leaf by (auto simp: iter_inv_def)
    show ?thesis
    proof (cases "se_index ?e1 < length xs")
      case True
      with idx ss Leaf show ?thesis
        by (cases descend) (simp_all add: iter_loop.simps(2) forward_loop.simps(2) Let_def skip_nothing entry_unit top_item_def get_opt_def)
    next
      case False
      then have g: "get_opt xs (se_index ?e1) = None" by simp
      with "2.IH"(1) [OF refl Leaf g] False idx ss Leaf iter_inv_pop [OF "2.prems"] show ?thesis
        by (cases descend) (simp_all add: iter_loop.simps(2) forward_loop.simps(2) Let_def skip_nothing entry_unit unit_dim_def get_opt_def)
    qed
  qed
qed simp

text \<open>The iterator after it returned the item at index \<open>n\<close>.\<close>

definition iter_at :: "('i, 's) tree_iter \<Rightarrow> nat \<Rightarrow> bool" where
  "iter_at it n \<longleftrightarrow> path_at unit_dim (it_tree it) () (rev (it_stack it)) n"

sublocale summary_monoid < walk: tree_dimension ops unit_dim
  by unfold_locales (simp add: unit_dim_def)

lemma path_at_inv:
  "path_at dim t pos es n \<Longrightarrow> wf_tree ops t \<Longrightarrow> iter_inv ops False (rev es)"
proof (induction dim t pos es n rule: path_at.induct)
  case (2 dim t pos e es n)
  show ?case
  proof (cases t)
    case (Internal h s ss ts)
    have "path_at dim (ts ! se_index e) (se_position e) es (n - before ts (se_index e))" "se_tree e = t"
      and "wf_tree ops (ts ! se_index e)"
      using 2 Internal by (auto simp: wf_Internal forest_def)
    moreover from this have "iter_inv ops False (rev es)" "es \<noteq> []"
      using "2.IH" [OF Internal] by (cases es; simp)+
    ultimately show ?thesis
      using "2.prems"(2) Internal by (cases "rev es") (auto simp: iter_inv_def)
  qed (use 2 in \<open>auto simp: iter_inv_def\<close>)
qed simp

lemma path_at_top:
  assumes "path_at dim t pos (rev stk) n" "wf_tree ops t"
  shows "top_item stk = Some (elems t ! n)"
  using path_at_leaf [OF assms] by (cases stk) (auto simp: top_item_def get_opt_def)

context summary_monoid
begin

lemma iter_next_first:
  assumes "wf_tree ops (it_tree it)" "height (it_tree it) < STACK_CAPACITY" "it_stack it = []"
  shows "\<exists>it'. iter_next it = Some (first_opt (elems (it_tree it)), it') \<and> it_tree it' = it_tree it \<and>
    (if elems (it_tree it) = [] then it_stack it' = [] else iter_at it' 0)"
proof -
  let ?e = "\<lparr>se_tree = it_tree it, se_index = 0, se_position = ()\<rparr>"
  have out: "forward_outcome ops unit_dim (\<lambda>_. True) (it_tree it) () 0 () (elems (it_tree it)) []
      (forward_loop unit_dim (\<lambda>_. True) True () [?e])"
    using walk.forward_fresh [OF assms(1) conservative_True, of "[]" "()"] assms(2) by simp
  have "iter_inv ops True [?e]" using assms(1) by (simp add: iter_inv_def)
  note loop = iter_forward [OF this]
  show ?thesis
  proof (cases "elems (it_tree it) = []")
    case True
    with out loop assms(3) show ?thesis
      by (simp add: iter_next_def push_entry_def STACK_CAPACITY_def forward_outcome_def)
  next
    case False
    with out obtain stk where "forward_loop unit_dim (\<lambda>_. True) True () [?e] = Some ((), stk, True)"
      "path_at unit_dim (it_tree it) () (rev stk) 0"
      by (auto simp: forward_outcome_def)
    moreover from this have "top_item stk = first_opt (elems (it_tree it))"
      using path_at_top [OF _ assms(1), of unit_dim "()" stk 0] False by (cases "elems (it_tree it)") auto
    ultimately show ?thesis
      using False loop assms(3) by (simp add: iter_next_def push_entry_def STACK_CAPACITY_def iter_at_def)
  qed
qed

lemma iter_next_step:
  assumes "wf_tree ops (it_tree it)" "height (it_tree it) < STACK_CAPACITY" "iter_at it n"
  shows "\<exists>it'. iter_next it = Some (get_opt (elems (it_tree it)) (Suc n), it') \<and> it_tree it' = it_tree it \<and>
    (if Suc n < length (elems (it_tree it)) then iter_at it' (Suc n) else it_stack it' = [])"
proof -
  let ?xs = "elems (it_tree it)"
  have p: "path_at unit_dim (it_tree it) () (rev (it_stack it)) n" using assms(3) by (simp add: iter_at_def)
  then have ne: "it_stack it \<noteq> []" by auto
  have out: "forward_outcome ops unit_dim (\<lambda>_. True) (it_tree it) () (Suc n) () (drop (Suc n) ?xs) []
      (forward_loop unit_dim (\<lambda>_. True) False () (it_stack it))"
    using walk.forward_path [OF assms(1) conservative_True p, of "[]"] assms(2) by simp
  note loop = iter_forward [OF path_at_inv [OF p assms(1), simplified]]
  show ?thesis
  proof (cases "Suc n < length ?xs")
    case False
    with out loop ne show ?thesis
      by (simp add: iter_next_def forward_outcome_def get_opt_def)
  next
    case True
    with out obtain stk where "forward_loop unit_dim (\<lambda>_. True) False () (it_stack it) = Some ((), stk, True)"
      "path_at unit_dim (it_tree it) () (rev stk) (Suc n)"
      by (auto simp: forward_outcome_def)
    with True loop ne path_at_top [OF _ assms(1)] show ?thesis
      by (simp add: iter_next_def iter_at_def get_opt_def)
  qed
qed

end

text \<open>Collecting an iterator, with one more call of fuel than there are items.\<close>

fun iter_collect :: "nat \<Rightarrow> ('i, 's) tree_iter \<Rightarrow> 'i list option" where
  "iter_collect 0 it = None"
| "iter_collect (Suc fuel) it = do {
     (x, it') \<leftarrow> iter_next it;
     case x of None \<Rightarrow> Some [] | Some y \<Rightarrow> do { ys \<leftarrow> iter_collect fuel it'; Some (y # ys) }
   }"

text \<open>\<open>SumTree::items\<close>, the loop over a cursor with the dimension \<open>()\<close>.\<close>

fun items_loop :: "nat \<Rightarrow> ('i, 's, unit) cursor \<Rightarrow> 'i list option" where
  "items_loop 0 c = None"
| "items_loop (Suc fuel) c = do {
     item \<leftarrow> cursor_item c;
     case item of
       None \<Rightarrow> Some []
     | Some x \<Rightarrow> do { c' \<leftarrow> cursor_next unit_dim c; xs \<leftarrow> items_loop fuel c'; Some (x # xs) }
   }"

definition tree_items :: "nat \<Rightarrow> ('i, 's) sum_tree \<Rightarrow> 'i list option" where
  "tree_items fuel t = do { c \<leftarrow> cursor_next unit_dim (cursor_new unit_dim t); items_loop fuel c }"

context summary_monoid
begin

lemma iter_collect_step:
  "wf_tree ops (it_tree it) \<Longrightarrow> height (it_tree it) < STACK_CAPACITY \<Longrightarrow> iter_at it n \<Longrightarrow>
   length (elems (it_tree it)) \<le> n + fuel \<Longrightarrow> iter_collect fuel it = Some (drop (Suc n) (elems (it_tree it)))"
proof (induction fuel arbitrary: it n)
  case 0
  then show ?case using path_at_less by (fastforce simp: iter_at_def)
next
  case (Suc fuel)
  obtain it' where it': "iter_next it = Some (get_opt (elems (it_tree it)) (Suc n), it')" "it_tree it' = it_tree it"
    "if Suc n < length (elems (it_tree it)) then iter_at it' (Suc n) else it_stack it' = []"
    using iter_next_step [OF Suc.prems(1-3)] by blast
  show ?case
  proof (cases "Suc n < length (elems (it_tree it))")
    case True
    with it' Suc show ?thesis by (simp add: get_opt_def Cons_nth_drop_Suc)
  next
    case False
    with it' show ?thesis by (simp add: get_opt_def)
  qed
qed

lemma iter_collect_correct:
  assumes "wf_tree ops t" "height t < STACK_CAPACITY" "length (elems t) < fuel"
  shows "iter_collect fuel (iter_new t) = Some (elems t)"
proof -
  obtain it' where it': "iter_next (iter_new t) = Some (first_opt (elems t), it')" "it_tree it' = t"
    "if elems t = [] then it_stack it' = [] else iter_at it' 0"
    using iter_next_first [of "iter_new t"] assms by (auto simp: iter_new_def)
  obtain f where "fuel = Suc f" using assms(3) by (cases fuel) auto
  with it' assms iter_collect_step [of it' 0 f] show ?thesis
    by (cases "elems t") auto
qed

lemma items_loop_correct:
  "wf_tree ops (c_tree c) \<Longrightarrow> height (c_tree c) < STACK_CAPACITY \<Longrightarrow> cursor_at ops unit_dim c n \<Longrightarrow>
   length (elems (c_tree c)) < n + fuel \<Longrightarrow> items_loop fuel c = Some (drop n (elems (c_tree c)))"
proof (induction fuel arbitrary: c n)
  case 0
  then show ?case by (simp add: cursor_at_def)
next
  case (Suc fuel)
  note item = cursor_item_at(1) [OF Suc.prems(3,1)]
  show ?case
  proof (cases "n < length (elems (c_tree c))")
    case True
    have r: "\<exists>c'. cursor_next unit_dim c = Some c' \<and> c_tree c' = c_tree c \<and> cursor_at ops unit_dim c' (Suc n)"
    proof (cases "Suc n < length (elems (c_tree c))")
      case False
      with True have "Suc n = length (elems (c_tree c))" by simp
      with walk.search_forward_correct(2) [OF Suc.prems(1,2) conservative_True Suc.prems(3)] show ?thesis
        by (simp add: cursor_next_def)
    qed (use walk.search_forward_correct(2) [OF Suc.prems(1,2) conservative_True Suc.prems(3)] in \<open>simp add: cursor_next_def\<close>)
    then obtain c' where "cursor_next unit_dim c = Some c'" "c_tree c' = c_tree c" "cursor_at ops unit_dim c' (Suc n)"
      by blast
    with Suc.IH [of c' "Suc n"] Suc.prems item True show ?thesis
      by (simp add: get_opt_def Cons_nth_drop_Suc)
  qed (use item in \<open>simp add: get_opt_def\<close>)
qed

lemma tree_items_correct:
  assumes "wf_tree ops t" "height t < STACK_CAPACITY" "length (elems t) < fuel"
  shows "tree_items fuel t = Some (elems t)"
proof -
  obtain c where c: "cursor_next unit_dim (cursor_new unit_dim t) = Some c" "c_tree c = t" "cursor_at ops unit_dim c 0"
    using walk.search_forward_correct(1) [OF _ _ conservative_True, of "cursor_new unit_dim t"] assms
    by (auto simp: cursor_next_def split: if_splits)
  with items_loop_correct [of c 0 fuel] assms show ?thesis by (simp add: tree_items_def)
qed

end

section \<open>Neighbours\<close>

text \<open>
  The leaf after (before) the one a path ends in, found by climbing the stack: its first (last) item
  is the item after (before) the end of the leaf.
\<close>

definition next_leaf_spec ::
  "('i, 's) sum_tree \<Rightarrow> nat \<Rightarrow> ('i, 's) sum_tree option option \<Rightarrow> ('i, 's) sum_tree option option \<Rightarrow> bool" where
  "next_leaf_spec t m res otherwise \<longleftrightarrow>
     (if m < length (elems t)
      then \<exists>s ys ss. res = Some (Some (Leaf s ys ss)) \<and> ys \<noteq> [] \<and> hd ys = elems t ! m
      else m = length (elems t) \<and> res = otherwise)"

lemma next_leaf_path:
  "path_at dim t pos (rev stk) n \<Longrightarrow> wf_tree ops t \<Longrightarrow>
   \<exists>e st s xs. stk = e # st \<and> se_tree e = Leaf s xs (map (s_item ops) xs) \<and> se_index e < length xs \<and>
     next_leaf_spec t (n + (length xs - se_index e)) (next_leaf_loop (st @ rest)) (next_leaf_loop rest)"
proof (induction t arbitrary: pos stk n rest)
  case (Leaf s xs ss)
  then show ?case by (cases "rev stk") (auto simp: rev_eq_Cons_iff next_leaf_spec_def)
next
  case (Internal h s ss ts)
  obtain stk' e where stk: "stk = stk' @ [e]" using Internal.prems(1) by (cases stk rule: rev_cases) auto
  let ?i = "se_index e"
  let ?c = "ts ! ?i"
  let ?n = "n - before ts ?i"
  have e: "se_tree e = Internal h s ss ts" "?i < length ts" "before ts ?i \<le> n" "path_at dim ?c (se_position e) (rev stk') ?n"
    using Internal.prems(1) by (auto simp: stk)
  have c: "wf_tree ops ?c" "forest ops h ts" using Internal.prems(2) e(2) by (auto simp: wf_Internal forest_def)
  let ?zs = "concat (map elems (drop (Suc ?i) ts))"
  have xs: "drop (before ts ?i) (concat (map elems ts)) = elems ?c @ ?zs"
    by (simp add: drop_before concat_drop_Suc [OF e(2)])
  obtain l st s' ys where l: "stk' = l # st" "se_tree l = Leaf s' ys (map (s_item ops) ys)" "se_index l < length ys"
    and next_l: "next_leaf_spec ?c (?n + (length ys - se_index l)) (next_leaf_loop (st @ e # rest)) (next_leaf_loop (e # rest))"
    using Internal.IH [of ?c "se_position e" stk' ?n "e # rest"] e(2,4) c(1) by auto
  define m where "m = ?n + (length ys - se_index l)"
  have mm: "n + (length ys - se_index l) = before ts ?i + m" using e(3) by (simp add: m_def)
  note next_l = next_l [folded m_def]
  have nth: "concat (map elems ts) ! (before ts ?i + k) = (elems ?c @ ?zs) ! k" if "before ts ?i + k < length (concat (map elems ts))" for k
    using that by (metis xs add_leD1 less_imp_le_nat nth_drop)
  have len: "length (concat (map elems ts)) = before ts ?i + length (elems ?c) + length ?zs"
    by (metis (no_types, lifting) add.assoc append_take_drop_id before_def concat_append length_append map_append xs drop_before)
  have "next_leaf_spec (Internal h s ss ts) (n + (length ys - se_index l)) (next_leaf_loop ((st @ [e]) @ rest)) (next_leaf_loop rest)"
  proof (cases "m < length (elems ?c)")
    case True
    with next_l show ?thesis unfolding mm by (auto simp: next_leaf_spec_def len nth nth_append)
  next
    case False
    with next_l have m': "m = length (elems ?c)" "next_leaf_loop (st @ e # rest) = next_leaf_loop (e # rest)"
      by (auto simp: next_leaf_spec_def)
    show ?thesis
    proof (cases "Suc ?i < length ts")
      case inner: True
      have d: "drop (Suc ?i) ts = ts ! Suc ?i # drop (Suc (Suc ?i)) ts" using inner by (simp add: Cons_nth_drop_Suc)
      have wf: "wf_tree ops (ts ! Suc ?i)" "elems (ts ! Suc ?i) \<noteq> []"
        using c(2) inner by (auto simp: forest_def)
      obtain s2 zs ss2 ws where lf: "leftmost_leaf (ts ! Suc ?i) = Some (Leaf s2 zs ss2)" "zs \<noteq> []"
        "elems (ts ! Suc ?i) = zs @ ws" using leftmost_leaf_correct [OF wf(1)] wf(2) by blast
      have "next_leaf_loop (e # rest) = Some (Some (Leaf s2 zs ss2))"
        using e(1,2) inner lf(1) by (simp add: get_opt_def less_diff_conv)
      moreover have "?zs \<noteq> []" "?zs ! 0 = hd zs" using lf(2,3) d by (auto simp: hd_conv_nth nth_append)
      ultimately show ?thesis
        unfolding mm using m' lf(2) by (simp add: next_leaf_spec_def len nth nth_append)
    next
      case False
      then have "?zs = []" "?i = length ts - 1" using e(2) by auto
      with m' e(1,2) show ?thesis unfolding mm by (simp add: next_leaf_spec_def len)
    qed
  qed
  with l show ?case unfolding stk
    by (intro exI [of _ l] exI [of _ "st @ [e]"] exI [of _ s'] exI [of _ ys]) simp
qed

text \<open>The leaf a path ends in is a segment of the sequence.\<close>

lemma path_at_segment:
  "path_at dim t pos (rev stk) n \<Longrightarrow> wf_tree ops t \<Longrightarrow>
   \<exists>us vs s xs ss. elems t = us @ xs @ vs \<and> stk \<noteq> [] \<and> se_tree (hd stk) = Leaf s xs ss \<and>
     n = length us + se_index (hd stk) \<and> se_index (hd stk) < length xs"
proof (induction t arbitrary: pos stk n)
  case (Leaf s xs ss)
  then show ?case by (cases "rev stk") (auto simp: rev_eq_Cons_iff intro!: exI [of _ "[]"])
next
  case (Internal h s ss ts)
  obtain stk' e where stk: "stk = stk' @ [e]" using Internal.prems(1) by (cases stk rule: rev_cases) auto
  let ?i = "se_index e"
  have e: "?i < length ts" "before ts ?i \<le> n" "path_at dim (ts ! ?i) (se_position e) (rev stk') (n - before ts ?i)"
    using Internal.prems(1) by (auto simp: stk)
  obtain us vs s' xs ss' where IH: "elems (ts ! ?i) = us @ xs @ vs" "stk' \<noteq> []" "se_tree (hd stk') = Leaf s' xs ss'"
    "n - before ts ?i = length us + se_index (hd stk')" "se_index (hd stk') < length xs"
    using Internal.IH [of "ts ! ?i" "se_position e" stk' "n - before ts ?i"] e Internal.prems(2)
    by (auto simp: wf_Internal forest_def)
  have "concat (map elems ts) = (concat (map elems (take ?i ts)) @ us) @ xs @ (vs @ concat (map elems (drop (Suc ?i) ts)))"
    using concat_drop_Suc [OF e(1)] IH(1) concat_map_take_drop [of elems ?i ts] by (metis append_assoc)
  with IH e(2) show ?case
    unfolding elems.simps stk
    by (intro exI [of _ "concat (map elems (take ?i ts)) @ us"] exI [of _ "vs @ concat (map elems (drop (Suc ?i) ts))"]
        exI [of _ s'] exI [of _ xs] exI [of _ ss']) (simp add: before_def)
qed

lemma next_item_at:
  assumes "cursor_at ops dim c n" "wf_tree ops (c_tree c)"
  shows "next_item c = Some (get_opt (elems (c_tree c)) (Suc n))"
proof (cases "n < length (elems (c_tree c))")
  case False
  with assms show ?thesis by (simp add: next_item_def cursor_at_def get_opt_def)
next
  case True
  let ?xs = "elems (c_tree c)"
  have p: "path_at dim (c_tree c) (d_zero dim) (rev (c_stack c)) n" "c_did_seek c"
    using assms True by (simp_all add: cursor_at_def)
  obtain e st s ys where e: "c_stack c = e # st" "se_tree e = Leaf s ys (map (s_item ops) ys)" "se_index e < length ys"
    and nl: "next_leaf_spec (c_tree c) (n + (length ys - se_index e)) (next_leaf_loop st) (Some None)"
    using next_leaf_path [OF p(1) assms(2), of "[]"] by auto
  show ?thesis
  proof (cases "Suc (se_index e) = length ys")
    case last: True
    with nl e p(2) show ?thesis
      by (cases "Suc n < length ?xs")
        (auto simp: next_item_def next_leaf_def next_leaf_spec_def get_opt_def first_opt_def split: list.splits if_splits)
  next
    case False
    then have i: "Suc (se_index e) < length ys" using e(3) by simp
    have "elems (c_tree c) ! Suc n = ys ! Suc (se_index e) \<and> Suc n < length ?xs"
      using path_at_segment [OF p(1) assms(2)] e i by (auto simp: nth_append)
    with e i p(2) show ?thesis by (auto simp: next_item_def get_opt_def)
  qed
qed

definition prev_leaf_spec ::
  "('i, 's) sum_tree \<Rightarrow> nat \<Rightarrow> ('i, 's) sum_tree option option \<Rightarrow> ('i, 's) sum_tree option option \<Rightarrow> bool" where
  "prev_leaf_spec t m res otherwise \<longleftrightarrow>
     (if 0 < m
      then \<exists>s ys ss. res = Some (Some (Leaf s ys ss)) \<and> ys \<noteq> [] \<and> last ys = elems t ! (m - 1)
      else res = otherwise)"

lemma prev_leaf_path:
  "path_at dim t pos (rev stk) n \<Longrightarrow> wf_tree ops t \<Longrightarrow>
   \<exists>e st s xs. stk = e # st \<and> se_tree e = Leaf s xs (map (s_item ops) xs) \<and> se_index e < length xs \<and> se_index e \<le> n \<and>
     prev_leaf_spec t (n - se_index e) (prev_leaf_loop (st @ rest)) (prev_leaf_loop rest)"
proof (induction t arbitrary: pos stk n rest)
  case (Leaf s xs ss)
  then show ?case by (cases "rev stk") (auto simp: rev_eq_Cons_iff prev_leaf_spec_def)
next
  case (Internal h s ss ts)
  obtain stk' e where stk: "stk = stk' @ [e]" using Internal.prems(1) by (cases stk rule: rev_cases) auto
  let ?i = "se_index e"
  let ?c = "ts ! ?i"
  let ?n = "n - before ts ?i"
  let ?ws = "concat (map elems (take ?i ts))"
  have e: "se_tree e = Internal h s ss ts" "?i < length ts" "before ts ?i \<le> n" "path_at dim ?c (se_position e) (rev stk') ?n"
    using Internal.prems(1) by (auto simp: stk)
  have c: "wf_tree ops ?c" "forest ops h ts" using Internal.prems(2) e(2) by (auto simp: wf_Internal forest_def)
  have xs: "concat (map elems ts) = ?ws @ elems ?c @ concat (map elems (drop (Suc ?i) ts))"
    using concat_drop_Suc [OF e(2)] concat_map_take_drop [of elems ?i ts] by metis
  obtain l st s' ys where l: "stk' = l # st" "se_tree l = Leaf s' ys (map (s_item ops) ys)" "se_index l < length ys"
    "se_index l \<le> ?n"
    and prev_l: "prev_leaf_spec ?c (?n - se_index l) (prev_leaf_loop (st @ e # rest)) (prev_leaf_loop (e # rest))"
    using Internal.IH [of ?c "se_position e" stk' ?n "e # rest"] e(2,4) c(1) by auto
  define m where "m = ?n - se_index l"
  have mm: "n - se_index l = length ?ws + m" using e(3) l(4) by (simp add: m_def before_def)
  note prev_l = prev_l [folded m_def]
  have mlen: "m < length (elems ?c)" using path_at_less [OF e(4)] l(4) by (simp add: m_def)
  have "prev_leaf_spec (Internal h s ss ts) (n - se_index l) (prev_leaf_loop ((st @ [e]) @ rest)) (prev_leaf_loop rest)"
  proof (cases "0 < m")
    case True
    then obtain k where k: "m = Suc k" by (cases m) auto
    have "concat (map elems ts) ! (length ?ws + k) = elems ?c ! k"
      using mlen k by (subst xs) (simp only: nth_append_length_plus nth_append, simp)
    with prev_l k show ?thesis unfolding mm by (simp add: prev_leaf_spec_def)
  next
    case False
    with prev_l have m': "m = 0" "prev_leaf_loop (st @ e # rest) = prev_leaf_loop (e # rest)"
      by (auto simp: prev_leaf_spec_def)
    show ?thesis
    proof (cases "?i = 0")
      case False
      then obtain i where i: "?i = Suc i" by (cases ?i) auto
      have t: "take ?i ts = take i ts @ [ts ! i]" "i < length ts" using i e(2) by (simp_all add: take_Suc_conv_app_nth)
      have wf: "wf_tree ops (ts ! i)" "elems (ts ! i) \<noteq> []" using c(2) t(2) by (auto simp: forest_def)
      obtain s2 zs us where lf: "rightmost_leaf (ts ! i) = Some (Leaf s2 zs (map (s_item ops) zs))" "zs \<noteq> []"
        "elems (ts ! i) = us @ zs" using rightmost_leaf_correct [OF wf(1)] wf(2) by blast
      have "prev_leaf_loop (e # rest) = Some (Some (Leaf s2 zs (map (s_item ops) zs)))"
        using e(1) i t(2) lf(1) by (simp add: get_opt_def)
      moreover have "?ws = (concat (map elems (take i ts)) @ us) @ zs" unfolding t(1) using lf(3) by simp
      then have "?ws \<noteq> []" "last ?ws = last zs" using lf(2) by (metis append_is_Nil_conv last_appendR)+
      moreover have "concat (map elems ts) ! (length ?ws - 1) = last ?ws"
        using \<open>?ws \<noteq> []\<close> last_conv_nth [OF \<open>?ws \<noteq> []\<close>] by (subst xs) (simp only: nth_append, simp)
      ultimately show ?thesis
        unfolding mm using m' lf(2) by (simp add: prev_leaf_spec_def)
    next
      case True
      with m' show ?thesis unfolding mm by (simp add: prev_leaf_spec_def)
    qed
  qed
  with l show ?case unfolding stk
    by (intro exI [of _ l] exI [of _ "st @ [e]"] exI [of _ s'] exI [of _ ys]) simp
qed

lemma prev_item_at:
  assumes "cursor_at ops dim c n" "wf_tree ops (c_tree c)"
  shows "prev_item c = Some (if n = 0 then None else Some (elems (c_tree c) ! (n - 1)))"
proof (cases "n < length (elems (c_tree c))")
  case False
  with assms have "n = length (elems (c_tree c))" by (simp add: cursor_at_def)
  with assms show ?thesis
    by (simp add: prev_item_def cursor_at_def tree_last_correct last_opt_def last_conv_nth)
next
  case True
  let ?xs = "elems (c_tree c)"
  have p: "path_at dim (c_tree c) (d_zero dim) (rev (c_stack c)) n" "c_did_seek c"
    using assms True by (simp_all add: cursor_at_def)
  obtain e st s ys where e: "c_stack c = e # st" "se_tree e = Leaf s ys (map (s_item ops) ys)" "se_index e < length ys"
    "se_index e \<le> n"
    and pl: "prev_leaf_spec (c_tree c) (n - se_index e) (prev_leaf_loop st) (Some None)"
    using prev_leaf_path [OF p(1) assms(2), of "[]"] by auto
  show ?thesis
  proof (cases "se_index e")
    case 0
    with pl e p(2) show ?thesis
      by (cases "n = 0") (auto simp: prev_item_def prev_leaf_def prev_leaf_spec_def last_opt_def)
  next
    case (Suc i)
    have "?xs ! (n - 1) = ys ! i \<and> 0 < n"
      using path_at_segment [OF p(1) assms(2)] e Suc by (auto simp: nth_append)
    with e Suc p(2) show ?thesis by (auto simp: prev_item_def get_opt_def)
  qed
qed

end
