(* ===== verification/SumTree_Theorems.thy ===== *)
theory SumTree_Theorems
  imports TreeMap Cursor_Iter
begin

text \<open>
  The properties of the sum tree, its cursors and its searches, stated for every summary type that
  satisfies \<open>summary_monoid\<close> and every dimension that satisfies \<open>tree_dimension\<close>. The witnesses run
  on the trees of \<open>TreeMap\<close>, whose summary is the interpretation \<open>map\<close> of these locales.
\<close>

section \<open>A small tree for the witnesses\<close>

definition sample_entries :: "(nat, nat) map_entry list" where
  "sample_entries = [MapEntry 1 10, MapEntry 3 30, MapEntry 5 50]"

definition sample_leaf :: "(nat, nat) tree_map" where
  "sample_leaf = Leaf (Some 5) sample_entries [Some 1, Some 3, Some 5]"

definition sample_tree :: "(nat, nat) tree_map" where
  "sample_tree = Internal 1 (Some 8) [Some 5, Some 8]
     [sample_leaf, Leaf (Some 8) [MapEntry 7 70, MapEntry 8 80] [Some 7, Some 8]]"

lemmas sample_defs = sample_tree_def sample_leaf_def sample_entries_def

lemma wf_sample: "wf_tree map_ops sample_leaf" "wf_tree map_ops sample_tree"
  by (simp_all add: sample_defs wf_tree.simps(2) TREE_BASE_def map_ops_def entry_key_def item_sum_def sum_of_def)

lemma elems_sample:
  "elems sample_leaf = sample_entries"
  "elems sample_tree = sample_entries @ [MapEntry 7 70, MapEntry 8 80]"
  by (simp_all add: sample_defs)

lemma height_sample: "height sample_leaf = 0" "height sample_tree = 1"
  by (simp_all add: sample_defs)

lemma sorted_sample: "sorted_keys entry_key (elems sample_tree)" "sorted_keys entry_key (elems sample_leaf)"
  by (simp_all add: elems_sample sample_entries_def entry_key_def)

lemma item_ends_sample: "item_ends map_ops map_dim None (elems sample_tree) = [Some 1, Some 3, Some 5, Some 7, Some 8]"
  by (simp add: map_item_ends elems_sample sample_entries_def entry_key_def)

section \<open>Building and appending\<close>

text \<open>C5. \<open>append\<close> (\<open>push_tree_recursive\<close>, \<open>append_large\<close>, \<open>merge_into_right\<close>) never panics on
  well-formed trees of any heights, keeps every node within capacity and every cached summary equal
  to the sum of the items below, and the result holds the items of the first tree followed by those
  of the second.\<close>

theorem tree_append_correct:
  assumes "summary_monoid ops" "wf_tree ops t" "wf_tree ops u"
  shows "\<exists>v. tree_append ops t u = Some v \<and> wf_tree ops v \<and> elems v = elems t @ elems u \<and>
    summary v = item_sum ops (elems t @ elems u)"
  using summary_monoid.append_correct [OF assms] by (auto simp: wf_summary)

theorem tree_append_correct_witness:
  "\<exists>v. tree_append map_ops sample_leaf sample_tree = Some v \<and> wf_tree map_ops v \<and>
     elems v = elems sample_leaf @ elems sample_tree \<and> summary v = item_sum map_ops (elems sample_leaf @ elems sample_tree)"
  using tree_append_correct [OF map.summary_monoid_axioms wf_sample] .

text \<open>\<open>push\<close> and \<open>extend\<close> add one item, or a sequence of items, at the end, without panicking.\<close>

theorem tree_extend_correct:
  assumes "summary_monoid ops" "wf_tree ops t"
  shows "(\<exists>v. tree_push ops t x = Some v \<and> wf_tree ops v \<and> elems v = elems t @ [x]) \<and>
    (\<exists>v. tree_extend ops t xs = Some v \<and> wf_tree ops v \<and> elems v = elems t @ xs)"
  using summary_monoid.push_correct [OF assms] summary_monoid.extend_correct [OF assms] by blast

theorem tree_extend_correct_witness:
  "(\<exists>v. tree_push map_ops sample_tree (MapEntry 9 90) = Some v \<and> wf_tree map_ops v \<and>
      elems v = elems sample_tree @ [MapEntry 9 90]) \<and>
   (\<exists>v. tree_extend map_ops sample_tree sample_entries = Some v \<and> wf_tree map_ops v \<and>
      elems v = elems sample_tree @ sample_entries)"
  using tree_extend_correct [OF map.summary_monoid_axioms wf_sample(2)] .

text \<open>C6. \<open>from_iter\<close> terminates, does not panic and builds a well-formed tree of exactly the given
  sequence; \<open>from_par_iter\<close> builds the same tree, node for node.\<close>

theorem from_iter_builds:
  assumes "summary_monoid ops"
  shows "(\<exists>t. from_iter ops xs = Some t \<and> wf_tree ops t \<and> elems t = xs) \<and> from_par_iter ops xs = from_iter ops xs"
  using summary_monoid.from_iter_correct [OF assms] summary_monoid.from_par_iter_eq [OF assms] by blast

theorem from_iter_builds_witness:
  "(\<exists>t. from_iter map_ops sample_entries = Some t \<and> wf_tree map_ops t \<and> elems t = sample_entries) \<and>
   from_par_iter map_ops sample_entries = from_iter map_ops sample_entries"
  using from_iter_builds [OF map.summary_monoid_axioms] .

text \<open>\<open>update_last\<close> and \<open>update_first\<close> apply the function to the last (first) item, if there is
  one, and recompute the summaries on the path to it.\<close>

theorem update_ends_correct:
  assumes "summary_monoid ops" "wf_tree ops t"
  shows "(\<exists>v. update_last ops f t = Some v \<and> wf_tree ops v \<and>
      elems v = (if elems t = [] then [] else butlast (elems t) @ [f (last (elems t))])) \<and>
    (\<exists>v. update_first ops f t = Some v \<and> wf_tree ops v \<and>
      elems v = (case elems t of [] \<Rightarrow> [] | x # xs \<Rightarrow> f x # xs))"
proof (cases "elems t = []")
  case True
  with summary_monoid.update_last_empty [OF assms] assms(2) show ?thesis by simp
next
  case False
  with summary_monoid.update_last_correct [OF assms, of f] summary_monoid.update_first_correct [OF assms, of f]
  show ?thesis
    by (cases "elems t") (auto simp: update_last_def update_first_def one_node_def)
qed

theorem update_ends_correct_witness:
  "(\<exists>v. update_last map_ops id sample_tree = Some v \<and> wf_tree map_ops v \<and>
      elems v = (if elems sample_tree = [] then [] else butlast (elems sample_tree) @ [id (last (elems sample_tree))])) \<and>
   (\<exists>v. update_first map_ops id sample_tree = Some v \<and> wf_tree map_ops v \<and>
      elems v = (case elems sample_tree of [] \<Rightarrow> [] | x # xs \<Rightarrow> id x # xs))"
  using update_ends_correct [OF map.summary_monoid_axioms wf_sample(2)] .

text \<open>\<open>first\<close>, \<open>last\<close>, \<open>last_summary\<close> and \<open>is_empty\<close> read the ends of the sequence and do not
  panic.\<close>

theorem tree_ends_correct:
  assumes "wf_tree ops t"
  shows "tree_first t = Some (first_opt (elems t)) \<and> tree_last t = Some (last_opt (elems t)) \<and>
    last_summary t = Some (map_option (s_item ops) (last_opt (elems t))) \<and> (tree_is_empty t \<longleftrightarrow> elems t = [])"
  using tree_first_correct [OF assms] tree_last_correct [OF assms] last_summary_correct [OF assms] wf_is_empty [OF assms]
  by simp

theorem tree_ends_correct_witness:
  "tree_first sample_tree = Some (first_opt (elems sample_tree)) \<and> tree_last sample_tree = Some (last_opt (elems sample_tree)) \<and>
   last_summary sample_tree = Some (map_option (s_item map_ops) (last_opt (elems sample_tree))) \<and>
   (tree_is_empty sample_tree \<longleftrightarrow> elems sample_tree = [])"
  by (rule tree_ends_correct [OF wf_sample(2)])

section \<open>Searching\<close>

text \<open>C7. \<open>find\<close> on a tree whose target is monotone along the positions of its items is the linear
  scan: if the target is past the end it returns the end, otherwise the first item whose end is not
  before the target (with the bias deciding ties), together with its start and end; \<open>find_with_prev\<close>
  also returns the item before it.\<close>

theorem find_is_linear_scan:
  assumes "tree_dimension ops dim" "wf_tree ops t" "mono_target target (item_ends ops dim (d_zero dim) (elems t))"
  shows "tree_find dim target bias t =
      (if past_end target bias (extent dim t) then (extent dim t, extent dim t, None)
       else case find_items dim (in_child target bias) (d_zero dim) None (elems t) (map (s_item ops) (elems t)) of
          (pos, Some (prev, item, e)) \<Rightarrow> (pos, e, Some item) | (pos, None) \<Rightarrow> (pos, pos, None)) \<and>
    find_with_prev dim target bias t =
      (if past_end target bias (extent dim t) then Some (extent dim t, extent dim t, None)
       else Some (case find_items dim (in_child target bias) (d_zero dim) None (elems t) (map (s_item ops) (elems t)) of
          (pos, Some (prev, item, e)) \<Rightarrow> (pos, e, Some (prev, item)) | (pos, None) \<Rightarrow> (pos, pos, None)))"
  using tree_dimension.find_correct [OF assms(1,2)] tree_dimension.find_with_prev_correct [OF assms(1,2)] assms(3)
  unfolding item_ends_def by blast

lemma sample_mono: "mono_target (ord_cmp (Some k)) (item_ends map_ops map_dim (d_zero map_dim) (elems sample_tree))"
  using map.keyed_mono [OF sorted_sample(1)] by (simp add: map_item_ends)

theorem find_is_linear_scan_witness:
  "tree_find map_dim (ord_cmp (Some 4)) Left sample_tree = (Some 3, Some 5, Some (MapEntry 5 50)) \<and>
   find_with_prev map_dim (ord_cmp (Some 4)) Left sample_tree = Some (Some 3, Some 5, Some (Some (MapEntry 3 30), MapEntry 5 50))"
proof -
  have "find_items map_dim (in_child (ord_cmp (Some 4)) Left) None None (elems sample_tree) (map entry_key (elems sample_tree)) =
      (Some 3, Some (Some (MapEntry 3 30), MapEntry 5 50, Some 5))"
    by (simp add: elems_sample sample_entries_def map_dim_def in_child_def ord_cmp_def entry_key_def)
  then show ?thesis
    using find_is_linear_scan [OF map.tree_dimension_axioms wf_sample(2) sample_mono, of 4 Left]
    by (simp add: extent_def sample_tree_def map_dim_def past_end_def ord_cmp_def)
qed

section \<open>Cursors\<close>

text \<open>Seeking: on a well-formed tree that fits the cursor's stack, from a new cursor or one that
  stands at index \<open>n\<close>, \<open>slice\<close> to a target that is not behind and that is monotone along the items
  does not panic, returns a well-formed tree of exactly the items passed over and leaves the cursor
  at the first item not passed; \<open>suffix\<close> returns all the remaining items.\<close>

theorem cursor_slice_correct:
  assumes "tree_dimension ops dim" "wf_tree ops (c_tree c)" "height (c_tree c) < STACK_CAPACITY" "cursor_ready ops dim c n"
    and "is_ge (target (c_position c))" "mono_target target (item_ends ops dim (c_position c) (drop n (elems (c_tree c))))"
    and "k = stop_at ops dim target bias (c_position c) (drop n (elems (c_tree c)))"
  shows "(\<exists>c' t. cursor_slice ops dim target bias c = Some (c', t) \<and> c_tree c' = c_tree c \<and> cursor_at ops dim c' (n + k) \<and>
      wf_tree ops t \<and> elems t = take k (drop n (elems (c_tree c)))) \<and>
    (\<exists>c' t. cursor_suffix ops dim c = Some (c', t) \<and> wf_tree ops t \<and> elems t = drop n (elems (c_tree c)))"
  by (rule conjI [OF tree_dimension.slice_correct [OF assms] tree_dimension.suffix_correct [OF assms(1-4)]])

lemma sample_ready: "cursor_ready map_ops map_dim (cursor_new map_dim sample_tree) 0"
  by (simp add: cursor_ready_def)

lemma sample_stop:
  "stop_at map_ops map_dim (ord_cmp (Some 5)) Right None (elems sample_tree) = 3"
  "stop_at map_ops map_dim (ord_cmp (Some 5)) Left None (elems sample_tree) = 2"
  by (simp_all add: stop_at_def elems_sample sample_entries_def map_dim_def past_end_def ord_cmp_def entry_key_def)

lemma sample_new: "c_position (cursor_new map_dim sample_tree) = None" "height sample_tree < STACK_CAPACITY"
  by (simp_all add: cursor_new_def height_sample STACK_CAPACITY_def)

theorem cursor_slice_correct_witness:
  "(\<exists>c' t. cursor_slice map_ops map_dim (ord_cmp (Some 5)) Right (cursor_new map_dim sample_tree) = Some (c', t) \<and>
      c_tree c' = sample_tree \<and> cursor_at map_ops map_dim c' 3 \<and> wf_tree map_ops t \<and> elems t = sample_entries) \<and>
   (\<exists>c' t. cursor_suffix map_ops map_dim (cursor_new map_dim sample_tree) = Some (c', t) \<and> wf_tree map_ops t \<and>
      elems t = elems sample_tree)"
proof -
  let ?c = "cursor_new map_dim sample_tree"
  have pre: "wf_tree map_ops (c_tree ?c)" "height (c_tree ?c) < STACK_CAPACITY" "is_ge (ord_cmp (Some 5) (c_position ?c))"
    "mono_target (ord_cmp (Some 5)) (item_ends map_ops map_dim (c_position ?c) (drop 0 (elems (c_tree ?c))))"
    "3 = stop_at map_ops map_dim (ord_cmp (Some 5)) Right (c_position ?c) (drop 0 (elems (c_tree ?c)))"
    using wf_sample(2) sample_new sample_mono [of 5] sample_stop(1) by (simp_all add: is_ge_def)
  have "take 3 (drop 0 (elems (c_tree ?c))) = sample_entries" by (simp add: elems_sample sample_entries_def)
  with cursor_slice_correct [OF map.tree_dimension_axioms pre(1,2) sample_ready pre(3-5)] show ?thesis by simp
qed

text \<open>C8. \<open>seek\<close> goes to the first item not passed over and answers whether the target is exactly
  the end of that item (bias left) or the position reached (bias right).\<close>

theorem cursor_seek_correct:
  assumes "tree_dimension ops dim" "wf_tree ops (c_tree c)" "height (c_tree c) < STACK_CAPACITY"
    and "is_ge (target (d_zero dim))" "mono_target target (item_ends ops dim (d_zero dim) (elems (c_tree c)))"
    and "k = stop_at ops dim target bias (d_zero dim) (elems (c_tree c))"
  shows "\<exists>c'. cursor_seek dim target bias c = Some (c',
       target (pos_at ops dim (d_zero dim) (take (if bias = Left then Suc k else k) (elems (c_tree c)))) = Equal) \<and>
    c_tree c' = c_tree c \<and> cursor_at ops dim c' k \<and> cursor_item c' = Some (get_opt (elems (c_tree c)) k)"
  using tree_dimension.seek_correct [OF assms] cursor_item_at(1) assms(2) by metis

theorem cursor_seek_correct_witness:
  "\<exists>c'. cursor_seek map_dim (ord_cmp (Some 5)) Left (cursor_new map_dim sample_tree) = Some (c', True) \<and>
    c_tree c' = sample_tree \<and> cursor_at map_ops map_dim c' 2 \<and> cursor_item c' = Some (Some (MapEntry 5 50))"
proof -
  let ?c = "cursor_new map_dim sample_tree"
  have pre: "wf_tree map_ops (c_tree ?c)" "height (c_tree ?c) < STACK_CAPACITY" "is_ge (ord_cmp (Some 5) (d_zero map_dim))"
    "mono_target (ord_cmp (Some 5)) (item_ends map_ops map_dim (d_zero map_dim) (elems (c_tree ?c)))"
    "2 = stop_at map_ops map_dim (ord_cmp (Some 5)) Left (d_zero map_dim) (elems (c_tree ?c))"
    using wf_sample(2) sample_new sample_mono [of 5] sample_stop(2) by (simp_all add: is_ge_def)
  have "pos_at map_ops map_dim (d_zero map_dim) (take (Suc 2) (elems (c_tree ?c))) = Some 5"
    "get_opt (elems (c_tree ?c)) 2 = Some (MapEntry 5 50)"
    by (simp_all add: elems_sample sample_entries_def map_dim_def entry_key_def get_opt_def)
  with cursor_seek_correct [OF map.tree_dimension_axioms pre] show ?thesis by (simp add: get_opt_def)
qed

text \<open>\<open>Cursor::summary\<close> returns, in the output dimension, the sum of exactly the items passed
  over.\<close>

theorem cursor_summary_correct:
  assumes "tree_dimension ops dim" "tree_dimension ops out"
    and "wf_tree ops (c_tree c)" "height (c_tree c) < STACK_CAPACITY" "cursor_ready ops dim c n"
    and "is_ge (target (c_position c))" "mono_target target (item_ends ops dim (c_position c) (drop n (elems (c_tree c))))"
    and "k = stop_at ops dim target bias (c_position c) (drop n (elems (c_tree c)))"
  shows "\<exists>c'. cursor_summary out dim target bias c =
      Some (c', pos_at ops out (d_zero out) (take k (drop n (elems (c_tree c))))) \<and> cursor_at ops dim c' (n + k)"
proof -
  have "output_dimension ops dim out" using assms(1,2) by (simp add: output_dimension_def)
  from output_dimension.cursor_sum [OF this assms(3-8)] show ?thesis .
qed

theorem cursor_summary_correct_witness:
  "\<exists>c'. cursor_summary map_dim map_dim (ord_cmp (Some 5)) Right (cursor_new map_dim sample_tree) = Some (c', Some 5) \<and>
     cursor_at map_ops map_dim c' 3"
proof -
  let ?c = "cursor_new map_dim sample_tree"
  have pre: "wf_tree map_ops (c_tree ?c)" "height (c_tree ?c) < STACK_CAPACITY" "is_ge (ord_cmp (Some 5) (c_position ?c))"
    "mono_target (ord_cmp (Some 5)) (item_ends map_ops map_dim (c_position ?c) (drop 0 (elems (c_tree ?c))))"
    "3 = stop_at map_ops map_dim (ord_cmp (Some 5)) Right (c_position ?c) (drop 0 (elems (c_tree ?c)))"
    using wf_sample(2) sample_new sample_mono [of 5] sample_stop(1) by (simp_all add: is_ge_def)
  have "pos_at map_ops map_dim (d_zero map_dim) (take 3 (drop 0 (elems (c_tree ?c)))) = Some 5"
    by (simp add: elems_sample sample_entries_def map_dim_def entry_key_def)
  with cursor_summary_correct [OF map.tree_dimension_axioms map.tree_dimension_axioms pre(1,2) sample_ready pre(3-5)]
  show ?thesis by simp
qed

text \<open>\<open>search_forward\<close> with a filter that is conservative on subtrees moves from the item at
  index \<open>n\<close> to the next later item whose summary the filter accepts, or to the end; \<open>next\<close> is the
  case of the filter that accepts everything.\<close>

theorem cursor_forward_correct:
  assumes "tree_dimension ops dim" "wf_tree ops (c_tree c)" "height (c_tree c) < STACK_CAPACITY"
    and "conservative ops f" "cursor_at ops dim c n"
  shows "\<exists>c'. search_forward dim f c = Some c' \<and> c_tree c' = c_tree c \<and>
    cursor_at ops dim c' (case first_sat (\<lambda>x. f (s_item ops x)) (drop (Suc n) (elems (c_tree c))) of
      Some k \<Rightarrow> Suc n + k | None \<Rightarrow> length (elems (c_tree c)))"
  by (rule tree_dimension.search_forward_correct(2) [OF assms])

text \<open>\<open>search_backward\<close> moves from index \<open>n\<close> to the last earlier item the filter accepts; if
  there is none it leaves the cursor before the first item (or at the end of an empty tree).\<close>

theorem cursor_backward_correct:
  assumes "tree_dimension ops dim" "wf_tree ops (c_tree c)" "height (c_tree c) < STACK_CAPACITY"
    and "conservative ops f" "cursor_at ops dim c n"
  shows "\<exists>c'. search_backward dim f c = Some c' \<and> c_tree c' = c_tree c \<and>
    (case last_sat (\<lambda>x. f (s_item ops x)) (take n (elems (c_tree c))) of
       Some k \<Rightarrow> cursor_at ops dim c' k
     | None \<Rightarrow> if elems (c_tree c) = [] then cursor_at ops dim c' 0 else cursor_before dim c')"
  by (rule tree_dimension.search_backward_correct [OF assms(1-4) disjI1 [OF assms(5)]])

text \<open>A cursor on the sample tree at index 3, for the witnesses.\<close>

definition sample_cursor :: "((nat, nat) map_entry, nat option, nat option) cursor" where
  "sample_cursor = \<lparr>c_tree = sample_tree,
     c_stack = [\<lparr>se_tree = Leaf (Some 8) [MapEntry 7 70, MapEntry 8 80] [Some 7, Some 8], se_index = 0, se_position = Some 5\<rparr>,
                \<lparr>se_tree = sample_tree, se_index = 1, se_position = Some 5\<rparr>],
     c_position = Some 5, c_did_seek = True, c_at_end = False\<rparr>"

lemma sample_cursor_at:
  "cursor_at map_ops map_dim sample_cursor 3" "c_tree sample_cursor = sample_tree"
  by (simp_all add: cursor_at_def sample_cursor_def elems_sample)
    (simp add: sample_defs before_def pos_at_def map_dim_def end_of_def entry_key_def)

theorem cursor_forward_correct_witness:
  "\<exists>c'. search_forward map_dim (\<lambda>_. True) sample_cursor = Some c' \<and> c_tree c' = sample_tree \<and> cursor_at map_ops map_dim c' 4"
  using cursor_forward_correct [OF map.tree_dimension_axioms _ _ conservative_True sample_cursor_at(1)]
    wf_sample(2) sample_new(2) sample_cursor_at(2)
  by (simp add: elems_sample sample_entries_def)

theorem cursor_backward_correct_witness:
  "\<exists>c'. search_backward map_dim (\<lambda>_. True) sample_cursor = Some c' \<and> c_tree c' = sample_tree \<and> cursor_at map_ops map_dim c' 2"
  using cursor_backward_correct [OF map.tree_dimension_axioms _ _ conservative_True sample_cursor_at(1)]
    wf_sample(2) sample_new(2) sample_cursor_at(2)
  by (simp add: elems_sample sample_entries_def numeral_2_eq_2)

text \<open>A cursor at index \<open>n\<close> reads the sequence there: \<open>item\<close>, \<open>item_summary\<close> and \<open>end\<close> are
  those of the \<open>n\<close>th item, \<open>next_item\<close> and \<open>prev_item\<close>, which climb the stack to the neighbouring
  leaf, are the items after and before it, and none of them panics.\<close>

theorem cursor_reads_correct:
  assumes "cursor_at ops dim c n" "wf_tree ops (c_tree c)"
  shows "cursor_item c = Some (get_opt (elems (c_tree c)) n) \<and>
    cursor_item_summary c = Some (map_option (s_item ops) (get_opt (elems (c_tree c)) n)) \<and>
    cursor_end dim c = Some (pos_at ops dim (d_zero dim) (take (Suc n) (elems (c_tree c)))) \<and>
    next_item c = Some (get_opt (elems (c_tree c)) (Suc n)) \<and>
    prev_item c = Some (if n = 0 then None else Some (elems (c_tree c) ! (n - 1)))"
  using cursor_item_at [OF assms] cursor_end_at [OF assms] next_item_at [OF assms] prev_item_at [OF assms] by simp

theorem cursor_reads_correct_witness:
  "cursor_item sample_cursor = Some (Some (MapEntry 7 70)) \<and> cursor_item_summary sample_cursor = Some (Some (Some 7)) \<and>
   cursor_end map_dim sample_cursor = Some (Some 7) \<and> next_item sample_cursor = Some (Some (MapEntry 8 80)) \<and>
   prev_item sample_cursor = Some (Some (MapEntry 5 50))"
  using cursor_reads_correct [OF sample_cursor_at(1)] wf_sample(2) sample_cursor_at(2)
  by (simp add: elems_sample sample_entries_def get_opt_def entry_key_def map_dim_def)

text \<open>C9. \<open>Iter\<close> and \<open>items\<close> enumerate the sequence in order and then stop: one call more than
  there are items is enough.\<close>

theorem tree_iteration_complete:
  assumes "summary_monoid ops" "wf_tree ops t" "height t < STACK_CAPACITY" "length (elems t) < fuel"
  shows "iter_collect fuel (iter_new t) = Some (elems t) \<and> tree_items fuel t = Some (elems t)"
  using summary_monoid.iter_collect_correct [OF assms] summary_monoid.tree_items_correct [OF assms] by simp

theorem tree_iteration_complete_witness:
  "iter_collect 6 (iter_new sample_tree) = Some (elems sample_tree) \<and> tree_items 6 sample_tree = Some (elems sample_tree)"
  using tree_iteration_complete [OF map.summary_monoid_axioms wf_sample(2) sample_new(2), of 6]
  by (simp add: elems_sample sample_entries_def)

section \<open>Keyed trees\<close>

text \<open>C10. On a tree sorted by key, \<open>insert_or_replace\<close> and \<open>remove\<close> do not panic, return the item that
  had the key, keep the tree well-formed and sorted, and update the finite map it represents at that
  key only; \<open>get\<close> is its lookup.\<close>

theorem keyed_tree_refines_map:
  assumes "keyed_tree ops kdim key" "wf_tree ops t" "height t < STACK_CAPACITY" "sorted_keys key (elems t)" "d_zero kdim \<le> k"
  shows "(\<exists>t'. tree_insert_or_replace ops kdim key t x = Some (t', lookup key (elems t) (key x)) \<and> wf_tree ops t' \<and>
      sorted_keys key (elems t') \<and> lookup key (elems t') = (lookup key (elems t))(key x \<mapsto> x)) \<and>
    (\<exists>t'. tree_remove ops kdim key t k = Some (t', lookup key (elems t) k) \<and> wf_tree ops t' \<and>
      sorted_keys key (elems t') \<and> lookup key (elems t') = (lookup key (elems t))(k := None)) \<and>
    tree_get kdim t k = lookup key (elems t) k"
  using keyed_tree.insert_refines [OF assms(1-4), of x] keyed_tree.remove_refines [OF assms]
    keyed_tree.get_correct [OF assms(1,2,4), of k] by simp

theorem keyed_tree_refines_map_witness:
  "(\<exists>t'. tree_insert_or_replace map_ops map_dim entry_key sample_tree (MapEntry 3 33) = Some (t', Some (MapEntry 3 30)) \<and>
      wf_tree map_ops t' \<and> sorted_keys entry_key (elems t') \<and>
      lookup entry_key (elems t') = (lookup entry_key (elems sample_tree))(Some 3 \<mapsto> MapEntry 3 33)) \<and>
   (\<exists>t'. tree_remove map_ops map_dim entry_key sample_tree (Some 3) = Some (t', Some (MapEntry 3 30)) \<and>
      wf_tree map_ops t' \<and> sorted_keys entry_key (elems t') \<and>
      lookup entry_key (elems t') = (lookup entry_key (elems sample_tree))(Some 3 := None)) \<and>
   tree_get map_dim sample_tree (Some 3) = Some (MapEntry 3 30)"
proof -
  have "lookup entry_key (elems sample_tree) (Some 3) = Some (MapEntry 3 30)" "entry_key (MapEntry 3 (33::nat)) = Some (3::nat)"
    by (simp_all add: elems_sample sample_entries_def entry_key_def)
  with keyed_tree_refines_map [OF map.keyed_tree_axioms wf_sample(2) sample_new(2) sorted_sample(1), of "Some 3" "MapEntry 3 33"]
  show ?thesis by simp
qed

text \<open>\<open>edit\<close> applies a batch of insertions and removals in one pass of a cursor: with distinct
  keys the map afterwards has, for each edited key, what its edit says, and is unchanged elsewhere;
  the tree stays well-formed and sorted.\<close>

theorem tree_edit_refines_map:
  assumes "keyed_tree ops kdim key" "wf_tree ops t" "height t < STACK_CAPACITY" "sorted_keys key (elems t)"
    and "distinct (map (edit_key key) es)"
  shows "\<exists>t' removed. tree_edit ops kdim key t es = Some (t', removed) \<and> wf_tree ops t' \<and> sorted_keys key (elems t') \<and>
    lookup key (elems t') = edited key es (lookup key (elems t))"
  by (rule keyed_tree.edit_refines [OF assms])

theorem tree_edit_refines_map_witness:
  "\<exists>t' removed. tree_edit map_ops map_dim entry_key sample_tree [Insert (MapEntry 4 44), Remove (Some 3)] = Some (t', removed) \<and>
     wf_tree map_ops t' \<and> sorted_keys entry_key (elems t') \<and>
     lookup entry_key (elems t') =
     edited entry_key [Insert (MapEntry 4 44), Remove (Some 3)] (lookup entry_key (elems sample_tree))"
  using tree_edit_refines_map [OF map.keyed_tree_axioms wf_sample(2) sample_new(2) sorted_sample(1),
      of "[Insert (MapEntry 4 44), Remove (Some 3)]"]
  by (simp add: entry_key_def)

section \<open>Maps and sets\<close>

text \<open>What a map promises its clients (\<open>room\<close>: the tree is not too tall for a cursor).\<close>

locale ordered_map =
  fixes valid room :: "'m \<Rightarrow> bool"
    and abs :: "'m \<Rightarrow> 'k \<rightharpoonup> 'v"
    and get :: "'m \<Rightarrow> 'k \<Rightarrow> 'v option"
    and ins :: "'m \<Rightarrow> 'k \<Rightarrow> 'v \<Rightarrow> 'm option"
    and del :: "'m \<Rightarrow> 'k \<Rightarrow> ('m \<times> 'v option) option"
  assumes get_abs: "valid m \<Longrightarrow> get m k = abs m k"
    and ins_abs: "valid m \<Longrightarrow> room m \<Longrightarrow> \<exists>m'. ins m k v = Some m' \<and> valid m' \<and> abs m' = (abs m)(k \<mapsto> v)"
    and del_abs: "valid m \<Longrightarrow> room m \<Longrightarrow> \<exists>m'. del m k = Some (m', abs m k) \<and> valid m' \<and> abs m' = (abs m)(k := None)"
begin

lemma get_ins:
  assumes "valid m" "room m"
  shows "\<exists>m'. ins m k v = Some m' \<and> valid m' \<and> (\<forall>j. get m' j = (if j = k then Some v else get m j))"
proof -
  obtain m' where "ins m k v = Some m'" "valid m'" "abs m' = (abs m)(k \<mapsto> v)" using ins_abs [OF assms] by blast
  with get_abs assms show ?thesis by auto
qed

lemma get_del:
  assumes "valid m" "room m"
  shows "\<exists>m'. del m k = Some (m', get m k) \<and> valid m' \<and> (\<forall>j. get m' j = (if j = k then None else get m j))"
proof -
  obtain m' where "del m k = Some (m', abs m k)" "valid m'" "abs m' = (abs m)(k := None)" using del_abs [OF assms] by blast
  with get_abs assms show ?thesis by auto
qed

end

interpretation tm: ordered_map valid_map has_room map_abs map_get map_insert map_remove
proof
  show "\<And>m k. valid_map m \<Longrightarrow> map_get m k = map_abs m k" by (rule map_get_abs)
  show "\<exists>m'. map_insert m k v = Some m' \<and> valid_map m' \<and> map_abs m' = (map_abs m)(k \<mapsto> v)"
    if "valid_map m" "has_room m" for m :: "('a, 'b) tree_map" and k v
    using map_insert_refines [OF that, of k v] by auto
  show "\<And>m k. valid_map m \<Longrightarrow> has_room m \<Longrightarrow>
      \<exists>m'. map_remove m k = Some (m', map_abs m k) \<and> valid_map m' \<and> map_abs m' = (map_abs m)(k := None)"
    by (rule map_remove_refines)
qed

lemma valid_sample: "valid_map sample_tree" "has_room sample_tree"
  using wf_sample(2) sorted_sample(1) sample_new(2) by (simp_all add: valid_map_def has_room_def)

text \<open>\<open>TreeMap\<close>: after \<open>insert\<close> a key has its new value and every other key the value it had;
  after \<open>remove\<close> it has none, and \<open>remove\<close> returns the value it had; \<open>insert_or_replace\<close> returns the
  value replaced. None of them panics, and entries stay strictly sorted by key.\<close>

theorem tree_map_get_after:
  assumes "valid_map m" "has_room m"
  shows "(\<exists>m'. map_insert m k v = Some m' \<and> map_insert_or_replace m k v = Some (m', map_get m k) \<and> valid_map m' \<and>
      (\<forall>j. map_get m' j = (if j = k then Some v else map_get m j))) \<and>
    (\<exists>m'. map_remove m k = Some (m', map_get m k) \<and> valid_map m' \<and>
      (\<forall>j. map_get m' j = (if j = k then None else map_get m j)))"
  using map_insert_refines [OF assms, of k v] tm.get_ins [OF assms, of k v] tm.get_del [OF assms, of k] map_get_abs [OF assms(1)]
  by auto

theorem tree_map_get_after_witness:
  "(\<exists>m'. map_insert sample_tree 4 40 = Some m' \<and> map_insert_or_replace sample_tree 4 40 = Some (m', map_get sample_tree 4) \<and>
      valid_map m' \<and> (\<forall>j. map_get m' j = (if j = 4 then Some 40 else map_get sample_tree j))) \<and>
   (\<exists>m'. map_remove sample_tree 4 = Some (m', map_get sample_tree 4) \<and> valid_map m' \<and>
      (\<forall>j. map_get m' j = (if j = 4 then None else map_get sample_tree j)))"
  by (rule tree_map_get_after [OF valid_sample])

text \<open>\<open>update\<close> replaces the value of a present key by the closure's and returns its result; an
  absent key leaves the map unchanged and returns \<open>None\<close>.\<close>

theorem tree_map_update_correct:
  assumes "valid_map m" "has_room m"
  shows "\<exists>m'. map_update m k f = Some (m', map_option (snd \<circ> f) (map_get m k)) \<and> valid_map m' \<and>
    (\<forall>j. map_get m' j = (if j = k then map_option (fst \<circ> f) (map_get m k) else map_get m j))"
proof -
  obtain m' where m': "map_update m k f = Some (m', map_option (snd \<circ> f) (map_abs m k))" "valid_map m'"
    "map_abs m' = (case map_abs m k of Some v \<Rightarrow> (map_abs m)(k \<mapsto> fst (f v)) | None \<Rightarrow> map_abs m)"
    using map_update_refines [OF assms] by blast
  then show ?thesis
    using map_get_abs [OF assms(1)] map_get_abs [OF m'(2)] by (auto split: option.splits)
qed

theorem tree_map_update_correct_witness:
  "\<exists>m'. map_update sample_tree 3 (\<lambda>v. (v + 1, v)) = Some (m', map_option (snd \<circ> (\<lambda>v. (v + 1, v))) (map_get sample_tree 3)) \<and>
     valid_map m' \<and>
     (\<forall>j. map_get m' j = (if j = 3 then map_option (fst \<circ> (\<lambda>v. (v + 1, v))) (map_get sample_tree 3) else map_get sample_tree j))"
  by (rule tree_map_update_correct [OF valid_sample])

text \<open>\<open>closest\<close> returns the entry with the greatest key that is at most the given one.\<close>

theorem tree_map_closest_correct:
  assumes "valid_map m" "has_room m"
  shows "\<exists>r. closest m k = Some r \<and>
    (case r of
       Some (k', v) \<Rightarrow> map_get m k' = Some v \<and> k' \<le> k \<and> (\<forall>j v'. map_get m j = Some v' \<and> j \<le> k \<longrightarrow> j \<le> k')
     | None \<Rightarrow> \<forall>j v'. map_get m j = Some v' \<longrightarrow> \<not> j \<le> k)"
proof -
  let ?es = "filter (\<lambda>(k', v). k' \<le> k) (entries m)"
  have s: "sorted_wrt (<) (map fst (entries m))" using valid_map_entries [OF assms(1)] .
  then have d: "distinct (map fst (entries m))" by (simp add: strict_sorted_iff)
  have get: "map_get m j = Some v' \<longleftrightarrow> (j, v') \<in> set (entries m)" for j v'
    using map_get_abs [OF assms(1)] d by (simp add: map_abs_def)
  show ?thesis
  proof (cases ?es rule: rev_cases)
    case Nil
    then have "\<forall>j v'. (j, v') \<in> set (entries m) \<longrightarrow> \<not> j \<le> k" by (auto simp: filter_empty_conv)
    with closest_correct [OF assms, of k] Nil get show ?thesis by simp
  next
    case (snoc es e)
    obtain k' v where e: "e = (k', v)" by (cases e)
    have "sorted_wrt (<) (map fst ?es)"
      using s by (simp add: sorted_wrt_map sorted_wrt_filter)
    then have "\<forall>x \<in> set es. fst x < k'" using snoc e by (auto simp: sorted_wrt_append)
    then have "\<forall>x \<in> set ?es. fst x \<le> k'" using snoc e by (auto simp: less_imp_le)
    then have greatest: "j \<le> k'" if "(j, v') \<in> set (entries m)" "j \<le> k" for j v'
      using that by force
    have "(k', v) \<in> set ?es" using snoc e by simp
    then have "(k', v) \<in> set (entries m)" "k' \<le> k" by simp_all
    moreover have "closest m k = Some (Some (k', v))" using closest_correct [OF assms, of k] snoc e by simp
    ultimately show ?thesis using get greatest by auto
  qed
qed

theorem tree_map_closest_correct_witness:
  "\<exists>r. closest sample_tree 6 = Some r \<and>
    (case r of
       Some (k', v) \<Rightarrow> map_get sample_tree k' = Some v \<and> k' \<le> 6 \<and> (\<forall>j v'. map_get sample_tree j = Some v' \<and> j \<le> 6 \<longrightarrow> j \<le> k')
     | None \<Rightarrow> \<forall>j v'. map_get sample_tree j = Some v' \<longrightarrow> \<not> j \<le> 6)"
  by (rule tree_map_closest_correct [OF valid_sample])

text \<open>\<open>remove_range\<close> with monotone bounds whose start is not after their end, removes exactly the
  entries from the start (inclusive) up to the end (exclusive), and \<open>retain\<close> exactly the entries its
  predicate rejects; both keep the order of the rest.\<close>

theorem tree_map_range_correct:
  assumes "valid_map m" "has_room m" "monotone_cmp start" "monotone_cmp finish"
    and "\<And>k. start k = Greater \<Longrightarrow> finish k = Greater"
  shows "(\<exists>m'. remove_range m start finish = Some m' \<and> valid_map m' \<and>
      entries m' = filter (\<lambda>(k, v). start k = Greater \<or> finish k \<noteq> Greater) (entries m)) \<and>
    (\<exists>m'. map_retain m P = Some m' \<and> valid_map m' \<and> entries m' = filter (\<lambda>(k, v). P k v) (entries m))"
  by (rule conjI [OF remove_range_correct [OF assms(1-4)] map_retain_correct [OF assms(1,2)]]) (rule assms(5))

theorem tree_map_range_correct_witness:
  "(\<exists>m'. remove_range sample_tree (ord_cmp 3) (ord_cmp 7) = Some m' \<and> valid_map m' \<and> entries m' = [(1, 10), (7, 70), (8, 80)]) \<and>
   (\<exists>m'. map_retain sample_tree (\<lambda>k v. even v) = Some m' \<and> valid_map m' \<and> entries m' = entries sample_tree)"
proof -
  have "ord_cmp 3 k = Greater \<Longrightarrow> ord_cmp 7 k = Greater" for k :: nat by (simp add: ord_cmp_def split: if_splits)
  moreover have "filter (\<lambda>(k, v). ord_cmp 3 k = Greater \<or> ord_cmp 7 k \<noteq> Greater) (entries sample_tree) = [(1, 10), (7, 70), (8, 80)]"
    "filter (\<lambda>(k, v). even v) (entries sample_tree) = entries sample_tree"
    by (simp_all add: entries_def elems_sample sample_entries_def ord_cmp_def)
  ultimately show ?thesis
    using tree_map_range_correct [OF valid_sample monotone_ord_cmp monotone_ord_cmp, of 3 7 "\<lambda>k v. even v"] by simp
qed

text \<open>\<open>extend\<close> with distinct keys overrides the map by the given pairs, and
  \<open>from_ordered_entries\<close> of strictly sorted pairs is the map with exactly these entries.\<close>

theorem tree_map_extend_correct:
  assumes "valid_map m" "has_room m" "distinct (map fst kvs)" "sorted_wrt (<) (map fst kvs')"
  shows "(\<exists>m'. map_extend m kvs = Some m' \<and> valid_map m' \<and> map_abs m' = map_abs m ++ map_of kvs) \<and>
    (\<exists>m'. from_ordered_entries kvs' = Some m' \<and> valid_map m' \<and> entries m' = kvs')"
  using map_extend_refines [OF assms(1-3)] from_ordered_entries_correct [OF assms(4)] by blast

theorem tree_map_extend_correct_witness:
  "(\<exists>m'. map_extend sample_tree [(9, 90), (2, 20)] = Some m' \<and> valid_map m' \<and> map_abs m' = map_abs sample_tree ++ map_of [(9, 90), (2, 20)]) \<and>
   (\<exists>m'. from_ordered_entries [(1::nat, ''a''), (2, ''b'')] = Some m' \<and> valid_map m' \<and> entries m' = [(1, ''a''), (2, ''b'')])"
  using tree_map_extend_correct [OF valid_sample, of "[(9, 90), (2, 20)]" "[(1::nat, ''a''), (2, ''b'')]"] by simp

text \<open>\<open>TreeSet\<close>: \<open>insert\<close> makes a key a member, \<open>remove\<close> makes it none and answers whether it
  was one; other keys are untouched.\<close>

theorem tree_set_member_after:
  assumes "valid_map s" "has_room s"
  shows "(\<exists>s'. set_insert s k = Some s' \<and> valid_map s' \<and> (\<forall>j. set_contains s' j \<longleftrightarrow> j = k \<or> set_contains s j)) \<and>
    (\<exists>s'. set_remove s k = Some (s', set_contains s k) \<and> valid_map s' \<and>
      (\<forall>j. set_contains s' j \<longleftrightarrow> j \<noteq> k \<and> set_contains s j))"
  using tm.get_ins [OF assms, of k "()"] tm.get_del [OF assms, of k]
  by (fastforce simp: set_insert_def set_remove_def set_contains_def)

theorem tree_set_member_after_witness:
  "(\<exists>s'. set_insert map_clear (1::nat) = Some s' \<and> valid_map s' \<and> (\<forall>j. set_contains s' j \<longleftrightarrow> j = 1 \<or> set_contains map_clear j)) \<and>
   (\<exists>s'. set_remove map_clear (1::nat) = Some (s', set_contains map_clear (1::nat)) \<and> valid_map s' \<and>
      (\<forall>j. set_contains s' j \<longleftrightarrow> j \<noteq> 1 \<and> set_contains map_clear j))"
  using tree_set_member_after [of "map_clear :: nat tree_set" 1]
  by (simp add: map_clear_def valid_map_def has_room_def) (simp add: tree_new_def STACK_CAPACITY_def)

end
