(* ===== verification/Locator.thy ===== *)
theory Locator
  imports Prelude SumTree_Search "HOL-Library.List_Lexorder"
begin

text \<open>
  Locators (\<open>crates/text/src/locator.rs\<close>): the identifiers fragments of a buffer are ordered by.

  A locator is a sequence of 64-bit numbers under the lexicographic order. \<open>between\<close> zips its two
  arguments, continued for ever with the least and the greatest number, and stops at the first
  position where there is room; the recursion below ends because both continuations leave room.
\<close>

section \<open>Model\<close>

datatype locator = Locator (loc_ids: "u64 list")

instantiation locator :: linorder
begin

definition less_eq_locator :: "locator \<Rightarrow> locator \<Rightarrow> bool" where
  "a \<le> b \<longleftrightarrow> loc_ids a \<le> loc_ids b"

definition less_locator :: "locator \<Rightarrow> locator \<Rightarrow> bool" where
  "a < b \<longleftrightarrow> loc_ids a < loc_ids b"

instance
  by standard (auto simp: less_eq_locator_def less_locator_def locator.expand)

end

definition locator_min :: locator where
  "locator_min = Locator [0]"

definition locator_max :: locator where
  "locator_max = Locator [- 1]"

definition saturating_sub :: "'a::len word \<Rightarrow> 'a word \<Rightarrow> 'a word" where
  "saturating_sub a b = (if b \<le> a then a - b else 0)"

definition locator_mid :: "u64 \<Rightarrow> u64 \<Rightarrow> u64 option" where
  "locator_mid lhs rhs = checked_add lhs (drop_bit 48 (saturating_sub rhs lhs))"

definition head_or :: "'a \<Rightarrow> 'a list \<Rightarrow> 'a" where
  "head_or d xs = (case xs of [] \<Rightarrow> d | x # _ \<Rightarrow> x)"

lemma head_or_simps [simp]: "head_or d [] = d" "head_or d (x # xs) = x"
  by (simp_all add: head_or_def)

text \<open>The midpoint lies between its arguments, and above the first if they are far apart.\<close>

lemma unat_drop_48: "unat (drop_bit 48 w) = unat w div 2 ^ 48" for w :: u64
  by (simp add: unat_drop_bit_eq drop_bit_eq_div [of _ "unat w"])

lemma locator_mid_le:
  "lhs \<le> rhs \<Longrightarrow> \<exists>mid. locator_mid lhs rhs = Some mid \<and> lhs \<le> mid \<and> mid \<le> rhs \<and> (lhs < rhs \<longrightarrow> mid < rhs)"
proof -
  assume le: "lhs \<le> rhs"
  let ?d = "unat rhs - unat lhs"
  have d: "unat (drop_bit 48 (saturating_sub rhs lhs)) = ?d div 2 ^ 48"
    using le by (simp add: saturating_sub_def unat_drop_48 unat_sub)
  have "unat lhs \<le> unat rhs" using le by (simp add: word_le_nat_alt)
  moreover have "?d div 2 ^ 48 \<le> ?d" by (rule div_le_dividend)
  ultimately have "unat lhs + ?d div 2 ^ 48 \<le> unat rhs" by linarith
  moreover have "unat rhs < 2 ^ 64" using unat_bound [of rhs] by simp
  ultimately have ok: "unat lhs + ?d div 2 ^ 48 < 2 ^ 64" by linarith
  define mid where "mid = lhs + drop_bit 48 (saturating_sub rhs lhs)"
  have m: "locator_mid lhs rhs = Some mid" using ok by (simp add: locator_mid_def checked_add_def d mid_def)
  then have u: "unat mid = unat lhs + ?d div 2 ^ 48"
    unfolding locator_mid_def by (drule_tac unat_checked_add) (simp add: d)
  have "0 < ?d \<Longrightarrow> ?d div 2 ^ 48 < ?d" by (rule div_less_dividend) auto
  with m u le \<open>unat lhs + ?d div 2 ^ 48 \<le> unat rhs\<close> show ?thesis
    by (intro exI [of _ mid]) (auto simp: word_le_nat_alt word_less_nat_alt)
qed

lemma locator_mid_ge: "rhs < lhs \<Longrightarrow> locator_mid lhs rhs = Some lhs"
  using unat_bound [of lhs] by (simp add: locator_mid_def saturating_sub_def checked_add_def)

lemma locator_mid_Some: "\<exists>mid. locator_mid lhs rhs = Some mid \<and> lhs \<le> mid"
  using locator_mid_le [of lhs rhs] locator_mid_ge [of rhs lhs] by (cases "lhs \<le> rhs") auto

lemma locator_mid_ends [simp]: "locator_mid 0 (- 1) = Some 65535"
  by (simp add: locator_mid_def saturating_sub_def checked_add_def mask_eq_exp_minus_1)

function between_loop :: "u64 list \<Rightarrow> u64 list \<Rightarrow> u64 list option" where
  "between_loop lhs rhs = do {
     mid \<leftarrow> locator_mid (head_or 0 lhs) (head_or (- 1) rhs);
     if mid > head_or 0 lhs then Some [mid]
     else do {
       rest \<leftarrow> between_loop (tl lhs) (tl rhs);
       Some (mid # rest)
     }
   }"
  by pat_completeness auto
termination
proof (relation "measure (\<lambda>(l, r). length l + length r)")
  fix lhs rhs :: "u64 list" and mid
  assume "locator_mid (head_or 0 lhs) (head_or (- 1) rhs) = Some mid" "\<not> mid > head_or 0 lhs"
  then have "lhs \<noteq> [] \<or> rhs \<noteq> []" by auto
  then show "((tl lhs, tl rhs), lhs, rhs) \<in> measure (\<lambda>(l, r). length l + length r)"
    by (cases lhs; cases rhs) auto
qed simp

declare between_loop.simps [simp del]

definition locator_between :: "locator \<Rightarrow> locator \<Rightarrow> locator option" where
  "locator_between lhs rhs = map_option Locator (between_loop (loc_ids lhs) (loc_ids rhs))"

text \<open>\<open>assign\<close> copies in place; \<open>copy_from_slice\<close> panics on different lengths.\<close>

definition locator_assign :: "locator \<Rightarrow> locator \<Rightarrow> locator option" where
  "locator_assign self other =
     (let v = resize (length (loc_ids other)) 0 (loc_ids self)
      in if length v = length (loc_ids other) then Some (Locator (loc_ids other)) else None)"

definition locator_len :: "locator \<Rightarrow> nat" where
  "locator_len l = length (loc_ids l)"

text \<open>Locators are items and summaries of a sum tree: the summary of a tree is its last locator.\<close>

definition locator_ops :: "(locator, locator) summary_ops" where
  "locator_ops = \<lparr>s_zero = locator_min, s_add = (\<lambda>a b. the (locator_assign a b)), s_item = id\<rparr>"

definition locator_dim :: "(locator, locator) dimension" where
  "locator_dim = \<lparr>d_zero = locator_min, d_add = (\<lambda>a b. the (locator_assign a b))\<rparr>"

lemma locator_assign_Some [simp]: "locator_assign a b = Some b"
  by (simp add: locator_assign_def Let_def)

interpretation loc: tree_dimension locator_ops locator_dim
  by unfold_locales (simp_all add: locator_ops_def locator_dim_def)

section \<open>Between\<close>

lemma between_loop_greater:
  "\<exists>m. between_loop lhs rhs = Some m \<and> m \<noteq> [] \<and> last m \<noteq> 0 \<and> lhs < m \<and>
     length m \<le> Suc (max (length lhs) (length rhs))"
proof (induction lhs rhs rule: between_loop.induct)
  case (1 lhs rhs)
  obtain mid where mid: "locator_mid (head_or 0 lhs) (head_or (- 1) rhs) = Some mid" "head_or 0 lhs \<le> mid"
    using locator_mid_Some by blast
  show ?case
  proof (cases "mid > head_or 0 lhs")
    case True
    then have "between_loop lhs rhs = Some [mid]" using mid(1) by (subst between_loop.simps) simp
    moreover have "mid \<noteq> 0" using True by auto
    ultimately show ?thesis using True by (cases lhs) auto
  next
    case False
    then have eq: "mid = head_or 0 lhs" and ne: "lhs \<noteq> [] \<or> rhs \<noteq> []" using mid by auto
    obtain m where m: "between_loop (tl lhs) (tl rhs) = Some m" "m \<noteq> []" "last m \<noteq> 0" "tl lhs < m"
      "length m \<le> Suc (max (length (tl lhs)) (length (tl rhs)))"
      using "1.IH" [OF mid(1) False] by blast
    have "between_loop lhs rhs = Some (mid # m)"
      using mid(1) False m(1) by (subst between_loop.simps) simp
    with m eq ne show ?thesis by (cases lhs; cases rhs) auto
  qed
qed

lemma between_loop_less:
  "lhs < rhs \<Longrightarrow> rhs \<noteq> [] \<Longrightarrow> last rhs \<noteq> 0 \<Longrightarrow> between_loop lhs rhs = Some m \<Longrightarrow> m < rhs"
proof (induction lhs rhs arbitrary: m rule: between_loop.induct)
  case (1 lhs rhs)
  obtain r rs where rhs: "rhs = r # rs" using "1.prems"(2) by (cases rhs) auto
  let ?l = "head_or 0 lhs"
  have le: "?l \<le> r" using "1.prems"(1) rhs by (cases lhs) auto
  obtain mid where mid: "locator_mid ?l (head_or (- 1) rhs) = Some mid" "?l \<le> mid" "mid \<le> r" "?l < r \<Longrightarrow> mid < r"
    using locator_mid_le [OF le] rhs by auto
  show ?case
  proof (cases "?l < r")
    case True
    then show ?thesis using mid "1.prems"(4) rhs
      by (subst (asm) between_loop.simps) (auto simp: bind_eq_Some_conv split: if_splits)
  next
    case False
    then have eq: "mid = ?l" "r = ?l" using mid le by auto
    have tls: "tl lhs < rs" "rs \<noteq> []" "last rs \<noteq> 0"
      using "1.prems"(1-3) rhs eq by (cases lhs; cases rs; auto)+
    obtain m' where m': "between_loop (tl lhs) (tl rhs) = Some m'" "m = mid # m'"
      using "1.prems"(4) mid(1) eq by (subst (asm) between_loop.simps) (auto simp: bind_eq_Some_conv)
    have "m' < rs" using "1.IH" [OF mid(1) _ _ _ _ m'(1)] tls eq rhs by simp
    with m' eq rhs show ?thesis by simp
  qed
qed

text \<open>The locators a buffer makes: not empty and not ending in zero, or the minimal one.\<close>

definition proper_locator :: "locator \<Rightarrow> bool" where
  "proper_locator l \<longleftrightarrow> loc_ids l \<noteq> [] \<and> last (loc_ids l) \<noteq> 0"

lemma locator_between_greater:
  assumes "lhs < rhs" "proper_locator rhs"
  shows "\<exists>mid. locator_between lhs rhs = Some mid \<and> lhs < mid \<and> mid < rhs \<and> proper_locator mid \<and>
    locator_len mid \<le> Suc (max (locator_len lhs) (locator_len rhs))"
proof -
  obtain m where "between_loop (loc_ids lhs) (loc_ids rhs) = Some m" "m \<noteq> []" "last m \<noteq> 0" "loc_ids lhs < m"
     "length m \<le> Suc (max (length (loc_ids lhs)) (length (loc_ids rhs)))"
    using between_loop_greater by blast
  moreover then have "m < loc_ids rhs"
    using between_loop_less [of "loc_ids lhs" "loc_ids rhs" m] assms
    by (simp add: less_locator_def proper_locator_def)
  ultimately show ?thesis
    by (simp add: locator_between_def less_locator_def proper_locator_def locator_len_def)
qed

text \<open>C11. \<open>Locator::between(lhs, rhs)\<close> terminates without overflow; its result lies strictly between
  its arguments when they are in order and the right one does not end in zero, does not end in zero
  itself, so that locators made this way can be subdivided for ever, and is at most one number
  longer than the longer argument.\<close>

theorem locator_between_correct:
  assumes "lhs < rhs" "proper_locator rhs"
  shows "\<exists>mid. locator_between lhs rhs = Some mid \<and> lhs < mid \<and> mid < rhs \<and> proper_locator mid \<and>
    locator_len mid \<le> Suc (max (locator_len lhs) (locator_len rhs))"
  by (rule locator_between_greater [OF assms])

theorem locator_between_correct_witness:
  "\<exists>mid. locator_between locator_min locator_max = Some mid \<and> locator_min < mid \<and> mid < locator_max \<and>
     proper_locator mid \<and> locator_len mid \<le> Suc (max (locator_len locator_min) (locator_len locator_max))"
proof -
  have "locator_min < locator_max" "proper_locator locator_max"
    by (simp_all add: locator_min_def locator_max_def less_locator_def proper_locator_def word_gt_0)
  then show ?thesis by (rule locator_between_correct)
qed

text \<open>The side condition is needed: between \<open>[0]\<close> and \<open>[0, 0]\<close> there is no locator at all, and
  \<open>between\<close> returns one above both.\<close>

theorem locator_between_no_room:
  "locator_between (Locator [0]) (Locator [0, 0]) = Some (Locator [0, 0, 65535]) \<and>
   Locator [0, 0] < Locator [0, 0, 65535] \<and>
   (\<forall>m. \<not> (Locator [0] < m \<and> m < Locator [0, 0]))"
proof -
  have z: "locator_mid 0 0 = Some 0" by (simp add: locator_mid_def saturating_sub_def checked_add_def)
  have "between_loop [] [] = Some [65535]" by (simp add: between_loop.simps [of "[]"])
  then have "between_loop [] [0] = Some [0, 65535]" using z by (simp add: between_loop.simps [of "[]" "[0]"])
  then have "between_loop [0] [0, 0] = Some [0, 0, 65535]" using z by (simp add: between_loop.simps [of "[0]"])
  moreover have "\<not> ([0] < ms \<and> ms < [0, 0])" for ms :: "u64 list"
    by (cases ms; cases "tl ms") (auto simp: word_gt_0)
  ultimately show ?thesis by (auto simp: locator_between_def less_locator_def)
qed

end
