(* ===== verification/UndoMap.thy ===== *)
theory UndoMap
  imports Clock TreeMap
begin

text \<open>
  The undo map of a buffer (\<open>crates/text/src/undo_map.rs\<close>): how often each edit has been undone,
  by which undo operation. It is a sum tree of counts keyed by the edit and the undo operation, whose
  summaries are the greatest key; \<open>undo_count\<close> seeks to the first entry of an edit and walks over the
  entries of that edit. The map has an interpretation of \<open>keyed_tree\<close>, so what insertion does to the
  stored entries is that locale's theorem on \<open>edit\<close>.
\<close>

section \<open>Model\<close>

datatype undo_map_key = UndoMapKey (umk_edit_id: lamport) (umk_undo_id: lamport)

instantiation undo_map_key :: linorder
begin

definition less_undo_map_key :: "undo_map_key \<Rightarrow> undo_map_key \<Rightarrow> bool" where
  "a < b \<longleftrightarrow> umk_edit_id a < umk_edit_id b \<or> umk_edit_id a = umk_edit_id b \<and> umk_undo_id a < umk_undo_id b"

definition less_eq_undo_map_key :: "undo_map_key \<Rightarrow> undo_map_key \<Rightarrow> bool" where
  "a \<le> b \<longleftrightarrow> a = b \<or> a < (b :: undo_map_key)"

instance
proof
  fix x y :: undo_map_key
  show "x \<le> y \<or> y \<le> x"
    by (cases x; cases y) (auto simp: less_undo_map_key_def less_eq_undo_map_key_def)
qed (auto simp: less_undo_map_key_def less_eq_undo_map_key_def)

end

datatype undo_map_entry = UndoMapEntry (ume_key: undo_map_key) (ume_undo_count: u32)

record undo_operation =
  uo_timestamp :: lamport
  uo_version :: global
  uo_counts :: "(lamport \<times> u32) list"

definition undo_key_zero :: undo_map_key where
  "undo_key_zero = UndoMapKey lamport_MIN lamport_MIN"

definition undo_ops :: "(undo_map_entry, undo_map_key) summary_ops" where
  "undo_ops = \<lparr>s_zero = undo_key_zero, s_add = max, s_item = ume_key\<rparr>"

definition undo_dim :: "(undo_map_key, undo_map_key) dimension" where
  "undo_dim = \<lparr>d_zero = undo_key_zero, d_add = max\<rparr>"

type_synonym undo_map = "(undo_map_entry, undo_map_key) sum_tree"

definition undo_edits :: "undo_operation \<Rightarrow> (undo_map_entry, undo_map_key) edit list" where
  "undo_edits undo =
     map (\<lambda>(edit_id, count). Insert (UndoMapEntry (UndoMapKey edit_id (uo_timestamp undo)) count)) (uo_counts undo)"

definition undo_insert :: "undo_map \<Rightarrow> undo_operation \<Rightarrow> undo_map option" where
  "undo_insert m undo = map_option fst (tree_edit undo_ops undo_dim ume_key m (undo_edits undo))"

text \<open>
  \<open>for entry in cursor\<close>, leaving the loop at the first entry of another edit; the entries whose undo
  operation passes \<open>counted\<close> contribute. The fuel is one more than the number of entries.
\<close>

fun undo_count_loop ::
  "nat \<Rightarrow> lamport \<Rightarrow> (lamport \<Rightarrow> bool) \<Rightarrow> (undo_map_entry, undo_map_key, undo_map_key) cursor \<Rightarrow> u32 \<Rightarrow> u32 option" where
  "undo_count_loop 0 edit_id counted c undo_count = None"
| "undo_count_loop (Suc fuel) edit_id counted c undo_count = do {
     (entry, c') \<leftarrow> cursor_iter_next undo_dim (\<lambda>_. True) c;
     case entry of
       None \<Rightarrow> Some undo_count
     | Some e \<Rightarrow>
         if umk_edit_id (ume_key e) \<noteq> edit_id then Some undo_count
         else undo_count_loop fuel edit_id counted c'
           (if counted (umk_undo_id (ume_key e)) then max undo_count (ume_undo_count e) else undo_count)
   }"

definition undo_count_where :: "undo_map \<Rightarrow> lamport \<Rightarrow> (lamport \<Rightarrow> bool) \<Rightarrow> u32 option" where
  "undo_count_where m edit_id counted = do {
     (c, _) \<leftarrow> cursor_seek undo_dim (ord_cmp (UndoMapKey edit_id lamport_MIN)) Left (cursor_new undo_dim m);
     undo_count_loop (Suc (count_items m)) edit_id counted c 0
   }"

definition undo_count :: "undo_map \<Rightarrow> lamport \<Rightarrow> u32 option" where
  "undo_count m edit_id = undo_count_where m edit_id (\<lambda>_. True)"

definition is_undone :: "undo_map \<Rightarrow> lamport \<Rightarrow> bool option" where
  "is_undone m edit_id = map_option (\<lambda>n. n mod 2 = 1) (undo_count m edit_id)"

definition was_undone :: "undo_map \<Rightarrow> lamport \<Rightarrow> global \<Rightarrow> bool option" where
  "was_undone m edit_id version =
     map_option (\<lambda>n. n mod 2 = 1) (undo_count_where m edit_id (global_observed version))"

section \<open>Abstraction\<close>

definition valid_undo_map :: "undo_map \<Rightarrow> bool" where
  "valid_undo_map m \<longleftrightarrow> wf_tree undo_ops m \<and> sorted_keys ume_key (elems m)"

definition undo_abs :: "undo_map \<Rightarrow> lamport \<Rightarrow> lamport \<rightharpoonup> u32" where
  "undo_abs m edit_id undo_id = map_option ume_undo_count (lookup ume_key (elems m) (UndoMapKey edit_id undo_id))"

text \<open>The undo count of an edit: the greatest count among the undo operations considered.\<close>

definition greatest_count :: "(lamport \<rightharpoonup> u32) \<Rightarrow> (lamport \<Rightarrow> bool) \<Rightarrow> u32" where
  "greatest_count counts P = Max (insert 0 {n. \<exists>u. P u \<and> counts u = Some n})"

lemma undo_key_zero_least [simp]: "undo_key_zero \<le> k"
  using lamport_MIN_le [of "umk_edit_id k"] lamport_MIN_le [of "umk_undo_id k"]
  by (cases k) (auto simp: undo_key_zero_def less_eq_undo_map_key_def less_undo_map_key_def less_eq_lamport_def)

interpretation undo: keyed_tree undo_ops undo_dim ume_key
  by unfold_locales (auto simp: undo_ops_def undo_dim_def max.assoc max_absorb1 max_absorb2)

lemma undo_dim_zero [simp]: "d_zero undo_dim = undo_key_zero"
  by (simp add: undo_dim_def)

section \<open>Counting\<close>

definition counts_in :: "undo_map_entry list \<Rightarrow> lamport \<Rightarrow> (lamport \<Rightarrow> bool) \<Rightarrow> u32 list" where
  "counts_in xs e P = map ume_undo_count (filter (\<lambda>x. umk_edit_id (ume_key x) = e \<and> P (umk_undo_id (ume_key x))) xs)"

lemma undo_iter_next:
  assumes "cursor_at undo_ops undo_dim c n" "c_tree c = m" "wf_tree undo_ops m" "has_room m" "n < length (elems m)"
  shows "\<exists>c'. cursor_iter_next undo_dim (\<lambda>_. True) c = Some (Some (elems m ! n), c') \<and> c_tree c' = m \<and>
    cursor_at undo_ops undo_dim c' (Suc n)"
proof -
  obtain c' where "cursor_next undo_dim c = Some c'" "c_tree c' = m" "cursor_at undo_ops undo_dim c' (Suc n)"
    using undo.next_correct [of c n] assms by (auto simp: has_room_def)
  moreover have "cursor_item c = Some (Some (elems m ! n))" "c_did_seek c"
    using cursor_item_at(1) [OF assms(1)] assms by (simp_all add: get_opt_def cursor_at_def)
  ultimately show ?thesis by (simp add: cursor_iter_next_def cursor_next_def)
qed

lemma undo_iter_end:
  assumes "cursor_at undo_ops undo_dim c (length (elems m))" "c_tree c = m" "wf_tree undo_ops m"
  shows "cursor_iter_next undo_dim (\<lambda>_. True) c = Some (None, c)"
  using cursor_item_at(1) [OF assms(1)] assms by (simp add: cursor_iter_next_def get_opt_def cursor_at_def)

lemma undo_count_loop_correct:
  assumes "wf_tree undo_ops m" "has_room m"
  shows "cursor_at undo_ops undo_dim c n \<Longrightarrow> c_tree c = m \<Longrightarrow> length (elems m) < n + fuel \<Longrightarrow>
    undo_count_loop fuel e P c r =
      Some (foldl max r (counts_in (takeWhile (\<lambda>x. umk_edit_id (ume_key x) = e) (drop n (elems m))) e P))"
proof (induction fuel arbitrary: c n r)
  case 0
  then show ?case by (simp add: cursor_at_def)
next
  case (Suc fuel)
  show ?case
  proof (cases "n < length (elems m)")
    case False
    then have "n = length (elems m)" using Suc.prems by (simp add: cursor_at_def)
    with undo_iter_end [OF _ Suc.prems(2) assms(1)] Suc.prems show ?thesis by (simp add: counts_in_def)
  next
    case True
    obtain c' where c': "cursor_iter_next undo_dim (\<lambda>_. True) c = Some (Some (elems m ! n), c')" "c_tree c' = m"
      "cursor_at undo_ops undo_dim c' (Suc n)"
      using undo_iter_next [OF Suc.prems(1,2) assms True] by blast
    have "drop n (elems m) = elems m ! n # drop (Suc n) (elems m)" using True by (simp add: Cons_nth_drop_Suc)
    with c'(1) Suc.IH [OF c'(3,2)] Suc.prems(3) show ?thesis by (simp add: counts_in_def)
  qed
qed

lemma foldl_max_Max: "foldl max r xs = Max (insert r (set xs))" for r :: "'a::linorder"
proof -
  have "foldl max r xs = fold max xs r" by (simp add: foldl_conv_fold max.commute)
  then show ?thesis using Max.set_eq_fold [of r xs] by simp
qed

lemma takeWhile_edit:
  assumes "sorted_keys ume_key xs" "\<forall>x \<in> set xs. UndoMapKey e lamport_MIN \<le> ume_key x"
  shows "takeWhile (\<lambda>x. umk_edit_id (ume_key x) = e) xs = filter (\<lambda>x. umk_edit_id (ume_key x) = e) xs"
  using assms
proof (induction xs)
  case (Cons x xs)
  show ?case
  proof (cases "umk_edit_id (ume_key x) = e")
    case False
    then have "e < umk_edit_id (ume_key x)" using Cons.prems(2)
      by (cases "ume_key x") (auto simp: less_eq_undo_map_key_def less_undo_map_key_def)
    then have "\<forall>y \<in> set xs. umk_edit_id (ume_key y) \<noteq> e"
      using Cons.prems(1) by (fastforce simp: less_undo_map_key_def)
    with False show ?thesis by simp
  qed (use Cons in auto)
qed simp

lemma undo_count_where_correct:
  assumes "valid_undo_map m" "has_room m"
  shows "undo_count_where m e P = Some (greatest_count (undo_abs m e) P)"
proof -
  let ?k = "UndoMapKey e lamport_MIN" and ?xs = "elems m"
  have wf: "wf_tree undo_ops m" "height m < STACK_CAPACITY" and s: "sorted_keys ume_key ?xs"
    using assms by (simp_all add: valid_undo_map_def has_room_def)
  obtain c where c: "cursor_seek undo_dim (ord_cmp ?k) Left (cursor_new undo_dim m) = Some c" "c_tree (fst c) = m"
    "cursor_at undo_ops undo_dim (fst c) (length (below ume_key ?k ?xs))"
    using undo.seek_correct [of "cursor_new undo_dim m" "ord_cmp ?k" _ Left] wf
      undo.keyed_stop(1,2) [OF s, of undo_key_zero 0 ?k]
    by (auto simp: cursor_new_def is_ge_def leD)
  have "drop (length (below ume_key ?k ?xs)) ?xs = not_below ume_key ?k ?xs" by (rule drop_below)
  moreover have "filter (\<lambda>x. umk_edit_id (ume_key x) = e) (not_below ume_key ?k ?xs) = filter (\<lambda>x. umk_edit_id (ume_key x) = e) ?xs"
  proof -
    have "umk_edit_id (ume_key x) \<noteq> e" if "x \<in> set (below ume_key ?k ?xs)" for x
      using set_below [OF that] lamport_MIN_le [of "umk_undo_id (ume_key x)"] by (auto simp: less_undo_map_key_def leD)
    then have "filter (\<lambda>x. umk_edit_id (ume_key x) = e) (below ume_key ?k ?xs) = []" by (simp add: filter_empty_conv)
    then show ?thesis by (metis append_Nil below_not_below filter_append)
  qed
  moreover have "takeWhile (\<lambda>x. umk_edit_id (ume_key x) = e) (not_below ume_key ?k ?xs) =
      filter (\<lambda>x. umk_edit_id (ume_key x) = e) (not_below ume_key ?k ?xs)"
    using set_not_below [OF s] sorted_keys_below_beyond(3) [OF s] by (intro takeWhile_edit) blast+
  ultimately have "counts_in (takeWhile (\<lambda>x. umk_edit_id (ume_key x) = e) (drop (length (below ume_key ?k ?xs)) ?xs)) e P = counts_in ?xs e P"
    by (simp add: counts_in_def conj_ac)
  then have "undo_count_where m e P = Some (foldl max 0 (counts_in ?xs e P))"
    using undo_count_loop_correct [OF wf(1) assms(2) c(3,2), of "Suc (count_items m)" e P 0] c(1)
    by (cases c) (simp add: undo_count_where_def count_items_elems)
  moreover have "set (counts_in ?xs e P) = {n. \<exists>u. P u \<and> undo_abs m e u = Some n}"
  proof -
    have "undo_abs m e u = Some n \<longleftrightarrow> (\<exists>x \<in> set ?xs. ume_key x = UndoMapKey e u \<and> ume_undo_count x = n)" for u n
      by (auto simp: undo_abs_def lookup_Some [OF s])
    then show ?thesis by (auto simp: counts_in_def image_iff) (metis undo_map_key.collapse)
  qed
  ultimately show ?thesis by (simp add: greatest_count_def foldl_max_Max)
qed

section \<open>Insertion\<close>

definition record_undo :: "undo_operation \<Rightarrow> (lamport \<Rightarrow> lamport \<rightharpoonup> u32) \<Rightarrow> lamport \<Rightarrow> lamport \<rightharpoonup> u32" where
  "record_undo undo A e u =
     (case map_of (uo_counts undo) e of
        Some n \<Rightarrow> if u = uo_timestamp undo then Some n else A e u
      | None \<Rightarrow> A e u)"

lemma map_of_undo_edits:
  "map_of (map (\<lambda>e. (edit_key ume_key e, edit_value e)) (undo_edits undo)) (UndoMapKey e u) =
     (if u = uo_timestamp undo
      then map_option (\<lambda>n. Some (UndoMapEntry (UndoMapKey e u) n)) (map_of (uo_counts undo) e) else None)"
proof -
  have "map_of (map (\<lambda>e. (edit_key ume_key e, edit_value e))
      (map (\<lambda>(edit_id, count). Insert (UndoMapEntry (UndoMapKey edit_id t) count)) cs)) (UndoMapKey e u) =
     (if u = t then map_option (\<lambda>n. Some (UndoMapEntry (UndoMapKey e u) n)) (map_of cs e) else None)" for t cs
    by (induction cs) (auto simp: edit_value_def)
  then show ?thesis by (simp add: undo_edits_def)
qed

lemma distinct_undo_edits:
  "distinct (map fst (uo_counts undo)) \<Longrightarrow> distinct (map (edit_key ume_key) (undo_edits undo))"
  by (auto simp: undo_edits_def distinct_map inj_on_def split_def)

lemma undo_insert_refines:
  assumes "valid_undo_map m" "has_room m" "distinct (map fst (uo_counts undo))"
  shows "\<exists>m'. undo_insert m undo = Some m' \<and> valid_undo_map m' \<and> undo_abs m' = record_undo undo (undo_abs m)"
proof -
  obtain m' removed where m': "tree_edit undo_ops undo_dim ume_key m (undo_edits undo) = Some (m', removed)"
    "wf_tree undo_ops m'" "sorted_keys ume_key (elems m')"
    "lookup ume_key (elems m') = edited ume_key (undo_edits undo) (lookup ume_key (elems m))"
    using undo.edit_refines [of m "undo_edits undo"] assms distinct_undo_edits
    by (auto simp: valid_undo_map_def has_room_def)
  then have "undo_abs m' e u = record_undo undo (undo_abs m) e u" for e u
    by (auto simp: undo_abs_def record_undo_def edited_def map_of_undo_edits split: option.splits)
  then have "undo_abs m' = record_undo undo (undo_abs m)" by (intro ext)
  with m' show ?thesis by (simp add: undo_insert_def valid_undo_map_def)
qed

text \<open>Two valid maps with the same counts are read alike, whatever the shape of their trees.\<close>

lemma record_undo_commute:
  "uo_timestamp a \<noteq> uo_timestamp b \<Longrightarrow> record_undo a (record_undo b A) = record_undo b (record_undo a A)"
  by (auto simp: record_undo_def fun_eq_iff split: option.splits)

section \<open>Theorems\<close>

definition sample_undo :: undo_operation where
  "sample_undo = \<lparr>uo_timestamp = Lamport 7 LOCAL, uo_version = global_new,
     uo_counts = [(Lamport 3 LOCAL, 1), (Lamport 2 AGENT, 2)]\<rparr>"

definition sample_redo :: undo_operation where
  "sample_redo = \<lparr>uo_timestamp = Lamport 9 AGENT, uo_version = global_new, uo_counts = [(Lamport 3 LOCAL, 2)]\<rparr>"

lemma valid_undo_new: "valid_undo_map (tree_new undo_ops)" "has_room (tree_new undo_ops)"
  by (simp_all add: valid_undo_map_def has_room_def tree_new_def item_sum_def sum_of_def STACK_CAPACITY_def)

lemma distinct_samples:
  "distinct (map fst (uo_counts sample_undo))" "distinct (map fst (uo_counts sample_redo))"
  "uo_timestamp sample_undo \<noteq> uo_timestamp sample_redo"
  by (simp_all add: sample_undo_def sample_redo_def)

text \<open>C12. The undo map records exactly the counts of the undo operations inserted, and reads the
  greatest of them: \<open>undo_count\<close> is the greatest count any undo operation gave the edit (zero if none),
  \<open>is_undone\<close> its parity and \<open>was_undone\<close> the parity of the greatest count among the undo operations
  that a version has observed. None of them panics.\<close>

theorem undo_map_correct:
  assumes "valid_undo_map m" "has_room m" "distinct (map fst (uo_counts undo))"
  shows "(\<exists>m'. undo_insert m undo = Some m' \<and> valid_undo_map m' \<and> undo_abs m' = record_undo undo (undo_abs m)) \<and>
    undo_count m e = Some (greatest_count (undo_abs m e) (\<lambda>_. True)) \<and>
    is_undone m e = Some (greatest_count (undo_abs m e) (\<lambda>_. True) mod 2 = 1) \<and>
    was_undone m e v = Some (greatest_count (undo_abs m e) (global_observed v) mod 2 = 1)"
  using undo_insert_refines [OF assms] undo_count_where_correct [OF assms(1,2)]
  by (simp add: undo_count_def is_undone_def was_undone_def)

theorem undo_map_correct_witness:
  "\<exists>m'. undo_insert (tree_new undo_ops) sample_undo = Some m' \<and> valid_undo_map m' \<and>
     undo_abs m' = record_undo sample_undo (undo_abs (tree_new undo_ops))"
  using undo_map_correct [OF valid_undo_new distinct_samples(1)] by blast

text \<open>Undo operations commute: with distinct timestamps, two of them inserted in either order leave
  maps with the same counts, so that replicas that received them in different orders agree on which
  edits are undone.\<close>

theorem undo_insert_commute:
  assumes "valid_undo_map m" "has_room m"
    and "distinct (map fst (uo_counts a))" "distinct (map fst (uo_counts b))" "uo_timestamp a \<noteq> uo_timestamp b"
    and "undo_insert m a = Some ma" "undo_insert m b = Some mb" "has_room ma" "has_room mb"
  shows "\<exists>mab mba. undo_insert ma b = Some mab \<and> undo_insert mb a = Some mba \<and> undo_abs mab = undo_abs mba \<and>
    (has_room mab \<longrightarrow> has_room mba \<longrightarrow> undo_count mab e = undo_count mba e \<and> was_undone mab e v = was_undone mba e v)"
proof -
  have ma: "valid_undo_map ma" "undo_abs ma = record_undo a (undo_abs m)"
    using undo_insert_refines [OF assms(1,2,3)] assms(6) by auto
  have mb: "valid_undo_map mb" "undo_abs mb = record_undo b (undo_abs m)"
    using undo_insert_refines [OF assms(1,2,4)] assms(7) by auto
  obtain mab mba where r: "undo_insert ma b = Some mab" "valid_undo_map mab" "undo_insert mb a = Some mba" "valid_undo_map mba"
    "undo_abs mab = record_undo b (undo_abs ma)" "undo_abs mba = record_undo a (undo_abs mb)"
    using undo_insert_refines [OF ma(1) assms(8,4)] undo_insert_refines [OF mb(1) assms(9,3)] by auto
  then have "undo_abs mab = undo_abs mba" using record_undo_commute [OF assms(5)] ma mb by simp
  with r undo_count_where_correct show ?thesis
    by (simp add: undo_count_def was_undone_def)
qed

lemma sample_undo_maps:
  "undo_insert (tree_new undo_ops) sample_undo = Some (Leaf (UndoMapKey (Lamport 3 LOCAL) (Lamport 7 LOCAL))
     [UndoMapEntry (UndoMapKey (Lamport 2 AGENT) (Lamport 7 LOCAL)) 2, UndoMapEntry (UndoMapKey (Lamport 3 LOCAL) (Lamport 7 LOCAL)) 1]
     [UndoMapKey (Lamport 2 AGENT) (Lamport 7 LOCAL), UndoMapKey (Lamport 3 LOCAL) (Lamport 7 LOCAL)])"
  "undo_insert (tree_new undo_ops) sample_redo = Some (Leaf (UndoMapKey (Lamport 3 LOCAL) (Lamport 9 AGENT))
     [UndoMapEntry (UndoMapKey (Lamport 3 LOCAL) (Lamport 9 AGENT)) 2] [UndoMapKey (Lamport 3 LOCAL) (Lamport 9 AGENT)])"
  by code_simp+

theorem undo_insert_commute_witness:
  "\<exists>ma mb mab mba. undo_insert (tree_new undo_ops) sample_undo = Some ma \<and> undo_insert (tree_new undo_ops) sample_redo = Some mb \<and>
     undo_insert ma sample_redo = Some mab \<and> undo_insert mb sample_undo = Some mba \<and> undo_abs mab = undo_abs mba"
proof -
  note maps = sample_undo_maps
  have room: "has_room (Leaf s xs ss)" for s :: undo_map_key and xs :: "undo_map_entry list" and ss
    by (simp add: has_room_def STACK_CAPACITY_def)
  from undo_insert_commute [OF valid_undo_new distinct_samples maps room room] maps show ?thesis by blast
qed

end
