(* ===== verification/Patch.thy ===== *)
theory Patch
  imports Prelude
begin

text \<open>
  Edits and patches (\<open>Edit\<close> of \<open>crates/text/src/text.rs\<close>, \<open>crates/text/src/patch.rs\<close>), for the
  coordinate type \<open>usize\<close>.

  A patch is a list of edits, each replacing a range of an old text by a range of a new one. Its
  meaning is \<open>patch_rel\<close>: the ranges lie in order within the two texts, and what lies between them is
  the same text on both sides. \<open>compose\<close> walks over two patches at once; it is correct if, whenever
  they lead from \<open>A\<close> to \<open>M\<close> and from \<open>M\<close> to \<open>B\<close>, its result leads from \<open>A\<close> to \<open>B\<close>.
\<close>

section \<open>Model\<close>

record text_edit =
  old_start :: nat
  old_end :: nat
  new_start :: nat
  new_end :: nat

definition edit_is_empty :: "text_edit \<Rightarrow> bool" where
  "edit_is_empty e \<longleftrightarrow> old_start e = old_end e \<and> new_start e = new_end e"

definition old_len :: "text_edit \<Rightarrow> nat option" where
  "old_len e = checked_sub (old_end e) (old_start e)"

definition new_len :: "text_edit \<Rightarrow> nat option" where
  "new_len e = checked_sub (new_end e) (new_start e)"

type_synonym patch = "text_edit list"

text \<open>\<open>Patch::new\<close> asserts in debug builds that consecutive edits do not touch.\<close>

fun patch_new_check :: "text_edit option \<Rightarrow> text_edit list \<Rightarrow> unit option" where
  "patch_new_check last_edit [] = Some ()"
| "patch_new_check last_edit (e # es) = do {
     (case last_edit of
        None \<Rightarrow> Some ()
      | Some l \<Rightarrow> do { rust_assert (old_start e > old_end l); rust_assert (new_start e > new_end l) });
     patch_new_check (Some e) es
   }"

definition patch_new :: "text_edit list \<Rightarrow> patch option" where
  "patch_new es = do { patch_new_check None es; Some es }"

definition patch_invert :: "patch \<Rightarrow> patch" where
  "patch_invert p =
     map (\<lambda>e. e\<lparr>old_start := new_start e, old_end := new_end e, new_start := old_start e, new_end := old_end e\<rparr>) p"

definition push_maybe_empty :: "patch \<Rightarrow> text_edit \<Rightarrow> patch" where
  "push_maybe_empty p e =
     (case last_opt p of
        Some l \<Rightarrow>
          if old_end l \<ge> old_start e then butlast p @ [l\<lparr>old_end := old_end e, new_end := new_end e\<rparr>]
          else p @ [e]
      | None \<Rightarrow> p @ [e])"

definition patch_push :: "patch \<Rightarrow> text_edit \<Rightarrow> patch" where
  "patch_push p e = (if edit_is_empty e then p else push_maybe_empty p e)"

text \<open>The variables of \<open>compose\<close>, and the push of \<open>old_start..old_end\<close>, \<open>new_start..new_end\<close> that
  each of its branches ends with.\<close>

record composer =
  composed :: patch
  c_old :: nat
  c_new :: nat

definition emit :: "composer \<Rightarrow> nat \<Rightarrow> nat \<Rightarrow> composer" where
  "emit s oe ne = \<lparr>composed = patch_push (composed s)
       \<lparr>old_start = c_old s, old_end = oe, new_start = c_new s, new_end = ne\<rparr>, c_old = oe, c_new = ne\<rparr>"

definition catch_up :: "composer \<Rightarrow> nat \<Rightarrow> composer" where
  "catch_up s k = s\<lparr>c_old := c_old s + k, c_new := c_new s + k\<rparr>"

definition compose_old :: "text_edit \<Rightarrow> composer \<Rightarrow> composer option" where
  "compose_old e s = do {
     k \<leftarrow> checked_sub (old_start e) (c_old s);
     let s1 = catch_up s k;
     ol \<leftarrow> old_len e;
     nl \<leftarrow> new_len e;
     Some (emit s1 (c_old s1 + ol) (c_new s1 + nl))
   }"

definition compose_new :: "text_edit \<Rightarrow> composer \<Rightarrow> composer option" where
  "compose_new e s = do {
     k \<leftarrow> checked_sub (new_start e) (c_new s);
     let s1 = catch_up s k;
     ol \<leftarrow> old_len e;
     nl \<leftarrow> new_len e;
     Some (emit s1 (c_old s1 + ol) (c_new s1 + nl))
   }"

text \<open>Two intersecting edits: first the part of the one that starts earlier, ...\<close>

definition compose_lead :: "text_edit \<Rightarrow> text_edit \<Rightarrow> composer \<Rightarrow> (text_edit \<times> text_edit \<times> composer) option" where
  "compose_lead p q s =
     (if new_start p < old_start q then do {
        k \<leftarrow> checked_sub (old_start p) (c_old s);
        let s1 = catch_up s k;
        overshoot \<leftarrow> checked_sub (old_start q) (new_start p);
        let oe = min (c_old s1 + overshoot) (old_end p);
        Some (p\<lparr>old_start := oe, new_start := new_start p + overshoot\<rparr>, q, emit s1 oe (c_new s1 + overshoot))
      } else do {
        k \<leftarrow> checked_sub (new_start q) (c_new s);
        let s1 = catch_up s k;
        overshoot \<leftarrow> checked_sub (new_start p) (old_start q);
        let ne = min (c_new s1 + overshoot) (new_end q);
        Some (p, q\<lparr>old_start := old_start q + overshoot, new_start := ne\<rparr>, emit s1 (c_old s1 + overshoot) ne)
      })"

text \<open>... then the part up to the end of the one that ends first.\<close>

definition compose_new_first :: "text_edit \<Rightarrow> text_edit \<Rightarrow> composer \<Rightarrow> (text_edit \<times> composer) option" where
  "compose_new_first p q s = do {
     pl \<leftarrow> old_len p;
     ql \<leftarrow> old_len q;
     let oe = c_old s + min pl ql;
     nl \<leftarrow> new_len q;
     Some (p\<lparr>old_start := oe, new_start := old_end q\<rparr>, emit s oe (c_new s + nl))
   }"

definition compose_old_first :: "text_edit \<Rightarrow> text_edit \<Rightarrow> composer \<Rightarrow> (text_edit \<times> composer) option" where
  "compose_old_first p q s = do {
     ol \<leftarrow> old_len p;
     pl \<leftarrow> new_len p;
     ql \<leftarrow> new_len q;
     let ne = c_new s + min pl ql;
     Some (q\<lparr>old_start := new_end p, new_start := ne\<rparr>, emit s (c_old s + ol) ne)
   }"

function compose_loop :: "patch \<Rightarrow> patch \<Rightarrow> composer \<Rightarrow> patch option" where
  "compose_loop ps qs s =
     (if ps \<noteq> [] \<and> (qs = [] \<or> new_end (hd ps) < old_start (hd qs))
      then do { s' \<leftarrow> compose_old (hd ps) s; compose_loop (tl ps) qs s' }
      else if qs \<noteq> [] \<and> (ps = [] \<or> old_end (hd qs) < new_start (hd ps))
      then do { s' \<leftarrow> compose_new (hd qs) s; compose_loop ps (tl qs) s' }
      else case (ps, qs) of
        (p # ps', q # qs') \<Rightarrow> do {
          (p1, q1, s1) \<leftarrow> compose_lead p q s;
          if new_end p1 > old_end q1
          then do { (p2, s2) \<leftarrow> compose_new_first p1 q1 s1; compose_loop (p2 # ps') qs' s2 }
          else do { (q2, s2) \<leftarrow> compose_old_first p1 q1 s1; compose_loop ps' (q2 # qs') s2 }
        }
      | _ \<Rightarrow> Some (composed s))"
  by pat_completeness auto
termination
  by (relation "measure (\<lambda>(ps, qs, s). length ps + length qs)") (auto simp: neq_Nil_conv)

declare compose_loop.simps [simp del]

definition patch_compose :: "patch \<Rightarrow> patch \<Rightarrow> patch option" where
  "patch_compose ps qs = compose_loop ps qs \<lparr>composed = [], c_old = 0, c_new = 0\<rparr>"

text \<open>
  \<open>binary_search_by\<close> on the old starts, on edits whose old starts increase: the index of the edit
  that starts at the position (\<open>Inl\<close>), or the index where one would be inserted (\<open>Inr\<close>).
\<close>

definition search_old_start :: "patch \<Rightarrow> nat \<Rightarrow> nat + nat" where
  "search_old_start p old =
     (let ix = length (takeWhile (\<lambda>e. old_start e < old) p)
      in if ix < length p \<and> old_start (p ! ix) = old then Inl ix else Inr ix)"

definition old_to_new :: "patch \<Rightarrow> nat \<Rightarrow> nat option" where
  "old_to_new p old =
     (case search_old_start p old of
        Inr 0 \<Rightarrow> Some old
      | r \<Rightarrow>
          (let ix = (case r of Inl ix \<Rightarrow> ix | Inr ix \<Rightarrow> ix - 1)
           in case get_opt p ix of
                Some e \<Rightarrow>
                  if old \<ge> old_end e then do { d \<leftarrow> checked_sub old (old_end e); Some (new_end e + d) }
                  else Some (new_start e)
              | None \<Rightarrow> Some old))"

definition edit_for_old_position :: "patch \<Rightarrow> nat \<Rightarrow> text_edit option" where
  "edit_for_old_position p old =
     (case search_old_start p old of
        Inr 0 \<Rightarrow> Some \<lparr>old_start = old, old_end = old, new_start = old, new_end = old\<rparr>
      | r \<Rightarrow>
          (let ix = (case r of Inl ix \<Rightarrow> ix | Inr ix \<Rightarrow> ix - 1)
           in case get_opt p ix of
                Some e \<Rightarrow>
                  if old > old_end e then do {
                    d \<leftarrow> checked_sub old (old_end e);
                    let translated = new_end e + d;
                    Some \<lparr>old_start = old, old_end = old, new_start = translated, new_end = translated\<rparr>
                  }
                  else Some e
              | None \<Rightarrow> Some \<lparr>old_start = old, old_end = old, new_start = old, new_end = old\<rparr>))"

section \<open>Meaning of a patch\<close>

text \<open>
  \<open>patch_rel o n p xs ys\<close>: the edits \<open>p\<close> lead from \<open>xs\<close>, the old text from offset \<open>o\<close> on, to \<open>ys\<close>, the
  new text from offset \<open>n\<close> on.
\<close>

fun patch_rel :: "nat \<Rightarrow> nat \<Rightarrow> patch \<Rightarrow> 'c list \<Rightarrow> 'c list \<Rightarrow> bool" where
  "patch_rel old new [] xs ys \<longleftrightarrow> xs = ys"
| "patch_rel old new (e # es) xs ys \<longleftrightarrow>
     old \<le> old_start e \<and> old_start e \<le> old_end e \<and> new \<le> new_start e \<and> new_start e \<le> new_end e \<and>
     old_start e - old = new_start e - new \<and>
     old_end e - old \<le> length xs \<and> new_end e - new \<le> length ys \<and>
     take (old_start e - old) xs = take (old_start e - old) ys \<and>
     patch_rel (old_end e) (new_end e) es (drop (old_end e - old) xs) (drop (new_end e - new) ys)"

text \<open>The edits of a patch do not touch, and each of them changes something.\<close>

definition separated :: "patch \<Rightarrow> bool" where
  "separated p \<longleftrightarrow> (\<forall>e \<in> set p. \<not> edit_is_empty e) \<and>
     successively (\<lambda>e e'. old_end e < old_start e' \<and> new_end e < new_start e') p"

lemma split_at: "k \<le> j \<Longrightarrow> xs = take k xs @ take (j - k) (drop k xs) @ drop j xs"
  using append_take_drop_id [of "j - k" "drop k xs"] by (simp add: drop_drop)

lemma patch_rel_ConsE:
  assumes "patch_rel old new (e # es) xs ys"
  obtains g u v xs' ys' where "xs = g @ u @ xs'" "ys = g @ v @ ys'"
    "old_start e = old + length g" "new_start e = new + length g"
    "old_end e = old + length g + length u" "new_end e = new + length g + length v"
    "patch_rel (old + length g + length u) (new + length g + length v) es xs' ys'"
proof -
  define k where "k = old_start e - old"
  have e: "old_start e = old + k" "new_start e = new + k" "old_start e \<le> old_end e" "new_start e \<le> new_end e"
    "old_end e \<le> old + length xs" "new_end e \<le> new + length ys" "take k xs = take k ys"
    and r: "patch_rel (old_end e) (new_end e) es (drop (old_end e - old) xs) (drop (new_end e - new) ys)"
    using assms by (auto simp: k_def)
  define g u v where "g = take k xs" and "u = take (old_end e - old - k) (drop k xs)" and "v = take (new_end e - new - k) (drop k ys)"
  have l: "length g = k" "old_end e = old + k + length u" "new_end e = new + k + length v"
    using e by (auto simp: g_def u_def v_def)
  have "xs = g @ u @ drop (old_end e - old) xs" using e split_at [of k "old_end e - old" xs] by (simp add: g_def u_def)
  moreover have "ys = g @ v @ drop (new_end e - new) ys" using e split_at [of k "new_end e - new" ys] by (simp add: g_def v_def)
  ultimately show thesis by (rule that) (use e l r in \<open>simp_all add: add.assoc\<close>)
qed

lemma patch_rel_ConsI:
  assumes "patch_rel (old + length g + length u) (new + length g + length v) es xs' ys'"
    and "old_start e = old + length g" "new_start e = new + length g"
    and "old_end e = old + length g + length u" "new_end e = new + length g + length v"
  shows "patch_rel old new (e # es) (g @ u @ xs') (g @ v @ ys')"
  using assms by (simp add: drop_append)

declare patch_rel.simps(2) [simp del]

text \<open>An edit that starts where we are.\<close>

lemma patch_rel_hereI:
  assumes "patch_rel (old_end e) (new_end e) es xs' ys'" "old_end e = old_start e + length u" "new_end e = new_start e + length v"
  shows "patch_rel (old_start e) (new_start e) (e # es) (u @ xs') (v @ ys')"
  using patch_rel_ConsI [of "old_start e" "[]" u "new_start e" v es xs' ys' e] assms by simp

lemma patch_rel_extend: "patch_rel old new p xs ys \<Longrightarrow> patch_rel old new p (xs @ zs) (ys @ zs)"
proof (induction p arbitrary: old new xs ys)
  case (Cons e es)
  from Cons.prems show ?case
  proof (cases rule: patch_rel_ConsE)
    case (1 g u v xs' ys')
    with Cons.IH [OF 1(7)] patch_rel_ConsI [of old g u new v es "xs' @ zs" "ys' @ zs" e] show ?thesis by simp
  qed
qed simp

lemma patch_rel_start: "patch_rel old new (e # es) xs ys \<Longrightarrow> old_start e + new = new_start e + old"
  by (auto simp: patch_rel.simps(2))

text \<open>Text before the first edit is kept on both sides.\<close>

lemma patch_rel_keep_new:
  assumes "patch_rel old new p (c @ xs) ys" "p \<noteq> [] \<Longrightarrow> old + length c \<le> old_start (hd p)"
  shows "\<exists>ys'. ys = c @ ys' \<and> patch_rel (old + length c) (new + length c) p xs ys'"
proof (cases p)
  case (Cons e es)
  from assms(1) [unfolded Cons] show ?thesis
  proof (cases rule: patch_rel_ConsE)
    case (1 g u v xs' ys')
    then have "length c \<le> length g" using assms(2) Cons by simp
    with 1(1) obtain g' where g: "g = c @ g'" by (metis append_eq_append_conv_if append_take_drop_id)
    with 1 have "xs = g' @ u @ xs'" "ys = c @ g' @ v @ ys'" by auto
    with 1 g patch_rel_ConsI [of "old + length c" g' u "new + length c" v es xs' ys' e] Cons show ?thesis
      by (simp add: add.assoc)
  qed
qed (use assms in auto)

lemma patch_rel_keep_old:
  assumes "patch_rel old new p xs (c @ ys)" "p \<noteq> [] \<Longrightarrow> new + length c \<le> new_start (hd p)"
  shows "\<exists>xs'. xs = c @ xs' \<and> patch_rel (old + length c) (new + length c) p xs' ys"
proof (cases p)
  case (Cons e es)
  from assms(1) [unfolded Cons] show ?thesis
  proof (cases rule: patch_rel_ConsE)
    case (1 g u v xs' ys')
    then have "length c \<le> length g" using assms(2) Cons by simp
    with 1(2) obtain g' where g: "g = c @ g'" by (metis append_eq_append_conv_if append_take_drop_id)
    with 1 have "ys = g' @ v @ ys'" "xs = c @ g' @ u @ xs'" by auto
    with 1 g patch_rel_ConsI [of "old + length c" g' u "new + length c" v es xs' ys' e] Cons show ?thesis
      by (simp add: add.assoc)
  qed
qed (use assms in auto)


section \<open>Building a patch from left to right\<close>

lemma patch_rel_last:
  "patch_rel old new (p @ [l]) xs ys \<Longrightarrow>
   old_end l \<le> old + length xs \<and> new_end l \<le> new + length ys \<and> old + length xs - old_end l = new + length ys - new_end l \<and>
   old_start l \<le> old_end l \<and> new_start l \<le> new_end l"
proof (induction p arbitrary: old new xs ys)
  case Nil
  then have "patch_rel old new [l] xs ys" by simp
  then show ?case by (cases rule: patch_rel_ConsE) auto
next
  case (Cons e es)
  from Cons.prems have "patch_rel old new (e # es @ [l]) xs ys" by simp
  then show ?case
  proof (cases rule: patch_rel_ConsE)
    case (1 g u v xs' ys')
    from Cons.IH [OF 1(7)] 1 show ?thesis by (simp add: algebra_simps)
  qed
qed

lemma patch_rel_snoc:
  "patch_rel old new p xs ys \<Longrightarrow> old_start e = old + length xs \<Longrightarrow> new_start e = new + length ys \<Longrightarrow>
   old_end e = old_start e + length u \<Longrightarrow> new_end e = new_start e + length v \<Longrightarrow>
   patch_rel old new (p @ [e]) (xs @ u) (ys @ v)"
proof (induction p arbitrary: old new xs ys)
  case Nil
  then show ?case using patch_rel_ConsI [of old xs u new v "[]" "[]" "[]" e] by (simp add: add.assoc)
next
  case (Cons d es)
  from Cons.prems(1) show ?case
  proof (cases rule: patch_rel_ConsE)
    case (1 g u' v' xs' ys')
    have "patch_rel (old + length g + length u') (new + length g + length v') (es @ [e]) (xs' @ u) (ys' @ v)"
      using Cons.IH [OF 1(7)] Cons.prems 1 by (simp add: algebra_simps)
    from patch_rel_ConsI [OF this 1(3-6)] 1(1,2) show ?thesis by simp
  qed
qed

lemma patch_rel_merge:
  "patch_rel old new (p @ [l]) xs ys \<Longrightarrow> old_end l = old + length xs \<Longrightarrow>
   patch_rel old new (p @ [l\<lparr>old_end := old_end l + length u, new_end := new_end l + length v\<rparr>]) (xs @ u) (ys @ v)"
proof (induction p arbitrary: old new xs ys)
  case Nil
  then have "patch_rel old new [l] xs ys" by simp
  then show ?case
  proof (cases rule: patch_rel_ConsE)
    case (1 g u' v' xs' ys')
    with Nil.prems(2) have "xs' = []" "ys' = []" by auto
    with 1 patch_rel_ConsI [of old g "u' @ u" new "v' @ v" "[]" "[]" "[]"
        "l\<lparr>old_end := old_end l + length u, new_end := new_end l + length v\<rparr>"] show ?thesis
      by (simp add: add.assoc)
  qed
next
  case (Cons e es)
  from Cons.prems(1) have "patch_rel old new (e # es @ [l]) xs ys" by simp
  then show ?case
  proof (cases rule: patch_rel_ConsE)
    case (1 g u' v' xs' ys')
    from Cons.IH [OF 1(7)] Cons.prems(2) 1(1)
    have "patch_rel (old + length g + length u') (new + length g + length v')
       (es @ [l\<lparr>old_end := old_end l + length u, new_end := new_end l + length v\<rparr>]) (xs' @ u) (ys' @ v)"
      by (simp add: algebra_simps)
    from patch_rel_ConsI [OF this 1(3-6)] 1(1,2) show ?thesis by simp
  qed
qed

lemma patch_push_correct:
  assumes "patch_rel 0 0 p xs ys" "separated p"
    and "old_start e = length xs" "new_start e = length ys" "old_end e = length xs + length u" "new_end e = length ys + length v"
  shows "patch_rel 0 0 (patch_push p e) (xs @ u) (ys @ v) \<and> separated (patch_push p e)"
proof (cases "edit_is_empty e")
  case True
  then show ?thesis using assms by (simp add: edit_is_empty_def patch_push_def)
next
  case False
  show ?thesis
  proof (cases p rule: rev_cases)
    case Nil
    then show ?thesis using False assms patch_rel_snoc [OF assms(1), of e u v]
      by (simp add: patch_push_def push_maybe_empty_def separated_def)
  next
    case (snoc p' l)
    note l = patch_rel_last [OF assms(1) [unfolded snoc]]
    show ?thesis
    proof (cases "old_end l \<ge> old_start e")
      case True
      then have eq: "old_end l = length xs" "new_end l = length ys" using l assms(3) by auto
      let ?l = "l\<lparr>old_end := old_end e, new_end := new_end e\<rparr>"
      have "\<not> edit_is_empty ?l" using False l eq assms by (auto simp: edit_is_empty_def)
      then have "separated (p' @ [?l])"
        using assms(2) snoc by (auto simp: separated_def successively_append_iff)
      moreover have "patch_rel 0 0 (p' @ [?l]) (xs @ u) (ys @ v)"
        using patch_rel_merge [OF assms(1) [unfolded snoc], where u = u and v = v] eq assms(5,6) by simp
      ultimately show ?thesis using False True snoc by (simp add: patch_push_def push_maybe_empty_def)
    next
      case False
      then have "separated (p @ [e])"
        using l assms snoc \<open>\<not> edit_is_empty e\<close> by (auto simp: separated_def successively_append_iff)
      with False \<open>\<not> edit_is_empty e\<close> patch_rel_snoc [OF assms(1), of e u v] assms snoc show ?thesis
        by (simp add: patch_push_def push_maybe_empty_def)
    qed
  qed
qed

section \<open>Composition\<close>

text \<open>What has been composed so far leads from the text read of the old side to that of the new side.\<close>

definition composer_inv :: "composer \<Rightarrow> 'c list \<Rightarrow> 'c list \<Rightarrow> bool" where
  "composer_inv s xs ys \<longleftrightarrow> patch_rel 0 0 (composed s) xs ys \<and> separated (composed s) \<and>
     c_old s = length xs \<and> c_new s = length ys"

lemma composer_catch_up: "composer_inv s xs ys \<Longrightarrow> k = length g \<Longrightarrow> composer_inv (catch_up s k) (xs @ g) (ys @ g)"
  by (auto simp: composer_inv_def catch_up_def patch_rel_extend)

lemma composer_emit:
  assumes "composer_inv s xs ys" "oe = c_old s + length u" "ne = c_new s + length v"
  shows "composer_inv (emit s oe ne) (xs @ u) (ys @ v)"
  using assms patch_push_correct [of "composed s" xs ys
      "\<lparr>old_start = c_old s, old_end = oe, new_start = c_new s, new_end = ne\<rparr>" u v]
  by (simp add: composer_inv_def emit_def)

lemma catch_up_starts [simp]: "c_old (catch_up s k) = c_old s + k" "c_new (catch_up s k) = c_new s + k"
  by (simp_all add: catch_up_def)

lemma emit_starts [simp]: "c_old (emit s oe ne) = oe" "c_new (emit s oe ne) = ne"
  by (simp_all add: emit_def)

text \<open>
  The state of the loop: each text is what has been read and what is left of it, and the edits left
  lead from the rest of the old text over the rest of the middle text to the rest of the new one.
\<close>

definition loop_inv :: "patch \<Rightarrow> patch \<Rightarrow> composer \<Rightarrow> 'c list \<Rightarrow> 'c list \<Rightarrow> bool" where
  "loop_inv ps qs s as bs \<longleftrightarrow> (\<exists>xs ys as' ms bs' mid. as = xs @ as' \<and> bs = ys @ bs' \<and> composer_inv s xs ys \<and>
     patch_rel (c_old s) mid ps as' ms \<and> patch_rel mid (c_new s) qs ms bs')"

lemma loop_invI:
  assumes "composer_inv s xs ys" "patch_rel (c_old s) mid ps as' ms" "patch_rel mid (c_new s) qs ms bs'"
    and "as = xs @ as'" "bs = ys @ bs'"
  shows "loop_inv ps qs s as bs"
  unfolding loop_inv_def using assms by blast

lemma loop_invE:
  assumes "loop_inv ps qs s as bs"
  obtains xs ys as' ms bs' mid where "as = xs @ as'" "bs = ys @ bs'" "composer_inv s xs ys"
    "patch_rel (c_old s) mid ps as' ms" "patch_rel mid (c_new s) qs ms bs'"
  using assms by (auto simp: loop_inv_def)

lemma loop_inv_Nil: "loop_inv [] [] s as bs \<Longrightarrow> patch_rel 0 0 (composed s) as bs \<and> separated (composed s)"
  by (elim loop_invE) (auto simp: composer_inv_def patch_rel_extend)

lemma compose_old_correct:
  assumes "loop_inv (p # ps) qs s as bs" "qs \<noteq> [] \<Longrightarrow> new_end p < old_start (hd qs)"
  shows "\<exists>s'. compose_old p s = Some s' \<and> loop_inv ps qs s' as bs"
  using assms(1)
proof (cases rule: loop_invE)
  case (1 xs ys as' ms bs' mid)
  from 1(4) obtain g u v xs' ms' where p: "as' = g @ u @ xs'" "ms = g @ v @ ms'"
    "old_start p = c_old s + length g" "new_start p = mid + length g"
    "old_end p = c_old s + length g + length u" "new_end p = mid + length g + length v"
    "patch_rel (c_old s + length g + length u) (mid + length g + length v) ps xs' ms'"
    by (rule patch_rel_ConsE)
  obtain ys' where y: "bs' = (g @ v) @ ys'" "patch_rel (mid + length (g @ v)) (c_new s + length (g @ v)) qs ms' ys'"
    using patch_rel_keep_new [of mid "c_new s" qs "g @ v" ms' bs'] 1(5) p assms(2) by fastforce
  let ?s = "emit (catch_up s (length g)) (c_old s + length g + length u) (c_new s + length g + length v)"
  have "composer_inv ?s ((xs @ g) @ u) ((ys @ g) @ v)"
    by (intro composer_emit composer_catch_up 1(3)) simp_all
  then have "loop_inv ps qs ?s as bs"
    by (rule loop_invI) (use p y 1 in \<open>simp_all add: add.assoc\<close>)
  moreover have "compose_old p s = Some ?s" using p by (simp add: compose_old_def old_len_def new_len_def Let_def add.assoc)
  ultimately show ?thesis by blast
qed

lemma compose_new_correct:
  assumes "loop_inv ps (q # qs) s as bs" "ps \<noteq> [] \<Longrightarrow> old_end q < new_start (hd ps)"
  shows "\<exists>s'. compose_new q s = Some s' \<and> loop_inv ps qs s' as bs"
  using assms(1)
proof (cases rule: loop_invE)
  case (1 xs ys as' ms bs' mid)
  from 1(5) obtain g u v ms' ys' where q: "ms = g @ u @ ms'" "bs' = g @ v @ ys'"
    "old_start q = mid + length g" "new_start q = c_new s + length g"
    "old_end q = mid + length g + length u" "new_end q = c_new s + length g + length v"
    "patch_rel (mid + length g + length u) (c_new s + length g + length v) qs ms' ys'"
    by (rule patch_rel_ConsE)
  obtain xs' where x: "as' = (g @ u) @ xs'" "patch_rel (c_old s + length (g @ u)) (mid + length (g @ u)) ps xs' ms'"
    using patch_rel_keep_old [of "c_old s" mid ps as' "g @ u" ms'] 1(4) q assms(2) by fastforce
  let ?s = "emit (catch_up s (length g)) (c_old s + length g + length u) (c_new s + length g + length v)"
  have "composer_inv ?s ((xs @ g) @ u) ((ys @ g) @ v)"
    by (intro composer_emit composer_catch_up 1(3)) simp_all
  then have "loop_inv ps qs ?s as bs"
    by (rule loop_invI) (use q x 1 in \<open>simp_all add: add.assoc\<close>)
  moreover have "compose_new q s = Some ?s" using q by (simp add: compose_new_def old_len_def new_len_def Let_def add.assoc)
  ultimately show ?thesis by blast
qed

text \<open>After the leading part, both edits start where the loop is.\<close>

definition aligned :: "text_edit \<Rightarrow> text_edit \<Rightarrow> composer \<Rightarrow> bool" where
  "aligned p q s \<longleftrightarrow> old_start p = c_old s \<and> new_start q = c_new s \<and> new_start p = old_start q"

lemma split_take: "\<exists>u1 u2. u = u1 @ u2 \<and> length u1 = min t (length u)"
  by (rule exI [of _ "take t u"], rule exI [of _ "drop t u"]) simp

lemma compose_lead_old:
  assumes "loop_inv (p # ps) (q # qs) s as bs" "old_start q \<le> new_end p" "new_start p < old_start q"
  shows "\<exists>p' s'. compose_lead p q s = Some (p', q, s') \<and> loop_inv (p' # ps) (q # qs) s' as bs \<and> aligned p' q s' \<and>
    new_end p' = new_end p"
  using assms(1)
proof (cases rule: loop_invE)
  case (1 xs ys as' ms bs' mid)
  from 1(4) obtain g u v xs' ms' where p: "as' = g @ u @ xs'" "ms = g @ v @ ms'"
    "old_start p = c_old s + length g" "new_start p = mid + length g"
    "old_end p = c_old s + length g + length u" "new_end p = mid + length g + length v"
    "patch_rel (c_old s + length g + length u) (mid + length g + length v) ps xs' ms'"
    by (rule patch_rel_ConsE)
  define t where "t = old_start q - new_start p"
  have t: "old_start q = mid + length g + t" "t \<le> length v" using assms(2,3) p(4,6) by (simp_all add: t_def)
  obtain u1 u2 where u: "u = u1 @ u2" and lu: "length u1 = min t (length u)" using split_take by blast
  obtain v1 v2 where v: "v = v1 @ v2" and lv: "length v1 = t" using split_take [of v t] t(2) by (metis min_absorb1)
  have lens: "length u = length u1 + length u2" "length v = t + length v2" using u v lv by simp_all
  obtain ys' where y: "bs' = (g @ v1) @ ys'"
    "patch_rel (mid + length (g @ v1)) (c_new s + length (g @ v1)) (q # qs) (v2 @ ms') ys'"
    using patch_rel_keep_new [of mid "c_new s" "q # qs" "g @ v1" "v2 @ ms'" bs'] 1(5) p(2) v lv t(1) by auto
  have ns: "new_start q = c_new s + length g + t" using patch_rel_start [OF y(2)] lv t(1) by simp
  let ?p = "p\<lparr>old_start := c_old s + length g + length u1, new_start := new_start p + t\<rparr>"
  let ?s = "emit (catch_up s (length g)) (c_old s + length g + length u1) (c_new s + length g + t)"
  have "composer_inv ?s ((xs @ g) @ u1) ((ys @ g) @ v1)"
    by (intro composer_emit composer_catch_up 1(3)) (simp_all add: lv)
  moreover have "patch_rel (old_start ?p) (new_start ?p) (?p # ps) (u2 @ xs') (v2 @ ms')"
    by (rule patch_rel_hereI) (use p(4-7) lens in \<open>simp_all add: add.assoc\<close>)
  then have "patch_rel (c_old ?s) (mid + length g + t) (?p # ps) (u2 @ xs') (v2 @ ms')" using p(4) by simp
  moreover have "patch_rel (mid + length g + t) (c_new ?s) (q # qs) (v2 @ ms') ys'"
    using y(2) lv by (simp add: add.assoc)
  ultimately have "loop_inv (?p # ps) (q # qs) ?s as bs"
    by (rule loop_invI) (use p(1) u y(1) 1(1,2) in simp_all)
  moreover have "min (c_old s + length g + t) (old_end p) = c_old s + length g + length u1"
    using p(5) lu by simp
  then have "compose_lead p q s = Some (?p, q, ?s)"
    using assms(3) p(3) by (simp add: compose_lead_def Let_def add.assoc flip: t_def)
  moreover have "aligned ?p q ?s" using ns t(1) p(4) by (simp add: aligned_def)
  ultimately show ?thesis by auto
qed

lemma compose_lead_new:
  assumes "loop_inv (p # ps) (q # qs) s as bs" "new_start p \<le> old_end q" "old_start q \<le> new_start p"
  shows "\<exists>q' s'. compose_lead p q s = Some (p, q', s') \<and> loop_inv (p # ps) (q' # qs) s' as bs \<and> aligned p q' s' \<and>
    old_end q' = old_end q"
  using assms(1)
proof (cases rule: loop_invE)
  case (1 xs ys as' ms bs' mid)
  from 1(5) obtain g u v ms' ys' where q: "ms = g @ u @ ms'" "bs' = g @ v @ ys'"
    "old_start q = mid + length g" "new_start q = c_new s + length g"
    "old_end q = mid + length g + length u" "new_end q = c_new s + length g + length v"
    "patch_rel (mid + length g + length u) (c_new s + length g + length v) qs ms' ys'"
    by (rule patch_rel_ConsE)
  define t where "t = new_start p - old_start q"
  have t: "new_start p = mid + length g + t" "t \<le> length u" using assms(2,3) q(3,5) by (simp_all add: t_def)
  obtain v1 v2 where v: "v = v1 @ v2" and lv: "length v1 = min t (length v)" using split_take by blast
  obtain u1 u2 where u: "u = u1 @ u2" and lu: "length u1 = t" using split_take [of u t] t(2) by (metis min_absorb1)
  have lens: "length v = length v1 + length v2" "length u = t + length u2" using u v lu by simp_all
  obtain xs' where x: "as' = (g @ u1) @ xs'"
    "patch_rel (c_old s + length (g @ u1)) (mid + length (g @ u1)) (p # ps) xs' (u2 @ ms')"
    using patch_rel_keep_old [of "c_old s" mid "p # ps" as' "g @ u1" "u2 @ ms'"] 1(4) q(1) u lu t(1) by auto
  have os: "old_start p = c_old s + length g + t" using patch_rel_start [OF x(2)] lu t(1) by simp
  let ?q = "q\<lparr>old_start := old_start q + t, new_start := c_new s + length g + length v1\<rparr>"
  let ?s = "emit (catch_up s (length g)) (c_old s + length g + t) (c_new s + length g + length v1)"
  have "composer_inv ?s ((xs @ g) @ u1) ((ys @ g) @ v1)"
    by (intro composer_emit composer_catch_up 1(3)) (simp_all add: lu)
  moreover have "patch_rel (c_old ?s) (mid + length g + t) (p # ps) xs' (u2 @ ms')"
    using x(2) lu by (simp add: add.assoc)
  moreover have "patch_rel (old_start ?q) (new_start ?q) (?q # qs) (u2 @ ms') (v2 @ ys')"
    by (rule patch_rel_hereI) (use q(3-7) lens in \<open>simp_all add: add.assoc\<close>)
  then have "patch_rel (mid + length g + t) (c_new ?s) (?q # qs) (u2 @ ms') (v2 @ ys')" using q(3) by simp
  ultimately have "loop_inv (p # ps) (?q # qs) ?s as bs"
    by (rule loop_invI) (use q(2) v x(1) 1(1,2) in simp_all)
  moreover have "min (c_new s + length g + t) (new_end q) = c_new s + length g + length v1"
    using q(6) lv by simp
  then have "compose_lead p q s = Some (p, ?q, ?s)"
    using assms(3) q(4) by (simp add: compose_lead_def Let_def add.assoc flip: t_def)
  moreover have "aligned p ?q ?s" using os t(1) q(3) by (simp add: aligned_def)
  ultimately show ?thesis by auto
qed


text \<open>Two aligned edits: \<open>u\<close> becomes \<open>v\<close>, and \<open>a\<close> (at the same place of the middle text) becomes \<open>b\<close>.\<close>

lemma alignedE:
  assumes "loop_inv (p # ps) (q # qs) s as bs" "aligned p q s"
  obtains xs ys u xs' v ms' a ms'' b ys' where "as = xs @ u @ xs'" "bs = ys @ b @ ys'" "composer_inv s xs ys" "v @ ms' = a @ ms''"
    "old_end p = c_old s + length u" "new_end p = new_start p + length v"
    "old_end q = new_start p + length a" "new_end q = c_new s + length b"
    "patch_rel (old_end p) (new_end p) ps xs' ms'" "patch_rel (old_end q) (new_end q) qs ms'' ys'"
  using assms(1)
proof (cases rule: loop_invE)
  case (1 xs ys as' ms bs' mid)
  from 1(4) obtain g u v xs' ms' where p: "as' = g @ u @ xs'" "ms = g @ v @ ms'"
    "old_start p = c_old s + length g" "new_start p = mid + length g"
    "old_end p = c_old s + length g + length u" "new_end p = mid + length g + length v"
    "patch_rel (c_old s + length g + length u) (mid + length g + length v) ps xs' ms'"
    by (rule patch_rel_ConsE)
  from 1(5) obtain h a b ms'' ys' where q: "ms = h @ a @ ms''" "bs' = h @ b @ ys'"
    "old_start q = mid + length h" "new_start q = c_new s + length h"
    "old_end q = mid + length h + length a" "new_end q = c_new s + length h + length b"
    "patch_rel (mid + length h + length a) (c_new s + length h + length b) qs ms'' ys'"
    by (rule patch_rel_ConsE)
  have "g = []" "h = []" using assms(2) p(3) q(4) by (simp_all add: aligned_def)
  then show thesis using that [of xs u xs' ys b ys' v ms' a ms''] 1(1-3) p q by simp
qed

lemma compose_new_first_correct:
  assumes "loop_inv (p # ps) (q # qs) s as bs" "aligned p q s" "old_end q < new_end p"
  shows "\<exists>p' s'. compose_new_first p q s = Some (p', s') \<and> loop_inv (p' # ps) qs s' as bs"
  using assms(1,2)
proof (cases rule: alignedE)
  case (1 xs ys u xs' v ms' a ms'' b ys')
  have al: "old_start p = c_old s" "new_start q = c_new s" "new_start p = old_start q" using assms(2) by (simp_all add: aligned_def)
  obtain u1 u2 where u: "u = u1 @ u2" and lu: "length u1 = min (length a) (length u)" using split_take by blast
  have "length a \<le> length v" using assms(3) 1(6,7) by simp
  with 1(4) obtain v2 where v: "v = a @ v2" "ms'' = v2 @ ms'" by (auto simp: append_eq_append_conv2)
  let ?p = "p\<lparr>old_start := c_old s + length u1, new_start := old_end q\<rparr>"
  let ?s = "emit s (c_old s + length u1) (c_new s + length b)"
  have "length u = length u1 + length u2" "length v = length a + length v2" using u v by simp_all
  with 1(5-9) have "patch_rel (old_start ?p) (new_start ?p) (?p # ps) (u2 @ xs') (v2 @ ms')"
    by (intro patch_rel_hereI) simp_all
  then have "patch_rel (c_old ?s) (old_end q) (?p # ps) (u2 @ xs') (v2 @ ms')" by simp
  moreover have "composer_inv ?s (xs @ u1) (ys @ b)" by (intro composer_emit 1(3)) simp_all
  moreover have "patch_rel (old_end q) (c_new ?s) qs (v2 @ ms') ys'" using 1(8,10) v by simp
  ultimately have "loop_inv (?p # ps) qs ?s as bs"
    by (rule_tac loop_invI [where xs = "xs @ u1" and ys = "ys @ b"]) (use 1(1,2) u in simp_all)
  moreover have "min (length u) (length a) = length u1" using lu by simp
  then have "compose_new_first p q s = Some (?p, ?s)"
    using al 1(5,7,8) by (simp add: compose_new_first_def old_len_def new_len_def Let_def)
  ultimately show ?thesis by auto
qed

lemma compose_old_first_correct:
  assumes "loop_inv (p # ps) (q # qs) s as bs" "aligned p q s" "new_end p \<le> old_end q"
  shows "\<exists>q' s'. compose_old_first p q s = Some (q', s') \<and> loop_inv ps (q' # qs) s' as bs"
  using assms(1,2)
proof (cases rule: alignedE)
  case (1 xs ys u xs' v ms' a ms'' b ys')
  have al: "old_start p = c_old s" "new_start q = c_new s" "new_start p = old_start q" using assms(2) by (simp_all add: aligned_def)
  obtain b1 b2 where b: "b = b1 @ b2" and lb: "length b1 = min (length v) (length b)" using split_take by blast
  have "length v \<le> length a" using assms(3) 1(6,7) by simp
  with 1(4) obtain a2 where a: "a = v @ a2" "ms' = a2 @ ms''" by (auto simp: append_eq_append_conv2)
  let ?q = "q\<lparr>old_start := new_end p, new_start := c_new s + length b1\<rparr>"
  let ?s = "emit s (c_old s + length u) (c_new s + length b1)"
  have "length b = length b1 + length b2" "length a = length v + length a2" using a b by simp_all
  with 1(5-10) have "patch_rel (old_start ?q) (new_start ?q) (?q # qs) (a2 @ ms'') (b2 @ ys')"
    by (intro patch_rel_hereI) simp_all
  then have "patch_rel (new_end p) (c_new ?s) (?q # qs) (a2 @ ms'') (b2 @ ys')" by simp
  moreover have "composer_inv ?s (xs @ u) (ys @ b1)" by (intro composer_emit 1(3)) simp_all
  moreover have "patch_rel (c_old ?s) (new_end p) ps xs' (a2 @ ms'')" using 1(5,9) a by simp
  ultimately have "loop_inv ps (?q # qs) ?s as bs"
    by (rule_tac loop_invI [where xs = "xs @ u" and ys = "ys @ b1"]) (use 1(1,2) b in simp_all)
  moreover have "compose_old_first p q s = Some (?q, ?s)"
    using al 1(5-8) lb by (simp add: compose_old_first_def old_len_def new_len_def Let_def)
  ultimately show ?thesis by auto
qed

lemma compose_lead_correct:
  assumes "loop_inv (p # ps) (q # qs) s as bs" "old_start q \<le> new_end p" "new_start p \<le> old_end q"
  shows "\<exists>p' q' s'. compose_lead p q s = Some (p', q', s') \<and> loop_inv (p' # ps) (q' # qs) s' as bs \<and> aligned p' q' s'"
  using compose_lead_old [OF assms(1,2)] compose_lead_new [OF assms(1,3)] by (cases "new_start p < old_start q") auto

lemma compose_loop_correct:
  "loop_inv ps qs s as bs \<Longrightarrow> \<exists>r. compose_loop ps qs s = Some r \<and> patch_rel 0 0 r as bs \<and> separated r"
proof (induction ps qs s rule: compose_loop.induct)
  case (1 ps qs s)
  consider (old) p ps' where "ps = p # ps'" "qs = [] \<or> new_end p < old_start (hd qs)"
    | (new) q qs' where "qs = q # qs'" "ps = [] \<or> old_end q < new_start (hd ps)" "ps \<noteq> [] \<Longrightarrow> old_start q \<le> new_end (hd ps)"
    | (both) p ps' q qs' where "ps = p # ps'" "qs = q # qs'" "old_start q \<le> new_end p" "new_start p \<le> old_end q"
    | (none) "ps = []" "qs = []"
    by (cases ps; cases qs) (auto, meson not_less)
  then show ?case
  proof cases
    case old
    obtain s' where s': "compose_old p s = Some s'" "loop_inv ps' qs s' as bs"
      using compose_old_correct [of p ps' qs s as bs] "1.prems" old by auto
    from "1.IH"(1) [of s'] s' old show ?thesis by (subst compose_loop.simps) auto
  next
    case new
    obtain s' where s': "compose_new q s = Some s'" "loop_inv ps qs' s' as bs"
      using compose_new_correct [of ps q qs' s as bs] "1.prems" new by auto
    from "1.IH"(2) [of s'] s' new show ?thesis by (subst compose_loop.simps) (auto simp: not_less)
  next
    case both
    obtain p1 q1 s1 where l: "compose_lead p q s = Some (p1, q1, s1)" "loop_inv (p1 # ps') (q1 # qs') s1 as bs" "aligned p1 q1 s1"
      using compose_lead_correct [of p ps' q qs' s as bs] "1.prems" both by auto
    show ?thesis
    proof (cases "old_end q1 < new_end p1")
      case True
      then obtain p2 s2 where t: "compose_new_first p1 q1 s1 = Some (p2, s2)" "loop_inv (p2 # ps') qs' s2 as bs"
        using compose_new_first_correct [OF l(2,3)] by auto
      have "\<exists>r. compose_loop (p2 # ps') qs' s2 = Some r \<and> patch_rel 0 0 r as bs \<and> separated r"
        by (rule "1.IH"(3) [OF _ _ _ both(1) both(2) l(1) refl refl True t(1) refl t(2)]) (use both in auto)
      with both l(1) t(1) True show ?thesis by (subst compose_loop.simps) auto
    next
      case False
      then obtain q2 s2 where t: "compose_old_first p1 q1 s1 = Some (q2, s2)" "loop_inv ps' (q2 # qs') s2 as bs"
        using compose_old_first_correct [OF l(2,3)] by auto
      have "\<exists>r. compose_loop ps' (q2 # qs') s2 = Some r \<and> patch_rel 0 0 r as bs \<and> separated r"
        by (rule "1.IH"(4) [OF _ _ _ both(1) both(2) l(1) refl refl False t(1) refl t(2)]) (use both in auto)
      with both l(1) t(1) False show ?thesis by (subst compose_loop.simps) auto
    qed
  next
    case none
    with loop_inv_Nil "1.prems" show ?thesis by (subst compose_loop.simps) auto
  qed
qed

lemma compose_correct:
  assumes "patch_rel 0 0 ps as ms" "patch_rel 0 0 qs ms bs"
  shows "\<exists>r. patch_compose ps qs = Some r \<and> patch_rel 0 0 r as bs \<and> separated r"
proof -
  let ?s = "\<lparr>composed = [], c_old = 0, c_new = 0\<rparr>"
  have "composer_inv ?s [] []" by (simp add: composer_inv_def separated_def)
  then have "loop_inv ps qs ?s as bs" by (rule loop_invI) (use assms in simp_all)
  then show ?thesis unfolding patch_compose_def by (rule compose_loop_correct)
qed

section \<open>Translating positions\<close>

text \<open>Reading a patch from left to right, and the binary search as an instance of it.\<close>

fun translate :: "nat \<Rightarrow> nat \<Rightarrow> patch \<Rightarrow> nat \<Rightarrow> nat" where
  "translate old new [] x = new + (x - old)"
| "translate old new (e # es) x =
     (if x < old_start e then new + (x - old)
      else if x < old_end e then new_start e
      else translate (old_end e) (new_end e) es x)"

lemma search_simps:
  "p = [] \<or> x < old_start (hd p) \<Longrightarrow> search_old_start p x = Inr 0"
  "old_start e < x \<Longrightarrow> search_old_start (e # es) x = map_sum Suc Suc (search_old_start es x)"
  "search_old_start (e # es) (old_start e) = Inl 0"
  by (cases p) (auto simp: search_old_start_def Let_def)

lemma old_to_new_before: "p = [] \<or> x < old_start (hd p) \<Longrightarrow> old_to_new p x = Some x"
  by (simp add: old_to_new_def search_simps(1))

lemma old_to_new_at:
  assumes "old_start e \<le> x" "es = [] \<or> x < old_start (hd es)"
  shows "old_to_new (e # es) x = Some (if x \<ge> old_end e then new_end e + (x - old_end e) else new_start e)"
  using assms search_simps(1) [OF assms(2)] search_simps(2) [of e x es] search_simps(3) [of e es]
  by (cases "old_start e = x") (auto simp: old_to_new_def get_opt_def Let_def)

lemma old_to_new_later:
  assumes "old_start e < x" "es \<noteq> []" "old_start (hd es) \<le> x"
  shows "old_to_new (e # es) x = old_to_new es x"
proof -
  have "search_old_start es x \<noteq> Inr 0"
    using assms(2,3) by (cases es) (auto simp: search_old_start_def Let_def)
  then show ?thesis using search_simps(2) [OF assms(1), of es]
    by (auto simp: old_to_new_def get_opt_def Let_def split: sum.splits nat.splits)
qed

lemma separated_Cons: "separated (e # es) \<Longrightarrow> separated es"
  by (cases es) (auto simp: separated_def)

lemma separated_hd: "separated (e # e' # es) \<Longrightarrow> old_end e < old_start e'"
  by (simp add: separated_def)

lemma old_to_new_translate:
  "patch_rel old new (e # es) xs ys \<Longrightarrow> separated (e # es) \<Longrightarrow> old_start e \<le> x \<Longrightarrow>
   old_to_new (e # es) x = Some (translate old new (e # es) x)"
proof (induction es arbitrary: old new e xs ys)
  case Nil
  then show ?case using old_to_new_at [of e x "[]"] by simp
next
  case (Cons f fs)
  from Cons.prems(1) obtain g u v xs' ys' where x: "xs = g @ u @ xs'" "ys = g @ v @ ys'" and
    r: "patch_rel (old + length g + length u) (new + length g + length v) (f # fs) xs' ys'"
    "old_start e = old + length g" "old_end e = old + length g + length u" "new_end e = new + length g + length v"
    by (rule patch_rel_ConsE) blast
  have ef: "old_end e < old_start f" using separated_hd [OF Cons.prems(2)] .
  show ?case
  proof (cases "x < old_start f")
    case True
    then show ?thesis using old_to_new_at [of e x "f # fs"] Cons.prems(3) by simp
  next
    case False
    then have "old_to_new (e # f # fs) x = old_to_new (f # fs) x"
      using old_to_new_later [of e x "f # fs"] ef r by simp
    also have "\<dots> = Some (translate (old_end e) (new_end e) (f # fs) x)"
      using Cons.IH [OF r(1) separated_Cons [OF Cons.prems(2)]] False r(3,4) by simp
    finally show ?thesis using False ef r by simp
  qed
qed

lemma old_to_new_eq:
  assumes "patch_rel 0 0 p xs ys" "separated p"
  shows "old_to_new p x = Some (translate 0 0 p x)"
proof (cases p)
  case (Cons e es)
  with assms old_to_new_translate [of 0 0 e es xs ys x] old_to_new_before [of p x] show ?thesis
    by (cases "x < old_start e") auto
qed (simp add: old_to_new_before)

definition covered :: "patch \<Rightarrow> nat \<Rightarrow> bool" where
  "covered p x \<longleftrightarrow> (\<exists>e \<in> set p. old_start e \<le> x \<and> x < old_end e)"

lemma patch_rel_starts: "patch_rel old new p xs ys \<Longrightarrow> e \<in> set p \<Longrightarrow> old \<le> old_start e \<and> new \<le> new_start e"
proof (induction p arbitrary: old new xs ys)
  case (Cons d es)
  from Cons.prems(1) show ?case
  proof (cases rule: patch_rel_ConsE)
    case (1 g u v xs' ys')
    with Cons.IH [OF 1(7)] Cons.prems(2) show ?thesis by auto
  qed
qed simp

lemma translate_bounds:
  "patch_rel old new p xs ys \<Longrightarrow> old \<le> x \<Longrightarrow> x \<le> old + length xs \<Longrightarrow>
   new \<le> translate old new p x \<and> translate old new p x \<le> new + length ys"
proof (induction p arbitrary: old new xs ys)
  case (Cons e es)
  from Cons.prems(1) show ?case
  proof (cases rule: patch_rel_ConsE)
    case (1 g u v xs' ys')
    with Cons.IH [OF 1(7)] Cons.prems(2,3) show ?thesis by auto
  qed
qed auto

lemma nth_past: "old + length g + length u \<le> x \<Longrightarrow> (g @ u @ xs) ! (x - old) = xs ! (x - (old + length g + length u))"
  by (auto simp: nth_append dest!: le_Suc_ex)

lemma translate_keeps:
  "patch_rel old new p xs ys \<Longrightarrow> old \<le> x \<Longrightarrow> x < old + length xs \<Longrightarrow> \<not> covered p x \<Longrightarrow>
   translate old new p x < new + length ys \<and> ys ! (translate old new p x - new) = xs ! (x - old)"
proof (induction p arbitrary: old new xs ys)
  case (Cons e es)
  from Cons.prems(1) show ?case
  proof (cases rule: patch_rel_ConsE)
    case (1 g u v xs' ys')
    show ?thesis
    proof (cases "x < old_start e")
      case True
      with 1(3) Cons.prems(2) have "x - old < length g" "new + (x - old) - new = x - old" by auto
      with True 1(1,2) show ?thesis by (simp add: nth_append)
    next
      case False
      with Cons.prems(4) have x: "old_end e \<le> x" "\<not> covered es x" by (auto simp: covered_def)
      have "translate (old_end e) (new_end e) es x < new_end e + length ys' \<and>
          ys' ! (translate (old_end e) (new_end e) es x - new_end e) = xs' ! (x - old_end e)"
        using Cons.IH [of "old_end e" "new_end e" xs' ys'] x 1(1,5-7) Cons.prems(3) by simp
      moreover have "new_end e \<le> translate (old_end e) (new_end e) es x"
        using translate_bounds [of "old_end e" "new_end e" es xs' ys' x] x 1(1,5-7) Cons.prems(3) by simp
      moreover have "xs ! (x - old) = xs' ! (x - old_end e)" using x(1) 1(1,5) nth_past by metis
      moreover have "ys ! (n - new) = ys' ! (n - new_end e)" if "new_end e \<le> n" for n
        using that 1(2,6) nth_past by metis
      ultimately show ?thesis using x False 1(2,6) by simp
    qed
  qed
qed auto

lemma translate_covered:
  "patch_rel old new p xs ys \<Longrightarrow> e \<in> set p \<Longrightarrow> old_start e \<le> x \<Longrightarrow> x < old_end e \<Longrightarrow> translate old new p x = new_start e"
proof (induction p arbitrary: old new xs ys)
  case (Cons d es)
  from Cons.prems(1) show ?case
  proof (cases rule: patch_rel_ConsE)
    case (1 g u v xs' ys')
    with Cons.IH [OF 1(7)] patch_rel_starts [OF 1(7), of e] Cons.prems(2-4) show ?thesis by auto
  qed
qed simp

lemma translate_mono:
  "patch_rel old new p xs ys \<Longrightarrow> old \<le> x \<Longrightarrow> x \<le> z \<Longrightarrow> z \<le> old + length xs \<Longrightarrow> translate old new p x \<le> translate old new p z"
proof (induction p arbitrary: old new xs ys)
  case (Cons e es)
  from Cons.prems(1) show ?case
  proof (cases rule: patch_rel_ConsE)
    case (1 g u v xs' ys')
    have "old_end e \<le> z \<Longrightarrow> new_end e \<le> translate (old_end e) (new_end e) es z"
      using translate_bounds [of "old_end e" "new_end e" es xs' ys' z] 1(1,5-7) Cons.prems(4) by simp
    with Cons.IH [OF 1(7)] 1 Cons.prems(2-4) show ?thesis by auto
  qed
qed auto

section \<open>Theorems\<close>

lemma patch_rel_invert: "patch_rel old new p xs ys \<Longrightarrow> patch_rel new old (patch_invert p) ys xs"
proof (induction p arbitrary: old new xs ys)
  case (Cons e es)
  from Cons.prems show ?case
  proof (cases rule: patch_rel_ConsE)
    case (1 g u v xs' ys')
    with Cons.IH [OF 1(7)] patch_rel_ConsI [of new g v old u "patch_invert es" ys' xs'
        "e\<lparr>old_start := new_start e, old_end := new_end e, new_start := old_start e, new_end := old_end e\<rparr>"]
    show ?thesis by (simp add: patch_invert_def)
  qed
qed (simp add: patch_invert_def)

lemma patch_new_separated: "separated p \<Longrightarrow> patch_new p = Some p"
proof -
  have "successively (\<lambda>e e'. old_end e < old_start e' \<and> new_end e < new_start e') es \<Longrightarrow>
      (case l of None \<Rightarrow> True | Some d \<Rightarrow> es = [] \<or> old_end d < old_start (hd es) \<and> new_end d < new_start (hd es)) \<Longrightarrow>
      patch_new_check l es = Some ()" for l es
  proof (induction l es rule: patch_new_check.induct)
    case (2 l e es)
    then show ?case by (cases es) (auto simp: rust_assert_def split: option.splits)
  qed simp
  from this [of p None] show "separated p \<Longrightarrow> ?thesis" by (simp add: separated_def patch_new_def)
qed

definition sample_patch :: patch where
  "sample_patch = [\<lparr>old_start = 1, old_end = 2, new_start = 1, new_end = 4\<rparr>]"

definition sample_patch2 :: patch where
  "sample_patch2 = [\<lparr>old_start = 0, old_end = 3, new_start = 0, new_end = 1\<rparr>]"

lemma sample_rel:
  "patch_rel 0 0 sample_patch ''abc'' ''axyzc''" "patch_rel 0 0 sample_patch2 ''axyzc'' ''qzc''" "separated sample_patch"
  by (simp_all add: sample_patch_def sample_patch2_def patch_rel.simps(2) separated_def edit_is_empty_def)

text \<open>C13. \<open>Patch::compose\<close> is composition: if a patch leads from text \<open>as\<close> to \<open>ms\<close> and another from \<open>ms\<close> to
  \<open>bs\<close>, then composing them terminates without underflow, the result leads from \<open>as\<close> to \<open>bs\<close>, its edits
  are not empty and do not touch, and it passes the assertions of \<open>Patch::new\<close>.\<close>

theorem patch_compose_correct:
  assumes "patch_rel 0 0 ps as ms" "patch_rel 0 0 qs ms bs"
  shows "\<exists>r. patch_compose ps qs = Some r \<and> patch_rel 0 0 r as bs \<and> separated r \<and> patch_new r = Some r"
  using compose_correct [OF assms] patch_new_separated by blast

theorem patch_compose_correct_witness:
  "\<exists>r. patch_compose sample_patch sample_patch2 = Some r \<and> patch_rel 0 0 r ''abc'' ''qzc'' \<and> separated r \<and> patch_new r = Some r"
  by (rule patch_compose_correct [OF sample_rel(1,2)])

text \<open>C14. \<open>Patch::invert\<close> leads back, and composing a patch with its inverse leads from a text to itself.\<close>

theorem patch_invert_correct:
  assumes "patch_rel 0 0 p as bs"
  shows "patch_rel 0 0 (patch_invert p) bs as \<and> patch_invert (patch_invert p) = p \<and>
    (\<exists>r. patch_compose p (patch_invert p) = Some r \<and> patch_rel 0 0 r as as)"
  using patch_rel_invert [OF assms] compose_correct [OF assms patch_rel_invert [OF assms]]
  by (auto simp: patch_invert_def comp_def)

theorem patch_invert_correct_witness:
  "patch_rel 0 0 (patch_invert sample_patch) ''axyzc'' ''abc'' \<and> patch_invert (patch_invert sample_patch) = sample_patch \<and>
    (\<exists>r. patch_compose sample_patch (patch_invert sample_patch) = Some r \<and> patch_rel 0 0 r ''abc'' ''abc'')"
  by (rule patch_invert_correct [OF sample_rel(1)])

text \<open>\<open>Patch::old_to_new\<close> does not underflow and maps positions of the old text to positions of the
  new text, monotonically; a position outside every edit goes to the same character, one inside an edit
  to the start of its replacement.\<close>

theorem old_to_new_correct:
  assumes "patch_rel 0 0 p as bs" "separated p" "x \<le> z" "z \<le> length as"
  shows "\<exists>x' z'. old_to_new p x = Some x' \<and> old_to_new p z = Some z' \<and> x' \<le> z' \<and> z' \<le> length bs \<and>
    (x < length as \<and> \<not> covered p x \<longrightarrow> x' < length bs \<and> bs ! x' = as ! x) \<and>
    (\<forall>e \<in> set p. old_start e \<le> x \<and> x < old_end e \<longrightarrow> x' = new_start e)"
proof -
  note r = assms(1)
  have "translate 0 0 p x \<le> translate 0 0 p z" "translate 0 0 p z \<le> length bs"
    using translate_mono [OF r, of x z] translate_bounds [OF r, of z] assms(3,4) by simp_all
  moreover have "x < length as \<and> \<not> covered p x \<longrightarrow> translate 0 0 p x < length bs \<and> bs ! translate 0 0 p x = as ! x"
    using translate_keeps [OF r, of x] by simp
  ultimately show ?thesis using old_to_new_eq [OF r assms(2)] translate_covered [OF r] by auto
qed

theorem old_to_new_correct_witness:
  "\<exists>x' z'. old_to_new sample_patch 1 = Some x' \<and> old_to_new sample_patch 2 = Some z' \<and> x' \<le> z' \<and> z' \<le> 5 \<and>
    x' = 1 \<and> ''axyzc'' ! z' = CHR ''c''"
  using old_to_new_correct [OF sample_rel(1,3), of 1 2] old_to_new_correct [OF sample_rel(1,3), of 2 2]
  by (auto simp: sample_patch_def covered_def)

end
