(* ===== verification/Subscription.thy ===== *)
theory Subscription
  imports Patch
begin

text \<open>
  Topics and subscriptions (\<open>crates/text/src/subscription.rs\<close>).

  A topic keeps weak references to its subscriptions, each a shared cell holding the patch not yet
  consumed. Cells are modelled by an explicit store from addresses to patches; an address outside the
  store is a weak reference whose subscription has been dropped, so that \<open>upgrade\<close> fails. The mutexes
  make each operation atomic, so operations are steps on the state.
\<close>

section \<open>Model\<close>

record topic =
  subscriptions :: "nat list"
  cells :: "nat \<rightharpoonup> patch"

definition topic_new :: topic where
  "topic_new = \<lparr>subscriptions = [], cells = Map.empty\<rparr>"

text \<open>\<open>subscribe\<close> allocates a cell at an address not in use.\<close>

definition subscribe :: "topic \<Rightarrow> nat \<Rightarrow> topic" where
  "subscribe t addr = t\<lparr>subscriptions := subscriptions t @ [addr], cells := (cells t)(addr \<mapsto> [])\<rparr>"

fun publish_subs :: "nat list \<Rightarrow> (nat \<rightharpoonup> patch) \<Rightarrow> patch \<Rightarrow> (nat list \<times> (nat \<rightharpoonup> patch)) option" where
  "publish_subs [] st edits = Some ([], st)"
| "publish_subs (a # as) st edits =
     (case st a of
        Some p \<Rightarrow> do {
          p' \<leftarrow> patch_compose p edits;
          (as', st') \<leftarrow> publish_subs as (st(a \<mapsto> p')) edits;
          Some (a # as', st')
        }
      | None \<Rightarrow> publish_subs as st edits)"

definition publish :: "topic \<Rightarrow> patch \<Rightarrow> topic option" where
  "publish t edits = do {
     (subs, st) \<leftarrow> publish_subs (subscriptions t) (cells t) edits;
     Some (t\<lparr>subscriptions := subs, cells := st\<rparr>)
   }"

text \<open>\<open>consume\<close> takes the patch out of the cell, leaving the empty one.\<close>

definition consume :: "topic \<Rightarrow> nat \<Rightarrow> (patch \<times> topic) option" where
  "consume t addr = (case cells t addr of
     Some p \<Rightarrow> Some (p, t\<lparr>cells := (cells t)(addr \<mapsto> [])\<rparr>)
   | None \<Rightarrow> None)"

definition drop_subscription :: "topic \<Rightarrow> nat \<Rightarrow> topic" where
  "drop_subscription t addr = t\<lparr>cells := (cells t)(addr := None)\<rparr>"

section \<open>Reachable states\<close>

text \<open>
  A topic together with the text it describes and, for each live subscription, the text that its
  holder has seen. Publishing announces edits that lead from the current text to another.
\<close>

inductive reachable :: "topic \<Rightarrow> 'c list \<Rightarrow> (nat \<rightharpoonup> 'c list) \<Rightarrow> bool" where
  start: "reachable topic_new text Map.empty"
| subscribe: "reachable t text seen \<Longrightarrow> addr \<notin> dom (cells t) \<Longrightarrow> addr \<notin> set (subscriptions t) \<Longrightarrow>
    reachable (subscribe t addr) text (seen(addr \<mapsto> text))"
| publish: "reachable t text seen \<Longrightarrow> patch_rel 0 0 edits text text' \<Longrightarrow> publish t edits = Some t' \<Longrightarrow>
    reachable t' text' seen"
| consume: "reachable t text seen \<Longrightarrow> consume t addr = Some (p, t') \<Longrightarrow> reachable t' text (seen(addr \<mapsto> text))"
| drop: "reachable t text seen \<Longrightarrow> reachable (drop_subscription t addr) text (seen(addr := None))"

definition topic_inv :: "topic \<Rightarrow> 'c list \<Rightarrow> (nat \<rightharpoonup> 'c list) \<Rightarrow> bool" where
  "topic_inv t text seen \<longleftrightarrow> distinct (subscriptions t) \<and> dom (cells t) \<subseteq> set (subscriptions t) \<and> dom seen = dom (cells t) \<and>
     (\<forall>a p s. cells t a = Some p \<longrightarrow> seen a = Some s \<longrightarrow> patch_rel 0 0 p s text)"

lemma topic_inv_iff:
  "topic_inv t cur seen \<longleftrightarrow> distinct (subscriptions t) \<and> (\<forall>a p. cells t a = Some p \<longrightarrow> a \<in> set (subscriptions t)) \<and>
     (\<forall>a. seen a = None \<longleftrightarrow> cells t a = None) \<and>
     (\<forall>a p s. cells t a = Some p \<longrightarrow> seen a = Some s \<longrightarrow> patch_rel 0 0 p s cur)"
proof -
  have "dom (cells t) \<subseteq> set (subscriptions t) \<longleftrightarrow> (\<forall>a p. cells t a = Some p \<longrightarrow> a \<in> set (subscriptions t))"
    by (auto simp: dom_def)
  moreover have "dom seen = dom (cells t) \<longleftrightarrow> (\<forall>a. seen a = None \<longleftrightarrow> cells t a = None)"
    by (simp only: set_eq_iff domIff not_iff simp_thms)
  ultimately show ?thesis by (simp add: topic_inv_def)
qed

lemma publish_subs_correct:
  assumes "patch_rel 0 0 edits text text'"
  shows "distinct as \<Longrightarrow> (\<forall>a \<in> set as. \<forall>p. st a = Some p \<longrightarrow> (\<exists>s. seen a = Some s \<and> patch_rel 0 0 p s text)) \<Longrightarrow>
    \<exists>as' st'. publish_subs as st edits = Some (as', st') \<and> distinct as' \<and> set as' = set as \<inter> dom st \<and> dom st' = dom st \<and>
      (\<forall>a. a \<notin> set as \<longrightarrow> st' a = st a) \<and>
      (\<forall>a \<in> set as. \<forall>p. st' a = Some p \<longrightarrow> (\<exists>s. seen a = Some s \<and> patch_rel 0 0 p s text'))"
proof (induction as arbitrary: st)
  case (Cons a as)
  show ?case
  proof (cases "st a")
    case None
    then show ?thesis using Cons.IH [of st] Cons.prems by (auto simp: dom_def)
  next
    case (Some p)
    then obtain s where s: "seen a = Some s" "patch_rel 0 0 p s text" using Cons.prems by auto
    obtain p' where p': "patch_compose p edits = Some p'" "patch_rel 0 0 p' s text'"
      using compose_correct [OF s(2) assms] by blast
    have H: "\<forall>b \<in> set as. \<forall>p. (st(a \<mapsto> p')) b = Some p \<longrightarrow> (\<exists>s. seen b = Some s \<and> patch_rel 0 0 p s text)"
      using Cons.prems by auto
    obtain as' st' where r: "publish_subs as (st(a \<mapsto> p')) edits = Some (as', st')" "distinct as'"
      "set as' = set as \<inter> dom (st(a \<mapsto> p'))" "dom st' = dom (st(a \<mapsto> p'))"
      "\<forall>b. b \<notin> set as \<longrightarrow> st' b = (st(a \<mapsto> p')) b"
      "\<forall>b \<in> set as. \<forall>p. st' b = Some p \<longrightarrow> (\<exists>s. seen b = Some s \<and> patch_rel 0 0 p s text')"
      using Cons.IH [OF _ H] Cons.prems(1) unfolding distinct.simps by blast
    have "publish_subs (a # as) st edits = Some (a # as', st')" using Some p'(1) r(1) by simp
    moreover have "distinct (a # as')" using r(2,3) Cons.prems(1) by auto
    moreover have "set (a # as') = set (a # as) \<inter> dom st" using r(3) Some Cons.prems(1) by auto
    moreover have "dom st' = dom st" using r(4) Some by auto
    moreover have "\<forall>b. b \<notin> set (a # as) \<longrightarrow> st' b = st b" using r(5) by auto
    moreover have "st' a = Some p'" using r(5) Cons.prems(1) by simp
    ultimately show ?thesis using r(6) s(1) p'(2) by (intro exI [of _ "a # as'"] exI [of _ st']) auto
  qed
qed simp

lemma publish_correct:
  assumes "topic_inv t text seen" "patch_rel 0 0 edits text text'"
  shows "\<exists>t'. publish t edits = Some t' \<and> topic_inv t' text' seen \<and> set (subscriptions t') = dom (cells t')"
proof -
  have "\<forall>a \<in> set (subscriptions t). \<forall>p. cells t a = Some p \<longrightarrow> (\<exists>s. seen a = Some s \<and> patch_rel 0 0 p s text)"
    using assms(1) unfolding topic_inv_def by blast
  then obtain as' st' where "publish_subs (subscriptions t) (cells t) edits = Some (as', st')" "distinct as'"
    "set as' = set (subscriptions t) \<inter> dom (cells t)" "dom st' = dom (cells t)"
    "\<forall>a \<in> set (subscriptions t). \<forall>p. st' a = Some p \<longrightarrow> (\<exists>s. seen a = Some s \<and> patch_rel 0 0 p s text')"
    using publish_subs_correct [OF assms(2), of "subscriptions t" "cells t" seen] assms(1) by (auto simp: topic_inv_def)
  moreover from this have "\<forall>a p s. st' a = Some p \<longrightarrow> seen a = Some s \<longrightarrow> patch_rel 0 0 p s text'"
    using assms(1) unfolding topic_inv_def by (metis domI in_mono option.inject)
  ultimately show ?thesis using assms(1) by (auto simp: publish_def topic_inv_def)
qed

lemma reachable_inv: "reachable t text seen \<Longrightarrow> topic_inv t text seen"
proof (induction rule: reachable.induct)
  case (publish t cur seen edits cur' t')
  then show ?case using publish_correct by fastforce
qed (auto simp: topic_inv_iff topic_new_def subscribe_def consume_def drop_subscription_def split: option.splits if_splits)

section \<open>Theorem\<close>

text \<open>C15. In every reachable state, what a live subscription consumes leads from the text its holder last
  saw (when subscribing or consuming) to the current text, whatever was published in between; publishing
  edits of the current text never panics, and afterwards the topic keeps exactly the live subscriptions.\<close>

theorem subscription_correct:
  assumes "reachable t text seen" "seen addr = Some s" "patch_rel 0 0 edits text text'"
  shows "(\<exists>p t'. consume t addr = Some (p, t') \<and> patch_rel 0 0 p s text) \<and>
    (\<exists>t'. publish t edits = Some t' \<and> set (subscriptions t') = dom (cells t') \<and> dom (cells t') = dom (cells t))"
proof
  have inv: "topic_inv t text seen" by (rule reachable_inv [OF assms(1)])
  then obtain p where "cells t addr = Some p" "patch_rel 0 0 p s text"
    using assms(2) unfolding topic_inv_def by (metis domD domI)
  then show "\<exists>p t'. consume t addr = Some (p, t') \<and> patch_rel 0 0 p s text" by (simp add: consume_def)
  from publish_correct [OF inv assms(3)] inv
  show "\<exists>t'. publish t edits = Some t' \<and> set (subscriptions t') = dom (cells t') \<and> dom (cells t') = dom (cells t)"
    by (auto simp: topic_inv_def)
qed

definition sample_topic :: topic where
  "sample_topic = subscribe topic_new 5"

theorem subscription_correct_witness:
  "(\<exists>p t'. consume sample_topic 5 = Some (p, t') \<and> patch_rel 0 0 p ''abc'' ''abc'') \<and>
   (\<exists>t'. publish sample_topic sample_patch = Some t' \<and> set (subscriptions t') = dom (cells t') \<and> dom (cells t') = dom (cells sample_topic))"
proof -
  have "reachable sample_topic ''abc'' [5 \<mapsto> ''abc'']"
    unfolding sample_topic_def by (rule reachable.subscribe [OF reachable.start]) (simp_all add: topic_new_def)
  from subscription_correct [OF this _ sample_rel(1), of 5] show ?thesis by simp
qed

end
