(* ===== verification/Selection.thy ===== *)
theory Selection
  imports Prelude
begin

text \<open>
  Selections (\<open>crates/text/src/selection.rs\<close>): an ordered pair of positions with a direction. The
  goal columns are floating-point numbers that selections only carry along, so their types are
  parameters.
\<close>

section \<open>Model\<close>

datatype ('f64, 'f32) selection_goal =
    NoGoal
  | HorizontalPosition 'f64
  | HorizontalRange 'f64 'f64
  | WrappedHorizontalPosition "u32 \<times> 'f32"

record ('t, 'g) selection =
  sel_id :: nat
  sel_start :: 't
  sel_end :: 't
  reversed :: bool
  goal :: 'g

definition head :: "('t, 'g) selection \<Rightarrow> 't" where
  "head s = (if reversed s then sel_start s else sel_end s)"

definition tail :: "('t, 'g) selection \<Rightarrow> 't" where
  "tail s = (if reversed s then sel_end s else sel_start s)"

definition selection_map :: "('t \<Rightarrow> 's) \<Rightarrow> ('t, 'g) selection \<Rightarrow> ('s, 'g) selection" where
  "selection_map f s = \<lparr>sel_id = sel_id s, sel_start = f (sel_start s), sel_end = f (sel_end s),
     reversed = reversed s, goal = goal s\<rparr>"

definition collapse_to :: "'t \<Rightarrow> 'g \<Rightarrow> ('t, 'g) selection \<Rightarrow> ('t, 'g) selection" where
  "collapse_to point new_goal s = s\<lparr>sel_start := point, sel_end := point, goal := new_goal, reversed := False\<rparr>"

definition selection_is_empty :: "('t, 'g) selection \<Rightarrow> bool" where
  "selection_is_empty s \<longleftrightarrow> sel_start s = sel_end s"

definition set_head :: "'t::linorder \<Rightarrow> 'g \<Rightarrow> ('t, 'g) selection \<Rightarrow> ('t, 'g) selection" where
  "set_head h new_goal s =
     (if ord_cmp h (tail s) = Less
      then (let s1 = (if \<not> reversed s then s\<lparr>sel_end := sel_start s, reversed := True\<rparr> else s)
            in s1\<lparr>sel_start := h\<rparr>)
      else (let s1 = (if reversed s then s\<lparr>sel_start := sel_end s, reversed := False\<rparr> else s)
            in s1\<lparr>sel_end := h\<rparr>))
     \<lparr>goal := new_goal\<rparr>"

definition set_tail :: "'t::linorder \<Rightarrow> 'g \<Rightarrow> ('t, 'g) selection \<Rightarrow> ('t, 'g) selection" where
  "set_tail t new_goal s =
     (if is_le (ord_cmp t (head s))
      then (let s1 = (if reversed s then s\<lparr>sel_end := sel_start s, reversed := False\<rparr> else s)
            in s1\<lparr>sel_start := t\<rparr>)
      else (let s1 = (if \<not> reversed s then s\<lparr>sel_start := sel_end s, reversed := True\<rparr> else s)
            in s1\<lparr>sel_end := t\<rparr>))
     \<lparr>goal := new_goal\<rparr>"

definition set_head_tail :: "'t::linorder \<Rightarrow> 't \<Rightarrow> 'g \<Rightarrow> ('t, 'g) selection \<Rightarrow> ('t, 'g) selection" where
  "set_head_tail h t new_goal s =
     (if h < t then s\<lparr>reversed := True, sel_start := h, sel_end := t\<rparr>
      else s\<lparr>reversed := False, sel_start := t, sel_end := h\<rparr>)
     \<lparr>goal := new_goal\<rparr>"

definition swap_head_tail :: "('t, 'g) selection \<Rightarrow> ('t, 'g) selection" where
  "swap_head_tail s =
     (if reversed s then s\<lparr>reversed := False\<rparr>
      else s\<lparr>sel_start := sel_end s, sel_end := sel_start s\<rparr>)"

definition selection_range :: "('t, 'g) selection \<Rightarrow> 't \<times> 't" where
  "selection_range s = (sel_start s, sel_end s)"

definition selection_len :: "(nat, 'g) selection \<Rightarrow> nat option" where
  "selection_len s = checked_sub (sel_end s) (sel_start s)"

definition selection_equals :: "('t, 'g) selection \<Rightarrow> 't \<times> 't \<Rightarrow> bool" where
  "selection_equals s r \<longleftrightarrow> sel_start s = fst r \<and> sel_end s = snd r"

section \<open>Theorems\<close>

definition ordered_selection :: "('t::linorder, 'g) selection \<Rightarrow> bool" where
  "ordered_selection s \<longleftrightarrow> sel_start s \<le> sel_end s"

lemmas selection_defs = head_def tail_def set_head_def set_tail_def set_head_tail_def collapse_to_def
  swap_head_tail_def ordered_selection_def

lemma set_head_correct:
  "ordered_selection s \<Longrightarrow> ordered_selection (set_head h g s) \<and> head (set_head h g s) = h \<and>
     tail (set_head h g s) = tail s \<and> goal (set_head h g s) = g"
  by (cases "reversed s"; cases "h < tail s") (simp_all add: selection_defs)

lemma set_tail_correct:
  "ordered_selection s \<Longrightarrow> ordered_selection (set_tail t g s) \<and> tail (set_tail t g s) = t \<and>
     head (set_tail t g s) = head s \<and> goal (set_tail t g s) = g"
  by (cases "reversed s"; cases "t \<le> head s") (auto simp: selection_defs is_le_def)

lemma set_head_tail_correct:
  "ordered_selection (set_head_tail h t g s) \<and> head (set_head_tail h t g s) = h \<and>
     tail (set_head_tail h t g s) = t \<and> goal (set_head_tail h t g s) = g"
  by (cases "h < t") (simp_all add: selection_defs)

lemma collapse_to_correct:
  "ordered_selection (collapse_to h g s) \<and> head (collapse_to h g s) = h \<and>
     tail (collapse_to h g s) = h \<and> goal (collapse_to h g s) = g"
  by (simp add: selection_defs)

text \<open>Moving the head or the tail of a selection, setting both, or collapsing it keeps its ends in
  order, moves exactly what is asked for (the other end of the selection stays where it was) and sets the
  goal.\<close>

theorem selection_moves_correct:
  assumes "ordered_selection s"
  shows "ordered_selection (set_head h g s) \<and> head (set_head h g s) = h \<and> tail (set_head h g s) = tail s \<and>
    ordered_selection (set_tail t g s) \<and> tail (set_tail t g s) = t \<and> head (set_tail t g s) = head s \<and>
    ordered_selection (set_head_tail h t g s) \<and> head (set_head_tail h t g s) = h \<and> tail (set_head_tail h t g s) = t \<and>
    ordered_selection (collapse_to h g s) \<and> head (collapse_to h g s) = h \<and> tail (collapse_to h g s) = h \<and>
    goal (set_head h g s) = g \<and> goal (set_tail t g s) = g \<and> goal (set_head_tail h t g s) = g \<and> goal (collapse_to h g s) = g"
  using set_head_correct [OF assms, of h g] set_tail_correct [OF assms, of t g] set_head_tail_correct [of h t g s]
    collapse_to_correct [of h g s] by simp

definition sample_selection :: "(nat, unit) selection" where
  "sample_selection = \<lparr>sel_id = 0, sel_start = 2, sel_end = 5, reversed = False, goal = ()\<rparr>"

theorem selection_moves_correct_witness:
  "head (set_head 1 () sample_selection) = 1 \<and> tail (set_head 1 () sample_selection) = 2 \<and>
   ordered_selection (set_head 1 () sample_selection)"
proof -
  have o: "ordered_selection sample_selection" and t: "tail sample_selection = 2"
    by (simp_all add: sample_selection_def ordered_selection_def tail_def)
  from selection_moves_correct [OF o, of 1 "()" 7] t show ?thesis by simp
qed

text \<open>\<open>swap_head_tail\<close> exchanges head and tail, but on a selection that is not reversed it swaps the
  positions and leaves the direction: unless the selection is empty its start then lies after its end, and
  its length underflows.\<close>

theorem swap_head_tail_unordered:
  assumes "ordered_selection s" "\<not> reversed s" "\<not> selection_is_empty s"
  shows "head (swap_head_tail s) = tail s \<and> tail (swap_head_tail s) = head s \<and>
    \<not> ordered_selection (swap_head_tail s) \<and> selection_len (swap_head_tail s) = None"
  using assms by (auto simp: selection_defs selection_is_empty_def selection_len_def checked_sub_def)

theorem swap_head_tail_unordered_witness:
  "\<not> ordered_selection (swap_head_tail sample_selection) \<and> selection_len (swap_head_tail sample_selection) = None"
proof -
  have "ordered_selection sample_selection" "\<not> reversed sample_selection" "\<not> selection_is_empty sample_selection"
    by (simp_all add: sample_selection_def ordered_selection_def selection_is_empty_def)
  from swap_head_tail_unordered [OF this] show ?thesis by simp
qed

end
