(* ===== verification/Point.thy ===== *)
theory Point
  imports Prelude
begin

unbundle bit_operations_syntax

text \<open>
  Positions in a text (\<open>crates/rope/src/point.rs\<close>, \<open>point_utf16.rs\<close>, \<open>offset_utf16.rs\<close>,
  \<open>unclipped.rs\<close>).

  \<open>Point\<close> and \<open>PointUtf16\<close> are two types with the same arithmetic: a row and a column, compared packed
  into one machine word on 64-bit targets, added like a text followed by another. The locale
  \<open>text_position\<close> states what both promise, and its lemmas hold for both.
\<close>

section \<open>Model\<close>

text \<open>\<open>((row as usize) << 32) | column as usize\<close>.\<close>

definition packed :: "u32 \<Rightarrow> u32 \<Rightarrow> u64" where
  "packed r c = push_bit 32 (ucast r) OR ucast c"

definition checked_sub_u32 :: "u32 \<Rightarrow> u32 \<Rightarrow> u32 option" where
  "checked_sub_u32 a b = (if b \<le> a then Some (a - b) else None)"

subsection \<open>Point\<close>

datatype point = Point (row: u32) (column: u32)

definition point_MAX :: point where
  "point_MAX = Point (- 1) (- 1)"

definition point_zero :: point where
  "point_zero = Point 0 0"

definition row_range :: "u32 \<times> u32 \<Rightarrow> point \<times> point" where
  "row_range r = (Point (fst r) 0, Point (snd r) 0)"

definition point_is_zero :: "point \<Rightarrow> bool" where
  "point_is_zero p \<longleftrightarrow> row p = 0 \<and> column p = 0"

definition point_cmp :: "point \<Rightarrow> point \<Rightarrow> ordering" where
  "point_cmp a b = ord_cmp (packed (row a) (column a)) (packed (row b) (column b))"

definition point_add :: "point \<Rightarrow> point \<Rightarrow> point option" where
  "point_add a b =
     (if row b = 0 then do { c \<leftarrow> checked_add (column a) (column b); Some (Point (row a) c) }
      else do { r \<leftarrow> checked_add (row a) (row b); Some (Point r (column b)) })"

definition point_sub :: "point \<Rightarrow> point \<Rightarrow> point option" where
  "point_sub a b = do {
     rust_assert (point_cmp b a \<noteq> Greater);
     if row a = row b then do { c \<leftarrow> checked_sub_u32 (column a) (column b); Some (Point 0 c) }
     else do { r \<leftarrow> checked_sub_u32 (row a) (row b); Some (Point r (column a)) }
   }"

definition point_saturating_sub :: "point \<Rightarrow> point \<Rightarrow> point option" where
  "point_saturating_sub a b = (if point_cmp a b = Less then Some point_zero else point_sub a b)"

subsection \<open>PointUtf16\<close>

datatype point_utf16 = PointUtf16 (row_utf16: u32) (column_utf16: u32)

definition point_utf16_MAX :: point_utf16 where
  "point_utf16_MAX = PointUtf16 (- 1) (- 1)"

definition point_utf16_zero :: point_utf16 where
  "point_utf16_zero = PointUtf16 0 0"

definition point_utf16_is_zero :: "point_utf16 \<Rightarrow> bool" where
  "point_utf16_is_zero p \<longleftrightarrow> row_utf16 p = 0 \<and> column_utf16 p = 0"

definition point_utf16_cmp :: "point_utf16 \<Rightarrow> point_utf16 \<Rightarrow> ordering" where
  "point_utf16_cmp a b = ord_cmp (packed (row_utf16 a) (column_utf16 a)) (packed (row_utf16 b) (column_utf16 b))"

definition point_utf16_add :: "point_utf16 \<Rightarrow> point_utf16 \<Rightarrow> point_utf16 option" where
  "point_utf16_add a b =
     (if row_utf16 b = 0
      then do { c \<leftarrow> checked_add (column_utf16 a) (column_utf16 b); Some (PointUtf16 (row_utf16 a) c) }
      else do { r \<leftarrow> checked_add (row_utf16 a) (row_utf16 b); Some (PointUtf16 r (column_utf16 b)) })"

definition point_utf16_sub :: "point_utf16 \<Rightarrow> point_utf16 \<Rightarrow> point_utf16 option" where
  "point_utf16_sub a b = do {
     rust_assert (point_utf16_cmp b a \<noteq> Greater);
     if row_utf16 a = row_utf16 b
     then do { c \<leftarrow> checked_sub_u32 (column_utf16 a) (column_utf16 b); Some (PointUtf16 0 c) }
     else do { r \<leftarrow> checked_sub_u32 (row_utf16 a) (row_utf16 b); Some (PointUtf16 r (column_utf16 a)) }
   }"

definition point_utf16_saturating_sub :: "point_utf16 \<Rightarrow> point_utf16 \<Rightarrow> point_utf16 option" where
  "point_utf16_saturating_sub a b =
     (if point_utf16_cmp a b = Less then Some point_utf16_zero else point_utf16_sub a b)"

subsection \<open>OffsetUtf16 and Unclipped\<close>

datatype offset_utf16 = OffsetUtf16 (offset_value: nat)

definition offset_utf16_add :: "offset_utf16 \<Rightarrow> offset_utf16 \<Rightarrow> offset_utf16" where
  "offset_utf16_add a b = OffsetUtf16 (offset_value a + offset_value b)"

definition offset_utf16_sub :: "offset_utf16 \<Rightarrow> offset_utf16 \<Rightarrow> offset_utf16 option" where
  "offset_utf16_sub a b = map_option OffsetUtf16 (checked_sub (offset_value a) (offset_value b))"

datatype 't unclipped = Unclipped (clip_value: 't)

definition unclipped_add :: "('t \<Rightarrow> 't \<Rightarrow> 't option) \<Rightarrow> 't unclipped \<Rightarrow> 't unclipped \<Rightarrow> 't unclipped option" where
  "unclipped_add add a b = map_option Unclipped (add (clip_value a) (clip_value b))"

definition unclipped_sub :: "('t \<Rightarrow> 't \<Rightarrow> 't option) \<Rightarrow> 't unclipped \<Rightarrow> 't unclipped \<Rightarrow> 't unclipped option" where
  "unclipped_sub sub a b = map_option Unclipped (sub (clip_value a) (clip_value b))"

section \<open>Arithmetic\<close>

lemma unat_packed: "unat (packed r c) = unat r * 2 ^ 32 + unat c"
  unfolding packed_def by (rule unat_pack) (use unat_bound [of c] in simp)

lemma packed_less: "packed r c < packed r' c' \<longleftrightarrow> r < r' \<or> r = r' \<and> c < c'"
proof -
  have "unat c < 2 ^ 32" "unat c' < 2 ^ 32" using unat_bound [of c] unat_bound [of c'] by simp_all
  then show ?thesis by (auto simp: word_less_nat_alt unat_packed word_unat_eq_iff)
qed

lemma packed_eq: "packed r c = packed r' c' \<longleftrightarrow> r = r' \<and> c = c'"
  using packed_less [of r c r' c'] packed_less [of r' c' r c] by (cases r r' rule: linorder_cases; cases c c' rule: linorder_cases) auto

lemma checked_add_zero [simp]: "checked_add a 0 = Some a" "checked_add 0 a = Some a"
  using unat_bound [of a] by (simp_all add: checked_add_def)

lemma checked_add_sub: "b \<le> a \<Longrightarrow> checked_add b (a - b) = Some a" for a b :: "'a::len word"
  using unat_bound [of a] by (simp add: checked_add_def unat_sub word_le_nat_alt)

text \<open>What a type of positions promises.\<close>

locale text_position =
  fixes mk :: "u32 \<Rightarrow> u32 \<Rightarrow> 'p" and rw :: "'p \<Rightarrow> u32" and col :: "'p \<Rightarrow> u32"
    and cmp :: "'p \<Rightarrow> 'p \<Rightarrow> ordering" and add :: "'p \<Rightarrow> 'p \<Rightarrow> 'p option" and sub :: "'p \<Rightarrow> 'p \<Rightarrow> 'p option"
  assumes rw_mk [simp]: "rw (mk r c) = r"
    and col_mk [simp]: "col (mk r c) = c"
    and mk_collapse [simp]: "mk (rw p) (col p) = p"
    and cmp_packed: "cmp a b = ord_cmp (packed (rw a) (col a)) (packed (rw b) (col b))"
    and add_eq: "add a b =
      (if rw b = 0 then map_option (mk (rw a)) (checked_add (col a) (col b))
       else map_option (\<lambda>r. mk r (col b)) (checked_add (rw a) (rw b)))"
    and sub_eq: "sub a b =
      (if cmp b a = Greater then None
       else if rw a = rw b then map_option (mk 0) (checked_sub_u32 (col a) (col b))
       else map_option (\<lambda>r. mk r (col a)) (checked_sub_u32 (rw a) (rw b)))"
begin

lemma cmp_lex: "cmp a b = then_with (ord_cmp (rw a) (rw b)) (ord_cmp (col a) (col b))"
  by (auto simp: cmp_packed ord_cmp_def then_with_def packed_less packed_eq)

lemma cmp_eq: "cmp a b = Equal \<longleftrightarrow> a = b"
  by (simp add: cmp_packed packed_eq) (metis mk_collapse)

lemma add_sub:
  assumes "cmp b a \<noteq> Greater"
  shows "\<exists>d. sub a b = Some d \<and> add b d = Some a"
proof (cases "rw a = rw b")
  case True
  then have "col b \<le> col a" using assms by (auto simp: cmp_lex then_with_def ord_cmp_def split: if_splits)
  then have "add b (mk 0 (col a - col b)) = Some a"
    using True by (simp add: add_eq checked_add_sub) (metis mk_collapse)
  with True assms \<open>col b \<le> col a\<close> show ?thesis by (simp add: sub_eq checked_sub_u32_def)
next
  case False
  then have l: "rw b < rw a" using assms by (auto simp: cmp_lex then_with_def ord_cmp_def split: if_splits)
  then have "rw a - rw b \<noteq> 0" by simp
  with l have "add b (mk (rw a - rw b) (col a)) = Some a" by (simp add: add_eq checked_add_sub)
  with False l assms show ?thesis by (simp add: sub_eq checked_sub_u32_def)
qed

lemma sub_None: "cmp b a = Greater \<longleftrightarrow> sub a b = None"
  using add_sub [of b a] by (auto simp: sub_eq)

lemma add_zero: "add a (mk 0 0) = Some a" "add (mk 0 0) a = Some a"
proof -
  show "add a (mk 0 0) = Some a" by (simp add: add_eq)
  show "add (mk 0 0) a = Some a"
  proof (cases "rw a = 0")
    case True
    have "a = mk 0 (col a)" using mk_collapse [of a] unfolding True by (rule sym)
    moreover have "add (mk 0 0) a = Some (mk 0 (col a))" by (simp add: add_eq True)
    ultimately show ?thesis by metis
  qed (simp add: add_eq)
qed

text \<open>Adding positions is associative as far as nothing overflows on either side.\<close>

lemma add_assoc:
  assumes "add a b = Some ab" "add ab c = Some s" "add b c = Some bc"
  shows "add a bc = Some s"
proof -
  have pos: "rw b \<noteq> 0 \<Longrightarrow> checked_add (rw b) (rw c) = Some r \<Longrightarrow> r \<noteq> 0" for r
    by (drule unat_checked_add) (auto simp: word_unat_eq_iff)
  show ?thesis
    using assms pos
    by (auto simp: add_eq split: if_splits) (intro exI conjI, erule (2) checked_add_chain, rule refl)+
qed

end

interpretation point: text_position Point row column point_cmp point_add point_sub
  by unfold_locales (auto simp: point_cmp_def point_add_def point_sub_def rust_assert_def map_option_case
      split: option.splits Option.bind_splits)

interpretation point_utf16: text_position PointUtf16 row_utf16 column_utf16 point_utf16_cmp point_utf16_add point_utf16_sub
  by unfold_locales (auto simp: point_utf16_cmp_def point_utf16_add_def point_utf16_sub_def rust_assert_def map_option_case
      split: option.splits Option.bind_splits)

instantiation point :: linorder
begin

definition less_eq_point :: "point \<Rightarrow> point \<Rightarrow> bool" where
  "a \<le> b \<longleftrightarrow> point_cmp a b \<noteq> Greater"

definition less_point :: "point \<Rightarrow> point \<Rightarrow> bool" where
  "a < b \<longleftrightarrow> point_cmp a b = Less"

instance
  by standard (auto simp: less_eq_point_def less_point_def point_cmp_def packed_eq point.expand)

end

section \<open>Theorem\<close>

text \<open>Comparing packed points (and UTF-16 points) is comparing rows and then columns; subtraction
  panics exactly when its second argument is greater, and otherwise returns the distance: adding it back
  to the second argument gives the first one, without overflow.\<close>

theorem point_arithmetic_correct:
  "point_cmp a b = then_with (ord_cmp (row a) (row b)) (ord_cmp (column a) (column b)) \<and>
   Option.bind (point_sub a b) (point_add b) = (if point_cmp b a = Greater then None else Some a) \<and>
   point_utf16_cmp c d = then_with (ord_cmp (row_utf16 c) (row_utf16 d)) (ord_cmp (column_utf16 c) (column_utf16 d)) \<and>
   Option.bind (point_utf16_sub c d) (point_utf16_add d) = (if point_utf16_cmp d c = Greater then None else Some c)"
proof -
  have "Option.bind (point_sub a b) (point_add b) = (if point_cmp b a = Greater then None else Some a)"
    using point.add_sub [of b a] point.sub_None [of b a] by auto
  moreover have "Option.bind (point_utf16_sub c d) (point_utf16_add d) = (if point_utf16_cmp d c = Greater then None else Some c)"
    using point_utf16.add_sub [of d c] point_utf16.sub_None [of d c] by auto
  ultimately show ?thesis using point.cmp_lex point_utf16.cmp_lex by simp
qed

end
