(* ===== verification/TextSummary.thy ===== *)
theory TextSummary
  imports Point
begin

text \<open>
  Text summaries (\<open>TextSummary\<close> of \<open>crates/rope/src/rope.rs\<close>, \<open>Point::parse_str\<close>): what a rope caches
  about every part of its text.

  A string is the list of its Unicode code points. \<open>summary_of\<close> is the reference: a summary read off the
  lines of the text. The loop of \<open>From<&str>\<close> computes it, and \<open>AddAssign\<close> computes the summary of a
  concatenation from those of the parts, as long as the text is shorter than \<open>2 ^ 32\<close> bytes.
\<close>

section \<open>Model\<close>

type_synonym rchar = nat

definition NEWLINE :: rchar where
  "NEWLINE = 10"

text \<open>\<open>char::len_utf8\<close> and \<open>char::len_utf16\<close>.\<close>

definition len_utf8 :: "rchar \<Rightarrow> nat" where
  "len_utf8 c = (if c < 0x80 then 1 else if c < 0x800 then 2 else if c < 0x10000 then 3 else 4)"

definition char_len_utf16 :: "rchar \<Rightarrow> nat" where
  "char_len_utf16 c = (if c < 0x10000 then 1 else 2)"

definition str_len :: "rchar list \<Rightarrow> nat" where
  "str_len s = sum_list (map len_utf8 s)"

record text_summary =
  ts_len :: nat
  ts_chars :: nat
  ts_len_utf16 :: offset_utf16
  ts_lines :: point
  first_line_chars :: u32
  last_line_chars :: u32
  last_line_len_utf16 :: u32
  longest_row :: u32
  longest_row_chars :: u32

definition summary_zero :: text_summary where
  "summary_zero = \<lparr>ts_len = 0, ts_chars = 0, ts_len_utf16 = OffsetUtf16 0, ts_lines = Point 0 0, first_line_chars = 0,
     last_line_chars = 0, last_line_len_utf16 = 0, longest_row = 0, longest_row_chars = 0\<rparr>"

definition lines_utf16 :: "text_summary \<Rightarrow> point_utf16" where
  "lines_utf16 s = PointUtf16 (row (ts_lines s)) (last_line_len_utf16 s)"

definition summary_newline :: text_summary where
  "summary_newline = \<lparr>ts_len = 1, ts_chars = 1, ts_len_utf16 = OffsetUtf16 1, ts_lines = Point 1 0, first_line_chars = 0,
     last_line_chars = 0, last_line_len_utf16 = 0, longest_row = 0, longest_row_chars = 0\<rparr>"

definition add_newline :: "text_summary \<Rightarrow> text_summary option" where
  "add_newline s = do {
     lines \<leftarrow> point_add (ts_lines s) (Point 1 0);
     Some (s\<lparr>ts_len := ts_len s + 1,
       ts_len_utf16 := offset_utf16_add (ts_len_utf16 s) (OffsetUtf16 (offset_value (ts_len_utf16 s) + 1)),
       last_line_chars := 0, last_line_len_utf16 := 0, ts_lines := lines\<rparr>)
   }"

text \<open>One round of the loop of \<open>From<&str>\<close>: the count, the position, the first line, the longest row.\<close>

definition step_position :: "text_summary \<Rightarrow> rchar \<Rightarrow> text_summary option" where
  "step_position s c =
     (if c = NEWLINE then do {
        lines \<leftarrow> point_add (ts_lines s) (Point 1 0);
        Some (s\<lparr>ts_lines := lines, last_line_len_utf16 := 0, last_line_chars := 0\<rparr>)
      } else do {
        col \<leftarrow> checked_add (column (ts_lines s)) (of_nat (len_utf8 c));
        l16 \<leftarrow> checked_add (last_line_len_utf16 s) (of_nat (char_len_utf16 c));
        lc \<leftarrow> checked_add (last_line_chars s) 1;
        Some (s\<lparr>ts_lines := Point (row (ts_lines s)) col, last_line_len_utf16 := l16, last_line_chars := lc\<rparr>)
      })"

definition step_rows :: "text_summary \<Rightarrow> text_summary" where
  "step_rows s =
     (let s1 = (if row (ts_lines s) = 0 then s\<lparr>first_line_chars := last_line_chars s\<rparr> else s)
      in if last_line_chars s1 > longest_row_chars s1
         then s1\<lparr>longest_row := row (ts_lines s1), longest_row_chars := last_line_chars s1\<rparr> else s1)"

definition summary_step :: "text_summary \<Rightarrow> rchar \<Rightarrow> text_summary option" where
  "summary_step s c = map_option step_rows
     (step_position (s\<lparr>ts_chars := ts_chars s + 1,
        ts_len_utf16 := OffsetUtf16 (offset_value (ts_len_utf16 s) + char_len_utf16 c)\<rparr>) c)"

fun summary_loop :: "text_summary \<Rightarrow> rchar list \<Rightarrow> text_summary option" where
  "summary_loop s [] = Some s"
| "summary_loop s (c # cs) = do { s' \<leftarrow> summary_step s c; summary_loop s' cs }"

definition text_summary_from :: "rchar list \<Rightarrow> text_summary option" where
  "text_summary_from t = do { s \<leftarrow> summary_loop summary_zero t; Some (s\<lparr>ts_len := str_len t\<rparr>) }"

text \<open>\<open>AddAssign\<close>: the longest row, then the line lengths, then the totals.\<close>

definition add_longest :: "text_summary \<Rightarrow> text_summary \<Rightarrow> text_summary option" where
  "add_longest self other = do {
     joined \<leftarrow> checked_add (last_line_chars self) (first_line_chars other);
     let s1 = (if joined > longest_row_chars self
               then self\<lparr>longest_row := row (ts_lines self), longest_row_chars := joined\<rparr> else self);
     if longest_row_chars other > longest_row_chars s1
     then do {
       r \<leftarrow> checked_add (row (ts_lines s1)) (longest_row other);
       Some (s1\<lparr>longest_row := r, longest_row_chars := longest_row_chars other\<rparr>)
     }
     else Some s1
   }"

definition add_line_chars :: "text_summary \<Rightarrow> text_summary \<Rightarrow> text_summary option" where
  "add_line_chars self other = do {
     first \<leftarrow> (if row (ts_lines self) = 0 then checked_add (first_line_chars self) (first_line_chars other)
              else Some (first_line_chars self));
     if row (ts_lines other) = 0 then do {
       lc \<leftarrow> checked_add (last_line_chars self) (first_line_chars other);
       l16 \<leftarrow> checked_add (last_line_len_utf16 self) (last_line_len_utf16 other);
       Some (self\<lparr>first_line_chars := first, last_line_chars := lc, last_line_len_utf16 := l16\<rparr>)
     }
     else Some (self\<lparr>first_line_chars := first, last_line_chars := last_line_chars other,
       last_line_len_utf16 := last_line_len_utf16 other\<rparr>)
   }"

definition summary_add :: "text_summary \<Rightarrow> text_summary \<Rightarrow> text_summary option" where
  "summary_add self other = do {
     s1 \<leftarrow> add_longest self other;
     s2 \<leftarrow> add_line_chars s1 other;
     lines \<leftarrow> point_add (ts_lines s2) (ts_lines other);
     Some (s2\<lparr>ts_chars := ts_chars s2 + ts_chars other, ts_len := ts_len s2 + ts_len other,
       ts_len_utf16 := offset_utf16_add (ts_len_utf16 s2) (ts_len_utf16 other), ts_lines := lines\<rparr>)
   }"

text \<open>\<open>str::split('\n')\<close>, and \<open>Point::parse_str\<close> that walks over its pieces; \<open>as u32\<close> wraps.\<close>

fun split_lines :: "rchar list \<Rightarrow> rchar list list" where
  "split_lines [] = [[]]"
| "split_lines (c # cs) = (if c = NEWLINE then [] # split_lines cs
     else (c # hd (split_lines cs)) # tl (split_lines cs))"

fun parse_loop :: "nat \<Rightarrow> point \<Rightarrow> rchar list list \<Rightarrow> point" where
  "parse_loop r p [] = p"
| "parse_loop r p (l # ls) = parse_loop (Suc r) (Point (of_nat r) (of_nat (str_len l))) ls"

definition parse_str :: "rchar list \<Rightarrow> point" where
  "parse_str s = parse_loop 0 point_zero (split_lines s)"

section \<open>Reference summary\<close>

text \<open>The first of the longest lines: its index and its length.\<close>

fun longest :: "nat list \<Rightarrow> nat \<times> nat" where
  "longest [] = (0, 0)"
| "longest (n # ns) = (case longest ns of (i, m) \<Rightarrow> if n < m then (Suc i, m) else (0, n))"

definition utf16_len :: "rchar list \<Rightarrow> nat" where
  "utf16_len s = sum_list (map char_len_utf16 s)"

definition rows :: "rchar list \<Rightarrow> nat" where
  "rows s = length (split_lines s) - 1"

definition first_line :: "rchar list \<Rightarrow> rchar list" where
  "first_line s = hd (split_lines s)"

definition last_line :: "rchar list \<Rightarrow> rchar list" where
  "last_line s = last (split_lines s)"

definition longest_line :: "rchar list \<Rightarrow> nat \<times> nat" where
  "longest_line s = longest (map length (split_lines s))"

definition summary_of :: "rchar list \<Rightarrow> text_summary" where
  "summary_of s =
     \<lparr>ts_len = str_len s, ts_chars = length s, ts_len_utf16 = OffsetUtf16 (utf16_len s),
      ts_lines = Point (of_nat (rows s)) (of_nat (str_len (last_line s))),
      first_line_chars = of_nat (length (first_line s)), last_line_chars = of_nat (length (last_line s)),
      last_line_len_utf16 = of_nat (utf16_len (last_line s)),
      longest_row = of_nat (fst (longest_line s)), longest_row_chars = of_nat (snd (longest_line s))\<rparr>"

lemma split_lines_ne [simp]: "split_lines s \<noteq> []"
  by (induction s) auto

lemma str_len_simps [simp]: "str_len [] = 0" "str_len (c # s) = len_utf8 c + str_len s" "str_len (s @ t) = str_len s + str_len t"
  by (simp_all add: str_len_def)

lemma utf16_len_simps [simp]:
  "utf16_len [] = 0" "utf16_len (c # s) = char_len_utf16 c + utf16_len s" "utf16_len (s @ t) = utf16_len s + utf16_len t"
  by (simp_all add: utf16_len_def)

lemma split_lines_append:
  "split_lines (s @ t) = butlast (split_lines s) @ [last (split_lines s) @ hd (split_lines t)] @ tl (split_lines t)"
proof (induction s)
  case Nil
  then show ?case by (cases "split_lines t") (auto simp: split_lines_ne [of t, simplified])
next
  case (Cons c s)
  then show ?case by (cases "split_lines s") (auto simp: split_lines_ne [of s, simplified])
qed

lemma longest_append:
  "longest (xs @ ys) = (if snd (longest xs) < snd (longest ys) then (length xs + fst (longest ys), snd (longest ys))
     else longest xs)"
proof (induction xs)
  case Nil
  have "longest ys = (i, 0) \<Longrightarrow> i = 0" for i by (cases ys) (auto split: prod.splits if_splits)
  then show ?case by (cases "longest ys") auto
next
  case (Cons x xs)
  then show ?case by (cases "longest xs"; cases "longest ys") auto
qed

text \<open>Every number in a summary is at most the length of the text in bytes.\<close>

lemma len_utf8_pos: "1 \<le> len_utf8 c" "char_len_utf16 c \<le> len_utf8 c"
  by (simp_all add: len_utf8_def char_len_utf16_def)

lemma length_le_str_len: "length s \<le> str_len s"
proof (induction s)
  case (Cons c s)
  then show ?case using len_utf8_pos(1) [of c] by simp
qed simp

lemma str_len_eq_0 [simp]: "str_len s = 0 \<longleftrightarrow> s = []"
  using length_le_str_len [of s] by auto

lemma utf16_le_str_len: "utf16_len s \<le> str_len s"
  by (induction s) (simp_all add: add_mono len_utf8_pos)

lemma line_le: "l \<in> set (split_lines s) \<Longrightarrow> str_len l \<le> str_len s"
proof (induction s arbitrary: l)
  case (Cons c s)
  then show ?case
    by (cases "split_lines s") (auto split: if_splits intro: le_trans [OF _ le_add2] simp: split_lines_ne [of s, simplified])
qed simp

lemma rows_le: "length (split_lines s) \<le> Suc (length s)"
  by (induction s) auto

lemma longest_le: "fst (longest ns) < length ns \<or> ns = []" "snd (longest ns) = 0 \<or> snd (longest ns) \<in> set ns"
  by (induction ns) (auto split: prod.splits)

lemma line_bounds:
  "str_len (first_line s) \<le> str_len s" "str_len (last_line s) \<le> str_len s" "rows s \<le> str_len s"
  using rows_le [of s] length_le_str_len [of s]
  by (simp_all add: line_le first_line_def last_line_def rows_def)

lemma char_bounds:
  "length (first_line s) \<le> str_len s" "length (last_line s) \<le> str_len s" "utf16_len (last_line s) \<le> str_len s"
  using order_trans [OF length_le_str_len line_bounds(1)] order_trans [OF length_le_str_len line_bounds(2)]
    order_trans [OF utf16_le_str_len line_bounds(2)] by blast+

lemma longest_bounds: "fst (longest_line s) \<le> rows s" "snd (longest_line s) \<le> str_len s"
proof -
  show "fst (longest_line s) \<le> rows s"
    using longest_le(1) [of "map length (split_lines s)"] by (auto simp: longest_line_def rows_def)
  have "length l \<le> str_len s" if "l \<in> set (split_lines s)" for l
    using order_trans [OF length_le_str_len line_le [OF that]] .
  then show "snd (longest_line s) \<le> str_len s"
    using longest_le(2) [of "map length (split_lines s)"] by (auto simp: longest_line_def)
qed

section \<open>Concatenation\<close>

text \<open>The longest row of a concatenation, computed as \<open>AddAssign\<close> does.\<close>

definition join_longest :: "nat \<Rightarrow> nat \<times> nat \<Rightarrow> nat \<Rightarrow> nat \<times> nat \<Rightarrow> nat \<times> nat" where
  "join_longest joined lg r lg' =
     (let lg1 = (if snd lg < joined then (r, joined) else lg)
      in if snd lg1 < snd lg' then (r + fst lg', snd lg') else lg1)"

lemma longest_joined:
  "longest (map length (ls @ [x @ y] @ ls')) =
     join_longest (length x + length y) (longest (map length (ls @ [x]))) (length ls) (longest (map length (y # ls')))"
proof -
  obtain i m where a: "longest (map length ls) = (i, m)" by (cases "longest (map length ls)")
  obtain j k where c: "longest (map length ls') = (j, k)" by (cases "longest (map length ls')")
  show ?thesis
    using a c by (auto simp: join_longest_def longest_append Let_def)
qed

lemma split_Suc:
  obtains ls x where "split_lines s = ls @ [x]"
  by (metis append_butlast_last_id split_lines_ne)

lemma split_hd:
  obtains y ls where "split_lines s = y # ls"
  by (metis list.collapse split_lines_ne)

text \<open>The fields of the summary of a concatenation.\<close>

lemma lines_append:
  "rows (s @ t) = rows s + rows t"
  "first_line (s @ t) = (if rows s = 0 then last_line s @ first_line t else first_line s)"
  "last_line (s @ t) = (if rows t = 0 then last_line s @ last_line t else last_line t)"
  "longest_line (s @ t) =
     join_longest (length (last_line s) + length (first_line t)) (longest_line s) (rows s) (longest_line t)"
proof -
  obtain ls x where s: "split_lines s = ls @ [x]" by (rule split_Suc)
  obtain y ls' where t: "split_lines t = y # ls'" by (rule split_hd)
  have st: "split_lines (s @ t) = ls @ [x @ y] @ ls'" using s t by (simp add: split_lines_append)
  show "rows (s @ t) = rows s + rows t" "last_line (s @ t) = (if rows t = 0 then last_line s @ last_line t else last_line t)"
    using s t by (simp_all add: st rows_def last_line_def)
  show "first_line (s @ t) = (if rows s = 0 then last_line s @ first_line t else first_line s)"
    using s t by (cases ls) (simp_all add: st rows_def first_line_def last_line_def)
  show "longest_line (s @ t) =
     join_longest (length (last_line s) + length (first_line t)) (longest_line s) (rows s) (longest_line t)"
    using longest_joined [of ls x y ls'] s t by (simp add: st rows_def first_line_def last_line_def longest_line_def)
qed

lemma single_line: "rows s = 0 \<Longrightarrow> first_line s = last_line s"
  by (cases "split_lines s") (auto simp: rows_def first_line_def last_line_def)

lemma add_longest_correct:
  assumes "str_len s + str_len t < 2 ^ 32"
  shows "add_longest (summary_of s) (summary_of t) =
    Some ((summary_of s)\<lparr>longest_row := of_nat (fst (longest_line (s @ t))), longest_row_chars := of_nat (snd (longest_line (s @ t)))\<rparr>)"
proof -
  obtain i m where a: "longest_line s = (i, m)" by (cases "longest_line s")
  obtain j k where c: "longest_line t = (j, k)" by (cases "longest_line t")
  have b: "length (last_line s) + length (first_line t) < 2 ^ 32" "m < 2 ^ 32" "k < 2 ^ 32" "rows s + j < 2 ^ 32"
    using assms char_bounds(2) [of s] char_bounds(1) [of t] line_bounds(3) [of s] line_bounds(3) [of t]
      longest_bounds [of s] longest_bounds [of t] a c by auto
  then show ?thesis
    using lines_append(4) [of s t] a c
    by (auto simp: add_longest_def summary_of_def Let_def join_longest_def checked_add_of_nat of_nat_word_less simp del: of_nat_add)
qed

lemma add_line_chars_correct:
  assumes "str_len s + str_len t < 2 ^ 32"
  shows "add_line_chars ((summary_of s)\<lparr>longest_row := lr, longest_row_chars := lc\<rparr>) (summary_of t) =
    Some ((summary_of s)\<lparr>longest_row := lr, longest_row_chars := lc,
      first_line_chars := first_line_chars (summary_of (s @ t)), last_line_chars := last_line_chars (summary_of (s @ t)),
      last_line_len_utf16 := last_line_len_utf16 (summary_of (s @ t))\<rparr>)"
proof -
  note lb = line_bounds [of s] line_bounds [of t] and cb = char_bounds [of s] char_bounds [of t]
  have "checked_add (of_nat (length (first_line s))) (of_nat (length (first_line t)) :: u32) =
      Some (of_nat (length (first_line s) + length (first_line t)))"
    "checked_add (of_nat (length (last_line s))) (of_nat (length (first_line t)) :: u32) =
      Some (of_nat (length (last_line s) + length (first_line t)))"
    "checked_add (of_nat (length (last_line s))) (of_nat (length (last_line t)) :: u32) =
      Some (of_nat (length (last_line s) + length (last_line t)))"
    "checked_add (of_nat (utf16_len (last_line s))) (of_nat (utf16_len (last_line t)) :: u32) =
      Some (of_nat (utf16_len (last_line s) + utf16_len (last_line t)))"
    using assms cb by (simp_all add: checked_add_of_nat del: of_nat_add)
  moreover have "(of_nat (rows s) = (0 :: u32)) = (rows s = 0)" "(of_nat (rows t) = (0 :: u32)) = (rows t = 0)"
    using assms lb by (simp_all add: of_nat_word_eq_0)
  ultimately show ?thesis
    using lines_append(2,3) [of s t] single_line [of s] single_line [of t]
    by (simp add: add_line_chars_def summary_of_def del: of_nat_add)
qed

lemma summary_add_correct:
  assumes "str_len s + str_len t < 2 ^ 32"
  shows "summary_add (summary_of s) (summary_of t) = Some (summary_of (s @ t))"
proof -
  have "(of_nat (rows t) = (0 :: u32)) = (rows t = 0)"
    using assms line_bounds(3) [of t] by (simp add: of_nat_word_eq_0)
  moreover have "checked_add (of_nat (rows s)) (of_nat (rows t) :: u32) = Some (of_nat (rows s + rows t))"
    "checked_add (of_nat (str_len (last_line s))) (of_nat (str_len (last_line t)) :: u32) =
      Some (of_nat (str_len (last_line s) + str_len (last_line t)))"
    using assms line_bounds [of s] line_bounds [of t] by (simp_all add: checked_add_of_nat del: of_nat_add)
  ultimately have "point_add (ts_lines (summary_of s)) (ts_lines (summary_of t)) = Some (ts_lines (summary_of (s @ t)))"
    using lines_append(1,3) [of s t] by (simp add: point_add_def summary_of_def del: of_nat_add)
  then show ?thesis
    using add_longest_correct [OF assms] add_line_chars_correct [OF assms]
    by (simp add: summary_add_def offset_utf16_add_def) (simp add: summary_of_def)
qed

section \<open>The loop over a string\<close>

lemma single_char:
  "rows [c] = (if c = NEWLINE then 1 else 0)" "last_line [c] = (if c = NEWLINE then [] else [c])"
  "first_line [c] = (if c = NEWLINE then [] else [c])"
  "longest_line [c] = (0, if c = NEWLINE then 0 else 1)"
  by (simp_all add: rows_def last_line_def first_line_def longest_line_def)

lemma last_line_longest: "length (last_line s) \<le> snd (longest_line s)"
proof -
  obtain ls x where "split_lines s = ls @ [x]" by (rule split_Suc)
  then show ?thesis by (simp add: last_line_def longest_line_def longest_append)
qed

lemma summary_step_correct:
  assumes "str_len s + len_utf8 c < 2 ^ 32"
  shows "summary_step ((summary_of s)\<lparr>ts_len := 0\<rparr>) c = Some ((summary_of (s @ [c]))\<lparr>ts_len := 0\<rparr>)"
proof (cases "c = NEWLINE")
  case True
  obtain i m where lg: "longest_line s = (i, m)" by (cases "longest_line s")
  have r: "checked_add (of_nat (rows s)) (1 :: u32) = Some (of_nat (Suc (rows s)))"
    using assms line_bounds(3) [of s] len_utf8_pos(1) [of c] by (intro checked_add_one) simp
  have z: "(of_nat (Suc (rows s)) = (0 :: u32)) = False"
    using assms line_bounds(3) [of s] len_utf8_pos(1) [of c] of_nat_word_eq_0 [of "Suc (rows s)", where 'a = 32] by simp
  have "char_len_utf16 NEWLINE = 1" by (simp add: char_len_utf16_def NEWLINE_def)
  moreover have "length (last_line s) \<le> m" using last_line_longest [of s] lg by simp
  ultimately show ?thesis
    using True r z lg lines_append [of s "[c]"] single_char [of c] single_line [of s]
    by (simp add: summary_step_def step_position_def step_rows_def summary_of_def point_add_def join_longest_def Let_def
        del: of_nat_Suc)
next
  case False
  obtain i m where lg: "longest_line s = (i, m)" by (cases "longest_line s")
  note b = line_bounds [of s] char_bounds [of s] longest_bounds [of s] len_utf8_pos [of c]
  have a: "checked_add (of_nat (str_len (last_line s))) (of_nat (len_utf8 c) :: u32) = Some (of_nat (str_len (last_line s) + len_utf8 c))"
    "checked_add (of_nat (utf16_len (last_line s))) (of_nat (char_len_utf16 c) :: u32) =
       Some (of_nat (utf16_len (last_line s) + char_len_utf16 c))"
    "checked_add (of_nat (length (last_line s))) (1 :: u32) = Some (of_nat (Suc (length (last_line s))))"
    using assms b by (simp_all add: checked_add_of_nat checked_add_one del: of_nat_add of_nat_Suc)
  have z: "(of_nat (rows s) = (0 :: u32)) = (rows s = 0)" using assms b by (simp add: of_nat_word_eq_0)
  have g: "(of_nat m < (of_nat (Suc (length (last_line s))) :: u32)) = (m < Suc (length (last_line s)))"
    using assms b lg by (simp add: of_nat_word_less del: of_nat_Suc)
  show ?thesis
    using False a z g lg lines_append [of s "[c]"] single_char [of c] single_line [of s]
    by (simp add: summary_step_def step_position_def step_rows_def summary_of_def join_longest_def Let_def
        del: of_nat_Suc of_nat_add)
qed

lemma summary_loop_correct:
  "str_len s + str_len t < 2 ^ 32 \<Longrightarrow>
   summary_loop ((summary_of s)\<lparr>ts_len := 0\<rparr>) t = Some ((summary_of (s @ t))\<lparr>ts_len := 0\<rparr>)"
proof (induction t arbitrary: s)
  case (Cons c t)
  then show ?case using summary_step_correct [of s c] Cons.IH [of "s @ [c]"] by simp
qed simp

lemma summary_of_Nil: "summary_of [] = summary_zero"
  by (simp add: summary_of_def summary_zero_def rows_def first_line_def last_line_def longest_line_def)

lemma text_summary_from_correct:
  assumes "str_len t < 2 ^ 32"
  shows "text_summary_from t = Some (summary_of t)"
proof -
  have "summary_loop summary_zero t = Some ((summary_of t)\<lparr>ts_len := 0\<rparr>)"
    using summary_loop_correct [of "[]" t] assms by (simp add: summary_of_Nil) (simp add: summary_zero_def)
  then show ?thesis by (simp add: text_summary_from_def summary_of_def)
qed

lemma parse_loop_last: "ls \<noteq> [] \<Longrightarrow> parse_loop r p ls = Point (of_nat (r + (length ls - 1))) (of_nat (str_len (last ls)))"
  by (induction ls arbitrary: r p) (auto simp: neq_Nil_conv)

lemma parse_str_lines: "parse_str s = ts_lines (summary_of s)"
  by (simp add: parse_str_def parse_loop_last summary_of_def rows_def last_line_def)

section \<open>Theorems\<close>

text \<open>C16. Below \<open>2 ^ 32\<close> bytes, \<open>TextSummary::from\<close> does not overflow and computes what the text's lines say:
  lengths in bytes, characters and UTF-16 units, the number of lines and the length of the last, the
  first of the longest rows; \<open>Point::parse_str\<close> agrees with it on the position of the end.\<close>

theorem text_summary_from_str:
  assumes "str_len t < 2 ^ 32"
  shows "text_summary_from t = Some (summary_of t) \<and> map_option ts_lines (text_summary_from t) = Some (parse_str t)"
  using text_summary_from_correct [OF assms] by (simp add: parse_str_lines)

theorem text_summary_from_str_witness:
  "text_summary_from [97, 10, 128512, 98] = Some (summary_of [97, 10, 128512, 98]) \<and>
   map_option ts_lines (text_summary_from [97, 10, 128512, 98]) = Some (parse_str [97, 10, 128512, 98])"
proof -
  have "str_len [97, 10, 128512, 98] < 2 ^ 32" by (simp add: str_len_def len_utf8_def)
  then show ?thesis by (rule text_summary_from_str)
qed

text \<open>C17. Summaries add up: as long as the whole stays below \<open>2 ^ 32\<close> bytes, adding the summaries of two texts
  does not overflow and gives the summary of their concatenation, the longest row included; and the
  zero summary is that of the empty text.\<close>

theorem text_summary_homomorphism:
  assumes "str_len s + str_len t < 2 ^ 32"
  shows "(do { a \<leftarrow> text_summary_from s; b \<leftarrow> text_summary_from t; summary_add a b }) = text_summary_from (s @ t) \<and>
    text_summary_from [] = Some summary_zero"
  using text_summary_from_correct [of s] text_summary_from_correct [of t] text_summary_from_correct [of "s @ t"]
    text_summary_from_correct [of "[]"] summary_add_correct [OF assms] assms
  by (simp add: summary_of_Nil)

theorem text_summary_homomorphism_witness:
  "(do { a \<leftarrow> text_summary_from [97, 10]; b \<leftarrow> text_summary_from [98, 99, 10]; summary_add a b }) =
     text_summary_from ([97, 10] @ [98, 99, 10])"
proof -
  have "str_len [97, 10] + str_len [98, 99, 10] < 2 ^ 32" by (simp add: str_len_def len_utf8_def)
  from text_summary_homomorphism [OF this] show ?thesis by blast
qed

text \<open>\<open>TextSummary::newline\<close> is the summary of a line feed, but \<open>add_newline\<close> is not adding it: it adds the
  UTF-16 length to itself and does not count the character, so on any text that is not empty it returns
  another summary than that of the text followed by a line feed.\<close>

theorem add_newline_wrong:
  assumes "s \<noteq> []" "str_len s + 1 < 2 ^ 32"
  shows "text_summary_from [NEWLINE] = Some summary_newline \<and>
    text_summary_from (s @ [NEWLINE]) = summary_add (summary_of s) summary_newline \<and>
    (\<exists>r. add_newline (summary_of s) = Some r \<and> ts_chars r = length s \<and>
      offset_value (ts_len_utf16 r) = 2 * utf16_len s + 1 \<and> text_summary_from (s @ [NEWLINE]) \<noteq> Some r)"
proof -
  have nl: "str_len [NEWLINE] = 1" "utf16_len [NEWLINE] = 1" by (simp_all add: len_utf8_def char_len_utf16_def NEWLINE_def)
  have new: "summary_newline = summary_of [NEWLINE]"
    using nl by (simp add: summary_newline_def summary_of_def single_char)
  have "checked_add (of_nat (rows s)) (1 :: u32) = Some (of_nat (Suc (rows s)))"
    using assms line_bounds(3) [of s] by (intro checked_add_one) simp
  then have "\<exists>r. add_newline (summary_of s) = Some r \<and> ts_chars r = length s \<and>
      offset_value (ts_len_utf16 r) = 2 * utf16_len s + 1"
    by (simp add: add_newline_def point_add_def summary_of_def offset_utf16_add_def)
  moreover have "ts_chars (summary_of (s @ [NEWLINE])) = Suc (length s)" by (simp add: summary_of_def)
  ultimately show ?thesis
    using text_summary_from_correct [of "[NEWLINE]"] text_summary_from_correct [of "s @ [NEWLINE]"]
      summary_add_correct [of s "[NEWLINE]"] assms(2) nl new by auto
qed

theorem add_newline_wrong_witness:
  "\<exists>r. add_newline (summary_of [97]) = Some r \<and> offset_value (ts_len_utf16 r) = 3 \<and> text_summary_from ([97] @ [NEWLINE]) \<noteq> Some r"
proof -
  have "str_len [97] + 1 < 2 ^ 32" "utf16_len [97] = 1" by (simp_all add: len_utf8_def char_len_utf16_def)
  with add_newline_wrong [of "[97]"] show ?thesis by auto
qed

end
