(* ===== verification/Chunk.thy ===== *)
theory Chunk
  imports TextSummary
begin

unbundle bit_operations_syntax

text \<open>
  Chunks of a rope (\<open>crates/rope/src/chunk.rs\<close>): up to 128 bytes of UTF-8 with four bitmaps, one bit
  per byte, from which lengths, positions and summaries are computed by masking and counting bits.

  The text is the list of its bytes; a bitmap is a 128-bit word. \<open>bits\<close> is the word whose bits are a
  given list, so a well-formed chunk is one whose bitmaps are \<open>bits\<close> of what they stand for, and
  masking, shifting and counting become \<open>take\<close>, \<open>drop\<close> and \<open>filter\<close> on the list.
\<close>

section \<open>Model\<close>

subsection \<open>Words\<close>

definition MAX_BASE :: nat where
  "MAX_BASE = 128"

definition count_ones :: "'a::len word \<Rightarrow> nat" where
  "count_ones w = length (filter (bit w) [0..<LENGTH('a)])"

definition trailing_zeros :: "'a::len word \<Rightarrow> nat" where
  "trailing_zeros w = length (takeWhile (\<lambda>i. \<not> bit w i) [0..<LENGTH('a)])"

definition leading_zeros :: "'a::len word \<Rightarrow> nat" where
  "leading_zeros w = length (takeWhile (\<lambda>i. \<not> bit w i) (rev [0..<LENGTH('a)]))"

text \<open>\<open><<\<close> and \<open>>>\<close> panic when the shift is not smaller than the width; \<open>unbounded_shl\<close> does not.\<close>

definition checked_shl :: "'a::len word \<Rightarrow> nat \<Rightarrow> 'a word option" where
  "checked_shl w n = (if n < LENGTH('a) then Some (push_bit n w) else None)"

definition checked_shr :: "'a::len word \<Rightarrow> nat \<Rightarrow> 'a word option" where
  "checked_shr w n = (if n < LENGTH('a) then Some (drop_bit n w) else None)"

definition saturating_shl_mask :: "nat \<Rightarrow> u128" where
  "saturating_shl_mask offset = push_bit offset 1 - 1"

definition saturating_shr_mask :: "nat \<Rightarrow> u128" where
  "saturating_shr_mask offset = NOT (drop_bit offset (- 1))"

text \<open>\<open>util::is_utf8_char_boundary\<close>: \<open>(b as i8) >= -0x40\<close>.\<close>

definition is_utf8_char_boundary :: "u8 \<Rightarrow> bool" where
  "is_utf8_char_boundary b \<longleftrightarrow> sint b \<ge> - 0x40"

text \<open>\<open>from_le_bytes\<close>.\<close>

fun from_le_bytes :: "u8 list \<Rightarrow> u128" where
  "from_le_bytes [] = 0"
| "from_le_bytes (b # bs) = ucast b OR push_bit 8 (from_le_bytes bs)"

subsection \<open>Chunks\<close>

record chunk =
  c_chars :: u128
  c_chars_utf16 :: u128
  c_newlines :: u128
  c_tabs :: u128
  c_text :: "u8 list"

text \<open>\<open>Chunk::new\<close>: the bits of up to eight bytes, the bytes of all groups, and the four bitmaps.\<close>

fun group_mask :: "(u8 \<Rightarrow> bool) \<Rightarrow> nat \<Rightarrow> u8 \<Rightarrow> u8 list \<Rightarrow> u8" where
  "group_mask P ix m [] = m"
| "group_mask P ix m (b # bs) = group_mask P (Suc ix) (m OR push_bit ix (of_bool (P b))) bs"

function group_masks :: "(u8 \<Rightarrow> bool) \<Rightarrow> u8 list \<Rightarrow> u8 list" where
  "group_masks P bytes =
     (if bytes = [] then [] else group_mask P 0 0 (take 8 bytes) # group_masks P (drop 8 bytes))"
  by pat_completeness auto
termination
  by (relation "measure (\<lambda>(P, bytes). length bytes)") auto

declare group_masks.simps [simp del]

definition byte_mask :: "(u8 \<Rightarrow> bool) \<Rightarrow> u8 list \<Rightarrow> u128" where
  "byte_mask P text =
     (let ms = group_masks P text in from_le_bytes (ms @ replicate (MAX_BASE div 8 - length ms) 0))"

definition chunk_new :: "u8 list \<Rightarrow> chunk option" where
  "chunk_new text = do {
     rust_assert (length text \<le> MAX_BASE);
     let chars = byte_mask is_utf8_char_boundary text;
     Some \<lparr>c_chars = chars, c_chars_utf16 = push_bit 1 (byte_mask (\<lambda>b. b \<ge> 240) text) OR chars,
       c_newlines = byte_mask (\<lambda>b. b = 10) text, c_tabs = byte_mask (\<lambda>b. b = 9) text, c_text = text\<rparr>
   }"

definition chunk_append :: "chunk \<Rightarrow> chunk \<Rightarrow> chunk option" where
  "chunk_append self other =
     (if c_text other = [] then Some self
      else do {
        let base_ix = length (c_text self);
        a \<leftarrow> checked_shl (c_chars other) base_ix;
        b \<leftarrow> checked_shl (c_chars_utf16 other) base_ix;
        c \<leftarrow> checked_shl (c_newlines other) base_ix;
        d \<leftarrow> checked_shl (c_tabs other) base_ix;
        rust_assert (length (c_text self) + length (c_text other) \<le> MAX_BASE);
        Some \<lparr>c_chars = c_chars self OR a, c_chars_utf16 = c_chars_utf16 self OR b, c_newlines = c_newlines self OR c,
          c_tabs = c_tabs self OR d, c_text = c_text self @ c_text other\<rparr>
      })"

definition chunk_prepend :: "chunk \<Rightarrow> chunk \<Rightarrow> chunk option" where
  "chunk_prepend self other =
     (if c_text other = [] then Some self
      else if c_text self = [] then chunk_new (c_text other)
      else do {
        let shift = length (c_text other);
        a \<leftarrow> checked_shl (c_chars self) shift;
        b \<leftarrow> checked_shl (c_chars_utf16 self) shift;
        c \<leftarrow> checked_shl (c_newlines self) shift;
        d \<leftarrow> checked_shl (c_tabs self) shift;
        rust_assert (length (c_text other) + length (c_text self) \<le> MAX_BASE);
        Some \<lparr>c_chars = c_chars other OR a, c_chars_utf16 = c_chars_utf16 other OR b, c_newlines = c_newlines other OR c,
          c_tabs = c_tabs other OR d, c_text = c_text other @ c_text self\<rparr>
      })"

definition chunk_push_str :: "chunk \<Rightarrow> u8 list \<Rightarrow> chunk option" where
  "chunk_push_str self text = do { c \<leftarrow> chunk_new text; chunk_append self c }"

definition chunk_prepend_str :: "chunk \<Rightarrow> u8 list \<Rightarrow> chunk option" where
  "chunk_prepend_str self text = do { c \<leftarrow> chunk_new text; chunk_prepend self c }"

definition chunk_is_char_boundary :: "chunk \<Rightarrow> nat \<Rightarrow> bool" where
  "chunk_is_char_boundary c offset \<longleftrightarrow> push_bit offset 1 AND c_chars c \<noteq> 0 \<or> offset = length (c_text c)"

fun floor_loop :: "u8 list \<Rightarrow> nat \<Rightarrow> nat" where
  "floor_loop text 0 = 0"
| "floor_loop text (Suc i) = (if is_utf8_char_boundary (text ! Suc i) then Suc i else floor_loop text i)"

definition chunk_floor_char_boundary :: "chunk \<Rightarrow> nat \<Rightarrow> nat" where
  "chunk_floor_char_boundary c index =
     (if index \<ge> length (c_text c) then length (c_text c) else floor_loop (c_text c) index)"

text \<open>\<open>str::is_char_boundary\<close>, which \<open>str::split_at\<close> and slicing a string check.\<close>

definition str_char_boundary :: "u8 list \<Rightarrow> nat \<Rightarrow> bool" where
  "str_char_boundary s i \<longleftrightarrow> i = 0 \<or> i = length s \<or> i < length s \<and> is_utf8_char_boundary (s ! i)"

text \<open>\<open>str::floor_char_boundary\<close>: the greatest boundary that is not above an index.\<close>

fun floor_boundary :: "u8 list \<Rightarrow> nat \<Rightarrow> nat" where
  "floor_boundary t 0 = 0"
| "floor_boundary t (Suc i) = (if str_char_boundary t (Suc i) then Suc i else floor_boundary t i)"

definition str_floor_char_boundary :: "u8 list \<Rightarrow> nat \<Rightarrow> nat" where
  "str_floor_char_boundary s i = (if i \<ge> length s then length s else floor_boundary s i)"

definition empty_slice :: chunk where
  "empty_slice = \<lparr>c_chars = 0, c_chars_utf16 = 0, c_newlines = 0, c_tabs = 0, c_text = []\<rparr>"

definition chunk_split_at :: "chunk \<Rightarrow> nat \<Rightarrow> (chunk \<times> chunk) option" where
  "chunk_split_at c mid =
     (if mid = MAX_BASE then Some (c, empty_slice)
      else do {
        m \<leftarrow> checked_shl (1 :: u128) mid;
        let mask = m - 1;
        rust_assert (str_char_boundary (c_text c) mid);
        a \<leftarrow> checked_shr (c_chars c) mid;
        b \<leftarrow> checked_shr (c_chars_utf16 c) mid;
        n \<leftarrow> checked_shr (c_newlines c) mid;
        t \<leftarrow> checked_shr (c_tabs c) mid;
        Some (\<lparr>c_chars = c_chars c AND mask, c_chars_utf16 = c_chars_utf16 c AND mask, c_newlines = c_newlines c AND mask,
            c_tabs = c_tabs c AND mask, c_text = take mid (c_text c)\<rparr>,
          \<lparr>c_chars = a, c_chars_utf16 = b, c_newlines = n, c_tabs = t, c_text = drop mid (c_text c)\<rparr>)
      })"

subsection \<open>Queries\<close>

definition chunk_len :: "chunk \<Rightarrow> nat" where
  "chunk_len c = length (c_text c)"

definition chunk_len_utf16 :: "chunk \<Rightarrow> offset_utf16" where
  "chunk_len_utf16 c = OffsetUtf16 (count_ones (c_chars_utf16 c))"

definition chunk_lines :: "chunk \<Rightarrow> point option" where
  "chunk_lines c = do {
     rest \<leftarrow> checked_sub 128 (length (c_text c));
     column \<leftarrow> checked_sub (leading_zeros (c_newlines c)) rest;
     Some (Point (of_nat (count_ones (c_newlines c))) (of_nat column))
   }"

definition chunk_first_line_chars :: "chunk \<Rightarrow> u32" where
  "chunk_first_line_chars c = of_nat (count_ones (c_chars c AND saturating_shl_mask (trailing_zeros (c_newlines c))))"

definition chunk_last_line_chars :: "chunk \<Rightarrow> u32" where
  "chunk_last_line_chars c = of_nat (count_ones (c_chars c AND saturating_shr_mask (leading_zeros (c_newlines c))))"

definition chunk_last_line_len_utf16 :: "chunk \<Rightarrow> u32" where
  "chunk_last_line_len_utf16 c =
     of_nat (count_ones (c_chars_utf16 c AND saturating_shr_mask (leading_zeros (c_newlines c))))"

text \<open>The loop of \<open>longest_row\<close>: total characters, row, longest row and its characters so far.\<close>

lemma trailing_zeros_bit: "w \<noteq> 0 \<Longrightarrow> trailing_zeros w < LENGTH('a) \<and> bit w (trailing_zeros w)" for w :: "'a::len word"
proof -
  assume "w \<noteq> 0"
  then obtain n where n: "bit w n" by (auto simp: bit_eq_iff)
  then have "n < LENGTH('a)" by (rule bit_imp_le_length)
  let ?is = "[0..<LENGTH('a)]"
  have "trailing_zeros w < length ?is"
  proof (rule ccontr)
    assume "\<not> trailing_zeros w < length ?is"
    then have "length (takeWhile (\<lambda>i. \<not> bit w i) ?is) = length ?is"
      using length_takeWhile_le [of "\<lambda>i. \<not> bit w i" ?is] unfolding trailing_zeros_def by linarith
    then have "takeWhile (\<lambda>i. \<not> bit w i) ?is = ?is" by (metis takeWhile_eq_take take_all order_refl)
    then have "\<forall>i \<in> set ?is. \<not> bit w i" by (metis takeWhile_eq_all_conv)
    with n \<open>n < LENGTH('a)\<close> show False by simp
  qed
  then show ?thesis using nth_length_takeWhile [of "\<lambda>i. \<not> bit w i" ?is] unfolding trailing_zeros_def by simp
qed

lemma shift_decreases: "0 < w \<Longrightarrow> unat (drop_bit 1 (drop_bit k w)) < unat w" for w :: u128
proof -
  assume "0 < w"
  have "unat (drop_bit 1 (drop_bit k w)) = unat w div 2 ^ (1 + k)"
    by (simp add: unat_drop_bit_eq) (simp add: drop_bit_eq_div mult.commute flip: div_mult2_eq)
  also have "\<dots> < unat w"
  proof (rule div_less_dividend)
    show "1 < (2 :: nat) ^ (1 + k)" by (rule one_less_power) simp_all
    show "0 < unat w" using \<open>0 < w\<close> by (simp add: word_less_nat_alt)
  qed
  finally show ?thesis .
qed

function longest_row_loop :: "u128 \<Rightarrow> u128 \<Rightarrow> nat \<Rightarrow> u32 \<Rightarrow> u32 \<Rightarrow> u8 \<Rightarrow> ((u32 \<times> u32) \<times> nat) option" where
  "longest_row_loop newlines chars total_chars row_ix lrow lchars =
     (if newlines > 0 then do {
        let newline_ix = trailing_zeros newlines;
        m \<leftarrow> checked_shl (1 :: u128) newline_ix;
        let row_chars = (of_nat (count_ones (chars AND (m - 1))) :: u8);
        let (lrow', lchars') = (if row_chars > lchars then (row_ix, row_chars) else (lrow, lchars));
        row' \<leftarrow> checked_add row_ix 1;
        longest_row_loop (drop_bit 1 (drop_bit newline_ix newlines)) (drop_bit 1 (drop_bit newline_ix chars))
          (total_chars + unat row_chars + 1) row' lrow' lchars'
      }
      else (let row_chars = (of_nat (count_ones chars) :: u8)
            in Some (if row_chars > lchars then (row_ix, ucast row_chars) else (lrow, ucast lchars), total_chars + unat row_chars)))"
  by pat_completeness auto
termination
  by (relation "measure (\<lambda>(newlines, _). unat newlines)", rule wf_measure)
    (simp only: in_measure prod.case shift_decreases)

declare longest_row_loop.simps [simp del]

definition chunk_longest_row :: "chunk \<Rightarrow> ((u32 \<times> u32) \<times> nat) option" where
  "chunk_longest_row c = longest_row_loop (c_newlines c) (c_chars c) 0 0 0 0"

definition chunk_text_summary :: "chunk \<Rightarrow> text_summary option" where
  "chunk_text_summary c = do {
     ((lrow, lchars), chars) \<leftarrow> chunk_longest_row c;
     lines \<leftarrow> chunk_lines c;
     Some \<lparr>ts_len = chunk_len c, ts_chars = chars, ts_len_utf16 = chunk_len_utf16 c, ts_lines = lines,
       first_line_chars = chunk_first_line_chars c, last_line_chars = chunk_last_line_chars c,
       last_line_len_utf16 = chunk_last_line_len_utf16 c, longest_row = lrow, longest_row_chars = lchars\<rparr>
   }"

definition chunk_offset_to_point :: "chunk \<Rightarrow> nat \<Rightarrow> point option" where
  "chunk_offset_to_point c offset = do {
     let mask = (push_bit offset 1 - 1 :: u128);
     let newline_ix = 128 - leading_zeros (c_newlines c AND mask);
     column \<leftarrow> checked_sub offset newline_ix;
     Some (Point (of_nat (count_ones (c_newlines c AND mask))) (of_nat column))
   }"

definition chunk_offset_to_offset_utf16 :: "chunk \<Rightarrow> nat \<Rightarrow> offset_utf16" where
  "chunk_offset_to_offset_utf16 c offset =
     (let mask = (push_bit offset 1 - 1 :: u128) in OffsetUtf16 (count_ones (c_chars_utf16 c AND mask)))"

definition chunk_offset_to_point_utf16 :: "chunk \<Rightarrow> nat \<Rightarrow> point_utf16 option" where
  "chunk_offset_to_point_utf16 c offset = do {
     let mask = saturating_shl_mask offset;
     let newline_ix = 128 - leading_zeros (c_newlines c AND mask);
     column \<leftarrow> (if newline_ix = MAX_BASE then Some 0
        else map_option count_ones (checked_shr (c_chars_utf16 c AND mask) newline_ix));
     Some (PointUtf16 (of_nat (count_ones (c_newlines c AND saturating_shl_mask offset))) (of_nat column))
   }"

end
