(* ===== verification/Chunk_Correct.thy ===== *)
theory Chunk_Correct
  imports Chunk
begin

unbundle bit_operations_syntax

text \<open>
  Correctness of chunks: the chunk of a string of at most 128 bytes has the bitmaps of its characters
  (\<open>chunk_of\<close>); building, joining and splitting chunks is building, joining and splitting strings, and
  every query computed from the bitmaps is the one the string defines, the whole text summary included.
\<close>

section \<open>Words as lists of bits\<close>

definition bits :: "bool list \<Rightarrow> u128" where
  "bits bs = horner_sum of_bool 2 bs"

lemma bit_bits: "bit (bits bs) n \<longleftrightarrow> n < 128 \<and> n < length bs \<and> bs ! n"
  by (auto simp: bits_def bit_horner_sum_bit_word_iff)

lemma bits_Nil [simp]: "bits [] = 0"
  by (simp add: bits_def)

lemma bits_append: "bits (xs @ ys) = bits xs OR push_bit (length xs) (bits ys)"
  by (rule bit_eqI) (auto simp: bit_bits bit_simps nth_append)

lemma low_mask: "push_bit k 1 - 1 = (mask k :: u128)"
  by (simp add: mask_eq_exp_minus_1)

lemma bits_low: "bits xs AND mask k = bits (take k xs)"
  by (rule bit_eqI) (auto simp: bit_bits bit_simps)

lemma bits_drop: "length xs \<le> 128 \<Longrightarrow> drop_bit k (bits xs) = bits (drop k xs)"
  by (rule bit_eqI) (auto simp: bit_bits bit_simps)

lemma bits_zero: "length xs \<le> 128 \<Longrightarrow> bits xs = 0 \<longleftrightarrow> True \<notin> set xs"
  by (auto simp: bit_eq_iff bit_bits in_set_conv_nth)

lemma upt_split: "n \<le> m \<Longrightarrow> [0..<m] = [0..<n] @ [n..<m]" for m n :: nat
  by (metis upt_add_eq_append zero_le le_add_diff_inverse)

lemma map_bit_bits:
  "length xs \<le> 128 \<Longrightarrow> map (bit (bits xs)) [0..<128] = xs @ replicate (128 - length xs) False"
  by (rule nth_equalityI) (auto simp: bit_bits nth_append)

lemma count_ones_bits: "length xs \<le> 128 \<Longrightarrow> count_ones (bits xs) = length (filter id xs)"
proof -
  assume "length xs \<le> 128"
  have "count_ones (bits xs) = length (filter id (map (bit (bits xs)) [0..<128]))"
    by (simp add: count_ones_def filter_map comp_def)
  also have "\<dots> = length (filter id xs)" using map_bit_bits [OF \<open>length xs \<le> 128\<close>] by simp
  finally show ?thesis .
qed

lemma trailing_zeros_bits:
  "length xs \<le> 128 \<Longrightarrow> trailing_zeros (bits xs) = (if True \<in> set xs then length (takeWhile Not xs) else 128)"
proof -
  assume l: "length xs \<le> 128"
  have "trailing_zeros (bits xs) = length (takeWhile Not (map (bit (bits xs)) [0..<128]))"
    by (simp add: trailing_zeros_def takeWhile_map comp_def)
  also have "\<dots> = length (takeWhile Not (xs @ replicate (128 - length xs) False))"
    using map_bit_bits [OF l] by simp
  also have "\<dots> = (if True \<in> set xs then length (takeWhile Not xs) else 128)"
  proof (cases "True \<in> set xs")
    case True
    then show ?thesis by (auto simp: takeWhile_append1)
  next
    case False
    then have "\<And>x. x \<in> set xs \<Longrightarrow> \<not> x" by metis
    with False l show ?thesis by (subst takeWhile_append2) (auto simp: takeWhile_replicate)
  qed
  finally show ?thesis .
qed

lemma leading_zeros_bits:
  "length xs \<le> 128 \<Longrightarrow> leading_zeros (bits xs) = 128 - length xs + length (takeWhile Not (rev xs))"
proof -
  assume l: "length xs \<le> 128"
  have "leading_zeros (bits xs) = length (takeWhile Not (rev (map (bit (bits xs)) [0..<128])))"
    by (simp add: leading_zeros_def rev_map takeWhile_map comp_def)
  also have "\<dots> = length (takeWhile Not (replicate (128 - length xs) False @ rev xs))"
    using map_bit_bits [OF l] by simp
  also have "\<dots> = 128 - length xs + length (takeWhile Not (rev xs))"
    by (subst takeWhile_append2) auto
  finally show ?thesis .
qed

lemma bits_high:
  assumes "length xs \<le> 128" "j \<le> 128"
  shows "count_ones (bits xs AND saturating_shr_mask (128 - j)) = length (filter id (drop j xs))"
proof -
  have "bits xs AND saturating_shr_mask (128 - j) = bits (replicate (min j (length xs)) False @ drop j xs)"
  proof (rule bit_word_eqI)
    fix n :: nat
    assume n: "n < LENGTH(128)"
    have "bit (drop_bit (128 - j) (- 1 :: u128)) n \<longleftrightarrow> n < j"
      using n assms(2) by (auto simp: bit_simps)
    then show "bit (bits xs AND saturating_shr_mask (128 - j)) n \<longleftrightarrow>
        bit (bits (replicate (min j (length xs)) False @ drop j xs)) n"
      using n assms by (auto simp: saturating_shr_mask_def bit_simps bit_bits nth_append min_def)
  qed
  with count_ones_bits [of "replicate (min j (length xs)) False @ drop j xs"] assms(1) show ?thesis
    by (auto simp: min_def)
qed

section \<open>UTF-8\<close>

definition valid_char :: "rchar \<Rightarrow> bool" where
  "valid_char c \<longleftrightarrow> c < 0x110000"

definition encode_char :: "rchar \<Rightarrow> u8 list" where
  "encode_char c =
     (if c < 0x80 then [of_nat c]
      else if c < 0x800 then [of_nat (0xC0 + c div 64), of_nat (0x80 + c mod 64)]
      else if c < 0x10000 then [of_nat (0xE0 + c div 4096), of_nat (0x80 + c div 64 mod 64), of_nat (0x80 + c mod 64)]
      else [of_nat (0xF0 + c div 262144), of_nat (0x80 + c div 4096 mod 64), of_nat (0x80 + c div 64 mod 64),
        of_nat (0x80 + c mod 64)])"

definition encode :: "rchar list \<Rightarrow> u8 list" where
  "encode s = concat (map encode_char s)"

definition valid_str :: "rchar list \<Rightarrow> bool" where
  "valid_str s \<longleftrightarrow> (\<forall>c \<in> set s. valid_char c)"

text \<open>The bits of one character: of the bitmaps of characters, of a byte kind, and of UTF-16 units.\<close>

definition start_mark :: "bool \<Rightarrow> rchar \<Rightarrow> bool list" where
  "start_mark b c = b # replicate (len_utf8 c - 1) False"

definition utf16_mark :: "rchar \<Rightarrow> bool list" where
  "utf16_mark c = (if len_utf8 c = 4 then [True, True, False, False] else start_mark True c)"

definition marks :: "(rchar \<Rightarrow> bool list) \<Rightarrow> rchar list \<Rightarrow> bool list" where
  "marks f s = concat (map f s)"

definition chunk_of :: "rchar list \<Rightarrow> chunk" where
  "chunk_of s = \<lparr>c_chars = bits (marks (start_mark True) s), c_chars_utf16 = bits (marks utf16_mark s),
     c_newlines = bits (marks (\<lambda>c. start_mark (c = 10) c) s), c_tabs = bits (marks (\<lambda>c. start_mark (c = 9) c) s),
     c_text = encode s\<rparr>"

lemma marks_simps [simp]: "marks f [] = []" "marks f (c # s) = f c @ marks f s" "marks f (s @ t) = marks f s @ marks f t"
  by (simp_all add: marks_def)

lemma encode_simps [simp]: "encode [] = []" "encode (c # s) = encode_char c @ encode s" "encode (s @ t) = encode s @ encode t"
  by (simp_all add: encode_def)

lemma length_mark [simp]: "length (start_mark b c) = len_utf8 c" "length (utf16_mark c) = len_utf8 c"
  using len_utf8_pos(1) [of c] by (auto simp: start_mark_def utf16_mark_def)

lemma length_marks:
  "length (marks (start_mark True) s) = str_len s" "length (marks (\<lambda>c. start_mark (P c) c) s) = str_len s"
  "length (marks utf16_mark s) = str_len s"
  by (induction s) simp_all

lemma length_encode [simp]: "length (encode s) = str_len s"
  by (induction s) (auto simp: encode_char_def len_utf8_def)

lemma boundary_unat: "is_utf8_char_boundary b \<longleftrightarrow> unat b < 128 \<or> 192 \<le> unat b"
proof -
  have "uint b < 256" "0 \<le> uint b" using uint_bounded [of b] by simp_all
  moreover have "sint b = (uint b + 128) mod 256 - 128"
    by (simp add: sint_uint signed_take_bit_eq_take_bit_shift take_bit_eq_mod)
  moreover have "(u + 128) mod 256 = (if u < 128 then u + 128 else u - 128)" if "u < 256" "0 \<le> u" for u :: int
  proof (cases "u < 128")
    case False
    have "(u + 128) mod 256 = ((u - 128) + 256) mod 256" by (simp add: add.commute)
    also have "\<dots> = u - 128" unfolding mod_add_self2 using that False by (intro mod_pos_pos_trivial) simp_all
    finally show ?thesis using False by simp
  qed (use that in simp)
  ultimately have s: "sint b = (if uint b < 128 then uint b else uint b - 256)" by simp
  have u: "unat b < 128 \<longleftrightarrow> uint b < 128" "192 \<le> unat b \<longleftrightarrow> 192 \<le> uint b"
    using \<open>0 \<le> uint b\<close> unfolding unat_eq_nat_uint by linarith+
  have "- 64 \<le> uint b" using \<open>0 \<le> uint b\<close> by linarith
  then show ?thesis unfolding is_utf8_char_boundary_def s u by (cases "uint b < 128") simp_all
qed


lemma unat_byte: "k < 256 \<Longrightarrow> unat (of_nat k :: u8) = k"
  by (simp add: unat_of_nat)

lemma byte_tests:
  assumes "k < 256"
  shows "is_utf8_char_boundary (of_nat k) \<longleftrightarrow> k < 128 \<or> 192 \<le> k" "(240 \<le> (of_nat k :: u8)) \<longleftrightarrow> 240 \<le> k"
    "(of_nat k = (10 :: u8)) \<longleftrightarrow> k = 10" "(of_nat k = (9 :: u8)) \<longleftrightarrow> k = 9"
  using assms by (simp_all add: boundary_unat unat_byte word_le_nat_alt word_unat_eq_iff)

lemma encode_char_cases:
  assumes "valid_char c"
  obtains (one) "c < 128" "encode_char c = [of_nat c]" "len_utf8 c = 1"
  | (two) a b where "192 \<le> a" "a < 224" "128 \<le> b" "b < 192" "128 \<le> c" "encode_char c = [of_nat a, of_nat b]" "len_utf8 c = 2"
  | (three) a b d where "224 \<le> a" "a < 240" "128 \<le> b" "b < 192" "128 \<le> d" "d < 192" "128 \<le> c"
      "encode_char c = [of_nat a, of_nat b, of_nat d]" "len_utf8 c = 3"
  | (four) a b d e where "240 \<le> a" "a < 248" "128 \<le> b" "b < 192" "128 \<le> d" "d < 192" "128 \<le> e" "e < 192" "128 \<le> c"
      "encode_char c = [of_nat a, of_nat b, of_nat d, of_nat e]" "len_utf8 c = 4"
proof -
  have r: "128 \<le> 128 + n mod 64" "128 + n mod 64 < 192" for n :: nat by simp_all
  consider "c < 128" | "128 \<le> c" "c < 2048" | "2048 \<le> c" "c < 65536" | "65536 \<le> c" by linarith
  then show thesis
  proof cases
    case 1
    then show thesis by (intro one) (simp_all add: encode_char_def len_utf8_def)
  next
    case 2
    then have "c div 64 < 32" by (simp add: div_less_iff_less_mult)
    with 2 show thesis by (intro two [of "192 + c div 64" "128 + c mod 64"] r) (simp_all add: encode_char_def len_utf8_def)
  next
    case 3
    then have "c div 4096 < 16" by (simp add: div_less_iff_less_mult)
    with 3 show thesis
      by (intro three [of "224 + c div 4096" "128 + c div 64 mod 64" "128 + c mod 64"] r) (simp_all add: encode_char_def len_utf8_def)
  next
    case 4
    have "c div 262144 < 8" using assms by (simp add: div_less_iff_less_mult valid_char_def)
    with 4 show thesis
      by (intro four [of "240 + c div 262144" "128 + c div 4096 mod 64" "128 + c div 64 mod 64" "128 + c mod 64"] r)
        (simp_all add: encode_char_def len_utf8_def)
  qed
qed

lemma encode_char_marks:
  assumes "valid_char c"
  shows "map is_utf8_char_boundary (encode_char c) = start_mark True c"
    "map (\<lambda>b. 240 \<le> b) (encode_char c) = start_mark (len_utf8 c = 4) c"
    "map (\<lambda>b. b = 10) (encode_char c) = start_mark (c = 10) c"
    "map (\<lambda>b. b = 9) (encode_char c) = start_mark (c = 9) c"
  using assms by (cases rule: encode_char_cases; simp add: start_mark_def byte_tests numeral_2_eq_2 numeral_3_eq_3 eval_nat_numeral)+

lemma encode_marks:
  assumes "valid_str s"
  shows "map is_utf8_char_boundary (encode s) = marks (start_mark True) s"
    "map (\<lambda>b. 240 \<le> b) (encode s) = marks (\<lambda>c. start_mark (len_utf8 c = 4) c) s"
    "map (\<lambda>b. b = 10) (encode s) = marks (\<lambda>c. start_mark (c = 10) c) s"
    "map (\<lambda>b. b = 9) (encode s) = marks (\<lambda>c. start_mark (c = 9) c) s"
  using assms by (induction s) (simp_all add: valid_str_def encode_char_marks)

section \<open>Building, joining and splitting\<close>

lemma bit_group_mask:
  "ix + length bs \<le> 8 \<Longrightarrow> bit (group_mask P ix m bs) n \<longleftrightarrow> bit m n \<or> ix \<le> n \<and> n < ix + length bs \<and> P (bs ! (n - ix))"
proof (induction bs arbitrary: ix m)
  case (Cons b bs)
  have "n < 8" if "bit m n" using bit_imp_le_length [OF that] by simp
  with Cons.IH [of "Suc ix" "m OR push_bit ix (of_bool (P b))"] Cons.prems show ?case
    by (auto simp: bit_simps nth_Cons' not_le dest: le_antisym)
qed auto

lemma bit_from_le_bytes:
  "bit (from_le_bytes bs) n \<longleftrightarrow> n < 128 \<and> n div 8 < length bs \<and> bit (bs ! (n div 8)) (n mod 8)"
proof (induction bs arbitrary: n)
  case (Cons b bs)
  show ?case
  proof (cases "n < 8")
    case True
    then show ?thesis by (simp add: bit_simps)
  next
    case False
    have "\<not> bit b n" using bit_imp_le_length [of b n] False by auto
    moreover obtain k where k: "n = 8 + k" using False le_Suc_ex [of 8 n] by auto
    moreover from k have "n div 8 = Suc (k div 8)" "n mod 8 = k mod 8" by simp_all
    ultimately show ?thesis using Cons.IH [of k] by (simp add: bit_simps) auto
  qed
qed simp

lemma group_masks_nth:
  "length (group_masks P bytes) = (length bytes + 7) div 8 \<and>
   (\<forall>i < length (group_masks P bytes). \<forall>n. bit (group_masks P bytes ! i) n \<longleftrightarrow>
      n < 8 \<and> 8 * i + n < length bytes \<and> P (bytes ! (8 * i + n)))"
proof (induction P bytes rule: group_masks.induct)
  case (1 P bytes)
  show ?case
  proof (cases "bytes = []")
    case False
    note IH = "1.IH" [OF False]
    have g: "group_masks P bytes = group_mask P 0 0 (take 8 bytes) # group_masks P (drop 8 bytes)"
      using False by (subst group_masks.simps) simp
    have "(length bytes + 7) div 8 = Suc ((length bytes - 8 + 7) div 8)" using False by (cases "length bytes \<le> 8") (auto simp: neq_Nil_conv)
    then have "length (group_masks P bytes) = (length bytes + 7) div 8" using IH g by simp
    moreover have "bit (group_masks P bytes ! i) n \<longleftrightarrow> n < 8 \<and> 8 * i + n < length bytes \<and> P (bytes ! (8 * i + n))"
      if "i < length (group_masks P bytes)" for i n
    proof (cases i)
      case 0
      then show ?thesis using bit_group_mask [of 0 "take 8 bytes" P 0 n] g by auto
    next
      case (Suc j)
      have "j < length (group_masks P (drop 8 bytes))" using that g Suc by simp
      with IH have "bit (group_masks P (drop 8 bytes) ! j) n \<longleftrightarrow>
        n < 8 \<and> 8 * j + n < length (drop 8 bytes) \<and> P (drop 8 bytes ! (8 * j + n))" by blast
      then show ?thesis using g Suc by (auto simp: add.assoc)
    qed
    ultimately show ?thesis by blast
  qed (simp add: group_masks.simps [of _ "[]"])
qed

lemma byte_mask_bits: "length bs \<le> 128 \<Longrightarrow> byte_mask P bs = bits (map P bs)"
proof (rule bit_word_eqI)
  fix n :: nat
  assume l: "length bs \<le> 128" and "n < LENGTH(128)"
  then have n: "n < 128" by simp
  let ?ms = "group_masks P bs"
  have len: "length ?ms = (length bs + 7) div 8" using group_masks_nth [of P bs] by blast
  have "n div 8 < 16" using n by simp
  show "bit (byte_mask P bs) n \<longleftrightarrow> bit (bits (map P bs)) n"
  proof (cases "n div 8 < length ?ms")
    case True
    then have "bit (?ms ! (n div 8)) (n mod 8) \<longleftrightarrow> n < length bs \<and> P (bs ! n)"
      using group_masks_nth [of P bs] by auto
    with True n show ?thesis
      by (auto simp: byte_mask_def Let_def bit_from_le_bytes bit_bits nth_append)
  next
    case False
    then have "length bs \<le> n" using len by linarith
    with False n \<open>n div 8 < 16\<close> show ?thesis
      by (simp add: byte_mask_def Let_def bit_from_le_bytes bit_bits nth_append MAX_BASE_def)
  qed
qed

lemma utf16_bits:
  "str_len s \<le> 128 \<Longrightarrow> push_bit 1 (bits (marks (\<lambda>c. start_mark (len_utf8 c = 4) c) s)) OR bits (marks (start_mark True) s) =
     bits (marks utf16_mark s)"
proof (induction s)
  case (Cons c s)
  let ?a = "\<lambda>c. start_mark (len_utf8 c = 4) c"
  have one: "push_bit 1 (bits (?a c)) OR bits (start_mark True c) = bits (utf16_mark c)"
  proof (cases "len_utf8 c = 4")
    case True
    then have "?a c = [True, False, False, False]" "start_mark True c = [True, False, False, False]"
      "utf16_mark c = [True, True, False, False]"
      by (simp_all add: start_mark_def utf16_mark_def numeral_3_eq_3)
    then show ?thesis by (simp add: bits_def)
  next
    case False
    then have "bits (?a c) = 0" using Cons.prems by (subst bits_zero) (auto simp: start_mark_def)
    with False show ?thesis by (simp add: utf16_mark_def)
  qed
  let ?A = "bits (marks ?a s)" and ?B = "bits (marks (start_mark True) s)"
  have swap: "push_bit 1 (push_bit (len_utf8 c) ?A) = push_bit (len_utf8 c) (push_bit 1 ?A)"
    by (simp add: add.commute)
  have "push_bit 1 (bits (marks ?a (c # s))) OR bits (marks (start_mark True) (c # s)) =
      (push_bit 1 (bits (?a c)) OR bits (start_mark True c)) OR push_bit (len_utf8 c) (push_bit 1 ?A OR ?B)"
    by (simp only: marks_simps bits_append length_mark push_bit_or swap or.assoc or.commute or.left_commute)
  also have "\<dots> = bits (utf16_mark c) OR push_bit (len_utf8 c) (bits (marks utf16_mark s))"
    using one Cons by simp
  finally show ?case by (simp add: bits_append)
qed simp

lemma chunk_new_correct:
  assumes "valid_str s" "str_len s \<le> 128"
  shows "chunk_new (encode s) = Some (chunk_of s)"
  using assms utf16_bits [OF assms(2)]
  by (simp add: chunk_new_def MAX_BASE_def byte_mask_bits encode_marks chunk_of_def Let_def)

lemma encode_Nil_iff: "encode s = [] \<longleftrightarrow> s = []"
  using length_encode [of s] by (metis length_0_conv str_len_eq_0)

lemma chunk_append_correct:
  assumes "str_len s + str_len t \<le> 128"
  shows "chunk_append (chunk_of s) (chunk_of t) = Some (chunk_of (s @ t))"
proof (cases "t = []")
  case True
  then show ?thesis by (simp add: chunk_append_def chunk_of_def)
next
  case False
  then have "0 < str_len t" by (metis gr0I str_len_eq_0)
  then have "str_len s < 128" using assms by simp
  with False assms show ?thesis
    by (simp add: chunk_append_def chunk_of_def encode_Nil_iff checked_shl_def MAX_BASE_def bits_append length_marks Let_def)
qed

lemma chunk_prepend_correct:
  assumes "valid_str t" "str_len s + str_len t \<le> 128"
  shows "chunk_prepend (chunk_of s) (chunk_of t) = Some (chunk_of (t @ s))"
proof -
  consider "t = []" | "t \<noteq> []" "s = []" | "t \<noteq> []" "s \<noteq> []" by blast
  then show ?thesis
  proof cases
    case 1
    then show ?thesis by (simp add: chunk_prepend_def chunk_of_def)
  next
    case 2
    then show ?thesis using chunk_new_correct [of t] assms
      by (simp add: chunk_prepend_def) (simp add: chunk_of_def encode_Nil_iff)
  next
    case 3
    then have "0 < str_len s" by (metis gr0I str_len_eq_0)
    then have "str_len t < 128" using assms by simp
    with 3 assms show ?thesis
      by (simp add: chunk_prepend_def chunk_of_def encode_Nil_iff checked_shl_def MAX_BASE_def bits_append length_marks Let_def)
  qed
qed

lemma floor_boundary_spec:
  "floor_boundary t i \<le> i" "str_char_boundary t j \<Longrightarrow> j \<le> i \<Longrightarrow> j \<le> floor_boundary t i" "str_char_boundary t (floor_boundary t i)"
  by (induction t i rule: floor_boundary.induct) (auto simp: le_Suc_eq str_char_boundary_def)

lemma encode_boundary: "valid_str t \<Longrightarrow> str_char_boundary (encode (s @ t)) (str_len s)"
proof (cases t)
  case (Cons c t')
  assume "valid_str t"
  then have "map is_utf8_char_boundary (encode t) = True # replicate (len_utf8 c - 1) False @ marks (start_mark True) t'"
    using encode_marks(1) [of t] Cons by (simp add: start_mark_def)
  then have "encode t \<noteq> []" "is_utf8_char_boundary (encode t ! 0)" by (cases "encode t"; simp)+
  moreover then have "0 < str_len t" by (metis encode_Nil_iff gr0I str_len_eq_0)
  ultimately show ?thesis by (simp add: str_char_boundary_def nth_append)
qed (simp add: str_char_boundary_def)

lemma chunk_split_at_correct:
  assumes "valid_str t" "str_len (s @ t) \<le> 128"
  shows "chunk_split_at (chunk_of (s @ t)) (str_len s) = Some (chunk_of s, chunk_of t)"
proof (cases "str_len s = 128")
  case True
  then have "str_len t = 0" using assms(2) by simp
  then have "t = []" by simp
  with True show ?thesis by (simp add: chunk_split_at_def MAX_BASE_def empty_slice_def chunk_of_def)
next
  case False
  then have l: "str_len s < 128" using assms(2) by simp
  have low: "bits (xs @ ys) AND (push_bit (length xs) 1 - 1) = bits xs" for xs ys
    unfolding low_mask bits_low by simp
  have high: "length (xs @ ys) \<le> 128 \<Longrightarrow> drop_bit (length xs) (bits (xs @ ys)) = bits ys" for xs ys
    by (simp add: bits_drop)
  have lows: "bits (marks f s @ marks f t) AND (push_bit (str_len s) 1 - 1) = bits (marks f s)"
    if "length (marks f s) = str_len s" for f
    using low [of "marks f s" "marks f t"] that by simp
  have highs: "drop_bit (str_len s) (bits (marks f s @ marks f t)) = bits (marks f t)"
    if "length (marks f s) = str_len s" "length (marks f t) = str_len t" for f
    using high [of "marks f s" "marks f t"] that assms(2) by simp
  from False l encode_boundary [OF assms(1), of s] show ?thesis
    by (simp add: chunk_split_at_def MAX_BASE_def checked_shl_def checked_shr_def chunk_of_def Let_def
        lows highs length_marks del: push_bit_of_1)
qed

section \<open>Lines of a string\<close>

lemma rows_Cons: "rows [] = 0" "rows (c # s) = (if c = 10 then 1 else 0) + rows s"
  using lines_append(1) [of "[c]" s] single_char(1) [of c] by (simp_all add: rows_def NEWLINE_def)

lemma rows_0: "rows s = 0 \<longleftrightarrow> 10 \<notin> set s"
  by (induction s) (auto simp: rows_Cons)

lemma split_no_newline: "10 \<notin> set s \<Longrightarrow> split_lines s = [s]"
  by (induction s) (auto simp: NEWLINE_def)

lemma split_at_newline: "10 \<notin> set l \<Longrightarrow> split_lines (l @ 10 # t) = l # split_lines t"
  by (simp add: split_lines_append split_no_newline NEWLINE_def)

lemma line_no_newline: "10 \<notin> set s \<Longrightarrow> first_line s = s \<and> last_line s = s"
  by (simp add: first_line_def last_line_def split_no_newline)

lemma first_newline:
  assumes "10 \<in> set s"
  obtains t where "s = first_line s @ 10 # t" "10 \<notin> set (first_line s)" "split_lines s = first_line s # split_lines t"
    "rows s = Suc (rows t)"
proof -
  obtain l t where s: "s = l @ 10 # t" "10 \<notin> set l" using split_list_first [OF assms] by blast
  then have "split_lines s = l # split_lines t" by (simp add: split_at_newline)
  moreover then have "first_line s = l" "rows s = Suc (rows t)"
    using split_lines_ne [of t] by (simp_all add: first_line_def rows_def Suc_pred)
  ultimately show thesis using that s by simp
qed

lemma last_newline:
  assumes "10 \<in> set s"
  obtains t where "s = t @ 10 # last_line s" "10 \<notin> set (last_line s)"
proof -
  obtain t l where s: "s = t @ 10 # l" "10 \<notin> set l" using split_list_last [OF assms] by blast
  then have "last_line s = l"
    using lines_append(3) [of t "10 # l"] lines_append(3) [of "[10]" l] line_no_newline [of l] rows_0 [of l]
    by (simp add: rows_Cons last_line_def split_no_newline NEWLINE_def)
  then show thesis using that s by simp
qed

section \<open>Queries\<close>

abbreviation newline_marks :: "rchar list \<Rightarrow> bool list" where
  "newline_marks \<equiv> marks (\<lambda>c. start_mark (c = 10) c)"

lemma filter_mark: "length (filter id (start_mark b c)) = of_bool b"
  by (simp add: start_mark_def)

lemma filter_marks:
  "length (filter id (marks (start_mark True) s)) = length s" "length (filter id (marks utf16_mark s)) = utf16_len s"
  "length (filter id (newline_marks s)) = rows s"
proof -
  note m = filter_mark [unfolded id_def]
  have u: "length (filter (\<lambda>x. x) (utf16_mark c)) = char_len_utf16 c" for c
    by (auto simp: utf16_mark_def m len_utf8_def char_len_utf16_def)
  show "length (filter id (marks (start_mark True) s)) = length s" by (induction s) (simp_all add: m id_def)
  show "length (filter id (marks utf16_mark s)) = utf16_len s" by (induction s) (simp_all add: u id_def)
  show "length (filter id (newline_marks s)) = rows s" by (induction s) (simp_all add: m rows_Cons id_def)
qed

lemma counts:
  assumes "str_len s \<le> 128"
  shows "count_ones (bits (marks (start_mark True) s)) = length s" "count_ones (bits (marks utf16_mark s)) = utf16_len s"
    "count_ones (bits (newline_marks s)) = rows s"
  using assms by (simp_all add: count_ones_bits length_marks filter_marks)

lemma newline_marks_none: "10 \<notin> set s \<Longrightarrow> newline_marks s = replicate (str_len s) False"
proof (induction s)
  case (Cons c s)
  then show ?case using len_utf8_pos(1) [of c]
    by (simp add: start_mark_def replicate_add [symmetric] flip: replicate_Suc)
qed simp

lemma newline_mark_split: "newline_marks (s @ 10 # t) = newline_marks s @ True # newline_marks t"
  by (simp add: start_mark_def len_utf8_def)

lemma newline_marks_True: "True \<in> set (newline_marks s) \<longleftrightarrow> 10 \<in> set s"
  by (induction s) (auto simp: start_mark_def)

lemma takeWhile_marks: "takeWhile Not (replicate n False @ True # xs) = replicate n False"
  by (induction n) simp_all

lemma trailing_newlines:
  assumes "str_len s \<le> 128"
  shows "trailing_zeros (bits (newline_marks s)) = (if 10 \<in> set s then str_len (first_line s) else 128)"
proof (cases "10 \<in> set s")
  case True
  then obtain t where t: "s = first_line s @ 10 # t" "10 \<notin> set (first_line s)" by (rule first_newline)
  have "takeWhile Not (newline_marks s) = replicate (str_len (first_line s)) False"
    using newline_mark_split [of "first_line s" t] newline_marks_none [OF t(2)] t(1)
    by (metis takeWhile_marks)
  with True assms show ?thesis by (simp add: trailing_zeros_bits length_marks newline_marks_True)
qed (use assms in \<open>simp add: trailing_zeros_bits length_marks newline_marks_True\<close>)

lemma leading_newlines:
  assumes "str_len s \<le> 128"
  shows "leading_zeros (bits (newline_marks s)) = 128 - str_len s + str_len (last_line s)"
proof (cases "10 \<in> set s")
  case True
  then obtain t where t: "s = t @ 10 # last_line s" "10 \<notin> set (last_line s)" by (rule last_newline)
  have "newline_marks s = newline_marks t @ True # newline_marks (last_line s)"
    using newline_mark_split [of t "last_line s"] t(1) by metis
  then have "rev (newline_marks s) = replicate (str_len (last_line s)) False @ True # rev (newline_marks t)"
    using newline_marks_none [OF t(2)] by simp
  then have "takeWhile Not (rev (newline_marks s)) = replicate (str_len (last_line s)) False"
    by (simp add: takeWhile_marks)
  with assms show ?thesis by (simp add: leading_zeros_bits length_marks)
next
  case False
  then have "takeWhile Not (rev (newline_marks s)) = replicate (str_len s) False"
    by (simp add: newline_marks_none)
  with assms False show ?thesis by (simp add: leading_zeros_bits length_marks line_no_newline)
qed

lemma chunk_lines_correct: "str_len s \<le> 128 \<Longrightarrow> chunk_lines (chunk_of s) = Some (ts_lines (summary_of s))"
  by (simp add: chunk_lines_def chunk_of_def leading_newlines counts summary_of_def)

lemma marks_first_line:
  assumes "10 \<in> set s" "\<And>c. length (f c) = len_utf8 c"
  shows "take (str_len (first_line s)) (marks f s) = marks f (first_line s)"
proof -
  obtain t where t: "s = first_line s @ 10 # t" using first_newline [OF assms(1)] by metis
  have l: "length (marks f u) = str_len u" for u using assms(2) by (induction u) simp_all
  have "marks f s = marks f (first_line s) @ marks f (10 # t)" using t by (metis marks_simps(3))
  then show ?thesis using l [of "first_line s"] by simp
qed

lemma marks_last_line:
  assumes "\<And>c. length (f c) = len_utf8 c"
  shows "drop (str_len s - str_len (last_line s)) (marks f s) = marks f (last_line s)"
proof (cases "10 \<in> set s")
  case True
  then obtain t where t: "s = t @ 10 # last_line s" by (rule last_newline)
  have l: "length (marks f u) = str_len u" for u using assms by (induction u) simp_all
  have "marks f s = marks f (t @ [10]) @ marks f (last_line s)" using t by (metis append.assoc append_Cons append_Nil marks_simps(3))
  moreover have "str_len s - str_len (last_line s) = length (marks f (t @ [10]))"
    using arg_cong [OF t, of str_len] l [of "t @ [10]"] by simp
  ultimately show ?thesis by simp
qed (simp add: line_no_newline)

lemma chunk_first_line_correct:
  assumes "str_len s \<le> 128"
  shows "chunk_first_line_chars (chunk_of s) = first_line_chars (summary_of s)"
proof (cases "10 \<in> set s")
  case True
  have "str_len (first_line s) \<le> 128" using line_bounds(1) [of s] assms by simp
  with True marks_first_line [OF True, of "start_mark True"] counts(1) [of "first_line s"] assms show ?thesis
    by (simp add: chunk_first_line_chars_def chunk_of_def trailing_newlines saturating_shl_mask_def low_mask bits_low summary_of_def
        del: push_bit_of_1)
next
  case False
  with assms counts(1) [OF assms] show ?thesis
    by (simp add: chunk_first_line_chars_def chunk_of_def trailing_newlines saturating_shl_mask_def low_mask bits_low summary_of_def
        line_no_newline length_marks del: push_bit_of_1)
qed

lemma last_line_count:
  assumes "str_len s \<le> 128" "\<And>c. length (f c) = len_utf8 c"
  shows "count_ones (bits (marks f s) AND saturating_shr_mask (leading_zeros (bits (newline_marks s)))) =
    length (filter id (marks f (last_line s)))"
proof -
  have l: "length (marks f s) = str_len s" using assms(2) by (induction s) simp_all
  let ?j = "str_len s - str_len (last_line s)"
  have "leading_zeros (bits (newline_marks s)) = 128 - ?j"
    using leading_newlines [OF assms(1)] line_bounds(2) [of s] assms(1) by simp
  then show ?thesis using bits_high [of "marks f s" ?j] l assms marks_last_line [of f s] by simp
qed

lemma chunk_last_line_correct:
  assumes "str_len s \<le> 128"
  shows "chunk_last_line_chars (chunk_of s) = last_line_chars (summary_of s)"
    "chunk_last_line_len_utf16 (chunk_of s) = last_line_len_utf16 (summary_of s)"
  using last_line_count [OF assms, of "start_mark True"] last_line_count [OF assms, of utf16_mark]
  by (simp_all add: chunk_last_line_chars_def chunk_last_line_len_utf16_def chunk_of_def filter_marks summary_of_def)

subsection \<open>The longest row\<close>

lemma newline_bits_zero: "str_len s \<le> 128 \<Longrightarrow> 0 < bits (newline_marks s) \<longleftrightarrow> 10 \<in> set s"
  by (simp add: word_gt_0 bits_zero length_marks newline_marks_True)

lemma drop_first_line:
  assumes "s = l @ 10 # t" "\<And>c. length (f c) = len_utf8 c" "str_len s \<le> 128"
  shows "drop_bit 1 (drop_bit (str_len l) (bits (marks f s))) = bits (marks f t)"
proof -
  have len: "length (marks f u) = str_len u" for u using assms(2) by (induction u) simp_all
  have "length (f 10) = 1" using assms(2) [of 10] by (simp add: len_utf8_def)
  then have "drop 1 (drop (str_len l) (marks f s)) = marks f t" using assms(1) len [of l] by simp
  with assms(3) len [of s] show ?thesis by (simp add: bits_drop)
qed

lemma row_chars: "k \<le> 128 \<Longrightarrow> unat (of_nat k :: u8) = k" "k \<le> 128 \<Longrightarrow> ucast (of_nat k :: u8) = (of_nat k :: u32)"
  by (simp_all add: unat_of_nat unsigned_of_nat take_bit_nat_eq_self)

lemma row_chars_less: "j \<le> 128 \<Longrightarrow> k \<le> 128 \<Longrightarrow> (of_nat j :: u8) < of_nat k \<longleftrightarrow> j < k"
  by (simp add: word_less_nat_alt row_chars)

lemma longest_first_line:
  assumes "split_lines s = l # split_lines t"
  shows "longest_line s = (case longest_line t of (i, m) \<Rightarrow> if length l < m then (Suc i, m) else (0, length l))"
  using assms by (simp add: longest_line_def)

definition best_row :: "nat \<Rightarrow> nat \<times> nat \<Rightarrow> nat \<times> nat \<Rightarrow> nat \<times> nat" where
  "best_row r best lg = (if snd best < snd lg then (r + fst lg, snd lg) else best)"

lemma best_row_Cons:
  assumes "split_lines s = l # split_lines t"
  shows "best_row r best (longest_line s) = best_row (Suc r) (if snd best < length l then (r, length l) else best) (longest_line t)"
  using longest_first_line [OF assms] by (auto simp: best_row_def split: prod.splits)

lemma longest_row_loop_correct:
  assumes "str_len s \<le> 128" "snd best \<le> 128" "r + rows s < 2 ^ 32"
  shows "longest_row_loop (bits (newline_marks s)) (bits (marks (start_mark True) s)) total_chars (of_nat r)
      (of_nat (fst best)) (of_nat (snd best)) =
    (case best_row r best (longest_line s) of (i, m) \<Rightarrow> Some ((of_nat i, of_nat m), total_chars + length s))"
  using assms
proof (induction s arbitrary: total_chars r best rule: measure_induct_rule [where f = length])
  case (less s)
  have len: "length s \<le> 128" using length_le_str_len [of s] less.prems(1) by simp
  show ?case
  proof (cases "10 \<in> set s")
    case False
    then have "longest_line s = (0, length s)" by (simp add: longest_line_def split_no_newline)
    with False less.prems len show ?thesis
      by (subst longest_row_loop.simps)
        (simp add: newline_bits_zero counts row_chars row_chars_less best_row_def Let_def case_prod_beta)
  next
    case True
    then obtain t where t: "s = first_line s @ 10 # t" "10 \<notin> set (first_line s)"
        "split_lines s = first_line s # split_lines t" "rows s = Suc (rows t)" by (rule first_newline)
    let ?l = "first_line s"
    have sl: "str_len s = str_len ?l + 1 + str_len t" "length s = length ?l + 1 + length t"
      using arg_cong [OF t(1), of str_len] arg_cong [OF t(1), of length] by (simp_all add: len_utf8_def)
    have n: "str_len ?l < 128" "length ?l \<le> 128" using sl less.prems(1) len by simp_all
    have cnt: "count_ones (bits (marks (start_mark True) s) AND mask (str_len ?l)) = length ?l"
      using marks_first_line [OF True, of "start_mark True"] counts(1) [of ?l] n by (simp add: bits_low)
    have shl: "checked_shl (1 :: u128) (str_len ?l) = Some (push_bit (str_len ?l) 1)" using n by (simp add: checked_shl_def)
    have row: "checked_add (of_nat r) (1 :: u32) = Some (of_nat (Suc r))"
      using less.prems(3) t(4) by (intro checked_add_one) simp
    have d: "drop_bit 1 (drop_bit (str_len ?l) (bits (newline_marks s))) = bits (newline_marks t)"
        "drop_bit 1 (drop_bit (str_len ?l) (bits (marks (start_mark True) s))) = bits (marks (start_mark True) t)"
      using drop_first_line [OF t(1)] less.prems(1) by simp_all
    let ?best = "if snd best < length ?l then (r, length ?l) else best"
    have "longest_row_loop (bits (newline_marks s)) (bits (marks (start_mark True) s)) total_chars (of_nat r)
          (of_nat (fst best)) (of_nat (snd best)) =
        longest_row_loop (bits (newline_marks t)) (bits (marks (start_mark True) t)) (total_chars + length ?l + 1) (of_nat (Suc r))
          (of_nat (fst ?best)) (of_nat (snd ?best))"
      using True less.prems n
      by (subst longest_row_loop.simps)
        (simp add: newline_bits_zero trailing_newlines shl low_mask cnt row d [simplified] row_chars row_chars_less Let_def
          del: of_nat_Suc push_bit_of_1)
    also have "\<dots> = (case best_row (Suc r) ?best (longest_line t) of (i, m) \<Rightarrow>
        Some ((of_nat i, of_nat m), total_chars + length ?l + 1 + length t))"
      using sl less.prems t(4) n by (intro less.IH) (simp_all split: if_split)
    finally show ?thesis using best_row_Cons [OF t(3)] sl(2) by (simp add: add.assoc)
  qed
qed

lemma chunk_longest_row_correct:
  assumes "str_len s \<le> 128"
  shows "chunk_longest_row (chunk_of s) =
    Some ((longest_row (summary_of s), longest_row_chars (summary_of s)), ts_chars (summary_of s))"
proof -
  have z: "snd (longest_line s) = 0 \<Longrightarrow> fst (longest_line s) = 0"
    by (cases "split_lines s") (auto simp: longest_line_def split: prod.splits if_splits)
  have "rows s < 2 ^ 32" using line_bounds(3) [of s] assms by simp
  then show ?thesis
    using longest_row_loop_correct [of s "(0, 0)" 0 0] assms z
    by (cases "longest_line s") (auto simp: chunk_longest_row_def chunk_of_def summary_of_def best_row_def)
qed

lemma chunk_text_summary_correct: "str_len s \<le> 128 \<Longrightarrow> chunk_text_summary (chunk_of s) = Some (summary_of s)"
  by (simp add: chunk_text_summary_def chunk_longest_row_correct chunk_lines_correct chunk_first_line_correct
      chunk_last_line_correct) (simp add: chunk_len_def chunk_len_utf16_def chunk_of_def summary_of_def counts)

subsection \<open>Offsets to positions\<close>

lemma marks_prefix:
  assumes "\<And>c. length (f c) = len_utf8 c"
  shows "bits (marks f (s @ t)) AND (push_bit (str_len s) 1 - 1) = bits (marks f s)"
proof -
  have "length (marks f s) = str_len s" using assms by (induction s) simp_all
  then show ?thesis by (simp add: low_mask bits_low del: push_bit_of_1)
qed

lemma chunk_offset_correct:
  assumes "str_len s \<le> 128"
  shows "chunk_offset_to_point (chunk_of (s @ t)) (str_len s) = Some (ts_lines (summary_of s))"
    "chunk_offset_to_offset_utf16 (chunk_of (s @ t)) (str_len s) = OffsetUtf16 (utf16_len s)"
    "chunk_offset_to_point_utf16 (chunk_of (s @ t)) (str_len s) = Some (lines_utf16 (summary_of s))"
proof -
  note p = marks_prefix [of "start_mark True" s t] marks_prefix [of utf16_mark s t]
    marks_prefix [of "\<lambda>c. start_mark (c = 10) c" s t]
  show "chunk_offset_to_point (chunk_of (s @ t)) (str_len s) = Some (ts_lines (summary_of s))"
    using assms p line_bounds(2) [of s]
    by (simp add: chunk_offset_to_point_def chunk_of_def leading_newlines counts summary_of_def checked_sub_def Let_def
        del: push_bit_of_1 marks_simps)
  show "chunk_offset_to_offset_utf16 (chunk_of (s @ t)) (str_len s) = OffsetUtf16 (utf16_len s)"
    using assms p by (simp add: chunk_offset_to_offset_utf16_def chunk_of_def counts del: push_bit_of_1 marks_simps)
  let ?j = "str_len s - str_len (last_line s)"
  have "count_ones (drop_bit ?j (bits (marks utf16_mark s))) = utf16_len (last_line s)"
    using assms marks_last_line [of utf16_mark s] counts(2) [of "last_line s"] line_bounds(2) [of s]
    by (simp add: bits_drop length_marks)
  moreover have "?j = 128 \<Longrightarrow> utf16_len (last_line s) = 0" using assms line_bounds(2) [of s] utf16_le_str_len [of "last_line s"] by simp
  moreover have "?j \<le> 128" "128 - (128 - str_len s + str_len (last_line s)) = ?j" using assms line_bounds(2) [of s] by simp_all
  ultimately show "chunk_offset_to_point_utf16 (chunk_of (s @ t)) (str_len s) = Some (lines_utf16 (summary_of s))"
    using assms p
    by (auto simp add: chunk_offset_to_point_utf16_def chunk_of_def leading_newlines counts summary_of_def lines_utf16_def
        saturating_shl_mask_def checked_shr_def MAX_BASE_def Let_def simp del: push_bit_of_1 marks_simps)
qed

subsection \<open>Character boundaries\<close>

definition boundary :: "rchar list \<Rightarrow> nat \<Rightarrow> bool" where
  "boundary s i \<longleftrightarrow> (\<exists>u v. s = u @ v \<and> i = str_len u)"

lemma boundary_Nil [simp]: "boundary [] i \<longleftrightarrow> i = 0"
  by (auto simp: boundary_def)

lemma boundary_Cons: "boundary (c # s) i \<longleftrightarrow> i = 0 \<or> len_utf8 c \<le> i \<and> boundary s (i - len_utf8 c)"
proof
  assume "boundary (c # s) i"
  then obtain u v where uv: "c # s = u @ v" "i = str_len u" by (auto simp: boundary_def)
  then show "i = 0 \<or> len_utf8 c \<le> i \<and> boundary s (i - len_utf8 c)"
    by (cases u) (auto simp: boundary_def)
next
  assume "i = 0 \<or> len_utf8 c \<le> i \<and> boundary s (i - len_utf8 c)"
  then show "boundary (c # s) i"
  proof
    assume "len_utf8 c \<le> i \<and> boundary s (i - len_utf8 c)"
    then obtain u v where "s = u @ v" "i = str_len (c # u)" by (auto simp: boundary_def)
    then show ?thesis by (metis append_Cons boundary_def)
  qed (auto simp: boundary_def intro: exI [of _ "[]"])
qed

lemma boundary_le: "boundary s i \<Longrightarrow> i \<le> str_len s"
  by (auto simp: boundary_def)

lemma boundary_ends: "boundary s 0" "boundary s (str_len s)"
  by (auto simp: boundary_def intro: exI [of _ "[]"])

lemma boundary_marks: "i < str_len s \<Longrightarrow> marks (start_mark True) s ! i \<longleftrightarrow> boundary s i"
proof (induction s arbitrary: i)
  case (Cons c s)
  show ?case
  proof (cases "i < len_utf8 c")
    case True
    then show ?thesis by (cases i) (auto simp: nth_append boundary_Cons start_mark_def)
  next
    case False
    with Cons show ?thesis using len_utf8_pos(1) [of c] by (auto simp: nth_append boundary_Cons)
  qed
qed simp

lemma chunk_is_char_boundary_correct:
  assumes "str_len s \<le> 128"
  shows "chunk_is_char_boundary (chunk_of s) i \<longleftrightarrow> boundary s i"
proof -
  have "(push_bit i 1 AND w \<noteq> 0) = bit w i" for w :: u128
    by (metis and.commute bit_iff_and_push_bit_not_eq_0)
  then have "chunk_is_char_boundary (chunk_of s) i \<longleftrightarrow> i < str_len s \<and> boundary s i \<or> i = str_len s"
    using assms boundary_marks [of i s]
    by (auto simp: chunk_is_char_boundary_def chunk_of_def bit_bits length_marks simp del: push_bit_of_1)
  then show ?thesis using boundary_le [of s i] boundary_ends(2) [of s] by auto
qed

lemma encode_nth_boundary:
  assumes "valid_str s" "i < str_len s"
  shows "is_utf8_char_boundary (encode s ! i) \<longleftrightarrow> boundary s i"
  using arg_cong [OF encode_marks(1) [OF assms(1)], of "\<lambda>xs. xs ! i"] boundary_marks [OF assms(2)] assms(2) by simp

lemma floor_loop_correct:
  assumes "valid_str s" "i < str_len s"
  shows "floor_loop (encode s) i \<le> i \<and> boundary s (floor_loop (encode s) i) \<and>
    (\<forall>j. floor_loop (encode s) i < j \<and> j \<le> i \<longrightarrow> \<not> boundary s j)"
  using assms(2)
proof (induction i)
  case (Suc i)
  then show ?case using encode_nth_boundary [OF assms(1) Suc.prems] by (auto simp: le_Suc_eq)
qed (auto simp: boundary_ends)

lemma chunk_floor_correct:
  assumes "valid_str s"
  shows "chunk_floor_char_boundary (chunk_of s) i \<le> i" "boundary s (chunk_floor_char_boundary (chunk_of s) i)"
    "boundary s j \<Longrightarrow> j \<le> i \<Longrightarrow> j \<le> chunk_floor_char_boundary (chunk_of s) i"
  using floor_loop_correct [OF assms, of i] boundary_ends [of s] boundary_le [of s j]
  by (auto simp: chunk_floor_char_boundary_def chunk_of_def not_le [symmetric])

section \<open>Theorems\<close>

text \<open>C18. The bitmaps are built and maintained correctly: a chunk made from the UTF-8 bytes of a text of at
  most 128 bytes has the bitmaps that describe it, pushing or prepending a text gives the chunk of the
  concatenation, splitting at the end of a prefix gives the two parts; and more than 128 bytes panic.\<close>

theorem chunk_build_correct:
  assumes "valid_str s" "valid_str t" "str_len s + str_len t \<le> MAX_BASE"
  shows "chunk_new (encode s) = Some (chunk_of s) \<and>
    chunk_push_str (chunk_of s) (encode t) = Some (chunk_of (s @ t)) \<and>
    chunk_prepend_str (chunk_of s) (encode t) = Some (chunk_of (t @ s)) \<and>
    chunk_split_at (chunk_of (s @ t)) (str_len s) = Some (chunk_of s, chunk_of t) \<and>
    (MAX_BASE < length bytes \<longrightarrow> chunk_new bytes = None)"
proof -
  have "MAX_BASE < length bytes \<longrightarrow> chunk_new bytes = None" by (simp add: chunk_new_def rust_assert_def)
  with assms chunk_new_correct [of s] chunk_new_correct [of t] chunk_append_correct [of s t] chunk_prepend_correct [of t s]
    chunk_split_at_correct [of t s]
  show ?thesis by (simp add: chunk_push_str_def chunk_prepend_str_def MAX_BASE_def)
qed

theorem chunk_build_correct_witness:
  "chunk_push_str (chunk_of [104, 10]) (encode [0x1F600, 9]) = Some (chunk_of [104, 10, 0x1F600, 9])"
  using chunk_build_correct [of "[104, 10]" "[0x1F600, 9]"]
  by (simp add: valid_str_def valid_char_def MAX_BASE_def len_utf8_def)

text \<open>C19. Summarising a chunk by counting bits gives the summary that \<open>TextSummary::from\<close> computes character by
  character: lengths, lines, first, last and longest row.\<close>

theorem chunk_summary_correct:
  assumes "valid_str s" "str_len s \<le> MAX_BASE"
  shows "Option.bind (chunk_new (encode s)) chunk_text_summary = text_summary_from s"
  using assms chunk_new_correct [of s] chunk_text_summary_correct [of s] text_summary_from_correct [of s]
  by (simp add: MAX_BASE_def)

theorem chunk_summary_correct_witness:
  "Option.bind (chunk_new (encode [104, 10, 0x1F600, 233, 10])) chunk_text_summary = text_summary_from [104, 10, 0x1F600, 233, 10]"
  using chunk_summary_correct [of "[104, 10, 0x1F600, 233, 10]"]
  by (simp add: valid_str_def valid_char_def MAX_BASE_def len_utf8_def)

text \<open>In a chunk, the offset of the end of a prefix converts to the position, the UTF-16 offset and the UTF-16
  position of the end of that prefix; an offset is a character boundary exactly when it ends a prefix, and
  \<open>floor_char_boundary\<close> is the last boundary at or before it.\<close>

theorem chunk_positions_correct:
  assumes "valid_str (s @ t)" "str_len (s @ t) \<le> MAX_BASE"
  shows "chunk_offset_to_point (chunk_of (s @ t)) (str_len s) = Some (parse_str s) \<and>
    chunk_offset_to_offset_utf16 (chunk_of (s @ t)) (str_len s) = OffsetUtf16 (utf16_len s) \<and>
    chunk_offset_to_point_utf16 (chunk_of (s @ t)) (str_len s) = Some (lines_utf16 (summary_of s)) \<and>
    (chunk_is_char_boundary (chunk_of (s @ t)) k \<longleftrightarrow> boundary (s @ t) k) \<and>
    (let f = chunk_floor_char_boundary (chunk_of (s @ t)) i
     in f \<le> i \<and> boundary (s @ t) f \<and> (\<forall>j. boundary (s @ t) j \<and> j \<le> i \<longrightarrow> j \<le> f))"
proof -
  note f = chunk_floor_correct [OF assms(1)]
  show ?thesis using assms(2) chunk_offset_correct [of s t] chunk_is_char_boundary_correct [of "s @ t"] f
    by (simp add: MAX_BASE_def parse_str_lines)
qed

theorem chunk_positions_correct_witness:
  "chunk_offset_to_point (chunk_of [104, 10, 0x1F600, 233]) 6 = Some (Point 1 4)"
  using chunk_positions_correct [of "[104, 10, 0x1F600]" "[233]"]
  by (simp add: valid_str_def valid_char_def MAX_BASE_def len_utf8_def parse_str_def NEWLINE_def)

end
