(* ===== verification/NthSetBit.thy ===== *)
theory NthSetBit
  imports Chunk_Correct
begin

text \<open>
  Selection of a set bit (\<open>crates/rope/src/chunk.rs\<close>: \<open>nth_set_bit\<close>, \<open>nth_set_bit_u64\<close>): the position of the \<open>n\<close>-th bit
  that is set, found without branches by adding up neighbouring counts in fields of two, four, eight and sixteen bits and
  then descending through the halves of the word.

  A word is described by the list of its fields of one width, \<open>join w xs\<close>; masking, shifting and adding become list
  operations because no field overflows into the next.
\<close>

section \<open>Model\<close>

definition word_sub :: "'a::len word \<Rightarrow> 'a word \<Rightarrow> 'a word option" where
  "word_sub a b = (if b \<le> a then Some (a - b) else None)"

text \<open>\<open>u64::reverse_bits\<close>.\<close>

definition reverse_bits :: "u64 \<Rightarrow> u64" where
  "reverse_bits v = horner_sum of_bool 2 (rev (map (bit v) [0..<64]))"

text \<open>One step of the selection: when the upper half of the block has fewer than \<open>n\<close> bits, go to the lower half.\<close>

definition select_step :: "nat \<Rightarrow> u64 \<Rightarrow> u64 \<times> u64 \<Rightarrow> (u64 \<times> u64) option" where
  "select_step k t = (\<lambda>(s, n). do {
     s' \<leftarrow> word_sub s (drop_bit k ((t - n) AND 256));
     n' \<leftarrow> word_sub n (t AND drop_bit 8 (t - n));
     Some (s', n')
   })"

definition select_field :: "u64 \<Rightarrow> nat \<Rightarrow> u64 \<Rightarrow> nat \<Rightarrow> u64 \<times> u64 \<Rightarrow> (u64 \<times> u64) option" where
  "select_field w width m k sn = do {
     shift \<leftarrow> word_sub (fst sn) (of_nat width);
     field \<leftarrow> checked_shr w (unat shift);
     select_step k (field AND m) sn
   }"

definition nth_set_bit_u64 :: "u64 \<Rightarrow> u64 \<Rightarrow> u64 option" where
  "nth_set_bit_u64 v0 n = do {
     let v = reverse_bits v0;
     a \<leftarrow> word_sub v (drop_bit 1 v AND (- 1 div 3));
     b \<leftarrow> checked_add (a AND (- 1 div 5)) (drop_bit 2 a AND (- 1 div 5));
     c4 \<leftarrow> checked_add b (drop_bit 4 b);
     let c = c4 AND (- 1 div 0x11);
     d8 \<leftarrow> checked_add c (drop_bit 8 c);
     let d = d8 AND (- 1 div 0x101);
     t \<leftarrow> checked_add (drop_bit 32 d) (drop_bit 48 d);
     sn \<leftarrow> select_step 3 t (64, n);
     sn \<leftarrow> select_field d 16 0xff 4 sn;
     sn \<leftarrow> select_field c 8 0xf 5 sn;
     sn \<leftarrow> select_field b 4 0x7 6 sn;
     sn \<leftarrow> select_field a 2 0x3 7 sn;
     (s, _) \<leftarrow> (do {
       shift \<leftarrow> word_sub (fst sn) 1;
       field \<leftarrow> checked_shr v (unat shift);
       s \<leftarrow> word_sub (fst sn) (drop_bit 8 (((field AND 1) - snd sn) AND 256));
       Some (s, snd sn)
     });
     r \<leftarrow> word_sub 65 s;
     word_sub r 1
   }"

definition nth_set_bit :: "u128 \<Rightarrow> nat \<Rightarrow> nat option" where
  "nth_set_bit v n =
     (let low = (ucast v :: u64);
          high = (ucast (drop_bit 64 v) :: u64);
          low_count = count_ones low
      in if n > low_count then map_option (\<lambda>i. 64 + unat i) (nth_set_bit_u64 high (of_nat (n - low_count)))
         else map_option unat (nth_set_bit_u64 low (of_nat n)))"

section \<open>Fields\<close>

definition join :: "nat \<Rightarrow> nat list \<Rightarrow> nat" where
  "join w xs = horner_sum id (2 ^ w) xs"

definition fits :: "nat \<Rightarrow> nat list \<Rightarrow> bool" where
  "fits w xs \<longleftrightarrow> (\<forall>x \<in> set xs. x < 2 ^ w)"

fun pair :: "(nat \<Rightarrow> nat \<Rightarrow> nat) \<Rightarrow> nat list \<Rightarrow> nat list" where
  "pair f (x # y # xs) = f x y # pair f xs"
| "pair f _ = []"

lemma join_simps [simp]: "join w [] = 0" "join w (x # xs) = x + 2 ^ w * join w xs"
  by (simp_all add: join_def)

lemma fits_simps [simp]: "fits w []" "fits w (x # xs) \<longleftrightarrow> x < 2 ^ w \<and> fits w xs"
  by (simp_all add: fits_def)

lemma join_append_zero: "join w (xs @ [0]) = join w xs"
  by (induction xs) simp_all

lemma join_div: "fits w (x # xs) \<Longrightarrow> join w (x # xs) div 2 ^ w = join w xs"
  by simp

lemma join_bound: "fits w xs \<Longrightarrow> join w xs < 2 ^ (w * length xs)"
proof (induction xs)
  case (Cons x xs)
  then have "join w xs + 1 \<le> 2 ^ (w * length xs)" "x < 2 ^ w" by simp_all
  then have "2 ^ w * (join w xs + 1) \<le> 2 ^ w * 2 ^ (w * length xs)" by (intro mult_le_mono2)
  with \<open>x < 2 ^ w\<close> show ?case by (simp add: power_add)
qed simp

lemma join_nth: "fits w xs \<Longrightarrow> i < length xs \<Longrightarrow> join w xs div 2 ^ (w * i) mod 2 ^ w = xs ! i"
proof (induction xs arbitrary: i)
  case (Cons x xs)
  show ?case
  proof (cases i)
    case (Suc j)
    have "join w (x # xs) div 2 ^ (w * i) = join w xs div 2 ^ (w * j)"
      using join_div [OF Cons.prems(1)] by (simp add: Suc power_add div_mult2_eq)
    with Cons Suc show ?thesis by simp
  qed (use Cons in simp)
qed simp

lemma join_add: "length xs = length ys \<Longrightarrow> join w xs + join w ys = join w (map2 (+) xs ys)"
proof (induction xs ys rule: list_induct2)
  case (Cons x xs y ys)
  show ?case by (simp add: Cons.IH [symmetric] distrib_left)
qed simp

lemma join_sub:
  "length xs = length ys \<Longrightarrow> list_all2 (\<le>) ys xs \<Longrightarrow> join w xs - join w ys = join w (map2 (-) xs ys) \<and> join w ys \<le> join w xs"
proof (induction xs ys rule: list_induct2)
  case (Cons x xs y ys)
  then have "join w ys \<le> join w xs" "y \<le> x" "join w xs - join w ys = join w (map2 (-) xs ys)" by simp_all
  moreover from this(1) obtain k where "join w xs = join w ys + k" by (metis le_iff_add)
  ultimately show ?case by (simp add: algebra_simps)
qed simp

lemma pair_fits: "fits w xs \<Longrightarrow> fits w (pair (\<lambda>x y. x) xs) \<and> fits w (pair (\<lambda>x y. y) xs)"
  by (induction "\<lambda>x (y::nat). x :: nat" xs rule: pair.induct) simp_all

lemma split_or: "a < 2 ^ w \<Longrightarrow> a + 2 ^ w * b = a OR push_bit w b" for a b :: nat
proof -
  assume a: "a < 2 ^ w"
  have "a AND push_bit w b = 0"
  proof (rule bit_eqI)
    fix m
    show "bit (a AND push_bit w b) m \<longleftrightarrow> bit 0 m"
      using a bit_take_bit_iff [of w a m] by (auto simp: bit_simps take_bit_nat_eq_self)
  qed
  then show ?thesis by (simp add: push_bit_eq_mult mult.commute flip: disjunctive_add_eq_or)
qed

lemma and_fields:
  "x < 2 ^ w \<Longrightarrow> m < 2 ^ w \<Longrightarrow> (x + 2 ^ w * y) AND (m + 2 ^ w * z) = (x AND m) + 2 ^ w * (y AND z)" for x y z :: nat
proof -
  assume x: "x < 2 ^ w" and m: "m < 2 ^ w"
  have hi: "\<not> bit x n" "\<not> bit m n" if "w \<le> n" for n
    using that x m bit_take_bit_iff [of w x n] bit_take_bit_iff [of w m n] by (auto simp: take_bit_nat_eq_self)
  have "x AND m = take_bit w (x AND m)" using x m by (simp add: take_bit_nat_eq_self)
  then have xm: "x AND m < 2 ^ w" by (metis take_bit_nat_less_exp)
  show ?thesis unfolding split_or [OF x] split_or [OF m] split_or [OF xm]
    by (rule bit_eqI) (use hi in \<open>auto simp: bit_simps\<close>)
qed

lemma and_ones: "x < 2 ^ w \<Longrightarrow> x AND (2 ^ w - 1) = x" for x :: nat
  using take_bit_eq_mask [of w x] by (simp add: take_bit_nat_eq_self mask_eq_exp_minus_1)

abbreviation even_mask :: "nat \<Rightarrow> nat \<Rightarrow> nat" where
  "even_mask w k \<equiv> join (2 * w) (replicate k (2 ^ w - 1))"

lemma join_even_mask:
  "fits w xs \<Longrightarrow> length xs = 2 * k \<Longrightarrow> join w xs AND even_mask w k = join (2 * w) (pair (\<lambda>x y. x) xs)"
proof (induction k arbitrary: xs)
  case (Suc k)
  then obtain x y ys where xs: "xs = x # y # ys" "length ys = 2 * k" by (auto simp: length_Suc_conv)
  have p: "2 ^ (2 * w) = (2 ^ w * 2 ^ w :: nat)" by (simp add: mult_2 power_add)
  have "join w xs AND even_mask w (Suc k) = (x + 2 ^ w * (y + 2 ^ w * join w ys)) AND (2 ^ w - 1 + 2 ^ w * (0 + 2 ^ w * even_mask w k))"
    by (simp add: xs p mult.assoc)
  also have "\<dots> = x + 2 ^ w * (0 + 2 ^ w * (join w ys AND even_mask w k))"
  proof -
    have "(y + 2 ^ w * join w ys) AND (0 + 2 ^ w * even_mask w k) = (y AND 0) + 2 ^ w * (join w ys AND even_mask w k)"
      by (rule and_fields) (use Suc.prems(1) xs(1) in simp_all)
    moreover have "(x + 2 ^ w * u) AND (2 ^ w - 1 + 2 ^ w * v) = (x AND (2 ^ w - 1)) + 2 ^ w * (u AND v)" for u v
      by (rule and_fields) (use Suc.prems(1) xs(1) in simp_all)
    moreover have "x AND (2 ^ w - 1) = x" using Suc.prems(1) xs(1) by (intro and_ones) simp
    ultimately show ?thesis by simp
  qed
  also have "\<dots> = join (2 * w) (pair (\<lambda>x y. x) xs)" using Suc.IH [of ys] Suc.prems(1) xs by (simp add: p mult.assoc)
  finally show ?case .
qed simp

lemma pair_snd: "length xs = 2 * k \<Longrightarrow> pair (\<lambda>x y. x) (tl xs @ [0]) = pair (\<lambda>x y. y) xs"
proof (induction k arbitrary: xs)
  case (Suc k)
  then obtain x y ys where xs: "xs = x # y # ys" "length ys = 2 * k" by (auto simp: length_Suc_conv)
  then show ?case using Suc.IH [of ys] by (cases ys) auto
qed simp

lemma join_odd_mask:
  assumes "fits w xs" "length xs = 2 * k"
  shows "(join w xs div 2 ^ w) AND even_mask w k = join (2 * w) (pair (\<lambda>x y. y) xs)"
proof (cases xs)
  case (Cons x ys)
  have "join w xs div 2 ^ w = join w (tl xs @ [0])" using assms(1) join_div [of w x ys] Cons by (simp add: join_append_zero)
  moreover have "fits w (tl xs @ [0])" "length (tl xs @ [0]) = 2 * k" using assms Cons by (auto simp: fits_def)
  ultimately show ?thesis using join_even_mask [of w "tl xs @ [0]" k] pair_snd [OF assms(2)] by simp
qed (use assms in simp)

lemma length_pair: "length xs = 2 * k \<Longrightarrow> length (pair f xs) = k"
proof (induction k arbitrary: xs)
  case (Suc k)
  then obtain x y ys where "xs = x # y # ys" "length ys = 2 * k" by (auto simp: length_Suc_conv)
  with Suc.IH show ?case by simp
qed simp

lemma pair_nth: "length xs = 2 * k \<Longrightarrow> i < k \<Longrightarrow> pair f xs ! i = f (xs ! (2 * i)) (xs ! (2 * i + 1))"
proof (induction k arbitrary: xs i)
  case (Suc k)
  then obtain x y ys where "xs = x # y # ys" "length ys = 2 * k" by (auto simp: length_Suc_conv)
  with Suc show ?case by (cases i) auto
qed simp

lemma pair_map2: "length xs = 2 * k \<Longrightarrow> map2 (+) (pair (\<lambda>x y. x) xs) (pair (\<lambda>x y. y) xs) = pair (+) xs"
proof (induction k arbitrary: xs)
  case (Suc k)
  then obtain x y ys where "xs = x # y # ys" "length ys = 2 * k" by (auto simp: length_Suc_conv)
  with Suc.IH show ?case by simp
qed simp

text \<open>The two ways in which counts of neighbouring fields are added.\<close>

lemma add_masked:
  assumes "fits w xs" "length xs = 2 * k"
  shows "(join w xs AND even_mask w k) + ((join w xs div 2 ^ w) AND even_mask w k) = join (2 * w) (pair (+) xs)"
  using join_even_mask [OF assms] join_odd_mask [OF assms] join_add [of "pair (\<lambda>x y. x) xs" "pair (\<lambda>x y. y) xs" "2 * w"]
    length_pair [OF assms(2)] pair_map2 [OF assms(2)] by simp

lemma add_then_mask:
  assumes "\<forall>x \<in> set xs. 2 * x < 2 ^ w" "length xs = 2 * k"
  shows "(join w xs + join w xs div 2 ^ w) AND even_mask w k = join (2 * w) (pair (+) xs)"
    "join w xs + join w xs div 2 ^ w < 2 ^ (w * length xs)"
proof -
  have f: "fits w xs" using assms(1) by (auto simp: fits_def)
  let ?ys = "map2 (+) xs (tl xs @ [0])"
  have len: "length ?ys = 2 * k" if "k \<noteq> 0" using assms(2) that by simp
  have j: "join w xs + join w xs div 2 ^ w = join w ?ys"
  proof (cases xs)
    case (Cons x zs)
    then show ?thesis using join_div [of w x zs] f join_add [of xs "tl xs @ [0]" w] by (simp add: join_append_zero)
  qed simp
  have "x + y < 2 ^ w" if "x \<in> set xs" "y \<in> set (tl xs @ [0])" for x y
  proof -
    have "2 * y < 2 ^ w" using that(2) assms(1) list.set_sel(2) [of xs y] by (cases xs) auto
    with that(1) assms(1) show ?thesis by fastforce
  qed
  then have fy: "fits w ?ys" unfolding fits_def by (force dest: set_zip_leftD set_zip_rightD)
  have "pair (\<lambda>x y. x) ?ys = pair (+) xs" using assms(2)
  proof (induction k arbitrary: xs)
    case (Suc k)
    then obtain x y ys where xs: "xs = x # y # ys" "length ys = 2 * k" by (auto simp: length_Suc_conv)
    then show ?case using Suc.IH [of ys] by (cases ys) auto
  qed simp
  moreover have "length ?ys = 2 * k" using assms(2) by (cases xs) auto
  ultimately show "(join w xs + join w xs div 2 ^ w) AND even_mask w k = join (2 * w) (pair (+) xs)"
    using join_even_mask [OF fy] j by simp
  show "join w xs + join w xs div 2 ^ w < 2 ^ (w * length xs)" using join_bound [OF fy] \<open>length ?ys = 2 * k\<close> assms(2) j by simp
qed

section \<open>Counts of blocks\<close>

definition ones_in :: "'a::len word \<Rightarrow> nat \<Rightarrow> nat \<Rightarrow> nat" where
  "ones_in v a b = (\<Sum>j = a..<b. of_bool (bit v j))"

definition blocks :: "u64 \<Rightarrow> nat \<Rightarrow> nat list" where
  "blocks v w = map (\<lambda>i. ones_in v (w * i) (w * i + w)) [0..<64 div w]"

lemma ones_in_split: "a \<le> b \<Longrightarrow> b \<le> c \<Longrightarrow> ones_in v a c = ones_in v a b + ones_in v b c"
  unfolding ones_in_def by (rule sum.atLeastLessThan_concat [symmetric])

lemma ones_in_le: "ones_in v a b \<le> b - a"
proof -
  have "ones_in v a b \<le> (\<Sum>j = a..<b. 1)" unfolding ones_in_def by (rule sum_mono) simp
  then show ?thesis by simp
qed

lemma length_blocks [simp]: "length (blocks v w) = 64 div w"
  by (simp add: blocks_def)

lemma nth_blocks: "i < 64 div w \<Longrightarrow> blocks v w ! i = ones_in v (w * i) (w * i + w)"
  by (simp add: blocks_def)

lemma blocks_le: "x \<in> set (blocks v w) \<Longrightarrow> x \<le> w"
  using ones_in_le [of v "w * i" "w * i + w" for i] by (auto simp: blocks_def)

lemma pair_blocks: "64 div w = 2 * k \<Longrightarrow> 64 div (2 * w) = k \<Longrightarrow> pair (+) (blocks v w) = blocks v (2 * w)"
proof (rule nth_equalityI)
  assume k: "64 div w = 2 * k" "64 div (2 * w) = k"
  then show "length (pair (+) (blocks v w)) = length (blocks v (2 * w))" by (simp add: length_pair [of _ k])
  fix i assume "i < length (pair (+) (blocks v w))"
  then have i: "i < k" using k by (simp add: length_pair [of _ k])
  then have "pair (+) (blocks v w) ! i = ones_in v (w * (2 * i)) (w * (2 * i) + w) + ones_in v (w * (2 * i + 1)) (w * (2 * i + 1) + w)"
    using k by (simp add: pair_nth [of _ k] nth_blocks)
  also have "\<dots> = ones_in v (2 * w * i) (2 * w * i + 2 * w)"
    using ones_in_split [of "2 * w * i" "2 * w * i + w" "2 * w * i + 2 * w" v] by (simp add: algebra_simps)
  finally show "pair (+) (blocks v w) ! i = blocks v (2 * w) ! i" using i k by (simp add: nth_blocks)
qed

lemma blocks_one: "blocks v 1 = map (of_bool \<circ> bit v) [0..<64]"
  by (simp add: blocks_def ones_in_def)

lemma join_of_bool: "join 1 (map of_bool bs) = horner_sum of_bool 2 bs"
  by (induction bs) simp_all

lemma join_blocks_one: "unat v = join 1 (blocks v 1)"
proof -
  have "unat v = horner_sum of_bool 2 (map (bit v) [0..<64])"
  proof (rule bit_eqI)
    fix n
    have "bit v n \<Longrightarrow> n < 64" using bit_imp_le_length [of v n] by simp
    then show "bit (unat v) n = bit (horner_sum of_bool 2 (map (bit v) [0..<64]) :: nat) n"
      by (auto simp: bit_horner_sum_bit_iff bit_unsigned_iff)
  qed
  also have "\<dots> = join 1 (blocks v 1)" unfolding blocks_one join_of_bool [symmetric] by simp
  finally show ?thesis .
qed

section \<open>Counting in parallel\<close>

lemma replicate_unfold: "replicate (numeral k) x = x # replicate (pred_numeral k) x"
  by (simp add: numeral_eq_Suc)

lemma masks:
  "unat (- 1 div 3 :: u64) = even_mask 1 32" "unat (- 1 div 5 :: u64) = even_mask 2 16"
  "unat (- 1 div 0x11 :: u64) = even_mask 4 8" "unat (- 1 div 0x101 :: u64) = even_mask 8 4"
  by (simp_all add: unat_div replicate_unfold)

lemma unat_and: "unat (a AND b) = unat a AND unat b"
  by (rule unsigned_and_eq)

lemma unat_shift: "unat (drop_bit k v) = unat v div 2 ^ k"
  by (subst unat_drop_bit_eq) (rule drop_bit_eq_div)

lemma join_pairs: "length xs = 2 * k \<Longrightarrow> join w xs = join (2 * w) (pair (\<lambda>x y. x + 2 ^ w * y) xs)"
proof (induction k arbitrary: xs)
  case (Suc k)
  then obtain x y ys where "xs = x # y # ys" "length ys = 2 * k" by (auto simp: length_Suc_conv)
  with Suc.IH [of ys] show ?case by (simp add: mult_2 power_add distrib_left mult.assoc)
qed simp

lemma pair_le_weighted: "length xs = 2 * k \<Longrightarrow> list_all2 (\<le>) (pair (\<lambda>x y. y) xs) (pair (\<lambda>x y. x + 2 * y) xs)
    \<and> map2 (-) (pair (\<lambda>x y. x + 2 * y) xs) (pair (\<lambda>x y. y) xs) = pair (+) xs"
proof (induction k arbitrary: xs)
  case (Suc k)
  then obtain x y ys where "xs = x # y # ys" "length ys = 2 * k" by (auto simp: length_Suc_conv)
  with Suc.IH [of ys] show ?case by simp
qed simp

lemma count_pairs: "\<exists>a. word_sub v (drop_bit 1 v AND (- 1 div 3)) = Some a \<and> unat a = join 2 (blocks v 2)" for v :: u64
proof -
  let ?xs = "blocks v 1"
  have len: "length ?xs = 2 * 32" by simp
  have fits: "fits 1 ?xs" using blocks_le [of _ v 1] by (force simp: fits_def)
  have "unat (drop_bit 1 v AND (- 1 div 3)) = join 2 (pair (\<lambda>x y. y) ?xs)"
    using join_odd_mask [OF fits len] by (simp only: unat_and unat_shift masks join_blocks_one [of v]) simp
  moreover have "unat v = join 2 (pair (\<lambda>x y. x + 2 * y) ?xs)"
    using join_pairs [OF len, of 1] join_blocks_one [of v] by simp
  moreover have "join 2 (pair (\<lambda>x y. x + 2 * y) ?xs) - join 2 (pair (\<lambda>x y. y) ?xs) = join 2 (blocks v 2)
      \<and> join 2 (pair (\<lambda>x y. y) ?xs) \<le> join 2 (pair (\<lambda>x y. x + 2 * y) ?xs)"
    using join_sub [of "pair (\<lambda>x y. x + 2 * y) ?xs" "pair (\<lambda>x y. y) ?xs" 2] pair_le_weighted [OF len] length_pair [OF len]
      pair_blocks [of 1 32 v] by simp
  ultimately show ?thesis by (simp add: word_sub_def word_le_nat_alt unat_sub)
qed

lemma count_masked:
  fixes a m :: u64
  assumes a: "unat a = join w (blocks v w)" and w: "64 div w = 2 * k" "64 div (2 * w) = k" "2 * w < 2 ^ (2 * w)" "w < 2 ^ w"
      and size: "2 * w * k = 64" and m: "unat m = even_mask w k"
  shows "\<exists>b. checked_add (a AND m) (drop_bit w a AND m) = Some b \<and> unat b = join (2 * w) (blocks v (2 * w))"
proof -
  have fits: "fits w (blocks v w)" "fits (2 * w) (blocks v (2 * w))"
    unfolding fits_def using blocks_le w(3,4) by (blast intro: le_less_trans)+
  have sum: "unat (a AND m) + unat (drop_bit w a AND m) = join (2 * w) (blocks v (2 * w))"
    using add_masked [OF fits(1), of k] w(1) pair_blocks [OF w(1,2), of v] by (simp only: unat_and unat_shift a m) simp
  have e: "2 * w * length (blocks v (2 * w)) = 64" using w(2) size by simp
  have b: "checked_add (a AND m) (drop_bit w a AND m) = Some ((a AND m) + (drop_bit w a AND m))"
    using join_bound [OF fits(2)] unfolding checked_add_def sum e by simp
  from unat_checked_add [OF b] sum b show ?thesis by metis
qed

lemma count_then_mask:
  fixes a m :: u64
  assumes a: "unat a = join w (blocks v w)" and w: "64 div w = 2 * k" "64 div (2 * w) = k" "2 * w < 2 ^ w"
      and size: "2 * w * k = 64" and m: "unat m = even_mask w k"
  shows "\<exists>b. checked_add a (drop_bit w a) = Some b \<and> unat (b AND m) = join (2 * w) (blocks v (2 * w))"
proof -
  have "\<forall>x \<in> set (blocks v w). 2 * x < 2 ^ w" using blocks_le [of _ v w] w(3) by force
  note add = add_then_mask [OF this, of k]
  have e: "w * length (blocks v w) = 64" using w(1) size by simp
  have "unat a + unat (drop_bit w a) < 2 ^ 64" using add(2) w(1) unfolding e unat_shift a by simp
  then have b: "checked_add a (drop_bit w a) = Some (a + drop_bit w a)" by (simp add: checked_add_def)
  have "unat ((a + drop_bit w a) AND m) = join (2 * w) (blocks v (2 * w))"
    using add(1) w(1) pair_blocks [OF w(1,2), of v] by (simp add: unat_and unat_checked_add [OF b] unat_shift a m)
  with b show ?thesis by blast
qed

section \<open>Selection\<close>

text \<open>
  The subtraction \<open>t - n\<close> borrows from bit 8 upwards exactly when the count in the low byte of \<open>t\<close> is smaller than \<open>n\<close>. In the
  first step \<open>t\<close> also holds a count from bit 16 on.
\<close>

lemma no_borrow:
  fixes t n :: u64
  assumes t: "unat t = L + 256 * (256 * H)" and n: "unat n \<le> L" "L < 256" "H < 256"
  shows "unat ((t - n) AND 256) = 0" "unat (t AND drop_bit 8 (t - n)) = 0"
proof -
  have "unat n \<le> unat t" using t n by simp
  then have d: "unat (t - n) = (L - unat n) + 2 ^ 8 * (256 * H)" using t n(1) by (simp add: unat_sub word_le_nat_alt)
  have "unat ((t - n) AND 256) = ((L - unat n) + 2 ^ 8 * (256 * H)) AND (0 + 2 ^ 8 * 1)" by (simp add: unat_and d)
  also have "\<dots> = 2 ^ 8 * (256 * H mod 2)" by (subst and_fields) (use n in \<open>simp_all add: and_one_eq\<close>)
  finally show "unat ((t - n) AND 256) = 0" by simp
  have "unat (drop_bit 8 (t - n)) = 0 + 2 ^ 8 * H" unfolding unat_shift d using n by simp
  then have "unat (t AND drop_bit 8 (t - n)) = (L + 2 ^ 8 * (256 * H)) AND (0 + 2 ^ 8 * H)" by (simp add: unat_and t)
  also have "\<dots> = 2 ^ 8 * ((256 * H) AND H)" by (subst and_fields) (use n in simp_all)
  also have "(256 * H) AND H = (0 + 2 ^ 8 * H) AND (H + 2 ^ 8 * 0)" by simp
  also have "\<dots> = 0" by (subst and_fields) (use n in simp_all)
  finally show "unat (t AND drop_bit 8 (t - n)) = 0" by simp
qed

lemma borrow:
  fixes t n :: u64
  assumes t: "unat t = L + 256 * (256 * H)" and n: "L < unat n" "unat n < 256" "H < 256"
  shows "unat ((t - n) AND 256) = 256" "unat (t AND drop_bit 8 (t - n)) = L"
proof -
  let ?q = "if H = 0 then 2 ^ 56 - 1 else 255 + 2 ^ 8 * (H - 1) :: nat"
  have d: "unat (t - n) = (256 + L - unat n) + 2 ^ 8 * ?q"
  proof (cases "H = 0")
    case True
    then have "unat t < unat n" using t n by simp
    then show ?thesis using True t n by (simp add: unat_sub_if')
  next
    case False
    then have "unat n \<le> unat t" using t n by simp
    then show ?thesis using False t n by (simp add: unat_sub word_le_nat_alt algebra_simps)
  qed
  have q: "?q mod 2 = 1" by (simp add: mod_simps) presburger
  have lo: "256 + L - unat n < 2 ^ 8" using n by simp
  have "unat ((t - n) AND 256) = ((256 + L - unat n) + 2 ^ 8 * ?q) AND (0 + 2 ^ 8 * 1)" by (simp only: unat_and d) simp
  also have "\<dots> = 2 ^ 8 * (?q AND 1)" by (subst and_fields [OF lo]) simp_all
  finally show "unat ((t - n) AND 256) = 256" unfolding and_one_eq q by simp
  have "unat (drop_bit 8 (t - n)) = ?q" unfolding unat_shift d using lo by simp
  then have u: "unat (t AND drop_bit 8 (t - n)) = (L + 256 * (256 * H)) AND ?q" by (simp only: unat_and t)
  show "unat (t AND drop_bit 8 (t - n)) = L"
  proof (cases "H = 0")
    case True
    then show ?thesis using u and_ones [of L 56] n by simp
  next
    case False
    then have "(256 * H) AND (H - 1) = (0 + 2 ^ 8 * H) AND ((H - 1) + 2 ^ 8 * 0)" by simp
    also have "\<dots> = 0" by (subst and_fields) (use n in simp_all)
    finally have z: "(256 * H) AND (H - 1) = 0" .
    have "unat (t AND drop_bit 8 (t - n)) = (L + 2 ^ 8 * (256 * H)) AND (255 + 2 ^ 8 * (H - 1))" using u False by simp
    also have "\<dots> = (L AND 255) + 2 ^ 8 * ((256 * H) AND (H - 1))" by (rule and_fields) (use n in simp_all)
    also have "\<dots> = L" unfolding z using and_ones [of L 8] n by simp
    finally show ?thesis .
  qed
qed

lemma select_step_correct:
  fixes t n :: u64
  assumes t: "unat t = L + 256 * (256 * H)" and n: "L < 256" "unat n < 256" "H < 256" and k: "k \<le> 8" "2 ^ (8 - k) \<le> unat s"
  shows "\<exists>s' n'. select_step k t (s, n) = Some (s', n')
    \<and> unat s' = (if L < unat n then unat s - 2 ^ (8 - k) else unat s) \<and> unat n' = (if L < unat n then unat n - L else unat n)"
proof (cases "L < unat n")
  case True
  note b = borrow [OF t True n(2,3)]
  have "unat (drop_bit k ((t - n) AND 256)) = 2 ^ (8 - k)"
    unfolding unat_shift b using k(1) by (simp add: power_diff)
  then show ?thesis using True b(2) k by (simp add: select_step_def word_sub_def word_le_nat_alt unat_sub)
next
  case False
  note b = no_borrow [OF t _ n(1,3), of n]
  have "(t - n) AND 256 = 0" "t AND drop_bit 8 (t - n) = 0" using b False by (simp_all add: unat_eq_zero)
  then have "select_step k t (s, n) = Some (s, n)" by (simp only: select_step_def case_prod_conv drop_bit_of_0) (simp add: word_sub_def)
  with False show ?thesis by simp
qed

text \<open>The \<open>n\<close>-th bit, counted from the top, lies in the block of width \<open>w\<close> below position \<open>s\<close>.\<close>

definition in_block :: "u64 \<Rightarrow> nat \<Rightarrow> nat \<Rightarrow> u64 \<times> u64 \<Rightarrow> bool" where
  "in_block v n w = (\<lambda>(s, m). w dvd unat s \<and> w \<le> unat s \<and> unat s \<le> 64 \<and> 1 \<le> unat m
     \<and> unat m \<le> ones_in v (unat s - w) (unat s) \<and> ones_in v (unat s) 64 + unat m = n)"

lemma select_half:
  assumes b: "in_block v n (2 * w) (s, m)" and w: "w = 2 ^ (8 - k)" "k \<le> 8"
      and t: "unat t = ones_in v (unat s - w) (unat s) + 256 * (256 * H)" "H < 256"
  shows "\<exists>sm. select_step k t (s, m) = Some sm \<and> in_block v n w sm"
proof -
  let ?L = "ones_in v (unat s - w) (unat s)"
  have s: "2 * w dvd unat s" "2 * w \<le> unat s" "unat s \<le> 64" and m: "1 \<le> unat m" "unat m \<le> ones_in v (unat s - 2 * w) (unat s)"
    and n: "ones_in v (unat s) 64 + unat m = n" using b by (auto simp: in_block_def)
  have "?L \<le> 64" "unat m \<le> 64"
    using ones_in_le [of v "unat s - w" "unat s"] m(2) ones_in_le [of v "unat s - 2 * w" "unat s"] s by linarith+
  then obtain s' m' where step: "select_step k t (s, m) = Some (s', m')"
      and s': "unat s' = (if ?L < unat m then unat s - w else unat s)" and m': "unat m' = (if ?L < unat m then unat m - ?L else unat m)"
    using select_step_correct [OF t(1) _ _ t(2) w(2), of m s] w(1) s by auto
  have dvd: "w dvd unat s" using s(1) by (rule dvd_mult_right)
  have "in_block v n w (s', m')"
  proof (cases "?L < unat m")
    case True
    have "ones_in v (unat s - 2 * w) (unat s) = ones_in v (unat s - w - w) (unat s - w) + ?L"
      using ones_in_split [of "unat s - 2 * w" "unat s - w" "unat s" v] s by (simp add: mult_2)
    moreover have "ones_in v (unat s - w) 64 = ?L + ones_in v (unat s) 64"
      using ones_in_split [of "unat s - w" "unat s" 64 v] s by simp
    moreover have "w dvd unat s - w" using dvd s by (simp add: dvd_diff_nat)
    ultimately show ?thesis using True s' m' m n s unfolding in_block_def case_prod_conv by (intro conjI) (simp_all, linarith+)
  next
    case False
    then show ?thesis using s' m' m n s dvd by (simp add: in_block_def)
  qed
  with step show ?thesis by blast
qed

lemma field_at:
  assumes d: "unat d = join w (blocks v w)" and w: "w dvd s" "w \<le> s" "s \<le> 64" "w dvd 64" "w < 2 ^ b" "b \<le> w" "0 < w"
  shows "unat d div 2 ^ (s - w) mod 2 ^ b = ones_in v (s - w) s"
proof -
  from w(1,2,7) obtain i where i: "s = w * Suc i" by (metis dvdE le_zero_eq mult_0_right not0_implies_Suc less_not_refl)
  then have lt: "i < 64 div w" using w(3,4,7) by (metis Suc_le_lessD div_le_mono nonzero_mult_div_cancel_left less_not_refl)
  have le: "ones_in v (s - w) s \<le> w" using ones_in_le [of v "s - w" s] w(2) by simp
  have "fits w (blocks v w)" unfolding fits_def using blocks_le less_exp [of w] by (blast intro: le_less_trans)
  then have "join w (blocks v w) div 2 ^ (w * i) mod 2 ^ w = ones_in v (w * i) (w * i + w)"
    using join_nth [of w "blocks v w" i] lt by (simp add: nth_blocks)
  then have f: "unat d div 2 ^ (s - w) mod 2 ^ w = ones_in v (s - w) s" using d i by (simp add: add.commute)
  have "unat d div 2 ^ (s - w) mod 2 ^ b = unat d div 2 ^ (s - w) mod 2 ^ w mod 2 ^ b"
    using w(6) by (simp add: mod_mod_cancel le_imp_power_dvd)
  also have "\<dots> = ones_in v (s - w) s" unfolding f using le w(5) by simp
  finally show ?thesis .
qed

lemma select_field_correct:
  assumes "in_block v n (2 * w) sm" "w = 2 ^ (8 - k)" "k \<le> 8" "unat d = join w (blocks v w)" "w dvd 64" "w < 2 ^ b" "b \<le> w"
      and m: "unat m = 2 ^ b - 1"
  shows "\<exists>sm'. select_field d w m k sm = Some sm' \<and> in_block v n w sm'"
proof -
  obtain s x where sm: "sm = (s, x)" by fastforce
  have w: "0 < w" using assms(2) by simp
  have s: "w dvd unat s" "w \<le> unat s" "unat s \<le> 64" using assms(1) dvd_mult_right [of 2 w "unat s"] by (auto simp: in_block_def sm)
  have wu: "unat (of_nat w :: u64) = w" using s by (simp add: unat_of_nat)
  then have sh: "word_sub s (of_nat w) = Some (s - of_nat w)" "unat (s - of_nat w) = unat s - w"
    using s by (simp_all add: word_sub_def word_le_nat_alt unat_sub)
  let ?t = "drop_bit (unat s - w) d AND m"
  have "unat ?t = unat d div 2 ^ (unat s - w) mod 2 ^ b"
    unfolding unat_and unat_shift m by (metis take_bit_eq_mask mask_eq_exp_minus_1 take_bit_eq_mod)
  also have "\<dots> = ones_in v (unat s - w) (unat s)" by (rule field_at) (use assms s w in auto)
  finally have t: "unat ?t = ones_in v (unat s - w) (unat s) + 256 * (256 * 0)" by simp
  have "checked_shr d (unat (s - of_nat w)) = Some (drop_bit (unat s - w) d)"
    unfolding checked_shr_def sh using s w by simp
  then show ?thesis using select_half [of v n w s x k ?t 0] assms(1-3) t sh sm by (simp add: select_field_def)
qed

lemma first_half:
  assumes d: "unat d = join 16 (blocks v 16)" and n: "1 \<le> unat n" "unat n \<le> ones_in v 0 64"
  shows "\<exists>t sm. checked_add (drop_bit 32 d) (drop_bit 48 d) = Some t \<and> select_step 3 t (64, n) = Some sm \<and> in_block v (unat n) 32 sm"
proof -
  let ?f = "\<lambda>i. ones_in v (16 * i) (16 * i + 16)"
  have bs: "blocks v 16 = [?f 0, ?f 1, ?f 2, ?f 3]" by (simp add: blocks_def upt_rec)
  have f: "?f i \<le> 16" for i using ones_in_le [of v "16 * i" "16 * i + 16"] by simp
  have fit: "fits 16 (blocks v 16)" unfolding fits_def using blocks_le [of _ v 16] by force
  have "unat (drop_bit 32 d) = ?f 2 + 65536 * ?f 3" "unat (drop_bit 48 d) = ?f 3"
    using f [of 0] f [of 1] f [of 2] f [of 3] unfolding unat_shift d bs by simp_all
  moreover have "?f 2 + ?f 3 = ones_in v 32 64" using ones_in_split [of 32 48 64 v] by simp
  ultimately have sum: "unat (drop_bit 32 d) + unat (drop_bit 48 d) = ones_in v 32 64 + 256 * (256 * ?f 3)" by simp
  then have t: "checked_add (drop_bit 32 d) (drop_bit 48 d) = Some (drop_bit 32 d + drop_bit 48 d)"
    using f [of 3] ones_in_le [of v 32 64] by (simp add: checked_add_def)
  have "in_block v (unat n) (2 * 32) (64, n)" using n by (simp add: in_block_def ones_in_def)
  moreover have "unat (drop_bit 32 d + drop_bit 48 d) = ones_in v (unat (64 :: u64) - 32) (unat (64 :: u64)) + 256 * (256 * ?f 3)"
    using unat_checked_add [OF t] sum by simp
  ultimately have "\<exists>sm. select_step 3 (drop_bit 32 d + drop_bit 48 d) (64, n) = Some sm \<and> in_block v (unat n) 32 sm"
    by (intro select_half [where H = "?f 3"]) (use f [of 3] in simp_all)
  with t show ?thesis by blast
qed

lemma select_last:
  "select_field v 1 1 8 sn = Some (s, m) \<Longrightarrow>
    (do { shift \<leftarrow> word_sub (fst sn) 1;
       field \<leftarrow> checked_shr v (unat shift);
       s \<leftarrow> word_sub (fst sn) (drop_bit 8 (((field AND 1) - snd sn) AND 256));
       Some (s, snd sn) }) = Some (s, snd sn)"
  by (cases sn) (auto simp: select_field_def select_step_def bind_eq_Some_conv)

lemma bit_reverse_bits: "j < 64 \<Longrightarrow> bit (reverse_bits v) j = bit v (63 - j)"
  by (simp add: reverse_bits_def bit_horner_sum_bit_word_iff rev_nth)

lemma ones_in_reverse: "s \<le> 64 \<Longrightarrow> ones_in (reverse_bits v) s 64 = ones_in v 0 (64 - s)"
  unfolding ones_in_def
  by (rule sum.reindex_bij_witness [of _ "\<lambda>j. 63 - j" "\<lambda>j. 63 - j"]) (auto simp: bit_reverse_bits)

lemma block_one:
  assumes "in_block v n 1 (s, m)"
  shows "1 \<le> unat s" "unat s \<le> 64" "bit v (unat s - 1)" "ones_in v (unat s) 64 + 1 = n"
proof -
  show s: "1 \<le> unat s" "unat s \<le> 64" using assms by (auto simp: in_block_def)
  have "ones_in v (unat s - 1) (unat s) = of_bool (bit v (unat s - 1))" using s by (cases "unat s") (simp_all add: ones_in_def)
  moreover have "1 \<le> unat m" "unat m \<le> ones_in v (unat s - 1) (unat s)" "ones_in v (unat s) 64 + unat m = n"
    using assms by (auto simp: in_block_def)
  ultimately show "bit v (unat s - 1)" "ones_in v (unat s) 64 + 1 = n" by (cases "bit v (unat s - 1)"; simp)+
qed

lemma nth_set_bit_u64_correct:
  assumes n: "1 \<le> unat n" "unat n \<le> ones_in v 0 64"
  shows "\<exists>i. nth_set_bit_u64 v n = Some i \<and> unat i < 64 \<and> bit v (unat i) \<and> ones_in v 0 (unat i) + 1 = unat n"
proof -
  let ?r = "reverse_bits v"
  have n': "unat n \<le> ones_in ?r 0 64" using n(2) ones_in_reverse [of 0 v] by simp
  obtain a where a: "word_sub ?r (drop_bit 1 ?r AND (- 1 div 3)) = Some a" "unat a = join 2 (blocks ?r 2)"
    using count_pairs by blast
  obtain b where b: "checked_add (a AND (- 1 div 5)) (drop_bit 2 a AND (- 1 div 5)) = Some b" "unat b = join 4 (blocks ?r 4)"
    using count_masked [OF a(2), of 16 "- 1 div 5"] masks(2) by auto
  obtain c4 where c: "checked_add b (drop_bit 4 b) = Some c4" "unat (c4 AND (- 1 div 0x11)) = join 8 (blocks ?r 8)"
    using count_then_mask [OF b(2), of 8 "- 1 div 0x11"] masks(3) by auto
  define c where "c = c4 AND (- 1 div 0x11)"
  note c' = c(2) [folded c_def]
  obtain d8 where d: "checked_add c (drop_bit 8 c) = Some d8" "unat (d8 AND (- 1 div 0x101)) = join 16 (blocks ?r 16)"
    using count_then_mask [OF c', of 4 "- 1 div 0x101"] masks(4) by auto
  define d where "d = d8 AND (- 1 div 0x101)"
  note d' = d(2) [folded d_def]
  obtain t s1 where s1: "checked_add (drop_bit 32 d) (drop_bit 48 d) = Some t" "select_step 3 t (64, n) = Some s1" "in_block ?r (unat n) 32 s1"
    using first_half [OF d' n(1) n'] by blast
  have "\<exists>sn. select_field d 16 0xff 4 s1 = Some sn \<and> in_block ?r (unat n) 16 sn"
    by (rule select_field_correct [where b = 8]) (use s1(3) d' in simp_all)
  then obtain s2 where s2: "select_field d 16 0xff 4 s1 = Some s2" "in_block ?r (unat n) 16 s2" by blast
  have "\<exists>sn. select_field c 8 0xf 5 s2 = Some sn \<and> in_block ?r (unat n) 8 sn"
    by (rule select_field_correct [where b = 4]) (use s2(2) c' in simp_all)
  then obtain s3 where s3: "select_field c 8 0xf 5 s2 = Some s3" "in_block ?r (unat n) 8 s3" by blast
  have "\<exists>sn. select_field b 4 0x7 6 s3 = Some sn \<and> in_block ?r (unat n) 4 sn"
    by (rule select_field_correct [where b = 3]) (use s3(2) b(2) in simp_all)
  then obtain s4 where s4: "select_field b 4 0x7 6 s3 = Some s4" "in_block ?r (unat n) 4 s4" by blast
  have "\<exists>sn. select_field a 2 0x3 7 s4 = Some sn \<and> in_block ?r (unat n) 2 sn"
    by (rule select_field_correct [where b = 2]) (use s4(2) a(2) in simp_all)
  then obtain s5 where s5: "select_field a 2 0x3 7 s4 = Some s5" "in_block ?r (unat n) 2 s5" by blast
  obtain s m where sm: "select_field ?r 1 1 8 s5 = Some (s, m)" "in_block ?r (unat n) 1 (s, m)"
    using select_field_correct [of ?r "unat n" 1 s5 8 ?r 1 1] s5(2) join_blocks_one [of ?r] by auto
  note s = block_one [OF sm(2)]
  have r: "word_sub 65 s = Some (65 - s)" "word_sub (65 - s) 1 = Some (65 - s - 1)" "unat (65 - s - 1) = 64 - unat s"
    using s(1,2) by (simp_all add: word_sub_def word_le_nat_alt unat_sub)
  have "nth_set_bit_u64 v n = Some (65 - s - 1)"
    unfolding nth_set_bit_u64_def Let_def a(1) b(1) c(1) c_def [symmetric] d(1) d_def [symmetric] s1(1,2) s2(1) s3(1) s4(1) s5(1)
      select_last [OF sm(1)] r(1,2) Option.bind.simps prod.case ..
  moreover have "bit v (64 - unat s)" using s bit_reverse_bits [of "unat s - 1" v] by simp
  moreover have "ones_in v 0 (64 - unat s) + 1 = unat n" using s(4) ones_in_reverse [OF s(2)] by simp
  ultimately show ?thesis using s r(3) by auto
qed

section \<open>128 bits\<close>

lemma length_filter_upt: "length (filter P [a..<b]) = (\<Sum>j = a..<b. of_bool (P j))"
proof (induction b)
  case (Suc b)
  then show ?case by (cases "a \<le> b") simp_all
qed simp

lemma count_ones_in: "count_ones w = ones_in w 0 LENGTH('a)" for w :: "'a::len word"
  by (simp only: count_ones_def ones_in_def length_filter_upt)

lemma nth_set_bit_correct:
  assumes n: "1 \<le> n" "n \<le> ones_in v 0 128"
  shows "\<exists>i. nth_set_bit v n = Some i \<and> i < 128 \<and> bit v i \<and> ones_in v 0 i + 1 = n"
proof -
  let ?low = "ucast v :: u64" and ?high = "ucast (drop_bit 64 v) :: u64"
  have low: "ones_in ?low 0 i = ones_in v 0 i" if "i \<le> 64" for i
    unfolding ones_in_def by (rule sum.cong) (use that in \<open>simp_all add: bit_ucast_iff\<close>)
  have high: "ones_in ?high 0 i = ones_in v 64 (64 + i)" if "i \<le> 64" for i
    unfolding ones_in_def
    by (rule sum.reindex_bij_witness [of _ "\<lambda>j. j - 64" "\<lambda>j. 64 + j"]) (use that in \<open>auto simp: bit_ucast_iff bit_drop_bit_eq\<close>)
  have count: "count_ones ?low = ones_in v 0 64" using low [of 64] by (simp add: count_ones_in)
  have le: "n \<le> 128" using n(2) ones_in_le [of v 0 128] by simp
  show ?thesis
  proof (cases "n > count_ones ?low")
    case True
    define k where "k = n - count_ones ?low"
    have "1 \<le> k" "k \<le> 128" using True le by (simp_all add: k_def)
    then have k: "unat (of_nat k :: u64) = k" "1 \<le> k" by (simp_all add: unat_of_nat)
    have "k \<le> ones_in ?high 0 64" using n(2) ones_in_split [of 0 64 128 v] by (simp add: high k_def count)
    with k obtain i where i: "nth_set_bit_u64 ?high (of_nat k) = Some i" "unat i < 64" "bit ?high (unat i)" "ones_in ?high 0 (unat i) + 1 = k"
      using nth_set_bit_u64_correct [of "of_nat k" ?high] by auto
    have "ones_in v 0 (64 + unat i) + 1 = n"
      using i(2,4) ones_in_split [of 0 64 "64 + unat i" v] True by (simp add: high k_def count)
    moreover have "nth_set_bit v n = Some (64 + unat i)"
      using True i(1) unfolding nth_set_bit_def Let_def k_def [symmetric] by simp
    ultimately show ?thesis using i(2,3) by (simp add: bit_ucast_iff bit_drop_bit_eq)
  next
    case False
    have k: "unat (of_nat n :: u64) = n" using le by (simp add: unat_of_nat)
    have "n \<le> ones_in ?low 0 64" using False by (simp add: low count)
    with k n obtain i where i: "nth_set_bit_u64 ?low (of_nat n) = Some i" "unat i < 64" "bit ?low (unat i)" "ones_in ?low 0 (unat i) + 1 = n"
      using nth_set_bit_u64_correct [of "of_nat n" ?low] by auto
    with False show ?thesis by (simp add: nth_set_bit_def Let_def bit_ucast_iff low)
  qed
qed

text \<open>On the bitmap of a list, the position found is that of the list's \<open>n\<close>-th \<open>True\<close>.\<close>

lemma ones_in_bits: "length xs \<le> 128 \<Longrightarrow> i \<le> length xs \<Longrightarrow> ones_in (bits xs) 0 i = length (filter id (take i xs))"
proof -
  assume "length xs \<le> 128" "i \<le> length xs"
  then have "filter id (take i xs) = filter id (map (bit (bits xs)) [0..<i])"
    by (intro arg_cong [of _ _ "filter id"] nth_equalityI) (simp_all add: bit_bits)
  then show ?thesis by (simp only: ones_in_def length_filter_upt [symmetric] filter_map) simp
qed

lemma ones_in_unique:
  assumes "bit v i" "bit v j" "ones_in v 0 i = ones_in v 0 j"
  shows "i = j"
proof -
  have "ones_in v 0 i < ones_in v 0 j" if "bit v i" "i < j" for i j
  proof -
    have "ones_in v 0 (Suc i) = ones_in v 0 i + 1" using that(1) by (simp add: ones_in_def)
    moreover have "ones_in v 0 (Suc i) \<le> ones_in v 0 j" using that(2) ones_in_split [of 0 "Suc i" j v] by simp
    ultimately show ?thesis by simp
  qed
  then show ?thesis using assms by (metis less_irrefl linorder_neqE_nat)
qed

lemma nth_set_bit_bits:
  assumes "length (ys @ True # zs) \<le> 128"
  shows "nth_set_bit (bits (ys @ True # zs)) (length (filter id ys) + 1) = Some (length ys)"
proof -
  let ?v = "bits (ys @ True # zs)" and ?n = "length (filter id ys) + 1"
  have here: "bit ?v (length ys)" "ones_in ?v 0 (length ys) + 1 = ?n"
    using assms ones_in_bits [OF assms, of "length ys"] by (simp_all add: bit_bits)
  have "ones_in ?v 0 (Suc (length ys)) = ?n" using here(1) unfolding here(2) [symmetric] ones_in_def by simp
  moreover have "ones_in ?v 0 128 = ones_in ?v 0 (Suc (length ys)) + ones_in ?v (Suc (length ys)) 128"
    by (rule ones_in_split) (use assms in simp_all)
  ultimately have "?n \<le> ones_in ?v 0 128" by linarith
  from nth_set_bit_correct [OF le_add2 this] obtain i where i: "nth_set_bit ?v ?n = Some i" "bit ?v i" "ones_in ?v 0 i + 1 = ?n"
    by blast
  have "ones_in ?v 0 i = ones_in ?v 0 (length ys)" using i(3) here(2) by linarith
  with i(2) here(1) have "i = length ys" by (rule ones_in_unique)
  with i(1) show ?thesis by simp
qed

end
