(* ===== verification/ChunkRows.thy ===== *)
theory ChunkRows
  imports NthSetBit SumTree
begin

text \<open>
  Rows and positions of a chunk (\<open>crates/rope/src/chunk.rs\<close>): slices, the byte range of a row, the conversions from
  points, UTF-16 offsets and UTF-16 points back to byte offsets, clipping, and the iterator over tabs.

  \<open>debug_panic!\<close> panics in a build with debug assertions and only logs in others; the operations that use it take the
  kind of build as an argument. Whether an offset is a boundary of grapheme clusters is decided by the crate
  \<open>unicode-segmentation\<close> and is a parameter of \<open>clip_point\<close>.
\<close>

section \<open>Model\<close>

definition debug_panic :: "bool \<Rightarrow> unit option" where
  "debug_panic debug_assertions = (if debug_assertions then None else Some ())"

text \<open>\<open>str::ceil_char_boundary\<close>.\<close>

function ceil_loop :: "u8 list \<Rightarrow> nat \<Rightarrow> nat" where
  "ceil_loop s i = (if i < length s \<and> \<not> is_utf8_char_boundary (s ! i) then ceil_loop s (Suc i) else i)"
  by pat_completeness auto
termination
  by (relation "measure (\<lambda>(s, i). length s - i)") auto

declare ceil_loop.simps [simp del]

definition str_ceil_char_boundary :: "u8 list \<Rightarrow> nat \<Rightarrow> nat" where
  "str_ceil_char_boundary s i = (if i \<ge> length s then length s else ceil_loop s i)"

definition chunk_slice :: "chunk \<Rightarrow> nat \<times> nat \<Rightarrow> chunk option" where
  "chunk_slice c = (\<lambda>(first, last).
     if first = MAX_BASE then Some empty_slice
     else do {
       let a = (if chunk_is_char_boundary c first then first else str_ceil_char_boundary (c_text c) first);
       let b = (if chunk_is_char_boundary c last then last
                else if last < a then a else chunk_floor_char_boundary c last);
       let m = push_bit b 1 - 1;
       chars \<leftarrow> checked_shr (c_chars c AND m) a;
       chars_utf16 \<leftarrow> checked_shr (c_chars_utf16 c AND m) a;
       newlines \<leftarrow> checked_shr (c_newlines c AND m) a;
       tabs \<leftarrow> checked_shr (c_tabs c AND m) a;
       rust_assert (a \<le> b \<and> str_char_boundary (c_text c) a \<and> str_char_boundary (c_text c) b);
       Some \<lparr>c_chars = chars, c_chars_utf16 = chars_utf16, c_newlines = newlines, c_tabs = tabs,
         c_text = take (b - a) (drop a (c_text c))\<rparr>
     })"

definition chunk_offset_range_for_row :: "chunk \<Rightarrow> u32 \<Rightarrow> (nat \<times> nat) option" where
  "chunk_offset_range_for_row c r = do {
     row_start \<leftarrow> (if r > 0 then map_option Suc (nth_set_bit (c_newlines c) (unat r)) else Some 0);
     row_len \<leftarrow> (if row_start = MAX_BASE then Some 0
       else do {
         rest \<leftarrow> checked_shr (c_newlines c) row_start;
         remaining \<leftarrow> checked_sub (length (c_text c)) row_start;
         Some (min (trailing_zeros rest) (unat (of_nat remaining :: u32)))
       });
     Some (row_start, row_start + row_len)
   }"

definition chunk_point_to_offset :: "bool \<Rightarrow> chunk \<Rightarrow> point \<Rightarrow> nat option" where
  "chunk_point_to_offset debug c p = do {
     lines \<leftarrow> chunk_lines c;
     if row p > row lines then do { debug_panic debug; Some (chunk_len c) }
     else do {
       (first, last) \<leftarrow> chunk_offset_range_for_row c (row p);
       if column p > of_nat (last - first) then do { debug_panic debug; Some last }
       else Some (first + unat (column p))
     }
   }"

definition chunk_point_to_offset_utf16 :: "bool \<Rightarrow> chunk \<Rightarrow> point \<Rightarrow> offset_utf16 option" where
  "chunk_point_to_offset_utf16 debug c p = do {
     lines \<leftarrow> chunk_lines c;
     if row p > row lines then do { debug_panic debug; Some (chunk_len_utf16 c) }
     else map_option (chunk_offset_to_offset_utf16 c) (chunk_point_to_offset debug c p)
   }"

definition chunk_offset_utf16_to_offset :: "chunk \<Rightarrow> offset_utf16 \<Rightarrow> nat option" where
  "chunk_offset_utf16_to_offset c target =
     (if offset_value target = 0 then Some 0
      else do {
        i \<leftarrow> nth_set_bit (c_chars_utf16 c) (offset_value target);
        let ix = i + 1;
        if ix = MAX_BASE then Some MAX_BASE
        else do {
          rest \<leftarrow> checked_shr (c_chars_utf16 c) ix;
          remaining \<leftarrow> checked_sub (length (c_text c)) ix;
          Some (ix + min (trailing_zeros rest) remaining)
        }
      })"

definition chunk_point_to_point_utf16 :: "bool \<Rightarrow> chunk \<Rightarrow> point \<Rightarrow> point_utf16 option" where
  "chunk_point_to_point_utf16 debug c p = do { i \<leftarrow> chunk_point_to_offset debug c p; chunk_offset_to_point_utf16 c i }"

text \<open>
  The loops that step from an offset to the next one that satisfies a condition. To the left, offset 0 is the last that can
  be reached: the subtraction below it panics. To the right, the number of steps is bounded by the length of the text:
  beyond it no offset is a character boundary, and the loop could only end by overflowing.
\<close>

fun scan_left :: "(nat \<Rightarrow> bool) \<Rightarrow> nat \<Rightarrow> nat option" where
  "scan_left ok 0 = (if ok 0 then Some 0 else None)"
| "scan_left ok (Suc i) = (if ok (Suc i) then Some (Suc i) else scan_left ok i)"

fun scan_right :: "(nat \<Rightarrow> bool) \<Rightarrow> nat \<Rightarrow> nat \<Rightarrow> nat option" where
  "scan_right ok 0 i = (if ok i then Some i else None)"
| "scan_right ok (Suc k) i = (if ok i then Some i else scan_right ok k (Suc i))"

definition scan :: "bias \<Rightarrow> (nat \<Rightarrow> bool) \<Rightarrow> nat \<Rightarrow> nat \<Rightarrow> nat option" where
  "scan bias ok limit i = (case bias of Left \<Rightarrow> scan_left ok i | Right \<Rightarrow> scan_right ok (limit - i) i)"

definition chunk_point_utf16_to_offset :: "bool \<Rightarrow> chunk \<Rightarrow> point_utf16 \<Rightarrow> bool \<Rightarrow> nat option" where
  "chunk_point_utf16_to_offset debug c p clip = do {
     let outside = (if clip then Some () else debug_panic debug);
     lines \<leftarrow> chunk_lines c;
     if row_utf16 p > row lines then do { outside; Some (chunk_len c) }
     else do {
       (first, last) \<leftarrow> chunk_offset_range_for_row c (row_utf16 p);
       line \<leftarrow> chunk_slice c (first, last);
       if column_utf16 p > chunk_last_line_len_utf16 line then do { outside; Some last }
       else if column_utf16 p > 0 then do {
         o1 \<leftarrow> chunk_offset_utf16_to_offset line (OffsetUtf16 (unat (column_utf16 p)));
         let offset = first + o1;
         if str_char_boundary (c_text c) offset then Some offset
         else do {
           o2 \<leftarrow> checked_sub offset 1;
           o3 \<leftarrow> scan_left (str_char_boundary (c_text c)) o2;
           outside;
           Some o3
         }
       }
       else Some first
     }
   }"

definition chunk_unclipped_point_utf16_to_point :: "chunk \<Rightarrow> point_utf16 unclipped \<Rightarrow> point option" where
  "chunk_unclipped_point_utf16_to_point c u = do {
     let p = clip_value u;
     max_point \<leftarrow> chunk_lines c;
     if row_utf16 p > row max_point then Some max_point
     else do {
       range \<leftarrow> chunk_offset_range_for_row c (row_utf16 p);
       line \<leftarrow> chunk_slice c range;
       if column_utf16 p = 0 then Some (Point (row_utf16 p) 0)
       else if column_utf16 p \<ge> of_nat (offset_value (chunk_len_utf16 line)) then Some (Point (row_utf16 p) (of_nat (chunk_len line)))
       else do {
         o1 \<leftarrow> chunk_offset_utf16_to_offset line (OffsetUtf16 (unat (column_utf16 p)));
         col \<leftarrow> scan_left (str_char_boundary (c_text line)) o1;
         Some (Point (row_utf16 p) (of_nat col))
       }
     }
   }"

definition chunk_clip_point :: "(u8 list \<Rightarrow> nat \<Rightarrow> bool) \<Rightarrow> chunk \<Rightarrow> point \<Rightarrow> bias \<Rightarrow> point option" where
  "chunk_clip_point grapheme_boundary c p bias = do {
     max_point \<leftarrow> chunk_lines c;
     if row p > row max_point then Some max_point
     else do {
       range \<leftarrow> chunk_offset_range_for_row c (row p);
       line \<leftarrow> chunk_slice c range;
       if column p = 0 then Some p
       else if column p \<ge> of_nat (chunk_len line) then Some (Point (row p) (of_nat (chunk_len line)))
       else do {
         let col = unat (column p);
         if c_text line ! (col - 1) < 128 \<and> c_text line ! col < 128 then Some (Point (row p) (of_nat col))
         else do {
           col' \<leftarrow> scan bias (\<lambda>i. chunk_is_char_boundary line i \<and> grapheme_boundary (c_text line) i) (chunk_len line) col;
           Some (Point (row p) (of_nat col'))
         }
       }
     }
   }"

definition chunk_clip_offset_utf16 :: "chunk \<Rightarrow> offset_utf16 \<Rightarrow> bias \<Rightarrow> offset_utf16 option" where
  "chunk_clip_offset_utf16 c target bias =
     (if offset_value target = 0 then Some (OffsetUtf16 0)
      else if offset_value target \<ge> offset_value (chunk_len_utf16 c) then Some (chunk_len_utf16 c)
      else do {
        o1 \<leftarrow> chunk_offset_utf16_to_offset c target;
        o2 \<leftarrow> scan bias (str_char_boundary (c_text c)) (chunk_len c) o1;
        Some (chunk_offset_to_offset_utf16 c o2)
      })"

definition chunk_clip_point_utf16 :: "chunk \<Rightarrow> point_utf16 unclipped \<Rightarrow> bias \<Rightarrow> point_utf16 option" where
  "chunk_clip_point_utf16 c u bias = do {
     let p = clip_value u;
     max_point \<leftarrow> chunk_lines c;
     if row_utf16 p > row max_point then Some (PointUtf16 (row max_point) (chunk_last_line_len_utf16 c))
     else do {
       range \<leftarrow> chunk_offset_range_for_row c (row_utf16 p);
       line \<leftarrow> chunk_slice c range;
       col \<leftarrow> chunk_clip_offset_utf16 line (OffsetUtf16 (unat (column_utf16 p))) bias;
       Some (PointUtf16 (row_utf16 p) (of_nat (offset_value col)))
     }
   }"

subsection \<open>Tabs\<close>

record tabs_iter =
  ti_tabs :: u128
  ti_chars :: u128

datatype tab_position = TabPosition (byte_offset: nat) (char_offset: nat)

definition chunk_tabs :: "chunk \<Rightarrow> tabs_iter" where
  "chunk_tabs c = \<lparr>ti_tabs = c_tabs c, ti_chars = c_chars c\<rparr>"

text \<open>\<open>Tabs::next\<close>: the outer option is a panic, the inner one the end of the iteration.\<close>

definition tabs_next :: "tabs_iter \<Rightarrow> (tab_position option \<times> tabs_iter) option" where
  "tabs_next it =
     (if ti_tabs it = 0 then Some (None, it)
      else do {
        let tab_offset = trailing_zeros (ti_tabs it);
        m \<leftarrow> checked_shl (1 :: u128) tab_offset;
        let char_offset = count_ones (ti_chars it AND (m - 1));
        Some (Some (TabPosition tab_offset char_offset), it\<lparr>ti_tabs := ti_tabs it XOR m\<rparr>)
      })"

section \<open>Slices and rows\<close>

lemma str_char_boundary_correct: "valid_str s \<Longrightarrow> str_char_boundary (encode s) i \<longleftrightarrow> boundary s i"
  using encode_nth_boundary [of s i] boundary_ends [of s] boundary_le [of s i]
  by (auto simp: str_char_boundary_def)

lemma boundary_prefix [simp]: "boundary (s @ t) (str_len s)"
  by (auto simp: boundary_def)

lemma boundary_middle: "boundary (u @ l @ t) (str_len u + str_len l)"
  using boundary_prefix [of "u @ l" t] by simp

lemma encode_middle: "take (str_len l) (drop (str_len u) (encode (u @ l @ t))) = encode l"
  by simp

lemma marks_middle:
  assumes f: "\<And>c. length (f c) = len_utf8 c" and "str_len (u @ l @ t) \<le> 128"
  shows "drop_bit (str_len u) (bits (marks f (u @ l @ t)) AND (push_bit (str_len u + str_len l) 1 - 1)) = bits (marks f l)"
proof -
  have len: "length (marks f s) = str_len s" for s using f by (induction s) simp_all
  have "bits (marks f (u @ l @ t)) AND (push_bit (str_len u + str_len l) 1 - 1) = bits (marks f (u @ l))"
    using marks_prefix [of f "u @ l" t] f by simp
  then show ?thesis using assms(2) by (simp add: bits_drop len)
qed

lemma chunk_slice_correct:
  assumes "valid_str (u @ l @ t)" "str_len (u @ l @ t) \<le> 128"
  shows "chunk_slice (chunk_of (u @ l @ t)) (str_len u, str_len u + str_len l) = Some (chunk_of l)"
proof (cases "str_len u = 128")
  case True
  then have "str_len l = 0" using assms(2) by simp
  then have "encode l = []" using length_encode [of l] by (simp del: length_encode)
  then have "l = []" by (simp add: encode_Nil_iff)
  then show ?thesis using True by (simp add: chunk_slice_def MAX_BASE_def empty_slice_def chunk_of_def)
next
  case False
  then have u: "str_len u < 128" using assms(2) by simp
  let ?c = "chunk_of (u @ l @ t)"
  have b: "chunk_is_char_boundary ?c (str_len u)" "chunk_is_char_boundary ?c (str_len u + str_len l)"
    "str_char_boundary (encode (u @ l @ t)) (str_len u)" "str_char_boundary (encode (u @ l @ t)) (str_len u + str_len l)"
    using assms chunk_is_char_boundary_correct [of "u @ l @ t"] str_char_boundary_correct [OF assms(1)]
      boundary_prefix [of u "l @ t"] boundary_middle [of u l t] by simp_all
  note m = marks_middle [of "start_mark True" u l t] marks_middle [of utf16_mark u l t]
    marks_middle [of "\<lambda>c. start_mark (c = 10) c" u l t] marks_middle [of "\<lambda>c. start_mark (c = 9) c" u l t]
  show ?thesis using False u b m [OF _ assms(2)] encode_middle [of l u t]
    by (simp add: chunk_slice_def MAX_BASE_def checked_shr_def chunk_of_def del: push_bit_of_1 marks_simps encode_simps)
qed

text \<open>A row of a text: what precedes it is empty or ends with a newline, what follows is empty or starts with one.\<close>

definition row_of :: "rchar list \<Rightarrow> rchar list \<Rightarrow> rchar list \<Rightarrow> bool" where
  "row_of u l t \<longleftrightarrow> (u = [] \<or> last u = 10) \<and> 10 \<notin> set l \<and> (t = [] \<or> hd t = 10)"

lemma rows_append: "rows (s @ t) = rows s + rows t"
  by (rule lines_append(1))

lemma rows_le_len: "rows s \<le> str_len s"
  using filter_marks(3) [of s] length_filter_le [of id "newline_marks s"] length_marks(2) [of "\<lambda>c. c = 10" s] by simp

lemma row_exists: "r \<le> rows s \<Longrightarrow> \<exists>u l t. s = u @ l @ t \<and> row_of u l t \<and> rows u = r"
proof (induction r arbitrary: s)
  case 0
  show ?case
  proof (cases "10 \<in> set s")
    case True
    then obtain l t where "s = l @ 10 # t" "10 \<notin> set l" using split_list_first [of 10 s] by blast
    then show ?thesis by (intro exI [of _ "[]"] exI [of _ l] exI [of _ "10 # t"]) (simp add: row_of_def rows_Cons)
  next
    case False
    then show ?thesis by (intro exI [of _ "[]"] exI [of _ s]) (simp add: row_of_def rows_Cons)
  qed
next
  case (Suc r)
  then have "10 \<in> set s" using rows_0 [of s] by auto
  then obtain l0 t0 where s: "s = l0 @ 10 # t0" "10 \<notin> set l0" using split_list_first [of 10 s] by blast
  then have "r \<le> rows t0" using Suc.prems rows_0 [of l0] by (simp add: rows_append rows_Cons)
  then obtain u l t where "t0 = u @ l @ t" "row_of u l t" "rows u = r" using Suc.IH by blast
  then show ?case using s rows_0 [of l0]
    by (intro exI [of _ "l0 @ 10 # u"] exI [of _ l] exI [of _ t]) (auto simp: row_of_def rows_append rows_Cons)
qed

lemma chunk_offset_range_for_row_correct:
  assumes "row_of u l t" "str_len (u @ l @ t) \<le> 128"
  shows "chunk_offset_range_for_row (chunk_of (u @ l @ t)) (of_nat (rows u)) = Some (str_len u, str_len u + str_len l)"
proof -
  let ?s = "u @ l @ t" and ?r = "of_nat (rows u) :: u32"
  have r: "unat ?r = rows u" using rows_le_len [of u] assms(2) by (simp add: unat_of_nat)
  have first: "(if ?r > 0 then map_option Suc (nth_set_bit (c_newlines (chunk_of ?s)) (unat ?r)) else Some 0) = Some (str_len u)"
  proof (cases "u = []")
    case False
    then obtain v where u: "u = v @ [10]" using assms(1) append_butlast_last_id [of u] by (metis row_of_def)
    then have "?r > 0" using r by (simp add: word_less_nat_alt rows_append rows_Cons)
    moreover have "c_newlines (chunk_of ?s) = bits (newline_marks v @ True # newline_marks (l @ t))"
      using newline_mark_split [of v "l @ t"] u by (simp add: chunk_of_def)
    moreover have "rows u = length (filter id (newline_marks v)) + 1" by (simp only: filter_marks) (simp add: u rows_append rows_Cons)
    moreover have "str_len u = Suc (length (newline_marks v))" "length (newline_marks v @ True # newline_marks (l @ t)) \<le> 128"
      using assms(2) u by (simp_all add: length_marks len_utf8_def)
    ultimately show ?thesis using nth_set_bit_bits [of "newline_marks v" "newline_marks (l @ t)"] unfolding r by simp
  qed (simp add: rows_Cons)
  have "trailing_zeros (drop_bit (str_len u) (bits (newline_marks ?s))) = (if t = [] then 128 else str_len l)"
  proof -
    have "drop_bit (str_len u) (bits (newline_marks ?s)) = bits (newline_marks (l @ t))"
      using assms(2) by (simp add: bits_drop length_marks)
    moreover have "first_line (l @ t) = l" if "t \<noteq> []"
      using that assms(1) split_at_newline [of l "tl t"] by (cases t) (auto simp: row_of_def first_line_def)
    ultimately show ?thesis using assms trailing_newlines [of "l @ t"] by (cases t) (auto simp: row_of_def)
  qed
  moreover have "str_len u = 128 \<Longrightarrow> str_len l = 0" using assms(2) by simp
  moreover have "unat (of_nat (str_len l + str_len t) :: u32) = str_len l + str_len t"
    using assms(2) by (simp add: unat_of_nat del: of_nat_add)
  ultimately show ?thesis using assms(2) unfolding chunk_offset_range_for_row_def first
    by (simp add: checked_shr_def MAX_BASE_def chunk_of_def del: marks_simps of_nat_add)
qed

section \<open>Positions to offsets\<close>

text \<open>The end of a prefix lies in the row that starts after the prefix's last newline.\<close>

lemma prefix_row:
  "\<exists>u y t. w @ z = u @ (last_line w @ y) @ t \<and> row_of u (last_line w @ y) t \<and> rows u = rows w \<and> w = u @ last_line w"
proof -
  obtain u where w: "w = u @ last_line w" "u = [] \<or> last u = 10" "10 \<notin> set (last_line w)" "rows u = rows w"
  proof (cases "10 \<in> set w")
    case True
    then obtain v where v: "w = v @ 10 # last_line w" "10 \<notin> set (last_line w)" by (rule last_newline)
    then have "rows (v @ [10]) = rows w" using rows_0 [of "last_line w"]
      by (metis append.assoc append_Cons append_Nil rows_append add_0_right)
    then show thesis using that [of "v @ [10]"] v by simp
  next
    case False
    then show thesis using that [of "[]"] line_no_newline [of w] rows_0 [of w] by (simp add: rows_Cons)
  qed
  obtain y t where z: "z = y @ t" "10 \<notin> set y" "t = [] \<or> hd t = 10"
  proof (cases "10 \<in> set z")
    case True
    then obtain y t where "z = y @ 10 # t" "10 \<notin> set y" using split_list_first [of 10 z] by blast
    then show thesis using that by auto
  next
    case False
    then show thesis using that by auto
  qed
  have "w @ z = u @ (last_line w @ y) @ t" using w(1) z(1) by (metis append.assoc)
  then show ?thesis using w z by (intro exI [of _ u] exI [of _ y] exI [of _ t]) (auto simp: row_of_def)
qed

lemma of_nat_less_u32: "a \<le> 128 \<Longrightarrow> b \<le> 128 \<Longrightarrow> (of_nat a :: u32) < of_nat b \<longleftrightarrow> a < b"
  by (simp add: word_less_nat_alt unat_of_nat)

lemma unat_u32: "a \<le> 128 \<Longrightarrow> unat (of_nat a :: u32) = a"
  by (simp add: unat_of_nat)

lemma chunk_rows: "str_len s \<le> 128 \<Longrightarrow> chunk_lines (chunk_of s) = Some (Point (of_nat (rows s)) (of_nat (str_len (last_line s))))"
  by (simp add: chunk_lines_correct summary_of_def)

lemma chunk_point_to_offset_correct:
  assumes "str_len (w @ z) \<le> 128"
  shows "chunk_point_to_offset debug (chunk_of (w @ z)) (ts_lines (summary_of w)) = Some (str_len w)"
proof -
  obtain u y t where s: "w @ z = u @ (last_line w @ y) @ t" "row_of u (last_line w @ y) t" "rows u = rows w" "w = u @ last_line w"
    using prefix_row by blast
  have len: "str_len w = str_len u + str_len (last_line w)" using arg_cong [OF s(4), of str_len] by simp
  have "chunk_offset_range_for_row (chunk_of (w @ z)) (of_nat (rows w)) = Some (str_len u, str_len u + str_len (last_line w @ y))"
    using chunk_offset_range_for_row_correct [OF s(2)] assms s by (metis)
  moreover have "str_len (last_line w @ y) \<le> 128" using assms s(1) by simp
  moreover have "rows w \<le> rows (w @ z)" "rows (w @ z) \<le> 128" using assms rows_le_len [of "w @ z"] by (simp_all add: rows_append)
  ultimately show ?thesis using assms
    by (simp add: chunk_point_to_offset_def chunk_rows summary_of_def of_nat_less_u32 unat_u32 len del: of_nat_add)
qed

lemma utf16_mark_last: "\<exists>k m. utf16_mark c = k @ True # replicate m False \<and> length (filter id k) + 1 = char_len_utf16 c \<and> length k + 1 + m = len_utf8 c"
proof (cases "len_utf8 c = 4")
  case True
  then have "utf16_mark c = [True] @ True # replicate 2 False" by (simp add: utf16_mark_def numeral_2_eq_2)
  then show ?thesis using True
    by (intro exI [of _ "[True]"] exI [of _ 2]) (auto simp: len_utf8_def char_len_utf16_def split: if_splits)
next
  case False
  then show ?thesis using len_utf8_pos(1) [of c]
    by (intro exI [of _ "[]"] exI [of _ "len_utf8 c - 1"])
      (auto simp: utf16_mark_def start_mark_def len_utf8_def char_len_utf16_def split: if_splits)
qed

lemma trailing_zeros_marks:
  assumes "m + length xs \<le> 128" "xs = [] \<or> hd xs"
  shows "trailing_zeros (bits (replicate m False @ xs)) = (if xs = [] then 128 else m)"
proof (cases xs)
  case (Cons x ys)
  then show ?thesis using assms takeWhile_marks [of m ys] by (simp add: trailing_zeros_bits)
qed (use assms in \<open>simp add: trailing_zeros_bits\<close>)

lemma utf16_marks_hd: "s = [] \<or> hd (marks utf16_mark s)"
  by (cases s) (auto simp: utf16_mark_def start_mark_def)

lemma marks_Nil_iff: "marks utf16_mark s = [] \<longleftrightarrow> s = []"
  by (cases s) (auto simp: utf16_mark_def start_mark_def)

lemma chunk_offset_utf16_to_offset_correct:
  assumes "str_len (w @ z) \<le> 128"
  shows "chunk_offset_utf16_to_offset (chunk_of (w @ z)) (OffsetUtf16 (utf16_len w)) = Some (str_len w)"
proof (cases w rule: rev_cases)
  case (snoc v c)
  obtain k m where c: "utf16_mark c = k @ True # replicate m False" "length (filter id k) + 1 = char_len_utf16 c" "length k + 1 + m = len_utf8 c"
    using utf16_mark_last by blast
  define ys where "ys = marks utf16_mark v @ k"
  define zs where "zs = replicate m False @ marks utf16_mark z"
  have eq: "marks utf16_mark (w @ z) = ys @ True # zs" using snoc c(1) by (simp add: ys_def zs_def)
  have lens: "length ys + 1 + m = str_len w" "length zs = m + str_len z" "length ys + 1 + length zs \<le> 128"
    using assms snoc c(3) by (simp_all add: ys_def zs_def length_marks)
  have n: "utf16_len w = length (filter id ys) + 1" using snoc c(2) filter_marks(2) [of v] by (simp add: ys_def)
  have "drop (length ys + 1) (ys @ True # zs) = zs" by simp
  then have rest: "drop_bit (length ys + 1) (bits (ys @ True # zs)) = bits zs" using bits_drop [of "ys @ True # zs"] lens by simp
  have tz: "trailing_zeros (bits zs) = (if z = [] then 128 else m)"
    using trailing_zeros_marks [of m "marks utf16_mark z"] utf16_marks_hd [of z] lens assms by (auto simp: zs_def marks_Nil_iff length_marks)
  have "nth_set_bit (bits (ys @ True # zs)) (utf16_len w) = Some (length ys)"
    unfolding n by (rule nth_set_bit_bits) (use lens in simp)
  then show ?thesis using rest tz lens n assms
    by (auto simp: chunk_offset_utf16_to_offset_def chunk_of_def eq checked_shr_def MAX_BASE_def Let_def simp del: marks_simps encode_simps)
qed (simp add: chunk_offset_utf16_to_offset_def)

lemma chunk_prefix_conversions:
  assumes "str_len (w @ z) \<le> 128"
  shows "chunk_point_to_offset_utf16 debug (chunk_of (w @ z)) (ts_lines (summary_of w)) = Some (OffsetUtf16 (utf16_len w))"
    "chunk_point_to_point_utf16 debug (chunk_of (w @ z)) (ts_lines (summary_of w)) = Some (lines_utf16 (summary_of w))"
proof -
  have w: "str_len w \<le> 128" and r: "rows w \<le> rows (w @ z)" "rows (w @ z) \<le> 128"
    using assms rows_le_len [of "w @ z"] by (simp_all add: rows_append)
  note o = chunk_point_to_offset_correct [OF assms, of debug] chunk_offset_correct [OF w, of z]
  show "chunk_point_to_offset_utf16 debug (chunk_of (w @ z)) (ts_lines (summary_of w)) = Some (OffsetUtf16 (utf16_len w))"
    using o r assms by (simp add: chunk_point_to_offset_utf16_def chunk_rows of_nat_less_u32 summary_of_def)
  show "chunk_point_to_point_utf16 debug (chunk_of (w @ z)) (ts_lines (summary_of w)) = Some (lines_utf16 (summary_of w))"
    using o by (simp add: chunk_point_to_point_utf16_def)
qed

lemma valid_append [simp]: "valid_str (s @ t) \<longleftrightarrow> valid_str s \<and> valid_str t"
  by (auto simp: valid_str_def)

text \<open>The row of a position of a chunk, as the operations read it.\<close>

lemma chunk_row:
  assumes "row_of u l t" "valid_str (u @ l @ t)" "str_len (u @ l @ t) \<le> 128"
  shows "chunk_offset_range_for_row (chunk_of (u @ l @ t)) (of_nat (rows u)) = Some (str_len u, str_len u + str_len l)"
    "chunk_slice (chunk_of (u @ l @ t)) (str_len u, str_len u + str_len l) = Some (chunk_of l)"
    "\<not> of_nat (rows (u @ l @ t)) < (of_nat (rows u) :: u32)" "unat (of_nat (utf16_len l) :: u32) = utf16_len l"
    "unat (of_nat (str_len l) :: u32) = str_len l"
    "chunk_len_utf16 (chunk_of l) = OffsetUtf16 (utf16_len l)" "chunk_last_line_len_utf16 (chunk_of l) = of_nat (utf16_len l)"
    "chunk_len (chunk_of l) = str_len l"
proof -
  have l: "str_len l \<le> 128" "utf16_len l \<le> 128" "rows (u @ l @ t) \<le> 128"
    using assms(3) utf16_le_str_len [of l] rows_le_len [of "u @ l @ t"] by simp_all
  show "chunk_offset_range_for_row (chunk_of (u @ l @ t)) (of_nat (rows u)) = Some (str_len u, str_len u + str_len l)"
    by (rule chunk_offset_range_for_row_correct [OF assms(1,3)])
  show "chunk_slice (chunk_of (u @ l @ t)) (str_len u, str_len u + str_len l) = Some (chunk_of l)"
    by (rule chunk_slice_correct [OF assms(2,3)])
  show "\<not> of_nat (rows (u @ l @ t)) < (of_nat (rows u) :: u32)" using l by (simp add: of_nat_less_u32 rows_append del: of_nat_add)
  show "unat (of_nat (utf16_len l) :: u32) = utf16_len l" "unat (of_nat (str_len l) :: u32) = str_len l" using l by (simp_all add: unat_u32)
  show "chunk_len_utf16 (chunk_of l) = OffsetUtf16 (utf16_len l)" "chunk_len (chunk_of l) = str_len l"
    using l by (simp_all add: chunk_len_utf16_def chunk_len_def chunk_of_def counts)
  have "10 \<notin> set l" using assms(1) by (simp add: row_of_def)
  then show "chunk_last_line_len_utf16 (chunk_of l) = of_nat (utf16_len l)"
    using chunk_last_line_correct [OF l(1)] line_no_newline [of l] by (simp add: summary_of_def)
qed

lemma point_utf16_in_row:
  assumes "row_of u l t" "valid_str (u @ l @ t)" "str_len (u @ l @ t) \<le> 128"
  shows "chunk_point_utf16_to_offset debug (chunk_of (u @ l @ t)) (PointUtf16 (of_nat (rows u)) c) clip =
    (let outside = (if clip then Some () else debug_panic debug)
     in if utf16_len l < unat c then do { outside; Some (str_len u + str_len l) }
        else if c = 0 then Some (str_len u)
        else do {
          o1 \<leftarrow> chunk_offset_utf16_to_offset (chunk_of l) (OffsetUtf16 (unat c));
          if boundary (u @ l @ t) (str_len u + o1) then Some (str_len u + o1)
          else do {
            o2 \<leftarrow> checked_sub (str_len u + o1) 1;
            o3 \<leftarrow> scan_left (boundary (u @ l @ t)) o2;
            outside;
            Some o3
          }
        })"
proof -
  have b: "str_char_boundary (c_text (chunk_of (u @ l @ t))) = boundary (u @ l @ t)"
    using str_char_boundary_correct [OF assms(2)] by (auto simp: chunk_of_def)
  show ?thesis using chunk_row [OF assms] chunk_rows [OF assms(3)] unfolding chunk_point_utf16_to_offset_def b
    by (simp add: word_less_nat_alt unat_gt_0 Let_def)
qed

lemma unclipped_in_row:
  assumes "row_of u l t" "valid_str (u @ l @ t)" "str_len (u @ l @ t) \<le> 128"
  shows "chunk_unclipped_point_utf16_to_point (chunk_of (u @ l @ t)) (Unclipped (PointUtf16 (of_nat (rows u)) c)) =
    (if c = 0 then Some (Point (of_nat (rows u)) 0)
     else if utf16_len l \<le> unat c then Some (Point (of_nat (rows u)) (of_nat (str_len l)))
     else do {
       o1 \<leftarrow> chunk_offset_utf16_to_offset (chunk_of l) (OffsetUtf16 (unat c));
       col \<leftarrow> scan_left (boundary l) o1;
       Some (Point (of_nat (rows u)) (of_nat col))
     })"
proof -
  have "valid_str l" using assms(2) by simp
  then have b: "str_char_boundary (c_text (chunk_of l)) = boundary l" using str_char_boundary_correct by (auto simp: chunk_of_def)
  show ?thesis using chunk_row [OF assms] chunk_rows [OF assms(3)] b
    by (simp add: chunk_unclipped_point_utf16_to_point_def word_le_nat_alt Let_def)
qed

lemma scan_left_ok: "ok i \<Longrightarrow> scan_left ok i = Some i"
  by (cases i) simp_all

lemma utf16_len_0: "utf16_len s = 0 \<longleftrightarrow> s = []"
  by (cases s) (simp_all add: char_len_utf16_def)

lemma chunk_point_utf16_to_offset_correct:
  assumes "valid_str (w @ z)" "str_len (w @ z) \<le> 128"
  shows "chunk_point_utf16_to_offset debug (chunk_of (w @ z)) (lines_utf16 (summary_of w)) clip = Some (str_len w)"
    "chunk_unclipped_point_utf16_to_point (chunk_of (w @ z)) (Unclipped (lines_utf16 (summary_of w))) = Some (ts_lines (summary_of w))"
proof -
  obtain u y t where s: "w @ z = u @ (last_line w @ y) @ t" "row_of u (last_line w @ y) t" "rows u = rows w" "w = u @ last_line w"
    using prefix_row by blast
  let ?k = "last_line w"
  have len: "str_len w = str_len u + str_len ?k" using arg_cong [OF s(4), of str_len] by simp
  have k: "str_len (?k @ y) \<le> 128" using assms(2) s(1) by simp
  note o = chunk_offset_utf16_to_offset_correct [OF k]
  have c: "unat (of_nat (utf16_len ?k) :: u32) = utf16_len ?k" using utf16_le_str_len [of ?k] k by (simp add: unat_u32)
  then have c0: "(of_nat (utf16_len ?k) :: u32) = 0 \<longleftrightarrow> ?k = []" by (metis unat_0 unat_eq_zero utf16_len_0 of_nat_0)
  have p: "lines_utf16 (summary_of w) = PointUtf16 (of_nat (rows u)) (of_nat (utf16_len ?k))"
    "ts_lines (summary_of w) = Point (of_nat (rows u)) (of_nat (str_len ?k))"
    using s(3) by (simp_all add: lines_utf16_def summary_of_def)
  have b: "boundary (w @ z) (str_len u + str_len ?k)" using boundary_prefix [of w z] len by simp
  show "chunk_point_utf16_to_offset debug (chunk_of (w @ z)) (lines_utf16 (summary_of w)) clip = Some (str_len w)"
    using point_utf16_in_row [OF s(2), folded s(1), OF assms, of debug "of_nat (utf16_len ?k)" clip] o b
    by (simp add: p c c0 len Let_def)
  show "chunk_unclipped_point_utf16_to_point (chunk_of (w @ z)) (Unclipped (lines_utf16 (summary_of w))) = Some (ts_lines (summary_of w))"
    using unclipped_in_row [OF s(2), folded s(1), OF assms, of "of_nat (utf16_len ?k)"] o boundary_prefix [of ?k y]
    by (simp add: p c c0 scan_left_ok utf16_len_0)
qed

section \<open>Clipping\<close>

lemma boundary_append: "boundary (w @ z) (str_len w + i) \<longleftrightarrow> boundary z i"
proof (induction w)
  case (Cons c w)
  then show ?case using len_utf8_pos(1) [of c] by (simp add: boundary_Cons add.assoc)
qed simp

lemma boundary_inside: "0 < i \<Longrightarrow> i < len_utf8 c \<Longrightarrow> \<not> boundary (w @ c # z) (str_len w + i)"
  by (simp add: boundary_append boundary_Cons)

text \<open>An offset in UTF-16 units is at the end of a prefix or between the two units of a character of four bytes.\<close>

lemma utf16_split:
  "n \<le> utf16_len s \<Longrightarrow> (\<exists>w z. s = w @ z \<and> utf16_len w = n) \<or> (\<exists>w c z. s = w @ c # z \<and> len_utf8 c = 4 \<and> n = utf16_len w + 1)"
proof (induction s arbitrary: n)
  case (Cons c s)
  consider "n = 0" | "char_len_utf16 c \<le> n" | "n = 1" "char_len_utf16 c = 2"
    by (cases "n = 0"; cases "char_len_utf16 c \<le> n") (auto simp: char_len_utf16_def split: if_splits)
  then show ?case
  proof cases
    case 2
    then have "n - char_len_utf16 c \<le> utf16_len s" using Cons.prems by simp
    from Cons.IH [OF this] show ?thesis
    proof (elim disjE exE conjE)
      fix w z assume "s = w @ z" "utf16_len w = n - char_len_utf16 c"
      then show ?thesis using 2 by (intro disjI1 exI [of _ "c # w"] exI [of _ z]) simp
    next
      fix w d z assume "s = w @ d # z" "len_utf8 d = 4" "n - char_len_utf16 c = utf16_len w + 1"
      then show ?thesis using 2 by (intro disjI2 exI [of _ "c # w"] exI [of _ d] exI [of _ z]) simp
    qed
  next
    case 3
    then show ?thesis
      by (intro disjI2 exI [of _ "[]"] exI [of _ c] exI [of _ s]) (auto simp: char_len_utf16_def len_utf8_def split: if_splits)
  qed (auto intro: exI [of _ "[]"])
qed (auto intro: exI [of _ "[]"])

lemma chunk_offset_utf16_inside:
  assumes "str_len (w @ c # z) \<le> 128" "len_utf8 c = 4"
  shows "chunk_offset_utf16_to_offset (chunk_of (w @ c # z)) (OffsetUtf16 (utf16_len w + 1)) = Some (str_len w + 1)"
proof -
  define zs where "zs = [True, False, False] @ marks utf16_mark z"
  have eq: "marks utf16_mark (w @ c # z) = marks utf16_mark w @ True # zs" using assms(2) by (simp add: zs_def utf16_mark_def)
  have lens: "length (marks utf16_mark w) = str_len w" "length (marks utf16_mark w @ True # zs) = str_len (w @ c # z)"
    "str_len w + 1 + length zs \<le> 128" using assms by (simp_all add: zs_def length_marks)
  have n: "utf16_len w + 1 = length (filter id (marks utf16_mark w)) + 1" by (simp only: filter_marks)
  have "drop (str_len w + 1) (marks utf16_mark w @ True # zs) = zs" using lens by simp
  then have rest: "drop_bit (str_len w + 1) (bits (marks utf16_mark w @ True # zs)) = bits zs"
    using bits_drop [of "marks utf16_mark w @ True # zs"] lens(2) assms(1) by simp
  have tz: "trailing_zeros (bits zs) = 0" using trailing_zeros_bits [of zs] lens(3) by (simp add: zs_def)
  have "nth_set_bit (bits (marks utf16_mark w @ True # zs)) (utf16_len w + 1) = Some (str_len w)"
    unfolding n using nth_set_bit_bits [of "marks utf16_mark w" zs] lens(1,2) assms(1) by simp
  then show ?thesis using rest tz assms
    by (simp add: chunk_offset_utf16_to_offset_def chunk_of_def eq checked_shr_def MAX_BASE_def Let_def del: marks_simps encode_simps)
qed

definition unit_boundary :: "rchar list \<Rightarrow> nat \<Rightarrow> bool" where
  "unit_boundary s n \<longleftrightarrow> (\<exists>u v. s = u @ v \<and> n = utf16_len u)"

lemma unit_boundary_inside:
  assumes "len_utf8 c = 4"
  shows "\<not> unit_boundary (w @ c # z) (utf16_len w + 1)"
proof
  have c: "char_len_utf16 c = 2" using assms by (auto simp: len_utf8_def char_len_utf16_def split: if_splits)
  assume "unit_boundary (w @ c # z) (utf16_len w + 1)"
  then obtain u v where uv: "w @ c # z = u @ v" "utf16_len w + 1 = utf16_len u" by (auto simp: unit_boundary_def)
  then consider us where "w = u @ us" | us where "w @ us = u" "c # z = us @ v"  by (auto simp: append_eq_append_conv2)
  then show False
  proof cases
    case 1
    then show ?thesis using uv(2) by simp
  next
    case 2
    then show ?thesis using uv(2) c by (cases us) auto
  qed
qed

lemma scan_inside:
  assumes "len_utf8 c = 4"
  shows "scan bias (boundary (w @ c # z)) (str_len (w @ c # z)) (str_len w + 1) = Some (case bias of Left \<Rightarrow> str_len w | Right \<Rightarrow> str_len w + 4)"
proof -
  note i = boundary_inside [of _ c w z]
  have b: "boundary (w @ c # z) (str_len w)" "boundary (w @ c # z) (str_len w + 4)"
    using boundary_prefix [of w "c # z"] boundary_prefix [of "w @ [c]" z] assms by simp_all
  have "str_len (w @ c # z) - (str_len w + 1) = Suc (Suc (Suc (str_len z)))" using assms by simp
  moreover have "\<not> boundary (w @ c # z) (Suc (str_len w))" "\<not> boundary (w @ c # z) (Suc (Suc (str_len w)))"
    "\<not> boundary (w @ c # z) (Suc (Suc (Suc (str_len w))))" using i [of 1] i [of 2] i [of 3] assms by (simp_all add: numeral_3_eq_3)
  moreover have "scan_right (boundary (w @ c # z)) k (Suc (Suc (Suc (Suc (str_len w))))) = Some (str_len w + 4)" for k
    using b(2) by (cases k) (simp_all add: eval_nat_numeral)
  ultimately show ?thesis using b(1) scan_left_ok [of "boundary (w @ c # z)" "str_len w"]
    by (cases bias) (simp_all add: scan_def)
qed

definition nearest_unit :: "bias \<Rightarrow> rchar list \<Rightarrow> nat \<Rightarrow> nat \<Rightarrow> bool" where
  "nearest_unit bias s n m \<longleftrightarrow> unit_boundary s m \<and> (case bias of
     Left \<Rightarrow> m \<le> n \<and> (\<forall>k. unit_boundary s k \<and> k \<le> n \<longrightarrow> k \<le> m)
   | Right \<Rightarrow> (n \<le> m \<or> m = utf16_len s) \<and> (\<forall>k. unit_boundary s k \<and> n \<le> k \<longrightarrow> m \<le> k))"

lemma unit_boundary_le: "unit_boundary s n \<Longrightarrow> n \<le> utf16_len s"
  by (auto simp: unit_boundary_def)

lemma nearest_unit_self: "unit_boundary s n \<Longrightarrow> nearest_unit bias s n n"
  by (auto simp: nearest_unit_def split: bias.split)

lemma nearest_unit_inside:
  assumes "len_utf8 c = 4"
  shows "nearest_unit bias (w @ c # z) (utf16_len w + 1) (case bias of Left \<Rightarrow> utf16_len w | Right \<Rightarrow> utf16_len w + 2)"
proof -
  have c: "char_len_utf16 c = 2" using assms by (auto simp: len_utf8_def char_len_utf16_def split: if_splits)
  have "unit_boundary (w @ c # z) (utf16_len w)" by (auto simp: unit_boundary_def)
  moreover have "unit_boundary (w @ c # z) (utf16_len w + 2)"
    unfolding unit_boundary_def by (intro exI [of _ "w @ [c]"] exI [of _ z]) (simp add: c)
  moreover have "k \<noteq> utf16_len w + 1" if "unit_boundary (w @ c # z) k" for k using unit_boundary_inside [OF assms] that by auto
  ultimately show ?thesis by (cases bias) (force simp: nearest_unit_def)+
qed

lemma chunk_clip_offset_utf16_correct:
  assumes "valid_str s" "str_len s \<le> 128"
  shows "\<exists>m. chunk_clip_offset_utf16 (chunk_of s) (OffsetUtf16 n) bias = Some (OffsetUtf16 m) \<and> nearest_unit bias s n m"
proof -
  have len: "chunk_len_utf16 (chunk_of s) = OffsetUtf16 (utf16_len s)" "chunk_len (chunk_of s) = str_len s"
    using assms(2) by (simp_all add: chunk_len_utf16_def chunk_len_def chunk_of_def counts)
  have b: "str_char_boundary (c_text (chunk_of s)) = boundary s"
    using str_char_boundary_correct [OF assms(1)] by (auto simp: chunk_of_def)
  have ends: "unit_boundary s 0" "unit_boundary s (utf16_len s)" by (auto simp: unit_boundary_def intro: exI [of _ "[]"])
  consider "n = 0" | "n \<noteq> 0" "utf16_len s \<le> n" | w z where "n \<noteq> 0" "n < utf16_len s" "s = w @ z" "utf16_len w = n"
    | w c z where "n \<noteq> 0" "n < utf16_len s" "s = w @ c # z" "len_utf8 c = 4" "n = utf16_len w + 1"
    using utf16_split [of n s] by fastforce
  then show ?thesis
  proof cases
    case 1
    then show ?thesis using ends nearest_unit_self by (auto simp: chunk_clip_offset_utf16_def)
  next
    case 2
    then have "nearest_unit bias s n (utf16_len s)"
      using ends unit_boundary_le [of s] by (auto simp: nearest_unit_def split: bias.split)
    with 2 len show ?thesis by (simp add: chunk_clip_offset_utf16_def)
  next
    case (3 w z)
    then have "scan bias (boundary s) (str_len s) (str_len w) = Some (str_len w)"
      using scan_left_ok [of "boundary s" "str_len w"] by (cases "str_len s - str_len w") (auto simp: scan_def split: bias.split)
    moreover have "str_len w \<le> 128" using 3 assms(2) by simp
    moreover have "unit_boundary s n" using 3 by (auto simp: unit_boundary_def)
    ultimately show ?thesis using 3 len b chunk_offset_utf16_to_offset_correct [of w z] chunk_offset_correct(2) [of w z] assms(2)
        nearest_unit_self [of s n bias] by (simp add: chunk_clip_offset_utf16_def)
  next
    case (4 w c z)
    have "str_len w \<le> 128" "str_len (w @ [c]) \<le> 128" using 4 assms(2) by simp_all
    then have "chunk_offset_to_offset_utf16 (chunk_of s) (case bias of Left \<Rightarrow> str_len w | Right \<Rightarrow> str_len w + 4)
        = OffsetUtf16 (case bias of Left \<Rightarrow> utf16_len w | Right \<Rightarrow> utf16_len w + 2)"
      using chunk_offset_correct(2) [of w "c # z"] chunk_offset_correct(2) [of "w @ [c]" z] 4
      by (auto simp: char_len_utf16_def len_utf8_def split: bias.split if_splits)
    then show ?thesis
      using 4 len b chunk_offset_utf16_inside [of w c z] scan_inside [of c bias w z] nearest_unit_inside [of c bias w z] assms(2)
      by (simp add: chunk_clip_offset_utf16_def)
  qed
qed

lemma row_prefix:
  assumes "row_of u (a @ b) t"
  shows "ts_lines (summary_of (u @ a)) = Point (of_nat (rows u)) (of_nat (str_len a))"
    "lines_utf16 (summary_of (u @ a)) = PointUtf16 (of_nat (rows u)) (of_nat (utf16_len a))"
proof -
  have a: "10 \<notin> set a" "u = [] \<or> last u = 10" using assms by (auto simp: row_of_def)
  have "last_line u = []"
  proof (cases "u = []")
    case False
    then obtain v where "u = v @ [10]" using a(2) append_butlast_last_id [of u] by metis
    then show ?thesis using lines_append(3) [of v "[10]"] by (simp add: rows_Cons last_line_def NEWLINE_def)
  qed (simp add: last_line_def)
  then have "last_line (u @ a) = a" "rows (u @ a) = rows u"
    using a(1) rows_0 [of a] lines_append(3) [of u a] by (simp_all add: rows_append line_no_newline)
  then show "ts_lines (summary_of (u @ a)) = Point (of_nat (rows u)) (of_nat (str_len a))"
    "lines_utf16 (summary_of (u @ a)) = PointUtf16 (of_nat (rows u)) (of_nat (utf16_len a))"
    by (simp_all add: summary_of_def lines_utf16_def)
qed

lemma scan_left_finds: "ok 0 \<Longrightarrow> \<exists>j \<le> i. scan_left ok i = Some j \<and> ok j"
  by (induction i) (auto intro: le_SucI)

lemma scan_right_finds: "ok (i + k) \<Longrightarrow> \<exists>j \<le> i + k. scan_right ok k i = Some j \<and> ok j"
proof (induction k arbitrary: i)
  case (Suc k)
  then show ?case using Suc.IH [of "Suc i"] by auto
qed auto

lemma scan_finds: "ok 0 \<Longrightarrow> ok limit \<Longrightarrow> i \<le> limit \<Longrightarrow> \<exists>j \<le> limit. scan bias ok limit i = Some j \<and> ok j"
  using scan_left_finds [of ok i] scan_right_finds [of ok i "limit - i"]
  by (cases bias) (auto simp: scan_def dest: order_trans)

lemma point_row_cases:
  fixes r :: u32
  assumes "str_len s \<le> 128"
  obtains "of_nat (rows s) < r" | u l t where "s = u @ l @ t" "row_of u l t" "r = of_nat (rows u)"
proof (cases "of_nat (rows s) < r")
  case False
  then have "unat r \<le> rows s" using rows_le_len [of s] assms unat_u32 [of "rows s"] by (simp add: not_less word_le_nat_alt)
  then obtain u l t where "s = u @ l @ t" "row_of u l t" "rows u = unat r" using row_exists by blast
  then show thesis using that(2) by simp
qed (use that in simp)

definition grapheme_ends :: "(u8 list \<Rightarrow> nat \<Rightarrow> bool) \<Rightarrow> bool" where
  "grapheme_ends g \<longleftrightarrow> (\<forall>s. g s 0 \<and> g s (length s))"

lemma chunk_clip_point_correct:
  assumes "valid_str s" "str_len s \<le> 128" "grapheme_ends g"
  shows "\<exists>w z. s = w @ z \<and> chunk_clip_point g (chunk_of s) p bias = Some (ts_lines (summary_of w))"
proof (cases rule: point_row_cases [OF assms(2), of "row p"])
  case 1
  then show ?thesis using assms(2) by (intro exI [of _ s] exI [of _ "[]"]) (simp add: chunk_clip_point_def chunk_rows summary_of_def)
next
  case (2 u l t)
  have valid: "valid_str (u @ l @ t)" "str_len (u @ l @ t) \<le> 128" "valid_str l" using assms 2(1) by simp_all
  note r = chunk_row [OF 2(2) valid(1,2)]
  let ?ok = "\<lambda>i. chunk_is_char_boundary (chunk_of l) i \<and> g (c_text (chunk_of l)) i"
  have ok: "?ok i \<Longrightarrow> boundary l i" for i using chunk_is_char_boundary_correct [of l] valid(2) by simp
  have "?ok 0" "?ok (str_len l)" using chunk_is_char_boundary_correct [of l] valid(2) boundary_ends [of l] assms(3)
    by (simp_all add: grapheme_ends_def chunk_of_def) (metis length_encode)
  note scan = scan_finds [of ?ok, OF this]
  have "\<exists>i. boundary l i \<and> chunk_clip_point g (chunk_of s) p bias = Some (Point (row p) (of_nat i))"
  proof -
    consider "column p = 0" | "column p \<noteq> 0" "str_len l \<le> unat (column p)"
      | "column p \<noteq> 0" "unat (column p) < str_len l" by linarith
    then show ?thesis
    proof cases
      case 1
      have "p = Point (row p) (of_nat 0)" using 1 by (cases p) simp
      then have "chunk_clip_point g (chunk_of s) p bias = Some (Point (row p) (of_nat 0))"
        using 1 2 r chunk_rows [OF valid(2)] by (simp add: chunk_clip_point_def)
      then show ?thesis using boundary_ends(1) [of l] by blast
    next
      case c2: 2
      then have "chunk_clip_point g (chunk_of s) p bias = Some (Point (row p) (of_nat (str_len l)))"
        using 2 r chunk_rows [OF valid(2)] by (simp add: chunk_clip_point_def word_le_nat_alt)
      then show ?thesis using boundary_ends(2) [of l] by blast
    next
      case 3
      let ?i = "unat (column p)"
      obtain j where j: "scan bias ?ok (str_len l) ?i = Some j" "?ok j" using scan [of ?i bias] 3 by auto
      have "boundary l ?i" if "c_text (chunk_of l) ! ?i < 128"
      proof -
        have "is_utf8_char_boundary (encode l ! ?i)" using that by (simp add: boundary_unat chunk_of_def word_less_nat_alt)
        then show ?thesis using encode_nth_boundary [OF valid(3) 3(2)] by simp
      qed
      then show ?thesis using 2 3 r chunk_rows [OF valid(2)] j ok [OF j(2)]
        by (auto simp: chunk_clip_point_def word_le_nat_alt Let_def)
    qed
  qed
  then obtain a b where ab: "l = a @ b" "chunk_clip_point g (chunk_of s) p bias = Some (Point (row p) (of_nat (str_len a)))"
    by (auto simp: boundary_def)
  then show ?thesis using 2 row_prefix(1) [of u a b t] by (intro exI [of _ "u @ a"] exI [of _ "b @ t"]) simp
qed

lemma chunk_clip_point_utf16_correct:
  assumes "valid_str s" "str_len s \<le> 128"
  shows "\<exists>w z. s = w @ z \<and> chunk_clip_point_utf16 (chunk_of s) (Unclipped p) bias = Some (lines_utf16 (summary_of w))"
proof (cases rule: point_row_cases [OF assms(2), of "row_utf16 p"])
  case 1
  then show ?thesis using assms(2) chunk_last_line_correct [OF assms(2)]
    by (intro exI [of _ s] exI [of _ "[]"]) (simp add: chunk_clip_point_utf16_def chunk_rows lines_utf16_def summary_of_def)
next
  case (2 u l t)
  have valid: "valid_str (u @ l @ t)" "str_len (u @ l @ t) \<le> 128" "valid_str l" "str_len l \<le> 128" using assms 2(1) by simp_all
  note r = chunk_row [OF 2(2) valid(1,2)]
  obtain m where m: "chunk_clip_offset_utf16 (chunk_of l) (OffsetUtf16 (unat (column_utf16 p))) bias = Some (OffsetUtf16 m)" "unit_boundary l m"
    using chunk_clip_offset_utf16_correct [OF valid(3,4), of "unat (column_utf16 p)" bias] by (auto simp: nearest_unit_def)
  then obtain a b where ab: "l = a @ b" "m = utf16_len a" by (auto simp: unit_boundary_def)
  have "chunk_clip_point_utf16 (chunk_of s) (Unclipped p) bias = Some (PointUtf16 (of_nat (rows u)) (of_nat m))"
    using 2 r chunk_rows [OF valid(2)] m(1) by (simp add: chunk_clip_point_utf16_def)
  then show ?thesis using 2 ab row_prefix(2) [of u a b t] by (intro exI [of _ "u @ a"] exI [of _ "b @ t"]) simp
qed

section \<open>Tabs\<close>

text \<open>The iterator when the tabs of \<open>w\<close> have been returned and those of \<open>z\<close> are still to come.\<close>

definition tabs_at :: "rchar list \<Rightarrow> rchar list \<Rightarrow> tabs_iter" where
  "tabs_at w z = \<lparr>ti_tabs = bits (replicate (str_len w) False @ marks (\<lambda>c. start_mark (c = 9) c) z),
     ti_chars = bits (marks (start_mark True) (w @ z))\<rparr>"

lemma chunk_tabs_at: "chunk_tabs (chunk_of s) = tabs_at [] s"
  by (simp add: chunk_tabs_def tabs_at_def chunk_of_def)

lemma tab_marks_none: "9 \<notin> set s \<Longrightarrow> marks (\<lambda>c. start_mark (c = 9) c) s = replicate (str_len s) False"
proof (induction s)
  case (Cons c s)
  then show ?case using len_utf8_pos(1) [of c]
    by (simp add: start_mark_def replicate_add [symmetric] flip: replicate_Suc)
qed simp

lemma tab_mark: "start_mark True 9 = [True]"
  by (simp add: start_mark_def len_utf8_def)

lemma bits_clear: "length (xs @ True # ys) \<le> 128 \<Longrightarrow> bits (xs @ True # ys) XOR push_bit (length xs) 1 = bits (xs @ False # ys)"
  by (rule bit_eqI) (auto simp: bit_simps bit_bits nth_append nth_Cons' bit_push_bit_iff)

lemma tabs_next_correct:
  assumes "str_len (w @ z) \<le> 128"
  shows "9 \<notin> set z \<Longrightarrow> tabs_next (tabs_at w z) = Some (None, tabs_at w z)"
    "z = a @ 9 # b \<Longrightarrow> 9 \<notin> set a \<Longrightarrow>
       tabs_next (tabs_at w z) = Some (Some (TabPosition (str_len (w @ a)) (length (w @ a))), tabs_at (w @ a @ [9]) b)"
proof -
  assume "9 \<notin> set z"
  then have "ti_tabs (tabs_at w z) = bits (replicate (str_len w + str_len z) False)"
    by (simp add: tabs_at_def tab_marks_none replicate_add)
  also have "\<dots> = 0" using assms by (simp add: bits_zero)
  finally show "tabs_next (tabs_at w z) = Some (None, tabs_at w z)" by (simp add: tabs_next_def)
next
  assume z: "z = a @ 9 # b" and a: "9 \<notin> set a"
  let ?n = "str_len (w @ a)" and ?bs = "marks (\<lambda>c. start_mark (c = 9) c) b"
  have t: "ti_tabs (tabs_at w z) = bits (replicate ?n False @ True # ?bs)"
    using z a by (simp add: tabs_at_def tab_marks_none replicate_add tab_mark)
  have len: "length (replicate ?n False @ True # ?bs) \<le> 128" using assms z by (simp add: length_marks len_utf8_def)
  have "ti_tabs (tabs_at w z) \<noteq> 0" unfolding t using len by (simp add: bits_zero)
  moreover have tz: "trailing_zeros (ti_tabs (tabs_at w z)) = ?n"
    unfolding t using len trailing_zeros_marks [of ?n "True # ?bs"] by simp
  moreover have "count_ones (ti_chars (tabs_at w z) AND (push_bit ?n 1 - 1)) = length (w @ a)"
    using marks_prefix [of "start_mark True" "w @ a" "9 # b"] counts(1) [of "w @ a"] assms z
    by (simp add: tabs_at_def del: push_bit_of_1)
  moreover have "ti_tabs (tabs_at w z) XOR push_bit ?n 1 = ti_tabs (tabs_at (w @ a @ [9]) b)"
    unfolding t using bits_clear [of "replicate ?n False" ?bs] len
    by (simp add: tabs_at_def len_utf8_def replicate_app_Cons_same del: push_bit_of_1)
  moreover have "ti_chars (tabs_at w z) = ti_chars (tabs_at (w @ a @ [9]) b)" using z by (simp add: tabs_at_def)
  ultimately show "tabs_next (tabs_at w z) = Some (Some (TabPosition (str_len (w @ a)) (length (w @ a))), tabs_at (w @ a @ [9]) b)"
    using len by (simp add: tabs_next_def checked_shl_def del: push_bit_of_1)
qed

section \<open>Theorems\<close>

text \<open>C26. The bit-parallel selection finds the right bit: in the bitmap of at most 128 flags, the position returned for \<open>n\<close> is
  that of the flag before which exactly \<open>n - 1\<close> flags are set.\<close>

theorem nth_set_bit_selects:
  assumes "length (ys @ True # zs) \<le> 128"
  shows "nth_set_bit (bits (ys @ True # zs)) (length (filter id ys) + 1) = Some (length ys)"
  using assms by (rule nth_set_bit_bits)

theorem nth_set_bit_selects_witness:
  "nth_set_bit (bits [True, False, True, False, True]) 3 = Some 4"
  using nth_set_bit_selects [of "[True, False, True, False]" "[]"] by (simp add: eval_nat_numeral)

text \<open>Positions in a chunk round trip: for every prefix of the text, its end given as a point, as an offset in UTF-16
  units or as a point in UTF-16 units converts back to its length in bytes (in every kind of build, clipping or not), and
  slicing at the ends of two prefixes gives the chunk of the text between them.\<close>

theorem chunk_positions_roundtrip:
  assumes "valid_str (w @ z)" "str_len (w @ z) \<le> MAX_BASE"
  shows "Option.bind (chunk_offset_to_point (chunk_of (w @ z)) (str_len w)) (chunk_point_to_offset debug (chunk_of (w @ z)))
      = Some (str_len w) \<and>
    chunk_offset_utf16_to_offset (chunk_of (w @ z)) (chunk_offset_to_offset_utf16 (chunk_of (w @ z)) (str_len w)) = Some (str_len w) \<and>
    Option.bind (chunk_offset_to_point_utf16 (chunk_of (w @ z)) (str_len w))
      (\<lambda>p. chunk_point_utf16_to_offset debug (chunk_of (w @ z)) p clip) = Some (str_len w) \<and>
    chunk_point_to_offset_utf16 debug (chunk_of (w @ z)) (parse_str w) = Some (OffsetUtf16 (utf16_len w)) \<and>
    chunk_point_to_point_utf16 debug (chunk_of (w @ z)) (parse_str w) = Some (lines_utf16 (summary_of w)) \<and>
    chunk_unclipped_point_utf16_to_point (chunk_of (w @ z)) (Unclipped (lines_utf16 (summary_of w))) = Some (parse_str w) \<and>
    (\<forall>u v. w = u @ v \<longrightarrow> chunk_slice (chunk_of (w @ z)) (str_len u, str_len w) = Some (chunk_of v))"
proof -
  have len: "str_len (w @ z) \<le> 128" "str_len w \<le> 128" using assms(2) by (simp_all add: MAX_BASE_def)
  have "chunk_slice (chunk_of (w @ z)) (str_len u, str_len w) = Some (chunk_of v)" if "w = u @ v" for u v
    using chunk_slice_correct [of u v z] that assms(1) len by simp
  then show ?thesis
    using chunk_offset_correct [OF len(2), of z] chunk_point_to_offset_correct [OF len(1)] chunk_offset_utf16_to_offset_correct [OF len(1)]
      chunk_point_utf16_to_offset_correct [OF assms(1) len(1)] chunk_prefix_conversions [OF len(1)] by (simp add: parse_str_lines)
qed

theorem chunk_positions_roundtrip_witness:
  "chunk_offset_utf16_to_offset (chunk_of [104, 10, 0x1F600, 233])
    (chunk_offset_to_offset_utf16 (chunk_of [104, 10, 0x1F600, 233]) 6) = Some 6"
  using chunk_positions_roundtrip [of "[104, 10, 0x1F600]" "[233]"]
  by (simp add: valid_str_def valid_char_def MAX_BASE_def len_utf8_def)

text \<open>Clipping in a chunk always returns, and returns a position of the text: clipping a point gives the end of some
  prefix, for either bias, whatever the grapheme clusters are (only their documented property that both ends of a text are
  boundaries is used); clipping an offset in UTF-16 units gives the nearest end of a prefix in the direction of the bias,
  clipping a UTF-16 point the end of some prefix.\<close>

theorem chunk_clip_valid:
  assumes "valid_str s" "str_len s \<le> MAX_BASE" "grapheme_ends grapheme_boundary"
  shows "(\<exists>w z. s = w @ z \<and> chunk_clip_point grapheme_boundary (chunk_of s) p bias = Some (parse_str w)) \<and>
    (\<exists>w z. s = w @ z \<and> chunk_clip_point_utf16 (chunk_of s) (Unclipped q) bias = Some (lines_utf16 (summary_of w))) \<and>
    (\<exists>m. chunk_clip_offset_utf16 (chunk_of s) (OffsetUtf16 n) bias = Some (OffsetUtf16 m) \<and> nearest_unit bias s n m)"
proof -
  have len: "str_len s \<le> 128" using assms(2) by (simp add: MAX_BASE_def)
  show ?thesis
    using chunk_clip_point_correct [OF assms(1) len assms(3), of p bias] chunk_clip_point_utf16_correct [OF assms(1) len, of q bias]
      chunk_clip_offset_utf16_correct [OF assms(1) len, of n bias] len by (simp add: parse_str_lines)
qed

theorem chunk_clip_valid_witness:
  "\<exists>w z. [97, 0x1F600] = w @ z \<and> chunk_clip_point (\<lambda>s i. i = 0 \<or> i = length s) (chunk_of [97, 0x1F600]) (Point 0 3) Left = Some (parse_str w)"
  using chunk_clip_valid [of "[97, 0x1F600]" "\<lambda>s i. i = 0 \<or> i = length s" "Point 0 3" Left]
  by (simp add: valid_str_def valid_char_def MAX_BASE_def len_utf8_def grapheme_ends_def)

text \<open>The iterator over the tabs of a chunk: once the tabs of a prefix have been returned, the next call returns the byte
  and character offset of the first tab of the rest and moves behind it, and returns nothing when there is none.\<close>

theorem tabs_iterate:
  assumes "str_len (w @ z) \<le> MAX_BASE"
  shows "(9 \<notin> set z \<longrightarrow> tabs_next (tabs_at w z) = Some (None, tabs_at w z)) \<and>
    (z = a @ 9 # b \<and> 9 \<notin> set a \<longrightarrow>
       tabs_next (tabs_at w z) = Some (Some (TabPosition (str_len (w @ a)) (length (w @ a))), tabs_at (w @ a @ [9]) b)) \<and>
    tabs_at [] (w @ z) = chunk_tabs (chunk_of (w @ z))"
proof -
  have len: "str_len (w @ z) \<le> 128" using assms by (simp add: MAX_BASE_def)
  show ?thesis using tabs_next_correct(1) [OF len] tabs_next_correct(2) [OF len, of a b] chunk_tabs_at [of "w @ z"] by metis
qed

theorem tabs_iterate_witness:
  "tabs_next (tabs_at [233] [97, 9, 98]) = Some (Some (TabPosition 3 2), tabs_at [233, 97, 9] [98])"
  using tabs_iterate [of "[233]" "[97, 9, 98]" "[97]" "[98]"] by (simp add: MAX_BASE_def len_utf8_def eval_nat_numeral)

text \<open>Positions outside of a chunk: a row beyond the last one converts to the length of the chunk and a column beyond the
  end of its row to the end of that row, except that a build with debug assertions panics instead (unless clipping was
  asked for).\<close>

theorem chunk_positions_outside:
  assumes "valid_str (u @ l @ t)" "str_len (u @ l @ t) \<le> MAX_BASE" "row_of u l t"
    and "unat (row p) > rows (u @ l @ t)" "unat (row_utf16 q) > rows (u @ l @ t)" "unat c > str_len l"
  shows "chunk_point_to_offset debug (chunk_of (u @ l @ t)) p = (if debug then None else Some (str_len (u @ l @ t))) \<and>
    chunk_point_utf16_to_offset debug (chunk_of (u @ l @ t)) q clip = (if debug \<and> \<not> clip then None else Some (str_len (u @ l @ t))) \<and>
    chunk_point_to_offset debug (chunk_of (u @ l @ t)) (Point (of_nat (rows u)) c) = (if debug then None else Some (str_len (u @ l))) \<and>
    chunk_point_utf16_to_offset debug (chunk_of (u @ l @ t)) (PointUtf16 (of_nat (rows u)) c) clip
      = (if debug \<and> \<not> clip then None else Some (str_len (u @ l)))"
proof -
  let ?c = "chunk_of (u @ l @ t)"
  have len: "str_len (u @ l @ t) \<le> 128" using assms(2) by (simp add: MAX_BASE_def)
  note r = chunk_row [OF assms(3,1) len]
  have n: "unat (of_nat (rows (u @ l @ t)) :: u32) = rows (u @ l @ t)" "chunk_len ?c = str_len (u @ l @ t)"
    using rows_le_len [of "u @ l @ t"] len by (simp_all add: unat_u32 chunk_len_def chunk_of_def del: of_nat_add)
  have out: "of_nat (rows (u @ l @ t)) < row p" "of_nat (rows (u @ l @ t)) < row_utf16 q" using assms(4,5) n(1) by (simp_all add: word_less_nat_alt)
  have "chunk_point_to_offset debug ?c p = (if debug then None else Some (str_len (u @ l @ t)))"
    using out(1) n(2) by (simp add: chunk_point_to_offset_def chunk_rows [OF len] debug_panic_def)
  moreover have "chunk_point_utf16_to_offset debug ?c q clip = (if debug \<and> \<not> clip then None else Some (str_len (u @ l @ t)))"
    using out(2) n(2) by (simp add: chunk_point_utf16_to_offset_def chunk_rows [OF len] debug_panic_def Let_def)
  moreover have "chunk_point_to_offset debug ?c (Point (of_nat (rows u)) c) = (if debug then None else Some (str_len (u @ l)))"
    using r assms(6) by (simp add: chunk_point_to_offset_def chunk_rows [OF len] debug_panic_def word_less_nat_alt)
  moreover have "utf16_len l < unat c" using assms(6) utf16_le_str_len [of l] by simp
  then have "chunk_point_utf16_to_offset debug ?c (PointUtf16 (of_nat (rows u)) c) clip
      = (if debug \<and> \<not> clip then None else Some (str_len (u @ l)))"
    using point_utf16_in_row [OF assms(3,1) len, of debug c clip] by (simp add: debug_panic_def Let_def)
  ultimately show ?thesis by simp
qed

theorem chunk_positions_outside_witness:
  "chunk_point_to_offset False (chunk_of [97, 10, 98]) (Point 0 7) = Some 1 \<and> chunk_point_to_offset True (chunk_of [97, 10, 98]) (Point 0 7) = None"
  using chunk_positions_outside [of "[]" "[97]" "[10, 98]" "Point 2 0" "PointUtf16 2 0" 7 False False]
    chunk_positions_outside [of "[]" "[97]" "[10, 98]" "Point 2 0" "PointUtf16 2 0" 7 True False]
  by (simp add: valid_str_def valid_char_def MAX_BASE_def len_utf8_def row_of_def rows_Cons)

end
