(* ===== verification/RopeSummary.thy ===== *)
theory RopeSummary
  imports ChunkRows KeyedTree "HOL-Library.Product_Lexorder"
begin

text \<open>
  The summaries and dimensions of a rope's tree (\<open>crates/rope/src/rope.rs\<close>: \<open>ChunkSummary\<close>, its \<open>Item\<close>, \<open>Summary\<close> and
  \<open>Dimension\<close> implementations).

  A sum tree needs an addition of summaries that is associative. Additions of \<open>u32\<close> that may overflow are not, so here the
  numbers of a \<open>TextSummary\<close> are natural numbers; \<open>summary_u32\<close> relates them to the 32-bit fields, on which \<open>AddAssign\<close> computes
  the same sums as long as the text is shorter than \<open>2 ^ 32\<close> bytes. Nor is the addition of arbitrary numbers associative: a
  text of one line has this line as its first, last and longest one, and the type of summaries contains only such values.
\<close>

section \<open>Model\<close>

record nat_summary =
  ns_len :: nat
  ns_chars :: nat
  ns_utf16 :: nat
  ns_row :: nat
  ns_column :: nat
  ns_first :: nat
  ns_last :: nat
  ns_last_utf16 :: nat
  ns_longest_row :: nat
  ns_longest :: nat

definition ns_zero :: nat_summary where
  "ns_zero = \<lparr>ns_len = 0, ns_chars = 0, ns_utf16 = 0, ns_row = 0, ns_column = 0, ns_first = 0, ns_last = 0,
     ns_last_utf16 = 0, ns_longest_row = 0, ns_longest = 0\<rparr>"

text \<open>\<open>AddAssign for TextSummary\<close>, \<open>AddAssign for Point\<close>.\<close>

definition add_longest_row :: "nat_summary \<Rightarrow> nat_summary \<Rightarrow> nat \<times> nat" where
  "add_longest_row a b =
     (let joined = ns_last a + ns_first b;
          lg = (if joined > ns_longest a then (ns_row a, joined) else (ns_longest_row a, ns_longest a))
      in if ns_longest b > snd lg then (ns_row a + ns_longest_row b, ns_longest b) else lg)"

definition ns_add :: "nat_summary \<Rightarrow> nat_summary \<Rightarrow> nat_summary" where
  "ns_add a b =
     \<lparr>ns_len = ns_len a + ns_len b, ns_chars = ns_chars a + ns_chars b, ns_utf16 = ns_utf16 a + ns_utf16 b,
      ns_row = ns_row a + ns_row b, ns_column = (if ns_row b = 0 then ns_column a + ns_column b else ns_column b),
      ns_first = (if ns_row a = 0 then ns_first a + ns_first b else ns_first a),
      ns_last = (if ns_row b = 0 then ns_last a + ns_first b else ns_last b),
      ns_last_utf16 = (if ns_row b = 0 then ns_last_utf16 a + ns_last_utf16 b else ns_last_utf16 b),
      ns_longest_row = fst (add_longest_row a b), ns_longest = snd (add_longest_row a b)\<rparr>"

lemma ns_add_sel [simp]:
  "ns_len (ns_add a b) = ns_len a + ns_len b" "ns_chars (ns_add a b) = ns_chars a + ns_chars b"
  "ns_utf16 (ns_add a b) = ns_utf16 a + ns_utf16 b" "ns_row (ns_add a b) = ns_row a + ns_row b"
  "ns_column (ns_add a b) = (if ns_row b = 0 then ns_column a + ns_column b else ns_column b)"
  "ns_first (ns_add a b) = (if ns_row a = 0 then ns_first a + ns_first b else ns_first a)"
  "ns_last (ns_add a b) = (if ns_row b = 0 then ns_last a + ns_first b else ns_last b)"
  "ns_last_utf16 (ns_add a b) = (if ns_row b = 0 then ns_last_utf16 a + ns_last_utf16 b else ns_last_utf16 b)"
  "ns_longest_row (ns_add a b) = fst (add_longest_row a b)" "ns_longest (ns_add a b) = snd (add_longest_row a b)"
  by (simp_all add: ns_add_def)

lemma ns_zero_sel [simp]:
  "ns_len ns_zero = 0" "ns_chars ns_zero = 0" "ns_utf16 ns_zero = 0" "ns_row ns_zero = 0" "ns_column ns_zero = 0" "ns_first ns_zero = 0"
  "ns_last ns_zero = 0" "ns_last_utf16 ns_zero = 0" "ns_longest_row ns_zero = 0" "ns_longest ns_zero = 0"
  by (simp_all add: ns_zero_def)

text \<open>What the numbers of every text satisfy: its longest row is the first one of that length, and a text of one row has the
  same first, last and longest row.\<close>

definition ns_ok :: "nat_summary \<Rightarrow> bool" where
  "ns_ok s \<longleftrightarrow> ns_first s \<le> ns_longest s \<and> (ns_longest s = ns_first s \<longrightarrow> ns_longest_row s = 0) \<and>
     (ns_row s = 0 \<longrightarrow> ns_first s = ns_last s \<and> ns_longest s = ns_last s)"

lemma ns_ok_add: "ns_ok a \<Longrightarrow> ns_ok b \<Longrightarrow> ns_ok (ns_add a b)"
  by (cases "ns_row a = 0"; cases "ns_row b = 0") (auto simp: ns_ok_def add_longest_row_def Let_def)

typedef chunk_summary = "{s. ns_ok s}"
  by (rule exI [of _ ns_zero]) (simp add: ns_ok_def ns_zero_def)

setup_lifting type_definition_chunk_summary

lift_definition cs_zero :: chunk_summary is ns_zero
  by (simp add: ns_ok_def ns_zero_def)

lift_definition cs_add :: "chunk_summary \<Rightarrow> chunk_summary \<Rightarrow> chunk_summary" is ns_add
  by (rule ns_ok_add)

lift_definition cs_text :: "chunk_summary \<Rightarrow> nat_summary" is "\<lambda>s. s" .

lift_definition cs_make :: "nat_summary \<Rightarrow> chunk_summary" is "\<lambda>s. if ns_ok s then s else ns_zero"
  by (simp add: ns_ok_def ns_zero_def)

definition nat_of_summary :: "text_summary \<Rightarrow> nat_summary" where
  "nat_of_summary t =
     \<lparr>ns_len = ts_len t, ns_chars = ts_chars t, ns_utf16 = offset_value (ts_len_utf16 t), ns_row = unat (row (ts_lines t)),
      ns_column = unat (column (ts_lines t)), ns_first = unat (first_line_chars t), ns_last = unat (last_line_chars t),
      ns_last_utf16 = unat (last_line_len_utf16 t), ns_longest_row = unat (longest_row t), ns_longest = unat (longest_row_chars t)\<rparr>"

text \<open>\<open>Item for Chunk\<close>; only the summary of a chunk whose bitmaps do not describe its text could panic.\<close>

definition chunk_item_summary :: "chunk \<Rightarrow> chunk_summary" where
  "chunk_item_summary c = (case chunk_text_summary c of Some t \<Rightarrow> cs_make (nat_of_summary t) | None \<Rightarrow> cs_zero)"

definition rope_ops :: "(chunk, chunk_summary) summary_ops" where
  "rope_ops = \<lparr>s_zero = cs_zero, s_add = cs_add, s_item = chunk_item_summary\<rparr>"

text \<open>The dimensions \<open>usize\<close>, \<open>OffsetUtf16\<close>, \<open>Point\<close>, \<open>PointUtf16\<close> and \<open>()\<close>; points are pairs of a row and a column,
  in lexicographic order.\<close>

type_synonym npoint = "nat \<times> nat"

definition npoint_add :: "npoint \<Rightarrow> npoint \<Rightarrow> npoint" where
  "npoint_add a b = (if fst b = 0 then (fst a, snd a + snd b) else (fst a + fst b, snd b))"

definition usize_dim :: "(chunk_summary, nat) dimension" where
  "usize_dim = \<lparr>d_zero = 0, d_add = (\<lambda>d s. d + ns_len (cs_text s))\<rparr>"

definition utf16_dim :: "(chunk_summary, nat) dimension" where
  "utf16_dim = \<lparr>d_zero = 0, d_add = (\<lambda>d s. d + ns_utf16 (cs_text s))\<rparr>"

definition point_dim :: "(chunk_summary, npoint) dimension" where
  "point_dim = \<lparr>d_zero = (0, 0), d_add = (\<lambda>d s. npoint_add d (ns_row (cs_text s), ns_column (cs_text s)))\<rparr>"

definition point_utf16_dim :: "(chunk_summary, npoint) dimension" where
  "point_utf16_dim = \<lparr>d_zero = (0, 0), d_add = (\<lambda>d s. npoint_add d (ns_row (cs_text s), ns_last_utf16 (cs_text s)))\<rparr>"

definition text_dim :: "(chunk_summary, nat_summary) dimension" where
  "text_dim = \<lparr>d_zero = ns_zero, d_add = (\<lambda>d s. ns_add d (cs_text s))\<rparr>"

definition unit_dim :: "(chunk_summary, unit) dimension" where
  "unit_dim = \<lparr>d_zero = (), d_add = (\<lambda>d s. ())\<rparr>"

section \<open>Laws\<close>

text \<open>The longest row of a sequence of candidates is the first of the greatest.\<close>

definition better :: "nat \<times> nat \<Rightarrow> nat \<times> nat \<Rightarrow> nat \<times> nat" where
  "better p q = (if snd p < snd q then q else p)"

lemma better_assoc: "better (better p q) r = better p (better q r)"
  by (simp add: better_def)

lemma better_absorb:
  "v \<le> u \<Longrightarrow> better (r, u) (better (r, v) q) = better (r, u) q" "u \<le> v \<Longrightarrow> better (r, u) (better (r, v) q) = better (r, v) q"
  by (auto simp: better_def)

lemma better_snd [simp]: "snd (better p q) = max (snd p) (snd q)"
  by (simp add: better_def)

definition shift_row :: "nat \<Rightarrow> nat \<times> nat \<Rightarrow> nat \<times> nat" where
  "shift_row k p = (k + fst p, snd p)"

lemma shift_row_simps [simp]:
  "shift_row k (shift_row j p) = shift_row (k + j) p" "shift_row k (better p q) = better (shift_row k p) (shift_row k q)"
  "shift_row k (r, n) = (k + r, n)" "snd (shift_row k p) = snd p"
  by (simp_all add: shift_row_def better_def)

definition ns_best :: "nat_summary \<Rightarrow> nat \<times> nat" where
  "ns_best s = (ns_longest_row s, ns_longest s)"

lemma ns_best_add:
  "ns_best (ns_add a b) = better (better (ns_best a) (ns_row a, ns_last a + ns_first b)) (shift_row (ns_row a) (ns_best b))"
  by (simp add: ns_best_def add_longest_row_def better_def shift_row_def Let_def)

lemma ns_eqI:
  assumes "ns_best a = ns_best b" "ns_len a = ns_len b" "ns_chars a = ns_chars b" "ns_utf16 a = ns_utf16 b" "ns_row a = ns_row b"
    "ns_column a = ns_column b" "ns_first a = ns_first b" "ns_last a = ns_last b" "ns_last_utf16 a = ns_last_utf16 b"
  shows "a = b"
  by (rule nat_summary.equality) (use assms in \<open>simp_all add: ns_best_def\<close>)

lemma ns_best_assoc:
  assumes "ns_ok b"
  shows "ns_best (ns_add (ns_add a b) c) = ns_best (ns_add a (ns_add b c))"
proof (cases "ns_row b = 0")
  case True
  with assms have b: "ns_best b = (0, ns_first b)" "ns_last b = ns_first b" by (auto simp: ns_ok_def ns_best_def)
  from True show ?thesis by (simp add: ns_best_add b better_assoc better_absorb add.assoc)
next
  case False
  then show ?thesis by (simp add: ns_best_add better_assoc)
qed

lemma ns_add_assoc: "ns_ok b \<Longrightarrow> ns_add (ns_add a b) c = ns_add a (ns_add b c)"
  by (rule ns_eqI) (use ns_best_assoc in \<open>auto simp: ns_ok_def\<close>)

lemma ns_zero_left: "ns_ok a \<Longrightarrow> ns_add ns_zero a = a"
  by (rule ns_eqI) (simp_all add: ns_best_add, auto simp: better_def shift_row_def ns_best_def ns_ok_def)

lemma cs_add_assoc: "cs_add (cs_add a b) c = cs_add a (cs_add b c)"
  by transfer (simp add: ns_add_assoc)

lemma cs_zero_left: "cs_add cs_zero a = a"
  by transfer (rule ns_zero_left)

lemma npoint_add_assoc: "npoint_add (npoint_add a b) c = npoint_add a (npoint_add b c)"
  by (simp add: npoint_add_def)

lemma cs_text_add: "cs_text (cs_add a b) = ns_add (cs_text a) (cs_text b)"
  by transfer simp

lemma ns_add_points:
  "(ns_row (ns_add a b), ns_column (ns_add a b)) = npoint_add (ns_row a, ns_column a) (ns_row b, ns_column b)"
  "(ns_row (ns_add a b), ns_last_utf16 (ns_add a b)) = npoint_add (ns_row a, ns_last_utf16 a) (ns_row b, ns_last_utf16 b)"
  by (simp_all add: npoint_add_def)

interpretation rope: summary_monoid rope_ops
  by unfold_locales (simp_all add: rope_ops_def cs_add_assoc cs_zero_left)

section \<open>The summary of a text\<close>

definition ns_of :: "rchar list \<Rightarrow> nat_summary" where
  "ns_of s =
     \<lparr>ns_len = str_len s, ns_chars = length s, ns_utf16 = utf16_len s, ns_row = rows s, ns_column = str_len (last_line s),
      ns_first = length (first_line s), ns_last = length (last_line s), ns_last_utf16 = utf16_len (last_line s),
      ns_longest_row = fst (longest_line s), ns_longest = snd (longest_line s)\<rparr>"

lemma ns_of_sel [simp]:
  "ns_len (ns_of s) = str_len s" "ns_chars (ns_of s) = length s" "ns_utf16 (ns_of s) = utf16_len s" "ns_row (ns_of s) = rows s"
  "ns_column (ns_of s) = str_len (last_line s)" "ns_first (ns_of s) = length (first_line s)"
  "ns_last (ns_of s) = length (last_line s)" "ns_last_utf16 (ns_of s) = utf16_len (last_line s)"
  "ns_longest_row (ns_of s) = fst (longest_line s)" "ns_longest (ns_of s) = snd (longest_line s)"
  by (simp_all add: ns_of_def)

lemma ns_of_append: "ns_of (s @ t) = ns_add (ns_of s) (ns_of t)"
proof -
  have "longest_line (s @ t) = add_longest_row (ns_of s) (ns_of t)"
    by (simp add: lines_append(4) join_longest_def add_longest_row_def Let_def)
  then show ?thesis
    by (intro nat_summary.equality) (simp_all add: lines_append single_line)
qed

lemma ns_ok_of: "ns_ok (ns_of s)"
proof -
  obtain l ls where l: "split_lines s = l # ls" by (cases "split_lines s") simp_all
  then have "length l \<le> snd (longest_line s)" "snd (longest_line s) = length l \<longrightarrow> fst (longest_line s) = 0"
    by (auto simp: longest_line_def split: prod.splits)
  moreover have "longest_line s = (0, length l) \<and> last_line s = l" if "rows s = 0"
    using that l by (simp add: rows_def longest_line_def last_line_def)
  ultimately show ?thesis using l by (auto simp: ns_ok_def first_line_def)
qed

lift_definition cs_of :: "rchar list \<Rightarrow> chunk_summary" is ns_of
  by (rule ns_ok_of)

lemma cs_of_simps [simp]: "cs_text (cs_of s) = ns_of s" "cs_add (cs_of s) (cs_of t) = cs_of (s @ t)"
  by (transfer, simp add: ns_of_append)+

lemma cs_zero_of: "cs_zero = cs_of []"
  by transfer (simp add: ns_zero_def ns_of_def rows_def last_line_def first_line_def longest_line_def)

lemma unat_nat32: "n < 2 ^ 32 \<Longrightarrow> unat (of_nat n :: u32) = n"
  by (simp add: unat_of_nat)

lemma nat_of_summary_of:
  assumes "str_len s < 2 ^ 32"
  shows "nat_of_summary (summary_of s) = ns_of s"
proof -
  have "rows s < 2 ^ 32" "str_len (last_line s) < 2 ^ 32" "length (first_line s) < 2 ^ 32" "length (last_line s) < 2 ^ 32"
    "utf16_len (last_line s) < 2 ^ 32" "fst (longest_line s) < 2 ^ 32" "snd (longest_line s) < 2 ^ 32"
    using line_bounds [of s] char_bounds [of s] longest_bounds [of s] assms by linarith+
  then show ?thesis by (simp add: nat_of_summary_def ns_of_def summary_of_def unat_nat32 del: of_nat_numeral)
qed

lemma chunk_item_summary_of: "str_len s \<le> 128 \<Longrightarrow> chunk_item_summary (chunk_of s) = cs_of s"
proof -
  assume "str_len s \<le> 128"
  then have "nat_of_summary (summary_of s) = ns_of s" by (intro nat_of_summary_of) simp
  moreover have "cs_make (ns_of s) = cs_of s" by transfer (simp add: ns_ok_of)
  ultimately show ?thesis
    using chunk_text_summary_correct [OF \<open>str_len s \<le> 128\<close>] by (simp add: chunk_item_summary_def)
qed


section \<open>Ropes and what they measure\<close>

text \<open>The tree of a rope holds the texts \<open>ss\<close>, one per chunk.\<close>

definition rope_texts :: "rchar list list \<Rightarrow> bool" where
  "rope_texts ss \<longleftrightarrow> (\<forall>s \<in> set ss. valid_str s \<and> s \<noteq> [] \<and> str_len s \<le> 128)"

definition holds :: "(chunk, chunk_summary) sum_tree \<Rightarrow> rchar list list \<Rightarrow> bool" where
  "holds t ss \<longleftrightarrow> wf_tree rope_ops t \<and> elems t = map chunk_of ss \<and> rope_texts ss"

lemma rope_texts_simps [simp]:
  "rope_texts []" "rope_texts (s # ss) \<longleftrightarrow> valid_str s \<and> s \<noteq> [] \<and> str_len s \<le> 128 \<and> rope_texts ss"
  "rope_texts (ss @ ss') \<longleftrightarrow> rope_texts ss \<and> rope_texts ss'"
  by (auto simp: rope_texts_def)

lemma rope_item: "str_len s \<le> 128 \<Longrightarrow> s_item rope_ops (chunk_of s) = cs_of s"
  by (simp add: rope_ops_def chunk_item_summary_of)

lemma rope_sum: "rope_texts ss \<Longrightarrow> item_sum rope_ops (map chunk_of ss) = cs_of (concat ss)"
proof -
  have "foldl (s_add rope_ops) (cs_of u) (map (s_item rope_ops) (map chunk_of ss)) = cs_of (u @ concat ss)" if "rope_texts ss" for u
    using that by (induction ss arbitrary: u) (simp_all add: rope_item, simp add: rope_ops_def)
  from this [of "[]"] show "rope_texts ss \<Longrightarrow> ?thesis"
    by (simp add: item_sum_def sum_of_def) (simp add: rope_ops_def cs_zero_of)
qed

lemma holds_summary: "holds t ss \<Longrightarrow> summary t = cs_of (concat ss)"
  using wf_summary [of rope_ops t] rope_sum by (simp add: holds_def)

text \<open>A dimension of a rope measures the text before a position.\<close>

locale text_measure = tree_dimension rope_ops dim for dim :: "(chunk_summary, 'd) dimension" +
  fixes measure_of :: "rchar list \<Rightarrow> 'd"
  assumes measure_zero: "d_zero dim = measure_of []"
    and measure_add: "d_add dim (measure_of s) (cs_of t) = measure_of (s @ t)"
begin

lemma measure_at: "rope_texts ss \<Longrightarrow> pos_at rope_ops dim (measure_of u) (map chunk_of ss) = measure_of (u @ concat ss)"
  by (induction ss arbitrary: u) (simp_all add: rope_item measure_add)

lemma measure_ends:
  "rope_texts ss \<Longrightarrow> i < length ss \<Longrightarrow>
   ends dim (measure_of u) (map (s_item rope_ops) (map chunk_of ss)) ! i = measure_of (u @ concat (take (Suc i) ss))"
  by (induction ss arbitrary: u i) (auto simp: rope_item measure_add nth_Cons split: nat.splits)

lemma measure_extent: "holds t ss \<Longrightarrow> extent dim t = measure_of (concat ss)"
  by (simp add: extent_def holds_summary measure_zero measure_add)

text \<open>A target that is passed as the text grows.\<close>

definition falling :: "('d \<Rightarrow> ordering) \<Rightarrow> bool" where
  "falling target \<longleftrightarrow> (\<forall>s t. rank (target (measure_of (s @ t))) \<le> rank (target (measure_of s)))"

lemma falling_mono:
  assumes "falling target" "rope_texts ss"
  shows "mono_target target (item_ends rope_ops dim (measure_of u) (map chunk_of ss))"
  unfolding mono_target_def sorted_wrt_iff_nth_less
proof (intro allI impI)
  fix i j
  assume "i < j" "j < length (item_ends rope_ops dim (measure_of u) (map chunk_of ss))"
  moreover from this obtain us where "take (Suc j) ss = take (Suc i) ss @ us"
    by (metis Suc_le_mono le_add_diff_inverse less_imp_le take_add)
  ultimately show "rank (target (item_ends rope_ops dim (measure_of u) (map chunk_of ss) ! j))
      \<le> rank (target (item_ends rope_ops dim (measure_of u) (map chunk_of ss) ! i))"
    using assms measure_ends [OF assms(2)] by (simp add: falling_def item_ends_def flip: append_assoc)
qed

text \<open>\<open>find\<close> splits the text at the chunk where the target lies.\<close>

definition cut :: "('d \<Rightarrow> ordering) \<Rightarrow> bias \<Rightarrow> rchar list \<Rightarrow> rchar list list \<Rightarrow> rchar list list \<Rightarrow> bool" where
  "cut target bias u as bs \<longleftrightarrow> (as \<noteq> [] \<longrightarrow> past_end target bias (measure_of (u @ concat as))) \<and>
     (bs \<noteq> [] \<longrightarrow> \<not> past_end target bias (measure_of (u @ concat as @ hd bs)))"

lemma find_items_text:
  "rope_texts ss \<Longrightarrow> ss \<noteq> [] \<Longrightarrow> in_child target bias (measure_of (u @ concat ss)) \<Longrightarrow>
   \<exists>as s bs q. ss = as @ s # bs \<and> cut target bias u as (s # bs) \<and>
     find_items dim (in_child target bias) (measure_of u) p (map chunk_of ss) (map (s_item rope_ops) (map chunk_of ss)) =
     (measure_of (u @ concat as), Some (q, chunk_of s, measure_of (u @ concat as @ s)))"
proof (induction ss arbitrary: u p)
  case (Cons s ss)
  show ?case
  proof (cases "in_child target bias (measure_of (u @ s))")
    case True
    with Cons.prems show ?thesis
      by (intro exI [of _ "[]"] exI [of _ s] exI [of _ ss] exI [of _ p]) (simp add: cut_def rope_item measure_add past_end_in_child)
  next
    case False
    with Cons.prems have "ss \<noteq> []" by auto
    have "in_child target bias (measure_of ((u @ s) @ concat ss))" "rope_texts ss" using Cons.prems by simp_all
    from Cons.IH [OF this(2) \<open>ss \<noteq> []\<close> this(1), of "Some (chunk_of s)"] obtain as s' bs q where
      "ss = as @ s' # bs" "cut target bias (u @ s) as (s' # bs)"
      "find_items dim (in_child target bias) (measure_of (u @ s)) (Some (chunk_of s)) (map chunk_of ss) (map (s_item rope_ops) (map chunk_of ss)) =
       (measure_of ((u @ s) @ concat as), Some (q, chunk_of s', measure_of ((u @ s) @ concat as @ s')))"
      by (elim exE conjE) (rule that)
    with False Cons.prems show ?thesis
      by (intro exI [of _ "s # as"] exI [of _ s'] exI [of _ bs] exI [of _ q])
        (cases "as = []", simp_all add: cut_def rope_item measure_add past_end_in_child)
  qed
qed simp

lemma find_text:
  assumes "holds t ss" "falling target" "ss \<noteq> []"
  shows "past_end target bias (measure_of (concat ss)) \<Longrightarrow>
      tree_find dim target bias t = (measure_of (concat ss), measure_of (concat ss), None)"
    and "\<not> past_end target bias (measure_of (concat ss)) \<Longrightarrow>
      \<exists>as s bs. ss = as @ s # bs \<and> cut target bias [] as (s # bs) \<and>
        tree_find dim target bias t = (measure_of (concat as), measure_of (concat as @ s), Some (chunk_of s))"
proof -
  note t = assms(1) [unfolded holds_def]
  have "mono_target target (ends dim (d_zero dim) (map (s_item rope_ops) (elems t)))"
    using falling_mono [OF assms(2), of ss "[]"] t by (simp add: item_ends_def measure_zero)
  from find_correct [OF t [THEN conjunct1] this, of bias]
  have find: "tree_find dim target bias t = (if past_end target bias (measure_of (concat ss))
      then (measure_of (concat ss), measure_of (concat ss), None)
      else case find_items dim (in_child target bias) (measure_of []) None (map chunk_of ss) (map (s_item rope_ops) (map chunk_of ss)) of
        (pos, Some (prev, item, e)) \<Rightarrow> (pos, e, Some item) | (pos, None) \<Rightarrow> (pos, pos, None))"
    using t by (simp add: measure_extent [OF assms(1)] measure_zero)
  then show "past_end target bias (measure_of (concat ss)) \<Longrightarrow>
      tree_find dim target bias t = (measure_of (concat ss), measure_of (concat ss), None)" by simp
  assume n: "\<not> past_end target bias (measure_of (concat ss))"
  then have "in_child target bias (measure_of ([] @ concat ss))" by (simp add: past_end_in_child)
  from find_items_text [OF _ assms(3) this, of None] t obtain as s bs q where
    "ss = as @ s # bs" "cut target bias [] as (s # bs)"
    "find_items dim (in_child target bias) (measure_of []) None (map chunk_of ss) (map (s_item rope_ops) (map chunk_of ss)) =
     (measure_of ([] @ concat as), Some (q, chunk_of s, measure_of ([] @ concat as @ s)))"
    by (elim conjE meta_impE exE) (simp, rule that)
  with find n show "\<exists>as s bs. ss = as @ s # bs \<and> cut target bias [] as (s # bs) \<and>
      tree_find dim target bias t = (measure_of (concat as), measure_of (concat as @ s), Some (chunk_of s))" by auto
qed

text \<open>Where a cursor on the tree stands: before chunk \<open>s\<close>, with \<open>as\<close> before it, or at the end.\<close>

definition stands :: "(chunk, chunk_summary, 'd) cursor \<Rightarrow> rchar list list \<Rightarrow> rchar list list \<Rightarrow> bool" where
  "stands c as bs \<longleftrightarrow> holds (c_tree c) (as @ bs) \<and> height (c_tree c) < STACK_CAPACITY \<and> cursor_at rope_ops dim c (length as)"

lemma stands_reads:
  assumes "stands c as bs"
  shows "cursor_start c = measure_of (concat as)" "cursor_item c = Some (case bs of [] \<Rightarrow> None | s # _ \<Rightarrow> Some (chunk_of s))"
    "cursor_end dim c = Some (measure_of (concat as @ (case bs of [] \<Rightarrow> [] | s # _ \<Rightarrow> s)))"
proof -
  note c = assms [unfolded stands_def holds_def]
  show "cursor_start c = measure_of (concat as)"
    using c measure_at [of as "[]"] by (simp add: cursor_start_def cursor_at_def measure_zero)
  show "cursor_item c = Some (case bs of [] \<Rightarrow> None | s # _ \<Rightarrow> Some (chunk_of s))"
    using cursor_item_at(1) [of rope_ops dim c "length as"] c by (simp add: get_opt_def nth_append split: list.splits)
  show "cursor_end dim c = Some (measure_of (concat as @ (case bs of [] \<Rightarrow> [] | s # _ \<Rightarrow> s)))"
    using cursor_end_at [of rope_ops dim c "length as"] c measure_at [of "as @ take 1 bs" "[]"]
    by (cases bs) (simp_all add: measure_zero)
qed

lemma stop_at_text:
  "rope_texts ss \<Longrightarrow> \<exists>as bs. ss = as @ bs \<and> stop_at rope_ops dim target bias (measure_of u) (map chunk_of ss) = length as \<and>
     cut target bias u as bs"
proof (induction ss arbitrary: u)
  case (Cons s ss)
  show ?case
  proof (cases "past_end target bias (measure_of (u @ s))")
    case True
    from Cons.prems have "rope_texts ss" by simp
    from Cons.IH [OF this, of "u @ s"] obtain as bs where "ss = as @ bs"
      "stop_at rope_ops dim target bias (measure_of (u @ s)) (map chunk_of ss) = length as" "cut target bias (u @ s) as bs"
      by (elim exE conjE) (rule that)
    with True Cons.prems show ?thesis
      by (intro exI [of _ "s # as"] exI [of _ bs]) (cases "as = []", simp_all add: stop_at_Cons rope_item measure_add cut_def)
  next
    case False
    with Cons.prems show ?thesis
      by (intro exI [of _ "[]"] exI [of _ "s # ss"]) (simp add: stop_at_Cons rope_item measure_add cut_def)
  qed
qed (simp add: cut_def)

lemma seek_text:
  assumes "holds (c_tree c) ss" "height (c_tree c) < STACK_CAPACITY" "falling target" "is_ge (target (measure_of []))"
  obtains c' found as bs where "cursor_seek dim target bias c = Some (c', found)" "c_tree c' = c_tree c" "ss = as @ bs"
    "stands c' as bs" "cut target bias [] as bs"
proof -
  note c = assms(1) [unfolded holds_def]
  from stop_at_text [of ss target bias "[]"] c obtain as bs where ab: "ss = as @ bs"
    "stop_at rope_ops dim target bias (measure_of []) (map chunk_of ss) = length as" "cut target bias [] as bs"
    by (elim conjE meta_impE exE) (simp, rule that)
  have "mono_target target (item_ends rope_ops dim (d_zero dim) (elems (c_tree c)))"
    using falling_mono [OF assms(3), of ss "[]"] c by (simp add: measure_zero)
  from seek_correct [OF _ assms(2) _ this, of "length as" bias] c ab(2) assms(4) obtain c' found where c':
    "cursor_seek dim target bias c = Some (c', found)" "c_tree c' = c_tree c" "cursor_at rope_ops dim c' (length as)"
    by (auto simp: measure_zero)
  show ?thesis by (rule that [OF c'(1,2) ab(1) _ ab(3)]) (use ab(1) c' assms(1,2) in \<open>simp add: stands_def\<close>)
qed

text \<open>Moving on from there: \<open>seek_forward\<close>, \<open>slice\<close> and \<open>summary\<close> pass over the same chunks.\<close>

lemma forward_text:
  assumes "stands c as bs" "falling target" "is_ge (target (measure_of (concat as)))"
  obtains as' bs' where "bs = as' @ bs'" "cut target bias (concat as) as' bs'"
    "\<exists>c' found. cursor_seek_forward dim target bias c = Some (c', found) \<and> c_tree c' = c_tree c \<and> stands c' (as @ as') bs'"
    "\<exists>c' t. cursor_slice rope_ops dim target bias c = Some (c', t) \<and> c_tree c' = c_tree c \<and> stands c' (as @ as') bs' \<and> holds t as'"
proof -
  note c = assms(1) [unfolded stands_def holds_def]
  have pos: "c_position c = measure_of (concat as)" using stands_reads(1) [OF assms(1)] by (simp add: cursor_start_def)
  have dr: "drop (length as) (elems (c_tree c)) = map chunk_of bs" using c by simp
  from stop_at_text [of bs target bias "concat as"] c obtain as' bs' where ab: "bs = as' @ bs'"
    "stop_at rope_ops dim target bias (measure_of (concat as)) (map chunk_of bs) = length as'" "cut target bias (concat as) as' bs'"
    by (elim conjE meta_impE exE) (simp, rule that)
  have mono: "mono_target target (item_ends rope_ops dim (c_position c) (drop (length as) (elems (c_tree c))))"
    using falling_mono [OF assms(2), of bs "concat as"] c by (simp add: pos)
  have pre: "wf_tree rope_ops (c_tree c)" "height (c_tree c) < STACK_CAPACITY" "cursor_ready rope_ops dim c (length as)"
    "is_ge (target (c_position c))"
    using c assms(3) by (simp_all add: cursor_ready_def pos)
  have k: "length as' = stop_at rope_ops dim target bias (c_position c) (drop (length as) (elems (c_tree c)))"
    using ab(2) by (simp add: pos dr)
  have "\<exists>c' found. cursor_seek_forward dim target bias c = Some (c', found) \<and> c_tree c' = c_tree c \<and> cursor_at rope_ops dim c' (length as + length as')"
    using unit.seek_internal_correct [OF pre mono _ k, of "()"] by (auto simp: cursor_seek_forward_def)
  moreover have "\<exists>c' t. cursor_slice rope_ops dim target bias c = Some (c', t) \<and> c_tree c' = c_tree c \<and>
      cursor_at rope_ops dim c' (length as + length as') \<and> holds t as'"
    using slice_correct [OF pre mono k] c ab(1) by (auto simp: holds_def dr)
  ultimately show ?thesis
    using c ab by (intro that [OF ab(1,3)]) (auto simp: stands_def holds_def)
qed


lemma next_text:
  assumes "stands c as (s # bs)"
  shows "\<exists>c'. cursor_next dim c = Some c' \<and> c_tree c' = c_tree c \<and> stands c' (as @ [s]) bs"
proof -
  note c = assms [unfolded stands_def holds_def]
  have "drop (Suc (length as)) (elems (c_tree c)) = map chunk_of bs" "length (elems (c_tree c)) = Suc (length as + length bs)"
    using c by simp_all
  with search_forward_correct(2) [of c "\<lambda>_. True" "length as"] c show ?thesis
    by (cases bs) (auto simp: cursor_next_def stands_def holds_def)
qed

lemma next_fresh:
  assumes "holds (c_tree c) ss" "height (c_tree c) < STACK_CAPACITY" "cursor_fresh dim c"
  shows "\<exists>c'. cursor_next dim c = Some c' \<and> c_tree c' = c_tree c \<and> stands c' [] ss"
  using search_forward_correct(1) [of c "\<lambda>_. True"] assms
  by (cases ss) (auto simp: cursor_next_def stands_def holds_def)

lemma next_end:
  assumes "stands c as []"
  shows "\<exists>c'. cursor_next dim c = Some c' \<and> c_tree c' = c_tree c \<and> stands c' as []"
proof -
  note c = assms [unfolded stands_def holds_def]
  with search_forward_correct(2) [of c "\<lambda>_. True" "length as"] show ?thesis
    by (auto simp: cursor_next_def stands_def holds_def)
qed

lemma prev_text:
  assumes "stands c (as @ [s]) bs"
  shows "\<exists>c'. cursor_prev dim c = Some c' \<and> c_tree c' = c_tree c \<and> stands c' as (s # bs)"
proof -
  note c = assms [unfolded stands_def holds_def]
  have "take (Suc (length as)) (elems (c_tree c)) = map chunk_of (as @ [s])" using c by simp
  with search_backward_correct [of c "\<lambda>_. True" "Suc (length as)"] c show ?thesis
    by (auto simp: cursor_prev_def stands_def holds_def)
qed

lemma prev_start:
  assumes "stands c [] (s # bs)"
  shows "\<exists>c'. cursor_prev dim c = Some c' \<and> c_tree c' = c_tree c \<and> cursor_before dim c'"
proof -
  note c = assms [unfolded stands_def holds_def]
  with search_backward_correct [of c "\<lambda>_. True" 0] show ?thesis
    by (auto simp: cursor_prev_def)
qed

lemma suffix_text:
  assumes "stands c as bs"
  shows "\<exists>c' t. cursor_suffix rope_ops dim c = Some (c', t) \<and> holds t bs"
proof -
  note c = assms [unfolded stands_def holds_def]
  with suffix_correct [of c "length as"] show ?thesis
    by (auto simp: cursor_ready_def holds_def)
qed

end

text \<open>An ordered dimension grows with the text.\<close>

locale ordered_measure = text_measure dim measure_of
  for dim :: "(chunk_summary, 'd::linorder) dimension" and measure_of +
  assumes measure_strict: "t \<noteq> [] \<Longrightarrow> measure_of s < measure_of (s @ t)"
begin

lemma measure_le: "measure_of s \<le> measure_of (s @ t)"
  using measure_strict [of t s] by (cases "t = []") auto

lemma falling_ord: "falling (ord_cmp x)"
proof -
  have "rank (ord_cmp x b) \<le> rank (ord_cmp x a)" if "a \<le> b" for a b
    using that by (auto simp: ord_cmp_def)
  then show ?thesis using measure_le by (auto simp: falling_def)
qed

text \<open>Positions that are ordered like two prefixes of a text order the prefixes.\<close>

lemma prefix_split:
  assumes "a @ b = u @ v" "measure_of u \<le> measure_of a"
  obtains w where "a = u @ w" "v = w @ b"
proof -
  from assms(1) consider w where "a = u @ w" "w @ b = v" | w where "a @ w = u" "b = w @ v"
    by (auto simp: append_eq_append_conv2)
  then show ?thesis
  proof cases
    case 2
    with assms(2) measure_strict [of w a] have "w = []" by force
    with 2 that [of "[]"] show ?thesis by simp
  qed (use that in auto)
qed

lemma measure_inj: "a @ b = u @ v \<Longrightarrow> measure_of u = measure_of a \<Longrightarrow> u = a"
  using prefix_split [of a b u v] measure_strict by (metis append_Nil2 less_irrefl order_refl)

end

text \<open>Searching by one dimension and reading another.\<close>

locale two_measures = ordered_measure dim measure_of + other: text_measure out out_of
  for dim :: "(chunk_summary, 'd::linorder) dimension" and measure_of
    and out :: "(chunk_summary, 'e) dimension" and out_of
begin

lemma pair_measure: "text_measure (dimensions dim out) (\<lambda>s. (measure_of s, out_of s))"
  by unfold_locales
    (simp_all add: dimensions_def d_add_add other.d_add_add measure_zero measure_add other.measure_zero other.measure_add split: prod.splits)

end

sublocale two_measures < pair: text_measure "dimensions dim out" "\<lambda>s. (measure_of s, out_of s)"
  by (rule pair_measure)

context two_measures
begin

lemma pair_falling: "pair.falling (dimensions_target (ord_cmp x))"
  using falling_ord [of x] by (simp add: pair.falling_def falling_def dimensions_target_def)

lemma pair_cut: "pair.cut (dimensions_target target) bias u as bs \<longleftrightarrow> cut target bias u as bs"
  by (simp add: pair.cut_def cut_def past_end_def dimensions_target_def)

text \<open>The position of a prefix that is not the whole text lies in the chunk where the prefix ends.\<close>

lemma cut_prefix:
  assumes "concat as @ s @ v = a @ b" "cut (ord_cmp (measure_of a)) Left [] as (s # bs)"
  obtains w z where "s = w @ z" "a = concat as @ w" "b = z @ v"
proof -
  have "measure_of a \<le> measure_of (concat as @ s)"
    using assms(2) by (auto simp: cut_def past_end_def ord_cmp_def split: if_splits)
  then obtain z where z: "concat as @ s = a @ z" "b = z @ v"
    using prefix_split [of "concat as @ s" v a b] assms(1) by auto
  have "measure_of (concat as) \<le> measure_of a"
    using assms(2) measure_le [of "[]" a] by (cases "as = []") (auto simp: cut_def past_end_def ord_cmp_def split: if_splits)
  then obtain w where "a = concat as @ w" "s = w @ z"
    using prefix_split [of a z "concat as" s] z by auto
  with z that show ?thesis by blast
qed

lemma find_prefix:
  assumes "holds t ss" "concat ss = a @ b" "b \<noteq> []"
  obtains as w z bs where "ss = as @ (w @ z) # bs" "a = concat as @ w" "b = z @ concat bs"
    "tree_find (dimensions dim out) (dimensions_target (ord_cmp (measure_of a))) Left t =
     ((measure_of (concat as), out_of (concat as)), (measure_of (concat as @ w @ z), out_of (concat as @ w @ z)), Some (chunk_of (w @ z)))"
proof -
  have "ss \<noteq> []" using assms by auto
  moreover have "\<not> past_end (dimensions_target (ord_cmp (measure_of a))) Left (measure_of (concat ss), out_of (concat ss))"
    using measure_strict [OF assms(3), of a] assms(2) by (auto simp: past_end_def dimensions_target_def ord_cmp_def)
  ultimately obtain as s bs where s: "ss = as @ s # bs" "cut (ord_cmp (measure_of a)) Left [] as (s # bs)"
    "tree_find (dimensions dim out) (dimensions_target (ord_cmp (measure_of a))) Left t =
     ((measure_of (concat as), out_of (concat as)), (measure_of (concat as @ s), out_of (concat as @ s)), Some (chunk_of s))"
    using pair.find_text(2) [OF assms(1) pair_falling, of "measure_of a" Left] pair_cut by blast
  from cut_prefix [OF _ s(2), of "concat bs" b] assms(2) s(1) obtain w z where "s = w @ z" "a = concat as @ w" "b = z @ concat bs"
    by auto
  with s that show ?thesis by simp
qed

end

section \<open>Interpretations\<close>

abbreviation point_of_text :: "rchar list \<Rightarrow> npoint" where
  "point_of_text s \<equiv> (rows s, str_len (last_line s))"

abbreviation point_utf16_of_text :: "rchar list \<Rightarrow> npoint" where
  "point_utf16_of_text s \<equiv> (rows s, utf16_len (last_line s))"

lemma empty_lines [simp]: "rows [] = 0" "last_line [] = []" "first_line [] = []"
  by (simp_all add: rows_def last_line_def first_line_def)

lemma last_line_one_row: "rows t = 0 \<Longrightarrow> last_line t = t"
  using line_no_newline rows_0 by blast

lemma utf16_len_pos: "t \<noteq> [] \<Longrightarrow> 0 < utf16_len t"
  by (cases t) (simp_all add: char_len_utf16_def)

lemma str_len_pos: "t \<noteq> [] \<Longrightarrow> 0 < str_len t"
  by (cases t) (simp_all add: len_utf8_def)

interpretation usize: ordered_measure usize_dim str_len
  by unfold_locales (simp_all add: rope_ops_def usize_dim_def cs_text_add str_len_pos)

interpretation utf16: ordered_measure utf16_dim utf16_len
  by unfold_locales (simp_all add: rope_ops_def utf16_dim_def cs_text_add utf16_len_pos)

interpretation pt: ordered_measure point_dim point_of_text
  by unfold_locales
    (simp_all add: rope_ops_def point_dim_def cs_text_add npoint_add_assoc ns_add_points,
     simp_all add: npoint_add_def lines_append less_prod_def last_line_one_row str_len_pos)

interpretation pt16: ordered_measure point_utf16_dim point_utf16_of_text
  by unfold_locales
    (simp_all add: rope_ops_def point_utf16_dim_def cs_text_add npoint_add_assoc ns_add_points,
     simp_all add: npoint_add_def lines_append less_prod_def last_line_one_row utf16_len_pos)

lemma cs_text_ok: "ns_ok (cs_text s)"
  by transfer simp

interpretation full: text_measure text_dim ns_of
  by unfold_locales
    (simp_all add: rope_ops_def text_dim_def cs_text_add cs_text_ok ns_add_assoc ns_of_append,
     simp add: ns_zero_def ns_of_def longest_line_def)

interpretation bare: text_measure unit_dim "\<lambda>_. ()"
  by unfold_locales simp_all

end
