(* ===== verification/Rope.thy ===== *)
theory Rope
  imports RopeSummary
begin

text \<open>
  Ropes (\<open>crates/rope/src/rope.rs\<close>): building, joining and cutting. A rope is a sum tree of chunks; a string argument is the
  list of its bytes; \<^const>\<open>None\<close> is a panic.

  A closure passed to \<open>update_last\<close> is run on the last chunk first, and the result put in its place. A loop that looks for a
  character boundary is \<open>scan_left\<close> or \<open>scan_right\<close>; the loops that cut a text into chunks would not end on a text without
  boundaries (which is not UTF-8), and are \<^const>\<open>None\<close> there.
\<close>

section \<open>Building\<close>

type_synonym rope = "(chunk, chunk_summary) sum_tree"

definition MIN_BASE :: nat where
  "MIN_BASE = MAX_BASE div 2"

definition NUM_CHUNKS :: nat where
  "NUM_CHUNKS = 4"

definition PARALLEL_THRESHOLD :: nat where
  "PARALLEL_THRESHOLD = 84 * (2 * TREE_BASE)"

definition rope_new :: rope where
  "rope_new = tree_new rope_ops"

definition rope_len :: "rope \<Rightarrow> nat" where
  "rope_len r = extent usize_dim r"

definition rope_is_empty :: "rope \<Rightarrow> bool" where
  "rope_is_empty r \<longleftrightarrow> rope_len r = 0"

text \<open>How much of \<open>n\<close> new bytes the closures of \<open>push\<close> and \<open>push_chunk\<close> move into the last chunk.\<close>

definition split_ix :: "(nat \<Rightarrow> bool) \<Rightarrow> nat \<Rightarrow> nat \<Rightarrow> nat option" where
  "split_ix is_boundary n last_len =
     (if last_len + n \<le> MAX_BASE then Some n
      else let i = min (MIN_BASE - last_len) n in scan_right is_boundary (n - i) i)"

definition str_split_at :: "u8 list \<Rightarrow> nat \<Rightarrow> (u8 list \<times> u8 list) option" where
  "str_split_at s i = do { rust_assert (str_char_boundary s i); Some (take i s, drop i s) }"

function split_chunks :: "u8 list \<Rightarrow> u8 list list option" where
  "split_chunks s =
     (if s = [] then Some []
      else case scan_left (str_char_boundary s) (min MAX_BASE (length s)) of
          None \<Rightarrow> None
        | Some i \<Rightarrow>
            if i = 0 then None
            else do {
              (chunk, remainder) \<leftarrow> str_split_at s i;
              rest \<leftarrow> split_chunks (drop i s);
              Some (chunk # rest)
            })"
  by pat_completeness auto
termination
  by (relation "measure length") auto

declare split_chunks.simps [simp del]

fun new_chunks :: "u8 list list \<Rightarrow> chunk list option" where
  "new_chunks [] = Some []"
| "new_chunks (s # ss) = do { c \<leftarrow> chunk_new s; cs \<leftarrow> new_chunks ss; Some (c # cs) }"

definition push_large :: "rope \<Rightarrow> u8 list \<Rightarrow> rope option" where
  "push_large r s = do {
     texts \<leftarrow> split_chunks s;
     cs \<leftarrow> new_chunks texts;
     if length texts \<ge> PARALLEL_THRESHOLD then par_extend rope_ops r cs else tree_extend rope_ops r cs
   }"

definition push_last :: "rope \<Rightarrow> u8 list \<Rightarrow> (rope \<times> u8 list) option" where
  "push_last r s = do {
     last_chunk \<leftarrow> tree_last r;
     case last_chunk of
       None \<Rightarrow> do { r' \<leftarrow> update_last rope_ops (\<lambda>c. c) r; Some (r', s) }
     | Some c \<Rightarrow> do {
         i \<leftarrow> split_ix (str_char_boundary s) (length s) (length (c_text c));
         (suffix, remainder) \<leftarrow> str_split_at s i;
         c' \<leftarrow> chunk_push_str c suffix;
         r' \<leftarrow> update_last rope_ops (\<lambda>_. c') r;
         Some (r', remainder)
       }
   }"

definition rope_push :: "rope \<Rightarrow> u8 list \<Rightarrow> rope option" where
  "rope_push r s = do {
     (r1, s1) \<leftarrow> push_last r s;
     if s1 = [] then Some r1
     else if length s1 > NUM_CHUNKS * MAX_BASE - NUM_CHUNKS * 4 then push_large r1 s1
     else do {
       texts \<leftarrow> split_chunks s1;
       rust_assert (length texts \<le> NUM_CHUNKS);
       cs \<leftarrow> new_chunks texts;
       tree_extend rope_ops r1 cs
     }
   }"

definition rope_from :: "u8 list \<Rightarrow> rope option" where
  "rope_from s = rope_push rope_new s"

definition push_chunk :: "rope \<Rightarrow> chunk \<Rightarrow> rope option" where
  "push_chunk r chunk = do {
     last_chunk \<leftarrow> tree_last r;
     (r1, remainder) \<leftarrow> (case last_chunk of
         None \<Rightarrow> do { r' \<leftarrow> update_last rope_ops (\<lambda>c. c) r; Some (r', chunk) }
       | Some c \<Rightarrow> do {
           i \<leftarrow> split_ix (chunk_is_char_boundary chunk) (chunk_len chunk) (length (c_text c));
           (suffix, remainder) \<leftarrow> chunk_split_at chunk i;
           c' \<leftarrow> chunk_append c suffix;
           r' \<leftarrow> update_last rope_ops (\<lambda>_. c') r;
           Some (r', remainder)
         });
     if c_text remainder \<noteq> [] then tree_push rope_ops r1 remainder else Some r1
   }"

definition rope_append :: "rope \<Rightarrow> rope \<Rightarrow> rope option" where
  "rope_append r rope = do {
     first_chunk \<leftarrow> tree_first rope;
     last_chunk \<leftarrow> tree_last r;
     case first_chunk of
       Some chunk \<Rightarrow>
         if (case last_chunk of Some c \<Rightarrow> length (c_text c) < MIN_BASE | None \<Rightarrow> False) \<or> length (c_text chunk) < MIN_BASE
         then do {
           r1 \<leftarrow> push_chunk r chunk;
           c1 \<leftarrow> cursor_next unit_dim (cursor_new unit_dim rope);
           c2 \<leftarrow> cursor_next unit_dim c1;
           (_, rest) \<leftarrow> cursor_suffix rope_ops unit_dim c2;
           tree_append rope_ops r1 rest
         }
         else tree_append rope_ops r rope
     | None \<Rightarrow> tree_append rope_ops r rope
   }"

definition push_front :: "rope \<Rightarrow> u8 list \<Rightarrow> rope option" where
  "push_front r s =
     (if s = [] then Some r
      else if rope_is_empty r then rope_push r s
      else do {
        first_chunk \<leftarrow> tree_first r;
        if (case first_chunk of Some c \<Rightarrow> length (c_text c) + length s \<le> MAX_BASE | None \<Rightarrow> False)
        then do {
          c \<leftarrow> first_chunk;
          c' \<leftarrow> chunk_prepend_str c s;
          update_first rope_ops (\<lambda>_. c') r
        }
        else do { r1 \<leftarrow> rope_from s; rope_append r1 r }
      })"

text \<open>\<open>FromIterator\<close>.\<close>

fun rope_from_iter :: "rope \<Rightarrow> u8 list list \<Rightarrow> rope option" where
  "rope_from_iter r [] = Some r"
| "rope_from_iter r (s # ss) = do { r' \<leftarrow> rope_push r s; rope_from_iter r' ss }"

text \<open>The test-only assertion of \<open>check_invariants\<close>: only the last chunk may be short.\<close>

fun check_invariants :: "nat list \<Rightarrow> bool" where
  "check_invariants (n # m # ns) \<longleftrightarrow> n + 3 \<ge> MIN_BASE \<and> check_invariants (m # ns)"
| "check_invariants _ \<longleftrightarrow> True"

section \<open>Cursors\<close>

record rope_cursor =
  rc_rope :: rope
  rc_chunks :: "(chunk, chunk_summary, nat) cursor"
  rc_offset :: nat

definition cursor_new_at :: "rope \<Rightarrow> nat \<Rightarrow> rope_cursor option" where
  "cursor_new_at r offset = do {
     (c, _) \<leftarrow> cursor_seek usize_dim (ord_cmp offset) Right (cursor_new usize_dim r);
     Some \<lparr>rc_rope = r, rc_chunks = c, rc_offset = offset\<rparr>
   }"

definition rc_seek_forward :: "rope_cursor \<Rightarrow> nat \<Rightarrow> rope_cursor option" where
  "rc_seek_forward rc end_offset = do {
     rust_assert (end_offset \<ge> rc_offset rc);
     rust_assert (end_offset \<le> rope_len (rc_rope rc));
     (c, _) \<leftarrow> cursor_seek_forward usize_dim (ord_cmp end_offset) Right (rc_chunks rc);
     Some (rc\<lparr>rc_chunks := c, rc_offset := end_offset\<rparr>)
   }"

definition slice_end_chunk :: "(chunk, chunk_summary, nat) cursor \<Rightarrow> rope \<Rightarrow> nat \<Rightarrow> rope option" where
  "slice_end_chunk c r end_offset = do {
     end_chunk \<leftarrow> cursor_item c;
     case end_chunk of
       Some chunk \<Rightarrow> do {
         end_ix \<leftarrow> checked_sub end_offset (cursor_start c);
         piece \<leftarrow> chunk_slice chunk (0, end_ix);
         push_chunk r piece
       }
     | None \<Rightarrow> Some r
   }"

definition rc_slice :: "rope_cursor \<Rightarrow> nat \<Rightarrow> (rope_cursor \<times> rope) option" where
  "rc_slice rc end_offset = do {
     rust_assert (end_offset \<ge> rc_offset rc);
     rust_assert (end_offset \<le> rope_len (rc_rope rc));
     start_chunk \<leftarrow> cursor_item (rc_chunks rc);
     chunk_end \<leftarrow> cursor_end usize_dim (rc_chunks rc);
     slice1 \<leftarrow> (case start_chunk of
         Some chunk \<Rightarrow> do {
           start_ix \<leftarrow> checked_sub (rc_offset rc) (cursor_start (rc_chunks rc));
           end_ix \<leftarrow> checked_sub (min end_offset chunk_end) (cursor_start (rc_chunks rc));
           piece \<leftarrow> chunk_slice chunk (start_ix, end_ix);
           push_chunk rope_new piece
         }
       | None \<Rightarrow> Some rope_new);
     (c, slice2) \<leftarrow>
       (if end_offset > chunk_end then do {
          c1 \<leftarrow> cursor_next usize_dim (rc_chunks rc);
          (c2, middle) \<leftarrow> cursor_slice rope_ops usize_dim (ord_cmp end_offset) Right c1;
          slice' \<leftarrow> rope_append slice1 middle;
          slice'' \<leftarrow> slice_end_chunk c2 slice' end_offset;
          Some (c2, slice'')
        }
        else Some (rc_chunks rc, slice1));
     Some (rc\<lparr>rc_chunks := c, rc_offset := end_offset\<rparr>, slice2)
   }"

definition rc_suffix :: "rope_cursor \<Rightarrow> rope option" where
  "rc_suffix rc = map_option snd (rc_slice rc (extent usize_dim (rc_rope rc)))"

definition rope_slice :: "rope \<Rightarrow> nat \<times> nat \<Rightarrow> rope option" where
  "rope_slice r = (\<lambda>(first, last). do {
     c \<leftarrow> cursor_new_at r 0;
     c' \<leftarrow> rc_seek_forward c first;
     map_option snd (rc_slice c' last)
   })"

definition rope_replace :: "rope \<Rightarrow> nat \<times> nat \<Rightarrow> u8 list \<Rightarrow> rope option" where
  "rope_replace r = (\<lambda>(first, last) s. do {
     c \<leftarrow> cursor_new_at r 0;
     (c1, before_range) \<leftarrow> rc_slice c first;
     new1 \<leftarrow> rope_append rope_new before_range;
     c2 \<leftarrow> rc_seek_forward c1 last;
     new2 \<leftarrow> rope_push new1 s;
     after_range \<leftarrow> rc_suffix c2;
     rope_append new2 after_range
   })"

end
