(* ===== verification/Rope_Correct.thy ===== *)
theory Rope_Correct
  imports Rope
begin

text \<open>
  What the operations of \<open>Rope\<close> do. \<open>rope_ok r s\<close> says that the tree of \<open>r\<close> is well-formed, that its chunks are what
  \<open>check_invariants\<close> asserts, and that their texts, put together, are \<open>s\<close>; every operation is shown to keep it and to do to the
  text what its name says.
\<close>

section \<open>The tree of a rope\<close>

lemma holds_new: "holds rope_new []"
  by (simp add: holds_def rope_new_def)

lemma holds_ends:
  assumes "holds r ss"
  shows "tree_first r = Some (if ss = [] then None else Some (chunk_of (hd ss)))"
    "tree_last r = Some (if ss = [] then None else Some (chunk_of (last ss)))"
  using assms tree_first_correct [of rope_ops r] tree_last_correct [of rope_ops r]
  by (cases ss; simp add: holds_def first_opt_def last_opt_def last_map)+

lemma holds_append: "holds r ss \<Longrightarrow> holds q ts \<Longrightarrow> \<exists>r'. tree_append rope_ops r q = Some r' \<and> holds r' (ss @ ts)"
  using rope.append_correct [of r q] by (auto simp: holds_def)

lemma holds_push: "holds r ss \<Longrightarrow> rope_texts [s] \<Longrightarrow> \<exists>r'. tree_push rope_ops r (chunk_of s) = Some r' \<and> holds r' (ss @ [s])"
  using rope.push_correct [of r "chunk_of s"] by (auto simp: holds_def)

lemma holds_extend: "holds r ss \<Longrightarrow> rope_texts ts \<Longrightarrow> \<exists>r'. tree_extend rope_ops r (map chunk_of ts) = Some r' \<and> holds r' (ss @ ts)"
  using rope.extend_correct [of r "map chunk_of ts"] by (auto simp: holds_def)

lemma par_extend_eq: "par_extend rope_ops r cs = tree_extend rope_ops r cs"
  by (simp add: par_extend_def tree_extend_def rope.from_par_iter_eq)

lemma holds_update_last:
  assumes "holds r (as @ [l])" "rope_texts [l']"
  shows "\<exists>r'. update_last rope_ops (\<lambda>_. chunk_of l') r = Some r' \<and> holds r' (as @ [l'])"
  using rope.update_last_correct [of r "\<lambda>_. chunk_of l'"] assms by (auto simp: holds_def update_last_def one_node_def)

lemma holds_update_first:
  assumes "holds r (l # as)" "rope_texts [l']"
  shows "\<exists>r'. update_first rope_ops (\<lambda>_. chunk_of l') r = Some r' \<and> holds r' (l' # as)"
  using rope.update_first_correct [of r "\<lambda>_. chunk_of l'"] assms by (auto simp: holds_def update_first_def one_node_def)

lemma holds_update_none: "holds r [] \<Longrightarrow> update_last rope_ops f r = Some r"
  using rope.update_last_empty [of r f] by (simp add: holds_def)

lemma rope_len_holds: "holds r ss \<Longrightarrow> rope_len r = str_len (concat ss)"
  by (simp add: rope_len_def usize.measure_extent)

section \<open>Splitting at characters\<close>

lemma scan_right_first:
  "i \<le> m \<Longrightarrow> m \<le> i + k \<Longrightarrow> ok m \<Longrightarrow> \<exists>j. scan_right ok k i = Some j \<and> ok j \<and> i \<le> j \<and> j \<le> m"
proof (induction k arbitrary: i)
  case (Suc k)
  show ?case
  proof (cases "ok i")
    case False
    with Suc.prems have "Suc i \<le> m" by (metis le_antisym not_less_eq_eq)
    with Suc.IH [of "Suc i"] Suc.prems False show ?thesis by (auto dest: Suc_leD)
  qed (use Suc.prems in auto)
qed auto

lemma scan_left_first: "m \<le> i \<Longrightarrow> ok m \<Longrightarrow> \<exists>j. scan_left ok i = Some j \<and> ok j \<and> m \<le> j \<and> j \<le> i"
  by (induction i) (auto simp: le_Suc_eq)

lemma boundary_near:
  "i \<le> str_len s \<Longrightarrow> (\<exists>j \<ge> i. boundary s j \<and> j \<le> i + 3) \<and> (\<exists>j \<le> i. boundary s j \<and> i \<le> j + 3)"
proof (induction s arbitrary: i)
  case (Cons c s)
  have len: "1 \<le> len_utf8 c" "len_utf8 c \<le> 4" by (simp_all add: len_utf8_def)
  show ?case
  proof (cases "i < len_utf8 c")
    case True
    then show ?thesis
      using len by (cases "i = 0") (auto simp: boundary_Cons boundary_ends intro: exI [of _ 0] exI [of _ "len_utf8 c"])
  next
    case False
    from Cons.prems have "i - len_utf8 c \<le> str_len s" by simp
    from Cons.IH [OF this] obtain j j' where
      "i - len_utf8 c \<le> j" "boundary s j" "j \<le> i - len_utf8 c + 3" "j' \<le> i - len_utf8 c" "boundary s j'" "i - len_utf8 c \<le> j' + 3"
      by blast
    with False show ?thesis
      by (intro conjI exI [of _ "j + len_utf8 c"] exI [of _ "j' + len_utf8 c"]) (auto simp: boundary_Cons)
  qed
qed auto

lemma split_ix_correct:
  assumes "l \<le> 128"
  obtains u v where "s = u @ v" "split_ix (boundary s) (str_len s) l = Some (str_len u)" "l + str_len u \<le> 128"
    "v \<noteq> [] \<Longrightarrow> 64 \<le> l + str_len u \<and> 128 < l + str_len s \<and> str_len u \<le> 64 - l + 3 \<and> (64 \<le> l \<longrightarrow> u = [])"
proof (cases "l + str_len s \<le> 128")
  case True
  then show ?thesis by (intro that [of s "[]"]) (simp_all add: split_ix_def MAX_BASE_def)
next
  case False
  let ?i = "64 - l"
  have i: "min (MIN_BASE - l) (str_len s) = ?i" "?i \<le> str_len s" using False by (simp_all add: MIN_BASE_def MAX_BASE_def)
  obtain m where m: "?i \<le> m" "boundary s m" "m \<le> ?i + 3" "?i = 0 \<longrightarrow> m = 0" "m \<le> str_len s"
    using boundary_near [OF i(2)] boundary_ends(1) [of s] boundary_le by (cases "?i = 0") auto
  with scan_right_first [of ?i m "str_len s - ?i" "boundary s"] obtain j where
    j: "scan_right (boundary s) (str_len s - ?i) ?i = Some j" "boundary s j" "?i \<le> j" "j \<le> m"
    by auto
  from j(2) obtain u v where "s = u @ v" "j = str_len u" by (auto simp: boundary_def)
  with False i j m assms show ?thesis
    by (intro that [of u v]) (auto simp: split_ix_def MAX_BASE_def)
qed

lemma split_chunks_correct:
  "valid_str s \<Longrightarrow> \<exists>ps. split_chunks (encode s) = Some (map encode ps) \<and> concat ps = s \<and> rope_texts ps \<and>
     (\<forall>p \<in> set (butlast ps). 125 \<le> str_len p)"
proof (induction "str_len s" arbitrary: s rule: less_induct)
  case less
  show ?case
  proof (cases "s = []")
    case True
    then show ?thesis by (intro exI [of _ "[]"]) (simp add: split_chunks.simps)
  next
    case False
    let ?n = "min 128 (str_len s)"
    have bd: "str_char_boundary (encode s) = boundary s" using str_char_boundary_correct [OF less.prems] by blast
    have pos: "0 < ?n" using False str_len_pos by simp
    obtain m where m: "m \<le> ?n" "boundary s m" "?n \<le> m + 3" "str_len s \<le> 128 \<longrightarrow> m = str_len s"
      using boundary_near [of ?n s] boundary_ends(2) [of s] by (cases "str_len s \<le> 128") auto
    with scan_left_first [of m ?n "boundary s"] obtain j where
      j: "scan_left (boundary s) ?n = Some j" "boundary s j" "m \<le> j" "j \<le> ?n" by auto
    from j(2) obtain u v where uv: "s = u @ v" "j = str_len u" by (auto simp: boundary_def)
    have "0 < j" using j m pos by (cases "str_len s \<le> 128") auto
    have u: "valid_str u" "u \<noteq> []" "str_len u \<le> 128" using less.prems uv j \<open>0 < j\<close> by auto
    from less.hyps [of v] less.prems uv \<open>0 < j\<close> obtain ps where
      ps: "split_chunks (encode v) = Some (map encode ps)" "concat ps = v" "rope_texts ps" "\<forall>p \<in> set (butlast ps). 125 \<le> str_len p"
      by auto
    have "take j (encode s) = encode u" "drop j (encode s) = encode v" "encode s \<noteq> []" using uv u(2) encode_Nil_iff [of s] by simp_all
    with j(1,2) \<open>0 < j\<close> ps(1) have "split_chunks (encode s) = Some (map encode (u # ps))"
      by (subst split_chunks.simps) (simp add: MAX_BASE_def str_split_at_def bd)
    moreover have "125 \<le> str_len u" if "ps \<noteq> []"
      using that ps(2,3) uv m j by (cases ps) (auto simp: str_len_pos)
    ultimately show ?thesis
      using ps u uv(1) by (intro exI [of _ "u # ps"]) auto
  qed
qed

lemma new_chunks_correct: "rope_texts ps \<Longrightarrow> new_chunks (map encode ps) = Some (map chunk_of ps)"
  by (induction ps) (simp_all add: chunk_new_correct)

lemma pieces_length: "rope_texts ps \<Longrightarrow> \<forall>p \<in> set (butlast ps). 125 \<le> str_len p \<Longrightarrow> ps \<noteq> [] \<Longrightarrow> 125 * (length ps - 1) < str_len (concat ps)"
proof (induction ps)
  case (Cons p ps)
  then show ?case using str_len_pos [of p] by (cases "ps = []") auto
qed simp

section \<open>What a rope holds\<close>

definition sizes :: "rchar list list \<Rightarrow> bool" where
  "sizes ss \<longleftrightarrow> (\<forall>s \<in> set (butlast ss). 61 \<le> str_len s)"

definition rope_ok :: "rope \<Rightarrow> rchar list \<Rightarrow> bool" where
  "rope_ok r s \<longleftrightarrow> (\<exists>ss. holds r ss \<and> concat ss = s \<and> sizes ss)"

lemma rope_okI: "holds r ss \<Longrightarrow> sizes ss \<Longrightarrow> concat ss = s \<Longrightarrow> rope_ok r s"
  by (auto simp: rope_ok_def)

lemma sizes_simps [simp]: "sizes []" "sizes [s]"
  by (simp_all add: sizes_def)

lemma sizes_append: "ts \<noteq> [] \<Longrightarrow> sizes (ss @ ts) \<longleftrightarrow> (\<forall>s \<in> set ss. 61 \<le> str_len s) \<and> sizes ts"
  by (auto simp: sizes_def butlast_append)

lemma sizes_join: "sizes ss \<Longrightarrow> sizes ts \<Longrightarrow> ss = [] \<or> ts = [] \<or> 61 \<le> str_len (last ss) \<Longrightarrow> sizes (ss @ ts)"
proof (cases "ss = [] \<or> ts = []")
  case False
  moreover assume a: "sizes ss" "sizes ts" "ss = [] \<or> ts = [] \<or> 61 \<le> str_len (last ss)"
  moreover from False have "set ss = insert (last ss) (set (butlast ss))"
    using set_append [of "butlast ss" "[last ss]"] by simp
  ultimately have "\<forall>s \<in> set ss. 61 \<le> str_len s" by (auto simp: sizes_def)
  with a False show ?thesis by (simp add: sizes_append)
qed auto

lemma sizes_check: "sizes ss \<longleftrightarrow> check_invariants (map str_len ss)"
proof -
  have "check_invariants ns \<longleftrightarrow> (\<forall>n \<in> set (butlast ns). 61 \<le> n)" for ns
    by (induction ns rule: check_invariants.induct) (auto simp: MIN_BASE_def MAX_BASE_def)
  then show ?thesis by (simp add: sizes_def flip: map_butlast)
qed

section \<open>Pushing\<close>

lemma chunk_len_of [simp]: "length (c_text (chunk_of s)) = str_len s" "c_text (chunk_of s) = [] \<longleftrightarrow> s = []"
  by (simp_all add: chunk_of_def encode_Nil_iff)

lemma last_texts:
  assumes "rope_texts ss" "ss \<noteq> []"
  obtains as l where "ss = as @ [l]" "valid_str l" "l \<noteq> []" "str_len l \<le> 128" "last ss = l"
  using assms by (cases ss rule: rev_cases) auto

lemma chunk_push_str_correct:
  "valid_str t \<Longrightarrow> str_len s + str_len t \<le> 128 \<Longrightarrow> chunk_push_str (chunk_of s) (encode t) = Some (chunk_of (s @ t))"
  by (simp add: chunk_push_str_def chunk_new_correct chunk_append_correct)

lemma chunk_prepend_str_correct:
  "valid_str t \<Longrightarrow> str_len s + str_len t \<le> 128 \<Longrightarrow> chunk_prepend_str (chunk_of s) (encode t) = Some (chunk_of (t @ s))"
  by (simp add: chunk_prepend_str_def chunk_new_correct chunk_prepend_correct)

text \<open>Both closures: a prefix \<open>u\<close> of the new text goes into the last chunk.\<close>

definition merged :: "rchar list list \<Rightarrow> rchar list \<Rightarrow> rchar list \<Rightarrow> rchar list list \<Rightarrow> bool" where
  "merged ss u v ss' \<longleftrightarrow>
     (if ss = [] then u = [] \<and> ss' = []
      else ss' = butlast ss @ [last ss @ u] \<and>
        (v \<noteq> [] \<longrightarrow> 64 \<le> str_len (last ss @ u) \<and> 128 < str_len (last ss) + str_len (u @ v) \<and>
           str_len u \<le> 64 - str_len (last ss) + 3 \<and> (64 \<le> str_len (last ss) \<longrightarrow> u = [])))"

lemma merged_sizes: "merged ss u v ss' \<Longrightarrow> sizes ss \<Longrightarrow> sizes ss'"
  by (auto simp: merged_def sizes_def split: if_splits)

lemma merged_concat: "merged ss u v ss' \<Longrightarrow> concat ss' = concat ss @ u"
  by (cases ss rule: rev_cases) (auto simp: merged_def)

lemma push_last_correct:
  assumes "holds r ss" "valid_str s"
  obtains u v r' ss' where "s = u @ v" "push_last r (encode s) = Some (r', encode v)" "holds r' ss'" "merged ss u v ss'"
proof (cases "ss = []")
  case True
  with assms show ?thesis
    by (intro that [of "[]" s r "[]"]) (simp_all add: push_last_def holds_ends holds_update_none merged_def)
next
  case False
  with assms(1) obtain as l where l: "ss = as @ [l]" "valid_str l" "l \<noteq> []" "str_len l \<le> 128" "last ss = l"
    by (auto simp: holds_def elim: last_texts)
  obtain u v where uv: "s = u @ v" "split_ix (boundary s) (str_len s) (str_len l) = Some (str_len u)" "str_len l + str_len u \<le> 128"
    "v \<noteq> [] \<Longrightarrow> 64 \<le> str_len l + str_len u \<and> 128 < str_len l + str_len s \<and> str_len u \<le> 64 - str_len l + 3 \<and> (64 \<le> str_len l \<longrightarrow> u = [])"
    using split_ix_correct [OF l(4), of s] by metis
  from holds_update_last [of r as l "l @ u"] assms uv l obtain r' where
    r': "update_last rope_ops (\<lambda>_. chunk_of (l @ u)) r = Some r'" "holds r' (as @ [l @ u])" by auto
  have "str_char_boundary (encode s) = boundary s" using str_char_boundary_correct [OF assms(2)] by blast
  then have "push_last r (encode s) = Some (r', encode v)"
    using False uv(2,3) r'(1) assms l uv(1) boundary_prefix [of u v]
    by (simp add: push_last_def holds_ends str_split_at_def chunk_push_str_correct)
  then show ?thesis
    using uv r'(2) l by (intro that [of u v r' "as @ [l @ u]"]) (auto simp: merged_def)
qed

lemma push_large_correct:
  assumes "holds r ss" "valid_str s" "sizes ss" "ss = [] \<or> 64 \<le> str_len (last ss)"
  shows "\<exists>r' ps. push_large r (encode s) = Some r' \<and> holds r' (ss @ ps) \<and> concat ps = s \<and> sizes (ss @ ps)"
    and "\<exists>r' ps. do { texts \<leftarrow> split_chunks (encode s); cs \<leftarrow> new_chunks texts; tree_extend rope_ops r cs } = Some r' \<and>
      holds r' (ss @ ps) \<and> concat ps = s \<and> sizes (ss @ ps) \<and> split_chunks (encode s) = Some (map encode ps) \<and>
      (s \<noteq> [] \<longrightarrow> 125 * (length ps - 1) < str_len s)"
proof -
  from split_chunks_correct [OF assms(2)] obtain ps where
    ps: "split_chunks (encode s) = Some (map encode ps)" "concat ps = s" "rope_texts ps" "\<forall>p \<in> set (butlast ps). 125 \<le> str_len p"
    by blast
  from holds_extend [OF assms(1) ps(3)] obtain r' where
    r': "tree_extend rope_ops r (map chunk_of ps) = Some r'" "holds r' (ss @ ps)" by blast
  have "sizes ps" using ps(4) by (force simp: sizes_def)
  then have sz: "sizes (ss @ ps)" using assms(3,4) by (intro sizes_join) auto
  have "s \<noteq> [] \<longrightarrow> 125 * (length ps - 1) < str_len s" using pieces_length [OF ps(3,4)] ps(2) by (cases "ps = []") auto
  with ps r' sz new_chunks_correct [OF ps(3)]
  show "\<exists>r' ps. push_large r (encode s) = Some r' \<and> holds r' (ss @ ps) \<and> concat ps = s \<and> sizes (ss @ ps)"
    and "\<exists>r' ps. do { texts \<leftarrow> split_chunks (encode s); cs \<leftarrow> new_chunks texts; tree_extend rope_ops r cs } = Some r' \<and>
      holds r' (ss @ ps) \<and> concat ps = s \<and> sizes (ss @ ps) \<and> split_chunks (encode s) = Some (map encode ps) \<and>
      (s \<noteq> [] \<longrightarrow> 125 * (length ps - 1) < str_len s)"
    by (auto simp: push_large_def par_extend_eq)
qed

lemma push_ok:
  assumes "rope_ok r s" "valid_str t"
  shows "\<exists>r'. rope_push r (encode t) = Some r' \<and> rope_ok r' (s @ t)"
proof -
  from assms(1) obtain ss where ss: "holds r ss" "concat ss = s" "sizes ss" by (auto simp: rope_ok_def)
  from push_last_correct [OF ss(1) assms(2)] obtain u v r1 ss1 where
    uv: "t = u @ v" "push_last r (encode t) = Some (r1, encode v)" "holds r1 ss1" "merged ss u v ss1" by metis
  note sz = merged_sizes [OF uv(4) ss(3)] and cc = merged_concat [OF uv(4)]
  show ?thesis
  proof (cases "v = []")
    case True
    with uv sz cc ss show ?thesis by (auto simp: rope_push_def rope_ok_def)
  next
    case False
    have v: "valid_str v" "encode v \<noteq> []" using assms(2) uv(1) False by (simp_all add: encode_Nil_iff)
    have "ss1 = [] \<or> 64 \<le> str_len (last ss1)" using uv(4) False by (auto simp: merged_def split: if_splits)
    note large = push_large_correct [OF uv(3) v(1) sz this]
    from large(1) obtain ra pa where a: "push_large r1 (encode v) = Some ra" "rope_ok ra (s @ t)"
      using cc ss uv(1) by (metis rope_okI concat_append append_assoc)
    from large(2) obtain rb ps where b: "split_chunks (encode v) = Some (map encode ps)" "125 * (length ps - 1) < str_len v"
      "do { cs \<leftarrow> new_chunks (map encode ps); tree_extend rope_ops r1 cs } = Some rb" "rope_ok rb (s @ t)"
      using cc ss uv(1) False rope_okI [of _ "ss1 @ _" "s @ t"] by auto
    show ?thesis
    proof (cases "str_len v > 496")
      case True
      with a uv(2) v show ?thesis by (auto simp: rope_push_def NUM_CHUNKS_def MAX_BASE_def)
    next
      case small: False
      with b(2) have "length ps \<le> 4" by linarith
      with small b uv(2) v show ?thesis by (auto simp: rope_push_def NUM_CHUNKS_def MAX_BASE_def)
    qed
  qed
qed


lemma push_chunk_correct:
  assumes "holds r ss" "valid_str s" "str_len s \<le> 128" "sizes ss"
  obtains r' ss' where "push_chunk r (chunk_of s) = Some r'" "holds r' ss'" "concat ss' = concat ss @ s" "sizes ss'"
    "61 \<le> str_len s \<Longrightarrow> ss' \<noteq> [] \<and> 61 \<le> str_len (last ss')"
proof (cases "ss = []")
  case True
  from holds_push [of r "[]" s] assms True obtain r1 where
    r1: "s \<noteq> [] \<Longrightarrow> tree_push rope_ops r (chunk_of s) = Some r1 \<and> holds r1 [s]" by (cases "s = []") auto
  show ?thesis
    by (rule that [of "if s = [] then r else r1" "if s = [] then [] else [s]"])
      (use True assms r1 in \<open>auto simp: push_chunk_def holds_ends holds_update_none\<close>)
next
  case False
  with assms(1) obtain as l where l: "ss = as @ [l]" "valid_str l" "l \<noteq> []" "str_len l \<le> 128" "last ss = l"
    by (auto simp: holds_def elim: last_texts)
  obtain u v where uv: "s = u @ v" "split_ix (boundary s) (str_len s) (str_len l) = Some (str_len u)" "str_len l + str_len u \<le> 128"
    "v \<noteq> [] \<Longrightarrow> 64 \<le> str_len l + str_len u \<and> 128 < str_len l + str_len s \<and> str_len u \<le> 64 - str_len l + 3 \<and> (64 \<le> str_len l \<longrightarrow> u = [])"
    using split_ix_correct [OF l(4), of s] by metis
  from holds_update_last [of r as l "l @ u"] assms uv l obtain r1 where
    r1: "update_last rope_ops (\<lambda>_. chunk_of (l @ u)) r = Some r1" "holds r1 (as @ [l @ u])" by auto
  from holds_push [OF r1(2), of v] assms uv(1) obtain r2 where
    r2: "v \<noteq> [] \<Longrightarrow> tree_push rope_ops r1 (chunk_of v) = Some r2 \<and> holds r2 ((as @ [l @ u]) @ [v])" by (cases "v = []") auto
  have "chunk_is_char_boundary (chunk_of s) = boundary s" using chunk_is_char_boundary_correct [OF assms(3)] by blast
  moreover have "chunk_split_at (chunk_of s) (str_len u) = Some (chunk_of u, chunk_of v)"
    using chunk_split_at_correct [of v u] assms(2,3) uv(1) by simp
  ultimately have pc: "push_chunk r (chunk_of s) = (if v = [] then Some r1 else tree_push rope_ops r1 (chunk_of v))"
    using False uv(2,3) r1(1) assms(1) l chunk_append_correct [of l u]
    by (simp add: push_chunk_def holds_ends chunk_len_def)
  have sz: "sizes (as @ [l @ u])" using assms(4) l by (simp add: sizes_def)
  show ?thesis
  proof (cases "v = []")
    case True
    with pc r1 uv(1) l sz show ?thesis by (intro that [of r1 "as @ [l @ u]"]) auto
  next
    case v: False
    have "sizes ((as @ [l @ u]) @ [v])" by (rule sizes_join [OF sz]) (use uv(4) [OF v] in auto)
    moreover have "61 \<le> str_len v" if "61 \<le> str_len s" using uv(4) [OF v] that uv(1) by (cases "64 \<le> str_len l") auto
    ultimately show ?thesis
      using v pc r2 uv(1) l by (intro that [of r2 "(as @ [l @ u]) @ [v]"]) auto
  qed
qed

lemma append_ok:
  assumes "rope_ok r s" "rope_ok q t" "height q < STACK_CAPACITY"
  shows "\<exists>r'. rope_append r q = Some r' \<and> rope_ok r' (s @ t)"
proof -
  from assms(1) obtain ss where ss: "holds r ss" "concat ss = s" "sizes ss" by (auto simp: rope_ok_def)
  from assms(2) obtain ts where ts: "holds q ts" "concat ts = t" "sizes ts" by (auto simp: rope_ok_def)
  from holds_append [OF ss(1) ts(1)] obtain r1 where r1: "tree_append rope_ops r q = Some r1" "holds r1 (ss @ ts)" by blast
  show ?thesis
  proof (cases ts)
    case Nil
    with r1 ss ts show ?thesis by (auto simp: rope_append_def holds_ends intro: rope_okI)
  next
    case (Cons a bs)
    show ?thesis
    proof (cases "(ss \<noteq> [] \<and> str_len (last ss) < 64) \<or> str_len a < 64")
      case False
      with ss ts have "sizes (ss @ ts)" by (intro sizes_join) auto
      with False Cons r1 ss ts show ?thesis
        by (auto simp: rope_append_def holds_ends MIN_BASE_def MAX_BASE_def intro: rope_okI)
    next
      case True
      have a: "valid_str a" "str_len a \<le> 128" "sizes bs" "bs \<noteq> [] \<Longrightarrow> 61 \<le> str_len a"
        using ts Cons by (auto simp: holds_def sizes_def split: if_splits)
      from push_chunk_correct [OF ss(1) a(1,2) ss(3)] obtain r2 ss2 where
        r2: "push_chunk r (chunk_of a) = Some r2" "holds r2 ss2" "concat ss2 = concat ss @ a" "sizes ss2"
          "61 \<le> str_len a \<Longrightarrow> ss2 \<noteq> [] \<and> 61 \<le> str_len (last ss2)" by metis
      from bare.next_fresh [of "cursor_new unit_dim q" ts] ts(1) assms(3) obtain c1 where
        c1: "cursor_next unit_dim (cursor_new unit_dim q) = Some c1" "bare.stands c1 [] (a # bs)"
        by (auto simp: Cons)
      from bare.next_text [OF c1(2)] obtain c2 where c2: "cursor_next unit_dim c1 = Some c2" "bare.stands c2 [a] bs" by auto
      from bare.suffix_text [OF c2(2)] obtain c3 q' where c3: "cursor_suffix rope_ops unit_dim c2 = Some (c3, q')" "holds q' bs" by blast
      from holds_append [OF r2(2) c3(2)] obtain r3 where r3: "tree_append rope_ops r2 q' = Some r3" "holds r3 (ss2 @ bs)" by blast
      have "sizes (ss2 @ bs)" using r2(4,5) a(3,4) by (cases "bs = []") (auto intro: sizes_join)
      with r3 r2(3) ss(2) ts(2) Cons have "rope_ok r3 (s @ t)" by (auto intro: rope_okI)
      with True Cons ss(1) ts(1) r2(1) c1(1) c2(1) c3(1) r3(1) show ?thesis
        by (auto simp: rope_append_def holds_ends MIN_BASE_def MAX_BASE_def)
    qed
  qed
qed

lemma push_front_ok:
  assumes "rope_ok r s" "valid_str t" "height r < STACK_CAPACITY"
  shows "\<exists>r'. push_front r (encode t) = Some r' \<and> rope_ok r' (t @ s)"
proof -
  from assms(1) obtain ss where ss: "holds r ss" "concat ss = s" "sizes ss" by (auto simp: rope_ok_def)
  have new: "rope_ok rope_new []" using rope_okI [OF holds_new] by simp
  consider "t = []" | "t \<noteq> []" "ss = []" | l as where "t \<noteq> []" "ss = l # as" by (cases ss) auto
  then show ?thesis
  proof cases
    case 1
    with assms(1) show ?thesis by (auto simp: push_front_def)
  next
    case 2
    with push_ok [OF assms(1,2)] ss show ?thesis
      by (simp add: push_front_def encode_Nil_iff rope_is_empty_def rope_len_holds)
  next
    case 3
    with ss have l: "valid_str l" "l \<noteq> []" "str_len l \<le> 128" by (auto simp: holds_def)
    have e: "encode t \<noteq> []" "\<not> rope_is_empty r" using 3 ss l by (auto simp: encode_Nil_iff rope_is_empty_def rope_len_holds)
    show ?thesis
    proof (cases "str_len l + str_len t \<le> 128")
      case True
      with holds_update_first [of r l as "t @ l"] ss(1) 3 assms(2) l obtain r' where
        "update_first rope_ops (\<lambda>_. chunk_of (t @ l)) r = Some r'" "holds r' ((t @ l) # as)" by auto
      moreover have "sizes ((t @ l) # as)" using ss(3) 3 by (auto simp: sizes_def split: if_splits)
      ultimately show ?thesis
        using True e ss 3 assms(2) chunk_prepend_str_correct [of t l]
        by (auto simp: push_front_def holds_ends MAX_BASE_def intro: rope_okI)
    next
      case False
      from push_ok [OF new assms(2)] obtain r1 where "rope_from (encode t) = Some r1" "rope_ok r1 t" by (auto simp: rope_from_def)
      with append_ok [OF this(2) assms(1,3)] False e ss 3 show ?thesis
        by (auto simp: push_front_def holds_ends MAX_BASE_def)
    qed
  qed
qed

lemma from_iter_ok: "rope_ok r s \<Longrightarrow> \<forall>t \<in> set ts. valid_str t \<Longrightarrow> \<exists>r'. rope_from_iter r (map encode ts) = Some r' \<and> rope_ok r' (s @ concat ts)"
proof (induction ts arbitrary: r s)
  case (Cons t ts)
  with push_ok [of r s t] obtain r1 where "rope_push r (encode t) = Some r1" "rope_ok r1 (s @ t)" by auto
  with Cons.IH [of r1 "s @ t"] Cons.prems show ?case by auto
qed auto

lemma new_ok: "rope_ok rope_new []"
  using rope_okI [OF holds_new] by simp

section \<open>Cutting\<close>

lemma sizes_middle: "sizes (as @ bs @ cs) \<Longrightarrow> sizes bs"
  by (cases "bs = []"; cases "cs = []") (auto simp: sizes_def butlast_append dest: in_set_butlastD)

text \<open>A cursor with the text \<open>a\<close> before its offset and \<open>b\<close> after it; the offset may be the end of the cursor's chunk.\<close>

definition between :: "rchar list list \<Rightarrow> rchar list list \<Rightarrow> rchar list \<Rightarrow> rchar list \<Rightarrow> rchar list \<Rightarrow> rchar list \<Rightarrow> bool" where
  "between as bs a b w z \<longleftrightarrow> a = concat as @ w \<and> b = z @ concat (tl bs) \<and> (if bs = [] then w = [] \<and> z = [] else hd bs = w @ z)"

definition rc_at :: "rope_cursor \<Rightarrow> rchar list \<Rightarrow> rchar list \<Rightarrow> bool" where
  "rc_at rc a b \<longleftrightarrow> rc_offset rc = str_len a \<and> c_tree (rc_chunks rc) = rc_rope rc \<and>
     (\<exists>as bs w z. usize.stands (rc_chunks rc) as bs \<and> sizes (as @ bs) \<and> between as bs a b w z)"

lemma between_cut:
  assumes "concat (as @ bs) = a @ b" "str_len (concat us) \<le> str_len a" "as = us @ us'"
    and "usize.cut (ord_cmp (str_len a)) Right (concat us) us' bs"
  obtains w z where "between as bs a b w z" "bs \<noteq> [] \<Longrightarrow> z \<noteq> []"
proof -
  have "str_len (concat as) \<le> str_len a"
    using assms(2-4) by (cases "us' = []") (auto simp: usize.cut_def past_end_def ord_cmp_def split: if_splits)
  with usize.prefix_split [of a b "concat as" "concat bs"] assms(1) obtain w where w: "a = concat as @ w" "concat bs = w @ b" by auto
  show ?thesis
  proof (cases bs)
    case Nil
    with w show ?thesis by (intro that [of "[]" "[]"]) (simp_all add: between_def)
  next
    case (Cons s bs')
    with assms(3,4) have "str_len a < str_len (concat as @ s)" by (auto simp: usize.cut_def past_end_def ord_cmp_def split: if_splits)
    with w have "str_len w < str_len s" by simp
    with usize.prefix_split [of s "concat bs'" w b] w Cons obtain z where "s = w @ z" "b = z @ concat bs'" by auto
    with w(1) Cons \<open>str_len w < str_len s\<close> show ?thesis by (intro that [of w z]) (auto simp: between_def)
  qed
qed

lemma between_concat: "between as bs a b w z \<Longrightarrow> concat (as @ bs) = a @ b"
  by (cases bs) (auto simp: between_def)

lemma rc_atI:
  "usize.stands (rc_chunks rc) as bs \<Longrightarrow> sizes (as @ bs) \<Longrightarrow> between as bs a b w z \<Longrightarrow> rc_offset rc = str_len a \<Longrightarrow>
   c_tree (rc_chunks rc) = rc_rope rc \<Longrightarrow> rc_at rc a b"
  unfolding rc_at_def by blast

lemma rc_at_len: "rc_at rc a b \<Longrightarrow> rope_len (rc_rope rc) = str_len (a @ b)"
proof -
  assume "rc_at rc a b"
  then obtain as bs w z where "usize.stands (rc_chunks rc) as bs" "between as bs a b w z" "c_tree (rc_chunks rc) = rc_rope rc"
    by (auto simp: rc_at_def)
  then have "rope_len (rc_rope rc) = str_len (concat (as @ bs))"
    using rope_len_holds [of "rc_rope rc" "as @ bs"] by (simp add: usize.stands_def)
  then show ?thesis by (simp only: between_concat [OF \<open>between as bs a b w z\<close>])
qed

lemma cursor_new_at_ok:
  assumes "rope_ok r (a @ b)" "height r < STACK_CAPACITY"
  shows "\<exists>rc. cursor_new_at r (str_len a) = Some rc \<and> rc_rope rc = r \<and> rc_at rc a b"
proof -
  from assms(1) obtain ss where ss: "holds r ss" "concat ss = a @ b" "sizes ss" by (auto simp: rope_ok_def)
  have "is_ge (ord_cmp (str_len a) (str_len []))" by (simp add: is_ge_def ord_cmp_def)
  moreover have "holds (c_tree (cursor_new usize_dim r)) ss" "height (c_tree (cursor_new usize_dim r)) < STACK_CAPACITY"
    using ss(1) assms(2) by simp_all
  ultimately obtain c' found as bs where
    c: "cursor_seek usize_dim (ord_cmp (str_len a)) Right (cursor_new usize_dim r) = Some (c', found)"
      "c_tree c' = c_tree (cursor_new usize_dim r)" "ss = as @ bs" "usize.stands c' as bs" "usize.cut (ord_cmp (str_len a)) Right [] as bs"
    by (metis usize.seek_text usize.falling_ord)
  obtain w z where "between as bs a b w z"
    by (rule between_cut [of as bs a b "[]" as]) (use c(3,5) ss(2) in simp_all)
  with c ss(3) show ?thesis by (auto simp: cursor_new_at_def rc_at_def)
qed

lemma seek_forward_ok:
  assumes "rc_at rc a (b @ d)"
  shows "\<exists>rc'. rc_seek_forward rc (str_len (a @ b)) = Some rc' \<and> rc_rope rc' = rc_rope rc \<and> rc_at rc' (a @ b) d"
proof -
  from assms obtain as bs w z where c: "usize.stands (rc_chunks rc) as bs" "sizes (as @ bs)" "between as bs a (b @ d) w z"
    "c_tree (rc_chunks rc) = rc_rope rc" "rc_offset rc = str_len a" by (auto simp: rc_at_def)
  have "str_len (concat as) \<le> str_len (a @ b)" using c(3) by (auto simp: between_def)
  then have "is_ge (ord_cmp (str_len (a @ b)) (str_len (concat as)))" by (simp add: is_ge_def ord_cmp_def)
  then obtain as' bs' c' found where
    f: "bs = as' @ bs'" "usize.cut (ord_cmp (str_len (a @ b))) Right (concat as) as' bs'"
      "cursor_seek_forward usize_dim (ord_cmp (str_len (a @ b))) Right (rc_chunks rc) = Some (c', found)"
      "c_tree c' = c_tree (rc_chunks rc)" "usize.stands c' (as @ as') bs'"
    by (metis usize.forward_text [OF c(1) usize.falling_ord])
  from between_concat [OF c(3)] f(1) have "concat ((as @ as') @ bs') = (a @ b) @ d" by simp
  from between_cut [OF this \<open>str_len (concat as) \<le> str_len (a @ b)\<close> refl f(2)] obtain w' z' where b: "between (as @ as') bs' (a @ b) d w' z'"
    by metis
  let ?rc = "rc\<lparr>rc_chunks := c', rc_offset := str_len (a @ b)\<rparr>"
  have "sizes ((as @ as') @ bs')" using c(2) f(1) by simp
  then have "rc_at ?rc (a @ b) d" using b f(4,5) c(4) by (intro rc_atI) simp_all
  moreover have "rc_seek_forward rc (str_len (a @ b)) = Some ?rc"
    using f(3) c(5) rc_at_len [OF assms] by (simp add: rc_seek_forward_def)
  ultimately show ?thesis by auto
qed

text \<open>The trees that a slice cuts out and appends must fit the stack of a cursor, too.\<close>

definition slice_fits :: "rope_cursor \<Rightarrow> nat \<Rightarrow> bool" where
  "slice_fits rc end_offset =
     (case do {
        c1 \<leftarrow> cursor_next usize_dim (rc_chunks rc);
        cursor_slice rope_ops usize_dim (ord_cmp end_offset) Right c1
      } of Some (c2, middle) \<Rightarrow> height middle < STACK_CAPACITY | None \<Rightarrow> True)"

lemma chunk_slice_start:
  "valid_str (w @ z) \<Longrightarrow> str_len (w @ z) \<le> 128 \<Longrightarrow> chunk_slice (chunk_of (w @ z)) (0, str_len w) = Some (chunk_of w)"
  "valid_str (w @ z) \<Longrightarrow> str_len (w @ z) \<le> 128 \<Longrightarrow> chunk_slice (chunk_of (w @ z)) (str_len w, str_len (w @ z)) = Some (chunk_of z)"
  using chunk_slice_correct [of "[]" w z] chunk_slice_correct [of w z "[]"] by simp_all

lemma new_push_chunk:
  assumes "valid_str s" "str_len s \<le> 128"
  obtains r where "push_chunk rope_new (chunk_of s) = Some r" "rope_ok r s"
  by (rule push_chunk_correct [OF holds_new assms]) (simp, rule that, simp, rule rope_okI, simp_all)

lemma push_chunk_ok:
  assumes "rope_ok r s" "valid_str t" "str_len t \<le> 128"
  obtains r' where "push_chunk r (chunk_of t) = Some r'" "rope_ok r' (s @ t)"
proof -
  from assms(1) obtain ss where ss: "holds r ss" "concat ss = s" "sizes ss" by (auto simp: rope_ok_def)
  from push_chunk_correct [OF ss(1) assms(2,3) ss(3)] obtain r' ss' where
    "push_chunk r (chunk_of t) = Some r'" "holds r' ss'" "concat ss' = concat ss @ t" "sizes ss'" by metis
  with ss(2) that show ?thesis by (auto intro: rope_okI)
qed

text \<open>A slice within the cursor's chunk, and one that goes beyond it.\<close>

lemma slice_inside:
  assumes "usize.stands (rc_chunks rc) as ((w @ b @ z) # bs)" "sizes (as @ (w @ b @ z) # bs)"
    and "rc_offset rc = str_len (concat as @ w)" "c_tree (rc_chunks rc) = rc_rope rc"
  shows "\<exists>rc' r. rc_slice rc (str_len (concat as @ w @ b)) = Some (rc', r) \<and> rc_rope rc' = rc_rope rc \<and>
    rc_at rc' (concat as @ w @ b) (z @ concat bs) \<and> rope_ok r b"
proof -
  note c = assms(1) [unfolded usize.stands_def holds_def]
  have "rope_len (rc_rope rc) = str_len (concat (as @ (w @ b @ z) # bs))"
    using rope_len_holds [of "rc_rope rc" "as @ (w @ b @ z) # bs"] assms(1,4) by (simp add: usize.stands_def)
  moreover obtain r where r: "push_chunk rope_new (chunk_of b) = Some r" "rope_ok r b"
    using new_push_chunk [of b] c by auto
  moreover have "chunk_slice (chunk_of (w @ b @ z)) (str_len w, str_len w + str_len b) = Some (chunk_of b)"
    using chunk_slice_correct [of w b z] c by simp
  ultimately have "rc_slice rc (str_len (concat as @ w @ b)) = Some (rc\<lparr>rc_chunks := rc_chunks rc, rc_offset := str_len (concat as @ w @ b)\<rparr>, r)"
    using usize.stands_reads [OF assms(1)] assms(3)
    by (simp add: rc_slice_def checked_sub_def)
  moreover have "rc_at (rc\<lparr>rc_chunks := rc_chunks rc, rc_offset := str_len (concat as @ w @ b)\<rparr>) (concat as @ w @ b) (z @ concat bs)"
    by (rule rc_atI [where as = as and bs = "(w @ b @ z) # bs" and w = "w @ b" and z = z]) (use assms in \<open>simp_all add: between_def\<close>)
  ultimately show ?thesis using r(2) by auto
qed

lemma slice_beyond:
  assumes "usize.stands (rc_chunks rc) as ((w @ z) # bs)" "sizes (as @ (w @ z) # bs)"
    and "rc_offset rc = str_len (concat as @ w)" "c_tree (rc_chunks rc) = rc_rope rc"
    and "concat bs = b @ d" "b \<noteq> []" "slice_fits rc (str_len (concat as @ w @ z @ b))"
  shows "\<exists>rc' r. rc_slice rc (str_len (concat as @ w @ z @ b)) = Some (rc', r) \<and> rc_rope rc' = rc_rope rc \<and>
    rc_at rc' (concat as @ w @ z @ b) d \<and> rope_ok r (z @ b)"
proof -
  let ?e = "str_len (concat as @ w @ z @ b)" and ?rc = "\<lambda>c. rc\<lparr>rc_chunks := c, rc_offset := str_len (concat as @ w @ z @ b)\<rparr>"
  note c = assms(1) [unfolded usize.stands_def holds_def]
  have len: "rope_len (rc_rope rc) = str_len (concat (as @ (w @ z) # bs))"
    using rope_len_holds [of "rc_rope rc" "as @ (w @ z) # bs"] assms(1,4) by (simp add: usize.stands_def)
  obtain r1 where r1: "push_chunk rope_new (chunk_of z) = Some r1" "rope_ok r1 z"
    using new_push_chunk [of z] c by auto
  have sl: "chunk_slice (chunk_of (w @ z)) (str_len w, str_len w + str_len z) = Some (chunk_of z)"
    using chunk_slice_start(2) [of w z] c by simp
  from usize.next_text [OF assms(1)] obtain c1 where
    c1: "cursor_next usize_dim (rc_chunks rc) = Some c1" "c_tree c1 = rc_rope rc" "usize.stands c1 (as @ [w @ z]) bs"
    using assms(4) by auto
  have ge: "is_ge (ord_cmp ?e (str_len (concat (as @ [w @ z]))))" by (simp add: is_ge_def ord_cmp_def)
  obtain us vs where us: "bs = us @ vs" "usize.cut (ord_cmp ?e) Right (concat (as @ [w @ z])) us vs"
    "\<exists>c2 m. cursor_slice rope_ops usize_dim (ord_cmp ?e) Right c1 = Some (c2, m) \<and> c_tree c2 = c_tree c1 \<and>
       usize.stands c2 ((as @ [w @ z]) @ us) vs \<and> holds m us"
    using usize.forward_text [OF c1(3) usize.falling_ord ge, of Right] by metis
  from us(3) obtain c2 m where c2: "cursor_slice rope_ops usize_dim (ord_cmp ?e) Right c1 = Some (c2, m)" "c_tree c2 = c_tree c1"
    "usize.stands c2 ((as @ [w @ z]) @ us) vs" "holds m us" by blast
  have "sizes us" using assms(2) us(1) sizes_middle [of "as @ [w @ z]" us vs] by simp
  then have "rope_ok m (concat us)" using c2(4) by (auto intro: rope_okI)
  moreover have "height m < STACK_CAPACITY" using assms(7) c1(1) c2(1) by (simp add: slice_fits_def)
  ultimately obtain r2 where r2: "rope_append r1 m = Some r2" "rope_ok r2 (z @ concat us)" using append_ok [OF r1(2)] by blast
  obtain w' z' where wz: "between ((as @ [w @ z]) @ us) vs (concat as @ w @ z @ b) d w' z'"
  proof (rule between_cut [of "(as @ [w @ z]) @ us" vs "concat as @ w @ z @ b" d "as @ [w @ z]" us])
    show "concat (((as @ [w @ z]) @ us) @ vs) = (concat as @ w @ z @ b) @ d" using us(1) assms(5) by simp
    show "str_len (concat (as @ [w @ z])) \<le> ?e" by simp
  qed (use us(2) that in simp_all)
  then have b: "b = concat us @ w'" by (simp add: between_def)
  have at: "rc_at (?rc c2) (concat as @ w @ z @ b) d"
    by (rule rc_atI [OF _ _ wz]) (use c2 c1 assms(2) us(1) in simp_all)
  have reads: "cursor_start c2 = str_len (concat as @ w @ z @ concat us)"
    "cursor_item c2 = Some (case vs of [] \<Rightarrow> None | s # _ \<Rightarrow> Some (chunk_of s))"
    using usize.stands_reads [OF c2(3)] by simp_all
  have beyond: "?e > str_len (concat as @ w @ z)" using assms(6) str_len_pos [of b] by simp
  have "\<exists>r. slice_end_chunk c2 r2 ?e = Some r \<and> rope_ok r (z @ b)"
  proof (cases vs)
    case Nil
    with wz b r2(2) show ?thesis by (simp add: between_def slice_end_chunk_def reads)
  next
    case (Cons s vs')
    with wz have s: "s = w' @ z'" by (simp add: between_def)
    have v: "valid_str s" "str_len s \<le> 128" using c us(1) Cons by auto
    with s push_chunk_ok [OF r2(2), of w'] obtain r where "push_chunk r2 (chunk_of w') = Some r" "rope_ok r ((z @ concat us) @ w')" by auto
    with Cons s b v chunk_slice_start(1) [of w' z'] show ?thesis by (simp add: reads checked_sub_def slice_end_chunk_def)
  qed
  then obtain r where r: "slice_end_chunk c2 r2 ?e = Some r" "rope_ok r (z @ b)" by blast
  have "min ?e (str_len (concat as @ w @ z)) = str_len (concat as @ w @ z)" "?e \<le> rope_len (rc_rope rc)"
    using beyond len assms(5) by simp_all
  with usize.stands_reads [OF assms(1)] assms(3) sl r1(1) c1(1) c2(1) r2(1) beyond r(1)
  have "rc_slice rc ?e = Some (?rc c2, r)" by (simp add: rc_slice_def checked_sub_def del: str_len_simps) (simp add: checked_sub_def)
  with at r(2) show ?thesis by auto
qed

lemma slice_ok:
  assumes "rc_at rc a (b @ d)" "slice_fits rc (str_len (a @ b))"
  shows "\<exists>rc' r. rc_slice rc (str_len (a @ b)) = Some (rc', r) \<and> rc_rope rc' = rc_rope rc \<and> rc_at rc' (a @ b) d \<and> rope_ok r b"
proof -
  from assms(1) obtain as bs w z where c: "usize.stands (rc_chunks rc) as bs" "sizes (as @ bs)" "between as bs a (b @ d) w z"
    "c_tree (rc_chunks rc) = rc_rope rc" "rc_offset rc = str_len a" by (auto simp: rc_at_def)
  show ?thesis
  proof (cases bs)
    case Nil
    with c(3) have "b = []" "d = []" "a = concat as" by (auto simp: between_def)
    moreover have "rc_at (rc\<lparr>rc_chunks := rc_chunks rc, rc_offset := str_len a\<rparr>) a []"
      by (rule rc_atI [OF _ c(2), where w = "[]" and z = "[]"]) (use c Nil in \<open>simp_all add: between_def\<close>)
    moreover have "rc_slice rc (str_len a) = Some (rc\<lparr>rc_chunks := rc_chunks rc, rc_offset := str_len a\<rparr>, rope_new)"
      using usize.stands_reads [OF c(1)] c(5) Nil rc_at_len [OF assms(1)] \<open>a = concat as\<close> by (simp add: rc_slice_def)
    ultimately show ?thesis
      using assms(1) c(5) rope_okI [OF holds_new] by auto
  next
    case (Cons s bs')
    with c(3) have s: "s = w @ z" "a = concat as @ w" "b @ d = z @ concat bs'" by (auto simp: between_def)
    from s(3) obtain y where "z = b @ y \<and> d = y @ concat bs' \<or> b = z @ y \<and> concat bs' = y @ d"
      unfolding append_eq_append_conv2 by metis
    then consider "z = b @ y" "d = y @ concat bs'" | "b = z @ y" "concat bs' = y @ d" "y \<noteq> []"
      by (cases "y = []") auto
    then show ?thesis
    proof cases
      case 1
      with slice_inside [of rc as w b y bs'] c s Cons show ?thesis by simp
    next
      case 2
      with slice_beyond [of rc as w z bs' y d] c s Cons assms(2) show ?thesis by simp
    qed
  qed
qed

lemma suffix_ok:
  assumes "rc_at rc a b" "slice_fits rc (str_len (a @ b))"
  shows "\<exists>r. rc_suffix rc = Some r \<and> rope_ok r b"
proof -
  have "extent usize_dim (rc_rope rc) = str_len (a @ b)" using rc_at_len [OF assms(1)] by (simp only: rope_len_def)
  then show ?thesis using slice_ok [of rc a b "[]"] assms by (auto simp: rc_suffix_def)
qed

text \<open>The same for \<open>slice\<close> and \<open>replace\<close>, with the cursors they make.\<close>

definition rope_slice_fits :: "rope \<Rightarrow> nat \<Rightarrow> nat \<Rightarrow> bool" where
  "rope_slice_fits r i j =
     (case do { c \<leftarrow> cursor_new_at r 0; rc_seek_forward c i } of Some c \<Rightarrow> slice_fits c j | None \<Rightarrow> True)"

definition rope_replace_fits :: "rope \<Rightarrow> nat \<Rightarrow> nat \<Rightarrow> bool" where
  "rope_replace_fits r i j =
     (case cursor_new_at r 0 of None \<Rightarrow> True
      | Some c \<Rightarrow> slice_fits c i \<and>
          (case rc_slice c i of None \<Rightarrow> True
           | Some (c1, before_range) \<Rightarrow> height before_range < STACK_CAPACITY \<and>
               (case rc_seek_forward c1 j of None \<Rightarrow> True
                | Some c2 \<Rightarrow> slice_fits c2 (rope_len r) \<and>
                    (case rc_suffix c2 of None \<Rightarrow> True | Some after_range \<Rightarrow> height after_range < STACK_CAPACITY))))"

lemma new_cursor_ok:
  assumes "rope_ok r s" "height r < STACK_CAPACITY"
  obtains c where "cursor_new_at r 0 = Some c" "rc_rope c = r" "rc_at c [] s"
  using cursor_new_at_ok [of r "[]" s] assms by auto

lemma rope_slice_ok:
  assumes "rope_ok r (a @ b @ d)" "height r < STACK_CAPACITY" "rope_slice_fits r (str_len a) (str_len (a @ b))"
  shows "\<exists>r'. rope_slice r (str_len a, str_len (a @ b)) = Some r' \<and> rope_ok r' b"
proof -
  obtain c where c: "cursor_new_at r 0 = Some c" "rc_rope c = r" "rc_at c [] (a @ b @ d)" by (rule new_cursor_ok [OF assms(1,2)])
  from seek_forward_ok [OF c(3)] obtain c1 where c1: "rc_seek_forward c (str_len a) = Some c1" "rc_at c1 a (b @ d)" by auto
  with c(1) assms(3) have "slice_fits c1 (str_len (a @ b))" by (simp add: rope_slice_fits_def)
  from slice_ok [OF c1(2) this] c(1) c1(1) show ?thesis by (auto simp: rope_slice_def)
qed

lemma rope_replace_ok:
  assumes "rope_ok r (a @ b @ d)" "height r < STACK_CAPACITY" "valid_str t" "rope_replace_fits r (str_len a) (str_len (a @ b))"
  shows "\<exists>r'. rope_replace r (str_len a, str_len (a @ b)) (encode t) = Some r' \<and> rope_ok r' (a @ t @ d)"
proof -
  obtain c where c: "cursor_new_at r 0 = Some c" "rc_rope c = r" "rc_at c [] (a @ b @ d)" by (rule new_cursor_ok [OF assms(1,2)])
  with assms(4) have "slice_fits c (str_len ([] @ a))" by (simp add: rope_replace_fits_def)
  from slice_ok [OF c(3) this] obtain c1 p where
    c1: "rc_slice c (str_len a) = Some (c1, p)" "rc_rope c1 = r" "rc_at c1 a (b @ d)" "rope_ok p a" using c(2) by auto
  from seek_forward_ok [OF c1(3)] obtain c2 where
    c2: "rc_seek_forward c1 (str_len (a @ b)) = Some c2" "rc_rope c2 = r" "rc_at c2 (a @ b) d" using c1(2) by auto
  have "slice_fits c2 (str_len ((a @ b) @ d))"
    using assms(4) c(1) c1(1) c2(1) rc_at_len [OF c2(3)] c2(2) by (simp add: rope_replace_fits_def)
  from suffix_ok [OF c2(3) this] obtain q where q: "rc_suffix c2 = Some q" "rope_ok q d" by blast
  have h: "height p < STACK_CAPACITY" "height q < STACK_CAPACITY"
    using assms(4) c(1) c1(1) c2(1) q(1) by (simp_all add: rope_replace_fits_def)
  from append_ok [OF new_ok c1(4) h(1)] obtain r1 where r1: "rope_append rope_new p = Some r1" "rope_ok r1 a" by auto
  from push_ok [OF r1(2) assms(3)] obtain r2 where r2: "rope_push r1 (encode t) = Some r2" "rope_ok r2 (a @ t)" by blast
  from append_ok [OF r2(2) q(2) h(2)] obtain r3 where "rope_append r2 q = Some r3" "rope_ok r3 ((a @ t) @ d)" by blast
  with c(1) c1(1) c2(1) q(1) r1(1) r2(1) show ?thesis by (auto simp: rope_replace_def)
qed

lemma from_ok: "valid_str t \<Longrightarrow> \<exists>r. rope_from (encode t) = Some r \<and> rope_ok r t"
  using push_ok [OF new_ok, of t] by (simp add: rope_from_def)

lemma rope_ok_valid: "rope_ok r s \<Longrightarrow> valid_str s"
  by (auto simp: rope_ok_def holds_def rope_texts_def valid_str_def)

text \<open>A rope of one chunk, for the witnesses.\<close>

definition one_chunk :: "rchar list \<Rightarrow> rope" where
  "one_chunk s = Leaf (cs_of s) [chunk_of s] [cs_of s]"

lemma holds_one_chunk: "rope_texts [s] \<Longrightarrow> holds (one_chunk s) [s]"
  using rope_sum [of "[s]"] by (simp add: holds_def one_chunk_def rope_item TREE_BASE_def)

lemma holds_empty_height: "holds r [] \<Longrightarrow> height r = 0"
  using wf_is_leaf_empty [of rope_ops r] wf_height_0 [of rope_ops r] by (simp add: holds_def)

lemma slice_fits_last:
  assumes "usize.stands (rc_chunks rc) as bs" "length bs \<le> 1"
  shows "slice_fits rc e"
proof -
  have "\<exists>c1 us. cursor_next usize_dim (rc_chunks rc) = Some c1 \<and> usize.stands c1 us []"
    using usize.next_end [of "rc_chunks rc" as] usize.next_text [of "rc_chunks rc" as "hd bs" "[]"] assms
    by (cases bs) auto
  then obtain c1 us where c1: "cursor_next usize_dim (rc_chunks rc) = Some c1" "usize.stands c1 us []" by blast
  show ?thesis
  proof (cases "is_ge (ord_cmp e (str_len (concat us)))")
    case True
    from usize.forward_text [OF c1(2) usize.falling_ord True, of Right] obtain c2 m where
      "cursor_slice rope_ops usize_dim (ord_cmp e) Right c1 = Some (c2, m)" "holds m []" by (metis Nil_is_append_conv)
    with c1(1) holds_empty_height show ?thesis by (simp add: slice_fits_def STACK_CAPACITY_def)
  next
    case False
    then have "cursor_slice rope_ops usize_dim (ord_cmp e) Right c1 = None"
      using usize.stands_reads(1) [OF c1(2)] by (simp add: cursor_slice_def seek_internal_def cursor_start_def rust_assert_def)
    with c1(1) show ?thesis by (simp add: slice_fits_def)
  qed
qed


lemma empty_text_height: "rope_ok r [] \<Longrightarrow> height r = 0"
proof -
  assume "rope_ok r []"
  then obtain ss where "holds r ss" "concat ss = []" by (auto simp: rope_ok_def)
  then have "ss = []" by (cases ss) (auto simp: holds_def)
  with \<open>holds r ss\<close> holds_empty_height show ?thesis by simp
qed

abbreviation sample_text :: "rchar list" where
  "sample_text \<equiv> [104, 10, 0x1F600]"

lemma sample_rope: "rope_ok (one_chunk sample_text) sample_text" "height (one_chunk sample_text) < STACK_CAPACITY"
  "rope_texts [sample_text]" "valid_str sample_text"
proof -
  show t: "rope_texts [sample_text]" "valid_str sample_text" by (simp_all add: valid_str_def valid_char_def len_utf8_def)
  then show "rope_ok (one_chunk sample_text) sample_text" using rope_okI [OF holds_one_chunk] by simp
  show "height (one_chunk sample_text) < STACK_CAPACITY" by (simp add: one_chunk_def STACK_CAPACITY_def)
qed

lemma one_chunk_fits:
  assumes "rc_at rc a b" "rc_rope rc = one_chunk s"
  shows "slice_fits rc e"
proof -
  from assms obtain as bs where c: "usize.stands (rc_chunks rc) as bs" "c_tree (rc_chunks rc) = one_chunk s" by (auto simp: rc_at_def)
  then have "length (as @ bs) = 1" unfolding usize.stands_def holds_def by (metis elems.simps(1) one_chunk_def length_map list.size(3,4) One_nat_def add_0)
  then show ?thesis using slice_fits_last [OF c(1)] by simp
qed

lemma sample_rope_cursor: obtains rc where "cursor_new_at (one_chunk sample_text) 0 = Some rc" "rc_at rc [] sample_text"
  "\<forall>e. slice_fits rc e"
  using new_cursor_ok [OF sample_rope(1,2)] one_chunk_fits by metis

lemma sample_fits:
  "rope_slice_fits (one_chunk sample_text) (str_len [104]) (str_len ([104] @ [10]))"
  "rope_replace_fits (one_chunk sample_text) (str_len []) (str_len ([] @ sample_text))"
proof -
  let ?r = "one_chunk sample_text"
  obtain c where c: "cursor_new_at ?r 0 = Some c" "rc_rope c = ?r" "rc_at c [] sample_text" by (rule new_cursor_ok [OF sample_rope(1,2)])
  from seek_forward_ok [of c "[]" "[104]" "[10, 0x1F600]"] c(2,3) obtain c1 where
    c1: "rc_seek_forward c (str_len [104]) = Some c1" "rc_rope c1 = ?r" "rc_at c1 [104] [10, 0x1F600]" by auto
  show "rope_slice_fits ?r (str_len [104]) (str_len ([104] @ [10]))"
    using c(1) c1(1) one_chunk_fits [OF c1(3,2)] by (simp add: rope_slice_fits_def)
  note fit = one_chunk_fits [OF c(3,2)]
  from slice_ok [of c "[]" "[]" sample_text] c(2,3) fit obtain c2 p where
    c2: "rc_slice c (str_len []) = Some (c2, p)" "rc_rope c2 = ?r" "rc_at c2 [] sample_text" "rope_ok p []" by auto
  from seek_forward_ok [of c2 "[]" sample_text "[]"] c2(2,3) obtain c3 where
    c3: "rc_seek_forward c2 (str_len sample_text) = Some c3" "rc_rope c3 = ?r" "rc_at c3 sample_text []" by auto
  note fit3 = one_chunk_fits [OF c3(3,2)]
  from suffix_ok [OF c3(3)] fit3 obtain q where q: "rc_suffix c3 = Some q" "rope_ok q []" by auto
  have "height p < STACK_CAPACITY" "height q < STACK_CAPACITY"
    using empty_text_height [OF c2(4)] empty_text_height [OF q(2)] by (simp_all add: STACK_CAPACITY_def)
  with c(1) c2(1) c3(1) q(1) fit fit3 show "rope_replace_fits ?r (str_len []) (str_len ([] @ sample_text))"
    by (simp add: rope_replace_fits_def)
qed

section \<open>Theorems\<close>

text \<open>What \<open>rope_ok\<close> says of a rope: \<open>check_invariants\<close> holds of it, \<open>len\<close> is the number of bytes of its text and \<open>is_empty\<close>
  tells whether the text is empty.\<close>

theorem rope_ok_invariant:
  assumes "rope_ok r s"
  shows "check_invariants (map (\<lambda>c. length (c_text c)) (elems r)) \<and> (\<forall>c \<in> set (elems r). c_text c \<noteq> [] \<and> length (c_text c) \<le> MAX_BASE) \<and>
    concat (map c_text (elems r)) = encode s \<and> rope_len r = length (encode s) \<and> (rope_is_empty r \<longleftrightarrow> s = [])"
proof -
  from assms obtain ss where ss: "holds r ss" "concat ss = s" "sizes ss" by (auto simp: rope_ok_def)
  have "concat (map encode ss) = encode (concat ss)" by (induction ss) simp_all
  moreover have "map (\<lambda>c. length (c_text c)) (map chunk_of ss) = map str_len ss" "map c_text (map chunk_of ss) = map encode ss"
    by (simp_all add: chunk_of_def)
  moreover have "\<forall>c \<in> set (map chunk_of ss). c_text c \<noteq> [] \<and> length (c_text c) \<le> MAX_BASE"
    using ss(1) by (auto simp: holds_def rope_texts_def MAX_BASE_def)
  ultimately show ?thesis
    using ss sizes_check [of ss] rope_len_holds [OF ss(1)] by (simp add: holds_def rope_is_empty_def del: map_map)
qed

theorem rope_ok_invariant_witness: "rope_len rope_new = 0 \<and> rope_is_empty rope_new"
  using rope_ok_invariant [OF new_ok] by simp

text \<open>C30. A cursor at the end of \<open>a\<close> in the text \<open>a @ b @ d\<close>: \<open>seek_forward\<close> moves it to the end of \<open>a @ b\<close>, \<open>slice\<close> also returns
  the rope of exactly \<open>b\<close>, and \<open>suffix\<close> the rope of all that follows; none of them panics, also when the offsets lie within
  chunks, in the same chunk or many chunks apart.\<close>

theorem rope_cursor_correct:
  assumes "rc_at rc a (b @ d)" "slice_fits rc (str_len (a @ b))" "slice_fits rc (str_len (a @ b @ d))"
  shows "(\<exists>rc'. rc_seek_forward rc (str_len (a @ b)) = Some rc' \<and> rc_rope rc' = rc_rope rc \<and> rc_at rc' (a @ b) d) \<and>
    (\<exists>rc' r. rc_slice rc (str_len (a @ b)) = Some (rc', r) \<and> rc_rope rc' = rc_rope rc \<and> rc_at rc' (a @ b) d \<and> rope_ok r b) \<and>
    (\<exists>r. rc_suffix rc = Some r \<and> rope_ok r (b @ d))"
  using seek_forward_ok [OF assms(1)] slice_ok [OF assms(1,2)] suffix_ok [OF assms(1,3)] by blast

theorem rope_cursor_correct_witness:
  "\<exists>rc rc' r. cursor_new_at (one_chunk sample_text) 0 = Some rc \<and> rc_slice rc (str_len [104, 10]) = Some (rc', r) \<and> rope_ok r [104, 10] \<and>
     rc_at rc' [104, 10] [0x1F600]"
proof -
  obtain rc where rc: "cursor_new_at (one_chunk sample_text) 0 = Some rc" "rc_at rc [] sample_text" "\<forall>e. slice_fits rc e"
    by (rule sample_rope_cursor)
  have "rc_at rc [] ([104, 10] @ [0x1F600])" using rc(2) by simp
  from rope_cursor_correct [OF this] rc(3) rc(1) show ?thesis by auto
qed

end
