(* ===== verification/RopePositions.thy ===== *)
theory RopePositions
  imports Rope_Correct
begin

text \<open>
  Positions in a rope (\<open>crates/rope/src/rope.rs\<close>): the conversions between byte offsets, UTF-16 offsets, points and UTF-16
  points, and clipping. Each searches the tree by one dimension, reads another one there, and lets the chunk convert the
  rest. The rows and columns read off the tree are the 32-bit values of its numbers; sums and differences of points are checked.
\<close>

section \<open>Model\<close>

definition summary_u32 :: "nat_summary \<Rightarrow> text_summary" where
  "summary_u32 s =
     \<lparr>ts_len = ns_len s, ts_chars = ns_chars s, ts_len_utf16 = OffsetUtf16 (ns_utf16 s),
      ts_lines = Point (of_nat (ns_row s)) (of_nat (ns_column s)), first_line_chars = of_nat (ns_first s),
      last_line_chars = of_nat (ns_last s), last_line_len_utf16 = of_nat (ns_last_utf16 s),
      longest_row = of_nat (ns_longest_row s), longest_row_chars = of_nat (ns_longest s)\<rparr>"

definition point_of :: "npoint \<Rightarrow> point" where
  "point_of p = Point (of_nat (fst p)) (of_nat (snd p))"

definition point_utf16_of :: "npoint \<Rightarrow> point_utf16" where
  "point_utf16_of p = PointUtf16 (of_nat (fst p)) (of_nat (snd p))"

definition npoint_of :: "point \<Rightarrow> npoint" where
  "npoint_of p = (unat (row p), unat (column p))"

definition npoint_of_utf16 :: "point_utf16 \<Rightarrow> npoint" where
  "npoint_of_utf16 p = (unat (row_utf16 p), unat (column_utf16 p))"

definition rope_summary :: "rope \<Rightarrow> text_summary" where
  "rope_summary r = summary_u32 (cs_text (summary r))"

definition rope_max_point :: "rope \<Rightarrow> point" where
  "rope_max_point r = point_of (extent point_dim r)"

definition rope_max_point_utf16 :: "rope \<Rightarrow> point_utf16" where
  "rope_max_point_utf16 r = point_utf16_of (extent point_utf16_dim r)"

text \<open>\<open>find\<close> and \<open>cursor.seek\<close> with \<open>Dimensions\<close>, both with \<open>Bias::Left\<close>: the two starts and the chunk.\<close>

definition find_position ::
  "(chunk_summary, 'd::linorder) dimension \<Rightarrow> (chunk_summary, 'e) dimension \<Rightarrow> 'd \<Rightarrow> rope \<Rightarrow> 'd \<times> 'e \<times> chunk option" where
  "find_position dim out target r =
     (case tree_find (dimensions dim out) (dimensions_target (ord_cmp target)) Left r of
        (start, _, item) \<Rightarrow> (fst start, snd start, item))"

definition seek_position ::
  "(chunk_summary, 'd::linorder) dimension \<Rightarrow> (chunk_summary, 'e) dimension \<Rightarrow> 'd \<Rightarrow> rope \<Rightarrow> ('d \<times> 'e \<times> chunk option) option" where
  "seek_position dim out target r = do {
     (c, _) \<leftarrow> cursor_seek (dimensions dim out) (dimensions_target (ord_cmp target)) Left (cursor_new (dimensions dim out) r);
     item \<leftarrow> cursor_item c;
     Some (fst (cursor_start c), snd (cursor_start c), item)
   }"

definition chunk_assert_char_boundary :: "bool \<Rightarrow> bool \<Rightarrow> chunk \<Rightarrow> nat \<Rightarrow> bool option" where
  "chunk_assert_char_boundary debug panic c offset =
     (if chunk_is_char_boundary c offset then Some True else if panic \<or> debug then None else Some False)"

definition rope_is_char_boundary :: "rope \<Rightarrow> nat \<Rightarrow> bool option" where
  "rope_is_char_boundary r offset =
     (if tree_is_empty r then Some (offset = 0)
      else case tree_find usize_dim (ord_cmp offset) Left r of
        (start, _, item) \<Rightarrow> do {
          chunk_offset \<leftarrow> checked_sub offset start;
          Some (case item of Some chunk \<Rightarrow> chunk_is_char_boundary chunk chunk_offset | None \<Rightarrow> False)
        })"

definition rope_assert_char_boundary :: "bool \<Rightarrow> bool \<Rightarrow> rope \<Rightarrow> nat \<Rightarrow> bool option" where
  "rope_assert_char_boundary debug panic r offset =
     (if tree_is_empty r \<and> offset = 0 then Some True
      else case tree_find usize_dim (ord_cmp offset) Left r of
        (start, _, item) \<Rightarrow>
          (case item of
             Some chunk \<Rightarrow> do {
               chunk_offset \<leftarrow> checked_sub offset start;
               chunk_assert_char_boundary debug panic chunk chunk_offset
             }
           | None \<Rightarrow> if panic then None else Some False))"

definition rope_floor_char_boundary :: "rope \<Rightarrow> nat \<Rightarrow> nat option" where
  "rope_floor_char_boundary r index =
     (if index \<ge> rope_len r then Some (rope_len r)
      else case tree_find usize_dim (ord_cmp index) Left r of
        (start, _, item) \<Rightarrow> do {
          chunk_offset \<leftarrow> checked_sub index start;
          Some (case item of Some chunk \<Rightarrow> start + str_floor_char_boundary (c_text chunk) chunk_offset | None \<Rightarrow> rope_len r)
        })"

definition rope_ceil_char_boundary :: "rope \<Rightarrow> nat \<Rightarrow> nat option" where
  "rope_ceil_char_boundary r index =
     (if index > rope_len r then Some (rope_len r)
      else case tree_find usize_dim (ord_cmp index) Left r of
        (start, _, item) \<Rightarrow> do {
          chunk_offset \<leftarrow> checked_sub index start;
          Some (case item of Some chunk \<Rightarrow> start + str_ceil_char_boundary (c_text chunk) chunk_offset | None \<Rightarrow> rope_len r)
        })"

definition rope_clip_offset :: "rope \<Rightarrow> nat \<Rightarrow> bias \<Rightarrow> nat option" where
  "rope_clip_offset r offset bias =
     (case bias of Left \<Rightarrow> rope_floor_char_boundary r offset | Right \<Rightarrow> rope_ceil_char_boundary r offset)"

subsection \<open>Conversions\<close>

definition rope_offset_to_offset_utf16 :: "rope \<Rightarrow> nat \<Rightarrow> offset_utf16 option" where
  "rope_offset_to_offset_utf16 r offset =
     (if offset \<ge> ts_len (rope_summary r) then Some (ts_len_utf16 (rope_summary r))
      else case find_position usize_dim utf16_dim offset r of
        (start0, start1, item) \<Rightarrow> do {
          overshoot \<leftarrow> checked_sub offset start0;
          Some (offset_utf16_add (OffsetUtf16 start1)
            (case item of Some chunk \<Rightarrow> chunk_offset_to_offset_utf16 chunk overshoot | None \<Rightarrow> OffsetUtf16 0))
        })"

definition rope_offset_utf16_to_offset :: "rope \<Rightarrow> offset_utf16 \<Rightarrow> nat option" where
  "rope_offset_utf16_to_offset r offset =
     (if offset_value offset \<ge> offset_value (ts_len_utf16 (rope_summary r)) then Some (ts_len (rope_summary r))
      else case find_position utf16_dim usize_dim (offset_value offset) r of
        (start0, start1, item) \<Rightarrow> do {
          overshoot \<leftarrow> offset_utf16_sub offset (OffsetUtf16 start0);
          d \<leftarrow> (case item of Some chunk \<Rightarrow> chunk_offset_utf16_to_offset chunk overshoot | None \<Rightarrow> Some 0);
          Some (start1 + d)
        })"

definition rope_offset_to_point :: "rope \<Rightarrow> nat \<Rightarrow> point option" where
  "rope_offset_to_point r offset =
     (if offset \<ge> ts_len (rope_summary r) then Some (ts_lines (rope_summary r))
      else case find_position usize_dim point_dim offset r of
        (start0, start1, item) \<Rightarrow> do {
          overshoot \<leftarrow> checked_sub offset start0;
          d \<leftarrow> (case item of Some chunk \<Rightarrow> chunk_offset_to_point chunk overshoot | None \<Rightarrow> Some point_zero);
          point_add (point_of start1) d
        })"

definition rope_offset_to_point_utf16 :: "rope \<Rightarrow> nat \<Rightarrow> point_utf16 option" where
  "rope_offset_to_point_utf16 r offset =
     (if offset \<ge> ts_len (rope_summary r) then Some (lines_utf16 (rope_summary r))
      else case find_position usize_dim point_utf16_dim offset r of
        (start0, start1, item) \<Rightarrow> do {
          overshoot \<leftarrow> checked_sub offset start0;
          d \<leftarrow> (case item of Some chunk \<Rightarrow> chunk_offset_to_point_utf16 chunk overshoot | None \<Rightarrow> Some point_utf16_zero);
          point_utf16_add (point_utf16_of start1) d
        })"

definition rope_point_to_point_utf16 :: "bool \<Rightarrow> rope \<Rightarrow> point \<Rightarrow> point_utf16 option" where
  "rope_point_to_point_utf16 debug r p =
     (if is_ge (point_cmp p (ts_lines (rope_summary r))) then Some (lines_utf16 (rope_summary r))
      else case find_position point_dim point_utf16_dim (npoint_of p) r of
        (start0, start1, item) \<Rightarrow> do {
          overshoot \<leftarrow> point_sub p (point_of start0);
          d \<leftarrow> (case item of Some chunk \<Rightarrow> chunk_point_to_point_utf16 debug chunk overshoot | None \<Rightarrow> Some point_utf16_zero);
          point_utf16_add (point_utf16_of start1) d
        })"

definition rope_point_to_offset :: "bool \<Rightarrow> rope \<Rightarrow> point \<Rightarrow> nat option" where
  "rope_point_to_offset debug r p =
     (if is_ge (point_cmp p (ts_lines (rope_summary r))) then Some (ts_len (rope_summary r))
      else case find_position point_dim usize_dim (npoint_of p) r of
        (start0, start1, item) \<Rightarrow> do {
          overshoot \<leftarrow> point_sub p (point_of start0);
          d \<leftarrow> (case item of Some chunk \<Rightarrow> chunk_point_to_offset debug chunk overshoot | None \<Rightarrow> Some 0);
          Some (start1 + d)
        })"

definition rope_point_to_offset_utf16 :: "bool \<Rightarrow> rope \<Rightarrow> point \<Rightarrow> offset_utf16 option" where
  "rope_point_to_offset_utf16 debug r p =
     (if is_ge (point_cmp p (ts_lines (rope_summary r))) then Some (ts_len_utf16 (rope_summary r))
      else do {
        (start0, start1, item) \<leftarrow> seek_position point_dim utf16_dim (npoint_of p) r;
        overshoot \<leftarrow> point_sub p (point_of start0);
        d \<leftarrow> (case item of Some chunk \<Rightarrow> chunk_point_to_offset_utf16 debug chunk overshoot | None \<Rightarrow> Some (OffsetUtf16 0));
        Some (offset_utf16_add (OffsetUtf16 start1) d)
      })"

definition rope_point_utf16_to_point :: "bool \<Rightarrow> rope \<Rightarrow> point_utf16 \<Rightarrow> point option" where
  "rope_point_utf16_to_point debug r p =
     (if is_ge (point_utf16_cmp p (lines_utf16 (rope_summary r))) then Some (ts_lines (rope_summary r))
      else do {
        (start0, start1, item) \<leftarrow> seek_position point_utf16_dim point_dim (npoint_of_utf16 p) r;
        overshoot \<leftarrow> point_utf16_sub p (point_utf16_of start0);
        d \<leftarrow> (case item of
            Some chunk \<Rightarrow> do { i \<leftarrow> chunk_point_utf16_to_offset debug chunk overshoot False; chunk_offset_to_point chunk i }
          | None \<Rightarrow> Some point_zero);
        point_add (point_of start1) d
      })"

definition point_utf16_to_offset_impl :: "bool \<Rightarrow> rope \<Rightarrow> point_utf16 \<Rightarrow> bool \<Rightarrow> nat option" where
  "point_utf16_to_offset_impl debug r p clip =
     (if is_ge (point_utf16_cmp p (lines_utf16 (rope_summary r))) then Some (ts_len (rope_summary r))
      else case find_position point_utf16_dim usize_dim (npoint_of_utf16 p) r of
        (start0, start1, item) \<Rightarrow> do {
          overshoot \<leftarrow> point_utf16_sub p (point_utf16_of start0);
          d \<leftarrow> (case item of Some chunk \<Rightarrow> chunk_point_utf16_to_offset debug chunk overshoot clip | None \<Rightarrow> Some 0);
          Some (start1 + d)
        })"

definition rope_point_utf16_to_offset :: "bool \<Rightarrow> rope \<Rightarrow> point_utf16 \<Rightarrow> nat option" where
  "rope_point_utf16_to_offset debug r p = point_utf16_to_offset_impl debug r p False"

definition rope_unclipped_point_utf16_to_offset :: "bool \<Rightarrow> rope \<Rightarrow> point_utf16 unclipped \<Rightarrow> nat option" where
  "rope_unclipped_point_utf16_to_offset debug r p = point_utf16_to_offset_impl debug r (clip_value p) True"

definition point_utf16_to_offset_utf16_impl :: "bool \<Rightarrow> rope \<Rightarrow> point_utf16 \<Rightarrow> bool \<Rightarrow> offset_utf16 option" where
  "point_utf16_to_offset_utf16_impl debug r p clip =
     (if is_ge (point_utf16_cmp p (lines_utf16 (rope_summary r))) then Some (ts_len_utf16 (rope_summary r))
      else do {
        (start0, start1, item) \<leftarrow> seek_position point_utf16_dim utf16_dim (npoint_of_utf16 p) r;
        overshoot \<leftarrow> point_utf16_sub p (point_utf16_of start0);
        d \<leftarrow> (case item of
            Some chunk \<Rightarrow> do {
              i \<leftarrow> chunk_point_utf16_to_offset debug chunk overshoot clip;
              Some (chunk_offset_to_offset_utf16 chunk i)
            }
          | None \<Rightarrow> Some (OffsetUtf16 0));
        Some (offset_utf16_add (OffsetUtf16 start1) d)
      })"

definition rope_point_utf16_to_offset_utf16 :: "bool \<Rightarrow> rope \<Rightarrow> point_utf16 \<Rightarrow> offset_utf16 option" where
  "rope_point_utf16_to_offset_utf16 debug r p = point_utf16_to_offset_utf16_impl debug r p False"

definition rope_unclipped_point_utf16_to_point :: "rope \<Rightarrow> point_utf16 unclipped \<Rightarrow> point option" where
  "rope_unclipped_point_utf16_to_point r u =
     (let p = clip_value u
      in if is_ge (point_utf16_cmp p (lines_utf16 (rope_summary r))) then Some (ts_lines (rope_summary r))
         else case find_position point_utf16_dim point_dim (npoint_of_utf16 p) r of
           (start0, start1, item) \<Rightarrow> do {
             overshoot \<leftarrow> point_utf16_sub p (point_utf16_of start0);
             d \<leftarrow> (case item of Some chunk \<Rightarrow> chunk_unclipped_point_utf16_to_point chunk (Unclipped overshoot) | None \<Rightarrow> Some point_zero);
             point_add (point_of start1) d
           })"

definition slice_rows :: "bool \<Rightarrow> rope \<Rightarrow> u32 \<times> u32 \<Rightarrow> rope option" where
  "slice_rows debug r = (\<lambda>(first_row, last_row). do {
     first \<leftarrow> rope_point_to_offset debug r (Point first_row 0);
     last \<leftarrow> rope_point_to_offset debug r (Point last_row 0);
     rope_slice r (first, last)
   })"

subsection \<open>Clipping\<close>

definition rope_clip_offset_utf16 :: "rope \<Rightarrow> offset_utf16 \<Rightarrow> bias \<Rightarrow> offset_utf16 option" where
  "rope_clip_offset_utf16 r offset bias =
     (case tree_find utf16_dim (ord_cmp (offset_value offset)) Right r of
        (start, _, Some chunk) \<Rightarrow> do {
          overshoot \<leftarrow> offset_utf16_sub offset (OffsetUtf16 start);
          d \<leftarrow> chunk_clip_offset_utf16 chunk overshoot bias;
          Some (offset_utf16_add (OffsetUtf16 start) d)
        }
      | (_, _, None) \<Rightarrow> Some (ts_len_utf16 (rope_summary r)))"

definition rope_clip_point :: "(u8 list \<Rightarrow> nat \<Rightarrow> bool) \<Rightarrow> rope \<Rightarrow> point \<Rightarrow> bias \<Rightarrow> point option" where
  "rope_clip_point grapheme_boundary r p bias =
     (case tree_find point_dim (ord_cmp (npoint_of p)) Right r of
        (start, _, Some chunk) \<Rightarrow> do {
          overshoot \<leftarrow> point_sub p (point_of start);
          d \<leftarrow> chunk_clip_point grapheme_boundary chunk overshoot bias;
          point_add (point_of start) d
        }
      | (_, _, None) \<Rightarrow> Some (ts_lines (rope_summary r)))"

definition rope_clip_point_utf16 :: "rope \<Rightarrow> point_utf16 unclipped \<Rightarrow> bias \<Rightarrow> point_utf16 option" where
  "rope_clip_point_utf16 r u bias =
     (case tree_find point_utf16_dim (ord_cmp (npoint_of_utf16 (clip_value u))) Right r of
        (start, _, Some chunk) \<Rightarrow> do {
          overshoot \<leftarrow> point_utf16_sub (clip_value u) (point_utf16_of start);
          d \<leftarrow> chunk_clip_point_utf16 chunk (Unclipped overshoot) bias;
          point_utf16_add (point_utf16_of start) d
        }
      | (_, _, None) \<Rightarrow> Some (lines_utf16 (rope_summary r)))"

definition line_len :: "(u8 list \<Rightarrow> nat \<Rightarrow> bool) \<Rightarrow> rope \<Rightarrow> u32 \<Rightarrow> u32 option" where
  "line_len grapheme_boundary r row_ix = map_option column (rope_clip_point grapheme_boundary r (Point row_ix (- 1)) Left)"

end
