(* ===== verification/RopeChunks.thy ===== *)
theory RopeChunks
  imports RopePositions "HOL-Library.Sublist"
begin

text \<open>
  Reading a rope (\<open>crates/rope/src/rope.rs\<close>): the iterators \<open>Chunks\<close>, \<open>ChunkWithBitmaps\<close>, \<open>Bytes\<close> and \<open>Lines\<close>, forward and reversed,
  the comparisons with a string that run over them, and \<open>Cursor::summary\<close>. An iterator is the record of its fields; a call returns
  its result and the new state; the outer \<open>option\<close> is a panic, the inner one Rust's \<open>Option\<close>. A loop over an iterator has fuel, one
  unit for each call of \<open>next\<close>.
\<close>

section \<open>Chunks\<close>

record rope_chunks =
  ck_chunks :: "(chunk, chunk_summary, nat) cursor"
  ck_first :: nat
  ck_last :: nat
  ck_offset :: nat
  ck_reversed :: bool

definition str_slice :: "u8 list \<Rightarrow> nat \<Rightarrow> nat \<Rightarrow> u8 list option" where
  "str_slice s a b = do {
     rust_assert (a \<le> b \<and> str_char_boundary s a \<and> str_char_boundary s b);
     Some (take (b - a) (drop a s))
   }"

definition chunks_new :: "bool \<Rightarrow> rope \<Rightarrow> nat \<times> nat \<Rightarrow> bool \<Rightarrow> rope_chunks option" where
  "chunks_new debug r = (\<lambda>(first, last) reversed. do {
     let offset = (if reversed then last else first);
     (c, _) \<leftarrow> cursor_seek usize_dim (ord_cmp offset) (if reversed then Left else Right) (cursor_new usize_dim r);
     chunk_offset \<leftarrow> checked_sub offset (cursor_start c);
     item \<leftarrow> cursor_item c;
     (case item of Some chunk \<Rightarrow> chunk_assert_char_boundary debug True chunk chunk_offset | None \<Rightarrow> Some True);
     Some \<lparr>ck_chunks = c, ck_first = first, ck_last = last, ck_offset = offset, ck_reversed = reversed\<rparr>
   })"

definition offset_is_valid :: "rope_chunks \<Rightarrow> bool" where
  "offset_is_valid ck =
     (if ck_reversed ck then \<not> (ck_offset ck \<le> ck_first ck \<or> ck_offset ck > ck_last ck)
      else \<not> (ck_offset ck < ck_first ck \<or> ck_offset ck \<ge> ck_last ck))"

text \<open>How \<open>seek\<close> moves the cursor; \<open>offset.clamp(start, end)\<close> panics when the range is inverted.\<close>

definition reposition :: "bool \<Rightarrow> (chunk, chunk_summary, nat) cursor \<Rightarrow> nat \<Rightarrow> (chunk, chunk_summary, nat) cursor option" where
  "reposition reversed c offset = do {
     e \<leftarrow> cursor_end usize_dim c;
     if reversed then
       (if offset > e then map_option fst (cursor_seek_forward usize_dim (ord_cmp offset) Left c)
        else if offset \<le> cursor_start c then map_option fst (cursor_seek usize_dim (ord_cmp offset) Left c)
        else Some c)
     else
       (if offset \<ge> e then map_option fst (cursor_seek_forward usize_dim (ord_cmp offset) Right c)
        else if offset < cursor_start c then map_option fst (cursor_seek usize_dim (ord_cmp offset) Right c)
        else Some c)
   }"

definition chunks_seek :: "rope_chunks \<Rightarrow> nat \<Rightarrow> rope_chunks option" where
  "chunks_seek ck offset0 = do {
     rust_assert (ck_first ck \<le> ck_last ck);
     let offset = max (ck_first ck) (min offset0 (ck_last ck));
     c \<leftarrow> reposition (ck_reversed ck) (ck_chunks ck) offset;
     Some (ck\<lparr>ck_chunks := c, ck_offset := offset\<rparr>)
   }"

definition chunks_set_range :: "rope_chunks \<Rightarrow> nat \<times> nat \<Rightarrow> rope_chunks option" where
  "chunks_set_range ck = (\<lambda>(first, last). chunks_seek (ck\<lparr>ck_first := first, ck_last := last\<rparr>) first)"

text \<open>The \<open>slice_range\<close> of \<open>peek\<close> and \<open>peek_with_bitmaps\<close>.\<close>

definition slice_range :: "rope_chunks \<Rightarrow> (nat \<times> nat) option" where
  "slice_range ck = do {
     let chunk_start = cursor_start (ck_chunks ck);
     if ck_reversed ck then do {
       slice_start \<leftarrow> checked_sub (max chunk_start (ck_first ck)) chunk_start;
       slice_end \<leftarrow> checked_sub (ck_offset ck) chunk_start;
       Some (slice_start, slice_end)
     }
     else do {
       slice_start \<leftarrow> checked_sub (ck_offset ck) chunk_start;
       e \<leftarrow> cursor_end usize_dim (ck_chunks ck);
       slice_end \<leftarrow> checked_sub (min e (ck_last ck)) chunk_start;
       Some (slice_start, slice_end)
     }
   }"

definition chunks_peek :: "rope_chunks \<Rightarrow> u8 list option option" where
  "chunks_peek ck =
     (if \<not> offset_is_valid ck then Some None
      else do {
        item \<leftarrow> cursor_item (ck_chunks ck);
        case item of
          None \<Rightarrow> Some None
        | Some chunk \<Rightarrow> do { (a, b) \<leftarrow> slice_range ck; s \<leftarrow> str_slice (c_text chunk) a b; Some (Some s) }
      })"

record chunk_bitmaps =
  cb_text :: "u8 list"
  cb_chars :: u128
  cb_tabs :: u128
  cb_newlines :: u128

definition peek_with_bitmaps :: "rope_chunks \<Rightarrow> chunk_bitmaps option option" where
  "peek_with_bitmaps ck =
     (if \<not> offset_is_valid ck then Some None
      else do {
        item \<leftarrow> cursor_item (ck_chunks ck);
        case item of
          None \<Rightarrow> Some None
        | Some chunk \<Rightarrow> do {
            (a, b) \<leftarrow> slice_range ck;
            s \<leftarrow> str_slice (c_text chunk) a b;
            shifted_tabs \<leftarrow> checked_shr (c_tabs chunk) a;
            shifted_chars \<leftarrow> checked_shr (c_chars chunk) a;
            shifted_newlines \<leftarrow> checked_shr (c_newlines chunk) a;
            Some (Some \<lparr>cb_text = s, cb_chars = shifted_chars, cb_tabs = shifted_tabs, cb_newlines = shifted_newlines\<rparr>)
          }
      })"

text \<open>What \<open>next\<close> of both iterators does after it has peeked \<open>n\<close> bytes.\<close>

definition chunks_advance :: "rope_chunks \<Rightarrow> nat \<Rightarrow> rope_chunks option" where
  "chunks_advance ck n =
     (if ck_reversed ck then do {
        offset \<leftarrow> checked_sub (ck_offset ck) n;
        c \<leftarrow> (if offset \<le> cursor_start (ck_chunks ck) then cursor_prev usize_dim (ck_chunks ck) else Some (ck_chunks ck));
        Some (ck\<lparr>ck_chunks := c, ck_offset := offset\<rparr>)
      }
      else do {
        let offset = ck_offset ck + n;
        e \<leftarrow> cursor_end usize_dim (ck_chunks ck);
        c \<leftarrow> (if offset \<ge> e then cursor_next usize_dim (ck_chunks ck) else Some (ck_chunks ck));
        Some (ck\<lparr>ck_chunks := c, ck_offset := offset\<rparr>)
      })"

definition chunks_next :: "rope_chunks \<Rightarrow> (u8 list option \<times> rope_chunks) option" where
  "chunks_next ck = do {
     chunk \<leftarrow> chunks_peek ck;
     case chunk of
       None \<Rightarrow> Some (None, ck)
     | Some s \<Rightarrow> do { ck' \<leftarrow> chunks_advance ck (length s); Some (Some s, ck') }
   }"

definition bitmaps_next :: "rope_chunks \<Rightarrow> (chunk_bitmaps option \<times> rope_chunks) option" where
  "bitmaps_next ck = do {
     bitmaps \<leftarrow> peek_with_bitmaps ck;
     case bitmaps of
       None \<Rightarrow> Some (None, ck)
     | Some b \<Rightarrow> do { ck' \<leftarrow> chunks_advance ck (length (cb_text b)); Some (Some b, ck') }
   }"

text \<open>A loop over an iterator: the results of \<open>next\<close> until it returns \<open>None\<close>.\<close>

fun collect :: "('t \<Rightarrow> ('a option \<times> 't) option) \<Rightarrow> nat \<Rightarrow> 't \<Rightarrow> 'a list option" where
  "collect nx 0 it = None"
| "collect nx (Suc fuel) it = do {
     (x, it') \<leftarrow> nx it;
     case x of None \<Rightarrow> Some [] | Some y \<Rightarrow> map_option (\<lambda>ys. y # ys) (collect nx fuel it')
   }"

text \<open>\<open>fmt::Display\<close> writes the chunks one after the other.\<close>

definition rope_display :: "nat \<Rightarrow> bool \<Rightarrow> rope \<Rightarrow> u8 list option" where
  "rope_display fuel debug r = do {
     ck \<leftarrow> chunks_new debug r (0, rope_len r) False;
     map_option concat (collect chunks_next fuel ck)
   }"

text \<open>The loops of \<open>equals_str\<close>, and \<open>starts_with\<close> and \<open>ends_with\<close> of a rope (a short circuit ends the loop).\<close>

fun equals_reversed :: "nat \<Rightarrow> rope_chunks \<Rightarrow> u8 list \<Rightarrow> nat \<Rightarrow> bool option" where
  "equals_reversed 0 ck other offset = None"
| "equals_reversed (Suc fuel) ck other offset = do {
     (chunk, ck') \<leftarrow> chunks_next ck;
     case chunk of
       None \<Rightarrow> Some (offset = 0)
     | Some s \<Rightarrow> do {
         head \<leftarrow> str_slice other 0 offset;
         if suffix s head then do { offset' \<leftarrow> checked_sub offset (length s); equals_reversed fuel ck' other offset' }
         else Some False
       }
   }"

fun equals_forward :: "nat \<Rightarrow> rope_chunks \<Rightarrow> u8 list \<Rightarrow> nat \<Rightarrow> bool option" where
  "equals_forward 0 ck other offset = None"
| "equals_forward (Suc fuel) ck other offset = do {
     (chunk, ck') \<leftarrow> chunks_next ck;
     case chunk of
       None \<Rightarrow> Some (offset = length other)
     | Some s \<Rightarrow>
         if offset \<ge> length other then Some False
         else do {
           tail \<leftarrow> str_slice other offset (length other);
           if prefix s tail then equals_forward fuel ck' other (offset + length s) else Some False
         }
   }"

definition equals_str :: "nat \<Rightarrow> rope_chunks \<Rightarrow> u8 list \<Rightarrow> bool option" where
  "equals_str fuel ck other =
     (if ck_reversed ck then equals_reversed fuel ck other (length other) else equals_forward fuel ck other 0)"

text \<open>\<open>chunk.get(..n)\<close> is \<open>None\<close> when \<open>n\<close> is not a character boundary.\<close>

fun starts_with_loop :: "nat \<Rightarrow> rope_chunks \<Rightarrow> u8 list \<Rightarrow> bool option" where
  "starts_with_loop 0 ck remaining = None"
| "starts_with_loop (Suc fuel) ck remaining = do {
     (chunk, ck') \<leftarrow> chunks_next ck;
     case chunk of
       None \<Rightarrow> Some (remaining = [])
     | Some s \<Rightarrow>
         let n = min (length remaining) (length s)
         in if \<not> str_char_boundary s n then Some False
            else if prefix (take n s) remaining then do {
              rust_assert (str_char_boundary remaining n);
              if drop n remaining = [] then Some True else starts_with_loop fuel ck' (drop n remaining)
            }
            else Some False
   }"

definition starts_with :: "nat \<Rightarrow> bool \<Rightarrow> rope \<Rightarrow> u8 list \<Rightarrow> bool option" where
  "starts_with fuel debug r pattern =
     (if length pattern > rope_len r then Some False
      else do { ck \<leftarrow> chunks_new debug r (0, rope_len r) False; starts_with_loop fuel ck pattern })"

fun ends_with_loop :: "nat \<Rightarrow> rope_chunks \<Rightarrow> u8 list \<Rightarrow> bool option" where
  "ends_with_loop 0 ck remaining = None"
| "ends_with_loop (Suc fuel) ck remaining = do {
     (chunk, ck') \<leftarrow> chunks_next ck;
     case chunk of
       None \<Rightarrow> Some (remaining = [])
     | Some s \<Rightarrow>
         let k = length s - min (length remaining) (length s); n = length remaining - (length s - k)
         in if \<not> str_char_boundary s k then Some False
            else if suffix (drop k s) remaining then do {
              rust_assert (str_char_boundary remaining n);
              if take n remaining = [] then Some True else ends_with_loop fuel ck' (take n remaining)
            }
            else Some False
   }"

definition ends_with :: "nat \<Rightarrow> bool \<Rightarrow> rope \<Rightarrow> u8 list \<Rightarrow> bool option" where
  "ends_with fuel debug r pattern =
     (if length pattern > rope_len r then Some False
      else do { ck \<leftarrow> chunks_new debug r (0, rope_len r) True; ends_with_loop fuel ck pattern })"

text \<open>\<open>next_line\<close> and \<open>prev_line\<close>, with \<open>str::find('\n')\<close> and \<open>str::rfind('\n')\<close> on the bytes.\<close>

fun newline_ix :: "u8 list \<Rightarrow> nat option" where
  "newline_ix [] = None"
| "newline_ix (b # bs) = (if b = 10 then Some 0 else map_option Suc (newline_ix bs))"

definition newline_rix :: "u8 list \<Rightarrow> nat option" where
  "newline_rix bs = map_option (\<lambda>i. length bs - Suc i) (newline_ix (rev bs))"

definition has_newline :: "chunk_summary \<Rightarrow> bool" where
  "has_newline s \<longleftrightarrow> ns_row (cs_text s) > 0"

definition next_newline :: "rope_chunks \<Rightarrow> u8 list \<Rightarrow> (bool \<times> rope_chunks) option" where
  "next_newline ck s =
     (case newline_ix s of
        Some ix \<Rightarrow> let offset = ck_offset ck + (ix + 1) in Some (offset \<le> ck_last ck, ck\<lparr>ck_offset := offset\<rparr>)
      | None \<Rightarrow> do {
          c \<leftarrow> search_forward usize_dim has_newline (ck_chunks ck);
          let ck1 = ck\<lparr>ck_chunks := c, ck_offset := cursor_start c\<rparr>;
          chunk \<leftarrow> chunks_peek ck1;
          case (case chunk of Some s1 \<Rightarrow> newline_ix s1 | None \<Rightarrow> None) of
            Some ix \<Rightarrow> let offset = ck_offset ck1 + (ix + 1) in Some (offset \<le> ck_last ck1, ck1\<lparr>ck_offset := offset\<rparr>)
          | None \<Rightarrow> do { e \<leftarrow> cursor_end usize_dim c; Some (False, ck1\<lparr>ck_offset := e\<rparr>) }
        })"

definition next_line :: "rope_chunks \<Rightarrow> (bool \<times> rope_chunks) option" where
  "next_line ck = do {
     rust_assert (\<not> ck_reversed ck);
     chunk \<leftarrow> chunks_peek ck;
     (found, ck1) \<leftarrow> (case chunk of
         None \<Rightarrow> Some (False, ck)
       | Some s \<Rightarrow> do {
           (found, ck2) \<leftarrow> next_newline ck s;
           e \<leftarrow> cursor_end usize_dim (ck_chunks ck2);
           if ck_offset ck2 = e then do { (_, ck3) \<leftarrow> chunks_next ck2; Some (found, ck3) } else Some (found, ck2)
         });
     if ck_offset ck1 > ck_last ck1 then do {
       (c, _) \<leftarrow> cursor_seek usize_dim (ord_cmp (ck_last ck1)) Right (ck_chunks ck1);
       Some (found, ck1\<lparr>ck_chunks := c, ck_offset := ck_last ck1\<rparr>)
     }
     else Some (found, ck1)
   }"

text \<open>The offset after the last newline of the chunk before the iterator, a newline just before it set aside.\<close>

definition near_newline :: "(chunk, chunk_summary, nat) cursor \<Rightarrow> nat \<Rightarrow> nat option option" where
  "near_newline c offset = do {
     item \<leftarrow> cursor_item c;
     case item of
       None \<Rightarrow> Some None
     | Some chunk \<Rightarrow> do {
         end_ix \<leftarrow> checked_sub offset (cursor_start c);
         last_ix \<leftarrow> checked_sub end_ix 1;
         rust_assert (last_ix < length (c_text chunk));
         head \<leftarrow> str_slice (c_text chunk) 0 (if c_text chunk ! last_ix = 10 then last_ix else end_ix);
         Some (map_option (\<lambda>ix. cursor_start c + ix + 1) (newline_rix head))
       }
   }"

definition far_newline :: "rope_chunks \<Rightarrow> nat \<Rightarrow> (bool \<times> rope_chunks) option" where
  "far_newline ck initial_offset = do {
     c \<leftarrow> search_backward usize_dim has_newline (ck_chunks ck);
     item \<leftarrow> cursor_item c;
     let newline = (case item of Some chunk \<Rightarrow> newline_rix (c_text chunk) | None \<Rightarrow> None);
     let ck1 = ck\<lparr>ck_chunks := c, ck_offset := (case newline of Some ix \<Rightarrow> cursor_start c + (ix + 1) | None \<Rightarrow> cursor_start c)\<rparr>;
     if newline \<noteq> None \<and> offset_is_valid ck1 then do {
       e \<leftarrow> cursor_end usize_dim c;
       c' \<leftarrow> (if ck_offset ck1 = e then cursor_next usize_dim c else Some c);
       Some (True, ck1\<lparr>ck_chunks := c'\<rparr>)
     }
     else do {
       ck2 \<leftarrow>
         (if \<not> offset_is_valid ck1 \<or> item = None then do {
            (c', _) \<leftarrow> cursor_seek usize_dim (ord_cmp (ck_first ck)) Right c;
            Some (ck1\<lparr>ck_chunks := c', ck_offset := ck_first ck\<rparr>)
          }
          else Some ck1);
       Some (ck_offset ck2 < initial_offset \<and> ck_offset ck2 = 0, ck2)
     }
   }"

definition prev_line :: "rope_chunks \<Rightarrow> (bool \<times> rope_chunks) option" where
  "prev_line ck = do {
     rust_assert (\<not> ck_reversed ck);
     c \<leftarrow> (if ck_offset ck = cursor_start (ck_chunks ck) then cursor_prev usize_dim (ck_chunks ck) else Some (ck_chunks ck));
     near \<leftarrow> near_newline c (ck_offset ck);
     let ck1 = ck\<lparr>ck_chunks := c, ck_offset := (case near of Some offset \<Rightarrow> offset | None \<Rightarrow> ck_offset ck)\<rparr>;
     if near \<noteq> None \<and> offset_is_valid ck1 then Some (True, ck1) else far_newline ck1 (ck_offset ck)
   }"

section \<open>Bytes\<close>

record rope_bytes =
  by_chunks :: "(chunk, chunk_summary, nat) cursor"
  by_first :: nat
  by_last :: nat
  by_reversed :: bool

definition bytes_new :: "rope \<Rightarrow> nat \<times> nat \<Rightarrow> bool \<Rightarrow> rope_bytes option" where
  "bytes_new r = (\<lambda>(first, last) reversed. do {
     (c, _) \<leftarrow> (if reversed then cursor_seek usize_dim (ord_cmp last) Left (cursor_new usize_dim r)
       else cursor_seek usize_dim (ord_cmp first) Right (cursor_new usize_dim r));
     Some \<lparr>by_chunks = c, by_first = first, by_last = last, by_reversed = reversed\<rparr>
   })"

definition bytes_peek :: "rope_bytes \<Rightarrow> u8 list option option" where
  "bytes_peek b = do {
     item \<leftarrow> cursor_item (by_chunks b);
     case item of
       None \<Rightarrow> Some None
     | Some chunk \<Rightarrow> do {
         e \<leftarrow> cursor_end usize_dim (by_chunks b);
         let chunk_start = cursor_start (by_chunks b);
         if by_reversed b \<and> by_first b \<ge> e then Some None
         else if by_last b \<le> chunk_start then Some None
         else do {
           let start = by_first b - chunk_start;
           let end' = min (length (c_text chunk)) (by_last b - chunk_start);
           rust_assert (start \<le> end');
           Some (Some (take (end' - start) (drop start (c_text chunk))))
         }
       }
   }"

definition bytes_step :: "rope_bytes \<Rightarrow> rope_bytes option" where
  "bytes_step b = do {
     c \<leftarrow> (if by_reversed b then cursor_prev usize_dim (by_chunks b) else cursor_next usize_dim (by_chunks b));
     Some (b\<lparr>by_chunks := c\<rparr>)
   }"

definition bytes_next :: "rope_bytes \<Rightarrow> (u8 list option \<times> rope_bytes) option" where
  "bytes_next b = do {
     result \<leftarrow> bytes_peek b;
     case result of None \<Rightarrow> Some (None, b) | Some s \<Rightarrow> do { b' \<leftarrow> bytes_step b; Some (Some s, b') }
   }"

text \<open>\<open>io::Read\<close>: a buffer of length \<open>n\<close> is filled from its start; the bytes written are returned.\<close>

definition bytes_read :: "rope_bytes \<Rightarrow> nat \<Rightarrow> (u8 list \<times> rope_bytes) option" where
  "bytes_read b n = do {
     chunk \<leftarrow> bytes_peek b;
     case chunk of
       None \<Rightarrow> Some ([], b)
     | Some s \<Rightarrow> do {
         let len = min n (length s);
         (buf, b1) \<leftarrow>
           (if by_reversed b then do {
              last \<leftarrow> checked_sub (by_last b) len;
              Some (rev (drop (length s - len) s), b\<lparr>by_last := last\<rparr>)
            }
            else Some (take len s, b\<lparr>by_first := by_first b + len\<rparr>));
         b2 \<leftarrow> (if len = length s then bytes_step b1 else Some b1);
         Some (buf, b2)
       }
   }"

section \<open>Lines\<close>

record rope_lines =
  li_chunks :: rope_chunks
  li_current_line :: "u8 list"
  li_done :: bool
  li_reversed :: bool

definition chunks_lines :: "rope_chunks \<Rightarrow> rope_lines" where
  "chunks_lines ck = \<lparr>li_chunks = ck, li_current_line = [], li_done = False, li_reversed = ck_reversed ck\<rparr>"

text \<open>\<open>str::split('\n')\<close> on the bytes.\<close>

fun split_newlines :: "u8 list \<Rightarrow> u8 list list" where
  "split_newlines [] = [[]]"
| "split_newlines (b # bs) = (if b = 10 then [] # split_newlines bs else (b # hd (split_newlines bs)) # tl (split_newlines bs))"

fun rope_lines_loop :: "nat \<Rightarrow> rope_lines \<Rightarrow> (u8 list \<times> rope_lines) option" where
  "rope_lines_loop 0 li = None"
| "rope_lines_loop (Suc fuel) li = do {
     let ck = li_chunks li;
     chunk \<leftarrow> chunks_peek ck;
     case chunk of
       None \<Rightarrow> Some (li_current_line li, li\<lparr>li_done := True\<rparr>)
     | Some s \<Rightarrow>
         (let parts = split_newlines s;
              chunk_line = (if li_reversed li then last parts else hd parts);
              found = length parts > 1;
              line = (if li_reversed li then chunk_line @ li_current_line li else li_current_line li @ chunk_line)
          in if found then do {
               target \<leftarrow> (if li_reversed li then checked_sub (ck_offset ck) (length chunk_line + 1)
                 else Some (ck_offset ck + length chunk_line + 1));
               ck' \<leftarrow> chunks_seek ck target;
               if li_current_line li = [] then Some (chunk_line, li\<lparr>li_chunks := ck'\<rparr>)
               else Some (line, li\<lparr>li_chunks := ck', li_current_line := line\<rparr>)
             }
             else do {
               (_, ck') \<leftarrow> chunks_next ck;
               rope_lines_loop fuel (li\<lparr>li_chunks := ck', li_current_line := line\<rparr>)
             })
   }"

definition lines_next :: "nat \<Rightarrow> rope_lines \<Rightarrow> (u8 list option \<times> rope_lines) option" where
  "lines_next fuel li =
     (if li_done li then Some (None, li)
      else do { (line, li') \<leftarrow> rope_lines_loop fuel (li\<lparr>li_current_line := []\<rparr>); Some (Some line, li') })"

definition lines_seek :: "rope_lines \<Rightarrow> nat \<Rightarrow> rope_lines option" where
  "lines_seek li offset = do {
     ck \<leftarrow> chunks_seek (li_chunks li) offset;
     Some (li\<lparr>li_chunks := ck, li_current_line := [], li_done := False\<rparr>)
   }"

section \<open>Summaries\<close>

text \<open>The trait \<open>TextDimension\<close>. The values are natural numbers, as in the dimensions of the tree; \<open>RopeMeasure_Correct\<close> relates them to the \<open>u32\<close> fields
  of \<open>Point\<close>, \<open>PointUtf16\<close> and \<open>TextSummary\<close>.\<close>

record 'd text_dimension =
  td_dim :: "(chunk_summary, 'd) dimension"
  td_from_chunk :: "chunk \<Rightarrow> 'd option"
  td_add_assign :: "'d \<Rightarrow> 'd \<Rightarrow> 'd"

definition usize_td :: "nat text_dimension" where
  "usize_td = \<lparr>td_dim = usize_dim, td_from_chunk = (\<lambda>c. Some (chunk_len c)), td_add_assign = (+)\<rparr>"

definition utf16_td :: "nat text_dimension" where
  "utf16_td = \<lparr>td_dim = utf16_dim, td_from_chunk = (\<lambda>c. Some (offset_value (chunk_len_utf16 c))), td_add_assign = (+)\<rparr>"

definition point_td :: "npoint text_dimension" where
  "point_td = \<lparr>td_dim = point_dim, td_from_chunk = (\<lambda>c. map_option npoint_of (chunk_lines c)), td_add_assign = npoint_add\<rparr>"

definition point_utf16_td :: "npoint text_dimension" where
  "point_utf16_td = \<lparr>td_dim = point_utf16_dim,
     td_from_chunk = (\<lambda>c. map_option (\<lambda>p. npoint_of_utf16 (PointUtf16 (row p) (chunk_last_line_len_utf16 c))) (chunk_lines c)),
     td_add_assign = npoint_add\<rparr>"

definition summary_td :: "nat_summary text_dimension" where
  "summary_td = \<lparr>td_dim = text_dim, td_from_chunk = (\<lambda>c. map_option nat_of_summary (chunk_text_summary c)), td_add_assign = ns_add\<rparr>"

definition pair_td :: "'d text_dimension \<Rightarrow> 'e text_dimension \<Rightarrow> ('d \<times> 'e) text_dimension" where
  "pair_td d e =
     \<lparr>td_dim = dimensions (td_dim d) (td_dim e),
      td_from_chunk = (\<lambda>c. do { x \<leftarrow> td_from_chunk d c; y \<leftarrow> td_from_chunk e c; Some (x, y) }),
      td_add_assign = (\<lambda>x y. (td_add_assign d (fst x) (fst y), td_add_assign e (snd x) (snd y)))\<rparr>"

definition summary_end_chunk :: "'d text_dimension \<Rightarrow> (chunk, chunk_summary, nat) cursor \<Rightarrow> 'd \<Rightarrow> nat \<Rightarrow> 'd option" where
  "summary_end_chunk td c s end_offset = do {
     end_chunk \<leftarrow> cursor_item c;
     case end_chunk of
       Some chunk \<Rightarrow> do {
         end_ix \<leftarrow> checked_sub end_offset (cursor_start c);
         piece \<leftarrow> chunk_slice chunk (0, end_ix);
         d \<leftarrow> td_from_chunk td piece;
         Some (td_add_assign td s d)
       }
     | None \<Rightarrow> Some s
   }"

definition rc_summary :: "'d text_dimension \<Rightarrow> rope_cursor \<Rightarrow> nat \<Rightarrow> (rope_cursor \<times> 'd) option" where
  "rc_summary td rc end_offset = do {
     rust_assert (end_offset \<ge> rc_offset rc);
     rust_assert (end_offset \<le> rope_len (rc_rope rc));
     start_chunk \<leftarrow> cursor_item (rc_chunks rc);
     chunk_end \<leftarrow> cursor_end usize_dim (rc_chunks rc);
     s1 \<leftarrow> (case start_chunk of
         Some chunk \<Rightarrow> do {
           start_ix \<leftarrow> checked_sub (rc_offset rc) (cursor_start (rc_chunks rc));
           end_ix \<leftarrow> checked_sub (min end_offset chunk_end) (cursor_start (rc_chunks rc));
           piece \<leftarrow> chunk_slice chunk (start_ix, end_ix);
           d \<leftarrow> td_from_chunk td piece;
           Some (td_add_assign td (d_zero (td_dim td)) d)
         }
       | None \<Rightarrow> Some (d_zero (td_dim td)));
     (c, s2) \<leftarrow>
       (if end_offset > chunk_end then do {
          c1 \<leftarrow> cursor_next usize_dim (rc_chunks rc);
          (c2, middle) \<leftarrow> cursor_summary (td_dim td) usize_dim (ord_cmp end_offset) Right c1;
          s' \<leftarrow> summary_end_chunk td c2 (td_add_assign td s1 middle) end_offset;
          Some (c2, s')
        }
        else Some (rc_chunks rc, s1));
     Some (rc\<lparr>rc_chunks := c, rc_offset := end_offset\<rparr>, s2)
   }"

end
