(* ===== verification/RopePositions_Correct.thy ===== *)
theory RopePositions_Correct
  imports RopePositions
begin

text \<open>
  The conversions and the clipping of \<open>RopePositions\<close> against the text of the rope: the position of a prefix in one dimension is
  taken to the position of the same prefix in another one, and clipping returns the position of a prefix.
\<close>

section \<open>Positions of prefixes\<close>

lemma rope_summary_of: "rope_ok r s \<Longrightarrow> rope_summary r = summary_of s"
  by (auto simp: rope_ok_def rope_summary_def holds_summary summary_u32_def summary_of_def)

lemma point_of_prefix:
  "point_of (point_of_text s) = ts_lines (summary_of s)" "point_utf16_of (point_utf16_of_text s) = lines_utf16 (summary_of s)"
  by (simp_all add: point_of_def point_utf16_of_def summary_of_def lines_utf16_def)

lemma u32_bounds:
  assumes "str_len s < 2 ^ 32"
  shows "rows s < 2 ^ 32" "str_len (last_line s) < 2 ^ 32" "utf16_len (last_line s) < 2 ^ 32"
  using line_bounds [of s] char_bounds [of s] assms by linarith+

lemma npoint_of_prefix:
  assumes "str_len s < 2 ^ 32"
  shows "npoint_of (ts_lines (summary_of s)) = point_of_text s" "npoint_of_utf16 (lines_utf16 (summary_of s)) = point_utf16_of_text s"
  using u32_bounds [OF assms] by (simp_all add: npoint_of_def npoint_of_utf16_def summary_of_def lines_utf16_def unat_of_nat)

lemma checked_add_nat32: "a + b < 2 ^ 32 \<Longrightarrow> checked_add (of_nat a) (of_nat b :: u32) = Some (of_nat (a + b))"
  by (rule checked_add_of_nat) simp

lemma row_zero32: "rows s < 2 ^ 32 \<Longrightarrow> (of_nat (rows s) :: u32) = 0 \<longleftrightarrow> rows s = 0"
  by (rule of_nat_word_eq_0) simp

lemma point_add_prefix:
  assumes "str_len (s @ w) < 2 ^ 32"
  shows "point_add (ts_lines (summary_of s)) (ts_lines (summary_of w)) = Some (ts_lines (summary_of (s @ w)))"
    "point_utf16_add (lines_utf16 (summary_of s)) (lines_utf16 (summary_of w)) = Some (lines_utf16 (summary_of (s @ w)))"
proof -
  note b = u32_bounds [OF assms]
  have w: "rows w < 2 ^ 32" using b(1) by (simp only: lines_append)
  have "checked_add (of_nat (str_len (last_line s))) (of_nat (str_len (last_line w)) :: u32) = Some (of_nat (str_len (last_line (s @ w))))"
    "checked_add (of_nat (utf16_len (last_line s))) (of_nat (utf16_len (last_line w)) :: u32) = Some (of_nat (utf16_len (last_line (s @ w))))"
    if "rows w = 0"
    using that b(2,3) checked_add_nat32 by (simp_all add: lines_append)
  moreover have "checked_add (of_nat (rows s)) (of_nat (rows w) :: u32) = Some (of_nat (rows (s @ w)))"
    using b(1) checked_add_nat32 by (simp add: lines_append)
  ultimately show "point_add (ts_lines (summary_of s)) (ts_lines (summary_of w)) = Some (ts_lines (summary_of (s @ w)))"
    "point_utf16_add (lines_utf16 (summary_of s)) (lines_utf16 (summary_of w)) = Some (lines_utf16 (summary_of (s @ w)))"
    using row_zero32 [OF w]
    by (simp_all add: point_add_def point_utf16_add_def summary_of_def lines_utf16_def, auto simp: lines_append)
qed

text \<open>Subtracting what was added.\<close>

lemma checked_add_cancel: "checked_add a b = Some c \<Longrightarrow> checked_sub_u32 c a = Some b \<and> (c = a \<longleftrightarrow> b = 0)" for a b c :: u32
  by (auto simp: checked_add_Some checked_sub_u32_def word_le_nat_alt unat_word_ariths)

context text_position
begin

lemma sub_add:
  assumes "add b x = Some a"
  shows "sub a b = Some x"
proof (cases "rw x = 0")
  case True
  with assms obtain c where c: "checked_add (col b) (col x) = Some c" "a = mk (rw b) c" by (auto simp: add_eq)
  note d = checked_add_cancel [OF c(1)]
  then have "col b \<le> c" by (auto simp: checked_sub_u32_def split: if_splits)
  moreover have "mk 0 (col x) = x" using True mk_collapse [of x] by simp
  ultimately show ?thesis using c d by (auto simp: sub_eq cmp_lex then_with_def ord_cmp_def)
next
  case False
  with assms obtain c where c: "checked_add (rw b) (rw x) = Some c" "a = mk c (col x)" by (auto simp: add_eq)
  note d = checked_add_cancel [OF c(1)]
  with False have "rw b < c" by (auto simp: checked_sub_u32_def split: if_splits)
  then show ?thesis using c d False by (auto simp: sub_eq cmp_lex then_with_def ord_cmp_def)
qed

end

lemmas point_sub_prefix = point.sub_add [OF point_add_prefix(1)] point_utf16.sub_add [OF point_add_prefix(2)]

text \<open>The order of points is that of the pairs of their numbers.\<close>

lemma ord_cmp_pair: "ord_cmp (a, b) (c, d) = then_with (ord_cmp a c) (ord_cmp b d)" for a c :: nat and b d :: nat
  by (simp add: ord_cmp_def then_with_def less_prod_def)

lemma ord_cmp_unat: "ord_cmp (unat a) (unat b) = ord_cmp a b" for a b :: u32
  by (simp add: ord_cmp_def word_less_nat_alt word_unat_eq_iff)

lemma point_cmp_nat:
  "point_cmp p q = ord_cmp (npoint_of p) (npoint_of q)" "point_utf16_cmp p' q' = ord_cmp (npoint_of_utf16 p') (npoint_of_utf16 q')"
  by (simp_all add: point.cmp_lex point_utf16.cmp_lex npoint_of_def npoint_of_utf16_def ord_cmp_pair ord_cmp_unat)

lemma prefix_before_end:
  assumes "str_len (a @ b) < 2 ^ 32" "b \<noteq> []"
  shows "\<not> is_ge (point_cmp (ts_lines (summary_of a)) (ts_lines (summary_of (a @ b))))"
    "\<not> is_ge (point_utf16_cmp (lines_utf16 (summary_of a)) (lines_utf16 (summary_of (a @ b))))"
proof -
  have a: "str_len a < 2 ^ 32" using assms(1) by simp
  show "\<not> is_ge (point_cmp (ts_lines (summary_of a)) (ts_lines (summary_of (a @ b))))"
    "\<not> is_ge (point_utf16_cmp (lines_utf16 (summary_of a)) (lines_utf16 (summary_of (a @ b))))"
    using pt.measure_strict [OF assms(2), of a] pt16.measure_strict [OF assms(2), of a]
    by (simp_all add: point_cmp_nat npoint_of_prefix [OF assms(1)] npoint_of_prefix [OF a] is_ge_def ord_cmp_def)
qed

lemma at_end: "is_ge (point_cmp p p)" "is_ge (point_utf16_cmp q q)"
  by (simp_all add: point_cmp_nat is_ge_def ord_cmp_def)

context two_measures
begin

lemma position_prefix:
  assumes "holds r ss" "concat ss = a @ b" "b \<noteq> []"
  obtains u w z where "a = u @ w" "valid_str (w @ z)" "str_len (w @ z) \<le> 128"
    "find_position dim out (measure_of a) r = (measure_of u, out_of u, Some (chunk_of (w @ z)))"
proof -
  obtain as w z bs where f: "ss = as @ (w @ z) # bs" "a = concat as @ w" "b = z @ concat bs"
    "tree_find (dimensions dim out) (dimensions_target (ord_cmp (measure_of a))) Left r =
     ((measure_of (concat as), out_of (concat as)), (measure_of (concat as @ w @ z), out_of (concat as @ w @ z)), Some (chunk_of (w @ z)))"
    by (rule find_prefix [OF assms])
  have "valid_str (w @ z)" "str_len (w @ z) \<le> 128" using assms(1) by (simp_all add: f(1) holds_def)
  with f(2) show ?thesis by (rule that) (simp only: find_position_def f(4) prod.case fst_conv snd_conv)
qed

lemma seek_prefix:
  assumes "holds r ss" "concat ss = a @ b" "b \<noteq> []" "height r < STACK_CAPACITY"
  obtains u w z where "a = u @ w" "valid_str (w @ z)" "str_len (w @ z) \<le> 128"
    "seek_position dim out (measure_of a) r = Some (measure_of u, out_of u, Some (chunk_of (w @ z)))"
proof -
  let ?t = "dimensions_target (ord_cmp (measure_of a))" and ?c = "cursor_new (dimensions dim out) r"
  have h: "holds (c_tree ?c) ss" "height (c_tree ?c) < STACK_CAPACITY" using assms by simp_all
  have ge: "is_ge (?t (measure_of [], out_of []))" using measure_le [of "[]" a] by (auto simp: is_ge_def dimensions_target_def ord_cmp_def)
  obtain c' found as bs where c: "cursor_seek (dimensions dim out) ?t Left ?c = Some (c', found)"
    "c_tree c' = c_tree ?c" "ss = as @ bs" "pair.stands c' as bs" "pair.cut ?t Left [] as bs"
    by (rule pair.seek_text [OF h pair_falling ge])
  have cut: "cut (ord_cmp (measure_of a)) Left [] as bs" using c(5) by (simp only: pair_cut)
  have "bs \<noteq> []"
  proof
    assume "bs = []"
    with c(3) assms(2,3) have as: "concat as = a @ b" "as \<noteq> []" by auto
    then have "past_end (ord_cmp (measure_of a)) Left (measure_of (a @ b))" using cut unfolding cut_def by simp
    with measure_strict [OF assms(3), of a] show False by (simp add: past_end_def ord_cmp_def)
  qed
  then obtain s bs' where s: "bs = s # bs'" by (cases bs) auto
  with c(3) assms(2) have "concat as @ s @ concat bs' = a @ b" by simp
  then obtain w z where wz: "s = w @ z" "a = concat as @ w" "b = z @ concat bs'" by (rule cut_prefix [OF _ cut [unfolded s]])
  have "valid_str s" "str_len s \<le> 128" using assms(1) c(3) s by (auto simp: holds_def)
  then have v: "valid_str (w @ z)" "str_len (w @ z) \<le> 128" by (simp_all only: wz(1))
  have "cursor_item c' = Some (Some (chunk_of (w @ z)))" using pair.stands_reads(2) [OF c(4)] by (simp add: s wz(1))
  with c(1) pair.stands_reads(1) [OF c(4)]
  have "seek_position dim out (measure_of a) r = Some (measure_of (concat as), out_of (concat as), Some (chunk_of (w @ z)))"
    by (simp add: seek_position_def)
  with wz(2) v show ?thesis by (rule that)
qed

end

interpretation usize_utf16: two_measures usize_dim str_len utf16_dim utf16_len by unfold_locales
interpretation utf16_usize: two_measures utf16_dim utf16_len usize_dim str_len by unfold_locales
interpretation usize_pt: two_measures usize_dim str_len point_dim point_of_text by unfold_locales
interpretation usize_pt16: two_measures usize_dim str_len point_utf16_dim point_utf16_of_text by unfold_locales
interpretation pt_pt16: two_measures point_dim point_of_text point_utf16_dim point_utf16_of_text by unfold_locales
interpretation pt_usize: two_measures point_dim point_of_text usize_dim str_len by unfold_locales
interpretation pt_utf16: two_measures point_dim point_of_text utf16_dim utf16_len by unfold_locales
interpretation pt16_pt: two_measures point_utf16_dim point_utf16_of_text point_dim point_of_text by unfold_locales
interpretation pt16_usize: two_measures point_utf16_dim point_utf16_of_text usize_dim str_len by unfold_locales
interpretation pt16_utf16: two_measures point_utf16_dim point_utf16_of_text utf16_dim utf16_len by unfold_locales

section \<open>Conversions\<close>

lemma len_prefix: "b \<noteq> [] \<Longrightarrow> \<not> ts_len (summary_of (a @ b)) \<le> str_len a"
  "b \<noteq> [] \<Longrightarrow> \<not> offset_value (ts_len_utf16 (summary_of (a @ b))) \<le> utf16_len a"
  by (simp_all add: summary_of_def str_len_pos utf16_len_pos not_le)

lemma summary_lens: "ts_len (summary_of s) = str_len s" "ts_len_utf16 (summary_of s) = OffsetUtf16 (utf16_len s)"
  by (simp_all add: summary_of_def)

lemmas position_simps = point_of_prefix point_add_prefix point_sub_prefix offset_utf16_add_def offset_utf16_sub_def checked_sub_def

lemma from_offset_ok:
  assumes "rope_ok r (a @ b)" "str_len (a @ b) < 2 ^ 32"
  shows "rope_offset_to_offset_utf16 r (str_len a) = Some (OffsetUtf16 (utf16_len a))"
    "rope_offset_to_point r (str_len a) = Some (ts_lines (summary_of a))"
    "rope_offset_to_point_utf16 r (str_len a) = Some (lines_utf16 (summary_of a))"
proof -
  note sm = rope_summary_of [OF assms(1)]
  from assms(1) obtain ss where ss: "holds r ss" "concat ss = a @ b" by (auto simp: rope_ok_def)
  have "rope_offset_to_offset_utf16 r (str_len a) = Some (OffsetUtf16 (utf16_len a)) \<and>
    rope_offset_to_point r (str_len a) = Some (ts_lines (summary_of a)) \<and>
    rope_offset_to_point_utf16 r (str_len a) = Some (lines_utf16 (summary_of a))"
  proof (cases "b = []")
    case True
    then show ?thesis
      using sm by (simp add: rope_offset_to_offset_utf16_def rope_offset_to_point_def rope_offset_to_point_utf16_def summary_lens)
  next
    case False
    obtain u w z where 1: "a = u @ w" "str_len (w @ z) \<le> 128"
      "find_position usize_dim utf16_dim (str_len a) r = (str_len u, utf16_len u, Some (chunk_of (w @ z)))"
      by (rule usize_utf16.position_prefix [OF ss False])
    obtain u' w' z' where 2: "a = u' @ w'" "str_len (w' @ z') \<le> 128"
      "find_position usize_dim point_dim (str_len a) r = (str_len u', point_of_text u', Some (chunk_of (w' @ z')))"
      by (rule usize_pt.position_prefix [OF ss False])
    obtain v x y where 3: "a = v @ x" "str_len (x @ y) \<le> 128"
      "find_position usize_dim point_utf16_dim (str_len a) r = (str_len v, point_utf16_of_text v, Some (chunk_of (x @ y)))"
      by (rule usize_pt16.position_prefix [OF ss False])
    have a: "str_len (u' @ w') < 2 ^ 32" "str_len (v @ x) < 2 ^ 32" "\<not> ts_len (rope_summary r) \<le> str_len a"
      using assms(2) 2(1) 3(1) len_prefix(1) [OF False, of a] by (simp_all add: sm)
    have "rope_offset_to_offset_utf16 r (str_len a) = Some (OffsetUtf16 (utf16_len a))"
      using a(3) 1(3) chunk_offset_correct(2) [of w z] 1(2) by (simp add: rope_offset_to_offset_utf16_def position_simps 1(1))
    moreover have "rope_offset_to_point r (str_len a) = Some (ts_lines (summary_of a))"
      using a(3) 2(3) chunk_offset_correct(1) [of w' z'] 2(2) point_add_prefix(1) [OF a(1)]
      by (simp add: rope_offset_to_point_def point_of_prefix checked_sub_def 2(1))
    moreover have "rope_offset_to_point_utf16 r (str_len a) = Some (lines_utf16 (summary_of a))"
      using a(3) 3(3) chunk_offset_correct(3) [of x y] 3(2) point_add_prefix(2) [OF a(2)]
      by (simp add: rope_offset_to_point_utf16_def point_of_prefix checked_sub_def 3(1))
    ultimately show ?thesis by blast
  qed
  then show "rope_offset_to_offset_utf16 r (str_len a) = Some (OffsetUtf16 (utf16_len a))"
    "rope_offset_to_point r (str_len a) = Some (ts_lines (summary_of a))"
    "rope_offset_to_point_utf16 r (str_len a) = Some (lines_utf16 (summary_of a))" by simp_all
qed

lemma offset_utf16_to_offset_ok:
  assumes "rope_ok r (a @ b)" "str_len (a @ b) < 2 ^ 32"
  shows "rope_offset_utf16_to_offset r (OffsetUtf16 (utf16_len a)) = Some (str_len a)"
proof (cases "b = []")
  case True
  then show ?thesis using rope_summary_of [OF assms(1)] by (simp add: rope_offset_utf16_to_offset_def summary_lens at_end)
next
  case False
  from assms(1) obtain ss where ss: "holds r ss" "concat ss = a @ b" by (auto simp: rope_ok_def)
  obtain u w z where f: "a = u @ w" "valid_str (w @ z)" "str_len (w @ z) \<le> 128" "find_position utf16_dim usize_dim (utf16_len a) r = (utf16_len u, str_len u, Some (chunk_of (w @ z)))"
    by (rule utf16_usize.position_prefix [OF ss False])
  have len: "str_len a < 2 ^ 32" "str_len (u @ w) < 2 ^ 32" "str_len w \<le> 128" using assms(2) f(1,3) by simp_all
  have inside: "\<not> offset_value (ts_len_utf16 (rope_summary r)) \<le> utf16_len a" using len_prefix(2) [OF False, of a] rope_summary_of [OF assms(1)] by simp
  show ?thesis
    using inside f(4) chunk_offset_utf16_to_offset_correct [OF f(3)]
    by (simp add: rope_offset_utf16_to_offset_def offset_utf16_sub_def checked_sub_def f(1))
qed

lemma point_to_point_utf16_ok:
  assumes "rope_ok r (a @ b)" "str_len (a @ b) < 2 ^ 32"
  shows "rope_point_to_point_utf16 debug r (ts_lines (summary_of a)) = Some (lines_utf16 (summary_of a))"
proof (cases "b = []")
  case True
  then show ?thesis using rope_summary_of [OF assms(1)] by (simp add: rope_point_to_point_utf16_def summary_lens at_end)
next
  case False
  from assms(1) obtain ss where ss: "holds r ss" "concat ss = a @ b" by (auto simp: rope_ok_def)
  obtain u w z where f: "a = u @ w" "valid_str (w @ z)" "str_len (w @ z) \<le> 128" "find_position point_dim point_utf16_dim (point_of_text a) r = (point_of_text u, point_utf16_of_text u, Some (chunk_of (w @ z)))"
    by (rule pt_pt16.position_prefix [OF ss False])
  have len: "str_len a < 2 ^ 32" "str_len (u @ w) < 2 ^ 32" "str_len w \<le> 128" using assms(2) f(1,3) by simp_all
  have inside: "\<not> is_ge (point_cmp (ts_lines (summary_of a)) (ts_lines (rope_summary r)))" using prefix_before_end(1) [OF assms(2) False] rope_summary_of [OF assms(1)] by simp
  show ?thesis
    using inside f(4) chunk_prefix_conversions(2) [OF f(3), of debug] point_add_prefix(2) [OF len(2)] npoint_of_prefix [OF len(1)] point_sub_prefix(1) [OF len(2)]
    by (simp add: rope_point_to_point_utf16_def point_of_prefix f(1))
qed

lemma point_to_offset_ok:
  assumes "rope_ok r (a @ b)" "str_len (a @ b) < 2 ^ 32"
  shows "rope_point_to_offset debug r (ts_lines (summary_of a)) = Some (str_len a)"
proof (cases "b = []")
  case True
  then show ?thesis using rope_summary_of [OF assms(1)] by (simp add: rope_point_to_offset_def summary_lens at_end)
next
  case False
  from assms(1) obtain ss where ss: "holds r ss" "concat ss = a @ b" by (auto simp: rope_ok_def)
  obtain u w z where f: "a = u @ w" "valid_str (w @ z)" "str_len (w @ z) \<le> 128" "find_position point_dim usize_dim (point_of_text a) r = (point_of_text u, str_len u, Some (chunk_of (w @ z)))"
    by (rule pt_usize.position_prefix [OF ss False])
  have len: "str_len a < 2 ^ 32" "str_len (u @ w) < 2 ^ 32" "str_len w \<le> 128" using assms(2) f(1,3) by simp_all
  have inside: "\<not> is_ge (point_cmp (ts_lines (summary_of a)) (ts_lines (rope_summary r)))" using prefix_before_end(1) [OF assms(2) False] rope_summary_of [OF assms(1)] by simp
  show ?thesis
    using inside f(4) chunk_point_to_offset_correct [OF f(3), of debug] npoint_of_prefix [OF len(1)] point_sub_prefix(1) [OF len(2)]
    by (simp add: rope_point_to_offset_def point_of_prefix f(1))
qed

lemma point_to_offset_utf16_ok:
  assumes "rope_ok r (a @ b)" "str_len (a @ b) < 2 ^ 32" "height r < STACK_CAPACITY"
  shows "rope_point_to_offset_utf16 debug r (ts_lines (summary_of a)) = Some (OffsetUtf16 (utf16_len a))"
proof (cases "b = []")
  case True
  then show ?thesis using rope_summary_of [OF assms(1)] by (simp add: rope_point_to_offset_utf16_def summary_lens at_end)
next
  case False
  from assms(1) obtain ss where ss: "holds r ss" "concat ss = a @ b" by (auto simp: rope_ok_def)
  obtain u w z where f: "a = u @ w" "valid_str (w @ z)" "str_len (w @ z) \<le> 128" "seek_position point_dim utf16_dim (point_of_text a) r = Some (point_of_text u, utf16_len u, Some (chunk_of (w @ z)))"
    by (rule pt_utf16.seek_prefix [OF ss False assms(3)])
  have len: "str_len a < 2 ^ 32" "str_len (u @ w) < 2 ^ 32" "str_len w \<le> 128" using assms(2) f(1,3) by simp_all
  have inside: "\<not> is_ge (point_cmp (ts_lines (summary_of a)) (ts_lines (rope_summary r)))" using prefix_before_end(1) [OF assms(2) False] rope_summary_of [OF assms(1)] by simp
  show ?thesis
    using inside f(4) chunk_prefix_conversions(1) [OF f(3), of debug] npoint_of_prefix [OF len(1)] point_sub_prefix(1) [OF len(2)]
    by (simp add: rope_point_to_offset_utf16_def point_of_prefix offset_utf16_add_def f(1))
qed

lemma point_utf16_to_point_ok:
  assumes "rope_ok r (a @ b)" "str_len (a @ b) < 2 ^ 32" "height r < STACK_CAPACITY"
  shows "rope_point_utf16_to_point debug r (lines_utf16 (summary_of a)) = Some (ts_lines (summary_of a))"
proof (cases "b = []")
  case True
  then show ?thesis using rope_summary_of [OF assms(1)] by (simp add: rope_point_utf16_to_point_def summary_lens at_end)
next
  case False
  from assms(1) obtain ss where ss: "holds r ss" "concat ss = a @ b" by (auto simp: rope_ok_def)
  obtain u w z where f: "a = u @ w" "valid_str (w @ z)" "str_len (w @ z) \<le> 128" "seek_position point_utf16_dim point_dim (point_utf16_of_text a) r = Some (point_utf16_of_text u, point_of_text u, Some (chunk_of (w @ z)))"
    by (rule pt16_pt.seek_prefix [OF ss False assms(3)])
  have len: "str_len a < 2 ^ 32" "str_len (u @ w) < 2 ^ 32" "str_len w \<le> 128" using assms(2) f(1,3) by simp_all
  have inside: "\<not> is_ge (point_utf16_cmp (lines_utf16 (summary_of a)) (lines_utf16 (rope_summary r)))" using prefix_before_end(2) [OF assms(2) False] rope_summary_of [OF assms(1)] by simp
  show ?thesis
    using inside f(4) chunk_point_utf16_to_offset_correct(1) [OF f(2,3), of debug False] chunk_offset_correct(1) [OF len(3), of z] point_add_prefix(1) [OF len(2)] npoint_of_prefix [OF len(1)] point_sub_prefix(2) [OF len(2)]
    by (simp add: rope_point_utf16_to_point_def point_of_prefix f(1))
qed

lemma point_utf16_to_offset_ok:
  assumes "rope_ok r (a @ b)" "str_len (a @ b) < 2 ^ 32"
  shows "point_utf16_to_offset_impl debug r (lines_utf16 (summary_of a)) clip = Some (str_len a)"
proof (cases "b = []")
  case True
  then show ?thesis using rope_summary_of [OF assms(1)] by (simp add: point_utf16_to_offset_impl_def summary_lens at_end)
next
  case False
  from assms(1) obtain ss where ss: "holds r ss" "concat ss = a @ b" by (auto simp: rope_ok_def)
  obtain u w z where f: "a = u @ w" "valid_str (w @ z)" "str_len (w @ z) \<le> 128" "find_position point_utf16_dim usize_dim (point_utf16_of_text a) r = (point_utf16_of_text u, str_len u, Some (chunk_of (w @ z)))"
    by (rule pt16_usize.position_prefix [OF ss False])
  have len: "str_len a < 2 ^ 32" "str_len (u @ w) < 2 ^ 32" "str_len w \<le> 128" using assms(2) f(1,3) by simp_all
  have inside: "\<not> is_ge (point_utf16_cmp (lines_utf16 (summary_of a)) (lines_utf16 (rope_summary r)))" using prefix_before_end(2) [OF assms(2) False] rope_summary_of [OF assms(1)] by simp
  show ?thesis
    using inside f(4) chunk_point_utf16_to_offset_correct(1) [OF f(2,3), of debug clip] npoint_of_prefix [OF len(1)] point_sub_prefix(2) [OF len(2)]
    by (simp add: point_utf16_to_offset_impl_def point_of_prefix f(1))
qed

lemma point_utf16_to_offset_utf16_ok:
  assumes "rope_ok r (a @ b)" "str_len (a @ b) < 2 ^ 32" "height r < STACK_CAPACITY"
  shows "point_utf16_to_offset_utf16_impl debug r (lines_utf16 (summary_of a)) clip = Some (OffsetUtf16 (utf16_len a))"
proof (cases "b = []")
  case True
  then show ?thesis using rope_summary_of [OF assms(1)] by (simp add: point_utf16_to_offset_utf16_impl_def summary_lens at_end)
next
  case False
  from assms(1) obtain ss where ss: "holds r ss" "concat ss = a @ b" by (auto simp: rope_ok_def)
  obtain u w z where f: "a = u @ w" "valid_str (w @ z)" "str_len (w @ z) \<le> 128" "seek_position point_utf16_dim utf16_dim (point_utf16_of_text a) r = Some (point_utf16_of_text u, utf16_len u, Some (chunk_of (w @ z)))"
    by (rule pt16_utf16.seek_prefix [OF ss False assms(3)])
  have len: "str_len a < 2 ^ 32" "str_len (u @ w) < 2 ^ 32" "str_len w \<le> 128" using assms(2) f(1,3) by simp_all
  have inside: "\<not> is_ge (point_utf16_cmp (lines_utf16 (summary_of a)) (lines_utf16 (rope_summary r)))" using prefix_before_end(2) [OF assms(2) False] rope_summary_of [OF assms(1)] by simp
  show ?thesis
    using inside f(4) chunk_point_utf16_to_offset_correct(1) [OF f(2,3), of debug clip] chunk_offset_correct(2) [OF len(3), of z] npoint_of_prefix [OF len(1)] point_sub_prefix(2) [OF len(2)]
    by (simp add: point_utf16_to_offset_utf16_impl_def point_of_prefix offset_utf16_add_def f(1))
qed

lemma unclipped_to_point_ok:
  assumes "rope_ok r (a @ b)" "str_len (a @ b) < 2 ^ 32"
  shows "rope_unclipped_point_utf16_to_point r (Unclipped (lines_utf16 (summary_of a))) = Some (ts_lines (summary_of a))"
proof (cases "b = []")
  case True
  then show ?thesis using rope_summary_of [OF assms(1)] by (simp add: rope_unclipped_point_utf16_to_point_def summary_lens at_end)
next
  case False
  from assms(1) obtain ss where ss: "holds r ss" "concat ss = a @ b" by (auto simp: rope_ok_def)
  obtain u w z where f: "a = u @ w" "valid_str (w @ z)" "str_len (w @ z) \<le> 128" "find_position point_utf16_dim point_dim (point_utf16_of_text a) r = (point_utf16_of_text u, point_of_text u, Some (chunk_of (w @ z)))"
    by (rule pt16_pt.position_prefix [OF ss False])
  have len: "str_len a < 2 ^ 32" "str_len (u @ w) < 2 ^ 32" "str_len w \<le> 128" using assms(2) f(1,3) by simp_all
  have inside: "\<not> is_ge (point_utf16_cmp (lines_utf16 (summary_of a)) (lines_utf16 (rope_summary r)))" using prefix_before_end(2) [OF assms(2) False] rope_summary_of [OF assms(1)] by simp
  show ?thesis
    using inside f(4) chunk_point_utf16_to_offset_correct(2) [OF f(2,3)] point_add_prefix(1) [OF len(2)] npoint_of_prefix [OF len(1)] point_sub_prefix(2) [OF len(2)]
    by (simp add: rope_unclipped_point_utf16_to_point_def point_of_prefix Let_def f(1))
qed

section \<open>Character boundaries\<close>

lemma boundary_cut: "k \<le> str_len s \<Longrightarrow> boundary (s @ t) k \<longleftrightarrow> boundary s k"
proof
  assume "k \<le> str_len s" "boundary (s @ t) k"
  then obtain u v where uv: "s @ t = u @ v" "k = str_len u" by (auto simp: boundary_def)
  with usize.prefix_split [of s t u v] \<open>k \<le> str_len s\<close> obtain w where "s = u @ w" by auto
  with uv show "boundary s k" by simp
next
  assume "boundary s k"
  then obtain u v where "s = u @ v" "k = str_len u" by (auto simp: boundary_def)
  then show "boundary (s @ t) k" using boundary_prefix [of u "v @ t"] by simp
qed

lemma boundary_within:
  assumes "str_len u \<le> i" "i \<le> str_len (u @ s)"
  shows "boundary (u @ s @ v) i \<longleftrightarrow> boundary s (i - str_len u)"
proof -
  have "boundary (u @ s @ v) (str_len u + (i - str_len u)) \<longleftrightarrow> boundary (s @ v) (i - str_len u)" by (rule boundary_append)
  then show ?thesis using assms boundary_cut [of "i - str_len u" s v] by simp
qed

lemma floor_correct:
  assumes "valid_str s" "i \<le> str_len s"
  shows "boundary s (str_floor_char_boundary (encode s) i)" "str_floor_char_boundary (encode s) i \<le> i"
    "boundary s k \<Longrightarrow> k \<le> i \<Longrightarrow> k \<le> str_floor_char_boundary (encode s) i"
proof -
  have bd: "str_char_boundary (encode s) j \<longleftrightarrow> boundary s j" for j by (rule str_char_boundary_correct [OF assms(1)])
  note sp = floor_boundary_spec [of "encode s", unfolded bd]
  show "boundary s (str_floor_char_boundary (encode s) i)" "str_floor_char_boundary (encode s) i \<le> i"
    "boundary s k \<Longrightarrow> k \<le> i \<Longrightarrow> k \<le> str_floor_char_boundary (encode s) i"
    using sp boundary_ends(2) [of s] assms(2) by (auto simp: str_floor_char_boundary_def)
qed

lemma ceil_correct:
  assumes "valid_str s" "i \<le> str_len s"
  shows "boundary s (str_ceil_char_boundary (encode s) i)" "i \<le> str_ceil_char_boundary (encode s) i"
    "boundary s k \<Longrightarrow> i \<le> k \<Longrightarrow> str_ceil_char_boundary (encode s) i \<le> k"
proof -
  have loop: "boundary s (ceil_loop (encode s) j) \<and> j \<le> ceil_loop (encode s) j \<and> (\<forall>k. boundary s k \<and> j \<le> k \<longrightarrow> ceil_loop (encode s) j \<le> k)"
    if "j \<le> str_len s" for j
    using that
  proof (induction "str_len s - j" arbitrary: j)
    case 0
    then have "ceil_loop (encode s) j = str_len s" by (simp add: ceil_loop.simps)
    with 0 boundary_ends(2) [of s] show ?case by simp
  next
    case (Suc n)
    then have j: "j < str_len s" by simp
    show ?case
    proof (cases "boundary s j")
      case True
      with j encode_nth_boundary [OF assms(1) j] show ?thesis by (simp add: ceil_loop.simps)
    next
      case False
      with j encode_nth_boundary [OF assms(1) j] have "ceil_loop (encode s) j = ceil_loop (encode s) (Suc j)"
        by (simp add: ceil_loop.simps [of _ j])
      moreover have "Suc j \<le> k" if "boundary s k" "j \<le> k" for k using that False by (cases "j = k") auto
      moreover have "n = str_len s - Suc j" "Suc j \<le> str_len s" using Suc.hyps(2) j by simp_all
      ultimately show ?thesis using Suc.hyps(1) [of "Suc j"] by (metis Suc_leD)
    qed
  qed
  have "str_ceil_char_boundary (encode s) i = ceil_loop (encode s) i"
    using assms(2) by (simp add: str_ceil_char_boundary_def ceil_loop.simps)
  with loop [OF assms(2)] show "boundary s (str_ceil_char_boundary (encode s) i)" "i \<le> str_ceil_char_boundary (encode s) i"
    "boundary s k \<Longrightarrow> i \<le> k \<Longrightarrow> str_ceil_char_boundary (encode s) i \<le> k" by auto
qed

text \<open>Finding an offset with \<open>Bias::Left\<close>.\<close>

context text_measure
begin

lemma find_empty: "holds t [] \<Longrightarrow> tree_find dim target bias t = (measure_of [], measure_of [], None)"
  using find_correct [of t target bias] measure_extent [of t "[]"] by (simp add: holds_def mono_target_def measure_zero)

lemma find_past:
  "holds t ss \<Longrightarrow> past_end target bias (measure_of (concat ss)) \<Longrightarrow>
   tree_find dim target bias t = (measure_of (concat ss), measure_of (concat ss), None)"
  using measure_extent [of t ss] by (simp add: tree_find_def find_gen_def extent_def Let_def)

end

lemma find_offset_past:
  "holds r ss \<Longrightarrow> str_len (concat ss) < i \<Longrightarrow> tree_find usize_dim (ord_cmp i) Left r = (str_len (concat ss), str_len (concat ss), None)"
  by (rule usize.find_past) (simp_all add: past_end_def ord_cmp_def)

lemma find_offset:
  assumes "holds r ss" "ss \<noteq> []" "concat ss = x" "i \<le> str_len x"
  obtains u s v where "x = u @ s @ v" "valid_str s" "str_len s \<le> 128" "str_len u \<le> i" "i \<le> str_len (u @ s)"
    "tree_find usize_dim (ord_cmp i) Left r = (str_len u, str_len (u @ s), Some (chunk_of s))"
proof -
  have "\<not> past_end (ord_cmp i) Left (str_len (concat ss))" using assms(3,4) by (simp add: past_end_def ord_cmp_def)
  from usize.find_text(2) [OF assms(1) usize.falling_ord assms(2) this] obtain as s bs where
    f: "ss = as @ s # bs" "usize.cut (ord_cmp i) Left [] as (s # bs)"
      "tree_find usize_dim (ord_cmp i) Left r = (str_len (concat as), str_len (concat as @ s), Some (chunk_of s))" by blast
  have i: "i \<le> str_len (concat as @ s)" "str_len (concat as) \<le> i"
    using f(2) by (cases "as = []"; force simp: usize.cut_def past_end_def ord_cmp_def split: if_splits)+
  have s: "valid_str s" "str_len s \<le> 128" "x = concat as @ s @ concat bs" using assms(1,3) by (simp_all add: f(1) holds_def)
  show ?thesis by (rule that [OF s(3,1,2) i(2,1) f(3)])
qed

lemma tree_empty: "holds r ss \<Longrightarrow> tree_is_empty r \<longleftrightarrow> ss = []"
  using wf_is_empty [of rope_ops r] by (simp add: holds_def)

lemma is_char_boundary_ok:
  assumes "rope_ok r s"
  shows "rope_is_char_boundary r i = Some (boundary s i)"
proof -
  from assms obtain ss where ss: "holds r ss" "concat ss = s" by (auto simp: rope_ok_def)
  consider "ss = []" | "ss \<noteq> []" "str_len s < i" | "ss \<noteq> []" "i \<le> str_len s" by linarith
  then show ?thesis
  proof cases
    case 1
    with ss show ?thesis by (auto simp: rope_is_char_boundary_def tree_empty)
  next
    case 2
    then have "\<not> boundary s i" using boundary_le [of s i] by auto
    with 2 ss find_offset_past [OF ss(1), of i] show ?thesis by (simp add: rope_is_char_boundary_def tree_empty checked_sub_def)
  next
    case 3
    obtain u t v where f: "s = u @ t @ v" "str_len t \<le> 128" "str_len u \<le> i" "i \<le> str_len (u @ t)"
      "tree_find usize_dim (ord_cmp i) Left r = (str_len u, str_len (u @ t), Some (chunk_of t))"
      by (rule find_offset [OF ss(1) 3(1) ss(2) 3(2)])
    with 3(1) ss(1) boundary_within [OF f(3,4), of v] chunk_is_char_boundary_correct [OF f(2), of "i - str_len u"]
    show ?thesis by (simp add: rope_is_char_boundary_def tree_empty checked_sub_def)
  qed
qed

definition nearest_boundary :: "bias \<Rightarrow> rchar list \<Rightarrow> nat \<Rightarrow> nat \<Rightarrow> bool" where
  "nearest_boundary bias s i j \<longleftrightarrow> boundary s j \<and> (case bias of
     Left \<Rightarrow> j \<le> i \<and> (\<forall>k. boundary s k \<and> k \<le> i \<longrightarrow> k \<le> j)
   | Right \<Rightarrow> (i \<le> j \<or> j = str_len s) \<and> (\<forall>k. boundary s k \<and> i \<le> k \<longrightarrow> j \<le> k))"

lemma nearest_within:
  assumes "str_len u \<le> i" "i \<le> str_len (u @ t)" "nearest_boundary bias t (i - str_len u) j"
  shows "nearest_boundary bias (u @ t @ v) i (str_len u + j)"
proof -
  have j: "boundary t j" "j \<le> str_len t" using assms(3) boundary_le by (auto simp: nearest_boundary_def)
  then have "boundary (u @ t @ v) (str_len u + j)" using boundary_within [of u "str_len u + j" t v] by simp
  moreover have "bound k" if "bias = Left" "boundary (u @ t @ v) k" "k \<le> i" "bound = (\<lambda>k. k \<le> str_len u + j)" for k bound
    using that boundary_within [of u k t v] assms by (cases "str_len u \<le> k") (auto simp: nearest_boundary_def)
  moreover have "str_len u + j \<le> k" if "bias = Right" "boundary (u @ t @ v) k" "i \<le> k" for k
    using that boundary_within [of u k t v] assms j(2) by (cases "k \<le> str_len (u @ t)") (auto simp: nearest_boundary_def)
  moreover have "bias = Right \<Longrightarrow> i \<le> str_len u + j" "bias = Left \<Longrightarrow> str_len u + j \<le> i"
    using assms by (auto simp: nearest_boundary_def)
  ultimately show ?thesis by (cases bias) (auto simp: nearest_boundary_def)
qed

lemma clip_offset_ok:
  assumes "rope_ok r s"
  shows "\<exists>j. rope_clip_offset r i bias = Some j \<and> nearest_boundary bias s i j"
proof -
  from assms obtain ss where ss: "holds r ss" "concat ss = s" by (auto simp: rope_ok_def)
  have len: "rope_len r = str_len s" using rope_len_holds [OF ss(1)] ss(2) by simp
  have last: "nearest_boundary bias s i (str_len s)" if "str_len s \<le> i"
    using that boundary_ends(2) [of s] boundary_le [of s] by (cases bias) (auto simp: nearest_boundary_def)
  show ?thesis
  proof (cases "str_len s < i \<or> str_len s \<le> i \<and> bias = Left \<or> ss = []")
    case 1: True
    then have "str_len s \<le> i" using ss(2) by auto
    have "rope_clip_offset r i bias = Some (str_len s)"
      using 1 len ss usize.find_empty [of r] \<open>str_len s \<le> i\<close>
      by (cases bias) (auto simp: rope_clip_offset_def rope_floor_char_boundary_def rope_ceil_char_boundary_def checked_sub_def)
    with last [OF \<open>str_len s \<le> i\<close>] show ?thesis by blast
  next
    case False
    then have 2: "ss \<noteq> []" "i < str_len s \<or> i \<le> str_len s \<and> bias = Right" and i: "i \<le> str_len s" by (cases bias; auto)+
    obtain u t v where f: "s = u @ t @ v" "valid_str t" "str_len t \<le> 128" "str_len u \<le> i" "i \<le> str_len (u @ t)"
      "tree_find usize_dim (ord_cmp i) Left r = (str_len u, str_len (u @ t), Some (chunk_of t))"
      by (rule find_offset [OF ss(1) 2(1) ss(2) i])
    let ?k = "i - str_len u"
    let ?j = "case bias of Left \<Rightarrow> str_floor_char_boundary (encode t) ?k | Right \<Rightarrow> str_ceil_char_boundary (encode t) ?k"
    have "rope_clip_offset r i bias = Some (str_len u + ?j)"
      using 2(2) len f(4,6)
      by (cases bias) (auto simp: rope_clip_offset_def rope_floor_char_boundary_def rope_ceil_char_boundary_def checked_sub_def chunk_of_def)
    moreover have "nearest_boundary bias t ?k ?j"
      using floor_correct [OF f(2), where i = ?k] ceil_correct [OF f(2), of ?k] f(4,5)
      by (cases bias) (auto simp: nearest_boundary_def)
    ultimately show ?thesis using nearest_within [OF f(4,5), of bias ?j v] f(1) by auto
  qed
qed

section \<open>Clipping\<close>

context ordered_measure
begin

lemma find_right:
  assumes "holds r ss" "concat ss = x" "measure_of [] \<le> p"
  obtains "measure_of x \<le> p" "tree_find dim (ord_cmp p) Right r = (measure_of x, measure_of x, None)"
  | u s v where "x = u @ s @ v" "valid_str s" "str_len s \<le> 128" "measure_of u \<le> p" "p < measure_of (u @ s)"
      "tree_find dim (ord_cmp p) Right r = (measure_of u, measure_of (u @ s), Some (chunk_of s))"
proof (cases "measure_of x \<le> p")
  case True
  then have "past_end (ord_cmp p) Right (measure_of (concat ss))" using assms(2) by (auto simp: past_end_def ord_cmp_def)
  from find_past [OF assms(1) this] True show ?thesis using that(1) by (simp only: assms(2))
next
  case False
  then have n: "\<not> past_end (ord_cmp p) Right (measure_of (concat ss))" using assms(2) by (auto simp: past_end_def ord_cmp_def)
  have "ss \<noteq> []" using False assms by auto
  from find_text(2) [OF assms(1) falling_ord this n] obtain as s bs where
    f: "ss = as @ s # bs" "cut (ord_cmp p) Right [] as (s # bs)"
      "tree_find dim (ord_cmp p) Right r = (measure_of (concat as), measure_of (concat as @ s), Some (chunk_of s))" by blast
  have b: "measure_of (concat as) \<le> p" "p < measure_of (concat as @ s)"
    using f(2) assms(3) by (cases "as = []"; force simp: cut_def past_end_def ord_cmp_def split: if_splits)+
  have s: "valid_str s" "str_len s \<le> 128" "x = concat as @ s @ concat bs" using assms(1,2) by (simp_all add: f(1) holds_def)
  show ?thesis by (rule that(2) [OF s(3,1,2) b f(3)])
qed

end

lemma zero_le: "point_of_text [] \<le> p" "point_utf16_of_text [] \<le> p"
  by (cases p; simp add: less_eq_prod_def)+

lemma ord_cmp_le: "ord_cmp a b \<noteq> Greater \<longleftrightarrow> a \<le> b" for a b :: "'a::linorder"
  by (auto simp: ord_cmp_def)

text \<open>The difference between a point and the start of its chunk.\<close>

lemma overshoot:
  assumes "str_len u < 2 ^ 32"
  shows "point_of_text u \<le> npoint_of p \<Longrightarrow> \<exists>d. point_sub p (ts_lines (summary_of u)) = Some d \<and> point_add (ts_lines (summary_of u)) d = Some p"
    "point_utf16_of_text u \<le> npoint_of_utf16 q \<Longrightarrow>
       \<exists>d. point_utf16_sub q (lines_utf16 (summary_of u)) = Some d \<and> point_utf16_add (lines_utf16 (summary_of u)) d = Some q"
  using point.add_sub [of "ts_lines (summary_of u)" p] point_utf16.add_sub [of "lines_utf16 (summary_of u)" q]
  by (simp_all only: point_cmp_nat npoint_of_prefix [OF assms] ord_cmp_le)

lemma clip_point_ok:
  assumes "rope_ok r s" "str_len s < 2 ^ 32" "grapheme_ends g"
  shows "\<exists>w z. s = w @ z \<and> rope_clip_point g r p bias = Some (ts_lines (summary_of w))"
proof -
  from assms(1) obtain ss where ss: "holds r ss" "concat ss = s" by (auto simp: rope_ok_def)
  show ?thesis
  proof (cases rule: pt.find_right [OF ss zero_le(1) [of "npoint_of p"]])
    case 1
    then show ?thesis using rope_summary_of [OF assms(1)] by (intro exI [of _ s] exI [of _ "[]"]) (simp add: rope_clip_point_def)
  next
    case (2 u t v)
    have u: "str_len u < 2 ^ 32" using assms(2) 2(1) by simp
    obtain d where d: "point_sub p (ts_lines (summary_of u)) = Some d" using overshoot(1) [OF u 2(4)] by blast
    obtain w z where w: "t = w @ z" "chunk_clip_point g (chunk_of t) d bias = Some (ts_lines (summary_of w))"
      using chunk_clip_point_correct [OF 2(2,3) assms(3)] by blast
    have "str_len (u @ w) < 2 ^ 32" using assms(2) 2(1) w(1) by simp
    with 2(6) d w(2) have "rope_clip_point g r p bias = Some (ts_lines (summary_of (u @ w)))"
      by (simp add: rope_clip_point_def point_of_prefix point_add_prefix)
    then show ?thesis using 2(1) w(1) by (intro exI [of _ "u @ w"] exI [of _ "z @ v"]) simp
  qed
qed

lemma clip_point_utf16_ok:
  assumes "rope_ok r s" "str_len s < 2 ^ 32"
  shows "\<exists>w z. s = w @ z \<and> rope_clip_point_utf16 r (Unclipped p) bias = Some (lines_utf16 (summary_of w))"
proof -
  from assms(1) obtain ss where ss: "holds r ss" "concat ss = s" by (auto simp: rope_ok_def)
  show ?thesis
  proof (cases rule: pt16.find_right [OF ss zero_le(2) [of "npoint_of_utf16 p"]])
    case 1
    then show ?thesis using rope_summary_of [OF assms(1)] by (intro exI [of _ s] exI [of _ "[]"]) (simp add: rope_clip_point_utf16_def)
  next
    case (2 u t v)
    have u: "str_len u < 2 ^ 32" using assms(2) 2(1) by simp
    obtain d where d: "point_utf16_sub p (lines_utf16 (summary_of u)) = Some d" using overshoot(2) [OF u 2(4)] by blast
    obtain w z where w: "t = w @ z" "chunk_clip_point_utf16 (chunk_of t) (Unclipped d) bias = Some (lines_utf16 (summary_of w))"
      using chunk_clip_point_utf16_correct [OF 2(2,3)] by blast
    have "str_len (u @ w) < 2 ^ 32" using assms(2) 2(1) w(1) by simp
    with 2(6) d w(2) have "rope_clip_point_utf16 r (Unclipped p) bias = Some (lines_utf16 (summary_of (u @ w)))"
      by (simp add: rope_clip_point_utf16_def point_of_prefix point_add_prefix)
    then show ?thesis using 2(1) w(1) by (intro exI [of _ "u @ w"] exI [of _ "z @ v"]) simp
  qed
qed

lemma unit_boundary_within:
  assumes "utf16_len u \<le> n" "n \<le> utf16_len (u @ t)"
  shows "unit_boundary (u @ t @ v) n \<longleftrightarrow> unit_boundary t (n - utf16_len u)"
proof
  assume "unit_boundary (u @ t @ v) n"
  then obtain a b where ab: "a @ b = u @ t @ v" "n = utf16_len a" by (auto simp: unit_boundary_def)
  obtain w where w: "a = u @ w" "t @ v = w @ b" by (rule utf16.prefix_split [of a b u "t @ v"]) (use ab assms(1) in auto)
  obtain y where "t = w @ y" by (rule utf16.prefix_split [of t v w b]) (use ab w assms(2) in auto)
  with ab w show "unit_boundary t (n - utf16_len u)" by (auto simp: unit_boundary_def)
next
  assume "unit_boundary t (n - utf16_len u)"
  then obtain a b where "t = a @ b" "n - utf16_len u = utf16_len a" by (auto simp: unit_boundary_def)
  with assms(1) show "unit_boundary (u @ t @ v) n"
    unfolding unit_boundary_def by (intro exI [of _ "u @ a"] exI [of _ "b @ v"]) simp
qed

lemma clip_offset_utf16_ok:
  assumes "rope_ok r s"
  shows "\<exists>m. rope_clip_offset_utf16 r (OffsetUtf16 n) bias = Some (OffsetUtf16 m) \<and> nearest_unit bias s n m"
proof -
  from assms(1) obtain ss where ss: "holds r ss" "concat ss = s" by (auto simp: rope_ok_def)
  have e: "unit_boundary s (utf16_len s)" by (auto simp: unit_boundary_def)
  show ?thesis
  proof (cases rule: utf16.find_right [OF ss, of n])
    case 1 then show ?case by simp
  next
    case 2
    then have "nearest_unit bias s n (utf16_len s)" using e unit_boundary_le [of s] by (cases bias) (auto simp: nearest_unit_def)
    with 2 rope_summary_of [OF assms(1)] show ?thesis by (simp add: rope_clip_offset_utf16_def summary_lens)
  next
    case (3 u t v)
    obtain m where m: "chunk_clip_offset_utf16 (chunk_of t) (OffsetUtf16 (n - utf16_len u)) bias = Some (OffsetUtf16 m)"
      "nearest_unit bias t (n - utf16_len u) m"
      using chunk_clip_offset_utf16_correct [OF 3(2,3)] by blast
    have mt: "unit_boundary t m" "m \<le> utf16_len t" using m(2) unit_boundary_le by (auto simp: nearest_unit_def)
    have within: "unit_boundary s k \<longleftrightarrow> unit_boundary t (k - utf16_len u)" if "utf16_len u \<le> k" "k \<le> utf16_len (u @ t)" for k
      using unit_boundary_within [OF that, of v] 3(1) by simp
    have um: "unit_boundary s (utf16_len u + m)" using within [of "utf16_len u + m"] mt by simp
    have "k \<le> utf16_len u + m" if "bias = Left" "unit_boundary s k" "k \<le> n" for k
      using that within [of k] m(2) 3(5) by (cases "utf16_len u \<le> k") (auto simp: nearest_unit_def)
    moreover have "utf16_len u + m \<le> k" if "bias = Right" "unit_boundary s k" "n \<le> k" for k
      using that within [of k] m(2) 3(4) mt(2) by (cases "k \<le> utf16_len (u @ t)") (auto simp: nearest_unit_def)
    moreover have "bias = Right \<Longrightarrow> n \<le> utf16_len u + m" "bias = Left \<Longrightarrow> utf16_len u + m \<le> n"
      using m(2) 3(4,5) by (auto simp: nearest_unit_def)
    ultimately have "nearest_unit bias s n (utf16_len u + m)" using um by (cases bias) (auto simp: nearest_unit_def)
    with 3(4,6) m(1) show ?thesis by (simp add: rope_clip_offset_utf16_def offset_utf16_sub_def offset_utf16_add_def checked_sub_def)
  qed
qed

section \<open>Rows\<close>

lemma last_line_Nil: "u = [] \<or> last u = 10 \<Longrightarrow> last_line u = []"
  using row_prefix(1) [of u "[]" "[]" "[]"] lines_append(3) [of "butlast u" "[10]"]
  by (cases "u = []") (simp_all add: rows_Cons last_line_def NEWLINE_def, metis append_butlast_last_id)

lemma first_line_row: "10 \<notin> set l \<Longrightarrow> t = [] \<or> hd t = 10 \<Longrightarrow> first_line (l @ t) = l"
  by (cases t) (simp_all add: line_no_newline first_line_def split_at_newline split_no_newline)

lemma row_nth:
  assumes "row_of u l t"
  shows "split_lines (u @ l @ t) ! rows u = l"
proof -
  have u: "last (split_lines u) = []" using last_line_Nil [of u] assms by (simp add: row_of_def last_line_def)
  have "hd (split_lines (l @ t)) = l" using first_line_row [of l t] assms by (simp add: row_of_def first_line_def)
  with u show ?thesis by (simp add: split_lines_append [of u "l @ t"] rows_def nth_append)
qed

lemma chunk_clip_line_end:
  assumes "row_of u l t" "valid_str (u @ l @ t)" "str_len (u @ l @ t) \<le> 128" "str_len l \<le> unat c"
  shows "chunk_clip_point g (chunk_of (u @ l @ t)) (Point (of_nat (rows u)) c) bias = Some (ts_lines (summary_of (u @ l)))"
proof -
  note r = chunk_row [OF assms(1-3)]
  have p: "ts_lines (summary_of (u @ l)) = Point (of_nat (rows u)) (of_nat (str_len l))" using row_prefix(1) [of u l "[]" t] assms(1) by simp
  show ?thesis
  proof (cases "c = 0")
    case True
    with assms(4) have "l = []" by simp
    with True r chunk_rows [OF assms(3)] p show ?thesis by (simp add: chunk_clip_point_def)
  next
    case False
    with r chunk_rows [OF assms(3)] assms(4) p show ?thesis by (simp add: chunk_clip_point_def word_le_nat_alt)
  qed
qed

text \<open>A point in the row that ends in a chunk, beyond the end of the row, seen from the start of the chunk.\<close>

lemma overshoot_row:
  assumes "point_add (ts_lines (summary_of u)) d = Some (Point (of_nat (rows u + rows x)) c)" "rows u + rows x < 2 ^ 32"
    and "str_len (last_line (u @ x)) \<le> unat c" "str_len u < 2 ^ 32"
  shows "row d = of_nat (rows x)" "str_len (last_line x) \<le> unat (column d)"
proof -
  have u: "rows u < 2 ^ 32" "str_len (last_line u) < 2 ^ 32" using u32_bounds [OF assms(4)] by simp_all
  have "row d = of_nat (rows x) \<and> str_len (last_line x) \<le> unat (column d)"
  proof (cases "row d = 0")
    case True
    with assms(1) have c: "of_nat (rows u) = (of_nat (rows u + rows x) :: u32)" "checked_add (of_nat (str_len (last_line u))) (column d) = Some c"
      by (auto simp: point_add_def summary_of_def bind_eq_Some_conv)
    then have "rows x = 0" using assms(2) u(1) by (metis add_cancel_right_right unat_nat32)
    with True c(2) assms(3) u(2) unat_checked_add [OF c(2)] show ?thesis by (simp add: lines_append unat_nat32)
  next
    case False
    with assms(1) have c: "checked_add (of_nat (rows u)) (row d) = Some (of_nat (rows u + rows x))" "c = column d"
      by (auto simp: point_add_def summary_of_def bind_eq_Some_conv)
    from unat_checked_add [OF c(1)] assms(2) u(1) have d: "unat (row d) = rows x" by (simp only: unat_nat32)
    have "row d = of_nat (unat (row d))" by simp
    then have "row d = of_nat (rows x)" by (simp only: d)
    moreover have "rows x \<noteq> 0" using d False by (metis unat_eq_zero)
    ultimately show ?thesis using c(2) assms(3) by (simp add: lines_append)
  qed
  then show "row d = of_nat (rows x)" "str_len (last_line x) \<le> unat (column d)" by simp_all
qed

lemma unat_MAX: "unat (- 1 :: u32) = 2 ^ 32 - 1"
  by (simp add: unsigned_minus_1_eq_mask mask_eq_exp_minus_1)

lemma newline_in_chunk:
  assumes "u @ l @ 10 # t = a @ q @ v" "rows a \<le> rows u" "rows u < rows (a @ q)" "10 \<notin> set l"
  obtains x y where "u @ l = a @ x" "q = x @ 10 # y"
proof -
  have l: "rows l = 0" using assms(4) by (simp add: rows_0)
  have "(u @ l) @ 10 # t = a @ q @ v" using assms(1) by simp
  then consider x where "u @ l = a @ x" "x @ 10 # t = q @ v" | x where "(u @ l) @ 10 # x = a"
    unfolding append_eq_append_conv2 by (elim exE disjE conjE) (auto simp: Cons_eq_append_conv)
  then show ?thesis
  proof cases
    case 1
    then have r: "rows a + rows x = rows u" using l rows_append [of u l] rows_append [of a x] by simp
    from 1(2) consider y where "q = x @ y" "10 # t = y @ v" | y where "x = q @ y"
      unfolding append_eq_append_conv2 by metis
    then show ?thesis
    proof cases
      case (1 y)
      then have "y \<noteq> []" using assms(3) r by (auto simp: rows_append)
      with 1 that [of x "tl y"] \<open>u @ l = a @ x\<close> show ?thesis by (cases y) auto
    next
      case (2 y)
      then show ?thesis using assms(3) r by (simp add: rows_append)
    qed
  next
    case (2 x)
    then have "rows a = rows u + rows l + (1 + rows x)" using rows_append [of "u @ l" "10 # x"] by (simp add: rows_append rows_Cons)
    then show ?thesis using assms(2) by simp
  qed
qed

lemma line_len_ok:
  assumes "rope_ok r (u @ l @ t)" "str_len (u @ l @ t) < 2 ^ 32" "row_of u l t"
  shows "line_len g r (of_nat (rows u)) = Some (of_nat (str_len l))"
proof -
  let ?s = "u @ l @ t" and ?p = "Point (of_nat (rows u)) (- 1)"
  from assms(1) obtain ss where ss: "holds r ss" "concat ss = ?s" by (auto simp: rope_ok_def)
  have "rows u < 2 ^ 32" using rows_le_len [of u] assms(2) by simp
  then have p: "npoint_of ?p = (rows u, 2 ^ 32 - 1)" by (simp add: npoint_of_def unat_nat32 unat_MAX)
  have lp: "ts_lines (summary_of (u @ l)) = Point (of_nat (rows u)) (of_nat (str_len l))" using row_prefix(1) [of u l "[]" t] assms(3) by simp
  have l: "10 \<notin> set l" "t = [] \<or> hd t = 10" "rows l = 0" using assms(3) by (simp_all add: row_of_def rows_0)
  show ?thesis
  proof (cases rule: pt.find_right [OF ss zero_le(1) [of "npoint_of ?p"]])
    case 1
    then have "rows ?s \<le> rows u" by (auto simp: p less_eq_prod_def)
    then have "t = []" using l(2) by (cases t) (auto simp: rows_append rows_Cons)
    with 1(2) rope_summary_of [OF assms(1)] lp show ?thesis by (simp add: line_len_def rope_clip_point_def)
  next
    case (2 a q v)
    have a: "str_len a < 2 ^ 32" "str_len (a @ q) < 2 ^ 32" using assms(2) 2(1) arg_cong [OF 2(1), of str_len] by simp_all
    have ra: "rows a \<le> rows u" using 2(4) by (auto simp: p less_eq_prod_def)
    have rq: "rows u < rows (a @ q)" using 2(5) u32_bounds(2) [OF a(2)] by (auto simp: p less_prod_def)
    have "t \<noteq> []" using rq arg_cong [OF 2(1), of rows] l(3) by (auto simp: rows_append)
    then obtain t' where t': "t = 10 # t'" using l(2) by (cases t) auto
    obtain x y where x: "u @ l = a @ x" "q = x @ 10 # y"
      by (rule newline_in_chunk [OF _ ra rq l(1), of t' v]) (use 2(1) t' in simp)
    have rx: "rows a + rows x = rows u" using arg_cong [OF x(1), of rows] l(3) by (simp add: rows_append)
    obtain d where d: "point_sub ?p (ts_lines (summary_of a)) = Some d" "point_add (ts_lines (summary_of a)) d = Some ?p"
      using overshoot(1) [OF a(1) 2(4)] by blast
    have "str_len (last_line (a @ x)) \<le> unat (- 1 :: u32)"
      using u32_bounds(2) [of "u @ l"] assms(2) by (simp add: unat_MAX x(1) [symmetric])
    with overshoot_row [of a d x "- 1"] d(2) rx a(1) \<open>rows u < 2 ^ 32\<close>
    have dx: "d = Point (of_nat (rows x)) (column d)" "str_len (last_line x) \<le> unat (column d)" by (cases d; simp)+
    obtain u' y' t'' where r: "x @ 10 # y = u' @ (last_line x @ y') @ t''" "row_of u' (last_line x @ y') t''" "rows u' = rows x" "x = u' @ last_line x"
      using prefix_row by blast
    from r(1) have "10 # y = y' @ t''" by (subst (asm) (1) r(4)) simp
    with r(2) have "y' = []" by (cases y') (auto simp: row_of_def)
    have "chunk_clip_point g (chunk_of q) d Left = Some (ts_lines (summary_of x))"
      using chunk_clip_line_end [of u' "last_line x" t'' "column d" g Left] r \<open>y' = []\<close> dx 2(2,3) x(2) by simp
    moreover have "str_len (a @ x) < 2 ^ 32" using arg_cong [OF x(1), of str_len] assms(2) by simp
    note point_add_prefix(1) [OF this]
    ultimately show ?thesis using 2(6) d(1) x(1) lp
      by (simp add: line_len_def rope_clip_point_def point_of_prefix)
  qed
qed

lemma slice_rows_ok:
  assumes "rope_ok r (a @ b @ d)" "str_len (a @ b @ d) < 2 ^ 32" "height r < STACK_CAPACITY"
    and "a = [] \<or> last a = 10" "a @ b = [] \<or> last (a @ b) = 10" "rope_slice_fits r (str_len a) (str_len (a @ b))"
  shows "\<exists>r'. slice_rows debug r (of_nat (rows a), of_nat (rows (a @ b))) = Some r' \<and> rope_ok r' b"
proof -
  have "ts_lines (summary_of a) = Point (of_nat (rows a)) 0" "ts_lines (summary_of (a @ b)) = Point (of_nat (rows (a @ b))) 0"
    using last_line_Nil [OF assms(4)] last_line_Nil [OF assms(5)] by (simp_all add: summary_of_def)
  then have "rope_point_to_offset debug r (Point (of_nat (rows a)) 0) = Some (str_len a)"
    "rope_point_to_offset debug r (Point (of_nat (rows (a @ b))) 0) = Some (str_len (a @ b))"
    using point_to_offset_ok [of r a "b @ d" debug] point_to_offset_ok [of r "a @ b" d debug] assms(1,2) by simp_all
  with rope_slice_ok [OF assms(1,3,6)] show ?thesis by (simp add: slice_rows_def)
qed

section \<open>Theorems\<close>

text \<open>C32. The summary of a rope, which the tree keeps as sums over its nodes, is the summary that \<open>TextSummary::from\<close> computes
  in one pass over the whole text, for every text shorter than 4 GiB; \<open>max_point\<close> and \<open>max_point_utf16\<close> are its end.\<close>

theorem rope_summary_correct:
  assumes "rope_ok r s" "str_len s < 2 ^ 32"
  shows "Some (rope_summary r) = text_summary_from s \<and> rope_max_point r = parse_str s \<and> rope_max_point_utf16 r = lines_utf16 (summary_of s)"
proof -
  from assms(1) obtain ss where ss: "holds r ss" "concat ss = s" by (auto simp: rope_ok_def)
  then have "rope_max_point r = ts_lines (summary_of s)" "rope_max_point_utf16 r = lines_utf16 (summary_of s)"
    using pt.measure_extent [OF ss(1)] pt16.measure_extent [OF ss(1)]
    by (simp_all add: rope_max_point_def rope_max_point_utf16_def point_of_prefix)
  then show ?thesis
    using text_summary_from_correct [OF assms(2)] rope_summary_of [OF assms(1)] by (simp add: parse_str_lines)
qed

theorem rope_summary_correct_witness:
  "Some (rope_summary (one_chunk sample_text)) = text_summary_from sample_text \<and> rope_max_point (one_chunk sample_text) = parse_str sample_text"
  using rope_summary_correct [OF sample_rope(1)] by (simp add: len_utf8_def)

text \<open>C33. The conversions of a rope are exact: in a text that starts with \<open>a\<close>, each of them takes the position of the end of
  \<open>a\<close> in one coordinate system (byte offset, UTF-16 offset, row and byte column, row and UTF-16 column) to its position in
  another, wherever the chunks of the rope end, and none panics, in debug builds or not.\<close>

theorem rope_conversions_correct:
  assumes "rope_ok r (a @ b)" "str_len (a @ b) < 2 ^ 32" "height r < STACK_CAPACITY"
  shows "rope_offset_to_offset_utf16 r (str_len a) = Some (OffsetUtf16 (utf16_len a)) \<and>
    rope_offset_to_point r (str_len a) = Some (parse_str a) \<and>
    rope_offset_to_point_utf16 r (str_len a) = Some (lines_utf16 (summary_of a)) \<and>
    rope_offset_utf16_to_offset r (OffsetUtf16 (utf16_len a)) = Some (str_len a) \<and>
    rope_point_to_offset debug r (parse_str a) = Some (str_len a) \<and>
    rope_point_to_offset_utf16 debug r (parse_str a) = Some (OffsetUtf16 (utf16_len a)) \<and>
    rope_point_to_point_utf16 debug r (parse_str a) = Some (lines_utf16 (summary_of a)) \<and>
    rope_point_utf16_to_point debug r (lines_utf16 (summary_of a)) = Some (parse_str a) \<and>
    rope_point_utf16_to_offset debug r (lines_utf16 (summary_of a)) = Some (str_len a) \<and>
    rope_unclipped_point_utf16_to_offset debug r (Unclipped (lines_utf16 (summary_of a))) = Some (str_len a) \<and>
    rope_point_utf16_to_offset_utf16 debug r (lines_utf16 (summary_of a)) = Some (OffsetUtf16 (utf16_len a)) \<and>
    rope_unclipped_point_utf16_to_point r (Unclipped (lines_utf16 (summary_of a))) = Some (parse_str a)"
  using from_offset_ok [OF assms(1,2)] offset_utf16_to_offset_ok [OF assms(1,2)] point_to_offset_ok [OF assms(1,2)]
    point_to_offset_utf16_ok [OF assms] point_to_point_utf16_ok [OF assms(1,2)] point_utf16_to_point_ok [OF assms]
    point_utf16_to_offset_ok [OF assms(1,2)] point_utf16_to_offset_utf16_ok [OF assms] unclipped_to_point_ok [OF assms(1,2)]
  by (simp add: parse_str_lines rope_point_utf16_to_offset_def rope_unclipped_point_utf16_to_offset_def rope_point_utf16_to_offset_utf16_def)

theorem rope_conversions_correct_witness:
  "rope_offset_to_point (one_chunk sample_text) (str_len [104, 10]) = Some (Point 1 0) \<and>
   rope_point_to_offset True (one_chunk sample_text) (Point 1 0) = Some (str_len [104, 10])"
proof -
  have "rope_ok (one_chunk sample_text) ([104, 10] @ [0x1F600])" "parse_str [104, 10] = Point 1 0"
    using sample_rope(1) by (simp_all add: parse_str_def NEWLINE_def)
  with rope_conversions_correct [OF this(1) _ sample_rope(2), of True] show ?thesis by (simp add: len_utf8_def)
qed

text \<open>C34. Clipping an arbitrary position returns a position of the text: \<open>clip_offset\<close> (with \<open>floor_char_boundary\<close> and
  \<open>ceil_char_boundary\<close>) the nearest character boundary on the side of the bias, \<open>clip_offset_utf16\<close> the nearest UTF-16 offset of
  a character, \<open>clip_point\<close> and \<open>clip_point_utf16\<close> the point of a prefix of the text; \<open>is_char_boundary\<close> decides the character
  boundaries of the whole text.\<close>

theorem rope_clip_correct:
  assumes "rope_ok r s" "str_len s < 2 ^ 32" "grapheme_ends grapheme_boundary"
  shows "rope_is_char_boundary r i = Some (boundary s i) \<and>
    (\<exists>j. rope_clip_offset r i bias = Some j \<and> nearest_boundary bias s i j) \<and>
    (\<exists>m. rope_clip_offset_utf16 r (OffsetUtf16 n) bias = Some (OffsetUtf16 m) \<and> nearest_unit bias s n m) \<and>
    (\<exists>w z. s = w @ z \<and> rope_clip_point grapheme_boundary r p bias = Some (parse_str w)) \<and>
    (\<exists>w z. s = w @ z \<and> rope_clip_point_utf16 r (Unclipped q) bias = Some (lines_utf16 (summary_of w)))"
  using is_char_boundary_ok [OF assms(1)] clip_offset_ok [OF assms(1)] clip_offset_utf16_ok [OF assms(1)]
    clip_point_ok [OF assms, of p bias] clip_point_utf16_ok [OF assms(1,2)] by (simp add: parse_str_lines)

theorem rope_clip_correct_witness:
  "\<exists>j. rope_clip_offset (one_chunk sample_text) 4 Left = Some j \<and> nearest_boundary Left sample_text 4 j"
  using rope_clip_correct [OF sample_rope(1), of "\<lambda>s i. i = 0 \<or> i = length s" 4 Left]
  by (simp add: len_utf8_def grapheme_ends_def)

text \<open>\<open>line_len\<close> of a row of the text is the number of bytes of that line, also when the line runs over several chunks (the
  position it clips has the column \<open>u32::MAX\<close>).\<close>

theorem rope_line_len_correct:
  assumes "rope_ok r (u @ l @ t)" "str_len (u @ l @ t) < 2 ^ 32" "row_of u l t"
  shows "line_len grapheme_boundary r (of_nat (rows u)) = Some (of_nat (str_len l)) \<and> split_lines (u @ l @ t) ! rows u = l"
  using line_len_ok [OF assms] row_nth [OF assms(3)] by blast

theorem rope_line_len_correct_witness: "line_len (\<lambda>s i. True) (one_chunk sample_text) 0 = Some 1"
proof -
  have "rope_ok (one_chunk sample_text) ([] @ [104] @ [10, 0x1F600])" "row_of [] [104] [10, 0x1F600]"
    using sample_rope(1) by (simp_all add: row_of_def)
  with rope_line_len_correct [OF this(1) _ this(2), of "\<lambda>s i. True"] show ?thesis by (simp add: len_utf8_def)
qed

text \<open>\<open>slice_rows\<close> is the text from the start of one row to the start of another.\<close>

theorem slice_rows_correct:
  assumes "rope_ok r (a @ b @ d)" "str_len (a @ b @ d) < 2 ^ 32" "height r < STACK_CAPACITY"
    and "a = [] \<or> last a = 10" "a @ b = [] \<or> last (a @ b) = 10" "rope_slice_fits r (str_len a) (str_len (a @ b))"
  shows "\<exists>r'. slice_rows debug r (of_nat (rows a), of_nat (rows (a @ b))) = Some r' \<and> rope_ok r' b"
  by (rule slice_rows_ok [OF assms])

end
