(* ===== verification/RopeChunks_Correct.thy ===== *)
theory RopeChunks_Correct
  imports RopeChunks RopePositions_Correct
begin

text \<open>
  The iterators over the chunks of a rope: \<open>Chunks\<close> reads exactly the text of its range, forward or backward, in non-empty pieces
  that never cut a character, and ends. What a loop over such an iterator does is proved once, in the locale \<open>piece_reader\<close>, and
  used for both directions.
\<close>

section \<open>UTF-8 is prefix-free\<close>

definition char_bytes :: "rchar \<Rightarrow> nat list" where
  "char_bytes c =
     (if c < 0x80 then [c]
      else if c < 0x800 then [0xC0 + c div 64, 0x80 + c mod 64]
      else if c < 0x10000 then [0xE0 + c div 4096, 0x80 + c div 64 mod 64, 0x80 + c mod 64]
      else [0xF0 + c div 262144, 0x80 + c div 4096 mod 64, 0x80 + c div 64 mod 64, 0x80 + c mod 64])"

lemma char_bytes_encode: "encode_char c = map of_nat (char_bytes c)"
  by (simp add: encode_char_def char_bytes_def)

lemma char_bytes_small: "valid_char c \<Longrightarrow> \<forall>b \<in> set (char_bytes c). b < 256"
  by (auto simp: char_bytes_def valid_char_def div_less_iff_less_mult)

lemma char_bytes_value: "valid_char c \<Longrightarrow>
  c = (case char_bytes c of [a] \<Rightarrow> a | [a, b] \<Rightarrow> (a - 0xC0) * 64 + (b - 0x80)
     | [a, b, d] \<Rightarrow> ((a - 0xE0) * 64 + (b - 0x80)) * 64 + (d - 0x80)
     | [a, b, d, e] \<Rightarrow> (((a - 0xF0) * 64 + (b - 0x80)) * 64 + (d - 0x80)) * 64 + (e - 0x80))"
proof -
  have "c div 64 div 64 * 64 + c div 64 mod 64 = c div 64" "c div 4096 div 64 * 64 + c div 4096 mod 64 = c div 4096"
    "c div 64 * 64 + c mod 64 = c" by (rule div_mult_mod_eq)+
  moreover from this have "4096 * (c div 4096) + c div 64 mod 64 * 64 + c mod 64 = c"
    "262144 * (c div 262144) + 4096 * (c div 4096 mod 64) + c div 64 mod 64 * 64 + c mod 64 = c"
    by (simp_all only: div_mult2_eq [symmetric] semiring_norm arith_simps)
  ultimately show ?thesis by (simp add: char_bytes_def)
qed

lemma char_bytes_length: "valid_char c \<Longrightarrow>
  length (char_bytes c) = (if hd (char_bytes c) < 0x80 then 1 else if hd (char_bytes c) < 0xE0 then 2 else if hd (char_bytes c) < 0xF0 then 3 else 4)"
  by (simp add: char_bytes_def valid_char_def div_less_iff_less_mult)

lemma encode_char_prefix_free:
  assumes "valid_char c" "valid_char c'" "encode_char c @ x = encode_char c' @ y"
  shows "c = c'"
proof -
  have inj: "ns = ms" if "map (of_nat :: nat \<Rightarrow> u8) ns = map of_nat ms" "\<forall>b \<in> set ns. b < 256" "\<forall>b \<in> set ms. b < 256" for ns ms
    by (rule map_inj_on [OF that(1)]) (use that(2,3) in \<open>auto simp: inj_on_def word_unat_eq_iff unat_byte\<close>)
  have ne: "char_bytes c \<noteq> []" "char_bytes c' \<noteq> []" by (simp_all add: char_bytes_def)
  then have "of_nat (hd (char_bytes c)) = (of_nat (hd (char_bytes c')) :: u8)"
    using arg_cong [OF assms(3), of hd] by (simp add: char_bytes_encode hd_map)
  then have "hd (char_bytes c) = hd (char_bytes c')"
    using inj [of "[hd (char_bytes c)]" "[hd (char_bytes c')]"] char_bytes_small [OF assms(1)] char_bytes_small [OF assms(2)] ne by simp
  then have "length (char_bytes c) = length (char_bytes c')" by (simp add: char_bytes_length assms(1,2))
  then have "encode_char c = encode_char c'" using assms(3) by (simp add: char_bytes_encode append_eq_append_conv)
  then have "char_bytes c = char_bytes c'"
    using inj char_bytes_small [OF assms(1)] char_bytes_small [OF assms(2)] by (simp add: char_bytes_encode)
  with char_bytes_value [OF assms(1)] char_bytes_value [OF assms(2)] show ?thesis by simp
qed

lemma encode_prefix: "valid_str p \<Longrightarrow> valid_str v \<Longrightarrow> prefix (encode p) (encode v) \<longleftrightarrow> prefix p v"
proof (induction p arbitrary: v)
  case (Cons c p)
  show ?case
  proof (cases v)
    case Nil
    then show ?thesis by (simp add: encode_Nil_iff [of "c # p", simplified] del: encode_simps(2)) (simp add: encode_def char_bytes_encode char_bytes_def)
  next
    case (Cons c' v')
    show ?thesis
    proof (cases "c = c'")
      case True
      then show ?thesis using Cons.IH [of v'] Cons.prems Cons by (simp add: valid_str_def)
    next
      case False
      then have "\<not> prefix (encode (c # p)) (encode v)"
        using encode_char_prefix_free [of c c' _ "encode v'"] Cons.prems Cons by (force simp: prefix_def valid_str_def)
      with False Cons show ?thesis by simp
    qed
  qed
qed simp

lemma encode_inj: "valid_str p \<Longrightarrow> valid_str v \<Longrightarrow> encode p = encode v \<longleftrightarrow> p = v"
  using encode_prefix [of p v] encode_prefix [of v p] by (auto intro: prefix_order.antisym)

lemma encode_suffix:
  assumes "valid_str p" "valid_str v"
  shows "suffix (encode p) (encode v) \<longleftrightarrow> suffix p v"
proof
  assume "suffix (encode p) (encode v)"
  then obtain x where x: "encode v = x @ encode p" by (auto simp: suffix_def)
  then have "str_char_boundary (encode v) (length x)"
    using encode_boundary [OF assms(1), of "[0]"] by (auto simp: str_char_boundary_def nth_append encode_char_def len_utf8_def)
  then have "boundary v (length x)" by (simp add: str_char_boundary_correct assms(2))
  then obtain u w where "v = u @ w" "length x = str_len u" by (auto simp: boundary_def)
  with x have "encode p = encode w" by (simp add: append_eq_append_conv)
  then show "suffix p v" using encode_inj [of p w] assms \<open>v = u @ w\<close> by (auto simp: suffix_def)
qed (auto simp: suffix_def)

section \<open>Positions of an iterator\<close>

text \<open>A forward iterator over the text \<open>f @ g @ d\<close> with the range of \<open>g = x @ b\<close> that has read \<open>x\<close>: its cursor is at the chunk where
  \<open>b\<close> goes on (when \<open>b\<close> is empty, it may also still be at the chunk before). A reversed one has read the part of the range after
  \<open>b\<close>, and its cursor is at the chunk where \<open>b\<close> ends, unless this is the start of the text.\<close>

definition reads_forward :: "rope_chunks \<Rightarrow> rchar list \<Rightarrow> rchar list \<Rightarrow> rchar list \<Rightarrow> rchar list \<Rightarrow> bool" where
  "reads_forward ck f x b d \<longleftrightarrow> \<not> ck_reversed ck \<and> ck_first ck = str_len f \<and> ck_offset ck = str_len (f @ x) \<and>
     ck_last ck = str_len (f @ x @ b) \<and>
     (\<exists>as bs w z. usize.stands (ck_chunks ck) as bs \<and> between as bs (f @ x) (b @ d) w z \<and> (b \<noteq> [] \<longrightarrow> z \<noteq> []))"

definition reads_backward :: "rope_chunks \<Rightarrow> rchar list \<Rightarrow> rchar list \<Rightarrow> rchar list \<Rightarrow> rchar list \<Rightarrow> bool" where
  "reads_backward ck f b x d \<longleftrightarrow> ck_reversed ck \<and> ck_first ck = str_len f \<and> ck_offset ck = str_len (f @ b) \<and>
     ck_last ck = str_len (f @ b @ x) \<and>
     (b \<noteq> [] \<longrightarrow> (\<exists>as bs w z. usize.stands (ck_chunks ck) as ((w @ z) # bs) \<and> w \<noteq> [] \<and> f @ b = concat as @ w \<and> x @ d = z @ concat bs))"

lemma reads_forwardI:
  "usize.stands (ck_chunks ck) as bs \<Longrightarrow> between as bs (f @ x) (b @ d) w z \<Longrightarrow> (b \<noteq> [] \<Longrightarrow> z \<noteq> []) \<Longrightarrow> \<not> ck_reversed ck \<Longrightarrow>
   ck_first ck = str_len f \<Longrightarrow> ck_offset ck = str_len (f @ x) \<Longrightarrow> ck_last ck = str_len (f @ x @ b) \<Longrightarrow> reads_forward ck f x b d"
  unfolding reads_forward_def by blast

lemma reads_backwardI:
  "usize.stands (ck_chunks ck) as ((w @ z) # bs) \<Longrightarrow> w \<noteq> [] \<Longrightarrow> f @ b = concat as @ w \<Longrightarrow> x @ d = z @ concat bs \<Longrightarrow>
   ck_reversed ck \<Longrightarrow> ck_first ck = str_len f \<Longrightarrow> ck_offset ck = str_len f + str_len b \<Longrightarrow>
   ck_last ck = str_len f + str_len b + str_len x \<Longrightarrow> reads_backward ck f b x d"
  unfolding reads_backward_def str_len_simps by auto

lemma reads_backward_startI:
  "ck_reversed ck \<Longrightarrow> ck_first ck = str_len f \<Longrightarrow> ck_offset ck = str_len f \<Longrightarrow> ck_last ck = str_len (f @ x) \<Longrightarrow>
   reads_backward ck f [] x d"
  by (simp add: reads_backward_def)

text \<open>Two texts that start alike: one of them ends first.\<close>

lemma common_prefix:
  assumes "b @ d = z @ r"
  obtains p q y where "b = p @ q" "z = p @ y" "q @ d = y @ r" "q = [] \<or> y = []"
proof -
  from assms consider us where "b = z @ us" "us @ d = r" | us where "b @ us = z" "d = us @ r" by (auto simp: append_eq_append_conv2)
  then show thesis
  proof cases
    case 1
    then show thesis by (intro that [of z us "[]"]) simp_all
  next
    case 2
    then show thesis by (intro that [of b "[]" us]) simp_all
  qed
qed

lemma common_suffix:
  assumes "f @ b = e @ w"
  obtains p q y where "b = q @ p" "w = y @ p" "f @ q = e @ y" "q = [] \<or> y = []"
proof -
  from assms consider us where "f = e @ us" "us @ b = w" | us where "f @ us = e" "b = us @ w" by (auto simp: append_eq_append_conv2)
  then show thesis
  proof cases
    case 1
    then show thesis by (intro that [of "[]" b us]) simp_all
  next
    case 2
    then show thesis by (intro that [of us w "[]"]) simp_all
  qed
qed

lemma str_slice_middle: "valid_str (w @ p @ y) \<Longrightarrow> str_slice (encode (w @ p @ y)) (str_len w) (str_len (w @ p)) = Some (encode p)"
  using boundary_middle [of w p y] by (simp add: str_slice_def str_char_boundary_correct del: encode_simps) (simp add: rust_assert_def)

lemma stands_valid: "usize.stands c as (s # bs) \<Longrightarrow> valid_str s \<and> s \<noteq> [] \<and> str_len s \<le> 128 \<and> (\<forall>t \<in> set (as @ bs). t \<noteq> [])"
  by (auto simp: usize.stands_def holds_def rope_texts_def)

section \<open>One call of \<open>next\<close>\<close>

lemma forward_done: "reads_forward ck f x [] d \<Longrightarrow> chunks_peek ck = Some None \<and> chunks_next ck = Some (None, ck)"
  by (simp add: reads_forward_def chunks_peek_def chunks_next_def offset_is_valid_def)

lemma backward_done: "reads_backward ck f [] x d \<Longrightarrow> chunks_peek ck = Some None \<and> chunks_next ck = Some (None, ck)"
  by (simp add: reads_backward_def chunks_peek_def chunks_next_def offset_is_valid_def)

text \<open>What an iterator peeks at when its slice is the part \<open>p\<close> of a chunk \<open>w @ p @ y\<close>: the text, and bitmaps whose bits describe it.\<close>

definition describes :: "chunk_bitmaps \<Rightarrow> u8 list \<Rightarrow> bool" where
  "describes cb s \<longleftrightarrow> cb_text cb = s \<and>
     (\<forall>i < length s. (bit (cb_chars cb) i \<longleftrightarrow> is_utf8_char_boundary (s ! i)) \<and> (bit (cb_tabs cb) i \<longleftrightarrow> s ! i = 9) \<and>
        (bit (cb_newlines cb) i \<longleftrightarrow> s ! i = 10))"

lemma bit_bits_middle: "i < length ys \<Longrightarrow> length xs + i < 128 \<Longrightarrow> bit (bits (xs @ ys @ zs)) (length xs + i) \<longleftrightarrow> ys ! i"
  by (simp add: bit_bits nth_append)

lemma bit_marks:
  assumes "valid_str p" "i < str_len p" "str_len w + i < 128"
  shows "bit (bits (marks (start_mark True) (w @ p @ y))) (str_len w + i) \<longleftrightarrow> is_utf8_char_boundary (encode p ! i)"
    "bit (bits (marks (\<lambda>c. start_mark (c = 9) c) (w @ p @ y))) (str_len w + i) \<longleftrightarrow> encode p ! i = 9"
    "bit (bits (newline_marks (w @ p @ y))) (str_len w + i) \<longleftrightarrow> encode p ! i = 10"
  using bit_bits_middle [of i "marks (start_mark True) p" "marks (start_mark True) w"]
    bit_bits_middle [of i "marks (\<lambda>c. start_mark (c = 9) c) p" "marks (\<lambda>c. start_mark (c = 9) c) w"]
    bit_bits_middle [of i "newline_marks p" "newline_marks w"] assms
  by (simp_all add: length_marks) (simp_all flip: encode_marks(1,3,4) [OF assms(1)])

lemma peek_slice:
  assumes "usize.stands (ck_chunks ck) as ((w @ p @ y) # bs)" "offset_is_valid ck" "p \<noteq> []"
    and "slice_range ck = Some (str_len w, str_len (w @ p))"
  shows "chunks_peek ck = Some (Some (encode p))" "\<exists>cb. peek_with_bitmaps ck = Some (Some cb) \<and> describes cb (encode p)"
proof -
  have v: "valid_str (w @ p @ y)" "str_len (w @ p @ y) \<le> 128" using stands_valid [OF assms(1)] by simp_all
  have item: "cursor_item (ck_chunks ck) = Some (Some (chunk_of (w @ p @ y)))" using usize.stands_reads(2) [OF assms(1)] by simp
  show "chunks_peek ck = Some (Some (encode p))"
    using assms(2,4) item str_slice_middle [OF v(1)] by (simp add: chunks_peek_def chunk_of_def del: encode_simps)
  have "str_len p > 0" using assms(3) by (simp add: str_len_pos)
  with v(2) have w: "str_len w < 128" by simp
  have "str_len w + i < 128" if "i < str_len p" for i using that v(2) by simp
  then show "\<exists>cb. peek_with_bitmaps ck = Some (Some cb) \<and> describes cb (encode p)"
    using assms(2,4) item str_slice_middle [OF v(1)] w v(1) bit_marks [of p _ w y]
    by (simp add: peek_with_bitmaps_def chunk_of_def checked_shr_def describes_def bit_simps del: encode_simps marks_simps)
qed

text \<open>Forward: the piece \<open>p\<close> is what is left of the chunk, or of the range.\<close>

lemma forward_piece:
  assumes "reads_forward ck f x b d" "b \<noteq> []"
  obtains as bs w p y q where "usize.stands (ck_chunks ck) as ((w @ p @ y) # bs)" "f @ x = concat as @ w" "b = p @ q"
    "q @ d = y @ concat bs" "q = [] \<or> y = []" "p \<noteq> []" "offset_is_valid ck" "slice_range ck = Some (str_len w, str_len (w @ p))"
proof -
  from assms obtain as bs w z where st: "usize.stands (ck_chunks ck) as bs" "between as bs (f @ x) (b @ d) w z" "z \<noteq> []"
    by (auto simp: reads_forward_def)
  then obtain bs' where bs: "bs = (w @ z) # bs'" "f @ x = concat as @ w" "b @ d = z @ concat bs'"
    by (cases bs) (auto simp: between_def)
  from common_prefix [OF bs(3)] obtain p q y where p: "b = p @ q" "z = p @ y" "q @ d = y @ concat bs'" "q = [] \<or> y = []" .
  have st': "usize.stands (ck_chunks ck) as ((w @ p @ y) # bs')" using st(1) bs(1) p(2) by simp
  have "p \<noteq> []" using p assms(2) st(3) by auto
  have valid: "offset_is_valid ck" using assms by (auto simp: reads_forward_def offset_is_valid_def)
  have "ck_offset ck = str_len (concat as @ w)" "ck_last ck = str_len ((concat as @ w) @ b)" "\<not> ck_reversed ck"
    unfolding bs(2) [symmetric] using assms(1) by (simp_all add: reads_forward_def)
  moreover have "min (str_len (concat as @ w @ p @ y)) (str_len (concat as @ w @ b)) = str_len (concat as @ w @ p)" using p(1,4) by auto
  ultimately have "slice_range ck = Some (str_len w, str_len (w @ p))"
    using usize.stands_reads [OF st'] by (simp add: slice_range_def)
  with st' bs(2) p(1,3,4) \<open>p \<noteq> []\<close> valid show thesis by (intro that)
qed

lemma forward_next:
  assumes "reads_forward ck f x b d" "b \<noteq> []"
  obtains p q ck' cb where "b = p @ q" "p \<noteq> []" "chunks_peek ck = Some (Some (encode p))" "chunks_next ck = Some (Some (encode p), ck')"
    "bitmaps_next ck = Some (Some cb, ck')" "describes cb (encode p)" "reads_forward ck' f (x @ p) q d"
proof -
  from forward_piece [OF assms] obtain as bs w p y q where st: "usize.stands (ck_chunks ck) as ((w @ p @ y) # bs)" "f @ x = concat as @ w"
    "b = p @ q" "q @ d = y @ concat bs" "q = [] \<or> y = []" "p \<noteq> []" "offset_is_valid ck" "slice_range ck = Some (str_len w, str_len (w @ p))" .
  note peek = peek_slice [OF st(1,7,6,8)]
  from peek(2) obtain cb where cb: "peek_with_bitmaps ck = Some (Some cb)" "describes cb (encode p)" by blast
  have offset: "ck_offset ck = str_len (concat as @ w)" "ck_first ck = str_len f" "ck_last ck = str_len ((concat as @ w) @ b)" "\<not> ck_reversed ck"
    unfolding st(2) [symmetric] using assms(1) by (simp_all add: reads_forward_def)
  have "\<exists>ck'. chunks_advance ck (str_len p) = Some ck' \<and> reads_forward ck' f (x @ p) q d"
  proof (cases "y = []")
    case True
    from usize.next_text [OF st(1)] obtain c where c: "cursor_next usize_dim (ck_chunks ck) = Some c"
      "usize.stands c (as @ [w @ p]) bs" using True by auto
    let ?ck = "ck\<lparr>ck_chunks := c, ck_offset := ck_offset ck + str_len p\<rparr>"
    have "chunks_advance ck (str_len p) = Some ?ck"
      using c(1) True offset usize.stands_reads [OF st(1)] by (simp add: chunks_advance_def)
    moreover have "reads_forward ?ck f (x @ p) q d"
    proof (rule reads_forwardI)
      show "between (as @ [w @ p]) bs (f @ x @ p) (q @ d) [] (concat (take 1 bs))"
        using st(2,4) True by (cases bs) (auto simp: between_def simp flip: append_assoc)
      show "concat (take 1 bs) \<noteq> []" if "q \<noteq> []"
        using that st(4) True stands_valid [OF st(1)] by (cases bs) auto
    qed (use c(2) offset assms(1) st(2,3) in \<open>auto simp: reads_forward_def\<close>)
    ultimately show ?thesis by blast
  next
    case False
    then have "chunks_advance ck (str_len p) = Some (ck\<lparr>ck_chunks := ck_chunks ck, ck_offset := ck_offset ck + str_len p\<rparr>)"
      using offset usize.stands_reads [OF st(1)] str_len_pos [of y] by (simp add: chunks_advance_def)
    moreover have "reads_forward (ck\<lparr>ck_offset := ck_offset ck + str_len p\<rparr>) f (x @ p) q d"
    proof (rule reads_forwardI)
      show "between as ((w @ p @ y) # bs) (f @ x @ p) (q @ d) (w @ p) y"
        using st(2,4) by (simp add: between_def flip: append_assoc)
    qed (use st(1) False offset assms(1) st(2,3) in \<open>auto simp: reads_forward_def\<close>)
    ultimately show ?thesis by auto
  qed
  then obtain ck' where "chunks_advance ck (str_len p) = Some ck'" "reads_forward ck' f (x @ p) q d" by blast
  with cb peek(1) st(3,6) show thesis
    by (intro that [of p q ck' cb]) (simp_all add: chunks_next_def bitmaps_next_def describes_def)
qed

text \<open>Backward: the piece \<open>p\<close> is what is left of the start of the chunk, or of the range.\<close>

lemma backward_piece:
  assumes "reads_backward ck f b x d" "b \<noteq> []"
  obtains as bs y p z q where "usize.stands (ck_chunks ck) as ((y @ p @ z) # bs)" "f @ q = concat as @ y" "b = q @ p"
    "x @ d = z @ concat bs" "q = [] \<or> y = []" "p \<noteq> []" "offset_is_valid ck" "slice_range ck = Some (str_len y, str_len (y @ p))"
proof -
  from assms obtain as bs w z where st: "usize.stands (ck_chunks ck) as ((w @ z) # bs)" "w \<noteq> []" "f @ b = concat as @ w" "x @ d = z @ concat bs"
    by (auto simp: reads_backward_def)
  from common_suffix [OF st(3)] obtain p q y where p: "b = q @ p" "w = y @ p" "f @ q = concat as @ y" "q = [] \<or> y = []" .
  have st': "usize.stands (ck_chunks ck) as ((y @ p @ z) # bs)" using st(1) p(2) by simp
  have "p \<noteq> []" using p assms(2) st(2) by auto
  have valid: "offset_is_valid ck" using assms by (auto simp: reads_backward_def offset_is_valid_def)
  have "ck_offset ck = str_len (concat as @ y @ p)"
    unfolding p(2) [symmetric] st(3) [symmetric] using assms(1) by (simp add: reads_backward_def)
  moreover have "max (str_len (concat as)) (str_len f) = str_len (concat as @ y)"
    using p(4) arg_cong [OF p(3), of str_len] by auto
  moreover have "ck_reversed ck" "ck_first ck = str_len f" using assms(1) by (simp_all add: reads_backward_def)
  ultimately have "slice_range ck = Some (str_len y, str_len (y @ p))"
    using usize.stands_reads [OF st'] by (simp add: slice_range_def)
  with st' st(4) p(1,3,4) \<open>p \<noteq> []\<close> valid show thesis by (intro that)
qed

lemma backward_next:
  assumes "reads_backward ck f b x d" "b \<noteq> []"
  obtains p q ck' cb where "b = q @ p" "p \<noteq> []" "chunks_peek ck = Some (Some (encode p))" "chunks_next ck = Some (Some (encode p), ck')"
    "bitmaps_next ck = Some (Some cb, ck')" "describes cb (encode p)" "reads_backward ck' f q (p @ x) d"
proof -
  from backward_piece [OF assms] obtain as bs y p z q where st: "usize.stands (ck_chunks ck) as ((y @ p @ z) # bs)" "f @ q = concat as @ y"
    "b = q @ p" "x @ d = z @ concat bs" "q = [] \<or> y = []" "p \<noteq> []" "offset_is_valid ck" "slice_range ck = Some (str_len y, str_len (y @ p))" .
  note peek = peek_slice [OF st(1,7,6,8)]
  from peek(2) obtain cb where cb: "peek_with_bitmaps ck = Some (Some cb)" "describes cb (encode p)" by blast
  have offset: "ck_offset ck = str_len f + str_len q + str_len p" "ck_first ck = str_len f" "ck_reversed ck"
    "ck_last ck = str_len (f @ q @ p @ x)" using assms(1) st(3) by (simp_all add: reads_backward_def)
  have le: "str_len f + str_len q \<le> str_len (concat as) \<longleftrightarrow> y = []"
    using arg_cong [OF st(2), of str_len] str_len_pos [of y] by (cases "y = []") simp_all
  have "\<exists>ck'. chunks_advance ck (str_len p) = Some ck' \<and> reads_backward ck' f q (p @ x) d"
  proof (cases "y = []")
    case True
    have "\<exists>c. cursor_prev usize_dim (ck_chunks ck) = Some c \<and>
      (as \<noteq> [] \<longrightarrow> usize.stands c (butlast as) (last as # (p @ z) # bs))"
    proof (cases as rule: rev_cases)
      case Nil
      with usize.prev_start st(1) show ?thesis by blast
    next
      case (snoc as' s)
      with usize.prev_text [of "ck_chunks ck" as' s "(p @ z) # bs"] st(1) True show ?thesis by auto
    qed
    then obtain c where c: "cursor_prev usize_dim (ck_chunks ck) = Some c"
      "as \<noteq> [] \<Longrightarrow> usize.stands c (butlast as) (last as # (p @ z) # bs)" by blast
    let ?ck = "ck\<lparr>ck_chunks := c, ck_offset := str_len f + str_len q\<rparr>"
    have "chunks_advance ck (str_len p) = Some ?ck"
      using c(1) True offset le usize.stands_reads(1) [OF st(1)] by (simp add: chunks_advance_def)
    moreover have "reads_backward ?ck f q (p @ x) d"
    proof (cases "q = []")
      case True
      then show ?thesis using offset by (simp add: reads_backward_def)
    next
      case False
      then have as: "as \<noteq> []" using st(2) True by auto
      then have snoc: "concat as = concat (butlast as) @ last as" by (cases as rule: rev_cases) simp_all
      have "last as \<noteq> []" using stands_valid [OF st(1)] as by auto
      moreover have "f @ q = concat (butlast as) @ last as" using st(2) True snoc by simp
      ultimately show ?thesis
        using offset c(2) [OF as] st(4) by (intro reads_backwardI [of _ "butlast as" "last as" "[]" "(p @ z) # bs"]) simp_all
    qed
    ultimately show ?thesis by blast
  next
    case False
    then have "chunks_advance ck (str_len p) = Some (ck\<lparr>ck_chunks := ck_chunks ck, ck_offset := str_len f + str_len q\<rparr>)"
      using offset le usize.stands_reads(1) [OF st(1)] by (simp add: chunks_advance_def)
    moreover have "reads_backward (ck\<lparr>ck_offset := str_len f + str_len q\<rparr>) f q (p @ x) d"
      using offset st(1,2,4) False by (intro reads_backwardI [of _ as y "p @ z" bs]) simp_all
    ultimately show ?thesis by auto
  qed
  then obtain ck' where "chunks_advance ck (str_len p) = Some ck'" "reads_backward ck' f q (p @ x) d" by blast
  with cb peek(1) st(3,6) show thesis
    by (intro that [of q p ck' cb]) (simp_all add: chunks_next_def bitmaps_next_def describes_def)
qed

section \<open>Creating an iterator\<close>

text \<open>A seek with bias \<open>Left\<close> stops at the chunk in which the text before the offset ends.\<close>

lemma left_cut:
  assumes "concat (as @ bs) = a @ b" "usize.cut (ord_cmp (str_len a)) Left (concat us) us' bs" "as = us @ us'"
    and "str_len (concat us) < str_len a"
  obtains w z bs' where "bs = (w @ z) # bs'" "a = concat as @ w" "b = z @ concat bs'" "w \<noteq> []"
proof -
  have lt: "str_len (concat as) < str_len a"
    using assms(2-4) by (cases "us' = []") (auto simp: usize.cut_def past_end_def ord_cmp_def split: if_splits)
  with usize.prefix_split [of a b "concat as" "concat bs"] assms(1) obtain w where w: "a = concat as @ w" "concat bs = w @ b" by auto
  with lt have "w \<noteq> []" by auto
  with w(2) obtain s bs' where bs: "bs = s # bs'" "w \<noteq> []" by (cases bs) auto
  with assms(2,3) have "str_len a \<le> str_len (concat as @ s)"
    by (auto simp: usize.cut_def past_end_def ord_cmp_def split: if_splits)
  with w(1) have "str_len w \<le> str_len s" by simp
  with usize.prefix_split [of s "concat bs'" w b] w bs obtain z where "s = w @ z" "b = z @ concat bs'" by auto
  with w(1) bs show ?thesis by (intro that [of w z bs']) simp_all
qed

lemma assert_boundary: "valid_str (w @ z) \<Longrightarrow> str_len (w @ z) \<le> 128 \<Longrightarrow>
  chunk_assert_char_boundary debug True (chunk_of (w @ z)) (str_len w) = Some True"
  using chunk_is_char_boundary_correct [of "w @ z"] by (simp add: chunk_assert_char_boundary_def)

lemma seek_new:
  assumes "rope_ok r (a @ b)" "height r < STACK_CAPACITY"
  obtains c found as bs where "cursor_seek usize_dim (ord_cmp (str_len a)) bias (cursor_new usize_dim r) = Some (c, found)"
    "usize.stands c as bs" "concat (as @ bs) = a @ b" "usize.cut (ord_cmp (str_len a)) bias [] as bs"
proof -
  from assms(1) obtain ss where ss: "holds r ss" "concat ss = a @ b" by (auto simp: rope_ok_def)
  have "is_ge (ord_cmp (str_len a) (str_len []))" by (simp add: is_ge_def ord_cmp_def)
  moreover have "holds (c_tree (cursor_new usize_dim r)) ss" "height (c_tree (cursor_new usize_dim r)) < STACK_CAPACITY"
    using ss(1) assms(2) by simp_all
  ultimately obtain c found as bs where "cursor_seek usize_dim (ord_cmp (str_len a)) bias (cursor_new usize_dim r) = Some (c, found)"
    "ss = as @ bs" "usize.stands c as bs" "usize.cut (ord_cmp (str_len a)) bias [] as bs"
    by (metis usize.seek_text usize.falling_ord)
  with ss(2) show thesis by (intro that) simp_all
qed

lemma new_forward:
  assumes "rope_ok r (f @ g @ d)" "height r < STACK_CAPACITY"
  shows "\<exists>ck. chunks_new debug r (str_len f, str_len (f @ g)) False = Some ck \<and> reads_forward ck f [] g d"
proof -
  from seek_new [OF assms, of Right] obtain c found as bs where
    c: "cursor_seek usize_dim (ord_cmp (str_len f)) Right (cursor_new usize_dim r) = Some (c, found)"
      "concat (as @ bs) = f @ g @ d" "usize.stands c as bs" "usize.cut (ord_cmp (str_len f)) Right [] as bs" .
  obtain w z where w: "between as bs f (g @ d) w z" "bs \<noteq> [] \<Longrightarrow> z \<noteq> []"
    by (rule between_cut [of as bs f "g @ d" "[]" as]) (use c(2,4) in simp_all)
  let ?ck = "\<lparr>ck_chunks = c, ck_first = str_len f, ck_last = str_len (f @ g), ck_offset = str_len f, ck_reversed = False\<rparr>"
  have "chunks_new debug r (str_len f, str_len (f @ g)) False = Some ?ck"
  proof (cases bs)
    case Nil
    with w(1) c(1) usize.stands_reads [OF c(3)] show ?thesis by (simp add: chunks_new_def between_def Let_def)
  next
    case (Cons s bs')
    with w(1) have s: "s = w @ z" "f = concat as @ w" by (simp_all add: between_def)
    with Cons c(3) have "valid_str (w @ z)" "str_len (w @ z) \<le> 128" using stands_valid [of c as "w @ z" bs'] by auto
    from assert_boundary [OF this, of debug] s Cons c(1) usize.stands_reads [OF c(3)] show ?thesis by (simp add: chunks_new_def Let_def)
  qed
  moreover have "reads_forward ?ck f [] g d"
  proof (rule reads_forwardI [of _ as bs f "[]" g d w z])
    show "z \<noteq> []" if "g \<noteq> []" using that w by (cases bs) (auto simp: between_def)
  qed (use c(3) w(1) in simp_all)
  ultimately show ?thesis by blast
qed

lemma new_backward:
  assumes "rope_ok r (f @ g @ d)" "height r < STACK_CAPACITY"
  shows "\<exists>ck. chunks_new debug r (str_len f, str_len (f @ g)) True = Some ck \<and> reads_backward ck f g [] d"
proof -
  have "rope_ok r ((f @ g) @ d)" using assms(1) by simp
  from seek_new [OF this assms(2), of Left] obtain c found as bs where
    c: "cursor_seek usize_dim (ord_cmp (str_len (f @ g))) Left (cursor_new usize_dim r) = Some (c, found)"
      "concat (as @ bs) = (f @ g) @ d" "usize.stands c as bs" "usize.cut (ord_cmp (str_len (f @ g))) Left [] as bs" .
  let ?ck = "\<lparr>ck_chunks = c, ck_first = str_len f, ck_last = str_len (f @ g), ck_offset = str_len (f @ g), ck_reversed = True\<rparr>"
  show ?thesis
  proof (cases "f @ g = []")
    case True
    then have "as = []" using c(4) by (auto simp: usize.cut_def past_end_def ord_cmp_def split: if_splits)
    then have "chunks_new debug r (str_len f, str_len (f @ g)) True = Some ?ck"
      using True c(1) usize.stands_reads [OF c(3)] assert_boundary [of "[]" "hd bs" debug] stands_valid [of c as "hd bs" "tl bs"] c(3)
      by (cases bs) (simp_all add: chunks_new_def Let_def)
    with True show ?thesis by (auto simp: reads_backward_def)
  next
    case False
    obtain w z bs' where w: "bs = (w @ z) # bs'" "f @ g = concat as @ w" "d = z @ concat bs'" "w \<noteq> []"
      by (rule left_cut [of as bs "f @ g" d "[]" as]) (use c(2,4) str_len_pos [OF False] in simp_all)
    have st: "usize.stands c as ((w @ z) # bs')" using c(3) w(1) by simp
    have off: "str_len f + str_len g = str_len (concat as) + str_len w" using arg_cong [OF w(2), of str_len] by simp
    have "chunks_new debug r (str_len f, str_len (f @ g)) True = Some ?ck"
      using c(1) usize.stands_reads [OF st] assert_boundary [of w z debug] stands_valid [OF st] off by (simp add: chunks_new_def Let_def)
    moreover have "reads_backward ?ck f g [] d"
      using w(2-4) st off by (intro reads_backwardI [of _ as w z bs']) simp_all
    ultimately show ?thesis by blast
  qed
qed

section \<open>Loops over an iterator\<close>

text \<open>A reader hands out the elements it has not read yet in non-empty pieces; \<open>glue\<close> puts a piece before or after what is left.\<close>

locale piece_reader =
  fixes nx :: "'t \<Rightarrow> ('a option \<times> 't) option"
    and unread :: "'t \<Rightarrow> 'x list \<Rightarrow> bool"
    and glue :: "'x list \<Rightarrow> 'x list \<Rightarrow> 'x list"
    and shown :: "'a \<Rightarrow> 'x list \<Rightarrow> bool"
  assumes read_done: "unread t [] \<Longrightarrow> \<exists>t'. nx t = Some (None, t')"
    and read_piece: "unread t b \<Longrightarrow> b \<noteq> [] \<Longrightarrow>
      \<exists>p q s t'. b = glue p q \<and> p \<noteq> [] \<and> nx t = Some (Some s, t') \<and> shown s p \<and> unread t' q"
    and glue_length: "length (glue p q) = length p + length q"
begin

text \<open>A loop that runs as often as there are elements, and once more, reads everything and ends.\<close>

lemma collect_all:
  "unread t b \<Longrightarrow> length b < fuel \<Longrightarrow>
   \<exists>ps ys. collect nx fuel t = Some ys \<and> list_all2 shown ys ps \<and> [] \<notin> set ps \<and> foldr glue ps [] = b"
proof (induction fuel arbitrary: t b)
  case (Suc fuel)
  show ?case
  proof (cases "b = []")
    case True
    with read_done Suc.prems(1) obtain t' where "nx t = Some (None, t')" by blast
    with True show ?thesis by (intro exI [of _ "[]"]) simp
  next
    case False
    from read_piece [OF Suc.prems(1) False] obtain p q s t' where
      r: "b = glue p q" "p \<noteq> []" "nx t = Some (Some s, t')" "shown s p" "unread t' q" by blast
    then have "length q < fuel" using Suc.prems(2) by (cases p) (simp_all add: glue_length)
    with Suc.IH [OF r(5)] obtain ps ys where "collect nx fuel t' = Some ys" "list_all2 shown ys ps" "[] \<notin> set ps" "foldr glue ps [] = q"
      by blast
    with r show ?thesis by (intro exI [of _ "p # ps"] exI [of _ "s # ys"]) simp
  qed
qed simp

end

definition unread_forward :: "rope_chunks \<Rightarrow> rchar list \<Rightarrow> bool" where
  "unread_forward ck b \<longleftrightarrow> valid_str b \<and> (\<exists>f x d. reads_forward ck f x b d)"

definition unread_backward :: "rope_chunks \<Rightarrow> rchar list \<Rightarrow> bool" where
  "unread_backward ck b \<longleftrightarrow> valid_str b \<and> (\<exists>f x d. reads_backward ck f b x d)"

interpretation fwd: piece_reader chunks_next unread_forward append "\<lambda>s p. s = encode p"
proof
  fix ck b
  assume "unread_forward ck b" "b \<noteq> []"
  then obtain f x d where "reads_forward ck f x b d" "valid_str b" by (auto simp: unread_forward_def)
  from forward_next [OF this(1) \<open>b \<noteq> []\<close>] this(2)
  show "\<exists>p q s t'. b = p @ q \<and> p \<noteq> [] \<and> chunks_next ck = Some (Some s, t') \<and> s = encode p \<and> unread_forward t' q"
    unfolding unread_forward_def by (metis valid_append)
qed (auto simp: unread_forward_def dest: forward_done)

interpretation bwd: piece_reader chunks_next unread_backward "\<lambda>p q. q @ p" "\<lambda>s p. s = encode p"
proof
  fix ck b
  assume "unread_backward ck b" "b \<noteq> []"
  then obtain f x d where "reads_backward ck f b x d" "valid_str b" by (auto simp: unread_backward_def)
  from backward_next [OF this(1) \<open>b \<noteq> []\<close>] this(2)
  show "\<exists>p q s t'. b = q @ p \<and> p \<noteq> [] \<and> chunks_next ck = Some (Some s, t') \<and> s = encode p \<and> unread_backward t' q"
    unfolding unread_backward_def by (metis valid_append)
qed (auto simp: unread_backward_def dest: backward_done)

interpretation fwd_bitmaps: piece_reader bitmaps_next unread_forward append "\<lambda>cb p. describes cb (encode p)"
proof
  fix ck b
  assume "unread_forward ck b" "b \<noteq> []"
  then obtain f x d where "reads_forward ck f x b d" "valid_str b" by (auto simp: unread_forward_def)
  from forward_next [OF this(1) \<open>b \<noteq> []\<close>] this(2)
  show "\<exists>p q s t'. b = p @ q \<and> p \<noteq> [] \<and> bitmaps_next ck = Some (Some s, t') \<and> describes s (encode p) \<and> unread_forward t' q"
    unfolding unread_forward_def by (metis valid_append)
qed (auto simp: unread_forward_def reads_forward_def bitmaps_next_def peek_with_bitmaps_def offset_is_valid_def)

interpretation bwd_bitmaps: piece_reader bitmaps_next unread_backward "\<lambda>p q. q @ p" "\<lambda>cb p. describes cb (encode p)"
proof
  fix ck b
  assume "unread_backward ck b" "b \<noteq> []"
  then obtain f x d where "reads_backward ck f b x d" "valid_str b" by (auto simp: unread_backward_def)
  from backward_next [OF this(1) \<open>b \<noteq> []\<close>] this(2)
  show "\<exists>p q s t'. b = q @ p \<and> p \<noteq> [] \<and> bitmaps_next ck = Some (Some s, t') \<and> describes s (encode p) \<and> unread_backward t' q"
    unfolding unread_backward_def by (metis valid_append)
qed (auto simp: unread_backward_def reads_backward_def bitmaps_next_def peek_with_bitmaps_def offset_is_valid_def)

lemma glue_all: "foldr append ps [] = concat ps" "foldr (\<lambda>p q. q @ p) ps [] = concat (rev ps)"
  by (induction ps) simp_all

section \<open>Slices of bytes\<close>

text \<open>\<open>Bytes\<close> keeps its range and moves only the cursor: what is left to read starts within the chunk at the cursor (forward), or
  ends within it (reversed).\<close>

definition bytes_forward :: "rope_bytes \<Rightarrow> rchar list \<Rightarrow> bool" where
  "bytes_forward b g \<longleftrightarrow> \<not> by_reversed b \<and> (\<exists>as bs. usize.stands (by_chunks b) as bs \<and>
     (if g = [] then by_last b \<le> str_len (concat as)
      else \<exists>w z bs' d. bs = (w @ z) # bs' \<and> z \<noteq> [] \<and> by_first b - str_len (concat as) = str_len w \<and>
        by_last b = str_len (concat as @ w @ g) \<and> g @ d = z @ concat bs'))"

definition bytes_backward :: "rope_bytes \<Rightarrow> rchar list \<Rightarrow> bool" where
  "bytes_backward b g \<longleftrightarrow> by_reversed b \<and>
     (if g = [] then bytes_peek b = Some None
      else \<exists>as w z bs f. usize.stands (by_chunks b) as ((w @ z) # bs) \<and> w \<noteq> [] \<and> by_first b = str_len f \<and> f @ g = concat as @ w \<and>
        min (str_len (w @ z)) (by_last b - str_len (concat as)) = str_len w)"

lemma bytes_forwardI:
  "usize.stands (by_chunks b) as ((w @ z) # bs) \<Longrightarrow> z \<noteq> [] \<Longrightarrow> g \<noteq> [] \<Longrightarrow> by_first b - str_len (concat as) = str_len w \<Longrightarrow>
   by_last b = str_len (concat as @ w @ g) \<Longrightarrow> g @ d = z @ concat bs \<Longrightarrow> \<not> by_reversed b \<Longrightarrow> bytes_forward b g"
  unfolding bytes_forward_def by (intro conjI exI [of _ as] exI [of _ "(w @ z) # bs"]) (simp_all, blast)

lemma bytes_forward_done: "usize.stands (by_chunks b) as bs \<Longrightarrow> by_last b \<le> str_len (concat as) \<Longrightarrow> \<not> by_reversed b \<Longrightarrow> bytes_forward b []"
  unfolding bytes_forward_def by auto

lemma bytes_backwardI:
  "usize.stands (by_chunks b) as ((w @ z) # bs) \<Longrightarrow> w \<noteq> [] \<Longrightarrow> g \<noteq> [] \<Longrightarrow> by_first b = str_len f \<Longrightarrow> f @ g = concat as @ w \<Longrightarrow>
   min (str_len (w @ z)) (by_last b - str_len (concat as)) = str_len w \<Longrightarrow> by_reversed b \<Longrightarrow> bytes_backward b g"
  unfolding bytes_backward_def by auto

lemma forward_bytes_next:
  assumes "bytes_forward b g" "g \<noteq> []"
  shows "\<exists>p q b'. g = p @ q \<and> p \<noteq> [] \<and> bytes_next b = Some (Some (encode p), b') \<and> bytes_forward b' q"
proof -
  from assms obtain as w z bs d where st: "usize.stands (by_chunks b) as ((w @ z) # bs)" "z \<noteq> []" "by_first b - str_len (concat as) = str_len w"
    "by_last b = str_len (concat as @ w @ g)" "g @ d = z @ concat bs" "\<not> by_reversed b" by (auto simp: bytes_forward_def)
  from common_prefix [OF st(5)] obtain p q y where p: "g = p @ q" "z = p @ y" "q @ d = y @ concat bs" "q = [] \<or> y = []" .
  have ne: "p \<noteq> []" using p st(2) assms(2) by auto
  have "by_last b - str_len (concat as) = str_len (w @ g)" "\<not> by_last b \<le> str_len (concat as)"
    using st(4) str_len_pos [OF assms(2)] assms(2) by simp_all
  moreover have "min (str_len (w @ z)) (str_len (w @ g)) = str_len (w @ p)" using p(1,2,4) by auto
  ultimately have peek: "bytes_peek b = Some (Some (encode p))"
    using usize.stands_reads [OF st(1)] st(3,6) p(2) by (simp add: bytes_peek_def chunk_of_def Let_def)
  from usize.next_text [OF st(1)] obtain c where c: "cursor_next usize_dim (by_chunks b) = Some c"
    "usize.stands c (as @ [w @ z]) bs" by auto
  let ?b = "b\<lparr>by_chunks := c\<rparr>"
  have "bytes_forward ?b q"
  proof (cases "q = []")
    case True
    with c(2) st(4,6) p(1,2) show ?thesis by (auto intro!: bytes_forward_done [of _ "as @ [w @ z]" bs])
  next
    case False
    with p have y: "y = []" "z = p" "q @ d = concat bs" by auto
    with False obtain s bs' where bs: "bs = s # bs'" by (cases bs) auto
    have "s \<noteq> []" using stands_valid [OF c(2) [unfolded bs]] by simp
    then show ?thesis
      using c(2) bs False y st(3,4,6) p(1) by (intro bytes_forwardI [of ?b "as @ [w @ z]" "[]" s bs' q d]) simp_all
  qed
  moreover have "bytes_next b = Some (Some (encode p), ?b)" using peek c(1) st(6) by (simp add: bytes_next_def bytes_step_def)
  ultimately show ?thesis using p(1) ne by blast
qed

lemma forward_bytes_done: "bytes_forward b [] \<Longrightarrow> bytes_next b = Some (None, b)"
  using usize.stands_reads [of "by_chunks b"]
  by (auto simp: bytes_forward_def bytes_next_def bytes_peek_def split: list.splits)

lemma before_item: "cursor_before usize_dim c \<Longrightarrow> cursor_item c = Some None"
  by (auto simp: cursor_before_def cursor_item_def)

lemma backward_bytes_next:
  assumes "bytes_backward b g" "g \<noteq> []"
  shows "\<exists>p q b'. g = q @ p \<and> p \<noteq> [] \<and> bytes_next b = Some (Some (encode p), b') \<and> bytes_backward b' q"
proof -
  from assms obtain as w z bs f where st: "usize.stands (by_chunks b) as ((w @ z) # bs)" "w \<noteq> []" "by_first b = str_len f"
    "f @ g = concat as @ w" "min (str_len (w @ z)) (by_last b - str_len (concat as)) = str_len w" "by_reversed b"
    by (auto simp: bytes_backward_def)
  from common_suffix [OF st(4)] obtain p q y where p: "g = q @ p" "w = y @ p" "f @ q = concat as @ y" "q = [] \<or> y = []" .
  have ne: "p \<noteq> []" using p st(2) assms(2) by auto
  have len: "str_len f + str_len q = str_len (concat as) + str_len y" using arg_cong [OF p(3), of str_len] by simp
  have start: "str_len f - str_len (concat as) = str_len y" using len p(4) by auto
  have inside: "\<not> str_len f \<ge> str_len (concat as @ w @ z)" "\<not> by_last b \<le> str_len (concat as)"
    using len p(2) str_len_pos [OF ne] st(5) str_len_pos [OF st(2)] by auto
  have peek: "bytes_peek b = Some (Some (encode p))"
    using usize.stands_reads [OF st(1)] st(3,5) start inside p(2) by (simp add: bytes_peek_def chunk_of_def Let_def)
  have "\<exists>c. cursor_prev usize_dim (by_chunks b) = Some c \<and> bytes_backward (b\<lparr>by_chunks := c\<rparr>) q"
  proof (cases as rule: rev_cases)
    case Nil
    with usize.prev_start st(1) obtain c where c: "cursor_prev usize_dim (by_chunks b) = Some c" "cursor_before usize_dim c" by blast
    have "q = []" using p(3,4) Nil by auto
    with c before_item [OF c(2)] st(6) show ?thesis by (simp add: bytes_backward_def bytes_peek_def)
  next
    case (snoc as' s)
    with usize.prev_text [of "by_chunks b" as' s "(w @ z) # bs"] st(1) obtain c where
      c: "cursor_prev usize_dim (by_chunks b) = Some c" "usize.stands c as' ((s @ []) # (w @ z) # bs)" by auto
    let ?b = "b\<lparr>by_chunks := c\<rparr>"
    have "bytes_backward ?b q"
    proof (cases "q = []")
      case True
      have "str_len f \<ge> str_len (concat as' @ s)" using len True snoc by simp
      with True st(3,6) usize.stands_reads [OF c(2)] show ?thesis by (simp add: bytes_backward_def bytes_peek_def)
    next
      case False
      have "s \<noteq> []" using stands_valid [OF c(2)] by simp
      moreover have "f @ q = concat as' @ s" using False p(3,4) snoc by auto
      moreover have "min (str_len (s @ [])) (by_last b - str_len (concat as')) = str_len s" using inside(2) snoc by auto
      ultimately show ?thesis using c(2) False st(3,6) by (intro bytes_backwardI [of ?b as' s "[]" _ q f]) simp_all
    qed
    with c(1) show ?thesis by blast
  qed
  then obtain c where c: "cursor_prev usize_dim (by_chunks b) = Some c" "bytes_backward (b\<lparr>by_chunks := c\<rparr>) q" by blast
  moreover have "bytes_next b = Some (Some (encode p), b\<lparr>by_chunks := c\<rparr>)" using peek c(1) st(6) by (simp add: bytes_next_def bytes_step_def)
  ultimately show ?thesis using p(1) ne by blast
qed

lemma backward_bytes_done: "bytes_backward b [] \<Longrightarrow> bytes_next b = Some (None, b)"
  by (simp add: bytes_backward_def bytes_next_def)

interpretation fwd_bytes: piece_reader bytes_next bytes_forward append "\<lambda>s p. s = encode p"
proof
  fix b g
  assume "bytes_forward b g" "g \<noteq> []"
  from forward_bytes_next [OF this]
  show "\<exists>p q s t'. g = p @ q \<and> p \<noteq> [] \<and> bytes_next b = Some (Some s, t') \<and> s = encode p \<and> bytes_forward t' q" by blast
qed (auto dest: forward_bytes_done)

interpretation bwd_bytes: piece_reader bytes_next bytes_backward "\<lambda>p q. q @ p" "\<lambda>s p. s = encode p"
proof
  fix b g
  assume "bytes_backward b g" "g \<noteq> []"
  from backward_bytes_next [OF this]
  show "\<exists>p q s t'. g = q @ p \<and> p \<noteq> [] \<and> bytes_next b = Some (Some s, t') \<and> s = encode p \<and> bytes_backward t' q" by blast
qed (auto dest: backward_bytes_done)

lemma new_bytes_forward:
  assumes "rope_ok r (f @ g @ d)" "height r < STACK_CAPACITY" "g \<noteq> []"
  shows "\<exists>b. bytes_new r (str_len f, str_len (f @ g)) False = Some b \<and> bytes_forward b g"
proof -
  from seek_new [OF assms(1,2), of Right] obtain c found as bs where
    c: "cursor_seek usize_dim (ord_cmp (str_len f)) Right (cursor_new usize_dim r) = Some (c, found)"
      "concat (as @ bs) = f @ g @ d" "usize.stands c as bs" "usize.cut (ord_cmp (str_len f)) Right [] as bs" .
  obtain w z where w: "between as bs f (g @ d) w z" "bs \<noteq> [] \<Longrightarrow> z \<noteq> []"
    by (rule between_cut [of as bs f "g @ d" "[]" as]) (use c(2,4) in simp_all)
  with assms(3) obtain bs' where bs: "bs = (w @ z) # bs'" "f = concat as @ w" "g @ d = z @ concat bs'" by (cases bs) (auto simp: between_def)
  let ?b = "\<lparr>by_chunks = c, by_first = str_len f, by_last = str_len (f @ g), by_reversed = False\<rparr>"
  have "bytes_forward ?b g" using c(3) bs w(2) assms(3) by (intro bytes_forwardI [of ?b as w z bs' g d]) simp_all
  with c(1) show ?thesis by (simp add: bytes_new_def)
qed

lemma new_bytes_backward:
  assumes "rope_ok r (f @ g @ d)" "height r < STACK_CAPACITY" "g \<noteq> []"
  shows "\<exists>b. bytes_new r (str_len f, str_len (f @ g)) True = Some b \<and> bytes_backward b g"
proof -
  have "rope_ok r ((f @ g) @ d)" using assms(1) by simp
  from seek_new [OF this assms(2), of Left] obtain c found as bs where
    c: "cursor_seek usize_dim (ord_cmp (str_len (f @ g))) Left (cursor_new usize_dim r) = Some (c, found)"
      "concat (as @ bs) = (f @ g) @ d" "usize.stands c as bs" "usize.cut (ord_cmp (str_len (f @ g))) Left [] as bs" .
  have "f @ g \<noteq> []" using assms(3) by simp
  obtain w z bs' where w: "bs = (w @ z) # bs'" "f @ g = concat as @ w" "d = z @ concat bs'" "w \<noteq> []"
    by (rule left_cut [of as bs "f @ g" d "[]" as]) (use c(2,4) str_len_pos [OF \<open>f @ g \<noteq> []\<close>] in simp_all)
  have "str_len f + str_len g - str_len (concat as) = str_len w" using arg_cong [OF w(2), of str_len] by simp
  let ?b = "\<lparr>by_chunks = c, by_first = str_len f, by_last = str_len (f @ g), by_reversed = True\<rparr>"
  have "bytes_backward ?b g"
    using c(3) w assms(3) \<open>str_len f + str_len g - str_len (concat as) = str_len w\<close>
    by (intro bytes_backwardI [of ?b as w z bs' g f]) simp_all
  with c(1) show ?thesis by (simp add: bytes_new_def)
qed


section \<open>Comparing with a string\<close>

lemma shorter: "p \<noteq> [] \<Longrightarrow> length (p @ q) < Suc n \<Longrightarrow> length q < n" "p \<noteq> [] \<Longrightarrow> length (q @ p) < Suc n \<Longrightarrow> length q < n"
  by (cases p; simp)+

lemma equals_forward_ok:
  "unread_forward ck b \<Longrightarrow> valid_str (u @ v) \<Longrightarrow> length b < fuel \<Longrightarrow> equals_forward fuel ck (encode (u @ v)) (str_len u) = Some (b = v)"
proof (induction fuel arbitrary: ck b u v)
  case (Suc fuel)
  show ?case
  proof (cases "b = []")
    case True
    with fwd.read_done [of ck] Suc.prems(1) show ?thesis by auto
  next
    case False
    from fwd.read_piece [OF Suc.prems(1) False] obtain p q ck' where
      p: "b = p @ q" "p \<noteq> []" "chunks_next ck = Some (Some (encode p), ck')" "unread_forward ck' q" by blast
    have valid: "valid_str p" "valid_str v" using Suc.prems(1,2) p(1) by (auto simp: unread_forward_def)
    have tail: "str_slice (encode (u @ v)) (str_len u) (str_len (u @ v)) = Some (encode v)" if "valid_str (u @ v)"
      using str_slice_middle [of u v "[]"] that by simp
    show ?thesis
    proof (cases "prefix p v")
      case True
      then obtain v' where v: "v = p @ v'" by (auto simp: prefix_def)
      have "equals_forward fuel ck' (encode ((u @ p) @ v')) (str_len (u @ p)) = Some (q = v')"
        using Suc.prems(2,3) p v by (intro Suc.IH) (auto dest: shorter)
      with p v tail [OF Suc.prems(2)] str_len_pos [OF p(2)] show ?thesis by simp
    next
      case no_prefix: False
      then have "b \<noteq> v" using p(1) by auto
      with no_prefix p(3) tail [OF Suc.prems(2)] encode_prefix [OF valid] show ?thesis by simp
    qed
  qed
qed simp

lemma equals_reversed_ok:
  "unread_backward ck b \<Longrightarrow> valid_str (v @ u) \<Longrightarrow> length b < fuel \<Longrightarrow> equals_reversed fuel ck (encode (v @ u)) (str_len v) = Some (b = v)"
proof (induction fuel arbitrary: ck b u v)
  case (Suc fuel)
  show ?case
  proof (cases "b = []")
    case True
    with bwd.read_done [of ck] Suc.prems(1) show ?thesis by auto
  next
    case False
    from bwd.read_piece [OF Suc.prems(1) False] obtain p q ck' where
      p: "b = q @ p" "p \<noteq> []" "chunks_next ck = Some (Some (encode p), ck')" "unread_backward ck' q" by blast
    have valid: "valid_str p" "valid_str v" using Suc.prems(1,2) p(1) by (auto simp: unread_backward_def)
    have head: "str_slice (encode (v @ u)) 0 (str_len v) = Some (encode v)" if "valid_str (v @ u)"
      using str_slice_middle [of "[]" v u] that by simp
    show ?thesis
    proof (cases "suffix p v")
      case True
      then obtain v' where v: "v = v' @ p" by (auto simp: suffix_def)
      have "equals_reversed fuel ck' (encode (v' @ p @ u)) (str_len v') = Some (q = v')"
        using Suc.prems(2,3) p v by (intro Suc.IH) (auto dest: shorter)
      with p v head [OF Suc.prems(2)] str_len_pos [OF p(2)] show ?thesis by (simp add: suffix_def)
    next
      case no_suffix: False
      then have "b \<noteq> v" using p(1) by (auto simp: suffix_def)
      with no_suffix p(3) head [OF Suc.prems(2)] encode_suffix [OF valid] show ?thesis by simp
    qed
  qed
qed simp

text \<open>The part of a piece \<open>p\<close> that is compared with the rest \<open>v\<close> of the pattern is as long as the shorter of the two.\<close>

lemma compared_prefix:
  assumes "b = p @ q"
  shows "\<not> boundary p (min (str_len v) (str_len p)) \<Longrightarrow> \<not> prefix v b"
    and "p = p1 @ p2 \<Longrightarrow> str_len p1 = min (str_len v) (str_len p) \<Longrightarrow> prefix p1 v \<Longrightarrow>
      \<exists>v'. v = p1 @ v' \<and> (v' = [] \<longrightarrow> prefix v b) \<and> (v' \<noteq> [] \<longrightarrow> p = p1 \<and> (prefix v b \<longleftrightarrow> prefix v' q))"
    and "p = p1 @ p2 \<Longrightarrow> str_len p1 = min (str_len v) (str_len p) \<Longrightarrow> \<not> prefix p1 v \<Longrightarrow> \<not> prefix v b"
proof -
  have split: "prefix v p \<or> (\<exists>v'. v = p @ v' \<and> v' \<noteq> [])" if "prefix v b"
    using that assms by (auto simp: prefix_def append_eq_append_conv2)
  show "\<not> prefix v b" if "\<not> boundary p (min (str_len v) (str_len p))"
  proof
    assume "prefix v b"
    from split [OF this] that show False
      using boundary_ends(2) [of p] boundary_prefix [of v] by (auto simp: prefix_def)
  qed
  show "\<exists>v'. v = p1 @ v' \<and> (v' = [] \<longrightarrow> prefix v b) \<and> (v' \<noteq> [] \<longrightarrow> p = p1 \<and> (prefix v b \<longleftrightarrow> prefix v' q))"
    if p: "p = p1 @ p2" "str_len p1 = min (str_len v) (str_len p)" "prefix p1 v"
  proof -
    from p(3) obtain v' where v: "v = p1 @ v'" by (auto simp: prefix_def)
    moreover have "p2 = []" if "v' \<noteq> []"
      using p(1,2) v str_len_pos [OF that] str_len_pos [of p2] by (cases "p2 = []") simp_all
    ultimately show ?thesis using assms p(1) by (intro exI [of _ v']) auto
  qed
  show "\<not> prefix v b" if p: "p = p1 @ p2" "str_len p1 = min (str_len v) (str_len p)" "\<not> prefix p1 v"
  proof
    assume "prefix v b"
    from split [OF this] show False
    proof
      assume "prefix v p"
      then obtain z where z: "p = v @ z" by (auto simp: prefix_def)
      then have "str_len v = str_len p1" using p(2) by simp
      with usize.measure_inj [of v z p1 p2] z p(1,3) show False by simp
    next
      assume "\<exists>v'. v = p @ v' \<and> v' \<noteq> []"
      with p(1,3) show False by (auto simp: prefix_def)
    qed
  qed
qed

lemma starts_with_ok: "unread_forward ck b \<Longrightarrow> valid_str v \<Longrightarrow> length b < fuel \<Longrightarrow> starts_with_loop fuel ck (encode v) = Some (prefix v b)"
proof (induction fuel arbitrary: ck b v)
  case (Suc fuel)
  show ?case
  proof (cases "b = []")
    case True
    with fwd.read_done [of ck] Suc.prems(1) show ?thesis by (auto simp: encode_Nil_iff)
  next
    case False
    from fwd.read_piece [OF Suc.prems(1) False] obtain p q ck' where
      p: "b = p @ q" "p \<noteq> []" "chunks_next ck = Some (Some (encode p), ck')" "unread_forward ck' q" by blast
    have valid: "valid_str p" using Suc.prems(1) p(1) by (auto simp: unread_forward_def)
    let ?n = "min (str_len v) (str_len p)"
    show ?thesis
    proof (cases "boundary p ?n")
      case no: False
      with p(3) compared_prefix(1) [OF p(1) no] show ?thesis by (simp add: str_char_boundary_correct [OF valid] Let_def)
    next
      case True
      then obtain p1 p2 where p12: "p = p1 @ p2" "str_len p1 = ?n" by (auto simp: boundary_def)
      have pre: "prefix (encode p1) (encode v) \<longleftrightarrow> prefix p1 v" using encode_prefix [of p1 v] valid Suc.prems(2) p12(1) by simp
      have n: "str_char_boundary (encode p) ?n" "take ?n (encode p) = encode p1"
        using True unfolding p12(2) [symmetric] str_char_boundary_correct [OF valid] by (simp_all add: p12(1))
      show ?thesis
      proof (cases "prefix p1 v")
        case no: False
        with compared_prefix(3) [OF p(1) p12] p(3) n pre show ?thesis by (simp add: Let_def)
      next
        case yes: True
        from compared_prefix(2) [OF p(1) p12 yes] obtain v' where v: "v = p1 @ v'" "v' = [] \<Longrightarrow> prefix v b"
          "v' \<noteq> [] \<Longrightarrow> p = p1 \<and> (prefix v b \<longleftrightarrow> prefix v' q)" by blast
        have b: "str_char_boundary (encode v) ?n" "drop ?n (encode v) = encode v'"
          using Suc.prems(2) unfolding p12(2) [symmetric] str_char_boundary_correct [OF Suc.prems(2)] by (simp_all add: v(1))
        have step: "starts_with_loop (Suc fuel) ck (encode v) = (if v' = [] then Some True else starts_with_loop fuel ck' (encode v'))"
          using p(3) n pre yes b by (simp add: Let_def encode_Nil_iff)
        have "starts_with_loop fuel ck' (encode v') = Some (prefix v' q)"
          by (rule Suc.IH [OF p(4)]) (use Suc.prems(2,3) p(1) v(1) shorter(1) [OF p(2)] in simp_all)
        with step v(2,3) show ?thesis by (cases "v' = []") simp_all
      qed
    qed
  qed
qed simp

lemma compared_suffix:
  assumes "b = q @ p" "p = p1 @ p2" "str_len p2 = min (str_len v) (str_len p)"
  shows "suffix p2 v \<Longrightarrow> \<exists>v'. v = v' @ p2 \<and> (v' = [] \<longrightarrow> suffix v b) \<and> (v' \<noteq> [] \<longrightarrow> p = p2 \<and> (suffix v b \<longleftrightarrow> suffix v' q))"
    and "\<not> suffix p2 v \<Longrightarrow> \<not> suffix v b"
proof -
  show "\<exists>v'. v = v' @ p2 \<and> (v' = [] \<longrightarrow> suffix v b) \<and> (v' \<noteq> [] \<longrightarrow> p = p2 \<and> (suffix v b \<longleftrightarrow> suffix v' q))" if "suffix p2 v"
  proof -
    from that obtain v' where v: "v = v' @ p2" by (auto simp: suffix_def)
    moreover have "p1 = []" if "v' \<noteq> []"
      using assms(2,3) v str_len_pos [OF that] str_len_pos [of p1] by (cases "p1 = []") simp_all
    ultimately show ?thesis using assms(1,2) by (intro exI [of _ v']) (auto simp: suffix_def)
  qed
  show "\<not> suffix v b" if no: "\<not> suffix p2 v"
  proof
    assume "suffix v b"
    then consider z where "p = z @ v" | v' where "v = v' @ p"
      using assms(1) by (auto simp: suffix_def append_eq_append_conv2)
    then show False
    proof cases
      case 1
      then have "str_len v = str_len p2" using assms(3) by simp
      then have "str_len z = str_len p1" using arg_cong [OF assms(2), of str_len] 1 by simp
      with usize.measure_inj [of z v p1 p2] 1 assms(2) no show False by simp
    next
      case 2
      with assms(2) no show False by (auto simp: suffix_def)
    qed
  qed
qed

lemma compared_inside:
  assumes "b = q @ p" "\<not> boundary p (str_len p - min (str_len v) (str_len p))"
  shows "\<not> suffix v b"
proof
  assume "suffix v b"
  then consider z where "p = z @ v" | v' where "v = v' @ p" using assms(1) by (auto simp: suffix_def append_eq_append_conv2)
  then show False using assms(2) boundary_ends(1) [of p] boundary_prefix by cases simp_all
qed

lemma ends_with_ok: "unread_backward ck b \<Longrightarrow> valid_str v \<Longrightarrow> length b < fuel \<Longrightarrow> ends_with_loop fuel ck (encode v) = Some (suffix v b)"
proof (induction fuel arbitrary: ck b v)
  case (Suc fuel)
  show ?case
  proof (cases "b = []")
    case True
    with bwd.read_done [of ck] Suc.prems(1) show ?thesis by (auto simp: encode_Nil_iff)
  next
    case False
    from bwd.read_piece [OF Suc.prems(1) False] obtain p q ck' where
      p: "b = q @ p" "p \<noteq> []" "chunks_next ck = Some (Some (encode p), ck')" "unread_backward ck' q" by blast
    have valid: "valid_str p" using Suc.prems(1) p(1) by (auto simp: unread_backward_def)
    let ?m = "min (str_len v) (str_len p)"
    let ?k = "str_len p - ?m"
    show ?thesis
    proof (cases "boundary p ?k")
      case no: False
      with p(3) compared_inside [OF p(1) no] show ?thesis by (simp add: str_char_boundary_correct [OF valid] Let_def)
    next
      case True
      then obtain p1 p2 where p12: "p = p1 @ p2" "str_len p1 = ?k" by (auto simp: boundary_def)
      then have p2: "str_len p2 = ?m" using arg_cong [OF p12(1), of str_len] by simp
      have pre: "suffix (encode p2) (encode v) \<longleftrightarrow> suffix p2 v" using encode_suffix [of p2 v] valid Suc.prems(2) p12(1) by simp
      have k: "str_char_boundary (encode p) ?k" "drop ?k (encode p) = encode p2"
        using True unfolding p12(2) [symmetric] str_char_boundary_correct [OF valid] by (simp_all add: p12(1))
      show ?thesis
      proof (cases "suffix p2 v")
        case no: False
        with compared_suffix(2) [OF p(1) p12(1) p2] p(3) k pre show ?thesis by (simp add: Let_def)
      next
        case yes: True
        from compared_suffix(1) [OF p(1) p12(1) p2 yes] obtain v' where v: "v = v' @ p2" "v' = [] \<Longrightarrow> suffix v b"
          "v' \<noteq> [] \<Longrightarrow> p = p2 \<and> (suffix v b \<longleftrightarrow> suffix v' q)" by blast
        have n: "str_len v - (str_len p - ?k) = str_len v'" by (simp only: p2 [symmetric]) (simp add: v(1) p12(1))
        have b: "str_char_boundary (encode v) (str_len v')" "take (str_len v') (encode v) = encode v'"
          using str_char_boundary_correct [OF Suc.prems(2)] by (simp_all add: v(1))
        have step: "ends_with_loop (Suc fuel) ck (encode v) = (if v' = [] then Some True else ends_with_loop fuel ck' (encode v'))"
          using p(3) k pre yes b n by (simp add: Let_def encode_Nil_iff)
        have "ends_with_loop fuel ck' (encode v') = Some (suffix v' q)"
          by (rule Suc.IH [OF p(4)]) (use Suc.prems(2,3) p(1) v(1) shorter(2) [OF p(2)] in simp_all)
        with step v(2,3) show ?thesis by (cases "v' = []") simp_all
      qed
    qed
  qed
qed simp

section \<open>Theorems\<close>

lemma unread_readers:
  assumes "rope_ok r (f @ g @ d)" "height r < STACK_CAPACITY"
  obtains ck ck' where "chunks_new debug r (str_len f, str_len (f @ g)) False = Some ck" "unread_forward ck g"
    "chunks_new debug r (str_len f, str_len (f @ g)) True = Some ck'" "unread_backward ck' g"
proof -
  from new_forward [OF assms, of debug] new_backward [OF assms, of debug] obtain ck ck' where
    "chunks_new debug r (str_len f, str_len (f @ g)) False = Some ck" "reads_forward ck f [] g d"
    "chunks_new debug r (str_len f, str_len (f @ g)) True = Some ck'" "reads_backward ck' f g [] d" by blast
  moreover have "valid_str g" using rope_ok_valid [OF assms(1)] by simp
  ultimately show thesis by (intro that [of ck ck']) (auto simp: unread_forward_def unread_backward_def)
qed

lemma reader_reversed: "chunks_new debug r rng b = Some ck \<Longrightarrow> ck_reversed ck = b"
  by (cases rng) (auto simp: chunks_new_def Let_def split: option.splits Option.bind_splits)

text \<open>C35. Iterating over the chunks of a range of a rope ends, after one call of \<open>next\<close> for each piece and a last one that returns
  \<open>None\<close>, and returns the text of the range, cut into non-empty pieces that do not split a character, whatever the range cuts off at
  its ends: forward in order, reversed from the last piece to the first. \<open>ChunkWithBitmaps\<close> returns the same, in both directions,
  with bitmaps whose bits say where characters, tabs and line feeds are in the piece, and \<open>Bytes\<close> the same as slices of bytes, when the
  range is not empty. Writing a rope out writes its text. None of this panics.\<close>

theorem chunks_iterate:
  assumes "rope_ok r (f @ g @ d)" "height r < STACK_CAPACITY" "length g < fuel"
  shows "(\<exists>ck ps. chunks_new debug r (str_len f, str_len (f @ g)) False = Some ck \<and> collect chunks_next fuel ck = Some (map encode ps) \<and>
      [] \<notin> set ps \<and> concat ps = g) \<and>
    (\<exists>ck ps. chunks_new debug r (str_len f, str_len (f @ g)) True = Some ck \<and> collect chunks_next fuel ck = Some (map encode ps) \<and>
      [] \<notin> set ps \<and> concat (rev ps) = g) \<and>
    (\<exists>ck ps cbs. chunks_new debug r (str_len f, str_len (f @ g)) False = Some ck \<and> collect bitmaps_next fuel ck = Some cbs \<and>
      [] \<notin> set ps \<and> list_all2 describes cbs (map encode ps) \<and> concat ps = g) \<and>
    (\<exists>ck ps cbs. chunks_new debug r (str_len f, str_len (f @ g)) True = Some ck \<and> collect bitmaps_next fuel ck = Some cbs \<and>
      [] \<notin> set ps \<and> list_all2 describes cbs (map encode ps) \<and> concat (rev ps) = g) \<and>
    (g \<noteq> [] \<longrightarrow>
      (\<exists>b ps. bytes_new r (str_len f, str_len (f @ g)) False = Some b \<and> collect bytes_next fuel b = Some (map encode ps) \<and>
        [] \<notin> set ps \<and> concat ps = g) \<and>
      (\<exists>b ps. bytes_new r (str_len f, str_len (f @ g)) True = Some b \<and> collect bytes_next fuel b = Some (map encode ps) \<and>
        [] \<notin> set ps \<and> concat (rev ps) = g)) \<and>
    (length (f @ g @ d) < fuel \<longrightarrow> rope_display fuel debug r = Some (encode (f @ g @ d)))"
proof -
  from unread_readers [OF assms(1,2), of debug] obtain ck ck' where
    ck: "chunks_new debug r (str_len f, str_len (f @ g)) False = Some ck" "unread_forward ck g"
      "chunks_new debug r (str_len f, str_len (f @ g)) True = Some ck'" "unread_backward ck' g" .
  have eq: "list_all2 (\<lambda>s p. s = encode p) ys ps \<longleftrightarrow> ys = map encode ps" for ys ps
    by (auto simp: list_all2_conv_all_nth list_eq_iff_nth_eq)
  have "rope_display fuel debug r = Some (encode (f @ g @ d))" if "length (f @ g @ d) < fuel"
  proof -
    have "rope_ok r ([] @ (f @ g @ d) @ [])" using assms(1) by simp
    from unread_readers [OF this assms(2), of debug] obtain ck where
      "chunks_new debug r (str_len [], str_len ([] @ (f @ g @ d))) False = Some ck" "unread_forward ck (f @ g @ d)" .
    moreover from fwd.collect_all [OF this(2) that] obtain ps where
      "collect chunks_next fuel ck = Some (map encode ps)" "concat ps = f @ g @ d" by (auto simp: eq glue_all)
    moreover have "rope_len r = str_len (f @ g @ d)" using assms(1) by (auto simp: rope_ok_def rope_len_holds)
    moreover have "concat (map encode ps) = encode (concat ps)" for ps :: "rchar list list" by (induction ps) simp_all
    ultimately show ?thesis by (simp add: rope_display_def del: encode_simps)
  qed
  moreover have "\<exists>b ps. bytes_new r (str_len f, str_len (f @ g)) False = Some b \<and> collect bytes_next fuel b = Some (map encode ps) \<and>
      [] \<notin> set ps \<and> concat ps = g" if "g \<noteq> []"
    using new_bytes_forward [OF assms(1,2) that] fwd_bytes.collect_all [OF _ assms(3)] by (fastforce simp: eq glue_all)
  moreover have "\<exists>b ps. bytes_new r (str_len f, str_len (f @ g)) True = Some b \<and> collect bytes_next fuel b = Some (map encode ps) \<and>
      [] \<notin> set ps \<and> concat (rev ps) = g" if "g \<noteq> []"
    using new_bytes_backward [OF assms(1,2) that] bwd_bytes.collect_all [OF _ assms(3)] by (fastforce simp: eq glue_all)
  moreover have "\<exists>ps cbs. collect bitmaps_next fuel ck = Some cbs \<and> [] \<notin> set ps \<and> list_all2 describes cbs (map encode ps) \<and> concat ps = g"
    using fwd_bitmaps.collect_all [OF ck(2) assms(3)] by (fastforce simp: glue_all list.rel_map)
  moreover have "\<exists>ps cbs. collect bitmaps_next fuel ck' = Some cbs \<and> [] \<notin> set ps \<and> list_all2 describes cbs (map encode ps) \<and> concat (rev ps) = g"
    using bwd_bitmaps.collect_all [OF ck(4) assms(3)] by (fastforce simp: glue_all list.rel_map)
  moreover have "\<exists>ps. collect chunks_next fuel ck = Some (map encode ps) \<and> [] \<notin> set ps \<and> concat ps = g"
    using fwd.collect_all [OF ck(2) assms(3)] by (fastforce simp: eq glue_all)
  moreover have "\<exists>ps. collect chunks_next fuel ck' = Some (map encode ps) \<and> [] \<notin> set ps \<and> concat (rev ps) = g"
    using bwd.collect_all [OF ck(4) assms(3)] by (fastforce simp: eq glue_all)
  ultimately show ?thesis by (simp add: ck(1,3) del: encode_simps str_len_simps)
qed

theorem chunks_iterate_witness:
  "rope_display 4 True (one_chunk sample_text) = Some (encode sample_text) \<and>
   (\<exists>b ps. bytes_new (one_chunk sample_text) (str_len [104], str_len ([104] @ [10])) True = Some b \<and>
     collect bytes_next 4 b = Some (map encode ps) \<and> [] \<notin> set ps \<and> concat (rev ps) = [10])"
  using chunks_iterate [of "one_chunk sample_text" "[]" sample_text "[]" 4 True]
    chunks_iterate [of "one_chunk sample_text" "[104]" "[10]" "[0x1F600]" 4 True] sample_rope by (simp del: encode_simps str_len_simps)

text \<open>C36. Comparing a rope with a string chunk by chunk is comparing their texts: \<open>equals_str\<close> of an iterator in either direction decides
  whether its text is the string, \<open>starts_with\<close> and \<open>ends_with\<close> whether the rope has it as a prefix or suffix, also where the end
  of the string falls inside a chunk or inside a character.\<close>

theorem rope_compare_correct:
  assumes "rope_ok r (f @ g @ d)" "height r < STACK_CAPACITY" "valid_str t" "length (f @ g @ d) < fuel"
  shows "(\<exists>ck. chunks_new debug r (str_len f, str_len (f @ g)) False = Some ck \<and> equals_str fuel ck (encode t) = Some (g = t)) \<and>
    (\<exists>ck. chunks_new debug r (str_len f, str_len (f @ g)) True = Some ck \<and> equals_str fuel ck (encode t) = Some (g = t)) \<and>
    starts_with fuel debug r (encode t) = Some (prefix t (f @ g @ d)) \<and> ends_with fuel debug r (encode t) = Some (suffix t (f @ g @ d))"
proof -
  from unread_readers [OF assms(1,2), of debug] obtain ck ck' where
    ck: "chunks_new debug r (str_len f, str_len (f @ g)) False = Some ck" "unread_forward ck g"
      "chunks_new debug r (str_len f, str_len (f @ g)) True = Some ck'" "unread_backward ck' g" .
  have eq: "equals_str fuel ck (encode t) = Some (g = t)" "equals_str fuel ck' (encode t) = Some (g = t)"
    using equals_forward_ok [OF ck(2), of "[]" t fuel] equals_reversed_ok [OF ck(4), of t "[]" fuel] assms(3,4)
      reader_reversed [OF ck(1)] reader_reversed [OF ck(3)] by (simp_all add: equals_str_def)
  have "rope_ok r ([] @ (f @ g @ d) @ [])" using assms(1) by simp
  from unread_readers [OF this assms(2), of debug] obtain whole whole' where
    whole: "chunks_new debug r (str_len [], str_len ([] @ (f @ g @ d))) False = Some whole" "unread_forward whole (f @ g @ d)"
      "chunks_new debug r (str_len [], str_len ([] @ (f @ g @ d))) True = Some whole'" "unread_backward whole' (f @ g @ d)" .
  have len: "rope_len r = str_len (f @ g @ d)" using assms(1) by (auto simp: rope_ok_def rope_len_holds)
  have "str_len t \<le> str_len (f @ g @ d)" if "prefix t (f @ g @ d) \<or> suffix t (f @ g @ d)"
    using that by (metis prefix_def suffix_def str_len_simps(3) le_add1 le_add2)
  with len whole starts_with_ok [OF whole(2) assms(3,4)] ends_with_ok [OF whole(4) assms(3,4)]
  have "starts_with fuel debug r (encode t) = Some (prefix t (f @ g @ d))" "ends_with fuel debug r (encode t) = Some (suffix t (f @ g @ d))"
    by (auto simp: starts_with_def ends_with_def)
  with ck eq show ?thesis by blast
qed

theorem rope_compare_correct_witness:
  "starts_with 4 True (one_chunk sample_text) (encode [104, 10]) = Some True \<and> ends_with 4 True (one_chunk sample_text) (encode [104]) = Some False"
proof -
  have "valid_str [104, 10]" "valid_str [104]" by (simp_all add: valid_str_def valid_char_def)
  with rope_compare_correct [of "one_chunk sample_text" "[]" sample_text "[]" "[104, 10]" 4 True]
    rope_compare_correct [of "one_chunk sample_text" "[]" sample_text "[]" "[104]" 4 True] sample_rope
  show ?thesis by (simp add: suffix_def)
qed

end
