(* ===== verification/RopeLines_Correct.thy ===== *)
theory RopeLines_Correct
  imports RopeChunks_Correct
begin

text \<open>
  Lines of a rope: seeking with an iterator over chunks, \<open>Lines\<close> in both directions, \<open>next_line\<close> and \<open>prev_line\<close>.
\<close>

section \<open>Seeking\<close>

text \<open>Wherever the cursor was, it is moved to where a seek from the start of the tree would stop.\<close>

lemma stands_seek:
  assumes "usize.stands c as bs"
  obtains c' found as' bs' where "cursor_seek usize_dim (ord_cmp n) bias c = Some (c', found)" "usize.stands c' as' bs'"
    "as' @ bs' = as @ bs" "usize.cut (ord_cmp n) bias [] as' bs'"
proof -
  have "is_ge (ord_cmp n (str_len []))" by (simp add: is_ge_def ord_cmp_def)
  moreover have "holds (c_tree c) (as @ bs)" "height (c_tree c) < STACK_CAPACITY" using assms by (simp_all add: usize.stands_def)
  ultimately obtain c' found as' bs' where "cursor_seek usize_dim (ord_cmp n) bias c = Some (c', found)"
    "as @ bs = as' @ bs'" "usize.stands c' as' bs'" "usize.cut (ord_cmp n) bias [] as' bs'"
    by (metis usize.seek_text usize.falling_ord)
  then show thesis by (intro that) simp_all
qed

lemma stands_seek_forward:
  assumes "usize.stands c as bs" "str_len (concat as) \<le> n"
  obtains c' found as' bs' where "cursor_seek_forward usize_dim (ord_cmp n) bias c = Some (c', found)" "usize.stands c' (as @ as') bs'"
    "bs = as' @ bs'" "usize.cut (ord_cmp n) bias (concat as) as' bs'"
proof -
  have "is_ge (ord_cmp n (str_len (concat as)))" using assms(2) by (simp add: is_ge_def ord_cmp_def)
  from usize.forward_text [OF assms(1) usize.falling_ord this, of bias] obtain as' bs' where
    f: "bs = as' @ bs'" "usize.cut (ord_cmp n) bias (concat as) as' bs'"
      "\<exists>c' found. cursor_seek_forward usize_dim (ord_cmp n) bias c = Some (c', found) \<and> c_tree c' = c_tree c \<and> usize.stands c' (as @ as') bs'" .
  from f(3) obtain c' found where "cursor_seek_forward usize_dim (ord_cmp n) bias c = Some (c', found)" "usize.stands c' (as @ as') bs'"
    by (elim exE conjE) (rule that)
  with f(1,2) show thesis by (intro that)
qed

lemma reposition_right:
  assumes "usize.stands c as bs"
  obtains c' us us' bs' where "reposition False c n = Some c'" "usize.stands c' (us @ us') bs'" "us @ us' @ bs' = as @ bs"
    "str_len (concat us) \<le> n" "usize.cut (ord_cmp n) Right (concat us) us' bs'"
proof -
  note reads = usize.stands_reads [OF assms]
  let ?stop = "str_len (concat as @ (case bs of [] \<Rightarrow> [] | s # _ \<Rightarrow> s))"
  have start: "str_len (concat as) \<le> ?stop" by simp
  consider (later) "n \<ge> ?stop" | (earlier) "n < str_len (concat as)" | (same) "str_len (concat as) \<le> n" "n < ?stop" by linarith
  then show thesis
  proof cases
    case later
    then have "str_len (concat as) \<le> n" using start by linarith
    from stands_seek_forward [OF assms this, of Right] obtain c' found as' bs' where
      "cursor_seek_forward usize_dim (ord_cmp n) Right c = Some (c', found)" "usize.stands c' (as @ as') bs'" "bs = as' @ bs'"
      "usize.cut (ord_cmp n) Right (concat as) as' bs'" .
    with later reads \<open>str_len (concat as) \<le> n\<close> show thesis by (intro that [of c' as as' bs']) (simp_all add: reposition_def)
  next
    case earlier
    from stands_seek [OF assms, of n Right] obtain c' found as' bs' where "cursor_seek usize_dim (ord_cmp n) Right c = Some (c', found)"
      "usize.stands c' as' bs'" "as' @ bs' = as @ bs" "usize.cut (ord_cmp n) Right [] as' bs'" .
    moreover have "\<not> ?stop \<le> n" using earlier start by linarith
    ultimately show thesis using earlier reads by (intro that [of c' "[]" as' bs']) (simp_all add: reposition_def)
  next
    case same
    then obtain s bs' where "bs = s # bs'" by (cases bs) auto
    with same have "usize.cut (ord_cmp n) Right (concat as) [] bs" by (auto simp: usize.cut_def past_end_def ord_cmp_def)
    with same assms reads show thesis by (intro that [of c as "[]" bs]) (simp_all add: reposition_def)
  qed
qed

lemma reposition_left:
  assumes "usize.stands c as bs"
  obtains c' us us' bs' where "reposition True c n = Some c'" "usize.stands c' (us @ us') bs'" "us @ us' @ bs' = as @ bs"
    "us = [] \<or> str_len (concat us) < n" "usize.cut (ord_cmp n) Left (concat us) us' bs'"
proof -
  note reads = usize.stands_reads [OF assms]
  let ?stop = "str_len (concat as @ (case bs of [] \<Rightarrow> [] | s # _ \<Rightarrow> s))"
  have start: "str_len (concat as) \<le> ?stop" by simp
  consider (later) "n > ?stop" | (earlier) "n \<le> str_len (concat as)" | (same) "str_len (concat as) < n" "n \<le> ?stop" by linarith
  then show thesis
  proof cases
    case later
    then have lt: "str_len (concat as) < n" using start by linarith
    from stands_seek_forward [OF assms less_imp_le [OF lt], of Left] obtain c' found as' bs' where
      "cursor_seek_forward usize_dim (ord_cmp n) Left c = Some (c', found)" "usize.stands c' (as @ as') bs'" "bs = as' @ bs'"
      "usize.cut (ord_cmp n) Left (concat as) as' bs'" .
    with later reads lt show thesis by (intro that [of c' as as' bs']) (simp_all add: reposition_def)
  next
    case earlier
    from stands_seek [OF assms, of n Left] obtain c' found as' bs' where "cursor_seek usize_dim (ord_cmp n) Left c = Some (c', found)"
      "usize.stands c' as' bs'" "as' @ bs' = as @ bs" "usize.cut (ord_cmp n) Left [] as' bs'" .
    moreover have "\<not> ?stop < n" using earlier start by linarith
    ultimately show thesis using earlier reads by (intro that [of c' "[]" as' bs']) (simp_all add: reposition_def)
  next
    case same
    then obtain s bs' where "bs = s # bs'" by (cases bs) auto
    with same have "usize.cut (ord_cmp n) Left (concat as) [] bs" by (auto simp: usize.cut_def past_end_def ord_cmp_def)
    with same assms reads show thesis by (intro that [of c as "[]" bs]) (simp_all add: reposition_def)
  qed
qed

lemma seek_forward_reads:
  assumes "reads_forward ck f x b d" "x @ b = y @ e" "max (ck_first ck) (min k (ck_last ck)) = str_len (f @ y)"
  shows "\<exists>ck'. chunks_seek ck k = Some ck' \<and> reads_forward ck' f y e d"
proof -
  from assms(1) obtain as bs w z where st: "usize.stands (ck_chunks ck) as bs" "between as bs (f @ x) (b @ d) w z"
    and ck: "ck_first ck = str_len f" "ck_last ck = str_len f + str_len x + str_len b" "\<not> ck_reversed ck" by (auto simp: reads_forward_def)
  from reposition_right [OF st(1), of "str_len (f @ y)"] obtain c us us' bs' where
    c: "reposition False (ck_chunks ck) (str_len (f @ y)) = Some c" "usize.stands c (us @ us') bs'" "us @ us' @ bs' = as @ bs"
      "str_len (concat us) \<le> str_len (f @ y)" "usize.cut (ord_cmp (str_len (f @ y))) Right (concat us) us' bs'" .
  have "concat (as @ bs) = f @ (y @ e) @ d" using between_concat [OF st(2)] assms(2) by simp
  then have eq: "concat ((us @ us') @ bs') = (f @ y) @ e @ d" using c(3) by simp
  obtain w' z' where w: "between (us @ us') bs' (f @ y) (e @ d) w' z'" "bs' \<noteq> [] \<Longrightarrow> z' \<noteq> []"
    by (rule between_cut [OF eq c(4) refl c(5)]) (rule that, assumption, simp)
  have "chunks_seek ck k = Some (ck\<lparr>ck_chunks := c, ck_offset := str_len (f @ y)\<rparr>)"
    using c(1) ck assms(3) by (simp add: chunks_seek_def)
  moreover have "reads_forward (ck\<lparr>ck_chunks := c, ck_offset := str_len (f @ y)\<rparr>) f y e d"
  proof (rule reads_forwardI)
    show "z' \<noteq> []" if "e \<noteq> []" using that w by (cases bs') (auto simp: between_def)
  qed (use c(2) w(1) ck arg_cong [OF assms(2), of str_len] in simp_all)
  ultimately show ?thesis by blast
qed

lemma seek_backward_reads:
  assumes "reads_backward ck f b x d" "b \<noteq> []" "b @ x = y @ e" "max (ck_first ck) (min k (ck_last ck)) = str_len (f @ y)"
  shows "\<exists>ck'. chunks_seek ck k = Some ck' \<and> reads_backward ck' f y e d"
proof -
  from assms(1,2) obtain as bs w z where st: "usize.stands (ck_chunks ck) as ((w @ z) # bs)" "f @ b = concat as @ w" "x @ d = z @ concat bs"
    and ck: "ck_first ck = str_len f" "ck_last ck = str_len f + str_len b + str_len x" "ck_reversed ck" by (auto simp: reads_backward_def)
  from reposition_left [OF st(1), of "str_len (f @ y)"] obtain c us us' bs' where
    c: "reposition True (ck_chunks ck) (str_len (f @ y)) = Some c" "usize.stands c (us @ us') bs'" "us @ us' @ bs' = as @ (w @ z) # bs"
      "us = [] \<or> str_len (concat us) < str_len (f @ y)" "usize.cut (ord_cmp (str_len (f @ y))) Left (concat us) us' bs'" .
  have "concat (as @ (w @ z) # bs) = f @ b @ x @ d" using st(2,3) by (simp flip: append_assoc)
  then have eq: "concat ((us @ us') @ bs') = (f @ y) @ e @ d"
    unfolding append_assoc c(3) [symmetric] using arg_cong [OF assms(3), of "\<lambda>l. f @ l @ d"] by simp
  let ?ck = "ck\<lparr>ck_chunks := c, ck_offset := str_len f + str_len y\<rparr>"
  have "chunks_seek ck k = Some ?ck" using c(1) ck assms(4) by (simp add: chunks_seek_def)
  moreover have "reads_backward ?ck f y e d"
  proof (cases "y = []")
    case True
    with ck assms(3) show ?thesis by (simp add: reads_backward_def flip: str_len_simps)
  next
    case False
    then have "str_len (concat us) < str_len (f @ y)" using c(4) str_len_pos [OF False] by auto
    from left_cut [OF eq c(5) refl this] obtain w' z' bs'' where
      "bs' = (w' @ z') # bs''" "f @ y = concat (us @ us') @ w'" "e @ d = z' @ concat bs''" "w' \<noteq> []" .
    with c(2) ck arg_cong [OF assms(3), of str_len] show ?thesis
      by (intro reads_backwardI [of _ "us @ us'" w' z' bs'']) simp_all
  qed
  ultimately show ?thesis by blast
qed

section \<open>Lines\<close>

lemma encode_char_newline: "valid_char c \<Longrightarrow> (10 \<in> set (encode_char c)) = (c = 10)"
proof -
  assume "valid_char c"
  then have "map (\<lambda>b. b = 10) (encode_char c) = start_mark (c = 10) c" by (rule encode_char_marks)
  then have "True \<in> set (map (\<lambda>b. b = 10) (encode_char c)) \<longleftrightarrow> c = 10"
    using len_utf8_pos(1) [of c] by (auto simp: start_mark_def)
  then show ?thesis by force
qed

lemma split_newlines_ne [simp]: "split_newlines bs \<noteq> []"
  by (induction bs) simp_all

lemma split_newlines_plain:
  "10 \<notin> set cs \<Longrightarrow> split_newlines (cs @ bs) = (cs @ hd (split_newlines bs)) # tl (split_newlines bs)"
  by (induction cs) simp_all

lemma split_newlines_encode: "valid_str s \<Longrightarrow> split_newlines (encode s) = map encode (split_lines s)"
proof (induction s)
  case (Cons c s)
  have valid: "valid_char c" "valid_str s" using Cons.prems by (simp_all add: valid_str_def)
  show ?case
  proof (cases "c = 10")
    case True
    then show ?thesis using Cons.IH [OF valid(2)] by (simp add: encode_char_def NEWLINE_def)
  next
    case False
    then have "10 \<notin> set (encode_char c)" using encode_char_newline [OF valid(1)] by simp
    then show ?thesis
      using Cons.IH [OF valid(2)] False split_lines_ne [of s] by (simp add: split_newlines_plain NEWLINE_def hd_map map_tl)
  qed
qed simp

lemma split_lines_plain: "10 \<notin> set s \<Longrightarrow> split_lines s = [s]"
  by (induction s) (auto simp: NEWLINE_def)

lemma split_lines_first: "10 \<notin> set l \<Longrightarrow> split_lines (l @ 10 # r) = l # split_lines r"
  by (induction l) (auto simp: NEWLINE_def)

lemma split_lines_last: "10 \<notin> set l \<Longrightarrow> split_lines (r @ 10 # l) = split_lines r @ [l]"
proof -
  assume "10 \<notin> set l"
  then have "split_lines (10 # l) = [[], l]" by (simp add: split_lines_plain NEWLINE_def)
  then show ?thesis using split_lines_append [of r "10 # l"] split_lines_ne [of r] by simp
qed

text \<open>What the loop of \<open>next\<close> does: it gathers pieces until one has a line feed, or the range is read.\<close>

definition forward_line :: "rchar list \<Rightarrow> rchar list \<Rightarrow> rchar list \<Rightarrow> rchar list \<Rightarrow> rchar list \<Rightarrow> bool \<Rightarrow> (u8 list \<times> rope_lines) option \<Rightarrow> bool" where
  "forward_line f x b d c was_done res \<longleftrightarrow> (\<exists>li l r. \<not> li_reversed li \<and> res = Some (encode (c @ l), li) \<and> 10 \<notin> set l \<and>
     (b = l \<and> li_done li \<or> b = l @ 10 # r \<and> li_done li = was_done \<and> reads_forward (li_chunks li) f (x @ l @ [10]) r d))"

definition backward_line :: "rchar list \<Rightarrow> rchar list \<Rightarrow> rchar list \<Rightarrow> rchar list \<Rightarrow> bool \<Rightarrow> (u8 list \<times> rope_lines) option \<Rightarrow> bool" where
  "backward_line f b d c was_done res \<longleftrightarrow> (\<exists>li l r x. li_reversed li \<and> res = Some (encode (l @ c), li) \<and> 10 \<notin> set l \<and>
     (b = l \<and> li_done li \<or> b = r @ 10 # l \<and> li_done li = was_done \<and> reads_backward (li_chunks li) f r x d))"

lemma forward_line_more:
  assumes "forward_line f (x @ p) q d (c @ p) was_done res" "10 \<notin> set p"
  shows "forward_line f x (p @ q) d c was_done res"
proof -
  from assms(1) obtain li l r where l: "\<not> li_reversed li" "res = Some (encode ((c @ p) @ l), li)" "10 \<notin> set l"
    "q = l \<and> li_done li \<or> q = l @ 10 # r \<and> li_done li = was_done \<and> reads_forward (li_chunks li) f ((x @ p) @ l @ [10]) r d"
    unfolding forward_line_def by (elim exE conjE) (rule that)
  with assms(2) show ?thesis unfolding forward_line_def by (intro exI [of _ li] exI [of _ "p @ l"] exI [of _ r]) auto
qed

lemma backward_line_more:
  assumes "backward_line f q d (p @ c) was_done res" "10 \<notin> set p"
  shows "backward_line f (q @ p) d c was_done res"
proof -
  from assms(1) obtain li l r x where l: "li_reversed li" "res = Some (encode (l @ p @ c), li)" "10 \<notin> set l"
    "q = l \<and> li_done li \<or> q = r @ 10 # l \<and> li_done li = was_done \<and> reads_backward (li_chunks li) f r x d"
    unfolding backward_line_def by (elim exE conjE) (rule that)
  with assms(2) show ?thesis unfolding backward_line_def by (intro exI [of _ li] exI [of _ "l @ p"] exI [of _ r] exI [of _ x]) auto
qed

lemma lines_forward:
  "reads_forward (li_chunks li) f x b d \<Longrightarrow> valid_str b \<Longrightarrow> \<not> li_reversed li \<Longrightarrow> li_current_line li = encode c \<Longrightarrow> length b < fuel \<Longrightarrow>
   forward_line f x b d c (li_done li) (rope_lines_loop fuel li)"
proof (induction fuel arbitrary: li x b c)
  case (Suc fuel)
  show ?case
  proof (cases "b = []")
    case True
    with forward_done Suc.prems(1,3,4) show ?thesis
      unfolding forward_line_def by (intro exI [of _ "li\<lparr>li_done := True\<rparr>"] exI [of _ "[]"]) simp
  next
    case False
    from forward_next [OF Suc.prems(1) False] obtain p q ck' where p: "b = p @ q" "p \<noteq> []" "chunks_peek (li_chunks li) = Some (Some (encode p))"
      "chunks_next (li_chunks li) = Some (Some (encode p), ck')" "reads_forward ck' f (x @ p) q d" .
    have split: "split_newlines (encode p) = map encode (split_lines p)" using Suc.prems(2) p(1) by (simp add: split_newlines_encode)
    show ?thesis
    proof (cases "10 \<in> set p")
      case no: False
      let ?li = "li\<lparr>li_chunks := ck', li_current_line := encode (c @ p)\<rparr>"
      have step: "rope_lines_loop (Suc fuel) li = rope_lines_loop fuel ?li"
        using p(3,4) split split_lines_plain [OF no] Suc.prems(3,4) by simp
      have "length q < fuel" using Suc.prems(5) p(1) shorter(1) [OF p(2)] by simp
      then have "forward_line f (x @ p) q d (c @ p) (li_done ?li) (rope_lines_loop fuel ?li)"
        using Suc.prems(2,3) p(1,5) by (intro Suc.IH) simp_all
      with no show ?thesis unfolding step p(1) by (intro forward_line_more) simp_all
    next
      case yes: True
      then obtain l r where l: "p = l @ 10 # r" "10 \<notin> set l" by (meson split_list_first)
      have parts: "split_newlines (encode p) = encode l # map encode (split_lines r)" using split split_lines_first [OF l(2), of r] l(1) by simp
      let ?ck = "li_chunks li"
      have ck: "ck_offset ?ck = str_len (f @ x)" "ck_first ?ck = str_len f" "ck_last ?ck = str_len (f @ x @ b)"
        using Suc.prems(1) by (simp_all add: reads_forward_def)
      have "max (ck_first ?ck) (min (ck_offset ?ck + str_len l + 1) (ck_last ?ck)) = str_len (f @ x @ l @ [10])"
        using ck p(1) l(1) by (simp add: len_utf8_def)
      from seek_forward_reads [OF Suc.prems(1) _ this, of "r @ q"] p(1) l(1) obtain ck'' where
        ck'': "chunks_seek ?ck (ck_offset ?ck + str_len l + 1) = Some ck''" "reads_forward ck'' f (x @ l @ [10]) (r @ q) d" by auto
      have "\<exists>li'. rope_lines_loop (Suc fuel) li = Some (encode (c @ l), li') \<and> li_done li' = li_done li \<and> \<not> li_reversed li' \<and> li_chunks li' = ck''"
        using p(3) parts Suc.prems(3,4) ck''(1) split_lines_ne [of r] by (cases "c = []") (simp_all add: Let_def encode_Nil_iff)
      then obtain li' where "rope_lines_loop (Suc fuel) li = Some (encode (c @ l), li')" "li_done li' = li_done li" "\<not> li_reversed li'"
        "li_chunks li' = ck''" by blast
      with ck''(2) p(1) l show ?thesis unfolding forward_line_def
        by (intro exI [of _ li'] exI [of _ l] exI [of _ "r @ q"]) (simp del: rope_lines_loop.simps)
    qed
  qed
qed simp

lemma lines_backward:
  "reads_backward (li_chunks li) f b x d \<Longrightarrow> valid_str b \<Longrightarrow> li_reversed li \<Longrightarrow> li_current_line li = encode c \<Longrightarrow> length b < fuel \<Longrightarrow>
   backward_line f b d c (li_done li) (rope_lines_loop fuel li)"
proof (induction fuel arbitrary: li x b c)
  case (Suc fuel)
  show ?case
  proof (cases "b = []")
    case True
    with backward_done Suc.prems(1,3,4) show ?thesis
      unfolding backward_line_def by (intro exI [of _ "li\<lparr>li_done := True\<rparr>"] exI [of _ "[]"]) simp
  next
    case False
    from backward_next [OF Suc.prems(1) False] obtain p q ck' where p: "b = q @ p" "p \<noteq> []" "chunks_peek (li_chunks li) = Some (Some (encode p))"
      "chunks_next (li_chunks li) = Some (Some (encode p), ck')" "reads_backward ck' f q (p @ x) d" .
    have split: "split_newlines (encode p) = map encode (split_lines p)" using Suc.prems(2) p(1) by (simp add: split_newlines_encode)
    show ?thesis
    proof (cases "10 \<in> set p")
      case no: False
      let ?li = "li\<lparr>li_chunks := ck', li_current_line := encode (p @ c)\<rparr>"
      have step: "rope_lines_loop (Suc fuel) li = rope_lines_loop fuel ?li"
        using p(3,4) split split_lines_plain [OF no] Suc.prems(3,4) by simp
      have "length q < fuel" using Suc.prems(5) p(1) shorter(2) [OF p(2)] by simp
      then have "backward_line f q d (p @ c) (li_done ?li) (rope_lines_loop fuel ?li)"
        using Suc.prems(2,3) p(1,5) by (intro Suc.IH) simp_all
      with no show ?thesis unfolding step p(1) by (intro backward_line_more) simp_all
    next
      case yes: True
      then obtain l r where l: "p = r @ 10 # l" "10 \<notin> set l" by (meson split_list_last)
      have parts: "split_newlines (encode p) = map encode (split_lines r) @ [encode l]" using split split_lines_last [OF l(2), of r] l(1) by simp
      let ?ck = "li_chunks li"
      have ck: "ck_offset ?ck = str_len (f @ b)" "ck_first ?ck = str_len f" "ck_last ?ck = str_len (f @ b @ x)"
        using Suc.prems(1) by (simp_all add: reads_backward_def)
      have t: "checked_sub (ck_offset ?ck) (str_len l + 1) = Some (str_len (f @ q @ r))" using ck p(1) l(1) by (simp add: len_utf8_def)
      have "max (ck_first ?ck) (min (str_len (f @ q @ r)) (ck_last ?ck)) = str_len (f @ q @ r)" using ck p(1) l(1) by simp
      from seek_backward_reads [OF Suc.prems(1) False _ this, of "10 # l @ x"] p(1) l(1) obtain ck'' where
        ck'': "chunks_seek ?ck (str_len (f @ q @ r)) = Some ck''" "reads_backward ck'' f (q @ r) (10 # l @ x) d" by auto
      have "\<exists>li'. rope_lines_loop (Suc fuel) li = Some (encode (l @ c), li') \<and> li_done li' = li_done li \<and> li_reversed li' \<and> li_chunks li' = ck''"
        using p(3) parts Suc.prems(3,4) t ck''(1) split_lines_ne [of r] by (cases "c = []") (simp_all add: Let_def encode_Nil_iff)
      then obtain li' where "rope_lines_loop (Suc fuel) li = Some (encode (l @ c), li')" "li_done li' = li_done li" "li_reversed li'"
        "li_chunks li' = ck''" by blast
      with ck''(2) p(1) l show ?thesis unfolding backward_line_def
        by (intro exI [of _ li'] exI [of _ l] exI [of _ "q @ r"] exI [of _ "10 # l @ x"]) (simp del: rope_lines_loop.simps)
    qed
  qed
qed simp

text \<open>A line iterator hands out the lines that are left, one at a time: it is a \<open>piece_reader\<close> whose elements are lines.\<close>

definition pending_forward :: "nat \<Rightarrow> rope_lines \<Rightarrow> rchar list list \<Rightarrow> bool" where
  "pending_forward fuel li ls \<longleftrightarrow> \<not> li_reversed li \<and> li_done li = (ls = []) \<and>
     (ls \<noteq> [] \<longrightarrow> (\<exists>f x b d. reads_forward (li_chunks li) f x b d \<and> valid_str b \<and> length b < fuel \<and> ls = split_lines b))"

definition pending_backward :: "nat \<Rightarrow> rope_lines \<Rightarrow> rchar list list \<Rightarrow> bool" where
  "pending_backward fuel li ls \<longleftrightarrow> li_reversed li \<and> li_done li = (ls = []) \<and>
     (ls \<noteq> [] \<longrightarrow> (\<exists>f x b d. reads_backward (li_chunks li) f b x d \<and> valid_str b \<and> length b < fuel \<and> ls = split_lines b))"

lemma pending_forward_next:
  assumes "pending_forward fuel li ls" "ls \<noteq> []"
  shows "\<exists>li'. lines_next fuel li = Some (Some (encode (hd ls)), li') \<and> pending_forward fuel li' (tl ls)"
proof -
  from assms obtain f x b d where b: "reads_forward (li_chunks li) f x b d" "valid_str b" "length b < fuel" "ls = split_lines b"
    "\<not> li_done li" "\<not> li_reversed li" by (auto simp: pending_forward_def)
  have "forward_line f x b d [] (li_done (li\<lparr>li_current_line := []\<rparr>)) (rope_lines_loop fuel (li\<lparr>li_current_line := []\<rparr>))"
    using b by (intro lines_forward) simp_all
  then obtain li' l r where l: "\<not> li_reversed li'" "rope_lines_loop fuel (li\<lparr>li_current_line := []\<rparr>) = Some (encode l, li')" "10 \<notin> set l"
    "b = l \<and> li_done li' \<or> b = l @ 10 # r \<and> \<not> li_done li' \<and> reads_forward (li_chunks li') f (x @ l @ [10]) r d"
    using b(5) by (auto simp: forward_line_def)
  from l(4) show ?thesis
  proof (elim disjE conjE)
    assume "b = l" "li_done li'"
    with l(1-3) b(4-6) show ?thesis by (simp add: lines_next_def pending_forward_def split_lines_plain)
  next
    assume r: "b = l @ 10 # r" "\<not> li_done li'" "reads_forward (li_chunks li') f (x @ l @ [10]) r d"
    moreover from r(1) b(2,3) have "valid_str r" "length r < fuel" by (simp_all add: valid_str_def)
    ultimately have "pending_forward fuel li' (split_lines r)" using l(1) by (auto simp: pending_forward_def)
    with r(1) l b(4-6) split_lines_first [OF l(3), of r] show ?thesis by (simp add: lines_next_def)
  qed
qed

lemma pending_backward_next:
  assumes "pending_backward fuel li ls" "ls \<noteq> []"
  shows "\<exists>li'. lines_next fuel li = Some (Some (encode (last ls)), li') \<and> pending_backward fuel li' (butlast ls)"
proof -
  from assms obtain f x b d where b: "reads_backward (li_chunks li) f b x d" "valid_str b" "length b < fuel" "ls = split_lines b"
    "\<not> li_done li" "li_reversed li" by (auto simp: pending_backward_def)
  have "backward_line f b d [] (li_done (li\<lparr>li_current_line := []\<rparr>)) (rope_lines_loop fuel (li\<lparr>li_current_line := []\<rparr>))"
    using b by (intro lines_backward) simp_all
  then obtain li' l r x' where l: "li_reversed li'" "rope_lines_loop fuel (li\<lparr>li_current_line := []\<rparr>) = Some (encode l, li')" "10 \<notin> set l"
    "b = l \<and> li_done li' \<or> b = r @ 10 # l \<and> \<not> li_done li' \<and> reads_backward (li_chunks li') f r x' d"
    using b(5) by (auto simp: backward_line_def)
  from l(4) show ?thesis
  proof (elim disjE conjE)
    assume "b = l" "li_done li'"
    with l(1-3) b(4-6) show ?thesis by (simp add: lines_next_def pending_backward_def split_lines_plain)
  next
    assume r: "b = r @ 10 # l" "\<not> li_done li'" "reads_backward (li_chunks li') f r x' d"
    moreover from r(1) b(2,3) have "valid_str r" "length r < fuel" by (simp_all add: valid_str_def)
    ultimately have "pending_backward fuel li' (split_lines r)" using l(1) by (auto simp: pending_backward_def)
    with r(1) l b(4-6) split_lines_last [OF l(3), of r] show ?thesis by (simp add: lines_next_def)
  qed
qed

interpretation lines_fwd: piece_reader "lines_next fuel" "pending_forward fuel" append "\<lambda>s ls. \<exists>l. ls = [l] \<and> s = encode l" for fuel
proof
  fix li ls
  assume "pending_forward fuel li ls" "ls \<noteq> []"
  moreover from pending_forward_next [OF this] obtain li' where
    "lines_next fuel li = Some (Some (encode (hd ls)), li')" "pending_forward fuel li' (tl ls)" by blast
  ultimately show "\<exists>p q s t'. ls = p @ q \<and> p \<noteq> [] \<and> lines_next fuel li = Some (Some s, t') \<and>
    (\<exists>l. p = [l] \<and> s = encode l) \<and> pending_forward fuel t' q"
    by (intro exI [of _ "[hd ls]"] exI [of _ "tl ls"] exI [of _ "encode (hd ls)"] exI [of _ li']) simp
qed (auto simp: pending_forward_def lines_next_def)

interpretation lines_bwd: piece_reader "lines_next fuel" "pending_backward fuel" "\<lambda>p q. q @ p" "\<lambda>s ls. \<exists>l. ls = [l] \<and> s = encode l" for fuel
proof
  fix li ls
  assume "pending_backward fuel li ls" "ls \<noteq> []"
  moreover from pending_backward_next [OF this] obtain li' where
    "lines_next fuel li = Some (Some (encode (last ls)), li')" "pending_backward fuel li' (butlast ls)" by blast
  ultimately show "\<exists>p q s t'. ls = q @ p \<and> p \<noteq> [] \<and> lines_next fuel li = Some (Some s, t') \<and>
    (\<exists>l. p = [l] \<and> s = encode l) \<and> pending_backward fuel t' q"
    by (intro exI [of _ "[last ls]"] exI [of _ "butlast ls"] exI [of _ "encode (last ls)"] exI [of _ li']) simp
qed (auto simp: pending_backward_def lines_next_def)

lemma one_line_pieces: "list_all2 (\<lambda>s ls. \<exists>l. ls = [l] \<and> s = encode l) ys ps \<Longrightarrow> ys = map encode (concat ps) \<and> ys = map encode (rev (concat (rev ps)))"
  by (induction rule: list_all2_induct) auto

text \<open>C37. \<open>lines\<close> over a range of a rope returns the lines of its text, each of them once, from the first or, for a reversed iterator,
  from the last, however the lines are spread over chunks, and then ends.\<close>

theorem lines_iterate:
  assumes "rope_ok r (f @ g @ d)" "height r < STACK_CAPACITY" "length g < fuel" "length (split_lines g) < n"
  shows "(\<exists>ck. chunks_new debug r (str_len f, str_len (f @ g)) False = Some ck \<and>
      collect (lines_next fuel) n (chunks_lines ck) = Some (map encode (split_lines g))) \<and>
    (\<exists>ck. chunks_new debug r (str_len f, str_len (f @ g)) True = Some ck \<and>
      collect (lines_next fuel) n (chunks_lines ck) = Some (map encode (rev (split_lines g))))"
proof -
  from new_forward [OF assms(1,2), of debug] new_backward [OF assms(1,2), of debug] obtain ck ck' where
    ck: "chunks_new debug r (str_len f, str_len (f @ g)) False = Some ck" "reads_forward ck f [] g d"
      "chunks_new debug r (str_len f, str_len (f @ g)) True = Some ck'" "reads_backward ck' f g [] d" by blast
  have valid: "valid_str g" using rope_ok_valid [OF assms(1)] by simp
  have "pending_forward fuel (chunks_lines ck) (split_lines g)" "pending_backward fuel (chunks_lines ck') (split_lines g)"
    using ck valid assms(3) reader_reversed [OF ck(1)] reader_reversed [OF ck(3)]
    by (auto simp: pending_forward_def pending_backward_def chunks_lines_def)
  from lines_fwd.collect_all [OF this(1) assms(4)] lines_bwd.collect_all [OF this(2) assms(4)]
  have "collect (lines_next fuel) n (chunks_lines ck) = Some (map encode (split_lines g))"
    "collect (lines_next fuel) n (chunks_lines ck') = Some (map encode (rev (split_lines g)))"
    by (auto simp: glue_all dest!: one_line_pieces)
  with ck show ?thesis by blast
qed

theorem lines_iterate_witness:
  "\<exists>ck. chunks_new True (one_chunk sample_text) (0, 6) True = Some ck \<and>
     collect (lines_next 4) 3 (chunks_lines ck) = Some [encode [0x1F600], encode [104]]"
  using lines_iterate [of "one_chunk sample_text" "[]" sample_text "[]" 4 3 True] sample_rope by (simp add: len_utf8_def NEWLINE_def)

end
