(* ===== verification/Rope_Theorems.thy ===== *)
theory Rope_Theorems
  imports RopePositions_Correct
begin

text \<open>
  The operations that build ropes, on the 32-bit numbers of the code. The tree of the model adds its summaries as natural numbers;
  the fields of a \<open>TextSummary\<close> and of a \<open>Point\<close> are \<open>u32\<close>, and their additions panic or wrap where they overflow. For a text of
  less than \<open>2 ^ 32\<close> bytes no such addition overflows: the checked additions of \<open>TextSummary\<close> and \<open>Point\<close> are defined on every two
  adjacent parts of the text, and in the tree the \<open>u32\<close> summary of every node is the checked sum of those below it.
\<close>

section \<open>Checked sums\<close>

text \<open>The \<open>u32\<close> summary that a node stands for, and a run of \<open>AddAssign\<close> over summaries.\<close>

definition node_u32 :: "chunk_summary \<Rightarrow> text_summary" where
  "node_u32 s = summary_u32 (cs_text s)"

fun add_all :: "text_summary \<Rightarrow> text_summary list \<Rightarrow> text_summary option" where
  "add_all a [] = Some a"
| "add_all a (b # bs) = do { c \<leftarrow> summary_add a b; add_all c bs }"

fun sums_checked :: "rope \<Rightarrow> bool" where
  "sums_checked (Leaf s xs ss) \<longleftrightarrow>
     map chunk_text_summary xs = map (\<lambda>t. Some (node_u32 t)) ss \<and> add_all summary_zero (map node_u32 ss) = Some (node_u32 s)"
| "sums_checked (Internal h s ss ts) \<longleftrightarrow>
     ss = map summary ts \<and> add_all summary_zero (map node_u32 ss) = Some (node_u32 s) \<and> (\<forall>t \<in> set ts. sums_checked t)"

text \<open>The additions of summaries, points and UTF-16 points of adjacent parts of a text.\<close>

definition additions_fit :: "rchar list \<Rightarrow> bool" where
  "additions_fit s \<longleftrightarrow> (\<forall>u a b v. s = u @ a @ b @ v \<longrightarrow>
     summary_add (summary_of a) (summary_of b) = Some (summary_of (a @ b)) \<and>
     point_add (ts_lines (summary_of a)) (ts_lines (summary_of b)) = Some (ts_lines (summary_of (a @ b))) \<and>
     point_utf16_add (lines_utf16 (summary_of a)) (lines_utf16 (summary_of b)) = Some (lines_utf16 (summary_of (a @ b))))"

definition u32_ok :: "rope \<Rightarrow> rchar list \<Rightarrow> bool" where
  "u32_ok r s \<longleftrightarrow> sums_checked r \<and> Some (rope_summary r) = text_summary_from s \<and> additions_fit s"

lemma node_u32_of: "node_u32 (cs_of s) = summary_of s"
  by (simp add: node_u32_def summary_u32_def summary_of_def)

lemma add_all_of:
  "str_len (s @ concat ts) < 2 ^ 32 \<Longrightarrow> add_all (summary_of s) (map summary_of ts) = Some (summary_of (s @ concat ts))"
proof (induction ts arbitrary: s)
  case (Cons t ts)
  then have "summary_add (summary_of s) (summary_of t) = Some (summary_of (s @ t))" by (intro summary_add_correct) simp
  with Cons.IH [of "s @ t"] Cons.prems show ?case by simp
qed simp

lemma add_all_parts: "str_len (concat ts) < 2 ^ 32 \<Longrightarrow> add_all summary_zero (map summary_of ts) = Some (summary_of (concat ts))"
  using add_all_of [of "[]" ts] by (simp add: summary_of_Nil)

lemma children_texts:
  assumes "forest rope_ops h ts" "concat (map elems ts) = map chunk_of ss" "rope_texts ss"
  shows "\<exists>sss. concat sss = ss \<and> list_all2 holds ts sss"
  using assms
proof (induction ts arbitrary: ss)
  case (Cons t ts)
  then obtain us vs where ss: "ss = us @ vs" "elems t = map chunk_of us" "concat (map elems ts) = map chunk_of vs"
    by (auto simp: append_eq_map_conv)
  with Cons.prems have "holds t us" by (simp add: holds_def)
  moreover from Cons.IH [of vs] Cons.prems ss obtain sss where "concat sss = vs" "list_all2 holds ts sss" by auto
  ultimately show ?case using ss(1) by (intro exI [of _ "us # sss"]) simp
qed simp

lemma children_summaries: "list_all2 holds ts sss \<Longrightarrow> map node_u32 (map summary ts) = map summary_of (map concat sss)"
  by (induction rule: list_all2_induct) (simp_all add: holds_summary node_u32_of)

lemma str_len_member: "s \<in> set ss \<Longrightarrow> str_len s \<le> str_len (concat ss)"
  by (induction ss) auto

lemma holds_checked: "holds t ss \<Longrightarrow> str_len (concat ss) < 2 ^ 32 \<Longrightarrow> sums_checked t"
proof (induction t arbitrary: ss)
  case (Leaf s xs ys)
  note h = Leaf.prems(1) [unfolded holds_def]
  then have t: "\<forall>u \<in> set ss. str_len u \<le> 128" "xs = map chunk_of ss" by (auto simp: rope_texts_def)
  then have ys: "ys = map cs_of ss" using h by (simp add: rope_item)
  have "s = cs_of (concat ss)" using holds_summary [OF Leaf.prems(1)] by simp
  with ys t add_all_parts [OF Leaf.prems(2)] show ?case by (simp add: chunk_text_summary_correct node_u32_of comp_def)
next
  case (Internal h s ys ts)
  then have w: "forest rope_ops h ts" "ys = map summary ts" by (simp_all add: holds_def wf_Internal)
  from children_texts [OF w(1)] Internal.prems(1) obtain sss where sss: "concat sss = ss" "list_all2 holds ts sss" by (auto simp: holds_def)
  have "concat (map concat sss) = concat ss" using sss(1) by (induction sss arbitrary: ss) auto
  with add_all_parts [of "map concat sss"] Internal.prems(2) holds_summary [OF Internal.prems(1)]
  have "add_all summary_zero (map node_u32 ys) = Some (node_u32 s)"
    by (simp only: children_summaries [OF sss(2)] w(2) node_u32_of summary.simps)
  moreover have "sums_checked t" if "t \<in> set ts" for t
  proof -
    from that sss(2) obtain us where us: "us \<in> set sss" "holds t us" by (metis list_all2_conv_all_nth in_set_conv_nth)
    then have "str_len (concat us) \<le> str_len (concat ss)"
      using str_len_member [of "concat us" "map concat sss"] \<open>concat (map concat sss) = concat ss\<close> by auto
    with Internal.IH [OF that us(2)] Internal.prems(2) show ?thesis by simp
  qed
  ultimately show ?case by (simp add: w(2))
qed

lemma additions_fitI: "str_len s < 2 ^ 32 \<Longrightarrow> additions_fit s"
  unfolding additions_fit_def using summary_add_correct point_add_prefix by auto

lemma rope_u32: "rope_ok r s \<Longrightarrow> str_len s < 2 ^ 32 \<Longrightarrow> u32_ok r s"
  using holds_checked rope_summary_of [of r s] text_summary_from_correct [of s] additions_fitI [of s]
  by (auto simp: u32_ok_def rope_ok_def)

lemma built_u32: "\<exists>r'. f = Some r' \<and> rope_ok r' s \<Longrightarrow> str_len s < 2 ^ 32 \<Longrightarrow> \<exists>r'. f = Some r' \<and> rope_ok r' s \<and> u32_ok r' s"
  using rope_u32 by blast

section \<open>Theorems\<close>

text \<open>C28. Pushing a text at the end of a rope, at its front, or building a rope from texts, does not panic, wherever characters of
  several bytes fall, as long as the resulting text has less than \<open>2 ^ 32\<close> bytes: it keeps the tree well-formed, its chunks
  non-empty, valid and of at most 128 bytes, and all but the last at least \<open>MIN_BASE - 3\<close> bytes long as \<open>check_invariants\<close> asserts,
  and the rope then holds the two texts one after the other. No \<open>u32\<close> addition overflows: the checked additions give the
  summary of every node of the new tree, and are defined on any two adjacent parts of the text.\<close>

theorem rope_push_correct:
  assumes "rope_ok r s" "valid_str t" "\<forall>u \<in> set us. valid_str u" "str_len (s @ t) < 2 ^ 32" "str_len (concat us) < 2 ^ 32"
  shows "(\<exists>r'. rope_push r (encode t) = Some r' \<and> rope_ok r' (s @ t) \<and> u32_ok r' (s @ t)) \<and>
    (\<exists>r'. rope_from (encode t) = Some r' \<and> rope_ok r' t \<and> u32_ok r' t) \<and>
    (\<exists>r'. rope_from_iter rope_new (map encode us) = Some r' \<and> rope_ok r' (concat us) \<and> u32_ok r' (concat us)) \<and>
    (height r < STACK_CAPACITY \<longrightarrow> (\<exists>r'. push_front r (encode t) = Some r' \<and> rope_ok r' (t @ s) \<and> u32_ok r' (t @ s)))"
proof -
  have fit: "str_len t < 2 ^ 32" "str_len (t @ s) < 2 ^ 32" "str_len ([] @ concat us) < 2 ^ 32" using assms(4,5) by simp_all
  show ?thesis
    using built_u32 [OF push_ok [OF assms(1,2)] assms(4)] built_u32 [OF from_ok [OF assms(2)] fit(1)]
      built_u32 [OF from_iter_ok [OF new_ok assms(3)] fit(3)] built_u32 [OF push_front_ok [OF assms(1,2)] fit(2)] by auto
qed

theorem rope_push_correct_witness:
  "(\<exists>r'. rope_push (one_chunk sample_text) (encode sample_text) = Some r' \<and> rope_ok r' (sample_text @ sample_text) \<and>
     u32_ok r' (sample_text @ sample_text)) \<and>
   (\<exists>r'. push_front (one_chunk sample_text) (encode [104]) = Some r' \<and> rope_ok r' ([104] @ sample_text) \<and> u32_ok r' ([104] @ sample_text))"
proof -
  have "valid_str [104]" "str_len (sample_text @ sample_text) < 2 ^ 32" "str_len (sample_text @ [104]) < 2 ^ 32" "str_len (concat []) < 2 ^ 32"
    by (simp_all add: valid_str_def valid_char_def len_utf8_def)
  with rope_push_correct [OF sample_rope(1), of sample_text "[]"] rope_push_correct [OF sample_rope(1), of "[104]" "[]"] sample_rope(2,4)
  show ?thesis by (simp del: str_len_simps encode_simps)
qed

text \<open>C29. \<open>append\<close> joins two ropes without panicking, as long as the joined text has less than \<open>2 ^ 32\<close> bytes: a short chunk at the
  seam is merged into its neighbour so that the joined rope again has only its last chunk short, and the \<open>u32\<close> additions that give
  the summaries of the joined tree do not overflow. (The tree of the appended rope must not be too tall for the stack of a cursor.)\<close>

theorem rope_append_correct:
  assumes "rope_ok r s" "rope_ok q t" "height q < STACK_CAPACITY" "str_len (s @ t) < 2 ^ 32"
  shows "\<exists>r'. rope_append r q = Some r' \<and> rope_ok r' (s @ t) \<and> u32_ok r' (s @ t)"
  by (rule built_u32 [OF append_ok [OF assms(1-3)] assms(4)])

theorem rope_append_correct_witness:
  "\<exists>r'. rope_append (one_chunk sample_text) (one_chunk sample_text) = Some r' \<and> rope_ok r' (sample_text @ sample_text) \<and>
     u32_ok r' (sample_text @ sample_text)"
  by (rule rope_append_correct [OF sample_rope(1) sample_rope(1,2)]) (simp add: len_utf8_def)

text \<open>C31. \<open>slice\<close> returns the text between two offsets that lie on characters, and \<open>replace\<close> puts a new text in the place of such a
  range and leaves the rest as it was. Neither panics, as long as the trees they cut out are not too tall for the stack of a
  cursor and the text has, before and after, less than \<open>2 ^ 32\<close> bytes; the \<open>u32\<close> additions for the new trees do not overflow.\<close>

theorem rope_replace_correct:
  assumes "rope_ok r (a @ b @ d)" "height r < STACK_CAPACITY" "valid_str t" "str_len (a @ b @ d) < 2 ^ 32" "str_len (a @ t @ d) < 2 ^ 32"
  shows "(rope_slice_fits r (str_len a) (str_len (a @ b)) \<longrightarrow>
      (\<exists>r'. rope_slice r (str_len a, str_len (a @ b)) = Some r' \<and> rope_ok r' b \<and> u32_ok r' b)) \<and>
    (rope_replace_fits r (str_len a) (str_len (a @ b)) \<longrightarrow>
      (\<exists>r'. rope_replace r (str_len a, str_len (a @ b)) (encode t) = Some r' \<and> rope_ok r' (a @ t @ d) \<and> u32_ok r' (a @ t @ d)))"
proof -
  have "str_len b < 2 ^ 32" using assms(4) by simp
  then show ?thesis
    using built_u32 [OF rope_slice_ok [OF assms(1,2)]] built_u32 [OF rope_replace_ok [OF assms(1-3)] assms(5)] by blast
qed

theorem rope_replace_correct_witness:
  "(\<exists>r'. rope_slice (one_chunk sample_text) (str_len [104], str_len ([104] @ [10])) = Some r' \<and> rope_ok r' [10] \<and> u32_ok r' [10]) \<and>
   (\<exists>r'. rope_replace (one_chunk sample_text) (str_len [], str_len ([] @ sample_text)) (encode [104]) = Some r' \<and> rope_ok r' [104] \<and>
     u32_ok r' [104])"
proof -
  have "valid_str [104]" "str_len sample_text < 2 ^ 32" "str_len ([104] @ [104] @ [0x1F600]) < 2 ^ 32" "str_len [104] < 2 ^ 32"
    by (simp_all add: valid_str_def valid_char_def len_utf8_def)
  with rope_replace_correct [of "one_chunk sample_text" "[104]" "[10]" "[0x1F600]" "[104]"]
    rope_replace_correct [of "one_chunk sample_text" "[]" sample_text "[]" "[104]"] sample_rope(1,2) sample_fits
  show ?thesis by simp
qed

end
