(* ===== verification/RopeMeasure_Correct.thy ===== *)
theory RopeMeasure_Correct
  imports RopeChunks_Correct Rope_Theorems
begin

text \<open>
  \<open>Cursor::summary\<close>: what a cursor of a rope returns when it measures the text up to an offset, for every implementation of
  \<open>TextDimension\<close>.
\<close>

context output_dimension
begin

lemma cursor_sum_tree:
  assumes "wf_tree ops (c_tree c)" "height (c_tree c) < STACK_CAPACITY" "cursor_ready ops dim c n"
    and "is_ge (target (c_position c))"
    and "mono_target target (item_ends ops dim (c_position c) (drop n (elems (c_tree c))))"
    and "k = stop_at ops dim target bias (c_position c) (drop n (elems (c_tree c)))"
  shows "\<exists>c'. cursor_summary out dim target bias c =
      Some (c', pos_at ops out (d_zero out) (take k (drop n (elems (c_tree c))))) \<and> c_tree c' = c_tree c \<and> cursor_at ops dim c' (n + k)"
  using summary.seek_internal_correct [OF assms(1-5) _ assms(6), of "d_zero out"]
  by (auto simp: cursor_summary_def)

end

text \<open>What the trait promises: measuring a chunk is measuring its text, and adding measures is measuring the joined text.\<close>

locale summing = two_measures usize_dim str_len "td_dim td" out_of
  for td :: "'e text_dimension" and out_of +
  assumes from_chunk: "valid_str s \<Longrightarrow> str_len s \<le> 128 \<Longrightarrow> td_from_chunk td (chunk_of s) = Some (out_of s)"
    and add_assign: "td_add_assign td (out_of s) (out_of t) = out_of (s @ t)"
begin

lemma summary_text:
  assumes "usize.stands c as bs" "str_len (concat as) \<le> n"
  obtains c' as' bs' where "bs = as' @ bs'" "usize.cut (ord_cmp n) Right (concat as) as' bs'" "usize.stands c' (as @ as') bs'"
    "cursor_summary (td_dim td) usize_dim (ord_cmp n) Right c = Some (c', out_of (concat as'))" "c_tree c' = c_tree c"
proof -
  note c = assms(1) [unfolded usize.stands_def holds_def]
  have pos: "c_position c = str_len (concat as)" using usize.stands_reads(1) [OF assms(1)] by (simp add: cursor_start_def)
  have dr: "drop (length as) (elems (c_tree c)) = map chunk_of bs" using c by simp
  from usize.stop_at_text [of bs "ord_cmp n" Right "concat as"] c obtain as' bs' where ab: "bs = as' @ bs'"
    "stop_at rope_ops usize_dim (ord_cmp n) Right (str_len (concat as)) (map chunk_of bs) = length as'"
    "usize.cut (ord_cmp n) Right (concat as) as' bs'"
    by (elim conjE meta_impE exE) (simp, rule that)
  have mono: "mono_target (ord_cmp n) (item_ends rope_ops usize_dim (c_position c) (drop (length as) (elems (c_tree c))))"
    using usize.falling_mono [OF usize.falling_ord, of bs n "concat as"] c by (simp add: pos)
  have pre: "wf_tree rope_ops (c_tree c)" "height (c_tree c) < STACK_CAPACITY" "cursor_ready rope_ops usize_dim c (length as)"
    "is_ge (ord_cmp n (c_position c))"
    using c assms(2) by (simp_all add: cursor_ready_def pos is_ge_def ord_cmp_def)
  have k: "length as' = stop_at rope_ops usize_dim (ord_cmp n) Right (c_position c) (drop (length as) (elems (c_tree c)))"
    using ab(2) by (simp add: pos dr)
  have "output_dimension rope_ops usize_dim (td_dim td)" by unfold_locales
  from output_dimension.cursor_sum_tree [OF this pre mono k] obtain c' where
    c': "cursor_summary (td_dim td) usize_dim (ord_cmp n) Right c =
      Some (c', pos_at rope_ops (td_dim td) (d_zero (td_dim td)) (take (length as') (map chunk_of bs)))" "c_tree c' = c_tree c"
      "cursor_at rope_ops usize_dim c' (length as + length as')"
    unfolding dr by blast
  have "usize.stands c' (as @ as') bs'" using c c'(2,3) ab(1) by (simp add: usize.stands_def holds_def)
  moreover have "pos_at rope_ops (td_dim td) (d_zero (td_dim td)) (take (length as') (map chunk_of bs)) = out_of (concat as')"
    using other.measure_at [of as' "[]"] c ab(1) by (simp add: other.measure_zero)
  ultimately show thesis using c'(1,2) ab(1,3) by (intro that [of as' bs' c']) simp_all
qed

lemma zero_add: "td_add_assign td (d_zero (td_dim td)) (out_of s) = out_of s"
  using add_assign [of "[]" s] by (simp add: other.measure_zero)

lemma summary_inside:
  assumes "usize.stands (rc_chunks rc) as ((w @ b @ z) # bs)" "sizes (as @ (w @ b @ z) # bs)"
    and "rc_offset rc = str_len (concat as @ w)" "c_tree (rc_chunks rc) = rc_rope rc"
  shows "\<exists>rc'. rc_summary td rc (str_len (concat as @ w @ b)) = Some (rc', out_of b) \<and> rc_rope rc' = rc_rope rc \<and>
    rc_at rc' (concat as @ w @ b) (z @ concat bs)"
proof -
  note c = assms(1) [unfolded usize.stands_def holds_def]
  have "rope_len (rc_rope rc) = str_len (concat (as @ (w @ b @ z) # bs))"
    using rope_len_holds [of "rc_rope rc" "as @ (w @ b @ z) # bs"] assms(1,4) by (simp add: usize.stands_def)
  moreover have "chunk_slice (chunk_of (w @ b @ z)) (str_len w, str_len w + str_len b) = Some (chunk_of b)"
    using chunk_slice_correct [of w b z] c by simp
  moreover have "td_from_chunk td (chunk_of b) = Some (out_of b)" using from_chunk [of b] c by simp
  ultimately have "rc_summary td rc (str_len (concat as @ w @ b)) =
      Some (rc\<lparr>rc_chunks := rc_chunks rc, rc_offset := str_len (concat as @ w @ b)\<rparr>, out_of b)"
    using usize.stands_reads [OF assms(1)] assms(3) by (simp add: rc_summary_def checked_sub_def zero_add)
  moreover have "rc_at (rc\<lparr>rc_chunks := rc_chunks rc, rc_offset := str_len (concat as @ w @ b)\<rparr>) (concat as @ w @ b) (z @ concat bs)"
    by (rule rc_atI [where as = as and bs = "(w @ b @ z) # bs" and w = "w @ b" and z = z]) (use assms in \<open>simp_all add: between_def\<close>)
  ultimately show ?thesis by auto
qed

lemma summary_beyond:
  assumes "usize.stands (rc_chunks rc) as ((w @ z) # bs)" "sizes (as @ (w @ z) # bs)"
    and "rc_offset rc = str_len (concat as @ w)" "c_tree (rc_chunks rc) = rc_rope rc" "concat bs = b @ d" "b \<noteq> []"
  shows "\<exists>rc'. rc_summary td rc (str_len (concat as @ w @ z @ b)) = Some (rc', out_of (z @ b)) \<and> rc_rope rc' = rc_rope rc \<and>
    rc_at rc' (concat as @ w @ z @ b) d"
proof -
  let ?e = "str_len (concat as @ w @ z @ b)" and ?rc = "\<lambda>c. rc\<lparr>rc_chunks := c, rc_offset := str_len (concat as @ w @ z @ b)\<rparr>"
  note c = assms(1) [unfolded usize.stands_def holds_def]
  have len: "rope_len (rc_rope rc) = str_len (concat (as @ (w @ z) # bs))"
    using rope_len_holds [of "rc_rope rc" "as @ (w @ z) # bs"] assms(1,4) by (simp add: usize.stands_def)
  have sl: "chunk_slice (chunk_of (w @ z)) (str_len w, str_len w + str_len z) = Some (chunk_of z)"
    using chunk_slice_start(2) [of w z] c by simp
  from usize.next_text [OF assms(1)] obtain c1 where
    c1: "cursor_next usize_dim (rc_chunks rc) = Some c1" "c_tree c1 = rc_rope rc" "usize.stands c1 (as @ [w @ z]) bs"
    using assms(4) by auto
  have le: "str_len (concat (as @ [w @ z])) \<le> ?e" by simp
  from summary_text [OF c1(3) le] obtain c2 us vs where us: "bs = us @ vs" "usize.cut (ord_cmp ?e) Right (concat (as @ [w @ z])) us vs"
    "usize.stands c2 ((as @ [w @ z]) @ us) vs" "cursor_summary (td_dim td) usize_dim (ord_cmp ?e) Right c1 = Some (c2, out_of (concat us))"
    "c_tree c2 = c_tree c1" .
  have eq: "concat (((as @ [w @ z]) @ us) @ vs) = (concat as @ w @ z @ b) @ d" using us(1) assms(5) by simp
  obtain w' z' where wz: "between ((as @ [w @ z]) @ us) vs (concat as @ w @ z @ b) d w' z'"
    by (rule between_cut [OF eq le refl us(2)]) (rule that)
  then have b: "b = concat us @ w'" by (simp add: between_def)
  have reads: "cursor_start c2 = str_len (concat as @ w @ z @ concat us)"
    "cursor_item c2 = Some (case vs of [] \<Rightarrow> None | s # _ \<Rightarrow> Some (chunk_of s))"
    using usize.stands_reads [OF us(3)] by simp_all
  have beyond: "?e > str_len (concat as @ w @ z)" using assms(6) str_len_pos [of b] by simp
  have at: "rc_at (?rc c2) (concat as @ w @ z @ b) d"
    by (rule rc_atI [OF _ _ wz]) (use us(1,3,5) c1(2) assms(2) in simp_all)
  have tail: "summary_end_chunk td c2 (out_of (z @ concat us)) ?e = Some (out_of (z @ b))"
  proof (cases vs)
    case Nil
    with wz b show ?thesis by (simp add: between_def summary_end_chunk_def reads)
  next
    case (Cons s vs')
    with wz have s: "s = w' @ z'" by (simp add: between_def)
    have v: "valid_str s" "str_len s \<le> 128" using c us(1) Cons by auto
    with s from_chunk [of w'] add_assign [of "z @ concat us" w'] Cons b chunk_slice_start(1) [of w' z'] show ?thesis
      by (simp add: reads checked_sub_def summary_end_chunk_def)
  qed
  have z: "td_from_chunk td (chunk_of z) = Some (out_of z)" using from_chunk [of z] c by simp
  have "min ?e (str_len (concat as @ w @ z)) = str_len (concat as @ w @ z)" "?e \<le> rope_len (rc_rope rc)"
    using beyond len assms(5) by simp_all
  with usize.stands_reads [OF assms(1)] assms(3) sl z c1(1) us(4) beyond tail
  have "rc_summary td rc ?e = Some (?rc c2, out_of (z @ b))"
    by (simp add: rc_summary_def checked_sub_def zero_add add_assign del: str_len_simps) (simp add: checked_sub_def zero_add add_assign)
  with at show ?thesis by auto
qed

lemma summary_ok:
  assumes "rc_at rc a (b @ d)"
  shows "\<exists>rc'. rc_summary td rc (str_len (a @ b)) = Some (rc', out_of b) \<and> rc_rope rc' = rc_rope rc \<and> rc_at rc' (a @ b) d"
proof -
  from assms(1) obtain as bs w z where c: "usize.stands (rc_chunks rc) as bs" "sizes (as @ bs)" "between as bs a (b @ d) w z"
    "c_tree (rc_chunks rc) = rc_rope rc" "rc_offset rc = str_len a" by (auto simp: rc_at_def)
  show ?thesis
  proof (cases bs)
    case Nil
    then have ab: "b = []" "d = []" "a = concat as" using c(3) by (auto simp: between_def)
    have "rope_len (rc_rope rc) = str_len a" using rc_at_len [OF assms] ab by simp
    then have "rc_summary td rc (str_len (a @ b)) = Some (rc\<lparr>rc_chunks := rc_chunks rc, rc_offset := str_len a\<rparr>, out_of b)"
      using usize.stands_reads [OF c(1)] c(5) Nil ab by (simp add: rc_summary_def other.measure_zero)
    moreover have "rc_at (rc\<lparr>rc_chunks := rc_chunks rc, rc_offset := str_len a\<rparr>) (a @ b) d" using assms ab c(5) by (simp add: rc_at_def)
    ultimately show ?thesis by auto
  next
    case (Cons s bs')
    with c(3) have s: "s = w @ z" "a = concat as @ w" "b @ d = z @ concat bs'" by (simp_all add: between_def)
    from common_prefix [OF s(3)] consider y where "z = b @ y" "d = y @ concat bs'" | u where "b = z @ u" "concat bs' = u @ d" "u \<noteq> []"
      by (metis append.right_neutral append_Nil)
    then show ?thesis
    proof cases
      case 1
      with summary_inside [of rc as w b y bs'] c Cons s show ?thesis by simp
    next
      case 2
      with summary_beyond [of rc as w z bs' u d] c Cons s show ?thesis by simp
    qed
  qed
qed

end

text \<open>The implementations.\<close>

lemma chunk_summary_nat: "str_len s \<le> 128 \<Longrightarrow> nat_of_summary (summary_of s) = ns_of s"
  by (rule nat_of_summary_of) simp

interpretation usize_sum: summing usize_td str_len
  by unfold_locales (simp_all add: usize_td_def usize.d_add_add usize.measure_zero usize.measure_add chunk_len_def chunk_of_def)

interpretation utf16_sum: summing utf16_td utf16_len
  by unfold_locales (simp_all add: utf16_td_def utf16.d_add_add utf16.measure_zero utf16.measure_add chunk_len_utf16_def chunk_of_def counts)

interpretation full_sum: summing summary_td ns_of
  by unfold_locales (simp_all add: summary_td_def full.d_add_add full.measure_zero full.measure_add chunk_text_summary_correct chunk_summary_nat
      flip: ns_of_append)

lemma npoint_of_chunk:
  assumes "str_len s \<le> 128"
  shows "npoint_of (ts_lines (summary_of s)) = point_of_text s"
    "npoint_of_utf16 (PointUtf16 (row (ts_lines (summary_of s))) (last_line_len_utf16 (summary_of s))) = point_utf16_of_text s"
  using arg_cong [OF chunk_summary_nat [OF assms], of ns_row] arg_cong [OF chunk_summary_nat [OF assms], of ns_column]
    arg_cong [OF chunk_summary_nat [OF assms], of ns_last_utf16]
  by (simp_all add: nat_of_summary_def npoint_of_def npoint_of_utf16_def)

interpretation pt_sum: summing point_td point_of_text
  by unfold_locales (simp_all add: point_td_def pt.d_add_add pt.measure_zero pt.measure_add chunk_lines_correct npoint_of_chunk
      npoint_add_def lines_append)

interpretation pt16_sum: summing point_utf16_td point_utf16_of_text
  by unfold_locales (simp_all add: point_utf16_td_def pt16.d_add_add pt16.measure_zero pt16.measure_add chunk_lines_correct
      chunk_last_line_correct npoint_of_chunk npoint_add_def lines_append)

lemma summing_pair:
  assumes "summing d m" "summing e k"
  shows "summing (pair_td d e) (\<lambda>s. (m s, k s))"
proof -
  from assms have "text_measure (td_dim d) m" "text_measure (td_dim e) k"
    by (simp_all add: summing_def two_measures_def)
  then have "text_measure (dimensions (td_dim d) (td_dim e)) (\<lambda>s. (m s, k s))"
    unfolding text_measure_def text_measure_axioms_def tree_dimension_def tree_dimension_axioms_def
    by (simp add: dimensions_def split: prod.splits)
  with assms show ?thesis
    unfolding summing_def summing_axioms_def two_measures_def pair_td_def by (simp add: usize.ordered_measure_axioms)
qed

text \<open>C38. \<open>Cursor::summary\<close> measures exactly the text that the cursor passes over, in bytes, UTF-16 units, points, UTF-16 points, whole
  summaries and pairs of these, wherever the offsets lie in the chunks, and moves the cursor to the end of it; it does not panic,
  for a rope of less than \<open>2 ^ 32\<close> bytes. The numbers are those of the \<open>u32\<close> fields of the \<open>Point\<close>, the \<open>PointUtf16\<close> and the
  \<open>TextSummary\<close> that \<open>TextSummary::from\<close> computes for the text passed over, and the \<open>u32\<close> additions of the measures of its adjacent parts, which
  the function makes, do not overflow.\<close>

theorem rope_cursor_summary_correct:
  assumes "rc_at rc a (b @ d)" "str_len (a @ b @ d) < 2 ^ 32"
  shows "(\<exists>rc'. rc_summary usize_td rc (str_len (a @ b)) = Some (rc', str_len b) \<and> rc_at rc' (a @ b) d) \<and>
    (\<exists>rc'. rc_summary utf16_td rc (str_len (a @ b)) = Some (rc', utf16_len b) \<and> rc_at rc' (a @ b) d) \<and>
    (\<exists>t. text_summary_from b = Some t \<and> additions_fit b \<and>
      npoint_of (ts_lines t) = (rows b, str_len (last_line b)) \<and> npoint_of_utf16 (lines_utf16 t) = (rows b, utf16_len (last_line b)) \<and>
      (\<exists>rc'. rc_summary point_td rc (str_len (a @ b)) = Some (rc', npoint_of (ts_lines t)) \<and> rc_at rc' (a @ b) d) \<and>
      (\<exists>rc'. rc_summary point_utf16_td rc (str_len (a @ b)) = Some (rc', npoint_of_utf16 (lines_utf16 t)) \<and> rc_at rc' (a @ b) d) \<and>
      (\<exists>rc'. rc_summary summary_td rc (str_len (a @ b)) = Some (rc', nat_of_summary t) \<and> rc_at rc' (a @ b) d) \<and>
      (\<exists>rc'. rc_summary (pair_td point_td usize_td) rc (str_len (a @ b)) = Some (rc', (npoint_of (ts_lines t), str_len b)) \<and> rc_at rc' (a @ b) d))"
proof -
  have b: "str_len b < 2 ^ 32" using assms(2) by simp
  have u: "nat_of_summary (summary_of b) = ns_of b" by (rule nat_of_summary_of [OF b])
  note pr = npoint_of_prefix [OF b]
  show ?thesis
    using text_summary_from_correct [OF b] additions_fitI [OF b] usize_sum.summary_ok [OF assms(1)] utf16_sum.summary_ok [OF assms(1)]
      pt_sum.summary_ok [OF assms(1)] pt16_sum.summary_ok [OF assms(1)] full_sum.summary_ok [OF assms(1)]
      summing.summary_ok [OF summing_pair [OF pt_sum.summing_axioms usize_sum.summing_axioms] assms(1)]
    by (intro conjI exI [of _ "summary_of b"]) (simp_all only: pr u, blast+)
qed

theorem rope_cursor_summary_correct_witness:
  "\<exists>rc rc' t. cursor_new_at (one_chunk sample_text) 0 = Some rc \<and> text_summary_from [104, 10] = Some t \<and>
     rc_summary point_td rc (str_len ([] @ [104, 10])) = Some (rc', npoint_of (ts_lines t)) \<and> npoint_of (ts_lines t) = (1, 0) \<and>
     rc_at rc' ([] @ [104, 10]) [0x1F600]"
proof -
  obtain rc where rc: "cursor_new_at (one_chunk sample_text) 0 = Some rc" "rc_at rc [] sample_text" by (rule sample_rope_cursor)
  have at: "rc_at rc [] ([104, 10] @ [0x1F600])" using rc(2) by simp
  have len: "str_len ([] @ [104, 10] @ [0x1F600]) < 2 ^ 32" by (simp add: len_utf8_def)
  have eq: "(rows [104, 10], str_len (last_line [104, 10])) = (1, 0)" by (simp add: rows_def last_line_def NEWLINE_def)
  from rope_cursor_summary_correct [OF at len, unfolded eq] rc(1) show ?thesis by blast
qed

end
