(* ===== verification/StreamingDiff.thy ===== *)
theory StreamingDiff
  imports TextSummary "HOL-Library.Signed_Division"
begin

text \<open>
  Streaming diffs (\<open>crates/streaming_diff/src/streaming_diff.rs\<close>: \<open>Matrix\<close>, \<open>CharOperation\<close>, \<open>StreamingDiff\<close>): while a new text
  arrives in pieces, each piece is aligned with a part of the old text by dynamic programming, and the alignment is
  returned as insertions, deletions and kept bytes.

  The scores are \<open>f64\<close>. The model takes the operations on them as a record: nothing proved here depends on how they round, so
  it holds for IEEE doubles. \<open>apply_ops\<close> says what a list of operations does to a text, \<open>dp_column\<close> is the reference for the
  scores: one column per character of the new text, computed from the previous one.
\<close>

section \<open>Model\<close>

subsection \<open>Scores\<close>

record 'f score_ops =
  f_zero :: 'f
  f_neg_infinity :: 'f
  insertion_score :: 'f
  deletion_score :: 'f
  equality_base :: 'f
  f_of_usize :: "nat \<Rightarrow> 'f"
  f_add :: "'f \<Rightarrow> 'f \<Rightarrow> 'f"
  f_mul :: "'f \<Rightarrow> 'f \<Rightarrow> 'f"
  f_powi :: "'f \<Rightarrow> int \<Rightarrow> 'f"
  f_max :: "'f \<Rightarrow> 'f \<Rightarrow> 'f"
  f_greater :: "'f \<Rightarrow> 'f \<Rightarrow> bool"
  ordered_le :: "'f \<Rightarrow> 'f \<Rightarrow> bool"

subsection \<open>Matrix\<close>

record 'f matrix =
  m_cells :: "'f list"
  m_rows :: nat
  m_cols :: nat

definition matrix_new :: "'f matrix" where
  "matrix_new = \<lparr>m_cells = [], m_rows = 0, m_cols = 0\<rparr>"

definition matrix_resize :: "'f score_ops \<Rightarrow> 'f matrix \<Rightarrow> nat \<Rightarrow> nat \<Rightarrow> 'f matrix" where
  "matrix_resize F m nrows ncols =
     m\<lparr>m_cells := take (nrows * ncols) (m_cells m) @ replicate (nrows * ncols - length (m_cells m)) (f_zero F),
       m_rows := nrows, m_cols := ncols\<rparr>"

text \<open>\<open>swap_nonoverlapping\<close> is defined for two disjoint ranges inside of the vector.\<close>

definition matrix_swap_columns :: "'f matrix \<Rightarrow> nat \<Rightarrow> nat \<Rightarrow> 'f matrix option" where
  "matrix_swap_columns m col1 col2 =
     (if col1 = col2 then Some m
      else if col1 \<ge> m_cols m then None
      else if col2 \<ge> m_cols m then None
      else do {
        let r = m_rows m;
        rust_assert (m_cols m * r \<le> length (m_cells m));
        let c1 = take r (drop (col1 * r) (m_cells m));
        let c2 = take r (drop (col2 * r) (m_cells m));
        let cells = take (col1 * r) (m_cells m) @ c2 @ drop (col1 * r + r) (m_cells m);
        Some (m\<lparr>m_cells := take (col2 * r) cells @ c1 @ drop (col2 * r + r) cells\<rparr>)
      })"

definition matrix_get :: "'f matrix \<Rightarrow> nat \<Rightarrow> nat \<Rightarrow> 'f option" where
  "matrix_get m r c =
     (if r \<ge> m_rows m \<or> c \<ge> m_cols m then None
      else if c * m_rows m + r < length (m_cells m) then Some (m_cells m ! (c * m_rows m + r)) else None)"

definition matrix_set :: "'f matrix \<Rightarrow> nat \<Rightarrow> nat \<Rightarrow> 'f \<Rightarrow> 'f matrix option" where
  "matrix_set m r c v =
     (if r \<ge> m_rows m \<or> c \<ge> m_cols m then None
      else if c * m_rows m + r < length (m_cells m) then Some (m\<lparr>m_cells := (m_cells m)[c * m_rows m + r := v]\<rparr>) else None)"

text \<open>The column before, the current one, and the matrix once the current one has been written.\<close>

definition adjacent_columns_mut :: "'f matrix \<Rightarrow> nat \<Rightarrow> ('f list \<times> 'f list) option" where
  "adjacent_columns_mut m c =
     (if c = 0 \<or> c \<ge> m_cols m then None
      else do {
        let current_start = c * m_rows m;
        previous_start \<leftarrow> checked_sub current_start (m_rows m);
        rust_assert (current_start + m_rows m \<le> length (m_cells m));
        Some (take (m_rows m) (drop previous_start (m_cells m)), take (m_rows m) (drop current_start (m_cells m)))
      })"

definition matrix_write_column :: "'f matrix \<Rightarrow> nat \<Rightarrow> 'f list \<Rightarrow> 'f matrix" where
  "matrix_write_column m c xs =
     m\<lparr>m_cells := take (c * m_rows m) (m_cells m) @ xs @ drop (c * m_rows m + length xs) (m_cells m)\<rparr>"

subsection \<open>Diff\<close>

datatype char_operation = Insert "rchar list" | Delete nat | Keep nat

record 'f streaming_diff =
  sd_old :: "rchar list"
  sd_new :: "rchar list"
  sd_scores :: "'f matrix"
  old_text_ix :: nat
  new_text_ix :: nat
  previous_equal_runs :: "u32 list"
  current_equal_runs :: "u32 list"

fun init_scores :: "'f score_ops \<Rightarrow> 'f matrix \<Rightarrow> nat list \<Rightarrow> 'f matrix option" where
  "init_scores F m [] = Some m"
| "init_scores F m (i # is) = do {
     m' \<leftarrow> matrix_set m i 0 (f_mul F (f_of_usize F i) (deletion_score F));
     init_scores F m' is
   }"

definition streaming_diff_new :: "'f score_ops \<Rightarrow> rchar list \<Rightarrow> 'f streaming_diff option" where
  "streaming_diff_new F old = do {
     let old_len = length old;
     scores \<leftarrow> init_scores F (matrix_resize F matrix_new (old_len + 1) 1) [0..<old_len + 1];
     Some \<lparr>sd_old = old, sd_new = [], sd_scores = scores, old_text_ix = 0, new_text_ix = 0,
       previous_equal_runs = replicate (old_len + 1) 0, current_equal_runs = replicate (old_len + 1) 0\<rparr>
   }"

definition get_ix :: "'a list \<Rightarrow> nat \<Rightarrow> 'a option" where
  "get_ix xs i = (if i < length xs then Some (xs ! i) else None)"

definition set_ix :: "'a list \<Rightarrow> nat \<Rightarrow> 'a \<Rightarrow> 'a list option" where
  "set_ix xs i v = (if i < length xs then Some (xs[i := v]) else None)"

definition max_equality_exponent :: int where
  "max_equality_exponent = 16"

text \<open>\<open>cmp::min(equal_run as i32 / 4, MAX_EQUALITY_EXPONENT)\<close>.\<close>

definition equality_exponent :: "u32 \<Rightarrow> int" where
  "equality_exponent run = min (sint run sdiv 4) max_equality_exponent"

text \<open>The loop over the rows of a column, for the rows listed.\<close>

fun column_loop ::
  "'f score_ops \<Rightarrow> rchar list \<Rightarrow> rchar \<Rightarrow> 'f list \<Rightarrow> u32 list \<Rightarrow> 'f list \<Rightarrow> u32 list \<Rightarrow> nat list \<Rightarrow> ('f list \<times> u32 list) option" where
  "column_loop F old ch prev prev_runs cur runs [] = Some (cur, runs)"
| "column_loop F old ch prev prev_runs cur runs (i # is) = do {
     p \<leftarrow> get_ix prev i;
     let insertion = f_add F p (insertion_score F);
     c \<leftarrow> get_ix cur (i - 1);
     let deletion = f_add F c (deletion_score F);
     o1 \<leftarrow> get_ix old (i - 1);
     (equality, runs') \<leftarrow> (if o1 = ch then do {
         r \<leftarrow> get_ix prev_runs (i - 1);
         run \<leftarrow> checked_add r 1;
         runs' \<leftarrow> set_ix runs i run;
         q \<leftarrow> get_ix prev (i - 1);
         Some (f_add F q (f_powi F (equality_base F) (equality_exponent run)), runs')
       } else Some (f_neg_infinity F, runs));
     cur' \<leftarrow> set_ix cur i (f_max F (f_max F insertion deletion) equality);
     column_loop F old ch prev prev_runs cur' runs' is
   }"

text \<open>One round of the loop over the new characters.\<close>

definition push_new_char :: "'f score_ops \<Rightarrow> 'f streaming_diff \<Rightarrow> nat \<Rightarrow> 'f streaming_diff option" where
  "push_new_char F d j = do {
     let runs0 = map (\<lambda>_. 0) (current_equal_runs d);
     relative_j \<leftarrow> checked_sub j (new_text_ix d);
     ch \<leftarrow> get_ix (sd_new d) (j - 1);
     (prev, cur) \<leftarrow> adjacent_columns_mut (sd_scores d) relative_j;
     cur0 \<leftarrow> set_ix cur 0 (f_mul F (f_of_usize F j) (insertion_score F));
     (cur', runs) \<leftarrow> column_loop F (sd_old d) ch prev (previous_equal_runs d) cur0 runs0 [1..<length (sd_old d) + 1];
     Some (d\<lparr>sd_scores := matrix_write_column (sd_scores d) relative_j cur',
       previous_equal_runs := runs, current_equal_runs := previous_equal_runs d\<rparr>)
   }"

fun push_chars :: "'f score_ops \<Rightarrow> 'f streaming_diff \<Rightarrow> nat list \<Rightarrow> 'f streaming_diff option" where
  "push_chars F d [] = Some d"
| "push_chars F d (j # js) = do { d' \<leftarrow> push_new_char F d j; push_chars F d' js }"

text \<open>The row with the greatest score in a column, the first of them when there are several.\<close>

fun best_row_loop :: "'f score_ops \<Rightarrow> 'f matrix \<Rightarrow> nat \<Rightarrow> 'f \<Rightarrow> nat \<Rightarrow> nat list \<Rightarrow> nat option" where
  "best_row_loop F m c max_score ix [] = Some ix"
| "best_row_loop F m c max_score ix (i # is) = do {
     score \<leftarrow> matrix_get m i c;
     if f_greater F score max_score then best_row_loop F m c score i is else best_row_loop F m c max_score ix is
   }"

subsection \<open>Backtracking\<close>

text \<open>\<open>max_by_key\<close>: \<open>None\<close> is smaller than every score, and of equal keys the last one wins.\<close>

definition key_le :: "'f score_ops \<Rightarrow> 'f option \<Rightarrow> 'f option \<Rightarrow> bool" where
  "key_le F a b = (case a of None \<Rightarrow> True | Some x \<Rightarrow> (case b of None \<Rightarrow> False | Some y \<Rightarrow> ordered_le F x y))"

definition cell_key :: "'f streaming_diff \<Rightarrow> (nat \<times> nat) option \<Rightarrow> 'f option option" where
  "cell_key d cell = (case cell of None \<Rightarrow> Some None
     | Some (i, j) \<Rightarrow> do { c \<leftarrow> checked_sub j (new_text_ix d); s \<leftarrow> matrix_get (sd_scores d) i c; Some (Some s) })"

definition max_cell ::
  "'f score_ops \<Rightarrow> 'f streaming_diff \<Rightarrow> (nat \<times> nat) option \<Rightarrow> (nat \<times> nat) option \<Rightarrow> (nat \<times> nat) option option" where
  "max_cell F d x y = do { kx \<leftarrow> cell_key d x; ky \<leftarrow> cell_key d y; Some (if key_le F kx ky then y else x) }"

definition previous_cell :: "'f score_ops \<Rightarrow> 'f streaming_diff \<Rightarrow> nat \<Rightarrow> nat \<Rightarrow> (nat \<times> nat) option" where
  "previous_cell F d i j = do {
     let insertion = (if j > new_text_ix d then Some (i, j - 1) else None);
     let deletion = (if i > old_text_ix d then Some (i - 1, j) else None);
     equality \<leftarrow> (if i > old_text_ix d \<and> j > new_text_ix d
        then do { a \<leftarrow> get_ix (sd_old d) (i - 1); b \<leftarrow> get_ix (sd_new d) (j - 1); Some (if a = b then Some (i - 1, j - 1) else None) }
        else Some None);
     best \<leftarrow> max_cell F d insertion deletion;
     best' \<leftarrow> max_cell F d best equality;
     best'
   }"

text \<open>\<open>hunks.last_mut()\<close>: extend the last operation or push a new one.\<close>

definition push_delete :: "char_operation list \<Rightarrow> nat \<Rightarrow> char_operation list" where
  "push_delete hunks n = (case rev hunks of Delete m # hs \<Rightarrow> rev (Delete (m + n) # hs) | _ \<Rightarrow> hunks @ [Delete n])"

definition push_keep :: "char_operation list \<Rightarrow> nat \<Rightarrow> char_operation list" where
  "push_keep hunks n = (case rev hunks of Keep m # hs \<Rightarrow> rev (Keep (m + n) # hs) | _ \<Rightarrow> hunks @ [Keep n])"

definition flush_pending :: "'f streaming_diff \<Rightarrow> (nat \<times> nat) option \<Rightarrow> char_operation list \<Rightarrow> char_operation list option" where
  "flush_pending d pending hunks = (case pending of None \<Rightarrow> Some hunks
     | Some (a, b) \<Rightarrow> do {
         rust_assert (a \<le> b \<and> b \<le> length (sd_new d));
         Some (hunks @ [Insert (take (b - a) (drop a (sd_new d)))])
       })"

definition backtrack_step ::
  "'f streaming_diff \<Rightarrow> nat \<times> nat \<Rightarrow> nat \<times> nat \<Rightarrow> (nat \<times> nat) option \<Rightarrow> char_operation list
     \<Rightarrow> ((nat \<times> nat) option \<times> char_operation list) option" where
  "backtrack_step d = (\<lambda>(i, j) (prev_i, prev_j) pending hunks.
     if prev_i = i \<and> prev_j = j - 1 then
       Some (case pending of Some (_, b) \<Rightarrow> Some (prev_j, b) | None \<Rightarrow> Some (prev_j, j), hunks)
     else do {
       hunks' \<leftarrow> flush_pending d pending hunks;
       o1 \<leftarrow> get_ix (sd_old d) (i - 1);
       let char_len = len_utf8 o1;
       Some (None, if prev_i = i - 1 \<and> prev_j = j then push_delete hunks' char_len else push_keep hunks' char_len)
     })"

lemma previous_cell_less: "previous_cell F d i j = Some (a, b) \<Longrightarrow> a + b < i + j"
  by (auto simp: previous_cell_def max_cell_def bind_eq_Some_conv Let_def split: if_splits)

function backtrack_loop ::
  "'f score_ops \<Rightarrow> 'f streaming_diff \<Rightarrow> (nat \<times> nat) option \<Rightarrow> char_operation list \<Rightarrow> nat \<Rightarrow> nat \<Rightarrow> char_operation list option" where
  "backtrack_loop F d pending hunks i j =
     (if (i, j) = (old_text_ix d, new_text_ix d) then map_option rev (flush_pending d pending hunks)
      else do {
        (prev_i, prev_j) \<leftarrow> previous_cell F d i j;
        (pending', hunks') \<leftarrow> backtrack_step d (i, j) (prev_i, prev_j) pending hunks;
        backtrack_loop F d pending' hunks' prev_i prev_j
      })"
  by pat_completeness auto
termination
  by (relation "measure (\<lambda>(F, d, pending, hunks, i, j). i + j)") (auto dest: previous_cell_less)

declare backtrack_loop.simps [simp del]

definition backtrack :: "'f score_ops \<Rightarrow> 'f streaming_diff \<Rightarrow> nat \<Rightarrow> nat \<Rightarrow> char_operation list option" where
  "backtrack F d i j = backtrack_loop F d None [] i j"

definition push_new :: "'f score_ops \<Rightarrow> 'f streaming_diff \<Rightarrow> rchar list \<Rightarrow> (char_operation list \<times> 'f streaming_diff) option" where
  "push_new F d text = do {
     let d1 = d\<lparr>sd_new := sd_new d @ text\<rparr>;
     last_col \<leftarrow> checked_sub (m_cols (sd_scores d1)) 1;
     m \<leftarrow> matrix_swap_columns (sd_scores d1) 0 last_col;
     n \<leftarrow> checked_sub (length (sd_new d1)) (new_text_ix d1);
     let d2 = d1\<lparr>sd_scores := matrix_resize F m (length (sd_old d1) + 1) (n + 1)\<rparr>;
     d3 \<leftarrow> push_chars F d2 [new_text_ix d2 + 1..<length (sd_new d2) + 1];
     let next_new = length (sd_new d3);
     next_old \<leftarrow> best_row_loop F (sd_scores d3) (next_new - new_text_ix d3) (f_neg_infinity F) (old_text_ix d3)
       [old_text_ix d3..<length (sd_old d3) + 1];
     hunks \<leftarrow> backtrack F d3 next_old next_new;
     Some (hunks, d3\<lparr>old_text_ix := next_old, new_text_ix := next_new\<rparr>)
   }"

definition diff_finish :: "'f score_ops \<Rightarrow> 'f streaming_diff \<Rightarrow> char_operation list option" where
  "diff_finish F d = backtrack F d (length (sd_old d)) (length (sd_new d))"

section \<open>What operations do to a text\<close>

text \<open>The longest way to take whole characters of exactly \<open>n\<close> bytes from the front.\<close>

fun split_bytes :: "nat \<Rightarrow> rchar list \<Rightarrow> (rchar list \<times> rchar list) option" where
  "split_bytes n [] = (if n = 0 then Some ([], []) else None)"
| "split_bytes n (c # s) =
     (if n = 0 then Some ([], c # s)
      else if len_utf8 c \<le> n then map_option (\<lambda>(a, b). (c # a, b)) (split_bytes (n - len_utf8 c) s) else None)"

text \<open>The text that operations produce from the old text, and what they leave of it.\<close>

fun apply_ops :: "char_operation list \<Rightarrow> rchar list \<Rightarrow> (rchar list \<times> rchar list) option" where
  "apply_ops [] s = Some ([], s)"
| "apply_ops (Insert t # ops) s = map_option (\<lambda>(out, rest). (t @ out, rest)) (apply_ops ops s)"
| "apply_ops (Keep n # ops) s = do { (a, b) \<leftarrow> split_bytes n s; (out, rest) \<leftarrow> apply_ops ops b; Some (a @ out, rest) }"
| "apply_ops (Delete n # ops) s = do { (a, b) \<leftarrow> split_bytes n s; apply_ops ops b }"

lemma split_bytes_0 [simp]: "split_bytes 0 s = Some ([], s)"
  by (cases s) simp_all

lemma split_bytes_Cons: "split_bytes (len_utf8 c + n) (c # s) = map_option (\<lambda>(a, b). (c # a, b)) (split_bytes n s)"
  using len_utf8_pos(1) [of c] by simp

lemma split_bytes_one: "split_bytes (len_utf8 c) (c # s) = Some ([c], s)"
  using split_bytes_Cons [of c 0 s] by simp

lemma apply_ops_append:
  "apply_ops (xs @ ys) s = do { (out, rest) \<leftarrow> apply_ops xs s; (out', rest') \<leftarrow> apply_ops ys rest; Some (out @ out', rest') }"
proof (induction xs arbitrary: s)
  case Nil
  then show ?case by (cases "apply_ops ys s") auto
next
  case (Cons x xs)
  then show ?case
    by (cases x; cases "apply_ops xs s") (auto simp: map_option_bind split: Option.bind_splits prod.splits)
qed

lemma apply_push_delete:
  "apply_ops (rev hs) s = Some (t, rest) \<Longrightarrow> apply_ops (rev (push_delete hs (len_utf8 c))) (c # s) = Some (t, rest)"
proof (cases "rev hs")
  case (Cons h gs)
  assume a: "apply_ops (rev hs) s = Some (t, rest)"
  then show ?thesis
    by (cases h) (auto simp: push_delete_def Cons split_bytes_Cons split_bytes_one add.commute [of _ "len_utf8 c"] bind_eq_Some_conv simp del: split_bytes.simps)
qed (simp add: push_delete_def split_bytes_one del: split_bytes.simps)

lemma apply_push_keep:
  "apply_ops (rev hs) s = Some (t, rest) \<Longrightarrow> apply_ops (rev (push_keep hs (len_utf8 c))) (c # s) = Some (c # t, rest)"
proof (cases "rev hs")
  case (Cons h gs)
  assume a: "apply_ops (rev hs) s = Some (t, rest)"
  then show ?thesis
    by (cases h) (auto simp: push_keep_def Cons split_bytes_Cons split_bytes_one add.commute [of _ "len_utf8 c"] bind_eq_Some_conv simp del: split_bytes.simps)
qed (simp add: push_keep_def split_bytes_one del: split_bytes.simps)

section \<open>Backtracking\<close>

text \<open>The shape of a diff: one row per position of the old text, one column per position of the unaligned new text.\<close>

definition diff_shape :: "'f streaming_diff \<Rightarrow> bool" where
  "diff_shape d \<longleftrightarrow> m_rows (sd_scores d) = length (sd_old d) + 1 \<and> length (m_cells (sd_scores d)) = m_rows (sd_scores d) * m_cols (sd_scores d)
     \<and> old_text_ix d \<le> length (sd_old d) \<and> new_text_ix d \<le> length (sd_new d)
     \<and> length (previous_equal_runs d) = length (sd_old d) + 1 \<and> length (current_equal_runs d) = length (sd_old d) + 1"

definition columns_ok :: "'f streaming_diff \<Rightarrow> bool" where
  "columns_ok d \<longleftrightarrow> length (sd_new d) - new_text_ix d < m_cols (sd_scores d)"

lemma index_bound: "r < n \<Longrightarrow> c < k \<Longrightarrow> c * n + r < n * k" for r n c k :: nat
proof -
  assume "r < n" "c < k"
  then have "c * n + r < Suc c * n" by simp
  also have "\<dots> \<le> k * n" by (rule mult_le_mono1) (use \<open>c < k\<close> in simp)
  finally show ?thesis by (simp add: mult.commute)
qed

lemma matrix_get_Some:
  assumes "length (m_cells m) = m_rows m * m_cols m" "r < m_rows m" "c < m_cols m"
  shows "\<exists>s. matrix_get m r c = Some s"
  using assms index_bound [OF assms(2,3)] by (simp add: matrix_get_def)

definition cell_in :: "'f streaming_diff \<Rightarrow> (nat \<times> nat) option \<Rightarrow> bool" where
  "cell_in d cell \<longleftrightarrow> (case cell of None \<Rightarrow> True
     | Some (i, j) \<Rightarrow> i \<le> length (sd_old d) \<and> new_text_ix d \<le> j \<and> j \<le> length (sd_new d))"

lemma cell_key_Some:
  assumes "diff_shape d" "columns_ok d" "cell_in d cell"
  shows "\<exists>k. cell_key d cell = Some k \<and> (k = None \<longleftrightarrow> cell = None)"
proof (cases cell)
  case (Some c)
  obtain i j where c: "c = (i, j)" by fastforce
  then have "\<exists>s. matrix_get (sd_scores d) i (j - new_text_ix d) = Some s"
    using assms Some by (intro matrix_get_Some) (auto simp: diff_shape_def columns_ok_def cell_in_def)
  then show ?thesis using assms(3) Some c by (auto simp: cell_key_def cell_in_def)
qed (simp add: cell_key_def)

lemma previous_cell_Some:
  assumes d: "diff_shape d" "columns_ok d"
      and ij: "old_text_ix d \<le> i" "i \<le> length (sd_old d)" "new_text_ix d \<le> j" "j \<le> length (sd_new d)" "(i, j) \<noteq> (old_text_ix d, new_text_ix d)"
  shows "previous_cell F d i j = Some (i, j - 1) \<and> new_text_ix d < j
    \<or> previous_cell F d i j = Some (i - 1, j) \<and> old_text_ix d < i
    \<or> previous_cell F d i j = Some (i - 1, j - 1) \<and> old_text_ix d < i \<and> new_text_ix d < j \<and> sd_old d ! (i - 1) = sd_new d ! (j - 1)"
proof -
  define ins where "ins = (if j > new_text_ix d then Some (i, j - 1) else None)"
  define del where "del = (if i > old_text_ix d then Some (i - 1, j) else None)"
  define eq where "eq = (if i > old_text_ix d \<and> j > new_text_ix d \<and> sd_old d ! (i - 1) = sd_new d ! (j - 1) then Some (i - 1, j - 1) else None)"
  have e: "(if i > old_text_ix d \<and> j > new_text_ix d
        then do { a \<leftarrow> get_ix (sd_old d) (i - 1); b \<leftarrow> get_ix (sd_new d) (j - 1); Some (if a = b then Some (i - 1, j - 1) else None) }
        else Some None) = Some eq"
    using ij by (auto simp: eq_def get_ix_def)
  have cells: "cell_in d ins" "cell_in d del" "cell_in d eq"
    using ij by (auto simp: cell_in_def ins_def del_def eq_def)
  obtain kx where x: "cell_key d ins = Some kx" "kx = None \<longleftrightarrow> ins = None" 
    using cell_key_Some [OF d, of ins] cells by blast
  obtain ky where y: "cell_key d del = Some ky" "ky = None \<longleftrightarrow> del = None" 
    using cell_key_Some [OF d, of del] cells by blast
  obtain kz where z: "cell_key d eq = Some kz" "kz = None \<longleftrightarrow> eq = None" 
    using cell_key_Some [OF d, of eq] cells by blast
  have some: "ins \<noteq> None \<or> del \<noteq> None" using ij by (auto simp: ins_def del_def)
  obtain best where best: "max_cell F d ins del = Some best" "best \<noteq> None" "best = ins \<or> best = del"
    using x y some by (cases kx; cases ky) (auto simp: max_cell_def key_le_def)
  have "max_cell F d best eq = Some eq \<and> eq \<noteq> None \<or> max_cell F d best eq = Some best"
    using x y z best by (cases kz) (auto simp: max_cell_def key_le_def)
  moreover have "previous_cell F d i j = do { b \<leftarrow> max_cell F d best eq; b }"
    unfolding previous_cell_def Let_def e ins_def [symmetric] del_def [symmetric] by (simp add: best)
  ultimately show ?thesis using best some by (auto simp: ins_def del_def eq_def split: if_splits)
qed

text \<open>
  While backtracking at \<open>(i, j)\<close>, the hunks and the pending insertion produce the new text from \<open>j\<close> on when applied to the old
  text from \<open>i\<close> on.
\<close>

definition hunks_ok ::
  "'f streaming_diff \<Rightarrow> rchar list \<Rightarrow> nat \<Rightarrow> nat \<Rightarrow> (nat \<times> nat) option \<Rightarrow> char_operation list \<Rightarrow> bool" where
  "hunks_ok d rest i j pending hunks \<longleftrightarrow> (case pending of
     None \<Rightarrow> apply_ops (rev hunks) (drop i (sd_old d)) = Some (drop j (sd_new d), rest)
   | Some (a, b) \<Rightarrow> a = j \<and> a \<le> b \<and> b \<le> length (sd_new d)
       \<and> apply_ops (rev hunks) (drop i (sd_old d)) = Some (drop b (sd_new d), rest))"

lemma flush_pending_ok:
  assumes "hunks_ok d rest i j pending hunks"
  shows "\<exists>hs. flush_pending d pending hunks = Some hs \<and> hunks_ok d rest i j None hs"
proof (cases pending)
  case (Some p)
  obtain a b where p: "p = (a, b)" by fastforce
  then have "take (b - j) (drop j (sd_new d)) @ drop b (sd_new d) = drop j (sd_new d)"
    using assms Some append_take_drop_id [of "b - j" "drop j (sd_new d)"] by (simp add: hunks_ok_def)
  then show ?thesis using assms Some p by (auto simp: flush_pending_def hunks_ok_def)
qed (use assms in \<open>simp add: flush_pending_def\<close>)

lemma backtrack_step_ok:
  assumes h: "hunks_ok d rest i j pending hunks" and ij: "i \<le> length (sd_old d)" "j \<le> length (sd_new d)"
      and prev: "p = (i, j - 1) \<and> 0 < j \<or> p = (i - 1, j) \<and> 0 < i \<or> p = (i - 1, j - 1) \<and> 0 < i \<and> 0 < j \<and> sd_old d ! (i - 1) = sd_new d ! (j - 1)"
  shows "\<exists>pending' hunks'. backtrack_step d (i, j) p pending hunks = Some (pending', hunks') \<and> hunks_ok d rest (fst p) (snd p) pending' hunks'"
proof (cases "p = (i, j - 1) \<and> 0 < j")
  case True
  then show ?thesis using h ij by (auto simp: backtrack_step_def hunks_ok_def split: option.splits)
next
  case False
  then have i: "0 < i" "p \<noteq> (i, j - 1)" using prev by auto
  obtain hs where hs: "flush_pending d pending hunks = Some hs" "apply_ops (rev hs) (drop i (sd_old d)) = Some (drop j (sd_new d), rest)"
    using flush_pending_ok [OF h] by (auto simp: hunks_ok_def)
  let ?c = "sd_old d ! (i - 1)"
  have old: "drop (i - 1) (sd_old d) = ?c # drop i (sd_old d)" "get_ix (sd_old d) (i - 1) = Some ?c"
    using i(1) ij(1) Cons_nth_drop_Suc [of "i - 1" "sd_old d"] by (simp_all add: get_ix_def)
  consider "p = (i - 1, j)" | "p = (i - 1, j - 1)" "0 < j" "?c = sd_new d ! (j - 1)" using prev False by blast
  then show ?thesis
  proof cases
    case 1
    then show ?thesis using hs old i(1) apply_push_delete [OF hs(2), of ?c] by (auto simp: backtrack_step_def hunks_ok_def Let_def)
  next
    case 2
    have "drop (j - 1) (sd_new d) = ?c # drop j (sd_new d)"
      using 2 ij(2) Cons_nth_drop_Suc [of "j - 1" "sd_new d"] by simp
    then show ?thesis using 2 hs old i apply_push_keep [OF hs(2), of ?c] by (auto simp: backtrack_step_def hunks_ok_def Let_def)
  qed
qed

lemma backtrack_loop_ok:
  assumes d: "diff_shape d" "columns_ok d"
  shows "hunks_ok d rest i j pending hunks \<Longrightarrow> old_text_ix d \<le> i \<Longrightarrow> i \<le> length (sd_old d) \<Longrightarrow> new_text_ix d \<le> j \<Longrightarrow> j \<le> length (sd_new d)
    \<Longrightarrow> \<exists>ops. backtrack_loop F d pending hunks i j = Some ops
      \<and> apply_ops ops (drop (old_text_ix d) (sd_old d)) = Some (drop (new_text_ix d) (sd_new d), rest)"
proof (induction "i + j" arbitrary: i j pending hunks rule: less_induct)
  case less
  show ?case
  proof (cases "(i, j) = (old_text_ix d, new_text_ix d)")
    case True
    then show ?thesis using flush_pending_ok [OF less.prems(1)]
      unfolding backtrack_loop.simps [of F d pending hunks i j] by (auto simp: hunks_ok_def)
  next
    case False
    obtain p where p: "previous_cell F d i j = Some p"
      "p = (i, j - 1) \<and> new_text_ix d < j \<or> p = (i - 1, j) \<and> old_text_ix d < i
        \<or> p = (i - 1, j - 1) \<and> old_text_ix d < i \<and> new_text_ix d < j \<and> sd_old d ! (i - 1) = sd_new d ! (j - 1)"
      using previous_cell_Some [OF d less.prems(2-5) False, of F] by blast
    obtain pending' hunks' where step: "backtrack_step d (i, j) p pending hunks = Some (pending', hunks')"
      "hunks_ok d rest (fst p) (snd p) pending' hunks'"
      using backtrack_step_ok [OF less.prems(1,3,5), of p] p(2) by fastforce
    have "\<exists>ops. backtrack_loop F d pending' hunks' (fst p) (snd p) = Some ops
        \<and> apply_ops ops (drop (old_text_ix d) (sd_old d)) = Some (drop (new_text_ix d) (sd_new d), rest)"
      by (rule less.hyps [OF _ step(2)]) (use p(2) less.prems in auto)
    then show ?thesis using False p(1) step(1)
      by (cases p) (auto simp: backtrack_loop.simps [of F d pending hunks i j])
  qed
qed

lemma backtrack_ok:
  assumes "diff_shape d" "columns_ok d" "old_text_ix d \<le> i" "i \<le> length (sd_old d)"
  shows "\<exists>ops. backtrack F d i (length (sd_new d)) = Some ops
    \<and> apply_ops ops (drop (old_text_ix d) (sd_old d)) = Some (drop (new_text_ix d) (sd_new d), drop i (sd_old d))"
  unfolding backtrack_def
  by (rule backtrack_loop_ok) (use assms in \<open>auto simp: hunks_ok_def diff_shape_def\<close>)

section \<open>Scores\<close>

text \<open>The reference: the rows of a column below the first, with the lengths of the runs of equal characters.\<close>

fun dp_rows :: "'f score_ops \<Rightarrow> rchar \<Rightarrow> 'f \<Rightarrow> rchar list \<Rightarrow> 'f list \<Rightarrow> u32 list \<Rightarrow> ('f \<times> u32) list" where
  "dp_rows F ch c (o1 # os) (p # q # ps) (r # rs) =
     (let equality = (if o1 = ch then f_add F p (f_powi F (equality_base F) (equality_exponent (r + 1))) else f_neg_infinity F);
          x = f_max F (f_max F (f_add F q (insertion_score F)) (f_add F c (deletion_score F))) equality
      in (x, if o1 = ch then r + 1 else 0) # dp_rows F ch x os (q # ps) rs)"
| "dp_rows F ch c _ _ _ = []"

definition dp_step :: "'f score_ops \<Rightarrow> rchar list \<Rightarrow> 'f list \<times> u32 list \<Rightarrow> nat \<Rightarrow> rchar \<Rightarrow> 'f list \<times> u32 list" where
  "dp_step F old = (\<lambda>(col, runs) j ch.
     let c0 = f_mul F (f_of_usize F j) (insertion_score F); xs = dp_rows F ch c0 old col runs
     in (c0 # map fst xs, 0 # map snd xs))"

definition dp_init :: "'f score_ops \<Rightarrow> rchar list \<Rightarrow> 'f list \<times> u32 list" where
  "dp_init F old = (map (\<lambda>i. f_mul F (f_of_usize F i) (deletion_score F)) [0..<length old + 1], replicate (length old + 1) 0)"

fun dp_from :: "'f score_ops \<Rightarrow> rchar list \<Rightarrow> 'f list \<times> u32 list \<Rightarrow> nat \<Rightarrow> rchar list \<Rightarrow> 'f list \<times> u32 list" where
  "dp_from F old s j [] = s"
| "dp_from F old s j (c # cs) = dp_from F old (dp_step F old s (Suc j) c) (Suc j) cs"

definition dp_column :: "'f score_ops \<Rightarrow> rchar list \<Rightarrow> rchar list \<Rightarrow> 'f list \<times> u32 list" where
  "dp_column F old new = dp_from F old (dp_init F old) 0 new"

lemma dp_from_append: "dp_from F old s j (xs @ ys) = dp_from F old (dp_from F old s j xs) (j + length xs) ys"
  by (induction xs arbitrary: s j) simp_all

lemma dp_rows_length: "length prev = length os + 1 \<Longrightarrow> length os \<le> length rs \<Longrightarrow> length (dp_rows F ch c os prev rs) = length os"
proof (induction os arbitrary: prev rs c)
  case (Cons x os)
  then obtain p q ps r rs' where "prev = p # q # ps" "rs = r # rs'" by (cases prev; cases rs; cases "tl prev") auto
  with Cons show ?case by (simp add: Let_def)
qed simp

lemma dp_rows_runs: "\<forall>r \<in> set rs. unat r \<le> k \<Longrightarrow> k + 1 < 2 ^ 32 \<Longrightarrow> \<forall>r \<in> snd ` set (dp_rows F ch c os prev rs). unat r \<le> k + 1"
proof (induction F ch c os prev rs rule: dp_rows.induct)
  case (1 F ch c o1 os p q ps r rs)
  have "unat (r + 1) \<le> unat r + 1" by (metis unat_1 unat_plus_simple word_le_less_eq le_refl unat_word_ariths(1) mod_less_eq_dividend)
  then have "unat (r + 1) \<le> k + 1" using 1 by fastforce
  with 1 show ?case by (simp add: Let_def)
qed simp_all

lemma column_loop_correct:
  assumes "length prev = length old + 1" "length prev_runs = length old + 1" "\<forall>r \<in> set prev_runs. unat r + 1 < 2 ^ 32"
  shows "old = xs @ os \<Longrightarrow> length dn = Suc (length xs) \<Longrightarrow> length dn + length ys = length old + 1 \<Longrightarrow> length rdn = length dn
    \<Longrightarrow> length rdn + length zs = length old + 1 \<Longrightarrow> \<forall>z \<in> set zs. z = 0 \<Longrightarrow>
    column_loop F old ch prev prev_runs (dn @ ys) (rdn @ zs) [length dn..<length old + 1] =
      Some (dn @ map fst (dp_rows F ch (last dn) os (drop (length xs) prev) (drop (length xs) prev_runs)),
        rdn @ map snd (dp_rows F ch (last dn) os (drop (length xs) prev) (drop (length xs) prev_runs)))"
proof (induction os arbitrary: xs dn ys rdn zs)
  case (Cons o1 os)
  let ?k = "length xs"
  from Cons.prems obtain y ys' z zs' where yz: "ys = y # ys'" "zs = z # zs'" "z = 0" by (cases ys; cases zs) auto
  have k: "Suc ?k < length prev" "?k < length prev_runs" using assms Cons.prems(1) by simp_all
  define ps where "ps = drop (Suc (Suc ?k)) prev"
  have ps: "drop (Suc ?k) prev = prev ! Suc ?k # ps" using Cons_nth_drop_Suc [OF k(1)] by (simp add: ps_def)
  have pd: "drop ?k prev = prev ! ?k # prev ! Suc ?k # ps" "drop ?k prev_runs = prev_runs ! ?k # drop (Suc ?k) prev_runs"
    using k Cons_nth_drop_Suc [of ?k prev] ps by (simp_all add: Cons_nth_drop_Suc)
  have r: "checked_add (prev_runs ! ?k) 1 = Some (prev_runs ! ?k + 1)" using assms(3) k by (simp add: checked_add_def)
  have upt: "[length dn..<length old + 1] = length dn # [Suc (length dn)..<length old + 1]"
    by (rule upt_conv_Cons) (use Cons.prems in simp)
  define e where "e = (if o1 = ch then f_add F (prev ! ?k) (f_powi F (equality_base F) (equality_exponent (prev_runs ! ?k + 1))) else f_neg_infinity F)"
  define x where "x = f_max F (f_max F (f_add F (prev ! Suc ?k) (insertion_score F)) (f_add F (last dn) (deletion_score F))) e"
  define run where "run = (if o1 = ch then prev_runs ! ?k + 1 else 0)"
  have "dn \<noteq> []" using Cons.prems(2) by auto
  then have g: "get_ix prev (length dn) = Some (prev ! Suc ?k)" "get_ix (dn @ ys) (length dn - 1) = Some (last dn)"
    "get_ix old (length dn - 1) = Some o1" "get_ix prev_runs (length dn - 1) = Some (prev_runs ! ?k)" "get_ix prev (length dn - 1) = Some (prev ! ?k)"
    "set_ix (dn @ ys) (length dn) v = Some ((dn @ [v]) @ ys')" "set_ix (rdn @ zs) (length dn) w = Some ((rdn @ [w]) @ zs')" for v w
    using k Cons.prems yz by (simp_all add: get_ix_def set_ix_def nth_append last_conv_nth list_update_append)
  have "column_loop F old ch prev prev_runs (dn @ ys) (rdn @ zs) [length dn..<length old + 1]
      = column_loop F old ch prev prev_runs ((dn @ [x]) @ ys') ((rdn @ [run]) @ zs') [length (dn @ [x])..<length old + 1]"
    unfolding upt column_loop.simps using g r yz by (simp add: x_def e_def run_def Let_def)
  also have "\<dots> = Some ((dn @ [x]) @ map fst (dp_rows F ch (last (dn @ [x])) os (drop (length (xs @ [o1])) prev) (drop (length (xs @ [o1])) prev_runs)),
      (rdn @ [run]) @ map snd (dp_rows F ch (last (dn @ [x])) os (drop (length (xs @ [o1])) prev) (drop (length (xs @ [o1])) prev_runs)))"
    by (rule Cons.IH) (use Cons.prems yz in auto)
  also have "dp_rows F ch (last (dn @ [x])) os (drop (length (xs @ [o1])) prev) (drop (length (xs @ [o1])) prev_runs)
      = tl (dp_rows F ch (last dn) (o1 # os) (drop ?k prev) (drop ?k prev_runs))"
    unfolding pd by (simp add: x_def e_def Let_def ps)
  also have "(dn @ [x]) @ map fst (tl (dp_rows F ch (last dn) (o1 # os) (drop ?k prev) (drop ?k prev_runs)))
      = dn @ map fst (dp_rows F ch (last dn) (o1 # os) (drop ?k prev) (drop ?k prev_runs))"
    unfolding pd by (simp add: x_def e_def Let_def)
  also have "(rdn @ [run]) @ map snd (tl (dp_rows F ch (last dn) (o1 # os) (drop ?k prev) (drop ?k prev_runs)))
      = rdn @ map snd (dp_rows F ch (last dn) (o1 # os) (drop ?k prev) (drop ?k prev_runs))"
    unfolding pd by (simp add: run_def Let_def)
  finally show ?case .
qed simp

definition column_at :: "'f matrix \<Rightarrow> nat \<Rightarrow> 'f list" where
  "column_at m c = take (m_rows m) (drop (c * m_rows m) (m_cells m))"

lemma column_room: "c < k \<Longrightarrow> c * n + n \<le> n * k" for c k n :: nat
  using mult_le_mono1 [of "Suc c" k n] by (simp add: mult.commute add.commute)

lemma write_column:
  assumes "length (m_cells m) = m_rows m * m_cols m" "length xs = m_rows m" "c < m_cols m"
  shows "column_at (matrix_write_column m c xs) c = xs" "length (m_cells (matrix_write_column m c xs)) = m_rows m * m_cols m"
  using assms column_room [OF assms(3), of "m_rows m"] by (simp_all add: column_at_def matrix_write_column_def)

lemma adjacent_columns:
  assumes "length (m_cells m) = m_rows m * m_cols m" "0 < c" "c < m_cols m"
  shows "adjacent_columns_mut m c = Some (column_at m (c - 1), column_at m c)"
  using assms column_room [OF assms(3), of "m_rows m"]
  by (cases c) (simp_all add: adjacent_columns_mut_def column_at_def rust_assert_def)

lemma column_length: "length (m_cells m) = m_rows m * m_cols m \<Longrightarrow> c < m_cols m \<Longrightarrow> length (column_at m c) = m_rows m"
  using column_room [of c "m_cols m" "m_rows m"] by (simp add: column_at_def)

lemma swap_to_front:
  assumes "length (m_cells m) = m_rows m * m_cols m" "0 < m_cols m"
  shows "\<exists>m'. matrix_swap_columns m 0 (m_cols m - 1) = Some m' \<and> column_at m' 0 = column_at m (m_cols m - 1)
    \<and> m_rows m' = m_rows m \<and> m_cols m' = m_cols m \<and> length (m_cells m') = length (m_cells m)"
proof (cases "m_cols m - 1 = 0")
  case True
  then show ?thesis by (simp add: matrix_swap_columns_def)
next
  case False
  then obtain l where l: "m_cols m = Suc (Suc l)" by (cases "m_cols m"; cases "m_cols m - 1") simp_all
  let ?r = "m_rows m"
  define k where "k = l * ?r"
  have room: "length (m_cells m) = ?r + k + ?r" using assms l by (simp add: k_def)
  define x y z where "x = take ?r (m_cells m)" and "y = take k (drop ?r (m_cells m))" and "z = drop (?r + k) (m_cells m)"
  have "drop ?r (m_cells m) = y @ z"
    using append_take_drop_id [of k "drop ?r (m_cells m)"] by (simp add: y_def z_def add.commute)
  then have cells: "m_cells m = x @ y @ z" "length x = ?r" "length y = k" "length z = ?r"
    using room append_take_drop_id [of ?r "m_cells m"] by (simp_all add: x_def y_def z_def)
  have start: "Suc l * ?r = ?r + k" by (simp add: k_def)
  have swap: "matrix_swap_columns m 0 (Suc l) = Some (m\<lparr>m_cells := z @ y @ x\<rparr>)"
    unfolding matrix_swap_columns_def start cells(1) Let_def using l cells(2-4) k_def by (simp add: rust_assert_def)
  have "column_at m (Suc l) = z" unfolding column_at_def start cells(1) using cells(2-4) by simp
  then show ?thesis using swap cells l by (simp add: column_at_def)
qed

lemma resize_front:
  assumes "length (m_cells m) = m_rows m * m_cols m" "0 < m_cols m"
  shows "column_at (matrix_resize F m (m_rows m) (n + 1)) 0 = column_at m 0"
    "length (m_cells (matrix_resize F m (m_rows m) (n + 1))) = m_rows m * (n + 1)"
proof -
  have "m_rows m \<le> length (m_cells m)" using assms by simp
  then show "column_at (matrix_resize F m (m_rows m) (n + 1)) 0 = column_at m 0"
    by (simp add: column_at_def matrix_resize_def min_def)
  show "length (m_cells (matrix_resize F m (m_rows m) (n + 1))) = m_rows m * (n + 1)"
    by (simp add: matrix_resize_def)
qed

text \<open>The state while characters are pushed: the last column written and the runs are those of the reference.\<close>

definition scores_ok :: "'f score_ops \<Rightarrow> 'f streaming_diff \<Rightarrow> nat \<Rightarrow> bool" where
  "scores_ok F d j \<longleftrightarrow> new_text_ix d \<le> j \<and> j \<le> length (sd_new d)
     \<and> (column_at (sd_scores d) (j - new_text_ix d), previous_equal_runs d) = dp_column F (sd_old d) (take j (sd_new d))
     \<and> (\<forall>r \<in> set (previous_equal_runs d). unat r \<le> j)"

lemma push_new_char_correct:
  assumes d: "diff_shape d" "columns_ok d" "scores_ok F d j" and j: "j < length (sd_new d)" "length (sd_new d) < 2 ^ 32 - 1"
  shows "\<exists>m rs cs. push_new_char F d (Suc j) = Some (d\<lparr>sd_scores := m, previous_equal_runs := rs, current_equal_runs := cs\<rparr>)
    \<and> diff_shape (d\<lparr>sd_scores := m, previous_equal_runs := rs, current_equal_runs := cs\<rparr>)
    \<and> m_cols m = m_cols (sd_scores d)
    \<and> scores_ok F (d\<lparr>sd_scores := m, previous_equal_runs := rs, current_equal_runs := cs\<rparr>) (Suc j)"
proof -
  let ?m = "sd_scores d" and ?old = "sd_old d" and ?runs = "previous_equal_runs d"
  let ?c = "Suc j - new_text_ix d" and ?ch = "sd_new d ! j" and ?top = "f_mul F (f_of_usize F (Suc j)) (insertion_score F)"
  have len: "length (m_cells ?m) = m_rows ?m * m_cols ?m" "m_rows ?m = length ?old + 1" "length ?runs = length ?old + 1"
    "length (current_equal_runs d) = length ?old + 1" using d(1) by (simp_all add: diff_shape_def)
  have ix: "new_text_ix d \<le> j" and col: "(column_at ?m (j - new_text_ix d), ?runs) = dp_column F ?old (take j (sd_new d))"
    and small: "\<forall>r \<in> set ?runs. unat r \<le> j" using d(3) by (simp_all add: scores_ok_def)
  have c: "0 < ?c" "?c < m_cols ?m" "?c - 1 = j - new_text_ix d" using ix j(1) d(2) by (simp_all add: columns_ok_def)
  define prev where "prev = column_at ?m (j - new_text_ix d)"
  have lp: "length prev = length ?old + 1" using column_length [OF len(1), of "j - new_text_ix d"] c len(2) by (simp add: prev_def)
  obtain y ys where cur: "column_at ?m ?c = y # ys" "length ys = length ?old"
    using column_length [OF len(1) c(2)] len(2) by (cases "column_at ?m ?c") simp_all
  define xs where "xs = dp_rows F ?ch ?top ?old prev ?runs"
  have lx: "length xs = length ?old" unfolding xs_def by (rule dp_rows_length) (use lp len in simp_all)
  have "column_loop F ?old ?ch prev ?runs ([?top] @ ys) ([0] @ replicate (length ?old) 0) [length [?top]..<length ?old + 1]
      = Some ([?top] @ map fst xs, [0] @ map snd xs)"
    using column_loop_correct [OF lp len(3), of "[]" ?old "[?top]" ys "[0]" "replicate (length ?old) 0" F ?ch] small j cur(2)
    by (fastforce simp: xs_def)
  then have loop: "column_loop F ?old ?ch prev ?runs (?top # ys) (0 # replicate (length ?old) 0) [1..<length ?old + 1]
      = Some (?top # map fst xs, 0 # map snd xs)" by simp
  have zeros: "map (\<lambda>_. 0) (current_equal_runs d) = 0 # replicate (length ?old) (0 :: u32)"
    using len(4) by (simp add: map_replicate_const)
  define m where "m = matrix_write_column ?m ?c (?top # map fst xs)"
  have w: "column_at m ?c = ?top # map fst xs" "length (m_cells m) = m_rows ?m * m_cols ?m" "m_rows m = m_rows ?m" "m_cols m = m_cols ?m"
    using write_column [OF len(1) _ c(2), of "?top # map fst xs"] lx len(2) by (simp_all add: m_def matrix_write_column_def)
  have push: "push_new_char F d (Suc j) = Some (d\<lparr>sd_scores := m, previous_equal_runs := 0 # map snd xs, current_equal_runs := ?runs\<rparr>)"
    unfolding push_new_char_def zeros Let_def
    using ix j(1) adjacent_columns [OF len(1) c(1,2)] c(3) cur loop by (simp add: get_ix_def set_ix_def prev_def m_def)
  have step: "dp_step F ?old (dp_column F ?old (take j (sd_new d))) (Suc j) ?ch = (?top # map fst xs, 0 # map snd xs)"
    unfolding col [symmetric] by (simp add: dp_step_def xs_def prev_def Let_def)
  have "dp_column F ?old (take (Suc j) (sd_new d)) = (?top # map fst xs, 0 # map snd xs)"
    using j(1) step by (simp add: take_Suc_conv_app_nth dp_column_def dp_from_append min_def)
  moreover have "\<forall>r \<in> set (0 # map snd xs). unat r \<le> Suc j"
    using dp_rows_runs [OF small, of F ?ch ?top ?old prev] j by (auto simp: xs_def)
  ultimately show ?thesis
    using push w lx len ix j(1) d(1) by (intro exI [of _ m] exI [of _ "0 # map snd xs"] exI [of _ ?runs]) (simp add: diff_shape_def scores_ok_def)
qed

lemma push_chars_correct:
  "diff_shape d \<Longrightarrow> columns_ok d \<Longrightarrow> scores_ok F d j \<Longrightarrow> length (sd_new d) < 2 ^ 32 - 1 \<Longrightarrow>
    \<exists>m rs cs. push_chars F d [Suc j..<length (sd_new d) + 1] = Some (d\<lparr>sd_scores := m, previous_equal_runs := rs, current_equal_runs := cs\<rparr>)
      \<and> diff_shape (d\<lparr>sd_scores := m, previous_equal_runs := rs, current_equal_runs := cs\<rparr>)
      \<and> m_cols m = m_cols (sd_scores d)
      \<and> scores_ok F (d\<lparr>sd_scores := m, previous_equal_runs := rs, current_equal_runs := cs\<rparr>) (length (sd_new d))"
proof (induction "length (sd_new d) - j" arbitrary: j d)
  case 0
  then have "j = length (sd_new d)" by (simp add: scores_ok_def)
  then show ?case using 0
    by (intro exI [of _ "sd_scores d"] exI [of _ "previous_equal_runs d"] exI [of _ "current_equal_runs d"]) simp
next
  case (Suc n)
  then have j: "j < length (sd_new d)" by linarith
  obtain m rs cs where p: "push_new_char F d (Suc j) = Some (d\<lparr>sd_scores := m, previous_equal_runs := rs, current_equal_runs := cs\<rparr>)"
      "diff_shape (d\<lparr>sd_scores := m, previous_equal_runs := rs, current_equal_runs := cs\<rparr>)" "m_cols m = m_cols (sd_scores d)"
      "scores_ok F (d\<lparr>sd_scores := m, previous_equal_runs := rs, current_equal_runs := cs\<rparr>) (Suc j)"
    using push_new_char_correct [OF Suc.prems(1-3) j Suc.prems(4)] by blast
  let ?d = "d\<lparr>sd_scores := m, previous_equal_runs := rs, current_equal_runs := cs\<rparr>"
  have "[Suc j..<length (sd_new d) + 1] = Suc j # [Suc (Suc j)..<length (sd_new ?d) + 1]"
    using j by (simp add: upt_conv_Cons del: upt_Suc)
  moreover have "n = length (sd_new ?d) - Suc j" "columns_ok ?d" using Suc.hyps(2) Suc.prems(2) p(3) by (simp_all add: columns_ok_def)
  ultimately show ?case using Suc.hyps(1) [of ?d "Suc j"] p Suc.prems(4) by auto
qed

lemma best_row_loop_finds:
  assumes "length (m_cells m) = m_rows m * m_cols m" "c < m_cols m"
  shows "\<forall>i \<in> set is. i < m_rows m \<Longrightarrow> \<exists>k. best_row_loop F m c best ix is = Some k \<and> (k = ix \<or> k \<in> set is)"
proof (induction "is" arbitrary: best ix)
  case (Cons i "is")
  then obtain s where "matrix_get m i c = Some s" using matrix_get_Some [OF assms(1) _ assms(2), of i] by auto
  then show ?case using Cons.IH [of s i] Cons.IH [of best ix] Cons.prems by auto
qed simp

text \<open>Between two pushes everything is aligned, and the last column is the reference for the whole texts.\<close>

definition diff_inv :: "'f score_ops \<Rightarrow> 'f streaming_diff \<Rightarrow> bool" where
  "diff_inv F d \<longleftrightarrow> diff_shape d \<and> new_text_ix d = length (sd_new d) \<and> 0 < m_cols (sd_scores d)
     \<and> (column_at (sd_scores d) (m_cols (sd_scores d) - 1), previous_equal_runs d) = dp_column F (sd_old d) (sd_new d)
     \<and> (\<forall>r \<in> set (previous_equal_runs d). unat r \<le> length (sd_new d))"

lemma push_start:
  assumes d: "diff_inv F d"
  shows "\<exists>m. matrix_swap_columns (sd_scores d) 0 (m_cols (sd_scores d) - 1) = Some m
    \<and> (let d2 = d\<lparr>sd_new := sd_new d @ text, sd_scores := matrix_resize F m (length (sd_old d) + 1) (length text + 1)\<rparr>
       in diff_shape d2 \<and> columns_ok d2 \<and> scores_ok F d2 (length (sd_new d)) \<and> m_cols (sd_scores d2) = length text + 1)"
proof -
  let ?m = "sd_scores d"
  have shape: "diff_shape d" "new_text_ix d = length (sd_new d)" "0 < m_cols ?m"
    and col: "(column_at ?m (m_cols ?m - 1), previous_equal_runs d) = dp_column F (sd_old d) (sd_new d)"
    and runs: "\<forall>r \<in> set (previous_equal_runs d). unat r \<le> length (sd_new d)" using d by (simp_all add: diff_inv_def)
  have cells: "length (m_cells ?m) = m_rows ?m * m_cols ?m" "m_rows ?m = length (sd_old d) + 1" using shape(1) by (simp_all add: diff_shape_def)
  obtain m where m: "matrix_swap_columns ?m 0 (m_cols ?m - 1) = Some m" "column_at m 0 = column_at ?m (m_cols ?m - 1)"
      "m_rows m = m_rows ?m" "m_cols m = m_cols ?m" "length (m_cells m) = m_rows m * m_cols m"
    using swap_to_front [OF cells(1) shape(3)] cells(1) by metis
  let ?m2 = "matrix_resize F m (length (sd_old d) + 1) (length text + 1)"
  have "column_at ?m2 0 = column_at ?m (m_cols ?m - 1)" "length (m_cells ?m2) = m_rows ?m2 * m_cols ?m2"
      "m_rows ?m2 = length (sd_old d) + 1" "m_cols ?m2 = length text + 1"
    using resize_front [OF m(5), of F "length text"] m(2-4) cells(2) shape(3) by (simp_all add: matrix_resize_def)
  then show ?thesis using m(1) shape col runs by (simp add: diff_shape_def columns_ok_def scores_ok_def Let_def)
qed

lemma push_new_correct:
  assumes d: "diff_inv F d" and len: "length (sd_new d @ text) < 2 ^ 32 - 1"
  shows "\<exists>ops d'. push_new F d text = Some (ops, d') \<and> diff_inv F d' \<and> sd_old d' = sd_old d \<and> sd_new d' = sd_new d @ text
    \<and> apply_ops ops (drop (old_text_ix d) (sd_old d)) = Some (text, drop (old_text_ix d') (sd_old d))"
proof -
  let ?n = "length text"
  obtain m1 where m1: "matrix_swap_columns (sd_scores d) 0 (m_cols (sd_scores d) - 1) = Some m1"
      and start: "let d2 = d\<lparr>sd_new := sd_new d @ text, sd_scores := matrix_resize F m1 (length (sd_old d) + 1) (?n + 1)\<rparr>
        in diff_shape d2 \<and> columns_ok d2 \<and> scores_ok F d2 (length (sd_new d)) \<and> m_cols (sd_scores d2) = ?n + 1"
    using push_start [OF d] by blast
  have ix: "new_text_ix d = length (sd_new d)" "0 < m_cols (sd_scores d)" using d by (simp_all add: diff_inv_def)
  define d2 where "d2 = d\<lparr>sd_new := sd_new d @ text, sd_scores := matrix_resize F m1 (length (sd_old d) + 1) (?n + 1)\<rparr>"
  have d2: "diff_shape d2" "columns_ok d2" "scores_ok F d2 (length (sd_new d))" "m_cols (sd_scores d2) = ?n + 1"
    using start by (simp_all add: d2_def Let_def)
  obtain m rs cs where push: "push_chars F d2 [Suc (length (sd_new d))..<length (sd_new d2) + 1] = Some (d2\<lparr>sd_scores := m, previous_equal_runs := rs, current_equal_runs := cs\<rparr>)"
      "diff_shape (d2\<lparr>sd_scores := m, previous_equal_runs := rs, current_equal_runs := cs\<rparr>)" "m_cols m = ?n + 1"
      "scores_ok F (d2\<lparr>sd_scores := m, previous_equal_runs := rs, current_equal_runs := cs\<rparr>) (length (sd_new d2))"
    using push_chars_correct [OF d2(1-3)] len d2(4) by (auto simp: d2_def)
  define d3 where "d3 = d2\<lparr>sd_scores := m, previous_equal_runs := rs, current_equal_runs := cs\<rparr>"
  have d3: "diff_shape d3" "columns_ok d3" "scores_ok F d3 (length (sd_new d3))" "sd_old d3 = sd_old d" "sd_new d3 = sd_new d @ text"
      "old_text_ix d3 = old_text_ix d" "new_text_ix d3 = length (sd_new d)" "m_cols (sd_scores d3) = ?n + 1"
    using push ix by (simp_all add: d3_def columns_ok_def d2_def)
  have pushed: "push_chars F d2 [Suc (length (sd_new d))..<Suc (length (sd_new d) + ?n)] = Some d3"
  proof -
    have "length (sd_new d2) + 1 = Suc (length (sd_new d) + ?n)" by (simp add: d2_def)
    then show ?thesis using push(1) unfolding d3_def by metis
  qed
  have "\<exists>k. best_row_loop F (sd_scores d3) ?n (f_neg_infinity F) (old_text_ix d3) [old_text_ix d3..<length (sd_old d3) + 1] = Some k
      \<and> (k = old_text_ix d3 \<or> k \<in> set [old_text_ix d3..<length (sd_old d3) + 1])"
    by (rule best_row_loop_finds) (use d3 in \<open>auto simp: diff_shape_def\<close>)
  then obtain k where k: "best_row_loop F (sd_scores d3) ?n (f_neg_infinity F) (old_text_ix d3) [old_text_ix d3..<length (sd_old d3) + 1] = Some k"
      "old_text_ix d3 \<le> k" "k \<le> length (sd_old d3)" using d3(1) by (auto simp: diff_shape_def)
  obtain ops where ops: "backtrack F d3 k (length (sd_new d3)) = Some ops"
      "apply_ops ops (drop (old_text_ix d3) (sd_old d3)) = Some (drop (new_text_ix d3) (sd_new d3), drop k (sd_old d3))"
    using backtrack_ok [OF d3(1,2) k(2,3)] by blast
  have "push_new F d text = Some (ops, d3\<lparr>old_text_ix := k, new_text_ix := length (sd_new d3)\<rparr>)"
    using m1 ix pushed k(1) ops(1) d3(4-7) by (simp add: push_new_def Let_def d2_def del: upt_Suc)
  moreover have "diff_inv F (d3\<lparr>old_text_ix := k, new_text_ix := length (sd_new d3)\<rparr>)"
    using d3 k(3) by (simp add: diff_inv_def diff_shape_def scores_ok_def)
  ultimately show ?thesis using ops(2) d3 by auto
qed

lemma init_scores_correct:
  "m_rows m = k + length ys \<Longrightarrow> m_cols m = 1 \<Longrightarrow> length (m_cells m) = k + length ys \<Longrightarrow>
    init_scores F m [k..<k + length ys] = Some (m\<lparr>m_cells := take k (m_cells m) @ map (\<lambda>i. f_mul F (f_of_usize F i) (deletion_score F)) [k..<k + length ys]\<rparr>)"
proof (induction ys arbitrary: k m)
  case (Cons y ys)
  let ?v = "f_mul F (f_of_usize F k) (deletion_score F)"
  have "matrix_set m k 0 ?v = Some (m\<lparr>m_cells := (m_cells m)[k := ?v]\<rparr>)" using Cons.prems by (simp add: matrix_set_def)
  moreover have "[k..<k + length (y # ys)] = k # [Suc k..<Suc k + length ys]"
    by (simp add: upt_conv_Cons del: upt_Suc)
  ultimately show ?case using Cons.IH [of "m\<lparr>m_cells := (m_cells m)[k := ?v]\<rparr>" "Suc k"] Cons.prems
    by (simp add: take_Suc_conv_app_nth del: upt_Suc)
qed simp

lemma streaming_diff_new_correct:
  "\<exists>d. streaming_diff_new F old = Some d \<and> diff_inv F d \<and> sd_old d = old \<and> sd_new d = [] \<and> old_text_ix d = 0"
proof -
  let ?m = "matrix_resize F matrix_new (length old + 1) 1 :: 'a matrix"
  have "init_scores F ?m [0..<0 + length (replicate (length old + 1) ())]
      = Some (?m\<lparr>m_cells := take 0 (m_cells ?m) @ map (\<lambda>i. f_mul F (f_of_usize F i) (deletion_score F)) [0..<0 + length (replicate (length old + 1) ())]\<rparr>)"
    by (rule init_scores_correct) (simp_all add: matrix_resize_def matrix_new_def)
  then have "init_scores F ?m [0..<length old + 1] = Some (?m\<lparr>m_cells := fst (dp_init F old)\<rparr>)" by (simp add: dp_init_def del: upt_Suc)
  then show ?thesis
    by (simp add: streaming_diff_new_def Let_def diff_inv_def diff_shape_def column_at_def dp_column_def matrix_resize_def matrix_new_def
        del: upt_Suc) (simp add: dp_init_def del: upt_Suc)
qed

lemma diff_finish_correct:
  assumes "diff_inv F d"
  shows "\<exists>ops. diff_finish F d = Some ops \<and> apply_ops ops (drop (old_text_ix d) (sd_old d)) = Some ([], [])"
  using backtrack_ok [of d "length (sd_old d)" F] assms by (auto simp: diff_finish_def diff_inv_def diff_shape_def columns_ok_def)

section \<open>Theorems\<close>

text \<open>A whole run: the pieces of the new text are pushed one after the other and the rest is flushed.\<close>

fun push_all :: "'f score_ops \<Rightarrow> 'f streaming_diff \<Rightarrow> rchar list list \<Rightarrow> (char_operation list \<times> 'f streaming_diff) option" where
  "push_all F d [] = Some ([], d)"
| "push_all F d (t # ts) = do {
     (ops, d') \<leftarrow> push_new F d t;
     (ops', d'') \<leftarrow> push_all F d' ts;
     Some (ops @ ops', d'')
   }"

definition diff_texts :: "'f score_ops \<Rightarrow> rchar list \<Rightarrow> rchar list list \<Rightarrow> char_operation list option" where
  "diff_texts F old pieces = do {
     d \<leftarrow> streaming_diff_new F old;
     (ops, d') \<leftarrow> push_all F d pieces;
     ops' \<leftarrow> diff_finish F d';
     Some (ops @ ops')
   }"

lemma push_all_correct:
  "diff_inv F d \<Longrightarrow> length (sd_new d @ concat pieces) < 2 ^ 32 - 1 \<Longrightarrow>
    \<exists>ops d'. push_all F d pieces = Some (ops, d') \<and> diff_inv F d' \<and> sd_old d' = sd_old d \<and> sd_new d' = sd_new d @ concat pieces
      \<and> apply_ops ops (drop (old_text_ix d) (sd_old d)) = Some (concat pieces, drop (old_text_ix d') (sd_old d))"
proof (induction pieces arbitrary: d)
  case (Cons t ts)
  obtain ops d1 where p: "push_new F d t = Some (ops, d1)" "diff_inv F d1" "sd_old d1 = sd_old d" "sd_new d1 = sd_new d @ t"
      "apply_ops ops (drop (old_text_ix d) (sd_old d)) = Some (t, drop (old_text_ix d1) (sd_old d))"
    using push_new_correct [OF Cons.prems(1), of t] Cons.prems(2) by auto
  obtain ops' d2 where q: "push_all F d1 ts = Some (ops', d2)" "diff_inv F d2" "sd_old d2 = sd_old d" "sd_new d2 = sd_new d @ t @ concat ts"
      "apply_ops ops' (drop (old_text_ix d1) (sd_old d)) = Some (concat ts, drop (old_text_ix d2) (sd_old d))"
    using Cons.IH [OF p(2)] Cons.prems(2) p(3,4) by auto
  show ?case using p q by (simp add: apply_ops_append)
qed simp

text \<open>C27. A streaming diff turns the old text into the new one: whatever the pieces in which the new text arrives and however the
  scores are computed, nothing panics, and the operations returned for the pieces and at the end, applied one after the
  other to the old text, produce exactly the new text and consume all of the old one. (Runs of equal characters are
  counted in 32 bits, so the new text is assumed to have fewer than \<open>2 ^ 32 - 1\<close> characters.)\<close>

theorem streaming_diff_correct:
  assumes "length (concat pieces) < 2 ^ 32 - 1"
  shows "\<exists>ops. diff_texts F old pieces = Some ops \<and> apply_ops ops old = Some (concat pieces, [])"
proof -
  obtain d where d: "streaming_diff_new F old = Some d" "diff_inv F d" "sd_old d = old" "sd_new d = []" "old_text_ix d = 0"
    using streaming_diff_new_correct by blast
  obtain ops d' where p: "push_all F d pieces = Some (ops, d')" "diff_inv F d'" "sd_old d' = old"
      "apply_ops ops old = Some (concat pieces, drop (old_text_ix d') old)"
    using push_all_correct [OF d(2), of pieces] assms d by auto
  obtain ops' where f: "diff_finish F d' = Some ops'" "apply_ops ops' (drop (old_text_ix d') old) = Some ([], [])"
    using diff_finish_correct [OF p(2)] p(3) by auto
  show ?thesis using d(1) p(1,4) f by (simp add: diff_texts_def apply_ops_append)
qed

definition int_scores :: "int score_ops" where
  "int_scores = \<lparr>f_zero = 0, f_neg_infinity = - 1000000, insertion_score = - 1, deletion_score = - 20, equality_base = 2,
     f_of_usize = int, f_add = (+), f_mul = (*), f_powi = (\<lambda>b e. b ^ nat e), f_max = max, f_greater = (>), ordered_le = (\<le>)\<rparr>"

theorem streaming_diff_correct_witness:
  "\<exists>ops. diff_texts int_scores [97, 233, 99] [[97], [233, 100, 99]] = Some ops \<and> apply_ops ops [97, 233, 99] = Some ([97, 233, 100, 99], [])"
  using streaming_diff_correct [of "[[97], [233, 100, 99]]" int_scores "[97, 233, 99]"] by simp

text \<open>The scores do not depend on how the new text is cut into pieces: after the pieces have been pushed, the last column
  of the matrix and the lengths of the runs are those of the dynamic program over the whole new text, although the matrix
  only keeps the columns of the last piece.\<close>

theorem streaming_scores_whole:
  assumes "length (concat pieces) < 2 ^ 32 - 1"
  shows "\<exists>d ops d'. streaming_diff_new F old = Some d \<and> push_all F d pieces = Some (ops, d') \<and>
    column_at (sd_scores d') (m_cols (sd_scores d') - 1) = fst (dp_column F old (concat pieces)) \<and>
    previous_equal_runs d' = snd (dp_column F old (concat pieces)) \<and> new_text_ix d' = length (concat pieces)"
proof -
  obtain d where d: "streaming_diff_new F old = Some d" "diff_inv F d" "sd_old d = old" "sd_new d = []"
    using streaming_diff_new_correct by blast
  obtain ops d' where p: "push_all F d pieces = Some (ops, d')" "diff_inv F d'" "sd_old d' = old" "sd_new d' = concat pieces"
    using push_all_correct [OF d(2), of pieces] assms d by auto
  have "(column_at (sd_scores d') (m_cols (sd_scores d') - 1), previous_equal_runs d') = dp_column F old (concat pieces)"
    "new_text_ix d' = length (concat pieces)" using p(2-4) by (simp_all add: diff_inv_def)
  then show ?thesis using d(1) p(1) by (metis fst_conv snd_conv)
qed

theorem streaming_scores_whole_witness:
  "\<exists>d ops d'. streaming_diff_new int_scores [97, 98] = Some d \<and> push_all int_scores d [[97], [98]] = Some (ops, d') \<and>
    column_at (sd_scores d') (m_cols (sd_scores d') - 1) = fst (dp_column int_scores [97, 98] [97, 98])"
  using streaming_scores_whole [of "[[97], [98]]" int_scores "[97, 98]"] by auto

end
