(* ===== verification/History.thy ===== *)
theory History
  imports UndoMap "HOL-Library.Multiset"
begin

text \<open>
  The history of a buffer (\<open>crates/text/src/text.rs\<close>: \<open>Transaction\<close>, \<open>HistoryEntry\<close>, \<open>History\<close>): the
  operations applied, in a tree map by timestamp, and the stacks of transactions to undo and to redo.
  A transaction collects the edits made between \<open>start_transaction\<close> and \<open>end_transaction\<close>; transactions
  close in time are grouped into one.

  The base text is never inspected, so its type is a parameter; instants and durations are nanoseconds, and
  the difference of instants saturates at zero as in the standard library. A result of type \<open>option\<close>
  inside the outer \<open>option\<close> is the value the method returns.
\<close>

section \<open>Model\<close>

subsection \<open>Operations\<close>

record edit_operation =
  eo_timestamp :: lamport
  eo_version :: global
  eo_ranges :: "(nat \<times> nat) list"
  eo_new_text :: "u8 list list"

datatype operation = EditOp edit_operation | UndoOp undo_operation

fun op_timestamp :: "operation \<Rightarrow> lamport" where
  "op_timestamp (EditOp edit) = eo_timestamp edit"
| "op_timestamp (UndoOp undo) = uo_timestamp undo"

fun as_edit :: "operation \<Rightarrow> edit_operation option" where
  "as_edit (EditOp edit) = Some edit"
| "as_edit _ = None"

fun is_edit :: "operation \<Rightarrow> bool" where
  "is_edit (EditOp _) = True"
| "is_edit _ = False"

subsection \<open>Transactions\<close>

record transaction =
  tr_id :: lamport
  tr_edit_ids :: "lamport list"
  tr_start :: global

definition merge_in :: "transaction \<Rightarrow> transaction \<Rightarrow> transaction" where
  "merge_in self other = self\<lparr>tr_edit_ids := tr_edit_ids self @ tr_edit_ids other\<rparr>"

record history_entry =
  he_transaction :: transaction
  first_edit_at :: nat
  last_edit_at :: nat
  suppress_grouping :: bool

definition transaction_id :: "history_entry \<Rightarrow> lamport" where
  "transaction_id e = tr_id (he_transaction e)"

record 'r history =
  base_text :: 'r
  operations :: "(lamport, operation) tree_map"
  undo_stack :: "history_entry list"
  redo_stack :: "history_entry list"
  transaction_depth :: nat
  group_interval :: nat

definition history_new :: "'r \<Rightarrow> 'r history" where
  "history_new base = \<lparr>base_text = base, operations = map_clear, undo_stack = [], redo_stack = [],
     transaction_depth = 0, group_interval = 300000000\<rparr>"

definition history_push :: "'r history \<Rightarrow> operation \<Rightarrow> 'r history option" where
  "history_push h operation = do {
     ops \<leftarrow> map_insert (operations h) (op_timestamp operation) operation;
     Some (h\<lparr>operations := ops\<rparr>)
   }"

definition new_entry :: "transaction \<Rightarrow> nat \<Rightarrow> history_entry" where
  "new_entry t now = \<lparr>he_transaction = t, first_edit_at = now, last_edit_at = now, suppress_grouping = False\<rparr>"

definition start_transaction ::
  "'r history \<Rightarrow> global \<Rightarrow> nat \<Rightarrow> lamport \<Rightarrow> ('r history \<times> lamport \<times> lamport option) option" where
  "start_transaction h start now clock = do {
     let h1 = h\<lparr>transaction_depth := transaction_depth h + 1\<rparr>;
     if transaction_depth h1 = 1 then do {
       (tid, clock') \<leftarrow> tick clock;
       let entry = new_entry \<lparr>tr_id = tid, tr_edit_ids = [], tr_start = start\<rparr> now;
       Some (h1\<lparr>undo_stack := undo_stack h1 @ [entry]\<rparr>, clock', Some tid)
     }
     else Some (h1, clock, None)
   }"

definition end_transaction :: "'r history \<Rightarrow> nat \<Rightarrow> ('r history \<times> history_entry option) option" where
  "end_transaction h now = do {
     rust_assert (transaction_depth h \<noteq> 0);
     let h1 = h\<lparr>transaction_depth := transaction_depth h - 1\<rparr>;
     if transaction_depth h1 = 0 then do {
       entry \<leftarrow> last_opt (undo_stack h1);
       if tr_edit_ids (he_transaction entry) = [] then Some (h1\<lparr>undo_stack := butlast (undo_stack h1)\<rparr>, None)
       else do {
         let entry' = entry\<lparr>last_edit_at := now\<rparr>;
         Some (h1\<lparr>redo_stack := [], undo_stack := butlast (undo_stack h1) @ [entry']\<rparr>, Some entry')
       }
     }
     else Some (h1, None)
   }"

subsection \<open>Grouping\<close>

definition group_trailing :: "'r history \<Rightarrow> nat \<Rightarrow> ('r history \<times> lamport option) option" where
  "group_trailing h n = do {
     new_len \<leftarrow> checked_sub (length (undo_stack h)) n;
     let keep = take new_len (undo_stack h);
     let entries_to_merge = drop new_len (undo_stack h);
     let keep' = (case last_opt keep of
         None \<Rightarrow> keep
       | Some last_entry \<Rightarrow>
           let t = he_transaction last_entry;
               t' = t\<lparr>tr_edit_ids := tr_edit_ids t @ concat (map (tr_edit_ids \<circ> he_transaction) entries_to_merge)\<rparr>;
               at = (case last_opt entries_to_merge of None \<Rightarrow> last_edit_at last_entry | Some e \<Rightarrow> last_edit_at e)
           in butlast keep @ [last_entry\<lparr>he_transaction := t', last_edit_at := at\<rparr>]);
     Some (h\<lparr>undo_stack := keep'\<rparr>, map_option transaction_id (last_opt keep'))
   }"

text \<open>The loop of \<open>group\<close>, from the last entry backwards.\<close>

fun group_count :: "nat \<Rightarrow> history_entry \<Rightarrow> history_entry list \<Rightarrow> nat" where
  "group_count interval entry [] = 0"
| "group_count interval entry (prev_entry # prev) =
     (if \<not> suppress_grouping prev_entry \<and> first_edit_at entry - last_edit_at prev_entry < interval
      then Suc (group_count interval prev_entry prev) else 0)"

definition history_group :: "'r history \<Rightarrow> ('r history \<times> lamport option) option" where
  "history_group h = group_trailing h (case rev (undo_stack h) of [] \<Rightarrow> 0 | entry # prev \<Rightarrow> group_count (group_interval h) entry prev)"

fun group_until_count :: "lamport \<Rightarrow> nat \<Rightarrow> history_entry list \<Rightarrow> nat option" where
  "group_until_count tid n [] = None"
| "group_until_count tid n (entry # prev) =
     (if transaction_id entry = tid then Some n
      else if suppress_grouping entry then None
      else group_until_count tid (Suc n) prev)"

definition group_until :: "'r history \<Rightarrow> lamport \<Rightarrow> 'r history option" where
  "group_until h tid = (case group_until_count tid 0 (rev (undo_stack h)) of
     None \<Rightarrow> Some h
   | Some n \<Rightarrow> map_option fst (group_trailing h n))"

definition finalize_last_transaction :: "'r history \<Rightarrow> 'r history \<times> transaction option" where
  "finalize_last_transaction h = (case last_opt (undo_stack h) of
     None \<Rightarrow> (h, None)
   | Some entry \<Rightarrow>
       (h\<lparr>undo_stack := butlast (undo_stack h) @ [entry\<lparr>suppress_grouping := True\<rparr>]\<rparr>, Some (he_transaction entry)))"

subsection \<open>Stacks\<close>

definition push_transaction :: "'r history \<Rightarrow> transaction \<Rightarrow> nat \<Rightarrow> 'r history option" where
  "push_transaction h t now = do {
     rust_assert (transaction_depth h = 0);
     Some (h\<lparr>undo_stack := undo_stack h @ [new_entry t now]\<rparr>)
   }"

definition push_empty_transaction ::
  "'r history \<Rightarrow> global \<Rightarrow> nat \<Rightarrow> lamport \<Rightarrow> ('r history \<times> lamport \<times> lamport) option" where
  "push_empty_transaction h start now clock = do {
     rust_assert (transaction_depth h = 0);
     (tid, clock') \<leftarrow> tick clock;
     let t = \<lparr>tr_id = tid, tr_edit_ids = [], tr_start = start\<rparr>;
     Some (h\<lparr>undo_stack := undo_stack h @ [new_entry t now]\<rparr>, clock', tid)
   }"

definition push_undo :: "'r history \<Rightarrow> lamport \<Rightarrow> 'r history option" where
  "push_undo h op_id = do {
     rust_assert (transaction_depth h \<noteq> 0);
     case map_get (operations h) op_id of
       Some (EditOp _) \<Rightarrow> do {
         entry \<leftarrow> last_opt (undo_stack h);
         let t = he_transaction entry;
         Some (h\<lparr>undo_stack := butlast (undo_stack h) @
           [entry\<lparr>he_transaction := t\<lparr>tr_edit_ids := tr_edit_ids t @ [op_id]\<rparr>\<rparr>]\<rparr>)
       }
     | _ \<Rightarrow> Some h
   }"

definition pop_undo :: "'r history \<Rightarrow> ('r history \<times> history_entry option) option" where
  "pop_undo h = do {
     rust_assert (transaction_depth h = 0);
     Some (case last_opt (undo_stack h) of
         Some entry \<Rightarrow> (h\<lparr>undo_stack := butlast (undo_stack h), redo_stack := redo_stack h @ [entry]\<rparr>, Some entry)
       | None \<Rightarrow> (h, None))
   }"

definition pop_redo :: "'r history \<Rightarrow> ('r history \<times> history_entry option) option" where
  "pop_redo h = do {
     rust_assert (transaction_depth h = 0);
     Some (case last_opt (redo_stack h) of
         Some entry \<Rightarrow> (h\<lparr>redo_stack := butlast (redo_stack h), undo_stack := undo_stack h @ [entry]\<rparr>, Some entry)
       | None \<Rightarrow> (h, None))
   }"

text \<open>\<open>Iterator::rposition\<close> and \<open>Vec::remove\<close>.\<close>

fun rposition :: "('a \<Rightarrow> bool) \<Rightarrow> 'a list \<Rightarrow> nat option" where
  "rposition P [] = None"
| "rposition P (x # xs) = (case rposition P xs of Some i \<Rightarrow> Some (Suc i) | None \<Rightarrow> if P x then Some 0 else None)"

definition vec_remove :: "nat \<Rightarrow> 'a list \<Rightarrow> 'a list" where
  "vec_remove i xs = take i xs @ drop (Suc i) xs"

definition entry_position :: "lamport \<Rightarrow> history_entry list \<Rightarrow> nat option" where
  "entry_position tid = rposition (\<lambda>e. transaction_id e = tid)"

definition remove_from_undo :: "'r history \<Rightarrow> lamport \<Rightarrow> ('r history \<times> history_entry option) option" where
  "remove_from_undo h tid = do {
     rust_assert (transaction_depth h = 0);
     Some (case entry_position tid (undo_stack h) of
         None \<Rightarrow> (h, None)
       | Some ix \<Rightarrow> (h\<lparr>undo_stack := vec_remove ix (undo_stack h), redo_stack := redo_stack h @ [undo_stack h ! ix]\<rparr>,
           Some (undo_stack h ! ix)))
   }"

definition remove_from_undo_until :: "'r history \<Rightarrow> lamport \<Rightarrow> ('r history \<times> history_entry list) option" where
  "remove_from_undo_until h tid = do {
     rust_assert (transaction_depth h = 0);
     let redo_stack_start_len = length (redo_stack h);
     let h1 = (case entry_position tid (undo_stack h) of
         None \<Rightarrow> h
       | Some ix \<Rightarrow> h\<lparr>redo_stack := redo_stack h @ rev (drop ix (undo_stack h)), undo_stack := take ix (undo_stack h)\<rparr>);
     Some (h1, drop redo_stack_start_len (redo_stack h1))
   }"

definition remove_from_redo :: "'r history \<Rightarrow> lamport \<Rightarrow> ('r history \<times> history_entry list) option" where
  "remove_from_redo h tid = do {
     rust_assert (transaction_depth h = 0);
     let undo_stack_start_len = length (undo_stack h);
     let h1 = (case entry_position tid (redo_stack h) of
         None \<Rightarrow> h
       | Some ix \<Rightarrow> h\<lparr>undo_stack := undo_stack h @ rev (drop ix (redo_stack h)), redo_stack := take ix (redo_stack h)\<rparr>);
     Some (h1, drop undo_stack_start_len (undo_stack h1))
   }"

definition forget :: "'r history \<Rightarrow> lamport \<Rightarrow> ('r history \<times> transaction option) option" where
  "forget h tid = do {
     rust_assert (transaction_depth h = 0);
     Some (case entry_position tid (undo_stack h) of
         Some ix \<Rightarrow> (h\<lparr>undo_stack := vec_remove ix (undo_stack h)\<rparr>, Some (he_transaction (undo_stack h ! ix)))
       | None \<Rightarrow> (case entry_position tid (redo_stack h) of
           Some ix \<Rightarrow> (h\<lparr>redo_stack := vec_remove ix (redo_stack h)\<rparr>, Some (he_transaction (redo_stack h ! ix)))
         | None \<Rightarrow> (h, None)))
   }"

definition get_transaction :: "'r history \<Rightarrow> lamport \<Rightarrow> transaction option" where
  "get_transaction h tid = (case entry_position tid (undo_stack h) of
     Some ix \<Rightarrow> Some (he_transaction (undo_stack h ! ix))
   | None \<Rightarrow> map_option (\<lambda>ix. he_transaction (redo_stack h ! ix)) (entry_position tid (redo_stack h)))"

text \<open>\<open>transaction_mut\<close>: what the mutable reference it returns is used for, an update in place.\<close>

definition update_at :: "nat \<Rightarrow> (transaction \<Rightarrow> transaction) \<Rightarrow> history_entry list \<Rightarrow> history_entry list" where
  "update_at ix f es = es[ix := (es ! ix)\<lparr>he_transaction := f (he_transaction (es ! ix))\<rparr>]"

definition transaction_mut :: "'r history \<Rightarrow> lamport \<Rightarrow> (transaction \<Rightarrow> transaction) \<Rightarrow> 'r history option" where
  "transaction_mut h tid f = (case entry_position tid (undo_stack h) of
     Some ix \<Rightarrow> Some (h\<lparr>undo_stack := update_at ix f (undo_stack h)\<rparr>)
   | None \<Rightarrow> map_option (\<lambda>ix. h\<lparr>redo_stack := update_at ix f (redo_stack h)\<rparr>) (entry_position tid (redo_stack h)))"

definition merge_transactions :: "'r history \<Rightarrow> lamport \<Rightarrow> lamport \<Rightarrow> 'r history option" where
  "merge_transactions h transaction destination = do {
     (h1, forgotten) \<leftarrow> forget h transaction;
     Some (case forgotten of
         None \<Rightarrow> h1
       | Some t \<Rightarrow> (case transaction_mut h1 destination (\<lambda>d. d\<lparr>tr_edit_ids := tr_edit_ids d @ tr_edit_ids t\<rparr>) of
           None \<Rightarrow> h1
         | Some h2 \<Rightarrow> h2))
   }"

subsection \<open>The buffer's transactions\<close>

text \<open>\<open>Buffer::end_transaction_at\<close>, and the undo counts that \<open>Buffer::undo_or_redo\<close> records for a transaction.\<close>

definition end_transaction_at :: "'r history \<Rightarrow> nat \<Rightarrow> ('r history \<times> (lamport \<times> global) option) option" where
  "end_transaction_at h now = do {
     (h1, ended) \<leftarrow> end_transaction h now;
     case ended of
       None \<Rightarrow> Some (h1, None)
     | Some entry \<Rightarrow> do {
         (h2, grouped) \<leftarrow> history_group h1;
         tid \<leftarrow> grouped;
         Some (h2, Some (tid, tr_start (he_transaction entry)))
       }
   }"

definition saturating_add_u32 :: "u32 \<Rightarrow> u32 \<Rightarrow> u32" where
  "saturating_add_u32 a b = (case checked_add a b of Some c \<Rightarrow> c | None \<Rightarrow> - 1)"

fun hash_insert :: "'k \<Rightarrow> 'v \<Rightarrow> ('k \<times> 'v) list \<Rightarrow> ('k \<times> 'v) list" where
  "hash_insert k v [] = [(k, v)]"
| "hash_insert k v ((k', v') # kvs) = (if k = k' then (k, v) # kvs else (k', v') # hash_insert k v kvs)"

fun undo_or_redo_counts :: "undo_map \<Rightarrow> lamport list \<Rightarrow> (lamport \<times> u32) list \<Rightarrow> (lamport \<times> u32) list option" where
  "undo_or_redo_counts m [] counts = Some counts"
| "undo_or_redo_counts m (edit_id # edit_ids) counts = do {
     c \<leftarrow> undo_count m edit_id;
     undo_or_redo_counts m edit_ids (hash_insert edit_id (saturating_add_u32 c 1) counts)
   }"

section \<open>Entries\<close>

definition stack_ids :: "history_entry list \<Rightarrow> lamport list" where
  "stack_ids es = map transaction_id es"

definition stack_edits :: "history_entry list \<Rightarrow> lamport list" where
  "stack_edits es = concat (map (tr_edit_ids \<circ> he_transaction) es)"

definition all_entries :: "'r history \<Rightarrow> history_entry list" where
  "all_entries h = undo_stack h @ redo_stack h"

lemma stack_simps [simp]:
  "stack_ids [] = []" "stack_ids (e # es) = transaction_id e # stack_ids es" "stack_ids (es @ fs) = stack_ids es @ stack_ids fs"
  "stack_edits [] = []" "stack_edits (e # es) = tr_edit_ids (he_transaction e) @ stack_edits es"
  "stack_edits (es @ fs) = stack_edits es @ stack_edits fs"
  by (simp_all add: stack_ids_def stack_edits_def)

lemma mset_stack:
  "mset es = mset fs \<Longrightarrow> mset (stack_ids es) = mset (stack_ids fs)"
  "mset es = mset fs \<Longrightarrow> mset (stack_edits es) = mset (stack_edits fs)"
proof -
  assume m: "mset es = mset fs"
  then show "mset (stack_ids es) = mset (stack_ids fs)" by (simp add: stack_ids_def)
  have "mset (stack_edits gs) = sum_mset (image_mset (mset \<circ> tr_edit_ids \<circ> he_transaction) (mset gs))" for gs
    by (induction gs) simp_all
  then show "mset (stack_edits es) = mset (stack_edits fs)" using m by simp
qed

lemma distinct_mset_le: "mset xs \<subseteq># mset ys \<Longrightarrow> distinct ys \<Longrightarrow> distinct xs"
proof -
  assume le: "mset xs \<subseteq># mset ys" and "distinct ys"
  then have "count (mset ys) a \<le> 1" for a by (simp add: distinct_count_atmost_1)
  with le have "count (mset xs) a \<le> 1" for a by (meson le_trans mset_subset_eq_count)
  then have "count (mset xs) a = (if a \<in> set xs then 1 else 0)" for a
    using count_greater_zero_iff [of "mset xs" a] by (metis One_nat_def count_eq_zero_iff le_antisym less_Suc_eq_le not_less set_mset_mset less_one)
  then show "distinct xs" by (simp add: distinct_count_atmost_1)
qed

lemma rposition_None: "rposition P xs = None \<longleftrightarrow> (\<forall>x \<in> set xs. \<not> P x)"
  by (induction xs) (auto split: option.splits)

lemma rposition_Some:
  "rposition P xs = Some i \<Longrightarrow> i < length xs \<and> P (xs ! i) \<and> (\<forall>j. i < j \<and> j < length xs \<longrightarrow> \<not> P (xs ! j))"
proof (induction xs arbitrary: i)
  case (Cons x xs)
  show ?case
  proof (cases "rposition P xs")
    case None
    with Cons.prems show ?thesis by (auto simp: rposition_None nth_Cons' split: if_splits)
  next
    case (Some k)
    have "\<not> P ((x # xs) ! j)" if "Suc k < j" "j < Suc (length xs)" for j
      using Cons.IH [OF Some] that by (cases j) auto
    with Some Cons.IH [OF Some] Cons.prems show ?thesis by auto
  qed
qed simp

lemma rposition_unique:
  "i < length xs \<Longrightarrow> P (xs ! i) \<Longrightarrow> (\<And>j. j < length xs \<Longrightarrow> P (xs ! j) \<Longrightarrow> j \<le> i) \<Longrightarrow> rposition P xs = Some i"
proof -
  assume i: "i < length xs" "P (xs ! i)" "\<And>j. j < length xs \<Longrightarrow> P (xs ! j) \<Longrightarrow> j \<le> i"
  then obtain k where k: "rposition P xs = Some k" by (metis not_None_eq nth_mem rposition_None)
  with rposition_Some [OF k] i show ?thesis by (metis le_neq_implies_less)
qed

lemma entry_position_None: "entry_position tid es = None \<longleftrightarrow> tid \<notin> set (stack_ids es)"
  by (auto simp: entry_position_def rposition_None stack_ids_def)

lemma entry_position_Some: "entry_position tid es = Some i \<Longrightarrow> i < length es \<and> transaction_id (es ! i) = tid"
  using rposition_Some [of "\<lambda>e. transaction_id e = tid" es i] by (simp add: entry_position_def)

lemma entry_position_mid:
  assumes "tid = transaction_id e" "tid \<notin> set (stack_ids fs)"
  shows "entry_position tid (es @ e # fs) = Some (length es)"
  unfolding entry_position_def
proof (rule rposition_unique)
  fix j
  assume j: "j < length (es @ e # fs)" "transaction_id ((es @ e # fs) ! j) = tid"
  show "j \<le> length es"
  proof (rule ccontr)
    assume "\<not> j \<le> length es"
    then have "(es @ e # fs) ! j \<in> set fs" using j(1) by (auto simp: nth_append nth_Cons')
    with j(2) assms(2) show False by (auto simp: stack_ids_def)
  qed
qed (use assms in simp_all)

lemma vec_remove_mset: "i < length xs \<Longrightarrow> add_mset (xs ! i) (mset (vec_remove i xs)) = mset xs"
  using id_take_nth_drop [of i xs] by (metis mset_append mset.simps(2) vec_remove_def union_mset_add_mset_right)

lemma rev_drop_mset: "mset (take i xs @ rev (drop i xs)) = mset xs"
  by (metis append_take_drop_id mset_append mset_rev)

section \<open>Grouping\<close>

lemma stack_edits_last: "es \<noteq> [] \<Longrightarrow> stack_edits es = stack_edits (butlast es) @ tr_edit_ids (he_transaction (last es))"
  by (metis append_butlast_last_id append_Nil2 stack_simps(4,5,6))

lemma stack_ids_last: "es \<noteq> [] \<Longrightarrow> stack_ids es = stack_ids (butlast es) @ [transaction_id (last es)]"
  by (metis append_butlast_last_id stack_simps(1,2,3))

lemma group_trailing_correct:
  assumes "n < length (undo_stack h)"
  obtains es where "group_trailing h n = Some (h\<lparr>undo_stack := es\<rparr>, Some (transaction_id (last es)))"
    "es \<noteq> []" "stack_ids es = take (length (undo_stack h) - n) (stack_ids (undo_stack h))"
    "stack_edits es = stack_edits (undo_stack h)"
proof -
  let ?u = "undo_stack h" and ?k = "length (undo_stack h) - n"
  have ne: "take ?k ?u \<noteq> []" using assms by auto
  let ?l = "last (take ?k ?u)"
  let ?at = "case last_opt (drop ?k ?u) of None \<Rightarrow> last_edit_at ?l | Some e \<Rightarrow> last_edit_at e"
  let ?e = "?l\<lparr>he_transaction := (he_transaction ?l)\<lparr>tr_edit_ids := tr_edit_ids (he_transaction ?l) @ stack_edits (drop ?k ?u)\<rparr>,
    last_edit_at := ?at\<rparr>"
  let ?es = "butlast (take ?k ?u) @ [?e]"
  have t: "transaction_id ?e = transaction_id ?l" by (simp add: transaction_id_def)
  have "group_trailing h n = Some (h\<lparr>undo_stack := ?es\<rparr>, Some (transaction_id ?e))"
    using assms ne by (simp add: group_trailing_def Let_def last_opt_def stack_edits_def)
  moreover have "stack_ids ?es = take ?k (stack_ids ?u)"
    using stack_ids_last [OF ne] t by (simp add: stack_ids_def take_map)
  moreover have "stack_edits ?es = stack_edits ?u"
    using stack_edits_last [OF ne] by simp (metis append_take_drop_id append.assoc stack_simps(6))
  ultimately show thesis using that [of ?es] by simp
qed

lemma group_count_less: "group_count iv e es \<le> length es"
  by (induction iv e es rule: group_count.induct) auto

lemma group_until_count_Some:
  "group_until_count tid n es = Some k \<Longrightarrow> n \<le> k \<and> k - n < length es \<and> transaction_id (es ! (k - n)) = tid"
  by (induction tid n es arbitrary: k rule: group_until_count.induct) (fastforce split: if_splits simp: nth_Cons' Suc_diff_le)+

lemma group_correct:
  assumes "undo_stack h \<noteq> []"
  obtains es k where "history_group h = Some (h\<lparr>undo_stack := es\<rparr>, Some (transaction_id (last es)))" "es \<noteq> []" "0 < k"
    "stack_ids es = take k (stack_ids (undo_stack h))" "stack_edits es = stack_edits (undo_stack h)"
proof -
  obtain e es where r: "rev (undo_stack h) = e # es" using assms by (cases "rev (undo_stack h)") auto
  have "length (undo_stack h) = Suc (length es)" using arg_cong [OF r, of length] by simp
  let ?n = "group_count (group_interval h) e es"
  have n: "?n < length (undo_stack h)" using group_count_less [of "group_interval h" e es] \<open>length (undo_stack h) = _\<close> by simp
  then obtain fs where f: "group_trailing h ?n = Some (h\<lparr>undo_stack := fs\<rparr>, Some (transaction_id (last fs)))"
    "fs \<noteq> []" "stack_ids fs = take (length (undo_stack h) - ?n) (stack_ids (undo_stack h))"
    "stack_edits fs = stack_edits (undo_stack h)" by (rule group_trailing_correct)
  show thesis using that [of fs "length (undo_stack h) - ?n"] f r n by (simp add: history_group_def)
qed

lemma group_until_correct:
  obtains es where "group_until h tid = Some (h\<lparr>undo_stack := es\<rparr>)" "es = [] \<longleftrightarrow> undo_stack h = []"
    "\<exists>k. stack_ids es = take k (stack_ids (undo_stack h))" "stack_edits es = stack_edits (undo_stack h)"
proof (cases "group_until_count tid 0 (rev (undo_stack h))")
  case None
  show thesis
  proof (rule that [of "undo_stack h"])
    show "\<exists>k. stack_ids (undo_stack h) = take k (stack_ids (undo_stack h))" by (metis take_all order_refl)
  qed (use None in \<open>simp_all add: group_until_def\<close>)
next
  case (Some n)
  then have "n < length (undo_stack h)" using group_until_count_Some [OF Some] by simp
  then obtain es where "group_trailing h n = Some (h\<lparr>undo_stack := es\<rparr>, Some (transaction_id (last es)))" "es \<noteq> []"
    "stack_ids es = take (length (undo_stack h) - n) (stack_ids (undo_stack h))" "stack_edits es = stack_edits (undo_stack h)"
    by (rule group_trailing_correct)
  with Some \<open>n < length (undo_stack h)\<close> that [of es] show thesis by (fastforce simp: group_until_def)
qed

section \<open>Invariant\<close>

text \<open>Timestamps of the own replica that the history knows are below the clock, so that a tick is fresh.\<close>

definition before_clock :: "lamport \<Rightarrow> lamport \<Rightarrow> bool" where
  "before_clock c t \<longleftrightarrow> (lam_replica t = lam_replica c \<longrightarrow> t < c)"

definition known_edits :: "'r history \<Rightarrow> lamport set" where
  "known_edits h = {t. \<exists>e. map_get (operations h) t = Some (EditOp e)}"

definition history_inv :: "lamport \<Rightarrow> 'r history \<Rightarrow> bool" where
  "history_inv c h \<longleftrightarrow>
     (transaction_depth h \<noteq> 0 \<longrightarrow> undo_stack h \<noteq> []) \<and>
     distinct (stack_ids (all_entries h)) \<and> distinct (stack_edits (all_entries h)) \<and>
     set (stack_edits (all_entries h)) \<subseteq> known_edits h \<and>
     (\<forall>t \<in> set (stack_ids (all_entries h)). before_clock c t) \<and>
     valid_map (operations h) \<and> (\<forall>t. map_get (operations h) t \<noteq> None \<longrightarrow> before_clock c t)"

lemma below_mono: "before_clock c t \<Longrightarrow> c \<le> c' \<Longrightarrow> lam_replica c' = lam_replica c \<Longrightarrow> before_clock c' t"
  by (auto simp: before_clock_def)

lemma below_irrefl [simp]: "\<not> before_clock c c"
  by (simp add: before_clock_def)

lemma below_tick:
  assumes "tick c = Some (t, c')"
  shows "t = c" "c < c'" "before_clock c' c" "\<forall>u. before_clock c u \<longrightarrow> before_clock c' u"
  using tick_Some [OF assms] by (auto simp: before_clock_def)

lemma history_inv_clock:
  "history_inv c h \<Longrightarrow> c \<le> c' \<Longrightarrow> lam_replica c' = lam_replica c \<Longrightarrow> history_inv c' h"
  by (auto simp: history_inv_def intro: below_mono)

text \<open>The invariant survives losing or moving entries and edits.\<close>

lemma history_inv_shrink:
  assumes "history_inv c h" "mset (stack_ids (all_entries h')) \<subseteq># mset (stack_ids (all_entries h))"
    and "mset (stack_edits (all_entries h')) \<subseteq># mset (stack_edits (all_entries h))" "operations h' = operations h"
    and "transaction_depth h' \<noteq> 0 \<longrightarrow> undo_stack h' \<noteq> []"
  shows "history_inv c h'"
proof -
  have "set (stack_ids (all_entries h')) \<subseteq> set (stack_ids (all_entries h))"
    "set (stack_edits (all_entries h')) \<subseteq> set (stack_edits (all_entries h))"
    using set_mset_mono [OF assms(2)] set_mset_mono [OF assms(3)] by simp_all
  moreover have "distinct (stack_ids (all_entries h'))" "distinct (stack_edits (all_entries h'))"
    using distinct_mset_le [OF assms(2)] distinct_mset_le [OF assms(3)] assms(1) by (auto simp: history_inv_def)
  ultimately show ?thesis using assms(1,4,5) unfolding history_inv_def known_edits_def by auto
qed

definition moved :: "'r history \<Rightarrow> 'r history \<Rightarrow> bool" where
  "moved h h' \<longleftrightarrow> mset (all_entries h') = mset (all_entries h) \<and> operations h' = operations h \<and> transaction_depth h' = 0"

lemma history_inv_moved: "history_inv c h \<Longrightarrow> moved h h' \<Longrightarrow> history_inv c h'"
  using mset_stack [of "all_entries h'" "all_entries h"] by (auto simp: moved_def intro: history_inv_shrink)

subsection \<open>Operations\<close>

lemma stack_moves:
  assumes "transaction_depth h = 0"
  shows "\<exists>h' r. pop_undo h = Some (h', r) \<and> moved h h'" "\<exists>h' r. pop_redo h = Some (h', r) \<and> moved h h'"
    "\<exists>h' r. remove_from_undo h t = Some (h', r) \<and> moved h h'"
    "\<exists>h' r. remove_from_undo_until h t = Some (h', r) \<and> moved h h'"
    "\<exists>h' r. remove_from_redo h t = Some (h', r) \<and> moved h h'"
proof -
  note d = assms moved_def all_entries_def
  show "\<exists>h' r. pop_undo h = Some (h', r) \<and> moved h h'"
    by (cases "undo_stack h" rule: rev_cases) (auto simp: pop_undo_def d)
  show "\<exists>h' r. pop_redo h = Some (h', r) \<and> moved h h'"
    by (cases "redo_stack h" rule: rev_cases) (auto simp: pop_redo_def d)
  show "\<exists>h' r. remove_from_undo h t = Some (h', r) \<and> moved h h'"
  proof (cases "entry_position t (undo_stack h)")
    case (Some i)
    then show ?thesis using vec_remove_mset [of i "undo_stack h"] entry_position_Some [OF Some]
      by (auto simp: remove_from_undo_def d)
  qed (simp add: remove_from_undo_def d)
  show "\<exists>h' r. remove_from_undo_until h t = Some (h', r) \<and> moved h h'"
  proof (cases "entry_position t (undo_stack h)")
    case (Some i)
    then show ?thesis using rev_drop_mset [of i "undo_stack h"] by (auto simp: remove_from_undo_until_def Let_def d)
  qed (simp add: remove_from_undo_until_def d)
  show "\<exists>h' r. remove_from_redo h t = Some (h', r) \<and> moved h h'"
  proof (cases "entry_position t (redo_stack h)")
    case (Some i)
    have "mset (rev (drop i (redo_stack h)) @ take i (redo_stack h)) = mset (redo_stack h)"
      by (metis mset_append add.commute rev_drop_mset)
    with Some show ?thesis by (simp add: remove_from_redo_def Let_def d)
  qed (simp add: remove_from_redo_def d)
qed

text \<open>Forgetting takes the entry out; its position in the concatenated stacks is unique.\<close>

lemma stack_split:
  assumes "t \<in> set (stack_ids es)" "distinct (stack_ids es)"
  obtains as e bs where "es = as @ e # bs" "transaction_id e = t" "t \<notin> set (stack_ids (as @ bs))" "entry_position t es = Some (length as)"
proof -
  obtain e where "e \<in> set es" "transaction_id e = t" using assms(1) by (auto simp: stack_ids_def)
  then obtain as bs where es: "es = as @ e # bs" by (meson split_list)
  with assms(2) \<open>transaction_id e = t\<close> have "t \<notin> set (stack_ids (as @ bs))" by auto
  then show thesis using that es \<open>transaction_id e = t\<close> entry_position_mid [of t e bs as] by simp
qed

definition without :: "lamport \<Rightarrow> history_entry list \<Rightarrow> history_entry list" where
  "without t es = filter (\<lambda>e. transaction_id e \<noteq> t) es"

lemma without_id: "t \<notin> set (stack_ids es) \<Longrightarrow> without t es = es"
  by (auto simp: without_def stack_ids_def filter_id_conv)

lemma vec_remove_without:
  assumes "t \<in> set (stack_ids es)" "distinct (stack_ids es)"
  shows "\<exists>i e. entry_position t es = Some i \<and> i < length es \<and> es ! i = e \<and> e \<in> set es \<and> transaction_id e = t \<and> vec_remove i es = without t es"
proof -
  obtain as e bs where s: "es = as @ e # bs" "transaction_id e = t" "t \<notin> set (stack_ids (as @ bs))" "entry_position t es = Some (length as)"
    using stack_split [OF assms] by blast
  have "without t es = as @ bs" using s(1,2,3) without_id [of t as] without_id [of t bs] by (simp add: without_def)
  with s show ?thesis by (auto simp: vec_remove_def)
qed

lemma find_entry:
  "distinct (stack_ids es) \<Longrightarrow> e \<in> set es \<Longrightarrow> entry_position (transaction_id e) es = Some i \<Longrightarrow> es ! i = e"
  using entry_position_Some [of "transaction_id e" es i] nth_mem [of i es] by (auto simp: stack_ids_def distinct_map dest: inj_onD)

lemma get_transaction_Some:
  assumes "distinct (stack_ids (all_entries h))" "e \<in> set (all_entries h)"
  shows "get_transaction h (transaction_id e) = Some (he_transaction e)"
proof (cases "entry_position (transaction_id e) (undo_stack h)")
  case None
  then have "e \<in> set (redo_stack h)" using assms(2) by (auto simp: entry_position_None all_entries_def stack_ids_def)
  moreover then obtain i where "entry_position (transaction_id e) (redo_stack h) = Some i"
    by (metis entry_position_None image_eqI list.set_map not_Some_eq stack_ids_def)
  ultimately show ?thesis using None assms(1) find_entry [of "redo_stack h" e i]
    by (simp add: get_transaction_def all_entries_def)
next
  case (Some i)
  then have "transaction_id e \<in> set (stack_ids (undo_stack h))" by (metis entry_position_None option.discI)
  then have "e \<in> set (undo_stack h)" using assms by (auto simp: all_entries_def stack_ids_def)
  then show ?thesis using Some assms(1) find_entry [of "undo_stack h" e i] by (simp add: get_transaction_def all_entries_def)
qed

lemma forget_correct:
  assumes "transaction_depth h = 0" "distinct (stack_ids (all_entries h))"
  shows "forget h t = Some (h\<lparr>undo_stack := without t (undo_stack h), redo_stack := without t (redo_stack h)\<rparr>, get_transaction h t)"
proof (cases "t \<in> set (stack_ids (undo_stack h))")
  case True
  then have "without t (redo_stack h) = redo_stack h" using assms(2) without_id [of t "redo_stack h"] by (auto simp: all_entries_def)
  moreover obtain i where "entry_position t (undo_stack h) = Some i" "vec_remove i (undo_stack h) = without t (undo_stack h)"
    using vec_remove_without [OF True] assms(2) by (auto simp: all_entries_def)
  ultimately show ?thesis using assms(1) by (simp add: forget_def get_transaction_def)
next
  case False
  note u = without_id [OF False] iffD2 [OF entry_position_None False]
  show ?thesis
  proof (cases "t \<in> set (stack_ids (redo_stack h))")
    case True
    obtain i where "entry_position t (redo_stack h) = Some i" "vec_remove i (redo_stack h) = without t (redo_stack h)"
      using vec_remove_without [OF True] assms(2) by (auto simp: all_entries_def)
    then show ?thesis using assms(1) u by (simp add: forget_def get_transaction_def)
  next
    case False
    then show ?thesis using assms(1) u without_id [OF False] iffD2 [OF entry_position_None False]
      by (simp add: forget_def get_transaction_def)
  qed
qed

subsection \<open>Merging\<close>

definition amend :: "lamport \<Rightarrow> (transaction \<Rightarrow> transaction) \<Rightarrow> history_entry \<Rightarrow> history_entry" where
  "amend t f e = (if transaction_id e = t then e\<lparr>he_transaction := f (he_transaction e)\<rparr> else e)"

abbreviation with_edits :: "lamport list \<Rightarrow> transaction \<Rightarrow> transaction" where
  "with_edits xs d \<equiv> d\<lparr>tr_edit_ids := tr_edit_ids d @ xs\<rparr>"

lemma amend_id: "t \<notin> set (stack_ids es) \<Longrightarrow> map (amend t f) es = es"
  by (auto simp: amend_def stack_ids_def intro!: map_idI)

lemma stack_ids_amend [simp]: "stack_ids (map (amend t (with_edits xs)) es) = stack_ids es"
  by (auto simp: stack_ids_def amend_def transaction_id_def)

lemma update_at_amend:
  assumes "entry_position t es = Some i" "distinct (stack_ids es)"
  shows "update_at i f es = map (amend t f) es"
proof -
  have "t \<in> set (stack_ids es)" using assms(1) by (metis entry_position_None option.discI)
  then obtain as e bs where s: "es = as @ e # bs" "transaction_id e = t" "t \<notin> set (stack_ids (as @ bs))" "entry_position t es = Some (length as)"
    using stack_split assms(2) by metis
  moreover have "i = length as" using s(4) assms(1) by simp
  ultimately show ?thesis using amend_id [of t as f] amend_id [of t bs f] by (simp add: update_at_def amend_def)
qed

lemma transaction_mut_correct:
  assumes "distinct (stack_ids (all_entries h))"
  shows "transaction_mut h t f = (if t \<in> set (stack_ids (all_entries h))
    then Some (h\<lparr>undo_stack := map (amend t f) (undo_stack h), redo_stack := map (amend t f) (redo_stack h)\<rparr>) else None)"
proof (cases "entry_position t (undo_stack h)")
  case None
  then have "t \<notin> set (stack_ids (undo_stack h))" by (simp add: entry_position_None)
  with None assms show ?thesis
    using amend_id [of t "undo_stack h" f] entry_position_None [of t "redo_stack h"]
    by (cases "entry_position t (redo_stack h)") (simp_all add: transaction_mut_def all_entries_def update_at_amend)
next
  case (Some i)
  then have "t \<in> set (stack_ids (undo_stack h))" by (metis entry_position_None option.discI)
  moreover from this have "map (amend t f) (redo_stack h) = redo_stack h"
    using assms amend_id [of t "redo_stack h" f] by (auto simp: all_entries_def)
  ultimately show ?thesis using Some assms by (auto simp: transaction_mut_def all_entries_def update_at_amend)
qed

lemma edits_without:
  assumes "distinct (stack_ids es)" "e \<in> set es"
  shows "mset (stack_edits es) = mset (stack_edits (without (transaction_id e) es)) + mset (tr_edit_ids (he_transaction e))"
proof -
  have "transaction_id e \<in> set (stack_ids es)" using assms(2) by (simp add: stack_ids_def)
  then obtain as e' bs where s: "es = as @ e' # bs" "transaction_id e' = transaction_id e" "transaction_id e \<notin> set (stack_ids (as @ bs))"
    using stack_split assms(1) by metis
  then have "e' = e" using assms by (auto simp: stack_ids_def)
  moreover have "without (transaction_id e) es = as @ bs"
    using s without_id [of _ as] without_id [of _ bs] by (simp add: without_def)
  ultimately show ?thesis using s(1) by simp
qed

lemma edits_amend:
  assumes "distinct (stack_ids es)" "t \<in> set (stack_ids es)"
  shows "mset (stack_edits (map (amend t (with_edits xs)) es)) = mset (stack_edits es) + mset xs"
proof -
  obtain as e bs where s: "es = as @ e # bs" "transaction_id e = t" "t \<notin> set (stack_ids (as @ bs))"
    using stack_split [OF assms(2,1)] by metis
  then show ?thesis using amend_id [of t as] amend_id [of t bs] by (simp add: amend_def)
qed

lemma stack_ids_without: "stack_ids (without t es) = filter (\<lambda>i. i \<noteq> t) (stack_ids es)"
  by (simp add: without_def stack_ids_def filter_map comp_def)

lemma all_entries_without:
  "all_entries (h\<lparr>undo_stack := without t (undo_stack h), redo_stack := without t (redo_stack h)\<rparr>) = without t (all_entries h)"
  by (simp add: all_entries_def without_def)

lemma merge_transactions_some:
  assumes "transaction_depth h = 0" "distinct (stack_ids (all_entries h))"
    and "get_transaction h a = Some ta" "b \<in> set (stack_ids (all_entries h))" "a \<noteq> b"
  shows "merge_transactions h a b = Some (h\<lparr>
    undo_stack := map (amend b (with_edits (tr_edit_ids ta))) (without a (undo_stack h)),
    redo_stack := map (amend b (with_edits (tr_edit_ids ta))) (without a (redo_stack h))\<rparr>)"
  using assms forget_correct [OF assms(1,2), of a]
  by (simp add: merge_transactions_def transaction_mut_correct all_entries_without stack_ids_without distinct_filter)

lemma merge_transactions_none:
  assumes "transaction_depth h = 0" "distinct (stack_ids (all_entries h))"
    and "get_transaction h a = None \<or> b \<notin> set (stack_ids (all_entries h)) \<or> a = b"
  shows "merge_transactions h a b = map_option fst (forget h a)"
  using assms forget_correct [OF assms(1,2), of a]
  by (auto simp: merge_transactions_def transaction_mut_correct all_entries_without stack_ids_without distinct_filter split: option.splits)

lemma get_transaction_entry:
  assumes "get_transaction h t = Some tr" obtains e where "e \<in> set (all_entries h)" "transaction_id e = t" "he_transaction e = tr"
  using assms entry_position_Some [of t "undo_stack h"] entry_position_Some [of t "redo_stack h"]
  by (force simp: get_transaction_def all_entries_def split: option.splits)

lemma edits_merged:
  assumes "distinct (stack_ids (all_entries h))" "get_transaction h a = Some ta" "b \<in> set (stack_ids (all_entries h))" "a \<noteq> b"
  shows "mset (stack_edits (map (amend b (with_edits (tr_edit_ids ta))) (without a (all_entries h)))) = mset (stack_edits (all_entries h))"
proof -
  obtain e where e: "e \<in> set (all_entries h)" "transaction_id e = a" "he_transaction e = ta" using get_transaction_entry [OF assms(2)] .
  have "b \<in> set (stack_ids (without a (all_entries h)))" "distinct (stack_ids (without a (all_entries h)))"
    using assms by (simp_all add: stack_ids_without distinct_filter)
  from edits_amend [OF this(2,1)] edits_without [OF assms(1) e(1)] e(2,3) show ?thesis by simp
qed

section \<open>Reachable histories\<close>

text \<open>
  What a buffer does with its clock and its history: the calls of \<open>Buffer\<close>, one step each. Local edits and undo
  operations get the next timestamp of the clock; operations received carry another replica's timestamp; a
  transaction pushed from outside has a fresh identifier and edits that are known and in no transaction yet.
\<close>

inductive history_step :: "lamport \<times> 'r history \<Rightarrow> lamport \<times> 'r history \<Rightarrow> bool" where
  Start: "start_transaction h v now c = Some (h', c', r) \<Longrightarrow> history_step (c, h) (c', h')"
| Edit: "transaction_depth h \<noteq> 0 \<Longrightarrow> tick c = Some (t, c') \<Longrightarrow> eo_timestamp e = t \<Longrightarrow> has_room (operations h) \<Longrightarrow>
    history_push h (EditOp e) = Some h1 \<Longrightarrow> push_undo h1 t = Some h' \<Longrightarrow> history_step (c, h) (c', h')"
| Undo: "tick c = Some (t, c') \<Longrightarrow> uo_timestamp u = t \<Longrightarrow> has_room (operations h) \<Longrightarrow>
    history_push h (UndoOp u) = Some h' \<Longrightarrow> history_step (c, h) (c', h')"
| Receive: "lam_replica (op_timestamp x) \<noteq> lam_replica c \<Longrightarrow> map_get (operations h) (op_timestamp x) \<in> {None, Some x} \<Longrightarrow>
    has_room (operations h) \<Longrightarrow> history_push h x = Some h' \<Longrightarrow> history_step (c, h) (c, h')"
| Observe: "lamport_observe c t = Some c' \<Longrightarrow> history_step (c, h) (c', h)"
| End: "end_transaction_at h now = Some (h', r) \<Longrightarrow> history_step (c, h) (c, h')"
| Finalize: "finalize_last_transaction h = (h', r) \<Longrightarrow> history_step (c, h) (c, h')"
| Group: "group_until h t = Some h' \<Longrightarrow> history_step (c, h) (c, h')"
| Push: "push_transaction h tr now = Some h' \<Longrightarrow> tr_id tr \<notin> set (stack_ids (all_entries h)) \<Longrightarrow> before_clock c (tr_id tr) \<Longrightarrow>
    distinct (tr_edit_ids tr) \<Longrightarrow> set (tr_edit_ids tr) \<subseteq> known_edits h - set (stack_edits (all_entries h)) \<Longrightarrow>
    history_step (c, h) (c, h')"
| Push_Empty: "push_empty_transaction h v now c = Some (h', c', t) \<Longrightarrow> history_step (c, h) (c', h')"
| Pop_Undo: "pop_undo h = Some (h', r) \<Longrightarrow> history_step (c, h) (c, h')"
| Pop_Redo: "pop_redo h = Some (h', r) \<Longrightarrow> history_step (c, h) (c, h')"
| Remove: "remove_from_undo h t = Some (h', r) \<Longrightarrow> history_step (c, h) (c, h')"
| Undo_Until: "remove_from_undo_until h t = Some (h', rs) \<Longrightarrow> history_step (c, h) (c, h')"
| Redo_Until: "remove_from_redo h t = Some (h', rs) \<Longrightarrow> history_step (c, h) (c, h')"
| Forget: "forget h t = Some (h', r) \<Longrightarrow> history_step (c, h) (c, h')"
| Merge: "merge_transactions h a b = Some h' \<Longrightarrow> history_step (c, h) (c, h')"

inductive_cases history_stepE: "history_step (c, h) s"

inductive history_reach :: "lamport \<times> 'r history \<Rightarrow> bool" where
  Init: "history_reach (lamport_new replica, history_new base)"
| Step: "history_reach s \<Longrightarrow> history_step s s' \<Longrightarrow> history_reach s'"

lemma map_clear_valid: "valid_map (map_clear :: ('k::linorder, 'v) tree_map)" "map_get (map_clear :: ('k, 'v) tree_map) k = None"
proof -
  show "valid_map (map_clear :: ('k, 'v) tree_map)" by (simp add: map_clear_def valid_map_def)
  then show "map_get (map_clear :: ('k, 'v) tree_map) k = None"
    using map_get_abs [of "map_clear :: ('k, 'v) tree_map" k] by (simp add: map_clear_def map_abs_def entries_def)
qed

lemma history_inv_init: "history_inv (lamport_new replica) (history_new base)"
  by (simp add: history_inv_def history_new_def all_entries_def map_clear_valid)

lemma history_push_correct:
  assumes "valid_map (operations h)" "has_room (operations h)"
  obtains ops where "history_push h x = Some (h\<lparr>operations := ops\<rparr>)" "valid_map ops"
    "\<And>t. map_get ops t = (if t = op_timestamp x then Some x else map_get (operations h) t)"
proof -
  obtain ops where "map_insert (operations h) (op_timestamp x) x = Some ops" "valid_map ops"
    "map_abs ops = (map_abs (operations h))(op_timestamp x \<mapsto> x)"
    using map_insert_refines [OF assms] by metis
  with that [of ops] show thesis using map_get_abs [OF assms(1)] map_get_abs [of ops] by (simp add: history_push_def)
qed

text \<open>Pushing an operation whose timestamp is new, or the same operation again, keeps the invariant.\<close>

lemma history_inv_push:
  assumes "history_inv c h" "history_push h x = Some h'" "has_room (operations h)"
    and "map_get (operations h) (op_timestamp x) \<in> {None, Some x}" "before_clock c' (op_timestamp x)" "\<forall>t. before_clock c t \<longrightarrow> before_clock c' t"
  shows "history_inv c' h'" "undo_stack h' = undo_stack h" "redo_stack h' = redo_stack h" "transaction_depth h' = transaction_depth h"
    "\<And>t. map_get (operations h') t = (if t = op_timestamp x then Some x else map_get (operations h) t)"
proof -
  obtain ops where o: "history_push h x = Some (h\<lparr>operations := ops\<rparr>)" "valid_map ops"
    "\<And>t. map_get ops t = (if t = op_timestamp x then Some x else map_get (operations h) t)"
    using history_push_correct assms(1,3) unfolding history_inv_def by metis
  then have h': "h' = h\<lparr>operations := ops\<rparr>" using assms(2) by simp
  have "known_edits h \<subseteq> known_edits h'" using assms(4) o(3) by (auto simp: known_edits_def h')
  then show "history_inv c' h'" using assms(1,5,6) o(2,3) by (auto simp: history_inv_def all_entries_def h')
  show "undo_stack h' = undo_stack h" "redo_stack h' = redo_stack h" "transaction_depth h' = transaction_depth h"
    "\<And>t. map_get (operations h') t = (if t = op_timestamp x then Some x else map_get (operations h) t)"
    using h' o(3) by simp_all
qed

lemma history_inv_append:
  assumes "history_inv c h" "\<forall>t. before_clock c t \<longrightarrow> before_clock c' t" "before_clock c' (transaction_id e)"
    and "transaction_id e \<notin> set (stack_ids (all_entries h))" "distinct (tr_edit_ids (he_transaction e))"
    and "set (tr_edit_ids (he_transaction e)) \<subseteq> known_edits h - set (stack_edits (all_entries h))"
    and "undo_stack h' = undo_stack h @ [e]" "redo_stack h' = redo_stack h" "operations h' = operations h"
  shows "history_inv c' h'"
  using assms unfolding history_inv_def known_edits_def by (auto simp: all_entries_def)

lemma history_inv_new_entry:
  assumes "history_inv c h" "tick c = Some (t, c')" "operations h' = operations h" "redo_stack h' = redo_stack h"
    and "undo_stack h' = undo_stack h @ [new_entry \<lparr>tr_id = t, tr_edit_ids = [], tr_start = v\<rparr> now]"
  shows "history_inv c' h'"
proof -
  note b = below_tick [OF assms(2)]
  have "c \<notin> set (stack_ids (all_entries h))" using assms(1) by (auto simp: history_inv_def)
  then show ?thesis using assms(3-) b(1,3)
    by (intro history_inv_append [OF assms(1) b(4) _ _ _ _ assms(5,4,3)]) (simp_all add: new_entry_def transaction_id_def)
qed

lemma start_transaction_inv:
  assumes "history_inv c h" "start_transaction h v now c = Some (h', c', r)"
  shows "history_inv c' h'"
proof (cases "transaction_depth h = 0")
  case True
  with assms show ?thesis
    by (auto simp: start_transaction_def bind_eq_Some_conv Let_def intro!: history_inv_new_entry [OF assms(1)])
next
  case False
  then show ?thesis using assms by (auto simp: start_transaction_def history_inv_def known_edits_def all_entries_def)
qed

lemma push_empty_inv:
  "history_inv c h \<Longrightarrow> push_empty_transaction h v now c = Some (h', c', t) \<Longrightarrow> history_inv c' h'"
  by (auto simp: push_empty_transaction_def bind_eq_Some_conv Let_def intro: history_inv_new_entry)

lemma push_transaction_inv:
  assumes "history_inv c h" "push_transaction h tr now = Some h'" "tr_id tr \<notin> set (stack_ids (all_entries h))" "before_clock c (tr_id tr)"
    "distinct (tr_edit_ids tr)" "set (tr_edit_ids tr) \<subseteq> known_edits h - set (stack_edits (all_entries h))"
  shows "history_inv c h'"
  using assms by (auto simp: push_transaction_def bind_eq_Some_conv new_entry_def transaction_id_def
      intro!: history_inv_append [OF assms(1), of c "new_entry tr now"])

lemma push_undo_some:
  assumes "transaction_depth h \<noteq> 0" "undo_stack h \<noteq> []" "map_get (operations h) t = Some (EditOp e)"
  shows "push_undo h t = Some (h\<lparr>undo_stack := butlast (undo_stack h) @
    [(last (undo_stack h))\<lparr>he_transaction := with_edits [t] (he_transaction (last (undo_stack h)))\<rparr>]\<rparr>)"
  using assms by (simp add: push_undo_def last_opt_def Let_def)

lemma edit_inv:
  assumes "history_inv c h" "transaction_depth h \<noteq> 0" "tick c = Some (t, c')" "eo_timestamp e = t" "has_room (operations h)"
    and "history_push h (EditOp e) = Some h1" "push_undo h1 t = Some h'"
  shows "history_inv c' h'"
proof -
  note b = below_tick [OF assms(3)]
  have none: "map_get (operations h) t = None" using assms(1) b(1) by (auto simp: history_inv_def)
  have i1: "history_inv c' h1" and h1: "undo_stack h1 = undo_stack h" "redo_stack h1 = redo_stack h"
      "transaction_depth h1 = transaction_depth h" "map_get (operations h1) t = Some (EditOp e)"
    using history_inv_push [OF assms(1,6,5) _ _ b(4)] none b(1,3) assms(4) by simp_all
  have "t \<notin> set (stack_edits (all_entries h))" using assms(1) none by (auto simp: history_inv_def known_edits_def)
  moreover have ne: "undo_stack h \<noteq> []" using assms(1,2) by (simp add: history_inv_def)
  let ?l = "last (undo_stack h)"
  have h': "h' = h1\<lparr>undo_stack := butlast (undo_stack h) @ [?l\<lparr>he_transaction := with_edits [t] (he_transaction ?l)\<rparr>]\<rparr>"
    using push_undo_some [of h1 t e] assms(2,7) h1 ne by simp
  have "stack_ids (all_entries h') = stack_ids (all_entries h)"
    using stack_ids_last [OF ne] h1(2) by (simp add: h' all_entries_def transaction_id_def)
  moreover have "stack_edits (all_entries h') = stack_edits (undo_stack h) @ [t] @ stack_edits (redo_stack h)"
    using stack_edits_last [OF ne] h1(2) by (simp add: h' all_entries_def)
  moreover have "known_edits h' = known_edits h1" "t \<in> known_edits h1" using h1(4) by (auto simp: h' known_edits_def)
  moreover have "all_entries h1 = all_entries h" using h1 by (simp add: all_entries_def)
  moreover have "operations h' = operations h1" "undo_stack h' \<noteq> []" by (simp_all add: h')
  ultimately show ?thesis using i1 by (auto simp: history_inv_def all_entries_def [of h])
qed

lemma end_transaction_cases:
  assumes "history_inv c h" "transaction_depth h \<noteq> 0"
  obtains (nested) "transaction_depth h \<noteq> 1" "end_transaction h now = Some (h\<lparr>transaction_depth := transaction_depth h - 1\<rparr>, None)"
  | (empty) "transaction_depth h = 1" "tr_edit_ids (he_transaction (last (undo_stack h))) = []"
      "end_transaction h now = Some (h\<lparr>transaction_depth := 0, undo_stack := butlast (undo_stack h)\<rparr>, None)"
  | (edits) e where "transaction_depth h = 1" "tr_edit_ids (he_transaction e) \<noteq> []" "e = (last (undo_stack h))\<lparr>last_edit_at := now\<rparr>"
      "end_transaction h now = Some (h\<lparr>transaction_depth := 0, redo_stack := [], undo_stack := butlast (undo_stack h) @ [e]\<rparr>, Some e)"
proof (cases "transaction_depth h = 1")
  case True
  have ne: "undo_stack h \<noteq> []" using assms by (simp add: history_inv_def)
  show thesis
  proof (cases "tr_edit_ids (he_transaction (last (undo_stack h))) = []")
    case False
    show thesis by (rule edits [of "(last (undo_stack h))\<lparr>last_edit_at := now\<rparr>"])
        (use True ne False in \<open>simp_all add: end_transaction_def last_opt_def Let_def\<close>)
  qed (use True ne empty in \<open>simp add: end_transaction_def last_opt_def Let_def\<close>)
qed (use assms nested in \<open>simp add: end_transaction_def Let_def\<close>)

lemma mset_take_le: "mset (take k xs) \<subseteq># mset xs"
  by (metis append_take_drop_id mset_append mset_subset_eq_add_left)

lemma end_transaction_at_inv:
  assumes "history_inv c h" "transaction_depth h \<noteq> 0"
  obtains h' r where "end_transaction_at h now = Some (h', r)" "history_inv c h'" "transaction_depth h' = transaction_depth h - 1"
    "set (stack_edits (undo_stack h')) = set (stack_edits (undo_stack h))"
    "redo_stack h' = (if r = None then redo_stack h else [])"
  using assms
proof (cases rule: end_transaction_cases [where now = now])
  case nested
  with that [of "h\<lparr>transaction_depth := transaction_depth h - 1\<rparr>" None] assms show thesis
    by (simp add: end_transaction_at_def history_inv_def known_edits_def all_entries_def)
next
  case empty
  have ne: "undo_stack h \<noteq> []" using assms by (simp add: history_inv_def)
  let ?h = "h\<lparr>transaction_depth := 0, undo_stack := butlast (undo_stack h)\<rparr>"
  have "mset (stack_ids (all_entries ?h)) \<subseteq># mset (stack_ids (all_entries h))"
    "stack_edits (all_entries ?h) = stack_edits (all_entries h)" "stack_edits (undo_stack ?h) = stack_edits (undo_stack h)"
    using stack_ids_last [OF ne] stack_edits_last [OF ne] empty(2) by (simp_all add: all_entries_def)
  then have "history_inv c ?h" using assms(1) by (auto intro: history_inv_shrink)
  with that [of ?h None] empty \<open>stack_edits (undo_stack ?h) = _\<close> show thesis by (simp add: end_transaction_at_def)
next
  case (edits e)
  have ne: "undo_stack h \<noteq> []" using assms by (simp add: history_inv_def)
  let ?h = "h\<lparr>transaction_depth := 0, redo_stack := [], undo_stack := butlast (undo_stack h) @ [e]\<rparr>"
  have s: "stack_ids (undo_stack ?h) = stack_ids (undo_stack h)" "stack_edits (undo_stack ?h) = stack_edits (undo_stack h)"
    using stack_ids_last [OF ne] stack_edits_last [OF ne] edits(3) by (simp_all add: transaction_id_def)
  have "undo_stack ?h \<noteq> []" by simp
  then obtain es k where g: "history_group ?h = Some (?h\<lparr>undo_stack := es\<rparr>, Some (transaction_id (last es)))" "es \<noteq> []"
    "stack_ids es = take k (stack_ids (undo_stack ?h))" "stack_edits es = stack_edits (undo_stack ?h)"
    by (rule group_correct)
  have es: "stack_ids es = take k (stack_ids (undo_stack h))" "stack_edits es = stack_edits (undo_stack h)"
    unfolding g(3,4) s by (rule refl)+
  then have "history_inv c (?h\<lparr>undo_stack := es\<rparr>)"
    using g(2) mset_take_le [of k "stack_ids (undo_stack h)"]
    by (intro history_inv_shrink [OF assms(1)]) (simp_all add: all_entries_def subset_mset.add_increasing2)
  with that [of "?h\<lparr>undo_stack := es\<rparr>" "Some (transaction_id (last es), tr_start (he_transaction e))"] g(1) es(2) edits
  show thesis by (simp add: end_transaction_at_def)
qed

lemma finalize_inv: "history_inv c h \<Longrightarrow> finalize_last_transaction h = (h', r) \<Longrightarrow> history_inv c h'"
proof (cases "undo_stack h" rule: rev_cases)
  case (snoc es e)
  assume "history_inv c h" "finalize_last_transaction h = (h', r)"
  with snoc show ?thesis
    by (auto simp: finalize_last_transaction_def history_inv_def known_edits_def all_entries_def transaction_id_def)
qed (simp add: finalize_last_transaction_def)

lemma group_until_inv:
  assumes "history_inv c h" "group_until h t = Some h'"
  shows "history_inv c h'"
proof -
  obtain es where e: "group_until h t = Some (h\<lparr>undo_stack := es\<rparr>)" "es = [] \<longleftrightarrow> undo_stack h = []"
    "\<exists>k. stack_ids es = take k (stack_ids (undo_stack h))" "stack_edits es = stack_edits (undo_stack h)"
    by (rule group_until_correct)
  then show ?thesis using assms
    by (intro history_inv_shrink [OF assms(1)]) (auto simp: all_entries_def history_inv_def mset_take_le subset_mset.add_mono)
qed

lemma mset_filter_le: "mset (filter P xs) \<subseteq># mset xs"
  by simp

lemma forget_inv:
  assumes "history_inv c h" "forget h t = Some (h', r)"
  shows "history_inv c h'"
proof -
  have d: "transaction_depth h = 0" using assms(2) by (auto simp: forget_def bind_eq_Some_conv)
  have di: "distinct (stack_ids (all_entries h))" using assms(1) by (simp add: history_inv_def)
  have h': "h' = h\<lparr>undo_stack := without t (undo_stack h), redo_stack := without t (redo_stack h)\<rparr>"
    using forget_correct [OF d di, of t] assms(2) by simp
  have "mset (stack_edits (without t es)) \<subseteq># mset (stack_edits es)" for es
    by (induction es) (auto simp: without_def subset_mset.add_increasing intro: subset_mset.add_mono)
  then show ?thesis using assms(1) d all_entries_without [of t h]
    by (intro history_inv_shrink [OF assms(1)]) (simp_all add: h' stack_ids_without)
qed

lemma merge_inv:
  assumes "history_inv c h" "merge_transactions h a b = Some h'"
  shows "history_inv c h'"
proof -
  have d: "transaction_depth h = 0" using assms(2) by (auto simp: merge_transactions_def forget_def bind_eq_Some_conv)
  have di: "distinct (stack_ids (all_entries h))" using assms(1) by (simp add: history_inv_def)
  show ?thesis
  proof (cases "get_transaction h a = None \<or> b \<notin> set (stack_ids (all_entries h)) \<or> a = b")
    case True
    obtain r where "forget h a = Some (h', r)"
      using merge_transactions_none [OF d di True] assms(2) forget_correct [OF d di, of a] by auto
    then show ?thesis by (rule forget_inv [OF assms(1)])
  next
    case False
    then obtain ta where t: "get_transaction h a = Some ta" "b \<in> set (stack_ids (all_entries h))" "a \<noteq> b" by auto
    let ?f = "map (amend b (with_edits (tr_edit_ids ta))) \<circ> without a"
    have h': "h' = h\<lparr>undo_stack := ?f (undo_stack h), redo_stack := ?f (redo_stack h)\<rparr>"
      using merge_transactions_some [OF d di t] assms(2) by simp
    have "all_entries h' = ?f (all_entries h)" by (simp add: h' all_entries_def without_def)
    moreover have "operations h' = operations h" "transaction_depth h' = 0" using d by (simp_all add: h')
    ultimately show ?thesis using edits_merged [OF di t]
      by (intro history_inv_shrink [OF assms(1)]) (simp_all add: stack_ids_without)
  qed
qed

lemma history_step_inv: "history_step s s' \<Longrightarrow> history_inv (fst s) (snd s) \<Longrightarrow> history_inv (fst s') (snd s')"
proof (induction rule: history_step.induct)
  case (Undo c t c' u h h')
  note b = below_tick [OF Undo(1)]
  have "map_get (operations h) c = None" using Undo.prems by (auto simp: history_inv_def)
  then show ?case using history_inv_push(1) [OF _ Undo(4,3) _ _ b(4)] Undo b(1,3) by simp
next
  case (Receive x c h h')
  then show ?case using history_inv_push(1) [of c h x h' c] by (simp add: before_clock_def)
next
  case (Observe c t c' h)
  then show ?case using lamport_observe_Some [of c t c'] history_inv_clock [of c h c'] by auto
next
  case (End h now h' r c)
  then have "transaction_depth h \<noteq> 0" by (auto simp: end_transaction_at_def end_transaction_def bind_eq_Some_conv)
  from End.prems this obtain h'' r' where "end_transaction_at h now = Some (h'', r')" "history_inv c h''"
    using end_transaction_at_inv [of c h now] by (metis fst_conv snd_conv)
  with End(1) show ?case by simp
next
  case (Pop_Undo h h' r c)
  then have "transaction_depth h = 0" by (auto simp: pop_undo_def bind_eq_Some_conv)
  with Pop_Undo stack_moves(1) [of h] show ?case by (auto intro: history_inv_moved)
next
  case (Pop_Redo h h' r c)
  then have "transaction_depth h = 0" by (auto simp: pop_redo_def bind_eq_Some_conv)
  with Pop_Redo stack_moves(2) [of h] show ?case by (auto intro: history_inv_moved)
next
  case (Remove h t h' r c)
  then have "transaction_depth h = 0" by (auto simp: remove_from_undo_def bind_eq_Some_conv)
  with Remove stack_moves(3) [of h t] show ?case by (auto intro: history_inv_moved)
next
  case (Undo_Until h t h' rs c)
  then have "transaction_depth h = 0" by (auto simp: remove_from_undo_until_def bind_eq_Some_conv)
  with Undo_Until stack_moves(4) [of h t] show ?case by (auto intro: history_inv_moved)
next
  case (Redo_Until h t h' rs c)
  then have "transaction_depth h = 0" by (auto simp: remove_from_redo_def bind_eq_Some_conv)
  with Redo_Until stack_moves(5) [of h t] show ?case by (auto intro: history_inv_moved)
qed (auto dest: start_transaction_inv edit_inv push_empty_inv push_transaction_inv finalize_inv group_until_inv forget_inv merge_inv)

lemma history_reach_inv: "history_reach s \<Longrightarrow> history_inv (fst s) (snd s)"
  by (induction rule: history_reach.induct) (simp_all add: history_inv_init history_step_inv)

section \<open>Undoing and redoing\<close>

lemma pop_undo_redo:
  assumes "transaction_depth h = 0" "undo_stack h \<noteq> []"
  shows "\<exists>h1. pop_undo h = Some (h1, Some (last (undo_stack h))) \<and> pop_redo h1 = Some (h, Some (last (undo_stack h)))"
  using assms by (simp add: pop_undo_def pop_redo_def last_opt_def)

lemma undo_until_redo:
  assumes "transaction_depth h = 0" "distinct (stack_ids (all_entries h))" "undo_stack h = as @ e # bs"
  shows "\<exists>h1. remove_from_undo_until h (transaction_id e) = Some (h1, rev (e # bs)) \<and>
    remove_from_redo h1 (transaction_id (last (e # bs))) = Some (h, e # bs)"
proof -
  have "entry_position (transaction_id e) (undo_stack h) = Some (length as)"
    using entry_position_mid [of _ e bs as] assms(2,3) by (simp add: all_entries_def)
  then have u: "remove_from_undo_until h (transaction_id e) =
      Some (h\<lparr>redo_stack := redo_stack h @ rev (e # bs), undo_stack := as\<rparr>, rev (e # bs))" (is "_ = Some (?h, _)")
    using assms(1,3) by (simp add: remove_from_undo_until_def Let_def)
  obtain l cs where l: "rev (e # bs) = l # cs" "l = last (e # bs)"
    by (metis append_butlast_last_id list.distinct(1) rev.simps(2) rev_append append_Cons append_Nil rev_rev_ident)
  then have r: "rev (l # cs) = e # bs" by (metis rev_rev_ident)
  have "distinct (stack_ids (rev (l # cs)))" unfolding r using assms(2,3) by (auto simp: all_entries_def)
  then have "transaction_id l \<notin> set (stack_ids cs)" by (simp add: stack_ids_def flip: rev_map)
  then have "entry_position (transaction_id l) (redo_stack h @ l # cs) = Some (length (redo_stack h))"
    by (intro entry_position_mid) simp_all
  then have "remove_from_redo ?h (transaction_id l) = Some (?h\<lparr>undo_stack := as @ rev (l # cs), redo_stack := redo_stack h\<rparr>, rev (l # cs))"
    using assms(1) l(1) by (simp add: remove_from_redo_def Let_def)
  with u l(2) r assms(3) show ?thesis by simp
qed

section \<open>Transactions after a merge\<close>

lemma get_transaction_iff:
  assumes "distinct (stack_ids (all_entries h))"
  shows "get_transaction h t = Some tr \<longleftrightarrow> (\<exists>e \<in> set (all_entries h). transaction_id e = t \<and> he_transaction e = tr)"
    "get_transaction h t = None \<longleftrightarrow> t \<notin> set (stack_ids (all_entries h))"
proof -
  show s: "get_transaction h t = Some tr \<longleftrightarrow> (\<exists>e \<in> set (all_entries h). transaction_id e = t \<and> he_transaction e = tr)" for tr
    using get_transaction_Some [OF assms] get_transaction_entry [of h t tr] by blast
  have "(\<exists>tr. get_transaction h t = Some tr) \<longleftrightarrow> t \<in> set (stack_ids (all_entries h))"
    by (auto simp: s stack_ids_def)
  then show "get_transaction h t = None \<longleftrightarrow> t \<notin> set (stack_ids (all_entries h))" by auto
qed

lemma get_transaction_merged:
  assumes "distinct (stack_ids (all_entries h))" "all_entries h' = map (amend b f) (without a (all_entries h))" "a \<noteq> b"
    and "\<And>t. tr_id (f t) = tr_id t"
  shows "get_transaction h' t = (if t = a then None else if t = b then map_option f (get_transaction h b) else get_transaction h t)"
proof -
  have ids: "transaction_id (amend b f e) = transaction_id e" for e by (simp add: amend_def transaction_id_def assms(4))
  then have "stack_ids (all_entries h') = stack_ids (without a (all_entries h))" by (simp add: assms(2) stack_ids_def comp_def)
  then have d: "distinct (stack_ids (all_entries h'))" using assms(1) by (simp add: stack_ids_without distinct_filter)
  note iff = get_transaction_iff(1) [OF assms(1)]
  have m: "get_transaction h' t = Some tr \<longleftrightarrow>
      (\<exists>x \<in> set (all_entries h). transaction_id x \<noteq> a \<and> transaction_id x = t \<and> he_transaction (amend b f x) = tr)" for tr
    using get_transaction_iff(1) [OF d, of t tr] ids by (auto simp: assms(2) without_def)
  have "get_transaction h' t = Some tr \<longleftrightarrow>
      (if t = a then None else if t = b then map_option f (get_transaction h b) else get_transaction h t) = Some tr" for tr
    unfolding m using assms(3) by (auto simp: iff amend_def)
  then show ?thesis by (metis not_None_eq)
qed

section \<open>Undo counts\<close>

lemma hash_insert_keys: "set (map fst (hash_insert k v kvs)) = insert k (set (map fst kvs))"
  by (induction k v kvs rule: hash_insert.induct) auto

lemma hash_insert_distinct: "distinct (map fst kvs) \<Longrightarrow> distinct (map fst (hash_insert k v kvs))"
proof (induction kvs)
  case (Cons p kvs)
  then show ?case using hash_insert_keys [of k v kvs] by (cases p) auto
qed simp

lemma hash_insert_lookup: "map_of (hash_insert k v kvs) j = (if j = k then Some v else map_of kvs j)"
  by (induction kvs) auto

lemma undo_counts_correct:
  assumes "valid_undo_map m" "has_room m" "distinct (map fst kvs)"
  shows "\<exists>cs. undo_or_redo_counts m ids kvs = Some cs \<and> distinct (map fst cs) \<and> (\<forall>e. map_of cs e =
    (if e \<in> set ids then Some (saturating_add_u32 (greatest_count (undo_abs m e) (\<lambda>_. True)) 1) else map_of kvs e))"
  using assms(3)
proof (induction ids arbitrary: kvs)
  case (Cons i ids)
  let ?n = "saturating_add_u32 (greatest_count (undo_abs m i) (\<lambda>_. True)) 1"
  have "undo_count m i = Some (greatest_count (undo_abs m i) (\<lambda>_. True))"
    using undo_count_where_correct [OF assms(1,2)] by (simp add: undo_count_def)
  with Cons.IH [OF hash_insert_distinct [OF Cons.prems, of i ?n]] show ?case by (auto simp: hash_insert_lookup)
qed simp

lemma greatest_count_new:
  assumes "finite {n. \<exists>u. counts u = Some n}" "counts t = None"
  shows "greatest_count (counts(t \<mapsto> n)) (\<lambda>_. True) = max n (greatest_count counts (\<lambda>_. True))"
proof -
  have "{k. \<exists>u. (counts(t \<mapsto> n)) u = Some k} = insert n {k. \<exists>u. counts u = Some k}"
    using assms(2) by (auto split: if_splits) (metis option.distinct(1))
  then have "greatest_count (counts(t \<mapsto> n)) (\<lambda>_. True) = Max (insert n (insert 0 {k. \<exists>u. counts u = Some k}))"
    unfolding greatest_count_def by (simp only: simp_thms insert_commute)
  also have "\<dots> = max n (greatest_count counts (\<lambda>_. True))"
    unfolding greatest_count_def using assms(1) by (subst Max_insert) simp_all
  finally show ?thesis .
qed

lemma undo_abs_finite: "finite {n. \<exists>u. undo_abs m e u = Some n}"
proof (rule finite_subset)
  show "{n. \<exists>u. undo_abs m e u = Some n} \<subseteq> ume_undo_count ` set (elems m)"
    by (auto simp: undo_abs_def lookup_def dest!: map_of_SomeD)
qed simp

lemma succ_parity:
  fixes n :: u32
  assumes "n \<noteq> - 1"
  shows "saturating_add_u32 n 1 = n + 1" "n < n + 1" "(n + 1) mod 2 = 1 \<longleftrightarrow> n mod 2 \<noteq> 1"
proof -
  have "unat n \<noteq> unat (- 1 :: u32)" using assms by (simp only: word_unat_eq_iff [symmetric] not_False_eq_True)
  then have b: "unat n + 1 < 2 ^ 32" using unat_bound [of n] by (simp add: unsigned_minus_1_eq_mask mask_eq_exp_minus_1)
  then have u: "unat (n + 1) = unat n + 1" by (simp add: unat_word_ariths)
  show "saturating_add_u32 n 1 = n + 1" using b by (simp add: saturating_add_u32_def checked_add_def)
  show "n < n + 1" using u by (simp add: word_less_nat_alt)
  have m: "w mod 2 = 1 \<longleftrightarrow> unat w mod 2 = 1" for w :: u32 by (simp add: word_unat_eq_iff unat_mod_distrib)
  show "(n + 1) mod 2 = 1 \<longleftrightarrow> n mod 2 \<noteq> 1" unfolding m u by presburger
qed

lemma undo_operation_toggles:
  assumes "valid_undo_map m" "has_room m" "\<And>e. undo_abs m e t = None"
    and "undo_or_redo_counts m ids [] = Some cs" "undo_insert m \<lparr>uo_timestamp = t, uo_version = v, uo_counts = cs\<rparr> = Some m'"
    and "undo_count m e \<noteq> Some (- 1)" "has_room m'"
  shows "is_undone m' e = map_option (\<lambda>u. u \<noteq> (e \<in> set ids)) (is_undone m e)"
proof -
  let ?g = "greatest_count (undo_abs m e) (\<lambda>_. True)"
  obtain cs' where cs: "undo_or_redo_counts m ids [] = Some cs'" "distinct (map fst cs')"
    "\<And>e. map_of cs' e = (if e \<in> set ids then Some (saturating_add_u32 (greatest_count (undo_abs m e) (\<lambda>_. True)) 1) else None)"
    using undo_counts_correct [OF assms(1,2), of "[]" ids] by auto
  have [simp]: "cs' = cs" using cs(1) assms(4) by simp
  obtain m'' where m'': "undo_insert m \<lparr>uo_timestamp = t, uo_version = v, uo_counts = cs\<rparr> = Some m''" "valid_undo_map m''"
    "undo_abs m'' = record_undo \<lparr>uo_timestamp = t, uo_version = v, uo_counts = cs\<rparr> (undo_abs m)"
    using undo_insert_refines [OF assms(1,2)] cs(2) by (metis \<open>cs' = cs\<close> undo_operation.select_convs(3))
  have [simp]: "m'' = m'" using m''(1) assms(5) by simp
  have n: "?g \<noteq> - 1" using assms(6) undo_count_where_correct [OF assms(1,2)] by (simp add: undo_count_def)
  have u: "is_undone m e = Some (?g mod 2 = 1)" "is_undone m' e = Some (greatest_count (undo_abs m' e) (\<lambda>_. True) mod 2 = 1)"
    using undo_count_where_correct [OF assms(1,2)] undo_count_where_correct [of m'] m''(2) assms(7)
    by (simp_all add: is_undone_def undo_count_def)
  have "undo_abs m' e = (if e \<in> set ids then (undo_abs m e)(t \<mapsto> ?g + 1) else undo_abs m e)"
    using m''(3) cs(3) [of e] succ_parity(1) [OF n] by (auto simp: record_undo_def fun_eq_iff)
  then have "greatest_count (undo_abs m' e) (\<lambda>_. True) = (if e \<in> set ids then ?g + 1 else ?g)"
    using greatest_count_new [OF undo_abs_finite assms(3), of e "?g + 1"] succ_parity(2) [OF n] by (simp add: max_absorb1 less_imp_le)
  then show ?thesis using u succ_parity(3) [OF n] by simp
qed

section \<open>Theorems\<close>

text \<open>A history with two transactions.\<close>

definition sample_entry :: "u32 \<Rightarrow> history_entry" where
  "sample_entry n = new_entry \<lparr>tr_id = Lamport n LOCAL, tr_edit_ids = [], tr_start = global_new\<rparr> 0"

definition sample_history :: "unit history" where
  "sample_history = (history_new ())\<lparr>undo_stack := [sample_entry 1, sample_entry 2]\<rparr>"

lemma sample_reach: "history_reach (Lamport 3 LOCAL, sample_history)"
proof -
  let ?h1 = "(history_new ())\<lparr>undo_stack := [sample_entry 1]\<rparr>"
  have "push_empty_transaction (history_new ()) global_new 0 (lamport_new LOCAL) = Some (?h1, Lamport 2 LOCAL, Lamport 1 LOCAL)"
    by (simp add: push_empty_transaction_def history_new_def lamport_new_def tick_def checked_add_def sample_entry_def)
  then have "history_reach (Lamport 2 LOCAL, ?h1)" by (rule Step [OF Init [of LOCAL "()"] Push_Empty])
  moreover have "push_empty_transaction ?h1 global_new 0 (Lamport 2 LOCAL) = Some (sample_history, Lamport 3 LOCAL, Lamport 2 LOCAL)"
    by (simp add: push_empty_transaction_def history_new_def tick_def checked_add_def sample_entry_def sample_history_def)
  ultimately show ?thesis by (rule Step [OF _ Push_Empty])
qed

lemma sample_history_simps:
  "transaction_depth sample_history = 0" "undo_stack sample_history = [sample_entry 1, sample_entry 2]"
  "transaction_id (sample_entry n) = Lamport n LOCAL" "he_transaction (sample_entry n) = \<lparr>tr_id = Lamport n LOCAL, tr_edit_ids = [], tr_start = global_new\<rparr>"
  "redo_stack sample_history = []"
  by (simp_all add: sample_history_def history_new_def sample_entry_def new_entry_def transaction_id_def)

text \<open>C20. In every history a buffer can reach, transaction identifiers are unique over both stacks, every edit belongs to
  at most one transaction and is a known edit operation; inside a transaction recording an edit and ending the
  transaction do not panic, and outside of one neither do undoing, redoing, forgetting and merging.\<close>

theorem history_reachable_correct:
  assumes "history_reach (c, h)"
  shows "distinct (stack_ids (undo_stack h @ redo_stack h)) \<and> distinct (stack_edits (undo_stack h @ redo_stack h)) \<and>
    (\<forall>t \<in> set (stack_edits (undo_stack h @ redo_stack h)). \<exists>e. map_get (operations h) t = Some (EditOp e)) \<and>
    (transaction_depth h \<noteq> 0 \<longrightarrow> push_undo h t \<noteq> None \<and> end_transaction_at h now \<noteq> None) \<and>
    (transaction_depth h = 0 \<longrightarrow> pop_undo h \<noteq> None \<and> pop_redo h \<noteq> None \<and> remove_from_undo h t \<noteq> None \<and>
      remove_from_undo_until h t \<noteq> None \<and> remove_from_redo h t \<noteq> None \<and> forget h t \<noteq> None \<and> merge_transactions h t u \<noteq> None)"
proof -
  have i: "history_inv c h" using history_reach_inv [OF assms] by simp
  then have s: "distinct (stack_ids (undo_stack h @ redo_stack h)) \<and> distinct (stack_edits (undo_stack h @ redo_stack h)) \<and>
    (\<forall>t \<in> set (stack_edits (undo_stack h @ redo_stack h)). \<exists>e. map_get (operations h) t = Some (EditOp e))"
    by (auto simp: history_inv_def all_entries_def known_edits_def)
  have "push_undo h t \<noteq> None \<and> end_transaction_at h now \<noteq> None" if "transaction_depth h \<noteq> 0"
  proof -
    have "undo_stack h \<noteq> []" using i that by (simp add: history_inv_def)
    then have "push_undo h t \<noteq> None" using that
      by (auto simp: push_undo_def last_opt_def Let_def split: option.splits operation.splits)
    moreover obtain h' r where "end_transaction_at h now = Some (h', r)" using end_transaction_at_inv [OF i] \<open>transaction_depth h \<noteq> 0\<close> by metis
    ultimately show ?thesis by simp
  qed
  moreover have "forget h t \<noteq> None \<and> merge_transactions h t u \<noteq> None" if "transaction_depth h = 0"
    using that by (auto simp: forget_def merge_transactions_def split: option.splits)
  moreover have "pop_undo h \<noteq> None \<and> pop_redo h \<noteq> None \<and> remove_from_undo h t \<noteq> None \<and> remove_from_undo_until h t \<noteq> None \<and>
      remove_from_redo h t \<noteq> None" if "transaction_depth h = 0"
    using stack_moves(1,2) [OF that] stack_moves(3,4,5) [OF that, of t] by (metis option.distinct(1))
  ultimately show ?thesis using s by blast
qed

theorem history_reachable_correct_witness:
  "distinct (stack_ids (undo_stack sample_history @ redo_stack sample_history)) \<and> pop_undo sample_history \<noteq> None"
  using history_reachable_correct [OF sample_reach] by (simp add: sample_history_simps)

text \<open>C21. Redoing reverts undoing: after \<open>pop_undo\<close>, \<open>pop_redo\<close> restores the history; and after undoing every transaction
  from one on with \<open>remove_from_undo_until\<close>, which returns them latest first, \<open>remove_from_redo\<close> with the
  identifier of the latest restores the history.\<close>

theorem undo_redo_roundtrip:
  assumes "history_reach (c, h)" "transaction_depth h = 0" "undo_stack h = as @ e # bs"
  shows "(\<exists>h1. pop_undo h = Some (h1, Some (last (e # bs))) \<and> pop_redo h1 = Some (h, Some (last (e # bs)))) \<and>
    (\<exists>h1. remove_from_undo_until h (transaction_id e) = Some (h1, rev (e # bs)) \<and>
      remove_from_redo h1 (transaction_id (last (e # bs))) = Some (h, e # bs))"
proof -
  have "distinct (stack_ids (all_entries h))" using history_reach_inv [OF assms(1)] by (simp add: history_inv_def)
  moreover have "last (undo_stack h) = last (e # bs)" "undo_stack h \<noteq> []" using assms(3) by simp_all
  ultimately show ?thesis using pop_undo_redo [of h] undo_until_redo [OF assms(2) _ assms(3)] assms(2) by metis
qed

theorem undo_redo_roundtrip_witness:
  "\<exists>h1. remove_from_undo_until sample_history (Lamport 1 LOCAL) = Some (h1, [sample_entry 2, sample_entry 1]) \<and>
     remove_from_redo h1 (Lamport 2 LOCAL) = Some (sample_history, [sample_entry 1, sample_entry 2])"
  using undo_redo_roundtrip [OF sample_reach, of "[]" "sample_entry 1" "[sample_entry 2]"] by (simp add: sample_history_simps)

text \<open>C22. Grouping loses no edit and keeps their order: after \<open>group\<close> (as after \<open>group_until\<close>) the undo stack holds the
  same edits, its identifiers are a prefix of those before, the redo stack is untouched, and \<open>group\<close> returns the
  identifier of the entry the last ones were merged into.\<close>

theorem grouping_keeps_edits:
  assumes "undo_stack h \<noteq> []"
  shows "(\<exists>h' k. history_group h = Some (h', Some (last (stack_ids (undo_stack h')))) \<and> redo_stack h' = redo_stack h \<and>
      stack_edits (undo_stack h') = stack_edits (undo_stack h) \<and> 0 < k \<and> stack_ids (undo_stack h') = take k (stack_ids (undo_stack h))) \<and>
    (\<exists>h' k. group_until h t = Some h' \<and> redo_stack h' = redo_stack h \<and>
      stack_edits (undo_stack h') = stack_edits (undo_stack h) \<and> stack_ids (undo_stack h') = take k (stack_ids (undo_stack h)))"
proof -
  obtain es k where g: "history_group h = Some (h\<lparr>undo_stack := es\<rparr>, Some (transaction_id (last es)))" "es \<noteq> []" "0 < k"
    "stack_ids es = take k (stack_ids (undo_stack h))" "stack_edits es = stack_edits (undo_stack h)"
    by (rule group_correct [OF assms])
  have "transaction_id (last es) = last (stack_ids es)" using g(2) by (simp add: stack_ids_def last_map)
  with g have "\<exists>h' k. history_group h = Some (h', Some (last (stack_ids (undo_stack h')))) \<and> redo_stack h' = redo_stack h \<and>
      stack_edits (undo_stack h') = stack_edits (undo_stack h) \<and> 0 < k \<and> stack_ids (undo_stack h') = take k (stack_ids (undo_stack h))"
    by (intro exI [of _ "h\<lparr>undo_stack := es\<rparr>"] exI [of _ k]) simp
  moreover obtain fs where "group_until h t = Some (h\<lparr>undo_stack := fs\<rparr>)" "\<exists>k. stack_ids fs = take k (stack_ids (undo_stack h))"
    "stack_edits fs = stack_edits (undo_stack h)" by (rule group_until_correct)
  ultimately show ?thesis by auto
qed

theorem grouping_keeps_edits_witness:
  "\<exists>h' k. history_group sample_history = Some (h', Some (last (stack_ids (undo_stack h')))) \<and> 0 < k \<and>
     stack_ids (undo_stack h') = take k [Lamport 1 LOCAL, Lamport 2 LOCAL]"
  using grouping_keeps_edits [of sample_history "Lamport 1 LOCAL"] by (auto simp: sample_history_simps)

text \<open>Merging a transaction into another one appends its edits to the other, removes it, leaves every other
  transaction alone and loses no edit.\<close>

theorem merge_transactions_correct:
  assumes "history_reach (c, h)" "transaction_depth h = 0" "get_transaction h a = Some ta" "get_transaction h b = Some tb" "a \<noteq> b"
  shows "\<exists>h'. merge_transactions h a b = Some h' \<and> get_transaction h' a = None \<and>
    get_transaction h' b = Some (tb\<lparr>tr_edit_ids := tr_edit_ids tb @ tr_edit_ids ta\<rparr>) \<and>
    (\<forall>t. t \<noteq> a \<and> t \<noteq> b \<longrightarrow> get_transaction h' t = get_transaction h t) \<and>
    mset (stack_edits (undo_stack h' @ redo_stack h')) = mset (stack_edits (undo_stack h @ redo_stack h))"
proof -
  have di: "distinct (stack_ids (all_entries h))" using history_reach_inv [OF assms(1)] by (simp add: history_inv_def)
  have b: "b \<in> set (stack_ids (all_entries h))" using get_transaction_iff(2) [OF di, of b] assms(4) by simp
  let ?f = "map (amend b (with_edits (tr_edit_ids ta))) \<circ> without a"
  let ?h = "h\<lparr>undo_stack := ?f (undo_stack h), redo_stack := ?f (redo_stack h)\<rparr>"
  have m: "merge_transactions h a b = Some ?h" using merge_transactions_some [OF assms(2) di assms(3) b assms(5)] by simp
  have all: "all_entries ?h = ?f (all_entries h)" by (simp add: all_entries_def without_def)
  note g = get_transaction_merged [OF di, of ?h b "with_edits (tr_edit_ids ta)" a]
  show ?thesis using m all g assms(4,5) edits_merged [OF di assms(3) b assms(5)]
    by (intro exI [of _ ?h]) (simp add: all_entries_def)
qed

theorem merge_transactions_correct_witness:
  "\<exists>h'. merge_transactions sample_history (Lamport 2 LOCAL) (Lamport 1 LOCAL) = Some h' \<and> get_transaction h' (Lamport 2 LOCAL) = None"
proof -
  have "distinct (stack_ids (all_entries sample_history))" by (simp add: all_entries_def sample_history_simps)
  from get_transaction_Some [OF this, of "sample_entry 1"] get_transaction_Some [OF this, of "sample_entry 2"]
    merge_transactions_correct [OF sample_reach, of "Lamport 2 LOCAL" _ "Lamport 1 LOCAL"]
  show ?thesis by (simp add: all_entries_def sample_history_simps) blast
qed

text \<open>Undoing or redoing a transaction toggles exactly its edits: with the counts \<open>undo_or_redo\<close> computes, inserting the undo
  operation under a new timestamp makes every edit of the transaction undone that was not, and the other way round, as
  long as its count is below the greatest \<open>u32\<close>; no other edit changes.\<close>

theorem undo_or_redo_toggles:
  assumes "valid_undo_map m" "has_room m" "\<forall>e. undo_abs m e t = None" "undo_count m e \<noteq> Some (- 1)"
  shows "\<exists>cs m'. undo_or_redo_counts m ids [] = Some cs \<and> undo_insert m \<lparr>uo_timestamp = t, uo_version = v, uo_counts = cs\<rparr> = Some m' \<and>
    (has_room m' \<longrightarrow> is_undone m' e = map_option (\<lambda>u. u \<noteq> (e \<in> set ids)) (is_undone m e))"
proof -
  obtain cs where cs: "undo_or_redo_counts m ids [] = Some cs" "distinct (map fst cs)"
    using undo_counts_correct [OF assms(1,2), of "[]" ids] by auto
  obtain m' where "undo_insert m \<lparr>uo_timestamp = t, uo_version = v, uo_counts = cs\<rparr> = Some m'"
    using undo_insert_refines [OF assms(1,2), of "\<lparr>uo_timestamp = t, uo_version = v, uo_counts = cs\<rparr>"] cs(2) by auto
  with cs(1) undo_operation_toggles [OF assms(1,2) _ cs(1) this assms(4)] assms(3) show ?thesis by auto
qed

theorem undo_or_redo_toggles_witness:
  "\<exists>cs m'. undo_or_redo_counts (tree_new undo_ops) [Lamport 3 LOCAL] [] = Some cs \<and>
     undo_insert (tree_new undo_ops) \<lparr>uo_timestamp = Lamport 9 AGENT, uo_version = global_new, uo_counts = cs\<rparr> = Some m'"
proof -
  have n: "undo_abs (tree_new undo_ops) e t = None" for e t by (simp add: undo_abs_def lookup_def)
  then have "undo_count (tree_new undo_ops) (Lamport 3 LOCAL) = Some 0"
    using undo_count_where_correct [OF valid_undo_new] by (simp add: undo_count_def greatest_count_def)
  with undo_or_redo_toggles [OF valid_undo_new, of "Lamport 9 AGENT" "Lamport 3 LOCAL" "[Lamport 3 LOCAL]" global_new] n
  show ?thesis by auto
qed

end
