(* ===== verification/LexPreview.thy ===== *)
theory LexPreview
  imports TextSummary
begin

text \<open>
  The preview of Lex documents (\<open>crates/lex_preview\<close>: \<open>html_tree.rs\<close> and the text collection of
  \<open>render_html.rs\<close>). The exporter's HTML is parsed by an HTML library into a document tree, converted to the
  subset of elements that the renderer knows, and the inline content of a block is flattened to one string with
  styled runs and link ranges.

  Text is a list of code points and ranges count its UTF-8 bytes. The document tree of the HTML library is the
  datatype \<open>dom\<close> of what the conversion matches on: text, elements with their attributes in order, anything
  else; the parser itself is a parameter. What turns the collected text into widgets is not modelled.
\<close>

section \<open>Model\<close>

subsection \<open>The HTML tree\<close>

datatype html_tag = H1 | H2 | H3 | H4 | H5 | H6 | P | Ul | Ol | Li | Dl | Dt | Dd | Blockquote | Pre | Code
  | Table | Thead | Tbody | Tr | Th | Td | Figure | Figcaption | Img | A | Em | Strong | Span | Div | Section
  | Header | Hr | Br | Other

definition tag_names :: "(string \<times> html_tag) list" where
  "tag_names = [(''h1'', H1), (''h2'', H2), (''h3'', H3), (''h4'', H4), (''h5'', H5), (''h6'', H6), (''p'', P), (''ul'', Ul),
     (''ol'', Ol), (''li'', Li), (''dl'', Dl), (''dt'', Dt), (''dd'', Dd), (''blockquote'', Blockquote), (''pre'', Pre),
     (''code'', Code), (''table'', Table), (''thead'', Thead), (''tbody'', Tbody), (''tr'', Tr), (''th'', Th), (''td'', Td),
     (''figure'', Figure), (''figcaption'', Figcaption), (''img'', Img), (''a'', A), (''em'', Em), (''strong'', Strong),
     (''span'', Span), (''div'', Div), (''section'', Section), (''header'', Header), (''hr'', Hr), (''br'', Br)]"

definition from_name :: "string \<Rightarrow> html_tag" where
  "from_name name = (case map_of tag_names name of Some t \<Rightarrow> t | None \<Rightarrow> Other)"

fun heading_level :: "html_tag \<Rightarrow> u8 option" where
  "heading_level H1 = Some 1"
| "heading_level H2 = Some 2"
| "heading_level H3 = Some 3"
| "heading_level H4 = Some 4"
| "heading_level H5 = Some 5"
| "heading_level H6 = Some 6"
| "heading_level _ = None"

type_synonym rstring = "rchar list"

datatype html_node = HText rstring | HElement html_element
  and html_element = HtmlElement (tag: html_tag) (class_attr: "rstring option") (href: "rstring option") (src: "rstring option")
    (alt: "rstring option") (data_language: "rstring option") (children: "html_node list")

text \<open>\<open>str::split_ascii_whitespace\<close>.\<close>

definition ascii_whitespace :: "rchar \<Rightarrow> bool" where
  "ascii_whitespace c \<longleftrightarrow> c \<in> {9, 10, 12, 13, 32}"

function split_ascii_whitespace :: "rstring \<Rightarrow> rstring list" where
  "split_ascii_whitespace s =
     (let s' = dropWhile ascii_whitespace s
      in if s' = [] then [] else takeWhile (Not \<circ> ascii_whitespace) s' # split_ascii_whitespace (dropWhile (Not \<circ> ascii_whitespace) s'))"
  by pat_completeness auto
termination
proof (relation "measure length")
  fix s s' :: rstring
  assume s': "s' = dropWhile ascii_whitespace s" "s' \<noteq> []"
  then have "\<not> ascii_whitespace (hd s')" by (metis hd_dropWhile)
  then have "dropWhile (Not \<circ> ascii_whitespace) s' = dropWhile (Not \<circ> ascii_whitespace) (tl s')" using s'(2) by (cases s') simp_all
  then have "length (dropWhile (Not \<circ> ascii_whitespace) s') < length s'"
    using s'(2) length_dropWhile_le [of "Not \<circ> ascii_whitespace" "tl s'"] by (cases s') simp_all
  then show "(dropWhile (Not \<circ> ascii_whitespace) s', s) \<in> measure length"
    using length_dropWhile_le [of ascii_whitespace s] s'(1) by simp
qed simp

declare split_ascii_whitespace.simps [simp del]

definition has_class :: "html_element \<Rightarrow> rstring \<Rightarrow> bool" where
  "has_class e class = (case class_attr e of None \<Rightarrow> False | Some classes \<Rightarrow> class \<in> set (split_ascii_whitespace classes))"

subsection \<open>Conversion of the document\<close>

datatype dom = DText rstring | DElement string "(string \<times> rstring) list" "dom list" | DOther "dom list"

fun dom_children :: "dom \<Rightarrow> dom list" where
  "dom_children (DText _) = []"
| "dom_children (DElement _ _ ds) = ds"
| "dom_children (DOther ds) = ds"

fun find_element :: "string \<Rightarrow> dom \<Rightarrow> dom option" and find_in :: "string \<Rightarrow> dom list \<Rightarrow> dom option" where
  "find_element name (DText _) = None"
| "find_element name (DElement n as ds) = (if n = name then Some (DElement n as ds) else find_in name ds)"
| "find_element name (DOther ds) = find_in name ds"
| "find_in name [] = None"
| "find_in name (d # ds) = (case find_element name d of Some found \<Rightarrow> Some found | None \<Rightarrow> find_in name ds)"

definition skipped_tags :: "string list" where
  "skipped_tags = [''style'', ''script'', ''meta'', ''link'', ''title'']"

fun attr_loop :: "html_element \<Rightarrow> (string \<times> rstring) list \<Rightarrow> html_element" where
  "attr_loop e [] = e"
| "attr_loop (HtmlElement t c h s a l cs) ((name, v) # as) =
     attr_loop
       (if name = ''class'' then HtmlElement t (Some v) h s a l cs
        else if name = ''href'' then HtmlElement t c (Some v) s a l cs
        else if name = ''src'' then HtmlElement t c h (Some v) a l cs
        else if name = ''alt'' then HtmlElement t c h s (Some v) l cs
        else if name = ''data-language'' then HtmlElement t c h s a (Some v) cs
        else HtmlElement t c h s a l cs) as"

definition set_children :: "html_element \<Rightarrow> html_node list \<Rightarrow> html_element" where
  "set_children e cs = HtmlElement (tag e) (class_attr e) (href e) (src e) (alt e) (data_language e) cs"

fun convert_nodes :: "dom list \<Rightarrow> html_node list" where
  "convert_nodes [] = []"
| "convert_nodes (DText s # ds) = HText s # convert_nodes ds"
| "convert_nodes (DElement name as cs # ds) =
     (if name \<in> set skipped_tags then convert_nodes ds
      else HElement (set_children (attr_loop (HtmlElement (from_name name) None None None None None []) as) (convert_nodes cs))
        # convert_nodes ds)"
| "convert_nodes (DOther cs # ds) = convert_nodes ds"

definition convert_children :: "dom \<Rightarrow> html_node list" where
  "convert_children d = convert_nodes (dom_children d)"

text \<open>\<open>parse_html_document\<close>: \<open>parse\<close> is the HTML library, \<open>Inl\<close> an error of it.\<close>

datatype preview_error = Parse_Failed | No_Body

definition parse_html_document :: "(rstring \<Rightarrow> dom option) \<Rightarrow> rstring \<Rightarrow> preview_error + html_node list" where
  "parse_html_document parse html = (case parse html of
     None \<Rightarrow> Inl Parse_Failed
   | Some document \<Rightarrow> (case find_element ''body'' document of
       None \<Rightarrow> Inl No_Body
     | Some body \<Rightarrow> Inr (convert_children body)))"

subsection \<open>Inline text\<close>

datatype inline_style = InlineStyle (bold: bool) (italic: bool) (code: bool) (link: bool)

definition default_style :: inline_style where
  "default_style = InlineStyle False False False False"

record inline_text =
  it_text :: rstring
  it_runs :: "((nat \<times> nat) \<times> inline_style) list"
  it_links :: "((nat \<times> nat) \<times> rstring) list"

definition inline_empty :: inline_text where
  "inline_empty = \<lparr>it_text = [], it_runs = [], it_links = []\<rparr>"

text \<open>\<open>char::is_whitespace\<close>: the code points with the Unicode property \<open>White_Space\<close>.\<close>

definition is_whitespace :: "rchar \<Rightarrow> bool" where
  "is_whitespace c \<longleftrightarrow> 9 \<le> c \<and> c \<le> 13 \<or> 0x2000 \<le> c \<and> c \<le> 0x200A \<or>
     c \<in> {0x20, 0x85, 0xA0, 0x1680, 0x2028, 0x2029, 0x202F, 0x205F, 0x3000}"

definition push_char :: "rchar \<Rightarrow> inline_style \<Rightarrow> inline_text \<Rightarrow> inline_text" where
  "push_char character style t =
     (let start = str_len (it_text t);
          text' = it_text t @ [character];
          end' = str_len text';
          t' = t\<lparr>it_text := text'\<rparr>
      in case last_opt (it_runs t) of
           Some ((s, e), last_style) \<Rightarrow>
             if last_style = style \<and> e = start then t'\<lparr>it_runs := butlast (it_runs t) @ [((s, end'), last_style)]\<rparr>
             else t'\<lparr>it_runs := it_runs t @ [((start, end'), style)]\<rparr>
         | None \<Rightarrow> t'\<lparr>it_runs := it_runs t @ [((start, end'), style)]\<rparr>)"

fun push_text :: "rstring \<Rightarrow> inline_style \<Rightarrow> inline_text \<Rightarrow> inline_text" where
  "push_text [] style t = t"
| "push_text (c # cs) style t =
     push_text cs style
       (if is_whitespace c
        then (if it_text t \<noteq> [] \<and> last (it_text t) \<notin> {32, 10} then push_char 32 style t else t)
        else push_char c style t)"

definition inline_is_empty :: "inline_text \<Rightarrow> bool" where
  "inline_is_empty t \<longleftrightarrow> list_all is_whitespace (it_text t)"

definition is_inline :: "html_tag \<Rightarrow> bool" where
  "is_inline t \<longleftrightarrow> t \<in> {A, Em, Strong, Code, Span, Br}"

fun style_for :: "html_tag \<Rightarrow> inline_style \<Rightarrow> inline_style" where
  "style_for Strong (InlineStyle b i c l) = InlineStyle True i c l"
| "style_for Em (InlineStyle b i c l) = InlineStyle b True c l"
| "style_for Code (InlineStyle b i c l) = InlineStyle b i True l"
| "style_for A (InlineStyle b i c l) = InlineStyle b i c True"
| "style_for _ s = s"

fun collect_inline :: "html_node \<Rightarrow> inline_style \<Rightarrow> inline_text \<Rightarrow> inline_text"
  and collect_all :: "html_node list \<Rightarrow> inline_style \<Rightarrow> inline_text \<Rightarrow> inline_text" where
  "collect_inline (HText s) style out = push_text s style out"
| "collect_inline (HElement (HtmlElement t c h s a l cs)) style out =
     (if t = Br then push_char 10 style out
      else if t = Img then (case a of Some alt_text \<Rightarrow> push_text alt_text style out | None \<Rightarrow> out)
      else
        let link_start = str_len (it_text out);
            out' = collect_all cs (style_for t style) out
        in case h of
             Some url \<Rightarrow> if t = A then out'\<lparr>it_links := it_links out' @ [((link_start, str_len (it_text out')), url)]\<rparr> else out'
           | None \<Rightarrow> out')"
| "collect_all [] style out = out"
| "collect_all (n # ns) style out = collect_all ns style (collect_inline n style out)"

fun collect_verbatim_text :: "html_node list \<Rightarrow> rstring \<Rightarrow> rstring" where
  "collect_verbatim_text [] out = out"
| "collect_verbatim_text (HText s # ns) out = collect_verbatim_text ns (out @ s)"
| "collect_verbatim_text (HElement (HtmlElement t c h s a l cs) # ns) out =
     collect_verbatim_text ns (if t = Br then out @ [10] else collect_verbatim_text cs out)"

fun table_cells :: "html_node list \<Rightarrow> html_element list" where
  "table_cells [] = []"
| "table_cells (HElement e # ns) = (if tag e \<in> {Th, Td} then e # table_cells ns else table_cells ns)"
| "table_cells (HText _ # ns) = table_cells ns"

fun collect_table_rows :: "html_node list \<Rightarrow> html_element list list \<Rightarrow> html_element list list" where
  "collect_table_rows [] found = found"
| "collect_table_rows (HText _ # ns) found = collect_table_rows ns found"
| "collect_table_rows (HElement (HtmlElement t c h s a l cs) # ns) found =
     collect_table_rows ns
       (if t \<in> {Thead, Tbody} then collect_table_rows cs found
        else if t = Tr \<and> table_cells cs \<noteq> [] then found @ [table_cells cs]
        else found)"

section \<open>Runs\<close>

text \<open>The text as maximal segments of one style; the runs are the byte ranges of the segments.\<close>

type_synonym segments = "(rstring \<times> inline_style) list"

fun seg_runs :: "nat \<Rightarrow> segments \<Rightarrow> ((nat \<times> nat) \<times> inline_style) list" where
  "seg_runs i [] = []"
| "seg_runs i ((s, st) # segs) = ((i, i + str_len s), st) # seg_runs (i + str_len s) segs"

definition seg_text :: "segments \<Rightarrow> rstring" where
  "seg_text segs = concat (map fst segs)"

definition normal_segs :: "segments \<Rightarrow> bool" where
  "normal_segs segs \<longleftrightarrow> (\<forall>(s, st) \<in> set segs. s \<noteq> []) \<and> successively (\<lambda>a b. snd a \<noteq> snd b) segs"

definition represents :: "inline_text \<Rightarrow> segments \<Rightarrow> bool" where
  "represents t segs \<longleftrightarrow> it_text t = seg_text segs \<and> it_runs t = seg_runs 0 segs \<and> normal_segs segs"

definition styled :: "segments \<Rightarrow> (rchar \<times> inline_style) list" where
  "styled segs = concat (map (\<lambda>(s, st). map (\<lambda>c. (c, st)) s) segs)"

lemma seg_simps [simp]:
  "seg_text [] = []" "seg_text ((s, st) # segs) = s @ seg_text segs" "seg_text (xs @ ys) = seg_text xs @ seg_text ys"
  "styled [] = []" "styled ((s, st) # segs) = map (\<lambda>c. (c, st)) s @ styled segs" "styled (xs @ ys) = styled xs @ styled ys"
  by (simp_all add: seg_text_def styled_def)

lemma styled_text: "map fst (styled segs) = seg_text segs"
  by (induction segs) (auto simp: comp_def)

lemma seg_runs_append: "seg_runs i (xs @ ys) = seg_runs i xs @ seg_runs (i + str_len (seg_text xs)) ys"
  by (induction i xs rule: seg_runs.induct) (simp_all add: add.assoc)

lemma push_char_represents:
  assumes "represents t segs"
  shows "\<exists>segs'. represents (push_char c st t) segs' \<and> styled segs' = styled segs @ [(c, st)]"
proof (cases segs rule: rev_cases)
  case Nil
  then show ?thesis using assms
    by (intro exI [of _ "[([c], st)]"]) (simp add: represents_def push_char_def normal_segs_def)
next
  case (snoc ss l)
  obtain s st0 where l: "l = (s, st0)" by (cases l)
  have r: "it_runs t = seg_runs 0 ss @ [((str_len (seg_text ss), str_len (seg_text ss) + str_len s), st0)]"
    "it_text t = seg_text ss @ s" using assms by (simp_all add: represents_def snoc l seg_runs_append)
  have n: "normal_segs (ss @ [(s, st0)])" using assms by (simp add: represents_def snoc l)
  show ?thesis
  proof (cases "st0 = st")
    case True
    have "normal_segs (ss @ [(s @ [c], st)])" using n True by (auto simp: normal_segs_def successively_append_iff)
    then show ?thesis using r True
      by (intro exI [of _ "ss @ [(s @ [c], st)]"]) (simp add: represents_def push_char_def Let_def seg_runs_append snoc l add.assoc)
  next
    case False
    have "normal_segs (ss @ [(s, st0), ([c], st)])" using n False by (auto simp: normal_segs_def successively_append_iff)
    then show ?thesis using r False
      by (intro exI [of _ "ss @ [(s, st0), ([c], st)]"]) (simp add: represents_def push_char_def Let_def seg_runs_append snoc l add.assoc)
  qed
qed

section \<open>The flattened content\<close>

datatype token = Chr rchar inline_style | Break inline_style

fun tokens :: "html_node \<Rightarrow> inline_style \<Rightarrow> token list" and tokens_all :: "html_node list \<Rightarrow> inline_style \<Rightarrow> token list" where
  "tokens (HText s) st = map (\<lambda>c. Chr c st) s"
| "tokens (HElement (HtmlElement t c h s a l cs)) st =
     (if t = Br then [Break st] else if t = Img then (case a of Some s \<Rightarrow> map (\<lambda>c. Chr c st) s | None \<Rightarrow> [])
      else tokens_all cs (style_for t st))"
| "tokens_all [] st = []"
| "tokens_all (n # ns) st = tokens n st @ tokens_all ns st"

fun place :: "token \<Rightarrow> (rchar \<times> inline_style) list \<Rightarrow> (rchar \<times> inline_style) list" where
  "place (Break st) acc = acc @ [(10, st)]"
| "place (Chr c st) acc =
     (if is_whitespace c then (if acc \<noteq> [] \<and> fst (last acc) \<notin> {32, 10} then acc @ [(32, st)] else acc) else acc @ [(c, st)])"

definition shows_tokens :: "inline_text \<Rightarrow> (rchar \<times> inline_style) list \<Rightarrow> bool" where
  "shows_tokens t cs \<longleftrightarrow> (\<exists>segs. represents t segs \<and> styled segs = cs)"

lemma shows_text: "shows_tokens t cs \<Longrightarrow> it_text t = map fst cs"
  by (auto simp: shows_tokens_def represents_def styled_text)

lemma push_char_shows: "shows_tokens t cs \<Longrightarrow> shows_tokens (push_char c st t) (cs @ [(c, st)])"
  using push_char_represents by (fastforce simp: shows_tokens_def)

lemma push_text_shows: "shows_tokens t cs \<Longrightarrow> shows_tokens (push_text s st t) (fold place (map (\<lambda>c. Chr c st) s) cs)"
proof (induction s arbitrary: t cs)
  case (Cons c s)
  have "it_text t = map fst cs" using Cons.prems by (rule shows_text)
  then have "shows_tokens (if is_whitespace c then (if it_text t \<noteq> [] \<and> last (it_text t) \<notin> {32, 10} then push_char 32 st t else t)
      else push_char c st t) (place (Chr c st) cs)"
    using push_char_shows [OF Cons.prems] Cons.prems by (auto simp: last_map)
  from Cons.IH [OF this] show ?case by simp
qed simp

lemma shows_links: "shows_tokens (t\<lparr>it_links := ls\<rparr>) cs \<longleftrightarrow> shows_tokens t cs"
  by (simp add: shows_tokens_def represents_def)

lemma collect_shows:
  "shows_tokens out cs \<Longrightarrow> shows_tokens (collect_inline n st out) (fold place (tokens n st) cs)"
  "shows_tokens out cs \<Longrightarrow> shows_tokens (collect_all ns st out) (fold place (tokens_all ns st) cs)"
proof (induction n st out and ns st out arbitrary: cs and cs rule: collect_inline_collect_all.induct)
  case (1 s st out)
  then show ?case by (simp add: push_text_shows)
next
  case (2 t c h s a l cs' st out)
  then show ?case
    by (cases a; cases h) (auto simp: push_text_shows push_char_shows shows_links Let_def)
qed simp_all

lemma inline_empty_shows: "shows_tokens inline_empty []"
  by (auto simp: shows_tokens_def represents_def inline_empty_def normal_segs_def intro: exI [of _ "[]"])

subsection \<open>Collapsed white space\<close>

definition collapsed :: "rstring \<Rightarrow> bool" where
  "collapsed s \<longleftrightarrow> (\<forall>c \<in> set s. is_whitespace c \<longrightarrow> c = 32 \<or> c = 10) \<and> (s \<noteq> [] \<longrightarrow> hd s \<noteq> 32) \<and>
     successively (\<lambda>a b. b = 32 \<longrightarrow> a \<noteq> 32 \<and> a \<noteq> 10) s"

lemma collapsed_snoc:
  "collapsed (s @ [c]) \<longleftrightarrow> collapsed s \<and> (is_whitespace c \<longrightarrow> c = 32 \<or> c = 10) \<and> (c = 32 \<longrightarrow> s \<noteq> [] \<and> last s \<notin> {32, 10})"
  by (cases "s = []") (auto simp: collapsed_def successively_append_iff hd_append)

lemma place_collapsed: "collapsed (map fst acc) \<Longrightarrow> collapsed (map fst (place tok acc))"
  by (cases tok) (auto simp: collapsed_snoc last_map is_whitespace_def)

lemma fold_place_collapsed: "collapsed (map fst acc) \<Longrightarrow> collapsed (map fst (fold place toks acc))"
  by (induction toks arbitrary: acc) (simp_all add: place_collapsed)

fun token_content :: "token \<Rightarrow> rstring" where
  "token_content (Break st) = []"
| "token_content (Chr c st) = (if is_whitespace c then [] else [c])"

lemma place_content:
  "filter (\<lambda>c. \<not> is_whitespace c) (map fst (fold place toks acc)) =
     filter (\<lambda>c. \<not> is_whitespace c) (map fst acc) @ concat (map token_content toks)"
proof (induction toks arbitrary: acc)
  case (Cons tok toks)
  have "filter (\<lambda>c. \<not> is_whitespace c) (map fst (place tok acc)) = filter (\<lambda>c. \<not> is_whitespace c) (map fst acc) @ token_content tok"
    by (cases tok) (simp_all add: is_whitespace_def)
  with Cons show ?case by simp
qed simp

subsection \<open>Links\<close>

definition links_ok :: "inline_text \<Rightarrow> bool" where
  "links_ok t \<longleftrightarrow> (\<forall>((i, j), url) \<in> set (it_links t). i \<le> j \<and> j \<le> str_len (it_text t))"

lemma push_char_grows: "it_text (push_char c st t) = it_text t @ [c]" "it_links (push_char c st t) = it_links t"
  by (auto simp: push_char_def Let_def split: option.splits)

lemma push_text_grows: "\<exists>s'. it_text (push_text s st t) = it_text t @ s' \<and> it_links (push_text s st t) = it_links t"
proof (induction s arbitrary: t)
  case (Cons c s)
  show ?case using Cons [of "push_char 32 st t"] Cons [of t] Cons [of "push_char c st t"] by (auto simp: push_char_grows)
qed simp

definition extends :: "inline_text \<Rightarrow> inline_text \<Rightarrow> bool" where
  "extends t t' \<longleftrightarrow> links_ok t' \<and> str_len (it_text t) \<le> str_len (it_text t')"

lemma push_extends: "links_ok t \<Longrightarrow> extends t (push_text s st t)" "links_ok t \<Longrightarrow> extends t (push_char c st t)"
  using push_text_grows [of s st t] push_char_grows [of c st t] by (force simp: extends_def links_ok_def)+

lemma collect_extends:
  "links_ok out \<Longrightarrow> extends out (collect_inline n st out)"
  "links_ok out \<Longrightarrow> extends out (collect_all ns st out)"
proof (induction n st out and ns st out rule: collect_inline_collect_all.induct)
  case (2 t c h s a l cs st out)
  show ?case
  proof (cases "t = Br \<or> t = Img")
    case True
    then show ?thesis using push_extends 2(2) by (cases a) (auto simp: extends_def)
  next
    case False
    then have "extends out (collect_all cs (style_for t st) out)" using 2 by simp
    with False show ?thesis by (cases h) (auto simp: extends_def links_ok_def Let_def)
  qed
next
  case (4 n ns st out)
  then show ?case by (fastforce simp: extends_def)
next
  case (1 s st out)
  then show ?case by (simp add: push_extends)
qed (simp add: extends_def)

section \<open>The document\<close>

text \<open>The elements of a tree in document order, and the text of a part of the document.\<close>

fun preorder :: "dom \<Rightarrow> dom list" and preorder_all :: "dom list \<Rightarrow> dom list" where
  "preorder (DText s) = [DText s]"
| "preorder (DElement n as ds) = DElement n as ds # preorder_all ds"
| "preorder (DOther ds) = DOther ds # preorder_all ds"
| "preorder_all [] = []"
| "preorder_all (d # ds) = preorder d @ preorder_all ds"

fun named :: "string \<Rightarrow> dom \<Rightarrow> bool" where
  "named name (DElement n as ds) \<longleftrightarrow> n = name"
| "named name _ \<longleftrightarrow> False"

lemma first_opt_append: "first_opt (xs @ ys) = (case first_opt xs of None \<Rightarrow> first_opt ys | Some x \<Rightarrow> Some x)"
  by (cases xs) simp_all

lemma find_element_preorder:
  "find_element name d = first_opt (filter (named name) (preorder d))"
  "find_in name ds = first_opt (filter (named name) (preorder_all ds))"
  by (induction name d and name ds rule: find_element_find_in.induct) (simp_all add: first_opt_append split: option.splits)

fun dom_text :: "dom list \<Rightarrow> rstring" where
  "dom_text [] = []"
| "dom_text (DText s # ds) = s @ dom_text ds"
| "dom_text (DElement name as cs # ds) =
     (if name \<in> set skipped_tags then [] else if name = ''br'' then [10] else dom_text cs) @ dom_text ds"
| "dom_text (DOther cs # ds) = dom_text ds"

lemma from_name_br: "from_name name = Br \<longleftrightarrow> name = ''br''"
  by (simp add: from_name_def tag_names_def)

lemma attr_loop_tag: "tag (attr_loop e as) = tag e"
  by (induction e as rule: attr_loop.induct) simp_all

lemma verbatim_prefix: "collect_verbatim_text ns (pre @ out) = pre @ collect_verbatim_text ns out"
  by (induction ns out rule: collect_verbatim_text.induct) (simp_all split: if_splits)

lemma verbatim_append: "collect_verbatim_text ns out = out @ collect_verbatim_text ns []"
  using verbatim_prefix [of ns out "[]"] by simp

lemma convert_text: "collect_verbatim_text (convert_nodes ds) [] = dom_text ds"
proof (induction ds rule: convert_nodes.induct)
  case (3 name as cs ds)
  show ?case
  proof (cases "name \<in> set skipped_tags")
    case False
    let ?e = "attr_loop (HtmlElement (from_name name) None None None None None []) as"
    have "tag ?e = Br \<longleftrightarrow> name = ''br''" by (simp add: attr_loop_tag from_name_br)
    then show ?thesis using False 3
      by (simp add: set_children_def verbatim_append [of "convert_nodes ds" "[10]"]
          verbatim_append [of "convert_nodes ds" "dom_text cs"])
  qed (use 3 in simp)
next
  case (2 s ds)
  then show ?case by (simp add: verbatim_append [of "convert_nodes ds" s])
qed simp_all

lemma table_cells_tags: "e \<in> set (table_cells ns) \<Longrightarrow> tag e = Th \<or> tag e = Td"
  by (induction ns rule: table_cells.induct) (auto split: if_splits)

lemma table_rows_cells:
  "(\<And>r. r \<in> set found \<Longrightarrow> r \<noteq> [] \<and> (\<forall>e \<in> set r. tag e = Th \<or> tag e = Td)) \<Longrightarrow>
   r \<in> set (collect_table_rows ns found) \<Longrightarrow> r \<noteq> [] \<and> (\<forall>e \<in> set r. tag e = Th \<or> tag e = Td)"
proof (induction ns found arbitrary: r rule: collect_table_rows.induct)
  case (3 t c h s a l cs ns found)
  show ?case
  proof (rule "3.IH"(2) [OF _ "3.prems"(2) [unfolded collect_table_rows.simps]])
    fix q
    assume q: "q \<in> set (if t \<in> {Thead, Tbody} then collect_table_rows cs found
      else if t = Tr \<and> table_cells cs \<noteq> [] then found @ [table_cells cs] else found)"
    show "q \<noteq> [] \<and> (\<forall>e \<in> set q. tag e = Th \<or> tag e = Td)"
    proof (cases "t \<in> {Thead, Tbody}")
      case True
      with q show ?thesis by (intro "3.IH"(1) [OF True "3.prems"(1)]) simp_all
    next
      case False
      with q "3.prems"(1) [of q] show ?thesis by (auto split: if_splits dest: table_cells_tags)
    qed
  qed
qed simp_all

section \<open>Theorems\<close>

text \<open>C23. The inline text of any nodes has runs that are exactly the byte ranges of its maximal segments of one style,
  in order and covering it; its characters with their styles are the flattened content with runs of white space
  collapsed; it neither begins with a space nor has a space after a space or a line break, and contains no other white
  space; no other character is lost; links lie within the text.\<close>

theorem inline_text_correct:
  "let out = collect_all nodes style inline_empty
   in (\<exists>segs. represents out segs \<and> styled segs = fold place (tokens_all nodes style) []) \<and> collapsed (it_text out) \<and>
      filter (\<lambda>c. \<not> is_whitespace c) (it_text out) = concat (map token_content (tokens_all nodes style)) \<and> links_ok out"
proof -
  let ?out = "collect_all nodes style inline_empty" and ?cs = "fold place (tokens_all nodes style) []"
  have s: "shows_tokens ?out ?cs" using collect_shows(2) [OF inline_empty_shows] .
  then have t: "it_text ?out = map fst ?cs" by (rule shows_text)
  have "links_ok ?out" using collect_extends(2) [of inline_empty] by (simp add: extends_def links_ok_def inline_empty_def)
  moreover have "collapsed (it_text ?out)" using fold_place_collapsed [of "[]"] t by (simp add: collapsed_def)
  moreover have "filter (\<lambda>c. \<not> is_whitespace c) (it_text ?out) = concat (map token_content (tokens_all nodes style))"
    using place_content [of "tokens_all nodes style" "[]"] t by simp
  ultimately show ?thesis using s by (auto simp: shows_tokens_def Let_def)
qed

text \<open>C24. Parsing a document looks for the first \<open>body\<close> element in document order and fails with the parser's error or for
  lack of a body; what it returns has the verbatim text of the body: its text with line breaks for \<open>br\<close>, without
  comments and without the subtrees of \<open>style\<close>, \<open>script\<close>, \<open>meta\<close>, \<open>link\<close> and \<open>title\<close>.\<close>

theorem parse_html_document_correct:
  "case parse html of
     None \<Rightarrow> parse_html_document parse html = Inl Parse_Failed
   | Some d \<Rightarrow> (case filter (named ''body'') (preorder d) of
       [] \<Rightarrow> parse_html_document parse html = Inl No_Body
     | body # _ \<Rightarrow> (\<exists>nodes. parse_html_document parse html = Inr nodes \<and>
         collect_verbatim_text nodes [] = dom_text (dom_children body)))"
  using convert_text
  by (auto simp: parse_html_document_def find_element_preorder convert_children_def split: option.splits list.splits)

end
