(* ===== verification/LineFormat.thy ===== *)
theory LineFormat
  imports Chunk_Correct
begin

text \<open>
  Indentation and line endings (\<open>crates/text/src/text.rs\<close>: \<open>LineIndent\<close>, \<open>LineEnding\<close>,
  \<open>chunks_with_line_ending\<close>). A buffer holds normalised text, with line feeds only; its line ending is detected when the
  text is loaded and written back chunk by chunk when it is saved.

  For line endings text is the list of its UTF-8 bytes. The regular expression library is a parameter, a function that
  replaces what \<open>\r\n|\r\<close> matches by a line feed; the platform's default line ending is a parameter too.
\<close>

section \<open>Model\<close>

subsection \<open>Indentation\<close>

record line_indent =
  li_tabs :: u32
  li_spaces :: u32
  li_line_blank :: bool

text \<open>The loop of \<open>from_iter\<close> over characters; the flag is false once the loop was left by \<open>break\<close>.\<close>

fun indent_loop :: "rchar list \<Rightarrow> line_indent \<Rightarrow> (line_indent \<times> bool) option" where
  "indent_loop [] i = Some (i, True)"
| "indent_loop (c # cs) i =
     (if c = 9 then do { n \<leftarrow> checked_add (li_tabs i) 1; indent_loop cs (i\<lparr>li_tabs := n\<rparr>) }
      else if c = 32 then do { n \<leftarrow> checked_add (li_spaces i) 1; indent_loop cs (i\<lparr>li_spaces := n\<rparr>) }
      else Some (if c \<noteq> 10 then i\<lparr>li_line_blank := False\<rparr> else i, False))"

definition indent_new :: line_indent where
  "indent_new = \<lparr>li_tabs = 0, li_spaces = 0, li_line_blank = True\<rparr>"

definition indent_from_iter :: "rchar list \<Rightarrow> line_indent option" where
  "indent_from_iter cs = map_option fst (indent_loop cs indent_new)"

text \<open>\<open>from_chunks\<close>: the same loop over the chunks of a rope, left for good by \<open>break 'outer\<close>.\<close>

fun indent_chunks_loop :: "rchar list list \<Rightarrow> line_indent \<Rightarrow> line_indent option" where
  "indent_chunks_loop [] i = Some i"
| "indent_chunks_loop (ch # chs) i = do {
     (i', more) \<leftarrow> indent_loop ch i;
     if more then indent_chunks_loop chs i' else Some i'
   }"

definition indent_from_chunks :: "rchar list list \<Rightarrow> line_indent option" where
  "indent_from_chunks chs = indent_chunks_loop chs indent_new"

definition indent_spaces :: "u32 \<Rightarrow> line_indent" where
  "indent_spaces n = \<lparr>li_tabs = 0, li_spaces = n, li_line_blank = True\<rparr>"

definition indent_tabs :: "u32 \<Rightarrow> line_indent" where
  "indent_tabs n = \<lparr>li_tabs = n, li_spaces = 0, li_line_blank = True\<rparr>"

definition is_line_empty :: "line_indent \<Rightarrow> bool" where
  "is_line_empty i \<longleftrightarrow> li_tabs i = 0 \<and> li_spaces i = 0 \<and> li_line_blank i"

definition is_line_blank :: "line_indent \<Rightarrow> bool" where
  "is_line_blank i \<longleftrightarrow> li_line_blank i"

definition indent_raw_len :: "line_indent \<Rightarrow> u32 option" where
  "indent_raw_len i = checked_add (li_tabs i) (li_spaces i)"

definition checked_mul :: "'a::len word \<Rightarrow> 'a word \<Rightarrow> 'a word option" where
  "checked_mul a b = (if unat a * unat b < 2 ^ LENGTH('a) then Some (a * b) else None)"

definition indent_len :: "line_indent \<Rightarrow> u32 \<Rightarrow> u32 option" where
  "indent_len i tab_size = do { n \<leftarrow> checked_mul (li_tabs i) tab_size; checked_add n (li_spaces i) }"

subsection \<open>Line endings\<close>

type_synonym bytes = "u8 list"

datatype line_ending = Unix | Windows

fun ending_str :: "line_ending \<Rightarrow> bytes" where
  "ending_str Unix = [10]"
| "ending_str Windows = [13, 10]"

fun ending_label :: "line_ending \<Rightarrow> string" where
  "ending_label Unix = ''LF''"
| "ending_label Windows = ''CRLF''"

text \<open>\<open>str::find\<close> of a line feed: the position of the first one.\<close>

fun find_newline :: "bytes \<Rightarrow> nat option" where
  "find_newline [] = None"
| "find_newline (b # bs) = (if b = 10 then Some 0 else map_option Suc (find_newline bs))"

definition detect :: "line_ending \<Rightarrow> bytes \<Rightarrow> line_ending" where
  "detect dflt t =
     (let max_ix = floor_boundary t (min (length t) 1000)
      in case find_newline (take max_ix t) of
           Some ix \<Rightarrow> if ix > 0 \<and> t ! (ix - 1) = 13 then Windows else Unix
         | None \<Rightarrow> dflt)"

definition normalize_endings :: "(bytes \<Rightarrow> bytes) \<Rightarrow> bytes \<Rightarrow> bytes" where
  "normalize_endings replace_all t = replace_all t"

text \<open>\<open>text.replace('\n', s)\<close>.\<close>

definition replace_newlines :: "bytes \<Rightarrow> bytes \<Rightarrow> bytes" where
  "replace_newlines s t = concat (map (\<lambda>b. if b = 10 then s else [b]) t)"

definition apply_ending :: "(bytes \<Rightarrow> bytes) \<Rightarrow> line_ending \<Rightarrow> line_ending \<Rightarrow> bytes \<Rightarrow> bytes" where
  "apply_ending replace_all dflt self t = (case (detect dflt t, self) of
     (Unix, Unix) \<Rightarrow> t
   | (Windows, Windows) \<Rightarrow> t
   | (Unix, Windows) \<Rightarrow> replace_newlines (ending_str Windows) t
   | (Windows, Unix) \<Rightarrow> normalize_endings replace_all t)"

text \<open>\<open>str::lines\<close>: split after each line feed, then strip it and a carriage return before it.\<close>

fun split_inclusive :: "bytes \<Rightarrow> bytes list" where
  "split_inclusive [] = []"
| "split_inclusive (b # bs) =
     (if b = 10 then [b] # split_inclusive bs
      else case split_inclusive bs of [] \<Rightarrow> [[b]] | l # ls \<Rightarrow> (b # l) # ls)"

definition strip_ending :: "bytes \<Rightarrow> bytes" where
  "strip_ending l =
     (if l \<noteq> [] \<and> last l = 10
      then (let l' = butlast l in if l' \<noteq> [] \<and> last l' = 13 then butlast l' else l')
      else l)"

definition str_lines :: "bytes \<Rightarrow> bytes list" where
  "str_lines t = map strip_ending (split_inclusive t)"

fun lines_loop :: "line_ending \<Rightarrow> bool \<Rightarrow> bytes list \<Rightarrow> bytes list" where
  "lines_loop e newline [] = []"
| "lines_loop e newline (l # ls) = (if newline then [ending_str e] else []) @ [l] @ lines_loop e True ls"

definition chunk_with_ending :: "line_ending \<Rightarrow> bytes \<Rightarrow> bytes list" where
  "chunk_with_ending e ch =
     lines_loop e False (str_lines ch) @ (if ch \<noteq> [] \<and> last ch = 10 then [ending_str e] else [])"

definition chunks_with_line_ending :: "bytes list \<Rightarrow> line_ending \<Rightarrow> bytes list" where
  "chunks_with_line_ending chs e = concat (map (chunk_with_ending e) chs)"

section \<open>Indentation\<close>

definition leading :: "rchar list \<Rightarrow> rchar list" where
  "leading cs = takeWhile (\<lambda>c. c = 9 \<or> c = 32) cs"

definition blank_rest :: "rchar list \<Rightarrow> bool" where
  "blank_rest cs \<longleftrightarrow> (case dropWhile (\<lambda>c. c = 9 \<or> c = 32) cs of [] \<Rightarrow> True | c # _ \<Rightarrow> c = 10)"

definition indent_of :: "rchar list \<Rightarrow> line_indent" where
  "indent_of cs = \<lparr>li_tabs = of_nat (count_list (leading cs) 9), li_spaces = of_nat (count_list (leading cs) 32),
     li_line_blank = blank_rest cs\<rparr>"

lemma indent_loop_correct:
  "a + length cs < 2 ^ 32 \<Longrightarrow> b + length cs < 2 ^ 32 \<Longrightarrow>
   indent_loop cs \<lparr>li_tabs = of_nat a, li_spaces = of_nat b, li_line_blank = True\<rparr> =
     Some (\<lparr>li_tabs = of_nat (a + count_list (leading cs) 9), li_spaces = of_nat (b + count_list (leading cs) 32),
       li_line_blank = blank_rest cs\<rparr>, leading cs = cs)"
proof (induction cs arbitrary: a b)
  case (Cons c cs)
  have "checked_add (of_nat a) 1 = Some (of_nat (Suc a) :: u32)" "checked_add (of_nat b) 1 = Some (of_nat (Suc b) :: u32)"
    using Cons.prems by (intro checked_add_one; simp)+
  then show ?case using Cons.IH [of "Suc a" b] Cons.IH [of a "Suc b"] Cons.prems
    by (simp add: leading_def blank_rest_def del: of_nat_Suc of_nat_add)
qed (simp add: leading_def blank_rest_def)

lemma indent_loop_append:
  "indent_loop (cs @ ds) i = do { (i', more) \<leftarrow> indent_loop cs i; if more then indent_loop ds i' else Some (i', False) }"
  by (induction cs arbitrary: i) simp_all

lemma indent_chunks: "indent_chunks_loop chs i = map_option fst (indent_loop (concat chs) i)"
proof (induction chs arbitrary: i)
  case (Cons ch chs)
  then show ?case by (cases "indent_loop ch i") (auto simp: indent_loop_append split: prod.splits)
qed simp

lemma leading_counts: "count_list (leading cs) 9 + count_list (leading cs) 32 = length (leading cs)"
  by (induction cs) (auto simp: leading_def)

lemma length_leading: "length (leading cs) \<le> length cs"
  by (simp add: leading_def length_takeWhile_le)

section \<open>Line endings\<close>

definition replaces_separators :: "(bytes \<Rightarrow> bytes) \<Rightarrow> bool" where
  "replaces_separators r \<longleftrightarrow> r [] = [] \<and> (\<forall>bs. r (13 # 10 # bs) = 10 # r bs) \<and>
     (\<forall>bs. (bs = [] \<or> hd bs \<noteq> 10) \<longrightarrow> r (13 # bs) = 10 # r bs) \<and> (\<forall>b bs. b \<noteq> 13 \<longrightarrow> r (b # bs) = b # r bs)"

lemma replaces_plain: "replaces_separators r \<Longrightarrow> 13 \<notin> set t \<Longrightarrow> r t = t"
  by (induction t) (auto simp: replaces_separators_def)

lemma replaces_no_return: "replaces_separators r \<Longrightarrow> 13 \<notin> set (r t)"
proof (induction t rule: length_induct)
  case (1 t)
  show ?case
  proof (cases t)
    case (Cons b bs)
    consider "b \<noteq> 13" | "b = 13" "bs = [] \<or> hd bs \<noteq> 10" | cs where "b = 13" "bs = 10 # cs" by (cases bs) auto
    then show ?thesis using 1 Cons by cases (auto simp: replaces_separators_def)
  qed (use 1 in \<open>simp add: replaces_separators_def\<close>)
qed

lemma replaces_newlines:
  "replaces_separators r \<Longrightarrow> 13 \<notin> set t \<Longrightarrow> r (replace_newlines (ending_str e) t) = t"
proof (induction t)
  case (Cons b t)
  then show ?case by (cases e; cases "b = 10") (auto simp: replace_newlines_def replaces_separators_def)
qed (simp add: replace_newlines_def replaces_separators_def)

lemma split_inclusive_concat: "concat (split_inclusive t) = t"
  by (induction t) (auto split: list.splits)

lemma split_inclusive_Nil: "split_inclusive t = [] \<longleftrightarrow> t = []"
  by (cases t) (auto split: list.splits)

lemma split_inclusive_ne: "l \<in> set (split_inclusive t) \<Longrightarrow> l \<noteq> []"
  by (induction t arbitrary: l) (auto split: if_splits list.splits)

lemma strip_Cons:
  assumes "l \<noteq> []" "b \<noteq> 13" "13 \<notin> set l"
  shows "strip_ending (b # l) = b # strip_ending l"
proof -
  have "last (butlast l) \<noteq> 13" if "butlast l \<noteq> []" using that assms(3) last_in_set [OF that] in_set_butlastD [of _ l] by metis
  then show ?thesis using assms by (auto simp: strip_ending_def Let_def)
qed

lemma lines_loop_correct:
  assumes "13 \<notin> set t"
  shows "concat (lines_loop e nl (str_lines t)) @ (if t \<noteq> [] \<and> last t = 10 then ending_str e else []) =
    (if nl \<and> t \<noteq> [] then ending_str e else []) @ replace_newlines (ending_str e) t"
  using assms
proof (induction t arbitrary: nl)
  case (Cons b t)
  show ?case
  proof (cases "b = 10")
    case True
    have "strip_ending [10] = []" by (simp add: strip_ending_def)
    then show ?thesis using Cons.IH [of True] Cons.prems True
      by (cases "t = []") (simp_all add: str_lines_def replace_newlines_def)
  next
    case False
    show ?thesis
    proof (cases "split_inclusive t")
      case Nil
      then have "t = []" by (simp add: split_inclusive_Nil)
      with False show ?thesis by (simp add: str_lines_def strip_ending_def replace_newlines_def)
    next
      case (Cons l ls)
      have t: "t \<noteq> []" using Cons by (metis list.distinct(1) split_inclusive_Nil)
      have "set l \<subseteq> set t" using split_inclusive_concat [of t] Cons by (metis UnI1 concat.simps(2) set_append subsetI)
      then have "strip_ending (b # l) = b # strip_ending l"
        using strip_Cons [of l b] split_inclusive_ne [of l t] Cons \<open>13 \<notin> set (b # t)\<close> by auto
      then show ?thesis using Cons.IH [of nl] Cons \<open>13 \<notin> set (b # t)\<close> False t
        by (auto simp: str_lines_def replace_newlines_def)
    qed
  qed
qed (simp add: str_lines_def replace_newlines_def)

lemma chunks_correct:
  "13 \<notin> set (concat chs) \<Longrightarrow> concat (chunks_with_line_ending chs e) = replace_newlines (ending_str e) (concat chs)"
proof (induction chs)
  case (Cons ch chs)
  then show ?case using lines_loop_correct [of ch e False]
    by (auto simp: chunks_with_line_ending_def chunk_with_ending_def replace_newlines_def)
qed (simp add: chunks_with_line_ending_def replace_newlines_def)

lemma find_saved:
  assumes "10 \<in> set t" "13 \<notin> set t"
  obtains ix where "find_newline (replace_newlines (ending_str e) t) = Some ix"
    "0 < ix \<and> replace_newlines (ending_str e) t ! (ix - 1) = 13 \<longleftrightarrow> e = Windows"
proof -
  have "\<exists>ix. find_newline (replace_newlines (ending_str e) t) = Some ix \<and>
      (0 < ix \<and> replace_newlines (ending_str e) t ! (ix - 1) = 13 \<longleftrightarrow> e = Windows)"
    using assms
  proof (induction t)
    case (Cons b t)
    show ?case
    proof (cases "b = 10")
      case False
      then obtain ix where ix: "find_newline (replace_newlines (ending_str e) t) = Some ix"
        "0 < ix \<and> replace_newlines (ending_str e) t ! (ix - 1) = 13 \<longleftrightarrow> e = Windows" using Cons by auto
      have "replace_newlines (ending_str e) (b # t) = b # replace_newlines (ending_str e) t" using False by (simp add: replace_newlines_def)
      then show ?thesis using ix False Cons.prems by (cases ix) auto
    qed (cases e; simp add: replace_newlines_def)
  qed simp
  then show thesis using that by blast
qed

text \<open>A line feed is a character of its own in the bytes of a valid string, so the first kilobyte, cut down to a character, contains
  the first line break when its line feed is among the first 1000 bytes.\<close>

lemma length_encode_char: "length (encode_char c) = len_utf8 c"
  using length_encode [of "[c]"] by simp

lemma newline_alone: "valid_char c \<Longrightarrow> i < length (encode_char c) \<Longrightarrow> encode_char c ! i = 10 \<Longrightarrow> c = 10 \<and> i = 0"
proof -
  assume c: "valid_char c" and i: "i < length (encode_char c)" "encode_char c ! i = 10"
  have "start_mark (c = 10) c ! i" using nth_map [OF i(1), of "\<lambda>b. b = 10"] i(2) encode_char_marks(3) [OF c] by simp
  moreover have "i < len_utf8 c" using i(1) by (simp add: length_encode_char)
  ultimately show "c = 10 \<and> i = 0" by (cases i) (simp_all add: start_mark_def)
qed

lemma newline_char:
  "valid_str s \<Longrightarrow> i < length (encode s) \<Longrightarrow> encode s ! i = 10 \<Longrightarrow> \<exists>u v. s = u @ 10 # v \<and> i = str_len u"
proof (induction s arbitrary: i)
  case (Cons c s)
  show ?case
  proof (cases "i < length (encode_char c)")
    case True
    with newline_alone [of c i] Cons.prems have "c = 10 \<and> i = 0" by (simp add: nth_append valid_str_def)
    then show ?thesis by (intro exI [of _ "[]"] exI [of _ s]) simp
  next
    case False
    with Cons.prems have "i - length (encode_char c) < length (encode s)" "encode s ! (i - length (encode_char c)) = 10" "valid_str s"
      by (auto simp: nth_append valid_str_def)
    with Cons.IH obtain u v where "s = u @ 10 # v" "i - length (encode_char c) = str_len u" by blast
    with False show ?thesis by (intro exI [of _ "c # u"] exI [of _ v]) (simp add: length_encode_char)
  qed
qed simp

lemma newline_boundary:
  assumes "valid_str s" "i < length (encode s)" "encode s ! i = 10"
  shows "str_char_boundary (encode s) (Suc i)"
proof -
  from newline_char [OF assms] obtain u v where "s = (u @ [10]) @ v" "Suc i = str_len (u @ [10])" by (auto simp: len_utf8_def)
  moreover have "valid_str v" using calculation(1) assms(1) by (simp add: valid_str_def)
  ultimately show ?thesis using encode_boundary [of v "u @ [10]"] by simp
qed

lemma find_newline_nth: "find_newline t = Some ix \<Longrightarrow> ix < length t \<and> t ! ix = 10"
  by (induction t arbitrary: ix) (auto split: if_splits)

lemma find_newline_take: "find_newline (take n t) = (case find_newline t of Some ix \<Rightarrow> if ix < n then Some ix else None | None \<Rightarrow> None)"
  by (induction t arbitrary: n) (auto simp: take_Cons split: nat.splits option.splits)

lemma detect_valid:
  assumes "valid_str s" "t = encode s"
  shows "detect dflt t = (case find_newline t of
    Some ix \<Rightarrow> if ix < 1000 then (if ix > 0 \<and> t ! (ix - 1) = 13 then Windows else Unix) else dflt | None \<Rightarrow> dflt)"
proof (cases "find_newline t")
  case (Some ix)
  let ?m = "floor_boundary t (min (length t) 1000)"
  have ix: "ix < length t" "t ! ix = 10" using find_newline_nth [OF Some] by simp_all
  have "str_char_boundary t (Suc ix)" using newline_boundary [OF assms(1), of ix] ix assms(2) by simp
  then have "ix < ?m \<longleftrightarrow> ix < 1000"
    using floor_boundary_spec(1) [of t "min (length t) 1000"] floor_boundary_spec(2) [of t "Suc ix" "min (length t) 1000"] ix(1) by auto
  with Some show ?thesis by (simp add: detect_def find_newline_take)
qed (simp add: detect_def find_newline_take)

text \<open>The saved text of a valid string is valid.\<close>

lemma replace_newlines_none: "10 \<notin> set t \<Longrightarrow> replace_newlines u t = t"
  by (induction t) (auto simp: replace_newlines_def)

lemma saved_encode:
  "valid_str s \<Longrightarrow> \<exists>s'. valid_str s' \<and> replace_newlines (ending_str e) (encode s) = encode s'"
proof (induction s)
  case (Cons c s)
  then obtain s' where s': "valid_str s'" "replace_newlines (ending_str e) (encode s) = encode s'" by (auto simp: valid_str_def)
  have c: "valid_char c" using Cons.prems by (simp add: valid_str_def)
  have "\<exists>w. valid_str w \<and> replace_newlines (ending_str e) (encode_char c) = encode w"
  proof (cases "c = 10")
    case True
    then show ?thesis
      by (cases e) (intro exI [of _ "[10]"] exI [of _ "[13, 10]"], simp add: valid_str_def valid_char_def replace_newlines_def encode_char_def)+
  next
    case False
    then have "10 \<notin> set (encode_char c)" using newline_alone [OF c] by (auto simp: in_set_conv_nth)
    then have "replace_newlines (ending_str e) (encode_char c) = encode_char c" by (rule replace_newlines_none)
    then show ?thesis using c by (intro exI [of _ "[c]"]) (simp add: valid_str_def)
  qed
  then obtain w where "valid_str w" "replace_newlines (ending_str e) (encode_char c) = encode w" by blast
  with s' show ?case by (intro exI [of _ "w @ s'"]) (auto simp: replace_newlines_def valid_str_def)
qed (intro exI [of _ "[]"], simp add: replace_newlines_def)

lemma detect_saved:
  assumes "valid_str s" "13 \<notin> set (encode s)" "t = replace_newlines (ending_str e) (encode s)"
  shows "detect dflt t = (case find_newline t of Some ix \<Rightarrow> if ix < 1000 then e else dflt | None \<Rightarrow> dflt)"
proof -
  from saved_encode [OF assms(1), of e] obtain s' where s': "valid_str s'" "t = encode s'" using assms(3) by auto
  have "find_newline t = None" if "10 \<notin> set (encode s)"
  proof -
    have "10 \<notin> set t" using that assms(3) by (auto simp: replace_newlines_def)
    then show ?thesis by (induction t) auto
  qed
  moreover obtain ix where "find_newline t = Some ix" "0 < ix \<and> t ! (ix - 1) = 13 \<longleftrightarrow> e = Windows" if "10 \<in> set (encode s)"
    using find_saved [OF _ assms(2), of e] assms(3) by metis
  ultimately show ?thesis using detect_valid [OF s'] by (cases "10 \<in> set (encode s)"; cases e) auto
qed

text \<open>An instance of the regular expression: what \<open>\r\n|\r\<close> replaces.\<close>

fun replace_separators :: "bytes \<Rightarrow> bytes" where
  "replace_separators [] = []"
| "replace_separators (b # bs) =
     (if b = 13 then 10 # (case bs of [] \<Rightarrow> [] | c # cs \<Rightarrow> if c = 10 then replace_separators cs else replace_separators bs)
      else b # replace_separators bs)"

lemma replace_separators_ok: "replaces_separators replace_separators"
  by (auto simp: replaces_separators_def split: list.splits)

section \<open>Theorems\<close>

text \<open>C25. What is saved is the text with its line feeds replaced by the line ending, however the rope is cut into
  chunks; normalising it on loading gives the text back. When the text is valid UTF-8, the line ending is detected again exactly
  when the first line feed of the saved text is among its first 1000 bytes, however long the text is; otherwise the platform's
  default is returned. Text with carriage returns removed is what normalising returns for any text.\<close>

theorem save_load_roundtrip:
  assumes "replaces_separators replace_all" "13 \<notin> set (concat chs)"
  shows "concat (chunks_with_line_ending chs e) = replace_newlines (ending_str e) (concat chs) \<and>
    normalize_endings replace_all (concat (chunks_with_line_ending chs e)) = concat chs \<and>
    (\<forall>s. valid_str s \<and> concat chs = encode s \<longrightarrow>
      detect dflt (concat (chunks_with_line_ending chs e)) =
        (case find_newline (concat (chunks_with_line_ending chs e)) of Some ix \<Rightarrow> if ix < 1000 then e else dflt | None \<Rightarrow> dflt)) \<and>
    13 \<notin> set (normalize_endings replace_all t)"
proof -
  note c = chunks_correct [OF assms(2), of e]
  have "detect dflt (replace_newlines (ending_str e) (concat chs)) =
      (case find_newline (replace_newlines (ending_str e) (concat chs)) of Some ix \<Rightarrow> if ix < 1000 then e else dflt | None \<Rightarrow> dflt)"
    if "valid_str s \<and> concat chs = encode s" for s
    using detect_saved [of s] that assms(2) by simp
  then show ?thesis using c replaces_newlines [OF assms] replaces_no_return [OF assms(1)] by (simp add: normalize_endings_def)
qed

theorem save_load_roundtrip_witness:
  "normalize_endings replace_separators (concat (chunks_with_line_ending [[97, 10], [98]] Windows)) = [97, 10, 98] \<and>
   detect Unix (concat (chunks_with_line_ending [[97, 10], [98]] Windows)) = Windows"
proof -
  have "valid_str [97, 10, 98] \<and> concat [[97, 10], [98]] = encode [97, 10, 98]"
    by (simp add: valid_str_def valid_char_def encode_char_def)
  with save_load_roundtrip [OF replace_separators_ok, of "[[97, 10], [98]]" Windows Unix "[]"]
  show ?thesis by (auto simp: replace_newlines_def)
qed

text \<open>\<open>LineEnding::apply\<close> looks for a line break in the first kilobyte only: a text whose first line is longer keeps its
  carriage returns when Unix line endings are asked for on a Unix platform.\<close>

theorem apply_ending_long_line:
  "apply_ending replace_all Unix Unix (replicate 1000 97 @ [13, 10]) = replicate 1000 97 @ [13, 10]"
proof -
  let ?t = "replicate 1000 97 @ [13, 10] :: bytes"
  have "str_char_boundary ?t 1000" by (simp add: str_char_boundary_def nth_append is_utf8_char_boundary_def)
  then have "floor_boundary ?t 1000 = 1000" using floor_boundary.simps(2) [of ?t 999] by simp
  moreover have "find_newline (replicate n 97) = None" for n by (induction n) simp_all
  ultimately have "detect Unix ?t = Unix" by (simp add: detect_def)
  then show ?thesis by (simp add: apply_ending_def)
qed

text \<open>The indentation of a line is read correctly from characters or from chunks, however it is cut: the tabs and spaces
  before the first other character, and whether a line feed or the end comes next; \<open>raw_len\<close> is the length of that prefix.\<close>

theorem line_indent_correct:
  assumes "length (concat chs) < 2 ^ 32"
  shows "indent_from_chunks chs = Some (indent_of (concat chs)) \<and> indent_from_iter (concat chs) = Some (indent_of (concat chs)) \<and>
    indent_raw_len (indent_of (concat chs)) = Some (of_nat (length (leading (concat chs))))"
proof -
  let ?cs = "concat chs"
  have l: "indent_loop ?cs indent_new = Some (indent_of ?cs, leading ?cs = ?cs)"
    using indent_loop_correct [of 0 ?cs 0] assms by (simp add: indent_new_def indent_of_def)
  have "count_list (leading ?cs) 9 + count_list (leading ?cs) 32 < 2 ^ 32"
    using leading_counts [of ?cs] length_leading [of ?cs] assms by simp
  then have "indent_raw_len (indent_of ?cs) = Some (of_nat (length (leading ?cs)))"
    using checked_add_of_nat [of "count_list (leading ?cs) 9" "count_list (leading ?cs) 32", where 'a = 32] leading_counts [of ?cs]
    by (simp add: indent_raw_len_def indent_of_def)
  with l show ?thesis by (simp add: indent_from_chunks_def indent_chunks indent_from_iter_def)
qed

theorem line_indent_correct_witness:
  "indent_from_chunks [[9], [32, 97]] = Some \<lparr>li_tabs = 1, li_spaces = 1, li_line_blank = False\<rparr>"
  using line_indent_correct [of "[[9], [32, 97]]"] by (simp add: indent_of_def leading_def blank_rest_def)

end
