(* ===== verification/Fragment.thy ===== *)
theory Fragment
  imports Locator UndoMap Rope_Correct
begin

text \<open>
  The fragments of a buffer (\<open>crates/text/src/text.rs\<close>): \<open>Fragment\<close> with its visibility, its summary and the dimensions fragments are
  sought by, \<open>InsertionFragment\<close> and \<open>InsertionSlice\<close>, and the two builders, \<open>FragmentBuilder\<close> and \<open>RopeBuilder\<close>, with which an edit makes a
  new tree of fragments and new texts from the old ones.

  A \<open>Global\<close> never ends in a zero, because \<open>observe\<close>, \<open>join\<close> and \<open>meet\<close> keep it so. Summaries need this (an empty version is neutral
  for \<open>meet\<close> only then), so the versions in summaries have the type \<open>version\<close> of such vectors, to which the operations are lifted. \<open>observe\<close> panics
  on the reserved replica, which no timestamp of a fragment has; there the lifted one changes nothing.
\<close>

section \<open>Versions\<close>

typedef version = "{g. normalized g}" morphisms global_of version_of
  by (rule exI [of _ global_new]) (simp add: normalized_new)

setup_lifting type_definition_version

lift_definition version_new :: version is global_new
  by (rule normalized_new)

lift_definition version_observe :: "version \<Rightarrow> lamport \<Rightarrow> version" is
  "\<lambda>g t. case global_observe g t of Some g' \<Rightarrow> g' | None \<Rightarrow> g"
  by (auto split: option.splits intro: normalized_observe)

lift_definition version_join :: "version \<Rightarrow> version \<Rightarrow> version" is global_join
  by (rule normalized_join)

lift_definition version_meet :: "version \<Rightarrow> version \<Rightarrow> version" is global_meet
  by (rule normalized_meet)

instantiation version :: equal
begin

lift_definition equal_version :: "version \<Rightarrow> version \<Rightarrow> bool" is "\<lambda>g h. g = h" .

instance
  by standard (transfer, simp)

end

section \<open>Fragments\<close>

record fragment =
  fr_id :: locator
  fr_timestamp :: lamport
  insertion_offset :: u32
  fr_len :: u32
  fr_visible :: bool
  fr_deletions :: "lamport list"
  fr_max_undos :: version

fun all_deletions :: "(lamport \<Rightarrow> bool option) \<Rightarrow> lamport list \<Rightarrow> bool option" where
  "all_deletions p [] = Some True"
| "all_deletions p (d # ds) = do { b \<leftarrow> p d; if b then all_deletions p ds else Some False }"

definition is_visible :: "fragment \<Rightarrow> undo_map \<Rightarrow> bool option" where
  "is_visible f undos = do {
     undone \<leftarrow> is_undone undos (fr_timestamp f);
     if \<not> undone then all_deletions (is_undone undos) (fr_deletions f) else Some False
   }"

definition was_visible :: "fragment \<Rightarrow> global \<Rightarrow> undo_map \<Rightarrow> bool option" where
  "was_visible f v undos =
     (if global_observed v (fr_timestamp f) then do {
        undone \<leftarrow> was_undone undos (fr_timestamp f) v;
        if \<not> undone
        then all_deletions (\<lambda>d. if \<not> global_observed v d then Some True else was_undone undos d v) (fr_deletions f)
        else Some False
      }
      else Some False)"

record fragment_text_summary =
  ft_visible :: nat
  ft_deleted :: nat

record fragment_summary =
  fs_text :: fragment_text_summary
  fs_max_id :: locator
  fs_max_version :: version
  fs_min_insertion_version :: version
  fs_max_insertion_version :: version

definition fragment_summary_of :: "fragment \<Rightarrow> fragment_summary" where
  "fragment_summary_of f =
     (let inserted = version_observe version_new (fr_timestamp f)
      in \<lparr>fs_text = (if fr_visible f then \<lparr>ft_visible = unat (fr_len f), ft_deleted = 0\<rparr>
                    else \<lparr>ft_visible = 0, ft_deleted = unat (fr_len f)\<rparr>),
          fs_max_id = fr_id f,
          fs_max_version = version_join (foldl version_observe inserted (fr_deletions f)) (fr_max_undos f),
          fs_min_insertion_version = inserted,
          fs_max_insertion_version = inserted\<rparr>)"

definition fragment_summary_zero :: fragment_summary where
  "fragment_summary_zero = \<lparr>fs_text = \<lparr>ft_visible = 0, ft_deleted = 0\<rparr>, fs_max_id = locator_min,
     fs_max_version = version_new, fs_min_insertion_version = version_new, fs_max_insertion_version = version_new\<rparr>"

definition ft_add :: "fragment_text_summary \<Rightarrow> fragment_text_summary \<Rightarrow> fragment_text_summary" where
  "ft_add a b = \<lparr>ft_visible = ft_visible a + ft_visible b, ft_deleted = ft_deleted a + ft_deleted b\<rparr>"

definition fragment_summary_add :: "fragment_summary \<Rightarrow> fragment_summary \<Rightarrow> fragment_summary" where
  "fragment_summary_add self other =
     \<lparr>fs_text = ft_add (fs_text self) (fs_text other),
      fs_max_id = the (locator_assign (fs_max_id self) (fs_max_id other)),
      fs_max_version = version_join (fs_max_version self) (fs_max_version other),
      fs_min_insertion_version = version_meet (fs_min_insertion_version self) (fs_min_insertion_version other),
      fs_max_insertion_version = version_join (fs_max_insertion_version self) (fs_max_insertion_version other)\<rparr>"

definition fragment_ops :: "(fragment, fragment_summary) summary_ops" where
  "fragment_ops = \<lparr>s_zero = fragment_summary_zero, s_add = fragment_summary_add, s_item = fragment_summary_of\<rparr>"

type_synonym fragment_tree = "(fragment, fragment_summary) sum_tree"

text \<open>Dimensions: both lengths, the visible length, the full offset, the locator, and the full offset at a version.\<close>

definition fragment_text_dim :: "(fragment_summary, fragment_text_summary) dimension" where
  "fragment_text_dim = \<lparr>d_zero = \<lparr>ft_visible = 0, ft_deleted = 0\<rparr>, d_add = (\<lambda>d s. ft_add d (fs_text s))\<rparr>"

definition visible_dim :: "(fragment_summary, nat) dimension" where
  "visible_dim = \<lparr>d_zero = 0, d_add = (\<lambda>d s. d + ft_visible (fs_text s))\<rparr>"

definition full_offset_dim :: "(fragment_summary, nat) dimension" where
  "full_offset_dim = \<lparr>d_zero = 0, d_add = (\<lambda>d s. d + (ft_visible (fs_text s) + ft_deleted (fs_text s)))\<rparr>"

definition fragment_id_dim :: "(fragment_summary, locator option) dimension" where
  "fragment_id_dim = \<lparr>d_zero = None, d_add = (\<lambda>d s. Some (fs_max_id s))\<rparr>"

text \<open>\<open>SeekTarget for usize\<close> in the dimension of both lengths.\<close>

definition visible_target :: "nat \<Rightarrow> fragment_text_summary \<Rightarrow> ordering" where
  "visible_target offset location = ord_cmp offset (ft_visible location)"

datatype versioned_full_offset = Offset nat | Invalid

fun full_offset :: "versioned_full_offset \<Rightarrow> nat option" where
  "full_offset (Offset position) = Some position"
| "full_offset Invalid = None"

definition versioned_dim :: "global \<Rightarrow> (fragment_summary, versioned_full_offset) dimension" where
  "versioned_dim v = \<lparr>d_zero = Offset 0, d_add = (\<lambda>d s. case d of
     Offset offset \<Rightarrow>
       if observed_all v (global_of (fs_max_insertion_version s))
       then Offset (offset + (ft_visible (fs_text s) + ft_deleted (fs_text s)))
       else if observed_any v (global_of (fs_min_insertion_version s)) then Invalid
       else Offset offset
   | Invalid \<Rightarrow> Invalid)\<rparr>"

text \<open>\<open>SeekTarget for VersionedFullOffset\<close>; the target is always an offset.\<close>

definition versioned_target :: "nat \<Rightarrow> versioned_full_offset \<Rightarrow> ordering" where
  "versioned_target a position = (case position of Offset b \<Rightarrow> ord_cmp a b | Invalid \<Rightarrow> Less)"

section \<open>Insertions\<close>

datatype insertion_key = InsertionFragmentKey (ik_timestamp: lamport) (ik_split_offset: u32)

instantiation insertion_key :: linorder
begin

definition less_insertion_key :: "insertion_key \<Rightarrow> insertion_key \<Rightarrow> bool" where
  "a < b \<longleftrightarrow> ik_timestamp a < ik_timestamp b \<or> ik_timestamp a = ik_timestamp b \<and> ik_split_offset a < ik_split_offset b"

definition less_eq_insertion_key :: "insertion_key \<Rightarrow> insertion_key \<Rightarrow> bool" where
  "a \<le> b \<longleftrightarrow> a = b \<or> a < (b :: insertion_key)"

instance
proof
  fix x y :: insertion_key
  show "x \<le> y \<or> y \<le> x"
    by (cases x; cases y) (auto simp: less_insertion_key_def less_eq_insertion_key_def)
qed (auto simp: less_insertion_key_def less_eq_insertion_key_def)

end

record insertion_fragment =
  if_timestamp :: lamport
  if_split_offset :: u32
  if_fragment_id :: locator

definition insertion_of :: "fragment \<Rightarrow> insertion_fragment" where
  "insertion_of f = \<lparr>if_timestamp = fr_timestamp f, if_split_offset = insertion_offset f, if_fragment_id = fr_id f\<rparr>"

definition insertion_key_of :: "insertion_fragment \<Rightarrow> insertion_key" where
  "insertion_key_of i = InsertionFragmentKey (if_timestamp i) (if_split_offset i)"

definition insert_new :: "fragment \<Rightarrow> (insertion_fragment, insertion_key) edit" where
  "insert_new f = Insert (insertion_of f)"

definition insertion_ops :: "(insertion_fragment, insertion_key) summary_ops" where
  "insertion_ops = \<lparr>s_zero = InsertionFragmentKey lamport_MIN 0, s_add = (\<lambda>a b. b), s_item = insertion_key_of\<rparr>"

definition insertion_dim :: "(insertion_key, insertion_key) dimension" where
  "insertion_dim = \<lparr>d_zero = InsertionFragmentKey lamport_MIN 0, d_add = (\<lambda>a b. b)\<rparr>"

type_synonym insertion_tree = "(insertion_fragment, insertion_key) sum_tree"

text \<open>\<open>InsertionSlice\<close>: the part of an insertion that an edit inserted or deleted; its order compares the fields in turn.\<close>

datatype insertion_slice = InsertionSlice (is_edit_id: lamport) (is_insertion_id: lamport) (is_start: u32) (is_end: u32)

fun slice_less :: "insertion_slice \<Rightarrow> insertion_slice \<Rightarrow> bool" where
  "slice_less (InsertionSlice a b c d) (InsertionSlice a' b' c' d') \<longleftrightarrow>
     a < a' \<or> a = a' \<and> (b < b' \<or> b = b' \<and> (c < c' \<or> c = c' \<and> d < d'))"

instantiation insertion_slice :: linorder
begin

definition less_insertion_slice :: "insertion_slice \<Rightarrow> insertion_slice \<Rightarrow> bool" where
  "a < b \<longleftrightarrow> slice_less a b"

definition less_eq_insertion_slice :: "insertion_slice \<Rightarrow> insertion_slice \<Rightarrow> bool" where
  "a \<le> b \<longleftrightarrow> a = b \<or> a < (b :: insertion_slice)"

instance
proof
  fix x y z :: insertion_slice
  show "x < y \<longleftrightarrow> x \<le> y \<and> \<not> y \<le> x"
    by (cases x; cases y) (auto simp: less_insertion_slice_def less_eq_insertion_slice_def)
  show "x \<le> x" by (simp add: less_eq_insertion_slice_def)
  show "x \<le> y \<Longrightarrow> y \<le> z \<Longrightarrow> x \<le> z"
    by (cases x; cases y; cases z) (auto simp: less_insertion_slice_def less_eq_insertion_slice_def)
  show "x \<le> y \<Longrightarrow> y \<le> x \<Longrightarrow> x = y"
    by (cases x; cases y) (auto simp: less_insertion_slice_def less_eq_insertion_slice_def)
  show "x \<le> y \<or> y \<le> x"
    by (cases x; cases y) (auto simp: less_insertion_slice_def less_eq_insertion_slice_def)
qed

end

definition slice_from_fragment :: "lamport \<Rightarrow> fragment \<Rightarrow> insertion_slice option" where
  "slice_from_fragment edit_id f = do {
     e \<leftarrow> checked_add (insertion_offset f) (fr_len f);
     Some (InsertionSlice edit_id (fr_timestamp f) (insertion_offset f) e)
   }"

section \<open>Builders\<close>

datatype fragment_chunk = TreeChunk fragment_tree | LooseChunk "fragment list"

record fragment_builder =
  fb_chunks :: "fragment_chunk list"
  fb_summary :: fragment_summary

definition fb_new :: "fragment_tree \<Rightarrow> fragment_builder" where
  "fb_new init = \<lparr>fb_chunks = (if \<not> tree_is_empty init then [TreeChunk init] else []), fb_summary = summary init\<rparr>"

definition fb_append :: "fragment_builder \<Rightarrow> fragment_tree \<Rightarrow> fragment_builder" where
  "fb_append b items =
     (if \<not> tree_is_empty items
      then \<lparr>fb_chunks = fb_chunks b @ [TreeChunk items], fb_summary = fragment_summary_add (fb_summary b) (summary items)\<rparr>
      else b)"

definition fb_push :: "fragment_builder \<Rightarrow> fragment \<Rightarrow> fragment_builder" where
  "fb_push b f =
     \<lparr>fb_chunks = (case last_opt (fb_chunks b) of
        Some (LooseChunk fs) \<Rightarrow> butlast (fb_chunks b) @ [LooseChunk (fs @ [f])]
      | _ \<Rightarrow> fb_chunks b @ [LooseChunk [f]]),
      fb_summary = fragment_summary_add (fb_summary b) (fragment_summary_of f)\<rparr>"

fun to_sum_tree_loop :: "fragment_chunk list \<Rightarrow> fragment_tree \<Rightarrow> fragment_tree option" where
  "to_sum_tree_loop [] tree = Some tree"
| "to_sum_tree_loop (TreeChunk subtree # chunks) tree = do {
     tree' \<leftarrow> tree_append fragment_ops tree subtree;
     to_sum_tree_loop chunks tree'
   }"
| "to_sum_tree_loop (LooseChunk fs # chunks) tree = do {
     t \<leftarrow> (if length fs > 1024 then from_par_iter fragment_ops fs else from_iter fragment_ops fs);
     tree' \<leftarrow> tree_append fragment_ops tree t;
     to_sum_tree_loop chunks tree'
   }"

definition to_sum_tree :: "fragment_builder \<Rightarrow> fragment_tree option" where
  "to_sum_tree b = to_sum_tree_loop (fb_chunks b) (tree_new fragment_ops)"

record rope_builder =
  old_visible_cursor :: rope_cursor
  old_deleted_cursor :: rope_cursor
  new_visible :: rope
  new_deleted :: rope

definition rb_new :: "rope_cursor \<Rightarrow> rope_cursor \<Rightarrow> rope_builder" where
  "rb_new visible deleted =
     \<lparr>old_visible_cursor = visible, old_deleted_cursor = deleted, new_visible = rope_new, new_deleted = rope_new\<rparr>"

definition rb_push :: "rope_builder \<Rightarrow> nat \<Rightarrow> bool \<Rightarrow> bool \<Rightarrow> rope_builder option" where
  "rb_push b len was_vis is_vis = do {
     (b1, piece) \<leftarrow>
       (if was_vis then do {
          (c, piece) \<leftarrow> rc_slice (old_visible_cursor b) (rc_offset (old_visible_cursor b) + len);
          Some (b\<lparr>old_visible_cursor := c\<rparr>, piece)
        }
        else do {
          (c, piece) \<leftarrow> rc_slice (old_deleted_cursor b) (rc_offset (old_deleted_cursor b) + len);
          Some (b\<lparr>old_deleted_cursor := c\<rparr>, piece)
        });
     if is_vis then do { r \<leftarrow> rope_append (new_visible b1) piece; Some (b1\<lparr>new_visible := r\<rparr>) }
     else do { r \<leftarrow> rope_append (new_deleted b1) piece; Some (b1\<lparr>new_deleted := r\<rparr>) }
   }"

definition rb_append :: "rope_builder \<Rightarrow> fragment_text_summary \<Rightarrow> rope_builder option" where
  "rb_append b len = do {
     b1 \<leftarrow> rb_push b (ft_visible len) True True;
     rb_push b1 (ft_deleted len) False False
   }"

definition rb_push_fragment :: "rope_builder \<Rightarrow> fragment \<Rightarrow> bool \<Rightarrow> rope_builder option" where
  "rb_push_fragment b f was_vis = do {
     rust_assert (fr_len f > 0);
     rb_push b (unat (fr_len f)) was_vis (fr_visible f)
   }"

definition rb_push_str :: "rope_builder \<Rightarrow> u8 list \<Rightarrow> rope_builder option" where
  "rb_push_str b s = do { r \<leftarrow> rope_push (new_visible b) s; Some (b\<lparr>new_visible := r\<rparr>) }"

definition rb_finish :: "rope_builder \<Rightarrow> (rope \<times> rope) option" where
  "rb_finish b = do {
     v \<leftarrow> rc_suffix (old_visible_cursor b);
     r \<leftarrow> rope_append (new_visible b) v;
     d \<leftarrow> rc_suffix (old_deleted_cursor b);
     q \<leftarrow> rope_append (new_deleted b) d;
     Some (r, q)
   }"

end
