(* ===== verification/BufferEdit.thy ===== *)
theory BufferEdit
  imports Fragment History LineFormat Patch
begin

text \<open>
  Local edits of a buffer (\<open>crates/text/src/text.rs\<close>: \<open>BufferSnapshot::apply_edit_internal\<close>, \<open>push_fragments_for_insertion\<close>). One pass over the
  edits, which are sorted, walks a cursor over the old fragments and hands pieces of them, split where an edit begins or ends, to the builders of
  the new fragments and texts; what is deleted stays as invisible fragments.

  The local variables of the function are the record \<open>edit_state\<close>. The blocks that the function has in common with
  \<open>apply_remote_edit\<close> are definitions over the dimension of the cursor and the function that reads the offset from a position. \<open>max_len\<close> is
  \<open>MAX_INSERTION_LEN\<close>, which depends on the build, and \<open>replace_all\<close> the regular expression library. The loop over the fragments of a range
  has fuel, one unit for each fragment.
\<close>

section \<open>State\<close>

record buffer_snapshot =
  bs_visible_text :: rope
  bs_deleted_text :: rope
  bs_fragments :: fragment_tree
  bs_insertions :: insertion_tree
  bs_insertion_slices :: "insertion_slice tree_set"
  bs_undo_map :: undo_map
  bs_version :: global
  bs_remote_id :: u64
  bs_replica_id :: replica_id
  bs_line_ending :: line_ending

record 'd edit_state =
  es_old :: "(fragment, fragment_summary, 'd) cursor"
  es_new :: fragment_builder
  es_ropes :: rope_builder
  es_start :: nat
  es_insertions :: "(insertion_fragment, insertion_key) edit list"
  es_insertion_offset :: u32
  es_slices :: "insertion_slice list"
  es_patch :: patch

section \<open>Pieces of fragments\<close>

text \<open>The part of a fragment that begins at \<open>origin\<close> from \<open>first\<close> to \<open>until\<close>.\<close>

definition cut_fragment :: "fragment \<Rightarrow> nat \<Rightarrow> nat \<Rightarrow> nat \<Rightarrow> fragment option" where
  "cut_fragment f origin first until = do {
     n \<leftarrow> checked_sub until first;
     d \<leftarrow> checked_sub first origin;
     off \<leftarrow> checked_add (insertion_offset f) (of_nat d);
     Some (f\<lparr>fr_len := of_nat n, insertion_offset := off\<rparr>)
   }"

definition push_piece :: "fragment \<Rightarrow> bool \<Rightarrow> 'd edit_state \<Rightarrow> 'd edit_state option" where
  "push_piece f was_vis st = do {
     ropes \<leftarrow> rb_push_fragment (es_ropes st) f was_vis;
     Some (st\<lparr>es_insertions := es_insertions st @ [insert_new f], es_ropes := ropes, es_new := fb_push (es_new st) f\<rparr>)
   }"

definition old_next :: "(fragment_summary, 'd) dimension \<Rightarrow> 'd edit_state \<Rightarrow> 'd edit_state option" where
  "old_next dim st = do { c \<leftarrow> cursor_next dim (es_old st); Some (st\<lparr>es_old := c\<rparr>) }"

definition append_slice :: "fragment_tree \<Rightarrow> 'd edit_state \<Rightarrow> 'd edit_state option" where
  "append_slice tree st = do {
     ropes \<leftarrow> rb_append (es_ropes st) (fs_text (summary tree));
     Some (st\<lparr>es_ropes := ropes, es_new := fb_append (es_new st) tree\<rparr>)
   }"

text \<open>The rest of a fragment of which a part has been consumed.\<close>

definition push_rest :: "(fragment_summary, 'd) dimension \<Rightarrow> ('d \<Rightarrow> nat option) \<Rightarrow> 'd edit_state \<Rightarrow> 'd edit_state option" where
  "push_rest dim pos st = do {
     e \<leftarrow> cursor_end dim (es_old st);
     fragment_end \<leftarrow> pos e;
     if fragment_end > es_start st then do {
       item \<leftarrow> cursor_item (es_old st);
       f \<leftarrow> item;
       origin \<leftarrow> pos (cursor_start (es_old st));
       suffix \<leftarrow> cut_fragment f origin (es_start st) fragment_end;
       push_piece suffix (fr_visible suffix) st
     }
     else Some st
   }"

definition leave_fragment :: "(fragment_summary, 'd) dimension \<Rightarrow> ('d \<Rightarrow> nat option) \<Rightarrow> 'd edit_state \<Rightarrow> 'd edit_state option" where
  "leave_fragment dim pos st = do {
     origin \<leftarrow> pos (cursor_start (es_old st));
     if es_start st > origin then do { st1 \<leftarrow> push_rest dim pos st; old_next dim st1 } else Some st
   }"

text \<open>Where the current fragment ends before the range: on to the first fragment that extends past its start.\<close>

definition skip_to ::
  "(fragment_summary, 'd) dimension \<Rightarrow> ('d \<Rightarrow> nat option) \<Rightarrow> ('d \<Rightarrow> ordering) \<Rightarrow> bias \<Rightarrow> nat \<Rightarrow> 'd edit_state \<Rightarrow> 'd edit_state option" where
  "skip_to dim pos target bias first st = do {
     e \<leftarrow> cursor_end dim (es_old st);
     fragment_end \<leftarrow> pos e;
     if fragment_end < first then do {
       st1 \<leftarrow> leave_fragment dim pos st;
       (c, slice) \<leftarrow> cursor_slice fragment_ops dim target bias (es_old st1);
       st2 \<leftarrow> append_slice slice (st1\<lparr>es_old := c\<rparr>);
       s \<leftarrow> pos (cursor_start c);
       Some (st2\<lparr>es_start := s\<rparr>)
     }
     else Some st
   }"

text \<open>The part of the current fragment that precedes the range.\<close>

definition push_prefix :: "('d \<Rightarrow> nat option) \<Rightarrow> nat \<Rightarrow> 'd edit_state \<Rightarrow> 'd edit_state option" where
  "push_prefix pos first st =
     (if es_start st < first then do {
        item \<leftarrow> cursor_item (es_old st);
        f \<leftarrow> item;
        origin \<leftarrow> pos (cursor_start (es_old st));
        f1 \<leftarrow> cut_fragment f origin (es_start st) first;
        new_id \<leftarrow> locator_between (fs_max_id (fb_summary (es_new st))) (fr_id f1);
        let prefix = f1\<lparr>fr_id := new_id\<rparr>;
        st1 \<leftarrow> push_piece prefix (fr_visible prefix) st;
        Some (st1\<lparr>es_start := first\<rparr>)
      }
      else Some st)"

section \<open>Insertions\<close>

function insertion_loop ::
  "nat \<Rightarrow> u8 list \<Rightarrow> lamport \<Rightarrow> locator \<Rightarrow> lamport \<Rightarrow> nat \<Rightarrow> 'd edit_state \<Rightarrow> 'd edit_state option" where
  "insertion_loop max_len new_text timestamp next_fragment_id edit_timestamp text_offset st =
     (if text_offset < length new_text then do {
        let target_end = min (length new_text) (text_offset + max_len);
        let chunk_end = (if target_end = length new_text then target_end else floor_boundary new_text target_end);
        if chunk_end = text_offset then Some st
        else do {
          chunk_len \<leftarrow> checked_sub chunk_end text_offset;
          new_id \<leftarrow> locator_between (fs_max_id (fb_summary (es_new st))) next_fragment_id;
          let fragment = \<lparr>fr_id = new_id, fr_timestamp = timestamp, insertion_offset = es_insertion_offset st,
            fr_len = of_nat chunk_len, fr_visible = True, fr_deletions = [], fr_max_undos = version_new\<rparr>;
          slice \<leftarrow> slice_from_fragment edit_timestamp fragment;
          off \<leftarrow> checked_add (es_insertion_offset st) (of_nat chunk_len);
          insertion_loop max_len new_text timestamp next_fragment_id edit_timestamp chunk_end
            (st\<lparr>es_slices := es_slices st @ [slice], es_insertions := es_insertions st @ [insert_new fragment],
                es_new := fb_push (es_new st) fragment, es_insertion_offset := off\<rparr>)
        }
      }
      else Some st)"
  by pat_completeness auto
termination
  by (relation "measure (\<lambda>(_, s, _, _, _, i, _). length s - i)") (auto split: if_splits)

declare insertion_loop.simps [simp del]

definition push_fragments_for_insertion ::
  "nat \<Rightarrow> u8 list \<Rightarrow> lamport \<Rightarrow> locator \<Rightarrow> lamport \<Rightarrow> 'd edit_state \<Rightarrow> 'd edit_state option" where
  "push_fragments_for_insertion max_len new_text timestamp next_fragment_id edit_timestamp st = do {
     st1 \<leftarrow> insertion_loop max_len new_text timestamp next_fragment_id edit_timestamp 0 st;
     ropes \<leftarrow> rb_push_str (es_ropes st1) new_text;
     Some (st1\<lparr>es_ropes := ropes\<rparr>)
   }"

text \<open>The locator below which new text is inserted.\<close>

definition next_fragment_id :: "'d edit_state \<Rightarrow> locator option" where
  "next_fragment_id st = do {
     item \<leftarrow> cursor_item (es_old st);
     Some (case item of None \<Rightarrow> locator_max | Some old_fragment \<Rightarrow> fr_id old_fragment)
   }"

definition new_visible_len :: "'d edit_state \<Rightarrow> nat" where
  "new_visible_len st = ft_visible (fs_text (fb_summary (es_new st)))"

section \<open>Local edits\<close>

definition text_offset_of :: "fragment_text_summary \<Rightarrow> nat option" where
  "text_offset_of d = Some (ft_visible d)"

definition insert_local :: "nat \<Rightarrow> u8 list \<Rightarrow> lamport \<Rightarrow> fragment_text_summary edit_state \<Rightarrow> fragment_text_summary edit_state option" where
  "insert_local max_len new_text timestamp st =
     (if new_text \<noteq> [] then do {
        let start0 = new_visible_len st;
        next_id \<leftarrow> next_fragment_id st;
        st1 \<leftarrow> push_fragments_for_insertion max_len new_text timestamp next_id timestamp st;
        Some (st1\<lparr>es_patch := patch_push (es_patch st1)
          \<lparr>old_start = es_start st1, old_end = es_start st1, new_start = start0, new_end = start0 + length new_text\<rparr>\<rparr>)
      }
      else Some st)"

text \<open>One iteration of the loop that marks the fragments of the range as deleted: the intersection of the fragment with the range, what
  is recorded of it, and the step to the next fragment.\<close>

definition local_intersection :: "lamport \<Rightarrow> fragment \<Rightarrow> nat \<Rightarrow> fragment_text_summary edit_state \<Rightarrow> fragment option" where
  "local_intersection timestamp fragment intersection_end st =
     (if fr_visible fragment then do {
        f1 \<leftarrow> cut_fragment fragment (ft_visible (cursor_start (es_old st))) (es_start st) intersection_end;
        new_id \<leftarrow> locator_between (fs_max_id (fb_summary (es_new st))) (fr_id f1);
        Some (f1\<lparr>fr_id := new_id, fr_deletions := fr_deletions f1 @ [timestamp], fr_visible := False\<rparr>)
      }
      else Some fragment)"

definition push_local_intersection ::
  "lamport \<Rightarrow> fragment \<Rightarrow> fragment \<Rightarrow> nat \<Rightarrow> fragment_text_summary edit_state \<Rightarrow> fragment_text_summary edit_state option" where
  "push_local_intersection timestamp fragment intersection intersection_end st =
     (if fr_len intersection > 0 then do {
        st1 \<leftarrow> (if fr_visible fragment \<and> \<not> fr_visible intersection then do {
            let start0 = new_visible_len st;
            slice \<leftarrow> slice_from_fragment timestamp intersection;
            Some (st\<lparr>es_patch := patch_push (es_patch st)
                \<lparr>old_start = es_start st, old_end = intersection_end, new_start = start0, new_end = start0\<rparr>,
              es_slices := es_slices st @ [slice]\<rparr>)
          }
          else Some st);
        st2 \<leftarrow> push_piece intersection (fr_visible fragment) st1;
        Some (st2\<lparr>es_start := intersection_end\<rparr>)
      }
      else Some st)"

definition delete_local_step :: "lamport \<Rightarrow> nat \<Rightarrow> fragment_text_summary edit_state \<Rightarrow> fragment_text_summary edit_state option" where
  "delete_local_step timestamp until st = do {
     item \<leftarrow> cursor_item (es_old st);
     fragment \<leftarrow> item;
     e \<leftarrow> cursor_end fragment_text_dim (es_old st);
     let fragment_end = ft_visible e;
     let intersection_end = min until fragment_end;
     intersection \<leftarrow> local_intersection timestamp fragment intersection_end st;
     st1 \<leftarrow> push_local_intersection timestamp fragment intersection intersection_end st;
     if fragment_end \<le> until then old_next fragment_text_dim st1 else Some st1
   }"

fun delete_local_loop :: "nat \<Rightarrow> lamport \<Rightarrow> nat \<Rightarrow> fragment_text_summary edit_state \<Rightarrow> fragment_text_summary edit_state option" where
  "delete_local_loop 0 timestamp until st = (if es_start st < until then None else Some st)"
| "delete_local_loop (Suc fuel) timestamp until st =
     (if es_start st < until then do { st1 \<leftarrow> delete_local_step timestamp until st; delete_local_loop fuel timestamp until st1 }
      else Some st)"

text \<open>One edit: the new state, the full range and the text that the operation records.\<close>

definition edit_one ::
  "nat \<Rightarrow> nat \<Rightarrow> (u8 list \<Rightarrow> u8 list) \<Rightarrow> lamport \<Rightarrow> (nat \<times> nat) \<times> u8 list \<Rightarrow> fragment_text_summary edit_state \<Rightarrow>
   (fragment_text_summary edit_state \<times> (nat \<times> nat) \<times> u8 list) option" where
  "edit_one fuel max_len replace_all timestamp = (\<lambda>((first, until), text0) st. do {
     let new_text = normalize_endings replace_all text0;
     st1 \<leftarrow> skip_to fragment_text_dim text_offset_of (visible_target first) Right first st;
     let full_range_start = first + ft_deleted (cursor_start (es_old st1));
     st2 \<leftarrow> push_prefix text_offset_of first st1;
     st3 \<leftarrow> insert_local max_len new_text timestamp st2;
     st4 \<leftarrow> delete_local_loop fuel timestamp until st3;
     let full_range_end = until + ft_deleted (cursor_start (es_old st4));
     Some (st4, (full_range_start, full_range_end), new_text)
   })"

fun edit_all ::
  "nat \<Rightarrow> nat \<Rightarrow> (u8 list \<Rightarrow> u8 list) \<Rightarrow> lamport \<Rightarrow> ((nat \<times> nat) \<times> u8 list) list \<Rightarrow> fragment_text_summary edit_state \<Rightarrow>
   (nat \<times> nat) list \<Rightarrow> u8 list list \<Rightarrow> (fragment_text_summary edit_state \<times> (nat \<times> nat) list \<times> u8 list list) option" where
  "edit_all fuel max_len replace_all timestamp [] st ranges texts = Some (st, ranges, texts)"
| "edit_all fuel max_len replace_all timestamp (edit # edits) st ranges texts = do {
     (st1, range, new_text) \<leftarrow> edit_one fuel max_len replace_all timestamp edit st;
     edit_all fuel max_len replace_all timestamp edits st1 (ranges @ [range]) (texts @ [new_text])
   }"

text \<open>What follows the last edit: the rest of its fragment and all later ones.\<close>

definition finish_fragments :: "(fragment_summary, 'd) dimension \<Rightarrow> ('d \<Rightarrow> nat option) \<Rightarrow> 'd edit_state \<Rightarrow> 'd edit_state option" where
  "finish_fragments dim pos st = do {
     st1 \<leftarrow> leave_fragment dim pos st;
     (c, suffix) \<leftarrow> cursor_suffix fragment_ops dim (es_old st1);
     append_slice suffix (st1\<lparr>es_old := c\<rparr>)
   }"

definition start_edit ::
  "buffer_snapshot \<Rightarrow> (fragment_summary, 'd) dimension \<Rightarrow> ('d \<Rightarrow> nat option) \<Rightarrow> ('d \<Rightarrow> ordering) \<Rightarrow> bias \<Rightarrow> 'd edit_state option" where
  "start_edit s dim pos target bias = do {
     v \<leftarrow> cursor_new_at (bs_visible_text s) 0;
     d \<leftarrow> cursor_new_at (bs_deleted_text s) 0;
     (c, slice) \<leftarrow> cursor_slice fragment_ops dim target bias (cursor_new dim (bs_fragments s));
     ropes \<leftarrow> rb_append (rb_new v d) (fs_text (fb_summary (fb_new slice)));
     fragment_start \<leftarrow> pos (cursor_start c);
     Some \<lparr>es_old = c, es_new = fb_new slice, es_ropes = ropes, es_start = fragment_start, es_insertions = [],
       es_insertion_offset = 0, es_slices = [], es_patch = []\<rparr>
   }"

definition store_edit :: "'d edit_state \<Rightarrow> buffer_snapshot \<Rightarrow> buffer_snapshot option" where
  "store_edit st s = do {
     (v, d) \<leftarrow> rb_finish (es_ropes st);
     fragments \<leftarrow> to_sum_tree (es_new st);
     (insertions, _) \<leftarrow> tree_edit insertion_ops insertion_dim insertion_key_of (bs_insertions s) (es_insertions st);
     slices \<leftarrow> set_extend (bs_insertion_slices s) (es_slices st);
     Some (s\<lparr>bs_fragments := fragments, bs_insertions := insertions, bs_visible_text := v, bs_deleted_text := d,
       bs_insertion_slices := slices\<rparr>)
   }"

definition apply_edit_internal ::
  "nat \<Rightarrow> nat \<Rightarrow> (u8 list \<Rightarrow> u8 list) \<Rightarrow> buffer_snapshot \<Rightarrow> ((nat \<times> nat) \<times> u8 list) list \<Rightarrow> lamport \<Rightarrow>
   (buffer_snapshot \<times> edit_operation \<times> patch) option" where
  "apply_edit_internal fuel max_len replace_all s edits timestamp =
     (let edit_op = (\<lambda>ranges texts. \<lparr>eo_timestamp = timestamp, eo_version = bs_version s, eo_ranges = ranges, eo_new_text = texts\<rparr>)
      in case edits of
           [] \<Rightarrow> Some (s, edit_op [] [], [])
         | ((first, _), _) # _ \<Rightarrow> do {
             st \<leftarrow> start_edit s fragment_text_dim text_offset_of (visible_target first) Right;
             (st1, ranges, texts) \<leftarrow> edit_all fuel max_len replace_all timestamp edits st [] [];
             st2 \<leftarrow> finish_fragments fragment_text_dim text_offset_of st1;
             s' \<leftarrow> store_edit st2 s;
             Some (s', edit_op ranges texts, es_patch st2)
           })"

end
