(* ===== verification/Fragment_Correct.thy ===== *)
theory Fragment_Correct
  imports Fragment
begin

text \<open>
  The fragments with their summaries form a sum tree (interpretation \<open>frag\<close> of \<open>summary_monoid\<close>), the lengths of their texts and their locators are
  dimensions of it, and the insertions are a keyed tree (\<open>ins\<close>). The builders: a \<open>FragmentBuilder\<close> makes the tree of the
  fragments handed to it in order, and a \<open>RopeBuilder\<close> moves text between the visible and the deleted side.
\<close>

section \<open>Versions and summaries\<close>

lemma version_eqI: "(\<And>i. at_ix (gvalues (global_of v)) i = at_ix (gvalues (global_of w)) i) \<Longrightarrow> v = w"
  using global_of [of v] global_of [of w] by (metis global_of_inject mem_Collect_eq normalized_ext)

lemma meet_value_assoc: "meet_value (meet_value a b) c = meet_value a (meet_value b c)"
  by (auto simp: meet_value_def min_def split: if_splits)

lemma version_simps [simp]:
  "version_join (version_join u v) w = version_join u (version_join v w)"
  "version_meet (version_meet u v) w = version_meet u (version_meet v w)"
  "version_join version_new v = v" "version_meet version_new v = v"
  by (rule version_eqI;
      simp add: version_join.rep_eq version_meet.rep_eq version_new.rep_eq at_ix_join at_ix_meet meet_value_assoc max.assoc global_new_def)+

lemma ft_add_simps [simp]:
  "ft_visible (ft_add a b) = ft_visible a + ft_visible b" "ft_deleted (ft_add a b) = ft_deleted a + ft_deleted b"
  "ft_add (ft_add a b) c = ft_add a (ft_add b c)" "ft_add \<lparr>ft_visible = 0, ft_deleted = 0\<rparr> c = c"
  by (simp_all add: ft_add_def)

interpretation frag: summary_monoid fragment_ops
  by unfold_locales (simp_all add: fragment_ops_def fragment_summary_add_def fragment_summary_zero_def)

interpretation ftext: tree_dimension fragment_ops fragment_text_dim
  by unfold_locales (simp add: fragment_ops_def fragment_text_dim_def fragment_summary_add_def)

interpretation fvis: tree_dimension fragment_ops visible_dim
  by unfold_locales (simp add: fragment_ops_def visible_dim_def fragment_summary_add_def)

interpretation ffull: tree_dimension fragment_ops full_offset_dim
  by unfold_locales (simp add: fragment_ops_def full_offset_dim_def fragment_summary_add_def)

interpretation fid: tree_dimension fragment_ops fragment_id_dim
  by unfold_locales (simp add: fragment_ops_def fragment_id_dim_def fragment_summary_add_def)

lemma insertion_zero_least: "InsertionFragmentKey lamport_MIN 0 \<le> k"
  using lamport_MIN_le [of "ik_timestamp k"]
  by (cases k) (auto simp: less_eq_insertion_key_def less_insertion_key_def word_gt_0 less_eq_lamport_def)

interpretation ins: keyed_tree insertion_ops insertion_dim insertion_key_of
  by unfold_locales (simp_all add: insertion_ops_def insertion_dim_def insertion_zero_least)

text \<open>The summary of a sequence of fragments.\<close>

definition visible_len :: "fragment list \<Rightarrow> nat" where
  "visible_len fs = sum_list (map (\<lambda>f. if fr_visible f then unat (fr_len f) else 0) fs)"

definition deleted_len :: "fragment list \<Rightarrow> nat" where
  "deleted_len fs = sum_list (map (\<lambda>f. if fr_visible f then 0 else unat (fr_len f)) fs)"

lemma lens_simps [simp]:
  "visible_len [] = 0" "visible_len (fs @ gs) = visible_len fs + visible_len gs"
  "visible_len (f # fs) = (if fr_visible f then unat (fr_len f) else 0) + visible_len fs"
  "deleted_len [] = 0" "deleted_len (fs @ gs) = deleted_len fs + deleted_len gs"
  "deleted_len (f # fs) = (if fr_visible f then 0 else unat (fr_len f)) + deleted_len fs"
  by (simp_all add: visible_len_def deleted_len_def)

lemma fragment_item_simps [simp]:
  "fs_text (s_item fragment_ops f) = (if fr_visible f then \<lparr>ft_visible = unat (fr_len f), ft_deleted = 0\<rparr>
     else \<lparr>ft_visible = 0, ft_deleted = unat (fr_len f)\<rparr>)"
  "fs_max_id (s_item fragment_ops f) = fr_id f"
  by (simp_all add: fragment_ops_def fragment_summary_of_def Let_def)

lemma fragment_add_simps [simp]:
  "fs_text (s_add fragment_ops a b) = ft_add (fs_text a) (fs_text b)" "fs_max_id (s_add fragment_ops a b) = fs_max_id b"
  "fs_text (s_zero fragment_ops) = \<lparr>ft_visible = 0, ft_deleted = 0\<rparr>" "fs_max_id (s_zero fragment_ops) = locator_min"
  by (simp_all add: fragment_ops_def fragment_summary_add_def fragment_summary_zero_def)

lemma fragment_sum:
  "ft_visible (fs_text (item_sum fragment_ops fs)) = visible_len fs"
  "ft_deleted (fs_text (item_sum fragment_ops fs)) = deleted_len fs"
  "fs_max_id (item_sum fragment_ops fs) = (if fs = [] then locator_min else fr_id (last fs))"
proof (induction fs rule: rev_induct)
  case (snoc f fs)
  have "item_sum fragment_ops (fs @ [f]) = s_add fragment_ops (item_sum fragment_ops fs) (s_item fragment_ops f)"
    by (simp add: frag.item_sum_append) (simp add: item_sum_def sum_of_def frag.zero_left)
  with snoc show "ft_visible (fs_text (item_sum fragment_ops (fs @ [f]))) = visible_len (fs @ [f])"
    "ft_deleted (fs_text (item_sum fragment_ops (fs @ [f]))) = deleted_len (fs @ [f])"
    "fs_max_id (item_sum fragment_ops (fs @ [f])) = (if fs @ [f] = [] then locator_min else fr_id (last (fs @ [f])))"
    by simp_all
qed (simp_all add: item_sum_def sum_of_def)

lemma fragment_position:
  "pos_at fragment_ops fragment_text_dim d fs =
     \<lparr>ft_visible = ft_visible d + visible_len fs, ft_deleted = ft_deleted d + deleted_len fs\<rparr>"
  by (induction fs arbitrary: d) (auto simp: fragment_text_dim_def)

section \<open>Building the tree\<close>

fun chunk_fragments :: "fragment_chunk \<Rightarrow> fragment list" where
  "chunk_fragments (TreeChunk t) = elems t"
| "chunk_fragments (LooseChunk fs) = fs"

definition chunk_ok :: "fragment_chunk \<Rightarrow> bool" where
  "chunk_ok ch \<longleftrightarrow> (case ch of TreeChunk t \<Rightarrow> wf_tree fragment_ops t | LooseChunk fs \<Rightarrow> True)"

text \<open>A builder holds a sequence of fragments.\<close>

definition builds :: "fragment_builder \<Rightarrow> fragment list \<Rightarrow> bool" where
  "builds b fs \<longleftrightarrow> (\<forall>ch \<in> set (fb_chunks b). chunk_ok ch) \<and> concat (map chunk_fragments (fb_chunks b)) = fs \<and>
     fb_summary b = item_sum fragment_ops fs"

lemma builds_new: "wf_tree fragment_ops t \<Longrightarrow> builds (fb_new t) (elems t)"
  by (auto simp: builds_def fb_new_def chunk_ok_def wf_is_empty wf_summary)

lemma builds_append: "builds b fs \<Longrightarrow> wf_tree fragment_ops t \<Longrightarrow> builds (fb_append b t) (fs @ elems t)"
  using frag.item_sum_append [of "elems t" fs]
  by (auto simp: builds_def fb_append_def chunk_ok_def wf_is_empty wf_summary) (simp add: fragment_ops_def)

lemma item_sum_snoc: "item_sum fragment_ops (fs @ [f]) = fragment_summary_add (item_sum fragment_ops fs) (fragment_summary_of f)"
  using frag.item_sum_append [of "[f]" fs] by (simp add: item_sum_def sum_of_def frag.zero_left) (simp add: fragment_ops_def)

lemma builds_push: "builds b fs \<Longrightarrow> builds (fb_push b f) (fs @ [f])"
proof (cases "fb_chunks b" rule: rev_cases)
  case Nil
  then show "builds b fs \<Longrightarrow> ?thesis"
    by (simp add: builds_def fb_push_def chunk_ok_def last_opt_def item_sum_snoc [symmetric])
next
  case (snoc cs ch)
  then show "builds b fs \<Longrightarrow> ?thesis"
    by (cases ch) (auto simp: builds_def fb_push_def chunk_ok_def last_opt_def item_sum_snoc [symmetric])
qed

lemma builds_summary:
  assumes "builds b fs"
  shows "ft_visible (fs_text (fb_summary b)) = visible_len fs" "ft_deleted (fs_text (fb_summary b)) = deleted_len fs"
    "fs_max_id (fb_summary b) = (if fs = [] then locator_min else fr_id (last fs))"
  using assms by (simp_all add: builds_def fragment_sum)

lemma to_sum_tree_loop_ok:
  "\<forall>ch \<in> set chs. chunk_ok ch \<Longrightarrow> wf_tree fragment_ops tree \<Longrightarrow>
   \<exists>t. to_sum_tree_loop chs tree = Some t \<and> wf_tree fragment_ops t \<and> elems t = elems tree @ concat (map chunk_fragments chs)"
proof (induction chs tree rule: to_sum_tree_loop.induct)
  case (2 u chs tree)
  then obtain t where t: "tree_append fragment_ops tree u = Some t" "wf_tree fragment_ops t" "elems t = elems tree @ elems u"
    using frag.append_correct [of tree u] by (auto simp: chunk_ok_def)
  with "2.IH" [OF t(1)] "2.prems" show ?case by simp
next
  case (3 fs chs tree)
  obtain u where u: "(if length fs > 1024 then from_par_iter fragment_ops fs else from_iter fragment_ops fs) = Some u"
    "wf_tree fragment_ops u" "elems u = fs"
    using frag.from_iter_correct [of fs] by (auto simp: frag.from_par_iter_eq)
  then obtain t where t: "tree_append fragment_ops tree u = Some t" "wf_tree fragment_ops t" "elems t = elems tree @ elems u"
    using frag.append_correct [of tree u] "3.prems" by auto
  with "3.IH" [OF u(1) t(1)] "3.prems" u show ?case by simp
qed simp

lemma to_sum_tree_ok:
  assumes "builds b fs"
  obtains t where "to_sum_tree b = Some t" "wf_tree fragment_ops t" "elems t = fs"
  using to_sum_tree_loop_ok [of "fb_chunks b" "tree_new fragment_ops"] assms
  by (auto simp: to_sum_tree_def builds_def tree_new_def item_sum_def sum_of_def)

section \<open>Building the texts\<close>

text \<open>Every slice of a rope, and the tree that is cut out inside of it, leaves room on the stack of a cursor.\<close>

definition slices_fit :: "rope \<Rightarrow> bool" where
  "slices_fit r \<longleftrightarrow> (\<forall>rc a b d. rc_rope rc = r \<longrightarrow> rc_at rc a (b @ d) \<longrightarrow> slice_fits rc (str_len (a @ b)) \<and>
     (\<forall>rc' q. rc_slice rc (str_len (a @ b)) = Some (rc', q) \<longrightarrow> height q < STACK_CAPACITY))"

text \<open>The builder has consumed \<open>v\<close> and \<open>d\<close> of the old texts, \<open>v'\<close> and \<open>d'\<close> are left, and it has made \<open>nv\<close> and \<open>nd\<close>.\<close>

definition rb_at :: "rope_builder \<Rightarrow> rchar list \<Rightarrow> rchar list \<Rightarrow> rchar list \<Rightarrow> rchar list \<Rightarrow> rchar list \<Rightarrow> rchar list \<Rightarrow> bool" where
  "rb_at b v v' d d' nv nd \<longleftrightarrow> rc_at (old_visible_cursor b) v v' \<and> rc_at (old_deleted_cursor b) d d' \<and>
     slices_fit (rc_rope (old_visible_cursor b)) \<and> slices_fit (rc_rope (old_deleted_cursor b)) \<and>
     rope_ok (new_visible b) nv \<and> rope_ok (new_deleted b) nd"

lemma fitting_slice:
  assumes "rc_at rc a (b @ d)" "slices_fit (rc_rope rc)"
  obtains rc' q where "rc_slice rc (rc_offset rc + str_len b) = Some (rc', q)" "rc_rope rc' = rc_rope rc" "rc_at rc' (a @ b) d"
    "rope_ok q b" "height q < STACK_CAPACITY"
proof -
  have off: "rc_offset rc + str_len b = str_len (a @ b)" using assms(1) by (simp add: rc_at_def)
  have fits: "slice_fits rc (str_len (a @ b))" using assms unfolding slices_fit_def by blast
  from slice_ok [OF assms(1) fits] obtain rc' q where q: "rc_slice rc (str_len (a @ b)) = Some (rc', q)" "rc_rope rc' = rc_rope rc"
    "rc_at rc' (a @ b) d" "rope_ok q b" by blast
  moreover have "height q < STACK_CAPACITY" using assms q(1) unfolding slices_fit_def by blast
  ultimately show thesis using that off by metis
qed

lemma rb_push_visible:
  assumes "rb_at b v (x @ v') d d' nv nd"
  obtains b' where "rb_push b (str_len x) True vis = Some b'"
    "rb_at b' (v @ x) v' d d' (if vis then nv @ x else nv) (if vis then nd else nd @ x)"
proof -
  have at: "rc_at (old_visible_cursor b) v (x @ v')" "slices_fit (rc_rope (old_visible_cursor b))" using assms by (simp_all add: rb_at_def)
  from fitting_slice [OF at] obtain c q where c: "rc_slice (old_visible_cursor b) (rc_offset (old_visible_cursor b) + str_len x) = Some (c, q)"
    "rc_rope c = rc_rope (old_visible_cursor b)" "rc_at c (v @ x) v'" "rope_ok q x" "height q < STACK_CAPACITY" .
  from append_ok [of "new_visible b" nv q x] append_ok [of "new_deleted b" nd q x] assms c(4,5)
  obtain r1 r2 where "rope_append (new_visible b) q = Some r1" "rope_ok r1 (nv @ x)"
    "rope_append (new_deleted b) q = Some r2" "rope_ok r2 (nd @ x)"
    by (auto simp: rb_at_def)
  then show thesis using that assms c by (cases vis) (simp_all add: rb_push_def rb_at_def)
qed

lemma rb_push_deleted:
  assumes "rb_at b v v' d (x @ d') nv nd"
  obtains b' where "rb_push b (str_len x) False vis = Some b'"
    "rb_at b' v v' (d @ x) d' (if vis then nv @ x else nv) (if vis then nd else nd @ x)"
proof -
  have at: "rc_at (old_deleted_cursor b) d (x @ d')" "slices_fit (rc_rope (old_deleted_cursor b))" using assms by (simp_all add: rb_at_def)
  from fitting_slice [OF at] obtain c q where c: "rc_slice (old_deleted_cursor b) (rc_offset (old_deleted_cursor b) + str_len x) = Some (c, q)"
    "rc_rope c = rc_rope (old_deleted_cursor b)" "rc_at c (d @ x) d'" "rope_ok q x" "height q < STACK_CAPACITY" .
  from append_ok [of "new_visible b" nv q x] append_ok [of "new_deleted b" nd q x] assms c(4,5)
  obtain r1 r2 where "rope_append (new_visible b) q = Some r1" "rope_ok r1 (nv @ x)"
    "rope_append (new_deleted b) q = Some r2" "rope_ok r2 (nd @ x)"
    by (auto simp: rb_at_def)
  then show thesis using that assms c by (cases vis) (simp_all add: rb_push_def rb_at_def)
qed

lemma rb_append_ok:
  assumes "rb_at b v (x @ v') d (y @ d') nv nd"
  obtains b' where "rb_append b \<lparr>ft_visible = str_len x, ft_deleted = str_len y\<rparr> = Some b'"
    "rb_at b' (v @ x) v' (d @ y) d' (nv @ x) (nd @ y)"
proof -
  from rb_push_visible [OF assms, of True] obtain b1 where b1: "rb_push b (str_len x) True True = Some b1"
    "rb_at b1 (v @ x) v' d (y @ d') (nv @ x) nd" by auto
  from rb_push_deleted [OF b1(2), of False] obtain b2 where "rb_push b1 (str_len y) False False = Some b2"
    "rb_at b2 (v @ x) v' (d @ y) d' (nv @ x) (nd @ y)" by auto
  with b1 that show thesis by (simp add: rb_append_def)
qed

lemma rb_push_str_ok:
  assumes "rb_at b v v' d d' nv nd" "valid_str t"
  obtains b' where "rb_push_str b (encode t) = Some b'" "rb_at b' v v' d d' (nv @ t) nd"
  using push_ok [of "new_visible b" nv t] assms that by (auto simp: rb_push_str_def rb_at_def)

lemma rb_finish_ok:
  assumes "rb_at b v v' d d' nv nd"
  obtains r q where "rb_finish b = Some (r, q)" "rope_ok r (nv @ v')" "rope_ok q (nd @ d')"
proof -
  have suffix: "\<exists>q. rc_suffix rc = Some q \<and> rope_ok q y \<and> height q < STACK_CAPACITY" if "rc_at rc x y" "slices_fit (rc_rope rc)" for rc x y
  proof -
    have at: "rc_at rc x (y @ [])" using that(1) by simp
    from fitting_slice [OF at that(2)] obtain rc' q where
      "rc_slice rc (rc_offset rc + str_len y) = Some (rc', q)" "rope_ok q y" "height q < STACK_CAPACITY" .
    moreover have "extent usize_dim (rc_rope rc) = rc_offset rc + str_len y"
      using rc_at_len [OF that(1)] that(1) by (simp add: rope_len_def rc_at_def)
    ultimately show ?thesis by (simp add: rc_suffix_def)
  qed
  from suffix [of "old_visible_cursor b" v v'] suffix [of "old_deleted_cursor b" d d'] assms obtain r q where
    "rc_suffix (old_visible_cursor b) = Some r" "rope_ok r v'" "height r < STACK_CAPACITY"
    "rc_suffix (old_deleted_cursor b) = Some q" "rope_ok q d'" "height q < STACK_CAPACITY"
    by (auto simp: rb_at_def)
  with append_ok [of "new_visible b" nv r v'] append_ok [of "new_deleted b" nd q d'] assms that show thesis
    by (fastforce simp: rb_finish_def rb_at_def)
qed

end
