(* ===== verification/BufferEdit_Correct.thy ===== *)
theory BufferEdit_Correct
  imports BufferEdit Fragment_Correct "HOL-Library.Sublist"
begin

text \<open>
  Local edits are correct: \<open>apply_edit_internal\<close> replaces exactly the ranges of the visible text, keeps every character ever inserted, with its identity and
  in its place, as a cell of some fragment, and keeps the buffer's invariants, which are those that \<open>check_invariants\<close> of the code tests.
\<close>

section \<open>Fragments and their texts\<close>

type_synonym piece = "fragment \<times> rchar list"

definition texted :: "piece \<Rightarrow> bool" where
  "texted p \<longleftrightarrow> unat (fr_len (fst p)) = str_len (snd p) \<and> snd p \<noteq> [] \<and> unat (insertion_offset (fst p)) + str_len (snd p) < 2 ^ 32"

definition vis :: "piece list \<Rightarrow> rchar list" where
  "vis ps = concat (map (\<lambda>(f, t). if fr_visible f then t else []) ps)"

definition del :: "piece list \<Rightarrow> rchar list" where
  "del ps = concat (map (\<lambda>(f, t). if fr_visible f then [] else t) ps)"

lemma vis_del_simps [simp]:
  "vis [] = []" "vis ((f, t) # ps) = (if fr_visible f then t else []) @ vis ps" "vis (ps @ qs) = vis ps @ vis qs"
  "del [] = []" "del ((f, t) # ps) = (if fr_visible f then [] else t) @ del ps" "del (ps @ qs) = del ps @ del qs"
  by (simp_all add: vis_def del_def)

lemma texted_lens:
  "\<forall>p \<in> set ps. texted p \<Longrightarrow> visible_len (map fst ps) = str_len (vis ps)"
  "\<forall>p \<in> set ps. texted p \<Longrightarrow> deleted_len (map fst ps) = str_len (del ps)"
  by (induction ps) (auto simp: texted_def)

text \<open>The cells of a fragment: each byte of its text with the insertion it belongs to and its offset there.\<close>

definition cells_of :: "piece \<Rightarrow> (lamport \<times> nat \<times> u8) list" where
  "cells_of = (\<lambda>(f, t). map (\<lambda>(i, b). (fr_timestamp f, i, b)) (enumerate (unat (insertion_offset f)) (encode t)))"

definition cells_all :: "piece list \<Rightarrow> (lamport \<times> nat \<times> u8) list" where
  "cells_all ps = concat (map cells_of ps)"

lemma cells_simps [simp]:
  "cells_all [] = []" "cells_all (p # ps) = cells_of p @ cells_all ps" "cells_all (ps @ qs) = cells_all ps @ cells_all qs"
  by (simp_all add: cells_all_def)

lemma length_cells [simp]: "length (cells_of (f, t)) = str_len t"
  by (simp add: cells_of_def)

text \<open>A part of a fragment.\<close>

definition part :: "fragment \<Rightarrow> rchar list \<Rightarrow> rchar list \<Rightarrow> fragment" where
  "part f w x = f\<lparr>fr_len := of_nat (str_len x), insertion_offset := insertion_offset f + of_nat (str_len w)\<rparr>"

lemma part_simps [simp]:
  "fr_id (part f w x) = fr_id f" "fr_timestamp (part f w x) = fr_timestamp f" "fr_visible (part f w x) = fr_visible f"
  "fr_deletions (part f w x) = fr_deletions f" "fr_max_undos (part f w x) = fr_max_undos f"
  by (simp_all add: part_def)

lemma part_words:
  assumes "texted (f, w @ x @ z)"
  shows "unat (fr_len (part f w x)) = str_len x" "unat (insertion_offset (part f w x)) = unat (insertion_offset f) + str_len w"
    "unat (insertion_offset f) + str_len w + str_len x < 2 ^ 32"
proof -
  have b: "unat (insertion_offset f) + (str_len w + (str_len x + str_len z)) < 2 ^ 32" using assms by (simp add: texted_def)
  then have "str_len x < 2 ^ 32" "str_len w < 2 ^ 32" "unat (insertion_offset f) + str_len w < 2 ^ 32" by linarith+
  then show "unat (fr_len (part f w x)) = str_len x" "unat (insertion_offset (part f w x)) = unat (insertion_offset f) + str_len w"
    by (simp_all add: part_def unat_of_nat unat_word_ariths)
  show "unat (insertion_offset f) + str_len w + str_len x < 2 ^ 32" using b by linarith
qed

lemma part_texted: "texted (f, w @ x @ z) \<Longrightarrow> x \<noteq> [] \<Longrightarrow> texted (part f w x, x)"
  using part_words [of f w x z] by (simp add: texted_def)

lemma part_cells:
  "texted (f, w @ x @ z) \<Longrightarrow> cells_of (f, w @ x @ z) = cells_of (part f [] w, w) @ cells_of (part f w x, x) @ cells_of (part f (w @ x) z, z)"
  using part_words [of f w x z] part_words [of f "[]" w "x @ z"] part_words [of f "w @ x" z "[]"]
  by (simp add: cells_of_def enumerate_append_eq add.assoc)

lemma cut_ok:
  assumes "texted (f, w @ x @ z)" "a = origin + str_len w" "b = a + str_len x"
  shows "cut_fragment f origin a b = Some (part f w x)"
proof -
  have "unat (insertion_offset f) + str_len w < 2 ^ 32" "str_len w < 2 ^ 32" using part_words(3) [OF assms(1)] by linarith+
  then have "checked_add (insertion_offset f) (of_nat (str_len w)) = Some (insertion_offset f + of_nat (str_len w))"
    by (simp add: checked_add_def unat_of_nat)
  then show ?thesis using assms(2,3) by (simp add: cut_fragment_def part_def)
qed

section \<open>Locators in order\<close>

definition ids_ok :: "fragment list \<Rightarrow> bool" where
  "ids_ok fs \<longleftrightarrow> sorted_wrt (<) (map fr_id fs) \<and> (\<forall>f \<in> set fs. proper_locator (fr_id f) \<and> fr_id f < locator_max)"

lemma locator_min_less: "proper_locator l \<Longrightarrow> locator_min < l"
proof (cases "loc_ids l")
  case (Cons a as)
  then show "proper_locator l \<Longrightarrow> ?thesis" by (cases as) (auto simp: proper_locator_def locator_min_def less_locator_def word_gt_0)
qed (simp add: proper_locator_def)

lemma proper_max: "proper_locator locator_max"
  by (simp add: proper_locator_def locator_max_def)

lemma min_less_max: "locator_min < locator_max"
  by (rule locator_min_less [OF proper_max])

text \<open>A new locator between the last fragment built and the next old one.\<close>

lemma between_ok:
  assumes "ids_ok (fs @ gs)" "lo = (if fs = [] then locator_min else fr_id (last fs))"
    and "hi = (case gs of [] \<Rightarrow> locator_max | g # _ \<Rightarrow> fr_id g)"
  obtains l where "locator_between lo hi = Some l" "\<And>f. fr_id f = l \<Longrightarrow> ids_ok (fs @ f # gs)"
proof -
  have hi: "proper_locator hi" "hi \<le> locator_max" using assms(1,3) proper_max by (auto simp: ids_ok_def less_imp_le split: list.splits)
  have "lo < hi"
    using assms locator_min_less [OF hi(1)] min_less_max
    by (cases fs rule: rev_cases) (auto simp: ids_ok_def sorted_wrt_append split: list.splits)
  with hi obtain l where l: "locator_between lo hi = Some l" "lo < l" "l < hi" "proper_locator l"
    using locator_between_greater [of lo hi] by blast
  have "ids_ok (fs @ f # gs)" if "fr_id f = l" for f
  proof -
    have "fr_id g < l" if "g \<in> set fs" for g
    proof -
      have "fr_id g \<le> lo" using that assms(1,2) by (cases fs rule: rev_cases) (auto simp: ids_ok_def sorted_wrt_append less_imp_le)
      with l(2) show ?thesis by simp
    qed
    moreover have "l < fr_id g" if "g \<in> set gs" for g
    proof -
      have "hi \<le> fr_id g" using that assms(1,3) by (cases gs) (auto simp: ids_ok_def sorted_wrt_append less_imp_le)
      with l(3) show ?thesis by simp
    qed
    ultimately show ?thesis using assms(1) l hi that by (auto simp: ids_ok_def sorted_wrt_append)
  qed
  with l(1) that show thesis by blast
qed

section \<open>The state of an edit\<close>

text \<open>
  \<open>editing ts ps st pre post w qs\<close>: of the old fragments \<open>ps\<close>, those of \<open>pre\<close> have been consumed and of the first of \<open>post\<close> the text \<open>w\<close>; the new fragments so
  far are \<open>qs\<close>. The cells of other insertions than \<open>ts\<close>, those built and those to come, are the old ones.
\<close>

definition old_cells :: "lamport \<Rightarrow> piece list \<Rightarrow> (lamport \<times> nat \<times> u8) list" where
  "old_cells ts qs = filter (\<lambda>(t, _). t \<noteq> ts) (cells_all qs)"

definition new_cells :: "lamport \<Rightarrow> piece list \<Rightarrow> (lamport \<times> nat \<times> u8) list" where
  "new_cells ts qs = filter (\<lambda>(t, _). t = ts) (cells_all qs)"

definition reads :: "fragment_text_summary edit_state \<Rightarrow> piece list \<Rightarrow> piece list \<Rightarrow> bool" where
  "reads st pre post \<longleftrightarrow> wf_tree fragment_ops (c_tree (es_old st)) \<and> height (c_tree (es_old st)) < STACK_CAPACITY \<and>
     elems (c_tree (es_old st)) = map fst (pre @ post) \<and> cursor_at fragment_ops fragment_text_dim (es_old st) (length pre)"

definition part_read :: "piece list \<Rightarrow> rchar list \<Rightarrow> bool" where
  "part_read post w \<longleftrightarrow> w = [] \<or> (\<exists>f z post'. post = (f, w @ z) # post' \<and> fr_visible f)"

definition key_of :: "fragment \<Rightarrow> insertion_key" where
  "key_of f = insertion_key_of (insertion_of f)"

text \<open>A fragment that the edit \<open>ts\<close> inserted or deleted, and the slice that records it.\<close>

definition touched :: "lamport \<Rightarrow> piece \<Rightarrow> bool" where
  "touched ts p \<longleftrightarrow> fr_timestamp (fst p) = ts \<or> ts \<in> set (fr_deletions (fst p))"

definition piece_slice :: "lamport \<Rightarrow> fragment \<Rightarrow> insertion_slice" where
  "piece_slice ts f = InsertionSlice ts (fr_timestamp f) (insertion_offset f) (insertion_offset f + fr_len f)"

definition slices_of :: "lamport \<Rightarrow> piece list \<Rightarrow> insertion_slice list" where
  "slices_of ts qs = map (\<lambda>q. piece_slice ts (fst q)) (filter (touched ts) qs)"

lemma slices_of_simps [simp]:
  "slices_of ts [] = []" "slices_of ts (qs @ rs) = slices_of ts qs @ slices_of ts rs"
  "slices_of ts (q # qs) = (if touched ts q then piece_slice ts (fst q) # slices_of ts qs else slices_of ts qs)"
  by (simp_all add: slices_of_def)

lemma slices_of_none: "\<forall>p \<in> set ps. \<not> touched ts p \<Longrightarrow> slices_of ts ps = []"
  by (induction ps) auto

text \<open>Where a new fragment comes from: it is new, or a part of an old one, as it was or deleted by \<open>ts\<close>.\<close>

definition new_piece :: "lamport \<Rightarrow> piece \<Rightarrow> bool" where
  "new_piece ts q \<longleftrightarrow> fr_timestamp (fst q) = ts \<and> fr_visible (fst q) \<and> fr_deletions (fst q) = [] \<and> fr_max_undos (fst q) = version_new"

definition descends :: "lamport \<Rightarrow> piece \<Rightarrow> piece \<Rightarrow> bool" where
  "descends ts p q \<longleftrightarrow> fr_timestamp (fst q) = fr_timestamp (fst p) \<and> fr_max_undos (fst q) = fr_max_undos (fst p) \<and>
     unat (insertion_offset (fst p)) \<le> unat (insertion_offset (fst q)) \<and>
     unat (insertion_offset (fst q)) + str_len (snd q) \<le> unat (insertion_offset (fst p)) + str_len (snd p) \<and>
     (fr_deletions (fst q) = fr_deletions (fst p) \<and> fr_visible (fst q) = fr_visible (fst p) \<or>
      fr_deletions (fst q) = fr_deletions (fst p) @ [ts] \<and> fr_visible (fst p) \<and> \<not> fr_visible (fst q))"

definition origins :: "lamport \<Rightarrow> piece list \<Rightarrow> piece list \<Rightarrow> bool" where
  "origins ts ps qs \<longleftrightarrow> (\<forall>q \<in> set qs. new_piece ts q \<or> (\<exists>p \<in> set ps. descends ts p q))"

lemma origins_simps [simp]:
  "origins ts ps []" "origins ts ps (qs @ rs) \<longleftrightarrow> origins ts ps qs \<and> origins ts ps rs"
  "origins ts ps (q # qs) \<longleftrightarrow> (new_piece ts q \<or> (\<exists>p \<in> set ps. descends ts p q)) \<and> origins ts ps qs"
  by (auto simp: origins_def)

lemma origins_old: "set mid \<subseteq> set ps \<Longrightarrow> origins ts ps mid"
  by (auto simp: origins_def descends_def)

lemma descends_part:
  assumes "texted (f, w @ x @ z)" "fr_timestamp g = fr_timestamp f" "insertion_offset g = insertion_offset (part f w x)" "fr_max_undos g = fr_max_undos f"
    and "fr_deletions g = fr_deletions f \<and> fr_visible g = fr_visible f \<or> fr_deletions g = fr_deletions f @ [ts] \<and> fr_visible f \<and> \<not> fr_visible g"
  shows "descends ts (f, w @ x @ z) (g, x)"
  using assms part_words [OF assms(1)] by (simp add: descends_def)

text \<open>The insertions recorded are those of the new fragments that were not there before.\<close>

definition recorded :: "piece list \<Rightarrow> (insertion_fragment, insertion_key) edit list \<Rightarrow> piece list \<Rightarrow> bool" where
  "recorded ps es qs \<longleftrightarrow> subseq es (map (\<lambda>q. insert_new (fst q)) qs) \<and> (\<forall>q \<in> set qs. insert_new (fst q) \<in> set es \<or> q \<in> set ps)"

definition editing ::
  "lamport \<Rightarrow> piece list \<Rightarrow> fragment_text_summary edit_state \<Rightarrow> piece list \<Rightarrow> piece list \<Rightarrow> rchar list \<Rightarrow> piece list \<Rightarrow> bool" where
  "editing ts ps st pre post w qs \<longleftrightarrow>
     ps = pre @ post \<and> reads st pre post \<and> part_read post w \<and> es_start st = str_len (vis pre @ w) \<and>
     (\<forall>p \<in> set (ps @ qs). texted p) \<and> (\<forall>p \<in> set ps. \<not> touched ts p) \<and>
     builds (es_new st) (map fst qs) \<and>
     rb_at (es_ropes st) (vis pre @ w) (drop (length w) (vis post)) (del pre) (del post) (vis qs) (del qs) \<and>
     ids_ok (map fst (qs @ post)) \<and>
     old_cells ts qs @ drop (str_len w) (cells_all post) = cells_all ps \<and>
     (\<exists>s. new_cells ts qs = map (\<lambda>(i, b). (ts, i, b)) (enumerate 0 s) \<and> unat (es_insertion_offset st) = length s) \<and>
     recorded ps (es_insertions st) qs \<and>
     key_of ` fst ` set pre \<subseteq> key_of ` fst ` set qs \<and> (w \<noteq> [] \<longrightarrow> key_of (fst (hd post)) \<in> key_of ` fst ` set qs) \<and>
     es_slices st = slices_of ts qs \<and> origins ts ps qs"

lemma editingD:
  assumes "editing ts ps st pre post w qs"
  shows "ps = pre @ post" "reads st pre post" "part_read post w" "es_start st = str_len (vis pre @ w)"
    "\<forall>p \<in> set ps. texted p" "\<forall>q \<in> set qs. texted q" "\<forall>p \<in> set ps. \<not> touched ts p" "builds (es_new st) (map fst qs)"
    "rb_at (es_ropes st) (vis pre @ w) (drop (length w) (vis post)) (del pre) (del post) (vis qs) (del qs)"
    "ids_ok (map fst (qs @ post))" "old_cells ts qs @ drop (str_len w) (cells_all post) = cells_all ps"
    "\<exists>s. new_cells ts qs = map (\<lambda>(i, b). (ts, i, b)) (enumerate 0 s) \<and> unat (es_insertion_offset st) = length s"
    "recorded ps (es_insertions st) qs" "key_of ` fst ` set pre \<subseteq> key_of ` fst ` set qs"
    "w \<noteq> [] \<Longrightarrow> key_of (fst (hd post)) \<in> key_of ` fst ` set qs" "es_slices st = slices_of ts qs"
    "origins ts ps qs"
  using assms unfolding editing_def by auto

lemma editingI:
  assumes "ps = pre @ post" "reads st pre post" "part_read post w" "es_start st = str_len (vis pre @ w)"
    "\<forall>p \<in> set ps. texted p" "\<forall>q \<in> set qs. texted q" "\<forall>p \<in> set ps. \<not> touched ts p" "builds (es_new st) (map fst qs)"
    "rb_at (es_ropes st) (vis pre @ w) (drop (length w) (vis post)) (del pre) (del post) (vis qs) (del qs)"
    "ids_ok (map fst (qs @ post))" "old_cells ts qs @ drop (str_len w) (cells_all post) = cells_all ps"
    "\<exists>s. new_cells ts qs = map (\<lambda>(i, b). (ts, i, b)) (enumerate 0 s) \<and> unat (es_insertion_offset st) = length s"
    "recorded ps (es_insertions st) qs" "key_of ` fst ` set pre \<subseteq> key_of ` fst ` set qs"
    "w \<noteq> [] \<Longrightarrow> key_of (fst (hd post)) \<in> key_of ` fst ` set qs" "es_slices st = slices_of ts qs"
    "origins ts ps qs"
  shows "editing ts ps st pre post w qs"
  using assms unfolding editing_def by auto

lemma editing_ignores [simp]:
  "editing ts ps (st\<lparr>es_patch := p\<rparr>) pre post w qs = editing ts ps st pre post w qs"
  by (simp add: editing_def reads_def)

lemma old_new_cells_simps [simp]:
  "old_cells ts (qs @ rs) = old_cells ts qs @ old_cells ts rs" "new_cells ts (qs @ rs) = new_cells ts qs @ new_cells ts rs"
  by (simp_all add: old_cells_def new_cells_def)

lemma cells_one:
  "fr_timestamp f \<noteq> ts \<Longrightarrow> old_cells ts [(f, t)] = cells_of (f, t)" "fr_timestamp f \<noteq> ts \<Longrightarrow> new_cells ts [(f, t)] = []"
  "fr_timestamp f = ts \<Longrightarrow> old_cells ts [(f, t)] = []" "fr_timestamp f = ts \<Longrightarrow> new_cells ts [(f, t)] = cells_of (f, t)"
  by (auto simp: old_cells_def new_cells_def cells_of_def filter_empty_conv intro!: filter_True)

lemma cells_many:
  "\<forall>p \<in> set ps. \<not> touched ts p \<Longrightarrow> old_cells ts ps = cells_all ps"
  "\<forall>p \<in> set ps. \<not> touched ts p \<Longrightarrow> new_cells ts ps = []"
  by (fastforce simp: touched_def old_cells_def new_cells_def cells_all_def cells_of_def filter_empty_conv intro!: filter_True)+

lemma recorded_push: "recorded ps es qs \<Longrightarrow> recorded ps (es @ [insert_new f]) (qs @ [(f, t)])"
  by (auto simp: recorded_def)

lemma recorded_old: "recorded ps es qs \<Longrightarrow> set mid \<subseteq> set ps \<Longrightarrow> recorded ps es (qs @ mid)"
  by (auto simp: recorded_def intro: list_emb_prefix)

section \<open>Steps of the cursor\<close>

lemma reads_position:
  assumes "reads st pre post" "\<forall>p \<in> set (pre @ post). texted p"
  shows "cursor_start (es_old st) = \<lparr>ft_visible = str_len (vis pre), ft_deleted = str_len (del pre)\<rparr>"
    and "cursor_item (es_old st) = Some (case post of [] \<Rightarrow> None | p # _ \<Rightarrow> Some (fst p))"
    and "cursor_end fragment_text_dim (es_old st) =
      Some \<lparr>ft_visible = str_len (vis (pre @ take 1 post)), ft_deleted = str_len (del (pre @ take 1 post))\<rparr>"
proof -
  let ?xs = "elems (c_tree (es_old st))"
  have at: "cursor_at fragment_ops fragment_text_dim (es_old st) (length pre)" and wf: "wf_tree fragment_ops (c_tree (es_old st))"
    and xs: "?xs = map fst (pre @ post)" using assms(1) by (simp_all add: reads_def)
  have z: "d_zero fragment_text_dim = \<lparr>ft_visible = 0, ft_deleted = 0\<rparr>" by (simp add: fragment_text_dim_def)
  have "\<forall>p \<in> set (pre @ take 1 post). texted p" using assms(2) by (auto dest: in_set_takeD)
  moreover have "take (Suc (length pre)) ?xs = map fst (pre @ take 1 post)" "take (length pre) ?xs = map fst pre"
    by (simp_all add: xs take_map)
  moreover note lens = texted_lens [of pre] texted_lens [of "pre @ take 1 post"]
  ultimately show "cursor_start (es_old st) = \<lparr>ft_visible = str_len (vis pre), ft_deleted = str_len (del pre)\<rparr>"
    "cursor_end fragment_text_dim (es_old st) =
      Some \<lparr>ft_visible = str_len (vis (pre @ take 1 post)), ft_deleted = str_len (del (pre @ take 1 post))\<rparr>"
    using at cursor_end_at [OF at wf] assms(2)
    by (simp_all add: cursor_start_def cursor_at_def fragment_position z del: vis_del_simps map_append take_append)
  show "cursor_item (es_old st) = Some (case post of [] \<Rightarrow> None | p # _ \<Rightarrow> Some (fst p))"
    using cursor_item_at(1) [OF at wf] by (simp add: xs get_opt_def nth_append split: list.splits)
qed

lemma reads_next:
  assumes "reads st pre (p # post)"
  obtains c where "old_next fragment_text_dim st = Some (st\<lparr>es_old := c\<rparr>)" "reads (st\<lparr>es_old := c\<rparr>) (pre @ [p]) post"
proof -
  have at: "wf_tree fragment_ops (c_tree (es_old st))" "height (c_tree (es_old st)) < STACK_CAPACITY"
    "cursor_at fragment_ops fragment_text_dim (es_old st) (length pre)" "length pre < length (elems (c_tree (es_old st)))"
    using assms by (simp_all add: reads_def)
  from ftext.next_correct [OF at] obtain c where "cursor_next fragment_text_dim (es_old st) = Some c" "c_tree c = c_tree (es_old st)"
    "cursor_at fragment_ops fragment_text_dim c (Suc (length pre))" by blast
  with assms show thesis by (intro that [of c]) (simp_all add: old_next_def reads_def)
qed

section \<open>Pushing pieces\<close>

lemma texted_positive: "texted (f, t) \<Longrightarrow> fr_len f > 0"
proof -
  assume "texted (f, t)"
  then have "unat (fr_len f) \<noteq> 0" by (simp add: texted_def)
  then show ?thesis by (metis unat_0 word_gt_0)
qed

lemma push_piece_visible:
  assumes "rb_at (es_ropes st) v (x @ v') d d' nv nd" "builds (es_new st) fs" "texted (f, x)"
  obtains st' where "push_piece f True st = Some st'"
    "st' = st\<lparr>es_insertions := es_insertions st @ [insert_new f], es_ropes := es_ropes st', es_new := es_new st'\<rparr>"
    "builds (es_new st') (fs @ [f])"
    "rb_at (es_ropes st') (v @ x) v' d d' (if fr_visible f then nv @ x else nv) (if fr_visible f then nd else nd @ x)"
proof -
  from rb_push_visible [OF assms(1), of "fr_visible f"] obtain b where "rb_push (es_ropes st) (str_len x) True (fr_visible f) = Some b"
    "rb_at b (v @ x) v' d d' (if fr_visible f then nv @ x else nv) (if fr_visible f then nd else nd @ x)" .
  with assms(3) texted_positive [OF assms(3)] builds_push [OF assms(2), of f] show thesis
    by (intro that [of "st\<lparr>es_insertions := es_insertions st @ [insert_new f], es_ropes := b, es_new := fb_push (es_new st) f\<rparr>"])
      (simp_all add: push_piece_def rb_push_fragment_def texted_def)
qed

lemma push_piece_deleted:
  assumes "rb_at (es_ropes st) v v' d (x @ d') nv nd" "builds (es_new st) fs" "texted (f, x)"
  obtains st' where "push_piece f False st = Some st'"
    "st' = st\<lparr>es_insertions := es_insertions st @ [insert_new f], es_ropes := es_ropes st', es_new := es_new st'\<rparr>"
    "builds (es_new st') (fs @ [f])"
    "rb_at (es_ropes st') v v' (d @ x) d' (if fr_visible f then nv @ x else nv) (if fr_visible f then nd else nd @ x)"
proof -
  from rb_push_deleted [OF assms(1), of "fr_visible f"] obtain b where "rb_push (es_ropes st) (str_len x) False (fr_visible f) = Some b"
    "rb_at b v v' (d @ x) d' (if fr_visible f then nv @ x else nv) (if fr_visible f then nd else nd @ x)" .
  with assms(3) texted_positive [OF assms(3)] builds_push [OF assms(2), of f] show thesis
    by (intro that [of "st\<lparr>es_insertions := es_insertions st @ [insert_new f], es_ropes := b, es_new := fb_push (es_new st) f\<rparr>"])
      (simp_all add: push_piece_def rb_push_fragment_def texted_def)
qed

lemma key_of_part: "texted (f, w @ x @ z) \<Longrightarrow> key_of (part f [] x) = key_of f"
  by (simp add: key_of_def insertion_key_of_def insertion_of_def part_def)

text \<open>A part of the current fragment with a new identifier, visible or not.\<close>

lemma editing_part:
  assumes ed: "editing ts ps st pre ((f, w @ x @ z) # post) w qs" and f: "fr_visible f" and x: "x \<noteq> []"
    and g: "fr_timestamp g = fr_timestamp f" "fr_len g = fr_len (part f w x)" "insertion_offset g = insertion_offset (part f w x)"
    and o: "fr_max_undos g = fr_max_undos f"
      "fr_deletions g = fr_deletions f \<and> fr_visible g = fr_visible f \<or> fr_deletions g = fr_deletions f @ [ts] \<and> fr_visible f \<and> \<not> fr_visible g"
    and ids: "ids_ok (map fst qs @ g # f # map fst post)"
  obtains st' where "push_piece g True st = Some st'" "es_patch st' = es_patch st" "es_insertion_offset st' = es_insertion_offset st" "es_start st' = es_start st"
    "es_slices st' = es_slices st"
    "editing ts ps (st'\<lparr>es_start := es_start st + str_len x, es_slices := es_slices st @ slices_of ts [(g, x)]\<rparr>) pre ((f, w @ x @ z) # post) (w @ x) (qs @ [(g, x)])"
proof -
  have t: "texted (f, w @ x @ z)" "fr_timestamp f \<noteq> ts" using ed by (auto simp: editing_def touched_def)
  then have gt: "texted (g, x)" using part_texted [of f w x z] x g by (simp add: texted_def)
  have cg: "cells_of (g, x) = cells_of (part f w x, x)" using g by (simp add: cells_of_def)
  have rb: "rb_at (es_ropes st) (vis pre @ w) (x @ z @ vis post) (del pre) (del post) (vis qs) (del qs)"
    and b: "builds (es_new st) (map fst qs)" using ed f by (simp_all add: editing_def)
  from push_piece_visible [OF rb b gt] obtain st' where st': "push_piece g True st = Some st'"
    "st' = st\<lparr>es_insertions := es_insertions st @ [insert_new g], es_ropes := es_ropes st', es_new := es_new st'\<rparr>"
    "builds (es_new st') (map fst qs @ [g])"
    "rb_at (es_ropes st') ((vis pre @ w) @ x) (z @ vis post) (del pre) (del post) (if fr_visible g then vis qs @ x else vis qs)
      (if fr_visible g then del qs else del qs @ x)" .
  have fields: "es_insertions st' = es_insertions st @ [insert_new g]" "es_old st' = es_old st" "es_insertion_offset st' = es_insertion_offset st"
    "es_patch st' = es_patch st" "es_start st' = es_start st" "es_slices st' = es_slices st"
    by (subst st'(2), simp)+
  have cells: "old_cells ts (qs @ [(g, x)]) @ drop (str_len (w @ x)) (cells_all ((f, w @ x @ z) # post)) = cells_all ps"
    "new_cells ts (qs @ [(g, x)]) = new_cells ts qs"
    using ed t g cells_one [of g ts x] by (simp_all add: editing_def part_cells [OF t(1)] cg)
  have keys: "key_of f \<in> key_of ` fst ` set (qs @ [(g, x)])"
  proof (cases "w = []")
    case True
    then have "key_of g = key_of f" using g key_of_part [of f "[]" x z] t(1) by (simp add: key_of_def insertion_key_of_def insertion_of_def)
    then show ?thesis by force
  qed (use ed in \<open>auto simp: editing_def\<close>)
  note e = editingD [OF ed]
  let ?st = "st'\<lparr>es_start := es_start st + str_len x, es_slices := es_slices st @ slices_of ts [(g, x)]\<rparr>"
  have "editing ts ps ?st pre ((f, w @ x @ z) # post) (w @ x) (qs @ [(g, x)])"
  proof (rule editingI)
    show "reads ?st pre ((f, w @ x @ z) # post)" using e(2) fields by (simp add: reads_def)
    show "part_read ((f, w @ x @ z) # post) (w @ x)" using f by (simp add: part_read_def)
    show "rb_at (es_ropes ?st) (vis pre @ w @ x)
      (drop (length (w @ x)) (vis ((f, w @ x @ z) # post))) (del pre) (del ((f, w @ x @ z) # post)) (vis (qs @ [(g, x)])) (del (qs @ [(g, x)]))"
      using st'(4) f by (simp split: if_splits)
    show "\<exists>s. new_cells ts (qs @ [(g, x)]) = map (\<lambda>(i, b). (ts, i, b)) (enumerate 0 s) \<and>
      unat (es_insertion_offset ?st) = length s"
      using e(12) fields(3) unfolding cells(2) by simp
    show "old_cells ts (qs @ [(g, x)]) @ drop (str_len (w @ x)) (cells_all ((f, w @ x @ z) # post)) = cells_all ps" by (rule cells(1))
    show "recorded ps (es_insertions ?st) (qs @ [(g, x)])"
      using recorded_push [OF e(13)] fields(1) by simp
    show "es_slices ?st = slices_of ts (qs @ [(g, x)])" using e(16) by simp
    show "origins ts ps (qs @ [(g, x)])" using e(1,17) descends_part [OF t(1) g(1,3) o] by simp
  qed (use e gt ids keys st'(3) in auto)
  with st'(1) fields that show thesis by blast
qed

text \<open>Stepping over a fragment that has been consumed.\<close>

lemma editing_step:
  assumes ed: "editing ts ps st pre ((f, w) # post) w qs" and w: "w \<noteq> []"
  obtains c where "old_next fragment_text_dim st = Some (st\<lparr>es_old := c\<rparr>)"
    "editing ts ps (st\<lparr>es_old := c\<rparr>) (pre @ [(f, w)]) post [] qs"
proof -
  note e = editingD [OF ed]
  have f: "fr_visible f" using e(3) w by (auto simp: part_read_def)
  from reads_next [OF e(2)] obtain c where c: "old_next fragment_text_dim st = Some (st\<lparr>es_old := c\<rparr>)"
    "reads (st\<lparr>es_old := c\<rparr>) (pre @ [(f, w)]) post" .
  have "editing ts ps (st\<lparr>es_old := c\<rparr>) (pre @ [(f, w)]) post [] qs"
  proof (rule editingI)
    show "ids_ok (map fst (qs @ post))" using e(10) by (auto simp: ids_ok_def sorted_wrt_append)
    show "rb_at (es_ropes (st\<lparr>es_old := c\<rparr>)) (vis (pre @ [(f, w)]) @ []) (drop (length []) (vis post)) (del (pre @ [(f, w)])) (del post) (vis qs) (del qs)"
      using e(9) f by simp
    show "key_of ` fst ` set (pre @ [(f, w)]) \<subseteq> key_of ` fst ` set qs" using e(14) e(15) [OF w] by simp
  qed (use e c(2) f in \<open>simp_all add: part_read_def\<close>)
  with c(1) that show thesis by blast
qed

text \<open>Leaving a fragment: its rest keeps its identifier.\<close>

lemma editing_rest:
  assumes ed: "editing ts ps st pre ((f, w @ z) # post) w qs" and w: "w \<noteq> []" and z: "z \<noteq> []"
  obtains st' c where "push_piece (part f w z) True st = Some st'" "es_patch st' = es_patch st" "es_insertion_offset st' = es_insertion_offset st"
    "es_start st' = es_start st" "old_next fragment_text_dim st' = Some (st'\<lparr>es_old := c\<rparr>)"
    "editing ts ps (st'\<lparr>es_old := c, es_start := es_start st + str_len z\<rparr>) (pre @ [(f, w @ z)]) post [] (qs @ [(part f w z, z)])"
proof -
  note e = editingD [OF ed]
  have f: "fr_visible f" using e(3) w by (auto simp: part_read_def)
  have t: "texted (f, w @ z @ [])" "fr_timestamp f \<noteq> ts" "\<not> touched ts (f, undefined)" using e(1,5,7) by (auto simp: touched_def)
  have pt: "texted (part f w z, z)" by (rule part_texted [OF t(1) z])
  have rb: "rb_at (es_ropes st) (vis pre @ w) (z @ vis post) (del pre) (del post) (vis qs) (del qs)" using e(9) f by simp
  from push_piece_visible [OF rb e(8) pt] obtain st' where st': "push_piece (part f w z) True st = Some st'"
    "st' = st\<lparr>es_insertions := es_insertions st @ [insert_new (part f w z)], es_ropes := es_ropes st', es_new := es_new st'\<rparr>"
    "builds (es_new st') (map fst qs @ [part f w z])"
    "rb_at (es_ropes st') ((vis pre @ w) @ z) (vis post) (del pre) (del post) (vis qs @ z) (del qs)" using f by auto
  have fields: "es_insertions st' = es_insertions st @ [insert_new (part f w z)]" "es_old st' = es_old st"
    "es_insertion_offset st' = es_insertion_offset st" "es_patch st' = es_patch st" "es_start st' = es_start st" "es_slices st' = es_slices st"
    by (subst st'(2), simp)+
  have "reads st' pre ((f, w @ z) # post)" using e(2) fields by (simp add: reads_def)
  from reads_next [OF this] obtain c where c: "old_next fragment_text_dim st' = Some (st'\<lparr>es_old := c\<rparr>)"
    "reads (st'\<lparr>es_old := c\<rparr>) (pre @ [(f, w @ z)]) post" .
  let ?st = "st'\<lparr>es_old := c, es_start := es_start st + str_len z\<rparr>"
  have "editing ts ps ?st (pre @ [(f, w @ z)]) post [] (qs @ [(part f w z, z)])"
  proof (rule editingI)
    show "reads ?st (pre @ [(f, w @ z)]) post" using c(2) by (simp add: reads_def)
    show "ids_ok (map fst ((qs @ [(part f w z, z)]) @ post))" using e(10) by (simp add: ids_ok_def)
    show "rb_at (es_ropes ?st) (vis (pre @ [(f, w @ z)]) @ []) (drop (length []) (vis post)) (del (pre @ [(f, w @ z)])) (del post)
      (vis (qs @ [(part f w z, z)])) (del (qs @ [(part f w z, z)]))"
      using st'(4) f by simp
    show "old_cells ts (qs @ [(part f w z, z)]) @ drop (str_len []) (cells_all post) = cells_all ps"
      using e(11) t(2) part_cells [OF t(1)] cells_one(1) [of "part f w z" ts z] by (simp add: cells_of_def)
    show "\<exists>s. new_cells ts (qs @ [(part f w z, z)]) = map (\<lambda>(i, b). (ts, i, b)) (enumerate 0 s) \<and> unat (es_insertion_offset ?st) = length s"
      using e(12) fields(3) t(2) cells_one(2) [of "part f w z" ts z] by simp
    show "recorded ps (es_insertions ?st) (qs @ [(part f w z, z)])" using recorded_push [OF e(13)] fields(1) by simp
    show "key_of ` fst ` set (pre @ [(f, w @ z)]) \<subseteq> key_of ` fst ` set (qs @ [(part f w z, z)])" using e(14) e(15) [OF w] by auto
    show "origins ts ps (qs @ [(part f w z, z)])" using e(1,17) descends_part [OF t(1), of "part f w z" ts] by simp
    show "es_slices ?st = slices_of ts (qs @ [(part f w z, z)])" using e(16) fields t(2,3) by (simp add: touched_def)
  qed (use e c(2) f pt st'(3) in \<open>simp_all add: part_read_def\<close>)
  with st'(1) fields c(1) that show thesis by blast
qed

text \<open>Keeping a run of old fragments.\<close>

lemma editing_slice:
  assumes ed: "editing ts ps st pre (mid @ post) [] qs"
    and t: "wf_tree fragment_ops t" "elems t = map fst mid"
    and c: "c_tree c = c_tree (es_old st)" "cursor_at fragment_ops fragment_text_dim c (length (pre @ mid))"
  obtains st' where "append_slice t (st\<lparr>es_old := c\<rparr>) = Some st'" "es_patch st' = es_patch st" "es_insertion_offset st' = es_insertion_offset st" "es_old st' = c"
    "editing ts ps (st'\<lparr>es_start := str_len (vis (pre @ mid))\<rparr>) (pre @ mid) post [] (qs @ mid)"
proof -
  note e = editingD [OF ed]
  have mid: "\<forall>p \<in> set mid. texted p" "\<forall>p \<in> set mid. \<not> touched ts p" "set mid \<subseteq> set ps" using e(1,5,7) by auto
  have sum: "fs_text (summary t) = \<lparr>ft_visible = str_len (vis mid), ft_deleted = str_len (del mid)\<rparr>"
    using t fragment_sum [of "map fst mid"] texted_lens [of mid] mid(1) by (simp add: wf_summary)
  have "rb_at (es_ropes st) (vis pre) (vis mid @ vis post) (del pre) (del mid @ del post) (vis qs) (del qs)" using e(9) by simp
  from rb_append_ok [OF this] obtain b where b: "rb_append (es_ropes st) (fs_text (summary t)) = Some b"
    "rb_at b (vis pre @ vis mid) (vis post) (del pre @ del mid) (del post) (vis qs @ vis mid) (del qs @ del mid)" unfolding sum .
  let ?st = "st\<lparr>es_old := c, es_ropes := b, es_new := fb_append (es_new st) t\<rparr>"
  have s: "append_slice t (st\<lparr>es_old := c\<rparr>) = Some ?st" using b(1) by (simp add: append_slice_def)
  have "editing ts ps (?st\<lparr>es_start := str_len (vis (pre @ mid))\<rparr>) (pre @ mid) post [] (qs @ mid)"
  proof (rule editingI)
    show "reads (?st\<lparr>es_start := str_len (vis (pre @ mid))\<rparr>) (pre @ mid) post" using e(2) c by (simp add: reads_def)
    show "builds (es_new (?st\<lparr>es_start := str_len (vis (pre @ mid))\<rparr>)) (map fst (qs @ mid))" using builds_append [OF e(8) t(1)] t(2) by simp
    show "old_cells ts (qs @ mid) @ drop (str_len []) (cells_all post) = cells_all ps"
      using e(11) cells_many(1) [OF mid(2)] by simp
    show "\<exists>s. new_cells ts (qs @ mid) = map (\<lambda>(i, b). (ts, i, b)) (enumerate 0 s) \<and>
      unat (es_insertion_offset (?st\<lparr>es_start := str_len (vis (pre @ mid))\<rparr>)) = length s"
      using e(12) cells_many(2) [OF mid(2)] by simp
    show "recorded ps (es_insertions (?st\<lparr>es_start := str_len (vis (pre @ mid))\<rparr>)) (qs @ mid)" using recorded_old [OF e(13) mid(3)] by simp
    show "key_of ` fst ` set (pre @ mid) \<subseteq> key_of ` fst ` set (qs @ mid)" using e(14) by (simp add: image_Un) blast
    show "origins ts ps (qs @ mid)" using e(17) origins_old [OF mid(3)] by simp
    show "es_slices (?st\<lparr>es_start := str_len (vis (pre @ mid))\<rparr>) = slices_of ts (qs @ mid)" using e(16) slices_of_none [OF mid(2)] by simp
  qed (use e mid b(2) in \<open>auto simp: part_read_def\<close>)
  with s that show thesis by simp
qed

text \<open>An invisible fragment is kept as it is.\<close>

lemma editing_invisible:
  assumes ed: "editing ts ps st pre ((f, t) # post) [] qs" and f: "\<not> fr_visible f"
  obtains st' c where "push_piece f False st = Some st'" "es_patch st' = es_patch st" "es_insertion_offset st' = es_insertion_offset st" "es_start st' = es_start st"
    "old_next fragment_text_dim st' = Some (st'\<lparr>es_old := c\<rparr>)"
    "editing ts ps (st'\<lparr>es_old := c\<rparr>) (pre @ [(f, t)]) post [] (qs @ [(f, t)])"
proof -
  note e = editingD [OF ed]
  have t: "texted (f, t)" "fr_timestamp f \<noteq> ts" "\<not> touched ts (f, undefined)" using e(1,5,7) by (auto simp: touched_def)
  have rb: "rb_at (es_ropes st) (vis pre) (vis post) (del pre) (t @ del post) (vis qs) (del qs)" using e(9) f by simp
  from push_piece_deleted [OF rb e(8) t(1)] obtain st' where st': "push_piece f False st = Some st'"
    "st' = st\<lparr>es_insertions := es_insertions st @ [insert_new f], es_ropes := es_ropes st', es_new := es_new st'\<rparr>"
    "builds (es_new st') (map fst qs @ [f])"
    "rb_at (es_ropes st') (vis pre) (vis post) (del pre @ t) (del post) (vis qs) (del qs @ t)" using f by auto
  have fields: "es_insertions st' = es_insertions st @ [insert_new f]" "es_old st' = es_old st"
    "es_insertion_offset st' = es_insertion_offset st" "es_patch st' = es_patch st" "es_start st' = es_start st" "es_slices st' = es_slices st"
    by (subst st'(2), simp)+
  have "reads st' pre ((f, t) # post)" using e(2) fields by (simp add: reads_def)
  from reads_next [OF this] obtain c where c: "old_next fragment_text_dim st' = Some (st'\<lparr>es_old := c\<rparr>)"
    "reads (st'\<lparr>es_old := c\<rparr>) (pre @ [(f, t)]) post" .
  have "editing ts ps (st'\<lparr>es_old := c\<rparr>) (pre @ [(f, t)]) post [] (qs @ [(f, t)])"
  proof (rule editingI)
    show "old_cells ts (qs @ [(f, t)]) @ drop (str_len []) (cells_all post) = cells_all ps" using e(11) cells_one(1) [OF t(2)] by simp
    show "\<exists>s. new_cells ts (qs @ [(f, t)]) = map (\<lambda>(i, b). (ts, i, b)) (enumerate 0 s) \<and> unat (es_insertion_offset (st'\<lparr>es_old := c\<rparr>)) = length s"
      using e(12) fields(3) cells_one(2) [OF t(2)] by simp
    show "recorded ps (es_insertions (st'\<lparr>es_old := c\<rparr>)) (qs @ [(f, t)])" using recorded_push [OF e(13)] fields(1) by simp
    show "key_of ` fst ` set (pre @ [(f, t)]) \<subseteq> key_of ` fst ` set (qs @ [(f, t)])" using e(14) by (simp add: image_Un) blast
    show "origins ts ps (qs @ [(f, t)])" using e(1,17) origins_old [of "[(f, t)]" ps ts] by simp
    show "es_slices (st'\<lparr>es_old := c\<rparr>) = slices_of ts (qs @ [(f, t)])" using e(16) fields t(2,3) by (simp add: touched_def)
  qed (use e c(2) f t(1,2) fields st'(3,4) in \<open>auto simp: part_read_def\<close>)
  with st'(1) fields c(1) that show thesis by blast
qed

section \<open>Skipping to an edit\<close>

lemma split_by_len:
  assumes "a @ b = c @ d" "str_len a \<le> str_len c"
  obtains m where "c = a @ m" "b = m @ d"
proof -
  from assms(1) consider m where "a = c @ m" "d = m @ b" | m where "c = a @ m" "b = m @ d"
    by (auto simp: append_eq_append_conv2)
  then show thesis
  proof cases
    case (1 m)
    with assms(2) have "m = []" by simp
    with 1 that [of "[]"] show thesis by simp
  qed (rule that)
qed

lemma stop_visible:
  "\<exists>mid post. ps = mid @ post \<and>
     stop_at fragment_ops fragment_text_dim (visible_target n) Right d (map fst ps) = length mid \<and>
     (mid = [] \<or> ft_visible d + visible_len (map fst mid) \<le> n) \<and>
     (post = [] \<or> n < ft_visible d + visible_len (map fst (mid @ [hd post])))"
proof (induction ps arbitrary: d)
  case (Cons p ps)
  let ?d = "d_add fragment_text_dim d (s_item fragment_ops (fst p))"
  have d: "ft_visible ?d = ft_visible d + visible_len [fst p]" by (simp add: fragment_text_dim_def)
  show ?case
  proof (cases "ft_visible ?d \<le> n")
    case True
    then have "past_end (visible_target n) Right ?d" by (auto simp: past_end_def visible_target_def)
    moreover from Cons.IH [of ?d] obtain mid post where m: "ps = mid @ post"
      "stop_at fragment_ops fragment_text_dim (visible_target n) Right ?d (map fst ps) = length mid"
      "mid = [] \<or> ft_visible ?d + visible_len (map fst mid) \<le> n" "post = [] \<or> n < ft_visible ?d + visible_len (map fst (mid @ [hd post]))"
      by blast
    ultimately show ?thesis using True d by (intro exI [of _ "p # mid"] exI [of _ post]) (auto simp: stop_at_Cons)
  next
    case False
    then have "\<not> past_end (visible_target n) Right ?d" by (auto simp: past_end_def visible_target_def)
    with False d show ?thesis by (intro exI [of _ "[]"] exI [of _ "p # ps"]) (auto simp: stop_at_Cons)
  qed
qed simp

lemma visible_stop:
  obtains mid post where "ps = mid @ post"
    "stop_at fragment_ops fragment_text_dim (visible_target n) Right \<lparr>ft_visible = v, ft_deleted = u\<rparr> (map fst ps) = length mid"
    "mid = [] \<or> v + visible_len (map fst mid) \<le> n" "post = [] \<or> n < v + visible_len (map fst (mid @ [hd post]))"
  using stop_visible [of ps n "\<lparr>ft_visible = v, ft_deleted = u\<rparr>", unfolded fragment_text_summary.select_convs] by blast

lemma item_ends_Cons:
  "item_ends fragment_ops dim d (f # fs) = d_add dim d (s_item fragment_ops f) # item_ends fragment_ops dim (d_add dim d (s_item fragment_ops f)) fs"
  by (simp add: item_ends_def)

lemma visible_ends: "e \<in> set (item_ends fragment_ops fragment_text_dim d fs) \<Longrightarrow> ft_visible d \<le> ft_visible e"
proof (induction fs arbitrary: d)
  case (Cons f fs)
  let ?d = "d_add fragment_text_dim d (s_item fragment_ops f)"
  have "ft_visible d \<le> ft_visible ?d" by (simp add: fragment_text_dim_def)
  with Cons.IH [of ?d] Cons.prems show ?case unfolding item_ends_Cons by fastforce
qed simp

lemma visible_rank: "ft_visible x \<le> ft_visible y \<Longrightarrow> rank (visible_target n y) \<le> rank (visible_target n x)"
  by (auto simp: visible_target_def ord_cmp_def)

lemma visible_mono: "mono_target (visible_target n) (item_ends fragment_ops fragment_text_dim d fs)"
  unfolding mono_target_def
proof (induction fs arbitrary: d)
  case (Cons f fs)
  then show ?case unfolding item_ends_Cons using visible_rank [OF visible_ends] by auto
qed simp

lemma leave_ok:
  assumes ed: "editing ts ps st pre post w qs"
  obtains st' pre' post' qs' y where "leave_fragment fragment_text_dim text_offset_of st = Some st'" "es_patch st' = es_patch st" "es_insertion_offset st' = es_insertion_offset st"
    "editing ts ps (st'\<lparr>es_start := str_len (vis pre')\<rparr>) pre' post' [] qs'" "vis pre' = vis pre @ w @ y" "vis qs' = vis qs @ y"
    "w = [] \<longrightarrow> y = []" "w \<noteq> [] \<longrightarrow> pre' = pre @ take 1 post"
proof (cases "w = []")
  case True
  note e = editingD [OF ed] reads_position [OF editingD(2) [OF ed]]
  have "leave_fragment fragment_text_dim text_offset_of st = Some st"
    using e(1,4,5,18) True by (simp add: leave_fragment_def text_offset_of_def)
  moreover have eq: "str_len (vis pre) = es_start st" using e(4) True by simp
  have "editing ts ps (st\<lparr>es_start := str_len (vis pre)\<rparr>) pre post [] qs" unfolding eq using ed True by simp
  ultimately show thesis by (intro that [of st pre post qs "[]"]) (simp_all add: True)
next
  case False
  note e = editingD [OF ed] reads_position [OF editingD(2) [OF ed]]
  from e(3) False obtain f z post' where post: "post = (f, w @ z) # post'" and f: "fr_visible f" by (auto simp: part_read_def)
  have w: "str_len w > 0" by (rule str_len_pos [OF False])
  have tx: "\<forall>p \<in> set (pre @ post). texted p" using e(1,5) by simp
  have pos: "ft_visible (cursor_start (es_old st)) = str_len (vis pre)" "cursor_item (es_old st) = Some (Some f)"
    "cursor_end fragment_text_dim (es_old st) = Some \<lparr>ft_visible = str_len (vis pre @ w @ z), ft_deleted = str_len (del pre)\<rparr>"
    using e(18-20) [OF tx] post f by simp_all
  show thesis
  proof (cases "z = []")
    case True
    with ed post have "editing ts ps st pre ((f, w) # post') w qs" by simp
    from editing_step [OF this False] obtain c where c: "old_next fragment_text_dim st = Some (st\<lparr>es_old := c\<rparr>)"
      "editing ts ps (st\<lparr>es_old := c\<rparr>) (pre @ [(f, w)]) post' [] qs" .
    have eq: "str_len (vis (pre @ [(f, w)])) = es_start st" using e(4) f by simp
    have "editing ts ps ((st\<lparr>es_old := c\<rparr>)\<lparr>es_start := str_len (vis (pre @ [(f, w)]))\<rparr>) (pre @ [(f, w)]) post' [] qs"
      unfolding eq using c(2) by simp
    moreover have "leave_fragment fragment_text_dim text_offset_of st = Some (st\<lparr>es_old := c\<rparr>)"
      using c(1) pos e(4) w True by (simp add: leave_fragment_def push_rest_def text_offset_of_def)
    ultimately show thesis by (intro that [of "st\<lparr>es_old := c\<rparr>" "pre @ [(f, w)]" post' qs "[]"]) (simp_all add: f post True False)
  next
    case z: False
    with ed post have ed': "editing ts ps st pre ((f, w @ z) # post') w qs" by simp
    have "texted (f, w @ z @ [])" using tx post by simp
    then have cut: "cut_fragment f (str_len (vis pre)) (es_start st) (str_len (vis pre @ w @ z)) = Some (part f w z)"
      by (rule cut_ok) (simp_all add: e(4))
    from editing_rest [OF ed' False z] obtain st' c where c: "push_piece (part f w z) True st = Some st'" "es_patch st' = es_patch st"
      "es_insertion_offset st' = es_insertion_offset st" "es_start st' = es_start st" "old_next fragment_text_dim st' = Some (st'\<lparr>es_old := c\<rparr>)"
      "editing ts ps (st'\<lparr>es_old := c, es_start := es_start st + str_len z\<rparr>) (pre @ [(f, w @ z)]) post' [] (qs @ [(part f w z, z)])" .
    have "leave_fragment fragment_text_dim text_offset_of st = Some (st'\<lparr>es_old := c\<rparr>)"
      using c(1,5) cut pos e(4) w z f by (simp add: leave_fragment_def push_rest_def text_offset_of_def)
    moreover have "es_start st + str_len z = str_len (vis (pre @ [(f, w @ z)]))" using e(4) f by simp
    ultimately show thesis using c(2,3,6)
      by (intro that [of "st'\<lparr>es_old := c\<rparr>" "pre @ [(f, w @ z)]" post' "qs @ [(part f w z, z)]" z]) (simp_all add: f post False add.assoc)
  qed
qed

text \<open>After \<open>skip_to\<close> the text before the edit is consumed up to a part of the current fragment.\<close>

definition within :: "rchar list \<Rightarrow> piece list \<Rightarrow> rchar list \<Rightarrow> bool" where
  "within k post w \<longleftrightarrow> k = [] \<or> (\<exists>f z post'. post = (f, w @ k @ z) # post' \<and> fr_visible f)"

lemma part_read_text: "part_read post w \<Longrightarrow> vis post = w @ drop (length w) (vis post)"
  by (auto simp: part_read_def)

lemma withinI:
  assumes "part_read post w" "drop (length w) (vis post) = k @ rest" "str_len (w @ k) \<le> str_len (vis (take 1 post))"
  shows "within k post w"
proof (cases post)
  case Nil
  with assms show ?thesis by (simp add: within_def)
next
  case (Cons p post')
  obtain f t where p: "p = (f, t)" by (cases p)
  show ?thesis
  proof (cases "fr_visible f")
    case True
    from part_read_text [OF assms(1)] assms(2) have "(w @ k) @ rest = t @ vis post'" using Cons p True by simp
    moreover have "str_len (w @ k) \<le> str_len t" using assms(3) Cons p True by simp
    ultimately obtain z where "t = (w @ k) @ z" by (rule split_by_len)
    with Cons p True show ?thesis by (simp add: within_def)
  next
    case False
    with assms(3) Cons p show ?thesis by (simp add: within_def)
  qed
qed

lemma skip_to_ok:
  assumes ed: "editing ts ps st pre post w qs" and k: "drop (length w) (vis post) = k @ rest"
  obtains st' pre' post' w' qs' k1 k2 where
    "skip_to fragment_text_dim text_offset_of (visible_target (str_len (vis pre @ w @ k))) Right (str_len (vis pre @ w @ k)) st = Some st'"
    "editing ts ps st' pre' post' w' qs'" "es_patch st' = es_patch st" "es_insertion_offset st' = es_insertion_offset st" "k = k1 @ k2" "vis pre' @ w' = vis pre @ w @ k1"
    "vis qs' = vis qs @ k1" "within k2 post' w'"
proof -
  note e = editingD [OF ed]
  have tx: "\<forall>p \<in> set (pre @ post). texted p" using e(1,5) by simp
  let ?first = "str_len (vis pre @ w @ k)"
  let ?until = "str_len (vis (pre @ take 1 post))"
  have end0: "cursor_end fragment_text_dim (es_old st) = Some \<lparr>ft_visible = ?until, ft_deleted = str_len (del (pre @ take 1 post))\<rparr>"
    by (rule reads_position(3) [OF e(2) tx])
  show thesis
  proof (cases "?until < ?first")
    case False
    then have "within k post w" using withinI [OF e(3) k] by simp
    moreover have "skip_to fragment_text_dim text_offset_of (visible_target ?first) Right ?first st = Some st"
      using False end0 by (simp add: skip_to_def text_offset_of_def)
    ultimately show thesis using that [of st pre post w qs "[]" k] ed by simp
  next
    case True
    from leave_ok [OF ed] obtain st1 pre1 post1 qs1 y where l: "leave_fragment fragment_text_dim text_offset_of st = Some st1"
      "es_patch st1 = es_patch st" "es_insertion_offset st1 = es_insertion_offset st"
      "editing ts ps (st1\<lparr>es_start := str_len (vis pre1)\<rparr>) pre1 post1 [] qs1" "vis pre1 = vis pre @ w @ y" "vis qs1 = vis qs @ y"
      "w = [] \<longrightarrow> y = []" "w \<noteq> [] \<longrightarrow> pre1 = pre @ take 1 post" .
    let ?st1 = "st1\<lparr>es_start := str_len (vis pre1)\<rparr>"
    note e1 = editingD [OF l(4)]
    have all: "vis pre @ w @ k @ rest = vis pre1 @ vis post1"
      using part_read_text [OF e(3)] k e(1) e1(1) by (metis append.assoc vis_del_simps(3))
    have "y @ vis post1 = k @ rest" using all l(5) by simp
    moreover have "str_len y \<le> str_len k"
      using l(5,7,8) True by (cases "w = []") auto
    ultimately obtain k' where k': "k = y @ k'" "vis post1 = k' @ rest" by (rule split_by_len)
    obtain mid post2 where m: "post1 = mid @ post2" and stop: "stop_at fragment_ops fragment_text_dim (visible_target ?first) Right
        \<lparr>ft_visible = str_len (vis pre1), ft_deleted = str_len (del pre1)\<rparr> (map fst post1) = length mid"
      and below: "mid = [] \<or> str_len (vis pre1) + visible_len (map fst mid) \<le> ?first"
      and above: "post2 = [] \<or> ?first < str_len (vis pre1) + visible_len (map fst (mid @ [hd post2]))"
      by (rule visible_stop)
    have tx1: "\<forall>p \<in> set (pre1 @ post1). texted p" using e1(1,5) by simp
    have start1: "c_position (es_old st1) = \<lparr>ft_visible = str_len (vis pre1), ft_deleted = str_len (del pre1)\<rparr>"
      using reads_position(1) [OF e1(2) tx1] by (simp add: cursor_start_def)
    have at1: "wf_tree fragment_ops (c_tree (es_old st1))" "height (c_tree (es_old st1)) < STACK_CAPACITY"
      "cursor_at fragment_ops fragment_text_dim (es_old st1) (length pre1)" "elems (c_tree (es_old st1)) = map fst (pre1 @ post1)"
      using e1(2) by (simp_all add: reads_def)
    have le: "str_len (vis pre1) \<le> ?first" using l(5) k'(1) by simp
    have ge: "is_ge (visible_target ?first (c_position (es_old st1)))"
      using le start1 by (auto simp: is_ge_def visible_target_def)
    have dropped: "drop (length pre1) (elems (c_tree (es_old st1))) = map fst post1" using at1(4) by simp
    from ftext.slice_correct [OF at1(1,2) _ ge visible_mono refl, of "length pre1" Right] at1(3) dropped stop start1 m
    obtain c t where c: "cursor_slice fragment_ops fragment_text_dim (visible_target ?first) Right (es_old st1) = Some (c, t)"
      "c_tree c = c_tree (es_old st1)" "cursor_at fragment_ops fragment_text_dim c (length (pre1 @ mid))" "wf_tree fragment_ops t"
      "elems t = map fst mid"
      by (auto simp: cursor_ready_def)
    have "editing ts ps ?st1 pre1 (mid @ post2) [] qs1" using l(4) m by simp
    from editing_slice [OF this c(4,5), of c] c(2,3) obtain st2 where st2: "append_slice t (?st1\<lparr>es_old := c\<rparr>) = Some st2"
      "es_patch st2 = es_patch st1" "es_insertion_offset st2 = es_insertion_offset st1" "es_old st2 = c"
      "editing ts ps (st2\<lparr>es_start := str_len (vis (pre1 @ mid))\<rparr>) (pre1 @ mid) post2 [] (qs1 @ mid)" by auto
    let ?st2 = "st2\<lparr>es_start := str_len (vis (pre1 @ mid))\<rparr>"
    have "append_slice t (st1\<lparr>es_old := c\<rparr>) = Some (st2\<lparr>es_start := es_start st1\<rparr>)"
      using st2(1) by (auto simp: append_slice_def bind_eq_Some_conv)
    then have skip: "skip_to fragment_text_dim text_offset_of (visible_target ?first) Right ?first st = Some ?st2"
      using True end0 l(1) c(1) reads_position(1) [OF editingD(2) [OF st2(5)]] editingD(1,5) [OF st2(5)] st2(4)
      by (simp add: skip_to_def text_offset_of_def)
    have lens: "visible_len (map fst mid) = str_len (vis mid)" "visible_len (map fst (mid @ [hd post2])) = str_len (vis (mid @ [hd post2]))" if "post2 \<noteq> []"
      using texted_lens(1) [of mid] texted_lens(1) [of "mid @ [hd post2]"] tx1 m that by auto
    have mids: "visible_len (map fst mid) = str_len (vis mid)" using texted_lens(1) [of mid] tx1 m by simp
    have "vis mid @ vis post2 = k' @ rest" using k'(2) m by simp
    moreover have "str_len (vis mid) \<le> str_len k'" using below mids l(5) k'(1) by auto
    ultimately obtain k2 where k2: "k' = vis mid @ k2" "vis post2 = k2 @ rest" by (rule split_by_len)
    have "within k2 post2 []"
    proof (rule withinI)
      show "part_read post2 []" by (simp add: part_read_def)
      show "drop (length []) (vis post2) = k2 @ rest" using k2(2) by simp
      show "str_len ([] @ k2) \<le> str_len (vis (take 1 post2))"
      proof (cases post2)
        case Nil
        then show ?thesis using k2(2) by simp
      next
        case (Cons p ps')
        then show ?thesis using above lens k'(1) k2(1) l(5) by simp
      qed
    qed
    then show thesis
      using that [OF skip st2(5), of "y @ vis mid" k2] st2(2,3) l(2,3,5,6) k'(1) k2(1) by simp
  qed
qed

lemma push_prefix_ok:
  assumes ed: "editing ts ps st pre post w qs" and k: "within k post w"
  obtains st' qs' where "push_prefix text_offset_of (str_len (vis pre @ w @ k)) st = Some st'" "editing ts ps st' pre post (w @ k) qs'"
    "es_patch st' = es_patch st" "es_insertion_offset st' = es_insertion_offset st" "vis qs' = vis qs @ k"
proof (cases "k = []")
  case True
  with editingD(4) [OF ed] have "push_prefix text_offset_of (str_len (vis pre @ w @ k)) st = Some st" by (simp add: push_prefix_def)
  with that [of st qs] ed True show thesis by simp
next
  case False
  note e = editingD [OF ed]
  from k False obtain f z post' where post: "post = (f, w @ k @ z) # post'" and f: "fr_visible f" by (auto simp: within_def)
  have tx: "\<forall>p \<in> set (pre @ post). texted p" using e(1,5) by simp
  have pos: "cursor_item (es_old st) = Some (Some f)" "ft_visible (cursor_start (es_old st)) = str_len (vis pre)"
    using reads_position(1,2) [OF e(2) tx] post by simp_all
  have ids: "ids_ok (map fst qs @ map fst post)" using e(10) by simp
  obtain l where l: "locator_between (fs_max_id (fb_summary (es_new st))) (fr_id f) = Some l"
    "\<And>g. fr_id g = l \<Longrightarrow> ids_ok (map fst qs @ g # map fst post)"
    by (rule between_ok [OF ids, of "fs_max_id (fb_summary (es_new st))" "fr_id f"]) (use builds_summary(3) [OF e(8)] post that in auto)
  have t: "texted (f, w @ k @ z)" using tx post by simp
  have cut: "cut_fragment f (str_len (vis pre)) (es_start st) (str_len (vis pre @ w @ k)) = Some (part f w k)"
    by (rule cut_ok [OF t]) (simp_all add: e(4))
  let ?g = "(part f w k)\<lparr>fr_id := l\<rparr>"
  have ed': "editing ts ps st pre ((f, w @ k @ z) # post') w qs" using ed post by simp
  have ids': "ids_ok (map fst qs @ ?g # f # map fst post')" using l(2) [of ?g] post by simp
  obtain st' where st': "push_piece ?g True st = Some st'" "es_patch st' = es_patch st" "es_insertion_offset st' = es_insertion_offset st"
    "es_slices st' = es_slices st"
    "editing ts ps (st'\<lparr>es_start := es_start st + str_len k, es_slices := es_slices st @ slices_of ts [(?g, k)]\<rparr>) pre ((f, w @ k @ z) # post') (w @ k)
      (qs @ [(?g, k)])"
    by (rule editing_part [OF ed' f False _ _ _ _ _ ids']) (use that in simp_all)
  have "\<not> touched ts (?g, k)" using e(7,1) post by (simp add: touched_def)
  then have ed2: "editing ts ps (st'\<lparr>es_start := es_start st + str_len k\<rparr>) pre ((f, w @ k @ z) # post') (w @ k) (qs @ [(?g, k)])"
    using st'(5) unfolding st'(4) [symmetric] by simp
  have "es_start st + str_len k = str_len (vis pre @ w @ k)" "0 < str_len k" using e(4) str_len_pos [OF False] by simp_all
  moreover then have "push_prefix text_offset_of (str_len (vis pre @ w @ k)) st = Some (st'\<lparr>es_start := str_len (vis pre @ w @ k)\<rparr>)"
    using pos l(1) cut st'(1) f by (simp add: push_prefix_def text_offset_of_def)
  ultimately show thesis
    using that [of "st'\<lparr>es_start := str_len (vis pre @ w @ k)\<rparr>" "qs @ [(?g, k)]"] st'(2,3) ed2 post f by (simp add: add.assoc)
qed

section \<open>Inserting\<close>

lemma chunk_end:
  assumes "valid_str (u @ v)" "v \<noteq> []" "4 \<le> n"
  obtains x y where "v = x @ y" "x \<noteq> []" "str_len x \<le> n"
    "(if min (length (encode (u @ v))) (str_len u + n) = length (encode (u @ v)) then min (length (encode (u @ v))) (str_len u + n)
      else floor_boundary (encode (u @ v)) (min (length (encode (u @ v))) (str_len u + n))) = str_len (u @ x)"
proof (cases "str_len v \<le> n")
  case True
  with that [of v "[]"] assms(2) show thesis by simp
next
  case False
  let ?j = "floor_boundary (encode (u @ v)) (str_len u + n)"
  have m: "min (length (encode (u @ v))) (str_len u + n) = str_len u + n" "length (encode (u @ v)) \<noteq> str_len u + n" using False by simp_all
  have bd: "str_char_boundary (encode (u @ v)) i \<longleftrightarrow> boundary (u @ v) i" for i by (rule str_char_boundary_correct [OF assms(1)])
  from boundary_near [of "str_len u + n" "u @ v"] False obtain j where "j \<le> str_len u + n" "boundary (u @ v) j" "str_len u + n \<le> j + 3" by auto
  then have big: "str_len u < ?j" using floor_boundary_spec(2) [of "encode (u @ v)" j "str_len u + n"] bd assms(3) by fastforce
  have "boundary (u @ v) ?j" using floor_boundary_spec(3) bd by blast
  then obtain a b where ab: "u @ v = a @ b" "?j = str_len a" unfolding boundary_def by blast
  with big obtain x where x: "a = u @ x" "v = x @ b" using split_by_len [OF ab(1)] by auto
  have "?j \<le> str_len u + n" by (rule floor_boundary_spec(1))
  with that [OF x(2)] x ab big m show thesis by (cases "x = []") auto
qed

text \<open>The pieces of new text: visible fragments of the new insertion, one after the other.\<close>

definition inserted :: "lamport \<Rightarrow> nat \<Rightarrow> rchar list \<Rightarrow> piece list \<Rightarrow> bool" where
  "inserted ts off t ns \<longleftrightarrow> (\<forall>p \<in> set ns. texted p \<and> new_piece ts p) \<and> concat (map snd ns) = t \<and>
     cells_all ns = map (\<lambda>(i, b). (ts, i, b)) (enumerate off (encode t))"

lemma inserted_vis: "inserted ts off t ns \<Longrightarrow> vis ns = t" "inserted ts off t ns \<Longrightarrow> del ns = []"
proof -
  have "\<forall>p \<in> set ns. fr_visible (fst p) \<Longrightarrow> vis ns = concat (map snd ns)" "\<forall>p \<in> set ns. fr_visible (fst p) \<Longrightarrow> del ns = []" for ns
    by (induction ns) auto
  then show "inserted ts off t ns \<Longrightarrow> vis ns = t" "inserted ts off t ns \<Longrightarrow> del ns = []" by (auto simp: inserted_def new_piece_def)
qed

lemma insertion_loop_ok:
  assumes "builds (es_new st) fs" "ids_ok (fs @ gs)" "hi = (case gs of [] \<Rightarrow> locator_max | g # _ \<Rightarrow> fr_id g)"
    and "valid_str (u @ v)" "4 \<le> n" "n < 2 ^ 32" "unat (es_insertion_offset st) + str_len v < 2 ^ 32"
  shows "\<exists>ns st'. insertion_loop n (encode (u @ v)) ts hi ets (str_len u) st = Some st' \<and>
    st' = st\<lparr>es_slices := es_slices st @ map (\<lambda>q. piece_slice ets (fst q)) ns, es_insertions := es_insertions st @ map (\<lambda>q. insert_new (fst q)) ns, es_new := es_new st',
      es_insertion_offset := es_insertion_offset st'\<rparr> \<and>
    builds (es_new st') (fs @ map fst ns) \<and> ids_ok (fs @ map fst ns @ gs) \<and> inserted ts (unat (es_insertion_offset st)) v ns \<and>
    unat (es_insertion_offset st') = unat (es_insertion_offset st) + str_len v"
  using assms
proof (induction "length v" arbitrary: u v st fs rule: less_induct)
  case less
  show ?case
  proof (cases "v = []")
    case True
    with less.prems show ?thesis
      by (intro exI [of _ "[]"] exI [of _ st]) (simp add: insertion_loop.simps [of n "encode u"] inserted_def)
  next
    case False
    obtain x y where xy: "v = x @ y" "x \<noteq> []" "str_len x \<le> n" and ce:
      "(if min (length (encode (u @ v))) (str_len u + n) = length (encode (u @ v)) then min (length (encode (u @ v))) (str_len u + n)
        else floor_boundary (encode (u @ v)) (min (length (encode (u @ v))) (str_len u + n))) = str_len (u @ x)"
      by (rule chunk_end [OF less.prems(4) False less.prems(5)])
    obtain l where l: "locator_between (fs_max_id (fb_summary (es_new st))) hi = Some l" "\<And>f. fr_id f = l \<Longrightarrow> ids_ok (fs @ f # gs)"
      using between_ok [OF less.prems(2) builds_summary(3) [OF less.prems(1)] less.prems(3)] by blast
    let ?o = "es_insertion_offset st"
    let ?f = "\<lparr>fr_id = l, fr_timestamp = ts, insertion_offset = ?o, fr_len = of_nat (str_len x), fr_visible = True, fr_deletions = [],
      fr_max_undos = version_new\<rparr>"
    let ?off = "?o + of_nat (str_len x)"
    let ?sl = "InsertionSlice ets ts ?o ?off"
    let ?st = "st\<lparr>es_slices := es_slices st @ [?sl], es_insertions := es_insertions st @ [insert_new ?f], es_new := fb_push (es_new st) ?f,
      es_insertion_offset := ?off\<rparr>"
    have small: "str_len x < 2 ^ 32" "unat ?o + str_len x < 2 ^ 32" "unat ?o + str_len x + str_len y < 2 ^ 32"
      using less.prems(6,7) xy by auto
    have add: "checked_add ?o (of_nat (str_len x)) = Some ?off" "unat ?off = unat ?o + str_len x" "unat (of_nat (str_len x) :: u32) = str_len x"
      using small by (simp_all add: checked_add_def unat_of_nat unat_word_ariths)
    have x: "0 < str_len x" by (rule str_len_pos [OF xy(2)])
    have step: "insertion_loop n (encode (u @ v)) ts hi ets (str_len u) st = insertion_loop n (encode ((u @ x) @ y)) ts hi ets (str_len (u @ x)) ?st"
      using l(1) add(1) x xy(1,2)
      by (subst insertion_loop.simps, unfold Let_def ce) (simp add: slice_from_fragment_def del: encode_simps)
    have texted: "texted (?f, x)" using small add(3) xy(2) by (simp add: texted_def)
    have cells: "cells_of (?f, x) = map (\<lambda>(i, b). (ts, i, b)) (enumerate (unat ?o) (encode x))" by (simp add: cells_of_def)
    have prems: "builds (es_new ?st) (fs @ [?f])" "ids_ok ((fs @ [?f]) @ gs)" "valid_str ((u @ x) @ y)"
      "unat (es_insertion_offset ?st) + str_len y < 2 ^ 32" "length y < length v"
      using builds_push [OF less.prems(1)] l(2) [of ?f] less.prems(4) xy small add by simp_all
    from less.hyps [OF prems(5,1,2) less.prems(3) prems(3) less.prems(5,6) prems(4)] obtain ns st' where
      IH: "insertion_loop n (encode ((u @ x) @ y)) ts hi ets (str_len (u @ x)) ?st = Some st'"
      "st' = ?st\<lparr>es_slices := es_slices ?st @ map (\<lambda>q. piece_slice ets (fst q)) ns, es_insertions := es_insertions ?st @ map (\<lambda>q. insert_new (fst q)) ns, es_new := es_new st',
        es_insertion_offset := es_insertion_offset st'\<rparr>"
      "builds (es_new st') ((fs @ [?f]) @ map fst ns)" "ids_ok ((fs @ [?f]) @ map fst ns @ gs)" "inserted ts (unat (es_insertion_offset ?st)) y ns"
      "unat (es_insertion_offset st') = unat (es_insertion_offset ?st) + str_len y" by blast
    have "inserted ts (unat ?o) v ((?f, x) # ns)"
      using IH(5) texted cells add(2) by (simp add: inserted_def new_piece_def xy(1) enumerate_append_eq)
    moreover have "st' = st\<lparr>es_slices := es_slices st @ map (\<lambda>q. piece_slice ets (fst q)) ((?f, x) # ns), es_insertions := es_insertions st @ map (\<lambda>q. insert_new (fst q)) ((?f, x) # ns), es_new := es_new st',
      es_insertion_offset := es_insertion_offset st'\<rparr>" by (subst IH(2)) (simp add: piece_slice_def)
    ultimately show ?thesis using step IH(1,3,4,6) add(2) xy(1)
      by (intro exI [of _ "(?f, x) # ns"] exI [of _ st']) simp
  qed
qed

lemma next_id_ok:
  assumes "editing ts ps st pre post w qs"
  shows "next_fragment_id st = Some (case map fst post of [] \<Rightarrow> locator_max | g # _ \<Rightarrow> fr_id g)"
proof -
  note e = editingD [OF assms]
  have "\<forall>p \<in> set (pre @ post). texted p" using e(1,5) by simp
  from reads_position(2) [OF e(2) this] show ?thesis by (simp add: next_fragment_id_def split: list.splits)
qed

lemma new_visible_ok: "editing ts ps st pre post w qs \<Longrightarrow> new_visible_len st = str_len (vis qs)"
  using builds_summary(1) [OF editingD(8)] texted_lens(1) [OF editingD(6)] by (fastforce simp: new_visible_len_def)

lemma editing_insertion:
  assumes ed: "editing ts ps st pre post w qs" and n: "4 \<le> n" "n < 2 ^ 32" and t: "valid_str t"
    and room: "unat (es_insertion_offset st) + str_len t < 2 ^ 32"
    and hi: "hi = (case map fst post of [] \<Rightarrow> locator_max | g # _ \<Rightarrow> fr_id g)"
  obtains st' ns where "push_fragments_for_insertion n (encode t) ts hi ts st = Some st'" "editing ts ps st' pre post w (qs @ ns)"
    "es_patch st' = es_patch st" "es_start st' = es_start st" "vis ns = t" "unat (es_insertion_offset st') = unat (es_insertion_offset st) + str_len t"
proof -
  note e = editingD [OF ed]
  have ids: "ids_ok (map fst qs @ map fst post)" and v: "valid_str ([] @ t)" using e(10) t by simp_all
  from insertion_loop_ok [OF e(8) ids hi v n room, of ts ts] obtain ns st1 where l:
    "insertion_loop n (encode t) ts hi ts 0 st = Some st1"
    "st1 = st\<lparr>es_slices := es_slices st @ map (\<lambda>q. piece_slice ts (fst q)) ns, es_insertions := es_insertions st @ map (\<lambda>q. insert_new (fst q)) ns, es_new := es_new st1,
      es_insertion_offset := es_insertion_offset st1\<rparr>"
    "builds (es_new st1) (map fst qs @ map fst ns)" "ids_ok (map fst qs @ map fst ns @ map fst post)" "inserted ts (unat (es_insertion_offset st)) t ns"
    "unat (es_insertion_offset st1) = unat (es_insertion_offset st) + str_len t" by auto
  have fields: "es_insertions st1 = es_insertions st @ map (\<lambda>q. insert_new (fst q)) ns" "es_old st1 = es_old st" "es_ropes st1 = es_ropes st"
    "es_patch st1 = es_patch st" "es_start st1 = es_start st" "es_slices st1 = es_slices st @ map (\<lambda>q. piece_slice ts (fst q)) ns"
    by (subst l(2), simp)+
  from rb_push_str_ok [OF e(9) t] obtain b where b: "rb_push_str (es_ropes st) (encode t) = Some b"
    "rb_at b (vis pre @ w) (drop (length w) (vis post)) (del pre) (del post) (vis qs @ t) (del qs)" .
  have new: "\<forall>p \<in> set ns. texted p" "\<forall>p \<in> set ns. fr_timestamp (fst p) = ts" "cells_all ns = map (\<lambda>(i, b). (ts, i, b)) (enumerate (unat (es_insertion_offset st)) (encode t))"
    using l(5) by (auto simp: inserted_def new_piece_def)
  then have cells: "old_cells ts ns = []" "new_cells ts ns = cells_all ns"
    by (auto simp: old_cells_def new_cells_def filter_empty_conv cells_all_def cells_of_def intro!: filter_True)
  let ?st = "st1\<lparr>es_ropes := b\<rparr>"
  have "editing ts ps ?st pre post w (qs @ ns)"
  proof (rule editingI)
    show "reads ?st pre post" using e(2) fields by (simp add: reads_def)
    show "rb_at (es_ropes ?st) (vis pre @ w) (drop (length w) (vis post)) (del pre) (del post) (vis (qs @ ns)) (del (qs @ ns))"
      using b(2) inserted_vis [OF l(5)] by simp
    show "\<exists>s. new_cells ts (qs @ ns) = map (\<lambda>(i, b). (ts, i, b)) (enumerate 0 s) \<and> unat (es_insertion_offset ?st) = length s"
    proof -
      from e(12) obtain s where "new_cells ts qs = map (\<lambda>(i, b). (ts, i, b)) (enumerate 0 s)" "unat (es_insertion_offset st) = length s" by blast
      then show ?thesis using cells(2) new(3) l(6) by (intro exI [of _ "s @ encode t"]) (simp add: enumerate_append_eq)
    qed
    show "recorded ps (es_insertions ?st) (qs @ ns)"
      using e(13) fields(1) by (auto simp: recorded_def intro: list_emb_append_mono)
    show "key_of ` fst ` set pre \<subseteq> key_of ` fst ` set (qs @ ns)" using e(14) by (simp add: image_Un) blast
    show "key_of (fst (hd post)) \<in> key_of ` fst ` set (qs @ ns)" if "w \<noteq> []" using e(15) [OF that] by (simp add: image_Un)
    have "filter (touched ts) ns = ns" using new(2) by (auto simp: touched_def intro!: filter_True)
    show "origins ts ps (qs @ ns)" using e(17) l(5) by (auto simp: inserted_def origins_def)
    from \<open>filter (touched ts) ns = ns\<close> show "es_slices ?st = slices_of ts (qs @ ns)" using e(16) fields(6) by (simp add: slices_of_def)
  qed (use e new(1) l(3,4) fields cells(1) in auto)
  moreover have "push_fragments_for_insertion n (encode t) ts hi ts st = Some ?st"
    using l(1) b(1) fields(3) by (simp add: push_fragments_for_insertion_def)
  ultimately show thesis using that [of ?st ns] fields l(6) inserted_vis(1) [OF l(5)] by simp
qed

text \<open>The patch leads from the text consumed to the text built.\<close>

definition patched :: "fragment_text_summary edit_state \<Rightarrow> rchar list \<Rightarrow> rchar list \<Rightarrow> bool" where
  "patched st s t \<longleftrightarrow> patch_rel 0 0 (es_patch st) (encode s) (encode t) \<and> separated (es_patch st)"

lemma insert_local_ok:
  assumes ed: "editing ts ps st pre post w qs" and pa: "patched st (vis pre @ w) (vis qs)" and n: "4 \<le> n" "n < 2 ^ 32" and t: "valid_str t"
    and room: "unat (es_insertion_offset st) + str_len t < 2 ^ 32"
  obtains st' qs' where "insert_local n (encode t) ts st = Some st'" "editing ts ps st' pre post w qs'" "vis qs' = vis qs @ t"
    "patched st' (vis pre @ w) (vis qs')" "unat (es_insertion_offset st') = unat (es_insertion_offset st) + str_len t"
proof (cases "t = []")
  case True
  then show thesis using that [of st qs] ed pa by (simp add: insert_local_def)
next
  case False
  have ne: "encode t \<noteq> []"
  proof
    assume "encode t = []"
    then have "length (encode t) = length ([] :: u8 list)" by (rule arg_cong)
    with False show False by simp
  qed
  from editing_insertion [OF ed n t room refl] obtain st1 ns where st1:
    "push_fragments_for_insertion n (encode t) ts (case map fst post of [] \<Rightarrow> locator_max | g # _ \<Rightarrow> fr_id g) ts st = Some st1"
    "editing ts ps st1 pre post w (qs @ ns)" "es_patch st1 = es_patch st" "es_start st1 = es_start st" "vis ns = t"
    "unat (es_insertion_offset st1) = unat (es_insertion_offset st) + str_len t" .
  let ?e = "\<lparr>old_start = es_start st1, old_end = es_start st1, new_start = new_visible_len st, new_end = new_visible_len st + length (encode t)\<rparr>"
  have "es_start st1 = length (encode (vis pre @ w))" "new_visible_len st = length (encode (vis qs))"
    using editingD(4) [OF st1(2)] new_visible_ok [OF ed] by simp_all
  then have "patched (st1\<lparr>es_patch := patch_push (es_patch st1) ?e\<rparr>) (vis pre @ w) (vis (qs @ ns))"
    using pa patch_push_correct [of "es_patch st" "encode (vis pre @ w)" "encode (vis qs)" ?e "[]" "encode t"] st1(3,5)
    by (simp add: patched_def)
  moreover have "insert_local n (encode t) ts st = Some (st1\<lparr>es_patch := patch_push (es_patch st1) ?e\<rparr>)"
    using st1(1) next_id_ok [OF ed] ne by (simp add: insert_local_def Let_def del: encode_simps)
  ultimately show thesis using that [of "st1\<lparr>es_patch := patch_push (es_patch st1) ?e\<rparr>" "qs @ ns"] st1(2,5,6) by simp
qed

section \<open>Deleting\<close>

lemma delete_part:
  assumes ed: "editing ts ps st pre ((f, w @ x @ z) # post) w qs" and f: "fr_visible f" and x: "x \<noteq> []"
    and pa: "patched st (vis pre @ w) (vis qs)"
  obtains g st' where "local_intersection ts f (str_len (vis pre @ w @ x)) st = Some g"
    "push_local_intersection ts f g (str_len (vis pre @ w @ x)) st = Some st'"
    "editing ts ps st' pre ((f, w @ x @ z) # post) (w @ x) (qs @ [(g, x)])" "\<not> fr_visible g" "patched st' (vis pre @ w @ x) (vis qs)"
    "es_insertion_offset st' = es_insertion_offset st"
proof -
  note e = editingD [OF ed]
  let ?until = "str_len (vis pre @ w @ x)"
  have tx: "\<forall>p \<in> set (pre @ (f, w @ x @ z) # post). texted p" using e(1,5) by simp
  then have t: "texted (f, w @ x @ z)" by simp
  have pos: "ft_visible (cursor_start (es_old st)) = str_len (vis pre)" using reads_position(1) [OF e(2) tx] by simp
  have ids: "ids_ok (map fst qs @ f # map fst post)" using e(10) by simp
  obtain l where l: "locator_between (fs_max_id (fb_summary (es_new st))) (fr_id f) = Some l"
    "\<And>g. fr_id g = l \<Longrightarrow> ids_ok (map fst qs @ g # f # map fst post)"
    by (rule between_ok [OF ids, of "fs_max_id (fb_summary (es_new st))" "fr_id f"]) (use builds_summary(3) [OF e(8)] that in auto)
  have cut: "cut_fragment f (str_len (vis pre)) (es_start st) ?until = Some (part f w x)"
    by (rule cut_ok [OF t]) (simp_all add: e(4))
  let ?g = "(part f w x)\<lparr>fr_id := l, fr_deletions := fr_deletions f @ [ts], fr_visible := False\<rparr>"
  have isec: "local_intersection ts f ?until st = Some ?g" using f pos cut l(1) by (simp add: local_intersection_def)
  note words = part_words [OF t]
  have sl: "checked_add (insertion_offset ?g) (fr_len ?g) = Some (insertion_offset ?g + fr_len ?g)"
    using words by (simp add: checked_add_def)
  let ?e = "\<lparr>old_start = es_start st, old_end = ?until, new_start = new_visible_len st, new_end = new_visible_len st\<rparr>"
  let ?st0 = "st\<lparr>es_patch := patch_push (es_patch st) ?e\<rparr>"
  have ed0: "editing ts ps ?st0 pre ((f, w @ x @ z) # post) w qs" using ed by simp
  obtain st1 where st1: "push_piece ?g True ?st0 = Some st1" "es_patch st1 = es_patch ?st0" "es_start st1 = es_start ?st0"
    "es_insertion_offset st1 = es_insertion_offset ?st0" "es_slices st1 = es_slices ?st0"
    "editing ts ps (st1\<lparr>es_start := es_start ?st0 + str_len x, es_slices := es_slices ?st0 @ slices_of ts [(?g, x)]\<rparr>) pre ((f, w @ x @ z) # post)
      (w @ x) (qs @ [(?g, x)])"
    by (rule editing_part [OF ed0 f x _ _ _ _ _ l(2) [of ?g]]) (use that f in simp_all)
  let ?st1 = "st1\<lparr>es_start := ?until, es_slices := es_slices st @ [piece_slice ts ?g]\<rparr>"
  have touch: "slices_of ts [(?g, x)] = [piece_slice ts ?g]" by (simp add: touched_def)
  have "fr_len ?g > 0" using texted_positive [OF part_texted [OF t x]] by simp
  moreover have "push_piece ?g True (?st0\<lparr>es_slices := es_slices st @ [piece_slice ts ?g]\<rparr>) = Some (st1\<lparr>es_slices := es_slices st @ [piece_slice ts ?g]\<rparr>)"
    using st1(1) by (auto simp: push_piece_def bind_eq_Some_conv)
  ultimately have push: "push_local_intersection ts f ?g ?until st = Some ?st1"
    using sl f by (simp add: push_local_intersection_def slice_from_fragment_def piece_slice_def Let_def)
  have "es_start ?st0 + str_len x = ?until" using e(4) by simp
  moreover have "patched ?st1 (vis pre @ w @ x) (vis qs)"
    using pa patch_push_correct [of "es_patch st" "encode (vis pre @ w)" "encode (vis qs)" ?e "encode x" "[]"] e(4) new_visible_ok [OF ed] st1(2)
    by (simp add: patched_def)
  ultimately show thesis using that [OF isec push] st1(4,6) touch by (simp add: add.assoc)
qed

lemma empty_intersection:
  assumes ed: "editing ts ps st pre ((f, w) # post) w qs" and f: "fr_visible f"
  obtains g where "local_intersection ts f (es_start st) st = Some g" "fr_len g = 0"
proof -
  note e = editingD [OF ed]
  have tx: "\<forall>p \<in> set (pre @ (f, w) # post). texted p" using e(1,5) by simp
  then have t: "texted (f, w @ [] @ [])" by simp
  have pos: "ft_visible (cursor_start (es_old st)) = str_len (vis pre)" using reads_position(1) [OF e(2) tx] by simp
  have cut: "cut_fragment f (str_len (vis pre)) (es_start st) (es_start st) = Some (part f w [])" by (rule cut_ok [OF t]) (simp_all add: e(4))
  obtain l where "locator_between (fs_max_id (fb_summary (es_new st))) (fr_id f) = Some l"
    using between_loop_greater [of "loc_ids (fs_max_id (fb_summary (es_new st)))" "loc_ids (fr_id f)"] by (auto simp: locator_between_def)
  with that [of "(part f w [])\<lparr>fr_id := l, fr_deletions := fr_deletions f @ [ts], fr_visible := False\<rparr>"] cut pos f show thesis
    by (simp add: local_intersection_def part_def)
qed

lemma delete_step_ok:
  assumes ed: "editing ts ps st pre post w qs" and r: "drop (length w) (vis post) = r @ rest" "r \<noteq> []" and pa: "patched st (vis pre @ w) (vis qs)"
  obtains st' pre' post' w' qs' r1 r2 where "delete_local_step ts (str_len (vis pre @ w @ r)) st = Some st'" "editing ts ps st' pre' post' w' qs'"
    "r = r1 @ r2" "vis pre' @ w' = vis pre @ w @ r1" "vis qs' = vis qs" "patched st' (vis pre' @ w') (vis qs)" "r2 = [] \<or> length post' < length post"
    "es_insertion_offset st' = es_insertion_offset st"
proof -
  note e = editingD [OF ed]
  have tx: "\<forall>p \<in> set (pre @ post). texted p" using e(1,5) by simp
  note pos = reads_position [OF e(2) tx]
  let ?until = "str_len (vis pre @ w @ r)"
  obtain f t post1 where post: "post = (f, t) # post1" using r by (cases post) auto
  show thesis
  proof (cases "fr_visible f")
    case False
    then have w: "w = []" using e(3) post by (auto simp: part_read_def)
    obtain st' c where st': "push_piece f False st = Some st'" "es_patch st' = es_patch st" "es_start st' = es_start st"
      "old_next fragment_text_dim st' = Some (st'\<lparr>es_old := c\<rparr>)" "editing ts ps (st'\<lparr>es_old := c\<rparr>) (pre @ [(f, t)]) post1 [] (qs @ [(f, t)])"
      by (rule editing_invisible [OF ed [unfolded post w] False])
    have "fr_len f > 0" using tx post texted_positive [of f t] by simp
    have end1: "str_len (vis pre) = es_start st'" using e(4) w st'(3) by simp
    have "push_local_intersection ts f f (es_start st') st = Some st'"
      using \<open>fr_len f > 0\<close> st'(1) False by (simp add: push_local_intersection_def)
    then have "delete_local_step ts ?until st = Some (st'\<lparr>es_old := c\<rparr>)"
      using pos(2,3) post False w st'(4) end1 r(2) by (simp add: delete_local_step_def local_intersection_def min_def Let_def)
    moreover have "es_insertion_offset st' = es_insertion_offset st" using st'(1) by (auto simp: push_piece_def bind_eq_Some_conv)
    ultimately show thesis
      using that [of "st'\<lparr>es_old := c\<rparr>" "pre @ [(f, t)]" post1 "[]" "qs @ [(f, t)]" "[]" r] st'(2,5) False w post pa by (simp add: patched_def)
  next
    case True
    obtain u where u: "t = w @ u" using e(3) post by (auto simp: part_read_def)
    have fend: "cursor_end fragment_text_dim (es_old st) = Some \<lparr>ft_visible = str_len (vis pre @ w @ u), ft_deleted = str_len (del pre)\<rparr>"
      "cursor_item (es_old st) = Some (Some f)" using pos(2,3) post u True by simp_all
    have ur: "u @ vis post1 = r @ rest" using r(1) post u True by simp
    consider "u = []" | z where "u \<noteq> []" "r = u @ z" | z where "u = r @ z" "z \<noteq> []"
      using split_by_len [OF ur] split_by_len [OF ur [symmetric]] by (metis append_Nil2 linorder_le_cases)
    then show thesis
    proof cases
      case 1
      then have w: "w \<noteq> []" and t: "t = w" using u tx post by (auto simp: texted_def)
      from editing_step [OF ed [unfolded post t] w] obtain c where c: "old_next fragment_text_dim st = Some (st\<lparr>es_old := c\<rparr>)"
        "editing ts ps (st\<lparr>es_old := c\<rparr>) (pre @ [(f, w)]) post1 [] qs" .
      obtain g where g: "local_intersection ts f (es_start st) st = Some g" "fr_len g = 0"
        by (rule empty_intersection [OF ed [unfolded post t] True])
      have "delete_local_step ts ?until st = Some (st\<lparr>es_old := c\<rparr>)"
        using fend 1 g c(1) e(4) by (simp add: delete_local_step_def push_local_intersection_def min_def Let_def)
      then show thesis using that [of "st\<lparr>es_old := c\<rparr>" "pre @ [(f, w)]" post1 "[]" qs "[]" r] c(2) True post pa by (simp add: patched_def)
    next
      case (2 z)
      have ed': "editing ts ps st pre ((f, w @ u @ []) # post1) w qs" using ed post u by simp
      obtain g st1 where g: "local_intersection ts f (str_len (vis pre @ w @ u)) st = Some g"
        "push_local_intersection ts f g (str_len (vis pre @ w @ u)) st = Some st1"
        "editing ts ps st1 pre ((f, w @ u @ []) # post1) (w @ u) (qs @ [(g, u)])" "\<not> fr_visible g" "patched st1 (vis pre @ w @ u) (vis qs)"
        "es_insertion_offset st1 = es_insertion_offset st"
        by (rule delete_part [OF ed' True 2(1) pa])
      have "editing ts ps st1 pre ((f, w @ u) # post1) (w @ u) (qs @ [(g, u)])" "w @ u \<noteq> []" using g(3) 2(1) by simp_all
      from editing_step [OF this] obtain c where c: "old_next fragment_text_dim st1 = Some (st1\<lparr>es_old := c\<rparr>)"
        "editing ts ps (st1\<lparr>es_old := c\<rparr>) (pre @ [(f, w @ u)]) post1 [] (qs @ [(g, u)])" .
      have "delete_local_step ts ?until st = Some (st1\<lparr>es_old := c\<rparr>)"
        using fend g(1,2) c(1) 2(2) by (simp add: delete_local_step_def min_def Let_def)
      then show thesis
        using that [of "st1\<lparr>es_old := c\<rparr>" "pre @ [(f, w @ u)]" post1 "[]" "qs @ [(g, u)]" u z] c(2) 2(2) True post g(4-6) by (simp add: patched_def)
    next
      case (3 z)
      have ed': "editing ts ps st pre ((f, w @ r @ z) # post1) w qs" using ed post u 3(1) by simp
      obtain g st1 where g: "local_intersection ts f ?until st = Some g" "push_local_intersection ts f g ?until st = Some st1"
        "editing ts ps st1 pre ((f, w @ r @ z) # post1) (w @ r) (qs @ [(g, r)])" "\<not> fr_visible g" "patched st1 (vis pre @ w @ r) (vis qs)"
        "es_insertion_offset st1 = es_insertion_offset st"
        by (rule delete_part [OF ed' True r(2) pa])
      have "delete_local_step ts ?until st = Some st1"
        using fend g(1,2) 3 str_len_pos [OF 3(2)] by (simp add: delete_local_step_def min_def Let_def)
      then show thesis using that [of st1 pre "(f, w @ r @ z) # post1" "w @ r" "qs @ [(g, r)]" r "[]"] g(3-6) by simp
    qed
  qed
qed

lemma delete_loop_ok:
  assumes "editing ts ps st pre post w qs" "drop (length w) (vis post) = r @ rest" "patched st (vis pre @ w) (vis qs)"
    and "length post < fuel"
  obtains st' pre' post' w' qs' where "delete_local_loop fuel ts (str_len (vis pre @ w @ r)) st = Some st'" "editing ts ps st' pre' post' w' qs'"
    "vis pre' @ w' = vis pre @ w @ r" "vis qs' = vis qs" "patched st' (vis pre' @ w') (vis qs)" "es_insertion_offset st' = es_insertion_offset st"
  using assms
proof (induction fuel arbitrary: st pre post w qs r thesis)
  case (Suc fuel)
  have start: "es_start st = str_len (vis pre @ w)" by (rule editingD(4) [OF Suc.prems(2)])
  show thesis
  proof (cases "r = []")
    case True
    with start Suc.prems show thesis by simp
  next
    case False
    obtain st1 pre1 post1 w1 qs1 r1 r2 where s: "delete_local_step ts (str_len (vis pre @ w @ r)) st = Some st1" "editing ts ps st1 pre1 post1 w1 qs1"
      "r = r1 @ r2" "vis pre1 @ w1 = vis pre @ w @ r1" "vis qs1 = vis qs" "patched st1 (vis pre1 @ w1) (vis qs)" "r2 = [] \<or> length post1 < length post"
      "es_insertion_offset st1 = es_insertion_offset st"
      by (rule delete_step_ok [OF Suc.prems(2,3) False Suc.prems(4)])
    have loop: "delete_local_loop (Suc fuel) ts (str_len (vis pre @ w @ r)) st = delete_local_loop fuel ts (str_len (vis pre @ w @ r)) st1"
      using s(1) start str_len_pos [OF False] by simp
    show thesis
    proof (cases "r2 = []")
      case True
      then have "es_start st1 = str_len (vis pre @ w @ r)" using editingD(4) [OF s(2)] s(3,4) by (metis append_Nil2)
      then have "delete_local_loop fuel ts (str_len (vis pre @ w @ r)) st1 = Some st1" by (cases fuel) simp_all
      with Suc.prems(1) loop s True show thesis by simp
    next
      case False
      have "vis ps = vis pre @ w @ r @ rest" "vis ps = vis pre1 @ w1 @ drop (length w1) (vis post1)"
        using editingD(1,3) [OF Suc.prems(2)] editingD(1,3) [OF s(2)] part_read_text Suc.prems(3) by (metis append.assoc vis_del_simps(3))+
      then have rest: "drop (length w1) (vis post1) = r2 @ rest" using s(3,4) by (metis append.assoc same_append_eq)
      have eq: "vis pre1 @ w1 @ r2 = vis pre @ w @ r" using s(3,4) by (metis append.assoc)
      have "length post1 < fuel" using s(7) False Suc.prems(5) by simp
      from Suc.IH [OF _ s(2) rest _ this] s(5,6) obtain st' pre' post' w' qs' where
        "delete_local_loop fuel ts (str_len (vis pre1 @ w1 @ r2)) st1 = Some st'" "editing ts ps st' pre' post' w' qs'"
        "vis pre' @ w' = vis pre1 @ w1 @ r2" "vis qs' = vis qs" "patched st' (vis pre' @ w') (vis qs)" "es_insertion_offset st' = es_insertion_offset st1"
        by metis
      with Suc.prems(1) loop s(8) show thesis unfolding eq by metis
    qed
  qed
qed simp

section \<open>All edits\<close>

text \<open>A sequence of edits as a script: text kept, text removed, text put in its place, and the bytes given for it, which may have other line endings.\<close>

type_synonym script = "(rchar list \<times> rchar list \<times> rchar list \<times> u8 list) list"

fun edits_of :: "nat \<Rightarrow> script \<Rightarrow> ((nat \<times> nat) \<times> u8 list) list" where
  "edits_of n [] = []"
| "edits_of n ((k, r, t, s) # es) = ((n + str_len k, n + str_len k + str_len r), s) # edits_of (n + str_len k + str_len r) es"

fun text_before :: "script \<Rightarrow> rchar list \<Rightarrow> rchar list" where
  "text_before [] rest = rest"
| "text_before ((k, r, t, s) # es) rest = k @ r @ text_before es rest"

fun text_after :: "script \<Rightarrow> rchar list \<Rightarrow> rchar list" where
  "text_after [] rest = rest"
| "text_after ((k, r, t, s) # es) rest = k @ t @ text_after es rest"

definition inserted_len :: "script \<Rightarrow> nat" where
  "inserted_len es = sum_list (map (\<lambda>(k, r, t, s). str_len t) es)"

definition normal_script :: "(u8 list \<Rightarrow> u8 list) \<Rightarrow> script \<Rightarrow> bool" where
  "normal_script replace_all es \<longleftrightarrow> (\<forall>(k, r, t, s) \<in> set es. normalize_endings replace_all s = encode t \<and> valid_str t)"

lemma patched_extend: "patched st s t \<Longrightarrow> es_patch st' = es_patch st \<Longrightarrow> patched st' (s @ k) (t @ k)"
  using patch_rel_extend [of 0 0 "es_patch st" "encode s" "encode t" "encode k"] by (simp add: patched_def)

lemma rest_text:
  assumes "editing ts ps st pre post w qs" "vis ps = (vis pre @ w) @ rest"
  shows "drop (length w) (vis post) = rest"
  using assms editingD(1,3) [OF assms(1)] part_read_text [of post w] by (metis append.assoc same_append_eq vis_del_simps(3))

lemma edit_one_ok:
  assumes ed: "editing ts ps st pre post w qs" and pa: "patched st (vis pre @ w) (vis qs)" and vs: "vis ps = (vis pre @ w) @ k @ r @ rest"
    and t: "normalize_endings rx s = encode t" "valid_str t" and n: "4 \<le> n" "n < 2 ^ 32" and fuel: "length ps < fuel"
    and room: "unat (es_insertion_offset st) + str_len t < 2 ^ 32"
  obtains st' range pre' post' w' qs' where
    "edit_one fuel n rx ts ((str_len (vis pre @ w @ k), str_len (vis pre @ w @ k @ r)), s) st = Some (st', range, encode t)"
    "editing ts ps st' pre' post' w' qs'" "vis pre' @ w' = vis pre @ w @ k @ r" "vis qs' = vis qs @ k @ t" "patched st' (vis pre' @ w') (vis qs')"
    "unat (es_insertion_offset st') = unat (es_insertion_offset st) + str_len t"
proof -
  let ?first = "str_len (vis pre @ w @ k)"
  from rest_text [OF ed vs] have dr: "drop (length w) (vis post) = k @ (r @ rest)" by simp
  obtain st1 pre1 post1 w1 qs1 k1 k2 where s1:
    "skip_to fragment_text_dim text_offset_of (visible_target ?first) Right ?first st = Some st1" "editing ts ps st1 pre1 post1 w1 qs1"
    "es_patch st1 = es_patch st" "k = k1 @ k2" "vis pre1 @ w1 = vis pre @ w @ k1" "vis qs1 = vis qs @ k1" "within k2 post1 w1"
    "es_insertion_offset st1 = es_insertion_offset st"
    by (rule skip_to_ok [OF ed dr])
  have first: "?first = str_len (vis pre1 @ w1 @ k2)" using s1(4,5) by (metis append.assoc)
  obtain st2 qs2 where s2: "push_prefix text_offset_of ?first st1 = Some st2" "editing ts ps st2 pre1 post1 (w1 @ k2) qs2"
    "es_patch st2 = es_patch st1" "vis qs2 = vis qs1 @ k2" "es_insertion_offset st2 = es_insertion_offset st1"
    unfolding first by (rule push_prefix_ok [OF s1(2,7)])
  have c2: "vis pre1 @ w1 @ k2 = (vis pre @ w) @ k" using s1(4,5) by (metis append.assoc)
  have "patched st2 (vis pre1 @ w1 @ k2) (vis qs2)"
    unfolding c2 using patched_extend [OF pa, of st2 k] s1(3,4,6) s2(3,4) by simp
  moreover have "unat (es_insertion_offset st2) + str_len t < 2 ^ 32" using room s1(8) s2(5) by simp
  ultimately obtain st3 qs3 where s3: "insert_local n (encode t) ts st2 = Some st3" "editing ts ps st3 pre1 post1 (w1 @ k2) qs3"
    "vis qs3 = vis qs2 @ t" "patched st3 (vis pre1 @ w1 @ k2) (vis qs3)" "unat (es_insertion_offset st3) = unat (es_insertion_offset st2) + str_len t"
    using insert_local_ok [OF s2(2) _ n t(2)] by blast
  have "vis ps = (vis pre1 @ w1 @ k2) @ r @ rest" using vs c2 by simp
  then have dr3: "drop (length (w1 @ k2)) (vis post1) = r @ rest" using rest_text [OF s3(2)] by simp
  have f3: "length post1 < fuel" using editingD(1) [OF s3(2)] fuel by simp
  obtain st4 pre4 post4 w4 qs4 where s4: "delete_local_loop fuel ts (str_len (vis pre1 @ (w1 @ k2) @ r)) st3 = Some st4" "editing ts ps st4 pre4 post4 w4 qs4"
    "vis pre4 @ w4 = vis pre1 @ (w1 @ k2) @ r" "vis qs4 = vis qs3" "patched st4 (vis pre4 @ w4) (vis qs3)"
    "es_insertion_offset st4 = es_insertion_offset st3"
    by (rule delete_loop_ok [OF s3(2) dr3 s3(4) f3])
  have until: "vis pre1 @ (w1 @ k2) @ r = vis pre @ w @ k @ r" using c2 by simp
  show thesis
  proof (rule that)
    show "edit_one fuel n rx ts ((?first, str_len (vis pre @ w @ k @ r)), s) st = Some (st4,
        (?first + ft_deleted (cursor_start (es_old st1)), str_len (vis pre @ w @ k @ r) + ft_deleted (cursor_start (es_old st4))), encode t)"
      using s1(1) s2(1) s3(1) s4(1) unfolding until by (simp add: edit_one_def t(1) Let_def del: str_len_simps encode_simps)
    show "unat (es_insertion_offset st4) = unat (es_insertion_offset st) + str_len t" using s1(8) s2(5) s3(5) s4(6) by simp
    show "vis qs4 = vis qs @ k @ t" using s4(4) s3(3) s2(4) s1(4,6) by simp
    show "vis pre4 @ w4 = vis pre @ w @ k @ r" using s4(3) until by simp
    show "patched st4 (vis pre4 @ w4) (vis qs4)" using s4(4,5) by simp
  qed (rule s4(2))
qed

end
