(* ===== verification/Snapshot.thy ===== *)
theory Snapshot
  imports BufferEdit_Correct
begin

text \<open>
  The invariant of a buffer's snapshot, and that a local edit keeps it. It contains what \<open>Buffer::check_invariants\<close> tests (locators increase, the tree of
  insertions finds every fragment and only these, the lengths of the texts are those in the summary) and more: the texts are made up of the fragments' texts, no
  two fragments share a cell, and the slices recorded for an edit cover what it inserted and deleted.
\<close>

section \<open>The invariant\<close>

definition identity :: "lamport \<times> nat \<times> u8 \<Rightarrow> lamport \<times> nat" where
  "identity = (\<lambda>(t, i, b). (t, i))"

definition found_in :: "insertion_tree \<Rightarrow> piece list \<Rightarrow> bool" where
  "found_in t ps \<longleftrightarrow> wf_tree insertion_ops t \<and> sorted_keys insertion_key_of (elems t) \<and>
     lookup insertion_key_of (elems t) = map_of (map (\<lambda>p. (key_of (fst p), insertion_of (fst p))) ps)"

text \<open>The base text is inserted without a slice and never undone.\<close>

definition covers :: "insertion_slice tree_set \<Rightarrow> piece \<Rightarrow> lamport \<Rightarrow> bool" where
  "covers sl p e \<longleftrightarrow> (\<exists>a b. InsertionSlice e (fr_timestamp (fst p)) a b \<in> dom (map_abs sl) \<and> unat a \<le> unat (insertion_offset (fst p)) \<and>
     unat (insertion_offset (fst p)) + str_len (snd p) \<le> unat b)"

definition edits_to :: "piece \<Rightarrow> lamport set" where
  "edits_to p = set (fr_deletions (fst p)) \<union> ({fr_timestamp (fst p)} - {lamport_new LOCAL})"

text \<open>What the undo map says: an edit is undone if its greatest count is odd, and a fragment is shown if its insertion is not undone and all its
  deletions are.\<close>

definition undone :: "(lamport \<Rightarrow> lamport \<rightharpoonup> u32) \<Rightarrow> lamport \<Rightarrow> bool" where
  "undone counts e \<longleftrightarrow> greatest_count (counts e) (\<lambda>_. True) mod 2 = 1"

definition shown :: "(lamport \<Rightarrow> lamport \<rightharpoonup> u32) \<Rightarrow> fragment \<Rightarrow> bool" where
  "shown counts f \<longleftrightarrow> \<not> undone counts (fr_timestamp f) \<and> (\<forall>d \<in> set (fr_deletions f). undone counts d)"

text \<open>The least timestamp is no timestamp of an edit; it stands for the start of the insertions.\<close>

definition snapshot_ok :: "buffer_snapshot \<Rightarrow> piece list \<Rightarrow> bool" where
  "snapshot_ok s ps \<longleftrightarrow> wf_tree fragment_ops (bs_fragments s) \<and> elems (bs_fragments s) = map fst ps \<and> (\<forall>p \<in> set ps. texted p) \<and>
     rope_ok (bs_visible_text s) (vis ps) \<and> rope_ok (bs_deleted_text s) (del ps) \<and> ids_ok (map fst ps) \<and>
     distinct (map identity (cells_all ps)) \<and> found_in (bs_insertions s) ps \<and> valid_map (bs_insertion_slices s) \<and>
     (\<forall>p \<in> set ps. \<forall>e \<in> edits_to p. covers (bs_insertion_slices s) p e) \<and>
     (\<forall>p \<in> set ps. fr_timestamp (fst p) \<noteq> lamport_MIN) \<and> (\<forall>x \<in> dom (map_abs (bs_insertion_slices s)). is_insertion_id x \<noteq> lamport_MIN) \<and>
     valid_undo_map (bs_undo_map s) \<and> (\<forall>p \<in> set ps. fr_visible (fst p) = shown (undo_abs (bs_undo_map s)) (fst p))"

lemma snapshot_okI:
  assumes "wf_tree fragment_ops (bs_fragments s)" "elems (bs_fragments s) = map fst ps" "\<forall>p \<in> set ps. texted p"
    "rope_ok (bs_visible_text s) (vis ps)" "rope_ok (bs_deleted_text s) (del ps)" "ids_ok (map fst ps)"
    "distinct (map identity (cells_all ps))" "found_in (bs_insertions s) ps" "valid_map (bs_insertion_slices s)"
    "\<forall>p \<in> set ps. \<forall>e \<in> edits_to p. covers (bs_insertion_slices s) p e" "\<forall>p \<in> set ps. fr_timestamp (fst p) \<noteq> lamport_MIN"
    "\<forall>x \<in> dom (map_abs (bs_insertion_slices s)). is_insertion_id x \<noteq> lamport_MIN" "valid_undo_map (bs_undo_map s)"
    "\<forall>p \<in> set ps. fr_visible (fst p) = shown (undo_abs (bs_undo_map s)) (fst p)"
  shows "snapshot_ok s ps"
  using assms unfolding snapshot_ok_def by blast

text \<open>A timestamp for a new edit.\<close>

definition fresh_timestamp :: "buffer_snapshot \<Rightarrow> piece list \<Rightarrow> lamport \<Rightarrow> bool" where
  "fresh_timestamp s ps ts \<longleftrightarrow> ts \<noteq> lamport_MIN \<and> undo_abs (bs_undo_map s) ts = Map.empty \<and> (\<forall>p \<in> set ps. \<not> touched ts p)"

text \<open>Room on the stacks of the cursors.\<close>

definition snapshot_fits :: "buffer_snapshot \<Rightarrow> bool" where
  "snapshot_fits s \<longleftrightarrow> height (bs_fragments s) < STACK_CAPACITY \<and> height (bs_insertions s) < STACK_CAPACITY \<and>
     has_room (bs_insertion_slices s) \<and> height (bs_visible_text s) < STACK_CAPACITY \<and> height (bs_deleted_text s) < STACK_CAPACITY \<and>
     slices_fit (bs_visible_text s) \<and> slices_fit (bs_deleted_text s)"

section \<open>The run of an edit\<close>

lemma edit_all_ok:
  assumes "editing ts ps st pre post w qs" "patched st (vis pre @ w) (vis qs)" "vis ps = (vis pre @ w) @ text_before es rest"
    and "normal_script rx es" "4 \<le> n" "n < 2 ^ 32" "length ps < fuel" "unat (es_insertion_offset st) + inserted_len es < 2 ^ 32"
  obtains st' ranges' pre' post' w' qs' where
    "edit_all fuel n rx ts (edits_of (str_len (vis pre @ w)) es) st ranges texts = Some (st', ranges', texts @ map (\<lambda>(k, r, t, s). encode t) es)"
    "editing ts ps st' pre' post' w' qs'" "vis ps = (vis pre' @ w') @ rest" "vis qs' @ rest = vis qs @ text_after es rest" "patched st' (vis pre' @ w') (vis qs')"
  using assms
proof (induction es arbitrary: st pre post w qs ranges texts thesis)
  case Nil
  then show ?case by simp
next
  case (Cons e es)
  obtain k r t s where e: "e = (k, r, t, s)" by (cases e) auto
  have t: "normalize_endings rx s = encode t" "valid_str t" "normal_script rx es" using Cons.prems(5) e by (auto simp: normal_script_def)
  have vs: "vis ps = (vis pre @ w) @ k @ r @ text_before es rest" using Cons.prems(4) e by simp
  have room: "unat (es_insertion_offset st) + str_len t < 2 ^ 32" using Cons.prems(9) e by (simp add: inserted_len_def)
  obtain st1 range pre1 post1 w1 qs1 where s1:
    "edit_one fuel n rx ts ((str_len (vis pre @ w @ k), str_len (vis pre @ w @ k @ r)), s) st = Some (st1, range, encode t)"
    "editing ts ps st1 pre1 post1 w1 qs1" "vis pre1 @ w1 = vis pre @ w @ k @ r" "vis qs1 = vis qs @ k @ t" "patched st1 (vis pre1 @ w1) (vis qs1)"
    "unat (es_insertion_offset st1) = unat (es_insertion_offset st) + str_len t"
    by (rule edit_one_ok [OF Cons.prems(2,3) vs t(1,2) Cons.prems(6-8) room])
  have vs1: "vis ps = (vis pre1 @ w1) @ text_before es rest" using vs s1(3) by simp
  have room1: "unat (es_insertion_offset st1) + inserted_len es < 2 ^ 32" using Cons.prems(9) e s1(6) by (simp add: inserted_len_def)
  obtain st' ranges' pre' post' w' qs' where s':
    "edit_all fuel n rx ts (edits_of (str_len (vis pre1 @ w1)) es) st1 (ranges @ [range]) (texts @ [encode t]) =
       Some (st', ranges', (texts @ [encode t]) @ map (\<lambda>(k, r, t, s). encode t) es)"
    "editing ts ps st' pre' post' w' qs'" "vis ps = (vis pre' @ w') @ rest" "vis qs' @ rest = vis qs1 @ text_after es rest"
    "patched st' (vis pre' @ w') (vis qs')"
    by (rule Cons.IH [OF _ s1(2,5) vs1 t(3) Cons.prems(6-8) room1])
  have n1: "str_len (vis pre1 @ w1) = str_len (vis pre @ w) + str_len k + str_len r" using s1(3) by simp
  have es: "edits_of (str_len (vis pre @ w)) (e # es) =
    ((str_len (vis pre @ w @ k), str_len (vis pre @ w @ k @ r)), s) # edits_of (str_len (vis pre1 @ w1)) es"
    unfolding n1 by (simp add: e add.assoc)
  show ?case
  proof (rule Cons.prems(1))
    show "edit_all fuel n rx ts (edits_of (str_len (vis pre @ w)) (e # es)) st ranges texts =
      Some (st', ranges', texts @ map (\<lambda>(k, r, t, s). encode t) (e # es))"
      unfolding es using s1(1) s'(1) by (simp add: e)
    show "vis qs' @ rest = vis qs @ text_after (e # es) rest" using s'(4) s1(4) by (simp add: e)
  qed (rule s'(2,3,5))+
qed

lemma start_edit_ok:
  assumes ok: "snapshot_ok s ps" "snapshot_fits s" and ts: "\<forall>p \<in> set ps. \<not> touched ts p" and vs: "vis ps = k @ rest"
  obtains st pre post where "start_edit s fragment_text_dim text_offset_of (visible_target (str_len k)) Right = Some st"
    "editing ts ps st pre post [] pre" "patched st (vis pre) (vis pre)" "\<exists>k'. k = vis pre @ k'" "es_insertion_offset st = 0"
proof -
  let ?n = "str_len k"
  have wf: "wf_tree fragment_ops (bs_fragments s)" "elems (bs_fragments s) = map fst ps" "\<forall>p \<in> set ps. texted p" "ids_ok (map fst ps)"
    and fit: "height (bs_fragments s) < STACK_CAPACITY" "slices_fit (bs_visible_text s)" "slices_fit (bs_deleted_text s)"
    using ok by (simp_all add: snapshot_ok_def snapshot_fits_def)
  obtain v where v: "cursor_new_at (bs_visible_text s) 0 = Some v" "rc_rope v = bs_visible_text s" "rc_at v [] (vis ps)"
    by (rule new_cursor_ok [of "bs_visible_text s" "vis ps"]) (use ok in \<open>simp_all add: snapshot_ok_def snapshot_fits_def\<close>)
  obtain d where d: "cursor_new_at (bs_deleted_text s) 0 = Some d" "rc_rope d = bs_deleted_text s" "rc_at d [] (del ps)"
    by (rule new_cursor_ok [of "bs_deleted_text s" "del ps"]) (use ok in \<open>simp_all add: snapshot_ok_def snapshot_fits_def\<close>)
  obtain pre post where pp: "ps = pre @ post" and stop: "stop_at fragment_ops fragment_text_dim (visible_target ?n) Right
      \<lparr>ft_visible = 0, ft_deleted = 0\<rparr> (map fst ps) = length pre"
    and below: "pre = [] \<or> 0 + visible_len (map fst pre) \<le> ?n"
    by (rule visible_stop)
  let ?c = "cursor_new fragment_text_dim (bs_fragments s)"
  have z: "c_position ?c = \<lparr>ft_visible = 0, ft_deleted = 0\<rparr>" by (simp add: cursor_new_def fragment_text_dim_def)
  have ready: "cursor_ready fragment_ops fragment_text_dim ?c 0" by (simp add: cursor_ready_def)
  have ge: "is_ge (visible_target ?n (c_position ?c))" by (auto simp: is_ge_def visible_target_def z)
  from ftext.slice_correct [OF _ _ ready ge visible_mono refl, of Right] wf(1,2) fit(1) stop z pp
  obtain c t where c: "cursor_slice fragment_ops fragment_text_dim (visible_target ?n) Right ?c = Some (c, t)" "c_tree c = bs_fragments s"
    "cursor_at fragment_ops fragment_text_dim c (length pre)" "wf_tree fragment_ops t" "elems t = map fst pre" by auto
  have tp: "\<forall>p \<in> set pre. texted p" using wf(3) pp by simp
  have sum: "fs_text (fb_summary (fb_new t)) = \<lparr>ft_visible = str_len (vis pre), ft_deleted = str_len (del pre)\<rparr>"
    using c(4,5) fragment_sum [of "map fst pre"] texted_lens [OF tp] by (simp add: fb_new_def wf_summary)
  have "rb_at (rb_new v d) [] (vis pre @ vis post) [] (del pre @ del post) [] []"
    using v d fit pp new_ok by (simp add: rb_at_def rb_new_def)
  from rb_append_ok [OF this] obtain b where b: "rb_append (rb_new v d) (fs_text (fb_summary (fb_new t))) = Some b"
    "rb_at b (vis pre) (vis post) (del pre) (del post) (vis pre) (del pre)" unfolding sum by auto
  let ?st = "\<lparr>es_old = c, es_new = fb_new t, es_ropes = b, es_start = str_len (vis pre), es_insertions = [], es_insertion_offset = 0, es_slices = [],
    es_patch = []\<rparr>"
  have r: "reads ?st pre post" using c(2,3) wf(1,2) fit(1) pp by (simp add: reads_def)
  have tsp: "\<forall>p \<in> set pre. \<not> touched ts p" using ts pp by simp
  have ed: "editing ts ps ?st pre post [] pre"
  proof (rule editingI)
    show "old_cells ts pre @ drop (str_len []) (cells_all post) = cells_all ps" using cells_many(1) [OF tsp] pp by simp
    show "\<exists>s. new_cells ts pre = map (\<lambda>(i, b). (ts, i, b)) (enumerate 0 s) \<and> unat (es_insertion_offset ?st) = length s"
      using cells_many(2) [OF tsp] by (intro exI [of _ "[]"]) simp
    show "recorded ps (es_insertions ?st) pre" using pp by (auto simp: recorded_def)
    show "es_slices ?st = slices_of ts pre" using slices_of_none [OF tsp] by simp
    show "origins ts ps pre" using pp by (intro origins_old) simp
    show "builds (es_new ?st) (map fst pre)" using builds_new [OF c(4)] c(5) by simp
  qed (use pp r wf tp ts b(2) in \<open>simp_all add: part_read_def\<close>)
  have "cursor_start c = \<lparr>ft_visible = str_len (vis pre), ft_deleted = str_len (del pre)\<rparr>"
    using reads_position(1) [OF r] wf(3) pp by simp
  then have st: "start_edit s fragment_text_dim text_offset_of (visible_target ?n) Right = Some ?st"
    using v(1) d(1) c(1) b(1) by (simp add: start_edit_def text_offset_of_def)
  have "vis pre @ vis post = k @ rest" using vs pp by simp
  moreover have "str_len (vis pre) \<le> ?n" using below texted_lens(1) [OF tp] by auto
  ultimately obtain k' where "k = vis pre @ k'" by (rule split_by_len)
  with st ed that show thesis by (simp add: patched_def separated_def)
qed

lemma suffix_stop:
  "stop_at fragment_ops fragment_text_dim End_target Right d fs = length fs" "mono_target End_target (ds :: fragment_text_summary list)"
  by (induction fs arbitrary: d, auto simp: stop_at_Cons past_end_def End_target_def)
    (induction ds, auto simp: mono_target_def End_target_def)

lemma finish_ok:
  assumes ed: "editing ts ps st pre post w qs" and pa: "patched st (vis pre @ w) (vis qs)" and vs: "vis ps = (vis pre @ w) @ rest"
  obtains st' qs' where "finish_fragments fragment_text_dim text_offset_of st = Some st'"
    "editing ts ps (st'\<lparr>es_start := str_len (vis ps)\<rparr>) ps [] [] qs'" "vis qs' = vis qs @ rest" "patched st' (vis ps) (vis qs')"
proof -
  from leave_ok [OF ed] obtain st1 pre1 post1 qs1 y where l: "leave_fragment fragment_text_dim text_offset_of st = Some st1"
    "es_patch st1 = es_patch st" "editing ts ps (st1\<lparr>es_start := str_len (vis pre1)\<rparr>) pre1 post1 [] qs1" "vis pre1 = vis pre @ w @ y" "vis qs1 = vis qs @ y" .
  let ?st1 = "st1\<lparr>es_start := str_len (vis pre1)\<rparr>"
  note e1 = editingD [OF l(3)]
  have at1: "wf_tree fragment_ops (c_tree (es_old st1))" "height (c_tree (es_old st1)) < STACK_CAPACITY"
    "cursor_ready fragment_ops fragment_text_dim (es_old st1) (length pre1)" "drop (length pre1) (elems (c_tree (es_old st1))) = map fst post1"
    using e1(2) by (simp_all add: reads_def cursor_ready_def)
  have ge: "is_ge (End_target (c_position (es_old st1)))" by (simp add: is_ge_def End_target_def)
  from ftext.slice_correct [OF at1(1-3) ge suffix_stop(2) refl, of Right] at1(4) suffix_stop(1)
  obtain c t where c: "cursor_suffix fragment_ops fragment_text_dim (es_old st1) = Some (c, t)" "c_tree c = c_tree (es_old ?st1)"
    "cursor_at fragment_ops fragment_text_dim c (length (pre1 @ post1))" "wf_tree fragment_ops t" "elems t = map fst post1"
    by (auto simp: cursor_suffix_def)
  have "editing ts ps ?st1 pre1 (post1 @ []) [] qs1" using l(3) by simp
  from editing_slice [OF this c(4,5,2,3)] obtain st2 where st2: "append_slice t (?st1\<lparr>es_old := c\<rparr>) = Some st2" "es_patch st2 = es_patch st1"
    "editing ts ps (st2\<lparr>es_start := str_len (vis (pre1 @ post1))\<rparr>) (pre1 @ post1) [] [] (qs1 @ post1)" by auto
  have "append_slice t (st1\<lparr>es_old := c\<rparr>) = Some (st2\<lparr>es_start := es_start st1\<rparr>)"
    using st2(1) by (auto simp: append_slice_def bind_eq_Some_conv)
  then have fin: "finish_fragments fragment_text_dim text_offset_of st = Some (st2\<lparr>es_start := es_start st1\<rparr>)"
    using l(1) c(1) by (simp add: finish_fragments_def)
  have rest: "rest = y @ vis post1" using vs e1(1) l(4) by simp
  have "patched (st2\<lparr>es_start := es_start st1\<rparr>) ((vis pre @ w) @ rest) (vis qs @ rest)"
    by (rule patched_extend [OF pa]) (simp add: st2(2) l(2))
  with that [of "st2\<lparr>es_start := es_start st1\<rparr>" "qs1 @ post1"] fin st2(3) e1(1) vs rest l(5) show thesis by simp
qed

section \<open>Identities and keys\<close>

lemma distinct_split:
  assumes "distinct (map f (filter P xs))" "distinct (map f (filter (\<lambda>x. \<not> P x) xs))" "\<And>x y. f x = f y \<Longrightarrow> P x = P y"
  shows "distinct (map f xs)"
  using assms(1,2)
proof (induction xs)
  case (Cons x xs)
  have "f x \<notin> f ` set xs"
  proof
    assume "f x \<in> f ` set xs"
    then obtain y where y: "y \<in> set xs" "f x = f y" by blast
    with assms(3) have "P x = P y" by blast
    with y Cons.prems show False by (cases "P x") auto
  qed
  with Cons show ?case by (auto split: if_splits)
qed simp

lemma identities_split:
  assumes "distinct (map identity (old_cells ts qs))" "distinct (map identity (new_cells ts qs))"
  shows "distinct (map identity (cells_all qs))"
  by (rule distinct_split [of identity "\<lambda>(t, _). t = ts"])
    (use assms in \<open>auto simp: old_cells_def new_cells_def identity_def case_prod_unfold\<close>)

lemma enumerate_identities: "distinct (map identity (map (\<lambda>(i, b). (ts, i, b)) (enumerate n s)))"
proof -
  have "map identity (map (\<lambda>(i, b). (ts, i, b)) (enumerate n s)) = map (Pair ts) (map fst (enumerate n s))"
    unfolding map_map by (rule map_cong) (auto simp: identity_def)
  then show ?thesis by (simp add: distinct_map inj_on_def del: map_map)
qed

text \<open>The first cell of a fragment has the identity that is its key.\<close>

lemma first_cell: "texted (f, t) \<Longrightarrow> (fr_timestamp f, unat (insertion_offset f)) \<in> identity ` set (cells_of (f, t))"
proof -
  assume "texted (f, t)"
  then obtain b bs where "encode t = b # bs" using length_encode [of t] by (cases "encode t") (auto simp: texted_def)
  then show ?thesis by (simp add: cells_of_def identity_def)
qed

lemma keys_distinct: "\<forall>q \<in> set qs. texted q \<Longrightarrow> distinct (map identity (cells_all qs)) \<Longrightarrow> distinct (map (\<lambda>q. key_of (fst q)) qs)"
proof (induction qs)
  case (Cons q qs)
  have "key_of (fst q) \<noteq> key_of (fst r)" if "r \<in> set qs" for r
  proof
    assume "key_of (fst q) = key_of (fst r)"
    then have "fr_timestamp (fst q) = fr_timestamp (fst r)" "insertion_offset (fst q) = insertion_offset (fst r)"
      by (simp_all add: key_of_def insertion_key_of_def insertion_of_def)
    moreover have "(fr_timestamp (fst r), unat (insertion_offset (fst r))) \<in> identity ` set (cells_all qs)"
      using first_cell [of "fst r" "snd r"] Cons.prems(1) that by (auto simp: cells_all_def)
    ultimately show False using first_cell [of "fst q" "snd q"] Cons.prems by auto
  qed
  with Cons show ?case by auto
qed simp

lemma slices_distinct:
  assumes "distinct (map (\<lambda>q. key_of (fst q)) qs)"
  shows "distinct (slices_of ts qs)"
proof -
  let ?h = "\<lambda>s. InsertionFragmentKey (is_insertion_id s) (is_start s)"
  have "map ?h (slices_of ts qs) = map (\<lambda>q. key_of (fst q)) (filter (touched ts) qs)"
    by (simp add: slices_of_def piece_slice_def key_of_def insertion_key_of_def insertion_of_def)
  then show ?thesis using distinct_map_filter [OF assms] by (metis distinct_map)
qed

lemma insert_new_key [simp]: "edit_key insertion_key_of (insert_new f) = key_of f" "edit_value (insert_new f) = Some (insertion_of f)"
  by (simp_all add: insert_new_def key_of_def edit_value_def)

section \<open>The insertions and slices after an edit\<close>

abbreviation insertion_map :: "piece list \<Rightarrow> insertion_key \<rightharpoonup> insertion_fragment" where
  "insertion_map ps \<equiv> map_of (map (\<lambda>p. (key_of (fst p), insertion_of (fst p))) ps)"

lemma found_Some: "distinct (map (\<lambda>q. key_of (fst q)) qs) \<Longrightarrow> q \<in> set qs \<Longrightarrow> insertion_map qs (key_of (fst q)) = Some (insertion_of (fst q))"
  by (rule map_of_is_SomeI) (auto simp: comp_def)

lemma found_None: "k \<notin> key_of ` fst ` set qs \<Longrightarrow> insertion_map qs k = None"
  by (force simp: map_of_eq_None_iff)

lemma recorded_keys:
  assumes "recorded ps es qs" "distinct (map (\<lambda>q. key_of (fst q)) qs)"
  shows "distinct (map (edit_key insertion_key_of) es)"
proof -
  have "subseq (map (edit_key insertion_key_of) es) (map (edit_key insertion_key_of) (map (\<lambda>q. insert_new (fst q)) qs))"
    by (rule subseq_map) (use assms(1) in \<open>simp add: recorded_def\<close>)
  moreover have "map (edit_key insertion_key_of) (map (\<lambda>q. insert_new (fst q)) qs) = map (\<lambda>q. key_of (fst q)) qs" by simp
  ultimately show ?thesis using assms(2) by (metis distinct_nthsI subseq_conv_nths)
qed

lemma recorded_found:
  assumes rec: "recorded ps es qs" and d: "distinct (map (\<lambda>q. key_of (fst q)) qs)" "distinct (map (\<lambda>q. key_of (fst q)) ps)"
    and keys: "key_of ` fst ` set ps \<subseteq> key_of ` fst ` set qs"
  shows "edited insertion_key_of es (insertion_map ps) = insertion_map qs"
proof
  fix k
  let ?m = "map_of (map (\<lambda>e. (edit_key insertion_key_of e, edit_value e)) es)"
  have es: "\<exists>q \<in> set qs. e = insert_new (fst q)" if "e \<in> set es" for e
  proof -
    obtain N where "es = nths (map (\<lambda>q. insert_new (fst q)) qs) N" using rec by (auto simp: recorded_def subseq_conv_nths)
    then have "e \<in> set (map (\<lambda>q. insert_new (fst q)) qs)" using that in_set_nthsD by fast
    then show ?thesis by auto
  qed
  have ekeys: "edit_key insertion_key_of e \<in> key_of ` fst ` set qs" if "e \<in> set es" for e using es [OF that] by force
  show "edited insertion_key_of es (insertion_map ps) k = insertion_map qs k"
  proof (cases "k \<in> key_of ` fst ` set qs")
    case True
    then obtain q where q: "q \<in> set qs" "k = key_of (fst q)" by auto
    show ?thesis
    proof (cases "insert_new (fst q) \<in> set es")
      case True
      then have "(k, Some (insertion_of (fst q))) \<in> set (map (\<lambda>e. (edit_key insertion_key_of e, edit_value e)) es)"
        using q(2) by (force intro: rev_image_eqI)
      then have "?m k = Some (Some (insertion_of (fst q)))" by (intro map_of_is_SomeI) (use recorded_keys [OF rec d(1)] in \<open>simp_all add: comp_def\<close>)
      then show ?thesis using found_Some [OF d(1) q(1)] q(2) by (simp add: edited_def)
    next
      case False
      have "k \<notin> edit_key insertion_key_of ` set es"
      proof
        assume "k \<in> edit_key insertion_key_of ` set es"
        then obtain r where r: "r \<in> set qs" "insert_new (fst r) \<in> set es" "k = key_of (fst r)" using es by fastforce
        then have "r = q" using d(1) q by (auto simp: distinct_map inj_on_def)
        with r False show False by simp
      qed
      then have "?m k = None" by (force simp: map_of_eq_None_iff)
      moreover have "q \<in> set ps" using rec q(1) False by (auto simp: recorded_def)
      ultimately show ?thesis using found_Some [OF d(1) q(1)] found_Some [OF d(2)] q(2) by (simp add: edited_def)
    qed
  next
    case False
    then have "k \<notin> edit_key insertion_key_of ` set es" using ekeys by blast
    then have "?m k = None" by (force simp: map_of_eq_None_iff)
    moreover have "k \<notin> key_of ` fst ` set ps" using False keys by (meson subsetD)
    ultimately show ?thesis using found_None [OF False] found_None [of k ps] by (simp add: edited_def)
  qed
qed

lemma covers_own:
  assumes "texted q" "piece_slice e (fst q) \<in> dom (map_abs sl)"
  shows "covers sl q e"
proof -
  have "unat (insertion_offset (fst q) + fr_len (fst q)) = unat (insertion_offset (fst q)) + str_len (snd q)"
    using assms(1) by (simp add: texted_def unat_word_ariths)
  with assms(2) show ?thesis unfolding covers_def piece_slice_def
    by (intro exI [of _ "insertion_offset (fst q)"] exI [of _ "insertion_offset (fst q) + fr_len (fst q)"]) simp
qed

lemma covers_descends: "covers sl p e \<Longrightarrow> descends ts p q \<Longrightarrow> dom (map_abs sl) \<subseteq> dom (map_abs sl') \<Longrightarrow> covers sl' q e"
  unfolding covers_def descends_def by (metis (no_types, opaque_lifting) le_trans subsetD)

lemma covers_all:
  assumes "\<forall>p \<in> set ps. \<forall>e \<in> edits_to p. covers sl p e" "origins ts ps qs" "\<forall>q \<in> set qs. texted q"
    and dom: "dom (map_abs sl') = dom (map_abs sl) \<union> set (slices_of ts qs)"
  shows "\<forall>q \<in> set qs. \<forall>e \<in> edits_to q. covers sl' q e"
proof (intro ballI)
  fix q e
  assume q: "q \<in> set qs" "e \<in> edits_to q"
  have own: "covers sl' q ts" if "touched ts q"
    by (rule covers_own) (use assms(3) q(1) that dom in \<open>auto simp: slices_of_def\<close>)
  consider "new_piece ts q" | p where "p \<in> set ps" "descends ts p q" using assms(2) q(1) by (auto simp: origins_def)
  then show "covers sl' q e"
  proof cases
    case 1
    then have "e = ts" "touched ts q" using q(2) by (auto simp: edits_to_def new_piece_def touched_def)
    with own show ?thesis by simp
  next
    case (2 p)
    then consider "e \<in> edits_to p" | "e = ts" "touched ts q" using q(2) by (auto simp: edits_to_def descends_def touched_def)
    then show ?thesis
    proof cases
      case 1
      with assms(1) 2 covers_descends [of sl p e ts q sl'] dom show ?thesis by blast
    qed (use own in simp)
  qed
qed

section \<open>The snapshot after an edit\<close>

lemma final_identities:
  assumes "editing ts ps st ps [] [] qs" "distinct (map identity (cells_all ps))"
  shows "old_cells ts qs = cells_all ps" "distinct (map identity (cells_all qs))"
proof -
  show old: "old_cells ts qs = cells_all ps" using editingD(11) [OF assms(1)] by simp
  obtain s where "new_cells ts qs = map (\<lambda>(i, b). (ts, i, b)) (enumerate 0 s)" using editingD(12) [OF assms(1)] by blast
  then show "distinct (map identity (cells_all qs))"
    using identities_split [of ts qs] enumerate_identities [of ts 0 s] old assms(2) by simp
qed

lemma origins_timestamps:
  assumes "origins ts ps qs" "\<forall>p \<in> set ps. fr_timestamp (fst p) \<noteq> lamport_MIN" "ts \<noteq> lamport_MIN"
  shows "\<forall>q \<in> set qs. fr_timestamp (fst q) \<noteq> lamport_MIN" "\<forall>x \<in> set (slices_of ts qs). is_insertion_id x \<noteq> lamport_MIN"
  using assms by (fastforce simp: origins_def new_piece_def descends_def slices_of_def piece_slice_def)+

lemma not_undone: "counts e = Map.empty \<Longrightarrow> \<not> undone counts e"
  by (simp add: undone_def greatest_count_def)

lemma origins_shown:
  assumes "origins ts ps qs" "\<forall>p \<in> set ps. fr_visible (fst p) = shown counts (fst p)" "\<not> undone counts ts"
  shows "\<forall>q \<in> set qs. fr_visible (fst q) = shown counts (fst q)"
proof
  fix q
  assume "q \<in> set qs"
  with assms(1) consider "new_piece ts q" | p where "p \<in> set ps" "descends ts p q" by (auto simp: origins_def)
  then show "fr_visible (fst q) = shown counts (fst q)"
  proof cases
    case 1
    with assms(3) show ?thesis by (simp add: new_piece_def shown_def)
  next
    case (2 p)
    with assms(2,3) show ?thesis by (auto simp: descends_def shown_def)
  qed
qed

lemma store_ok:
  assumes ok: "snapshot_ok s ps" "snapshot_fits s" and ts: "fresh_timestamp s ps ts" and ed: "editing ts ps st ps [] [] qs"
  obtains s' where "store_edit st s = Some s'" "snapshot_ok s' qs"
proof -
  note e = editingD [OF ed]
  have inv: "distinct (map identity (cells_all ps))" "found_in (bs_insertions s) ps" "valid_map (bs_insertion_slices s)"
    "\<forall>p \<in> set ps. \<forall>e \<in> edits_to p. covers (bs_insertion_slices s) p e" "\<forall>p \<in> set ps. fr_timestamp (fst p) \<noteq> lamport_MIN"
    "\<forall>x \<in> dom (map_abs (bs_insertion_slices s)). is_insertion_id x \<noteq> lamport_MIN" "valid_undo_map (bs_undo_map s)"
    "\<forall>p \<in> set ps. fr_visible (fst p) = shown (undo_abs (bs_undo_map s)) (fst p)"
    and fit: "height (bs_insertions s) < STACK_CAPACITY" "has_room (bs_insertion_slices s)"
    using ok by (simp_all add: snapshot_ok_def snapshot_fits_def)
  note ident = final_identities(2) [OF ed inv(1)]
  have keys: "distinct (map (\<lambda>q. key_of (fst q)) qs)" "distinct (map (\<lambda>q. key_of (fst q)) ps)"
    using keys_distinct [OF e(6) ident] keys_distinct [OF e(5) inv(1)] by blast+
  obtain v d where rb: "rb_finish (es_ropes st) = Some (v, d)" "rope_ok v (vis qs)" "rope_ok d (del qs)"
    using rb_finish_ok [OF e(9)] by auto
  obtain fs where fs: "to_sum_tree (es_new st) = Some fs" "wf_tree fragment_ops fs" "elems fs = map fst qs" by (rule to_sum_tree_ok [OF e(8)])
  have it: "wf_tree insertion_ops (bs_insertions s)" "sorted_keys insertion_key_of (elems (bs_insertions s))"
    "lookup insertion_key_of (elems (bs_insertions s)) = insertion_map ps" using inv(2) by (simp_all add: found_in_def)
  obtain t removed where t: "tree_edit insertion_ops insertion_dim insertion_key_of (bs_insertions s) (es_insertions st) = Some (t, removed)"
    "wf_tree insertion_ops t" "sorted_keys insertion_key_of (elems t)"
    "lookup insertion_key_of (elems t) = edited insertion_key_of (es_insertions st) (insertion_map ps)"
    using ins.edit_refines [OF it(1) fit(1) it(2) recorded_keys [OF e(13) keys(1)]] it(3) by auto
  have found: "found_in t qs" using t(2-4) recorded_found [OF e(13) keys e(14)] by (simp add: found_in_def)
  have "distinct (map fst (map (\<lambda>k. (k, ())) (es_slices st)))" using slices_distinct [OF keys(1)] e(16) by (simp add: comp_def)
  from map_extend_refines [OF inv(3) fit(2) this] obtain sl where sl: "set_extend (bs_insertion_slices s) (es_slices st) = Some sl" "valid_map sl"
    "map_abs sl = map_abs (bs_insertion_slices s) ++ map_of (map (\<lambda>k. (k, ())) (es_slices st))" by (auto simp: set_extend_def)
  have dom: "dom (map_abs sl) = dom (map_abs (bs_insertion_slices s)) \<union> set (slices_of ts qs)"
    using sl(3) e(16) by (auto simp: dom_map_of_conv_image_fst image_image)
  have fresh: "ts \<noteq> lamport_MIN" "\<not> undone (undo_abs (bs_undo_map s)) ts" using ts not_undone by (auto simp: fresh_timestamp_def)
  note times = origins_timestamps [OF e(17) inv(5) fresh(1)]
  note visible = origins_shown [OF e(17) inv(8) fresh(2)]
  have ids: "\<forall>x \<in> dom (map_abs sl). is_insertion_id x \<noteq> lamport_MIN" using dom inv(6) times(2) by auto
  from covers_all [OF inv(4) e(17,6) dom] have cov: "\<forall>q \<in> set qs. \<forall>e \<in> edits_to q. covers sl q e" .
  let ?s = "s\<lparr>bs_fragments := fs, bs_insertions := t, bs_visible_text := v, bs_deleted_text := d, bs_insertion_slices := sl\<rparr>"
  have "store_edit st s = Some ?s" using rb(1) fs(1) t(1) sl(1) by (simp add: store_edit_def)
  moreover have "snapshot_ok ?s qs"
    using fs(2,3) e(6,10) rb(2,3) ident found sl(2) cov times(1) ids inv(7) visible by (simp add: snapshot_ok_def)
  ultimately show thesis by (rule that)
qed

lemma edits_of_start: "edits_of (str_len a) ((k, r, t, s) # es) = edits_of 0 ((a @ k, r, t, s) # es)"
  by (simp add: add.assoc)

lemma local_edit_ok:
  assumes ok: "snapshot_ok s ps" "snapshot_fits s" and fresh: "fresh_timestamp s ps ts" and vs: "vis ps = text_before es rest"
    and rx: "normal_script rx es" and n: "4 \<le> n" "n < 2 ^ 32" and fuel: "length ps < fuel" and room: "inserted_len es < 2 ^ 32"
  obtains s' ranges patch ps' where "apply_edit_internal fuel n rx s (edits_of 0 es) ts = Some (s',
      \<lparr>eo_timestamp = ts, eo_version = bs_version s, eo_ranges = ranges, eo_new_text = map (\<lambda>(k, r, t, s). encode t) es\<rparr>, patch)"
    "snapshot_ok s' ps'" "vis ps' = text_after es rest" "patch_rel 0 0 patch (encode (vis ps)) (encode (vis ps'))" "separated patch"
    "old_cells ts ps' = cells_all ps" "origins ts ps ps'" "bs_undo_map s' = bs_undo_map s" "bs_version s' = bs_version s"
proof (cases es)
  case Nil
  have ts: "\<forall>p \<in> set ps. \<not> touched ts p" using fresh by (simp add: fresh_timestamp_def)
  show thesis by (rule that [of s "[]" "[]" ps])
    (use Nil ok vs cells_many(1) [OF ts] origins_old [of ps ps ts] in \<open>simp_all add: apply_edit_internal_def separated_def\<close>)
next
  case (Cons e es1)
  have ts: "\<forall>p \<in> set ps. \<not> touched ts p" using fresh by (simp add: fresh_timestamp_def)
  obtain k r t x where e: "e = (k, r, t, x)" by (cases e) auto
  have "vis ps = k @ (r @ text_before es1 rest)" using vs Cons e by simp
  from start_edit_ok [OF ok ts this] obtain st pre post where st:
    "start_edit s fragment_text_dim text_offset_of (visible_target (str_len k)) Right = Some st"
    "editing ts ps st pre post [] pre" "patched st (vis pre) (vis pre)" "\<exists>k'. k = vis pre @ k'" "es_insertion_offset st = 0" .
  then obtain k' where k': "k = vis pre @ k'" by blast
  let ?es = "(k', r, t, x) # es1"
  have same: "edits_of 0 es = edits_of (str_len (vis pre @ [])) ?es" "text_before es rest = (vis pre @ []) @ text_before ?es rest"
    "text_after es rest = vis pre @ text_after ?es rest" "map (\<lambda>(k, r, t, s). encode t) es = map (\<lambda>(k, r, t, s). encode t) ?es"
    "inserted_len ?es = inserted_len es" "normal_script rx ?es = normal_script rx es"
    unfolding Cons e k' by (simp_all add: add.assoc inserted_len_def normal_script_def)
  have pa: "patched st (vis pre @ []) (vis pre)" using st(3) by simp
  have v: "vis ps = (vis pre @ []) @ text_before ?es rest" using vs same(2) by simp
  have i: "unat (es_insertion_offset st) + inserted_len ?es < 2 ^ 32" using room same(5) st(5) by simp
  have rx': "normal_script rx ?es" using rx same(6) by simp
  obtain st1 ranges pre1 post1 w1 qs1 where st1:
    "edit_all fuel n rx ts (edits_of (str_len (vis pre @ [])) ?es) st [] [] = Some (st1, ranges, [] @ map (\<lambda>(k, r, t, s). encode t) ?es)"
    "editing ts ps st1 pre1 post1 w1 qs1" "vis ps = (vis pre1 @ w1) @ rest" "vis qs1 @ rest = vis pre @ text_after ?es rest"
    "patched st1 (vis pre1 @ w1) (vis qs1)"
    by (rule edit_all_ok [OF st(2) pa v rx' n fuel i])
  obtain st2 qs where st2: "finish_fragments fragment_text_dim text_offset_of st1 = Some st2"
    "editing ts ps (st2\<lparr>es_start := str_len (vis ps)\<rparr>) ps [] [] qs" "vis qs = vis qs1 @ rest" "patched st2 (vis ps) (vis qs)"
    by (rule finish_ok [OF st1(2,5,3)])
  obtain s' where s': "store_edit (st2\<lparr>es_start := str_len (vis ps)\<rparr>) s = Some s'" "snapshot_ok s' qs"
    by (rule store_ok [OF ok fresh st2(2)])
  have kept: "bs_undo_map s' = bs_undo_map s" "bs_version s' = bs_version s" using s'(1) by (auto simp: store_edit_def bind_eq_Some_conv)
  have "store_edit st2 s = Some s'" using s'(1) by (simp add: store_edit_def)
  moreover have "edits_of 0 es = ((str_len k, str_len k + str_len r), x) # edits_of (str_len k + str_len r) es1" using Cons e by simp
  ultimately have "apply_edit_internal fuel n rx s (edits_of 0 es) ts = Some (s',
      \<lparr>eo_timestamp = ts, eo_version = bs_version s, eo_ranges = ranges, eo_new_text = map (\<lambda>(k, r, t, s). encode t) es\<rparr>, es_patch st2)"
    using st(1) st1(1) [folded same(1)] st2(1) same(4) by (simp add: apply_edit_internal_def del: edit_all.simps)
  moreover have "vis qs = text_after es rest" using st2(3) st1(4) same(3) by simp
  moreover have "old_cells ts qs = cells_all ps" using editingD(11) [OF st2(2)] by simp
  ultimately show thesis using that [of s' ranges "es_patch st2" qs] s'(2) st2(4) editingD(17) [OF st2(2)] kept by (simp add: patched_def)
qed

end
