(* ===== verification/BufferBase.thy ===== *)
theory BufferBase
  imports Snapshot RopePositions_Correct
begin

text \<open>
  The snapshot of a new buffer (\<open>crates/text/src/text.rs\<close>: \<open>Buffer::new_normalized\<close>): the base text is one insertion of the local replica, cut into
  fragments of at most \<open>MAX_INSERTION_LEN\<close> bytes. It satisfies the invariant.

  The loop over the text has fuel, one unit for each fragment. The code does not check that a fragment is not empty: were the maximum below the
  length of a character, the loop would not end.
\<close>

section \<open>Model\<close>

definition base_fragment :: "locator \<Rightarrow> lamport \<Rightarrow> u32 \<Rightarrow> nat \<Rightarrow> fragment" where
  "base_fragment fragment_id insertion_timestamp offset clen =
     \<lparr>fr_id = fragment_id, fr_timestamp = insertion_timestamp, insertion_offset = offset, fr_len = of_nat clen, fr_visible = True,
      fr_deletions = [], fr_max_undos = version_new\<rparr>"

fun base_loop ::
  "nat \<Rightarrow> nat \<Rightarrow> rope \<Rightarrow> lamport \<Rightarrow> nat \<Rightarrow> u32 \<Rightarrow> locator \<Rightarrow> fragment_tree \<Rightarrow> insertion_tree \<Rightarrow> (fragment_tree \<times> insertion_tree) option" where
  "base_loop 0 max_len visible_text insertion_timestamp text_offset offset prev_locator fragments insertions = None"
| "base_loop (Suc fuel) max_len visible_text insertion_timestamp text_offset offset prev_locator fragments insertions =
     (if text_offset < rope_len visible_text then do {
        let target_end = min (rope_len visible_text) (text_offset + max_len);
        chunk_end \<leftarrow> (if target_end = rope_len visible_text then Some target_end else rope_floor_char_boundary visible_text target_end);
        clen \<leftarrow> checked_sub chunk_end text_offset;
        fragment_id \<leftarrow> locator_between prev_locator locator_max;
        let fragment = base_fragment fragment_id insertion_timestamp offset clen;
        insertions' \<leftarrow> tree_push insertion_ops insertions (insertion_of fragment);
        fragments' \<leftarrow> tree_push fragment_ops fragments fragment;
        offset' \<leftarrow> checked_add offset (of_nat clen);
        base_loop fuel max_len visible_text insertion_timestamp chunk_end offset' fragment_id fragments' insertions'
      }
      else Some (fragments, insertions))"

definition base_snapshot :: "nat \<Rightarrow> nat \<Rightarrow> replica_id \<Rightarrow> u64 \<Rightarrow> line_ending \<Rightarrow> rope \<Rightarrow> buffer_snapshot option" where
  "base_snapshot fuel max_len replica remote ending visible_text = do {
     (fragments, insertions, version) \<leftarrow>
       (if \<not> rope_is_empty visible_text then do {
          version \<leftarrow> global_observe global_new (lamport_new LOCAL);
          (fragments, insertions) \<leftarrow> base_loop fuel max_len visible_text (lamport_new LOCAL) 0 0 locator_min (tree_new fragment_ops) (tree_new insertion_ops);
          Some (fragments, insertions, version)
        }
        else Some (tree_new fragment_ops, tree_new insertion_ops, global_new));
     Some \<lparr>bs_visible_text = visible_text, bs_deleted_text = rope_new, bs_fragments = fragments, bs_insertions = insertions,
       bs_insertion_slices = map_clear, bs_undo_map = tree_new undo_ops, bs_version = version, bs_remote_id = remote, bs_replica_id = replica,
       bs_line_ending = ending\<rparr>
   }"

section \<open>Correctness\<close>

lemma rope_chunk_end:
  assumes "rope_ok r (u @ v)" "v \<noteq> []" "4 \<le> n"
  obtains x y where "v = x @ y" "x \<noteq> []" "str_len x \<le> n"
    "(if min (rope_len r) (str_len u + n) = rope_len r then Some (min (rope_len r) (str_len u + n))
      else rope_floor_char_boundary r (min (rope_len r) (str_len u + n))) = Some (str_len (u @ x))"
proof -
  have len: "rope_len r = str_len (u @ v)" using assms(1) rope_len_holds by (auto simp: rope_ok_def)
  show thesis
  proof (cases "str_len v \<le> n")
    case True
    with that [of v "[]"] assms(2) len show thesis by simp
  next
    case False
    from clip_offset_ok [OF assms(1), of "str_len u + n" Left] obtain j where j: "rope_floor_char_boundary r (str_len u + n) = Some j"
      "nearest_boundary Left (u @ v) (str_len u + n) j" by (auto simp: rope_clip_offset_def)
    from boundary_near [of "str_len u + n" "u @ v"] False obtain i where "i \<le> str_len u + n" "boundary (u @ v) i" "str_len u + n \<le> i + 3" by auto
    then have big: "str_len u < j" "j \<le> str_len u + n" using j(2) assms(3) by (fastforce simp: nearest_boundary_def)+
    obtain a b where ab: "u @ v = a @ b" "j = str_len a" using j(2) by (auto simp: nearest_boundary_def boundary_def)
    with big obtain x where x: "a = u @ x" "v = x @ b" using split_by_len [OF ab(1)] by auto
    with that [OF x(2)] ab big j(1) len False show thesis by (cases "x = []") auto
  qed
qed

text \<open>What the loop has built of the text \<open>u\<close>.\<close>

definition base_built :: "lamport \<Rightarrow> rchar list \<Rightarrow> piece list \<Rightarrow> u32 \<Rightarrow> locator \<Rightarrow> fragment_tree \<Rightarrow> insertion_tree \<Rightarrow> bool" where
  "base_built ts u ps off prev fs is \<longleftrightarrow> wf_tree fragment_ops fs \<and> elems fs = map fst ps \<and> wf_tree insertion_ops is \<and>
     elems is = map (\<lambda>p. insertion_of (fst p)) ps \<and> sorted_keys insertion_key_of (elems is) \<and> inserted ts 0 u ps \<and> ids_ok (map fst ps) \<and>
     prev = (if ps = [] then locator_min else fr_id (fst (last ps))) \<and> unat off = str_len u \<and>
     (\<forall>p \<in> set ps. unat (insertion_offset (fst p)) < str_len u)"

lemma base_step:
  assumes b: "base_built ts u ps off prev fs is" and x: "x \<noteq> []" "str_len (u @ x) < 2 ^ 32"
  obtains l fs' is' where "locator_between prev locator_max = Some l"
    "tree_push insertion_ops is (insertion_of (base_fragment l ts off (str_len x))) = Some is'"
    "tree_push fragment_ops fs (base_fragment l ts off (str_len x)) = Some fs'"
    "checked_add off (of_nat (str_len x)) = Some (off + of_nat (str_len x))"
    "base_built ts (u @ x) (ps @ [(base_fragment l ts off (str_len x), x)]) (off + of_nat (str_len x)) l fs' is'"
proof -
  have wf: "wf_tree fragment_ops fs" "elems fs = map fst ps" "wf_tree insertion_ops is" "elems is = map (\<lambda>p. insertion_of (fst p)) ps"
    "sorted_keys insertion_key_of (elems is)" "inserted ts 0 u ps" "ids_ok (map fst ps)" "unat off = str_len u"
    "\<forall>p \<in> set ps. unat (insertion_offset (fst p)) < str_len u"
    using b unfolding base_built_def by blast+
  have prev: "prev = (if map fst ps = [] then locator_min else fr_id (last (map fst ps)))"
    using b by (simp add: base_built_def last_map)
  have ids: "ids_ok (map fst ps @ [])" using wf(7) by simp
  have hi: "locator_max = (case [] of [] \<Rightarrow> locator_max | g # _ \<Rightarrow> fr_id g)" by simp
  obtain l where l: "locator_between prev locator_max = Some l" "\<And>f. fr_id f = l \<Longrightarrow> ids_ok (map fst ps @ [f])"
    using between_ok [OF ids prev hi] by metis
  let ?f = "base_fragment l ts off (str_len x)"
  have small: "str_len x < 2 ^ 32" "unat off + str_len x < 2 ^ 32" using x(2) wf(8) by auto
  have add: "checked_add off (of_nat (str_len x)) = Some (off + of_nat (str_len x))" "unat (off + of_nat (str_len x)) = str_len (u @ x)"
    "unat (of_nat (str_len x) :: u32) = str_len x"
    using small wf(8) by (simp_all add: checked_add_def unat_of_nat unat_word_ariths)
  from frag.push_correct [OF wf(1), of ?f] obtain fs' where f: "tree_push fragment_ops fs ?f = Some fs'" "wf_tree fragment_ops fs'" "elems fs' = elems fs @ [?f]"
    by blast
  from ins.push_correct [OF wf(3), of "insertion_of ?f"] obtain is' where i: "tree_push insertion_ops is (insertion_of ?f) = Some is'"
    "wf_tree insertion_ops is'" "elems is' = elems is @ [insertion_of ?f]" by blast
  have texted: "texted (?f, x)" "new_piece ts (?f, x)" using small add(3) x(1) by (simp_all add: texted_def base_fragment_def new_piece_def)
  have cells: "cells_of (?f, x) = map (\<lambda>(i, b). (ts, i, b)) (enumerate (str_len u) (encode x))" using wf(8) by (simp add: cells_of_def base_fragment_def)
  have inserted: "inserted ts 0 (u @ x) (ps @ [(?f, x)])" using wf(6) texted cells by (simp add: inserted_def enumerate_append_eq)
  have "insertion_key_of y < insertion_key_of (insertion_of ?f)" if "y \<in> set (elems is)" for y
    using that wf(4,6,8,9)
    by (auto simp: inserted_def new_piece_def insertion_key_of_def insertion_of_def less_insertion_key_def base_fragment_def word_less_nat_alt)
  then have "sorted_keys insertion_key_of (elems is')" using wf(5) i(3) by simp
  moreover have "\<forall>p \<in> set (ps @ [(?f, x)]). unat (insertion_offset (fst p)) < str_len (u @ x)"
    using wf(8,9) str_len_pos [OF x(1)] by (auto simp: base_fragment_def)
  ultimately have "base_built ts (u @ x) (ps @ [(?f, x)]) (off + of_nat (str_len x)) l fs' is'"
    using f i wf(2,4) inserted l(2) [of ?f] add(2) unfolding base_built_def by (simp add: base_fragment_def)
  with that l(1) i(1) f(1) add(1) show thesis by blast
qed

lemma base_loop_ok:
  assumes "base_built ts u ps off prev fs is" "rope_ok r (u @ v)" "4 \<le> n" "str_len (u @ v) < 2 ^ 32" "length v < fuel"
  shows "\<exists>fs' is' ps' off' prev'. base_loop fuel n r ts (str_len u) off prev fs is = Some (fs', is') \<and> base_built ts (u @ v) ps' off' prev' fs' is'"
  using assms
proof (induction fuel arbitrary: u v ps off prev fs "is")
  case (Suc fuel)
  have len: "rope_len r = str_len (u @ v)" using Suc.prems(2) rope_len_holds by (auto simp: rope_ok_def)
  show ?case
  proof (cases "v = []")
    case True
    with Suc.prems(1) len show ?thesis by auto
  next
    case False
    obtain x y where xy: "v = x @ y" "x \<noteq> []" "str_len x \<le> n" and ce:
      "(if min (rope_len r) (str_len u + n) = rope_len r then Some (min (rope_len r) (str_len u + n))
        else rope_floor_char_boundary r (min (rope_len r) (str_len u + n))) = Some (str_len (u @ x))"
      by (rule rope_chunk_end [OF Suc.prems(2) False Suc.prems(3)])
    have "str_len (u @ x) < 2 ^ 32" using Suc.prems(4) xy(1) by simp
    from base_step [OF Suc.prems(1) xy(2) this] obtain l fs' is' where s: "locator_between prev locator_max = Some l"
      "tree_push insertion_ops is (insertion_of (base_fragment l ts off (str_len x))) = Some is'"
      "tree_push fragment_ops fs (base_fragment l ts off (str_len x)) = Some fs'"
      "checked_add off (of_nat (str_len x)) = Some (off + of_nat (str_len x))"
      "base_built ts (u @ x) (ps @ [(base_fragment l ts off (str_len x), x)]) (off + of_nat (str_len x)) l fs' is'" .
    have "base_loop (Suc fuel) n r ts (str_len u) off prev fs is = base_loop fuel n r ts (str_len (u @ x)) (off + of_nat (str_len x)) l fs' is'"
      using s(1-4) len str_len_pos [OF False] by (subst base_loop.simps, unfold Let_def ce) simp
    moreover have "length y < fuel" using Suc.prems(5) xy(1,2) by (cases x) auto
    ultimately show ?thesis using Suc.IH [OF s(5), of y] Suc.prems(2-4) xy(1) by (simp del: base_loop.simps)
  qed
qed simp

lemma inserted_distinct: "inserted ts off t ps \<Longrightarrow> distinct (map identity (cells_all ps))"
  using enumerate_identities [of ts off "encode t"] by (simp add: inserted_def)

lemma base_found:
  assumes "base_built ts u ps off prev fs is"
  shows "found_in is ps"
proof -
  have "map (\<lambda>x. (insertion_key_of x, x)) (map (\<lambda>p. insertion_of (fst p)) ps) = map (\<lambda>p. (key_of (fst p), insertion_of (fst p))) ps"
    by (simp add: key_of_def)
  with assms show ?thesis unfolding base_built_def found_in_def lookup_def by metis
qed

lemma base_empty: "base_built ts [] [] 0 locator_min (tree_new fragment_ops) (tree_new insertion_ops)"
  by (simp add: base_built_def inserted_def ids_ok_def)

lemma base_undone: "\<not> undone (undo_abs (tree_new undo_ops)) e"
  by (rule not_undone) (simp add: undo_abs_def fun_eq_iff)

lemma base_snapshot_ok:
  assumes r: "rope_ok r t" and n: "4 \<le> n" "str_len t < 2 ^ 32" and fuel: "length t < fuel"
  obtains s ps where "base_snapshot fuel n replica remote ending r = Some s" "snapshot_ok s ps" "inserted (lamport_new LOCAL) 0 t ps"
    "bs_visible_text s = r" "bs_deleted_text s = rope_new" "bs_insertion_slices s = map_clear" "bs_undo_map s = tree_new undo_ops"
proof -
  let ?ts = "lamport_new LOCAL"
  obtain version where v: "global_observe global_new ?ts = Some version" by (simp add: global_observe_def lamport_new_def LOCAL_def lamport_MAX_def)
  from base_loop_ok [OF base_empty, of r t n fuel ?ts] r n fuel obtain fs "is" ps off prev where
    l: "base_loop fuel n r ?ts 0 0 locator_min (tree_new fragment_ops) (tree_new insertion_ops) = Some (fs, is)" "base_built ?ts t ps off prev fs is" by auto
  have len: "rope_len r = str_len t" using r rope_len_holds by (auto simp: rope_ok_def)
  define e where "e \<longleftrightarrow> t = []"
  define fs' where "fs' = (if e then tree_new fragment_ops else fs)"
  define is' where "is' = (if e then tree_new insertion_ops else is)"
  define version' where "version' = (if e then global_new else version)"
  have "\<exists>ps off prev. base_built ?ts t ps off prev fs' is'"
    using base_empty l(2) by (cases e) (auto simp: fs'_def is'_def e_def)
  then obtain ps off prev where b: "base_built ?ts t ps off prev fs' is'" by blast
  let ?s = "\<lparr>bs_visible_text = r, bs_deleted_text = rope_new, bs_fragments = fs', bs_insertions = is', bs_insertion_slices = map_clear,
    bs_undo_map = tree_new undo_ops, bs_version = version', bs_remote_id = remote, bs_replica_id = replica, bs_line_ending = ending\<rparr>"
  have s: "base_snapshot fuel n replica remote ending r = Some ?s"
    using l(1) v len by (simp add: base_snapshot_def rope_is_empty_def fs'_def is'_def version'_def e_def)
  have i: "inserted ?ts 0 t ps" using b by (simp add: base_built_def)
  have "snapshot_ok ?s ps"
    using b r base_found [OF b] inserted_vis [OF i] inserted_distinct [OF i] i new_ok
    by (auto simp: snapshot_ok_def base_built_def inserted_def edits_to_def new_piece_def valid_map_def map_clear_def valid_undo_new shown_def
      not_undone map_abs_def entries_def base_undone) (simp_all add: lamport_new_def lamport_MIN_def)
  with s i that show thesis by simp
qed

section \<open>Room for small texts\<close>

lemma push_chunk_new: "push_chunk rope_new c = Some r \<Longrightarrow> height r = 0"
  by (auto simp: push_chunk_def rope_new_def tree_new_def tree_last_def update_last_def tree_push_def tree_append_def bind_eq_Some_conv split: if_splits)

lemma new_height: "height (tree_new ops) = 0"
  by (simp add: tree_new_def)

lemma push_new_height: "tree_push ops (tree_new ops) x = Some t \<Longrightarrow> height t = 0"
  by (auto simp: tree_push_def tree_new_def tree_append_def bind_eq_Some_conv split: if_splits)

lemma small_rope_fits:
  assumes "length (elems r) \<le> 1"
  shows "slices_fit r"
proof -
  have "slice_fits rc e \<and> (\<forall>rc' q. rc_slice rc e = Some (rc', q) \<longrightarrow> height q < STACK_CAPACITY)" if rc: "rc_rope rc = r" "rc_at rc a b" for rc a b e
  proof -
    from rc obtain as bs where c: "usize.stands (rc_chunks rc) as bs" "c_tree (rc_chunks rc) = r" by (auto simp: rc_at_def)
    then have h: "holds r (as @ bs)" and small: "length (as @ bs) \<le> 1"
      using assms by (auto simp: usize.stands_def holds_def dest: arg_cong [where f = length])
    have e: "cursor_end usize_dim (rc_chunks rc) = Some (rope_len r)"
      using usize.stands_reads(3) [OF c(1)] small rope_len_holds [OF h] by (cases bs) auto
    have "height q = 0" if q: "rc_slice rc e = Some (rc', q)" for rc' q
    proof -
      have "q = rope_new \<or> (\<exists>c. push_chunk rope_new c = Some q)"
        using q rc(1) e by (auto simp: rc_slice_def bind_eq_Some_conv split: option.splits if_splits)
      then show ?thesis using push_chunk_new by (auto simp: rope_new_def tree_new_def)
    qed
    with slice_fits_last [OF c(1)] small show ?thesis by (auto simp: STACK_CAPACITY_def)
  qed
  then show ?thesis unfolding slices_fit_def by blast
qed

lemma base_snapshot_fits:
  assumes r: "rope_ok r t" "length (elems r) \<le> 1" "height r = 0" and n: "str_len t \<le> n"
    and s: "base_snapshot (Suc (Suc fuel)) n replica remote ending r = Some s"
  shows "snapshot_fits s"
proof -
  have len: "rope_len r = str_len t" using r(1) rope_len_holds by (auto simp: rope_ok_def)
  then have "height fs = 0 \<and> height is = 0"
    if "base_loop (Suc (Suc fuel)) n r ts 0 0 locator_min (tree_new fragment_ops) (tree_new insertion_ops) = Some (fs, is)" for fs "is" ts
    using that n by (auto simp: new_height bind_eq_Some_conv Let_def min_def dest!: push_new_height split: if_splits)
  then have "height (bs_fragments s) = 0" "height (bs_insertions s) = 0"
    using s by (auto simp: base_snapshot_def bind_eq_Some_conv tree_new_def simp del: base_loop.simps split: if_splits)
  moreover have "bs_visible_text s = r" "bs_deleted_text s = rope_new" "bs_insertion_slices s = map_clear"
    using s by (auto simp: base_snapshot_def bind_eq_Some_conv simp del: base_loop.simps)
  ultimately show ?thesis
    using r(2,3) small_rope_fits [of r] small_rope_fits [of rope_new]
    by (simp add: snapshot_fits_def has_room_def map_clear_def STACK_CAPACITY_def rope_new_def tree_new_def)
qed

end
