(* ===== verification/BufferUndo.thy ===== *)
theory BufferUndo
  imports BufferEdit "HOL-Library.Product_Lexorder"
begin

text \<open>
  Undo and redo on the fragments (\<open>crates/text/src/text.rs\<close>: \<open>fragment_ids_for_edits\<close>, \<open>apply_undo\<close>). An undo operation carries a count for each edit it
  undoes or redoes. The slices recorded for these edits lead to the insertions, these to the fragments, and for each of them
  visibility is computed anew from the undo map.

  Slices that differ in their edit only are left by the code's unstable sort in an unspecified order, here in the order in which they were found; this makes
  no difference, because the loop over them reads only the other fields. \<open>Reverse\<close> of an offset is its complement. The loops that follow a cursor have fuel, one unit for each item of the tree.
\<close>

section \<open>The fragments of some edits\<close>

fun slices_loop ::
  "nat \<Rightarrow> lamport \<Rightarrow> ((insertion_slice, unit) map_entry, insertion_slice option, insertion_slice option) cursor \<Rightarrow> insertion_slice list \<Rightarrow>
   insertion_slice list option" where
  "slices_loop 0 edit_id c found = None"
| "slices_loop (Suc fuel) edit_id c found = do {
     (entry, c') \<leftarrow> cursor_iter_next map_dim (\<lambda>_. True) c;
     case entry of
       None \<Rightarrow> Some found
     | Some e \<Rightarrow> if is_edit_id (me_key e) = edit_id then slices_loop fuel edit_id c' (found @ [me_key e]) else Some found
   }"

definition edit_slices :: "insertion_slice tree_set \<Rightarrow> lamport \<Rightarrow> insertion_slice list option" where
  "edit_slices slices edit_id = do {
     c \<leftarrow> iter_from slices (InsertionSlice edit_id lamport_MIN 0 0);
     slices_loop (Suc (count_items slices)) edit_id c []
   }"

fun slices_for_edits :: "insertion_slice tree_set \<Rightarrow> lamport list \<Rightarrow> insertion_slice list \<Rightarrow> insertion_slice list option" where
  "slices_for_edits slices [] found = Some found"
| "slices_for_edits slices (edit_id # edit_ids) found = do {
     ss \<leftarrow> edit_slices slices edit_id;
     slices_for_edits slices edit_ids (found @ ss)
   }"

definition slice_order :: "insertion_slice \<Rightarrow> lamport \<times> u32 \<times> u32" where
  "slice_order s = (is_insertion_id s, is_start s, - 1 - is_end s)"

type_synonym insertion_cursor = "(insertion_fragment, insertion_key, insertion_key) cursor"

fun slice_fragments_loop :: "nat \<Rightarrow> insertion_slice \<Rightarrow> insertion_cursor \<Rightarrow> locator list \<Rightarrow> (insertion_cursor \<times> locator list) option" where
  "slice_fragments_loop 0 sl c fragment_ids = None"
| "slice_fragments_loop (Suc fuel) sl c fragment_ids = do {
     item \<leftarrow> cursor_item c;
     case item of
       None \<Rightarrow> Some (c, fragment_ids)
     | Some i \<Rightarrow>
         if if_timestamp i \<noteq> is_insertion_id sl \<or> if_split_offset i \<ge> is_end sl then Some (c, fragment_ids)
         else do {
           c' \<leftarrow> cursor_next insertion_dim c;
           slice_fragments_loop fuel sl c' (fragment_ids @ [if_fragment_id i])
         }
   }"

text \<open>On to the first fragment of a slice, unless the cursor is past its start already.\<close>

definition seek_slice :: "insertion_slice \<Rightarrow> insertion_cursor \<Rightarrow> insertion_cursor option" where
  "seek_slice sl c =
     (if is_insertion_id sl \<noteq> ik_timestamp (cursor_start c) \<or> is_start sl > ik_split_offset (cursor_start c)
      then map_option fst (cursor_seek_forward insertion_dim (ord_cmp (InsertionFragmentKey (is_insertion_id sl) (is_start sl))) Left c)
      else Some c)"

fun slices_fragments :: "nat \<Rightarrow> insertion_slice list \<Rightarrow> insertion_cursor \<Rightarrow> locator list \<Rightarrow> locator list option" where
  "slices_fragments fuel [] c fragment_ids = Some fragment_ids"
| "slices_fragments fuel (sl # slices) c fragment_ids = do {
     c1 \<leftarrow> seek_slice sl c;
     (c2, ids) \<leftarrow> slice_fragments_loop fuel sl c1 fragment_ids;
     slices_fragments fuel slices c2 ids
   }"

definition fragment_ids_for_edits :: "buffer_snapshot \<Rightarrow> lamport list \<Rightarrow> locator list option" where
  "fragment_ids_for_edits s edit_ids = do {
     slices \<leftarrow> slices_for_edits (bs_insertion_slices s) edit_ids [];
     fragment_ids \<leftarrow> slices_fragments (Suc (count_items (bs_insertions s))) (sort_key slice_order slices) (cursor_new insertion_dim (bs_insertions s)) [];
     Some (sort fragment_ids)
   }"

section \<open>Undo\<close>

text \<open>\<open>Dimensions<Option<&Locator>, usize>\<close> and the target \<open>Some(fragment_id)\<close> in it.\<close>

definition id_visible_dim :: "(fragment_summary, locator option \<times> nat) dimension" where
  "id_visible_dim = \<lparr>d_zero = (d_zero fragment_id_dim, d_zero visible_dim),
     d_add = (\<lambda>(l, n) s. (d_add fragment_id_dim l s, d_add visible_dim n s))\<rparr>"

definition id_target :: "locator \<Rightarrow> locator option \<times> nat \<Rightarrow> ordering" where
  "id_target l d = ord_cmp (Some l) (fst d)"

record undo_state =
  us_old :: "(fragment, fragment_summary, locator option \<times> nat) cursor"
  us_new :: fragment_tree
  us_ropes :: rope_builder
  us_patch :: patch

definition undo_slice :: "locator \<Rightarrow> undo_state \<Rightarrow> undo_state option" where
  "undo_slice fragment_id st = do {
     (c, preceding) \<leftarrow> cursor_slice fragment_ops id_visible_dim (id_target fragment_id) Left (us_old st);
     ropes \<leftarrow> rb_append (us_ropes st) (fs_text (summary preceding));
     new \<leftarrow> tree_append fragment_ops (us_new st) preceding;
     Some (st\<lparr>us_old := c, us_ropes := ropes, us_new := new\<rparr>)
   }"

definition undo_fragment :: "undo_map \<Rightarrow> lamport \<Rightarrow> fragment \<Rightarrow> undo_state \<Rightarrow> undo_state option" where
  "undo_fragment undos timestamp old_fragment st = do {
     let fragment_was_visible = fr_visible old_fragment;
     now_visible \<leftarrow> is_visible old_fragment undos;
     let f = old_fragment\<lparr>fr_visible := now_visible, fr_max_undos := version_observe (fr_max_undos old_fragment) timestamp\<rparr>;
     let old_start0 = snd (cursor_start (us_old st));
     let new_start0 = ft_visible (fs_text (summary (us_new st)));
     let edits =
       (if fragment_was_visible \<and> \<not> now_visible
        then patch_push (us_patch st) \<lparr>old_start = old_start0, old_end = old_start0 + unat (fr_len f), new_start = new_start0, new_end = new_start0\<rparr>
        else if \<not> fragment_was_visible \<and> now_visible
        then patch_push (us_patch st) \<lparr>old_start = old_start0, old_end = old_start0, new_start = new_start0, new_end = new_start0 + unat (fr_len f)\<rparr>
        else us_patch st);
     ropes \<leftarrow> rb_push_fragment (us_ropes st) f fragment_was_visible;
     new \<leftarrow> tree_push fragment_ops (us_new st) f;
     c \<leftarrow> cursor_next id_visible_dim (us_old st);
     Some (st\<lparr>us_patch := edits, us_ropes := ropes, us_new := new, us_old := c\<rparr>)
   }"

fun undo_loop :: "undo_map \<Rightarrow> lamport \<Rightarrow> locator list \<Rightarrow> undo_state \<Rightarrow> undo_state option" where
  "undo_loop undos timestamp [] st = Some st"
| "undo_loop undos timestamp (fragment_id # fragment_ids) st = do {
     st1 \<leftarrow> undo_slice fragment_id st;
     item \<leftarrow> cursor_item (us_old st1);
     st2 \<leftarrow> (case item of Some f \<Rightarrow> undo_fragment undos timestamp f st1 | None \<Rightarrow> Some st1);
     undo_loop undos timestamp fragment_ids st2
   }"

text \<open>The snapshot after the operation, and the patch that is published to the subscriptions.\<close>

definition apply_undo :: "buffer_snapshot \<Rightarrow> undo_operation \<Rightarrow> (buffer_snapshot \<times> patch) option" where
  "apply_undo s undo = do {
     undos \<leftarrow> undo_insert (bs_undo_map s) undo;
     v \<leftarrow> cursor_new_at (bs_visible_text s) 0;
     d \<leftarrow> cursor_new_at (bs_deleted_text s) 0;
     fragment_ids \<leftarrow> fragment_ids_for_edits s (map fst (uo_counts undo));
     st \<leftarrow> undo_loop undos (uo_timestamp undo) fragment_ids
       \<lparr>us_old = cursor_new id_visible_dim (bs_fragments s), us_new = tree_new fragment_ops, us_ropes = rb_new v d, us_patch = []\<rparr>;
     (c, suffix) \<leftarrow> cursor_suffix fragment_ops id_visible_dim (us_old st);
     ropes \<leftarrow> rb_append (us_ropes st) (fs_text (summary suffix));
     new \<leftarrow> tree_append fragment_ops (us_new st) suffix;
     (visible_text, deleted_text) \<leftarrow> rb_finish ropes;
     Some (s\<lparr>bs_undo_map := undos, bs_fragments := new, bs_visible_text := visible_text, bs_deleted_text := deleted_text\<rparr>, us_patch st)
   }"

end
