(* ===== verification/BufferUndo_Correct.thy ===== *)
theory BufferUndo_Correct
  imports BufferUndo Snapshot
begin

text \<open>
  Undo is correct: the slices of the undone edits lead to every fragment whose visibility can change, so that after \<open>apply_undo\<close> every fragment is
  visible exactly if the undo map says so, and the snapshot satisfies its invariant again.
\<close>

section \<open>The slices of an edit\<close>

context tree_dimension
begin

lemma iter_some:
  assumes "wf_tree ops (c_tree c)" "height (c_tree c) < STACK_CAPACITY" "cursor_at ops dim c n" "n < length (elems (c_tree c))"
  shows "\<exists>c'. cursor_iter_next dim (\<lambda>_. True) c = Some (Some (elems (c_tree c) ! n), c') \<and> c_tree c' = c_tree c \<and> cursor_at ops dim c' (Suc n)"
proof -
  from next_correct [OF assms] obtain c' where "cursor_next dim c = Some c'" "c_tree c' = c_tree c" "cursor_at ops dim c' (Suc n)" by blast
  moreover have "cursor_item c = Some (Some (elems (c_tree c) ! n))" "c_did_seek c"
    using cursor_item_at(1) [OF assms(3,1)] assms(3,4) by (simp_all add: get_opt_def cursor_at_def)
  ultimately show ?thesis by (simp add: cursor_iter_next_def cursor_next_def)
qed

lemma iter_none:
  assumes "wf_tree ops (c_tree c)" "cursor_at ops dim c (length (elems (c_tree c)))"
  shows "cursor_iter_next dim (\<lambda>_. True) c = Some (None, c)"
  using cursor_item_at(1) [OF assms(2,1)] assms(2) by (simp add: cursor_iter_next_def get_opt_def cursor_at_def)

end

lemma slices_loop_ok:
  assumes "wf_tree map_ops (c_tree c)" "height (c_tree c) < STACK_CAPACITY" "cursor_at map_ops map_dim c n" "length (elems (c_tree c)) < n + fuel"
  shows "slices_loop fuel e c found = Some (found @ takeWhile (\<lambda>s. is_edit_id s = e) (map me_key (drop n (elems (c_tree c)))))"
  using assms
proof (induction fuel arbitrary: c n found)
  case 0
  then show ?case by (simp add: cursor_at_def)
next
  case (Suc fuel)
  show ?case
  proof (cases "n < length (elems (c_tree c))")
    case False
    then have "n = length (elems (c_tree c))" using Suc.prems(3) by (simp add: cursor_at_def)
    with map.iter_none [of c] Suc.prems show ?thesis by simp
  next
    case True
    obtain c' where c': "cursor_iter_next map_dim (\<lambda>_. True) c = Some (Some (elems (c_tree c) ! n), c')" "c_tree c' = c_tree c"
      "cursor_at map_ops map_dim c' (Suc n)"
      using map.iter_some [OF Suc.prems(1-3) True] by blast
    have "drop n (elems (c_tree c)) = elems (c_tree c) ! n # drop (Suc n) (elems (c_tree c))" using True by (simp add: Cons_nth_drop_Suc)
    with c' Suc.IH [of c' "Suc n"] Suc.prems show ?thesis by simp
  qed
qed

lemma slice_first: "InsertionSlice e lamport_MIN 0 0 \<le> s \<longleftrightarrow> e \<le> is_edit_id s"
  using lamport_MIN_le [of "is_insertion_id s"]
  by (cases s) (auto simp: less_eq_insertion_slice_def less_insertion_slice_def word_gt_0 less_eq_lamport_def)

lemma takeWhile_slices:
  assumes "sorted_wrt (<) xs" "\<forall>x \<in> set xs. e \<le> is_edit_id x"
  shows "takeWhile (\<lambda>s. is_edit_id s = e) xs = filter (\<lambda>s. is_edit_id s = e) xs"
  using assms
proof (induction xs)
  case (Cons x xs)
  have edit_le: "is_edit_id a \<le> is_edit_id b" if "a < b" for a b :: insertion_slice
    using that by (cases a; cases b) (auto simp: less_insertion_slice_def)
  show ?case
  proof (cases "is_edit_id x = e")
    case False
    with Cons.prems have "e < is_edit_id x" by fastforce
    then have "\<forall>y \<in> set xs. is_edit_id y \<noteq> e" using Cons.prems(1) edit_le by fastforce
    with False show ?thesis by simp
  qed (use Cons in auto)
qed simp

lemma edit_slices_ok:
  assumes "valid_map sl" "has_room sl"
  shows "edit_slices sl e = Some (filter (\<lambda>s. is_edit_id s = e) (map me_key (elems sl)))"
proof -
  let ?k = "Some (InsertionSlice e lamport_MIN 0 0)" and ?xs = "elems sl"
  have wf: "wf_tree map_ops sl" "height sl < STACK_CAPACITY" and s: "sorted_keys entry_key ?xs"
    using assms by (simp_all add: valid_map_def has_room_def)
  obtain c where c: "cursor_seek map_dim (ord_cmp ?k) Left (cursor_new map_dim sl) = Some c" "c_tree (fst c) = sl"
    "cursor_at map_ops map_dim (fst c) (length (below entry_key ?k ?xs))"
    using map.seek_correct [of "cursor_new map_dim sl" "ord_cmp ?k" _ Left] wf map.keyed_stop(1,2) [OF s, of None 0 ?k]
    by (auto simp: cursor_new_def is_ge_def map_dim_def)
  have it: "iter_from sl (InsertionSlice e lamport_MIN 0 0) = Some (fst c)" using c(1) by (simp add: iter_from_def)
  have d: "drop (length (below entry_key ?k ?xs)) ?xs = not_below entry_key ?k ?xs" by (rule drop_below)
  have "is_edit_id (me_key x) \<noteq> e" if "x \<in> set (below entry_key ?k ?xs)" for x
    using set_below [OF that] slice_first [of e "me_key x"] by (auto simp: entry_key_def not_less [symmetric])
  then have "filter (\<lambda>s. is_edit_id s = e) (map me_key (below entry_key ?k ?xs)) = []" by (auto simp: filter_empty_conv)
  then have "filter (\<lambda>s. is_edit_id s = e) (map me_key ?xs) = filter (\<lambda>s. is_edit_id s = e) (map me_key (not_below entry_key ?k ?xs))"
    using arg_cong [OF below_not_below [of entry_key ?k ?xs, symmetric], of "map me_key"] by simp
  also have "\<dots> = takeWhile (\<lambda>s. is_edit_id s = e) (map me_key (not_below entry_key ?k ?xs))"
  proof (rule takeWhile_slices [symmetric])
    show "sorted_wrt (<) (map me_key (not_below entry_key ?k ?xs))"
      using sorted_keys_below_beyond(3) [OF s] by (simp add: sorted_keys_def sorted_wrt_map entry_key_def)
    show "\<forall>x \<in> set (map me_key (not_below entry_key ?k ?xs)). e \<le> is_edit_id x"
      using set_not_below [OF s] slice_first by (fastforce simp: entry_key_def)
  qed
  finally show ?thesis
    using slices_loop_ok [of "fst c" "length (below entry_key ?k ?xs)" "Suc (count_items sl)" e "[]"] c it wf d
    by (simp add: edit_slices_def count_items_elems)
qed

lemma slices_for_edits_ok:
  assumes "valid_map sl" "has_room sl"
  shows "\<exists>ss. slices_for_edits sl es found = Some (found @ ss) \<and> set ss = {s \<in> dom (map_abs sl). is_edit_id s \<in> set es}"
proof (induction es arbitrary: found)
  case (Cons e es)
  have "dom (map_abs sl) = set (map me_key (elems sl))" by (force simp: map_abs_def entries_def dom_map_of_conv_image_fst)
  moreover from Cons.IH obtain ss where "slices_for_edits sl es (found @ filter (\<lambda>s. is_edit_id s = e) (map me_key (elems sl))) =
      Some ((found @ filter (\<lambda>s. is_edit_id s = e) (map me_key (elems sl))) @ ss)" "set ss = {s \<in> dom (map_abs sl). is_edit_id s \<in> set es}"
    by blast
  ultimately show ?case using edit_slices_ok [OF assms, of e]
    by (intro exI [of _ "filter (\<lambda>s. is_edit_id s = e) (map me_key (elems sl)) @ ss"]) auto
qed simp

section \<open>The fragments of slices\<close>

context tree_dimension
begin

lemma seek_forward_correct:
  assumes "wf_tree ops (c_tree c)" "height (c_tree c) < STACK_CAPACITY" "cursor_ready ops dim c n"
    and "is_ge (target (c_position c))"
    and "mono_target target (item_ends ops dim (c_position c) (drop n (elems (c_tree c))))"
    and "k = stop_at ops dim target bias (c_position c) (drop n (elems (c_tree c)))"
  shows "\<exists>c' found. cursor_seek_forward dim target bias c = Some (c', found) \<and> c_tree c' = c_tree c \<and> cursor_at ops dim c' (n + k)"
  using unit.seek_internal_correct [OF assms(1-5) _ assms(6), of "()"] by (auto simp: cursor_seek_forward_def)

end

context keyed_tree
begin

lemma keyed_seek_forward:
  assumes "wf_tree ops (c_tree c)" "height (c_tree c) < STACK_CAPACITY" "cursor_ready ops kdim c n"
    and "sorted_keys key (elems (c_tree c))" "c_position c \<le> k"
  shows "\<exists>c' found. cursor_seek_forward kdim (ord_cmp k) Left c = Some (c', found) \<and> c_tree c' = c_tree c \<and>
    cursor_at ops kdim c' (n + length (below key k (drop n (elems (c_tree c)))))"
proof -
  note p = cursor_ready_position [OF assms(3)]
  have "is_ge (ord_cmp k (c_position c))" using assms(5) by (simp add: is_ge_def not_less)
  from seek_forward_correct [OF assms(1-3) this keyed_stop(1) [OF assms(4) p] refl, of Left] keyed_stop(2) [OF assms(4) p, of k]
  show ?thesis by simp
qed

end

definition before_end :: "insertion_slice \<Rightarrow> insertion_fragment \<Rightarrow> bool" where
  "before_end s i \<longleftrightarrow> if_timestamp i = is_insertion_id s \<and> if_split_offset i < is_end s"

definition within_slice :: "insertion_slice \<Rightarrow> insertion_fragment \<Rightarrow> bool" where
  "within_slice s i \<longleftrightarrow> before_end s i \<and> is_start s \<le> if_split_offset i"

definition slice_key :: "insertion_slice \<Rightarrow> insertion_key" where
  "slice_key s = InsertionFragmentKey (is_insertion_id s) (is_start s)"

lemma slice_fragments_ok:
  assumes "wf_tree insertion_ops (c_tree c)" "height (c_tree c) < STACK_CAPACITY" "cursor_at insertion_ops insertion_dim c n"
    and "length (elems (c_tree c)) < n + fuel" "ys = takeWhile (before_end s) (drop n (elems (c_tree c)))"
  shows "\<exists>c'. slice_fragments_loop fuel s c ids = Some (c', ids @ map if_fragment_id ys) \<and> c_tree c' = c_tree c \<and>
    cursor_at insertion_ops insertion_dim c' (n + length ys)"
  using assms
proof (induction fuel arbitrary: c n ids ys)
  case 0
  then show ?case by (simp add: cursor_at_def)
next
  case (Suc fuel)
  let ?xs = "elems (c_tree c)"
  have item: "cursor_item c = Some (get_opt ?xs n)" by (rule cursor_item_at(1) [OF Suc.prems(3,1)])
  show ?case
  proof (cases "n < length ?xs \<and> before_end s (?xs ! n)")
    case False
    then have "ys = []" using Suc.prems(5) by (cases "n < length ?xs") (simp_all add: Cons_nth_drop_Suc [symmetric])
    with False item Suc.prems(3) show ?thesis by (auto simp: get_opt_def before_end_def)
  next
    case True
    have d: "drop n ?xs = ?xs ! n # drop (Suc n) ?xs" using True by (simp add: Cons_nth_drop_Suc)
    obtain c' where c': "cursor_next insertion_dim c = Some c'" "c_tree c' = c_tree c" "cursor_at insertion_ops insertion_dim c' (Suc n)"
      using ins.next_correct [OF Suc.prems(1-3)] True by blast
    let ?ys = "takeWhile (before_end s) (drop (Suc n) ?xs)"
    have ys: "ys = ?xs ! n # ?ys" using True Suc.prems(5) by (simp add: d)
    from Suc.IH [of c' "Suc n" ?ys "ids @ [if_fragment_id (?xs ! n)]"] c' Suc.prems obtain c'' where
      "slice_fragments_loop fuel s c' (ids @ [if_fragment_id (?xs ! n)]) = Some (c'', (ids @ [if_fragment_id (?xs ! n)]) @ map if_fragment_id ?ys)"
      "c_tree c'' = c_tree c" "cursor_at insertion_ops insertion_dim c'' (Suc n + length ?ys)" by auto
    with item c'(1) True show ?thesis unfolding ys by (auto simp: get_opt_def before_end_def)
  qed
qed

text \<open>In sorted insertions that all lie behind the start of a slice, those of the slice come first.\<close>

lemma behind_start:
  assumes "sorted_keys insertion_key_of xs" "\<forall>x \<in> set xs. slice_key s \<le> insertion_key_of x"
  shows "set (takeWhile (before_end s) xs) = {x \<in> set xs. within_slice s x}"
  using assms
proof (induction xs)
  case (Cons x xs)
  show ?case
  proof (cases "before_end s x")
    case True
    then have "within_slice s x" using Cons.prems(2)
      by (auto simp: within_slice_def before_end_def slice_key_def insertion_key_of_def less_eq_insertion_key_def less_insertion_key_def)
    with True Cons show ?thesis by auto
  next
    case False
    have "\<not> within_slice s y" if "y \<in> set xs" for y
    proof
      assume w: "within_slice s y"
      have "insertion_key_of x < insertion_key_of y" "slice_key s \<le> insertion_key_of x" using that Cons.prems by simp_all
      then have a: "if_timestamp x < is_insertion_id s \<or> if_timestamp x = is_insertion_id s \<and> if_split_offset x < if_split_offset y"
        and b: "is_insertion_id s = if_timestamp x \<or> is_insertion_id s < if_timestamp x"
        using w unfolding within_slice_def before_end_def slice_key_def insertion_key_of_def less_eq_insertion_key_def less_insertion_key_def
        by (metis insertion_key.sel, metis insertion_key.sel)
      then have "if_timestamp x = is_insertion_id s" "if_split_offset x < if_split_offset y" by (metis less_asym)+
      with w False show False by (auto simp: within_slice_def before_end_def)
    qed
    with False show ?thesis by (auto simp: within_slice_def)
  qed
qed simp

lemma key_le_slice:
  assumes "if_timestamp i \<le> is_insertion_id s" "is_insertion_id s \<noteq> if_timestamp i \<or> if_split_offset i < is_start s"
  shows "insertion_key_of i \<le> slice_key s"
  using assms by (auto simp: slice_key_def insertion_key_of_def less_eq_insertion_key_def less_insertion_key_def less_le)

lemma seek_slice_ok:
  assumes wf: "wf_tree insertion_ops (c_tree c)" "height (c_tree c) < STACK_CAPACITY" "sorted_keys insertion_key_of (elems (c_tree c))"
    and c: "cursor_ready insertion_ops insertion_dim c n" and s: "is_insertion_id s \<noteq> lamport_MIN"
    and le: "\<forall>i \<in> set (take n (elems (c_tree c))). if_timestamp i \<le> is_insertion_id s"
  obtains c' m where "seek_slice s c = Some c'" "c_tree c' = c_tree c" "cursor_at insertion_ops insertion_dim c' m" "n \<le> m"
    "\<forall>x \<in> set (drop m (elems (c_tree c))). slice_key s \<le> insertion_key_of x"
    "\<forall>x \<in> set (drop n (take m (elems (c_tree c)))). insertion_key_of x < slice_key s"
proof -
  let ?xs = "elems (c_tree c)"
  have sorted: "sorted_keys insertion_key_of (take n ?xs)" "sorted_keys insertion_key_of (drop n ?xs)"
    "\<forall>x \<in> set (take n ?xs). \<forall>y \<in> set (drop n ?xs). insertion_key_of x < insertion_key_of y"
    using wf(3) sorted_keys_simps(3) [of insertion_key_of "take n ?xs" "drop n ?xs"] by simp_all
  have pos: "cursor_start c = (if take n ?xs = [] then InsertionFragmentKey lamport_MIN 0 else insertion_key_of (last (take n ?xs)))"
    using cursor_ready_position [OF c] ins.keyed_position [OF sorted(1), of "InsertionFragmentKey lamport_MIN 0"] insertion_zero_least
    by (simp add: cursor_start_def insertion_dim_def)
  show thesis
  proof (cases "is_insertion_id s \<noteq> ik_timestamp (cursor_start c) \<or> is_start s > ik_split_offset (cursor_start c)")
    case True
    have "cursor_start c \<le> slice_key s"
    proof (cases "take n ?xs = []")
      case False
      then have "last (take n ?xs) \<in> set (take n ?xs)" by (rule last_in_set)
      with True False pos le key_le_slice [of "last (take n ?xs)" s] show ?thesis by (auto simp: insertion_key_of_def)
    qed (simp add: pos insertion_zero_least)
    with ins.keyed_seek_forward [OF wf(1,2) c wf(3), of "slice_key s"] obtain c' found where
      c': "cursor_seek_forward insertion_dim (ord_cmp (slice_key s)) Left c = Some (c', found)" "c_tree c' = c_tree c"
      "cursor_at insertion_ops insertion_dim c' (n + length (below insertion_key_of (slice_key s) (drop n ?xs)))" by (auto simp: cursor_start_def)
    have d: "drop (n + length (below insertion_key_of (slice_key s) (drop n ?xs))) ?xs = not_below insertion_key_of (slice_key s) (drop n ?xs)"
      using drop_below [of insertion_key_of "slice_key s" "drop n ?xs"] by (simp add: add.commute)
    have t: "drop n (take (n + length (below insertion_key_of (slice_key s) (drop n ?xs))) ?xs) = below insertion_key_of (slice_key s) (drop n ?xs)"
      using take_below [of insertion_key_of "slice_key s" "drop n ?xs"] by (simp add: drop_take)
    show thesis
      by (rule that [OF _ c'(2,3)])
        (use True c'(1) d t in \<open>auto simp: seek_slice_def slice_key_def dest: set_below set_not_below [OF sorted(2)]\<close>)
  next
    case False
    then have ne: "take n ?xs \<noteq> []" using pos s by (cases "take n ?xs = []") simp_all
    then have "cursor_at insertion_ops insertion_dim c n" using c by (auto simp: cursor_ready_def)
    moreover have "slice_key s \<le> insertion_key_of x" if "x \<in> set (drop n ?xs)" for x
    proof -
      let ?i = "last (take n ?xs)"
      have "insertion_key_of ?i < insertion_key_of x" using sorted(3) last_in_set [OF ne] that by blast
      moreover have "slice_key s \<le> insertion_key_of ?i"
        using False pos ne by (auto simp: slice_key_def insertion_key_of_def less_eq_insertion_key_def less_insertion_key_def not_less le_less)
      ultimately show ?thesis by simp
    qed
    ultimately show thesis by (intro that [of c n]) (use False in \<open>simp_all add: seek_slice_def\<close>)
  qed
qed

lemma slice_order_le: "slice_order s \<le> slice_order t \<Longrightarrow> slice_key s \<le> slice_key t"
  by (auto simp: slice_order_def slice_key_def less_eq_prod_def less_eq_insertion_key_def less_insertion_key_def)

lemma within_key: "within_slice s i \<Longrightarrow> slice_key s \<le> insertion_key_of i"
  by (auto simp: within_slice_def before_end_def slice_key_def insertion_key_of_def less_eq_insertion_key_def less_insertion_key_def)

lemma slices_fragments_ok:
  assumes wf: "wf_tree insertion_ops t" "height t < STACK_CAPACITY" "sorted_keys insertion_key_of (elems t)" "length (elems t) < fuel"
  shows "cursor_ready insertion_ops insertion_dim c n \<Longrightarrow> c_tree c = t \<Longrightarrow> sorted (map slice_order ss) \<Longrightarrow>
    \<forall>s \<in> set ss. is_insertion_id s \<noteq> lamport_MIN \<Longrightarrow> subseq zs (take n (elems t)) \<Longrightarrow>
    \<forall>i \<in> set (take n (elems t)). \<forall>s \<in> set ss. if_timestamp i \<le> is_insertion_id s \<and> (within_slice s i \<longrightarrow> i \<in> set zs) \<Longrightarrow>
    \<exists>ws. slices_fragments fuel ss c (map if_fragment_id zs) = Some (map if_fragment_id ws) \<and> subseq ws (elems t) \<and>
      set ws = set zs \<union> {i \<in> set (elems t). \<exists>s \<in> set ss. within_slice s i}"
proof (induction ss arbitrary: c n zs)
  case Nil
  have "subseq (take n (elems t)) (elems t)" by (metis append_take_drop_id list_emb_prefix subseq_order.order_refl)
  with Nil show ?case by (auto intro: subseq_order.trans)
next
  case (Cons s ss)
  let ?xs = "elems t"
  have le: "\<forall>i \<in> set (take n (elems (c_tree c))). if_timestamp i \<le> is_insertion_id s" and min: "is_insertion_id s \<noteq> lamport_MIN"
    using Cons.prems(2,4,6) by auto
  obtain c1 m where c1: "seek_slice s c = Some c1" "c_tree c1 = t" "cursor_at insertion_ops insertion_dim c1 m" "n \<le> m"
    "\<forall>x \<in> set (drop m ?xs). slice_key s \<le> insertion_key_of x" "\<forall>x \<in> set (drop n (take m ?xs)). insertion_key_of x < slice_key s"
    using seek_slice_ok [OF _ _ _ Cons.prems(1) min le] wf Cons.prems(2) by metis
  let ?ys = "takeWhile (before_end s) (drop m ?xs)"
  have fuel: "length (elems (c_tree c1)) < m + fuel" using wf(4) c1(2) by simp
  obtain c2 where c2: "slice_fragments_loop fuel s c1 (map if_fragment_id zs) = Some (c2, map if_fragment_id (zs @ ?ys))" "c_tree c2 = t"
    "cursor_at insertion_ops insertion_dim c2 (m + length ?ys)"
    using slice_fragments_ok [OF _ _ c1(3) fuel refl, of s "map if_fragment_id zs"] wf c1(2) by auto
  have ys: "set ?ys = {x \<in> set (drop m ?xs). within_slice s x}"
    by (rule behind_start [OF sorted_keys_take_drop(2) [OF wf(3)] c1(5)])
  have parts: "take (m + length ?ys) ?xs = take n ?xs @ drop n (take m ?xs) @ ?ys"
  proof -
    have "take (length ?ys) (drop m ?xs) = ?ys" by (metis takeWhile_eq_take)
    then have "take (m + length ?ys) ?xs = take m ?xs @ ?ys" by (simp add: take_add)
    moreover have "take m ?xs = take n ?xs @ drop n (take m ?xs)" using c1(4) by (metis append_take_drop_id min_absorb1 take_take)
    ultimately show ?thesis by simp
  qed
  have later: "slice_key s \<le> slice_key s'" "is_insertion_id s \<le> is_insertion_id s'" if "s' \<in> set ss" for s'
    using Cons.prems(3) that slice_order_le [of s s'] by (auto simp: slice_order_def less_eq_prod_def less_le)
  have old: "\<forall>i \<in> set (take (m + length ?ys) ?xs). \<forall>s' \<in> set ss. if_timestamp i \<le> is_insertion_id s' \<and> (within_slice s' i \<longrightarrow> i \<in> set (zs @ ?ys))"
  proof (intro ballI)
    fix i s'
    assume i: "i \<in> set (take (m + length ?ys) ?xs)" and s': "s' \<in> set ss"
    from i consider "i \<in> set (take n ?xs)" | "i \<in> set (drop n (take m ?xs))" | "i \<in> set ?ys" unfolding parts by auto
    then show "if_timestamp i \<le> is_insertion_id s' \<and> (within_slice s' i \<longrightarrow> i \<in> set (zs @ ?ys))"
    proof cases
      case 1
      with Cons.prems(6) s' show ?thesis by auto
    next
      case 2
      then have lt: "insertion_key_of i < slice_key s" using c1(6) by blast
      then have "if_timestamp i \<le> is_insertion_id s" by (auto simp: insertion_key_of_def slice_key_def less_insertion_key_def)
      moreover have "\<not> within_slice s' i" using lt later(1) [OF s'] within_key [of s' i] by (meson leD le_less_trans order_trans)
      ultimately show ?thesis using later(2) [OF s'] by (meson order_trans)
    next
      case 3
      then have "if_timestamp i = is_insertion_id s" using ys by (auto simp: within_slice_def before_end_def)
      with 3 later(2) [OF s'] show ?thesis by simp
    qed
  qed
  have sub: "subseq (zs @ ?ys) (take (m + length ?ys) ?xs)"
    unfolding parts using Cons.prems(5) by (metis append.assoc list_emb_append_mono list_emb_prefix subseq_order.order_refl)
  have ready: "cursor_ready insertion_ops insertion_dim c2 (m + length ?ys)" using c2(3) by (simp add: cursor_ready_def)
  from Cons.IH [OF ready c2(2) _ _ sub old] Cons.prems(3,4) obtain ws where
    ws: "slices_fragments fuel ss c2 (map if_fragment_id (zs @ ?ys)) = Some (map if_fragment_id ws)" "subseq ws ?xs"
    "set ws = set (zs @ ?ys) \<union> {i \<in> set ?xs. \<exists>s \<in> set ss. within_slice s i}" by auto
  have "set zs \<union> {i \<in> set ?xs. within_slice s i} = set (zs @ ?ys)"
  proof -
    have "i \<in> set zs \<union> set ?ys" if i: "i \<in> set ?xs" "within_slice s i" for i
    proof -
      have "set ?xs = set (take n ?xs) \<union> set (drop n (take m ?xs)) \<union> set (drop m ?xs)"
        using c1(4) by (metis append_take_drop_id min_absorb1 set_append take_take)
      moreover have "i \<notin> set (drop n (take m ?xs))" using c1(6) within_key [OF i(2)] by (meson leD)
      ultimately show ?thesis using i ys Cons.prems(6) by auto
    qed
    moreover have "set ?ys \<subseteq> {i \<in> set ?xs. within_slice s i}" using ys by (auto dest: in_set_dropD)
    ultimately show ?thesis by auto
  qed
  with ws c1(1) c2(1) show ?case by (intro exI [of _ ws]) auto
qed

section \<open>The fragments of some edits\<close>

lemma found_elems:
  assumes f: "found_in t ps" and d: "distinct (map (\<lambda>p. key_of (fst p)) ps)"
  shows "set (elems t) = (\<lambda>p. insertion_of (fst p)) ` set ps"
proof -
  have s: "sorted_keys insertion_key_of (elems t)" and l: "lookup insertion_key_of (elems t) = insertion_map ps" using f by (simp_all add: found_in_def)
  have "i \<in> set (elems t) \<longleftrightarrow> insertion_map ps (insertion_key_of i) = Some i" for i
    using lookup_Some [OF s, of "insertion_key_of i" i] by (simp add: l)
  moreover have "insertion_map ps (insertion_key_of i) = Some i \<longleftrightarrow> i \<in> (\<lambda>p. insertion_of (fst p)) ` set ps" for i
  proof
    assume "insertion_map ps (insertion_key_of i) = Some i"
    from map_of_SomeD [OF this] show "i \<in> (\<lambda>p. insertion_of (fst p)) ` set ps" by auto
  next
    assume "i \<in> (\<lambda>p. insertion_of (fst p)) ` set ps"
    then obtain p where "p \<in> set ps" "i = insertion_of (fst p)" by blast
    with found_Some [OF d, of p] show "insertion_map ps (insertion_key_of i) = Some i" by (simp add: key_of_def)
  qed
  ultimately show ?thesis by blast
qed

lemma ids_inj: "ids_ok (map fst ps) \<Longrightarrow> inj_on (\<lambda>p. fr_id (fst p)) (set ps) \<and> distinct (map (\<lambda>p. fr_id (fst p)) ps)"
proof -
  assume "ids_ok (map fst ps)"
  then have "sorted_wrt (<) (map (\<lambda>p. fr_id (fst p)) ps)" by (simp add: ids_ok_def comp_def)
  then have "distinct (map (\<lambda>p. fr_id (fst p)) ps)" by (simp add: strict_sorted_iff)
  then show ?thesis by (simp add: distinct_map)
qed

lemma subseq_distinct_map:
  assumes "subseq ws xs" "distinct xs" "inj_on f (set xs)"
  shows "distinct (map f ws)" "set ws \<subseteq> set xs"
proof -
  obtain N where n: "ws = nths xs N" using assms(1) by (auto simp: subseq_conv_nths)
  then show s: "set ws \<subseteq> set xs" by (simp add: set_nths_subset)
  show "distinct (map f ws)" using n s assms(2,3) inj_on_subset by (auto simp: distinct_map)
qed

text \<open>A fragment that an edit inserted or deleted lies within a slice of the edit.\<close>

lemma covers_within:
  assumes "covers sl p e" "texted p"
  obtains x where "x \<in> dom (map_abs sl)" "is_edit_id x = e" "within_slice x (insertion_of (fst p))"
proof -
  from assms(1) obtain a b where ab: "InsertionSlice e (fr_timestamp (fst p)) a b \<in> dom (map_abs sl)" "unat a \<le> unat (insertion_offset (fst p))"
    "unat (insertion_offset (fst p)) + str_len (snd p) \<le> unat b" by (auto simp: covers_def)
  moreover have "0 < str_len (snd p)" using assms(2) str_len_pos by (auto simp: texted_def)
  ultimately show thesis
    by (intro that [OF ab(1)]) (auto simp: within_slice_def before_end_def insertion_of_def word_le_nat_alt word_less_nat_alt)
qed

lemma fragment_ids_ok:
  assumes ok: "snapshot_ok s ps" "snapshot_fits s"
  obtains ids where "fragment_ids_for_edits s es = Some ids" "sorted_wrt (<) ids" "set ids \<subseteq> (\<lambda>p. fr_id (fst p)) ` set ps"
    "\<forall>p \<in> set ps. edits_to p \<inter> set es \<noteq> {} \<longrightarrow> fr_id (fst p) \<in> set ids"
proof -
  let ?sl = "bs_insertion_slices s" and ?t = "bs_insertions s"
  have inv: "\<forall>p \<in> set ps. texted p" "ids_ok (map fst ps)" "distinct (map identity (cells_all ps))" "found_in ?t ps" "valid_map ?sl"
    "\<forall>p \<in> set ps. \<forall>e \<in> edits_to p. covers ?sl p e" "\<forall>x \<in> dom (map_abs ?sl). is_insertion_id x \<noteq> lamport_MIN"
    and fit: "height ?t < STACK_CAPACITY" "has_room ?sl"
    using ok by (simp_all add: snapshot_ok_def snapshot_fits_def)
  have t: "wf_tree insertion_ops ?t" "sorted_keys insertion_key_of (elems ?t)" using inv(4) by (simp_all add: found_in_def)
  have items: "set (elems ?t) = (\<lambda>p. insertion_of (fst p)) ` set ps" by (rule found_elems [OF inv(4) keys_distinct [OF inv(1,3)]])
  from slices_for_edits_ok [OF inv(5) fit(2), of es "[]"] obtain ss where ss: "slices_for_edits ?sl es [] = Some ss"
    "set ss = {x \<in> dom (map_abs ?sl). is_edit_id x \<in> set es}" by auto
  let ?ss = "sort_key slice_order ss" and ?c = "cursor_new insertion_dim ?t"
  have ready: "cursor_ready insertion_ops insertion_dim ?c 0" "c_tree ?c = ?t" by (simp add: cursor_ready_def, simp add: cursor_new_def)
  have "sorted (map slice_order ?ss)" "\<forall>x \<in> set ?ss. is_insertion_id x \<noteq> lamport_MIN" using ss(2) inv(7) by simp_all
  from slices_fragments_ok [OF t(1) fit(1) t(2), of "Suc (count_items ?t)", OF _ ready this, of "[]"] obtain ws where
    ws: "slices_fragments (Suc (count_items ?t)) ?ss ?c [] = Some (map if_fragment_id ws)" "subseq ws (elems ?t)"
    "set ws = {i \<in> set (elems ?t). \<exists>x \<in> set ss. within_slice x i}" by (auto simp: count_items_elems)
  let ?ids = "sort (map if_fragment_id ws)"
  have "inj_on if_fragment_id (set (elems ?t))" unfolding items using ids_inj [OF inv(2)] by (auto simp: inj_on_def insertion_of_def)
  moreover have "distinct (elems ?t)" using t(2) by (auto simp: sorted_keys_def sorted_wrt_map [symmetric] strict_sorted_iff distinct_map)
  ultimately have "distinct (map if_fragment_id ws)" by (intro subseq_distinct_map(1) [OF ws(2)])
  then have "sorted_wrt (<) ?ids" by (simp add: strict_sorted_iff)
  moreover have "set ?ids \<subseteq> (\<lambda>p. fr_id (fst p)) ` set ps" using ws(3) items by (force simp: insertion_of_def)
  moreover have "fr_id (fst p) \<in> set ?ids" if p: "p \<in> set ps" "edits_to p \<inter> set es \<noteq> {}" for p
  proof -
    from p(2) obtain e where e: "e \<in> edits_to p" "e \<in> set es" by blast
    with inv(1,6) p(1) have "covers ?sl p e" "texted p" by blast+
    from covers_within [OF this] obtain x where "x \<in> dom (map_abs ?sl)" "is_edit_id x = e" "within_slice x (insertion_of (fst p))" .
    with e(2) ss(2) ws(3) items p(1) have "insertion_of (fst p) \<in> set ws" by blast
    then have "if_fragment_id (insertion_of (fst p)) \<in> if_fragment_id ` set ws" by (rule imageI)
    then show ?thesis by (simp add: insertion_of_def)
  qed
  ultimately show thesis using that [of ?ids] ss(1) ws(1) by (simp add: fragment_ids_for_edits_def)
qed

section \<open>Visibility\<close>

lemma is_undone_ok: "valid_undo_map m \<Longrightarrow> has_room m \<Longrightarrow> is_undone m e = Some (undone (undo_abs m) e)"
  by (simp add: is_undone_def undo_count_def undo_count_where_correct undone_def)

lemma all_deletions_ok: "(\<And>d. P d = Some (Q d)) \<Longrightarrow> all_deletions P ds = Some (\<forall>d \<in> set ds. Q d)"
  by (induction ds) auto

lemma is_visible_ok: "valid_undo_map m \<Longrightarrow> has_room m \<Longrightarrow> is_visible f m = Some (shown (undo_abs m) f)"
  using all_deletions_ok [of "is_undone m" "undone (undo_abs m)" "fr_deletions f"] by (simp add: is_visible_def is_undone_ok shown_def)

text \<open>What an undo makes of a fragment.\<close>

definition undo_piece :: "(lamport \<Rightarrow> lamport \<rightharpoonup> u32) \<Rightarrow> lamport \<Rightarrow> locator set \<Rightarrow> piece \<Rightarrow> piece" where
  "undo_piece counts ts ids p = (if fr_id (fst p) \<in> ids
     then ((fst p)\<lparr>fr_visible := shown counts (fst p), fr_max_undos := version_observe (fr_max_undos (fst p)) ts\<rparr>, snd p) else p)"

lemma undo_piece_simps [simp]:
  "fr_id (fst (undo_piece counts ts ids p)) = fr_id (fst p)" "fr_timestamp (fst (undo_piece counts ts ids p)) = fr_timestamp (fst p)"
  "insertion_offset (fst (undo_piece counts ts ids p)) = insertion_offset (fst p)" "fr_len (fst (undo_piece counts ts ids p)) = fr_len (fst p)"
  "fr_deletions (fst (undo_piece counts ts ids p)) = fr_deletions (fst p)" "snd (undo_piece counts ts ids p) = snd p"
  by (simp_all add: undo_piece_def)

lemma undo_piece_keeps [simp]:
  "texted (undo_piece counts ts ids p) = texted p" "cells_of (undo_piece counts ts ids p) = cells_of p"
  "insertion_of (fst (undo_piece counts ts ids p)) = insertion_of (fst p)" "edits_to (undo_piece counts ts ids p) = edits_to p"
  "shown c (fst (undo_piece counts ts ids p)) = shown c (fst p)"
  by (simp_all add: texted_def cells_of_def case_prod_unfold insertion_of_def edits_to_def shown_def)

section \<open>The fragments in the order of their locators\<close>

interpretation idvis: tree_dimension fragment_ops id_visible_dim
  by unfold_locales (simp add: fragment_ops_def id_visible_dim_def fragment_id_dim_def visible_dim_def fragment_summary_add_def case_prod_unfold)

lemma id_add: "d_add id_visible_dim d (s_item fragment_ops f) = (Some (fr_id f), snd d + (if fr_visible f then unat (fr_len f) else 0))"
  by (simp add: id_visible_dim_def fragment_id_dim_def visible_dim_def case_prod_unfold)

lemma id_zero [simp]: "d_zero id_visible_dim = (None, 0)"
  by (simp add: id_visible_dim_def fragment_id_dim_def visible_dim_def)

lemma id_position: "pos_at fragment_ops id_visible_dim d fs = (if fs = [] then fst d else Some (fr_id (last fs)), snd d + visible_len fs)"
  by (induction fs arbitrary: d) (simp_all add: id_add)

lemma id_stop:
  assumes "ids_ok (map fst (mid @ p # post))"
  shows "stop_at fragment_ops id_visible_dim (id_target (fr_id (fst p))) Left d (map fst (mid @ p # post)) = length mid"
  using assms
proof (induction mid arbitrary: d)
  case Nil
  show ?case by (simp add: stop_at_Cons id_add past_end_def id_target_def)
next
  case (Cons q mid)
  have "past_end (id_target (fr_id (fst p))) Left (d_add id_visible_dim d (s_item fragment_ops (fst q)))"
    using Cons.prems by (simp add: id_add past_end_def id_target_def ids_ok_def)
  with Cons show ?case by (simp add: stop_at_Cons ids_ok_def)
qed

lemma id_ends: "e \<in> set (item_ends fragment_ops id_visible_dim d fs) \<Longrightarrow> \<exists>f \<in> set fs. fst e = Some (fr_id f)"
  by (induction fs arbitrary: d) (auto simp: item_ends_Cons id_add)

lemma id_mono: "ids_ok fs \<Longrightarrow> mono_target (id_target l) (item_ends fragment_ops id_visible_dim d fs)"
  unfolding mono_target_def
proof (induction fs arbitrary: d)
  case (Cons f fs)
  have "rank (id_target l e) \<le> rank (id_target l (d_add id_visible_dim d (s_item fragment_ops f)))"
    if e: "e \<in> set (item_ends fragment_ops id_visible_dim d' fs)" for e d'
  proof -
    from id_ends [OF e] obtain g where g: "g \<in> set fs" "fst e = Some (fr_id g)" by blast
    then have "fr_id f < fr_id g" using Cons.prems by (simp add: ids_ok_def)
    with g(2) show ?thesis by (auto simp: id_target_def id_add ord_cmp_def)
  qed
  moreover have "ids_ok fs" using Cons.prems by (simp add: ids_ok_def)
  ultimately show ?case using Cons.IH unfolding item_ends_Cons by simp
qed simp

section \<open>The run of an undo\<close>

definition undoing ::
  "(lamport \<Rightarrow> lamport \<rightharpoonup> u32) \<Rightarrow> lamport \<Rightarrow> locator set \<Rightarrow> piece list \<Rightarrow> undo_state \<Rightarrow> piece list \<Rightarrow> piece list \<Rightarrow> bool" where
  "undoing counts ts ids ps st pre post \<longleftrightarrow> ps = pre @ post \<and> (\<forall>p \<in> set ps. texted p) \<and> ids_ok (map fst ps) \<and>
     wf_tree fragment_ops (c_tree (us_old st)) \<and> height (c_tree (us_old st)) < STACK_CAPACITY \<and> elems (c_tree (us_old st)) = map fst ps \<and>
     cursor_ready fragment_ops id_visible_dim (us_old st) (length pre) \<and>
     wf_tree fragment_ops (us_new st) \<and> elems (us_new st) = map fst (map (undo_piece counts ts ids) pre) \<and>
     rb_at (us_ropes st) (vis pre) (vis post) (del pre) (del post) (vis (map (undo_piece counts ts ids) pre)) (del (map (undo_piece counts ts ids) pre)) \<and>
     patch_rel 0 0 (us_patch st) (encode (vis pre)) (encode (vis (map (undo_piece counts ts ids) pre))) \<and> separated (us_patch st)"

lemma undoingD:
  assumes "undoing counts ts ids ps st pre post"
  shows "ps = pre @ post" "\<forall>p \<in> set ps. texted p" "ids_ok (map fst ps)" "wf_tree fragment_ops (c_tree (us_old st))"
    "height (c_tree (us_old st)) < STACK_CAPACITY" "elems (c_tree (us_old st)) = map fst ps"
    "cursor_ready fragment_ops id_visible_dim (us_old st) (length pre)" "wf_tree fragment_ops (us_new st)"
    "elems (us_new st) = map fst (map (undo_piece counts ts ids) pre)"
    "rb_at (us_ropes st) (vis pre) (vis post) (del pre) (del post) (vis (map (undo_piece counts ts ids) pre)) (del (map (undo_piece counts ts ids) pre))"
    "patch_rel 0 0 (us_patch st) (encode (vis pre)) (encode (vis (map (undo_piece counts ts ids) pre)))" "separated (us_patch st)"
  using assms unfolding undoing_def by blast+

lemma undoingI:
  assumes "ps = pre @ post" "\<forall>p \<in> set ps. texted p" "ids_ok (map fst ps)" "wf_tree fragment_ops (c_tree (us_old st))"
    "height (c_tree (us_old st)) < STACK_CAPACITY" "elems (c_tree (us_old st)) = map fst ps"
    "cursor_ready fragment_ops id_visible_dim (us_old st) (length pre)" "wf_tree fragment_ops (us_new st)"
    "elems (us_new st) = map fst (map (undo_piece counts ts ids) pre)"
    "rb_at (us_ropes st) (vis pre) (vis post) (del pre) (del post) (vis (map (undo_piece counts ts ids) pre)) (del (map (undo_piece counts ts ids) pre))"
    "patch_rel 0 0 (us_patch st) (encode (vis pre)) (encode (vis (map (undo_piece counts ts ids) pre)))" "separated (us_patch st)"
  shows "undoing counts ts ids ps st pre post"
  using assms unfolding undoing_def by blast

text \<open>Keeping a run of fragments, whichever target the cursor is sent to.\<close>

lemma undoing_slice:
  assumes un: "undoing counts ts ids ps st pre (mid @ post)" and mid: "\<forall>p \<in> set mid. fr_id (fst p) \<notin> ids"
    and t: "wf_tree fragment_ops t" "elems t = map fst mid"
    and c: "c_tree c = c_tree (us_old st)" "cursor_at fragment_ops id_visible_dim c (length (pre @ mid))"
  obtains b new where "rb_append (us_ropes st) (fs_text (summary t)) = Some b" "tree_append fragment_ops (us_new st) t = Some new"
    "undoing counts ts ids ps (st\<lparr>us_old := c, us_ropes := b, us_new := new\<rparr>) (pre @ mid) post"
proof -
  note u = undoingD [OF un]
  have kept: "map (undo_piece counts ts ids) mid = mid" using mid by (simp add: undo_piece_def map_idI)
  have tx: "\<forall>p \<in> set mid. texted p" using u(1,2) by simp
  have sum: "fs_text (summary t) = \<lparr>ft_visible = str_len (vis mid), ft_deleted = str_len (del mid)\<rparr>"
    using t fragment_sum [of "map fst mid"] texted_lens [OF tx] by (simp add: wf_summary)
  have "rb_at (us_ropes st) (vis pre) (vis mid @ vis post) (del pre) (del mid @ del post) (vis (map (undo_piece counts ts ids) pre))
    (del (map (undo_piece counts ts ids) pre))" using u(10) by simp
  from rb_append_ok [OF this] obtain b where b: "rb_append (us_ropes st) (fs_text (summary t)) = Some b"
    "rb_at b (vis pre @ vis mid) (vis post) (del pre @ del mid) (del post) (vis (map (undo_piece counts ts ids) pre) @ vis mid)
      (del (map (undo_piece counts ts ids) pre) @ del mid)" unfolding sum .
  obtain new where new: "tree_append fragment_ops (us_new st) t = Some new" "wf_tree fragment_ops new" "elems new = elems (us_new st) @ elems t"
    using frag.append_correct [OF u(8) t(1)] by blast
  have "undoing counts ts ids ps (st\<lparr>us_old := c, us_ropes := b, us_new := new\<rparr>) (pre @ mid) post"
    by (rule undoingI)
      (use u c b(2) new t(2) kept patch_rel_extend [OF u(11), of "encode (vis mid)"] in \<open>simp_all add: cursor_ready_def\<close>)
  with b(1) new(1) that show thesis by blast
qed

lemma undo_slice_ok:
  assumes un: "undoing counts ts ids ps st pre (mid @ p # post)" and mid: "\<forall>p \<in> set mid. fr_id (fst p) \<notin> ids"
  obtains st' where "undo_slice (fr_id (fst p)) st = Some st'" "undoing counts ts ids ps st' (pre @ mid) (p # post)"
    "cursor_at fragment_ops id_visible_dim (us_old st') (length (pre @ mid))"
proof -
  note u = undoingD [OF un]
  have ids: "ids_ok (map fst (mid @ p # post))" "\<forall>q \<in> set pre. fr_id (fst q) < fr_id (fst p)"
    using u(1,3) by (auto simp: ids_ok_def sorted_wrt_append)
  have dr: "drop (length pre) (elems (c_tree (us_old st))) = map fst (mid @ p # post)" using u(1,6) by simp
  have "c_position (us_old st) = pos_at fragment_ops id_visible_dim (d_zero id_visible_dim) (map fst pre)"
    using cursor_ready_position [OF u(7)] u(1,6) by simp
  then have "fst (c_position (us_old st)) = (if pre = [] then None else Some (fr_id (fst (last pre))))"
    by (simp add: id_position last_map)
  then have ge: "is_ge (id_target (fr_id (fst p)) (c_position (us_old st)))"
    using ids(2) by (auto simp: is_ge_def id_target_def not_less less_imp_le)
  have mono: "mono_target (id_target (fr_id (fst p)))
      (item_ends fragment_ops id_visible_dim (c_position (us_old st)) (drop (length pre) (elems (c_tree (us_old st)))))"
    unfolding dr by (rule id_mono [OF ids(1)])
  from idvis.slice_correct [OF u(4,5,7) ge mono refl, of Left] id_stop [OF ids(1)] dr
  obtain c t where c: "cursor_slice fragment_ops id_visible_dim (id_target (fr_id (fst p))) Left (us_old st) = Some (c, t)"
    "c_tree c = c_tree (us_old st)" "cursor_at fragment_ops id_visible_dim c (length (pre @ mid))" "wf_tree fragment_ops t" "elems t = map fst mid"
    by auto
  from undoing_slice [OF un mid c(4,5,2,3)] obtain b new where b: "rb_append (us_ropes st) (fs_text (summary t)) = Some b"
    "tree_append fragment_ops (us_new st) t = Some new"
    "undoing counts ts ids ps (st\<lparr>us_old := c, us_ropes := b, us_new := new\<rparr>) (pre @ mid) (p # post)" .
  then show thesis using that [of "st\<lparr>us_old := c, us_ropes := b, us_new := new\<rparr>"] c(1,3) by (simp add: undo_slice_def)
qed

lemma undo_fragment_ok:
  assumes un: "undoing counts ts ids ps st pre (p # post)" and at: "cursor_at fragment_ops id_visible_dim (us_old st) (length pre)"
    and p: "fr_id (fst p) \<in> ids" and m: "valid_undo_map m" "has_room m" "undo_abs m = counts"
  obtains st' where "cursor_item (us_old st) = Some (Some (fst p))" "undo_fragment m ts (fst p) st = Some st'"
    "undoing counts ts ids ps st' (pre @ [p]) post"
proof -
  note u = undoingD [OF un]
  let ?qs = "map (undo_piece counts ts ids) pre"
  obtain f t where ft: "p = (f, t)" by (cases p)
  let ?g = "f\<lparr>fr_visible := shown counts f, fr_max_undos := version_observe (fr_max_undos f) ts\<rparr>"
  have g: "undo_piece counts ts ids p = (?g, t)" using p ft by (simp add: undo_piece_def)
  have tx: "texted (f, t)" "\<forall>p \<in> set pre. texted p" using u(1,2) ft by auto
  then have len: "fr_len ?g > 0" "unat (fr_len ?g) = str_len t" using texted_positive [OF tx(1)] by (simp_all add: texted_def)
  have item: "cursor_item (us_old st) = Some (Some f)" using cursor_item_at(1) [OF at u(4)] u(1,6) ft by (simp add: get_opt_def nth_append)
  obtain c where c: "cursor_next id_visible_dim (us_old st) = Some c" "c_tree c = c_tree (us_old st)"
    "cursor_at fragment_ops id_visible_dim c (Suc (length pre))"
    using idvis.next_correct [OF u(4,5) at] u(1,6) by auto
  have start: "snd (cursor_start (us_old st)) = str_len (vis pre)"
    using at u(1,6) texted_lens(1) [OF tx(2)] by (simp add: cursor_at_def cursor_start_def id_position)
  have new_start: "ft_visible (fs_text (summary (us_new st))) = str_len (vis ?qs)"
    using u(8,9) fragment_sum(1) [of "map fst ?qs"] texted_lens(1) [of ?qs] tx(2) by (simp add: wf_summary)
  obtain new where new: "tree_push fragment_ops (us_new st) ?g = Some new" "wf_tree fragment_ops new" "elems new = elems (us_new st) @ [?g]"
    using frag.push_correct [OF u(8)] by blast
  have "\<exists>b. rb_push (us_ropes st) (str_len t) (fr_visible f) (shown counts f) = Some b \<and>
    rb_at b (vis (pre @ [p])) (vis post) (del (pre @ [p])) (del post) (vis (?qs @ [(?g, t)])) (del (?qs @ [(?g, t)]))"
  proof (cases "fr_visible f")
    case True
    with u(10) ft have "rb_at (us_ropes st) (vis pre) (t @ vis post) (del pre) (del post) (vis ?qs) (del ?qs)" by simp
    from rb_push_visible [OF this, of "shown counts f"] obtain b where "rb_push (us_ropes st) (str_len t) True (shown counts f) = Some b"
      "rb_at b (vis pre @ t) (vis post) (del pre) (del post) (if shown counts f then vis ?qs @ t else vis ?qs)
        (if shown counts f then del ?qs else del ?qs @ t)" .
    with True ft show ?thesis by (intro exI [of _ b]) (simp split: if_splits)
  next
    case False
    with u(10) ft have "rb_at (us_ropes st) (vis pre) (vis post) (del pre) (t @ del post) (vis ?qs) (del ?qs)" by simp
    from rb_push_deleted [OF this, of "shown counts f"] obtain b where "rb_push (us_ropes st) (str_len t) False (shown counts f) = Some b"
      "rb_at b (vis pre) (vis post) (del pre @ t) (del post) (if shown counts f then vis ?qs @ t else vis ?qs)
        (if shown counts f then del ?qs else del ?qs @ t)" .
    with False ft show ?thesis by (intro exI [of _ b]) (simp split: if_splits)
  qed
  then obtain b where b: "rb_push (us_ropes st) (str_len t) (fr_visible f) (shown counts f) = Some b"
    "rb_at b (vis (pre @ [p])) (vis post) (del (pre @ [p])) (del post) (vis (?qs @ [(?g, t)])) (del (?qs @ [(?g, t)]))" by blast
  let ?edit = "\<lparr>old_start = str_len (vis pre), old_end = str_len (vis pre) + (if fr_visible f then str_len t else 0),
    new_start = str_len (vis ?qs), new_end = str_len (vis ?qs) + (if shown counts f then str_len t else 0)\<rparr>"
  let ?patch = "if fr_visible f \<noteq> shown counts f then patch_push (us_patch st) ?edit else us_patch st"
  let ?st = "st\<lparr>us_patch := ?patch, us_ropes := b, us_new := new, us_old := c\<rparr>"
  have "patch_rel 0 0 ?patch (encode (vis pre) @ (if fr_visible f then encode t else []))
      (encode (vis ?qs) @ (if shown counts f then encode t else [])) \<and> separated ?patch"
    using patch_push_correct [OF u(11,12), of ?edit "if fr_visible f then encode t else []" "if shown counts f then encode t else []"]
      patch_rel_extend [OF u(11), of "encode t"] u(11,12) by auto
  then have patch: "patch_rel 0 0 ?patch (encode (vis (pre @ [p]))) (encode (vis (map (undo_piece counts ts ids) (pre @ [p])))) \<and> separated ?patch"
    using ft g by (simp split: if_splits)
  have "undo_fragment m ts f st = Some ?st"
    using is_visible_ok [OF m(1,2), of f] m(3) b(1) new(1) c(1) start new_start len
    by (cases "fr_visible f"; cases "shown counts f") (simp_all add: undo_fragment_def rb_push_fragment_def Let_def)
  moreover have "undoing counts ts ids ps ?st (pre @ [p]) post"
    by (rule undoingI) (use u c new b(2) patch g in \<open>simp_all add: cursor_ready_def\<close>)
  ultimately show thesis using that [of ?st] item ft by simp
qed

text \<open>All fragments with the locators given are undone, the others kept.\<close>

lemma undo_loop_ok:
  assumes "undoing counts ts ids ps st pre post" "sorted_wrt (<) ls" "set ls = ids \<inter> (\<lambda>p. fr_id (fst p)) ` set post"
    and m: "valid_undo_map m" "has_room m" "undo_abs m = counts"
  obtains st' pre' post' where "undo_loop m ts ls st = Some st'" "undoing counts ts ids ps st' pre' post'" "\<forall>p \<in> set post'. fr_id (fst p) \<notin> ids"
  using assms(1-3)
proof (induction ls arbitrary: st pre post thesis)
  case Nil
  then show ?case by fastforce
next
  case (Cons l ls)
  have "l \<in> (\<lambda>p. fr_id (fst p)) ` set post" and l: "l \<in> ids" using Cons.prems(4) by auto
  then obtain p where p: "p \<in> set post" "l = fr_id (fst p)" by blast
  then obtain mid post' where post: "post = mid @ p # post'" by (meson split_list)
  note u = undoingD [OF Cons.prems(2)]
  have order: "\<forall>q \<in> set mid. fr_id (fst q) < l" "\<forall>q \<in> set post'. l < fr_id (fst q)"
    using u(1,3) post p(2) by (auto simp: ids_ok_def sorted_wrt_append)
  have mid: "\<forall>q \<in> set mid. fr_id (fst q) \<notin> ids"
  proof
    fix q
    assume q: "q \<in> set mid"
    show "fr_id (fst q) \<notin> ids"
    proof
      assume "fr_id (fst q) \<in> ids"
      then have "fr_id (fst q) \<in> set (l # ls)" using Cons.prems(4) q post by auto
      then show False using order(1) q Cons.prems(3) by (auto dest: less_asym)
    qed
  qed
  from undo_slice_ok [OF Cons.prems(2) [unfolded post] mid] obtain st1 where st1: "undo_slice l st = Some st1"
    "undoing counts ts ids ps st1 (pre @ mid) (p # post')" "cursor_at fragment_ops id_visible_dim (us_old st1) (length (pre @ mid))" using p(2) by blast
  from undo_fragment_ok [OF st1(2,3) _ m] l p(2) obtain st2 where st2: "cursor_item (us_old st1) = Some (Some (fst p))"
    "undo_fragment m ts (fst p) st1 = Some st2" "undoing counts ts ids ps st2 ((pre @ mid) @ [p]) post'" by blast
  have rest: "set ls = ids \<inter> (\<lambda>p. fr_id (fst p)) ` set post'"
  proof -
    have "l \<notin> set ls" using Cons.prems(3) by auto
    then have "set ls = ids \<inter> (\<lambda>p. fr_id (fst p)) ` set post - {l}" using Cons.prems(4) by auto
    also have "\<dots> = ids \<inter> (\<lambda>p. fr_id (fst p)) ` set post'" using mid order(2) post p(2) by auto
    finally show ?thesis .
  qed
  have "sorted_wrt (<) ls" using Cons.prems(3) by simp
  from Cons.IH [OF _ st2(3) this rest] obtain st' pre' post'' where "undo_loop m ts ls st2 = Some st'" "undoing counts ts ids ps st' pre' post''"
    "\<forall>p \<in> set post''. fr_id (fst p) \<notin> ids" by metis
  with Cons.prems(1) st1(1) st2(1,2) show ?case by simp
qed

section \<open>The snapshot after an undo\<close>

definition undo_fits :: "buffer_snapshot \<Rightarrow> undo_operation \<Rightarrow> bool" where
  "undo_fits s undo \<longleftrightarrow> snapshot_fits s \<and> has_room (bs_undo_map s) \<and> (\<forall>m. undo_insert (bs_undo_map s) undo = Some m \<longrightarrow> has_room m)"

text \<open>An undo names each edit once, and not the base text.\<close>

definition undo_proper :: "undo_operation \<Rightarrow> bool" where
  "undo_proper undo \<longleftrightarrow> distinct (map fst (uo_counts undo)) \<and> lamport_new LOCAL \<notin> fst ` set (uo_counts undo)"

lemma shown_same:
  assumes "edits_to (f, t) \<inter> fst ` set (uo_counts undo) = {}" "lamport_new LOCAL \<notin> fst ` set (uo_counts undo)"
  shows "shown (record_undo undo counts) f = shown counts f"
proof -
  have "undone (record_undo undo counts) e = undone counts e" if "e \<notin> fst ` set (uo_counts undo)" for e
  proof -
    have "map_of (uo_counts undo) e = None" using that by (simp add: map_of_eq_None_iff)
    then have "record_undo undo counts e = counts e" by (simp add: record_undo_def fun_eq_iff)
    then show ?thesis by (simp add: undone_def)
  qed
  note same = this
  have K: "fr_timestamp f \<notin> fst ` set (uo_counts undo)" "set (fr_deletions f) \<inter> fst ` set (uo_counts undo) = {}"
    using assms by (cases "fr_timestamp f = lamport_new LOCAL"; simp add: edits_to_def Int_Un_distrib2 split: if_splits)+
  have "undone (record_undo undo counts) d = undone counts d" if "d \<in> set (fr_deletions f)" for d
    by (rule same) (use K(2) that in \<open>simp add: disjoint_iff\<close>)
  with same [OF K(1)] show ?thesis by (simp add: shown_def)
qed

lemma shown_text: "\<forall>p \<in> set ps. fr_visible (fst p) = shown counts (fst p) \<Longrightarrow> vis ps = concat (map snd (filter (\<lambda>p. shown counts (fst p)) ps))"
  by (induction ps) auto

lemma apply_undo_ok:
  assumes ok: "snapshot_ok s ps" and fit: "undo_fits s undo" and undo: "undo_proper undo"
  obtains s' patch ids where "apply_undo s undo = Some (s', patch)"
    "snapshot_ok s' (map (undo_piece (record_undo undo (undo_abs (bs_undo_map s))) (uo_timestamp undo) ids) ps)"
    "undo_abs (bs_undo_map s') = record_undo undo (undo_abs (bs_undo_map s))"
    "patch_rel 0 0 patch (encode (vis ps)) (encode (vis (map (undo_piece (record_undo undo (undo_abs (bs_undo_map s))) (uo_timestamp undo) ids) ps)))"
    "separated patch" "bs_version s' = bs_version s"
proof -
  let ?counts = "record_undo undo (undo_abs (bs_undo_map s))" and ?ts = "uo_timestamp undo"
  have inv: "wf_tree fragment_ops (bs_fragments s)" "elems (bs_fragments s) = map fst ps" "\<forall>p \<in> set ps. texted p" "ids_ok (map fst ps)"
    "valid_undo_map (bs_undo_map s)" "\<forall>p \<in> set ps. fr_visible (fst p) = shown (undo_abs (bs_undo_map s)) (fst p)"
    and fits: "snapshot_fits s" "height (bs_fragments s) < STACK_CAPACITY" "slices_fit (bs_visible_text s)" "slices_fit (bs_deleted_text s)"
      "has_room (bs_undo_map s)"
    using ok fit by (simp_all add: snapshot_ok_def snapshot_fits_def undo_fits_def)
  obtain m where m: "undo_insert (bs_undo_map s) undo = Some m" "valid_undo_map m" "undo_abs m = ?counts"
    using undo_insert_refines [OF inv(5) fits(5)] undo by (auto simp: undo_proper_def)
  have room: "has_room m" using fit m(1) by (simp add: undo_fits_def)
  obtain v where v: "cursor_new_at (bs_visible_text s) 0 = Some v" "rc_rope v = bs_visible_text s" "rc_at v [] (vis ps)"
    by (rule new_cursor_ok [of "bs_visible_text s" "vis ps"]) (use ok fits in \<open>simp_all add: snapshot_ok_def snapshot_fits_def\<close>)
  obtain d where d: "cursor_new_at (bs_deleted_text s) 0 = Some d" "rc_rope d = bs_deleted_text s" "rc_at d [] (del ps)"
    by (rule new_cursor_ok [of "bs_deleted_text s" "del ps"]) (use ok fits in \<open>simp_all add: snapshot_ok_def snapshot_fits_def\<close>)
  obtain ls where ls: "fragment_ids_for_edits s (map fst (uo_counts undo)) = Some ls" "sorted_wrt (<) ls" "set ls \<subseteq> (\<lambda>p. fr_id (fst p)) ` set ps"
    "\<forall>p \<in> set ps. edits_to p \<inter> set (map fst (uo_counts undo)) \<noteq> {} \<longrightarrow> fr_id (fst p) \<in> set ls"
    by (rule fragment_ids_ok [OF ok fits(1)])
  let ?st = "\<lparr>us_old = cursor_new id_visible_dim (bs_fragments s), us_new = tree_new fragment_ops, us_ropes = rb_new v d, us_patch = []\<rparr>"
  have ready: "cursor_ready fragment_ops id_visible_dim (cursor_new id_visible_dim (bs_fragments s)) 0"
    "c_tree (cursor_new id_visible_dim (bs_fragments s)) = bs_fragments s" by (simp add: cursor_ready_def, simp add: cursor_new_def)
  have "undoing ?counts ?ts (set ls) ps ?st [] ps"
    by (rule undoingI) (use ready inv fits v d new_ok in \<open>simp_all add: rb_at_def rb_new_def separated_def\<close>)
  from undo_loop_ok [OF this ls(2) _ m(2) room m(3)] ls(3) obtain st pre post where st: "undo_loop m ?ts ls ?st = Some st"
    "undoing ?counts ?ts (set ls) ps st pre post" "\<forall>p \<in> set post. fr_id (fst p) \<notin> set ls" by blast
  note u = undoingD [OF st(2)]
  have dr: "drop (length pre) (elems (c_tree (us_old st))) = map fst post" using u(1,6) by simp
  have stop: "stop_at fragment_ops id_visible_dim End_target Right z fs = length fs" "mono_target End_target (ds :: (locator option \<times> nat) list)" for z fs ds
    by (induction fs arbitrary: z, auto simp: stop_at_Cons past_end_def End_target_def) (induction ds, auto simp: mono_target_def End_target_def)
  have ge: "is_ge (End_target (c_position (us_old st)))" by (simp add: is_ge_def End_target_def)
  from idvis.slice_correct [OF u(4,5,7) ge stop(2) refl, of Right] stop(1) dr obtain c t where
    c: "cursor_suffix fragment_ops id_visible_dim (us_old st) = Some (c, t)" "c_tree c = c_tree (us_old st)"
    "cursor_at fragment_ops id_visible_dim c (length (pre @ post))" "wf_tree fragment_ops t" "elems t = map fst post" by (auto simp: cursor_suffix_def)
  have "undoing ?counts ?ts (set ls) ps st pre (post @ [])" using st(2) by simp
  from undoing_slice [OF this st(3) c(4,5,2,3)] obtain b new where b: "rb_append (us_ropes st) (fs_text (summary t)) = Some b"
    "tree_append fragment_ops (us_new st) t = Some new"
    "undoing ?counts ?ts (set ls) ps (st\<lparr>us_old := c, us_ropes := b, us_new := new\<rparr>) (pre @ post) []" .
  note w = undoingD [OF b(3)]
  let ?qs = "map (undo_piece ?counts ?ts (set ls)) ps"
  obtain r q where rq: "rb_finish b = Some (r, q)" "rope_ok r (vis ?qs)" "rope_ok q (del ?qs)"
    using rb_finish_ok [of b "vis ps" "[]" "del ps" "[]" "vis ?qs" "del ?qs"] w(1,10) by auto
  let ?s = "s\<lparr>bs_undo_map := m, bs_fragments := new, bs_visible_text := r, bs_deleted_text := q\<rparr>"
  have run: "apply_undo s undo = Some (?s, us_patch st)"
    using m(1) v(1) d(1) ls(1) st(1) c(1) b(1,2) rq(1) by (simp add: apply_undo_def)
  have shown: "\<forall>p \<in> set ?qs. fr_visible (fst p) = shown ?counts (fst p)"
  proof -
    have "fr_visible (fst (undo_piece ?counts ?ts (set ls) p)) = shown ?counts (fst p)" if p: "p \<in> set ps" for p
    proof (cases "fr_id (fst p) \<in> set ls")
      case False
      then have "edits_to (fst p, snd p) \<inter> fst ` set (uo_counts undo) = {}" using ls(4) p by auto
      from shown_same [OF this, of "undo_abs (bs_undo_map s)"] undo False inv(6) p show ?thesis by (simp add: undo_piece_def undo_proper_def)
    qed (simp add: undo_piece_def)
    then show ?thesis by simp
  qed
  have cells: "cells_all ?qs = cells_all ps" by (simp add: cells_all_def comp_def)
  have ids: "map fr_id (map fst ?qs) = map fr_id (map fst ps)" by simp
  have fr: "\<forall>p \<in> set ?qs. texted p" using inv(3) by simp
  have idq: "ids_ok (map fst ?qs)" using inv(4) by (simp add: ids_ok_def comp_def)
  have key: "map (\<lambda>p. (key_of (fst p), insertion_of (fst p))) ?qs = map (\<lambda>p. (key_of (fst p), insertion_of (fst p))) ps" by (simp add: key_of_def)
  have cov: "\<forall>p \<in> set ?qs. \<forall>e \<in> edits_to p. covers (bs_insertion_slices s) p e"
    using ok by (auto simp: snapshot_ok_def covers_def)
  have el: "wf_tree fragment_ops new" "elems new = map fst ?qs" using w(1,8,9) by simp_all
  have others: "distinct (map identity (cells_all ?qs))" "found_in (bs_insertions s) ?qs" "\<forall>p \<in> set ?qs. fr_timestamp (fst p) \<noteq> lamport_MIN"
    using ok unfolding snapshot_ok_def found_in_def key cells by simp_all
  have "snapshot_ok ?s ?qs"
  proof (rule snapshot_okI)
    show "valid_map (bs_insertion_slices ?s)" "\<forall>x \<in> dom (map_abs (bs_insertion_slices ?s)). is_insertion_id x \<noteq> lamport_MIN"
      using ok by (simp_all add: snapshot_ok_def)
  qed (use el rq(2,3) m(2,3) shown fr idq cov others in simp_all)
  with run w(1,11,12) that [of ?s "us_patch st" "set ls"] m(3) show thesis by simp
qed

section \<open>Undoing an edit\<close>

lemma piece_identities: "identity ` set (cells_of (f, t)) = {(fr_timestamp f, i) | i. unat (insertion_offset f) \<le> i \<and> i < unat (insertion_offset f) + str_len t}"
proof -
  have "identity ` set (cells_of (f, t)) = Pair (fr_timestamp f) ` fst ` set (enumerate (unat (insertion_offset f)) (encode t))"
    by (force simp: cells_of_def identity_def)
  also have "fst ` set (enumerate (unat (insertion_offset f)) (encode t)) = {unat (insertion_offset f)..<unat (insertion_offset f) + str_len t}"
    by (metis length_encode list.set_map map_fst_enumerate set_upt)
  finally show ?thesis by auto
qed

lemma same_cell:
  assumes "distinct (map identity (cells_all ps))" "p \<in> set ps" "q \<in> set ps" "identity ` set (cells_of p) \<inter> identity ` set (cells_of q) \<noteq> {}"
  shows "p = q"
  using assms
proof (induction ps)
  case (Cons r ps)
  have sub: "identity ` set (cells_of x) \<subseteq> identity ` set (cells_all ps)" if "x \<in> set ps" for x using that by (auto simp: cells_all_def)
  from Cons.prems(1) have dis: "identity ` set (cells_of r) \<inter> identity ` set (cells_all ps) = {}" and d: "distinct (map identity (cells_all ps))" by auto
  from Cons.prems(2,3) consider "p = r" "q = r" | "p = r" "q \<in> set ps" | "p \<in> set ps" "q = r" | "p \<in> set ps" "q \<in> set ps" by auto
  then show ?case
  proof cases
    case 2
    with sub [of q] dis Cons.prems(4) show ?thesis by blast
  next
    case 3
    with sub [of p] dis Cons.prems(4) show ?thesis by blast
  qed (use Cons.IH [OF d] Cons.prems(4) in simp_all)
qed simp

definition visible_cell :: "piece list \<Rightarrow> lamport \<times> nat \<times> u8 \<Rightarrow> bool" where
  "visible_cell ps c \<longleftrightarrow> (\<exists>p \<in> set ps. fr_visible (fst p) \<and> identity c \<in> identity ` set (cells_of p))"

lemma visible_cell_piece:
  assumes "distinct (map identity (cells_all ps))" "p \<in> set ps" "identity c \<in> identity ` set (cells_of p)"
  shows "visible_cell ps c = fr_visible (fst p)"
  using assms same_cell [OF assms(1,2)] unfolding visible_cell_def by blast

lemma visible_bytes: "(\<And>p c. p \<in> set ps \<Longrightarrow> c \<in> set (cells_of p) \<Longrightarrow> F c = fr_visible (fst p)) \<Longrightarrow>
  map (\<lambda>(t, i, b). b) (filter F (cells_all ps)) = encode (vis ps)"
proof (induction ps)
  case (Cons p ps)
  obtain f t where p: "p = (f, t)" by (cases p)
  have bytes: "map (\<lambda>(t, i, b). b) (cells_of (f, t)) = encode t" by (simp add: cells_of_def comp_def case_prod_unfold)
  have "filter F (cells_of p) = (if fr_visible f then cells_of p else [])"
    using Cons.prems [of p] p by (auto simp: filter_empty_conv intro!: filter_True)
  with Cons.IH Cons.prems bytes p show ?case by simp
qed simp

lemma undo_text:
  assumes ok: "distinct (map identity (cells_all ps))" "\<forall>p \<in> set ps. \<not> touched ts p" "\<forall>p \<in> set ps. fr_visible (fst p) = shown counts (fst p)"
    and qs: "old_cells ts qs = cells_all ps" "origins ts ps qs"
    and rs: "cells_all rs = cells_all qs" "\<forall>r \<in> set rs. \<exists>q \<in> set qs. cells_of r = cells_of q \<and> fr_visible (fst r) = shown counts' (fst q)"
    and counts: "undone counts' ts" "\<And>e. e \<noteq> ts \<Longrightarrow> undone counts' e = undone counts e"
  shows "encode (vis rs) = encode (vis ps)"
proof -
  let ?G = "\<lambda>c. fst c \<noteq> ts \<and> visible_cell ps c"
  have "?G c = fr_visible (fst r)" if r: "r \<in> set rs" "c \<in> set (cells_of r)" for r c
  proof -
    obtain q where q: "q \<in> set qs" "cells_of r = cells_of q" "fr_visible (fst r) = shown counts' (fst q)" using rs(2) r(1) by blast
    have c: "c \<in> set (cells_of q)" using r(2) q(2) by simp
    then have time: "fst c = fr_timestamp (fst q)" by (cases q) (auto simp: cells_of_def)
    from qs(2) q(1) consider "new_piece ts q" | p where "p \<in> set ps" "descends ts p q" by (auto simp: origins_def)
    then show ?thesis
    proof cases
      case 1
      then show ?thesis using time q(3) counts(1) by (simp add: new_piece_def shown_def)
    next
      case (2 p)
      have "identity ` set (cells_of (fst q, snd q)) \<subseteq> identity ` set (cells_of (fst p, snd p))"
        unfolding piece_identities using 2(2) by (auto simp: descends_def)
      then have "visible_cell ps c = fr_visible (fst p)" using visible_cell_piece [OF ok(1) 2(1), of c] c by auto
      moreover have "fr_timestamp (fst p) \<noteq> ts" "ts \<notin> set (fr_deletions (fst p))" using ok(2) 2(1) by (auto simp: touched_def)
      moreover have "shown counts' (fst q) = shown counts (fst p)"
        using 2(2) calculation(2,3) counts by (auto simp: descends_def shown_def) (metis counts(2))+
      ultimately show ?thesis using time q(3) ok(3) 2 by (simp add: descends_def)
    qed
  qed
  then have "encode (vis rs) = map (\<lambda>(t, i, b). b) (filter ?G (cells_all rs))" by (rule visible_bytes [symmetric])
  also have "filter ?G (cells_all rs) = filter (visible_cell ps) (old_cells ts qs)"
    by (simp add: rs(1) old_cells_def case_prod_unfold conj_commute)
  also have "\<dots> = filter (visible_cell ps) (cells_all ps)" by (simp add: qs(1))
  also have "map (\<lambda>(t, i, b). b) \<dots> = encode (vis ps)"
    by (rule visible_bytes) (use visible_cell_piece [OF ok(1)] in blast)
  finally show ?thesis .
qed

end
