(* ===== verification/Buffer_Theorems.thy ===== *)
theory Buffer_Theorems
  imports BufferBase BufferUndo_Correct RopeChunks_Correct Rope_Theorems
begin

text \<open>
  What the operations of a buffer's snapshot promise: a new snapshot satisfies the invariant, local edits and undos keep it and change the text as they
  should, and undoing an edit restores the text it had before. All of them are stated for buffers whose text, with the deleted text that is kept, has
  less than \<open>2 ^ 32\<close> bytes, so that the \<open>u32\<close> numbers in fragments and in the summaries of the ropes do not overflow.
\<close>

section \<open>Sizes\<close>

definition texts_u32 :: "buffer_snapshot \<Rightarrow> piece list \<Rightarrow> bool" where
  "texts_u32 s ps \<longleftrightarrow> u32_ok (bs_visible_text s) (vis ps) \<and> u32_ok (bs_deleted_text s) (del ps)"

lemma cells_len: "length (cells_all ps) = str_len (vis ps) + str_len (del ps)"
  by (induction ps) auto

lemma texts_u32I: "snapshot_ok s ps \<Longrightarrow> length (cells_all ps) < 2 ^ 32 \<Longrightarrow> texts_u32 s ps"
  using rope_u32 [of "bs_visible_text s" "vis ps"] rope_u32 [of "bs_deleted_text s" "del ps"]
  by (simp add: texts_u32_def snapshot_ok_def cells_len)

lemma cells_time: "c \<in> set (cells_of (f, t)) \<Longrightarrow> fst c = fr_timestamp f"
  by (auto simp: cells_of_def)

lemma edited_cells:
  assumes "\<forall>p \<in> set ps. \<not> touched ts p" "origins ts ps qs"
  shows "length (cells_all qs) \<le> length (old_cells ts qs) + str_len (vis qs)"
  using assms(2)
proof (induction qs)
  case (Cons q qs)
  obtain f t where q: "q = (f, t)" by (cases q)
  have "str_len t \<le> length (old_cells ts [q]) + str_len (vis [q])"
  proof (cases "fr_visible f")
    case False
    then have "\<not> new_piece ts q" by (simp add: new_piece_def q)
    with Cons.prems assms(1) have "fr_timestamp f \<noteq> ts" by (auto simp: descends_def touched_def q)
    then have "old_cells ts [q] = cells_of q" using cells_time [of _ f t] by (auto simp: old_cells_def q intro!: filter_True)
    then show ?thesis by (simp add: q)
  qed (simp add: q)
  with Cons show ?case by (auto simp: old_cells_def q)
qed simp

lemma inserted_le: "inserted_len es \<le> str_len (text_after es rest)"
  by (induction es) (auto simp: inserted_len_def)

section \<open>Undoing and redoing an edit\<close>

text \<open>What undoing and redoing an edit does to the counts: one undo, then a second one with the next count.\<close>

abbreviation undo_of :: "lamport \<Rightarrow> lamport \<Rightarrow> global \<Rightarrow> u32 \<Rightarrow> undo_operation" where
  "undo_of ts ut v n \<equiv> \<lparr>uo_timestamp = ut, uo_version = v, uo_counts = [(ts, n)]\<rparr>"

lemma recorded_other: "e \<noteq> ts \<Longrightarrow> undone (record_undo (undo_of ts ut v n) counts) e = undone counts e"
proof -
  assume "e \<noteq> ts"
  then have "record_undo (undo_of ts ut v n) counts e = counts e" by (intro ext) (simp add: record_undo_def)
  then show ?thesis by (simp add: undone_def)
qed

lemma recorded_once:
  assumes "counts ts = Map.empty"
  shows "undone (record_undo (undo_of ts ut v 1) counts) ts" "greatest_count (record_undo (undo_of ts ut v 1) counts ts) (\<lambda>_. True) = 1"
    "\<not> undone (record_undo (undo_of ts ut' v' 2) (record_undo (undo_of ts ut v 1) counts)) ts"
proof -
  have "{n. \<exists>u. record_undo (undo_of ts ut v 1) counts ts u = Some n} = {1}"
    using assms by (auto simp: record_undo_def)
  then show "undone (record_undo (undo_of ts ut v 1) counts) ts" "greatest_count (record_undo (undo_of ts ut v 1) counts ts) (\<lambda>_. True) = 1"
    by (simp_all add: undone_def greatest_count_def)
  have "{n. \<exists>u. record_undo (undo_of ts ut' v' 2) (record_undo (undo_of ts ut v 1) counts) ts u = Some n} = (if ut' = ut then {2} else {1, 2})"
    using assms by (auto simp: record_undo_def)
  then show "\<not> undone (record_undo (undo_of ts ut' v' 2) (record_undo (undo_of ts ut v 1) counts)) ts"
    by (simp add: undone_def greatest_count_def)
qed

lemma never_undone: "counts ts = Map.empty \<Longrightarrow> \<not> undone counts ts"
  by (simp add: undone_def greatest_count_def)

lemma shown_cong: "(\<And>e. undone c e = undone c' e) \<Longrightarrow> shown c f = shown c' f"
  by (simp add: shown_def)

lemma undo_pieces_cells: "cells_all (map (undo_piece counts ts ids) ps) = cells_all ps"
  by (induction ps) simp_all

lemma snapshot_shown: "snapshot_ok s ps \<Longrightarrow> \<forall>p \<in> set ps. fr_visible (fst p) = shown (undo_abs (bs_undo_map s)) (fst p)"
  by (simp add: snapshot_ok_def)

lemma snapshot_valid: "snapshot_ok s ps \<Longrightarrow> valid_str (vis ps)"
  using rope_ok_valid by (auto simp: snapshot_ok_def)

lemma same_shown_text:
  assumes "snapshot_ok s ps" "snapshot_ok s' (map h ps)" "\<And>e. undone (undo_abs (bs_undo_map s')) e = undone (undo_abs (bs_undo_map s)) e"
    and h: "\<And>k p. shown k (fst (h p)) = shown k (fst p)" "\<And>p. snd (h p) = snd p"
  shows "vis (map h ps) = vis ps"
proof -
  have "shown (undo_abs (bs_undo_map s')) = shown (undo_abs (bs_undo_map s))" using shown_cong assms(3) by blast
  moreover have "concat (map snd (filter (\<lambda>p. shown k (fst p)) (map h ps))) = concat (map snd (filter (\<lambda>p. shown k (fst p)) ps))" for k
    by (induction ps) (simp_all add: h)
  ultimately show ?thesis
    using shown_text [OF snapshot_shown [OF assms(1)]] shown_text [OF snapshot_shown [OF assms(2)]] by simp
qed

lemma one_undo_ok:
  assumes "snapshot_ok s ps" "undo_fits s (undo_of ts ut v n)" "ts \<noteq> lamport_new LOCAL"
    and m: "m = record_undo (undo_of ts ut v n) (undo_abs (bs_undo_map s))"
  shows "\<exists>s' patch ids. apply_undo s (undo_of ts ut v n) = Some (s', patch) \<and> snapshot_ok s' (map (undo_piece m ut ids) ps) \<and>
    undo_abs (bs_undo_map s') = m \<and> patch_rel 0 0 patch (encode (vis ps)) (encode (vis (map (undo_piece m ut ids) ps)))"
proof -
  have "undo_proper (undo_of ts ut v n)" using assms(3) by (simp add: undo_proper_def)
  from apply_undo_ok [OF assms(1,2) this] show ?thesis unfolding m by (metis undo_operation.select_convs(1))
qed

lemma single_count:
  assumes "valid_undo_map m" "has_room m"
  shows "undo_or_redo_counts m [ts] [] = Some [(ts, saturating_add_u32 (greatest_count (undo_abs m ts) (\<lambda>_. True)) 1)]"
  using undo_count_where_correct [OF assms] by (simp add: undo_count_def)

text \<open>The undo of an edit that was never undone, and its redo.\<close>

lemma undo_edit_ok:
  assumes s: "snapshot_ok s ps" "fresh_timestamp s ps ts" "ts \<noteq> lamport_new LOCAL"
    and s1: "snapshot_ok s1 qs" "old_cells ts qs = cells_all ps" "origins ts ps qs" "bs_undo_map s1 = bs_undo_map s" "length (cells_all qs) < 2 ^ 32"
    and fit: "undo_fits s1 (undo_of ts ut v 1)"
  obtains s2 patch2 ids where "undo_or_redo_counts (bs_undo_map s1) [ts] [] = Some [(ts, 1)]" "apply_undo s1 (undo_of ts ut v 1) = Some (s2, patch2)"
    "snapshot_ok s2 (map (undo_piece (record_undo (undo_of ts ut v 1) (undo_abs (bs_undo_map s))) ut ids) qs)"
    "texts_u32 s2 (map (undo_piece (record_undo (undo_of ts ut v 1) (undo_abs (bs_undo_map s))) ut ids) qs)"
    "vis (map (undo_piece (record_undo (undo_of ts ut v 1) (undo_abs (bs_undo_map s))) ut ids) qs) = vis ps"
    "patch_rel 0 0 patch2 (encode (vis qs)) (encode (vis ps))" "undo_abs (bs_undo_map s2) = record_undo (undo_of ts ut v 1) (undo_abs (bs_undo_map s))"
proof -
  let ?m = "undo_abs (bs_undo_map s)"
  let ?m1 = "record_undo (undo_of ts ut v 1) ?m"
  have fresh: "?m ts = Map.empty" "\<forall>p \<in> set ps. \<not> touched ts p" using s(2) by (simp_all add: fresh_timestamp_def)
  have m1: "?m1 = record_undo (undo_of ts ut v 1) (undo_abs (bs_undo_map s1))" by (simp only: s1(4))
  from one_undo_ok [OF s1(1) fit s(3) m1] obtain s2 patch2 ids where u: "apply_undo s1 (undo_of ts ut v 1) = Some (s2, patch2)"
    "snapshot_ok s2 (map (undo_piece ?m1 ut ids) qs)" "undo_abs (bs_undo_map s2) = ?m1"
    "patch_rel 0 0 patch2 (encode (vis qs)) (encode (vis (map (undo_piece ?m1 ut ids) qs)))" by blast
  let ?qs = "map (undo_piece ?m1 ut ids) qs"
  have pieces: "\<forall>r \<in> set ?qs. \<exists>q \<in> set qs. cells_of r = cells_of q \<and> fr_visible (fst r) = shown ?m1 (fst q)"
  proof
    fix r
    assume r: "r \<in> set ?qs"
    then obtain q where q: "q \<in> set qs" "r = undo_piece ?m1 ut ids q" by (auto simp only: set_map)
    have "fr_visible (fst r) = shown ?m1 (fst r)" using snapshot_shown [OF u(2)] r unfolding u(3) by blast
    with q show "\<exists>q \<in> set qs. cells_of r = cells_of q \<and> fr_visible (fst r) = shown ?m1 (fst q)" by (metis undo_piece_keeps(2,5))
  qed
  have "distinct (map identity (cells_all ps))" using s(1) by (simp add: snapshot_ok_def)
  moreover have "undone ?m1 ts" using recorded_once(1) [of ?m ts] fresh(1) by simp
  ultimately have "encode (vis ?qs) = encode (vis ps)"
    using undo_text [OF _ fresh(2) snapshot_shown [OF s(1)] s1(2,3) undo_pieces_cells pieces _ recorded_other] by blast
  then
  have v: "vis ?qs = vis ps" using encode_inj [OF snapshot_valid [OF u(2)] snapshot_valid [OF s(1)]] by simp
  have t: "texts_u32 s2 ?qs" using texts_u32I [OF u(2)] s1(5) by (simp add: undo_pieces_cells)
  have "undo_or_redo_counts (bs_undo_map s1) [ts] [] = Some [(ts, 1)]"
    using single_count [of "bs_undo_map s1" ts] fit s1(1,4) fresh(1)
    by (simp add: snapshot_ok_def undo_fits_def greatest_count_def saturating_add_u32_def checked_add_def)
  from that [OF this u(1,2) t v _ u(3)] u(4) v show thesis by simp
qed

lemma redo_edit_ok:
  assumes s: "snapshot_ok s1 qs" "fresh_timestamp s ps ts" "ts \<noteq> lamport_new LOCAL" "bs_undo_map s1 = bs_undo_map s" "length (cells_all qs) < 2 ^ 32"
    and s2: "snapshot_ok s2 (map (undo_piece (record_undo (undo_of ts ut v 1) (undo_abs (bs_undo_map s))) ut ids) qs)"
      "undo_abs (bs_undo_map s2) = record_undo (undo_of ts ut v 1) (undo_abs (bs_undo_map s))"
    and fit: "undo_fits s2 (undo_of ts ut' v' 2)"
  obtains s3 patch3 ps3 where "undo_or_redo_counts (bs_undo_map s2) [ts] [] = Some [(ts, 2)]" "apply_undo s2 (undo_of ts ut' v' 2) = Some (s3, patch3)"
    "snapshot_ok s3 ps3" "texts_u32 s3 ps3" "vis ps3 = vis qs"
    "patch_rel 0 0 patch3 (encode (vis (map (undo_piece (record_undo (undo_of ts ut v 1) (undo_abs (bs_undo_map s))) ut ids) qs))) (encode (vis qs))"
proof -
  let ?m = "undo_abs (bs_undo_map s)"
  let ?m1 = "record_undo (undo_of ts ut v 1) ?m" and ?m2 = "record_undo (undo_of ts ut' v' 2) (record_undo (undo_of ts ut v 1) ?m)"
  let ?qs = "map (undo_piece ?m1 ut ids) qs"
  have fresh: "?m ts = Map.empty" using s(2) by (simp add: fresh_timestamp_def)
  have m2: "?m2 = record_undo (undo_of ts ut' v' 2) (undo_abs (bs_undo_map s2))" by (simp only: s2(2))
  from one_undo_ok [OF s2(1) fit s(3) m2] obtain s3 patch3 ids' where u: "apply_undo s2 (undo_of ts ut' v' 2) = Some (s3, patch3)"
    "snapshot_ok s3 (map (undo_piece ?m2 ut' ids') ?qs)" "undo_abs (bs_undo_map s3) = ?m2"
    "patch_rel 0 0 patch3 (encode (vis ?qs)) (encode (vis (map (undo_piece ?m2 ut' ids') ?qs)))" by blast
  have same: "undone (undo_abs (bs_undo_map s3)) e = undone (undo_abs (bs_undo_map s1)) e" for e
    using recorded_once(3) [of ?m ts] fresh never_undone [of ?m ts] recorded_other [of e ts] by (cases "e = ts") (simp_all add: u(3) s(4))
  have v: "vis (map (undo_piece ?m2 ut' ids') ?qs) = vis qs"
    unfolding map_map by (rule same_shown_text [OF s(1) u(2) [unfolded map_map] same]) simp_all
  have t: "texts_u32 s3 (map (undo_piece ?m2 ut' ids') ?qs)" using texts_u32I [OF u(2)] s(5) by (simp only: undo_pieces_cells)
  have "undo_or_redo_counts (bs_undo_map s2) [ts] [] = Some [(ts, 2)]"
    using single_count [of "bs_undo_map s2" ts] fit s2 recorded_once(2) [of ?m ts ut v] fresh
    by (simp add: snapshot_ok_def undo_fits_def saturating_add_u32_def checked_add_def)
  from that [OF this u(1,2) t v] u(4) v show thesis by simp
qed

section \<open>Samples\<close>

text \<open>An empty buffer, and what the insertion of a letter into it makes of the trees; a buffer with a text of one chunk.\<close>

definition empty_snapshot :: buffer_snapshot where
  "empty_snapshot = \<lparr>bs_visible_text = rope_new, bs_deleted_text = rope_new, bs_fragments = tree_new fragment_ops, bs_insertions = tree_new insertion_ops,
     bs_insertion_slices = map_clear, bs_undo_map = tree_new undo_ops, bs_version = global_new, bs_remote_id = 1, bs_replica_id = LOCAL, bs_line_ending = Unix\<rparr>"

abbreviation sample_time :: lamport where
  "sample_time \<equiv> Lamport 2 LOCAL"

lemma empty_snapshot_base: "base_snapshot 2 16 LOCAL 1 Unix rope_new = Some empty_snapshot"
proof -
  obtain s where s: "base_snapshot 2 16 LOCAL 1 Unix rope_new = Some s" by (rule base_snapshot_ok [OF new_ok, of 16 2 LOCAL 1 Unix]) simp_all
  have "rope_len rope_new = 0" using new_ok rope_len_holds [of rope_new] by (auto simp: rope_ok_def)
  with s show ?thesis
    by (auto simp: base_snapshot_def bind_eq_Some_conv rope_is_empty_def empty_snapshot_def simp del: base_loop.simps)
qed

definition sample_old_cursor :: "(fragment, fragment_summary, fragment_text_summary) cursor" where
  "sample_old_cursor = \<lparr>c_tree = tree_new fragment_ops, c_stack = [], c_position = \<lparr>ft_visible = 0, ft_deleted = 0\<rparr>, c_did_seek = True, c_at_end = True\<rparr>"

definition sample_reader :: rope_cursor where
  "sample_reader = \<lparr>rc_rope = rope_new, rc_chunks = \<lparr>c_tree = rope_new, c_stack = [], c_position = 0, c_did_seek = True, c_at_end = True\<rparr>, rc_offset = 0\<rparr>"

definition sample_ropes :: "rope \<Rightarrow> rope_builder" where
  "sample_ropes r = \<lparr>old_visible_cursor = sample_reader, old_deleted_cursor = sample_reader, new_visible = r, new_deleted = rope_new\<rparr>"

lemma append_new: "rope_ok r t \<Longrightarrow> t \<noteq> [] \<Longrightarrow> rope_append r rope_new = Some r" "rope_append rope_new rope_new = Some rope_new"
proof -
  assume r: "rope_ok r t" "t \<noteq> []"
  then obtain ss where "holds r ss" "ss \<noteq> []" by (metis rope_ok_def concat.simps(1))
  then have "\<not> tree_is_empty r" "\<exists>c. tree_last r = Some c" using wf_is_empty [of rope_ops r] tree_last_correct [of rope_ops r] by (auto simp: holds_def)
  then show "rope_append r rope_new = Some r" by (auto simp: rope_append_def rope_new_def tree_new_def tree_first_def tree_append_def)
qed (simp add: rope_append_def rope_new_def tree_new_def tree_first_def tree_last_def tree_append_def)

lemma empty_rope: "rope_ok q [] \<Longrightarrow> q = rope_new"
proof -
  assume q: "rope_ok q []"
  then obtain ss where "holds q ss" "concat ss = []" by (auto simp: rope_ok_def)
  then have "holds q []" by (cases ss) (auto simp: holds_def)
  then show "q = rope_new" using wf_is_leaf_empty [of rope_ops q]
    by (cases q) (auto simp: holds_def rope_new_def tree_new_def item_sum_def sum_of_def)
qed

lemma sample_at: "cursor_new_at rope_new 0 = Some sample_reader" "rc_at sample_reader [] []"
proof -
  show c: "cursor_new_at rope_new 0 = Some sample_reader"
    by (simp add: sample_reader_def cursor_new_at_def cursor_seek_def seek_internal_def rope_new_def tree_new_def
      cursor_reset_def cursor_new_def push_entry_def STACK_CAPACITY_def is_ge_def ord_cmp_def rust_assert_def usize.measure_zero
      seek_loop.simps seek_items.simps unit_aggregate_def)
  have "height rope_new < STACK_CAPACITY" by (simp add: rope_new_def tree_new_def STACK_CAPACITY_def)
  from new_cursor_ok [OF new_ok this] c show "rc_at sample_reader [] []" by (metis option.inject)
qed

lemma sample_reads: "rc_slice sample_reader 0 = Some (sample_reader, rope_new)" "rc_suffix sample_reader = Some rope_new"
proof -
  from sample_at(2) obtain as bs where c: "usize.stands (rc_chunks sample_reader) as bs" by (auto simp: rc_at_def)
  have "elems (c_tree (rc_chunks sample_reader)) = []" by (simp add: sample_reader_def rope_new_def)
  then have "as = []" "bs = []" using c unfolding usize.stands_def holds_def by simp_all
  with usize.stands_reads [OF c] have r: "cursor_item (rc_chunks sample_reader) = Some None" "cursor_end usize_dim (rc_chunks sample_reader) = Some 0" by simp_all
  have len: "rope_len rope_new = 0" using new_ok rope_len_holds [of rope_new] by (auto simp: rope_ok_def)
  have f: "rc_rope sample_reader = rope_new" "rc_offset sample_reader = 0" by (simp_all add: sample_reader_def)
  have "sample_reader\<lparr>rc_chunks := rc_chunks sample_reader, rc_offset := 0\<rparr> = sample_reader" by (simp add: sample_reader_def)
  then show s: "rc_slice sample_reader 0 = Some (sample_reader, rope_new)" using r len f by (simp add: rc_slice_def)
  show "rc_suffix sample_reader = Some rope_new" using s len f by (simp add: rc_suffix_def rope_len_def)
qed

lemma sample_builder:
  assumes "r = rope_new \<or> rope_ok r t \<and> t \<noteq> []"
  shows "rb_append (sample_ropes r) \<lparr>ft_visible = 0, ft_deleted = 0\<rparr> = Some (sample_ropes r)" "rb_finish (sample_ropes r) = Some (r, rope_new)"
proof -
  have f: "rc_offset sample_reader = 0" by (simp add: sample_reader_def)
  have "rope_append r rope_new = Some r" "rope_append rope_new rope_new = Some rope_new" using assms append_new by auto
  then show "rb_append (sample_ropes r) \<lparr>ft_visible = 0, ft_deleted = 0\<rparr> = Some (sample_ropes r)" "rb_finish (sample_ropes r) = Some (r, rope_new)"
    using f sample_reads by (simp_all add: rb_append_def rb_push_def rb_finish_def sample_ropes_def)
qed

text \<open>One edit: the letter \<open>a\<close> into an empty buffer.\<close>

lemma sample_steps:
  "cursor_item sample_old_cursor = Some None" "cursor_end fragment_text_dim sample_old_cursor = Some \<lparr>ft_visible = 0, ft_deleted = 0\<rparr>"
  "cursor_start sample_old_cursor = \<lparr>ft_visible = 0, ft_deleted = 0\<rparr>"
  "cursor_suffix fragment_ops fragment_text_dim sample_old_cursor = Some (sample_old_cursor, tree_new fragment_ops)"
  by code_simp+

definition sample_state :: "rope \<Rightarrow> fragment_builder \<Rightarrow> fragment_text_summary edit_state" where
  "sample_state r b = \<lparr>es_old = sample_old_cursor, es_new = b, es_ropes = sample_ropes r, es_start = 0, es_insertions = [],
     es_insertion_offset = 0, es_slices = [], es_patch = []\<rparr>"

lemma sample_slice:
  "cursor_slice fragment_ops fragment_text_dim (visible_target 0) Right (cursor_new fragment_text_dim (tree_new fragment_ops)) = Some (sample_old_cursor, tree_new fragment_ops)"
  by code_simp

lemma sample_start: "start_edit empty_snapshot fragment_text_dim text_offset_of (visible_target 0) Right = Some (sample_state rope_new (fb_new (tree_new fragment_ops)))"
proof -
  have "rb_new sample_reader sample_reader = sample_ropes rope_new" by (simp add: rb_new_def sample_ropes_def)
  moreover have "fs_text (fb_summary (fb_new (tree_new fragment_ops))) = \<lparr>ft_visible = 0, ft_deleted = 0\<rparr>"
    by code_simp
  ultimately show ?thesis
    using sample_at(1) sample_slice sample_builder(1) [of rope_new] sample_steps(3)
    by (simp add: start_edit_def empty_snapshot_def text_offset_of_def sample_state_def)
qed


definition sample_fragment :: fragment where
  "sample_fragment = \<lparr>fr_id = Locator [65535], fr_timestamp = sample_time, insertion_offset = 0, fr_len = 1, fr_visible = True, fr_deletions = [],
     fr_max_undos = version_new\<rparr>"

lemma sample_id: "locator_between (fs_max_id (fb_summary (fb_new (tree_new fragment_ops)))) locator_max = Some (Locator [65535])"
proof -
  have "fs_max_id (fb_summary (fb_new (tree_new fragment_ops))) = locator_min" by code_simp
  then show ?thesis by (simp add: locator_between_def locator_min_def locator_max_def between_loop.simps [of "[0]"])
qed

lemma sample_loop:
  "insertion_loop 16 [97] sample_time locator_max sample_time 0 (sample_state rope_new (fb_new (tree_new fragment_ops))) =
     Some ((sample_state rope_new (fb_push (fb_new (tree_new fragment_ops)) sample_fragment))\<lparr>es_insertions := [insert_new sample_fragment],
       es_insertion_offset := 1, es_slices := [InsertionSlice sample_time sample_time 0 1]\<rparr>)"
  using sample_id
  by (simp add: insertion_loop.simps [of _ _ _ _ _ 0] insertion_loop.simps [of _ _ _ _ _ 1] insertion_loop.simps [of _ _ _ _ _ "Suc 0"] sample_state_def slice_from_fragment_def sample_fragment_def checked_add_def Let_def)


lemma sample_push: "\<exists>r. rope_push rope_new [97] = Some r \<and> rope_ok r [97] \<and> height r = 0"
proof -
  have "valid_str [97]" "encode [97] = [97]" by (simp_all add: valid_str_def valid_char_def encode_char_def)
  with push_ok [OF new_ok, of "[97]"] obtain r where r: "rope_push rope_new [97] = Some r" "rope_ok r [97]" by auto
  have "push_last rope_new [97] = Some (rope_new, [97])"
    by (simp add: push_last_def rope_new_def tree_new_def tree_last_def update_last_def)
  moreover have "split_chunks [97] = Some [[97]]" by code_simp
  ultimately obtain c where "tree_extend rope_ops rope_new [c] = Some r"
    using r(1) by (auto simp: rope_push_def NUM_CHUNKS_def MAX_BASE_def bind_eq_Some_conv)
  then have "height r = 0"
    by (auto simp: tree_extend_def from_iter_def from_iter_leaves.simps from_iter_levels.simps TREE_BASE_def rope_new_def tree_new_def tree_append_def Let_def)
  with r show ?thesis by auto
qed


lemma sample_tree: "to_sum_tree (fb_push (fb_new (tree_new fragment_ops)) sample_fragment) = Some t \<Longrightarrow> height t = 0"
  by (auto simp: to_sum_tree_def fb_push_def fb_new_def tree_new_def last_opt_def tree_extend_def from_iter_def from_iter_leaves.simps
    from_iter_levels.simps TREE_BASE_def tree_append_def Let_def)

lemma sample_tree_exists: "\<exists>t. to_sum_tree (fb_push (fb_new (tree_new fragment_ops)) sample_fragment) = Some t"
  by (auto simp: to_sum_tree_def fb_push_def fb_new_def tree_new_def last_opt_def tree_extend_def from_iter_def from_iter_leaves.simps
    from_iter_levels.simps TREE_BASE_def tree_append_def Let_def)

lemma sample_insertion:
  "map_option (\<lambda>(t, _). height t) (tree_edit insertion_ops insertion_dim insertion_key_of (tree_new insertion_ops) [insert_new sample_fragment]) = Some 0"
  "map_option height (set_extend map_clear [InsertionSlice sample_time sample_time 0 1]) = Some 0"
  by code_simp+

lemma sample_insert:
  assumes "rope_push rope_new [97] = Some r"
  shows "\<exists>st. edit_all 1 16 replace_separators sample_time [((0, 0), [97])] (sample_state rope_new (fb_new (tree_new fragment_ops))) [] [] = Some (st, [(0, 0)], [[97]]) \<and>
    es_old st = sample_old_cursor \<and> es_new st = fb_push (fb_new (tree_new fragment_ops)) sample_fragment \<and> es_ropes st = sample_ropes r \<and> es_start st = 0 \<and>
    es_insertions st = [insert_new sample_fragment] \<and> es_slices st = [InsertionSlice sample_time sample_time 0 1]"
proof -
  have "rb_push_str (sample_ropes rope_new) [97] = Some (sample_ropes r)" using assms by (simp add: rb_push_str_def sample_ropes_def)
  then show ?thesis
    using sample_steps sample_loop
    by (simp add: edit_one_def normalize_endings_def skip_to_def push_prefix_def insert_local_def text_offset_of_def next_fragment_id_def
      push_fragments_for_insertion_def sample_state_def Let_def)
qed

lemma sample_edit:
  obtains s1 op patch where "apply_edit_internal 1 16 replace_separators empty_snapshot [((0, 0), [97])] sample_time = Some (s1, op, patch)"
    "height (bs_fragments s1) = 0" "height (bs_insertions s1) = 0" "height (bs_insertion_slices s1) = 0" "bs_undo_map s1 = tree_new undo_ops"
    "rope_ok (bs_visible_text s1) [97]" "height (bs_visible_text s1) = 0" "bs_deleted_text s1 = rope_new"
proof -
  obtain r where r: "rope_push rope_new [97] = Some r" "rope_ok r [97]" "height r = 0" using sample_push by blast
  from sample_insert [OF r(1)] obtain st where st: "edit_all 1 16 replace_separators sample_time [((0, 0), [97])] (sample_state rope_new (fb_new (tree_new fragment_ops))) [] [] = Some (st, [(0, 0)], [[97]])"
    "es_old st = sample_old_cursor" "es_new st = fb_push (fb_new (tree_new fragment_ops)) sample_fragment" "es_ropes st = sample_ropes r" "es_start st = 0"
    "es_insertions st = [insert_new sample_fragment]" "es_slices st = [InsertionSlice sample_time sample_time 0 1]" by blast
  have ropes: "rb_append (sample_ropes r) \<lparr>ft_visible = 0, ft_deleted = 0\<rparr> = Some (sample_ropes r)" "rb_finish (sample_ropes r) = Some (r, rope_new)"
    using sample_builder [of r "[97]"] r(2) by simp_all
  have z: "fs_text (summary (tree_new fragment_ops)) = \<lparr>ft_visible = 0, ft_deleted = 0\<rparr>" "tree_is_empty (tree_new fragment_ops)" by code_simp+
  have "finish_fragments fragment_text_dim text_offset_of st = Some (st\<lparr>es_old := sample_old_cursor, es_ropes := sample_ropes r, es_new := es_new st\<rparr>)"
    using st sample_steps ropes z by (simp add: finish_fragments_def leave_fragment_def text_offset_of_def append_slice_def fb_append_def)
  moreover have "st\<lparr>es_old := sample_old_cursor, es_ropes := sample_ropes r, es_new := es_new st\<rparr> = st" using st by (cases st) simp
  ultimately have fin: "finish_fragments fragment_text_dim text_offset_of st = Some st" by simp
  obtain f g "is" sl where t: "to_sum_tree (es_new st) = Some f"
    "tree_edit insertion_ops insertion_dim insertion_key_of (tree_new insertion_ops) [insert_new sample_fragment] = Some (is, g)" "height is = 0"
    "set_extend map_clear [InsertionSlice sample_time sample_time 0 1] = Some sl" "height sl = 0"
    using sample_insertion sample_tree_exists st(3) by auto
  have "height f = 0" using sample_tree [of f] t(1) st(3) by simp
  let ?s = "empty_snapshot\<lparr>bs_fragments := f, bs_insertions := is, bs_visible_text := r, bs_deleted_text := rope_new, bs_insertion_slices := sl\<rparr>"
  have "store_edit st empty_snapshot = Some ?s"
    using st(4,6,7) ropes(2) t(1,2,4) by (simp add: store_edit_def empty_snapshot_def)
  then have "apply_edit_internal 1 16 replace_separators empty_snapshot [((0, 0), [97])] sample_time =
      Some (?s, \<lparr>eo_timestamp = sample_time, eo_version = bs_version empty_snapshot, eo_ranges = [(0, 0)], eo_new_text = [[97]]\<rparr>, es_patch st)"
    using sample_start st(1) fin by (simp add: apply_edit_internal_def del: edit_all.simps)
  then show thesis by (rule that) (use r t \<open>height f = 0\<close> in \<open>simp_all add: empty_snapshot_def\<close>)
qed


lemma sample_undo_fits:
  assumes "apply_edit_internal 1 16 replace_separators empty_snapshot [((0, 0), [97])] sample_time = Some (s1, op, patch)"
  shows "undo_fits s1 (undo_of sample_time (Lamport 3 LOCAL) global_new 1)"
proof -
  from sample_edit assms have h: "height (bs_fragments s1) = 0" "height (bs_insertions s1) = 0" "height (bs_insertion_slices s1) = 0"
    "bs_undo_map s1 = tree_new undo_ops" "rope_ok (bs_visible_text s1) [97]" "height (bs_visible_text s1) = 0" "bs_deleted_text s1 = rope_new"
    by (metis option.inject prod.inject)+
  then obtain ss where "holds (bs_visible_text s1) ss" "concat ss = [97]" by (auto simp: rope_ok_def)
  then have "length (elems (bs_visible_text s1)) \<le> 1" by (cases ss; cases "tl ss") (auto simp: holds_def append_eq_Cons_conv)
  then have "slices_fit (bs_visible_text s1)" "slices_fit rope_new" by (auto intro: small_rope_fits simp: rope_new_def)
  moreover have "map_option height (undo_insert (tree_new undo_ops) (undo_of sample_time (Lamport 3 LOCAL) global_new 1)) = Some 0" by code_simp
  ultimately show ?thesis
    using h by (auto simp: undo_fits_def snapshot_fits_def has_room_def STACK_CAPACITY_def rope_new_def tree_new_def)
qed


lemma sample_empty: "snapshot_ok empty_snapshot []" "snapshot_fits empty_snapshot" "fresh_timestamp empty_snapshot [] sample_time"
proof -
  obtain s ps where s: "base_snapshot 2 16 LOCAL 1 Unix rope_new = Some s" "snapshot_ok s ps" by (rule base_snapshot_ok [OF new_ok, of 16 2 LOCAL 1 Unix]) simp_all
  then have "s = empty_snapshot" using empty_snapshot_base by simp
  moreover from this s(2) have "ps = []" by (simp add: snapshot_ok_def empty_snapshot_def)
  ultimately show "snapshot_ok empty_snapshot []" using s(2) by simp
  show "snapshot_fits empty_snapshot"
    by (rule base_snapshot_fits [OF new_ok, where n = 16 and fuel = 0]) (use empty_snapshot_base in \<open>simp_all add: rope_new_def tree_new_def numeral_2_eq_2\<close>)
  show "fresh_timestamp empty_snapshot [] sample_time"
    by (auto simp: fresh_timestamp_def empty_snapshot_def undo_abs_def lamport_MIN_def)
qed

lemma pieces_le: "\<forall>p \<in> set ps. snd p \<noteq> [] \<Longrightarrow> length ps \<le> length (concat (map snd ps))"
proof (induction ps)
  case (Cons p ps)
  then show ?case by (cases "snd p") auto
qed simp

lemma sample_buffer:
  obtains s ps where "base_snapshot 9 16 LOCAL 1 Unix (one_chunk sample_text) = Some s" "snapshot_ok s ps" "snapshot_fits s"
    "fresh_timestamp s ps sample_time" "vis ps = sample_text" "length ps < 9" "length (cells_all ps) = 6"
proof -
  have len: "str_len sample_text = 6" by (simp add: len_utf8_def)
  obtain s ps where s: "base_snapshot 9 16 LOCAL 1 Unix (one_chunk sample_text) = Some s" "snapshot_ok s ps"
    "inserted (lamport_new LOCAL) 0 sample_text ps" "bs_undo_map s = tree_new undo_ops"
    by (rule base_snapshot_ok [OF sample_rope(1), of 16 9 LOCAL 1 Unix]) (simp_all add: len_utf8_def)
  have "base_snapshot (Suc (Suc 7)) 16 LOCAL 1 Unix (one_chunk sample_text) = Some s" using s(1) by simp
  moreover have "length (elems (one_chunk sample_text)) \<le> 1" "height (one_chunk sample_text) = 0" by (simp_all add: one_chunk_def)
  moreover have "str_len sample_text \<le> 16" using len by simp
  ultimately have "snapshot_fits s" using base_snapshot_fits [OF sample_rope(1)] by blast
  moreover have "fresh_timestamp s ps sample_time"
    using s(3,4) by (auto simp: fresh_timestamp_def undo_abs_def inserted_def new_piece_def touched_def lamport_MIN_def lamport_new_def)
  moreover have "length ps < 9" using pieces_le [of ps] s(3) by (simp add: inserted_def texted_def)
  moreover have "length (cells_all ps) = 6" using s(3) len by (simp add: inserted_def length_encode_char)
  ultimately show thesis using that s(1,2) inserted_vis(1) [OF s(3)] by blast
qed

section \<open>New buffers and local edits\<close>

text \<open>
  The snapshot of a new buffer (\<open>new_normalized\<close>) satisfies the invariant, wherever the fragments are cut: all of the text is visible, nothing is
  deleted, and it is one insertion, the cells of which are numbered from the start.
\<close>

theorem new_buffer_correct:
  assumes "rope_ok r t" "4 \<le> max_len" "str_len t < 2 ^ 32" "length t < fuel"
  shows "\<exists>s ps. base_snapshot fuel max_len replica remote ending r = Some s \<and> snapshot_ok s ps \<and> texts_u32 s ps \<and> vis ps = t \<and> del ps = [] \<and>
    cells_all ps = map (\<lambda>(i, b). (lamport_new LOCAL, i, b)) (enumerate 0 (encode t))"
proof -
  from base_snapshot_ok [OF assms] obtain s ps where "base_snapshot fuel max_len replica remote ending r = Some s" "snapshot_ok s ps"
    "inserted (lamport_new LOCAL) 0 t ps" by metis
  with inserted_vis [of "lamport_new LOCAL" 0 t ps] texts_u32I [of s ps] cells_len [of ps] assms(3) show ?thesis by (auto simp: inserted_def)
qed

theorem new_buffer_correct_witness:
  "\<exists>s ps. base_snapshot 9 16 LOCAL 1 Unix (one_chunk sample_text) = Some s \<and> snapshot_ok s ps \<and> vis ps = sample_text"
  using new_buffer_correct [of "one_chunk sample_text" sample_text 16 9 LOCAL 1 Unix] sample_rope(1) by (auto simp: len_utf8_def)

text \<open>
  C39. A local edit (\<open>apply_edit_internal\<close>) of a snapshot that satisfies the invariant returns, however the edits fall on the fragments: the new snapshot
  satisfies the invariant again, its visible text is the old one with each range replaced by its text (with line endings normalized), the patch
  handed to the subscribers leads from the old text to the new one, its edits are separated, the operation records the texts that were inserted, and
  the bytes of all earlier insertions, visible or deleted, are still there in their order. The kept text and the new one together must have less than
  \<open>2 ^ 32\<close> bytes; then no \<open>u32\<close> addition for the new texts overflows.
  The edits are given as the callers give them: in order, not overlapping, at character boundaries (a script of kept, replaced and inserted texts).
  The time of the edit is not one the buffer has seen, the trees are low enough for the sixteen levels of a cursor's stack, and the fuel is
  more than the number of fragments.
\<close>

theorem local_edit_correct:
  assumes "snapshot_ok s ps" "snapshot_fits s" "fresh_timestamp s ps ts" "vis ps = text_before es rest" "normal_script rx es"
    and "4 \<le> max_len" "max_len < 2 ^ 32" "length ps < fuel" "length (cells_all ps) + str_len (text_after es rest) < 2 ^ 32"
  shows "\<exists>s' ranges patch ps'. apply_edit_internal fuel max_len rx s (edits_of 0 es) ts = Some (s',
      \<lparr>eo_timestamp = ts, eo_version = bs_version s, eo_ranges = ranges, eo_new_text = map (\<lambda>(k, r, t, s). encode t) es\<rparr>, patch) \<and>
    snapshot_ok s' ps' \<and> texts_u32 s' ps' \<and> vis ps' = text_after es rest \<and>
    patch_rel 0 0 patch (encode (vis ps)) (encode (vis ps')) \<and> separated patch \<and> old_cells ts ps' = cells_all ps"
proof -
  have "inserted_len es < 2 ^ 32" using assms(9) inserted_le [of es rest] by simp
  from local_edit_ok [OF assms(1-8) this] obtain s' ranges patch ps' where e: "apply_edit_internal fuel max_len rx s (edits_of 0 es) ts = Some (s',
      \<lparr>eo_timestamp = ts, eo_version = bs_version s, eo_ranges = ranges, eo_new_text = map (\<lambda>(k, r, t, s). encode t) es\<rparr>, patch)"
    "snapshot_ok s' ps'" "vis ps' = text_after es rest" "patch_rel 0 0 patch (encode (vis ps)) (encode (vis ps'))" "separated patch"
    "old_cells ts ps' = cells_all ps" "origins ts ps ps'" by metis
  have "\<forall>p \<in> set ps. \<not> touched ts p" using assms(3) by (simp add: fresh_timestamp_def)
  with edited_cells [OF this e(7)] e(3,6) assms(9) have "texts_u32 s' ps'" by (intro texts_u32I [OF e(2)]) simp
  with e show ?thesis by metis
qed

theorem local_edit_correct_witness:
  "\<exists>s s' ps' op patch. base_snapshot 9 16 LOCAL 1 Unix (one_chunk sample_text) = Some s \<and>
     apply_edit_internal 9 16 replace_separators s [((1, 2), [97, 13, 10])] sample_time = Some (s', op, patch) \<and>
     snapshot_ok s' ps' \<and> vis ps' = [104, 97, 10, 0x1F600]"
proof -
  obtain s ps where s: "base_snapshot 9 16 LOCAL 1 Unix (one_chunk sample_text) = Some s" "snapshot_ok s ps" "snapshot_fits s"
    "fresh_timestamp s ps sample_time" "vis ps = sample_text" "length ps < 9" "length (cells_all ps) = 6" by (rule sample_buffer)
  let ?es = "[([104], [10], [97, 10], [97, 13, 10])] :: script"
  have n: "normal_script replace_separators ?es" by (simp add: normal_script_def normalize_endings_def encode_char_def valid_str_def valid_char_def)
  have e: "edits_of 0 ?es = [((1, 2), [97, 13, 10])]" by (simp add: len_utf8_def)
  from local_edit_correct [OF s(2-4) _ n, of "[0x1F600]" 16 9, unfolded e] s(1,5-7) show ?thesis by (auto simp: len_utf8_def)
qed

text \<open>
  C40. Undoing a local edit restores the text the buffer had before it, and redoing it brings the edited text back: \<open>undo_or_redo\<close> computes the count
  1 for the edit, and \<open>apply_undo\<close> with it returns a snapshot that satisfies the invariant and shows exactly the old text, although the edit has cut the
  fragments in new places; then it computes the count 2, and \<open>apply_undo\<close> gives the edited text again. The patches lead from the one text to the other.
  \<open>undo_fits\<close> states of each undo that the trees it seeks in are low enough for a cursor's stack.
\<close>

theorem undo_edit_roundtrip:
  assumes "snapshot_ok s ps" "snapshot_fits s" "fresh_timestamp s ps ts" "vis ps = text_before es rest" "normal_script rx es"
    and "4 \<le> max_len" "max_len < 2 ^ 32" "length ps < fuel" "length (cells_all ps) + str_len (text_after es rest) < 2 ^ 32" "ts \<noteq> lamport_new LOCAL"
  shows "\<exists>s1 op patch. apply_edit_internal fuel max_len rx s (edits_of 0 es) ts = Some (s1, op, patch) \<and>
    (undo_fits s1 (undo_of ts ut v 1) \<longrightarrow>
      (\<exists>s2 patch2 ps2. undo_or_redo_counts (bs_undo_map s1) [ts] [] = Some [(ts, 1)] \<and> apply_undo s1 (undo_of ts ut v 1) = Some (s2, patch2) \<and>
        snapshot_ok s2 ps2 \<and> texts_u32 s2 ps2 \<and> vis ps2 = vis ps \<and> patch_rel 0 0 patch2 (encode (text_after es rest)) (encode (vis ps)) \<and>
        (undo_fits s2 (undo_of ts ut' v' 2) \<longrightarrow>
          (\<exists>s3 patch3 ps3. undo_or_redo_counts (bs_undo_map s2) [ts] [] = Some [(ts, 2)] \<and> apply_undo s2 (undo_of ts ut' v' 2) = Some (s3, patch3) \<and>
            snapshot_ok s3 ps3 \<and> texts_u32 s3 ps3 \<and> vis ps3 = text_after es rest \<and>
            patch_rel 0 0 patch3 (encode (vis ps)) (encode (text_after es rest))))))"
proof -
  have "inserted_len es < 2 ^ 32" using assms(9) inserted_le [of es rest] by simp
  from local_edit_ok [OF assms(1-8) this] obtain s1 op patch qs where e: "apply_edit_internal fuel max_len rx s (edits_of 0 es) ts = Some (s1, op, patch)"
    "snapshot_ok s1 qs" "vis qs = text_after es rest" "old_cells ts qs = cells_all ps" "origins ts ps qs" "bs_undo_map s1 = bs_undo_map s" by metis
  have "\<forall>p \<in> set ps. \<not> touched ts p" using assms(3) by (simp add: fresh_timestamp_def)
  from edited_cells [OF this e(5)] e(3,4) assms(9) have small: "length (cells_all qs) < 2 ^ 32" by simp
  note undo = undo_edit_ok [OF assms(1,3,10) e(2,4,5,6) small] and redo = redo_edit_ok [OF e(2) assms(3,10) e(6) small]
  let ?m = "record_undo (undo_of ts ut v 1) (undo_abs (bs_undo_map s))"
  have "\<exists>s2 patch2 ps2. undo_or_redo_counts (bs_undo_map s1) [ts] [] = Some [(ts, 1)] \<and> apply_undo s1 (undo_of ts ut v 1) = Some (s2, patch2) \<and>
      snapshot_ok s2 ps2 \<and> texts_u32 s2 ps2 \<and> vis ps2 = vis ps \<and> patch_rel 0 0 patch2 (encode (text_after es rest)) (encode (vis ps)) \<and>
      (undo_fits s2 (undo_of ts ut' v' 2) \<longrightarrow>
        (\<exists>s3 patch3 ps3. undo_or_redo_counts (bs_undo_map s2) [ts] [] = Some [(ts, 2)] \<and> apply_undo s2 (undo_of ts ut' v' 2) = Some (s3, patch3) \<and>
          snapshot_ok s3 ps3 \<and> texts_u32 s3 ps3 \<and> vis ps3 = text_after es rest \<and>
          patch_rel 0 0 patch3 (encode (vis ps)) (encode (text_after es rest))))"
    if "undo_fits s1 (undo_of ts ut v 1)"
  proof -
    from undo [OF that] obtain s2 patch2 ids where u: "undo_or_redo_counts (bs_undo_map s1) [ts] [] = Some [(ts, 1)]"
      "apply_undo s1 (undo_of ts ut v 1) = Some (s2, patch2)" "snapshot_ok s2 (map (undo_piece ?m ut ids) qs)"
      "texts_u32 s2 (map (undo_piece ?m ut ids) qs)" "vis (map (undo_piece ?m ut ids) qs) = vis ps"
      "patch_rel 0 0 patch2 (encode (vis qs)) (encode (vis ps))" "undo_abs (bs_undo_map s2) = ?m" .
    have "\<exists>s3 patch3 ps3. undo_or_redo_counts (bs_undo_map s2) [ts] [] = Some [(ts, 2)] \<and> apply_undo s2 (undo_of ts ut' v' 2) = Some (s3, patch3) \<and>
        snapshot_ok s3 ps3 \<and> texts_u32 s3 ps3 \<and> vis ps3 = vis qs \<and> patch_rel 0 0 patch3 (encode (vis ps)) (encode (vis qs))"
      if fit: "undo_fits s2 (undo_of ts ut' v' 2)"
      by (rule redo [OF u(3,7) fit, unfolded u(5)]) blast
    with u show ?thesis unfolding e(3) by blast
  qed
  with e(1) show ?thesis by blast
qed


theorem undo_edit_roundtrip_witness:
  "\<exists>s1 op patch s2 patch2 ps2. apply_edit_internal 1 16 replace_separators empty_snapshot [((0, 0), [97])] sample_time = Some (s1, op, patch) \<and>
     rope_ok (bs_visible_text s1) [97] \<and> apply_undo s1 (undo_of sample_time (Lamport 3 LOCAL) global_new 1) = Some (s2, patch2) \<and>
     snapshot_ok s2 ps2 \<and> vis ps2 = []"
proof -
  let ?es = "[([], [], [97], [97])] :: script"
  have n: "normal_script replace_separators ?es" by (simp add: normal_script_def normalize_endings_def encode_char_def valid_str_def valid_char_def)
  have e: "edits_of 0 ?es = [((0, 0), [97])]" by simp
  have t: "sample_time \<noteq> lamport_new LOCAL" by (simp add: lamport_new_def)
  from sample_edit obtain s1 op patch where s1: "apply_edit_internal 1 16 replace_separators empty_snapshot [((0, 0), [97])] sample_time = Some (s1, op, patch)"
    "rope_ok (bs_visible_text s1) [97]" by metis
  from undo_edit_roundtrip [OF sample_empty _ n _ _ _ _ t, of "[]" 16 1 "Lamport 3 LOCAL" global_new "Lamport 4 LOCAL" global_new, unfolded e]
    s1 sample_undo_fits [OF s1(1)] show ?thesis by (auto simp: len_utf8_def)
qed

end
