(* ===== verification/Spec2Isabelle.thy ===== *)
theory Spec2Isabelle
  imports Clock SumTree_Theorems Locator UndoMap Subscription Selection RopeLines_Correct RopeMeasure_Correct Rope_Theorems StreamingDiff History LexPreview LineFormat
    Buffer_Theorems
begin

text \<open>
  Verification of the text core of Lexed, the editor for Lex documents (a fork of the Zed editor), and of the
  document conversion of its preview.

  \<^bold>\<open>The program.\<close> Everything the editor shows is text in buffers. A buffer is a replicated data type: its edits are
  ordered by Lamport timestamps and version vectors (\<open>src/crates/clock\<close>), its fragments lie at dense positions
  (\<open>Locator\<close>) in B-trees that cache summaries (\<open>src/crates/sum_tree\<close>), undone edits are counted in another such
  tree (\<open>UndoMap\<close>), local undo and redo are stacks of transactions (\<open>History\<close>), and changes are told to clients as
  patches (\<open>Patch\<close>, \<open>Topic\<close>, all in \<open>src/crates/text\<close>). The characters themselves are in ropes
  (\<open>src/crates/rope\<close>), trees of chunks of up to 128 bytes whose bitmaps give lengths and positions by counting bits.
  The preview (\<open>src/crates/lex_preview\<close>) turns the HTML exported from a Lex document into styled text.

  \<^bold>\<open>How code is modelled.\<close> \<open>Prelude\<close> says it in full. A panic is \<^const>\<open>None\<close>; \<open>usize\<close> is \<^typ>\<open>nat\<close>, fixed
  widths are words whose arithmetic is checked, so that \<^const>\<open>None\<close> is also the overflow. Two kinds of numbers are natural numbers although the
  code has a fixed width for them: the height of a tree (\<open>u8\<close>), which no tree that fits in memory exhausts, and the numbers in the
  summaries and dimensions that the tree of a rope adds up (\<open>u32\<close> fields of \<open>TextSummary\<close>, \<open>Point\<close> and \<open>PointUtf16\<close>). For the latter \<^const>\<open>Some\<close>
  alone does not say that no addition overflows: the theorems about them bound the text by \<open>2 ^ 32\<close> bytes and relate the numbers to the \<open>u32\<close> fields and the
  checked additions of the code. Structures are records
  or datatypes, traits are records of the operations a generic function uses, and state is passed explicitly.
  Functions that the sources call in other packages (the HTML parser, the regular expressions) are arguments.

  \<^bold>\<open>Theories and sources.\<close>

  \<^item> \<open>Prelude\<close>: machine integers, orderings, the list functions of the standard library.
  \<^item> \<open>Clock\<close> (\<open>clock/src/clock.rs\<close>): timestamps with \<open>tick\<close> and \<open>observe\<close>, version vectors with \<open>observe\<close>, \<open>join\<close>,
    \<open>meet\<close> and the comparisons. Runs of a clock satisfy the clock condition; vectors form a lattice order.
  \<^item> \<open>SumTree\<close>, \<open>SumTree_Correct\<close>, \<open>SumTree_Search\<close> (\<open>sum_tree/src/sum_tree.rs\<close>): the tree with construction,
    appending, updates and searches; well-formedness (balance, occupancy, cached summaries) is kept by every operation,
    and searching is a linear scan of the sequence of items. The locale \<open>summary_monoid\<close> states what the trees need of
    a summary.
  \<^item> \<open>Cursor\<close>, \<open>Cursor_Correct\<close>, \<open>Cursor_Walk\<close>, \<open>Cursor_Iter\<close> (\<open>sum_tree/src/cursor.rs\<close>): cursors with their stack;
    a cursor denotes an index into the sequence, and seeking, slicing, walking and iterating act on the index.
  \<^item> \<open>KeyedTree\<close>, \<open>TreeMap\<close> (\<open>sum_tree.rs\<close>, \<open>sum_tree/src/tree_map.rs\<close>): keyed operations and maps refine finite maps.
  \<^item> \<open>SumTree_Theorems\<close>: the theorems of these theories, stated over the model.
  \<^item> \<open>Locator\<close>, \<open>UndoMap\<close>, \<open>Patch\<close>, \<open>Subscription\<close>, \<open>Selection\<close> (the files of \<open>text/src\<close> with these names): density
    of locators; undo counts refine a map and commute; composing patches composes the changes of text; a subscriber's
    patch leads from the text it has seen to the current one, by induction over what topics can do; selections stay
    ordered.
  \<^item> \<open>History\<close> (\<open>text/src/text.rs\<close>): transactions and the two stacks; the step relation \<open>history_step\<close> has a step for
    each call of the buffer, its invariant is proved by rule induction, and undoing composes with \<open>UndoMap\<close>.
  \<^item> \<open>LineFormat\<close> (\<open>text/src/text.rs\<close>): indentation; saving with a line ending and loading again.
  \<^item> \<open>Point\<close>, \<open>TextSummary\<close>, \<open>Chunk\<close>, \<open>Chunk_Correct\<close>, \<open>NthSetBit\<close>, \<open>ChunkRows\<close> (\<open>rope/src\<close>, and \<open>nth_set_bit\<close> of
    \<open>rope/src/chunk.rs\<close>): positions; summaries of text, a homomorphism from concatenation; chunks, whose bitmaps agree with
    their text after every operation, so that counting bits equals reading characters; the bit-parallel selection of the
    n-th set bit, and the conversions from positions to offsets that rest on it.
  \<^item> \<open>RopeSummary\<close>, \<open>Rope\<close>, \<open>Rope_Correct\<close> (\<open>rope/src/rope.rs\<close>): the tree of chunks, that is the sum tree at this item type;
    pushing, appending, replacing, slicing and the rope's cursor. \<open>rope_ok r t\<close> says that a rope is well formed, that its chunks
    keep their bounds and that its text is \<open>t\<close>; every operation keeps it and does to \<open>t\<close> what its name says.
  \<^item> \<open>RopePositions\<close>, \<open>RopePositions_Correct\<close>: summaries, conversions between byte offsets, UTF-16 offsets and points, and
    clipping, each composed of a search of the tree and the operation of a chunk. The locales \<open>text_measure\<close>,
    \<open>ordered_measure\<close> and \<open>two_measures\<close> state what a dimension promises, and are interpreted on the rope's four dimensions.
  \<^item> \<open>Rope_Theorems\<close>: pushing, appending, slicing and replacing on texts of less than \<open>2 ^ 32\<close> bytes; \<open>u32_ok\<close> says that the checked \<open>u32\<close>
    additions give the summary of every node of the tree, and are defined on any two adjacent parts of the text.
  \<^item> \<open>RopeChunks\<close>, \<open>RopeChunks_Correct\<close>, \<open>RopeLines_Correct\<close>, \<open>RopeMeasure_Correct\<close>: the iterators over chunks, bitmaps, bytes
    and lines in both directions, the comparisons with strings and \<open>Cursor::summary\<close>. The locale \<open>piece_reader\<close> is the contract of
    an iterator (each call returns a piece of what is left and keeps the rest); its interpretations on the iterators over
    chunks, bitmaps, bytes and lines, forward and reversed, give that a loop over them ends and reads everything once.
  \<^item> \<open>Fragment\<close>, \<open>Fragment_Correct\<close>, \<open>BufferEdit\<close>, \<open>BufferEdit_Correct\<close> (\<open>text/src/text.rs\<close>): fragments with their summaries, dimensions and
    builders, and the single pass in which \<open>apply_edit_internal\<close> makes the new fragments and texts of a local edit. A buffer is a list of
    pieces, fragments with their texts; each byte is a cell, known by its insertion and its offset there.
  \<^item> \<open>Snapshot\<close>, \<open>BufferBase\<close>, \<open>BufferUndo\<close>, \<open>BufferUndo_Correct\<close>, \<open>Buffer_Theorems\<close> (\<open>text/src/text.rs\<close>): the invariant \<open>snapshot_ok s ps\<close> of a
    snapshot (trees well formed, locators ascending, cells distinct, every fragment found through the insertions and the slices of the edits that touched
    it, its visibility that of the undo map, the two ropes the visible and the deleted text), the snapshot of a new buffer, and undo operations. A local
    edit refines replacing ranges of the text and keeps the cells of earlier insertions; undoing it and redoing it restore the texts.
  \<^item> \<open>StreamingDiff\<close> (\<open>streaming_diff/src/streaming_diff.rs\<close>): the matrix of scores, pushing text and backtracking; whatever
    the scores are, the operations lead from the old text to the new one.
  \<^item> \<open>LexPreview\<close> (\<open>lex_preview/src/html_tree.rs\<close>, text collection of \<open>render_html.rs\<close>): conversion of the parsed
    document, and inline text whose runs partition it.

  \<^bold>\<open>Termination, fuel and bounds.\<close> Recursive functions are total, with a measure where the recursion is not on the
  structure (heights of trees, lengths, the bitmaps that a loop shifts away). Loops over cursors and iterators take fuel, one unit
  for each call of \<open>next\<close>: the number of items, of characters or of lines plus one is enough, and the theorems say that
  with it the loop gives its result. \<open>has_room\<close>, or \<open>height r < STACK_CAPACITY\<close>, bounds the height of a tree by the
  capacity of a cursor's stack, sixteen, which a tree of any practical size satisfies. \<open>slice_fits\<close>,
  \<open>rope_slice_fits\<close> and \<open>rope_replace_fits\<close> say the same of the trees that a slice of a rope cuts out, which are appended to other ropes with a cursor;
  \<open>slices_fit\<close>, \<open>snapshot_fits\<close> and \<open>undo_fits\<close> say it of the trees of a buffer. \<open>max_len\<close> is \<open>MAX_INSERTION_LEN\<close>, which differs between builds; the
  theorems ask that it is at least the length of a character.

  \<^bold>\<open>Not modelled.\<close> Of the buffer: remote edits, the queue of deferred operations, anchors and the edits between versions; the versioned offsets of
  \<open>Fragment\<close>, on which remote edits and anchors rest, are defined but have no theorems, nor have \<open>read\<close> of \<open>Bytes\<close>, \<open>next_line\<close> and \<open>prev_line\<close> of a rope.
  \<open>LineDiff\<close> on top of the streaming diff. The operation queue, whose summaries satisfy no law of addition. Formatting for debugging, and everything that is input and
  output, network, rendering or user interface: the remaining crates of the repository.
\<close>

end
